(* ===== verification/Prelude.thy ===== *)
theory Prelude
  imports Main "HOL-Library.Word"
begin

text \<open>
  Prelude of the development: the C types of the target as words, the convention for C results
  and undefined behaviour, a small weakest-precondition calculus over it, and the generic lemmas
  on words that several components share.

  The build of the repository (the \<open>nanopb.xcconfig\<close> of its Pods) defines
  \<open>PB_FIELD_32BIT\<close> and \<open>PB_NO_PACKED_STRUCTS\<close> and none of the other options,
  so \<open>pb_size_t\<close> is \<open>uint32_t\<close>. The target is 64-bit little endian:
  \<open>size_t\<close> and pointers have 64 bits.
\<close>

unbundle bit_operations_syntax

type_synonym pb_byte_t = "8 word"
type_synonym pb_type_t = "8 word"
type_synonym pb_size_t = "32 word"
type_synonym pb_ssize_t = "32 word"
type_synonym uint32_t = "32 word"
type_synonym uint64_t = "64 word"
type_synonym size_t = "64 word"
type_synonym errmsg_t = "string option"

named_theorems wp_rules \<open>weakest preconditions of the operations\<close>
named_theorems byte_simps \<open>little-endian bytes of words\<close>

section \<open>Results of C functions\<close>

text \<open>
  A C function of nanopb returns \<open>bool\<close> and writes its results through pointers. The model
  returns \<open>Rfalse\<close> for \<open>return false\<close> and \<open>Rtrue v\<close> for \<open>return true\<close>
  with \<open>v\<close> the values of its out parameters, together with the state it leaves. The whole
  is \<open>None\<close> where the behaviour of the C code is undefined (an access outside an object, a
  shift by the width of its operand) or where the fuel of a loop that need not end is used up.
\<close>

datatype 'a rv = Rfalse | Rtrue 'a

type_synonym ('a, 's) cres = "('a rv \<times> 's) option"

text \<open>\<open>chk x k\<close> is the idiom \<open>if (!x) return false; k\<close>.\<close>

definition chk :: "('a, 's) cres \<Rightarrow> ('a \<Rightarrow> 's \<Rightarrow> ('b, 's) cres) \<Rightarrow> ('b, 's) cres" where
  "chk x k = (case x of None \<Rightarrow> None
     | Some (r, s) \<Rightarrow> (case r of Rfalse \<Rightarrow> Some (Rfalse, s) | Rtrue a \<Rightarrow> k a s))"

text \<open>\<open>lift_st m x\<close> runs a stream operation in a state that also holds the memory.\<close>

definition lift_st :: "'m \<Rightarrow> ('a, 's) cres \<Rightarrow> ('a, 's \<times> 'm) cres" where
  "lift_st m x = map_option (\<lambda>(r, s). (r, (s, m))) x"

lemma chk_simps [simp]:
  "chk None k = None"
  "chk (Some (Rfalse, s)) k = Some (Rfalse, s)"
  "chk (Some (Rtrue a, s)) k = k a s"
  by (simp_all add: chk_def)

lemma lift_st_simps [simp]:
  "lift_st m None = None"
  "lift_st m (Some (r, s)) = Some (r, (s, m))"
  by (simp_all add: lift_st_def)

lemma chk_cong [fundef_cong]:
  assumes "x = y" and "\<And>a s. y = Some (Rtrue a, s) \<Longrightarrow> k a s = l a s"
  shows "chk x k = chk y l"
  using assms by (auto simp: chk_def split: option.splits rv.splits)

lemma chk_assoc: "chk (chk x k) l = chk x (\<lambda>a s. chk (k a s) l)"
  by (auto simp: chk_def split: option.splits rv.splits prod.splits)

lemma chk_eq_Some_True:
  "chk x k = Some (Rtrue b, s') \<longleftrightarrow> (\<exists>a s. x = Some (Rtrue a, s) \<and> k a s = Some (Rtrue b, s'))"
  by (auto simp: chk_def split: option.splits rv.splits)

lemma ex_bool [simp]: "\<exists>b. b" "\<exists>b. \<not> b"
  by (auto intro: exI [where x = True] exI [where x = False])

section \<open>Weakest preconditions\<close>

text \<open>\<open>wp x Q\<close>: the behaviour is defined, the code returns, and what it returns meets Q.\<close>

definition wp :: "('a, 's) cres \<Rightarrow> ('a rv \<Rightarrow> 's \<Rightarrow> bool) \<Rightarrow> bool" where
  "wp x Q = (case x of None \<Rightarrow> False | Some (r, s) \<Rightarrow> Q r s)"

lemma wp_Some [simp]: "wp (Some (r, s)) Q = Q r s"
  by (simp add: wp_def)

lemma wp_None [simp]: "\<not> wp None Q"
  by (simp add: wp_def)

lemma wp_iff: "wp x Q \<longleftrightarrow> (\<exists>r s. x = Some (r, s) \<and> Q r s)"
  by (auto simp: wp_def split: option.splits)

lemma wp_chk [wp_rules]:
  "wp (chk x k) Q = wp x (\<lambda>r s. case r of Rfalse \<Rightarrow> Q Rfalse s | Rtrue a \<Rightarrow> wp (k a s) Q)"
  by (auto simp: wp_def chk_def split: option.splits rv.splits)

lemma wp_lift_st [wp_rules]: "wp (lift_st m x) Q = wp x (\<lambda>r s. Q r (s, m))"
  by (auto simp: wp_def lift_st_def split: option.splits)

lemma wp_mono: "wp x P \<Longrightarrow> (\<And>r s. P r s \<Longrightarrow> Q r s) \<Longrightarrow> wp x Q"
  by (auto simp: wp_def split: option.splits)

lemma wp_conj: "wp x P \<Longrightarrow> wp x Q \<Longrightarrow> wp x (\<lambda>r s. P r s \<and> Q r s)"
  by (auto simp: wp_def split: option.splits)

lemma wp_chkI:
  assumes "wp x P" and "\<And>s. P Rfalse s \<Longrightarrow> Q Rfalse s"
    and "\<And>a s. x = Some (Rtrue a, s) \<Longrightarrow> P (Rtrue a) s \<Longrightarrow> wp (k a s) Q"
  shows "wp (chk x k) Q"
  using assms by (auto simp: wp_iff chk_def split: rv.splits)

section \<open>Words and bytes\<close>

primrec le_bytes :: "nat \<Rightarrow> 'a::len word \<Rightarrow> pb_byte_t list" where
  "le_bytes 0 w = []"
| "le_bytes (Suc n) w = ucast w # le_bytes n (drop_bit 8 w)"

primrec le_word :: "pb_byte_t list \<Rightarrow> 'a::len word" where
  "le_word [] = 0"
| "le_word (b # bs) = ucast b OR push_bit 8 (le_word bs)"

lemma length_le_bytes [simp]: "length (le_bytes n w) = n"
  by (induction n arbitrary: w) simp_all

lemma le_bytes_add: "le_bytes (m + n) w = le_bytes m w @ le_bytes n (drop_bit (8 * m) w)"
  by (induction m arbitrary: w) (simp_all add: drop_bit_drop_bit add.commute)

lemma ucast_byte_or:
  "(ucast (ucast w :: pb_byte_t) :: 'a::len word) OR push_bit 8 (take_bit n (drop_bit 8 w)) =
   take_bit (n + 8) w"
  by (rule bit_word_eqI) (auto simp: bit_simps)

lemma le_word_le_bytes: "le_word (le_bytes n w) = take_bit (8 * n) (w :: 'a::len word)"
  by (induction n arbitrary: w) (simp_all add: ucast_byte_or add.commute)

lemma le_word_le_bytes_full [byte_simps]:
  "LENGTH('a::len) \<le> 8 * n \<Longrightarrow> le_word (le_bytes n w) = (w :: 'a word)"
  by (simp add: le_word_le_bytes take_bit_word_eq_self)

lemma ucast_or_push_low:
  "8 < LENGTH('a::len) \<Longrightarrow> ucast (ucast (b :: pb_byte_t) OR push_bit 8 (x :: 'a word)) = b"
  by (rule bit_word_eqI) (auto simp: bit_simps)

lemma drop_bit_or_push:
  "8 + n \<le> LENGTH('a::len) \<Longrightarrow> take_bit n x = x \<Longrightarrow>
   drop_bit 8 (ucast (b :: pb_byte_t) OR push_bit 8 (x :: 'a word)) = x"
proof (rule bit_word_eqI)
  fix i
  assume len: "8 + n \<le> LENGTH('a)" and x: "take_bit n x = x" and i: "i < LENGTH('a)"
  have "bit x i \<Longrightarrow> i < n"
    using x by (metis bit_take_bit_iff)
  moreover have "\<not> bit b (8 + i)"
    using bit_imp_le_length [of b "8 + i"] by auto
  ultimately show "bit (drop_bit 8 (ucast b OR push_bit 8 x)) i = bit x i"
    using len i by (auto simp: bit_simps)
qed

lemma take_bit_le_word: "take_bit (8 * length bs) (le_word bs :: 'a::len word) = le_word bs"
proof (induction bs)
  case Nil
  then show ?case by simp
next
  case (Cons b bs)
  have "take_bit (8 + 8 * length bs) (ucast b OR push_bit 8 (le_word bs :: 'a word)) =
    ucast b OR push_bit 8 (take_bit (8 * length bs) (le_word bs))"
    by (rule bit_word_eqI) (auto simp: bit_simps dest: bit_imp_le_length)
  then show ?case by (simp add: Cons.IH)
qed

lemma le_bytes_le_word [byte_simps]:
  "8 * length bs \<le> LENGTH('a::len) \<Longrightarrow> 8 < LENGTH('a) \<Longrightarrow>
   le_bytes (length bs) (le_word bs :: 'a word) = bs"
proof (induction bs)
  case Nil
  then show ?case by simp
next
  case (Cons b bs)
  have "drop_bit 8 (ucast b OR push_bit 8 (le_word bs :: 'a word)) = le_word bs"
    by (rule drop_bit_or_push [where n = "8 * length bs"]) (use Cons.prems take_bit_le_word in auto)
  with Cons show ?case by (simp add: ucast_or_push_low)
qed

text \<open>The four and eight bytes of the fixed-width types.\<close>

lemma le_bytes_4:
  "le_bytes 4 w = [ucast w, ucast (drop_bit 8 w), ucast (drop_bit 16 w), ucast (drop_bit 24 w)]"
proof -
  have "(4 :: nat) = Suc (Suc (Suc (Suc 0)))" by simp
  then have "le_bytes 4 w = le_bytes (Suc (Suc (Suc (Suc 0)))) w" by (rule arg_cong)
  then show ?thesis by (simp add: drop_bit_drop_bit)
qed

lemma le_bytes_8:
  "le_bytes 8 w = [ucast w, ucast (drop_bit 8 w), ucast (drop_bit 16 w), ucast (drop_bit 24 w),
     ucast (drop_bit 32 w), ucast (drop_bit 40 w), ucast (drop_bit 48 w), ucast (drop_bit 56 w)]"
proof -
  have "(8 :: nat) = 4 + 4" by simp
  then have "le_bytes 8 w = le_bytes (4 + 4) w" by (rule arg_cong)
  also have "\<dots> = le_bytes 4 w @ le_bytes 4 (drop_bit 32 w)" by (subst le_bytes_add) simp
  finally show ?thesis by (simp add: le_bytes_4 drop_bit_drop_bit)
qed

lemma le_word_4:
  "le_word [a, b, c, d] = (push_bit 0 (ucast a) OR push_bit 8 (ucast b) OR
     push_bit 16 (ucast c) OR push_bit 24 (ucast d) :: 'a::len word)"
  by (simp add: push_bit_or push_bit_push_bit)

lemma le_word_8:
  "le_word [a, b, c, d, e, f, g, h] = (push_bit 0 (ucast a) OR push_bit 8 (ucast b) OR
     push_bit 16 (ucast c) OR push_bit 24 (ucast d) OR push_bit 32 (ucast e) OR
     push_bit 40 (ucast f) OR push_bit 48 (ucast g) OR push_bit 56 (ucast h) :: 'a::len word)"
  by (simp add: push_bit_or push_bit_push_bit)

text \<open>A 32-bit size as a \<open>size_t\<close>.\<close>

lemma unat_ucast_size [simp]: "unat (ucast (n :: uint32_t) :: size_t) = unat n"
proof -
  have "unat n < 2 ^ 32" using unsigned_less [of n] by simp
  then have "unat n < 2 ^ 64" by simp
  then show ?thesis by (simp add: unsigned_ucast_eq take_bit_nat_eq_self)
qed

text \<open>A list of known length is the list of its elements.\<close>

lemma unat_2_power: "n < LENGTH('a::len) \<Longrightarrow> unat (2 ^ n :: 'a word) = 2 ^ n"
  using unat_of_nat [of "2 ^ n :: nat", where 'a = 'a] by (simp add: take_bit_nat_eq_self)

lemma unat_drop_bit: "n < LENGTH('a::len) \<Longrightarrow> unat (drop_bit n (v :: 'a word)) = unat v div 2 ^ n"
  by (simp add: drop_bit_eq_div unat_div unat_2_power)

lemma byte_eqI:
  assumes "\<And>n. n \<in> {0, 1, 2, 3, 4, 5, 6, 7} \<Longrightarrow> bit v n = bit w n"
  shows "v = (w :: 8 word)"
proof (rule bit_word_eqI)
  fix n
  assume "n < LENGTH(8)"
  then have "n \<in> {0, 1, 2, 3, 4, 5, 6, 7}" by auto
  then show "bit v n = bit w n" by (rule assms)
qed

lemma list_of_4: "length xs = 4 \<Longrightarrow> xs = [xs ! 0, xs ! 1, xs ! 2, xs ! 3]"
  by (cases xs; cases "tl xs"; cases "tl (tl xs)"; cases "tl (tl (tl xs))") auto

end
