(* ===== verification/Memory.thy ===== *)
theory Memory
  imports Prelude
begin

text \<open>
  The memory of the program: a partial map from addresses to bytes, defined on the bytes of the
  live objects. The code reads and writes message structs through \<open>void*\<close> plus an offset,
  so the model keeps addresses and bytes. An access to a byte outside every object is undefined
  behaviour: \<open>None\<close>. Pointers held in memory are little-endian words of 64 bits. Address
  arithmetic is on \<open>int\<close>: C gives no meaning to a pointer that leaves its object, so the
  wrap-around of addresses is never relied on.
\<close>

type_synonym addr = int
type_synonym mem = "addr \<rightharpoonup> pb_byte_t"

primrec load_bytes :: "mem \<Rightarrow> addr \<Rightarrow> nat \<Rightarrow> pb_byte_t list option" where
  "load_bytes m a 0 = Some []"
| "load_bytes m a (Suc n) =
     (case m a of None \<Rightarrow> None
      | Some b \<Rightarrow> map_option (\<lambda>bs. b # bs) (load_bytes m (a + 1) n))"

primrec store_bytes :: "mem \<Rightarrow> addr \<Rightarrow> pb_byte_t list \<Rightarrow> mem option" where
  "store_bytes m a [] = Some m"
| "store_bytes m a (b # bs) =
     (case m a of None \<Rightarrow> None | Some _ \<Rightarrow> store_bytes (m(a \<mapsto> b)) (a + 1) bs)"

definition load_word :: "mem \<Rightarrow> addr \<Rightarrow> nat \<Rightarrow> 'a::len word option" where
  "load_word m a n = map_option le_word (load_bytes m a n)"

definition store_word :: "mem \<Rightarrow> addr \<Rightarrow> nat \<Rightarrow> 'a::len word \<Rightarrow> mem option" where
  "store_word m a n w = store_bytes m a (le_bytes n w)"

definition load_ptr :: "mem \<Rightarrow> addr \<Rightarrow> uint64_t option" where
  "load_ptr m a = load_word m a 8"

definition load_size :: "mem \<Rightarrow> addr \<Rightarrow> pb_size_t option" where
  "load_size m a = load_word m a 4"

definition store_size :: "mem \<Rightarrow> addr \<Rightarrow> pb_size_t \<Rightarrow> mem option" where
  "store_size m a w = store_word m a 4 w"

definition load_bool :: "mem \<Rightarrow> addr \<Rightarrow> bool option" where
  "load_bool m a = map_option (\<lambda>b. b \<noteq> 0) (m a)"

definition store_bool :: "mem \<Rightarrow> addr \<Rightarrow> bool \<Rightarrow> mem option" where
  "store_bool m a b = store_bytes m a [if b then 1 else 0]"

text \<open>\<open>st_mem f\<close> runs a memory update in the state of a decoder, a stream and the memory.\<close>

definition st_mem :: "(mem \<Rightarrow> mem option) \<Rightarrow> 's \<times> mem \<Rightarrow> (unit, 's \<times> mem) cres" where
  "st_mem f st = map_option (\<lambda>m. (Rtrue (), (fst st, m))) (f (snd st))"

section \<open>Regions\<close>

definition region :: "addr \<Rightarrow> nat \<Rightarrow> addr set" where
  "region a n = {a..<a + int n}"

definition valid :: "mem \<Rightarrow> addr \<Rightarrow> nat \<Rightarrow> bool" where
  "valid m a n \<longleftrightarrow> region a n \<subseteq> dom m"

text \<open>\<open>only_changes A m m'\<close>: the same objects, and the same bytes outside \<open>A\<close>.\<close>

definition only_changes :: "addr set \<Rightarrow> mem \<Rightarrow> mem \<Rightarrow> bool" where
  "only_changes A m m' \<longleftrightarrow> dom m' = dom m \<and> (\<forall>i. i \<notin> A \<longrightarrow> m' i = m i)"

lemma region_0 [simp]: "region a 0 = {}"
  by (simp add: region_def)

lemma region_Suc: "region a (Suc n) = insert a (region (a + 1) n)"
  by (auto simp: region_def)

lemma region_subset: "a \<le> b \<Longrightarrow> b + int n \<le> a + int k \<Longrightarrow> region b n \<subseteq> region a k"
  by (auto simp: region_def)

lemma region_prefix: "k \<le> n \<Longrightarrow> region a k \<subseteq> region a n"
  by (auto simp: region_def)

lemma region_part: "j + n \<le> k \<Longrightarrow> region (a + int j) n \<subseteq> region a k"
  by (auto simp: region_def)

lemma valid_0 [simp]: "valid m a 0"
  by (simp add: valid_def)

lemma valid_Suc: "valid m a (Suc n) \<longleftrightarrow> m a \<noteq> None \<and> valid m (a + 1) n"
  by (auto simp: valid_def region_Suc)

lemma valid_sub: "valid m a k \<Longrightarrow> region b n \<subseteq> region a k \<Longrightarrow> valid m b n"
  by (auto simp: valid_def)

lemma only_changes_refl [simp, intro]: "only_changes A m m"
  by (simp add: only_changes_def)

lemma only_changes_trans [trans]:
  "only_changes A m m' \<Longrightarrow> only_changes A m' m'' \<Longrightarrow> only_changes A m m''"
  by (simp add: only_changes_def)

lemma only_changes_mono: "only_changes A m m' \<Longrightarrow> A \<subseteq> B \<Longrightarrow> only_changes B m m'"
  by (auto simp: only_changes_def)

lemma only_changes_valid: "only_changes A m m' \<Longrightarrow> valid m' a n = valid m a n"
  by (simp add: only_changes_def valid_def)

lemma only_changes_dom: "only_changes A m m' \<Longrightarrow> dom m' = dom m"
  by (simp add: only_changes_def)

section \<open>Loads and stores\<close>

lemma load_bytes_valid: "valid m a n \<Longrightarrow> \<exists>bs. load_bytes m a n = Some bs \<and> length bs = n"
  by (induction n arbitrary: a) (fastforce simp: valid_Suc)+

lemma load_bytes_length: "load_bytes m a n = Some bs \<Longrightarrow> length bs = n"
  by (induction n arbitrary: a bs) (auto split: option.splits)

lemma load_bytes_nth:
  "load_bytes m a n = Some bs \<Longrightarrow> i < n \<Longrightarrow> m (a + int i) = Some (bs ! i)"
proof (induction n arbitrary: a bs i)
  case 0
  then show ?case by simp
next
  case (Suc n)
  then obtain b bs' where b: "m a = Some b" "load_bytes m (a + 1) n = Some bs'" "bs = b # bs'"
    by (auto split: option.splits)
  show ?case
  proof (cases i)
    case 0
    with b show ?thesis by simp
  next
    case (Suc j)
    with Suc.IH [OF b(2), of j] Suc.prems b show ?thesis by (simp add: algebra_simps)
  qed
qed

lemma load_bytesI:
  "length bs = n \<Longrightarrow> (\<And>i. i < n \<Longrightarrow> m (a + int i) = Some (bs ! i)) \<Longrightarrow> load_bytes m a n = Some bs"
proof (induction n arbitrary: a bs)
  case 0
  then show ?case by simp
next
  case (Suc n)
  then obtain b bs' where bs: "bs = b # bs'" by (cases bs) auto
  have "m a = Some b" using Suc.prems(2) [of 0] bs by simp
  moreover have "load_bytes m (a + 1) n = Some bs'"
    by (rule Suc.IH) (use Suc.prems bs Suc.prems(2) [of "Suc _"] in \<open>auto simp: algebra_simps\<close>)
  ultimately show ?case by (simp add: bs)
qed

lemma load_bytes_cong:
  assumes "\<And>i. i \<in> region a n \<Longrightarrow> m' i = m i"
  shows "load_bytes m' a n = load_bytes m a n"
  using assms by (induction n arbitrary: a) (simp_all add: region_Suc cong: option.case_cong)

lemma store_bytes_valid:
  "valid m a (length bs) \<Longrightarrow> \<exists>m'. store_bytes m a bs = Some m'"
proof (induction bs arbitrary: m a)
  case Nil
  then show ?case by simp
next
  case (Cons b bs)
  then have "valid (m(a \<mapsto> b)) (a + 1) (length bs)"
    by (auto simp: valid_def region_Suc)
  from Cons.IH [OF this] obtain m' where "store_bytes (m(a \<mapsto> b)) (a + 1) bs = Some m'" by blast
  moreover obtain c where "m a = Some c" using Cons.prems by (auto simp: valid_Suc)
  ultimately show ?case by (simp del: fun_upd_apply)
qed

lemma store_bytes_only_changes:
  "store_bytes m a bs = Some m' \<Longrightarrow> only_changes (region a (length bs)) m m'"
proof (induction bs arbitrary: m a)
  case Nil
  then show ?case by simp
next
  case (Cons b bs)
  then have "only_changes (region (a + 1) (length bs)) (m(a \<mapsto> b)) m'" "m a \<noteq> None"
    by (auto split: option.splits)
  then show ?case by (auto simp: only_changes_def region_Suc)
qed

lemma store_bytes_same:
  "store_bytes m a bs = Some m' \<Longrightarrow> load_bytes m' a (length bs) = Some bs"
proof (induction bs arbitrary: m a)
  case Nil
  then show ?case by simp
next
  case (Cons b bs)
  then have m': "store_bytes (m(a \<mapsto> b)) (a + 1) bs = Some m'"
    by (auto split: option.splits)
  have "m' a = Some b"
    using store_bytes_only_changes [OF m'] by (auto simp: only_changes_def region_def)
  with Cons.IH [OF m'] show ?case by simp
qed

lemma load_bytes_other:
  "only_changes A m m' \<Longrightarrow> region a n \<inter> A = {} \<Longrightarrow> load_bytes m' a n = load_bytes m a n"
  by (rule load_bytes_cong) (auto simp: only_changes_def)

lemma load_word_other:
  "only_changes A m m' \<Longrightarrow> region a n \<inter> A = {} \<Longrightarrow> load_word m' a n = load_word m a n"
  by (simp add: load_word_def load_bytes_other)

lemma load_word_valid: "valid m a n \<Longrightarrow> \<exists>w. load_word m a n = Some w"
  using load_bytes_valid [of m a n] by (auto simp: load_word_def)

lemma store_word_valid: "valid m a n \<Longrightarrow> \<exists>m'. store_word m a n w = Some m'"
  using store_bytes_valid [of m a "le_bytes n w"] by (simp add: store_word_def)

lemma store_word_only_changes:
  "store_word m a n w = Some m' \<Longrightarrow> only_changes (region a n) m m'"
  unfolding store_word_def by (drule store_bytes_only_changes) simp

lemma store_word_same:
  "store_word m a n w = Some m' \<Longrightarrow> LENGTH('a) \<le> 8 * n \<Longrightarrow> load_word m' a n = Some (w :: 'a::len word)"
  using store_bytes_same [of m a "le_bytes n w" m']
  by (simp add: store_word_def load_word_def byte_simps)

lemma load_size_valid: "valid m a 4 \<Longrightarrow> \<exists>w. load_size m a = Some w"
  by (simp add: load_size_def load_word_valid)

lemma load_ptr_valid: "valid m a 8 \<Longrightarrow> \<exists>w. load_ptr m a = Some w"
  by (simp add: load_ptr_def load_word_valid)

lemma load_bool_valid: "valid m a 1 \<Longrightarrow> \<exists>b. load_bool m a = Some b"
  using valid_Suc [of m a 0] by (auto simp: load_bool_def)

lemma wp_st_mem [wp_rules]:
  "wp (st_mem f st) Q \<longleftrightarrow> (\<exists>m'. f (snd st) = Some m' \<and> Q (Rtrue ()) (fst st, m'))"
  by (auto simp: st_mem_def wp_iff)

lemma wp_store_bytes:
  assumes "valid (snd st) a (length bs)"
    and "\<And>m'. store_bytes (snd st) a bs = Some m' \<Longrightarrow> only_changes (region a (length bs)) (snd st) m' \<Longrightarrow>
      Q (Rtrue ()) (fst st, m')"
  shows "wp (st_mem (\<lambda>m. store_bytes m a bs) st) Q"
  using store_bytes_valid [OF assms(1)] assms(2) store_bytes_only_changes
  by (fastforce simp: wp_st_mem)

lemma wp_store_word:
  assumes "valid (snd st) a n"
    and "\<And>m'. store_word (snd st) a n w = Some m' \<Longrightarrow> only_changes (region a n) (snd st) m' \<Longrightarrow>
      Q (Rtrue ()) (fst st, m')"
  shows "wp (st_mem (\<lambda>m. store_word m a n w) st) Q"
  using store_word_valid [OF assms(1), of w] assms(2) store_word_only_changes
  by (fastforce simp: wp_st_mem)

end
