(* ===== verification/InStream.thy ===== *)
theory InStream
  imports Memory
begin

text \<open>
  The input streams of \<open>pb_decode.c\<close>: \<open>pb_istream_t\<close>, its callback, the buffer
  callback \<open>buf_read\<close>, \<open>pb_read\<close> and \<open>pb_readbyte\<close>.

  The \<open>state\<close> pointer of a buffer stream is the list of the bytes from it to the end of the
  buffer object; reading more than that is undefined behaviour. A user callback is any function on
  a state of its own, what the \<open>state\<close> pointer points to, that returns its success, the bytes
  it stored and the new state. It changes only that state, which a stream shares with its
  substreams; to report success without having stored all the bytes, or to store more than it was
  asked for, is undefined behaviour.

  The locales state what the code relies on: \<open>in_contract\<close> for memory safety,
  \<open>in_content\<close> for the bytes that are read. Both are interpreted on \<open>buf_read\<close>.
\<close>

datatype 's in_state = Buf_ptr "pb_byte_t list" | User_ptr 's

datatype 's in_callback =
  Buf_read | User_read "'s \<Rightarrow> size_t \<Rightarrow> bool \<times> pb_byte_t list \<times> 's"

record 's pb_istream_t =
  i_callback :: "'s in_callback"
  i_state :: "'s in_state"
  bytes_left :: size_t
  i_errmsg :: errmsg_t

text \<open>\<open>PB_SET_ERROR\<close> and \<open>PB_RETURN_ERROR\<close>: the first message is kept.\<close>

definition PB_SET_ERROR :: "string \<Rightarrow> 's pb_istream_t \<Rightarrow> 's pb_istream_t" where
  "PB_SET_ERROR msg s =
     s\<lparr>i_errmsg := (case i_errmsg s of None \<Rightarrow> Some msg | Some e \<Rightarrow> Some e)\<rparr>"

definition PB_RETURN_ERROR :: "string \<Rightarrow> 's pb_istream_t \<Rightarrow> ('a, 's pb_istream_t) cres" where
  "PB_RETURN_ERROR msg s = Some (Rfalse, PB_SET_ERROR msg s)"

definition buf_read ::
  "'s in_state \<Rightarrow> bool \<Rightarrow> size_t \<Rightarrow> (bool \<times> pb_byte_t list \<times> 's in_state) option" where
  "buf_read st nonnull count =
     (case st of
        Buf_ptr source \<Rightarrow>
          if unat count \<le> length source
          then Some (True, if nonnull then take (unat count) source else [],
                 Buf_ptr (drop (unat count) source))
          else None
      | User_ptr _ \<Rightarrow> None)"

text \<open>\<open>stream->callback(stream, buf, count)\<close>\<close>

definition run_in ::
  "'s in_callback \<Rightarrow> 's in_state \<Rightarrow> bool \<Rightarrow> size_t \<Rightarrow>
   (bool \<times> pb_byte_t list \<times> 's in_state) option" where
  "run_in cb st nonnull count =
     (case cb of
        Buf_read \<Rightarrow> buf_read st nonnull count
      | User_read f \<Rightarrow>
          (case st of
             User_ptr u \<Rightarrow>
               (case f u count of (ok, bs, u') \<Rightarrow>
                  if length bs \<le> unat count \<and> (ok \<longrightarrow> length bs = unat count)
                  then Some (ok, bs, User_ptr u') else None)
           | Buf_ptr _ \<Rightarrow> None))"

text \<open>The part of \<open>pb_read\<close> after the skip: check, callback, count down.\<close>

definition pb_read_buf ::
  "bool \<Rightarrow> size_t \<Rightarrow> 's pb_istream_t \<Rightarrow> (bool \<times> pb_byte_t list \<times> 's pb_istream_t) option" where
  "pb_read_buf nonnull count s =
     (if bytes_left s < count then Some (False, [], PB_SET_ERROR ''end-of-stream'' s)
      else case run_in (i_callback s) (i_state s) nonnull count of None \<Rightarrow> None
           | Some (ok, bs, st) \<Rightarrow>
               let s' = s\<lparr>i_state := st\<rparr>
               in if \<not> ok then Some (False, bs, PB_SET_ERROR ''io error'' s')
                  else Some (True, bs, s'\<lparr>bytes_left := bytes_left s' - count\<rparr>))"

text \<open>The skip of a stream with a user callback: blocks of 16 bytes into a local buffer.\<close>

function pb_read_skip ::
  "size_t \<Rightarrow> 's pb_istream_t \<Rightarrow> (bool \<times> pb_byte_t list \<times> 's pb_istream_t) option" where
  "pb_read_skip count s =
     (if count > 16 then
        (case pb_read_buf True 16 s of None \<Rightarrow> None
         | Some (ok, bs, s') \<Rightarrow>
             if \<not> ok then Some (False, [], s') else pb_read_skip (count - 16) s')
      else map_option (\<lambda>(ok, bs, s'). (ok, [], s')) (pb_read_buf True count s))"
  by pat_completeness auto
termination
  by (relation "measure (\<lambda>(count, s). unat count)") (auto simp: unat_sub_if' word_less_nat_alt)

declare pb_read_skip.simps [simp del]

text \<open>\<open>pb_read(stream, buf, count)\<close>, with whether \<open>buf\<close> is not null.\<close>

definition pb_read ::
  "bool \<Rightarrow> size_t \<Rightarrow> 's pb_istream_t \<Rightarrow> (bool \<times> pb_byte_t list \<times> 's pb_istream_t) option" where
  "pb_read nonnull count s =
     (if \<not> nonnull \<and> i_callback s \<noteq> Buf_read then pb_read_skip count s
      else pb_read_buf nonnull count s)"

text \<open>The three uses: into a local array, into memory, and to skip.\<close>

definition read_local :: "size_t \<Rightarrow> 's pb_istream_t \<Rightarrow> (pb_byte_t list, 's pb_istream_t) cres" where
  "read_local count s =
     map_option (\<lambda>(ok, bs, s'). (if ok then Rtrue bs else Rfalse, s')) (pb_read True count s)"

definition read_null :: "size_t \<Rightarrow> 's pb_istream_t \<Rightarrow> (unit, 's pb_istream_t) cres" where
  "read_null count s =
     map_option (\<lambda>(ok, bs, s'). (if ok then Rtrue () else Rfalse, s')) (pb_read False count s)"

definition read_mem ::
  "addr \<Rightarrow> size_t \<Rightarrow> 's pb_istream_t \<times> mem \<Rightarrow> (unit, 's pb_istream_t \<times> mem) cres" where
  "read_mem dest count st =
     (case pb_read True count (fst st) of None \<Rightarrow> None
      | Some (ok, bs, s') \<Rightarrow>
          map_option (\<lambda>m'. (if ok then Rtrue () else Rfalse, (s', m')))
            (store_bytes (snd st) dest bs))"

definition pb_readbyte :: "'s pb_istream_t \<Rightarrow> (pb_byte_t, 's pb_istream_t) cres" where
  "pb_readbyte s =
     (if bytes_left s = 0 then PB_RETURN_ERROR ''end-of-stream'' s
      else case run_in (i_callback s) (i_state s) True 1 of None \<Rightarrow> None
           | Some (ok, bs, st) \<Rightarrow>
               let s' = s\<lparr>i_state := st\<rparr>
               in if \<not> ok then PB_RETURN_ERROR ''io error'' s'
                  else Some (Rtrue (hd bs), s'\<lparr>bytes_left := bytes_left s' - 1\<rparr>))"

definition pb_istream_from_buffer :: "pb_byte_t list \<Rightarrow> size_t \<Rightarrow> 's pb_istream_t" where
  "pb_istream_from_buffer buf bufsize =
     \<lparr>i_callback = Buf_read, i_state = Buf_ptr buf, bytes_left = bufsize, i_errmsg = None\<rparr>"

lemma PB_SET_ERROR_simps [simp]:
  "i_callback (PB_SET_ERROR msg s) = i_callback s"
  "i_state (PB_SET_ERROR msg s) = i_state s"
  "bytes_left (PB_SET_ERROR msg s) = bytes_left s"
  "i_errmsg (PB_SET_ERROR msg s) \<noteq> None"
  by (simp_all add: PB_SET_ERROR_def split: option.splits)

lemma wp_PB_RETURN_ERROR [wp_rules]:
  "wp (PB_RETURN_ERROR msg s) Q = Q Rfalse (PB_SET_ERROR msg s)"
  by (simp add: PB_RETURN_ERROR_def)

lemma pb_istream_from_buffer_simps [simp]:
  "i_callback (pb_istream_from_buffer buf n) = Buf_read"
  "i_state (pb_istream_from_buffer buf n) = Buf_ptr buf"
  "bytes_left (pb_istream_from_buffer buf n) = n"
  "i_errmsg (pb_istream_from_buffer buf n) = None"
  by (simp_all add: pb_istream_from_buffer_def)

section \<open>What the decoder relies on\<close>

text \<open>
  \<open>stream_ok cb fits k s\<close>: the stream reads through \<open>cb\<close>, and its state can serve the
  bytes the stream has left and \<open>k\<close> more, those of the streams it is a substream of.
\<close>

definition stream_ok ::
  "'s in_callback \<Rightarrow> ('s in_state \<Rightarrow> nat \<Rightarrow> bool) \<Rightarrow> nat \<Rightarrow> 's pb_istream_t \<Rightarrow> bool" where
  "stream_ok cb fits k s \<longleftrightarrow> i_callback s = cb \<and> fits (i_state s) (unat (bytes_left s) + k)"

lemma stream_ok_SET_ERROR [simp]: "stream_ok cb fits k (PB_SET_ERROR msg s) = stream_ok cb fits k s"
  by (simp add: stream_ok_def)

lemma stream_ok_errmsg [simp]: "stream_ok cb fits k (s\<lparr>i_errmsg := e\<rparr>) = stream_ok cb fits k s"
  by (simp add: stream_ok_def)

text \<open>
  The contract of a callback for safety: where the state can serve a request the call is defined,
  and its new state can serve what was left, all of it when the call failed.
\<close>

locale in_contract =
  fixes cb :: "'s in_callback"
    and fits :: "'s in_state \<Rightarrow> nat \<Rightarrow> bool"
  assumes run_defined: "fits st (unat n) \<Longrightarrow> nonnull \<or> cb = Buf_read \<Longrightarrow> run_in cb st nonnull n \<noteq> None"
    and run_fits: "fits st (unat n + k) \<Longrightarrow> run_in cb st nonnull n = Some (ok, bs, st') \<Longrightarrow>
      fits st' (if ok then k else unat n + k)"
    and fits_less: "fits st j \<Longrightarrow> k \<le> j \<Longrightarrow> fits st k"
begin

lemma run_in_length:
  "run_in cb st True n = Some (ok, bs, st') \<Longrightarrow> length bs \<le> unat n \<and> (ok \<longrightarrow> length bs = unat n)"
  by (auto simp: run_in_def buf_read_def split: in_callback.splits in_state.splits prod.splits if_splits)

lemma pb_read_buf_ok:
  assumes "stream_ok cb fits k s" and "nonnull \<or> cb = Buf_read"
  shows "\<exists>ok bs s'. pb_read_buf nonnull n s = Some (ok, bs, s') \<and> stream_ok cb fits k s' \<and>
    (nonnull \<longrightarrow> length bs \<le> unat n \<and> (ok \<longrightarrow> length bs = unat n)) \<and>
    (if ok then n \<le> bytes_left s \<and> bytes_left s' = bytes_left s - n
     else bytes_left s' = bytes_left s)"
proof (cases "bytes_left s < n")
  case True
  then show ?thesis using assms by (auto simp: pb_read_buf_def intro: exI [where x = False])
next
  case False
  then have n: "unat n \<le> unat (bytes_left s)" by (simp add: word_le_nat_alt not_less)
  from assms have cb: "i_callback s = cb" and f: "fits (i_state s) (unat n + (unat (bytes_left s) - unat n + k))"
    using n by (simp_all add: stream_ok_def)
  have "run_in cb (i_state s) nonnull n \<noteq> None"
    by (rule run_defined [OF fits_less [OF f] assms(2)]) simp
  then obtain ok bs st' where run: "run_in cb (i_state s) nonnull n = Some (ok, bs, st')" by auto
  have "fits st' (if ok then unat (bytes_left s) - unat n + k else unat (bytes_left s) + k)"
    using run_fits [OF f run] n by (cases ok) simp_all
  moreover have "nonnull \<Longrightarrow> length bs \<le> unat n \<and> (ok \<longrightarrow> length bs = unat n)"
    using run run_in_length by simp
  moreover have "pb_read_buf nonnull n s = Some (ok, bs,
      if ok then s\<lparr>i_state := st', bytes_left := bytes_left s - n\<rparr>
      else PB_SET_ERROR ''io error'' (s\<lparr>i_state := st'\<rparr>))"
    using False run cb by (simp add: pb_read_buf_def)
  moreover have "n \<le> bytes_left s" "unat (bytes_left s - n) = unat (bytes_left s) - unat n"
    using False by (simp_all add: unat_sub not_less)
  ultimately show ?thesis using cb by (cases ok) (simp_all add: stream_ok_def)
qed

lemma pb_read_skip_ok:
  assumes "stream_ok cb fits k s"
  shows "\<exists>ok s'. pb_read_skip n s = Some (ok, [], s') \<and> stream_ok cb fits k s' \<and>
    (if ok then n \<le> bytes_left s \<and> bytes_left s' = bytes_left s - n
     else bytes_left s' \<le> bytes_left s)"
  using assms
proof (induction n s rule: pb_read_skip.induct)
  case (1 n s)
  show ?case
  proof (cases "n > 16")
    case False
    then show ?thesis
      using pb_read_buf_ok [OF "1.prems", of True n]
      by (auto simp: pb_read_skip.simps [of n s] split: if_splits)
  next
    case True
    obtain ok bs s1 where s1: "pb_read_buf True 16 s = Some (ok, bs, s1)" "stream_ok cb fits k s1"
      and left: "if ok then 16 \<le> bytes_left s \<and> bytes_left s1 = bytes_left s - 16
                 else bytes_left s1 = bytes_left s"
      using pb_read_buf_ok [OF "1.prems", of True 16] by auto
    show ?thesis
    proof (cases ok)
      case False
      then show ?thesis using True s1 left
        by (auto simp: pb_read_skip.simps [of n s] intro: exI [where x = False])
    next
      case okT: True
      from "1.IH" [OF True s1(1) refl refl] okT s1(2)
      obtain ok' s' where s': "pb_read_skip (n - 16) s1 = Some (ok', [], s')" "stream_ok cb fits k s'"
        "if ok' then n - 16 \<le> bytes_left s1 \<and> bytes_left s' = bytes_left s1 - (n - 16)
         else bytes_left s' \<le> bytes_left s1" by auto
      have "pb_read_skip n s = Some (ok', [], s')"
        using True okT s1(1) s'(1) by (simp add: pb_read_skip.simps [of n s])
      moreover have "if ok' then n \<le> bytes_left s \<and> bytes_left s' = bytes_left s - n
         else bytes_left s' \<le> bytes_left s"
        using s'(3) left okT True by (auto simp: word_le_nat_alt unat_sub_if' word_less_nat_alt split: if_splits)
      ultimately show ?thesis using s'(2) by blast
    qed
  qed
qed

text \<open>The three ways to read, as weakest preconditions.\<close>

lemma read_local_ok:
  "stream_ok cb fits k s \<Longrightarrow> wp (read_local n s) (\<lambda>r s'. stream_ok cb fits k s' \<and>
     bytes_left s' \<le> bytes_left s \<and>
     (\<forall>bs. r = Rtrue bs \<longrightarrow> length bs = unat n \<and> n \<le> bytes_left s \<and> bytes_left s' = bytes_left s - n))"
  using pb_read_buf_ok [of k s True n]
  by (fastforce simp: read_local_def pb_read_def intro: word_sub_le split: if_splits)

lemma read_null_ok:
  assumes "stream_ok cb fits k s"
  shows "wp (read_null n s) (\<lambda>r s'. stream_ok cb fits k s' \<and> bytes_left s' \<le> bytes_left s \<and>
     (r \<noteq> Rfalse \<longrightarrow> n \<le> bytes_left s \<and> bytes_left s' = bytes_left s - n))"
proof (cases "cb = Buf_read")
  case True
  then show ?thesis using pb_read_buf_ok [OF assms, of False n] assms
    by (fastforce simp: read_null_def pb_read_def stream_ok_def intro: word_sub_le split: if_splits)
next
  case False
  then show ?thesis using pb_read_skip_ok [OF assms, of n] assms
    by (fastforce simp: read_null_def pb_read_def stream_ok_def intro: word_sub_le split: if_splits)
qed

lemma read_mem_ok:
  assumes "stream_ok cb fits k s" and "valid m a (unat n)"
  shows "wp (read_mem a n (s, m)) (\<lambda>r (s', m'). stream_ok cb fits k s' \<and>
     bytes_left s' \<le> bytes_left s \<and> only_changes (region a (unat n)) m m' \<and>
     (r \<noteq> Rfalse \<longrightarrow> n \<le> bytes_left s \<and> bytes_left s' = bytes_left s - n))"
proof -
  obtain ok bs s' where r: "pb_read True n s = Some (ok, bs, s')" "stream_ok cb fits k s'"
    "length bs \<le> unat n" and left: "if ok then n \<le> bytes_left s \<and> bytes_left s' = bytes_left s - n
         else bytes_left s' = bytes_left s"
    using pb_read_buf_ok [OF assms(1), of True n] by (auto simp: pb_read_def)
  have sub: "region a (length bs) \<subseteq> region a (unat n)"
    using r(3) by (rule region_prefix)
  then obtain m' where m': "store_bytes m a bs = Some m'"
    using store_bytes_valid valid_sub assms(2) by blast
  then have "only_changes (region a (unat n)) m m'"
    using store_bytes_only_changes only_changes_mono sub by blast
  then show ?thesis using r m' left
    by (auto simp: read_mem_def intro: word_sub_le split: if_splits)
qed

lemma pb_readbyte_ok:
  assumes "stream_ok cb fits k s"
  shows "wp (pb_readbyte s) (\<lambda>r s'. stream_ok cb fits k s' \<and> bytes_left s' \<le> bytes_left s \<and>
     (r \<noteq> Rfalse \<longrightarrow> 0 < bytes_left s \<and> bytes_left s' = bytes_left s - 1))"
proof (cases "bytes_left s = 0")
  case True
  then show ?thesis using assms by (simp add: pb_readbyte_def wp_rules)
next
  case False
  then have "1 \<le> unat (bytes_left s)" by (simp add: Suc_le_eq unat_gt_0)
  then have f: "fits (i_state s) (unat (1 :: size_t) + (unat (bytes_left s) - 1 + k))"
    and cb: "i_callback s = cb" using assms by (simp_all add: stream_ok_def)
  have "run_in cb (i_state s) True 1 \<noteq> None"
    by (rule run_defined [OF fits_less [OF f]]) simp_all
  then obtain ok bs st' where run: "run_in cb (i_state s) True 1 = Some (ok, bs, st')" by auto
  have "fits st' (if ok then unat (bytes_left s) - 1 + k else unat (bytes_left s) + k)"
    using run_fits [OF f run] \<open>1 \<le> unat (bytes_left s)\<close> by (cases ok) simp_all
  moreover have "unat (bytes_left s - 1) = unat (bytes_left s) - 1"
    using \<open>1 \<le> unat (bytes_left s)\<close> by (simp add: unat_sub word_le_nat_alt)
  ultimately show ?thesis using False run cb
    by (auto simp: pb_readbyte_def stream_ok_def wp_rules Let_def word_le_nat_alt word_gt_0)
qed

end

section \<open>The bytes that are read\<close>

text \<open>
  A callback that serves the bytes of a sequence, \<open>content st\<close>, in their order and without
  errors: the contract under which decoding is a function of the input.
\<close>

locale in_content = in_contract cb fits
  for cb :: "'s in_callback" and fits :: "'s in_state \<Rightarrow> nat \<Rightarrow> bool" +
  fixes content :: "'s in_state \<Rightarrow> pb_byte_t list"
  assumes fits_content: "fits st j \<Longrightarrow> j \<le> length (content st)"
    and run_content: "fits st (unat n) \<Longrightarrow> run_in cb st nonnull n = Some (ok, bs, st') \<Longrightarrow>
      ok \<and> (nonnull \<longrightarrow> bs = take (unat n) (content st)) \<and> content st' = drop (unat n) (content st)"

text \<open>The bytes the stream has left.\<close>

definition avail :: "('s in_state \<Rightarrow> pb_byte_t list) \<Rightarrow> 's pb_istream_t \<Rightarrow> pb_byte_t list" where
  "avail content s = take (unat (bytes_left s)) (content (i_state s))"

lemma avail_SET_ERROR [simp]: "avail content (PB_SET_ERROR msg s) = avail content s"
  by (simp add: avail_def)

lemma avail_errmsg [simp]: "avail content (s\<lparr>i_errmsg := e\<rparr>) = avail content s"
  by (simp add: avail_def)

context in_content begin

lemma length_avail: "stream_ok cb fits k s \<Longrightarrow> length (avail content s) = unat (bytes_left s)"
  using fits_content [OF fits_less [of _ _ "unat (bytes_left s)"]] by (fastforce simp: stream_ok_def avail_def)

lemma readbyte_Cons:
  assumes "stream_ok cb fits k s" and "avail content s = b # bs"
  shows "\<exists>s'. pb_readbyte s = Some (Rtrue b, s') \<and> stream_ok cb fits k s' \<and>
    avail content s' = bs \<and> i_errmsg s' = i_errmsg s"
proof -
  have n0: "bytes_left s \<noteq> 0" using assms(2) by (auto simp: avail_def)
  then have n1: "1 \<le> unat (bytes_left s)" by (simp add: Suc_le_eq unat_gt_0)
  then have f: "fits (i_state s) (unat (1 :: size_t) + (unat (bytes_left s) - 1 + k))"
    and cb: "i_callback s = cb" using assms by (simp_all add: stream_ok_def)
  have f1: "fits (i_state s) (unat (1 :: size_t))" by (rule fits_less [OF f]) simp
  obtain ok cs st' where run: "run_in cb (i_state s) True 1 = Some (ok, cs, st')"
    using run_defined [OF f1] by fastforce
  note c = run_content [OF f1 run]
  have "fits st' (unat (bytes_left s) - 1 + k)" using run_fits [OF f run] c by simp
  moreover have u: "unat (bytes_left s - 1) = unat (bytes_left s) - 1"
    using n1 by (simp add: unat_sub word_le_nat_alt)
  moreover have "hd cs = b" "take (unat (bytes_left s) - 1) (content st') = bs"
    using c assms(2) n1 by (cases "content (i_state s)"; auto simp: avail_def take_Cons')+
  ultimately show ?thesis using n0 run cb c
    by (auto simp: pb_readbyte_def stream_ok_def avail_def)
qed

lemma readbyte_Nil:
  assumes "stream_ok cb fits k s" and "avail content s = []"
  shows "pb_readbyte s = Some (Rfalse, PB_SET_ERROR ''end-of-stream'' s)"
proof -
  have "unat (bytes_left s) = 0" using length_avail [OF assms(1)] assms(2) by simp
  then have "bytes_left s = 0" by (simp add: unat_eq_0)
  then show ?thesis by (simp add: pb_readbyte_def PB_RETURN_ERROR_def)
qed

lemma read_buf_content:
  assumes "stream_ok cb fits k s" and "nonnull \<or> cb = Buf_read"
    and "unat n \<le> length (avail content s)"
  shows "\<exists>bs s'. pb_read_buf nonnull n s = Some (True, bs, s') \<and> stream_ok cb fits k s' \<and>
    (nonnull \<longrightarrow> bs = take (unat n) (avail content s)) \<and>
    avail content s' = drop (unat n) (avail content s) \<and> i_errmsg s' = i_errmsg s"
proof -
  have n: "unat n \<le> unat (bytes_left s)" using assms(3) length_avail [OF assms(1)] by simp
  have left: "\<not> bytes_left s < n" using n by (simp add: word_less_nat_alt)
  from assms n have cb: "i_callback s = cb"
    and f: "fits (i_state s) (unat n + (unat (bytes_left s) - unat n + k))"
    by (simp_all add: stream_ok_def)
  have f1: "fits (i_state s) (unat n)" by (rule fits_less [OF f]) simp
  obtain ok bs st' where run: "run_in cb (i_state s) nonnull n = Some (ok, bs, st')"
    using run_defined [OF f1 assms(2)] by fastforce
  note c = run_content [OF f1 run]
  have "fits st' (unat (bytes_left s) - unat n + k)" using run_fits [OF f run] c by simp
  moreover have "unat (bytes_left s - n) = unat (bytes_left s) - unat n"
    using n by (simp add: unat_sub word_le_nat_alt)
  ultimately show ?thesis using left run cb c n
    by (auto simp: pb_read_buf_def stream_ok_def avail_def drop_take)
qed

lemma read_buf_short:
  "stream_ok cb fits k s \<Longrightarrow> length (avail content s) < unat n \<Longrightarrow>
   pb_read_buf nonnull n s = Some (False, [], PB_SET_ERROR ''end-of-stream'' s)"
  by (simp add: length_avail pb_read_buf_def word_less_nat_alt)

lemma read_local_content:
  "stream_ok cb fits k s \<Longrightarrow> unat n \<le> length (avail content s) \<Longrightarrow>
   \<exists>s'. read_local n s = Some (Rtrue (take (unat n) (avail content s)), s') \<and> stream_ok cb fits k s' \<and>
    avail content s' = drop (unat n) (avail content s) \<and> i_errmsg s' = i_errmsg s"
  using read_buf_content [of k s True n] by (auto simp: read_local_def pb_read_def)

lemma read_local_short:
  "stream_ok cb fits k s \<Longrightarrow> length (avail content s) < unat n \<Longrightarrow>
   read_local n s = Some (Rfalse, PB_SET_ERROR ''end-of-stream'' s)"
  by (simp add: read_local_def pb_read_def read_buf_short)

lemma skip_content:
  "stream_ok cb fits k s \<Longrightarrow> unat n \<le> length (avail content s) \<Longrightarrow>
   \<exists>s'. pb_read_skip n s = Some (True, [], s') \<and> stream_ok cb fits k s' \<and>
    avail content s' = drop (unat n) (avail content s) \<and> i_errmsg s' = i_errmsg s"
proof (induction n s rule: pb_read_skip.induct)
  case (1 n s)
  show ?case
  proof (cases "n > 16")
    case False
    then show ?thesis using read_buf_content [OF "1.prems"(1) _ "1.prems"(2), of True]
      by (auto simp: pb_read_skip.simps [of n s])
  next
    case True
    then have n: "unat n = 16 + unat (n - 16)" by (auto simp: word_less_nat_alt unat_sub_if')
    then have "unat (16 :: size_t) \<le> length (avail content s)" using "1.prems"(2) by simp
    then obtain bs s1 where s1: "pb_read_buf True 16 s = Some (True, bs, s1)" "stream_ok cb fits k s1"
      "avail content s1 = drop 16 (avail content s)" "i_errmsg s1 = i_errmsg s"
      using read_buf_content [OF "1.prems"(1), of True 16] by auto
    have "unat (n - 16) \<le> length (avail content s1)" using "1.prems"(2) n s1(3) by simp
    from "1.IH" [OF True s1(1) refl refl _ s1(2) this] s1(3,4)
    show ?thesis using True s1(1) n by (auto simp: pb_read_skip.simps [of n s] add.commute)
  qed
qed

lemma skip_short:
  assumes "stream_ok cb fits k s" and "length (avail content s) < unat n"
  shows "\<exists>s'. pb_read_skip n s = Some (False, [], s') \<and> stream_ok cb fits k s'"
  using pb_read_skip_ok [OF assms(1), of n] assms
  by (auto simp: length_avail word_less_nat_alt word_le_nat_alt split: if_splits)

lemma read_null_content:
  assumes "stream_ok cb fits k s" and "unat n \<le> length (avail content s)"
  shows "\<exists>s'. read_null n s = Some (Rtrue (), s') \<and> stream_ok cb fits k s' \<and>
    avail content s' = drop (unat n) (avail content s) \<and> i_errmsg s' = i_errmsg s"
proof (cases "cb = Buf_read")
  case True
  then show ?thesis using read_buf_content [OF assms(1) _ assms(2), of False] assms(1)
    by (auto simp: read_null_def pb_read_def stream_ok_def)
next
  case False
  then show ?thesis using skip_content [OF assms] assms(1)
    by (auto simp: read_null_def pb_read_def stream_ok_def)
qed

lemma read_null_short:
  assumes "stream_ok cb fits k s" and "length (avail content s) < unat n"
  shows "\<exists>s'. read_null n s = Some (Rfalse, s') \<and> stream_ok cb fits k s'"
proof (cases "cb = Buf_read")
  case True
  then show ?thesis using read_buf_short [OF assms, of False] assms(1)
    by (auto simp: read_null_def pb_read_def stream_ok_def)
next
  case False
  then show ?thesis using skip_short [OF assms] assms(1)
    by (auto simp: read_null_def pb_read_def stream_ok_def)
qed

end

section \<open>Buffer streams\<close>

definition buf_fits :: "'s in_state \<Rightarrow> nat \<Rightarrow> bool" where
  "buf_fits st n = (case st of Buf_ptr source \<Rightarrow> n \<le> length source | User_ptr _ \<Rightarrow> False)"

definition buf_content :: "'s in_state \<Rightarrow> pb_byte_t list" where
  "buf_content st = (case st of Buf_ptr source \<Rightarrow> source | User_ptr _ \<Rightarrow> [])"

interpretation buf_in: in_content Buf_read buf_fits buf_content
  by unfold_locales
    (auto simp: run_in_def buf_read_def buf_fits_def buf_content_def
      split: in_state.splits if_splits)

text \<open>A user callback meets the safety contract when it stores what it says it stored.\<close>

lemma run_user:
  assumes "\<And>u n. length (fst (snd (f u n))) \<le> unat n \<and>
    (fst (f u n) \<longrightarrow> length (fst (snd (f u n))) = unat n)"
  shows "\<exists>ok bs u'. run_in (User_read f) (User_ptr u) nonnull n = Some (ok, bs, User_ptr u')"
proof -
  obtain ok bs u' where "f u n = (ok, bs, u')" by (cases "f u n") auto
  then show ?thesis using assms [of u n] by (simp add: run_in_def)
qed

lemma user_contract:
  assumes "\<And>u n. length (fst (snd (f u n))) \<le> unat n \<and>
    (fst (f u n) \<longrightarrow> length (fst (snd (f u n))) = unat n)"
  shows "in_contract (User_read f) (\<lambda>st n. \<exists>u. st = User_ptr u)"
proof unfold_locales
  fix st :: "'a in_state" and n nonnull
  assume "\<exists>u. st = User_ptr u"
  then show "run_in (User_read f) st nonnull n \<noteq> None"
    using run_user [of f, OF assms] by fastforce
next
  fix st st' :: "'a in_state" and n nonnull ok bs
  assume "\<exists>u. st = User_ptr u" and "run_in (User_read f) st nonnull n = Some (ok, bs, st')"
  then show "\<exists>u. st' = User_ptr u"
    using run_user [of f, OF assms] by (metis option.inject prod.inject)
qed

end
