(* ===== verification/Descriptor.thy ===== *)
theory Descriptor
  imports Memory
begin

text \<open>
  The field descriptors of \<open>pb.h\<close>: the type byte and its masks, \<open>pb_field_t\<close>, and the
  initialiser macros of the generated code. A descriptor array ends with an entry of tag 0. The
  untyped \<open>ptr\<close> of a field is null, the descriptor array of a submessage, or the bytes of a
  default value.
\<close>

section \<open>The type byte\<close>

abbreviation (input) PB_LTYPE_VARINT :: pb_type_t where "PB_LTYPE_VARINT \<equiv> 0x00"
abbreviation (input) PB_LTYPE_UVARINT :: pb_type_t where "PB_LTYPE_UVARINT \<equiv> 0x01"
abbreviation (input) PB_LTYPE_SVARINT :: pb_type_t where "PB_LTYPE_SVARINT \<equiv> 0x02"
abbreviation (input) PB_LTYPE_FIXED32 :: pb_type_t where "PB_LTYPE_FIXED32 \<equiv> 0x03"
abbreviation (input) PB_LTYPE_FIXED64 :: pb_type_t where "PB_LTYPE_FIXED64 \<equiv> 0x04"
abbreviation (input) PB_LTYPE_LAST_PACKABLE :: pb_type_t where "PB_LTYPE_LAST_PACKABLE \<equiv> 0x04"
abbreviation (input) PB_LTYPE_BYTES :: pb_type_t where "PB_LTYPE_BYTES \<equiv> 0x05"
abbreviation (input) PB_LTYPE_STRING :: pb_type_t where "PB_LTYPE_STRING \<equiv> 0x06"
abbreviation (input) PB_LTYPE_SUBMESSAGE :: pb_type_t where "PB_LTYPE_SUBMESSAGE \<equiv> 0x07"
abbreviation (input) PB_LTYPE_EXTENSION :: pb_type_t where "PB_LTYPE_EXTENSION \<equiv> 0x08"
abbreviation (input) PB_LTYPE_FIXED_LENGTH_BYTES :: pb_type_t where "PB_LTYPE_FIXED_LENGTH_BYTES \<equiv> 0x09"
abbreviation (input) PB_LTYPES_COUNT :: nat where "PB_LTYPES_COUNT \<equiv> 10"
abbreviation (input) PB_LTYPE_MASK :: pb_type_t where "PB_LTYPE_MASK \<equiv> 0x0F"

abbreviation (input) PB_HTYPE_REQUIRED :: pb_type_t where "PB_HTYPE_REQUIRED \<equiv> 0x00"
abbreviation (input) PB_HTYPE_OPTIONAL :: pb_type_t where "PB_HTYPE_OPTIONAL \<equiv> 0x10"
abbreviation (input) PB_HTYPE_REPEATED :: pb_type_t where "PB_HTYPE_REPEATED \<equiv> 0x20"
abbreviation (input) PB_HTYPE_ONEOF :: pb_type_t where "PB_HTYPE_ONEOF \<equiv> 0x30"
abbreviation (input) PB_HTYPE_MASK :: pb_type_t where "PB_HTYPE_MASK \<equiv> 0x30"

abbreviation (input) PB_ATYPE_STATIC :: pb_type_t where "PB_ATYPE_STATIC \<equiv> 0x00"
abbreviation (input) PB_ATYPE_POINTER :: pb_type_t where "PB_ATYPE_POINTER \<equiv> 0x80"
abbreviation (input) PB_ATYPE_CALLBACK :: pb_type_t where "PB_ATYPE_CALLBACK \<equiv> 0x40"
abbreviation (input) PB_ATYPE_MASK :: pb_type_t where "PB_ATYPE_MASK \<equiv> 0xC0"

definition PB_ATYPE :: "pb_type_t \<Rightarrow> pb_type_t" where "PB_ATYPE x = x AND PB_ATYPE_MASK"
definition PB_HTYPE :: "pb_type_t \<Rightarrow> pb_type_t" where "PB_HTYPE x = x AND PB_HTYPE_MASK"
definition PB_LTYPE :: "pb_type_t \<Rightarrow> pb_type_t" where "PB_LTYPE x = x AND PB_LTYPE_MASK"

abbreviation (input) PB_SIZE_MAX :: pb_size_t where "PB_SIZE_MAX \<equiv> 0xFFFFFFFF"
abbreviation (input) PB_MAX_REQUIRED_FIELDS :: nat where "PB_MAX_REQUIRED_FIELDS \<equiv> 64"

text \<open>
  The wire type is an \<open>enum\<close>, but the decoder casts the low three bits of a tag to it, so it
  also takes the values 3, 4, 6 and 7 that name no wire type.
\<close>

type_synonym pb_wire_type_t = "32 word"

abbreviation (input) PB_WT_VARINT :: pb_wire_type_t where "PB_WT_VARINT \<equiv> 0"
abbreviation (input) PB_WT_64BIT :: pb_wire_type_t where "PB_WT_64BIT \<equiv> 1"
abbreviation (input) PB_WT_STRING :: pb_wire_type_t where "PB_WT_STRING \<equiv> 2"
abbreviation (input) PB_WT_32BIT :: pb_wire_type_t where "PB_WT_32BIT \<equiv> 5"

section \<open>Field descriptors\<close>

datatype pb_field =
  Pb_field (tag: pb_size_t) (ftype: pb_type_t) (data_offset: pb_size_t)
    (size_offset: pb_ssize_t) (data_size: pb_size_t) (array_size: pb_size_t) (ptr: pb_ptr)
and pb_ptr = Null_ptr | Submsg_fields "pb_field list" | Default_value "pb_byte_t list"

abbreviation atype :: "pb_field \<Rightarrow> pb_type_t" where "atype f \<equiv> PB_ATYPE (ftype f)"
abbreviation htype :: "pb_field \<Rightarrow> pb_type_t" where "htype f \<equiv> PB_HTYPE (ftype f)"
abbreviation ltype :: "pb_field \<Rightarrow> pb_type_t" where "ltype f \<equiv> PB_LTYPE (ftype f)"

definition PB_LAST_FIELD :: pb_field where
  "PB_LAST_FIELD = Pb_field 0 0 0 0 0 0 Null_ptr"

text \<open>
  The initialisers of the generated descriptors. The arguments \<open>fd\<close> (the data offset),
  \<open>delta\<close> (\<open>pb_delta\<close> of the has, count or which member), \<open>sz\<close>
  (\<open>pb_membersize\<close>) and \<open>n\<close> (\<open>pb_arraysize\<close>) are the numbers the compiler
  computes from the struct.
\<close>

definition PB_REQUIRED_STATIC where
  "PB_REQUIRED_STATIC t fd sz lt p =
     Pb_field t (PB_ATYPE_STATIC OR PB_HTYPE_REQUIRED OR lt) fd 0 sz 0 p"

definition PB_OPTIONAL_STATIC where
  "PB_OPTIONAL_STATIC t fd delta sz lt p =
     Pb_field t (PB_ATYPE_STATIC OR PB_HTYPE_OPTIONAL OR lt) fd delta sz 0 p"

definition PB_SINGULAR_STATIC where
  "PB_SINGULAR_STATIC t fd sz lt p =
     Pb_field t (PB_ATYPE_STATIC OR PB_HTYPE_OPTIONAL OR lt) fd 0 sz 0 p"

definition PB_REPEATED_STATIC where
  "PB_REPEATED_STATIC t fd delta sz n lt p =
     Pb_field t (PB_ATYPE_STATIC OR PB_HTYPE_REPEATED OR lt) fd delta sz n p"

definition PB_REQUIRED_POINTER where
  "PB_REQUIRED_POINTER t fd sz lt p =
     Pb_field t (PB_ATYPE_POINTER OR PB_HTYPE_REQUIRED OR lt) fd 0 sz 0 p"

definition PB_OPTIONAL_POINTER where
  "PB_OPTIONAL_POINTER t fd sz lt p =
     Pb_field t (PB_ATYPE_POINTER OR PB_HTYPE_OPTIONAL OR lt) fd 0 sz 0 p"

definition PB_SINGULAR_POINTER where
  "PB_SINGULAR_POINTER t fd sz lt p =
     Pb_field t (PB_ATYPE_POINTER OR PB_HTYPE_OPTIONAL OR lt) fd 0 sz 0 p"

definition PB_REPEATED_POINTER where
  "PB_REPEATED_POINTER t fd delta sz lt p =
     Pb_field t (PB_ATYPE_POINTER OR PB_HTYPE_REPEATED OR lt) fd delta sz 0 p"

definition PB_REQUIRED_CALLBACK where
  "PB_REQUIRED_CALLBACK t fd sz lt p =
     Pb_field t (PB_ATYPE_CALLBACK OR PB_HTYPE_REQUIRED OR lt) fd 0 sz 0 p"

definition PB_OPTIONAL_CALLBACK where
  "PB_OPTIONAL_CALLBACK t fd sz lt p =
     Pb_field t (PB_ATYPE_CALLBACK OR PB_HTYPE_OPTIONAL OR lt) fd 0 sz 0 p"

definition PB_SINGULAR_CALLBACK where
  "PB_SINGULAR_CALLBACK t fd sz lt p =
     Pb_field t (PB_ATYPE_CALLBACK OR PB_HTYPE_OPTIONAL OR lt) fd 0 sz 0 p"

definition PB_REPEATED_CALLBACK where
  "PB_REPEATED_CALLBACK t fd sz lt p =
     Pb_field t (PB_ATYPE_CALLBACK OR PB_HTYPE_REPEATED OR lt) fd 0 sz 0 p"

definition PB_OPTEXT_STATIC where
  "PB_OPTEXT_STATIC t sz lt p =
     Pb_field t (PB_ATYPE_STATIC OR PB_HTYPE_REQUIRED OR lt) 0 0 sz 0 p"

definition PB_ONEOF_STATIC where
  "PB_ONEOF_STATIC t fd delta sz lt p =
     Pb_field t (PB_ATYPE_STATIC OR PB_HTYPE_ONEOF OR lt) fd delta sz 0 p"

definition PB_ONEOF_POINTER where
  "PB_ONEOF_POINTER t fd delta sz lt p =
     Pb_field t (PB_ATYPE_POINTER OR PB_HTYPE_ONEOF OR lt) fd delta sz 0 p"

lemmas descriptor_macros =
  PB_REQUIRED_STATIC_def PB_OPTIONAL_STATIC_def PB_SINGULAR_STATIC_def PB_REPEATED_STATIC_def
  PB_REQUIRED_POINTER_def PB_OPTIONAL_POINTER_def PB_SINGULAR_POINTER_def PB_REPEATED_POINTER_def
  PB_REQUIRED_CALLBACK_def PB_OPTIONAL_CALLBACK_def PB_SINGULAR_CALLBACK_def
  PB_REPEATED_CALLBACK_def PB_OPTEXT_STATIC_def PB_ONEOF_STATIC_def PB_ONEOF_POINTER_def
  PB_LAST_FIELD_def

text \<open>\<open>offsetof(pb_bytes_array_t, bytes)\<close> is 4: the array follows the 32-bit size.\<close>

definition PB_BYTES_ARRAY_T_ALLOCSIZE :: "uint32_t \<Rightarrow> size_t" where
  "PB_BYTES_ARRAY_T_ALLOCSIZE n = ucast n + 4"

section \<open>Extensions\<close>

text \<open>
  A constant \<open>pb_extension_type_t\<close>: its two function pointers and its descriptor. The
  members of a \<open>pb_extension_t\<close> in memory are its type, its destination, the next
  extension of the chain and whether it was found; \<open>tab\<close> holds the types by address.
\<close>

record pb_extension_type_t =
  et_decode :: uint64_t
  et_encode :: uint64_t
  et_arg :: pb_field

definition ext_type_of ::
  "(uint64_t \<Rightarrow> pb_extension_type_t option) \<Rightarrow> mem \<Rightarrow> uint64_t \<Rightarrow> pb_extension_type_t option" where
  "ext_type_of tab m ext = Option.bind (load_ptr m (uint ext)) tab"

definition ext_dest :: "mem \<Rightarrow> uint64_t \<Rightarrow> uint64_t option" where
  "ext_dest m ext = load_ptr m (uint ext + 8)"

definition ext_next :: "mem \<Rightarrow> uint64_t \<Rightarrow> uint64_t option" where
  "ext_next m ext = load_ptr m (uint ext + 16)"

abbreviation ext_found :: "uint64_t \<Rightarrow> addr" where
  "ext_found ext \<equiv> uint ext + 24"

section \<open>The three masks are independent\<close>

lemmas type_masks = PB_ATYPE_def PB_HTYPE_def PB_LTYPE_def

lemma type_parts: "PB_ATYPE t OR PB_HTYPE t OR PB_LTYPE t = t"
proof -
  have "PB_ATYPE t OR PB_HTYPE t OR PB_LTYPE t = t AND (0xC0 OR 0x30 OR 0x0F)"
    by (simp only: type_masks bit.conj_disj_distrib)
  also have "\<dots> = t AND 0xFF" by simp
  also have "(0xFF :: pb_type_t) = -1" by simp
  finally show ?thesis by simp
qed

lemma PB_HTYPE_cases:
  "PB_HTYPE t = PB_HTYPE_REQUIRED \<or> PB_HTYPE t = PB_HTYPE_OPTIONAL \<or>
   PB_HTYPE t = PB_HTYPE_REPEATED \<or> PB_HTYPE t = PB_HTYPE_ONEOF"
proof -
  have "t AND 0x30 = (if bit t 4 then 0x10 else 0) OR (if bit t 5 then 0x20 else 0)"
    by (rule byte_eqI, elim insertE) (simp_all add: bit_simps)
  then show ?thesis by (auto simp: PB_HTYPE_def split: if_splits)
qed

lemma PB_ATYPE_cases:
  "PB_ATYPE t = PB_ATYPE_STATIC \<or> PB_ATYPE t = PB_ATYPE_POINTER \<or>
   PB_ATYPE t = PB_ATYPE_CALLBACK \<or> PB_ATYPE t = 0xC0"
proof -
  have "t AND 0xC0 = (if bit t 6 then 0x40 else 0) OR (if bit t 7 then 0x80 else 0)"
    by (rule byte_eqI, elim insertE) (simp_all add: bit_simps)
  then show ?thesis by (auto simp: PB_ATYPE_def split: if_splits)
qed

lemma PB_LTYPE_less: "unat (PB_LTYPE t) < 16"
proof -
  have "PB_LTYPE t \<le> 0x0F" by (simp add: PB_LTYPE_def word_and_le1)
  then show ?thesis by (simp add: word_le_nat_alt)
qed

end
