(* ===== verification/DecodePrim.thy ===== *)
theory DecodePrim
  imports InStream Descriptor
begin

text \<open>
  The helper functions of \<open>pb_decode.c\<close>: varints, tags, skipping, raw values, substreams,
  zigzag and fixed-width integers. For each operation the contract of the stream gives that it is
  defined, keeps the stream usable and never reads more than the stream has left; for a stream with
  a content the varint decoders are related to the encoding's grammar, \<open>split_varint\<close>.
\<close>

section \<open>Varints\<close>

function decode_varint32_loop ::
  "uint32_t \<Rightarrow> 8 word \<Rightarrow> 's pb_istream_t \<Rightarrow> (uint32_t, 's pb_istream_t) cres" where
  "decode_varint32_loop result bitpos s =
     (if bitpos \<ge> 32 then PB_RETURN_ERROR ''varint overflow'' s
      else chk (pb_readbyte s) (\<lambda>byte s.
        let result = result OR push_bit (unat bitpos) (ucast (byte AND 0x7F));
            bitpos = bitpos + 7
        in if byte AND 0x80 \<noteq> 0 then decode_varint32_loop result bitpos s
           else Some (Rtrue result, s)))"
  by pat_completeness auto
termination
  by (relation "measure (\<lambda>(result, bitpos, s). 100 - unat bitpos)")
    (auto simp: word_le_nat_alt unat_word_ariths)

declare decode_varint32_loop.simps [simp del]

definition pb_decode_varint32 :: "'s pb_istream_t \<Rightarrow> (uint32_t, 's pb_istream_t) cres" where
  "pb_decode_varint32 s =
     chk (pb_readbyte s) (\<lambda>byte s.
       if byte AND 0x80 = 0 then Some (Rtrue (ucast byte), s)
       else decode_varint32_loop (ucast (byte AND 0x7F)) 7 s)"

function decode_varint_loop ::
  "uint64_t \<Rightarrow> 8 word \<Rightarrow> 's pb_istream_t \<Rightarrow> (uint64_t, 's pb_istream_t) cres" where
  "decode_varint_loop result bitpos s =
     (if bitpos \<ge> 64 then PB_RETURN_ERROR ''varint overflow'' s
      else chk (pb_readbyte s) (\<lambda>byte s.
        let result = result OR push_bit (unat bitpos) (ucast (byte AND 0x7F));
            bitpos = bitpos + 7
        in if byte AND 0x80 \<noteq> 0 then decode_varint_loop result bitpos s
           else Some (Rtrue result, s)))"
  by pat_completeness auto
termination
  by (relation "measure (\<lambda>(result, bitpos, s). 100 - unat bitpos)")
    (auto simp: word_le_nat_alt unat_word_ariths)

declare decode_varint_loop.simps [simp del]

definition pb_decode_varint :: "'s pb_istream_t \<Rightarrow> (uint64_t, 's pb_istream_t) cres" where
  "pb_decode_varint s = decode_varint_loop 0 0 s"

text \<open>Each successful \<open>pb_read\<close> of a byte shortens the stream, so the loop ends.\<close>

lemma pb_read_buf_left:
  "pb_read_buf nn n s = Some (True, bs, s') \<Longrightarrow> n \<le> bytes_left s \<and> bytes_left s' = bytes_left s - n"
  by (auto simp: pb_read_buf_def Let_def not_less split: if_splits option.splits)

lemma read_local_left:
  "read_local n s = Some (Rtrue bs, s') \<Longrightarrow> n \<le> bytes_left s \<and> bytes_left s' = bytes_left s - n"
  by (auto simp: read_local_def pb_read_def dest!: pb_read_buf_left split: if_splits)

lemma read_local_shorter:
  "read_local 1 s = Some (Rtrue bs, s') \<Longrightarrow> unat (bytes_left s') < unat (bytes_left s)"
  by (drule read_local_left) (auto simp: word_le_nat_alt unat_sub)

function pb_skip_varint :: "'s pb_istream_t \<Rightarrow> (unit, 's pb_istream_t) cres" where
  "pb_skip_varint s =
     chk (read_local 1 s) (\<lambda>bs s.
       if hd bs AND 0x80 \<noteq> 0 then pb_skip_varint s else Some (Rtrue (), s))"
  by pat_completeness auto
termination
  by (relation "measure (\<lambda>s. unat (bytes_left s))") (auto dest: read_local_shorter)

declare pb_skip_varint.simps [simp del]

definition pb_skip_string :: "'s pb_istream_t \<Rightarrow> (unit, 's pb_istream_t) cres" where
  "pb_skip_string s = chk (pb_decode_varint32 s) (\<lambda>length s. read_null (ucast length) s)"

text \<open>
  \<open>pb_decode_tag\<close> has out parameters that matter when it returns false: the result is the
  value it returns, the wire type, the tag, whether the end of the message was met, and the stream.
\<close>

definition pb_decode_tag ::
  "'s pb_istream_t \<Rightarrow> (bool \<times> pb_wire_type_t \<times> uint32_t \<times> bool \<times> 's pb_istream_t) option" where
  "pb_decode_tag s =
     (case pb_decode_varint32 s of None \<Rightarrow> None
      | Some (Rfalse, s') \<Rightarrow> Some (False, 0, 0, bytes_left s' = 0, s')
      | Some (Rtrue temp, s') \<Rightarrow>
          if temp = 0 then Some (False, 0, 0, True, s')
          else Some (True, temp AND 7, drop_bit 3 temp, False, s'))"

definition pb_skip_field :: "pb_wire_type_t \<Rightarrow> 's pb_istream_t \<Rightarrow> (unit, 's pb_istream_t) cres" where
  "pb_skip_field wire_type s =
     (if wire_type = PB_WT_VARINT then pb_skip_varint s
      else if wire_type = PB_WT_64BIT then read_null 8 s
      else if wire_type = PB_WT_STRING then pb_skip_string s
      else if wire_type = PB_WT_32BIT then read_null 4 s
      else PB_RETURN_ERROR ''invalid wire_type'' s)"

section \<open>Raw values and substreams\<close>

text \<open>The varint case of \<open>read_raw_value\<close>, with the bytes stored so far in the buffer.\<close>

function read_raw_varint ::
  "nat \<Rightarrow> pb_byte_t list \<Rightarrow> 's pb_istream_t \<Rightarrow> (pb_byte_t list, 's pb_istream_t) cres" where
  "read_raw_varint max_size buf s =
     (if length buf + 1 > max_size then Some (Rfalse, s)
      else chk (read_local 1 s) (\<lambda>bs s.
        if hd bs AND 0x80 \<noteq> 0 then read_raw_varint max_size (buf @ [hd bs]) s
        else Some (Rtrue (buf @ [hd bs]), s)))"
  by pat_completeness auto
termination
  by (relation "measure (\<lambda>(max_size, buf, s). max_size - length buf)") auto

declare read_raw_varint.simps [simp del]

text \<open>\<open>*size\<close> on return is the length of the bytes.\<close>

definition read_raw_value ::
  "pb_wire_type_t \<Rightarrow> nat \<Rightarrow> 's pb_istream_t \<Rightarrow> (pb_byte_t list, 's pb_istream_t) cres" where
  "read_raw_value wire_type max_size s =
     (if wire_type = PB_WT_VARINT then read_raw_varint max_size [] s
      else if wire_type = PB_WT_64BIT then read_local 8 s
      else if wire_type = PB_WT_32BIT then read_local 4 s
      else PB_RETURN_ERROR ''invalid wire_type'' s)"

definition pb_make_string_substream ::
  "'s pb_istream_t \<Rightarrow> ('s pb_istream_t, 's pb_istream_t) cres" where
  "pb_make_string_substream s =
     chk (pb_decode_varint32 s) (\<lambda>size s.
       if bytes_left s < ucast size then PB_RETURN_ERROR ''parent stream too short'' s
       else Some (Rtrue (s\<lparr>bytes_left := ucast size\<rparr>),
              s\<lparr>bytes_left := bytes_left s - ucast size\<rparr>))"

text \<open>
  The parent of a substream that is given up, not closed: the pointer of a buffer stream is its own,
  what a user state pointer points to has moved on.
\<close>

definition drop_substream :: "'s pb_istream_t \<Rightarrow> 's pb_istream_t \<Rightarrow> 's pb_istream_t" where
  "drop_substream s substream =
     (case i_state substream of User_ptr u \<Rightarrow> s\<lparr>i_state := User_ptr u\<rparr> | Buf_ptr _ \<Rightarrow> s)"

definition pb_close_string_substream ::
  "'s pb_istream_t \<Rightarrow> 's pb_istream_t \<Rightarrow> (unit, 's pb_istream_t) cres" where
  "pb_close_string_substream s substream =
     (let done = (\<lambda>sub. s\<lparr>i_state := i_state sub, i_errmsg := i_errmsg sub\<rparr>)
      in if bytes_left substream \<noteq> 0 then
           (case read_null (bytes_left substream) substream of None \<Rightarrow> None
            | Some (Rfalse, sub) \<Rightarrow> Some (Rfalse, drop_substream s sub)
            | Some (Rtrue _, sub) \<Rightarrow> Some (Rtrue (), done sub))
         else Some (Rtrue (), done substream))"

section \<open>Zigzag and fixed-width integers\<close>

text \<open>The \<open>int64_t\<close> result is its two's complement word.\<close>

definition pb_decode_svarint :: "'s pb_istream_t \<Rightarrow> (64 word, 's pb_istream_t) cres" where
  "pb_decode_svarint s =
     chk (pb_decode_varint s) (\<lambda>value s.
       Some (Rtrue (if value AND 1 \<noteq> 0 then NOT (drop_bit 1 value) else drop_bit 1 value), s))"

definition pb_decode_fixed32 ::
  "addr \<Rightarrow> 's pb_istream_t \<times> mem \<Rightarrow> (unit, 's pb_istream_t \<times> mem) cres" where
  "pb_decode_fixed32 dest st =
     chk (lift_st (snd st) (read_local 4 (fst st))) (\<lambda>bytes st.
       st_mem (\<lambda>m. store_word m dest 4
         (push_bit 0 (ucast (bytes ! 0)) OR push_bit 8 (ucast (bytes ! 1)) OR
          push_bit 16 (ucast (bytes ! 2)) OR push_bit 24 (ucast (bytes ! 3)) :: uint32_t)) st)"

definition pb_decode_fixed64 ::
  "addr \<Rightarrow> 's pb_istream_t \<times> mem \<Rightarrow> (unit, 's pb_istream_t \<times> mem) cres" where
  "pb_decode_fixed64 dest st =
     chk (lift_st (snd st) (read_local 8 (fst st))) (\<lambda>bytes st.
       st_mem (\<lambda>m. store_word m dest 8
         (push_bit 0 (ucast (bytes ! 0)) OR push_bit 8 (ucast (bytes ! 1)) OR
          push_bit 16 (ucast (bytes ! 2)) OR push_bit 24 (ucast (bytes ! 3)) OR
          push_bit 32 (ucast (bytes ! 4)) OR push_bit 40 (ucast (bytes ! 5)) OR
          push_bit 48 (ucast (bytes ! 6)) OR push_bit 56 (ucast (bytes ! 7)) :: uint64_t)) st)"

section \<open>Safety of the primitives\<close>

text \<open>\<open>moves cb fits k s s'\<close>: usable before and after, and no bytes come back.\<close>

definition moves ::
  "'s in_callback \<Rightarrow> ('s in_state \<Rightarrow> nat \<Rightarrow> bool) \<Rightarrow> nat \<Rightarrow> 's pb_istream_t \<Rightarrow> 's pb_istream_t \<Rightarrow> bool" where
  "moves cb fits k s s' \<longleftrightarrow> stream_ok cb fits k s' \<and> bytes_left s' \<le> bytes_left s"

lemma moves_trans [trans]: "moves cb fits k s s' \<Longrightarrow> moves cb fits k s' s'' \<Longrightarrow> moves cb fits k s s''"
  by (auto simp: moves_def)

lemma moves_ok: "moves cb fits k s s' \<Longrightarrow> stream_ok cb fits k s'"
  by (simp add: moves_def)

lemma moves_refl: "stream_ok cb fits k s \<Longrightarrow> moves cb fits k s s"
  by (simp add: moves_def)

lemma moves_SET_ERROR [simp]: "moves cb fits k s (PB_SET_ERROR msg s') = moves cb fits k s s'"
  by (simp add: moves_def)

lemma moves_errmsg [simp]: "moves cb fits k s (s'\<lparr>i_errmsg := e\<rparr>) = moves cb fits k s s'"
  by (simp add: moves_def)

text \<open>The post-condition of an operation that consumes at least one byte when it succeeds.\<close>

definition eats :: "'s in_callback \<Rightarrow> ('s in_state \<Rightarrow> nat \<Rightarrow> bool) \<Rightarrow> nat \<Rightarrow> 's pb_istream_t \<Rightarrow>
    'a rv \<Rightarrow> 's pb_istream_t \<Rightarrow> bool" where
  "eats cb fits k s r s' \<longleftrightarrow> moves cb fits k s s' \<and> (r \<noteq> Rfalse \<longrightarrow> bytes_left s' < bytes_left s)"

text \<open>A substream was taken off a parent; both can be used.\<close>

definition opens :: "'s in_callback \<Rightarrow> ('s in_state \<Rightarrow> nat \<Rightarrow> bool) \<Rightarrow> nat \<Rightarrow> 's pb_istream_t \<Rightarrow>
    's pb_istream_t \<Rightarrow> 's pb_istream_t \<Rightarrow> bool" where
  "opens cb fits k s sub s' \<longleftrightarrow> moves cb fits k s s' \<and>
     stream_ok cb fits (unat (bytes_left s') + k) sub \<and>
     unat (bytes_left sub) + unat (bytes_left s') < unat (bytes_left s)"

lemma eats_moves: "eats cb fits k s r s' \<Longrightarrow> moves cb fits k s s'"
  by (simp add: eats_def)

lemma eats_after: "moves cb fits k s s1 \<Longrightarrow> eats cb fits k s1 r s' \<Longrightarrow> eats cb fits k s r s'"
  by (auto simp: eats_def moves_def)

lemma eats_then: "eats cb fits k s (Rtrue a) s1 \<Longrightarrow> moves cb fits k s1 s' \<Longrightarrow> eats cb fits k s r s'"
  by (auto simp: eats_def moves_def)

lemma eats_false [simp]: "eats cb fits k s Rfalse s' = moves cb fits k s s'"
  by (simp add: eats_def)

context in_contract begin

lemma readbyte_eats: "stream_ok cb fits k s \<Longrightarrow> wp (pb_readbyte s) (eats cb fits k s)"
  by (rule wp_mono [OF pb_readbyte_ok]) (auto simp: eats_def moves_def word_less_nat_alt unat_sub word_le_nat_alt)

end

text \<open>
  The two varint loops differ in their width and in the bit position where they give up. What
  they share is proved once, for any loop of that shape.
\<close>

locale varint_reader = in_contract cb fits
  for cb :: "'s in_callback" and fits :: "'s in_state \<Rightarrow> nat \<Rightarrow> bool" +
  fixes loop :: "'w::len word \<Rightarrow> 8 word \<Rightarrow> 's pb_istream_t \<Rightarrow> ('w word, 's pb_istream_t) cres"
    and limit :: "8 word"
    and groups :: nat
  assumes loop_unfold: "loop x bp s =
     (if bp \<ge> limit then PB_RETURN_ERROR ''varint overflow'' s
      else chk (pb_readbyte s) (\<lambda>byte s.
        if byte AND 0x80 \<noteq> 0 then loop (x OR push_bit (unat bp) (ucast (byte AND 0x7F))) (bp + 7) s
        else Some (Rtrue (x OR push_bit (unat bp) (ucast (byte AND 0x7F))), s)))"
    and limit_groups: "unat bp = 7 * j \<Longrightarrow> limit \<le> bp \<longleftrightarrow> groups \<le> j"
    and limit_le: "limit \<le> 64"
begin

lemma bitpos_next: "\<not> limit \<le> bp \<Longrightarrow> unat (bp + 7) = unat bp + 7"
  using limit_le by (simp add: unat_word_ariths word_le_nat_alt)

lemma loop_ok: "stream_ok cb fits k s \<Longrightarrow> wp (loop x bp s) (\<lambda>r s'. moves cb fits k s s')"
proof (induction "100 - unat bp" arbitrary: x bp s rule: less_induct)
  case less
  show ?case
  proof (cases "bp \<ge> limit")
    case True
    then show ?thesis using less.prems by (simp add: loop_unfold [of x] wp_rules moves_refl)
  next
    case False
    then have "100 - unat (bp + 7) < 100 - unat bp"
      using bitpos_next limit_le by (auto simp: word_le_nat_alt)
    note IH = less.hyps [OF this]
    show ?thesis
      unfolding loop_unfold [of x] if_not_P [OF False]
      by (rule wp_chkI [OF readbyte_eats [OF less.prems]])
        (auto dest!: eats_moves intro!: wp_mono [OF IH] intro: moves_ok moves_trans)
  qed
qed

end

lemma bitpos_limits:
  "unat (bp :: 8 word) = 7 * j \<Longrightarrow> 32 \<le> bp \<longleftrightarrow> 5 \<le> j"
  "unat (bp :: 8 word) = 7 * j \<Longrightarrow> 64 \<le> bp \<longleftrightarrow> 10 \<le> j"
  by (auto simp: word_le_nat_alt)

sublocale in_contract \<subseteq> r32: varint_reader cb fits decode_varint32_loop 32 5
  by unfold_locales (auto simp: Let_def bitpos_limits decode_varint32_loop.simps)

sublocale in_contract \<subseteq> r64: varint_reader cb fits decode_varint_loop 64 10
  by unfold_locales (auto simp: Let_def bitpos_limits decode_varint_loop.simps)

context in_contract begin

lemma varint32_eats: "stream_ok cb fits k s \<Longrightarrow> wp (pb_decode_varint32 s) (eats cb fits k s)"
  unfolding pb_decode_varint32_def
  by (erule wp_chkI [OF readbyte_eats])
    (auto intro!: wp_mono [OF r32.loop_ok] simp: eats_def moves_def)

lemma varint_eats: "stream_ok cb fits k s \<Longrightarrow> wp (pb_decode_varint s) (eats cb fits k s)"
  unfolding pb_decode_varint_def decode_varint_loop.simps [of 0 0 s] Let_def
  by (simp, erule wp_chkI [OF readbyte_eats])
    (auto intro!: wp_mono [OF r64.loop_ok] simp: eats_def moves_def)

lemma read_local_moves:
  "stream_ok cb fits k s \<Longrightarrow> wp (read_local n s) (\<lambda>r s'. moves cb fits k s s' \<and>
     (\<forall>bs. r = Rtrue bs \<longrightarrow> length bs = unat n \<and> n \<le> bytes_left s \<and> bytes_left s' = bytes_left s - n))"
  by (rule wp_mono [OF read_local_ok]) (auto simp: moves_def)

lemma read_null_moves: "stream_ok cb fits k s \<Longrightarrow> wp (read_null n s) (\<lambda>r. moves cb fits k s)"
  by (rule wp_mono [OF read_null_ok]) (auto simp: moves_def)

lemma skip_varint_moves: "stream_ok cb fits k s \<Longrightarrow> wp (pb_skip_varint s) (\<lambda>r. moves cb fits k s)"
proof (induction s rule: pb_skip_varint.induct)
  case (1 s)
  show ?case unfolding pb_skip_varint.simps [of s]
  proof (rule wp_chkI [OF read_local_moves [OF "1.prems"]])
    fix a s1
    assume eq: "read_local 1 s = Some (Rtrue a, s1)" and P: "moves cb fits k s s1 \<and> (\<forall>bs. Rtrue a = Rtrue bs \<longrightarrow>
      length bs = unat (1 :: size_t) \<and> 1 \<le> bytes_left s \<and> bytes_left s1 = bytes_left s - 1)"
    then show "wp (if hd a AND 0x80 \<noteq> 0 then pb_skip_varint s1 else Some (Rtrue (), s1))
        (\<lambda>r. moves cb fits k s)"
      by (auto intro!: wp_mono [OF "1.IH" [OF eq]] intro: moves_ok moves_trans)
  qed simp
qed

lemma skip_string_moves: "stream_ok cb fits k s \<Longrightarrow> wp (pb_skip_string s) (\<lambda>r. moves cb fits k s)"
  unfolding pb_skip_string_def
  by (erule wp_chkI [OF varint32_eats])
    (auto dest!: eats_moves intro: wp_mono [OF read_null_moves] moves_ok moves_trans)

lemma skip_field_moves: "stream_ok cb fits k s \<Longrightarrow> wp (pb_skip_field w s) (\<lambda>r. moves cb fits k s)"
  by (simp add: pb_skip_field_def skip_varint_moves skip_string_moves read_null_moves wp_rules moves_refl)

text \<open>A tag that was read took at least one byte.\<close>

lemma decode_tag_ok:
  assumes "stream_ok cb fits k s"
  shows "\<exists>ok w t eof s'. pb_decode_tag s = Some (ok, w, t, eof, s') \<and> moves cb fits k s s' \<and>
    (ok \<longrightarrow> bytes_left s' < bytes_left s)"
proof -
  obtain r s' where "pb_decode_varint32 s = Some (r, s')" and e: "eats cb fits k s r s'"
    using varint32_eats [OF assms] by (auto simp: wp_iff)
  then show ?thesis by (cases r) (auto simp: pb_decode_tag_def eats_def)
qed

lemma raw_varint_ok:
  "stream_ok cb fits k s \<Longrightarrow> length buf \<le> n \<Longrightarrow>
   wp (read_raw_varint n buf s) (\<lambda>r s'. moves cb fits k s s' \<and> (\<forall>bs. r = Rtrue bs \<longrightarrow> length bs \<le> n))"
proof (induction n buf s rule: read_raw_varint.induct)
  case (1 n buf s)
  show ?case
  proof (cases "length buf + 1 > n")
    case True
    then show ?thesis using "1.prems" by (simp add: read_raw_varint.simps [of n buf s] moves_refl)
  next
    case False
    show ?thesis
      unfolding read_raw_varint.simps [of n buf s] if_not_P [OF False]
    proof (rule wp_chkI [OF read_local_moves [OF "1.prems"(1)]])
      fix a s1
      assume eq: "read_local 1 s = Some (Rtrue a, s1)" and P: "moves cb fits k s s1 \<and> (\<forall>bs. Rtrue a = Rtrue bs \<longrightarrow>
        length bs = unat (1 :: size_t) \<and> 1 \<le> bytes_left s \<and> bytes_left s1 = bytes_left s - 1)"
      then show "wp (if hd a AND 0x80 \<noteq> 0 then read_raw_varint n (buf @ [hd a]) s1
          else Some (Rtrue (buf @ [hd a]), s1))
          (\<lambda>r s'. moves cb fits k s s' \<and> (\<forall>bs. r = Rtrue bs \<longrightarrow> length bs \<le> n))"
        using False
        by (auto intro!: wp_mono [OF "1.IH" [OF False eq]] intro: moves_ok moves_trans)
    qed simp
  qed
qed

lemma read_raw_value_ok:
  "stream_ok cb fits k s \<Longrightarrow> 8 \<le> n \<Longrightarrow> wp (read_raw_value w n s)
     (\<lambda>r s'. moves cb fits k s s' \<and> (\<forall>bs. r = Rtrue bs \<longrightarrow> length bs \<le> n))"
  by (auto simp: read_raw_value_def wp_rules moves_refl intro: raw_varint_ok wp_mono [OF read_local_moves])

text \<open>
  Opening a substream: parent and substream share the state, which serves first the bytes of the
  substream and then those of the parent. Together they are shorter than the parent was.
  Closing it skips what was left in it and gives its state back to the parent; a parent that gives
  it up can still be used.
\<close>

lemma make_substream_ok:
  assumes "stream_ok cb fits k s"
  shows "wp (pb_make_string_substream s) (\<lambda>r s'. moves cb fits k s s' \<and>
    (\<forall>sub. r = Rtrue sub \<longrightarrow> opens cb fits k s sub s'))"
  unfolding pb_make_string_substream_def
proof (rule wp_chkI [OF varint32_eats [OF assms]])
  fix a :: uint32_t and s1
  assume "eats cb fits k s (Rtrue a) s1"
  then have m: "moves cb fits k s s1" and lt: "unat (bytes_left s1) < unat (bytes_left s)"
    by (auto simp: eats_def word_less_nat_alt)
  have ok: "i_callback s1 = cb" "fits (i_state s1) (unat (bytes_left s1) + k)"
    using m by (simp_all add: moves_def stream_ok_def)
  let ?a = "ucast a :: size_t"
  show "wp (if bytes_left s1 < ?a then PB_RETURN_ERROR ''parent stream too short'' s1
      else Some (Rtrue (s1\<lparr>bytes_left := ?a\<rparr>), s1\<lparr>bytes_left := bytes_left s1 - ?a\<rparr>))
    (\<lambda>r s'. moves cb fits k s s' \<and> (\<forall>sub. r = Rtrue sub \<longrightarrow> opens cb fits k s sub s'))"
  proof (cases "bytes_left s1 < ?a")
    case True
    then show ?thesis using m by (simp add: wp_rules)
  next
    case False
    then have sum: "unat ?a + unat (bytes_left s1 - ?a) = unat (bytes_left s1)"
      by (simp add: not_less unat_sub word_le_nat_alt)
    then have "fits (i_state s1) (unat ?a + (unat (bytes_left s1 - ?a) + k))"
      using ok(2) by (simp add: add.assoc [symmetric])
    moreover have "fits (i_state s1) (unat (bytes_left s1 - ?a) + k)"
      by (rule fits_less [OF ok(2)]) (use sum in simp)
    moreover have "bytes_left s1 - ?a \<le> bytes_left s"
      using sum lt by (simp add: word_le_nat_alt)
    ultimately show ?thesis using False ok(1) sum lt
      by (simp add: opens_def moves_def stream_ok_def)
  qed
qed simp

lemma drop_substream_ok:
  assumes "stream_ok cb fits k s" and "stream_ok cb fits (unat (bytes_left s) + k) sub"
  shows "stream_ok cb fits k (drop_substream s sub)" "bytes_left (drop_substream s sub) = bytes_left s"
proof -
  have "fits (i_state sub) (unat (bytes_left s) + k)"
    using assms(2) fits_less [of "i_state sub" _ "unat (bytes_left s) + k"] by (fastforce simp: stream_ok_def)
  then show "stream_ok cb fits k (drop_substream s sub)"
    using assms(1) by (auto simp: drop_substream_def stream_ok_def split: in_state.split)
  show "bytes_left (drop_substream s sub) = bytes_left s"
    by (simp add: drop_substream_def split: in_state.split)
qed

lemma close_substream_ok:
  assumes "stream_ok cb fits k s" and "stream_ok cb fits (unat (bytes_left s) + k) sub"
  shows "wp (pb_close_string_substream s sub) (\<lambda>r s'. moves cb fits k s s')"
proof (cases "bytes_left sub = 0")
  case True
  then show ?thesis using assms
    by (simp add: pb_close_string_substream_def stream_ok_def moves_def)
next
  case False
  obtain r sub' where r: "read_null (bytes_left sub) sub = Some (r, sub')"
    "stream_ok cb fits (unat (bytes_left s) + k) sub'" "r \<noteq> Rfalse \<longrightarrow> bytes_left sub' = 0"
    using read_null_ok [OF assms(2), of "bytes_left sub"] by (auto simp: wp_iff)
  then show ?thesis using False assms(1) drop_substream_ok [OF assms(1) r(2)]
    by (cases r) (simp_all add: pb_close_string_substream_def stream_ok_def moves_def)
qed

end

end
