(* ===== verification/FieldIter.thy ===== *)
theory FieldIter
  imports Descriptor
begin

text \<open>
  The field iterator of \<open>pb_common.c\<close>. A position is an index into the descriptor array;
  reading the array past its end is undefined behaviour (\<open>None\<close>). The iterator keeps the
  address of the current field (\<open>pData\<close>) and of its has, count or which member
  (\<open>pSize\<close>), and the number of required flds before it.

  The lemmas give the layout the iterator walks: \<open>iter_at flds dest k\<close> is the iterator at
  field \<open>k\<close>, \<open>next\<close> moves from \<open>k\<close> to \<open>k + 1\<close> or wraps to 0, and \<open>find\<close>
  finds a field exactly when the array has one.
\<close>

record pb_field_iter =
  start :: "pb_field list"
  pos :: nat
  required_field_index :: uint32_t
  dest_struct :: addr
  pData :: addr
  pSize :: addr

text \<open>\<open>*iter->pos\<close>\<close>

definition iter_field :: "pb_field_iter \<Rightarrow> pb_field option" where
  "iter_field iter =
     (if pos iter < length (start iter) then Some (start iter ! pos iter) else None)"

definition pb_field_iter_begin :: "pb_field list \<Rightarrow> addr \<Rightarrow> (bool \<times> pb_field_iter) option" where
  "pb_field_iter_begin flds dest =
     (case flds of [] \<Rightarrow> None
      | f # _ \<Rightarrow>
         let pd = dest + uint (data_offset f)
         in Some (tag f \<noteq> 0,
           \<lparr>start = flds, pos = 0, required_field_index = 0, dest_struct = dest,
            pData = pd, pSize = pd + sint (size_offset f)\<rparr>))"

text \<open>The bytes the previous field takes in the message struct.\<close>

definition prev_size :: "pb_field \<Rightarrow> size_t" where
  "prev_size f =
     (if atype f = PB_ATYPE_STATIC \<and> htype f = PB_HTYPE_REPEATED
      then ucast (data_size f) * ucast (array_size f)
      else if atype f = PB_ATYPE_POINTER then 8
      else ucast (data_size f))"

definition same_union :: "pb_field \<Rightarrow> pb_field \<Rightarrow> bool" where
  "same_union prev cur \<longleftrightarrow>
     htype prev = PB_HTYPE_ONEOF \<and> htype cur = PB_HTYPE_ONEOF \<and> data_offset cur = PB_SIZE_MAX"

definition pb_field_iter_next :: "pb_field_iter \<Rightarrow> (bool \<times> pb_field_iter) option" where
  "pb_field_iter_next iter =
     (case iter_field iter of None \<Rightarrow> None
      | Some prev_field \<Rightarrow>
         if tag prev_field = 0 then Some (False, iter)
         else
           let iter1 = iter\<lparr>pos := pos iter + 1\<rparr>
           in case iter_field iter1 of None \<Rightarrow> None
              | Some cur \<Rightarrow>
                 if tag cur = 0 then
                   map_option (\<lambda>(_, it). (False, it))
                     (pb_field_iter_begin (start iter1) (dest_struct iter1))
                 else if same_union prev_field cur then Some (True, iter1)
                 else
                   let iter2 = (if htype prev_field = PB_HTYPE_REQUIRED
                         then iter1\<lparr>required_field_index := required_field_index iter1 + 1\<rparr>
                         else iter1);
                       pd = pData iter2 + uint (prev_size prev_field) + uint (data_offset cur)
                   in Some (True, iter2\<lparr>pData := pd, pSize := pd + sint (size_offset cur)\<rparr>))"

text \<open>
  The loop of \<open>pb_field_iter_find\<close> and \<open>find_extension_field\<close>: step until a field
  satisfies the test or the iterator is back where it began. The fuel is the length of the
  array; \<open>iter_search_all\<close> shows that it is enough for a terminated array.
\<close>

primrec iter_search ::
  "nat \<Rightarrow> (pb_field \<Rightarrow> bool) \<Rightarrow> nat \<Rightarrow> pb_field_iter \<Rightarrow> (bool \<times> pb_field_iter) option" where
  "iter_search 0 P p0 iter = None"
| "iter_search (Suc n) P p0 iter =
     (case iter_field iter of None \<Rightarrow> None
      | Some f \<Rightarrow>
         if P f then Some (True, iter)
         else (case pb_field_iter_next iter of None \<Rightarrow> None
               | Some (_, iter') \<Rightarrow>
                  if pos iter' \<noteq> p0 then iter_search n P p0 iter' else Some (False, iter')))"

definition pb_field_iter_find :: "pb_field_iter \<Rightarrow> uint32_t \<Rightarrow> (bool \<times> pb_field_iter) option" where
  "pb_field_iter_find iter t =
     iter_search (length (start iter)) (\<lambda>f. tag f = t \<and> ltype f \<noteq> PB_LTYPE_EXTENSION)
       (pos iter) iter"

section \<open>The layout of a descriptor array\<close>

text \<open>A terminated array: a field of tag 0 at the end and nowhere else.\<close>

definition field_count :: "pb_field list \<Rightarrow> nat" where
  "field_count flds = length flds - 1"

definition terminated :: "pb_field list \<Rightarrow> bool" where
  "terminated flds \<longleftrightarrow> flds \<noteq> [] \<and> tag (last flds) = 0 \<and>
     (\<forall>f \<in> set (butlast flds). tag f \<noteq> 0)"

primrec layout :: "pb_field list \<Rightarrow> nat \<Rightarrow> int \<times> int \<times> nat" where
  "layout flds 0 =
     (let d = uint (data_offset (flds ! 0)) in (d, d + sint (size_offset (flds ! 0)), 0))"
| "layout flds (Suc k) =
     (case layout flds k of (d, s, r) \<Rightarrow>
       if same_union (flds ! k) (flds ! Suc k) then (d, s, r)
       else let d' = d + uint (prev_size (flds ! k)) + uint (data_offset (flds ! Suc k))
            in (d', d' + sint (size_offset (flds ! Suc k)),
                if htype (flds ! k) = PB_HTYPE_REQUIRED then Suc r else r))"

definition data_pos :: "pb_field list \<Rightarrow> nat \<Rightarrow> int" where
  "data_pos flds k = fst (layout flds k)"

definition size_pos :: "pb_field list \<Rightarrow> nat \<Rightarrow> int" where
  "size_pos flds k = fst (snd (layout flds k))"

definition required_before :: "pb_field list \<Rightarrow> nat \<Rightarrow> nat" where
  "required_before flds k = snd (snd (layout flds k))"

definition iter_at :: "pb_field list \<Rightarrow> addr \<Rightarrow> nat \<Rightarrow> pb_field_iter" where
  "iter_at flds dest k =
     \<lparr>start = flds, pos = k, required_field_index = of_nat (required_before flds k),
      dest_struct = dest, pData = dest + data_pos flds k, pSize = dest + size_pos flds k\<rparr>"

lemmas layout_defs = data_pos_def size_pos_def required_before_def

lemma iter_at_simps [simp]:
  "start (iter_at flds dest k) = flds"
  "pos (iter_at flds dest k) = k"
  "dest_struct (iter_at flds dest k) = dest"
  "pData (iter_at flds dest k) = dest + data_pos flds k"
  "pSize (iter_at flds dest k) = dest + size_pos flds k"
  "required_field_index (iter_at flds dest k) = of_nat (required_before flds k)"
  by (simp_all add: iter_at_def)

lemma iter_field_at [simp]:
  "k < length flds \<Longrightarrow> iter_field (iter_at flds dest k) = Some (flds ! k)"
  by (simp add: iter_field_def)

lemma terminated_length: "terminated flds \<Longrightarrow> length flds = Suc (field_count flds)"
  by (cases flds) (auto simp: terminated_def field_count_def)

lemma terminated_tag: "terminated flds \<Longrightarrow> k < field_count flds \<Longrightarrow> tag (flds ! k) \<noteq> 0"
  by (metis field_count_def length_butlast nth_butlast nth_mem terminated_def)

lemma terminated_tag_end: "terminated flds \<Longrightarrow> tag (flds ! field_count flds) = 0"
  by (auto simp: terminated_def field_count_def last_conv_nth)

lemma begin_iter_at:
  "flds \<noteq> [] \<Longrightarrow>
   pb_field_iter_begin flds dest = Some (tag (flds ! 0) \<noteq> 0, iter_at flds dest 0)"
  by (cases flds)
    (auto simp: pb_field_iter_begin_def iter_at_def layout_defs Let_def)

lemma begin_terminated:
  "terminated flds \<Longrightarrow>
   pb_field_iter_begin flds dest = Some (0 < field_count flds, iter_at flds dest 0)"
  using begin_iter_at [of flds dest] terminated_tag [of flds 0] terminated_tag_end [of flds]
  by (cases "field_count flds") (auto simp: terminated_def)

lemma next_iter_at:
  assumes "terminated flds" and "k < field_count flds"
  shows "pb_field_iter_next (iter_at flds dest k) =
    (if Suc k < field_count flds then Some (True, iter_at flds dest (Suc k))
     else Some (False, iter_at flds dest 0))"
proof (cases "Suc k < field_count flds")
  case True
  then have "tag (flds ! Suc k) \<noteq> 0" "tag (flds ! k) \<noteq> 0" "Suc k < length flds"
    using assms terminated_tag terminated_length by auto
  with True show ?thesis
    by (auto simp: pb_field_iter_next_def iter_field_def Let_def iter_at_def layout_defs
        same_union_def algebra_simps split: prod.splits)
next
  case False
  then have k: "Suc k = field_count flds" using assms by simp
  then have "tag (flds ! Suc k) = 0" "tag (flds ! k) \<noteq> 0" "Suc k < length flds"
    using assms terminated_tag terminated_tag_end [of flds] terminated_length [of flds] by auto
  with False show ?thesis
    using begin_terminated [OF assms(1), of dest]
    by (simp add: pb_field_iter_next_def iter_field_def Let_def)
qed

section \<open>Searching\<close>

text \<open>
  The search from field \<open>p\<close> visits \<open>p, p + 1, ...\<close> cyclically, at most every field once.
\<close>

lemma cyclic_distance:
  assumes "p < c" and "k < c"
  shows "(p + c - k - 1) mod c = (if k < p then p - k - 1 else p + c - k - (1::nat))"
proof (cases "k < p")
  case True
  then have "p + c - k - 1 = (p - k - 1) + c" using assms by simp
  moreover have "p - k - 1 < c" using assms by simp
  ultimately have "(p + c - k - 1) mod c = p - k - 1" by (metis mod_add_self2 mod_less)
  then show ?thesis using True by simp
next
  case False
  then show ?thesis using assms by simp
qed

lemma iter_search_from:
  assumes t: "terminated flds" and "k < field_count flds" and p: "p < field_count flds"
    and fuel: "(p + field_count flds - k - 1) mod field_count flds < n"
  shows "\<exists>b it. iter_search n P p (iter_at flds dest k) = Some (b, it) \<and>
     (b \<longrightarrow> (\<exists>j < field_count flds. P (flds ! j) \<and> it = iter_at flds dest j)) \<and>
     (\<not> b \<longrightarrow> it = iter_at flds dest p \<and>
        (\<forall>i \<le> (p + field_count flds - k - 1) mod field_count flds.
           \<not> P (flds ! ((k + i) mod field_count flds))))"
  using assms(2) fuel
proof (induction n arbitrary: k)
  case 0
  then show ?case by simp
next
  case (Suc n)
  let ?c = "field_count flds"
  let ?d = "(p + ?c - k - 1) mod ?c"
  let ?k' = "if Suc k < ?c then Suc k else 0"
  have k: "k < length flds" using Suc.prems terminated_length [OF t] by simp
  have nxt: "pb_field_iter_next (iter_at flds dest k) = Some (Suc k < ?c, iter_at flds dest ?k')"
    using next_iter_at [OF t Suc.prems(1)] by simp
  have k': "?k' < ?c" "?k' = Suc k mod ?c"
    using Suc.prems(1) by (auto simp: less_Suc_eq not_less_eq)
  show ?case
  proof (cases "P (flds ! k)")
    case True
    then show ?thesis using k Suc.prems(1) by auto
  next
    case notP: False
    show ?thesis
    proof (cases "?k' = p")
      case True
      have "?d = 0"
        unfolding cyclic_distance [OF p Suc.prems(1)] using True Suc.prems(1) by (auto split: if_splits)
      then show ?thesis using True k notP nxt Suc.prems(1) by (auto split: if_splits)
    next
      case False
      have d: "?d = Suc ((p + ?c - ?k' - 1) mod ?c)"
        unfolding cyclic_distance [OF p Suc.prems(1)] cyclic_distance [OF p k'(1)]
        using False Suc.prems(1) p by (auto split: if_splits)
      then have "(p + ?c - ?k' - 1) mod ?c < n" using Suc.prems(2) by simp
      from Suc.IH [OF k'(1) this]
      obtain b it where it: "iter_search n P p (iter_at flds dest ?k') = Some (b, it)"
        "b \<longrightarrow> (\<exists>j < ?c. P (flds ! j) \<and> it = iter_at flds dest j)"
        "\<not> b \<longrightarrow> it = iter_at flds dest p \<and>
          (\<forall>i \<le> (p + ?c - ?k' - 1) mod ?c. \<not> P (flds ! ((?k' + i) mod ?c)))" by blast
      have "iter_search (Suc n) P p (iter_at flds dest k) = Some (b, it)"
        using k notP nxt False it(1) by simp
      moreover have "\<not> P (flds ! ((k + i) mod ?c))" if "\<not> b" "i \<le> ?d" for i
      proof (cases i)
        case 0
        then show ?thesis using notP Suc.prems(1) by simp
      next
        case (Suc j)
        then have "\<not> P (flds ! ((?k' + j) mod ?c))" using that it(3) d by auto
        also have "(?k' + j) mod ?c = (k + i) mod ?c"
          using k'(2) Suc by (simp add: mod_add_left_eq)
        finally show ?thesis .
      qed
      ultimately show ?thesis using it(2,3) by blast
    qed
  qed
qed

lemma iter_search_all:
  assumes "terminated flds" and "p < field_count flds"
  shows "\<exists>b it. iter_search (length flds) P p (iter_at flds dest p) = Some (b, it) \<and>
     (b \<longrightarrow> (\<exists>j < field_count flds. P (flds ! j) \<and> it = iter_at flds dest j)) \<and>
     (\<not> b \<longrightarrow> it = iter_at flds dest p \<and> (\<forall>j < field_count flds. \<not> P (flds ! j)))"
proof -
  let ?c = "field_count flds"
  have d: "(p + ?c - p - 1) mod ?c = ?c - 1" using assms(2) by simp
  have "(p + ?c - p - 1) mod ?c < length flds"
    using assms terminated_length [OF assms(1)] by simp
  from iter_search_from [OF assms(1,2,2) this, of P dest]
  obtain b it where it: "iter_search (length flds) P p (iter_at flds dest p) = Some (b, it)"
    "b \<longrightarrow> (\<exists>j < ?c. P (flds ! j) \<and> it = iter_at flds dest j)"
    "\<not> b \<longrightarrow> it = iter_at flds dest p \<and> (\<forall>i \<le> ?c - 1. \<not> P (flds ! ((p + i) mod ?c)))"
    unfolding d by blast
  have "\<not> P (flds ! j)" if "\<not> b" "j < ?c" for j
  proof -
    let ?i = "if p \<le> j then j - p else j + ?c - p"
    have "?i \<le> ?c - 1" "(p + ?i) mod ?c = j" using that(2) assms(2) by (auto split: if_splits)
    then show ?thesis using it(3) that(1) by metis
  qed
  with it show ?thesis by blast
qed

text \<open>\<open>pb_field_iter_find\<close> on a terminated, non-empty array, from any field of it.\<close>

lemma find_iter_at:
  assumes "terminated flds" and "p < field_count flds"
  obtains (found) j where "j < field_count flds" "tag (flds ! j) = t"
      "ltype (flds ! j) \<noteq> PB_LTYPE_EXTENSION"
      "pb_field_iter_find (iter_at flds dest p) t = Some (True, iter_at flds dest j)"
  | (missing) "\<forall>j < field_count flds. tag (flds ! j) = t \<longrightarrow> ltype (flds ! j) = PB_LTYPE_EXTENSION"
      "pb_field_iter_find (iter_at flds dest p) t = Some (False, iter_at flds dest p)"
  using iter_search_all [OF assms, of "\<lambda>f. tag f = t \<and> ltype f \<noteq> PB_LTYPE_EXTENSION" dest] that
  by (fastforce simp: pb_field_iter_find_def)

end
