(* ===== verification/DecodeField.thy ===== *)
theory DecodeField
  imports DecodePrim FieldIter
begin

text \<open>
  The field decoders of \<open>pb_decode.c\<close>: one function per scalar type, strings, bytes and
  submessages, and the three kinds of fields (static, pointer, callback). The state is the input
  stream and the memory. The decoding of a submessage is passed in as a function
  (\<open>noinit\<close>, with \<open>defaults\<close> for its initialisation); \<open>Decode\<close> ties the knot.

  User code (field callbacks, custom extension types) and the constant extension types are the
  environment \<open>dec_env\<close>, indexed by the pointers the message struct holds.
\<close>

type_synonym 's dst = "'s pb_istream_t \<times> mem"

record 's dec_env =
  run_decode_callback ::
    "uint64_t \<Rightarrow> pb_field \<Rightarrow> addr \<Rightarrow> 's dst \<Rightarrow> (unit, 's dst) cres"
  extension_type_at :: "uint64_t \<Rightarrow> pb_extension_type_t option"
  run_extension_decode ::
    "uint64_t \<Rightarrow> uint64_t \<Rightarrow> uint32_t \<Rightarrow> pb_wire_type_t \<Rightarrow> 's dst \<Rightarrow> (unit, 's dst) cres"

definition dec_error :: "string \<Rightarrow> 's dst \<Rightarrow> ('a, 's dst) cres" where
  "dec_error msg st = Some (Rfalse, (PB_SET_ERROR msg (fst st), snd st))"

text \<open>\<open>on_stream f\<close> runs a stream operation in the state of the decoder.\<close>

definition on_stream ::
  "('s pb_istream_t \<Rightarrow> ('a, 's pb_istream_t) cres) \<Rightarrow> 's dst \<Rightarrow> ('a, 's dst) cres" where
  "on_stream f st = lift_st (snd st) (f (fst st))"

lemma wp_dec_error [wp_rules]:
  "wp (dec_error msg st) Q = Q Rfalse (PB_SET_ERROR msg (fst st), snd st)"
  by (simp add: dec_error_def)

lemma wp_on_stream [wp_rules]:
  "wp (on_stream f st) Q = wp (f (fst st)) (\<lambda>r s. Q r (s, snd st))"
  by (simp add: on_stream_def wp_rules)

section \<open>Integers\<close>

text \<open>
  Store the narrowed value, then compare it, widened again, with the value: the store happens
  even where the value is too large.
\<close>

definition store_clamped ::
  "addr \<Rightarrow> nat \<Rightarrow> 'a::len word \<Rightarrow> 64 word \<Rightarrow> 64 word \<Rightarrow> 's dst \<Rightarrow> (unit, 's dst) cres" where
  "store_clamped dest n w clamped v st =
     chk (st_mem (\<lambda>m. store_word m dest n w) st) (\<lambda>_ st.
       if clamped \<noteq> v then dec_error ''integer too large'' st else Some (Rtrue (), st))"

definition pb_dec_varint :: "pb_field \<Rightarrow> addr \<Rightarrow> 's dst \<Rightarrow> (unit, 's dst) cres" where
  "pb_dec_varint field dest st =
     chk (on_stream pb_decode_varint st) (\<lambda>v st.
       let svalue = (if data_size field = 8 then v else scast (ucast v :: 32 word))
       in if data_size field = 8 then store_clamped dest 8 svalue svalue svalue st
          else if data_size field = 4
          then let w = ucast svalue :: 32 word in store_clamped dest 4 w (scast w) svalue st
          else if data_size field = 2
          then let w = ucast svalue :: 16 word in store_clamped dest 2 w (scast w) svalue st
          else if data_size field = 1
          then let w = ucast svalue :: 8 word in store_clamped dest 1 w (scast w) svalue st
          else dec_error ''invalid data_size'' st)"

definition pb_dec_uvarint :: "pb_field \<Rightarrow> addr \<Rightarrow> 's dst \<Rightarrow> (unit, 's dst) cres" where
  "pb_dec_uvarint field dest st =
     chk (on_stream pb_decode_varint st) (\<lambda>v st.
       if data_size field = 8 then store_clamped dest 8 v v v st
       else if data_size field = 4
       then let w = ucast v :: 32 word in store_clamped dest 4 w (ucast w) v st
       else if data_size field = 2
       then let w = ucast v :: 16 word in store_clamped dest 2 w (ucast w) v st
       else if data_size field = 1
       then let w = ucast v :: 8 word in store_clamped dest 1 w (ucast w) v st
       else dec_error ''invalid data_size'' st)"

definition pb_dec_svarint :: "pb_field \<Rightarrow> addr \<Rightarrow> 's dst \<Rightarrow> (unit, 's dst) cres" where
  "pb_dec_svarint field dest st =
     chk (on_stream pb_decode_svarint st) (\<lambda>v st.
       if data_size field = 8 then store_clamped dest 8 v v v st
       else if data_size field = 4
       then let w = ucast v :: 32 word in store_clamped dest 4 w (scast w) v st
       else if data_size field = 2
       then let w = ucast v :: 16 word in store_clamped dest 2 w (scast w) v st
       else if data_size field = 1
       then let w = ucast v :: 8 word in store_clamped dest 1 w (scast w) v st
       else dec_error ''invalid data_size'' st)"

definition pb_dec_fixed32 :: "pb_field \<Rightarrow> addr \<Rightarrow> 's dst \<Rightarrow> (unit, 's dst) cres" where
  "pb_dec_fixed32 field dest st = pb_decode_fixed32 dest st"

definition pb_dec_fixed64 :: "pb_field \<Rightarrow> addr \<Rightarrow> 's dst \<Rightarrow> (unit, 's dst) cres" where
  "pb_dec_fixed64 field dest st = pb_decode_fixed64 dest st"

section \<open>Bytes, strings and submessages\<close>

definition pb_dec_bytes :: "pb_field \<Rightarrow> addr \<Rightarrow> 's dst \<Rightarrow> (unit, 's dst) cres" where
  "pb_dec_bytes field dest st =
     chk (on_stream pb_decode_varint32 st) (\<lambda>size st.
       let alloc_size = PB_BYTES_ARRAY_T_ALLOCSIZE size
       in if size > PB_SIZE_MAX then dec_error ''bytes overflow'' st
          else if ucast size > alloc_size then dec_error ''size too large'' st
          else if atype field = PB_ATYPE_POINTER then dec_error ''no malloc support'' st
          else if alloc_size > ucast (data_size field) then dec_error ''bytes overflow'' st
          else chk (st_mem (\<lambda>m. store_size m dest size) st) (\<lambda>_. read_mem (dest + 4) (ucast size)))"

text \<open>\<open>size + 1\<close> is computed in 32 bits; the terminator is stored even when the read failed.\<close>

definition pb_dec_string :: "pb_field \<Rightarrow> addr \<Rightarrow> 's dst \<Rightarrow> (unit, 's dst) cres" where
  "pb_dec_string field dest st =
     chk (on_stream pb_decode_varint32 st) (\<lambda>size st.
       let alloc_size = ucast (size + 1) :: size_t
       in if alloc_size < ucast size then dec_error ''size too large'' st
          else if atype field = PB_ATYPE_POINTER then dec_error ''no malloc support'' st
          else if alloc_size > ucast (data_size field) then dec_error ''string overflow'' st
          else (case read_mem dest (ucast size) st of None \<Rightarrow> None
                | Some (status, st) \<Rightarrow>
                    map_option (\<lambda>(_, st). (status, st))
                      (st_mem (\<lambda>m. store_bytes m (dest + uint size) [0]) st)))"

definition pb_dec_submessage ::
  "(pb_field list \<Rightarrow> addr \<Rightarrow> mem \<Rightarrow> mem option) \<Rightarrow>
   (pb_field list \<Rightarrow> addr \<Rightarrow> 's dst \<Rightarrow> (unit, 's dst) cres) \<Rightarrow>
   pb_field \<Rightarrow> addr \<Rightarrow> 's dst \<Rightarrow> (unit, 's dst) cres" where
  "pb_dec_submessage defaults noinit field dest st =
     chk (on_stream pb_make_string_substream st) (\<lambda>substream (s, m).
       case ptr field of
         Null_ptr \<Rightarrow> dec_error ''invalid field descriptor'' (s, m)
       | Default_value _ \<Rightarrow> None
       | Submsg_fields flds \<Rightarrow>
           (case (if htype field = PB_HTYPE_REPEATED
                  then chk (st_mem (defaults flds dest) (substream, m)) (\<lambda>_. noinit flds dest)
                  else noinit flds dest (substream, m)) of None \<Rightarrow> None
            | Some (status, (substream, m)) \<Rightarrow>
                chk (lift_st m (pb_close_string_substream s substream)) (\<lambda>_ st. Some (status, st))))"

definition pb_dec_fixed_length_bytes :: "pb_field \<Rightarrow> addr \<Rightarrow> 's dst \<Rightarrow> (unit, 's dst) cres" where
  "pb_dec_fixed_length_bytes field dest st =
     chk (on_stream pb_decode_varint32 st) (\<lambda>size st.
       if size > PB_SIZE_MAX then dec_error ''bytes overflow'' st
       else if size = 0
       then st_mem (\<lambda>m. store_bytes m dest (replicate (unat (data_size field)) 0)) st
       else if size \<noteq> data_size field then dec_error ''incorrect fixed length bytes size'' st
       else read_mem dest (ucast (data_size field)) st)"

text \<open>
  \<open>PB_DECODERS[PB_LTYPE(type)](stream, field, dest)\<close>: the entry for extensions is null and the
  array has ten entries, so other types are undefined behaviour.
\<close>

definition PB_DECODERS ::
  "(pb_field list \<Rightarrow> addr \<Rightarrow> mem \<Rightarrow> mem option) \<Rightarrow>
   (pb_field list \<Rightarrow> addr \<Rightarrow> 's dst \<Rightarrow> (unit, 's dst) cres) \<Rightarrow> pb_type_t \<Rightarrow>
   pb_field \<Rightarrow> addr \<Rightarrow> 's dst \<Rightarrow> (unit, 's dst) cres" where
  "PB_DECODERS defaults noinit lt field dest st =
     (if lt = PB_LTYPE_VARINT then pb_dec_varint field dest st
      else if lt = PB_LTYPE_UVARINT then pb_dec_uvarint field dest st
      else if lt = PB_LTYPE_SVARINT then pb_dec_svarint field dest st
      else if lt = PB_LTYPE_FIXED32 then pb_dec_fixed32 field dest st
      else if lt = PB_LTYPE_FIXED64 then pb_dec_fixed64 field dest st
      else if lt = PB_LTYPE_BYTES then pb_dec_bytes field dest st
      else if lt = PB_LTYPE_STRING then pb_dec_string field dest st
      else if lt = PB_LTYPE_SUBMESSAGE then pb_dec_submessage defaults noinit field dest st
      else if lt = PB_LTYPE_FIXED_LENGTH_BYTES then pb_dec_fixed_length_bytes field dest st
      else None)"

section \<open>Static, pointer and callback fields\<close>

text \<open>
  The packed loop of \<open>decode_static_field\<close>. An item that was decoded took a byte of the
  substream, so the bytes of the substream, and one, are enough fuel.
\<close>

primrec packed_loop ::
  "nat \<Rightarrow> (pb_field \<Rightarrow> addr \<Rightarrow> 's dst \<Rightarrow> (unit, 's dst) cres) \<Rightarrow> pb_field \<Rightarrow> addr \<Rightarrow> addr \<Rightarrow>
   's dst \<Rightarrow> (unit, 's dst) cres" where
  "packed_loop 0 func field pd ps st = None"
| "packed_loop (Suc n) func field pd ps st =
     (if bytes_left (fst st) = 0 then Some (Rtrue (), st)
      else case load_size (snd st) ps of None \<Rightarrow> None
           | Some sz \<Rightarrow>
               if sz < array_size field then
                 chk (func field (pd + uint (data_size field * sz)) st) (\<lambda>_ st.
                   case load_size (snd st) ps of None \<Rightarrow> None
                   | Some sz \<Rightarrow>
                       chk (st_mem (\<lambda>m. store_size m ps (sz + 1)) st)
                         (\<lambda>_. packed_loop n func field pd ps))
               else Some (Rtrue (), st))"

definition decode_static_field ::
  "(pb_field list \<Rightarrow> addr \<Rightarrow> mem \<Rightarrow> mem option) \<Rightarrow>
   (pb_field list \<Rightarrow> addr \<Rightarrow> 's dst \<Rightarrow> (unit, 's dst) cres) \<Rightarrow>
   pb_wire_type_t \<Rightarrow> pb_field \<Rightarrow> addr \<Rightarrow> addr \<Rightarrow> 's dst \<Rightarrow> (unit, 's dst) cres" where
  "decode_static_field defaults noinit wire_type field pd ps st =
     (let func = PB_DECODERS defaults noinit (ltype field)
      in if PB_LTYPES_COUNT \<le> unat (ltype field) then None
         else if htype field = PB_HTYPE_REQUIRED then func field pd st
         else if htype field = PB_HTYPE_OPTIONAL then
           chk (if ps \<noteq> pd then st_mem (\<lambda>m. store_bool m ps True) st else Some (Rtrue (), st))
             (\<lambda>_. func field pd)
         else if htype field = PB_HTYPE_REPEATED then
           if wire_type = PB_WT_STRING \<and> ltype field \<le> PB_LTYPE_LAST_PACKABLE then
             chk (on_stream pb_make_string_substream st) (\<lambda>substream (s, m).
               case packed_loop (Suc (unat (bytes_left substream))) func field pd ps (substream, m) of
                 None \<Rightarrow> None
               | Some (status, (substream, m)) \<Rightarrow>
                   if bytes_left substream \<noteq> 0 then dec_error ''array overflow'' (drop_substream s substream, m)
                   else chk (lift_st m (pb_close_string_substream s substream))
                          (\<lambda>_ st. Some (status, st)))
           else
             (case load_size (snd st) ps of None \<Rightarrow> None
              | Some sz \<Rightarrow>
                  if sz \<ge> array_size field then dec_error ''array overflow'' st
                  else chk (st_mem (\<lambda>m. store_size m ps (sz + 1)) st)
                         (\<lambda>_. func field (pd + uint (data_size field * sz))))
         else if htype field = PB_HTYPE_ONEOF then
           chk (st_mem (\<lambda>m. store_size m ps (tag field)) st) (\<lambda>_ st.
             chk (if ltype field = PB_LTYPE_SUBMESSAGE
                  then chk (st_mem (\<lambda>m. store_bytes m pd (replicate (unat (data_size field)) 0)) st)
                    (\<lambda>_. case ptr field of
                       Submsg_fields flds \<Rightarrow> st_mem (defaults flds pd)
                     | _ \<Rightarrow> (\<lambda>_. None))
                  else Some (Rtrue (), st))
               (\<lambda>_. func field pd))
         else dec_error ''invalid field type'' st)"

text \<open>The build has no \<open>PB_ENABLE_MALLOC\<close>.\<close>

definition decode_pointer_field :: "'s dst \<Rightarrow> (unit, 's dst) cres" where
  "decode_pointer_field st = dec_error ''no malloc support'' st"

text \<open>
  The callback of a string field is called until the substream is empty. Its pointer is read once; the
  code reads it again before each call, which is the same unless a callback replaces its own pointer
  while its field is decoded.
\<close>

primrec callback_loop ::
  "nat \<Rightarrow> ('s dst \<Rightarrow> (unit, 's dst) cres) \<Rightarrow> 's dst \<Rightarrow> (unit, 's dst) cres" where
  "callback_loop 0 g st = None"
| "callback_loop (Suc n) g st =
     chk (g st) (\<lambda>_ st. if bytes_left (fst st) \<noteq> 0 then callback_loop n g st else Some (Rtrue (), st))"

definition decode_callback_field ::
  "nat \<Rightarrow> 's dec_env \<Rightarrow> pb_wire_type_t \<Rightarrow> pb_field \<Rightarrow> addr \<Rightarrow> 's dst \<Rightarrow> (unit, 's dst) cres" where
  "decode_callback_field n env wire_type field pd st =
     (case load_ptr (snd st) pd of None \<Rightarrow> None
      | Some f \<Rightarrow>
          let call = run_decode_callback env f field (pd + 8)
          in if f = 0 then on_stream (pb_skip_field wire_type) st
             else if wire_type = PB_WT_STRING then
               chk (on_stream pb_make_string_substream st) (\<lambda>substream (s, m).
                 case callback_loop n call (substream, m) of None \<Rightarrow> None
                 | Some (Rfalse, (substream, m)) \<Rightarrow> 
                     dec_error ''callback failed'' (drop_substream s substream, m)
                 | Some (Rtrue _, (substream, m)) \<Rightarrow>
                     lift_st m (pb_close_string_substream s substream))
             else
               chk (on_stream (read_raw_value wire_type 10) st) (\<lambda>buffer (s, m).
                 case call (pb_istream_from_buffer buffer (of_nat (length buffer)), m) of None \<Rightarrow> None
                 | Some (status, (substream, m)) \<Rightarrow> Some (status, (s, m))))"

definition decode_field ::
  "nat \<Rightarrow> 's dec_env \<Rightarrow> (pb_field list \<Rightarrow> addr \<Rightarrow> mem \<Rightarrow> mem option) \<Rightarrow>
   (pb_field list \<Rightarrow> addr \<Rightarrow> 's dst \<Rightarrow> (unit, 's dst) cres) \<Rightarrow>
   pb_wire_type_t \<Rightarrow> pb_field \<Rightarrow> addr \<Rightarrow> addr \<Rightarrow> 's dst \<Rightarrow> (unit, 's dst) cres" where
  "decode_field n env defaults noinit wire_type field pd ps st =
     (if atype field = PB_ATYPE_STATIC
      then decode_static_field defaults noinit wire_type field pd ps st
      else if atype field = PB_ATYPE_POINTER then decode_pointer_field st
      else if atype field = PB_ATYPE_CALLBACK
      then decode_callback_field n env wire_type field pd st
      else dec_error ''invalid field type'' st)"

end
