(* ===== verification/Decode.thy ===== *)
theory Decode
  imports DecodeField
begin

text \<open>
  Extensions, default values and the message decoder of \<open>pb_decode.c\<close>.

  The nesting of submessages, the chains of extensions and the loops over user callbacks have no
  bound in the code, so these functions take fuel and return \<open>None\<close> when it is used up.
  \<open>DecodeSafety\<close> shows how much is enough.
\<close>

section \<open>Extensions\<close>

definition iter_from_extension :: "'s dec_env \<Rightarrow> mem \<Rightarrow> uint64_t \<Rightarrow> pb_field_iter option" where
  "iter_from_extension env m ext =
     (case ext_type_of (extension_type_at env) m ext of None \<Rightarrow> None
      | Some et \<Rightarrow>
          (case ext_dest m ext of None \<Rightarrow> None
           | Some d \<Rightarrow>
               let field = et_arg et
               in map_option (\<lambda>(_, iter).
                    let iter = iter\<lparr>pData := uint d, pSize := ext_found ext\<rparr>
                    in if atype field = PB_ATYPE_POINTER then iter\<lparr>pData := uint ext + 8\<rparr> else iter)
                  (pb_field_iter_begin [field] (uint d))))"

definition default_extension_decoder ::
  "nat \<Rightarrow> 's dec_env \<Rightarrow> (pb_field list \<Rightarrow> addr \<Rightarrow> mem \<Rightarrow> mem option) \<Rightarrow>
   (pb_field list \<Rightarrow> addr \<Rightarrow> 's dst \<Rightarrow> (unit, 's dst) cres) \<Rightarrow>
   uint64_t \<Rightarrow> uint32_t \<Rightarrow> pb_wire_type_t \<Rightarrow> 's dst \<Rightarrow> (unit, 's dst) cres" where
  "default_extension_decoder n env defaults noinit ext t wire_type st =
     (case ext_type_of (extension_type_at env) (snd st) ext of None \<Rightarrow> None
      | Some et \<Rightarrow>
          let field = et_arg et
          in if tag field \<noteq> t then Some (Rtrue (), st)
             else case iter_from_extension env (snd st) ext of None \<Rightarrow> None
                  | Some iter \<Rightarrow>
                      chk (st_mem (\<lambda>m. store_bool m (ext_found ext) True) st)
                        (\<lambda>_. decode_field n env defaults noinit wire_type field (pData iter) (pSize iter)))"

text \<open>The loop of \<open>decode_extension\<close> over the chain, until one of them reads something.\<close>

primrec decode_extension_loop ::
  "nat \<Rightarrow> 's dec_env \<Rightarrow> (uint64_t \<Rightarrow> 's dst \<Rightarrow> (unit, 's dst) cres) \<Rightarrow>
   uint32_t \<Rightarrow> pb_wire_type_t \<Rightarrow> size_t \<Rightarrow> uint64_t \<Rightarrow> 's dst \<Rightarrow> (unit, 's dst) cres" where
  "decode_extension_loop 0 env dflt t wire_type p ext st = None"
| "decode_extension_loop (Suc n) env dflt t wire_type p ext st =
     (if ext \<noteq> 0 \<and> p = bytes_left (fst st) then
        (case ext_type_of (extension_type_at env) (snd st) ext of None \<Rightarrow> None
         | Some et \<Rightarrow>
             chk (if et_decode et \<noteq> 0
                  then run_extension_decode env (et_decode et) ext t wire_type st
                  else dflt ext st)
               (\<lambda>_ st. case ext_next (snd st) ext of None \<Rightarrow> None
                  | Some nxt \<Rightarrow> decode_extension_loop n env dflt t wire_type p nxt st))
      else Some (Rtrue (), st))"

definition decode_extension ::
  "nat \<Rightarrow> 's dec_env \<Rightarrow> (pb_field list \<Rightarrow> addr \<Rightarrow> mem \<Rightarrow> mem option) \<Rightarrow>
   (pb_field list \<Rightarrow> addr \<Rightarrow> 's dst \<Rightarrow> (unit, 's dst) cres) \<Rightarrow>
   uint32_t \<Rightarrow> pb_wire_type_t \<Rightarrow> pb_field_iter \<Rightarrow> 's dst \<Rightarrow> (unit, 's dst) cres" where
  "decode_extension n env defaults noinit t wire_type iter st =
     (case load_ptr (snd st) (pData iter) of None \<Rightarrow> None
      | Some ext \<Rightarrow>
          decode_extension_loop n env
            (\<lambda>ext. default_extension_decoder n env defaults noinit ext t wire_type)
            t wire_type (bytes_left (fst st)) ext st)"

definition find_extension_field :: "pb_field_iter \<Rightarrow> (bool \<times> pb_field_iter) option" where
  "find_extension_field iter =
     iter_search (length (start iter)) (\<lambda>f. ltype f = PB_LTYPE_EXTENSION) (pos iter) iter"

section \<open>Default values\<close>

text \<open>\<open>do body while (pb_field_iter_next(&iter))\<close>, over at most all fields.\<close>

primrec for_fields ::
  "nat \<Rightarrow> (pb_field_iter \<Rightarrow> 'a \<Rightarrow> 'a option) \<Rightarrow> pb_field_iter \<Rightarrow> 'a \<Rightarrow> 'a option" where
  "for_fields 0 body iter x = None"
| "for_fields (Suc n) body iter x =
     (case body iter x of None \<Rightarrow> None
      | Some x \<Rightarrow>
          (case pb_field_iter_next iter of None \<Rightarrow> None
           | Some (again, iter) \<Rightarrow> if again then for_fields n body iter x else Some x))"

text \<open>The loop over the chain of extensions.\<close>

primrec for_extensions ::
  "nat \<Rightarrow> (uint64_t \<Rightarrow> mem \<Rightarrow> mem option) \<Rightarrow> uint64_t \<Rightarrow> mem \<Rightarrow> mem option" where
  "for_extensions 0 body ext m = None"
| "for_extensions (Suc n) body ext m =
     (if ext = 0 then Some m
      else case body ext m of None \<Rightarrow> None
           | Some m \<Rightarrow>
               (case ext_next m ext of None \<Rightarrow> None
                | Some nxt \<Rightarrow> for_extensions n body nxt m))"

primrec pb_field_set_to_default ::
  "nat \<Rightarrow> 's dec_env \<Rightarrow> pb_field_iter \<Rightarrow> mem \<Rightarrow> mem option" where
  "pb_field_set_to_default 0 env iter m = None"
| "pb_field_set_to_default (Suc n) env iter m =
     (case iter_field iter of None \<Rightarrow> None
      | Some field \<Rightarrow>
        let message_defaults = (\<lambda>flds dest m.
              case pb_field_iter_begin flds dest of None \<Rightarrow> None
              | Some (nonempty, iter) \<Rightarrow>
                  if nonempty then for_fields (length flds) (pb_field_set_to_default n env) iter m
                  else Some m)
        in if ltype field = PB_LTYPE_EXTENSION then
             (case load_ptr m (pData iter) of None \<Rightarrow> None
              | Some ext \<Rightarrow>
                  for_extensions n (\<lambda>ext m.
                    case store_bool m (ext_found ext) False of None \<Rightarrow> None
                    | Some m \<Rightarrow>
                        (case iter_from_extension env m ext of None \<Rightarrow> None
                         | Some ext_iter \<Rightarrow> pb_field_set_to_default n env ext_iter m)) ext m)
           else if atype field = PB_ATYPE_STATIC then
             let init_data = (\<lambda>m.
                   if ltype field = PB_LTYPE_SUBMESSAGE then
                     (case ptr field of Submsg_fields flds \<Rightarrow> message_defaults flds (pData iter) m
                      | _ \<Rightarrow> None)
                   else (case ptr field of
                       Default_value bs \<Rightarrow>
                         if length bs < unat (data_size field) then None
                         else store_bytes m (pData iter) (take (unat (data_size field)) bs)
                     | Null_ptr \<Rightarrow>
                         store_bytes m (pData iter) (replicate (unat (data_size field)) 0)
                     | Submsg_fields _ \<Rightarrow> None))
             in if htype field = PB_HTYPE_OPTIONAL \<and> pSize iter \<noteq> pData iter then
                  Option.bind (store_bool m (pSize iter) False) init_data
                else if htype field = PB_HTYPE_REPEATED \<or> htype field = PB_HTYPE_ONEOF then
                  store_size m (pSize iter) 0
                else init_data m
           else if atype field = PB_ATYPE_POINTER then
             Option.bind (store_word m (pData iter) 8 (0 :: uint64_t)) (\<lambda>m.
               if htype field = PB_HTYPE_REPEATED \<or> htype field = PB_HTYPE_ONEOF
               then store_size m (pSize iter) 0 else Some m)
           else Some m)"

definition pb_message_set_to_defaults ::
  "nat \<Rightarrow> 's dec_env \<Rightarrow> pb_field list \<Rightarrow> addr \<Rightarrow> mem \<Rightarrow> mem option" where
  "pb_message_set_to_defaults n env flds dest m =
     (case pb_field_iter_begin flds dest of None \<Rightarrow> None
      | Some (nonempty, iter) \<Rightarrow>
          if nonempty then for_fields (length flds) (pb_field_set_to_default n env) iter m
          else Some m)"

section \<open>Messages\<close>

text \<open>A field that the descriptor array does not have: an extension of the message, or skipped.\<close>

definition unknown_field ::
  "nat \<Rightarrow> 's dec_env \<Rightarrow> (pb_field list \<Rightarrow> addr \<Rightarrow> mem \<Rightarrow> mem option) \<Rightarrow>
   (pb_field list \<Rightarrow> addr \<Rightarrow> 's dst \<Rightarrow> (unit, 's dst) cres) \<Rightarrow>
   uint32_t \<Rightarrow> pb_wire_type_t \<Rightarrow> pb_field_iter \<Rightarrow> uint32_t \<Rightarrow> 's dst \<Rightarrow>
   (pb_field_iter \<times> uint32_t, 's dst) cres" where
  "unknown_field n env defaults noinit t wire_type iter range_start st =
     (let skip = (\<lambda>iter range_start st.
        chk (on_stream (pb_skip_field wire_type) st) (\<lambda>_ st. Some (Rtrue (iter, range_start), st)))
      in if t \<ge> range_start then
           (case find_extension_field iter of None \<Rightarrow> None
            | Some (found, iter) \<Rightarrow>
                (case (if found then map_option tag (iter_field iter) else Some 0xFFFFFFFF) of
                   None \<Rightarrow> None
                 | Some range_start \<Rightarrow>
                     if t \<ge> range_start then
                       chk (decode_extension n env defaults noinit t wire_type iter st) (\<lambda>_ st'.
                         if bytes_left (fst st) \<noteq> bytes_left (fst st')
                         then Some (Rtrue (iter, range_start), st')
                         else skip iter range_start st')
                     else skip iter range_start st))
         else skip iter range_start st)"

text \<open>\<open>fields_seen[index >> 5] |= 1 << (index & 31)\<close> for a required field.\<close>

definition mark_seen :: "pb_field \<Rightarrow> uint32_t \<Rightarrow> uint32_t list \<Rightarrow> uint32_t list option" where
  "mark_seen field index seen =
     (if htype field = PB_HTYPE_REQUIRED \<and> index < of_nat PB_MAX_REQUIRED_FIELDS then
        let i = unat (drop_bit 5 index)
        in if i < length seen
           then Some (seen[i := seen ! i OR push_bit (unat (index AND 31)) 1]) else None
      else Some seen)"

text \<open>The loop of \<open>pb_decode_noinit\<close>; every round takes at least a byte.\<close>

primrec decode_loop ::
  "nat \<Rightarrow> nat \<Rightarrow> 's dec_env \<Rightarrow> (pb_field list \<Rightarrow> addr \<Rightarrow> mem \<Rightarrow> mem option) \<Rightarrow>
   (pb_field list \<Rightarrow> addr \<Rightarrow> 's dst \<Rightarrow> (unit, 's dst) cres) \<Rightarrow>
   pb_field_iter \<Rightarrow> uint32_t list \<Rightarrow> uint32_t \<Rightarrow> 's dst \<Rightarrow>
   (pb_field_iter \<times> uint32_t list, 's dst) cres" where
  "decode_loop 0 n env defaults noinit iter seen range_start st = None"
| "decode_loop (Suc k) n env defaults noinit iter seen range_start st =
     (if bytes_left (fst st) = 0 then Some (Rtrue (iter, seen), st)
      else case pb_decode_tag (fst st) of None \<Rightarrow> None
           | Some (ok, wire_type, t, eof, s) \<Rightarrow>
               let st = (s, snd st)
               in if \<not> ok then Some (if eof then Rtrue (iter, seen) else Rfalse, st)
                  else case pb_field_iter_find iter t of None \<Rightarrow> None
                       | Some (found, iter) \<Rightarrow>
                           if \<not> found then
                             chk (unknown_field n env defaults noinit t wire_type iter range_start st)
                               (\<lambda>(iter, range_start).
                                  decode_loop k n env defaults noinit iter seen range_start)
                           else case iter_field iter of None \<Rightarrow> None
                                | Some field \<Rightarrow>
                                    (case mark_seen field (required_field_index iter) seen of None \<Rightarrow> None
                                     | Some seen \<Rightarrow>
                                         chk (decode_field n env defaults noinit wire_type field
                                                (pData iter) (pSize iter) st)
                                           (\<lambda>_. decode_loop k n env defaults noinit iter seen range_start)))"

text \<open>
  The number of required fields: step to the end of the array, then count the last field if it is
  required.
\<close>

primrec required_loop :: "nat \<Rightarrow> pb_field_iter \<Rightarrow> (uint32_t \<times> pb_type_t \<times> pb_field_iter) option" where
  "required_loop 0 iter = None"
| "required_loop (Suc n) iter =
     (case iter_field iter of None \<Rightarrow> None
      | Some field \<Rightarrow>
          (case pb_field_iter_next iter of None \<Rightarrow> None
           | Some (again, iter') \<Rightarrow>
               if again then required_loop n iter'
               else Some (required_field_index iter, ftype field, iter')))"

definition required_count :: "pb_field_iter \<Rightarrow> uint32_t option" where
  "required_count iter =
     (case required_loop (length (start iter)) iter of None \<Rightarrow> None
      | Some (count, last_type, iter) \<Rightarrow>
          (case iter_field iter of None \<Rightarrow> None
           | Some field \<Rightarrow>
               Some (if PB_HTYPE last_type = PB_HTYPE_REQUIRED \<and> tag field \<noteq> 0
                     then count + 1 else count)))"

text \<open>
  The check that all required fields were seen. \<open>None\<close> where the code reads past
  \<open>fields_seen\<close> or shifts a 32-bit word by 32.
\<close>

fun seen_words :: "nat list \<Rightarrow> uint32_t list \<Rightarrow> bool option" where
  "seen_words [] seen = Some True"
| "seen_words (i # is) seen =
     (if i < length seen then if seen ! i \<noteq> 0xFFFFFFFF then Some False else seen_words is seen
      else None)"

definition all_seen :: "uint32_t \<Rightarrow> uint32_t list \<Rightarrow> bool option" where
  "all_seen count seen =
     (if count > 0 then
        (case seen_words [0..<unat (drop_bit 5 count)] seen of None \<Rightarrow> None
         | Some False \<Rightarrow> Some False
         | Some True \<Rightarrow>
             let i = unat (drop_bit 5 count); shift = 32 - unat (count AND 31)
             in if i < length seen \<and> shift < 32
                then Some (seen ! i = drop_bit shift 0xFFFFFFFF) else None)
      else Some True)"

definition check_required ::
  "pb_field_iter \<Rightarrow> uint32_t list \<Rightarrow> 's dst \<Rightarrow> (unit, 's dst) cres" where
  "check_required iter seen st =
     (case required_count iter of None \<Rightarrow> None
      | Some count \<Rightarrow>
          (case all_seen count seen of None \<Rightarrow> None
           | Some ok \<Rightarrow>
               if ok then Some (Rtrue (), st) else dec_error ''missing required field'' st))"

primrec pb_decode_noinit ::
  "nat \<Rightarrow> 's dec_env \<Rightarrow> pb_field list \<Rightarrow> addr \<Rightarrow> 's dst \<Rightarrow> (unit, 's dst) cres" where
  "pb_decode_noinit 0 env flds dest st = None"
| "pb_decode_noinit (Suc n) env flds dest st =
     (case pb_field_iter_begin flds dest of None \<Rightarrow> None
      | Some (_, iter) \<Rightarrow>
          chk (decode_loop (Suc n) n env (pb_message_set_to_defaults n env) (pb_decode_noinit n env)
                 iter [0, 0] 0 st)
            (\<lambda>(iter, seen). check_required iter seen))"

definition pb_decode ::
  "nat \<Rightarrow> 's dec_env \<Rightarrow> pb_field list \<Rightarrow> addr \<Rightarrow> 's dst \<Rightarrow> (unit, 's dst) cres" where
  "pb_decode n env flds dest st =
     chk (st_mem (pb_message_set_to_defaults n env flds dest) st)
       (\<lambda>_. pb_decode_noinit n env flds dest)"

definition pb_decode_delimited ::
  "nat \<Rightarrow> 's dec_env \<Rightarrow> pb_field list \<Rightarrow> addr \<Rightarrow> 's dst \<Rightarrow> (unit, 's dst) cres" where
  "pb_decode_delimited n env flds dest st =
     chk (on_stream pb_make_string_substream st) (\<lambda>substream (s, m).
       case pb_decode n env flds dest (substream, m) of None \<Rightarrow> None
       | Some (status, (substream, m)) \<Rightarrow>
           chk (lift_st m (pb_close_string_substream s substream)) (\<lambda>_ st. Some (status, st)))"

end
