(* ===== verification/DecodeSafety.thy ===== *)
theory DecodeSafety
  imports Decode
begin

text \<open>
  Safety of the decoder. \<open>wf_msg n flds sz\<close> says that a descriptor array describes a message
  struct of \<open>sz\<close> bytes whose submessages are nested less than \<open>n\<close> deep: the members lie in
  the struct, defaults are long enough, and the number of required fields is one that
  \<open>pb_decode_noinit\<close> can check. For such an array, on any stream that keeps the contract and
  with any user callbacks that keep theirs, every operation is defined, terminates, keeps the
  stream usable and changes only the message and what the callbacks own.
\<close>

section \<open>Well-formed descriptors\<close>

text \<open>An item of \<open>data_size\<close> bytes that the decoder of its type can fill.\<close>

definition item_ok :: "(pb_field list \<Rightarrow> nat \<Rightarrow> bool) \<Rightarrow> pb_field \<Rightarrow> bool" where
  "item_ok sub f =
     (if ltype f = PB_LTYPE_FIXED32 then 4 \<le> unat (data_size f)
      else if ltype f = PB_LTYPE_FIXED64 then 8 \<le> unat (data_size f)
      else if ltype f = PB_LTYPE_SUBMESSAGE
      then (case ptr f of Submsg_fields flds \<Rightarrow> sub flds (unat (data_size f)) | _ \<Rightarrow> False)
      else ltype f \<in> {PB_LTYPE_VARINT, PB_LTYPE_UVARINT, PB_LTYPE_SVARINT, PB_LTYPE_BYTES,
        PB_LTYPE_STRING, PB_LTYPE_FIXED_LENGTH_BYTES})"

definition default_ok :: "pb_field \<Rightarrow> bool" where
  "default_ok f =
     (ltype f = PB_LTYPE_SUBMESSAGE \<or>
      (case ptr f of Null_ptr \<Rightarrow> True | Default_value bs \<Rightarrow> unat (data_size f) \<le> length bs
       | Submsg_fields _ \<Rightarrow> False))"

text \<open>The data of the field and its has, count or which member lie in the struct.\<close>

definition inside :: "int \<Rightarrow> nat \<Rightarrow> nat \<Rightarrow> bool" where
  "inside d n sz \<longleftrightarrow> 0 \<le> d \<and> d + int n \<le> int sz"

definition data_bytes :: "pb_field \<Rightarrow> nat" where
  "data_bytes f =
     (if atype f = PB_ATYPE_STATIC then
        if htype f = PB_HTYPE_REPEATED then unat (data_size f) * unat (array_size f)
        else unat (data_size f)
      else if atype f = PB_ATYPE_POINTER then 8
      else if atype f = PB_ATYPE_CALLBACK then 16
      else 0)"

definition size_bytes :: "pb_field \<Rightarrow> int \<Rightarrow> int \<Rightarrow> nat" where
  "size_bytes f d sp =
     (if atype f = PB_ATYPE_CALLBACK then 0
      else if htype f = PB_HTYPE_REPEATED \<or> htype f = PB_HTYPE_ONEOF then 4
      else if htype f = PB_HTYPE_OPTIONAL \<and> sp \<noteq> d \<and> atype f = PB_ATYPE_STATIC then 1
      else 0)"

definition field_ok ::
  "(pb_field list \<Rightarrow> nat \<Rightarrow> bool) \<Rightarrow> pb_field \<Rightarrow> int \<Rightarrow> int \<Rightarrow> nat \<Rightarrow> bool" where
  "field_ok sub f d sp sz \<longleftrightarrow>
     ltype f \<noteq> PB_LTYPE_EXTENSION \<and> inside d (data_bytes f) sz \<and>
     (size_bytes f d sp = 0 \<or> inside sp (size_bytes f d sp) sz) \<and>
     (atype f = PB_ATYPE_STATIC \<longrightarrow> item_ok sub f \<and> int (data_bytes f) < 2 ^ 32 \<and>
        (htype f = PB_HTYPE_REQUIRED \<or> htype f = PB_HTYPE_OPTIONAL \<longrightarrow> default_ok f))"

text \<open>
  The check for required fields is defined for a count below 64 that is no positive multiple of
  32.
\<close>

definition count_required :: "pb_field list \<Rightarrow> nat" where
  "count_required flds = length (filter (\<lambda>f. htype f = PB_HTYPE_REQUIRED) (butlast flds))"

definition required_ok :: "pb_field list \<Rightarrow> bool" where
  "required_ok flds \<longleftrightarrow>
     count_required flds < 64 \<and> (count_required flds = 0 \<or> count_required flds mod 32 \<noteq> 0)"

primrec wf_msg :: "nat \<Rightarrow> pb_field list \<Rightarrow> nat \<Rightarrow> bool" where
  "wf_msg 0 flds sz = False"
| "wf_msg (Suc n) flds sz =
     (terminated flds \<and> last flds = PB_LAST_FIELD \<and> required_ok flds \<and>
      (\<forall>k \<in> set [0..<field_count flds].
         field_ok (wf_msg n) (flds ! k) (data_pos flds k) (size_pos flds k) sz))"

section \<open>What the operations keep\<close>

lemma neq_Rfalse: "r \<noteq> Rfalse \<longleftrightarrow> (\<exists>a. r = Rtrue a)"
  by (cases r) auto

definition keeps ::
  "'s in_callback \<Rightarrow> ('s in_state \<Rightarrow> nat \<Rightarrow> bool) \<Rightarrow> nat \<Rightarrow> addr set \<Rightarrow> 's dst \<Rightarrow> 's dst \<Rightarrow> bool" where
  "keeps cb fits k A st st' \<longleftrightarrow>
     moves cb fits k (fst st) (fst st') \<and> only_changes A (snd st) (snd st')"

definition consumes ::
  "'s in_callback \<Rightarrow> ('s in_state \<Rightarrow> nat \<Rightarrow> bool) \<Rightarrow> nat \<Rightarrow> addr set \<Rightarrow> 's dst \<Rightarrow> 'a rv \<Rightarrow>
   's dst \<Rightarrow> bool" where
  "consumes cb fits k A st r st' \<longleftrightarrow> keeps cb fits k A st st' \<and>
     (r \<noteq> Rfalse \<longrightarrow> bytes_left (fst st') < bytes_left (fst st))"

lemma keeps_refl: "stream_ok cb fits k (fst st) \<Longrightarrow> keeps cb fits k A st st"
  by (simp add: keeps_def moves_refl)

lemma keeps_trans [trans]:
  "keeps cb fits k A st st' \<Longrightarrow> keeps cb fits k A st' st'' \<Longrightarrow> keeps cb fits k A st st''"
  by (auto simp: keeps_def intro: moves_trans only_changes_trans)

lemma keeps_mono: "keeps cb fits k A st st' \<Longrightarrow> A \<subseteq> B \<Longrightarrow> keeps cb fits k B st st'"
  by (auto simp: keeps_def intro: only_changes_mono)

lemma keeps_ok: "keeps cb fits k A st st' \<Longrightarrow> stream_ok cb fits k (fst st')"
  by (auto simp: keeps_def dest: moves_ok)

lemma keeps_valid: "keeps cb fits k A st st' \<Longrightarrow> valid (snd st') a n = valid (snd st) a n"
  by (auto simp: keeps_def dest: only_changes_valid)

lemma keeps_dom: "keeps cb fits k A st st' \<Longrightarrow> dom (snd st') = dom (snd st)"
  by (rule only_changes_dom [of A]) (simp add: keeps_def)

lemma keepsD:
  "keeps cb fits k A st (s, m) \<Longrightarrow> stream_ok cb fits k s"
  "keeps cb fits k A st (s, m) \<Longrightarrow> valid (snd st) a n \<Longrightarrow> valid m a n"
  "keeps cb fits k A st (s, m) \<Longrightarrow> U \<subseteq> dom (snd st) \<Longrightarrow> U \<subseteq> dom m"
  using keeps_ok [of cb fits k A st "(s, m)"] keeps_valid [of cb fits k A st "(s, m)"]
    keeps_dom [of cb fits k A st "(s, m)"] by simp_all

lemma keeps_left: "keeps cb fits k A st st' \<Longrightarrow> unat (bytes_left (fst st')) \<le> unat (bytes_left (fst st))"
  by (simp add: keeps_def moves_def word_le_nat_alt)

lemma consumes_keeps: "consumes cb fits k A st r st' \<Longrightarrow> keeps cb fits k A st st'"
  by (simp add: consumes_def)

lemma consumes_then:
  "consumes cb fits k A st (Rtrue a) st1 \<Longrightarrow> keeps cb fits k A st1 st' \<Longrightarrow> consumes cb fits k A st r st'"
  by (auto simp: consumes_def keeps_def moves_def intro: only_changes_trans)

lemma consumes_mono: "consumes cb fits k A st r st' \<Longrightarrow> A \<subseteq> B \<Longrightarrow> consumes cb fits k B st r st'"
  by (auto simp: consumes_def intro: keeps_mono)

text \<open>An error, a stream operation and a store as steps.\<close>

lemma wp_error_keeps:
  "stream_ok cb fits k (fst st) \<Longrightarrow> wp (dec_error msg st) (\<lambda>r. keeps cb fits k A st)"
  by (simp add: wp_rules keeps_def moves_refl)

lemma wp_error_consumes:
  "stream_ok cb fits k (fst st) \<Longrightarrow> wp (dec_error msg st) (consumes cb fits k A st)"
  by (simp add: wp_rules consumes_def keeps_def moves_refl)

lemma wp_on_stream_eats:
  "wp (f (fst st)) (eats cb fits k (fst st)) \<Longrightarrow> wp (on_stream f st) (consumes cb fits k A st)"
  unfolding wp_on_stream by (erule wp_mono) (auto simp: consumes_def keeps_def eats_def)

lemma wp_on_stream_moves:
  "wp (f (fst st)) (\<lambda>r. moves cb fits k (fst st)) \<Longrightarrow> wp (on_stream f st) (\<lambda>r. keeps cb fits k A st)"
  unfolding wp_on_stream by (erule wp_mono) (auto simp: keeps_def)

lemma wp_store_keeps:
  assumes "stream_ok cb fits k (fst st)" and "valid (snd st) a n" and "region a n \<subseteq> A"
  shows "wp (st_mem (\<lambda>m. store_word m a n w) st) (\<lambda>r. keeps cb fits k A st)"
  by (rule wp_store_word [OF assms(2)])
    (use assms in \<open>auto simp: keeps_def moves_refl intro: only_changes_mono\<close>)

lemma wp_bytes_keeps:
  assumes "stream_ok cb fits k (fst st)" and "valid (snd st) a (length bs)" and "region a (length bs) \<subseteq> A"
  shows "wp (st_mem (\<lambda>m. store_bytes m a bs) st) (\<lambda>r. keeps cb fits k A st)"
  by (rule wp_store_bytes [OF assms(2)])
    (use assms in \<open>auto simp: keeps_def moves_refl intro: only_changes_mono\<close>)

lemma wp_chk_keeps:
  assumes "wp x (\<lambda>r. keeps cb fits k A st)"
    and "\<And>a st'. keeps cb fits k A st st' \<Longrightarrow> wp (g a st') (\<lambda>r. keeps cb fits k A st')"
  shows "wp (chk x g) (\<lambda>r. keeps cb fits k A st)"
  by (rule wp_chkI [OF assms(1)]) (auto intro!: wp_mono [OF assms(2)] intro: keeps_trans)

lemma wp_chk_consumes:
  assumes "wp x (consumes cb fits k A st)"
    and "\<And>a st'. consumes cb fits k A st (Rtrue a) st' \<Longrightarrow> wp (g a st') (\<lambda>r. keeps cb fits k A st')"
  shows "wp (chk x g) (consumes cb fits k A st)"
  apply (rule wp_chkI [OF assms(1)])
   apply (simp add: consumes_def)
  apply (rule wp_mono [OF assms(2)], assumption)
  apply (erule consumes_then, assumption)
  done

section \<open>Items\<close>

text \<open>What a decoder of submessages provides, up to \<open>n\<close> bytes of input.\<close>

definition msg_ops_ok ::
  "'s in_callback \<Rightarrow> ('s in_state \<Rightarrow> nat \<Rightarrow> bool) \<Rightarrow> addr set \<Rightarrow> nat \<Rightarrow> (pb_field list \<Rightarrow> nat \<Rightarrow> bool) \<Rightarrow>
   (pb_field list \<Rightarrow> addr \<Rightarrow> mem \<Rightarrow> mem option) \<Rightarrow>
   (pb_field list \<Rightarrow> addr \<Rightarrow> 's dst \<Rightarrow> (unit, 's dst) cres) \<Rightarrow> bool" where
  "msg_ops_ok cb fits U n sub defaults noinit \<longleftrightarrow>
     (\<forall>flds sz a m. sub flds sz \<longrightarrow> valid m a sz \<longrightarrow>
        (\<exists>m'. defaults flds a m = Some m' \<and> only_changes (region a sz) m m')) \<and>
     (\<forall>flds sz a k st. sub flds sz \<longrightarrow> valid (snd st) a sz \<longrightarrow> U \<subseteq> dom (snd st) \<longrightarrow>
        stream_ok cb fits k (fst st) \<longrightarrow> unat (bytes_left (fst st)) < n \<longrightarrow>
        wp (noinit flds a st) (\<lambda>r. keeps cb fits k (region a sz \<union> U) st))"

lemma wp_defaults_keeps:
  assumes "msg_ops_ok cb fits U n sub defaults noinit" and "sub flds sz" and "valid (snd st) a sz"
    and "stream_ok cb' fits' k (fst st)" and "region a sz \<subseteq> A"
  shows "wp (st_mem (defaults flds a) st) (\<lambda>r. keeps cb' fits' k A st)"
  using assms by (fastforce simp: msg_ops_ok_def wp_rules keeps_def moves_refl intro: only_changes_mono)

lemma unat_ALLOCSIZE: "unat (PB_BYTES_ARRAY_T_ALLOCSIZE n) = unat n + 4"
proof -
  have "unat n < 2 ^ 32" using unsigned_less [of n] by simp
  then show ?thesis by (simp add: PB_BYTES_ARRAY_T_ALLOCSIZE_def unat_word_ariths)
qed

lemma wp_noinit_keeps:
  assumes "msg_ops_ok cb fits U n sub defaults noinit" and "sub flds sz" and "valid (snd st) a sz"
    and "U \<subseteq> dom (snd st)" and "stream_ok cb fits k (fst st)" and "unat (bytes_left (fst st)) < n"
    and "region a sz \<union> U \<subseteq> A"
  shows "wp (noinit flds a st) (\<lambda>r. keeps cb fits k A st)"
proof -
  have "wp (noinit flds a st) (\<lambda>r. keeps cb fits k (region a sz \<union> U) st)"
    using assms(1-6) unfolding msg_ops_ok_def by blast
  then show ?thesis by (rule wp_mono) (rule keeps_mono [OF _ assms(7)])
qed

text \<open>\<open>size + 1\<close> wraps only for the largest size, which the first check rejects.\<close>

lemma string_alloc:
  fixes n d :: uint32_t
  assumes "\<not> ((ucast (n + 1) :: size_t) < ucast n \<or> ucast d < (ucast (n + 1) :: size_t))"
  shows "unat n + 1 \<le> unat d"
proof -
  have a: "unat n \<le> unat (n + 1)" "unat (n + 1) \<le> unat d"
    using assms by (simp_all add: word_less_nat_alt not_less)
  have "n + 1 \<noteq> 0"
  proof
    assume 0: "n + 1 = 0"
    with a(1) have "n = 0" by (simp add: unat_eq_0)
    with 0 show False by simp
  qed
  then have "unat (n + 1) = unat n + 1" using unatSuc [of n] by (simp add: add.commute)
  with a(2) show ?thesis by simp
qed

context in_contract begin

lemma store_clamped_keeps:
  assumes "stream_ok cb fits k (fst st)" and "valid (snd st) a n" and "region a n \<subseteq> A"
  shows "wp (store_clamped a n w c v st) (\<lambda>r. keeps cb fits k A st)"
  unfolding store_clamped_def
  by (rule wp_chk_keeps [OF wp_store_keeps [OF assms]])
    (auto dest!: keeps_ok intro: wp_error_keeps keeps_refl)

lemma svarint_eats: "stream_ok cb fits k s \<Longrightarrow> wp (pb_decode_svarint s) (eats cb fits k s)"
  unfolding pb_decode_svarint_def
  by (erule wp_chkI [OF varint_eats]) (auto simp: eats_def)

lemma read_local_eats:
  "stream_ok cb fits k s \<Longrightarrow> 0 < n \<Longrightarrow> wp (read_local n s) (eats cb fits k s)"
  by (rule wp_mono [OF read_local_moves])
    (auto simp: eats_def moves_def word_less_nat_alt word_le_nat_alt unat_sub neq_Rfalse)

lemma on_varint_consumes:
  assumes "stream_ok cb fits k (fst st)"
  shows "wp (on_stream pb_decode_varint st) (consumes cb fits k A st)"
    "wp (on_stream pb_decode_varint32 st) (consumes cb fits k A st)"
    "wp (on_stream pb_decode_svarint st) (consumes cb fits k A st)"
  by (rule wp_on_stream_eats, rule varint_eats varint32_eats svarint_eats, rule assms)+

lemma dec_varint_consumes:
  assumes "stream_ok cb fits k (fst st)" and "valid (snd st) a (unat (data_size f))"
    and "region a (unat (data_size f)) \<subseteq> A"
  shows "wp (pb_dec_varint f a st) (consumes cb fits k A st)"
  unfolding pb_dec_varint_def Let_def
  by (rule wp_chk_consumes [OF on_varint_consumes(1) [OF assms(1)]])
    (use assms in \<open>auto dest!: consumes_keeps intro!: store_clamped_keeps wp_error_keeps
      elim: keepsD\<close>)

lemma dec_uvarint_consumes:
  assumes "stream_ok cb fits k (fst st)" and "valid (snd st) a (unat (data_size f))"
    and "region a (unat (data_size f)) \<subseteq> A"
  shows "wp (pb_dec_uvarint f a st) (consumes cb fits k A st)"
  unfolding pb_dec_uvarint_def Let_def
  by (rule wp_chk_consumes [OF on_varint_consumes(1) [OF assms(1)]])
    (use assms in \<open>auto dest!: consumes_keeps intro!: store_clamped_keeps wp_error_keeps
      elim: keepsD\<close>)

lemma dec_svarint_consumes:
  assumes "stream_ok cb fits k (fst st)" and "valid (snd st) a (unat (data_size f))"
    and "region a (unat (data_size f)) \<subseteq> A"
  shows "wp (pb_dec_svarint f a st) (consumes cb fits k A st)"
  unfolding pb_dec_svarint_def Let_def
  by (rule wp_chk_consumes [OF on_varint_consumes(3) [OF assms(1)]])
    (use assms in \<open>auto dest!: consumes_keeps intro!: store_clamped_keeps wp_error_keeps
      elim: keepsD\<close>)

lemma read_mem_keeps:
  assumes "stream_ok cb fits k (fst st)" and "valid (snd st) a (unat n)" and "region a (unat n) \<subseteq> A"
  shows "wp (read_mem a n st) (\<lambda>r. keeps cb fits k A st)"
proof -
  have "wp (read_mem a n (fst st, snd st)) (\<lambda>r. keeps cb fits k A st)"
    by (rule wp_mono [OF read_mem_ok [OF assms(1,2)]])
      (use assms(3) in \<open>auto simp: keeps_def moves_def intro: only_changes_mono\<close>)
  then show ?thesis by simp
qed

lemma read_fixed_consumes:
  assumes "stream_ok cb fits k (fst st)" and "0 < n"
  shows "wp (lift_st (snd st) (read_local n (fst st))) (consumes cb fits k A st)"
  using wp_on_stream_eats [of "read_local n" st, OF read_local_eats [OF assms]]
  by (simp add: on_stream_def)

lemma dec_fixed32_consumes:
  assumes "stream_ok cb fits k (fst st)" and "valid (snd st) a 4" and "region a 4 \<subseteq> A"
  shows "wp (pb_dec_fixed32 f a st) (consumes cb fits k A st)"
  unfolding pb_dec_fixed32_def pb_decode_fixed32_def
  by (rule wp_chk_consumes [OF read_fixed_consumes [OF assms(1)]])
    (use assms in \<open>auto dest!: consumes_keeps intro!: wp_store_keeps elim: keepsD\<close>)

lemma dec_fixed64_consumes:
  assumes "stream_ok cb fits k (fst st)" and "valid (snd st) a 8" and "region a 8 \<subseteq> A"
  shows "wp (pb_dec_fixed64 f a st) (consumes cb fits k A st)"
  unfolding pb_dec_fixed64_def pb_decode_fixed64_def
  by (rule wp_chk_consumes [OF read_fixed_consumes [OF assms(1)]])
    (use assms in \<open>auto dest!: consumes_keeps intro!: wp_store_keeps elim: keepsD\<close>)

lemma dec_bytes_consumes:
  assumes "stream_ok cb fits k (fst st)" and "valid (snd st) a (unat (data_size f))"
    and "region a (unat (data_size f)) \<subseteq> A"
  shows "wp (pb_dec_bytes f a st) (consumes cb fits k A st)"
  unfolding pb_dec_bytes_def
proof (rule wp_chk_consumes [OF on_varint_consumes(2) [OF assms(1)]])
  fix n :: uint32_t and st1
  assume "consumes cb fits k A st (Rtrue n) st1"
  then have k1: "keeps cb fits k A st st1" by (rule consumes_keeps)
  note ok1 = keeps_ok [OF k1]
  show "wp (let alloc_size = PB_BYTES_ARRAY_T_ALLOCSIZE n
      in if PB_SIZE_MAX < n then dec_error ''bytes overflow'' st1
         else if alloc_size < ucast n then dec_error ''size too large'' st1
         else if atype f = PB_ATYPE_POINTER then dec_error ''no malloc support'' st1
         else if ucast (data_size f) < alloc_size then dec_error ''bytes overflow'' st1
         else chk (st_mem (\<lambda>m. store_size m a n) st1) (\<lambda>_. read_mem (a + 4) (ucast n)))
     (\<lambda>r. keeps cb fits k A st1)"
  proof (cases "ucast (data_size f) < PB_BYTES_ARRAY_T_ALLOCSIZE n")
    case True
    then show ?thesis using ok1 by (simp add: Let_def wp_error_keeps)
  next
    case False
    then have le: "unat n + 4 \<le> unat (data_size f)"
      by (simp add: not_less word_le_nat_alt unat_ALLOCSIZE)
    then have sub: "region a 4 \<subseteq> region a (unat (data_size f))"
      "region (a + 4) (unat n) \<subseteq> region a (unat (data_size f))"
      using region_prefix [of 4 "unat (data_size f)" a] region_part [of 4 "unat n" "unat (data_size f)" a]
      by simp_all
    have "valid (snd st1) a (unat (data_size f))" using assms(2) keeps_valid [OF k1] by simp
    then have v: "valid (snd st1) a 4" "valid (snd st1) (a + 4) (unat n)"
      using sub valid_sub by blast+
    have "wp (chk (st_mem (\<lambda>m. store_size m a n) st1) (\<lambda>_. read_mem (a + 4) (ucast n)))
        (\<lambda>r. keeps cb fits k A st1)"
      unfolding store_size_def
      by (rule wp_chk_keeps [OF wp_store_keeps [OF ok1]])
        (use sub v assms(3) in \<open>auto intro!: read_mem_keeps elim: keepsD\<close>)
    then show ?thesis using ok1 False by (simp add: Let_def wp_error_keeps)
  qed
qed

lemma dec_string_consumes:
  assumes "stream_ok cb fits k (fst st)" and "valid (snd st) a (unat (data_size f))"
    and "region a (unat (data_size f)) \<subseteq> A"
  shows "wp (pb_dec_string f a st) (consumes cb fits k A st)"
  unfolding pb_dec_string_def
proof (rule wp_chk_consumes [OF on_varint_consumes(2) [OF assms(1)]])
  fix n :: uint32_t and st1
  assume "consumes cb fits k A st (Rtrue n) st1"
  then have k1: "keeps cb fits k A st st1" by (rule consumes_keeps)
  note ok1 = keeps_ok [OF k1]
  let ?alloc = "ucast (n + 1) :: size_t"
  let ?store = "\<lambda>st. st_mem (\<lambda>m. store_bytes m (a + uint n) [0]) st"
  show "wp (let alloc_size = ?alloc
      in if alloc_size < ucast n then dec_error ''size too large'' st1
         else if atype f = PB_ATYPE_POINTER then dec_error ''no malloc support'' st1
         else if ucast (data_size f) < alloc_size then dec_error ''string overflow'' st1
         else (case read_mem a (ucast n) st1 of None \<Rightarrow> None
               | Some (status, st) \<Rightarrow> map_option (\<lambda>(_, st). (status, st)) (?store st)))
     (\<lambda>r. keeps cb fits k A st1)"
  proof (cases "?alloc < ucast n \<or> ucast (data_size f) < ?alloc")
    case True
    then show ?thesis using ok1 by (auto simp: Let_def wp_error_keeps)
  next
    case False
    then have le: "unat n + 1 \<le> unat (data_size f)" using string_alloc [of n "data_size f"] by blast
    have v: "valid (snd st1) a (unat (data_size f))" using assms(2) keeps_valid [OF k1] by simp
    have sub: "region a (unat n) \<subseteq> region a (unat (data_size f))"
      "region (a + int (unat n)) 1 \<subseteq> region a (unat (data_size f))"
      by (rule region_prefix, use le in simp, rule region_part, use le in simp)
    obtain r st2 where r: "read_mem a (ucast n) st1 = Some (r, st2)" "keeps cb fits k A st1 st2"
      using read_mem_keeps [OF ok1, of a "ucast n" A] valid_sub [OF v sub(1)] subset_trans [OF sub(1) assms(3)]
      by (auto simp: wp_iff)
    have "valid (snd st2) (a + int (unat n)) 1"
      using valid_sub [OF v sub(2)] keeps_valid [OF r(2)] by simp
    then obtain st3 where "?store st2 = Some (Rtrue (), st3)" "keeps cb fits k A st2 st3"
      using wp_bytes_keeps [OF keeps_ok [OF r(2)], of "a + int (unat n)" "[0]" A]
        subset_trans [OF sub(2) assms(3)]
      by (auto simp: wp_iff st_mem_def)
    then have "wp (case read_mem a (ucast n) st1 of None \<Rightarrow> None
       | Some (status, st) \<Rightarrow> map_option (\<lambda>(_, st). (status, st)) (?store st))
      (\<lambda>r. keeps cb fits k A st1)"
      using r keeps_trans [OF r(2)] by simp
    then show ?thesis using ok1 False by (simp add: Let_def wp_error_keeps)
  qed
qed

lemma dec_fixed_length_bytes_consumes:
  assumes "stream_ok cb fits k (fst st)" and "valid (snd st) a (unat (data_size f))"
    and "region a (unat (data_size f)) \<subseteq> A"
  shows "wp (pb_dec_fixed_length_bytes f a st) (consumes cb fits k A st)"
  unfolding pb_dec_fixed_length_bytes_def
proof (rule wp_chk_consumes [OF on_varint_consumes(2) [OF assms(1)]])
  fix n :: uint32_t and st1
  assume "consumes cb fits k A st (Rtrue n) st1"
  then have k1: "keeps cb fits k A st st1" by (rule consumes_keeps)
  have v: "valid (snd st1) a (unat (data_size f))" using assms(2) keeps_valid [OF k1] by simp
  have "wp (st_mem (\<lambda>m. store_bytes m a (replicate (unat (data_size f)) 0)) st1)
      (\<lambda>r. keeps cb fits k A st1)"
    by (rule wp_bytes_keeps [OF keeps_ok [OF k1]]) (use v assms(3) in simp_all)
  moreover have "wp (read_mem a (ucast (data_size f)) st1) (\<lambda>r. keeps cb fits k A st1)"
    by (rule read_mem_keeps [OF keeps_ok [OF k1]]) (use v assms(3) in simp_all)
  ultimately show "wp (if PB_SIZE_MAX < n then dec_error ''bytes overflow'' st1
      else if n = 0 then st_mem (\<lambda>m. store_bytes m a (replicate (unat (data_size f)) 0)) st1
      else if n \<noteq> data_size f then dec_error ''incorrect fixed length bytes size'' st1
      else read_mem a (ucast (data_size f)) st1) (\<lambda>r. keeps cb fits k A st1)"
    by (simp add: wp_error_keeps [OF keeps_ok [OF k1]])
qed

text \<open>
  A substream is opened, used and closed. What its user kept for the substream and a parent of
  \<open>bytes_left s\<close> bytes, the parent keeps.
\<close>

lemma on_make_substream:
  assumes "stream_ok cb fits k (fst st)"
  shows "wp (on_stream pb_make_string_substream st) (\<lambda>r st'. keeps cb fits k A st st' \<and>
    (\<forall>sub. r = Rtrue sub \<longrightarrow> opens cb fits k (fst st) sub (fst st') \<and> snd st' = snd st))"
  unfolding wp_on_stream
  by (rule wp_mono [OF make_substream_ok [OF assms]]) (auto simp: keeps_def)

lemma opens_consumes:
  "opens cb fits k (fst st) sub s \<Longrightarrow> keeps cb fits k A st (s, m) \<Longrightarrow> consumes cb fits k A st r (s, m)"
  by (auto simp: opens_def consumes_def word_less_nat_alt)

lemma close_keeps:
  assumes "stream_ok cb fits k s" and "stream_ok cb fits (unat (bytes_left s) + k) sub"
    and "only_changes A m m'"
  shows "wp (chk (lift_st m' (pb_close_string_substream s sub)) (\<lambda>_ st. Some (status, st)))
    (\<lambda>r. keeps cb fits k A (s, m))"
  by (rule wp_chkI [where P = "\<lambda>r. keeps cb fits k A (s, m)"])
    (use assms close_substream_ok [OF assms(1,2)] in \<open>auto simp: wp_rules keeps_def elim!: wp_mono\<close>)

lemma drop_keeps:
  assumes "stream_ok cb fits k s" and "stream_ok cb fits (unat (bytes_left s) + k) sub"
    and "only_changes A m m'"
  shows "wp (dec_error msg (drop_substream s sub, m')) (\<lambda>r. keeps cb fits k A (s, m))"
  using drop_substream_ok [OF assms(1,2)] assms(3) by (simp add: wp_rules keeps_def moves_def)

lemma dec_submessage_consumes:
  assumes "stream_ok cb fits k (fst st)" and "valid (snd st) a (unat (data_size f))"
    and "region a (unat (data_size f)) \<union> U \<subseteq> A" and "U \<subseteq> dom (snd st)"
    and ops: "msg_ops_ok cb fits U n sub defaults noinit"
    and "ptr f = Submsg_fields flds" and wf: "sub flds (unat (data_size f))"
    and n: "unat (bytes_left (fst st)) \<le> n"
  shows "wp (pb_dec_submessage defaults noinit f a st) (consumes cb fits k A st)"
  unfolding pb_dec_submessage_def
proof (rule wp_chkI [OF on_make_substream [OF assms(1)]])
  fix substream st1
  assume "keeps cb fits k A st st1 \<and> (\<forall>sub. Rtrue substream = Rtrue sub \<longrightarrow>
    opens cb fits k (fst st) sub (fst st1) \<and> snd st1 = snd st)"
  then obtain s where st1: "st1 = (s, snd st)" "opens cb fits k (fst st) substream s"
    "keeps cb fits k A st (s, snd st)" by (cases st1) auto
  let ?m = "snd st" and ?k = "unat (bytes_left s) + k" and ?sz = "unat (data_size f)"
  have sub: "stream_ok cb fits ?k substream" "unat (bytes_left substream) < n"
    and s: "stream_ok cb fits k s"
    using st1(2) n by (auto simp: opens_def dest: moves_ok)
  let ?dec = "if htype f = PB_HTYPE_REPEATED
      then chk (st_mem (defaults flds a) (substream, ?m)) (\<lambda>_. noinit flds a)
      else noinit flds a (substream, ?m)"
  have dec: "wp (noinit flds a st') (\<lambda>r. keeps cb fits ?k A st')"
    if "keeps cb fits ?k A (substream, ?m) st'" for st'
    by (rule wp_noinit_keeps [OF ops wf])
      (use assms(2-4) sub(2) keeps_ok [OF that] keeps_left [OF that] keeps_valid [OF that]
        keeps_dom [OF that] in auto)
  have "wp ?dec (\<lambda>r. keeps cb fits ?k A (substream, ?m))"
    using dec [OF keeps_refl] sub(1) assms(2,3)
    by (auto intro!: wp_chk_keeps [OF wp_defaults_keeps [OF ops wf]] dec)
  then obtain status sub' m' where d: "?dec = Some (status, (sub', m'))"
    "keeps cb fits ?k A (substream, ?m) (sub', m')" by (auto simp: wp_iff)
  have "wp (chk (lift_st m' (pb_close_string_substream s sub')) (\<lambda>_ st. Some (status, st)))
      (\<lambda>r. keeps cb fits k A (s, ?m))"
    by (rule close_keeps) (use s d(2) in \<open>auto simp: keeps_def dest: moves_ok\<close>)
  then have "wp (chk (lift_st m' (pb_close_string_substream s sub')) (\<lambda>_ st. Some (status, st)))
      (consumes cb fits k A st)"
    by (rule wp_mono) (metis consumes_then opens_consumes st1(2,3))
  then show "wp ((\<lambda>(s, m). case ptr f of Null_ptr \<Rightarrow> dec_error ''invalid field descriptor'' (s, m)
       | Submsg_fields flds \<Rightarrow>
           (case (if htype f = PB_HTYPE_REPEATED
                  then chk (st_mem (defaults flds a) (substream, m)) (\<lambda>_. noinit flds a)
                  else noinit flds a (substream, m)) of None \<Rightarrow> None
            | Some (status, (substream, m)) \<Rightarrow>
                chk (lift_st m (pb_close_string_substream s substream)) (\<lambda>_ st. Some (status, st)))
       | Default_value _ \<Rightarrow> None) st1) (consumes cb fits k A st)"
    using d(1) assms(6) st1(1) by simp
qed (simp add: consumes_def)

lemma item_consumes:
  assumes "stream_ok cb fits k (fst st)" and "valid (snd st) a (unat (data_size f))"
    and "region a (unat (data_size f)) \<union> U \<subseteq> A" and "U \<subseteq> dom (snd st)"
    and "msg_ops_ok cb fits U n sub defaults noinit"
    and "item_ok sub f" and "unat (bytes_left (fst st)) \<le> n"
  shows "wp (PB_DECODERS defaults noinit (ltype f) f a st) (consumes cb fits k A st)"
proof -
  have A: "region a (unat (data_size f)) \<subseteq> A" using assms(3) by simp
  consider "ltype f = PB_LTYPE_VARINT" | "ltype f = PB_LTYPE_UVARINT" | "ltype f = PB_LTYPE_SVARINT"
    | "ltype f = PB_LTYPE_FIXED32" "4 \<le> unat (data_size f)"
    | "ltype f = PB_LTYPE_FIXED64" "8 \<le> unat (data_size f)"
    | "ltype f = PB_LTYPE_BYTES" | "ltype f = PB_LTYPE_STRING"
    | "ltype f = PB_LTYPE_FIXED_LENGTH_BYTES"
    | flds where "ltype f = PB_LTYPE_SUBMESSAGE" "ptr f = Submsg_fields flds"
        "sub flds (unat (data_size f))"
    using assms(6) unfolding item_ok_def by (auto split: if_splits pb_ptr.splits)
  then show ?thesis
  proof cases
    case 4
    then have "region a 4 \<subseteq> region a (unat (data_size f))" by (intro region_prefix)
    then show ?thesis using dec_fixed32_consumes [OF assms(1), of a A f] valid_sub [OF assms(2)] A 4
      by (auto simp: PB_DECODERS_def)
  next
    case 5
    then have "region a 8 \<subseteq> region a (unat (data_size f))" by (intro region_prefix)
    then show ?thesis using dec_fixed64_consumes [OF assms(1), of a A f] valid_sub [OF assms(2)] A 5
      by (auto simp: PB_DECODERS_def)
  next
    case 9
    then show ?thesis using dec_submessage_consumes [OF assms(1-5) 9(2,3) assms(7)]
      by (simp add: PB_DECODERS_def)
  qed (use dec_varint_consumes [OF assms(1,2) A] dec_uvarint_consumes [OF assms(1,2) A]
      dec_svarint_consumes [OF assms(1,2) A] dec_bytes_consumes [OF assms(1,2) A]
      dec_string_consumes [OF assms(1,2) A] dec_fixed_length_bytes_consumes [OF assms(1,2) A]
      in \<open>simp_all add: PB_DECODERS_def\<close>)
qed

section \<open>Static fields\<close>

text \<open>The loop of a packed array, for any item decoder that consumes.\<close>

lemma packed_loop_keeps:
  assumes func: "\<And>i st'. i < array_size f \<Longrightarrow> stream_ok cb fits k (fst st') \<Longrightarrow> dom (snd st') = D \<Longrightarrow>
      unat (bytes_left (fst st')) < n \<Longrightarrow>
      wp (func f (pd + uint (data_size f * i)) st') (consumes cb fits k A st')"
    and "region ps 4 \<subseteq> D" and "region ps 4 \<subseteq> A"
  shows "stream_ok cb fits k (fst st) \<Longrightarrow> dom (snd st) = D \<Longrightarrow> unat (bytes_left (fst st)) < j \<Longrightarrow> j \<le> n \<Longrightarrow>
    wp (packed_loop j func f pd ps st) (\<lambda>r. keeps cb fits k A st)"
proof (induction j arbitrary: st)
  case 0
  then show ?case by simp
next
  case (Suc j)
  show ?case
  proof (cases "bytes_left (fst st) = 0")
    case True
    then show ?thesis using Suc.prems(1) by (simp add: keeps_refl)
  next
    case False
    have v: "valid m ps 4" if "dom m = D" for m using that assms(2) by (simp add: valid_def)
    obtain i where i: "load_size (snd st) ps = Some i" using load_size_valid [OF v] Suc.prems(2) by blast
    show ?thesis
    proof (cases "i < array_size f")
      case lt: True
      let ?rest = "\<lambda>_ st. case load_size (snd st) ps of None \<Rightarrow> None
         | Some i \<Rightarrow> chk (st_mem (\<lambda>m. store_size m ps (i + 1)) st)
             (\<lambda>_. packed_loop j func f pd ps)"
      have "wp (chk (func f (pd + uint (data_size f * i)) st) ?rest) (\<lambda>r. keeps cb fits k A st)"
      proof (rule wp_chkI [OF func [OF lt Suc.prems(1,2)]])
        show "unat (bytes_left (fst st)) < n" using Suc.prems(3,4) by simp
      next
        fix st'
        show "consumes cb fits k A st (Rfalse :: unit rv) st' \<Longrightarrow> keeps cb fits k A st st'"
          by (rule consumes_keeps)
      next
        fix a :: unit and st'
        assume c: "consumes cb fits k A st (Rtrue a) st'"
        note k' = consumes_keeps [OF c]
        have D: "dom (snd st') = D" using keeps_dom [OF k'] Suc.prems(2) by simp
        obtain i' where i': "load_size (snd st') ps = Some i'" using load_size_valid [OF v [OF D]] by blast
        have "unat (bytes_left (fst st')) < j"
          using c Suc.prems(3) by (simp add: consumes_def word_less_nat_alt)
        then have "wp (packed_loop j func f pd ps st'') (\<lambda>r. keeps cb fits k A st'')"
          if "keeps cb fits k A st' st''" for st''
          using keeps_ok [OF that] keeps_dom [OF that] keeps_left [OF that] D Suc.prems(4)
          by (intro Suc.IH) auto
        then have "wp (chk (st_mem (\<lambda>m. store_size m ps (i' + 1)) st') (\<lambda>_. packed_loop j func f pd ps))
            (\<lambda>r. keeps cb fits k A st')"
          unfolding store_size_def
          by (intro wp_chk_keeps [OF wp_store_keeps]) (use keeps_ok [OF k'] v [OF D] assms(3) in auto)
        then show "wp (?rest a st') (\<lambda>r. keeps cb fits k A st)"
          unfolding i' by (auto elim!: wp_mono intro: keeps_trans [OF k'])
      qed
      then show ?thesis using False i lt by simp
    next
      case ge: False
      then show ?thesis using False i Suc.prems(1) by (simp add: keeps_refl)
    qed
  qed
qed

text \<open>What a static field needs of the struct, at the addresses of its members.\<close>

end

definition static_at :: "(pb_field list \<Rightarrow> nat \<Rightarrow> bool) \<Rightarrow> pb_field \<Rightarrow> addr \<Rightarrow> addr \<Rightarrow> addr set \<Rightarrow> addr set \<Rightarrow> bool" where
  "static_at sub f pd ps A D \<longleftrightarrow>
     item_ok sub f \<and> data_bytes f < 2 ^ 32 \<and> region pd (data_bytes f) \<subseteq> A \<inter> D \<and>
     (htype f = PB_HTYPE_OPTIONAL \<longrightarrow> ps \<noteq> pd \<longrightarrow> region ps 1 \<subseteq> A \<inter> D) \<and>
     (htype f = PB_HTYPE_REPEATED \<or> htype f = PB_HTYPE_ONEOF \<longrightarrow> region ps 4 \<subseteq> A \<inter> D)"

text \<open>The items of an array lie in it; the offset does not wrap.\<close>

lemma array_item:
  assumes "atype f = PB_ATYPE_STATIC" and "htype f = PB_HTYPE_REPEATED"
    and "data_bytes f < 2 ^ 32" and "i < array_size f"
  shows "region (pd + uint (data_size f * i)) (unat (data_size f)) \<subseteq> region pd (data_bytes f)"
proof -
  have i: "Suc (unat i) \<le> unat (array_size f)" using assms(4) by (simp add: word_less_nat_alt)
  then have le: "unat (data_size f) * Suc (unat i) \<le> data_bytes f"
    using assms(1,2) mult_le_mono2 by (simp add: data_bytes_def del: mult_Suc_right)
  then have "unat (data_size f) * unat i < 2 ^ 32" using assms(3) by simp
  then have "unat (data_size f * i) = unat (data_size f) * unat i"
    by (simp add: unat_word_ariths)
  then have "unat (data_size f * i) + unat (data_size f) \<le> data_bytes f" using le by simp
  from region_part [OF this, of pd] show ?thesis by simp
qed

lemma item_region:
  assumes "static_at sub f pd ps A D" and "atype f = PB_ATYPE_STATIC" and "htype f \<noteq> PB_HTYPE_REPEATED"
  shows "region pd (unat (data_size f)) \<subseteq> A \<inter> D"
  using assms by (simp add: static_at_def data_bytes_def)

lemma array_item_region:
  assumes "static_at sub f pd ps A D" and "atype f = PB_ATYPE_STATIC" and "htype f = PB_HTYPE_REPEATED"
    and "i < array_size f"
  shows "region (pd + uint (data_size f * i)) (unat (data_size f)) \<subseteq> A \<inter> D"
  using assms array_item [OF assms(2,3) _ assms(4), of pd] by (auto simp: static_at_def)

lemma wp_bool_keeps:
  assumes "stream_ok cb fits k (fst st)" and "region a 1 \<subseteq> A \<inter> dom (snd st)"
  shows "wp (st_mem (\<lambda>m. store_bool m a b) st) (\<lambda>r. keeps cb fits k A st)"
  unfolding store_bool_def using assms wp_bytes_keeps [of cb fits k st a "[if b then 1 else 0]" A]
  by (simp add: valid_def)

lemma wp_size_keeps:
  assumes "stream_ok cb fits k (fst st)" and "region a 4 \<subseteq> A \<inter> dom (snd st)"
  shows "wp (st_mem (\<lambda>m. store_size m a w) st) (\<lambda>r. keeps cb fits k A st)"
  unfolding store_size_def using assms wp_store_keeps [of cb fits k st a 4 A w]
  by (simp add: valid_def)

lemma wp_chk_keeps_True:
  assumes "wp x (\<lambda>r. keeps cb fits k A st)"
    and "\<And>a st'. keeps cb fits k A st st' \<Longrightarrow> wp (g a st') (\<lambda>r. keeps cb fits k A st)"
  shows "wp (chk x g) (\<lambda>r. keeps cb fits k A st)"
  by (rule wp_chkI [OF assms(1)]) (auto intro!: wp_mono [OF assms(2)])

context in_contract begin

lemma item_keeps:
  assumes "stream_ok cb fits k (fst st)" and "region a (unat (data_size f)) \<subseteq> A \<inter> dom (snd st)"
    and "U \<subseteq> A \<inter> dom (snd st)" and "msg_ops_ok cb fits U n sub defaults noinit"
    and "item_ok sub f" and "unat (bytes_left (fst st)) \<le> n"
  shows "wp (PB_DECODERS defaults noinit (ltype f) f a st) (\<lambda>r. keeps cb fits k A st)"
  by (rule wp_mono [OF item_consumes [where A = A, OF assms(1) _ _ _ assms(4-6)]])
    (use assms(2,3) in \<open>auto simp: valid_def dest: consumes_keeps\<close>)

lemma packed_keeps:
  assumes "stream_ok cb fits k (fst st)" and "unat (bytes_left (fst st)) \<le> n"
    and "msg_ops_ok cb fits U n sub defaults noinit" and "U \<subseteq> A \<inter> dom (snd st)"
    and at: "static_at sub f pd ps A (dom (snd st))" and "atype f = PB_ATYPE_STATIC"
    and "htype f = PB_HTYPE_REPEATED"
  shows "wp (chk (on_stream pb_make_string_substream st) (\<lambda>substream (s, m).
     case packed_loop (Suc (unat (bytes_left substream)))
        (PB_DECODERS defaults noinit (ltype f)) f pd ps (substream, m) of None \<Rightarrow> None
     | Some (status, (substream, m)) \<Rightarrow>
         if bytes_left substream \<noteq> 0 then dec_error ''array overflow'' (drop_substream s substream, m)
         else chk (lift_st m (pb_close_string_substream s substream)) (\<lambda>_ st. Some (status, st))))
   (\<lambda>r. keeps cb fits k A st)"
proof (rule wp_chkI [OF on_make_substream [OF assms(1)]])
  fix substream st1
  assume "keeps cb fits k A st st1 \<and> (\<forall>sub. Rtrue substream = Rtrue sub \<longrightarrow>
    opens cb fits k (fst st) sub (fst st1) \<and> snd st1 = snd st)"
  then obtain s where st1: "st1 = (s, snd st)" "opens cb fits k (fst st) substream s"
    "keeps cb fits k A st (s, snd st)" by (cases st1) auto
  let ?m = "snd st" and ?k = "unat (bytes_left s) + k"
  let ?loop = "packed_loop (Suc (unat (bytes_left substream)))
    (PB_DECODERS defaults noinit (ltype f)) f pd ps (substream, ?m)"
  have sub: "stream_ok cb fits ?k substream" "Suc (unat (bytes_left substream)) \<le> n"
    and s: "stream_ok cb fits k s"
    using st1(2) assms(2) by (auto simp: opens_def dest: moves_ok)
  have ps: "region ps 4 \<subseteq> dom ?m" "region ps 4 \<subseteq> A" and io: "item_ok sub f"
    using at assms(7) by (auto simp: static_at_def)
  have "wp ?loop (\<lambda>r. keeps cb fits ?k A (substream, ?m))"
  proof (rule packed_loop_keeps [OF _ ps])
    fix i and st' :: "'s dst"
    assume i: "i < array_size f" and st': "stream_ok cb fits ?k (fst st')" "dom (snd st') = dom ?m"
      "unat (bytes_left (fst st')) < n"
    show "wp (PB_DECODERS defaults noinit (ltype f) f (pd + uint (data_size f * i)) st')
        (consumes cb fits ?k A st')"
      by (rule item_consumes [OF st'(1) _ _ _ assms(3) io])
        (use array_item_region [OF at assms(6,7) i] assms(4) st'(2,3) in \<open>auto simp: valid_def\<close>)
  qed (use sub in simp_all)
  then obtain status sub' m' where d: "?loop = Some (status, (sub', m'))"
    "keeps cb fits ?k A (substream, ?m) (sub', m')" by (auto simp: wp_iff)
  then have sub': "stream_ok cb fits ?k sub'" "only_changes A ?m m'"
    by (auto simp: keeps_def dest: moves_ok)
  let ?close = "if bytes_left sub' \<noteq> 0 then dec_error ''array overflow'' (drop_substream s sub', m')
     else chk (lift_st m' (pb_close_string_substream s sub')) (\<lambda>_ st. Some (status, st))"
  have "wp ?close (\<lambda>r. keeps cb fits k A (s, ?m))"
    by (cases "bytes_left sub' = 0") (simp_all add: close_keeps [OF s sub'] drop_keeps [OF s sub'])
  then have "wp ?close (\<lambda>r. keeps cb fits k A st)"
    by (rule wp_mono) (rule keeps_trans [OF st1(3)])
  then show "wp ((\<lambda>(s, m). case packed_loop (Suc (unat (bytes_left substream)))
        (PB_DECODERS defaults noinit (ltype f)) f pd ps (substream, m) of None \<Rightarrow> None
     | Some (status, (substream, m)) \<Rightarrow>
         if bytes_left substream \<noteq> 0 then dec_error ''array overflow'' (drop_substream s substream, m)
         else chk (lift_st m (pb_close_string_substream s substream)) (\<lambda>_ st. Some (status, st))) st1)
     (\<lambda>r. keeps cb fits k A st)"
    unfolding st1(1) by (simp only: prod.case d(1) option.case)
qed simp

lemma static_field_keeps:
  assumes "stream_ok cb fits k (fst st)" and "unat (bytes_left (fst st)) \<le> n"
    and ops: "msg_ops_ok cb fits U n sub defaults noinit" and U: "U \<subseteq> A \<inter> dom (snd st)"
    and at: "static_at sub f pd ps A (dom (snd st))" and st: "atype f = PB_ATYPE_STATIC"
  shows "wp (decode_static_field defaults noinit w f pd ps st) (\<lambda>r. keeps cb fits k A st)"
proof -
  let ?func = "PB_DECODERS defaults noinit (ltype f)"
  have io: "item_ok sub f" using at by (simp add: static_at_def)
  have lt: "\<not> PB_LTYPES_COUNT \<le> unat (ltype f)"
    using io by (auto simp: item_ok_def split: if_splits)
  have item: "wp (?func f a st') (\<lambda>r. keeps cb fits k A st')"
    if "keeps cb fits k A st st'" and "region a (unat (data_size f)) \<subseteq> A \<inter> dom (snd st)" for a st'
    by (rule item_keeps [OF keeps_ok [OF that(1)] _ _ ops io])
      (use that(2) U keeps_dom [OF that(1)] keeps_left [OF that(1)] assms(2) in auto)
  show ?thesis
  proof (cases "htype f = PB_HTYPE_REPEATED")
    case rep: True
    show ?thesis
    proof (cases "w = PB_WT_STRING \<and> ltype f \<le> PB_LTYPE_LAST_PACKABLE")
      case True
      show ?thesis
        unfolding decode_static_field_def Let_def
        using packed_keeps [OF assms(1-3) U at st rep] rep lt True by simp
    next
      case False
      have ps: "region ps 4 \<subseteq> A \<inter> dom (snd st)" using at rep by (auto simp: static_at_def)
      then obtain i where i: "load_size (snd st) ps = Some i"
        using load_size_valid [of "snd st" ps] by (auto simp: valid_def)
      have "wp (chk (st_mem (\<lambda>m. store_size m ps (i + 1)) st)
          (\<lambda>_. ?func f (pd + uint (data_size f * i)))) (\<lambda>r. keeps cb fits k A st)" if "i < array_size f"
        by (rule wp_chk_keeps [OF wp_size_keeps [OF assms(1) ps]], rule item, assumption)
          (rule array_item_region [OF at st rep that])
      then show ?thesis
        unfolding decode_static_field_def Let_def
        using rep lt False i by (auto simp: wp_error_keeps [OF assms(1)] not_le)
    qed
  next
    case single: False
    note reg = item_region [OF at st single]
    have v: "valid (snd st') pd (unat (data_size f))" if "keeps cb fits k A st st'" for st'
      using reg keeps_dom [OF that] by (simp add: valid_def)
    consider "htype f = PB_HTYPE_REQUIRED" | "htype f = PB_HTYPE_OPTIONAL" | "htype f = PB_HTYPE_ONEOF"
      using PB_HTYPE_cases [of "ftype f"] single by blast
    then show ?thesis
    proof cases
      case 1
      then show ?thesis using item [OF keeps_refl [OF assms(1)] reg] lt
        by (simp add: decode_static_field_def)
    next
      case 2
      have "wp (if ps \<noteq> pd then st_mem (\<lambda>m. store_bool m ps True) st else Some (Rtrue (), st))
          (\<lambda>r. keeps cb fits k A st)"
        using at 2 wp_bool_keeps [OF assms(1), of ps A True] keeps_refl [OF assms(1)]
        by (auto simp: static_at_def)
      then have "wp (chk (if ps \<noteq> pd then st_mem (\<lambda>m. store_bool m ps True) st else Some (Rtrue (), st))
          (\<lambda>_. ?func f pd)) (\<lambda>r. keeps cb fits k A st)"
        by (rule wp_chk_keeps) (rule item [OF _ reg])
      then show ?thesis using 2 lt by (simp add: decode_static_field_def)
    next
      case 3
      have ps: "region ps 4 \<subseteq> A \<inter> dom (snd st)" using at 3 by (auto simp: static_at_def)
      let ?clear = "\<lambda>st. if ltype f = PB_LTYPE_SUBMESSAGE
        then chk (st_mem (\<lambda>m. store_bytes m pd (replicate (unat (data_size f)) 0)) st)
          (\<lambda>_. case ptr f of Submsg_fields flds \<Rightarrow> st_mem (defaults flds pd) | _ \<Rightarrow> (\<lambda>_. None))
        else Some (Rtrue (), st)"
      have "wp (?clear st') (\<lambda>r. keeps cb fits k A st')" if k': "keeps cb fits k A st st'" for st'
      proof (cases "ltype f = PB_LTYPE_SUBMESSAGE")
        case True
        then obtain flds where flds: "ptr f = Submsg_fields flds" "sub flds (unat (data_size f))"
          using io by (auto simp: item_ok_def split: pb_ptr.splits)
        have "wp (chk (st_mem (\<lambda>m. store_bytes m pd (replicate (unat (data_size f)) 0)) st')
            (\<lambda>_. st_mem (defaults flds pd))) (\<lambda>r. keeps cb fits k A st')"
          by (rule wp_chk_keeps [OF wp_bytes_keeps [OF keeps_ok [OF k']]])
            (use v [OF k'] reg in \<open>auto intro!: wp_defaults_keeps [where sub = sub, OF ops]
              flds(2) elim: keepsD\<close>)
        then show ?thesis using True flds(1) by simp
      next
        case False
        then show ?thesis using keeps_refl [OF keeps_ok [OF k']] by simp
      qed
      then have "wp (chk (st_mem (\<lambda>m. store_size m ps (tag f)) st) (\<lambda>_ st. chk (?clear st) (\<lambda>_. ?func f pd)))
          (\<lambda>r. keeps cb fits k A st)"
        by (intro wp_chk_keeps [OF wp_size_keeps [OF assms(1) ps]] wp_chk_keeps)
          (auto intro!: item [OF _ reg] intro: keeps_trans)
      then show ?thesis using 3 lt by (simp add: decode_static_field_def)
    qed
  qed
qed

end

section \<open>Callback fields\<close>

text \<open>
  The contract of the user's callbacks: defined on every stream that can be used, the one being
  decoded or the buffer a scalar was copied to; they keep the stream usable, change only the memory
  \<open>U\<close> the user owns, and on success took a byte or left none. They do not replace their own pointers
  during a field.
\<close>

locale decode_contract = in_contract cb fits
  for cb :: "'s in_callback" and fits :: "'s in_state \<Rightarrow> nat \<Rightarrow> bool" +
  fixes env :: "'s dec_env" and U :: "addr set"
  assumes callback_ok: "f \<noteq> 0 \<Longrightarrow> stream_ok cb fits k s \<Longrightarrow> U \<subseteq> dom m \<Longrightarrow>
      wp (run_decode_callback env f field arg (s, m)) (\<lambda>r st'. keeps cb fits k U (s, m) st' \<and>
        (r \<noteq> Rfalse \<longrightarrow> bytes_left (fst st') < bytes_left s \<or> bytes_left (fst st') = 0))"
    and callback_scalar: "f \<noteq> 0 \<Longrightarrow> stream_ok Buf_read buf_fits 0 s \<Longrightarrow> U \<subseteq> dom m \<Longrightarrow>
      wp (run_decode_callback env f field arg (s, m)) (\<lambda>r. keeps Buf_read buf_fits 0 U (s, m))"
begin

lemma callback_loop_keeps:
  assumes "f \<noteq> 0"
  shows "stream_ok cb fits k (fst st) \<Longrightarrow> U \<subseteq> dom (snd st) \<Longrightarrow> unat (bytes_left (fst st)) < n \<Longrightarrow>
    wp (callback_loop n (run_decode_callback env f field arg) st) (\<lambda>r. keeps cb fits k U st)"
proof (induction n arbitrary: st)
  case 0
  then show ?case by simp
next
  case (Suc n)
  have call: "wp (run_decode_callback env f field arg st) (\<lambda>r st'. keeps cb fits k U st st' \<and>
      (r \<noteq> Rfalse \<longrightarrow> bytes_left (fst st') < bytes_left (fst st) \<or> bytes_left (fst st') = 0))"
    using callback_ok [OF assms Suc.prems(1,2)] by simp
  show ?case
    unfolding callback_loop.simps
  proof (rule wp_chkI [OF call])
    fix a st'
    assume "keeps cb fits k U st st' \<and> (Rtrue a \<noteq> Rfalse \<longrightarrow>
      bytes_left (fst st') < bytes_left (fst st) \<or> bytes_left (fst st') = 0)"
    then have k': "keeps cb fits k U st st'"
      and left: "bytes_left (fst st') \<noteq> 0 \<Longrightarrow> unat (bytes_left (fst st')) < n"
      using Suc.prems(3) by (auto simp: word_less_nat_alt)
    have "wp (callback_loop n (run_decode_callback env f field arg) st') (\<lambda>r. keeps cb fits k U st)"
      if "bytes_left (fst st') \<noteq> 0"
      by (rule wp_mono [OF Suc.IH [OF keeps_ok [OF k']]])
        (use Suc.prems(2) keeps_dom [OF k'] left [OF that] in \<open>auto intro: keeps_trans [OF k']\<close>)
    then show "wp (if bytes_left (fst st') \<noteq> 0 then callback_loop n (run_decode_callback env f field arg) st'
        else Some (Rtrue (), st')) (\<lambda>r. keeps cb fits k U st)"
      using k' by simp
  qed simp
qed

lemma callback_field_keeps:
  assumes "stream_ok cb fits k (fst st)" and "unat (bytes_left (fst st)) \<le> n"
    and "U \<subseteq> dom (snd st)" and "region pd 8 \<subseteq> dom (snd st)"
  shows "wp (decode_callback_field n env w field pd st) (\<lambda>r. keeps cb fits k U st)"
proof -
  obtain f where f: "load_ptr (snd st) pd = Some f"
    using load_ptr_valid [of "snd st" pd] assms(4) by (auto simp: valid_def)
  consider "f = 0" | "f \<noteq> 0" "w = PB_WT_STRING" | "f \<noteq> 0" "w \<noteq> PB_WT_STRING" by blast
  then show ?thesis
  proof cases
    case 1
    have "wp (on_stream (pb_skip_field w) st) (\<lambda>r. keeps cb fits k U st)"
      by (rule wp_on_stream_moves) (rule skip_field_moves [OF assms(1)])
    then show ?thesis using 1 f by (simp add: decode_callback_field_def)
  next
    case 2
    let ?call = "run_decode_callback env f field (pd + 8)"
    have "wp (chk (on_stream pb_make_string_substream st) (\<lambda>substream (s, m).
        case callback_loop n ?call (substream, m) of None \<Rightarrow> None
        | Some (Rfalse, (substream, m)) \<Rightarrow> dec_error ''callback failed'' (drop_substream s substream, m)
        | Some (Rtrue _, (substream, m)) \<Rightarrow> lift_st m (pb_close_string_substream s substream)))
      (\<lambda>r. keeps cb fits k U st)"
    proof (rule wp_chkI [OF on_make_substream [OF assms(1)]])
      fix substream st1
      assume "keeps cb fits k U st st1 \<and> (\<forall>sub. Rtrue substream = Rtrue sub \<longrightarrow>
        opens cb fits k (fst st) sub (fst st1) \<and> snd st1 = snd st)"
      then obtain s where st1: "st1 = (s, snd st)" "opens cb fits k (fst st) substream s"
        "keeps cb fits k U st (s, snd st)" by (cases st1) auto
      let ?m = "snd st" and ?k = "unat (bytes_left s) + k"
      have sub: "stream_ok cb fits ?k substream" "unat (bytes_left substream) < n"
        and s: "stream_ok cb fits k s"
        using st1(2) assms(2) by (auto simp: opens_def dest: moves_ok)
      obtain r sub' m' where d: "callback_loop n ?call (substream, ?m) = Some (r, (sub', m'))"
        "keeps cb fits ?k U (substream, ?m) (sub', m')"
        using callback_loop_keeps [OF 2(1), of ?k "(substream, ?m)" n field "pd + 8"] sub assms(3)
        by (auto simp: wp_iff)
      then have sub': "stream_ok cb fits ?k sub'" "only_changes U ?m m'"
        by (auto simp: keeps_def dest: moves_ok)
      have "wp (lift_st m' (pb_close_string_substream s sub')) (\<lambda>r. keeps cb fits k U (s, ?m))"
        using close_substream_ok [OF s sub'(1)] sub'(2)
        by (auto simp: wp_rules keeps_def elim!: wp_mono)
      then have "wp (case r of Rfalse \<Rightarrow> dec_error ''callback failed'' (drop_substream s sub', m')
          | Rtrue _ \<Rightarrow> lift_st m' (pb_close_string_substream s sub')) (\<lambda>r. keeps cb fits k U (s, ?m))"
        by (cases r) (simp_all add: drop_keeps [OF s sub'])
      then have "wp (case r of Rfalse \<Rightarrow> dec_error ''callback failed'' (drop_substream s sub', m')
          | Rtrue _ \<Rightarrow> lift_st m' (pb_close_string_substream s sub')) (\<lambda>r. keeps cb fits k U st)"
        by (rule wp_mono) (rule keeps_trans [OF st1(3)])
      then show "wp ((\<lambda>(s, m). case callback_loop n ?call (substream, m) of None \<Rightarrow> None
          | Some (Rfalse, (substream, m)) \<Rightarrow> dec_error ''callback failed'' (drop_substream s substream, m)
          | Some (Rtrue _, (substream, m)) \<Rightarrow> lift_st m (pb_close_string_substream s substream)) st1)
        (\<lambda>r. keeps cb fits k U st)"
        unfolding st1(1) by (cases r) (simp_all add: d(1))
    qed simp
    then show ?thesis using 2 f by (simp add: decode_callback_field_def Let_def)
  next
    case 3
    have raw: "wp (on_stream (read_raw_value w 10) st) (\<lambda>r st'. keeps cb fits k U st st' \<and>
        (\<forall>bs. r = Rtrue bs \<longrightarrow> length bs \<le> 10))"
      unfolding wp_on_stream
      by (rule wp_mono [OF read_raw_value_ok [OF assms(1)]]) (auto simp: keeps_def)
    have "wp (chk (on_stream (read_raw_value w 10) st) (\<lambda>buffer (s, m).
        case run_decode_callback env f field (pd + 8)
          (pb_istream_from_buffer buffer (of_nat (length buffer)), m) of None \<Rightarrow> None
        | Some (status, (substream, m)) \<Rightarrow> Some (status, (s, m)))) (\<lambda>r. keeps cb fits k U st)"
    proof (rule wp_chkI [OF raw])
      fix bs :: "pb_byte_t list" and st1
      assume "keeps cb fits k U st st1 \<and> (\<forall>bs'. Rtrue bs = Rtrue bs' \<longrightarrow> length bs' \<le> 10)"
      then have k1: "keeps cb fits k U st st1" and len: "length bs \<le> 10" by auto
      obtain s m where st1: "st1 = (s, m)" by (cases st1)
      have ok: "stream_ok Buf_read buf_fits 0 (pb_istream_from_buffer bs (of_nat (length bs)))"
        using len by (simp add: stream_ok_def buf_fits_def unat_of_nat take_bit_nat_eq_self)
      have "U \<subseteq> dom m" using assms(3) keeps_dom [OF k1] st1 by simp
      from callback_scalar [OF 3(1) ok this, of field "pd + 8"]
      obtain r sub m' where "run_decode_callback env f field (pd + 8)
          (pb_istream_from_buffer bs (of_nat (length bs)), m) = Some (r, (sub, m'))" "only_changes U m m'"
        by (auto simp: wp_iff keeps_def)
      then show "wp ((\<lambda>(s, m). case run_decode_callback env f field (pd + 8)
          (pb_istream_from_buffer bs (of_nat (length bs)), m) of None \<Rightarrow> None
        | Some (status, (substream, m)) \<Rightarrow> Some (status, (s, m))) st1) (\<lambda>r. keeps cb fits k U st)"
        using k1 st1 by (auto simp: keeps_def intro: only_changes_trans)
    qed simp
    then show ?thesis using 3 f by (simp add: decode_callback_field_def Let_def)
  qed
qed

end

end
