(* ===== verification/MessageSafety.thy ===== *)
theory MessageSafety
  imports DecodeSafety
begin

text \<open>
  Safety of default values, of the message loop and of \<open>pb_decode\<close>, from the safety of the
  field decoders in \<open>DecodeSafety\<close>.
\<close>

section \<open>Default values\<close>

text \<open>A memory update that is defined on the objects \<open>D\<close> and changes only \<open>A\<close>.\<close>

definition updates :: "addr set \<Rightarrow> addr set \<Rightarrow> (mem \<Rightarrow> mem option) \<Rightarrow> bool" where
  "updates A D g \<longleftrightarrow> (\<forall>m. dom m = D \<longrightarrow> (\<exists>m'. g m = Some m' \<and> only_changes A m m'))"

lemma updates_Some [simp]: "updates A D Some" "updates A D (\<lambda>m. Some m)"
  by (auto simp: updates_def)

lemma updates_bytes: "region a (length bs) \<subseteq> A \<inter> D \<Longrightarrow> updates A D (\<lambda>m. store_bytes m a bs)"
  unfolding updates_def
  by (metis le_inf_iff only_changes_mono store_bytes_only_changes store_bytes_valid valid_def)

lemma updates_word: "region a n \<subseteq> A \<inter> D \<Longrightarrow> updates A D (\<lambda>m. store_word m a n w)"
  unfolding store_word_def by (rule updates_bytes) simp

lemma updates_size: "region a 4 \<subseteq> A \<inter> D \<Longrightarrow> updates A D (\<lambda>m. store_size m a w)"
  unfolding store_size_def by (rule updates_word)

lemma updates_bool: "region a 1 \<subseteq> A \<inter> D \<Longrightarrow> updates A D (\<lambda>m. store_bool m a b)"
  unfolding store_bool_def by (rule updates_bytes) simp

lemma updates_bind:
  assumes "updates A D f" and "updates A D g"
  shows "updates A D (\<lambda>m. Option.bind (f m) g)"
  unfolding updates_def
proof (intro allI impI)
  fix m :: mem
  assume D: "dom m = D"
  then obtain m1 where m1: "f m = Some m1" "only_changes A m m1" using assms(1) by (auto simp: updates_def)
  then have "dom m1 = D" using D by (simp add: only_changes_dom)
  then obtain m2 where "g m1 = Some m2" "only_changes A m1 m2" using assms(2) by (auto simp: updates_def)
  with m1 show "\<exists>m'. Option.bind (f m) g = Some m' \<and> only_changes A m m'"
    by (auto intro: only_changes_trans)
qed

lemma updates_mono:
  assumes "updates A D g" and "A \<subseteq> B"
  shows "updates B D g"
  unfolding updates_def
proof (intro allI impI)
  fix m :: mem
  assume "dom m = D"
  then obtain m' where "g m = Some m'" "only_changes A m m'" using assms(1) by (auto simp: updates_def)
  then show "\<exists>m'. g m = Some m' \<and> only_changes B m m'" using only_changes_mono assms(2) by blast
qed

lemma inside_region: "inside d n sz \<Longrightarrow> region (dest + d) n \<subseteq> region dest sz"
  unfolding inside_def by (rule region_subset) simp_all

text \<open>One step of the initialisation of a field, submessages by the function for messages.\<close>

definition init_data :: "nat \<Rightarrow> 's dec_env \<Rightarrow> pb_field \<Rightarrow> addr \<Rightarrow> mem \<Rightarrow> mem option" where
  "init_data n env f a m =
     (if ltype f = PB_LTYPE_SUBMESSAGE
      then (case ptr f of Submsg_fields flds \<Rightarrow> pb_message_set_to_defaults n env flds a m | _ \<Rightarrow> None)
      else (case ptr f of
          Default_value bs \<Rightarrow>
            if length bs < unat (data_size f) then None
            else store_bytes m a (take (unat (data_size f)) bs)
        | Null_ptr \<Rightarrow> store_bytes m a (replicate (unat (data_size f)) 0)
        | Submsg_fields _ \<Rightarrow> None))"

lemma set_to_default_static:
  assumes "iter_field iter = Some f" and "ltype f \<noteq> PB_LTYPE_EXTENSION" and "atype f = PB_ATYPE_STATIC"
  shows "pb_field_set_to_default (Suc n) env iter =
    (if htype f = PB_HTYPE_OPTIONAL \<and> pSize iter \<noteq> pData iter
     then (\<lambda>m. Option.bind (store_bool m (pSize iter) False) (init_data n env f (pData iter)))
     else if htype f = PB_HTYPE_REPEATED \<or> htype f = PB_HTYPE_ONEOF
     then (\<lambda>m. store_size m (pSize iter) 0)
     else init_data n env f (pData iter))"
  unfolding init_data_def pb_message_set_to_defaults_def using assms
  by (cases "htype f = PB_HTYPE_OPTIONAL"; cases "pSize iter = pData iter") (simp_all add: fun_eq_iff Let_def)

lemma field_default_updates:
  assumes f: "iter_field iter = Some f" and ok: "field_ok sub f d sp sz"
    and it: "pData iter = dest + d" "pSize iter = dest + sp" and D: "region dest sz \<subseteq> D"
    and IH: "\<And>flds n' a. sub flds n' \<Longrightarrow> region a n' \<subseteq> D \<Longrightarrow>
      updates (region a n') D (pb_message_set_to_defaults n env flds a)"
  shows "updates (region dest sz) D (pb_field_set_to_default (Suc n) env iter)"
proof -
  let ?A = "region dest sz"
  have ext: "ltype f \<noteq> PB_LTYPE_EXTENSION" using ok by (simp add: field_ok_def)
  have data: "region (dest + d) (data_bytes f) \<subseteq> ?A \<inter> D"
    using ok inside_region [of d "data_bytes f" sz dest] D by (auto simp: field_ok_def)
  have szr: "region (dest + sp) (size_bytes f d sp) \<subseteq> ?A \<inter> D"
    using ok inside_region [of sp "size_bytes f d sp" sz dest] D by (auto simp: field_ok_def)
  consider "atype f = PB_ATYPE_STATIC" | "atype f = PB_ATYPE_POINTER"
    | "atype f \<noteq> PB_ATYPE_STATIC" "atype f \<noteq> PB_ATYPE_POINTER" by blast
  then show ?thesis
  proof cases
    case 1
    let ?init = "init_data n env f (dest + d)"
    have init: "updates ?A D ?init" if "htype f = PB_HTYPE_REQUIRED \<or> htype f = PB_HTYPE_OPTIONAL"
    proof (cases "ltype f = PB_LTYPE_SUBMESSAGE")
      case True
      then obtain flds where flds: "ptr f = Submsg_fields flds" "sub flds (unat (data_size f))"
        using ok 1 by (auto simp: field_ok_def item_ok_def split: pb_ptr.splits)
      have r: "region (dest + d) (unat (data_size f)) \<subseteq> ?A \<inter> D" using data 1 that by (auto simp: data_bytes_def)
      have "updates ?A D (pb_message_set_to_defaults n env flds (dest + d))"
        by (rule updates_mono [OF IH [OF flds(2)]]) (use r in auto)
      then show ?thesis using True flds(1) by (simp add: init_data_def [abs_def])
    next
      case False
      have r: "region (dest + d) (unat (data_size f)) \<subseteq> ?A \<inter> D" using data 1 that by (auto simp: data_bytes_def)
      have "default_ok f" using ok 1 that by (auto simp: field_ok_def)
      then show ?thesis using False r
        by (auto simp: default_ok_def init_data_def [abs_def] intro!: updates_bytes split: pb_ptr.splits)
    qed
    consider "htype f = PB_HTYPE_REQUIRED" | "htype f = PB_HTYPE_OPTIONAL" "sp \<noteq> d"
      | "htype f = PB_HTYPE_OPTIONAL" "sp = d" | "htype f = PB_HTYPE_REPEATED \<or> htype f = PB_HTYPE_ONEOF"
      using PB_HTYPE_cases [of "ftype f"] by blast
    then show ?thesis
    proof cases
      case 2
      have "updates ?A D (\<lambda>m. store_bool m (dest + sp) False)"
        by (rule updates_bool) (use szr 1 2 in \<open>simp add: size_bytes_def\<close>)
      then have "updates ?A D (\<lambda>m. Option.bind (store_bool m (dest + sp) False) ?init)"
        by (rule updates_bind) (rule init, use 2 in simp)
      then show ?thesis using 2 it unfolding set_to_default_static [OF f ext 1] by simp
    next
      case 4
      have "updates ?A D (\<lambda>m. store_size m (dest + sp) 0)"
        by (rule updates_size) (use szr 1 4 in \<open>auto simp: size_bytes_def\<close>)
      then show ?thesis using 4 it unfolding set_to_default_static [OF f ext 1] by auto
    qed (use init it in \<open>simp_all add: set_to_default_static [OF f ext 1]\<close>)
  next
    case 2
    have "updates ?A D (\<lambda>m. Option.bind (store_word m (dest + d) 8 (0 :: uint64_t)) (\<lambda>m.
        if htype f = PB_HTYPE_REPEATED \<or> htype f = PB_HTYPE_ONEOF then store_size m (dest + sp) 0
        else Some m))"
    proof (rule updates_bind)
      show "updates ?A D (\<lambda>m. store_word m (dest + d) 8 (0 :: uint64_t))"
        by (rule updates_word) (use data 2 in \<open>simp add: data_bytes_def\<close>)
      have "region (dest + sp) 4 \<subseteq> ?A \<inter> D" if "htype f = PB_HTYPE_REPEATED \<or> htype f = PB_HTYPE_ONEOF"
        using szr 2 that by (auto simp: size_bytes_def)
      then show "updates ?A D (\<lambda>m. if htype f = PB_HTYPE_REPEATED \<or> htype f = PB_HTYPE_ONEOF
          then store_size m (dest + sp) 0 else Some m)"
        by (cases "htype f = PB_HTYPE_REPEATED \<or> htype f = PB_HTYPE_ONEOF")
          (auto intro: updates_size)
    qed
    then show ?thesis using 2 f it ext by (simp add: updates_def cong: if_cong)
  next
    case 3
    then show ?thesis using f ext by (simp add: updates_def)
  qed
qed

lemma for_fields_updates:
  assumes "terminated flds" and "k < field_count flds" and "field_count flds \<le> j + k"
    and "\<And>i. k \<le> i \<Longrightarrow> i < field_count flds \<Longrightarrow> updates A D (body (iter_at flds dest i))"
  shows "updates A D (for_fields j body (iter_at flds dest k))"
  using assms(2-4)
proof (induction j arbitrary: k)
  case 0
  then show ?case by simp
next
  case (Suc j)
  note nxt = next_iter_at [OF assms(1) Suc.prems(1), of dest]
  have body: "updates A D (body (iter_at flds dest k))" by (rule Suc.prems(3)) (use Suc.prems(1) in simp_all)
  show ?case
  proof (cases "Suc k < field_count flds")
    case True
    have "updates A D (for_fields j body (iter_at flds dest (Suc k)))"
      by (rule Suc.IH) (use True Suc.prems in auto)
    moreover have "for_fields (Suc j) body (iter_at flds dest k) =
        (\<lambda>m. Option.bind (body (iter_at flds dest k) m) (for_fields j body (iter_at flds dest (Suc k))))"
      using nxt True by (auto simp: fun_eq_iff split: option.splits)
    ultimately show ?thesis using updates_bind [OF body] by simp
  next
    case False
    then show ?thesis using nxt body by (auto simp: updates_def split: option.splits)
  qed
qed

lemma wf_msg_Suc:
  assumes "wf_msg n flds sz"
  obtains n' where "n = Suc n'" "terminated flds" "last flds = PB_LAST_FIELD" "required_ok flds"
    "\<And>k. k < field_count flds \<Longrightarrow>
      field_ok (wf_msg n') (flds ! k) (data_pos flds k) (size_pos flds k) sz"
  using assms by (cases n) auto

text \<open>A message of a nesting depth within the fuel is initialised, and nothing else changes.\<close>

lemma set_to_defaults_updates:
  "wf_msg d flds sz \<Longrightarrow> d \<le> n \<Longrightarrow> region dest sz \<subseteq> D \<Longrightarrow>
   updates (region dest sz) D (pb_message_set_to_defaults n env flds dest)"
proof (induction n arbitrary: d flds sz dest)
  case 0
  then show ?case by simp
next
  case (Suc n)
  from Suc.prems(1) obtain d' where d: "d = Suc d'" and t: "terminated flds"
    and ok: "\<And>k. k < field_count flds \<Longrightarrow>
      field_ok (wf_msg d') (flds ! k) (data_pos flds k) (size_pos flds k) sz"
    by (rule wf_msg_Suc) blast
  show ?case
  proof (cases "0 < field_count flds")
    case True
    have "updates (region dest sz) D
        (for_fields (length flds) (pb_field_set_to_default (Suc n) env) (iter_at flds dest 0))"
    proof (rule for_fields_updates [OF t True])
      fix i
      assume i: "i < field_count flds"
      then have "i < length flds" using terminated_length [OF t] by simp
      then have fi: "iter_field (iter_at flds dest i) = Some (flds ! i)" by simp
      show "updates (region dest sz) D (pb_field_set_to_default (Suc n) env (iter_at flds dest i))"
        by (rule field_default_updates [OF fi ok [OF i] _ _ Suc.prems(3)])
          (use Suc.IH Suc.prems(2) d in auto)
    qed (use terminated_length [OF t] in simp)
    then show ?thesis
      by (simp add: updates_def pb_message_set_to_defaults_def begin_terminated [OF t] True
          del: pb_field_set_to_default.simps)
  next
    case False
    then show ?thesis
      by (simp add: updates_def pb_message_set_to_defaults_def begin_terminated [OF t])
  qed
qed

section \<open>Fields\<close>

lemma field_static_at:
  assumes "field_ok sub f d sp sz" and "atype f = PB_ATYPE_STATIC" and "region dest sz \<subseteq> A \<inter> D"
  shows "static_at sub f (dest + d) (dest + sp) A D"
proof -
  have "region (dest + d) (data_bytes f) \<subseteq> A \<inter> D"
    using assms inside_region [of d "data_bytes f" sz dest] by (auto simp: field_ok_def)
  moreover have "region (dest + sp) (size_bytes f d sp) \<subseteq> A \<inter> D"
    using assms inside_region [of sp "size_bytes f d sp" sz dest] by (auto simp: field_ok_def)
  ultimately show ?thesis
    using assms(1,2) by (auto simp: static_at_def field_ok_def size_bytes_def)
qed

context decode_contract begin

lemma decode_field_keeps:
  assumes "stream_ok cb fits k (fst st)" and "unat (bytes_left (fst st)) \<le> n"
    and "msg_ops_ok cb fits U n sub defaults noinit" and "field_ok sub f d sp sz"
    and "region dest sz \<subseteq> dom (snd st)" and "U \<subseteq> dom (snd st)"
  shows "wp (decode_field n env defaults noinit w f (dest + d) (dest + sp) st)
    (\<lambda>r. keeps cb fits k (region dest sz \<union> U) st)"
proof -
  consider "atype f = PB_ATYPE_STATIC" | "atype f = PB_ATYPE_CALLBACK"
    | "atype f \<noteq> PB_ATYPE_STATIC" "atype f \<noteq> PB_ATYPE_CALLBACK" by blast
  then show ?thesis
  proof cases
    case 1
    have "static_at sub f (dest + d) (dest + sp) (region dest sz \<union> U) (dom (snd st))"
      by (rule field_static_at [OF assms(4) 1]) (use assms(5) in auto)
    then show ?thesis
      using static_field_keeps [OF assms(1-3) _ _ 1, of "region dest sz \<union> U"] assms(6) 1
      by (simp add: decode_field_def)
  next
    case 2
    have "region (dest + d) 16 \<subseteq> dom (snd st)"
      using assms(4,5) 2 inside_region [of d 16 sz dest] by (auto simp: field_ok_def data_bytes_def)
    then have "region (dest + d) 8 \<subseteq> dom (snd st)" using region_prefix [of 8 16 "dest + d"] by simp
    then have "wp (decode_callback_field n env w f (dest + d) st) (\<lambda>r. keeps cb fits k U st)"
      by (rule callback_field_keeps [OF assms(1,2,6)])
    then have "wp (decode_callback_field n env w f (dest + d) st)
        (\<lambda>r. keeps cb fits k (region dest sz \<union> U) st)"
      by (rule wp_mono) (erule keeps_mono, simp)
    then show ?thesis using 2 by (simp add: decode_field_def)
  next
    case 3
    then show ?thesis
      by (simp add: decode_field_def decode_pointer_field_def wp_error_keeps [OF assms(1)])
  qed
qed

end

section \<open>The iterator during decoding\<close>

definition iter_ok :: "pb_field list \<Rightarrow> addr \<Rightarrow> pb_field_iter \<Rightarrow> bool" where
  "iter_ok flds dest it \<longleftrightarrow> (\<exists>p. it = iter_at flds dest p \<and> (p < field_count flds \<or> p = 0))"

lemma terminated_empty: "terminated flds \<Longrightarrow> field_count flds = 0 \<Longrightarrow> flds = [last flds]"
  using terminated_length [of flds] by (cases flds) auto

lemma field_ok_last: "field_ok sub PB_LAST_FIELD 0 sp sz"
  by (simp add: field_ok_def PB_LAST_FIELD_def PB_ATYPE_def PB_HTYPE_def PB_LTYPE_def inside_def
      data_bytes_def size_bytes_def item_ok_def default_ok_def)

text \<open>Every field the iterator stands on during decoding is described well.\<close>

lemma iter_ok_field:
  assumes "wf_msg (Suc n) flds sz" and "iter_ok flds dest it"
  obtains f d sp where "iter_field it = Some f" "field_ok (wf_msg n) f d sp sz"
    "pData it = dest + d" "pSize it = dest + sp" "start it = flds"
proof -
  from assms obtain p where it: "it = iter_at flds dest p" and p: "p < field_count flds \<or> p = 0"
    and t: "terminated flds" "last flds = PB_LAST_FIELD"
    by (auto simp: iter_ok_def)
  have len: "p < length flds" using p terminated_length [OF t(1)] by auto
  have "field_ok (wf_msg n) (flds ! p) (data_pos flds p) (size_pos flds p) sz"
  proof (cases "p < field_count flds")
    case True
    then show ?thesis using assms(1) by simp
  next
    case False
    then have "p = 0" "flds = [PB_LAST_FIELD]"
      using p t terminated_empty by (simp, metis gr0I)
    then have "data_pos flds p = 0" "flds ! p = PB_LAST_FIELD"
      by (simp_all add: layout_defs PB_LAST_FIELD_def)
    then show ?thesis using field_ok_last by simp
  qed
  then show thesis using that [of "flds ! p"] it len by simp
qed

lemma search_iter_ok:
  assumes "terminated flds" and "iter_ok flds dest it"
  shows "\<exists>b it'. iter_search (length (start it)) P (pos it) it = Some (b, it') \<and> iter_ok flds dest it' \<and>
    (b \<longrightarrow> (\<exists>f. iter_field it' = Some f \<and> P f))"
proof -
  from assms(2) obtain p where it: "it = iter_at flds dest p" and p: "p < field_count flds \<or> p = 0"
    by (auto simp: iter_ok_def)
  show ?thesis
  proof (cases "p < field_count flds")
    case True
    obtain b it' where *: "iter_search (length flds) P p (iter_at flds dest p) = Some (b, it')"
      "b \<longrightarrow> (\<exists>j < field_count flds. P (flds ! j) \<and> it' = iter_at flds dest j)"
      "\<not> b \<longrightarrow> it' = iter_at flds dest p"
      using iter_search_all [OF assms(1) True, of P dest] by blast
    then have "iter_ok flds dest it'" "b \<longrightarrow> (\<exists>f. iter_field it' = Some f \<and> P f)"
      using True terminated_length [OF assms(1)] by (cases b; auto simp: iter_ok_def)+
    then show ?thesis using *(1) it by simp
  next
    case False
    then have 0: "p = 0" "field_count flds = 0" using p by auto
    have flds: "length flds = 1" using terminated_length [OF assms(1)] 0 by simp
    have "tag (flds ! 0) = 0" using terminated_tag_end [OF assms(1)] 0 by simp
    then have "pb_field_iter_next (iter_at flds dest 0) = Some (False, iter_at flds dest 0)"
      using flds by (simp add: pb_field_iter_next_def)
    then have "iter_search (length flds) P p it = Some (P (flds ! 0), iter_at flds dest 0)"
      using 0 flds it by simp
    then show ?thesis using it 0 flds by (auto simp: iter_ok_def)
  qed
qed

lemma find_iter_ok:
  "terminated flds \<Longrightarrow> iter_ok flds dest it \<Longrightarrow>
   \<exists>b it'. pb_field_iter_find it t = Some (b, it') \<and> iter_ok flds dest it'"
  unfolding pb_field_iter_find_def using search_iter_ok by blast

text \<open>There are no extension ranges, so the search for one finds none.\<close>

lemma find_extension_none:
  assumes "wf_msg (Suc n) flds sz" and "iter_ok flds dest it"
  shows "\<exists>it'. find_extension_field it = Some (False, it') \<and> iter_ok flds dest it'"
proof -
  have t: "terminated flds" using assms(1) by simp
  obtain b it' where *: "find_extension_field it = Some (b, it')" "iter_ok flds dest it'"
    "b \<longrightarrow> (\<exists>f. iter_field it' = Some f \<and> ltype f = PB_LTYPE_EXTENSION)"
    using search_iter_ok [OF t assms(2)] unfolding find_extension_field_def by blast
  have "\<not> b"
    using iter_ok_field [OF assms(1) *(2)] *(3) by (metis field_ok_def option.inject)
  then show ?thesis using * by simp
qed

lemma tag_bound: "drop_bit 3 (x :: uint32_t) < 0xFFFFFFFF"
proof -
  have "unat (drop_bit 3 x) = unat x div 8" by (simp add: drop_bit_eq_div unat_div)
  also have "\<dots> < 4294967295"
  proof -
    have "unat x < 2 ^ LENGTH(32)" by (rule unsigned_less)
    then show ?thesis by simp
  qed
  finally show ?thesis by (simp add: word_less_nat_alt)
qed

lemma decode_tag_bound:
  "pb_decode_tag s = Some (ok, w, t, eof, s') \<Longrightarrow> ok \<Longrightarrow> t < 0xFFFFFFFF"
  using tag_bound by (auto simp: pb_decode_tag_def split: option.splits rv.splits prod.splits if_splits)

lemma mark_seen_defined:
  assumes "length seen = 2"
  shows "\<exists>seen'. mark_seen f index seen = Some seen' \<and> length seen' = 2"
proof (cases "htype f = PB_HTYPE_REQUIRED \<and> index < of_nat PB_MAX_REQUIRED_FIELDS")
  case True
  then have "unat (drop_bit 5 index) = unat index div 32" "unat index < 64"
    by (simp_all add: drop_bit_eq_div unat_div word_less_nat_alt)
  then have "unat (drop_bit 5 index) < 2" by simp
  then show ?thesis using True assms by (simp add: mark_seen_def Let_def)
next
  case False
  then show ?thesis using assms by (auto simp: mark_seen_def)
qed

section \<open>The check for required fields\<close>

lemma required_before_count:
  "k < field_count flds \<Longrightarrow>
   required_before flds k = length (filter (\<lambda>f. htype f = PB_HTYPE_REQUIRED) (take k (butlast flds)))"
proof (induction k)
  case 0
  then show ?case by (simp add: layout_defs Let_def)
next
  case (Suc k)
  then have k: "k < length (butlast flds)" by (simp add: field_count_def)
  then have "butlast flds ! k = flds ! k" by (simp add: nth_butlast)
  moreover have "same_union (flds ! k) (flds ! Suc k) \<Longrightarrow> htype (flds ! k) \<noteq> PB_HTYPE_REQUIRED"
    by (simp add: same_union_def)
  ultimately show ?case
    using Suc k by (auto simp: layout_defs take_Suc_conv_app_nth Let_def split: prod.splits)
qed

lemma required_loop_at:
  assumes "terminated flds"
  shows "p < field_count flds \<Longrightarrow> field_count flds \<le> j + p \<Longrightarrow>
    required_loop j (iter_at flds dest p) =
      Some (of_nat (required_before flds (field_count flds - 1)), ftype (flds ! (field_count flds - 1)),
        iter_at flds dest 0)"
proof (induction j arbitrary: p)
  case 0
  then show ?case by simp
next
  case (Suc j)
  have len: "p < length flds" using Suc.prems terminated_length [OF assms] by simp
  show ?case
  proof (cases "Suc p < field_count flds")
    case True
    then show ?thesis using Suc.IH [OF True] Suc.prems len next_iter_at [OF assms Suc.prems(1)] by simp
  next
    case False
    then have "p = field_count flds - 1" using Suc.prems(1) by simp
    then show ?thesis using False len next_iter_at [OF assms Suc.prems(1), of dest] by simp
  qed
qed

lemma required_count_value:
  assumes "terminated flds" and "last flds = PB_LAST_FIELD" and "iter_ok flds dest it"
  shows "required_count it = Some (of_nat (count_required flds))"
proof -
  from assms(3) obtain p where it: "it = iter_at flds dest p" and p: "p < field_count flds \<or> p = 0"
    by (auto simp: iter_ok_def)
  show ?thesis
  proof (cases "field_count flds")
    case 0
    then have "flds = [PB_LAST_FIELD]" "p = 0" using terminated_empty [OF assms(1)] assms(2) p by simp_all
    then show ?thesis
      by (simp add: it required_count_def count_required_def pb_field_iter_next_def PB_LAST_FIELD_def
          layout_defs)
  next
    case (Suc c)
    then have len: "length (butlast flds) = Suc c" "c < length flds" "0 < length flds"
      using terminated_length [OF assms(1)] by simp_all
    have p': "p < field_count flds" using p Suc by auto
    have loop: "required_loop (length flds) (iter_at flds dest p) =
        Some (of_nat (required_before flds c), ftype (flds ! c), iter_at flds dest 0)"
      using required_loop_at [OF assms(1) p', of "length flds" dest] Suc terminated_length [OF assms(1)]
      by simp
    have tag: "tag (flds ! 0) \<noteq> 0" using terminated_tag [OF assms(1)] Suc by simp
    have "take (Suc c) (butlast flds) = take c (butlast flds) @ [flds ! c]"
      using len(1) by (simp only: take_Suc_conv_app_nth nth_butlast lessI)
    moreover have "take (Suc c) (butlast flds) = butlast flds" by (rule take_all) (use len(1) in simp)
    ultimately have eq: "butlast flds = take c (butlast flds) @ [flds ! c]" by simp
    have "count_required flds = required_before flds c +
        (if htype (flds ! c) = PB_HTYPE_REQUIRED then 1 else 0)"
      unfolding count_required_def
      using arg_cong [OF eq, of "\<lambda>xs. length (filter (\<lambda>f. htype f = PB_HTYPE_REQUIRED) xs)"]
        required_before_count [of c flds] Suc by simp
    then show ?thesis
      using loop tag len by (simp add: it required_count_def)
  qed
qed

lemma all_seen_defined:
  assumes "length seen = 2" and "c < 64" and "c = 0 \<or> c mod 32 \<noteq> 0"
  shows "\<exists>b. all_seen (of_nat c) seen = Some b"
proof -
  have u: "unat (of_nat c :: uint32_t) = c" using assms(2) by (simp add: unat_of_nat take_bit_nat_eq_self)
  have d: "unat (drop_bit 5 (of_nat c :: uint32_t)) = c div 32"
    by (simp add: drop_bit_eq_div unat_div u)
  have m: "unat (of_nat c AND 31 :: uint32_t) = c mod 32"
  proof -
    have "(of_nat c AND 31 :: uint32_t) = take_bit 5 (of_nat c)"
      by (simp add: take_bit_eq_mask mask_eq_exp_minus_1)
    then show ?thesis by (simp add: take_bit_eq_mod unat_mod u)
  qed
  have "c div 32 = 0 \<or> c div 32 = 1" using assms(2) by auto
  then have words: "\<exists>b. seen_words [0..<c div 32] seen = Some b"
    using assms(1) by auto
  have i: "c div 32 < length seen" using assms(1,2) by auto
  then obtain b where b: "seen_words [0..<c div 32] seen = Some b" using words by blast
  show ?thesis
  proof (cases "c = 0")
    case True
    then show ?thesis by (simp add: all_seen_def)
  next
    case False
    then have "(0 :: uint32_t) < of_nat c" using u by (simp add: word_less_nat_alt)
    moreover have "32 - c mod 32 < 32" using assms(3) False by simp
    ultimately show ?thesis
      unfolding all_seen_def d m using i b by (cases b) (simp_all add: Let_def)
  qed
qed

lemma check_required_keeps:
  assumes "wf_msg n flds sz" and "iter_ok flds dest it" and "length seen = 2"
    and "stream_ok cb fits k (fst st)"
  shows "wp (check_required it seen st) (\<lambda>r. keeps cb fits k A st)"
proof -
  obtain n' where wf: "terminated flds" "last flds = PB_LAST_FIELD" "required_ok flds"
    using wf_msg_Suc [OF assms(1)] by blast
  have count: "required_count it = Some (of_nat (count_required flds))"
    by (rule required_count_value [OF wf(1,2) assms(2)])
  obtain b where "all_seen (of_nat (count_required flds)) seen = Some b"
    using all_seen_defined [OF assms(3)] wf(3) unfolding required_ok_def by blast
  then show ?thesis
    using count by (simp add: check_required_def keeps_refl wp_error_keeps assms(4))
qed

section \<open>Messages\<close>

context decode_contract begin

lemma unknown_field_keeps:
  assumes "wf_msg (Suc d) flds sz" and "iter_ok flds dest it" and "stream_ok cb fits k (fst st)"
    and "t < 0xFFFFFFFF"
  shows "wp (unknown_field n env defaults noinit t w it rs st) (\<lambda>r st'. keeps cb fits k A st st' \<and>
    (\<forall>it' rs'. r = Rtrue (it', rs') \<longrightarrow> iter_ok flds dest it'))"
proof -
  obtain it' where it': "find_extension_field it = Some (False, it')" "iter_ok flds dest it'"
    using find_extension_none [OF assms(1,2)] by blast
  have "wp (on_stream (pb_skip_field w) st) (\<lambda>r. keeps cb fits k A st)"
    by (rule wp_on_stream_moves) (rule skip_field_moves [OF assms(3)])
  then have skip: "wp (chk (on_stream (pb_skip_field w) st) (\<lambda>_ st. Some (Rtrue (i, rs), st)))
      (\<lambda>r st'. keeps cb fits k A st st' \<and> (\<forall>it' rs'. r = Rtrue (it', rs') \<longrightarrow> iter_ok flds dest it'))"
    if "iter_ok flds dest i" for i and rs :: uint32_t
    by (rule wp_chkI) (use that in auto)
  show ?thesis
    using skip [OF assms(2)] skip [OF it'(2)] it'(1) assms(4)
    by (auto simp: unknown_field_def Let_def not_le)
qed

lemma decode_loop_keeps:
  assumes wf: "wf_msg (Suc d) flds sz"
    and ops: "msg_ops_ok cb fits U n (wf_msg d) defaults noinit"
  shows "iter_ok flds dest it \<Longrightarrow> length seen = 2 \<Longrightarrow> stream_ok cb fits k (fst st) \<Longrightarrow>
    region dest sz \<union> U \<subseteq> dom (snd st) \<Longrightarrow> unat (bytes_left (fst st)) < j \<Longrightarrow>
    unat (bytes_left (fst st)) \<le> n \<Longrightarrow>
    wp (decode_loop j n env defaults noinit it seen rs st) (\<lambda>r st'.
      keeps cb fits k (region dest sz \<union> U) st st' \<and>
      (\<forall>it' seen'. r = Rtrue (it', seen') \<longrightarrow> iter_ok flds dest it' \<and> length seen' = 2))"
proof (induction j arbitrary: it seen rs st)
  case 0
  then show ?case by simp
next
  case (Suc j)
  let ?A = "region dest sz \<union> U"
  let ?Q = "\<lambda>st r st'. keeps cb fits k ?A st st' \<and>
    (\<forall>it' seen'. r = Rtrue (it', seen') \<longrightarrow> iter_ok flds dest it' \<and> length seen' = 2)"
  have t: "terminated flds" using wf by simp
  show ?case
  proof (cases "bytes_left (fst st) = 0")
    case True
    then show ?thesis using Suc.prems by (simp add: keeps_refl)
  next
    case False
    obtain ok w tg eof s where tag: "pb_decode_tag (fst st) = Some (ok, w, tg, eof, s)"
      "moves cb fits k (fst st) s" "ok \<Longrightarrow> bytes_left s < bytes_left (fst st)"
      using decode_tag_ok [OF Suc.prems(3)] by auto
    have k1: "keeps cb fits k ?A st (s, snd st)" using tag(2) by (simp add: keeps_def)
    show ?thesis
    proof (cases ok)
      case notok: False
      then show ?thesis using False tag(1) k1 Suc.prems by simp
    next
      case True
      note lt = tag(3) [OF True, unfolded word_less_nat_alt]
      obtain b it1 where find: "pb_field_iter_find it tg = Some (b, it1)" "iter_ok flds dest it1"
        using find_iter_ok [OF t Suc.prems(1)] by blast
      have rest: "wp (decode_loop j n env defaults noinit i sn r st') (?Q st)"
        if "keeps cb fits k ?A (s, snd st) st'" "iter_ok flds dest i" "length sn = 2" for i sn r st'
      proof (rule wp_mono [OF Suc.IH [OF that(2,3) keeps_ok [OF that(1)]]])
        show "?A \<subseteq> dom (snd st')" using Suc.prems(4) keeps_dom [OF that(1)] by simp
        show "unat (bytes_left (fst st')) < j" "unat (bytes_left (fst st')) \<le> n"
          using keeps_left [OF that(1)] lt Suc.prems(5,6) by simp_all
      qed (auto intro: keeps_trans [OF k1] keeps_trans [OF that(1)])
      show ?thesis
      proof (cases b)
        case unknown: False
        have "wp (chk (unknown_field n env defaults noinit tg w it1 rs (s, snd st))
            (\<lambda>(i, r). decode_loop j n env defaults noinit i seen r)) (?Q st)"
          by (rule wp_chkI [OF unknown_field_keeps [OF wf find(2), where A = ?A]])
            (use k1 decode_tag_bound [OF tag(1) True] rest Suc.prems(2)
              in \<open>auto dest: keeps_ok intro: keeps_trans\<close>)
        then show ?thesis using False tag(1) True find(1) unknown by simp
      next
        case known: True
        obtain f dd sp where f: "iter_field it1 = Some f" "field_ok (wf_msg d) f dd sp sz"
          "pData it1 = dest + dd" "pSize it1 = dest + sp"
          using iter_ok_field [OF wf find(2)] by blast
        obtain seen1 where seen1: "mark_seen f (required_field_index it1) seen = Some seen1" "length seen1 = 2"
          using mark_seen_defined [OF Suc.prems(2)] by blast
        have "wp (decode_field n env defaults noinit w f (dest + dd) (dest + sp) (s, snd st))
            (\<lambda>r. keeps cb fits k ?A (s, snd st))"
          by (rule decode_field_keeps [OF _ _ ops f(2)])
            (use keeps_ok [OF k1] lt Suc.prems(4,6) in auto)
        then have "wp (chk (decode_field n env defaults noinit w f (dest + dd) (dest + sp) (s, snd st))
            (\<lambda>_. decode_loop j n env defaults noinit it1 seen1 rs)) (?Q st)"
          by (rule wp_chkI) (auto intro: keeps_trans [OF k1] intro!: rest find(2) seen1(2))
        then show ?thesis using False tag(1) True find(1) known f seen1(1) by simp
      qed
    qed
  qed
qed

text \<open>
  Decoding a message: the fuel must exceed the input and the nesting. By induction on it, since a
  submessage is shorter than the message.
\<close>

lemma noinit_keeps:
  "wf_msg d flds sz \<Longrightarrow> d \<le> n \<Longrightarrow> stream_ok cb fits k (fst st) \<Longrightarrow>
   region dest sz \<union> U \<subseteq> dom (snd st) \<Longrightarrow> unat (bytes_left (fst st)) < n \<Longrightarrow>
   wp (pb_decode_noinit n env flds dest st) (\<lambda>r. keeps cb fits k (region dest sz \<union> U) st)"
proof (induction n arbitrary: d flds sz k dest st)
  case 0
  then show ?case by simp
next
  case (Suc n)
  then obtain d' where d: "d = Suc d'" by (cases d) auto
  note wf = Suc.prems(1) [unfolded d]
  have t: "terminated flds" using wf by simp
  let ?A = "region dest sz \<union> U"
  have ops: "msg_ops_ok cb fits U n (wf_msg d') (pb_message_set_to_defaults n env) (pb_decode_noinit n env)"
    unfolding msg_ops_ok_def
  proof (intro conjI allI impI)
    fix flds sz a m
    assume "wf_msg d' flds sz" and "valid m a sz"
    then have "updates (region a sz) (dom m) (pb_message_set_to_defaults n env flds a)"
      using set_to_defaults_updates Suc.prems(2) d by (simp add: valid_def)
    then show "\<exists>m'. pb_message_set_to_defaults n env flds a m = Some m' \<and> only_changes (region a sz) m m'"
      by (simp add: updates_def)
  next
    fix flds sz a k and st :: "'s dst"
    assume "wf_msg d' flds sz" and "valid (snd st) a sz" and "U \<subseteq> dom (snd st)"
      and "stream_ok cb fits k (fst st)" and "unat (bytes_left (fst st)) < n"
    then show "wp (pb_decode_noinit n env flds a st) (\<lambda>r. keeps cb fits k (region a sz \<union> U) st)"
      using Suc.IH [of d'] Suc.prems(2) d by (simp add: valid_def)
  qed
  have it: "iter_ok flds dest (iter_at flds dest 0)" by (auto simp: iter_ok_def)
  have "wp (decode_loop (Suc n) n env (pb_message_set_to_defaults n env) (pb_decode_noinit n env)
      (iter_at flds dest 0) [0, 0] 0 st) (\<lambda>r st'. keeps cb fits k ?A st st' \<and>
        (\<forall>it' seen'. r = Rtrue (it', seen') \<longrightarrow> iter_ok flds dest it' \<and> length seen' = 2))"
    by (rule decode_loop_keeps [OF wf ops it _ Suc.prems(3,4)]) (use Suc.prems(5) in simp_all)
  then have "wp (chk (decode_loop (Suc n) n env (pb_message_set_to_defaults n env) (pb_decode_noinit n env)
      (iter_at flds dest 0) [0, 0] 0 st) (\<lambda>(iter, seen). check_required iter seen))
      (\<lambda>r. keeps cb fits k ?A st)"
    by (rule wp_chkI)
      (auto intro!: wp_mono [OF check_required_keeps [OF Suc.prems(1)]] intro: keeps_trans dest: keeps_ok)
  then show ?case
    by (simp add: begin_terminated [OF t] del: decode_loop.simps)
qed

lemma decode_keeps:
  assumes "wf_msg d flds sz" and "d \<le> n" and "stream_ok cb fits k (fst st)"
    and "region dest sz \<union> U \<subseteq> dom (snd st)" and "unat (bytes_left (fst st)) < n"
  shows "wp (pb_decode n env flds dest st) (\<lambda>r. keeps cb fits k (region dest sz \<union> U) st)"
  unfolding pb_decode_def
proof (rule wp_chk_keeps)
  have "updates (region dest sz) (dom (snd st)) (pb_message_set_to_defaults n env flds dest)"
    by (rule set_to_defaults_updates [OF assms(1,2)]) (use assms(4) in simp)
  then obtain m' where "pb_message_set_to_defaults n env flds dest (snd st) = Some m'"
    "only_changes (region dest sz) (snd st) m'" by (auto simp: updates_def)
  then show "wp (st_mem (pb_message_set_to_defaults n env flds dest) st)
      (\<lambda>r. keeps cb fits k (region dest sz \<union> U) st)"
    using only_changes_mono [of "region dest sz" "snd st" m' "region dest sz \<union> U"]
    by (simp add: wp_rules keeps_def moves_refl [OF assms(3)])
next
  fix st' :: "'s dst"
  assume k': "keeps cb fits k (region dest sz \<union> U) st st'"
  show "wp (pb_decode_noinit n env flds dest st') (\<lambda>r. keeps cb fits k (region dest sz \<union> U) st')"
    by (rule noinit_keeps [OF assms(1,2) keeps_ok [OF k']])
      (use assms(4,5) keeps_dom [OF k'] keeps_left [OF k'] in simp_all)
qed

lemma decode_delimited_keeps:
  assumes "wf_msg d flds sz" and "d \<le> n" and "stream_ok cb fits k (fst st)"
    and "region dest sz \<union> U \<subseteq> dom (snd st)" and "unat (bytes_left (fst st)) < n"
  shows "wp (pb_decode_delimited n env flds dest st) (\<lambda>r. keeps cb fits k (region dest sz \<union> U) st)"
  unfolding pb_decode_delimited_def
proof (rule wp_chkI [OF on_make_substream [OF assms(3)]])
  let ?A = "region dest sz \<union> U" and ?m = "snd st"
  fix substream st1
  assume "keeps cb fits k ?A st st1 \<and> (\<forall>sub. Rtrue substream = Rtrue sub \<longrightarrow>
    opens cb fits k (fst st) sub (fst st1) \<and> snd st1 = snd st)"
  then obtain s where st1: "st1 = (s, ?m)" "opens cb fits k (fst st) substream s"
    "keeps cb fits k ?A st (s, ?m)" by (cases st1) auto
  let ?k = "unat (bytes_left s) + k"
  have sub: "stream_ok cb fits ?k substream" "unat (bytes_left substream) < n" and s: "stream_ok cb fits k s"
    using st1(2) assms(5) by (auto simp: opens_def dest: moves_ok)
  obtain r sub' m' where d: "pb_decode n env flds dest (substream, ?m) = Some (r, (sub', m'))"
    "keeps cb fits ?k ?A (substream, ?m) (sub', m')"
    using decode_keeps [OF assms(1,2), of ?k "(substream, ?m)" dest] sub assms(4) by (auto simp: wp_iff)
  then have sub': "stream_ok cb fits ?k sub'" "only_changes ?A ?m m'"
    by (auto simp: keeps_def dest: moves_ok)
  from close_keeps [OF s sub', of r]
  have "wp (chk (lift_st m' (pb_close_string_substream s sub')) (\<lambda>_ st. Some (r, st)))
      (\<lambda>r. keeps cb fits k ?A st)"
    by (rule wp_mono) (rule keeps_trans [OF st1(3)])
  then show "wp ((\<lambda>(s, m). case pb_decode n env flds dest (substream, m) of None \<Rightarrow> None
     | Some (status, (substream, m)) \<Rightarrow>
         chk (lift_st m (pb_close_string_substream s substream)) (\<lambda>_ st. Some (status, st))) st1)
     (\<lambda>r. keeps cb fits k ?A st)"
    by (simp add: st1(1) d(1))
qed simp

end

end
