(* ===== verification/VarintFormat.thy ===== *)
theory VarintFormat
  imports Prelude
begin

text \<open>
  The varint encoding, shared by nanopb and LevelDB, as a grammar: bytes with the top bit set,
  then one without. \<open>split_varint\<close> takes the first varint off a byte sequence,
  \<open>groups_word\<close> is the word of its groups of seven bits, and \<open>varint_bytes\<close> are
  the bytes that encode a word.
\<close>

section \<open>The grammar\<close>

fun split_varint :: "pb_byte_t list \<Rightarrow> (pb_byte_t list \<times> pb_byte_t list) option" where
  "split_varint [] = None"
| "split_varint (b # bs) =
     (if b AND 0x80 = 0 then Some ([b], bs)
      else map_option (\<lambda>(g, rest). (b # g, rest)) (split_varint bs))"

primrec groups_word :: "pb_byte_t list \<Rightarrow> 'a::len word" where
  "groups_word [] = 0"
| "groups_word (b # bs) = ucast (b AND 0x7F) OR push_bit 7 (groups_word bs)"

lemma split_varint_append: "split_varint bs = Some (g, rest) \<Longrightarrow> bs = g @ rest \<and> g \<noteq> []"
  by (induction bs arbitrary: g rest) (auto split: if_splits)

lemma split_varint_extend:
  "split_varint bs = Some (g, rest) \<Longrightarrow> split_varint (bs @ cs) = Some (g, rest @ cs)"
  by (induction bs arbitrary: g rest) (auto split: if_splits)

text \<open>A sequence in which every byte asks for another.\<close>

definition all_more :: "pb_byte_t list \<Rightarrow> bool" where
  "all_more bs \<longleftrightarrow> (\<forall>b \<in> set bs. b AND 0x80 \<noteq> 0)"

lemma all_more_simps [simp]:
  "all_more []" "all_more (b # bs) \<longleftrightarrow> b AND 0x80 \<noteq> 0 \<and> all_more bs"
  by (auto simp: all_more_def)

lemma split_varint_None: "split_varint bs = None \<longleftrightarrow> all_more bs"
  by (induction bs) auto

lemma split_varint_prefix_more:
  "split_varint bs = Some (g, rest) \<Longrightarrow> n < length g \<Longrightarrow> all_more (take n bs)"
proof (induction n arbitrary: bs g rest)
  case 0
  then show ?case by simp
next
  case (Suc n)
  then obtain b bs' where "bs = b # bs'" by (cases bs) auto
  with Suc show ?case by (auto split: if_splits)
qed

lemma byte_low7: "b AND 0x80 = 0 \<Longrightarrow> b AND 0x7F = (b :: pb_byte_t)"
proof -
  assume "b AND 0x80 = 0"
  then have "b AND 0x7F = b AND (0x7F OR 0x80)" by (simp only: bit.conj_disj_distrib) simp
  also have "(0x7F OR 0x80 :: pb_byte_t) = -1" by simp
  finally show ?thesis by simp
qed

lemma all_more_take: "all_more bs \<Longrightarrow> all_more (take n bs)"
  by (auto simp: all_more_def dest: in_set_takeD)

text \<open>Two widths agree where the groups fit.\<close>

lemma ucast_groups_word:
  "LENGTH('a::len) \<le> LENGTH('b::len) \<Longrightarrow> ucast (groups_word bs :: 'b word) = (groups_word bs :: 'a word)"
proof (induction bs)
  case Nil
  then show ?case by simp
next
  case (Cons b bs)
  have "ucast (ucast (b AND 0x7F) OR push_bit 7 (x :: 'b word)) =
     (ucast (b AND 0x7F) OR push_bit 7 (ucast x) :: 'a word)" for x
    by (rule bit_word_eqI) (use Cons.prems in \<open>auto simp: bit_simps\<close>)
  with Cons show ?case by simp
qed

lemma push_groups_Cons:
  "push_bit n (groups_word (b # bs) :: 'a::len word) =
   push_bit n (ucast (b AND 0x7F)) OR push_bit (n + 7) (groups_word bs)"
  by (simp add: push_bit_or add.commute)

section \<open>The bytes of a varint\<close>

lemma le_7F: "v \<le> 0x7F \<longleftrightarrow> drop_bit 7 (v :: uint64_t) = 0"
  unfolding word_unat_eq_iff
  by (auto simp: word_le_nat_alt drop_bit_eq_div unat_div div_eq_0_iff)

lemma and_7F: "v AND 0x7F = take_bit 7 (v :: uint64_t)"
  by (simp add: take_bit_eq_mask mask_eq_exp_minus_1)

lemma unat_drop_7: "unat (drop_bit 7 (v :: uint64_t)) = unat v div 128"
  by (simp add: drop_bit_eq_div unat_div)

text \<open>A byte that asks for more: its low seven bits and its top bit.\<close>

lemma more_byte:
  "ucast ((v AND 0x7F) OR 0x80 :: uint64_t) AND (0x7F :: pb_byte_t) = ucast (v AND 0x7F)"
  by (rule byte_eqI, elim insertE) (simp_all add: bit_simps)

lemma more_byte_top: "ucast ((v AND 0x7F) OR 0x80 :: uint64_t) AND (0x80 :: pb_byte_t) = 0x80"
  by (rule byte_eqI, elim insertE) (simp_all add: bit_simps)

lemma regroup:
  "ucast (ucast (v AND 0x7F :: uint64_t) :: pb_byte_t) OR push_bit 7 (drop_bit 7 v) = v"
proof (rule bit_word_eqI)
  fix n
  assume n: "n < LENGTH(64)"
  show "bit (ucast (ucast (v AND 0x7F) :: pb_byte_t) OR push_bit 7 (drop_bit 7 v)) n = bit v n"
    by (cases "n < 7") (use n in \<open>auto simp: and_7F bit_simps not_less\<close>)
qed

lemma last_byte:
  fixes v :: uint64_t
  assumes "v \<le> 0x7F"
  shows "ucast v AND 0x80 = (0 :: pb_byte_t)" "ucast v AND 0x7F = (ucast v :: pb_byte_t)"
    "v AND 0x7F = v"
proof -
  have v: "drop_bit 7 v = 0" using assms le_7F by blast
  show 7: "v AND 0x7F = v" using v by (simp add: and_7F take_bit_eq_self_iff_drop_bit_eq_0)
  have "(ucast (take_bit 7 v) :: pb_byte_t) AND 0x80 = 0"
    by (rule byte_eqI, elim insertE) (simp_all add: bit_simps)
  then show "ucast v AND 0x80 = (0 :: pb_byte_t)" using 7 by (simp add: and_7F)
  then show "ucast v AND 0x7F = (ucast v :: pb_byte_t)" by (rule byte_low7)
qed

function varint_bytes :: "uint64_t \<Rightarrow> pb_byte_t list" where
  "varint_bytes v =
     (if v \<le> 0x7F then [ucast v]
      else ucast ((v AND 0x7F) OR 0x80) # varint_bytes (drop_bit 7 v))"
  by pat_completeness auto
termination
  by (relation "measure unat") (auto simp: not_le word_less_nat_alt drop_bit_eq_div unat_div)

declare varint_bytes.simps [simp del]

lemma varint_bytes_nonempty [simp]: "varint_bytes v \<noteq> []"
  by (simp add: varint_bytes.simps [of v])

text \<open>Seven bits less in each step.\<close>

lemma varint_bytes_length: "unat v < 2 ^ (7 * n) \<Longrightarrow> 0 < n \<Longrightarrow> length (varint_bytes v) \<le> n"
proof (induction n arbitrary: v)
  case 0
  then show ?case by simp
next
  case (Suc n)
  show ?case
  proof (cases "v \<le> 0x7F")
    case True
    then show ?thesis by (simp add: varint_bytes.simps [of v])
  next
    case False
    have n: "0 < n"
    proof (rule ccontr)
      assume "\<not> 0 < n"
      then show False using Suc.prems(1) False by (simp add: word_le_nat_alt)
    qed
    have "unat (drop_bit 7 v) < 2 ^ (7 * n)"
      using Suc.prems(1) by (simp add: unat_drop_7 power_add less_mult_imp_div_less mult.commute)
    from Suc.IH [OF this n] False show ?thesis by (simp add: varint_bytes.simps [of v])
  qed
qed

lemma varint_bytes_le_10: "length (varint_bytes v) \<le> 10"
proof (rule varint_bytes_length)
  have "unat v < 2 ^ LENGTH(64)" by (rule unsigned_less)
  then show "unat v < 2 ^ (7 * 10)" by simp
qed simp

text \<open>The grammar takes exactly these bytes off the input and gives the value back.\<close>

lemma split_varint_bytes: "split_varint (varint_bytes v @ rest) = Some (varint_bytes v, rest)"
proof (induction v rule: varint_bytes.induct)
  case (1 v)
  then show ?case
    by (cases "v \<le> 0x7F") (simp_all add: varint_bytes.simps [of v] last_byte more_byte_top)
qed

lemma groups_varint_bytes: "groups_word (varint_bytes v) = v"
proof (induction v rule: varint_bytes.induct)
  case (1 v)
  show ?case
  proof (cases "v \<le> 0x7F")
    case True
    then have "ucast (ucast v :: pb_byte_t) = v"
      using regroup [of v] le_7F [of v] last_byte(3) [OF True] by simp
    with True show ?thesis by (simp add: varint_bytes.simps [of v] last_byte)
  next
    case False
    then show ?thesis
      using "1.IH" by (simp add: varint_bytes.simps [of v] more_byte regroup)
  qed
qed

text \<open>So no two values have encodings one of which begins with the other.\<close>

lemma varint_bytes_inj: "varint_bytes v @ xs = varint_bytes w @ ys \<Longrightarrow> v = w \<and> xs = ys"
  using split_varint_bytes [of v xs] split_varint_bytes [of w ys] groups_varint_bytes
  by (metis option.inject prod.inject)

section \<open>The specification of a varint reader\<close>

text \<open>
  What a reader that takes at most \<open>n\<close> bytes returns on each input: the word of the groups
  of a varint of that length, and what follows it.
\<close>

definition varint_prefix :: "nat \<Rightarrow> pb_byte_t list \<Rightarrow> ('a::len word \<times> pb_byte_t list) option" where
  "varint_prefix n bs =
     (case split_varint bs of
        Some (g, rest) \<Rightarrow> if length g \<le> n then Some (groups_word g, rest) else None
      | None \<Rightarrow> None)"

lemma varint_prefix_bytes:
  "length (varint_bytes v) \<le> n \<Longrightarrow> varint_prefix n (varint_bytes v @ rest) = Some (v, rest)"
  by (simp add: varint_prefix_def split_varint_bytes groups_varint_bytes)

lemma varint_prefix_append: "varint_prefix n bs = Some (v, rest) \<Longrightarrow> \<exists>g. bs = g @ rest \<and> g \<noteq> []"
  by (auto simp: varint_prefix_def split: option.splits if_splits dest!: split_varint_append)

lemma varint_prefix_shorter: "varint_prefix n bs = Some (v, rest) \<Longrightarrow> length rest < length bs"
  by (drule varint_prefix_append) auto

end
