(* ===== verification/Varint.thy ===== *)
theory Varint
  imports DecodePrim VarintFormat
begin

text \<open>
  The varint decoders of \<open>DecodePrim\<close> are characterised against the grammar of
  \<open>VarintFormat\<close>, for every input, on any stream with a content.
\<close>

section \<open>The decoders follow the grammar\<close>

locale varint_content = varint_reader cb fits loop limit groups + in_content cb fits content
  for cb :: "'s in_callback" and fits :: "'s in_state \<Rightarrow> nat \<Rightarrow> bool"
    and loop :: "'w::len word \<Rightarrow> 8 word \<Rightarrow> 's pb_istream_t \<Rightarrow> ('w word, 's pb_istream_t) cres"
    and limit :: "8 word" and groups :: nat
    and content :: "'s in_state \<Rightarrow> pb_byte_t list"
begin

lemma loop_content:
  assumes "stream_ok cb fits k s" and "split_varint (avail content s) = Some (g, rest)"
    and "unat bp = 7 * j" and "j + length g \<le> groups"
  shows "\<exists>s'. loop x bp s = Some (Rtrue (x OR push_bit (7 * j) (groups_word g)), s') \<and>
    stream_ok cb fits k s' \<and> avail content s' = rest \<and> i_errmsg s' = i_errmsg s"
  using assms
proof (induction g arbitrary: s x bp j)
  case Nil
  then show ?case by (auto dest: split_varint_append)
next
  case (Cons b g)
  from Cons.prems(2) have av: "avail content s = b # g @ rest" by (auto dest: split_varint_append)
  then obtain s1 where s1: "pb_readbyte s = Some (Rtrue b, s1)" "stream_ok cb fits k s1"
    "avail content s1 = g @ rest" "i_errmsg s1 = i_errmsg s"
    using readbyte_Cons [OF Cons.prems(1)] by blast
  have bp: "\<not> limit \<le> bp" using Cons.prems(3,4) limit_groups by auto
  let ?x = "x OR push_bit (7 * j) (ucast (b AND 0x7F))"
  show ?case
  proof (cases "b AND 0x80 = 0")
    case True
    then have "g = []" using Cons.prems(2) av by simp
    with True bp s1 Cons.prems(3) show ?thesis by (simp add: loop_unfold [of x bp])
  next
    case False
    have sp: "split_varint (avail content s1) = Some (g, rest)"
      using False Cons.prems(2) av s1(3) by auto
    have "unat (bp + 7) = 7 * Suc j" using bitpos_next [OF bp] Cons.prems(3) by simp
    from Cons.IH [OF s1(2) sp this, of ?x] Cons.prems(4) s1(4)
    obtain s' where "loop ?x (bp + 7) s1 =
        Some (Rtrue (?x OR push_bit (7 * Suc j) (groups_word g)), s')"
      "stream_ok cb fits k s'" "avail content s' = rest" "i_errmsg s' = i_errmsg s" by auto
    moreover have "?x OR push_bit (7 * Suc j) (groups_word g) =
        x OR push_bit (7 * j) (groups_word (b # g))"
      by (simp add: push_groups_Cons or.assoc add.commute del: groups_word.simps)
    ultimately show ?thesis using False bp s1(1) Cons.prems(3)
      by (simp add: loop_unfold [of x bp] del: groups_word.simps)
  qed
qed

text \<open>Without an end within the bytes that can be read, the loop fails.\<close>

lemma loop_overflow:
  assumes "stream_ok cb fits k s" and "unat bp = 7 * j" and "j \<le> groups"
    and "all_more (take (groups - j) (avail content s))"
  shows "\<exists>s'. loop x bp s = Some (Rfalse, s') \<and> stream_ok cb fits k s' \<and>
    avail content s' = drop (groups - j) (avail content s) \<and>
    (i_errmsg s = None \<longrightarrow>
      i_errmsg s' = Some (if groups - j \<le> length (avail content s) then ''varint overflow''
                          else ''end-of-stream''))"
  using assms
proof (induction "groups - j" arbitrary: s x bp j)
  case 0
  then have "limit \<le> bp" using limit_groups by auto
  with 0 show ?case by (simp add: loop_unfold [of x bp] PB_RETURN_ERROR_def PB_SET_ERROR_def)
next
  case (Suc n)
  have bp: "\<not> limit \<le> bp" using Suc.prems(2) Suc.hyps(2) limit_groups by auto
  show ?case
  proof (cases "avail content s")
    case Nil
    moreover have "groups - j \<noteq> 0" using Suc.hyps(2) by simp
    ultimately show ?thesis using Suc.prems bp
      by (simp add: loop_unfold [of x bp] readbyte_Nil PB_SET_ERROR_def)
  next
    case (Cons b bs)
    then obtain s1 where s1: "pb_readbyte s = Some (Rtrue b, s1)" "stream_ok cb fits k s1"
      "avail content s1 = bs" "i_errmsg s1 = i_errmsg s"
      using readbyte_Cons [OF Suc.prems(1)] by blast
    have j: "groups - j = Suc (groups - Suc j)" "n = groups - Suc j" "Suc j \<le> groups"
      using Suc.hyps(2) by auto
    have b: "b AND 0x80 \<noteq> 0" "all_more (take (groups - Suc j) (avail content s1))"
      using Suc.prems(4) Cons j(1) s1(3) by simp_all
    have "unat (bp + 7) = 7 * Suc j" using bitpos_next [OF bp] Suc.prems(2) by simp
    from Suc.hyps(1) [OF j(2) s1(2) this j(3) b(2)] s1(4)
    obtain s' where "loop (x OR push_bit (7 * j) (ucast (b AND 0x7F))) (bp + 7) s1 = Some (Rfalse, s')"
      "stream_ok cb fits k s'" "avail content s' = drop (groups - Suc j) bs"
      "i_errmsg s = None \<longrightarrow> i_errmsg s' =
         Some (if groups - Suc j \<le> length bs then ''varint overflow'' else ''end-of-stream'')"
      unfolding s1(3) by fastforce
    with bp b(1) s1(1) j(1) Cons Suc.prems(2) show ?thesis by (simp add: loop_unfold [of x bp])
  qed
qed

end

sublocale in_content \<subseteq> c32: varint_content cb fits decode_varint32_loop 32 5 content
  by unfold_locales

sublocale in_content \<subseteq> c64: varint_content cb fits decode_varint_loop 64 10 content
  by unfold_locales

context in_content begin

text \<open>\<open>pb_decode_varint\<close> on every input: a varint of at most ten bytes, else an error.\<close>

lemma decode_varint_content:
  assumes "stream_ok cb fits k s" and "split_varint (avail content s) = Some (g, rest)"
    and "length g \<le> 10"
  shows "\<exists>s'. pb_decode_varint s = Some (Rtrue (groups_word g), s') \<and> stream_ok cb fits k s' \<and>
    avail content s' = rest \<and> i_errmsg s' = i_errmsg s"
  using c64.loop_content [OF assms(1,2), of 0 0 0] assms(3) by (simp add: pb_decode_varint_def)

lemma decode_varint_error:
  assumes "stream_ok cb fits k s" and "all_more (take 10 (avail content s))"
  shows "\<exists>s'. pb_decode_varint s = Some (Rfalse, s') \<and> stream_ok cb fits k s' \<and>
    avail content s' = drop 10 (avail content s) \<and>
    (i_errmsg s = None \<longrightarrow> i_errmsg s' =
       Some (if 10 \<le> length (avail content s) then ''varint overflow'' else ''end-of-stream''))"
  using c64.loop_overflow [OF assms(1), of 0 0 0] assms(2)
  by (simp add: pb_decode_varint_def)

text \<open>\<open>pb_decode_varint32\<close> reads its first byte outside the loop, with the same meaning.\<close>

lemma varint32_as_loop: "pb_decode_varint32 s = decode_varint32_loop 0 0 s"
  by (auto simp: pb_decode_varint32_def decode_varint32_loop.simps [of 0 0 s] Let_def byte_low7
      intro!: chk_cong)

lemma decode_varint32_content:
  assumes "stream_ok cb fits k s" and "split_varint (avail content s) = Some (g, rest)"
    and "length g \<le> 5"
  shows "\<exists>s'. pb_decode_varint32 s = Some (Rtrue (groups_word g), s') \<and> stream_ok cb fits k s' \<and>
    avail content s' = rest \<and> i_errmsg s' = i_errmsg s"
  using c32.loop_content [OF assms(1,2), of 0 0 0] assms(3) by (simp add: varint32_as_loop)

lemma decode_varint32_error:
  assumes "stream_ok cb fits k s" and "all_more (take 5 (avail content s))"
  shows "\<exists>s'. pb_decode_varint32 s = Some (Rfalse, s') \<and> stream_ok cb fits k s' \<and>
    avail content s' = drop 5 (avail content s) \<and>
    (i_errmsg s = None \<longrightarrow> i_errmsg s' =
       Some (if 5 \<le> length (avail content s) then ''varint overflow'' else ''end-of-stream''))"
  using c32.loop_overflow [OF assms(1), of 0 0 0] assms(2)
  by (simp add: varint32_as_loop)

end

end
