(* ===== verification/WireFormat.thy ===== *)
theory WireFormat
  imports Varint
begin

text \<open>
  What the wire format says of a field's value and what the readers of \<open>DecodePrim\<close> do on it:
  the varint decoders and \<open>pb_skip_field\<close> as functions of the bytes a stream has left.
\<close>

section \<open>Reference functions\<close>

text \<open>
  The result of a varint decoder that takes at most \<open>groups\<close> bytes: the value, what is left,
  and the error.
\<close>

definition varint_result ::
  "nat \<Rightarrow> pb_byte_t list \<Rightarrow> 'a::len word rv \<times> pb_byte_t list \<times> errmsg_t" where
  "varint_result groups bs =
     (case split_varint bs of
        Some (g, rest) \<Rightarrow>
          if length g \<le> groups then (Rtrue (groups_word g), rest, None)
          else (Rfalse, drop groups bs, Some ''varint overflow'')
      | None \<Rightarrow>
          (Rfalse, drop groups bs,
           Some (if groups \<le> length bs then ''varint overflow'' else ''end-of-stream'')))"

text \<open>What follows a value of a wire type, when the bytes begin with one.\<close>

definition string_span :: "pb_byte_t list \<Rightarrow> pb_byte_t list option" where
  "string_span bs =
     (case split_varint bs of
        Some (g, rest) \<Rightarrow>
          let n = unat (groups_word g :: uint32_t)
          in if length g \<le> 5 \<and> n \<le> length rest then Some (drop n rest) else None
      | None \<Rightarrow> None)"

definition value_span :: "pb_wire_type_t \<Rightarrow> pb_byte_t list \<Rightarrow> pb_byte_t list option" where
  "value_span wire_type bs =
     (if wire_type = PB_WT_VARINT then map_option snd (split_varint bs)
      else if wire_type = PB_WT_64BIT then if 8 \<le> length bs then Some (drop 8 bs) else None
      else if wire_type = PB_WT_STRING then string_span bs
      else if wire_type = PB_WT_32BIT then if 4 \<le> length bs then Some (drop 4 bs) else None
      else None)"

text \<open>
  \<open>reads r rest x\<close>: the result is \<open>r\<close>; on success the stream, still usable, has
  \<open>rest\<close> left and no new error.
\<close>

definition reads ::
  "'s in_callback \<Rightarrow> ('s in_state \<Rightarrow> nat \<Rightarrow> bool) \<Rightarrow> ('s in_state \<Rightarrow> pb_byte_t list) \<Rightarrow> nat \<Rightarrow>
   's pb_istream_t \<Rightarrow> 'a \<Rightarrow> pb_byte_t list \<Rightarrow> ('a, 's pb_istream_t) cres \<Rightarrow> bool" where
  "reads cb fits content k s v rest x \<longleftrightarrow>
     (\<exists>s'. x = Some (Rtrue v, s') \<and> stream_ok cb fits k s' \<and> avail content s' = rest \<and>
        i_errmsg s' = i_errmsg s)"

definition fails ::
  "'s in_callback \<Rightarrow> ('s in_state \<Rightarrow> nat \<Rightarrow> bool) \<Rightarrow> nat \<Rightarrow> ('a, 's pb_istream_t) cres \<Rightarrow> bool" where
  "fails cb fits k x \<longleftrightarrow> (\<exists>s'. x = Some (Rfalse, s') \<and> stream_ok cb fits k s')"

lemma readsE:
  assumes "reads cb fits content k s v rest x"
  obtains s' where "x = Some (Rtrue v, s')" "stream_ok cb fits k s'" "avail content s' = rest"
    "i_errmsg s' = i_errmsg s"
  using assms by (auto simp: reads_def)

lemma failsE:
  assumes "fails cb fits k x"
  obtains s' where "x = Some (Rfalse, s')" "stream_ok cb fits k s'"
  using assms by (auto simp: fails_def)

lemma reads_chk:
  assumes "reads cb fits content k s v rest x"
    and "\<And>s'. stream_ok cb fits k s' \<Longrightarrow> avail content s' = rest \<Longrightarrow>
      reads cb fits content k s' v' rest' (g v s')"
  shows "reads cb fits content k s v' rest' (chk x g)"
  using assms by (fastforce simp: reads_def)

lemma fails_chk: "fails cb fits k x \<Longrightarrow> fails cb fits k (chk x g)"
  by (auto simp: fails_def)

lemma fails_chk_then:
  assumes "reads cb fits content k s v rest x"
    and "\<And>s'. stream_ok cb fits k s' \<Longrightarrow> avail content s' = rest \<Longrightarrow> fails cb fits k (g v s')"
  shows "fails cb fits k (chk x g)"
  using assms by (fastforce simp: reads_def)

section \<open>The readers follow the reference functions\<close>

context in_content begin

lemma varint_meets_result:
  assumes "stream_ok cb fits k s" and "i_errmsg s = None"
    and "varint_result 10 (avail content s) = (r, rest, err)"
  shows "\<exists>s'. pb_decode_varint s = Some (r, s') \<and> stream_ok cb fits k s' \<and>
    avail content s' = rest \<and> i_errmsg s' = err"
proof (cases "split_varint (avail content s)")
  case None
  then have "all_more (take 10 (avail content s))" by (simp add: split_varint_None all_more_take)
  then show ?thesis using decode_varint_error [OF assms(1)] assms(2,3) None
    by (auto simp: varint_result_def)
next
  case (Some p)
  obtain g rest' where p: "p = (g, rest')" by (cases p)
  show ?thesis
  proof (cases "length g \<le> 10")
    case True
    then show ?thesis using decode_varint_content [OF assms(1) Some [unfolded p] True] assms Some p
      by (auto simp: varint_result_def)
  next
    case False
    then have "all_more (take 10 (avail content s))" "10 \<le> length (avail content s)"
      using split_varint_prefix_more [OF Some [unfolded p], of 10]
        split_varint_append [OF Some [unfolded p]] by auto
    then show ?thesis using decode_varint_error [OF assms(1)] assms(2,3) False Some p
      by (auto simp: varint_result_def)
  qed
qed

lemma varint32_meets_result:
  assumes "stream_ok cb fits k s" and "i_errmsg s = None"
    and "varint_result 5 (avail content s) = (r, rest, err)"
  shows "\<exists>s'. pb_decode_varint32 s = Some (r, s') \<and> stream_ok cb fits k s' \<and>
    avail content s' = rest \<and> i_errmsg s' = err"
proof (cases "split_varint (avail content s)")
  case None
  then have "all_more (take 5 (avail content s))" by (simp add: split_varint_None all_more_take)
  then show ?thesis using decode_varint32_error [OF assms(1)] assms(2,3) None
    by (auto simp: varint_result_def)
next
  case (Some p)
  obtain g rest' where p: "p = (g, rest')" by (cases p)
  show ?thesis
  proof (cases "length g \<le> 5")
    case True
    then show ?thesis using decode_varint32_content [OF assms(1) Some [unfolded p] True] assms Some p
      by (auto simp: varint_result_def)
  next
    case False
    then have "all_more (take 5 (avail content s))" "5 \<le> length (avail content s)"
      using split_varint_prefix_more [OF Some [unfolded p], of 5]
        split_varint_append [OF Some [unfolded p]] by auto
    then show ?thesis using decode_varint32_error [OF assms(1)] assms(2,3) False Some p
      by (auto simp: varint_result_def)
  qed
qed

text \<open>The same without the error message, which another error may already have set.\<close>

lemma varint32_reads:
  "stream_ok cb fits k s \<Longrightarrow> split_varint (avail content s) = Some (g, rest) \<Longrightarrow> length g \<le> 5 \<Longrightarrow>
   reads cb fits content k s (groups_word g) rest (pb_decode_varint32 s)"
  unfolding reads_def by (rule decode_varint32_content)

lemma varint_reads:
  "stream_ok cb fits k s \<Longrightarrow> split_varint (avail content s) = Some (g, rest) \<Longrightarrow> length g \<le> 10 \<Longrightarrow>
   reads cb fits content k s (groups_word g) rest (pb_decode_varint s)"
  unfolding reads_def by (rule decode_varint_content)

text \<open>Where there is no varint of that length, they fail.\<close>

lemma more_or_long:
  assumes "\<And>g rest. split_varint bs = Some (g, rest) \<Longrightarrow> n < length g"
  shows "all_more (take n bs)"
proof (cases "split_varint bs")
  case None
  then show ?thesis by (simp add: split_varint_None all_more_take)
next
  case (Some p)
  then show ?thesis using assms split_varint_prefix_more by (cases p) blast
qed

lemma varint32_fails:
  assumes "stream_ok cb fits k s"
    and "\<And>g rest. split_varint (avail content s) = Some (g, rest) \<Longrightarrow> 5 < length g"
  shows "fails cb fits k (pb_decode_varint32 s)"
  using decode_varint32_error [OF assms(1) more_or_long] assms(2) by (auto simp: fails_def)

lemma varint_fails:
  assumes "stream_ok cb fits k s"
    and "\<And>g rest. split_varint (avail content s) = Some (g, rest) \<Longrightarrow> 10 < length g"
  shows "fails cb fits k (pb_decode_varint s)"
  using decode_varint_error [OF assms(1) more_or_long] assms(2) by (auto simp: fails_def)

section \<open>Skipping\<close>

lemma skip_varint_reads:
  "stream_ok cb fits k s \<Longrightarrow> split_varint (avail content s) = Some (g, rest) \<Longrightarrow>
   reads cb fits content k s () rest (pb_skip_varint s)"
proof (induction s arbitrary: g rule: pb_skip_varint.induct)
  case (1 s)
  from "1.prems"(2) obtain b bs where av: "avail content s = b # bs"
    by (cases "avail content s") auto
  then obtain s1 where s1: "read_local 1 s = Some (Rtrue [b], s1)" "stream_ok cb fits k s1"
    "avail content s1 = bs" "i_errmsg s1 = i_errmsg s"
    using read_local_content [OF "1.prems"(1), of 1] by auto
  show ?case
  proof (cases "b AND 0x80 = 0")
    case True
    then have "bs = rest" using av "1.prems"(2) by simp
    with True show ?thesis using s1 by (simp add: pb_skip_varint.simps [of s] reads_def)
  next
    case False
    then obtain g' where "split_varint (avail content s1) = Some (g', rest)"
      using av s1(3) "1.prems"(2) by auto
    from "1.IH" [OF s1(1) _ s1(2) this] False s1 show ?thesis
      by (simp add: pb_skip_varint.simps [of s] reads_def)
  qed
qed

lemma skip_varint_fails:
  "stream_ok cb fits k s \<Longrightarrow> all_more (avail content s) \<Longrightarrow> fails cb fits k (pb_skip_varint s)"
proof (induction s rule: pb_skip_varint.induct)
  case (1 s)
  show ?case
  proof (cases "avail content s")
    case Nil
    then show ?thesis using read_local_short [OF "1.prems"(1), of 1] "1.prems"(1)
      by (simp add: pb_skip_varint.simps [of s] fails_def)
  next
    case (Cons b bs)
    then obtain s1 where s1: "read_local 1 s = Some (Rtrue [b], s1)" "stream_ok cb fits k s1"
      "avail content s1 = bs" using read_local_content [OF "1.prems"(1), of 1] by auto
    then show ?thesis using "1.IH" [OF s1(1) _ s1(2)] "1.prems"(2) Cons
      by (simp add: pb_skip_varint.simps [of s])
  qed
qed

lemma skip_string_reads:
  assumes "stream_ok cb fits k s" and "string_span (avail content s) = Some rest"
  shows "reads cb fits content k s () rest (pb_skip_string s)"
proof -
  obtain g bs where g: "split_varint (avail content s) = Some (g, bs)" "length g \<le> 5"
    "unat (groups_word g :: uint32_t) \<le> length bs" "rest = drop (unat (groups_word g :: uint32_t)) bs"
    using assms(2) by (auto simp: string_span_def Let_def split: option.splits if_splits)
  have "reads cb fits content k s' () rest (read_null (ucast (groups_word g :: uint32_t)) s')"
    if "stream_ok cb fits k s'" "avail content s' = bs" for s'
    using read_null_content [OF that(1), of "ucast (groups_word g :: uint32_t)"] that(2) g(3,4)
    by (simp add: reads_def)
  then show ?thesis unfolding pb_skip_string_def
    by (rule reads_chk [OF varint32_reads [OF assms(1) g(1,2)]])
qed

lemma skip_string_fails:
  assumes "stream_ok cb fits k s" and "string_span (avail content s) = None"
  shows "fails cb fits k (pb_skip_string s)"
proof (cases "\<exists>g rest. split_varint (avail content s) = Some (g, rest) \<and> length g \<le> 5")
  case False
  then have "\<And>g rest. split_varint (avail content s) = Some (g, rest) \<Longrightarrow> 5 < length g"
    by (auto simp: not_le)
  then show ?thesis unfolding pb_skip_string_def
    by (rule fails_chk [OF varint32_fails [OF assms(1)]])
next
  case True
  then obtain g bs where g: "split_varint (avail content s) = Some (g, bs)" "length g \<le> 5" by blast
  then have "length bs < unat (groups_word g :: uint32_t)"
    using assms(2) by (auto simp: string_span_def Let_def split: if_splits)
  then have "fails cb fits k (read_null (ucast (groups_word g :: uint32_t)) s')"
    if "stream_ok cb fits k s'" "avail content s' = bs" for s'
    unfolding fails_def by (intro read_null_short) (use that in simp_all)
  then show ?thesis unfolding pb_skip_string_def
    by (rule fails_chk_then [OF varint32_reads [OF assms(1) g]])
qed

lemma read_null_reads:
  "stream_ok cb fits k s \<Longrightarrow> unat n \<le> length (avail content s) \<Longrightarrow>
   reads cb fits content k s () (drop (unat n) (avail content s)) (read_null n s)"
  unfolding reads_def by (rule read_null_content)

lemma read_null_fails:
  "stream_ok cb fits k s \<Longrightarrow> length (avail content s) < unat n \<Longrightarrow> fails cb fits k (read_null n s)"
  unfolding fails_def by (rule read_null_short)

lemma skip_fails:
  "stream_ok cb fits k s \<Longrightarrow> fails cb fits k (PB_RETURN_ERROR msg s)"
  by (simp add: fails_def PB_RETURN_ERROR_def)

lemma skip_field_reads:
  assumes "stream_ok cb fits k s" and "value_span w (avail content s) = Some rest"
  shows "reads cb fits content k s () rest (pb_skip_field w s)"
  using assms read_null_reads [OF assms(1), of 8] read_null_reads [OF assms(1), of 4]
  by (auto simp: value_span_def pb_skip_field_def skip_varint_reads skip_string_reads
      split: if_splits)

lemma skip_field_fails:
  assumes "stream_ok cb fits k s" and "value_span w (avail content s) = None"
  shows "fails cb fits k (pb_skip_field w s)"
  using assms read_null_fails [OF assms(1), of 8] read_null_fails [OF assms(1), of 4]
  by (auto simp: value_span_def pb_skip_field_def skip_varint_fails split_varint_None
      skip_string_fails skip_fails not_le split: if_splits)

section \<open>Tags and substreams\<close>

lemma decode_tag_content:
  assumes "stream_ok cb fits k s" and "split_varint (avail content s) = Some (g, rest)"
    and "length g \<le> 5" and "groups_word g = (temp :: uint32_t)" and "temp \<noteq> 0"
  shows "\<exists>s'. pb_decode_tag s = Some (True, temp AND 7, drop_bit 3 temp, False, s') \<and>
    stream_ok cb fits k s' \<and> avail content s' = rest \<and> i_errmsg s' = i_errmsg s"
  using varint32_reads [OF assms(1-3)] assms(4,5) by (auto simp: reads_def pb_decode_tag_def)

text \<open>A substream serves the bytes its length announces, the parent those that follow.\<close>

lemma make_substream_content:
  assumes "stream_ok cb fits k s" and "split_varint (avail content s) = Some (g, bs)"
    and "length g \<le> 5" and "unat (groups_word g :: uint32_t) = n" and "n \<le> length bs"
  shows "\<exists>sub s'. pb_make_string_substream s = Some (Rtrue sub, s') \<and>
    stream_ok cb fits (unat (bytes_left s') + k) sub \<and> i_callback s' = cb \<and>
    avail content sub = take n bs \<and> i_errmsg sub = i_errmsg s \<and> i_errmsg s' = i_errmsg s \<and>
    take (unat (bytes_left s')) (drop n (content (i_state sub))) = drop n bs"
proof -
  from readsE [OF varint32_reads [OF assms(1-3)]] obtain s1 where s1:
    "pb_decode_varint32 s = Some (Rtrue (groups_word g), s1)" "stream_ok cb fits k s1"
    "avail content s1 = bs" "i_errmsg s1 = i_errmsg s" .
  let ?n = "ucast (groups_word g :: uint32_t) :: size_t"
  have len: "unat (bytes_left s1) = length bs" using length_avail [OF s1(2)] s1(3) by simp
  then have ge: "\<not> bytes_left s1 < ?n" using assms(4,5) by (simp add: word_less_nat_alt)
  then have left: "unat (bytes_left s1 - ?n) = length bs - n"
    using len assms(4) by (simp add: unat_sub word_le_nat_alt not_less)
  have "fits (i_state s1) (unat (bytes_left s1) + k)" "i_callback s1 = cb"
    using s1(2) by (simp_all add: stream_ok_def)
  then have "stream_ok cb fits (unat (bytes_left s1 - ?n) + k) (s1\<lparr>bytes_left := ?n\<rparr>)"
    using left len assms(4,5) by (simp add: stream_ok_def)
  moreover have "take (length bs - n) (drop n (content (i_state s1))) = drop n bs"
    using s1(3) len assms(5) by (auto simp: avail_def take_drop)
  moreover have "take n (content (i_state s1)) = take n bs"
  proof -
    have "take (length bs) (content (i_state s1)) = bs" using s1(3) len by (simp add: avail_def)
    then have "take n bs = take n (take (length bs) (content (i_state s1)))" by (simp only:)
    then show ?thesis using assms(5) by (simp only: take_take min_absorb1)
  qed
  moreover have "pb_make_string_substream s = Some (Rtrue (s1\<lparr>bytes_left := ?n\<rparr>),
      s1\<lparr>bytes_left := bytes_left s1 - ?n\<rparr>)"
    using s1(1) ge by (simp add: pb_make_string_substream_def)
  ultimately show ?thesis using s1(4) left assms(4) \<open>i_callback s1 = cb\<close>
    by (intro exI [of _ "s1\<lparr>bytes_left := ?n\<rparr>"]
        exI [of _ "s1\<lparr>bytes_left := bytes_left s1 - ?n\<rparr>"] conjI) (simp_all add: avail_def)
qed

end

end
