(* ===== verification/OutStream.thy ===== *)
theory OutStream
  imports Memory
begin

text \<open>
  The output streams of \<open>pb_encode.c\<close>: \<open>pb_ostream_t\<close>, \<open>buf_write\<close> and
  \<open>pb_write\<close>. A stream whose callback is null only counts (\<open>PB_OSTREAM_SIZING\<close>).

  The \<open>state\<close> of a buffer stream is the bytes stored before it and the room left in the
  buffer object; storing more is undefined behaviour. A user callback is a function on a state of
  its own, which is all that \<open>pb_encode.h\<close> allows it to change. The bytes handed to
  \<open>pb_write\<close> are an \<open>option\<close>: \<open>None\<close> where reading them is undefined, which
  does not matter to a stream that only counts.

  The locale \<open>out_content\<close> states what the encoder relies on and is interpreted on
  \<open>buf_write\<close>. \<open>emits f e\<close> is the specification of an operation that writes the
  bytes \<open>e\<close>: it counts them on a sizing stream, appends them where they fit and else fails
  having written no more than a prefix. (The check of \<open>pb_write\<close> adds two \<open>size_t\<close>; the
  failure is promised where the sum is below \<open>2 ^ 64\<close>.)
\<close>

datatype 'o out_state = Null_state | Out_buf "pb_byte_t list" nat | Out_user 'o

datatype 'o out_callback = Buf_write | User_write "'o \<Rightarrow> pb_byte_t list \<Rightarrow> bool \<times> 'o"

record 'o pb_ostream_t =
  o_callback :: "'o out_callback option"
  o_state :: "'o out_state"
  max_size :: size_t
  bytes_written :: size_t
  o_errmsg :: errmsg_t

definition OUT_SET_ERROR :: "string \<Rightarrow> 'o pb_ostream_t \<Rightarrow> 'o pb_ostream_t" where
  "OUT_SET_ERROR msg s =
     s\<lparr>o_errmsg := (case o_errmsg s of None \<Rightarrow> Some msg | Some e \<Rightarrow> Some e)\<rparr>"

definition OUT_RETURN_ERROR :: "string \<Rightarrow> 'o pb_ostream_t \<Rightarrow> ('a, 'o pb_ostream_t) cres" where
  "OUT_RETURN_ERROR msg s = Some (Rfalse, OUT_SET_ERROR msg s)"

definition buf_write :: "'o out_state \<Rightarrow> pb_byte_t list \<Rightarrow> (bool \<times> 'o out_state) option" where
  "buf_write st buf =
     (case st of
        Out_buf done room \<Rightarrow>
          if length buf \<le> room then Some (True, Out_buf (done @ buf) (room - length buf)) else None
      | _ \<Rightarrow> None)"

text \<open>\<open>stream->callback(stream, buf, count)\<close>\<close>

definition run_out ::
  "'o out_callback \<Rightarrow> 'o out_state \<Rightarrow> pb_byte_t list \<Rightarrow> (bool \<times> 'o out_state) option" where
  "run_out cb st buf =
     (case cb of
        Buf_write \<Rightarrow> buf_write st buf
      | User_write f \<Rightarrow>
          (case st of Out_user u \<Rightarrow> (case f u buf of (ok, u') \<Rightarrow> Some (ok, Out_user u')) | _ \<Rightarrow> None))"

definition pb_ostream_from_buffer :: "nat \<Rightarrow> size_t \<Rightarrow> 'o pb_ostream_t" where
  "pb_ostream_from_buffer room bufsize =
     \<lparr>o_callback = Some Buf_write, o_state = Out_buf [] room, max_size = bufsize,
      bytes_written = 0, o_errmsg = None\<rparr>"

definition PB_OSTREAM_SIZING :: "'o pb_ostream_t" where
  "PB_OSTREAM_SIZING =
     \<lparr>o_callback = None, o_state = Null_state, max_size = 0, bytes_written = 0, o_errmsg = None\<rparr>"

definition pb_write ::
  "pb_byte_t list option \<Rightarrow> size_t \<Rightarrow> 'o pb_ostream_t \<Rightarrow> (unit, 'o pb_ostream_t) cres" where
  "pb_write buf count s =
     (case o_callback s of
        None \<Rightarrow> Some (Rtrue (), s\<lparr>bytes_written := bytes_written s + count\<rparr>)
      | Some cb \<Rightarrow>
          if bytes_written s + count > max_size s then OUT_RETURN_ERROR ''stream full'' s
          else case buf of None \<Rightarrow> None
               | Some bs \<Rightarrow>
                   (case run_out cb (o_state s) bs of None \<Rightarrow> None
                    | Some (ok, st) \<Rightarrow>
                        let s' = s\<lparr>o_state := st\<rparr>
                        in if \<not> ok then OUT_RETURN_ERROR ''io error'' s'
                           else Some (Rtrue (), s'\<lparr>bytes_written := bytes_written s' + count\<rparr>)))"

lemma OUT_SET_ERROR_simps [simp]:
  "o_callback (OUT_SET_ERROR msg s) = o_callback s"
  "o_state (OUT_SET_ERROR msg s) = o_state s"
  "max_size (OUT_SET_ERROR msg s) = max_size s"
  "bytes_written (OUT_SET_ERROR msg s) = bytes_written s"
  "o_errmsg (OUT_SET_ERROR msg s) \<noteq> None"
  by (simp_all add: OUT_SET_ERROR_def split: option.splits)

lemma wp_OUT_RETURN_ERROR [wp_rules]:
  "wp (OUT_RETURN_ERROR msg s) Q = Q Rfalse (OUT_SET_ERROR msg s)"
  by (simp add: OUT_RETURN_ERROR_def)

section \<open>What the encoder relies on\<close>

text \<open>
  \<open>room st\<close> is the number of bytes that can be put to a state of the callback, and
  \<open>put st bs\<close> the state after \<open>bs\<close> was put to it.
\<close>

locale out_content =
  fixes cb :: "'o out_callback"
    and room :: "'o out_state \<Rightarrow> nat option"
    and put :: "'o out_state \<Rightarrow> pb_byte_t list \<Rightarrow> 'o out_state"
  assumes run_put: "room st = Some n \<Longrightarrow> length bs \<le> n \<Longrightarrow> run_out cb st bs = Some (True, put st bs)"
    and room_put: "room st = Some n \<Longrightarrow> length bs \<le> n \<Longrightarrow> room (put st bs) = Some (n - length bs)"
    and put_put: "put (put st bs) cs = put st (bs @ cs)"
    and put_Nil: "put st [] = st"

text \<open>A stream through \<open>cb\<close> whose state has room for all that its limit allows.\<close>

definition out_ok ::
  "'o out_callback \<Rightarrow> ('o out_state \<Rightarrow> nat option) \<Rightarrow> 'o pb_ostream_t \<Rightarrow> bool" where
  "out_ok cb room s \<longleftrightarrow> o_callback s = Some cb \<and> bytes_written s \<le> max_size s \<and>
     (\<exists>n. room (o_state s) = Some n \<and> unat (max_size s) - unat (bytes_written s) \<le> n)"

definition space :: "'o pb_ostream_t \<Rightarrow> nat" where
  "space s = unat (max_size s) - unat (bytes_written s)"

definition count_out :: "nat \<Rightarrow> 'o pb_ostream_t \<Rightarrow> 'o pb_ostream_t" where
  "count_out n s = s\<lparr>bytes_written := bytes_written s + of_nat n\<rparr>"

definition put_out ::
  "('o out_state \<Rightarrow> pb_byte_t list \<Rightarrow> 'o out_state) \<Rightarrow> pb_byte_t list \<Rightarrow> 'o pb_ostream_t \<Rightarrow> 'o pb_ostream_t" where
  "put_out put bs s = (count_out (length bs) s)\<lparr>o_state := put (o_state s) bs\<rparr>"

definition emits ::
  "'o out_callback \<Rightarrow> ('o out_state \<Rightarrow> nat option) \<Rightarrow> ('o out_state \<Rightarrow> pb_byte_t list \<Rightarrow> 'o out_state) \<Rightarrow>
   ('o pb_ostream_t \<Rightarrow> (unit, 'o pb_ostream_t) cres) \<Rightarrow> pb_byte_t list \<Rightarrow> bool" where
  "emits cb room put f e \<longleftrightarrow>
     (\<forall>s. o_callback s = None \<longrightarrow> f s = Some (Rtrue (), count_out (length e) s)) \<and>
     (\<forall>s. out_ok cb room s \<longrightarrow> length e \<le> space s \<longrightarrow> f s = Some (Rtrue (), put_out put e s)) \<and>
     (\<forall>s. out_ok cb room s \<longrightarrow> space s < length e \<longrightarrow>
        unat (bytes_written s) + length e < 2 ^ 64 \<longrightarrow>
        (\<exists>n msg. n \<le> space s \<and> f s = Some (Rfalse, OUT_SET_ERROR msg (put_out put (take n e) s))))"

lemma count_out_simps [simp]:
  "o_callback (count_out n s) = o_callback s" "o_state (count_out n s) = o_state s"
  "max_size (count_out n s) = max_size s" "o_errmsg (count_out n s) = o_errmsg s"
  "bytes_written (count_out n s) = bytes_written s + of_nat n"
  by (simp_all add: count_out_def)

lemma count_out_add: "count_out m (count_out n s) = count_out (n + m) s"
  by (simp add: count_out_def add.assoc)

lemma put_out_simps [simp]:
  "o_callback (put_out put bs s) = o_callback s" "max_size (put_out put bs s) = max_size s"
  "o_state (put_out put bs s) = put (o_state s) bs" "o_errmsg (put_out put bs s) = o_errmsg s"
  "bytes_written (put_out put bs s) = bytes_written s + of_nat (length bs)"
  by (simp_all add: put_out_def)

lemma unat_written:
  "bytes_written s \<le> max_size s \<Longrightarrow> n \<le> space s \<Longrightarrow>
   unat (bytes_written s + of_nat n) = unat (bytes_written s) + n"
proof -
  assume le: "bytes_written s \<le> max_size s" and n: "n \<le> space s"
  have "unat (max_size s) < 2 ^ 64" using unsigned_less [of "max_size s"] by simp
  with le n have "unat (bytes_written s) + n < 2 ^ 64" by (auto simp: space_def word_le_nat_alt)
  then show ?thesis by (simp add: unat_word_ariths unat_of_nat take_bit_eq_mod)
qed

context out_content begin

lemma put_out_ok:
  assumes "out_ok cb room s" and "length bs \<le> space s"
  shows "out_ok cb room (put_out put bs s)" "space (put_out put bs s) = space s - length bs"
proof -
  obtain n where n: "room (o_state s) = Some n" "space s \<le> n"
    using assms by (auto simp: out_ok_def space_def)
  with assms have r: "length bs \<le> n" by simp
  have u: "unat (bytes_written s + of_nat (length bs)) = unat (bytes_written s) + length bs"
    by (rule unat_written) (use assms in \<open>simp_all add: out_ok_def\<close>)
  show "out_ok cb room (put_out put bs s)"
    using assms u room_put [OF n(1) r] n(2) by (auto simp: out_ok_def space_def word_le_nat_alt)
  show "space (put_out put bs s) = space s - length bs"
    using u by (simp add: space_def)
qed

lemma put_out_put_out:
  "put_out put cs (put_out put bs s) = put_out put (bs @ cs) s"
  by (simp add: put_out_def count_out_def put_put add.assoc)

lemma put_out_Nil: "put_out put [] s = s"
  by (simp add: put_out_def count_out_def put_Nil)

lemma emits_pb_write:
  assumes "n = of_nat (length bs)"
  shows "emits cb room put (pb_write (Some bs) n) bs"
  unfolding emits_def
proof (intro conjI allI impI)
  fix s :: "'o pb_ostream_t"
  show "o_callback s = None \<Longrightarrow> pb_write (Some bs) n s = Some (Rtrue (), count_out (length bs) s)"
    by (simp add: pb_write_def count_out_def assms)
next
  fix s :: "'o pb_ostream_t"
  assume ok: "out_ok cb room s" and le: "length bs \<le> space s"
  have u: "unat (bytes_written s + n) = unat (bytes_written s) + length bs"
    unfolding assms by (rule unat_written) (use ok le in \<open>simp_all add: out_ok_def\<close>)
  obtain r where "room (o_state s) = Some r" "length bs \<le> r"
    using ok le by (auto simp: out_ok_def space_def)
  moreover have "\<not> max_size s < bytes_written s + n"
    using u ok le by (auto simp: out_ok_def space_def not_less word_le_nat_alt)
  ultimately show "pb_write (Some bs) n s = Some (Rtrue (), put_out put bs s)"
    using ok by (simp add: pb_write_def out_ok_def run_put put_out_def count_out_def assms)
next
  fix s :: "'o pb_ostream_t"
  assume ok: "out_ok cb room s" and gt: "space s < length bs"
    and big: "unat (bytes_written s) + length bs < 2 ^ 64"
  have "unat (bytes_written s + n) = unat (bytes_written s) + length bs"
    using big by (simp add: assms unat_word_ariths unat_of_nat take_bit_eq_mod)
  then have "max_size s < bytes_written s + n"
    using ok gt by (auto simp: out_ok_def space_def word_le_nat_alt word_less_nat_alt)
  then have "pb_write (Some bs) n s = Some (Rfalse, OUT_SET_ERROR ''stream full'' (put_out put (take 0 bs) s))"
    using ok by (simp add: pb_write_def out_ok_def OUT_RETURN_ERROR_def put_out_Nil)
  then show "\<exists>m msg. m \<le> space s \<and>
    pb_write (Some bs) n s = Some (Rfalse, OUT_SET_ERROR msg (put_out put (take m bs) s))"
    by blast
qed

text \<open>Two operations one after the other.\<close>

lemma emits_chk:
  assumes f: "emits cb room put f e" and g: "emits cb room put g e'"
  shows "emits cb room put (\<lambda>s. chk (f s) (\<lambda>_. g)) (e @ e')"
  unfolding emits_def
proof (intro conjI allI impI)
  fix s :: "'o pb_ostream_t"
  assume "o_callback s = None"
  then show "chk (f s) (\<lambda>_. g) = Some (Rtrue (), count_out (length (e @ e')) s)"
    using f g by (simp add: emits_def count_out_add)
next
  fix s :: "'o pb_ostream_t"
  assume ok: "out_ok cb room s" and le: "length (e @ e') \<le> space s"
  then have s1: "f s = Some (Rtrue (), put_out put e s)" "out_ok cb room (put_out put e s)"
    "length e' \<le> space (put_out put e s)"
    using f put_out_ok [OF ok, of e] by (simp_all add: emits_def)
  then have "g (put_out put e s) = Some (Rtrue (), put_out put e' (put_out put e s))"
    using g by (simp add: emits_def)
  then show "chk (f s) (\<lambda>_. g) = Some (Rtrue (), put_out put (e @ e') s)"
    using s1(1) by (simp add: put_out_put_out)
next
  fix s :: "'o pb_ostream_t"
  assume ok: "out_ok cb room s" and gt: "space s < length (e @ e')"
    and big: "unat (bytes_written s) + length (e @ e') < 2 ^ 64"
  show "\<exists>n msg. n \<le> space s \<and>
    chk (f s) (\<lambda>_. g) = Some (Rfalse, OUT_SET_ERROR msg (put_out put (take n (e @ e')) s))"
  proof (cases "length e \<le> space s")
    case False
    moreover have "unat (bytes_written s) + length e < 2 ^ 64" using big by simp
    ultimately obtain n msg where "n \<le> space s"
      "f s = Some (Rfalse, OUT_SET_ERROR msg (put_out put (take n e) s))"
      using f ok unfolding emits_def by (meson not_le)
    then show ?thesis using False by (intro exI [of _ n] exI [of _ msg]) simp
  next
    case True
    let ?s1 = "put_out put e s"
    have s1: "f s = Some (Rtrue (), ?s1)" using f ok True by (simp add: emits_def)
    note ok1 = put_out_ok [OF ok True]
    have "unat (bytes_written ?s1) = unat (bytes_written s) + length e"
      using unat_written [of s] ok True by (simp add: out_ok_def)
    then have "unat (bytes_written ?s1) + length e' < 2 ^ 64" "space ?s1 < length e'"
      using big gt ok1(2) True by simp_all
    then obtain n msg where n: "n \<le> space ?s1"
      "g ?s1 = Some (Rfalse, OUT_SET_ERROR msg (put_out put (take n e') ?s1))"
      using g ok1(1) unfolding emits_def by meson
    then have "put_out put (take n e') ?s1 = put_out put (take (length e + n) (e @ e')) s"
      by (simp add: put_out_put_out)
    then show ?thesis using n s1 ok1(2) True
      by (intro exI [of _ "length e + n"] exI [of _ msg]) simp
  qed
qed

lemma emits_cong: "emits cb room put f e \<Longrightarrow> (\<And>s. f s = g s) \<Longrightarrow> emits cb room put g e"
  by (simp add: emits_def)

lemma emits_skip: "emits cb room put (\<lambda>s. Some (Rtrue (), s)) []"
  by (simp add: emits_def put_out_Nil count_out_def)

end

section \<open>Buffer streams\<close>

definition buf_room :: "'o out_state \<Rightarrow> nat option" where
  "buf_room st = (case st of Out_buf done n \<Rightarrow> Some n | _ \<Rightarrow> None)"

definition buf_put :: "'o out_state \<Rightarrow> pb_byte_t list \<Rightarrow> 'o out_state" where
  "buf_put st bs = (case st of Out_buf done n \<Rightarrow> Out_buf (done @ bs) (n - length bs) | _ \<Rightarrow> st)"

interpretation buf_out: out_content Buf_write buf_room buf_put
  by unfold_locales
    (auto simp: run_out_def buf_write_def buf_room_def buf_put_def split: out_state.splits)

end
