(* ===== verification/EncodePrim.thy ===== *)
theory EncodePrim
  imports OutStream Varint
begin

text \<open>
  The helper functions of \<open>pb_encode.c\<close>: varints, zigzag, fixed-width integers, tags and
  strings. Each is shown to emit the bytes of a list function (\<open>varint_bytes\<close>,
  \<open>le_bytes\<close>), on counting streams and on every output callback that keeps the contract; the
  grammar of \<open>Varint\<close> reads these bytes back.
\<close>

section \<open>Operations\<close>

text \<open>
  The loop of \<open>pb_encode_varint\<close> fills a local array of ten bytes; to store an eleventh
  would be undefined behaviour.
\<close>

function encode_varint_loop :: "pb_byte_t list \<Rightarrow> uint64_t \<Rightarrow> pb_byte_t list option" where
  "encode_varint_loop buffer value =
     (if value = 0 then Some buffer
      else if length buffer < 10
      then encode_varint_loop (buffer @ [ucast ((value AND 0x7F) OR 0x80)]) (drop_bit 7 value)
      else None)"
  by pat_completeness auto
termination
  by (relation "measure (\<lambda>(buffer, value). 10 - length buffer)") auto

declare encode_varint_loop.simps [simp del]

definition pb_encode_varint :: "uint64_t \<Rightarrow> 'o pb_ostream_t \<Rightarrow> (unit, 'o pb_ostream_t) cres" where
  "pb_encode_varint value s =
     (if value \<le> 0x7F then pb_write (Some [ucast value]) 1 s
      else case encode_varint_loop [] value of None \<Rightarrow> None
           | Some buffer \<Rightarrow>
               let i = length buffer;
                   buffer = buffer[i - 1 := buffer ! (i - 1) AND 0x7F]
               in pb_write (Some buffer) (of_nat i) s)"

text \<open>The argument is the word of the \<open>int64_t\<close>; \<open>value < 0\<close> is its sign.\<close>

definition zigzag :: "64 word \<Rightarrow> uint64_t" where
  "zigzag value = (if sint value < 0 then NOT (push_bit 1 value) else push_bit 1 value)"

definition pb_encode_svarint :: "64 word \<Rightarrow> 'o pb_ostream_t \<Rightarrow> (unit, 'o pb_ostream_t) cres" where
  "pb_encode_svarint value s = pb_encode_varint (zigzag value) s"

definition pb_encode_fixed32 ::
  "mem \<Rightarrow> addr \<Rightarrow> 'o pb_ostream_t \<Rightarrow> (unit, 'o pb_ostream_t) cres" where
  "pb_encode_fixed32 m value s =
     (case load_word m value 4 of None \<Rightarrow> None
      | Some (val :: uint32_t) \<Rightarrow>
          pb_write (Some [ucast (val AND 0xFF), ucast (drop_bit 8 val AND 0xFF),
            ucast (drop_bit 16 val AND 0xFF), ucast (drop_bit 24 val AND 0xFF)]) 4 s)"

definition pb_encode_fixed64 ::
  "mem \<Rightarrow> addr \<Rightarrow> 'o pb_ostream_t \<Rightarrow> (unit, 'o pb_ostream_t) cres" where
  "pb_encode_fixed64 m value s =
     (case load_word m value 8 of None \<Rightarrow> None
      | Some (val :: uint64_t) \<Rightarrow>
          pb_write (Some [ucast (val AND 0xFF), ucast (drop_bit 8 val AND 0xFF),
            ucast (drop_bit 16 val AND 0xFF), ucast (drop_bit 24 val AND 0xFF),
            ucast (drop_bit 32 val AND 0xFF), ucast (drop_bit 40 val AND 0xFF),
            ucast (drop_bit 48 val AND 0xFF), ucast (drop_bit 56 val AND 0xFF)]) 8 s)"

definition pb_encode_tag ::
  "pb_wire_type_t \<Rightarrow> uint32_t \<Rightarrow> 'o pb_ostream_t \<Rightarrow> (unit, 'o pb_ostream_t) cres" where
  "pb_encode_tag wiretype field_number s =
     pb_encode_varint (push_bit 3 (ucast field_number) OR ucast wiretype) s"

definition pb_encode_tag_for_field ::
  "pb_field \<Rightarrow> 'o pb_ostream_t \<Rightarrow> (unit, 'o pb_ostream_t) cres" where
  "pb_encode_tag_for_field field s =
     (if ltype field \<in> {PB_LTYPE_VARINT, PB_LTYPE_UVARINT, PB_LTYPE_SVARINT}
      then pb_encode_tag PB_WT_VARINT (tag field) s
      else if ltype field = PB_LTYPE_FIXED32 then pb_encode_tag PB_WT_32BIT (tag field) s
      else if ltype field = PB_LTYPE_FIXED64 then pb_encode_tag PB_WT_64BIT (tag field) s
      else if ltype field \<in> {PB_LTYPE_BYTES, PB_LTYPE_STRING, PB_LTYPE_SUBMESSAGE,
          PB_LTYPE_FIXED_LENGTH_BYTES}
      then pb_encode_tag PB_WT_STRING (tag field) s
      else OUT_RETURN_ERROR ''invalid field type'' s)"

definition pb_encode_string ::
  "pb_byte_t list option \<Rightarrow> size_t \<Rightarrow> 'o pb_ostream_t \<Rightarrow> (unit, 'o pb_ostream_t) cres" where
  "pb_encode_string buffer n s =
     chk (pb_encode_varint n s) (\<lambda>_. pb_write buffer n)"

section \<open>The bytes of a varint\<close>

text \<open>The array built by the loop, its last byte cleared, holds these bytes.\<close>

definition set_last :: "pb_byte_t list \<Rightarrow> pb_byte_t list" where
  "set_last bs = bs[length bs - 1 := bs ! (length bs - 1) AND 0x7F]"

lemma set_last_append: "bs \<noteq> [] \<Longrightarrow> set_last (cs @ bs) = cs @ set_last bs"
  by (cases bs rule: rev_cases) (simp_all add: set_last_def nth_append list_update_append)

lemma loop_varint_bytes:
  "v \<noteq> 0 \<Longrightarrow> length buf + length (varint_bytes v) \<le> 10 \<Longrightarrow>
   \<exists>bs. encode_varint_loop buf v = Some (buf @ bs) \<and> bs \<noteq> [] \<and> set_last bs = varint_bytes v"
proof (induction v arbitrary: buf rule: varint_bytes.induct)
  case (1 v)
  let ?b = "ucast ((v AND 0x7F) OR 0x80) :: pb_byte_t"
  have len: "length buf < 10" using "1.prems"(2) varint_bytes_nonempty [of v]
    by (cases "varint_bytes v") auto
  show ?case
  proof (cases "v \<le> 0x7F")
    case True
    then have low: "drop_bit 7 v = 0" "v AND 0x7F = v" using le_7F last_byte by auto
    have "?b AND 0x7F = ucast v" using more_byte [of v] low(2) by simp
    then show ?thesis using True low "1.prems" len
      by (simp add: encode_varint_loop.simps [of buf v] encode_varint_loop.simps [of _ 0]
          varint_bytes.simps [of v] set_last_def)
  next
    case False
    have nz: "drop_bit 7 v \<noteq> 0" using False le_7F by blast
    have "length (buf @ [?b]) + length (varint_bytes (drop_bit 7 v)) \<le> 10"
      using "1.prems"(2) False by (simp add: varint_bytes.simps [of v])
    from "1.IH" [OF False nz this] obtain bs where bs:
      "encode_varint_loop (buf @ [?b]) (drop_bit 7 v) = Some ((buf @ [?b]) @ bs)" "bs \<noteq> []"
      "set_last bs = varint_bytes (drop_bit 7 v)" by blast
    have "encode_varint_loop buf v = Some (buf @ ?b # bs)"
      using bs(1) len "1.prems"(1) by (simp add: encode_varint_loop.simps [of buf v])
    moreover have "set_last (?b # bs) = varint_bytes v"
      using set_last_append [OF bs(2), of "[?b]"] bs(3) False by (simp add: varint_bytes.simps [of v])
    ultimately show ?thesis by blast
  qed
qed

section \<open>What the operations emit\<close>

lemma low_byte: "ucast (v AND 0xFF) = (ucast (v :: 'a::len word) :: pb_byte_t)"
proof -
  have "v AND 0xFF = take_bit 8 v" by (simp add: take_bit_eq_mask mask_eq_exp_minus_1)
  moreover have "ucast (take_bit 8 v) = (ucast v :: pb_byte_t)"
    by (rule bit_word_eqI) (auto simp: bit_simps)
  ultimately show ?thesis by simp
qed

context out_content begin

lemma encode_varint_eq:
  "pb_encode_varint v = pb_write (Some (varint_bytes v)) (of_nat (length (varint_bytes v)))"
proof (cases "v \<le> 0x7F")
  case True
  then show ?thesis by (simp add: pb_encode_varint_def varint_bytes.simps [of v] fun_eq_iff)
next
  case False
  then have "v \<noteq> 0" by auto
  then obtain bs where "encode_varint_loop [] v = Some bs" "set_last bs = varint_bytes v"
    using loop_varint_bytes [of v "[]"] varint_bytes_le_10 [of v] by auto
  moreover from this have "length bs = length (varint_bytes v)"
    by (metis length_list_update set_last_def)
  ultimately show ?thesis using False by (simp add: pb_encode_varint_def fun_eq_iff set_last_def Let_def)
qed

lemma emits_varint: "emits cb room put (pb_encode_varint v) (varint_bytes v)"
  unfolding encode_varint_eq by (rule emits_pb_write) simp

lemma emits_svarint: "emits cb room put (pb_encode_svarint v) (varint_bytes (zigzag v))"
  by (rule emits_cong [OF emits_varint]) (simp add: pb_encode_svarint_def)

lemma emits_tag:
  "emits cb room put (pb_encode_tag w t) (varint_bytes (push_bit 3 (ucast t) OR ucast w))"
  by (rule emits_cong [OF emits_varint]) (simp add: pb_encode_tag_def)

lemma emits_string:
  assumes "n = of_nat (length bs)"
  shows "emits cb room put (pb_encode_string (Some bs) n) (varint_bytes n @ bs)"
  by (rule emits_cong [OF emits_chk [OF emits_varint emits_pb_write [OF assms]]])
    (simp add: pb_encode_string_def)

lemma emits_fixed32:
  assumes "load_word m a 4 = Some (v :: uint32_t)"
  shows "emits cb room put (pb_encode_fixed32 m a) (le_bytes 4 v)"
proof -
  have "emits cb room put (pb_write (Some (le_bytes 4 v)) 4) (le_bytes 4 v)"
    by (rule emits_pb_write) simp
  then show ?thesis
    by (rule emits_cong) (simp add: pb_encode_fixed32_def assms le_bytes_4 low_byte)
qed

lemma emits_fixed64:
  assumes "load_word m a 8 = Some (v :: uint64_t)"
  shows "emits cb room put (pb_encode_fixed64 m a) (le_bytes 8 v)"
proof -
  have "emits cb room put (pb_write (Some (le_bytes 8 v)) 8) (le_bytes 8 v)"
    by (rule emits_pb_write) simp
  then show ?thesis
    by (rule emits_cong) (simp add: pb_encode_fixed64_def assms le_bytes_8 low_byte)
qed

end

end
