(* ===== verification/CodecProps.thy ===== *)
theory CodecProps
  imports WireFormat EncodePrim
begin

text \<open>
  Properties of the primitive codecs on buffer streams: round trips, the exact result of the
  decoders on every input, the size of what is written. Properties that mention a stream
  \<open>s\<close> with \<open>stream_ok Buf_read buf_fits k s\<close> hold for every buffer stream, substreams
  included: \<open>k\<close> is what the parent streams have left.
\<close>

section \<open>Streams over a whole buffer\<close>

definition stream_of :: "pb_byte_t list \<Rightarrow> unit pb_istream_t" where
  "stream_of bs = pb_istream_from_buffer bs (of_nat (length bs))"

definition out_buffer :: "nat \<Rightarrow> unit pb_ostream_t" where
  "out_buffer n = pb_ostream_from_buffer n (of_nat n)"

definition out_bytes :: "'o pb_ostream_t \<Rightarrow> pb_byte_t list" where
  "out_bytes s = (case o_state s of Out_buf done room \<Rightarrow> done | _ \<Rightarrow> [])"

lemma unat_of_nat_size: "n < 2 ^ 64 \<Longrightarrow> unat (of_nat n :: size_t) = n"
  by (simp add: unat_of_nat take_bit_nat_eq_self)

lemma stream_of_ok:
  "length bs < 2 ^ 64 \<Longrightarrow> stream_ok Buf_read buf_fits 0 (stream_of bs)"
  by (simp add: stream_ok_def stream_of_def buf_fits_def unat_of_nat_size)

lemma left_stream_of: "length bs < 2 ^ 64 \<Longrightarrow> unat (bytes_left (stream_of bs)) = length bs"
  by (simp add: stream_of_def unat_of_nat_size)

lemma avail_stream_of: "length bs < 2 ^ 64 \<Longrightarrow> avail buf_content (stream_of bs) = bs"
  by (simp add: avail_def stream_of_def buf_content_def unat_of_nat_size)

lemma errmsg_stream_of [simp]: "i_errmsg (stream_of bs) = None"
  by (simp add: stream_of_def)

text \<open>What an operation that emits \<open>e\<close> does to an empty buffer of \<open>n\<close> bytes.\<close>

lemma fresh_out_ok:
  "n < 2 ^ 64 \<Longrightarrow> out_ok Buf_write buf_room (out_buffer n)"
  "n < 2 ^ 64 \<Longrightarrow> space (out_buffer n) = n"
  by (simp_all add: out_buffer_def out_ok_def pb_ostream_from_buffer_def buf_room_def space_def
      unat_of_nat_size)

lemma emits_fresh:
  assumes "emits Buf_write buf_room buf_put f e" and "length e \<le> n" and "n < 2 ^ 64"
  shows "\<exists>s. f (out_buffer n) = Some (Rtrue (), s) \<and> out_bytes s = e \<and>
    bytes_written s = of_nat (length e)"
proof -
  have "f (out_buffer n) = Some (Rtrue (), put_out buf_put e (out_buffer n))"
    using assms by (simp add: emits_def fresh_out_ok)
  then show ?thesis
    by (simp add: out_bytes_def out_buffer_def pb_ostream_from_buffer_def buf_put_def)
qed

lemma emits_sizing:
  "emits cb room put f e \<Longrightarrow>
   f PB_OSTREAM_SIZING = Some (Rtrue (), PB_OSTREAM_SIZING\<lparr>bytes_written := of_nat (length e)\<rparr>)"
  by (simp add: emits_def PB_OSTREAM_SIZING_def count_out_def)

lemma varint_bytes_reads:
  "length (varint_bytes v @ rest) < 2 ^ 64 \<Longrightarrow>
   split_varint (avail buf_content (stream_of (varint_bytes v @ rest))) = Some (varint_bytes v, rest)"
  by (simp only: avail_stream_of split_varint_bytes)

lemma short_list: "length e \<le> n \<Longrightarrow> n \<le> 16 \<Longrightarrow> length rest < 2 ^ 63 \<Longrightarrow> length (e @ rest) < 2 ^ 64"
  by simp

section \<open>Varints\<close>

text \<open>
  C18: Varint round trip. Every 64-bit value is written by \<open>pb_encode_varint\<close> in at most ten
  bytes, and \<open>pb_decode_varint\<close> reads it back from them, whatever follows, which it leaves
  unread.
\<close>

theorem varint_roundtrip:
  assumes "length rest < 2 ^ 63"
  shows "\<exists>s. pb_encode_varint v (out_buffer 10) = Some (Rtrue (), s) \<and>
    length (out_bytes s) \<le> 10 \<and>
    (\<exists>s'. pb_decode_varint (stream_of (out_bytes s @ rest)) = Some (Rtrue v, s') \<and>
       avail buf_content s' = rest)"
proof -
  have len: "length (varint_bytes v @ rest) < 2 ^ 64"
    using short_list [OF varint_bytes_le_10 _ assms] by simp
  obtain s where "pb_encode_varint v (out_buffer 10) = Some (Rtrue (), s)"
    "out_bytes s = varint_bytes v"
    using emits_fresh [OF buf_out.emits_varint varint_bytes_le_10] by auto
  then show ?thesis
    using buf_in.varint_reads [OF stream_of_ok [OF len] varint_bytes_reads [OF len]]
    by (auto simp: varint_bytes_le_10 groups_varint_bytes reads_def)
qed

theorem varint_roundtrip_witness:
  "\<exists>s. pb_encode_varint 300 (out_buffer 10) = Some (Rtrue (), s) \<and>
    length (out_bytes s) \<le> 10 \<and>
    (\<exists>s'. pb_decode_varint (stream_of (out_bytes s @ [7])) = Some (Rtrue 300, s') \<and>
       avail buf_content s' = [7])"
  by (rule varint_roundtrip) simp

text \<open>
  C19: \<open>pb_decode_varint\<close> on every input. On any buffer stream without an error it returns
  what the grammar of varints says: the word of the groups of a varint of at most ten bytes, else
  an overflow when ten bytes were read and an end of stream when there were fewer. It is never
  undefined and reads no byte beyond those.
\<close>

theorem decode_varint_spec:
  assumes "stream_ok Buf_read buf_fits k s" and "i_errmsg s = None"
    and "varint_result 10 (avail buf_content s) = (r, rest, err)"
  shows "\<exists>s'. pb_decode_varint s = Some (r, s') \<and> stream_ok Buf_read buf_fits k s' \<and>
    avail buf_content s' = rest \<and> i_errmsg s' = err"
  by (rule buf_in.varint_meets_result [OF assms])

theorem decode_varint_spec_witness:
  "\<exists>s'. pb_decode_varint (stream_of [0xAC, 0x02, 9]) = Some (Rtrue 300, s') \<and>
    stream_ok Buf_read buf_fits 0 s' \<and> avail buf_content s' = [9] \<and> i_errmsg s' = None"
  by (rule decode_varint_spec)
    (simp_all add: stream_of_ok avail_stream_of varint_result_def)

text \<open>
  C20: \<open>pb_decode_varint32\<close> on every input: the same with at most five bytes, the groups taken
  modulo \<open>2 ^ 32\<close>.
\<close>

theorem decode_varint32_spec:
  assumes "stream_ok Buf_read buf_fits k s" and "i_errmsg s = None"
    and "varint_result 5 (avail buf_content s) = (r, rest, err)"
  shows "\<exists>s'. pb_decode_varint32 s = Some (r, s') \<and> stream_ok Buf_read buf_fits k s' \<and>
    avail buf_content s' = rest \<and> i_errmsg s' = err"
  by (rule buf_in.varint32_meets_result [OF assms])

theorem decode_varint32_spec_witness:
  "\<exists>s'. pb_decode_varint32 (stream_of [0x80, 0x80, 0x80, 0x80, 0x80, 1]) = Some (Rfalse, s') \<and>
    stream_ok Buf_read buf_fits 0 s' \<and> avail buf_content s' = [1] \<and>
    i_errmsg s' = Some ''varint overflow''"
  by (rule decode_varint32_spec)
    (simp_all add: stream_of_ok avail_stream_of varint_result_def)

text \<open>
  C21: The 32-bit decoder agrees with the 64-bit one: where it succeeds, \<open>pb_decode_varint\<close>
  succeeds with the same bytes left, and the 32-bit value is the low half of the 64-bit one.
\<close>

theorem varint32_agrees:
  assumes "stream_ok Buf_read buf_fits k s" and "pb_decode_varint32 s = Some (Rtrue v, s')"
  shows "\<exists>w s''. pb_decode_varint s = Some (Rtrue w, s'') \<and> v = ucast w \<and>
    avail buf_content s'' = avail buf_content s'"
proof -
  obtain g rest where g: "split_varint (avail buf_content s) = Some (g, rest)" "length g \<le> 5"
    using buf_in.varint32_fails [OF assms(1)] assms(2) by (force simp: fails_def)
  have "length g \<le> 10" using g(2) by simp
  from buf_in.varint_reads [OF assms(1) g(1) this] buf_in.varint32_reads [OF assms(1) g] assms(2)
  show ?thesis
    by (auto simp: reads_def ucast_groups_word [where 'a = 32 and 'b = 64])
qed

theorem varint32_agrees_witness:
  "\<exists>w s' s''. pb_decode_varint32 (stream_of [0xAC, 0x02, 9]) = Some (Rtrue 300, s') \<and>
    pb_decode_varint (stream_of [0xAC, 0x02, 9]) = Some (Rtrue w, s'') \<and> 300 = (ucast w :: 32 word) \<and>
    avail buf_content s'' = avail buf_content s'"
proof -
  have ok: "stream_ok Buf_read buf_fits 0 (stream_of [0xAC, 0x02, 9])" by (rule stream_of_ok) simp
  obtain s' where s': "pb_decode_varint32 (stream_of [0xAC, 0x02, 9]) = Some (Rtrue 300, s')"
    using buf_in.varint32_reads [OF ok] by (fastforce simp: avail_stream_of reads_def)
  show ?thesis using varint32_agrees [OF ok s'] s' by blast
qed

section \<open>Zigzag\<close>

lemma sint_neg: "sint (v :: 64 word) < 0 \<longleftrightarrow> bit v 63"
  using bit_last_iff [of v] by simp

lemma and_1: "(w :: 64 word) AND 1 \<noteq> 0 \<longleftrightarrow> bit w 0"
  by (simp add: and_one_eq bit_0 odd_iff_mod_2_eq_one)

lemma unzigzag:
  "(if zigzag v AND 1 \<noteq> 0 then NOT (drop_bit 1 (zigzag v)) else drop_bit 1 (zigzag v)) = v"
proof (rule bit_word_eqI)
  fix n assume "n < LENGTH(64)"
  then have n: "n = 63 \<or> Suc n < 64" by auto
  show "bit (if zigzag v AND 1 \<noteq> 0 then NOT (drop_bit 1 (zigzag v)) else drop_bit 1 (zigzag v)) n = bit v n"
    unfolding and_1
    using n by (auto simp: zigzag_def sint_neg bit_simps simp del: push_bit_Suc drop_bit_Suc)
qed

text \<open>
  The zigzag map of \<open>pb_encode_svarint\<close>, in integers: \<open>0, -1, 1, -2, 2, ...\<close> become
  \<open>0, 1, 2, 3, 4, ...\<close>, without overflow at either end of \<open>int64_t\<close>.
\<close>

theorem zigzag_spec: "uint (zigzag v) = (if 0 \<le> sint v then 2 * sint v else - 2 * sint v - 1)"
proof -
  have u: "uint v < 2 ^ 64" using uint_bounded [of v] by simp
  then have "take_bit 64 (uint v) = uint v" by (simp add: take_bit_int_eq_self)
  then have s: "sint v = (if sint v < 0 then uint v - 2 ^ 64 else uint v)"
    using u by (simp add: sint_neg sint_uint signed_take_bit_eq_take_bit_minus bit_uint_iff)
  have r: "- (2 ^ 63) \<le> sint v" "sint v < 2 ^ 63"
    using sint_greater_eq [of v] sint_less [of v] by simp_all
  have p: "uint (push_bit 1 v) = (2 * uint v) mod 2 ^ 64"
    by (simp add: push_bit_eq_mult uint_word_ariths mult.commute)
  have n: "uint (NOT w) = 2 ^ 64 - 1 - uint w" for w :: "64 word"
    using uint_bounded [of w] take_bit_int_eq_self [of "uint w" 64]
    by (simp add: unsigned_not_eq take_bit_not_eq_mask_diff mask_eq_exp_minus_1)
  show ?thesis
  proof (cases "sint v < 0")
    case False
    with s r p show ?thesis by (simp add: zigzag_def del: push_bit_Suc)
  next
    case True
    then have "2 * uint v = (2 * sint v + 2 ^ 64) + 2 ^ 64" using s by simp
    then have "(2 * uint v) mod 2 ^ 64 = (2 * sint v + 2 ^ 64) mod 2 ^ 64" by (simp only: mod_add_self2)
    also have "\<dots> = 2 * sint v + 2 ^ 64"
      by (rule mod_pos_pos_trivial) (use True r in simp_all)
    finally have "uint (NOT (push_bit 1 v)) = - 2 * sint v - 1" unfolding n p by simp
    then show ?thesis using True by (simp add: zigzag_def del: push_bit_Suc)
  qed
qed
text \<open>
  C22: Signed round trip: \<open>pb_decode_svarint\<close> reads back every \<open>int64_t\<close> that
  \<open>pb_encode_svarint\<close> wrote, and only its bytes.
\<close>

theorem svarint_roundtrip:
  assumes "length rest < 2 ^ 63"
  shows "\<exists>s. pb_encode_svarint v (out_buffer 10) = Some (Rtrue (), s) \<and>
    (\<exists>s'. pb_decode_svarint (stream_of (out_bytes s @ rest)) = Some (Rtrue v, s') \<and>
       avail buf_content s' = rest)"
proof -
  have len: "length (varint_bytes (zigzag v) @ rest) < 2 ^ 64"
    using short_list [OF varint_bytes_le_10 _ assms] by simp
  obtain s where "pb_encode_svarint v (out_buffer 10) = Some (Rtrue (), s)"
    "out_bytes s = varint_bytes (zigzag v)"
    using emits_fresh [OF buf_out.emits_svarint varint_bytes_le_10] by auto
  then show ?thesis
    using buf_in.varint_reads [OF stream_of_ok [OF len] varint_bytes_reads [OF len]] unzigzag [of v]
    by (auto simp: varint_bytes_le_10 groups_varint_bytes reads_def pb_decode_svarint_def)
qed

theorem svarint_roundtrip_witness:
  "\<exists>s. pb_encode_svarint (- 2) (out_buffer 10) = Some (Rtrue (), s) \<and>
    (\<exists>s'. pb_decode_svarint (stream_of (out_bytes s @ [1, 2])) = Some (Rtrue (- 2), s') \<and>
       avail buf_content s' = [1, 2])"
  by (rule svarint_roundtrip) simp

section \<open>Fixed-width integers\<close>

lemma decode_fixed32_reads:
  assumes "stream_ok Buf_read buf_fits k s" and "avail buf_content s = le_bytes 4 v @ rest"
    and "valid m a 4"
  shows "\<exists>s' m'. pb_decode_fixed32 a (s, m) = Some (Rtrue (), (s', m')) \<and>
    avail buf_content s' = rest \<and> load_word m' a 4 = Some (v :: uint32_t) \<and>
    only_changes (region a 4) m m'"
proof -
  obtain s' where s': "read_local 4 s = Some (Rtrue (le_bytes 4 v), s')" "avail buf_content s' = rest"
    using buf_in.read_local_content [OF assms(1), of 4] assms(2) by auto
  obtain m' where m': "store_word m a 4 v = Some m'" using store_word_valid [OF assms(3)] by blast
  have "le_word (le_bytes 4 v) = v" by (simp add: byte_simps)
  then have "(push_bit 0 (ucast (le_bytes 4 v ! 0)) OR push_bit 8 (ucast (le_bytes 4 v ! 1)) OR
      push_bit 16 (ucast (le_bytes 4 v ! 2)) OR push_bit 24 (ucast (le_bytes 4 v ! 3)) :: uint32_t) = v"
    unfolding le_bytes_4 le_word_4 by (simp add: nth_Cons')
  then show ?thesis using s' m' store_word_same [OF m'] store_word_only_changes [OF m']
    by (simp add: pb_decode_fixed32_def st_mem_def)
qed

lemma decode_fixed64_reads:
  assumes "stream_ok Buf_read buf_fits k s" and "avail buf_content s = le_bytes 8 v @ rest"
    and "valid m a 8"
  shows "\<exists>s' m'. pb_decode_fixed64 a (s, m) = Some (Rtrue (), (s', m')) \<and>
    avail buf_content s' = rest \<and> load_word m' a 8 = Some (v :: uint64_t) \<and>
    only_changes (region a 8) m m'"
proof -
  obtain s' where s': "read_local 8 s = Some (Rtrue (le_bytes 8 v), s')" "avail buf_content s' = rest"
    using buf_in.read_local_content [OF assms(1), of 8] assms(2) by auto
  obtain m' where m': "store_word m a 8 v = Some m'" using store_word_valid [OF assms(3)] by blast
  have "le_word (le_bytes 8 v) = v" by (simp add: byte_simps)
  then have "(push_bit 0 (ucast (le_bytes 8 v ! 0)) OR push_bit 8 (ucast (le_bytes 8 v ! 1)) OR
      push_bit 16 (ucast (le_bytes 8 v ! 2)) OR push_bit 24 (ucast (le_bytes 8 v ! 3)) OR
      push_bit 32 (ucast (le_bytes 8 v ! 4)) OR push_bit 40 (ucast (le_bytes 8 v ! 5)) OR
      push_bit 48 (ucast (le_bytes 8 v ! 6)) OR push_bit 56 (ucast (le_bytes 8 v ! 7)) :: uint64_t) = v"
    unfolding le_bytes_8 le_word_8 by (simp add: nth_Cons')
  then show ?thesis using s' m' store_word_same [OF m'] store_word_only_changes [OF m']
    by (simp add: pb_decode_fixed64_def st_mem_def)
qed

text \<open>
  C23: Fixed-width round trip: the four bytes that \<open>pb_encode_fixed32\<close> writes of the word at
  an address are read by \<open>pb_decode_fixed32\<close> into the same word at another address, and
  nothing else in memory changes.
\<close>

theorem fixed32_roundtrip:
  assumes "load_word m a 4 = Some (v :: uint32_t)" and "valid m' b 4" and "length rest < 2 ^ 63"
  shows "\<exists>s. pb_encode_fixed32 m a (out_buffer 4) = Some (Rtrue (), s) \<and> length (out_bytes s) = 4 \<and>
    (\<exists>s' m''. pb_decode_fixed32 b (stream_of (out_bytes s @ rest), m') = Some (Rtrue (), (s', m'')) \<and>
       avail buf_content s' = rest \<and> load_word m'' b 4 = Some v \<and> only_changes (region b 4) m' m'')"
proof -
  have len: "length (le_bytes 4 v @ rest) < 2 ^ 64" using assms(3) by simp
  obtain s where "pb_encode_fixed32 m a (out_buffer 4) = Some (Rtrue (), s)" "out_bytes s = le_bytes 4 v"
    using emits_fresh [OF buf_out.emits_fixed32 [OF assms(1)], of 4] by auto
  then show ?thesis
    using decode_fixed32_reads [OF stream_of_ok [OF len] avail_stream_of [OF len] assms(2)] by auto
qed

theorem fixed32_roundtrip_witness:
  "\<exists>s. pb_encode_fixed32 [0 \<mapsto> 1, 1 \<mapsto> 2, 2 \<mapsto> 3, 3 \<mapsto> 4] 0 (out_buffer 4) = Some (Rtrue (), s) \<and>
    length (out_bytes s) = 4 \<and>
    (\<exists>s' m''. pb_decode_fixed32 8 (stream_of (out_bytes s @ [5]),
         \<lambda>i. Some 0) = Some (Rtrue (), (s', m'')) \<and>
       avail buf_content s' = [5] \<and> load_word m'' 8 4 = Some (0x04030201 :: uint32_t) \<and>
       only_changes (region 8 4) (\<lambda>i. Some 0) m'')"
proof (rule fixed32_roundtrip)
  show "load_word [0 \<mapsto> 1, 1 \<mapsto> 2, 2 \<mapsto> 3, 3 \<mapsto> 4] 0 4 = Some (0x04030201 :: uint32_t)"
    by code_simp
qed (simp_all add: valid_def dom_def)

text \<open>The same for the eight bytes of \<open>pb_encode_fixed64\<close> and \<open>pb_decode_fixed64\<close>.\<close>

theorem fixed64_roundtrip:
  assumes "load_word m a 8 = Some (v :: uint64_t)" and "valid m' b 8" and "length rest < 2 ^ 63"
  shows "\<exists>s. pb_encode_fixed64 m a (out_buffer 8) = Some (Rtrue (), s) \<and> length (out_bytes s) = 8 \<and>
    (\<exists>s' m''. pb_decode_fixed64 b (stream_of (out_bytes s @ rest), m') = Some (Rtrue (), (s', m'')) \<and>
       avail buf_content s' = rest \<and> load_word m'' b 8 = Some v \<and> only_changes (region b 8) m' m'')"
proof -
  have len: "length (le_bytes 8 v @ rest) < 2 ^ 64" using assms(3) by simp
  obtain s where "pb_encode_fixed64 m a (out_buffer 8) = Some (Rtrue (), s)" "out_bytes s = le_bytes 8 v"
    using emits_fresh [OF buf_out.emits_fixed64 [OF assms(1)], of 8] by auto
  then show ?thesis
    using decode_fixed64_reads [OF stream_of_ok [OF len] avail_stream_of [OF len] assms(2)] by auto
qed

theorem fixed64_roundtrip_witness:
  "\<exists>s. pb_encode_fixed64 (\<lambda>i. if 0 \<le> i \<and> i < 8 then Some 0xFF else None) 0 (out_buffer 8) =
      Some (Rtrue (), s) \<and> length (out_bytes s) = 8 \<and>
    (\<exists>s' m''. pb_decode_fixed64 8 (stream_of (out_bytes s @ [5]), \<lambda>i. Some 0) =
         Some (Rtrue (), (s', m'')) \<and>
       avail buf_content s' = [5] \<and> load_word m'' 8 8 = Some (- 1 :: uint64_t) \<and>
       only_changes (region 8 8) (\<lambda>i. Some 0) m'')"
proof (rule fixed64_roundtrip)
  show "load_word (\<lambda>i. if 0 \<le> i \<and> i < 8 then Some 0xFF else None) 0 8 = Some (- 1 :: uint64_t)"
    by code_simp
qed (simp_all add: valid_def dom_def)

section \<open>Sizes\<close>

lemma varint_bytes_exact:
  "unat v < 2 ^ (7 * length (varint_bytes v))"
  "length (varint_bytes v) = 1 \<or> 2 ^ (7 * (length (varint_bytes v) - 1)) \<le> unat v"
proof (induction v rule: varint_bytes.induct)
  case (1 v)
  note IH = "1.IH" [unfolded unat_drop_7]
  have "unat v < 2 ^ (7 * length (varint_bytes v)) \<and>
    (length (varint_bytes v) = 1 \<or> 2 ^ (7 * (length (varint_bytes v) - 1)) \<le> unat v)"
  proof (cases "v \<le> 0x7F")
    case True
    then show ?thesis by (simp add: varint_bytes.simps [of v] word_le_nat_alt)
  next
    case False
    let ?n = "length (varint_bytes (drop_bit 7 v))"
    have n: "length (varint_bytes v) = Suc ?n" "0 < ?n"
      using False by (simp_all add: varint_bytes.simps [of v])
    have "unat v < 2 ^ (7 * Suc ?n)"
      using IH(1) [OF False] by (simp add: div_less_iff_less_mult power_add mult.commute)
    moreover have "2 ^ (7 * ?n) \<le> unat v"
    proof (cases "?n = 1")
      case True
      then show ?thesis using False by (simp add: not_le word_less_nat_alt)
    next
      case ne: False
      then have "2 ^ (7 * (?n - 1)) \<le> unat v div 128" using IH(2) [OF False] by simp
      then have "2 ^ (7 * (?n - 1)) * 128 \<le> unat v" by (simp add: less_eq_div_iff_mult_less_eq)
      also have "2 ^ (7 * (?n - 1)) * 128 = (2 :: nat) ^ (7 * (?n - 1) + 7)" by (simp add: power_add)
      also have "7 * (?n - 1) + 7 = 7 * ?n"
        using n(2) by (cases "varint_bytes (drop_bit 7 v)") simp_all
      finally show ?thesis .
    qed
    ultimately show ?thesis using n by simp
  qed
  then show "unat v < 2 ^ (7 * length (varint_bytes v))"
    "length (varint_bytes v) = 1 \<or> 2 ^ (7 * (length (varint_bytes v) - 1)) \<le> unat v" by auto
qed

text \<open>
  C24: \<open>pb_encode_varint\<close> writes the shortest varint: \<open>n\<close> bytes where \<open>7 * n\<close> bits
  hold the value and \<open>7 * (n - 1)\<close> do not, one byte for zero, never more than ten. A sizing
  stream counts the same \<open>n\<close>.
\<close>

theorem encode_varint_size:
  "\<exists>s n. pb_encode_varint v (out_buffer 10) = Some (Rtrue (), s) \<and> length (out_bytes s) = n \<and>
    bytes_written s = of_nat n \<and> n \<in> {1..10} \<and> unat v < 2 ^ (7 * n) \<and>
    n \<in> {1} \<union> {n. 2 ^ (7 * (n - 1)) \<le> unat v} \<and>
    pb_encode_varint v (PB_OSTREAM_SIZING :: unit pb_ostream_t) =
      Some (Rtrue (), PB_OSTREAM_SIZING\<lparr>bytes_written := of_nat n\<rparr>)"
proof -
  let ?n = "length (varint_bytes v)"
  obtain s where "pb_encode_varint v (out_buffer 10) = Some (Rtrue (), s)" "out_bytes s = varint_bytes v"
    "bytes_written s = of_nat ?n"
    using emits_fresh [OF buf_out.emits_varint varint_bytes_le_10] by auto
  moreover have "pb_encode_varint v (PB_OSTREAM_SIZING :: unit pb_ostream_t) =
      Some (Rtrue (), PB_OSTREAM_SIZING\<lparr>bytes_written := of_nat ?n\<rparr>)"
    by (rule emits_sizing [OF buf_out.emits_varint])
  moreover have "1 \<le> ?n" by (simp add: Suc_le_eq)
  ultimately show ?thesis
    using varint_bytes_exact [of v] varint_bytes_le_10 [of v]
    by (intro exI [of _ s] exI [of _ ?n]) auto
qed

section \<open>Tags and skipping\<close>

lemma tag_word:
  fixes t w :: "32 word"
  assumes "t < 2 ^ 29" and "w < 8"
  defines "x \<equiv> push_bit 3 (ucast t) OR ucast w :: uint64_t"
  shows "(ucast x :: 32 word) AND 7 = w" "drop_bit 3 (ucast x :: 32 word) = t"
    "unat x < 2 ^ 35"
proof -
  have t: "take_bit 29 t = t" and w: "take_bit 3 w = w"
    using assms(1,2) by (simp_all add: take_bit_eq_mod word_less_nat_alt word_unat_eq_iff unat_mod)
  have bt: "\<not> bit t n" if "29 \<le> n" for n using t that by (metis bit_take_bit_iff not_le)
  have bt': "n < 29" if "bit t n" for n using bt that by (cases "n < 29") auto
  have bw: "\<not> bit w n" if "3 \<le> n" for n using w that by (metis bit_take_bit_iff not_le)
  have bw': "n < 3" if "bit w n" for n using bw that by (cases "n < 3") auto
  have m: "(7 :: 32 word) = mask 3" by (simp add: mask_eq_exp_minus_1)
  show "(ucast x :: 32 word) AND 7 = w"
    unfolding m x_def by (rule bit_word_eqI) (auto simp: bit_simps bw')
  show "drop_bit 3 (ucast x :: 32 word) = t"
    unfolding x_def by (rule bit_word_eqI) (auto simp: bit_simps bw dest: bt')
  have "take_bit 35 x = x"
    unfolding x_def by (rule bit_word_eqI) (auto simp: bit_simps dest: bw' bt')
  then show "unat x < 2 ^ 35"
    by (metis take_bit_nat_less_exp unsigned_take_bit_eq)
qed

text \<open>
  C25: Tag round trip: \<open>pb_decode_tag\<close> reads back the field number and the wire type of every
  tag that \<open>pb_encode_tag\<close> wrote, for field numbers up to the protocol's limit
  \<open>2 ^ 29 - 1\<close> and all but the tag 0 of wire type 0, which ends a message.
\<close>

theorem tag_roundtrip:
  assumes "t < 2 ^ 29" and "w < 8" and "t \<noteq> 0 \<or> w \<noteq> 0" and "length rest < 2 ^ 63"
  shows "\<exists>s. pb_encode_tag w t (out_buffer 5) = Some (Rtrue (), s) \<and>
    (\<exists>s'. pb_decode_tag (stream_of (out_bytes s @ rest)) = Some (True, w, t, False, s') \<and>
       avail buf_content s' = rest)"
proof -
  let ?x = "push_bit 3 (ucast t) OR ucast w :: uint64_t"
  note x = tag_word [OF assms(1,2)]
  have l5: "length (varint_bytes ?x) \<le> 5" by (rule varint_bytes_length) (use x(3) in simp_all)
  then have len: "length (varint_bytes ?x @ rest) < 2 ^ 64" using assms(4) by simp
  have g: "groups_word (varint_bytes ?x) = (ucast ?x :: uint32_t)"
    using ucast_groups_word [where 'a = 32 and 'b = 64, of "varint_bytes ?x"]
    by (simp add: groups_varint_bytes)
  have nz: "(ucast ?x :: uint32_t) \<noteq> 0"
  proof
    assume 0: "(ucast ?x :: uint32_t) = 0"
    show False using x(1,2) assms(3) unfolding 0 by simp
  qed
  obtain s where "pb_encode_tag w t (out_buffer 5) = Some (Rtrue (), s)" "out_bytes s = varint_bytes ?x"
    using emits_fresh [OF buf_out.emits_tag l5] by auto
  then show ?thesis
    using buf_in.decode_tag_content [OF stream_of_ok [OF len] varint_bytes_reads [OF len] l5 g nz] x(1,2)
    by auto
qed

theorem tag_roundtrip_witness:
  "\<exists>s. pb_encode_tag 2 1000 (out_buffer 5) = Some (Rtrue (), s) \<and>
    (\<exists>s'. pb_decode_tag (stream_of (out_bytes s @ [3])) = Some (True, 2, 1000, False, s') \<and>
       avail buf_content s' = [3])"
  by (rule tag_roundtrip) simp_all

text \<open>
  C26: \<open>pb_skip_field\<close> on every input. It succeeds exactly where the bytes that are left begin
  with a value of the wire type, and then leaves exactly what follows that value; else it fails,
  with the stream still usable.
\<close>

theorem skip_field_spec:
  assumes "stream_ok Buf_read buf_fits k s"
  shows "\<exists>s'. stream_ok Buf_read buf_fits k s' \<and>
    (case value_span w (avail buf_content s) of
       Some rest \<Rightarrow> pb_skip_field w s = Some (Rtrue (), s') \<and> avail buf_content s' = rest
     | None \<Rightarrow> pb_skip_field w s = Some (Rfalse, s'))"
  using buf_in.skip_field_reads [OF assms, of w] buf_in.skip_field_fails [OF assms, of w]
  by (cases "value_span w (avail buf_content s)") (auto simp: reads_def fails_def)

theorem skip_field_spec_witness:
  "\<exists>s'. stream_ok Buf_read buf_fits 0 s' \<and>
    pb_skip_field PB_WT_STRING (stream_of [2, 65, 66, 8]) = Some (Rtrue (), s') \<and>
    avail buf_content s' = [8]"
proof -
  have "value_span PB_WT_STRING (avail buf_content (stream_of [2, 65, 66, 8])) = Some [8]"
    by (simp add: avail_stream_of value_span_def string_span_def)
  then show ?thesis
    using skip_field_spec [OF stream_of_ok, of "[2, 65, 66, 8]" PB_WT_STRING] by auto
qed

section \<open>Two edges of the decoders\<close>

lemma bit_ge: "bit (w :: 'a::len word) n \<Longrightarrow> 2 ^ n \<le> unat w"
proof (rule ccontr)
  assume "bit w n" and "\<not> 2 ^ n \<le> unat w"
  then have "unat w div 2 ^ n = 0" by simp
  then have "\<not> bit (unat w) n" by (simp add: bit_iff_odd)
  with \<open>bit w n\<close> show False by (simp add: bit_unsigned_iff possible_bit_def)
qed

text \<open>
  C27: \<open>pb_decode_varint32\<close> rejects negative \<open>int32\<close> values: the encoder writes them sign
  extended in ten bytes, and the decoder gives up after five with an overflow, although
  \<open>pb_decode.h\<close> offers it for \<open>int32\<close>.
\<close>

theorem varint32_rejects_negative:
  assumes "sint (v :: 32 word) < 0"
  shows "\<exists>s s'. pb_encode_varint (scast v) (out_buffer 10) = Some (Rtrue (), s) \<and>
    pb_decode_varint32 (stream_of (out_bytes s)) = Some (Rfalse, s') \<and>
    i_errmsg s' = Some ''varint overflow''"
proof -
  let ?bs = "varint_bytes (scast v)"
  have "bit v 31" using assms bit_last_iff [of v] by simp
  then have "bit (scast v :: uint64_t) 63" by (simp add: bit_simps)
  then have "2 ^ 63 \<le> unat (scast v :: uint64_t)"
    by (rule bit_ge)
  then have "(2 :: nat) ^ 63 < 2 ^ (7 * length ?bs)"
    using varint_bytes_exact(1) [of "scast v"] by (rule le_less_trans)
  then have "63 < 7 * length ?bs" by (rule power_less_imp_less_exp [rotated]) simp
  then have long: "5 < length ?bs" by simp
  have sp: "split_varint ?bs = Some (?bs, [])" using split_varint_bytes [of "scast v" "[]"] by simp
  have len: "length ?bs < 2 ^ 64" using varint_bytes_le_10 [of "scast v"] by simp
  have "varint_result 5 (avail buf_content (stream_of ?bs)) =
      (Rfalse :: uint32_t rv, drop 5 ?bs, Some ''varint overflow'')"
    using long by (simp add: avail_stream_of [OF len] varint_result_def sp)
  then obtain s' where "pb_decode_varint32 (stream_of ?bs) = Some (Rfalse, s')"
    "i_errmsg s' = Some ''varint overflow''"
    using buf_in.varint32_meets_result [OF stream_of_ok [OF len]] by fastforce
  moreover obtain s where "pb_encode_varint (scast v) (out_buffer 10) = Some (Rtrue (), s)"
    "out_bytes s = ?bs"
    using emits_fresh [OF buf_out.emits_varint varint_bytes_le_10] by auto
  ultimately show ?thesis by auto
qed

theorem varint32_rejects_negative_witness:
  "\<exists>s s'. pb_encode_varint (scast (- 1 :: 32 word)) (out_buffer 10) = Some (Rtrue (), s) \<and>
    pb_decode_varint32 (stream_of (out_bytes s)) = Some (Rfalse, s') \<and>
    i_errmsg s' = Some ''varint overflow''"
  by (rule varint32_rejects_negative) simp

end
