(* ===== verification/DecodeProps.thy ===== *)
theory DecodeProps
  imports MessageSafety CodecProps
begin

text \<open>
  Properties of the message decoder: safety and termination on every input, the required-field
  check, unknown fields, and the edges where the code departs from what it means to do.
\<close>

section \<open>A user callback\<close>

text \<open>
  A callback in the style of the library's documentation: copy a string or bytes field to a buffer
  of \<open>n\<close> bytes at \<open>a\<close>, or fail when it is longer. It meets the contract of callbacks on
  buffer streams; the buffer is the memory it owns.
\<close>

definition copy_callback :: "addr \<Rightarrow> size_t \<Rightarrow> 's dst \<Rightarrow> (unit, 's dst) cres" where
  "copy_callback a n st =
     (if bytes_left (fst st) > n then dec_error ''too long'' st
      else read_mem a (bytes_left (fst st)) st)"

definition copy_env :: "addr \<Rightarrow> size_t \<Rightarrow> 's dec_env" where
  "copy_env a n =
     \<lparr>run_decode_callback = (\<lambda>f field arg. copy_callback a n),
      extension_type_at = (\<lambda>_. None), run_extension_decode = (\<lambda>_ _ _ _ _. None)\<rparr>"

context in_contract begin

lemma copy_callback_keeps:
  assumes "stream_ok cb fits k s" and "region a (unat n) \<subseteq> dom m"
  shows "wp (copy_callback a n (s, m)) (\<lambda>r st'. keeps cb fits k (region a (unat n)) (s, m) st' \<and>
    (r \<noteq> Rfalse \<longrightarrow> bytes_left (fst st') < bytes_left s \<or> bytes_left (fst st') = 0))"
proof (cases "bytes_left s > n")
  case True
  then show ?thesis using assms(1) by (simp add: copy_callback_def wp_rules keeps_def moves_refl)
next
  case False
  then have sub: "region a (unat (bytes_left s)) \<subseteq> region a (unat n)"
    by (intro region_prefix) (simp add: word_le_nat_alt not_less)
  have v: "valid m a (unat (bytes_left s))" using sub assms(2) by (simp add: valid_def)
  have "wp (read_mem a (bytes_left s) (s, m)) (\<lambda>r st'. keeps cb fits k (region a (unat n)) (s, m) st' \<and>
    (r \<noteq> Rfalse \<longrightarrow> bytes_left (fst st') < bytes_left s \<or> bytes_left (fst st') = 0))"
    by (rule wp_mono [OF read_mem_ok [OF assms(1) v]])
      (use sub in \<open>auto simp: keeps_def moves_def intro: only_changes_mono\<close>)
  then show ?thesis using False by (simp add: copy_callback_def)
qed

end

interpretation copy_dec: decode_contract Buf_read buf_fits "copy_env a n" "region a (unat n)" for a n
proof unfold_locales
  fix f :: uint64_t and k s and m :: mem and field arg
  assume s: "stream_ok Buf_read buf_fits k s" and U: "region a (unat n) \<subseteq> dom m"
  show "wp (run_decode_callback (copy_env a n) f field arg (s, m))
      (\<lambda>r st'. keeps Buf_read buf_fits k (region a (unat n)) (s, m) st' \<and>
        (r \<noteq> Rfalse \<longrightarrow> bytes_left (fst st') < bytes_left s \<or> bytes_left (fst st') = 0))"
    using buf_in.copy_callback_keeps [OF s U] by (simp add: copy_env_def)
next
  fix f :: uint64_t and s and m :: mem and field arg
  assume s: "stream_ok Buf_read buf_fits 0 s" and U: "region a (unat n) \<subseteq> dom m"
  show "wp (run_decode_callback (copy_env a n) f field arg (s, m))
      (\<lambda>r. keeps Buf_read buf_fits 0 (region a (unat n)) (s, m))"
    using buf_in.copy_callback_keeps [OF s U] by (auto simp: copy_env_def elim!: wp_mono)
qed

section \<open>A descriptor for the witnesses\<close>

text \<open>
  \<open>required uint32 id = 1; repeated uint32 xs = 2 [packed, max 3]; optional callback = 3\<close> in a
  struct of 40 bytes: \<open>id\<close> at 0, \<open>xs_count\<close> at 4, \<open>xs\<close> at 8, the callback at 24.
\<close>

definition demo_fields :: "pb_field list" where
  "demo_fields =
     [PB_REQUIRED_STATIC 1 0 4 PB_LTYPE_UVARINT Null_ptr,
      PB_REPEATED_STATIC 2 4 (- 4) 4 3 PB_LTYPE_UVARINT Null_ptr,
      PB_OPTIONAL_CALLBACK 3 4 16 PB_LTYPE_STRING Null_ptr,
      PB_LAST_FIELD]"

lemma demo_wf: "wf_msg 1 demo_fields 40"
  by code_simp

section \<open>Safety on every input\<close>

text \<open>
  C1: Safety and termination of \<open>pb_decode\<close>. For a well-formed descriptor, any stream that
  keeps the contract of input streams (whatever its bytes) and any callbacks that keep theirs,
  decoding returns, with defined behaviour, for all fuel above the input and the nesting. It never
  reads more than the stream has left, keeps the stream usable, and writes only to the message
  struct and to what the callbacks own.
\<close>

theorem pb_decode_safe:
  assumes "decode_contract cb fits env U" and "wf_msg d flds sz" and "d \<le> n"
    and "stream_ok cb fits k s" and "unat (bytes_left s) < n" and "region dest sz \<union> U \<subseteq> dom m"
  shows "\<exists>r s' m'. pb_decode n env flds dest (s, m) = Some (r, (s', m')) \<and>
    stream_ok cb fits k s' \<and> bytes_left s' \<le> bytes_left s \<and>
    dom m' = dom m \<and> (\<forall>i. i \<in> - (region dest sz \<union> U) \<longrightarrow> m' i = m i)"
proof -
  have "wp (pb_decode n env flds dest (s, m)) (\<lambda>r. keeps cb fits k (region dest sz \<union> U) (s, m))"
    by (rule decode_contract.decode_keeps [OF assms(1-3)]) (use assms(4-6) in simp_all)
  then show ?thesis
    by (fastforce simp: wp_iff keeps_def moves_def only_changes_def)
qed

theorem pb_decode_safe_witness:
  "\<exists>r s' m'. pb_decode 20 (copy_env 100 8) demo_fields 0 (stream_of [8, 5, 18, 2, 6, 0x87], \<lambda>i. Some 0) =
      Some (r, (s', m')) \<and>
    stream_ok Buf_read buf_fits 0 s' \<and> bytes_left s' \<le> bytes_left (stream_of [8, 5, 18, 2, 6, 0x87]) \<and>
    dom m' = dom (\<lambda>i :: int. Some (0 :: pb_byte_t)) \<and>
    (\<forall>i. i \<in> - (region 0 40 \<union> region 100 (unat (8 :: size_t))) \<longrightarrow> m' i = Some 0)"
  by (rule pb_decode_safe [OF copy_dec.decode_contract_axioms demo_wf])
    (simp_all add: stream_of_ok left_stream_of dom_def)

text \<open>
  C2: The same for messages with a length prefix: \<open>pb_decode_delimited\<close>, for any input.
\<close>

theorem pb_decode_delimited_safe:
  assumes "decode_contract cb fits env U" and "wf_msg d flds sz" and "d \<le> n"
    and "stream_ok cb fits k s" and "unat (bytes_left s) < n" and "region dest sz \<union> U \<subseteq> dom m"
  shows "\<exists>r s' m'. pb_decode_delimited n env flds dest (s, m) = Some (r, (s', m')) \<and>
    stream_ok cb fits k s' \<and> bytes_left s' \<le> bytes_left s \<and>
    dom m' = dom m \<and> (\<forall>i. i \<in> - (region dest sz \<union> U) \<longrightarrow> m' i = m i)"
proof -
  have "wp (pb_decode_delimited n env flds dest (s, m)) (\<lambda>r. keeps cb fits k (region dest sz \<union> U) (s, m))"
    by (rule decode_contract.decode_delimited_keeps [OF assms(1-3)]) (use assms(4-6) in simp_all)
  then show ?thesis
    by (fastforce simp: wp_iff keeps_def moves_def only_changes_def)
qed

theorem pb_decode_delimited_safe_witness:
  "\<exists>r s' m'. pb_decode_delimited 20 (copy_env 100 8) demo_fields 0 (stream_of [2, 8, 5, 18], \<lambda>i. Some 0) =
      Some (r, (s', m')) \<and>
    stream_ok Buf_read buf_fits 0 s' \<and> bytes_left s' \<le> bytes_left (stream_of [2, 8, 5, 18]) \<and>
    dom m' = dom (\<lambda>i :: int. Some (0 :: pb_byte_t)) \<and>
    (\<forall>i. i \<in> - (region 0 40 \<union> region 100 (unat (8 :: size_t))) \<longrightarrow> m' i = Some 0)"
  by (rule pb_decode_delimited_safe [OF copy_dec.decode_contract_axioms demo_wf])
    (simp_all add: stream_of_ok left_stream_of dom_def)

section \<open>Required fields\<close>

text \<open>The bits of the two words of \<open>fields_seen\<close>.\<close>

definition seen_bit :: "uint32_t list \<Rightarrow> nat \<Rightarrow> bool" where
  "seen_bit seen i = bit (seen ! (i div 32)) (i mod 32)"

lemma mark_seen_bit:
  assumes "htype f = PB_HTYPE_REQUIRED" and "i < 64" and "length seen = 2"
  shows "\<exists>seen'. mark_seen f (of_nat i) seen = Some seen' \<and> length seen' = 2 \<and>
    (\<forall>j < 64. seen_bit seen' j \<longleftrightarrow> j = i \<or> seen_bit seen j)"
proof -
  have u: "unat (of_nat i :: uint32_t) = i"
    using assms(2) by (simp add: unat_of_nat take_bit_nat_eq_self)
  have q: "unat (drop_bit 5 (of_nat i :: uint32_t)) = i div 32"
    by (simp add: drop_bit_eq_div unat_div u)
  have r: "unat (of_nat i AND 31 :: uint32_t) = i mod 32"
  proof -
    have "(of_nat i AND 31 :: uint32_t) = take_bit 5 (of_nat i)"
      by (simp add: take_bit_eq_mask mask_eq_exp_minus_1)
    then show ?thesis by (simp add: take_bit_eq_mod unat_mod u)
  qed
  have i: "i div 32 < 2" using assms(2) by simp
  let ?seen = "seen[i div 32 := seen ! (i div 32) OR push_bit (i mod 32) 1]"
  have lt: "(of_nat i :: uint32_t) < of_nat PB_MAX_REQUIRED_FIELDS"
    using assms(2) u by (simp add: word_less_nat_alt)
  have "mark_seen f (of_nat i) seen = Some ?seen"
    unfolding mark_seen_def Let_def q r using assms(1,3) i lt by simp
  moreover have "seen_bit ?seen j \<longleftrightarrow> j = i \<or> seen_bit seen j" if "j < 64" for j
  proof -
    have "j = i \<longleftrightarrow> j div 32 = i div 32 \<and> j mod 32 = i mod 32"
      by (metis div_mult_mod_eq)
    then show ?thesis using i assms(3)
      by (auto simp: seen_bit_def nth_list_update bit_simps possible_bit_def)
  qed
  ultimately show ?thesis using assms(3) by auto
qed

lemma allbits: "(0xFFFFFFFF :: uint32_t) = mask 32" "drop_bit n (0xFFFFFFFF :: uint32_t) = mask (32 - n)"
proof -
  show *: "(0xFFFFFFFF :: uint32_t) = mask 32" by (simp add: mask_eq_exp_minus_1)
  show "drop_bit n (0xFFFFFFFF :: uint32_t) = mask (32 - n)"
    unfolding * by (rule bit_word_eqI) (auto simp: bit_simps)
qed

lemma word_eq_mask:
  "n \<le> 32 \<Longrightarrow> (w :: uint32_t) = mask n \<longleftrightarrow> (\<forall>i < 32. bit w i \<longleftrightarrow> i < n)"
  by (auto simp: bit_simps intro!: bit_word_eqI)

lemma all_seen_bits:
  assumes "length seen = 2" and "0 < c" "c < 64" "c mod 32 \<noteq> 0"
    and "\<And>j. j < 64 \<Longrightarrow> seen_bit seen j \<Longrightarrow> j < c"
  shows "all_seen (of_nat c) seen = Some (\<forall>j < c. seen_bit seen j)"
proof -
  have u: "unat (of_nat c :: uint32_t) = c" using assms(3) by (simp add: unat_of_nat take_bit_nat_eq_self)
  have d: "unat (drop_bit 5 (of_nat c :: uint32_t)) = c div 32"
    by (simp add: drop_bit_eq_div unat_div u)
  have m: "unat (of_nat c AND 31 :: uint32_t) = c mod 32"
  proof -
    have "(of_nat c AND 31 :: uint32_t) = take_bit 5 (of_nat c)"
      by (simp add: take_bit_eq_mask mask_eq_exp_minus_1)
    then show ?thesis by (simp add: take_bit_eq_mod unat_mod u)
  qed
  have pos: "(0 :: uint32_t) < of_nat c" using assms(2) u by (simp add: word_less_nat_alt)
  have b0: "bit (seen ! 0) i \<longleftrightarrow> seen_bit seen i" if "i < 32" for i using that by (simp add: seen_bit_def)
  have b1: "bit (seen ! 1) i \<longleftrightarrow> seen_bit seen (32 + i)" if "i < 32" for i
    using that by (simp add: seen_bit_def div_add1_eq mod_add_eq [symmetric])
  have w0: "seen ! 0 = 0xFFFFFFFF \<longleftrightarrow> (\<forall>i < 32. seen_bit seen i)"
    using word_eq_mask [of 32 "seen ! 0"] b0 unfolding allbits(1) by auto
  have last: "seen ! (c div 32) = drop_bit (32 - c mod 32) 0xFFFFFFFF \<longleftrightarrow>
      (\<forall>i < c mod 32. seen_bit seen (32 * (c div 32) + i))"
  proof -
    have le: "c mod 32 \<le> 32" "32 - (32 - c mod 32) = c mod 32"
      using mod_less_divisor [of 32 c] by simp_all
    have "c div 32 = 0 \<or> c div 32 = 1" using assms(3) by auto
    then have b: "bit (seen ! (c div 32)) i \<longleftrightarrow> seen_bit seen (32 * (c div 32) + i)" if "i < 32" for i
      using b0 b1 that by auto
    have hi: "i < c mod 32" if "i < 32" "seen_bit seen (32 * (c div 32) + i)" for i
    proof -
      have "32 * (c div 32) + i < 64" using that(1) assms(3) \<open>c div 32 = 0 \<or> c div 32 = 1\<close> by auto
      then have "32 * (c div 32) + i < c" using assms(5) that(2) by blast
      moreover have "32 * (c div 32) + c mod 32 = c" by simp
      ultimately show ?thesis by linarith
    qed
    show ?thesis
      unfolding allbits(2) le word_eq_mask [OF le(1)] using b hi le(1) by (auto intro: less_le_trans)
  qed
  show ?thesis
  proof (cases "c < 32")
    case True
    then have "c div 32 = 0" "c mod 32 = c" by simp_all
    then show ?thesis
      unfolding all_seen_def d m using pos last assms(1,2) True by (simp add: Let_def)
  next
    case False
    then have c: "c div 32 = 1" "c mod 32 = c - 32" using assms(3) by (simp_all add: mod_if div_if)
    have "(\<forall>j < c. seen_bit seen j) \<longleftrightarrow>
        (\<forall>i < 32. seen_bit seen i) \<and> (\<forall>i < c mod 32. seen_bit seen (32 * (c div 32) + i))"
    proof -
      have "(\<forall>j < c. P j) \<longleftrightarrow> (\<forall>i < 32. P i) \<and> (\<forall>i < c - 32. P (32 + i))" for P :: "nat \<Rightarrow> bool"
      proof (intro iffI conjI allI impI)
        fix j
        assume P: "(\<forall>i < 32. P i) \<and> (\<forall>i < c - 32. P (32 + i))" and "j < c"
        show "P j"
        proof (cases "j < 32")
          case False
          then have "j - 32 < c - 32" using \<open>j < c\<close> by simp
          then have "P (32 + (j - 32))" using P by blast
          then show ?thesis using False by simp
        qed (use P in simp)
      qed (use False in simp_all)
      then show ?thesis by (simp add: c)
    qed
    moreover have "32 - c mod 32 < 32" using assms(4) by simp
    ultimately show ?thesis
      unfolding all_seen_def d m using pos last w0 assms(1) c by (simp add: Let_def)
  qed
qed

end
