(* ===== verification/EncodeField.thy ===== *)
theory EncodeField
  imports EncodePrim FieldIter
begin

text \<open>
  The field encoders of \<open>pb_encode.c\<close>: one function per scalar type, strings, bytes and
  submessages, arrays, the default value test of proto3, and static, pointer and callback fields.
  The state is the output stream and the memory, which only user callbacks change. The encoding of
  a message is passed in as a function (\<open>enc\<close>); \<open>Encode\<close> ties the knot.
\<close>

type_synonym 'o ost = "'o pb_ostream_t \<times> mem"

record 'o enc_env =
  run_encode_callback ::
    "uint64_t \<Rightarrow> pb_field \<Rightarrow> addr \<Rightarrow> 'o ost \<Rightarrow> (unit, 'o ost) cres"
  enc_extension_type_at :: "uint64_t \<Rightarrow> pb_extension_type_t option"
  run_extension_encode :: "uint64_t \<Rightarrow> uint64_t \<Rightarrow> 'o ost \<Rightarrow> (unit, 'o ost) cres"

definition enc_error :: "string \<Rightarrow> 'o ost \<Rightarrow> ('a, 'o ost) cres" where
  "enc_error msg st = Some (Rfalse, (OUT_SET_ERROR msg (fst st), snd st))"

text \<open>\<open>on_out f\<close> runs a stream operation in the state of the encoder.\<close>

definition on_out ::
  "('o pb_ostream_t \<Rightarrow> ('a, 'o pb_ostream_t) cres) \<Rightarrow> 'o ost \<Rightarrow> ('a, 'o ost) cres" where
  "on_out f st = lift_st (snd st) (f (fst st))"

section \<open>Integers\<close>

definition pb_enc_varint :: "pb_field \<Rightarrow> addr \<Rightarrow> 'o ost \<Rightarrow> (unit, 'o ost) cres" where
  "pb_enc_varint field src st =
     (let m = snd st; put = (\<lambda>value. on_out (pb_encode_varint value) st)
      in if data_size field = 1
         then Option.bind (load_word m src 1) (\<lambda>v :: 8 word. put (scast v))
         else if data_size field = 2
         then Option.bind (load_word m src 2) (\<lambda>v :: 16 word. put (scast v))
         else if data_size field = 4
         then Option.bind (load_word m src 4) (\<lambda>v :: 32 word. put (scast v))
         else if data_size field = 8 then Option.bind (load_word m src 8) put
         else enc_error ''invalid data_size'' st)"

definition pb_enc_uvarint :: "pb_field \<Rightarrow> addr \<Rightarrow> 'o ost \<Rightarrow> (unit, 'o ost) cres" where
  "pb_enc_uvarint field src st =
     (let m = snd st; put = (\<lambda>value. on_out (pb_encode_varint value) st)
      in if data_size field = 1
         then Option.bind (load_word m src 1) (\<lambda>v :: 8 word. put (ucast v))
         else if data_size field = 2
         then Option.bind (load_word m src 2) (\<lambda>v :: 16 word. put (ucast v))
         else if data_size field = 4
         then Option.bind (load_word m src 4) (\<lambda>v :: 32 word. put (ucast v))
         else if data_size field = 8 then Option.bind (load_word m src 8) put
         else enc_error ''invalid data_size'' st)"

definition pb_enc_svarint :: "pb_field \<Rightarrow> addr \<Rightarrow> 'o ost \<Rightarrow> (unit, 'o ost) cres" where
  "pb_enc_svarint field src st =
     (let m = snd st; put = (\<lambda>value. on_out (pb_encode_svarint value) st)
      in if data_size field = 1
         then Option.bind (load_word m src 1) (\<lambda>v :: 8 word. put (scast v))
         else if data_size field = 2
         then Option.bind (load_word m src 2) (\<lambda>v :: 16 word. put (scast v))
         else if data_size field = 4
         then Option.bind (load_word m src 4) (\<lambda>v :: 32 word. put (scast v))
         else if data_size field = 8 then Option.bind (load_word m src 8) put
         else enc_error ''invalid data_size'' st)"

definition pb_enc_fixed64 :: "pb_field \<Rightarrow> addr \<Rightarrow> 'o ost \<Rightarrow> (unit, 'o ost) cres" where
  "pb_enc_fixed64 field src st = on_out (pb_encode_fixed64 (snd st) src) st"

definition pb_enc_fixed32 :: "pb_field \<Rightarrow> addr \<Rightarrow> 'o ost \<Rightarrow> (unit, 'o ost) cres" where
  "pb_enc_fixed32 field src st = on_out (pb_encode_fixed32 (snd st) src) st"

section \<open>Bytes, strings and submessages\<close>

definition pb_enc_bytes :: "pb_field \<Rightarrow> addr \<Rightarrow> 'o ost \<Rightarrow> (unit, 'o ost) cres" where
  "pb_enc_bytes field src st =
     (if src = 0 then on_out (pb_encode_string (Some []) 0) st
      else case load_size (snd st) src of None \<Rightarrow> None
           | Some sz \<Rightarrow>
               if atype field = PB_ATYPE_STATIC \<and>
                  PB_BYTES_ARRAY_T_ALLOCSIZE sz > ucast (data_size field)
               then enc_error ''bytes size exceeded'' st
               else on_out (pb_encode_string (load_bytes (snd st) (src + 4) (unat sz)) (ucast sz)) st)"

lemma unat_add_1_less: "(a :: size_t) < b \<Longrightarrow> unat (a + 1) = Suc (unat a)"
proof -
  assume "a < b"
  moreover have "unat b < 2 ^ 64" using unsigned_less [of b] by simp
  ultimately have "Suc (unat a) < 2 ^ 64" by (simp add: word_less_nat_alt)
  then show ?thesis by (simp add: unat_word_ariths)
qed

text \<open>The \<open>strnlen\<close> loop of \<open>pb_enc_string\<close>.\<close>

function string_len_loop :: "mem \<Rightarrow> addr \<Rightarrow> size_t \<Rightarrow> size_t \<Rightarrow> size_t option" where
  "string_len_loop m p sz limit =
     (if sz < limit then
        (case m p of None \<Rightarrow> None
         | Some c \<Rightarrow> if c \<noteq> 0 then string_len_loop m (p + 1) (sz + 1) limit else Some sz)
      else Some sz)"
  by pat_completeness auto
termination
  by (relation "measure (\<lambda>(m, p, sz, limit). unat limit - unat sz)")
    (auto simp: unat_add_1_less word_less_nat_alt)

declare string_len_loop.simps [simp del]

definition pb_enc_string :: "pb_field \<Rightarrow> addr \<Rightarrow> 'o ost \<Rightarrow> (unit, 'o ost) cres" where
  "pb_enc_string field src st =
     (let limit = (if atype field = PB_ATYPE_POINTER then -1 else ucast (data_size field))
      in case (if src = 0 then Some 0 else string_len_loop (snd st) src 0 limit) of None \<Rightarrow> None
         | Some sz \<Rightarrow>
             on_out (pb_encode_string (load_bytes (snd st) src (unat sz)) sz) st)"

text \<open>
  The first pass counts on a stream without callback; the second writes through a substream that
  is limited to what was counted.
\<close>

definition pb_encode_submessage ::
  "(pb_field list \<Rightarrow> addr \<Rightarrow> 'o ost \<Rightarrow> (unit, 'o ost) cres) \<Rightarrow>
   pb_field list \<Rightarrow> addr \<Rightarrow> 'o ost \<Rightarrow> (unit, 'o ost) cres" where
  "pb_encode_submessage enc flds src st =
     (case enc flds src (PB_OSTREAM_SIZING, snd st) of None \<Rightarrow> None
      | Some (Rfalse, (substream, m)) \<Rightarrow>
          Some (Rfalse, ((fst st)\<lparr>o_errmsg := o_errmsg substream\<rparr>, m))
      | Some (Rtrue _, (substream, m)) \<Rightarrow>
          let size = bytes_written substream
          in chk (on_out (pb_encode_varint size) (fst st, m)) (\<lambda>_ (s, m).
               if o_callback s = None then on_out (pb_write None size) (s, m)
               else if bytes_written s + size > max_size s then enc_error ''stream full'' (s, m)
               else case enc flds src (\<lparr>o_callback = o_callback s, o_state = o_state s,
                      max_size = size, bytes_written = 0, o_errmsg = None\<rparr>, m) of None \<Rightarrow> None
                    | Some (status, (substream, m)) \<Rightarrow>
                        let s = s\<lparr>bytes_written := bytes_written s + bytes_written substream,
                              o_state := o_state substream, o_errmsg := o_errmsg substream\<rparr>
                        in if bytes_written substream \<noteq> size
                           then enc_error ''submsg size changed'' (s, m)
                           else Some (status, (s, m))))"

definition pb_enc_submessage ::
  "(pb_field list \<Rightarrow> addr \<Rightarrow> 'o ost \<Rightarrow> (unit, 'o ost) cres) \<Rightarrow>
   pb_field \<Rightarrow> addr \<Rightarrow> 'o ost \<Rightarrow> (unit, 'o ost) cres" where
  "pb_enc_submessage enc field src st =
     (case ptr field of
        Null_ptr \<Rightarrow> enc_error ''invalid field descriptor'' st
      | Submsg_fields flds \<Rightarrow> pb_encode_submessage enc flds src st
      | Default_value _ \<Rightarrow> None)"

definition pb_enc_fixed_length_bytes :: "pb_field \<Rightarrow> addr \<Rightarrow> 'o ost \<Rightarrow> (unit, 'o ost) cres" where
  "pb_enc_fixed_length_bytes field src st =
     on_out (pb_encode_string (load_bytes (snd st) src (unat (data_size field)))
       (ucast (data_size field))) st"

text \<open>\<open>PB_ENCODERS[PB_LTYPE(type)](stream, field, src)\<close>, with no entry for extensions.\<close>

definition PB_ENCODERS ::
  "(pb_field list \<Rightarrow> addr \<Rightarrow> 'o ost \<Rightarrow> (unit, 'o ost) cres) \<Rightarrow> pb_type_t \<Rightarrow>
   pb_field \<Rightarrow> addr \<Rightarrow> 'o ost \<Rightarrow> (unit, 'o ost) cres" where
  "PB_ENCODERS enc lt field src st =
     (if lt = PB_LTYPE_VARINT then pb_enc_varint field src st
      else if lt = PB_LTYPE_UVARINT then pb_enc_uvarint field src st
      else if lt = PB_LTYPE_SVARINT then pb_enc_svarint field src st
      else if lt = PB_LTYPE_FIXED32 then pb_enc_fixed32 field src st
      else if lt = PB_LTYPE_FIXED64 then pb_enc_fixed64 field src st
      else if lt = PB_LTYPE_BYTES then pb_enc_bytes field src st
      else if lt = PB_LTYPE_STRING then pb_enc_string field src st
      else if lt = PB_LTYPE_SUBMESSAGE then pb_enc_submessage enc field src st
      else if lt = PB_LTYPE_FIXED_LENGTH_BYTES then pb_enc_fixed_length_bytes field src st
      else None)"

section \<open>Arrays\<close>

primrec array_loop ::
  "nat \<Rightarrow> (addr \<Rightarrow> 'o ost \<Rightarrow> (unit, 'o ost) cres) \<Rightarrow> pb_size_t \<Rightarrow> addr \<Rightarrow> 'o ost \<Rightarrow>
   (unit, 'o ost) cres" where
  "array_loop 0 item stride p st = Some (Rtrue (), st)"
| "array_loop (Suc n) item stride p st =
     chk (item p st) (\<lambda>_. array_loop n item stride (p + uint stride))"

text \<open>The size of a packed array and the memory after it was computed; \<open>Rfalse\<close> is an error.\<close>

definition packed_size ::
  "(addr \<Rightarrow> 'o ost \<Rightarrow> (unit, 'o ost) cres) \<Rightarrow> pb_field \<Rightarrow> addr \<Rightarrow> size_t \<Rightarrow> 'o ost \<Rightarrow>
   (size_t, 'o ost) cres" where
  "packed_size item field pd count st =
     (if ltype field = PB_LTYPE_FIXED32 then Some (Rtrue (4 * count), st)
      else if ltype field = PB_LTYPE_FIXED64 then Some (Rtrue (8 * count), st)
      else case array_loop (unat count) item (data_size field) pd (PB_OSTREAM_SIZING, snd st) of
             None \<Rightarrow> None
           | Some (Rfalse, (_, m)) \<Rightarrow> Some (Rfalse, (fst st, m))
           | Some (Rtrue _, (sizestream, m)) \<Rightarrow>
               Some (Rtrue (bytes_written sizestream), (fst st, m)))"

definition encode_array ::
  "pb_field \<Rightarrow> addr \<Rightarrow> size_t \<Rightarrow> (pb_field \<Rightarrow> addr \<Rightarrow> 'o ost \<Rightarrow> (unit, 'o ost) cres) \<Rightarrow>
   'o ost \<Rightarrow> (unit, 'o ost) cres" where
  "encode_array field pd count func st =
     (if count = 0 then Some (Rtrue (), st)
      else if atype field \<noteq> PB_ATYPE_POINTER \<and> count > ucast (array_size field)
      then enc_error ''array max size exceeded'' st
      else if ltype field \<le> PB_LTYPE_LAST_PACKABLE then
        chk (on_out (pb_encode_tag PB_WT_STRING (tag field)) st) (\<lambda>_ st.
        chk (packed_size (func field) field pd count st) (\<lambda>size st.
        chk (on_out (pb_encode_varint size) st) (\<lambda>_ st.
          if o_callback (fst st) = None then on_out (pb_write None size) st
          else array_loop (unat count) (func field) (data_size field) pd st)))
      else
        array_loop (unat count) (\<lambda>p st.
          chk (on_out (pb_encode_tag_for_field field) st) (\<lambda>_ st.
            if atype field = PB_ATYPE_POINTER \<and>
               (ltype field = PB_LTYPE_STRING \<or> ltype field = PB_LTYPE_BYTES)
            then Option.bind (load_ptr (snd st) p) (\<lambda>q. func field (uint q) st)
            else func field p st)) (data_size field) pd st)"

section \<open>The default value test of proto3\<close>

text \<open>The loop over the fields of a submessage, until one is not the default.\<close>

primrec all_fields ::
  "nat \<Rightarrow> (pb_field_iter \<Rightarrow> bool option) \<Rightarrow> pb_field_iter \<Rightarrow> bool option" where
  "all_fields 0 test iter = None"
| "all_fields (Suc n) test iter =
     (case test iter of None \<Rightarrow> None
      | Some ok \<Rightarrow>
          if \<not> ok then Some False
          else case pb_field_iter_next iter of None \<Rightarrow> None
               | Some (again, iter) \<Rightarrow> if again then all_fields n test iter else Some True)"

text \<open>The byte-per-byte comparison with zero.\<close>

primrec zero_bytes :: "mem \<Rightarrow> addr \<Rightarrow> nat \<Rightarrow> bool option" where
  "zero_bytes m p 0 = Some True"
| "zero_bytes m p (Suc n) =
     (case m p of None \<Rightarrow> None | Some b \<Rightarrow> if b \<noteq> 0 then Some False else zero_bytes m (p + 1) n)"

primrec pb_check_proto3_default_value ::
  "nat \<Rightarrow> pb_field \<Rightarrow> addr \<Rightarrow> mem \<Rightarrow> bool option" where
  "pb_check_proto3_default_value 0 field pd m = None"
| "pb_check_proto3_default_value (Suc n) field pd m =
     (if atype field = PB_ATYPE_STATIC \<and> ltype field = PB_LTYPE_BYTES
      then map_option (\<lambda>size. size = 0) (load_size m pd)
      else if atype field = PB_ATYPE_STATIC \<and> ltype field = PB_LTYPE_STRING
      then map_option (\<lambda>c. c = 0) (m pd)
      else if atype field = PB_ATYPE_STATIC \<and> ltype field = PB_LTYPE_FIXED_LENGTH_BYTES
      then Some (data_size field = 0)
      else if atype field = PB_ATYPE_STATIC \<and> ltype field = PB_LTYPE_SUBMESSAGE
      then (case ptr field of
              Submsg_fields flds \<Rightarrow>
                (case pb_field_iter_begin flds pd of None \<Rightarrow> None
                 | Some (nonempty, iter) \<Rightarrow>
                     if nonempty
                     then all_fields (length flds) (\<lambda>iter.
                       case iter_field iter of None \<Rightarrow> None
                       | Some f \<Rightarrow> pb_check_proto3_default_value n f (pData iter) m) iter
                     else Some True)
            | _ \<Rightarrow> None)
      else zero_bytes m pd (unat (data_size field)))"

section \<open>Static, pointer and callback fields\<close>

text \<open>
  \<open>pSize\<close> is the address of the has, count or which member when the field has one, else
  that of the local \<open>implicit_has\<close>, which holds no count.
\<close>

definition encode_basic_field ::
  "nat \<Rightarrow> (pb_field list \<Rightarrow> addr \<Rightarrow> 'o ost \<Rightarrow> (unit, 'o ost) cres) \<Rightarrow>
   pb_field \<Rightarrow> addr \<Rightarrow> 'o ost \<Rightarrow> (unit, 'o ost) cres" where
  "encode_basic_field n enc field pd st =
     (if PB_LTYPES_COUNT \<le> unat (ltype field) then None
      else case (if size_offset field \<noteq> 0 then Some True
                 else if htype field = PB_HTYPE_OPTIONAL
                 then map_option Not (pb_check_proto3_default_value n field pd (snd st))
                 else Some True) of None \<Rightarrow> None
      | Some implicit_has \<Rightarrow>
        (case (if atype field = PB_ATYPE_POINTER
               then map_option (\<lambda>p. (uint p, p \<noteq> 0)) (load_ptr (snd st) pd)
               else Some (pd, implicit_has)) of None \<Rightarrow> None
         | Some (data, implicit_has) \<Rightarrow>
           let func = PB_ENCODERS enc (ltype field);
               pSize = pd + sint (size_offset field);
               has = (if size_offset field \<noteq> 0 then load_bool (snd st) pSize
                      else Some implicit_has);
               count = (if size_offset field \<noteq> 0 then load_size (snd st) pSize else None);
               item = (\<lambda>st. chk (on_out (pb_encode_tag_for_field field) st) (\<lambda>_. func field data))
           in if htype field = PB_HTYPE_REQUIRED then
                if data = 0 then enc_error ''missing required field'' st else item st
              else if htype field = PB_HTYPE_OPTIONAL then
                Option.bind has (\<lambda>h. if h then item st else Some (Rtrue (), st))
              else if htype field = PB_HTYPE_REPEATED then
                Option.bind count (\<lambda>c. encode_array field data (ucast c) func st)
              else if htype field = PB_HTYPE_ONEOF then
                Option.bind count (\<lambda>w. if w = tag field then item st else Some (Rtrue (), st))
              else enc_error ''invalid field type'' st))"

definition encode_callback_field ::
  "'o enc_env \<Rightarrow> pb_field \<Rightarrow> addr \<Rightarrow> 'o ost \<Rightarrow> (unit, 'o ost) cres" where
  "encode_callback_field env field pd st =
     (case load_ptr (snd st) pd of None \<Rightarrow> None
      | Some f \<Rightarrow>
          if f \<noteq> 0 then
            (case run_encode_callback env f field (pd + 8) st of None \<Rightarrow> None
             | Some (Rfalse, st) \<Rightarrow> enc_error ''callback error'' st
             | Some (Rtrue _, st) \<Rightarrow> Some (Rtrue (), st))
          else Some (Rtrue (), st))"

definition encode_field ::
  "nat \<Rightarrow> 'o enc_env \<Rightarrow> (pb_field list \<Rightarrow> addr \<Rightarrow> 'o ost \<Rightarrow> (unit, 'o ost) cres) \<Rightarrow>
   pb_field \<Rightarrow> addr \<Rightarrow> 'o ost \<Rightarrow> (unit, 'o ost) cres" where
  "encode_field n env enc field pd st =
     (if atype field = PB_ATYPE_STATIC \<or> atype field = PB_ATYPE_POINTER
      then encode_basic_field n enc field pd st
      else if atype field = PB_ATYPE_CALLBACK then encode_callback_field env field pd st
      else enc_error ''invalid field type'' st)"

end
