(* ===== verification/Encode.thy ===== *)
theory Encode
  imports EncodeField
begin

text \<open>
  Extensions and the message encoder of \<open>pb_encode.c\<close>. The fuel bounds the nesting of
  submessages and the length of the chains of extensions.
\<close>

section \<open>Extensions\<close>

definition default_extension_encoder ::
  "nat \<Rightarrow> 'o enc_env \<Rightarrow> (pb_field list \<Rightarrow> addr \<Rightarrow> 'o ost \<Rightarrow> (unit, 'o ost) cres) \<Rightarrow>
   uint64_t \<Rightarrow> 'o ost \<Rightarrow> (unit, 'o ost) cres" where
  "default_extension_encoder n env enc ext st =
     (case ext_type_of (enc_extension_type_at env) (snd st) ext of None \<Rightarrow> None
      | Some et \<Rightarrow>
          let field = et_arg et
          in if atype field = PB_ATYPE_POINTER then encode_field n env enc field (uint ext + 8) st
             else Option.bind (ext_dest (snd st) ext) (\<lambda>d. encode_field n env enc field (uint d) st))"

text \<open>The loop of \<open>encode_extension_field\<close> over the chain.\<close>

primrec encode_extension_loop ::
  "nat \<Rightarrow> 'o enc_env \<Rightarrow> (uint64_t \<Rightarrow> 'o ost \<Rightarrow> (unit, 'o ost) cres) \<Rightarrow> uint64_t \<Rightarrow> 'o ost \<Rightarrow>
   (unit, 'o ost) cres" where
  "encode_extension_loop 0 env dflt ext st = None"
| "encode_extension_loop (Suc n) env dflt ext st =
     (if ext \<noteq> 0 then
        (case ext_type_of (enc_extension_type_at env) (snd st) ext of None \<Rightarrow> None
         | Some et \<Rightarrow>
             chk (if et_encode et \<noteq> 0 then run_extension_encode env (et_encode et) ext st
                  else dflt ext st)
               (\<lambda>_ st. Option.bind (ext_next (snd st) ext)
                  (\<lambda>nxt. encode_extension_loop n env dflt nxt st)))
      else Some (Rtrue (), st))"

definition encode_extension_field ::
  "nat \<Rightarrow> 'o enc_env \<Rightarrow> (pb_field list \<Rightarrow> addr \<Rightarrow> 'o ost \<Rightarrow> (unit, 'o ost) cres) \<Rightarrow>
   addr \<Rightarrow> 'o ost \<Rightarrow> (unit, 'o ost) cres" where
  "encode_extension_field n env enc pd st =
     Option.bind (load_ptr (snd st) pd)
       (\<lambda>ext. encode_extension_loop n env (default_extension_encoder n env enc) ext st)"

section \<open>Messages\<close>

text \<open>The loop of \<open>pb_encode\<close> over the fields.\<close>

primrec encode_loop ::
  "nat \<Rightarrow> (pb_field \<Rightarrow> addr \<Rightarrow> 'o ost \<Rightarrow> (unit, 'o ost) cres) \<Rightarrow>
   (addr \<Rightarrow> 'o ost \<Rightarrow> (unit, 'o ost) cres) \<Rightarrow> pb_field_iter \<Rightarrow> 'o ost \<Rightarrow> (unit, 'o ost) cres" where
  "encode_loop 0 enc_field enc_extension iter st = None"
| "encode_loop (Suc n) enc_field enc_extension iter st =
     (case iter_field iter of None \<Rightarrow> None
      | Some field \<Rightarrow>
          chk (if ltype field = PB_LTYPE_EXTENSION then enc_extension (pData iter) st
               else enc_field field (pData iter) st)
            (\<lambda>_ st. case pb_field_iter_next iter of None \<Rightarrow> None
               | Some (again, iter) \<Rightarrow>
                   if again then encode_loop n enc_field enc_extension iter st
                   else Some (Rtrue (), st)))"

primrec pb_encode ::
  "nat \<Rightarrow> 'o enc_env \<Rightarrow> pb_field list \<Rightarrow> addr \<Rightarrow> 'o ost \<Rightarrow> (unit, 'o ost) cres" where
  "pb_encode 0 env flds src st = None"
| "pb_encode (Suc n) env flds src st =
     (case pb_field_iter_begin flds src of None \<Rightarrow> None
      | Some (nonempty, iter) \<Rightarrow>
          if \<not> nonempty then Some (Rtrue (), st)
          else encode_loop (length flds) (encode_field n env (pb_encode n env))
                 (encode_extension_field n env (pb_encode n env)) iter st)"

definition pb_encode_delimited ::
  "nat \<Rightarrow> 'o enc_env \<Rightarrow> pb_field list \<Rightarrow> addr \<Rightarrow> 'o ost \<Rightarrow> (unit, 'o ost) cres" where
  "pb_encode_delimited n env flds src st = pb_encode_submessage (pb_encode n env) flds src st"

text \<open>The size, and the memory after the callbacks ran.\<close>

definition pb_get_encoded_size ::
  "nat \<Rightarrow> 'o enc_env \<Rightarrow> pb_field list \<Rightarrow> addr \<Rightarrow> mem \<Rightarrow> (size_t, mem) cres" where
  "pb_get_encoded_size n env flds src m =
     (case pb_encode n env flds src (PB_OSTREAM_SIZING, m) of None \<Rightarrow> None
      | Some (Rfalse, (_, m)) \<Rightarrow> Some (Rfalse, m)
      | Some (Rtrue _, (stream, m)) \<Rightarrow> Some (Rtrue (bytes_written stream), m))"

end
