(* ===== verification/LdbCoding.thy ===== *)
theory LdbCoding
  imports VarintFormat "HOL-Library.List_Lexorder"
begin

text \<open>
  LevelDB's \<open>util/coding.h\<close> and \<open>util/coding.cc\<close> and the comparison of
  \<open>include/leveldb/slice.h\<close>. A slice is the list of its bytes, and a pair of pointers
  \<open>p\<close>, \<open>limit\<close> the list of the bytes between them; a function that advances the pointer
  returns the rest of the list. A \<open>std::string\<close> is a list that the \<open>Put\<close> functions
  append to. Reading fixed-width integers past the end of an object is undefined (\<open>None\<close>).

  The functions are related to the grammar and the bytes of \<open>VarintFormat\<close>, which nanopb's
  varints have as well, and to \<open>le_bytes\<close>.
\<close>

section \<open>Fixed-width integers\<close>

text \<open>The platform constant of \<open>port/port_posix.h\<close> on the target.\<close>

definition kLittleEndian :: bool where
  "kLittleEndian = True"

definition EncodeFixed32 :: "uint32_t \<Rightarrow> pb_byte_t list" where
  "EncodeFixed32 value =
     (if kLittleEndian then le_bytes 4 value
      else [ucast (value AND 0xff), ucast (drop_bit 8 value AND 0xff),
        ucast (drop_bit 16 value AND 0xff), ucast (drop_bit 24 value AND 0xff)])"

definition EncodeFixed64 :: "uint64_t \<Rightarrow> pb_byte_t list" where
  "EncodeFixed64 value =
     (if kLittleEndian then le_bytes 8 value
      else [ucast (value AND 0xff), ucast (drop_bit 8 value AND 0xff),
        ucast (drop_bit 16 value AND 0xff), ucast (drop_bit 24 value AND 0xff),
        ucast (drop_bit 32 value AND 0xff), ucast (drop_bit 40 value AND 0xff),
        ucast (drop_bit 48 value AND 0xff), ucast (drop_bit 56 value AND 0xff)])"

definition PutFixed32 :: "pb_byte_t list \<Rightarrow> uint32_t \<Rightarrow> pb_byte_t list" where
  "PutFixed32 dst value = dst @ EncodeFixed32 value"

definition PutFixed64 :: "pb_byte_t list \<Rightarrow> uint64_t \<Rightarrow> pb_byte_t list" where
  "PutFixed64 dst value = dst @ EncodeFixed64 value"

definition DecodeFixed32 :: "pb_byte_t list \<Rightarrow> uint32_t option" where
  "DecodeFixed32 p =
     (if length p < 4 then None
      else if kLittleEndian then Some (le_word (take 4 p))
      else Some (ucast (p ! 0) OR push_bit 8 (ucast (p ! 1)) OR push_bit 16 (ucast (p ! 2)) OR
        push_bit 24 (ucast (p ! 3))))"

definition DecodeFixed64 :: "pb_byte_t list \<Rightarrow> uint64_t option" where
  "DecodeFixed64 p =
     (if length p < 8 then None
      else if kLittleEndian then Some (le_word (take 8 p))
      else case (DecodeFixed32 p, DecodeFixed32 (drop 4 p)) of
          (Some lo, Some hi) \<Rightarrow> Some (push_bit 32 (ucast hi) OR ucast lo)
        | _ \<Rightarrow> None)"

section \<open>Varints\<close>

definition EncodeVarint32 :: "uint32_t \<Rightarrow> pb_byte_t list" where
  "EncodeVarint32 v =
     (let B = 128 in
      if v < push_bit 7 1 then [ucast v]
      else if v < push_bit 14 1 then [ucast (v OR B), ucast (drop_bit 7 v)]
      else if v < push_bit 21 1
      then [ucast (v OR B), ucast (drop_bit 7 v OR B), ucast (drop_bit 14 v)]
      else if v < push_bit 28 1
      then [ucast (v OR B), ucast (drop_bit 7 v OR B), ucast (drop_bit 14 v OR B),
        ucast (drop_bit 21 v)]
      else [ucast (v OR B), ucast (drop_bit 7 v OR B), ucast (drop_bit 14 v OR B),
        ucast (drop_bit 21 v OR B), ucast (drop_bit 28 v)])"

definition PutVarint32 :: "pb_byte_t list \<Rightarrow> uint32_t \<Rightarrow> pb_byte_t list" where
  "PutVarint32 dst v = dst @ EncodeVarint32 v"

function EncodeVarint64 :: "uint64_t \<Rightarrow> pb_byte_t list" where
  "EncodeVarint64 v =
     (if v \<ge> 128 then ucast ((v AND (128 - 1)) OR 128) # EncodeVarint64 (drop_bit 7 v) else [ucast v])"
  by pat_completeness auto
termination
  by (relation "measure unat") (auto simp: word_le_nat_alt word_less_nat_alt drop_bit_eq_div unat_div)

declare EncodeVarint64.simps [simp del]

definition PutVarint64 :: "pb_byte_t list \<Rightarrow> uint64_t \<Rightarrow> pb_byte_t list" where
  "PutVarint64 dst v = dst @ EncodeVarint64 v"

definition PutLengthPrefixedSlice :: "pb_byte_t list \<Rightarrow> pb_byte_t list \<Rightarrow> pb_byte_t list" where
  "PutLengthPrefixedSlice dst value = PutVarint32 dst (of_nat (length value)) @ value"

function VarintLength_loop :: "int \<Rightarrow> uint64_t \<Rightarrow> int" where
  "VarintLength_loop len v =
     (if v \<ge> 128 then VarintLength_loop (len + 1) (drop_bit 7 v) else len)"
  by pat_completeness auto
termination
  by (relation "measure (\<lambda>(len, v). unat v)")
    (auto simp: word_le_nat_alt word_less_nat_alt drop_bit_eq_div unat_div)

declare VarintLength_loop.simps [simp del]

definition VarintLength :: "uint64_t \<Rightarrow> int" where
  "VarintLength v = VarintLength_loop 1 v"

fun GetVarint32PtrFallback_loop ::
  "uint32_t \<Rightarrow> uint32_t \<Rightarrow> pb_byte_t list \<Rightarrow> (uint32_t \<times> pb_byte_t list) option" where
  "GetVarint32PtrFallback_loop shift result [] = None"
| "GetVarint32PtrFallback_loop shift result (b # p) =
     (if shift \<le> 28 then
        let byte = ucast b
        in if byte AND 128 \<noteq> 0
           then GetVarint32PtrFallback_loop (shift + 7)
                  (result OR push_bit (unat shift) (byte AND 127)) p
           else Some (result OR push_bit (unat shift) byte, p)
      else None)"

definition GetVarint32PtrFallback :: "pb_byte_t list \<Rightarrow> (uint32_t \<times> pb_byte_t list) option" where
  "GetVarint32PtrFallback p = GetVarint32PtrFallback_loop 0 0 p"

definition GetVarint32Ptr :: "pb_byte_t list \<Rightarrow> (uint32_t \<times> pb_byte_t list) option" where
  "GetVarint32Ptr p =
     (case p of
        b # q \<Rightarrow> let result = ucast b in
          if result AND 128 = 0 then Some (result, q) else GetVarint32PtrFallback p
      | [] \<Rightarrow> GetVarint32PtrFallback p)"

definition GetVarint32 :: "pb_byte_t list \<Rightarrow> (uint32_t \<times> pb_byte_t list) option" where
  "GetVarint32 input = (case GetVarint32Ptr input of None \<Rightarrow> None | Some (v, q) \<Rightarrow> Some (v, q))"

fun GetVarint64Ptr_loop ::
  "uint32_t \<Rightarrow> uint64_t \<Rightarrow> pb_byte_t list \<Rightarrow> (uint64_t \<times> pb_byte_t list) option" where
  "GetVarint64Ptr_loop shift result [] = None"
| "GetVarint64Ptr_loop shift result (b # p) =
     (if shift \<le> 63 then
        let byte = ucast b
        in if byte AND 128 \<noteq> 0
           then GetVarint64Ptr_loop (shift + 7) (result OR push_bit (unat shift) (byte AND 127)) p
           else Some (result OR push_bit (unat shift) byte, p)
      else None)"

definition GetVarint64Ptr :: "pb_byte_t list \<Rightarrow> (uint64_t \<times> pb_byte_t list) option" where
  "GetVarint64Ptr p = GetVarint64Ptr_loop 0 0 p"

definition GetVarint64 :: "pb_byte_t list \<Rightarrow> (uint64_t \<times> pb_byte_t list) option" where
  "GetVarint64 input = (case GetVarint64Ptr input of None \<Rightarrow> None | Some (v, q) \<Rightarrow> Some (v, q))"

text \<open>The version on pointers, and the one on slices, which returns the slice and what follows.\<close>

definition GetLengthPrefixedSlicePtr ::
  "pb_byte_t list \<Rightarrow> (pb_byte_t list \<times> pb_byte_t list) option" where
  "GetLengthPrefixedSlicePtr p =
     (case GetVarint32Ptr p of None \<Rightarrow> None
      | Some (len, p) \<Rightarrow>
          if unat len > length p then None else Some (take (unat len) p, drop (unat len) p))"

definition GetLengthPrefixedSlice ::
  "pb_byte_t list \<Rightarrow> (pb_byte_t list \<times> pb_byte_t list) option" where
  "GetLengthPrefixedSlice input =
     (case GetVarint32 input of None \<Rightarrow> None
      | Some (len, input) \<Rightarrow>
          if length input \<ge> unat len then Some (take (unat len) input, drop (unat len) input)
          else None)"

section \<open>Slices\<close>

text \<open>\<open>memcmp\<close>: the sign of the first difference, as unsigned bytes.\<close>

fun memcmp :: "pb_byte_t list \<Rightarrow> pb_byte_t list \<Rightarrow> nat \<Rightarrow> int" where
  "memcmp (x # xs) (y # ys) (Suc n) =
     (if x < y then -1 else if y < x then 1 else memcmp xs ys n)"
| "memcmp xs ys n = 0"

definition Slice_compare :: "pb_byte_t list \<Rightarrow> pb_byte_t list \<Rightarrow> int" where
  "Slice_compare a b =
     (let min_len = (if length a < length b then length a else length b);
          r = memcmp a b min_len
      in if r = 0 then if length a < length b then -1 else if length a > length b then 1 else r
         else r)"

definition starts_with :: "pb_byte_t list \<Rightarrow> pb_byte_t list \<Rightarrow> bool" where
  "starts_with a x \<longleftrightarrow> length a \<ge> length x \<and> memcmp a x (length x) = 0"

definition Slice_eq :: "pb_byte_t list \<Rightarrow> pb_byte_t list \<Rightarrow> bool" where
  "Slice_eq x y \<longleftrightarrow> length x = length y \<and> memcmp x y (length x) = 0"

section \<open>What the functions compute\<close>

lemma mask_byte [simp]: "ucast (w AND 0xff) = (ucast (w :: 'a::len word) :: pb_byte_t)"
proof -
  have "w AND 0xff = take_bit 8 w" by (simp add: take_bit_eq_mask mask_eq_exp_minus_1)
  moreover have "ucast (take_bit 8 w) = (ucast w :: pb_byte_t)"
    by (rule bit_word_eqI) (auto simp: bit_simps)
  ultimately show ?thesis by simp
qed

text \<open>Both branches on the byte order of the platform give the same bytes.\<close>

lemma EncodeFixed32_bytes: "EncodeFixed32 v = le_bytes 4 v"
  by (simp add: EncodeFixed32_def le_bytes_4)

lemma EncodeFixed64_bytes: "EncodeFixed64 v = le_bytes 8 v"
  by (simp add: EncodeFixed64_def le_bytes_8)

lemma DecodeFixed32_bytes: "DecodeFixed32 (le_bytes 4 v @ rest) = Some v"
  by (simp add: DecodeFixed32_def kLittleEndian_def byte_simps)

lemma DecodeFixed64_bytes: "DecodeFixed64 (le_bytes 8 v @ rest) = Some v"
  by (simp add: DecodeFixed64_def kLittleEndian_def byte_simps)

lemma DecodeFixed32_Some: "4 \<le> length p \<Longrightarrow> DecodeFixed32 p = Some (le_word (take 4 p))"
  by (simp add: DecodeFixed32_def kLittleEndian_def)

lemma DecodeFixed64_Some: "8 \<le> length p \<Longrightarrow> DecodeFixed64 p = Some (le_word (take 8 p))"
  by (simp add: DecodeFixed64_def kLittleEndian_def)

lemma length_EncodeFixed [simp]: "length (EncodeFixed32 v) = 4" "length (EncodeFixed64 w) = 8"
  by (simp_all add: EncodeFixed32_bytes EncodeFixed64_bytes)

lemma EncodeVarint64_bytes: "EncodeVarint64 v = varint_bytes v"
proof (induction v rule: varint_bytes.induct)
  case (1 v)
  have "v \<ge> 128 \<longleftrightarrow> \<not> v \<le> 0x7F"
    by (simp add: word_le_nat_alt not_le Suc_le_eq [symmetric])
  with 1 show ?case by (simp add: EncodeVarint64.simps [of v] varint_bytes.simps [of v])
qed

lemma drop_ucast32: "drop_bit n (ucast (v :: uint32_t) :: uint64_t) = ucast (drop_bit n v)"
  by (rule bit_word_eqI) (auto simp: bit_simps dest: bit_imp_le_length)

lemma ucast32_le_7F:
  "n \<le> 21 \<Longrightarrow> (ucast (drop_bit n (v :: uint32_t)) :: uint64_t) \<le> 0x7F \<longleftrightarrow> v < push_bit (n + 7) 1"
proof -
  assume n: "n \<le> 21"
  have p: "unat (push_bit (n + 7) 1 :: uint32_t) = 2 ^ n * 128"
    using n unat_2_power [of "n + 7", where 'a = 32] by (simp add: push_bit_eq_mult power_add)
  have "(ucast (drop_bit n v) :: uint64_t) \<le> 0x7F \<longleftrightarrow> unat v div 2 ^ n < 128"
    using n by (auto simp: word_le_nat_alt unat_drop_bit)
  also have "\<dots> \<longleftrightarrow> unat v < 128 * 2 ^ n" by (simp add: div_less_iff_less_mult)
  finally show ?thesis using p by (simp add: word_less_nat_alt mult.commute)
qed

lemma ucast_more_byte:
  "ucast ((ucast v AND 0x7F :: uint64_t) OR 0x80) = (ucast (v OR 128 :: uint32_t) :: pb_byte_t)"
  by (rule byte_eqI, elim insertE) (simp_all add: bit_simps)

lemma EncodeVarint32_bytes: "EncodeVarint32 v = varint_bytes (ucast v)"
proof -
  have le: "(ucast v :: uint64_t) \<le> 0x7F \<longleftrightarrow> v < push_bit 7 1"
    "(ucast (drop_bit 7 v) :: uint64_t) \<le> 0x7F \<longleftrightarrow> v < push_bit 14 1"
    "(ucast (drop_bit 14 v) :: uint64_t) \<le> 0x7F \<longleftrightarrow> v < push_bit 21 1"
    "(ucast (drop_bit 21 v) :: uint64_t) \<le> 0x7F \<longleftrightarrow> v < push_bit 28 1"
    using ucast32_le_7F [of 0 v] ucast32_le_7F [of 7 v] ucast32_le_7F [of 14 v] ucast32_le_7F [of 21 v]
    by simp_all
  have b: "(ucast (ucast w :: uint64_t) :: pb_byte_t) = ucast (w :: uint32_t)" for w
    by (rule bit_word_eqI) (auto simp: bit_simps dest: bit_imp_le_length)
  have last: "(ucast (drop_bit 28 v) :: uint64_t) \<le> 0x7F"
    using unsigned_less [of v, where 'a = nat] by (simp add: word_le_nat_alt unat_drop_bit)
  note step = varint_bytes.simps [of "ucast w" for w :: uint32_t, unfolded drop_ucast32 ucast_more_byte b]
  have "varint_bytes (ucast (drop_bit 28 v)) = [ucast (drop_bit 28 v)]"
    using last by (simp only: step [of "drop_bit 28 v"]) simp
  moreover have "varint_bytes (ucast (drop_bit n v)) =
      (if (ucast (drop_bit n v) :: uint64_t) \<le> 0x7F then [ucast (drop_bit n v)]
       else ucast (drop_bit n v OR 128) # varint_bytes (ucast (drop_bit (n + 7) v)))" for n
    by (simp only: step [of "drop_bit n v"] drop_bit_drop_bit add.commute [of 7])
  note this [of 0] this [of 7] this [of 14] this [of 21]
  ultimately show ?thesis
    unfolding EncodeVarint32_def Let_def using le by (simp split del: if_split cong: if_cong, simp)
qed

lemma length_EncodeVarint32: "length (EncodeVarint32 v) \<le> 5"
  by (simp add: EncodeVarint32_def Let_def)

lemma VarintLength_bytes: "VarintLength v = int (length (varint_bytes v))"
proof -
  have "VarintLength_loop len v = len + int (length (varint_bytes v)) - 1" for len
  proof (induction v arbitrary: len rule: varint_bytes.induct)
    case (1 v)
    have "v \<ge> 128 \<longleftrightarrow> \<not> v \<le> 0x7F"
      by (simp add: word_le_nat_alt not_le Suc_le_eq [symmetric])
    with 1 show ?case by (simp add: VarintLength_loop.simps [of len v] varint_bytes.simps [of v])
  qed
  then show ?thesis by (simp add: VarintLength_def)
qed

text \<open>The loops of the readers, against the grammar.\<close>

lemma ucast_and_128:
  "(ucast (b :: pb_byte_t) AND 128 = (0 :: 'a::len word)) \<longleftrightarrow> b AND 0x80 = 0" if "8 \<le> LENGTH('a)"
proof -
  have "(ucast b AND 128 :: 'a word) = ucast (b AND 0x80)"
    using that by (intro bit_word_eqI) (auto simp: bit_simps dest: bit_imp_le_length)
  moreover have "(ucast c = (0 :: 'a word)) \<longleftrightarrow> c = 0" for c :: pb_byte_t
    using that bit_imp_le_length [of c]
    by (auto simp: bit_eq_iff bit_simps) (meson less_le_trans)
  ultimately show ?thesis by simp
qed

lemma ucast_and_127: "(ucast (b :: pb_byte_t) AND 127 :: 'a::len word) = ucast (b AND 0x7F)"
  if "8 \<le> LENGTH('a)"
  using that bit_imp_le_length [of b] by (intro bit_word_eqI) (auto simp: bit_simps)

text \<open>
  A loop over the bytes with a shift that grows by seven, up to a last shift: the interface of the
  two readers. It takes at most \<open>groups\<close> bytes and follows the grammar.
\<close>

locale shift_loop =
  fixes loop :: "uint32_t \<Rightarrow> 'w::len word \<Rightarrow> pb_byte_t list \<Rightarrow> ('w word \<times> pb_byte_t list) option"
    and last_shift :: uint32_t
    and groups :: nat
  assumes loop_Nil: "loop shift result [] = None"
    and loop_Cons: "loop shift result (b # p) =
      (if shift \<le> last_shift then
         let byte = ucast b
         in if byte AND 128 \<noteq> 0 then loop (shift + 7) (result OR push_bit (unat shift) (byte AND 127)) p
            else Some (result OR push_bit (unat shift) byte, p)
       else None)"
    and last_groups: "7 * (groups - 1) \<le> unat last_shift" "unat last_shift < 7 * groups" "groups \<le> 10"
    and byte_width: "8 \<le> LENGTH('w)"
begin

lemma loop_spec:
  "unat shift = 7 * j \<Longrightarrow> j \<le> groups \<Longrightarrow>
   loop shift result p =
     (case split_varint p of
        Some (g, rest) \<Rightarrow>
          if j + length g \<le> groups then Some (result OR push_bit (7 * j) (groups_word g), rest) else None
      | None \<Rightarrow> None)"
proof (induction p arbitrary: shift result j)
  case Nil
  then show ?case by (simp add: loop_Nil)
next
  case (Cons b p)
  show ?case
  proof (cases "j = groups")
    case True
    then have "\<not> shift \<le> last_shift" using Cons.prems last_groups by (simp add: word_le_nat_alt)
    then show ?thesis using True by (auto simp: loop_Cons split: option.splits)
  next
    case False
    then have le: "shift \<le> last_shift" and j: "Suc j \<le> groups"
      using Cons.prems last_groups by (auto simp: word_le_nat_alt)
    have "unat (shift + 7) = 7 * Suc j" using Cons.prems last_groups by (simp add: unat_word_ariths)
    note IH = Cons.IH [OF this j]
    show ?thesis
    proof (cases "b AND 0x80 = 0")
      case True
      then show ?thesis using le j Cons.prems byte_width by (simp add: loop_Cons ucast_and_128 byte_low7)
    next
      case more: False
      have "push_bit (7 * j) (groups_word (b # g) :: 'w word) =
          push_bit (7 * j) (ucast (b AND 0x7F)) OR push_bit (7 * Suc j) (groups_word g)" for g
        by (simp only: push_groups_Cons) (simp add: add.commute)
      then show ?thesis using le j more Cons.prems(1) IH byte_width
        by (auto simp: loop_Cons ucast_and_128 ucast_and_127 or.assoc simp del: groups_word.simps
            split: option.splits)
    qed
  qed
qed

lemma loop_prefix: "loop 0 0 p = varint_prefix groups p"
  using loop_spec [of 0 0] by (auto simp: varint_prefix_def split: option.splits)

end

interpretation get32: shift_loop GetVarint32PtrFallback_loop 28 5
  by unfold_locales simp_all

interpretation get64: shift_loop GetVarint64Ptr_loop 63 10
  by unfold_locales simp_all

lemma GetVarint32Ptr_spec: "GetVarint32Ptr p = varint_prefix 5 p"
proof -
  have "varint_prefix 5 (b # q) = Some (ucast b :: uint32_t, q)" if "b AND 0x80 = 0" for b q
    using that by (simp add: varint_prefix_def byte_low7)
  then show ?thesis
    by (auto simp: GetVarint32Ptr_def GetVarint32PtrFallback_def get32.loop_prefix ucast_and_128 Let_def
        simp del: GetVarint32PtrFallback_loop.simps split: list.splits)
qed

lemma GetVarint_spec: "GetVarint32 p = varint_prefix 5 p" "GetVarint64 p = varint_prefix 10 p"
  by (auto simp: GetVarint32_def GetVarint64_def GetVarint64Ptr_def GetVarint32Ptr_spec get64.loop_prefix
      split: option.splits)

lemma ucast_ucast32 [simp]: "(ucast (ucast (v :: uint32_t) :: uint64_t) :: uint32_t) = v"
  using bit_imp_le_length [of v] by (intro bit_word_eqI) (auto simp: bit_simps)

lemma varint_prefix_Encode32: "varint_prefix 5 (EncodeVarint32 v @ xs) = Some (v, xs)"
proof -
  let ?v = "ucast v :: uint64_t"
  have "length (varint_bytes ?v) \<le> 5" using length_EncodeVarint32 [of v] by (simp add: EncodeVarint32_bytes)
  moreover have "(groups_word (varint_bytes ?v) :: uint32_t) = v"
    using ucast_groups_word [of "varint_bytes ?v", where 'a = 32 and 'b = 64]
    by (simp add: groups_varint_bytes)
  ultimately show ?thesis by (simp add: varint_prefix_def EncodeVarint32_bytes split_varint_bytes)
qed

lemma GetVarint_written:
  "GetVarint32 (EncodeVarint32 v @ xs) = Some (v, xs)" "GetVarint64 (EncodeVarint64 w @ xs) = Some (w, xs)"
  by (simp_all add: GetVarint_spec varint_prefix_Encode32 EncodeVarint64_bytes varint_prefix_bytes varint_bytes_le_10)

lemma GetLengthPrefixedSlice_Put:
  assumes "length value < 2 ^ 32"
  shows "GetLengthPrefixedSlice (PutVarint32 [] (of_nat (length value)) @ value @ rest) = Some (value, rest)"
proof -
  have "unat (of_nat (length value) :: uint32_t) = length value"
    using assms by (simp add: unat_of_nat take_bit_nat_eq_self)
  then show ?thesis
    by (simp add: GetLengthPrefixedSlice_def PutVarint32_def GetVarint_written)
qed

lemma GetLengthPrefixedSlice_written [simp]:
  "length s < 2 ^ 32 \<Longrightarrow> GetLengthPrefixedSlice (PutLengthPrefixedSlice [] s @ rest) = Some (s, rest)"
  using GetLengthPrefixedSlice_Put [of s rest] by (simp add: PutLengthPrefixedSlice_def)

lemma GetVarint_shorter:
  "GetVarint32 p = Some (v, rest) \<Longrightarrow> length rest < length p"
  "GetVarint64 p = Some (w, rest) \<Longrightarrow> length rest < length p"
  by (simp_all add: GetVarint_spec varint_prefix_shorter)

lemma GetLengthPrefixedSlice_shorter:
  "GetLengthPrefixedSlice input = Some (s, rest) \<Longrightarrow> length rest < length input"
  by (auto simp: GetLengthPrefixedSlice_def split: option.splits if_splits dest!: GetVarint_shorter(1))

lemma GetLengthPrefixedSlicePtr_eq: "GetLengthPrefixedSlicePtr = GetLengthPrefixedSlice"
  by (auto simp: fun_eq_iff GetLengthPrefixedSlicePtr_def GetLengthPrefixedSlice_def GetVarint32_def
      not_le split: option.splits)

section \<open>Slices are compared lexicographically\<close>

lemma Slice_compare_simps [simp]:
  "Slice_compare [] [] = 0" "Slice_compare [] (y # ys) = -1" "Slice_compare (x # xs) [] = 1"
  "Slice_compare (x # xs) (y # ys) = (if x < y then -1 else if y < x then 1 else Slice_compare xs ys)"
  by (auto simp: Slice_compare_def Let_def)

lemma Slice_compare_order: "Slice_compare a b = (if a < b then -1 else if b < a then 1 else 0)"
proof (induction a arbitrary: b)
  case Nil
  then show ?case by (cases b) simp_all
next
  case (Cons x a)
  then show ?case by (cases b) auto
qed

lemma memcmp_0: "n \<le> length a \<Longrightarrow> n \<le> length b \<Longrightarrow> memcmp a b n = 0 \<longleftrightarrow> take n a = take n b"
  by (induction a b n rule: memcmp.induct) (auto simp: antisym_conv3)

lemma starts_with_prefix: "starts_with a x \<longleftrightarrow> (\<exists>b. a = x @ b)"
  unfolding starts_with_def
  by (metis append_eq_conv_conj append_take_drop_id le_add1 length_append memcmp_0 order_refl take_all)

lemma Slice_eq_iff: "Slice_eq x y \<longleftrightarrow> x = y"
  unfolding Slice_eq_def by (metis memcmp_0 order_refl take_all)

lemma fold_PutFixed32: "fold (\<lambda>off r. PutFixed32 r off) os r = r @ concat (map EncodeFixed32 os)"
  by (induction os arbitrary: r) (simp_all add: PutFixed32_def)

end
