(* ===== verification/LdbOrder.thy ===== *)
theory LdbOrder
  imports Main
begin

text \<open>
  What LevelDB's containers need of the comparison of their keys: \<open>None\<close> is an undefined
  comparison, and on the valid keys it is a total order up to keys that compare equal. The skip
  list, blocks and merging iterators are proved for every such order.
\<close>

definition before :: "('k \<Rightarrow> 'k \<Rightarrow> int option) \<Rightarrow> 'k \<Rightarrow> 'k \<Rightarrow> bool" where
  "before cmp a b \<longleftrightarrow> (case cmp a b of None \<Rightarrow> False | Some r \<Rightarrow> r < 0)"

locale key_order =
  fixes cmp :: "'k \<Rightarrow> 'k \<Rightarrow> int option" and valid :: "'k \<Rightarrow> bool"
  assumes cmp_sym: "valid a \<Longrightarrow> valid b \<Longrightarrow>
      \<exists>r s. cmp a b = Some r \<and> cmp b a = Some s \<and> sgn r = - sgn s"
    and cmp_trans: "valid a \<Longrightarrow> valid b \<Longrightarrow> valid d \<Longrightarrow>
      cmp a b = Some r \<Longrightarrow> r \<le> 0 \<Longrightarrow> cmp b d = Some s \<Longrightarrow> s \<le> 0 \<Longrightarrow>
      \<exists>t. cmp a d = Some t \<and> t \<le> 0 \<and> (t = 0 \<longrightarrow> r = 0 \<and> s = 0)"
begin

lemma before_total: "valid a \<Longrightarrow> valid b \<Longrightarrow> cmp a b = Some r \<Longrightarrow> before cmp a b = (r < 0)"
  by (simp add: before_def)

lemma before_trans: "valid a \<Longrightarrow> valid b \<Longrightarrow> valid d \<Longrightarrow> before cmp a b \<Longrightarrow> before cmp b d \<Longrightarrow> before cmp a d"
  using cmp_trans [of a b d] by (fastforce simp: before_def split: option.splits)

lemma not_before_trans:
  "valid a \<Longrightarrow> valid b \<Longrightarrow> valid d \<Longrightarrow> \<not> before cmp b a \<Longrightarrow> before cmp b d \<Longrightarrow> before cmp a d"
  using cmp_trans [of a b d] cmp_sym [of a b] by (fastforce simp: before_def sgn_if split: option.splits if_splits)

lemma before_not_trans:
  "valid a \<Longrightarrow> valid b \<Longrightarrow> valid d \<Longrightarrow> before cmp a b \<Longrightarrow> \<not> before cmp d b \<Longrightarrow> before cmp a d"
  using cmp_trans [of a b d] cmp_sym [of b d] by (fastforce simp: before_def sgn_if split: option.splits if_splits)

lemma cmp_Some: "valid a \<Longrightarrow> valid b \<Longrightarrow> \<exists>r. cmp a b = Some r \<and> before cmp a b = (r < 0)"
  using cmp_sym [of a b] by (auto simp: before_def)

end

end
