(* ===== verification/LdbComparator.thy ===== *)
theory LdbComparator
  imports LdbCoding LdbOrder
begin

text \<open>
  LevelDB's comparators: the interface of \<open>include/leveldb/comparator.h\<close> as a record of
  operations, \<open>BytewiseComparatorImpl\<close> of \<open>util/comparator.cc\<close>, and the internal keys of
  \<open>db/dbformat.h\<close> and \<open>db/dbformat.cc\<close> with their comparator, which wraps that of the
  user. \<open>None\<close> is a failed \<open>assert\<close> or an access outside the key.

  The locale \<open>comparator_contract\<close> has the laws that \<open>comparator.h\<close> asks for. It is
  interpreted on the bytewise comparator, and its sublocale shows that the internal comparator
  keeps the laws on keys of at least eight bytes for every user comparator that does.
\<close>

type_synonym slice = "pb_byte_t list"

record Comparator =
  Compare :: "slice \<Rightarrow> slice \<Rightarrow> int option"
  FindShortestSeparator :: "slice \<Rightarrow> slice \<Rightarrow> slice option"
  FindShortSuccessor :: "slice \<Rightarrow> slice option"

section \<open>The bytewise comparator\<close>

text \<open>The length of the common prefix.\<close>

function diff_loop :: "nat \<Rightarrow> nat \<Rightarrow> slice \<Rightarrow> slice \<Rightarrow> nat" where
  "diff_loop diff_index min_length st limit =
     (if diff_index < min_length \<and> st ! diff_index = limit ! diff_index
      then diff_loop (diff_index + 1) min_length st limit else diff_index)"
  by pat_completeness auto
termination
  by (relation "measure (\<lambda>(i, n, s, l). n - i)") auto

declare diff_loop.simps [simp del]

definition bytewise_FindShortestSeparator :: "slice \<Rightarrow> slice \<Rightarrow> slice option" where
  "bytewise_FindShortestSeparator st limit =
     (let min_length = min (length st) (length limit);
          diff_index = diff_loop 0 min_length st limit
      in if diff_index \<ge> min_length then Some st
         else let diff_byte = st ! diff_index
           in if diff_byte < 0xff \<and> uint diff_byte + 1 < uint (limit ! diff_index)
              then let st = take (diff_index + 1) (st[diff_index := diff_byte + 1])
                in if Slice_compare st limit < 0 then Some st else None
              else Some st)"

function successor_loop :: "nat \<Rightarrow> slice \<Rightarrow> slice" where
  "successor_loop i key =
     (if i < length key then
        let byte = key ! i
        in if byte \<noteq> 0xff then take (i + 1) (key[i := byte + 1]) else successor_loop (i + 1) key
      else key)"
  by pat_completeness auto
termination
  by (relation "measure (\<lambda>(i, key). length key - i)") auto

declare successor_loop.simps [simp del]

definition bytewise_FindShortSuccessor :: "slice \<Rightarrow> slice" where
  "bytewise_FindShortSuccessor key = successor_loop 0 key"

definition BytewiseComparator :: Comparator where
  "BytewiseComparator =
     \<lparr>Compare = (\<lambda>a b. Some (Slice_compare a b)),
      FindShortestSeparator = bytewise_FindShortestSeparator,
      FindShortSuccessor = (\<lambda>key. Some (bytewise_FindShortSuccessor key))\<rparr>"

section \<open>Internal keys\<close>

datatype ValueType = kTypeDeletion | kTypeValue

fun type_code :: "ValueType \<Rightarrow> pb_byte_t" where
  "type_code kTypeDeletion = 0"
| "type_code kTypeValue = 1"

definition kValueTypeForSeek :: ValueType where
  "kValueTypeForSeek = kTypeValue"

text \<open>\<open>static_cast<ValueType>(c)\<close>, a value of the enumeration for two codes only.\<close>

definition ValueType_of :: "pb_byte_t \<Rightarrow> ValueType option" where
  "ValueType_of c = (if c = 0 then Some kTypeDeletion else if c = 1 then Some kTypeValue else None)"

definition kMaxSequenceNumber :: uint64_t where
  "kMaxSequenceNumber = push_bit 56 1 - 1"

record ParsedInternalKey =
  user_key :: slice
  sequence :: uint64_t
  vtype :: ValueType

definition PackSequenceAndType :: "uint64_t \<Rightarrow> ValueType \<Rightarrow> uint64_t option" where
  "PackSequenceAndType seq t =
     (if seq \<le> kMaxSequenceNumber then Some (push_bit 8 seq OR ucast (type_code t)) else None)"

definition AppendInternalKey :: "slice \<Rightarrow> ParsedInternalKey \<Rightarrow> slice option" where
  "AppendInternalKey result key =
     map_option (PutFixed64 (result @ user_key key)) (PackSequenceAndType (sequence key) (vtype key))"

definition InternalKeyEncodingLength :: "ParsedInternalKey \<Rightarrow> nat" where
  "InternalKeyEncodingLength key = length (user_key key) + 8"

definition ExtractUserKey :: "slice \<Rightarrow> slice option" where
  "ExtractUserKey internal_key =
     (if length internal_key \<ge> 8 then Some (take (length internal_key - 8) internal_key) else None)"

definition ExtractValueType :: "slice \<Rightarrow> ValueType option" where
  "ExtractValueType internal_key =
     (if length internal_key \<ge> 8 then
        case DecodeFixed64 (drop (length internal_key - 8) internal_key) of None \<Rightarrow> None
        | Some num \<Rightarrow> ValueType_of (ucast (num AND 0xff))
      else None)"

text \<open>\<open>None\<close> is the result false.\<close>

definition ParseInternalKey :: "slice \<Rightarrow> ParsedInternalKey option" where
  "ParseInternalKey internal_key =
     (let n = length internal_key
      in if n < 8 then None
         else case DecodeFixed64 (drop (n - 8) internal_key) of None \<Rightarrow> None
              | Some num \<Rightarrow>
                  (case ValueType_of (ucast (num AND 0xff)) of None \<Rightarrow> None
                   | Some t \<Rightarrow> Some \<lparr>user_key = take (n - 8) internal_key, sequence = drop_bit 8 num,
                       vtype = t\<rparr>))"

definition internal_Compare :: "Comparator \<Rightarrow> slice \<Rightarrow> slice \<Rightarrow> int option" where
  "internal_Compare user akey bkey =
     (case (ExtractUserKey akey, ExtractUserKey bkey) of
        (Some ua, Some ub) \<Rightarrow>
          (case Compare user ua ub of None \<Rightarrow> None
           | Some r \<Rightarrow>
               if r = 0 then
                 (case (DecodeFixed64 (drop (length akey - 8) akey),
                        DecodeFixed64 (drop (length bkey - 8) bkey)) of
                    (Some anum, Some bnum) \<Rightarrow>
                      Some (if anum > bnum then -1 else if anum < bnum then 1 else r)
                  | _ \<Rightarrow> None)
               else Some r)
      | _ \<Rightarrow> None)"

text \<open>
  The common tail of the two functions that shorten a key, with the assertions on the result.
\<close>

definition key_less :: "(slice \<Rightarrow> slice \<Rightarrow> int option) \<Rightarrow> slice \<Rightarrow> slice \<Rightarrow> bool" where
  "key_less cmp a b = (case cmp a b of Some r \<Rightarrow> r < 0 | None \<Rightarrow> False)"

definition tack_on ::
  "Comparator \<Rightarrow> slice \<Rightarrow> slice \<Rightarrow> (slice \<Rightarrow> bool) \<Rightarrow> slice \<Rightarrow> slice option" where
  "tack_on user key user_part asserted tmp =
     (if length tmp < length user_part then
        case Compare user user_part tmp of None \<Rightarrow> None
        | Some r \<Rightarrow>
            if r < 0 then
              (case PackSequenceAndType kMaxSequenceNumber kValueTypeForSeek of None \<Rightarrow> None
               | Some num \<Rightarrow> let tmp = PutFixed64 tmp num
                   in if key_less (internal_Compare user) key tmp \<and> asserted tmp then Some tmp else None)
            else Some key
      else Some key)"

definition internal_FindShortestSeparator :: "Comparator \<Rightarrow> slice \<Rightarrow> slice \<Rightarrow> slice option" where
  "internal_FindShortestSeparator user st limit =
     (case (ExtractUserKey st, ExtractUserKey limit) of
        (Some user_start, Some user_limit) \<Rightarrow>
          Option.bind (FindShortestSeparator user user_start user_limit)
            (tack_on user st user_start (\<lambda>tmp. key_less (internal_Compare user) tmp limit))
      | _ \<Rightarrow> None)"

definition internal_FindShortSuccessor :: "Comparator \<Rightarrow> slice \<Rightarrow> slice option" where
  "internal_FindShortSuccessor user key =
     (case ExtractUserKey key of
        Some user_part \<Rightarrow>
          Option.bind (FindShortSuccessor user user_part)
            (tack_on user key user_part (\<lambda>tmp. True))
      | None \<Rightarrow> None)"

definition InternalKeyComparator :: "Comparator \<Rightarrow> Comparator" where
  "InternalKeyComparator user =
     \<lparr>Compare = internal_Compare user,
      FindShortestSeparator = internal_FindShortestSeparator user,
      FindShortSuccessor = internal_FindShortSuccessor user\<rparr>"

section \<open>Lookup keys\<close>

text \<open>\<open>LookupKey\<close>: the bytes from \<open>start_\<close>, and the length of the part before \<open>kstart_\<close>.\<close>

record LookupKey =
  lk_bytes :: slice
  lk_kstart :: nat

definition make_LookupKey :: "slice \<Rightarrow> uint64_t \<Rightarrow> LookupKey option" where
  "make_LookupKey ukey s =
     map_option (\<lambda>num.
       let klength = EncodeVarint32 (of_nat (length ukey + 8))
       in \<lparr>lk_bytes = klength @ ukey @ EncodeFixed64 num, lk_kstart = length klength\<rparr>)
       (PackSequenceAndType s kValueTypeForSeek)"

definition memtable_key :: "LookupKey \<Rightarrow> slice" where
  "memtable_key k = lk_bytes k"

definition lookup_internal_key :: "LookupKey \<Rightarrow> slice" where
  "lookup_internal_key k = drop (lk_kstart k) (lk_bytes k)"

definition lookup_user_key :: "LookupKey \<Rightarrow> slice" where
  "lookup_user_key k = take (length (lk_bytes k) - lk_kstart k - 8) (drop (lk_kstart k) (lk_bytes k))"

section \<open>The contract of a comparator\<close>

text \<open>
  On valid keys the comparison is a total order up to keys that compare equal; a separator of
  \<open>st < limit\<close> is a valid key in \<open>[st, limit)\<close> and leaves other keys alone; a short
  successor is not below its key. (That a separator leaves \<open>st\<close> alone when it is not below
  \<open>limit\<close> is how \<open>comparator.h\<close> is read here; the internal comparator relies on it.)
\<close>

locale comparator_contract =
  fixes c :: Comparator and valid :: "slice \<Rightarrow> bool"
  assumes compare_refl: "valid a \<Longrightarrow> Compare c a a = Some 0"
    and compare_sym: "valid a \<Longrightarrow> valid b \<Longrightarrow>
      \<exists>r s. Compare c a b = Some r \<and> Compare c b a = Some s \<and> sgn r = - sgn s"
    and compare_trans: "valid a \<Longrightarrow> valid b \<Longrightarrow> valid d \<Longrightarrow>
      Compare c a b = Some r \<Longrightarrow> r \<le> 0 \<Longrightarrow> Compare c b d = Some s \<Longrightarrow> s \<le> 0 \<Longrightarrow>
      \<exists>t. Compare c a d = Some t \<and> t \<le> 0 \<and> (t = 0 \<longrightarrow> r = 0 \<and> s = 0)"
    and separator: "valid a \<Longrightarrow> valid b \<Longrightarrow> key_less (Compare c) a b \<Longrightarrow>
      \<exists>d. FindShortestSeparator c a b = Some d \<and> valid d \<and> \<not> key_less (Compare c) d a \<and>
        key_less (Compare c) d b"
    and separator_other: "valid a \<Longrightarrow> valid b \<Longrightarrow> \<not> key_less (Compare c) a b \<Longrightarrow>
      FindShortestSeparator c a b = Some a"
    and successor: "valid a \<Longrightarrow>
      \<exists>d. FindShortSuccessor c a = Some d \<and> valid d \<and> \<not> key_less (Compare c) d a"

text \<open>Its comparison orders the valid keys.\<close>

sublocale comparator_contract \<subseteq> ordering: key_order "Compare c" valid
  by unfold_locales (blast intro: compare_sym compare_trans)+

section \<open>The bytewise comparator keeps it\<close>

lemma diff_loop_spec:
  "i \<le> n \<Longrightarrow> take i a = take i b \<Longrightarrow> n \<le> length a \<Longrightarrow> n \<le> length b \<Longrightarrow>
   (let d = diff_loop i n a b in d \<le> n \<and> take d a = take d b \<and> (d < n \<longrightarrow> a ! d \<noteq> b ! d))"
proof (induction i n a b rule: diff_loop.induct)
  case (1 i n a b)
  show ?case
  proof (cases "i < n \<and> a ! i = b ! i")
    case True
    then have "take (i + 1) a = take (i + 1) b" using "1.prems" by (simp add: take_Suc_conv_app_nth)
    from "1.IH" [OF True _ this "1.prems"(3,4)] True show ?thesis by (simp add: diff_loop.simps [of i])
  next
    case False
    then have "diff_loop i n a b = i" by (auto simp: diff_loop.simps [of i])
    then show ?thesis using False "1.prems" by (auto simp: Let_def)
  qed
qed

lemma append_less: "p @ a < p @ b \<longleftrightarrow> a < (b :: slice)"
  by (induction p) simp_all

lemma byte_Suc: "(x :: pb_byte_t) < 0xff \<Longrightarrow> uint (x + 1) = uint x + 1 \<and> x < x + 1"
  by (auto simp: word_less_def uint_word_ariths)

lemma byte_less_ff: "(x :: pb_byte_t) \<noteq> 0xff \<Longrightarrow> x < 0xff"
proof -
  have "(0xff :: pb_byte_t) = -1" by simp
  then show "x \<noteq> 0xff \<Longrightarrow> x < 0xff" using word_order.not_eq_extremum [of x] by metis
qed

lemma bytewise_separator:
  "\<exists>d. bytewise_FindShortestSeparator a b = Some d \<and> a \<le> d \<and> length d \<le> length a \<and>
     (a < b \<longrightarrow> d < b) \<and> (\<not> a < b \<longrightarrow> d = a)"
proof -
  define n d where "n = min (length a) (length b)" and "d = diff_loop 0 n a b"
  have n: "n \<le> length a" "n \<le> length b" by (simp_all add: n_def)
  have d: "d \<le> n" "take d a = take d b" "d < n \<Longrightarrow> a ! d \<noteq> b ! d"
    using diff_loop_spec [of 0 n a b] n by (simp_all add: Let_def d_def)
  note sep = bytewise_FindShortestSeparator_def [of a b, folded n_def, unfolded Let_def, folded d_def]
  show ?thesis
  proof (cases "d < n \<and> a ! d < 0xff \<and> uint (a ! d) + 1 < uint (b ! d)")
    case False
    then have "bytewise_FindShortestSeparator a b = Some a"
      by (auto simp: sep)
    then show ?thesis by simp
  next
    case True
    let ?p = "take d a" and ?x = "a ! d" and ?y = "b ! d"
    let ?new = "?p @ [?x + 1]"
    have ab: "a = ?p @ ?x # drop (Suc d) a" "b = ?p @ ?y # drop (Suc d) b"
      using True n d(2) id_take_nth_drop [of d a] id_take_nth_drop [of d b] by simp_all
    have x: "?x < ?x + 1" "?x + 1 < ?y" using byte_Suc [of ?x] True by (simp_all add: word_less_def)
    have less: "?new < b" "a < ?new" "a < b"
      using append_less [of ?p "[?x + 1]" "?y # drop (Suc d) b"]
        append_less [of ?p "?x # drop (Suc d) a" "[?x + 1]"]
        append_less [of ?p "?x # drop (Suc d) a" "?y # drop (Suc d) b"] ab x
      by (auto simp del: take_append append_take_drop_id)
    have "take (d + 1) (a[d := ?x + 1]) = ?new"
      using True n by (simp add: take_Suc_conv_app_nth)
    then have "bytewise_FindShortestSeparator a b = Some ?new"
      using True less by (simp add: sep Slice_compare_order)
    moreover have "length ?new \<le> length a" using True n by simp
    ultimately show ?thesis using less by auto
  qed
qed

lemma successor_loop_spec:
  "\<forall>j < i. key ! j = 0xff \<Longrightarrow> i \<le> length key \<Longrightarrow>
   key \<le> successor_loop i key \<and> length (successor_loop i key) \<le> length key"
proof (induction i key rule: successor_loop.induct)
  case (1 i key)
  show ?case
  proof (cases "i < length key")
    case False
    then show ?thesis by (simp add: successor_loop.simps [of i])
  next
    case i: True
    show ?thesis
    proof (cases "key ! i = 0xff")
      case True
      then show ?thesis
        using "1.IH" [OF i refl] "1.prems" i by (auto simp: successor_loop.simps [of i] less_Suc_eq)
    next
      case False
      let ?p = "take i key" and ?x = "key ! i"
      have "?x < ?x + 1" using False by (simp add: byte_Suc byte_less_ff)
      then have "?p @ ?x # drop (Suc i) key < ?p @ [?x + 1]" by (simp add: append_less)
      moreover have "key = ?p @ ?x # drop (Suc i) key" using i by (rule id_take_nth_drop)
      moreover have "take (i + 1) (key[i := ?x + 1]) = ?p @ [?x + 1]"
        using i by (simp add: take_Suc_conv_app_nth)
      ultimately show ?thesis using i False
        by (auto simp: successor_loop.simps [of i] Let_def)
    qed
  qed
qed

lemma bytewise_simps [simp]:
  "Compare BytewiseComparator a b = Some (Slice_compare a b)"
  "FindShortestSeparator BytewiseComparator = bytewise_FindShortestSeparator"
  "FindShortSuccessor BytewiseComparator a = Some (successor_loop 0 a)"
  "key_less (Compare BytewiseComparator) a b \<longleftrightarrow> a < b"
  by (simp_all add: BytewiseComparator_def bytewise_FindShortSuccessor_def key_less_def Slice_compare_order)

interpretation bytewise: comparator_contract BytewiseComparator "\<lambda>_. True"
proof unfold_locales
  fix a b :: slice
  show "key_less (Compare BytewiseComparator) a b \<Longrightarrow>
    \<exists>d. FindShortestSeparator BytewiseComparator a b = Some d \<and> True \<and>
      \<not> key_less (Compare BytewiseComparator) d a \<and> key_less (Compare BytewiseComparator) d b"
    using bytewise_separator [of a b] by (auto simp: not_less)
  show "\<not> key_less (Compare BytewiseComparator) a b \<Longrightarrow> FindShortestSeparator BytewiseComparator a b = Some a"
    using bytewise_separator [of a b] by auto
  show "\<exists>d. FindShortSuccessor BytewiseComparator a = Some d \<and> True \<and> \<not> key_less (Compare BytewiseComparator) d a"
    using successor_loop_spec [of 0 a] by (simp add: not_less)
qed (auto simp: Slice_compare_order split: if_splits)

section \<open>The internal comparator keeps it\<close>

text \<open>The two parts of an internal key.\<close>

definition user_part :: "slice \<Rightarrow> slice" where
  "user_part k = take (length k - 8) k"

definition key_num :: "slice \<Rightarrow> uint64_t" where
  "key_num k = le_word (drop (length k - 8) k)"

definition internal_valid :: "(slice \<Rightarrow> bool) \<Rightarrow> slice \<Rightarrow> bool" where
  "internal_valid valid k \<longleftrightarrow> length k \<ge> 8 \<and> valid (user_part k)"

lemma user_part_append [simp]: "user_part (u @ EncodeFixed64 num) = u"
  by (simp add: user_part_def)

lemma key_num_append [simp]: "key_num (u @ EncodeFixed64 num) = num"
  by (simp add: key_num_def EncodeFixed64_bytes byte_simps)

lemma ExtractUserKey_part: "length k \<ge> 8 \<Longrightarrow> ExtractUserKey k = Some (user_part k)"
  by (simp add: ExtractUserKey_def user_part_def)

lemma DecodeFixed64_num: "length k \<ge> 8 \<Longrightarrow> DecodeFixed64 (drop (length k - 8) k) = Some (key_num k)"
  by (simp add: DecodeFixed64_Some key_num_def)

lemma key_parts: "length k \<ge> 8 \<Longrightarrow> k = user_part k @ EncodeFixed64 (key_num k)"
proof -
  assume "length k \<ge> 8"
  then have "le_bytes 8 (le_word (drop (length k - 8) k) :: uint64_t) = drop (length k - 8) k"
    using le_bytes_le_word [of "drop (length k - 8) k", where 'a = 64] by simp
  then show ?thesis by (simp add: user_part_def key_num_def EncodeFixed64_bytes)
qed

lemma internal_Compare_parts:
  "length a \<ge> 8 \<Longrightarrow> length b \<ge> 8 \<Longrightarrow>
   internal_Compare user a b =
     map_option (\<lambda>r. if r = 0 then if key_num a > key_num b then -1 else if key_num a < key_num b then 1 else 0
       else r) (Compare user (user_part a) (user_part b))"
  by (auto simp: internal_Compare_def ExtractUserKey_part DecodeFixed64_num split: option.splits)

lemma Pack_max: "PackSequenceAndType kMaxSequenceNumber kValueTypeForSeek = Some 0xFFFFFFFFFFFFFF01"
  by (simp add: PackSequenceAndType_def kMaxSequenceNumber_def kValueTypeForSeek_def)

lemma key_lessI: "cmp a b = Some r \<Longrightarrow> r < 0 \<Longrightarrow> key_less cmp a b"
  by (simp add: key_less_def)

context comparator_contract begin

lemma less_irrefl: "valid a \<Longrightarrow> \<not> key_less (Compare c) a a"
  using compare_refl by (simp add: key_less_def)

lemma less_asym: "valid a \<Longrightarrow> valid b \<Longrightarrow> key_less (Compare c) a b \<Longrightarrow> \<not> key_less (Compare c) b a"
  using compare_sym [of a b] by (auto simp: key_less_def sgn_if split: if_splits)

lemma internal_less_user:
  "length a \<ge> 8 \<Longrightarrow> length b \<ge> 8 \<Longrightarrow> key_less (Compare c) (user_part a) (user_part b) \<Longrightarrow>
   key_less (internal_Compare c) a b"
  by (auto simp: key_less_def internal_Compare_parts split: option.splits)

lemma tack_on_spec:
  assumes k: "length k \<ge> 8" "valid (user_part k)" and tmp: "valid tmp" "\<not> key_less (Compare c) tmp (user_part k)"
    and asserted: "\<And>num. key_less (Compare c) (user_part k) tmp \<Longrightarrow> asserted (tmp @ EncodeFixed64 num)"
  shows "\<exists>d. tack_on c k (user_part k) asserted tmp = Some d \<and> length d \<ge> 8 \<and> valid (user_part d) \<and>
    (d = k \<or> key_less (internal_Compare c) k d \<and> asserted d)"
proof -
  obtain r where r: "Compare c (user_part k) tmp = Some r" using compare_sym [OF k(2) tmp(1)] by blast
  show ?thesis
  proof (cases "length tmp < length (user_part k) \<and> r < 0")
    case False
    then show ?thesis using r k by (auto simp: tack_on_def)
  next
    case True
    let ?d = "tmp @ EncodeFixed64 0xFFFFFFFFFFFFFF01"
    have less: "key_less (Compare c) (user_part k) tmp" using True r by (auto intro: key_lessI)
    then have "key_less (internal_Compare c) k ?d" using k by (intro internal_less_user) simp_all
    then have "tack_on c k (user_part k) asserted tmp = Some ?d"
      using True r asserted [OF less] by (simp add: tack_on_def Pack_max PutFixed64_def)
    then show ?thesis using \<open>key_less (internal_Compare c) k ?d\<close> asserted [OF less] tmp by auto
  qed
qed

lemma internal_sym:
  assumes "internal_valid valid a" and "internal_valid valid b"
  shows "\<exists>r s. internal_Compare c a b = Some r \<and> internal_Compare c b a = Some s \<and> sgn r = - sgn s"
proof -
  obtain r s where rs: "Compare c (user_part a) (user_part b) = Some r"
    "Compare c (user_part b) (user_part a) = Some s" "sgn r = - sgn s"
    using compare_sym [of "user_part a" "user_part b"] assms by (auto simp: internal_valid_def)
  then have "r = 0 \<longleftrightarrow> s = 0" by (metis add.inverse_inverse neg_equal_0_iff_equal sgn_0_0)
  with rs assms show ?thesis by (auto simp: internal_Compare_parts internal_valid_def)
qed

lemma internal_trans:
  assumes v: "internal_valid valid a" "internal_valid valid b" "internal_valid valid d"
    and r: "internal_Compare c a b = Some r" "r \<le> 0" and s: "internal_Compare c b d = Some s" "s \<le> 0"
  shows "\<exists>t. internal_Compare c a d = Some t \<and> t \<le> 0 \<and> (t = 0 \<longrightarrow> r = 0 \<and> s = 0)"
proof -
  have len: "length a \<ge> 8" "length b \<ge> 8" "length d \<ge> 8"
    and val: "valid (user_part a)" "valid (user_part b)" "valid (user_part d)"
    using v by (simp_all add: internal_valid_def)
  obtain r0 s0 where u: "Compare c (user_part a) (user_part b) = Some r0"
    "Compare c (user_part b) (user_part d) = Some s0"
    using compare_sym [OF val(1,2)] compare_sym [OF val(2,3)] by auto
  have r0: "r = (if r0 = 0 then if key_num a > key_num b then -1 else if key_num a < key_num b then 1 else 0 else r0)"
    and s0: "s = (if s0 = 0 then if key_num b > key_num d then -1 else if key_num b < key_num d then 1 else 0 else s0)"
    using r(1) s(1) u len by (simp_all add: internal_Compare_parts)
  have "r0 \<le> 0" "s0 \<le> 0" using r0 r(2) s0 s(2) by (auto split: if_splits)
  then obtain t0 where t0: "Compare c (user_part a) (user_part d) = Some t0" "t0 \<le> 0"
    "t0 = 0 \<longrightarrow> r0 = 0 \<and> s0 = 0"
    using compare_trans [OF val u(1) _ u(2)] by blast
  show ?thesis
  proof (cases "t0 = 0")
    case False
    then show ?thesis using t0 len by (simp add: internal_Compare_parts)
  next
    case True
    then have "key_num d \<le> key_num b" "key_num b \<le> key_num a"
      using t0 r0 s0 r(2) s(2) by (auto simp: not_less split: if_splits)
    then show ?thesis using True t0 r0 s0 len by (auto simp: internal_Compare_parts)
  qed
qed

lemma internal_separator:
  assumes "internal_valid valid a" and "internal_valid valid b"
  shows "\<exists>d. internal_FindShortestSeparator c a b = Some d \<and> internal_valid valid d \<and>
    (d = a \<or> key_less (internal_Compare c) a d \<and> key_less (internal_Compare c) a b \<and>
      key_less (internal_Compare c) d b)"
proof -
  have len: "length a \<ge> 8" "length b \<ge> 8" and val: "valid (user_part a)" "valid (user_part b)"
    using assms by (simp_all add: internal_valid_def)
  show ?thesis
  proof (cases "key_less (Compare c) (user_part a) (user_part b)")
    case False
    then have "FindShortestSeparator c (user_part a) (user_part b) = Some (user_part a)"
      by (rule separator_other [OF val])
    then show ?thesis using len val
      by (auto simp: internal_FindShortestSeparator_def ExtractUserKey_part tack_on_def internal_valid_def)
  next
    case True
    then obtain tmp where tmp: "FindShortestSeparator c (user_part a) (user_part b) = Some tmp" "valid tmp"
      "\<not> key_less (Compare c) tmp (user_part a)" "key_less (Compare c) tmp (user_part b)"
      using separator [OF val] by blast
    have ab: "key_less (internal_Compare c) a b" using internal_less_user [OF len True] .
    have "key_less (internal_Compare c) (tmp @ EncodeFixed64 num) b" for num
      by (rule internal_less_user) (use len tmp(4) in simp_all)
    then obtain d where "tack_on c a (user_part a) (\<lambda>tmp. key_less (internal_Compare c) tmp b) tmp = Some d"
      "length d \<ge> 8" "valid (user_part d)"
      "d = a \<or> key_less (internal_Compare c) a d \<and> key_less (internal_Compare c) d b"
      using tack_on_spec [OF len(1) val(1) tmp(2,3), of "\<lambda>tmp. key_less (internal_Compare c) tmp b"] by auto
    then show ?thesis using tmp(1) ab len
      by (intro exI [of _ d])
        (simp add: internal_FindShortestSeparator_def ExtractUserKey_part internal_valid_def)
  qed
qed

lemma internal_successor:
  assumes "internal_valid valid a"
  shows "\<exists>d. internal_FindShortSuccessor c a = Some d \<and> internal_valid valid d \<and>
    (d = a \<or> key_less (internal_Compare c) a d)"
proof -
  have len: "length a \<ge> 8" and val: "valid (user_part a)" using assms by (simp_all add: internal_valid_def)
  obtain tmp where tmp: "FindShortSuccessor c (user_part a) = Some tmp" "valid tmp"
    "\<not> key_less (Compare c) tmp (user_part a)"
    using successor [OF val] by blast
  from tack_on_spec [OF len val tmp(2,3), of "\<lambda>_. True"] show ?thesis
    using tmp(1) len by (auto simp: internal_FindShortSuccessor_def ExtractUserKey_part internal_valid_def)
qed

lemma internal_less_asym:
  "internal_valid valid a \<Longrightarrow> internal_valid valid b \<Longrightarrow> key_less (internal_Compare c) a b \<Longrightarrow>
   \<not> key_less (internal_Compare c) b a"
  using internal_sym [of a b] by (auto simp: key_less_def sgn_if split: if_splits)

lemma internal_refl: "internal_valid valid a \<Longrightarrow> internal_Compare c a a = Some 0"
  using compare_refl [of "user_part a"] by (simp add: internal_Compare_parts internal_valid_def)

text \<open>So the internal comparator keeps the contract when the user's does.\<close>

lemma internal_contract: "comparator_contract (InternalKeyComparator c) (internal_valid valid)"
proof unfold_locales
  fix a b assume v: "internal_valid valid a" "internal_valid valid b"
  obtain d where d: "internal_FindShortestSeparator c a b = Some d" "internal_valid valid d"
    "d = a \<or> key_less (internal_Compare c) a d \<and> key_less (internal_Compare c) a b \<and>
      key_less (internal_Compare c) d b"
    using internal_separator [OF v] by blast
  have irrefl: "\<not> key_less (internal_Compare c) a a" using internal_refl [OF v(1)] by (simp add: key_less_def)
  show "\<exists>r s. Compare (InternalKeyComparator c) a b = Some r \<and>
      Compare (InternalKeyComparator c) b a = Some s \<and> sgn r = - sgn s"
    using internal_sym [OF v] by (simp add: InternalKeyComparator_def)
  show "key_less (Compare (InternalKeyComparator c)) a b \<Longrightarrow>
    \<exists>d. FindShortestSeparator (InternalKeyComparator c) a b = Some d \<and> internal_valid valid d \<and>
      \<not> key_less (Compare (InternalKeyComparator c)) d a \<and> key_less (Compare (InternalKeyComparator c)) d b"
    using d irrefl internal_less_asym [OF v(1) d(2)] by (auto simp: InternalKeyComparator_def)
  show "\<not> key_less (Compare (InternalKeyComparator c)) a b \<Longrightarrow>
    FindShortestSeparator (InternalKeyComparator c) a b = Some a"
    using d by (auto simp: InternalKeyComparator_def)
next
  fix a assume v: "internal_valid valid a"
  obtain d where d: "internal_FindShortSuccessor c a = Some d" "internal_valid valid d"
    "d = a \<or> key_less (internal_Compare c) a d" using internal_successor [OF v] by blast
  have "\<not> key_less (internal_Compare c) d a"
    using d internal_less_asym [OF v d(2)] internal_refl [OF v] by (auto simp: key_less_def)
  then show "\<exists>d. FindShortSuccessor (InternalKeyComparator c) a = Some d \<and> internal_valid valid d \<and>
      \<not> key_less (Compare (InternalKeyComparator c)) d a"
    using d by (auto simp: InternalKeyComparator_def)
qed (simp_all add: InternalKeyComparator_def internal_refl internal_trans)

end

interpretation internal_bytewise:
  comparator_contract "InternalKeyComparator BytewiseComparator" "internal_valid (\<lambda>_. True)"
  by (rule bytewise.internal_contract)

end
