(* ===== verification/LdbKeyProps.thy ===== *)
theory LdbKeyProps
  imports LdbComparator
begin

text \<open>Properties of LevelDB's coding functions, comparators and internal keys.\<close>

section \<open>Coding\<close>

text \<open>
  C30: LevelDB's 64-bit varints. \<open>PutVarint64\<close> appends the \<open>VarintLength\<close> bytes of the
  value, at most the ten of its local buffer, and \<open>GetVarint64\<close> reads the value back, whatever
  follows; the unrolled \<open>EncodeVarint32\<close> writes the same bytes, at most five, and
  \<open>GetVarint32\<close> reads them back.
\<close>

theorem ldb_varint_roundtrip:
  "(\<exists>bs. PutVarint64 dst v = dst @ bs \<and> int (length bs) = VarintLength v \<and> length bs \<le> 10 \<and>
     GetVarint64 (bs @ rest) = Some (v, rest)) \<and>
   (\<exists>bs. PutVarint32 dst w = dst @ bs \<and> bs = EncodeVarint64 (ucast w) \<and> length bs \<le> 5 \<and>
     GetVarint32 (bs @ rest) = Some (w, rest))"
proof -
  have "GetVarint64 (varint_bytes v @ rest) = Some (v, rest)"
    by (simp add: GetVarint_spec varint_prefix_bytes varint_bytes_le_10)
  moreover have "GetVarint32 (EncodeVarint32 w @ rest) = Some (w, rest)"
    by (simp add: GetVarint_spec varint_prefix_Encode32)
  ultimately show ?thesis
    using length_EncodeVarint32 [of w]
    by (simp add: PutVarint64_def PutVarint32_def EncodeVarint64_bytes EncodeVarint32_bytes
        VarintLength_bytes varint_bytes_le_10)
qed

text \<open>
  C31: Length-prefixed slices. What \<open>PutLengthPrefixedSlice\<close> appends is read back by both
  versions of \<open>GetLengthPrefixedSlice\<close>, for slices shorter than \<open>2 ^ 32\<close>; on a cut input
  they return false.
\<close>

theorem length_prefixed_roundtrip:
  assumes "length value < 2 ^ 32"
  shows "GetLengthPrefixedSlice (PutLengthPrefixedSlice [] value @ rest) = Some (value, rest) \<and>
    GetLengthPrefixedSlicePtr (PutLengthPrefixedSlice [] value @ rest) = Some (value, rest) \<and>
    (\<forall>n < length value.
       GetLengthPrefixedSlice (PutVarint32 [] (of_nat (length value)) @ take n value) = None)"
proof -
  have u: "unat (of_nat (length value) :: uint32_t) = length value"
    using assms by (simp add: unat_of_nat take_bit_nat_eq_self)
  have "GetLengthPrefixedSlice (PutLengthPrefixedSlice [] value @ rest) = Some (value, rest)"
    using GetLengthPrefixedSlice_Put [OF assms] by (simp add: PutLengthPrefixedSlice_def)
  moreover have "n < length value \<Longrightarrow>
      GetLengthPrefixedSlice (PutVarint32 [] (of_nat (length value)) @ take n value) = None" for n
    using u by (simp add: GetLengthPrefixedSlice_def GetVarint_spec PutVarint32_def varint_prefix_Encode32)
  ultimately show ?thesis by (simp add: GetLengthPrefixedSlicePtr_eq)
qed

theorem length_prefixed_roundtrip_witness:
  "GetLengthPrefixedSlice (PutLengthPrefixedSlice [] [7, 8] @ [9]) = Some ([7, 8], [9]) \<and>
   GetLengthPrefixedSlice (PutVarint32 [] 2 @ [7]) = None"
  using length_prefixed_roundtrip [of "[7, 8]" "[9]"] by (auto dest: spec [of _ 1])

section \<open>Comparators\<close>

text \<open>
  \<open>Slice::compare\<close> is the lexicographic order of the bytes as unsigned numbers, equal only
  for equal slices.
\<close>

theorem slice_compare_spec:
  "(Slice_compare a b < 0 \<longleftrightarrow> a < b) \<and> (Slice_compare a b = 0 \<longleftrightarrow> a = b) \<and>
   (Slice_compare a b > 0 \<longleftrightarrow> b < a) \<and> (Slice_eq a b \<longleftrightarrow> a = b) \<and>
   (starts_with a b \<longleftrightarrow> (\<exists>c. a = b @ c))"
  by (auto simp: Slice_compare_order Slice_eq_iff starts_with_prefix)

text \<open>
  The bytewise separator. For \<open>a < b\<close>, \<open>FindShortestSeparator\<close> gives a key in
  \<open>[a, b)\<close> no longer than \<open>a\<close>, and its assertion holds.
\<close>

theorem bytewise_separator_correct:
  assumes "a < b"
  shows "\<exists>d. FindShortestSeparator BytewiseComparator a b = Some d \<and> a \<le> d \<and> d < b \<and>
    length d \<le> length a"
  using bytewise_separator [of a b] assms by auto

theorem bytewise_separator_correct_witness:
  "\<exists>d. FindShortestSeparator BytewiseComparator [1, 2, 9] [1, 5] = Some d \<and> [1, 2, 9] \<le> d \<and>
    d < [1, 5] \<and> length d \<le> length [1, 2, 9 :: pb_byte_t]"
  by (rule bytewise_separator_correct) simp

text \<open>
  The bytewise successor: \<open>FindShortSuccessor\<close> gives a key not below the given one and not
  longer.
\<close>

theorem bytewise_successor_correct:
  "\<exists>d. FindShortSuccessor BytewiseComparator key = Some d \<and> key \<le> d \<and> length d \<le> length key"
  using successor_loop_spec [of 0 key] by simp

section \<open>Internal keys\<close>

text \<open>
  C28: The separator of internal keys: for two keys of at least eight bytes with \<open>a\<close> below
  \<open>b\<close> in the internal order, it is an internal key in \<open>[a, b)\<close>, and no assertion of
  \<open>InternalKeyComparator::FindShortestSeparator\<close> fails.
\<close>

theorem internal_separator_correct:
  assumes "length a \<ge> 8" and "length b \<ge> 8"
    and "key_less (Compare (InternalKeyComparator BytewiseComparator)) a b"
  shows "\<exists>d. FindShortestSeparator (InternalKeyComparator BytewiseComparator) a b = Some d \<and>
    length d \<ge> 8 \<and> \<not> key_less (Compare (InternalKeyComparator BytewiseComparator)) d a \<and>
    key_less (Compare (InternalKeyComparator BytewiseComparator)) d b"
  using internal_bytewise.separator [OF _ _ assms(3)] assms(1,2) by (auto simp: internal_valid_def)

theorem internal_separator_correct_witness:
  "\<exists>d. FindShortestSeparator (InternalKeyComparator BytewiseComparator)
      [1, 1, 0, 0, 0, 0, 0, 0, 0] [5, 1, 0, 0, 0, 0, 0, 0, 0] = Some d \<and>
    length d \<ge> 8 \<and> \<not> key_less (Compare (InternalKeyComparator BytewiseComparator)) d [1, 1, 0, 0, 0, 0, 0, 0, 0] \<and>
    key_less (Compare (InternalKeyComparator BytewiseComparator)) d [5, 1, 0, 0, 0, 0, 0, 0, 0]"
  by (rule internal_separator_correct)
    (simp_all add: key_less_def InternalKeyComparator_def internal_Compare_def ExtractUserKey_def)

lemma pack_parts:
  assumes "seq \<le> kMaxSequenceNumber"
  shows "drop_bit 8 (push_bit 8 seq OR ucast (type_code t)) = seq"
    and "ucast (push_bit 8 seq OR ucast (type_code t)) = type_code t"
proof -
  have "drop_bit 56 seq = 0" using assms
    by (simp add: kMaxSequenceNumber_def word_le_nat_alt unat_drop_bit flip: unat_eq_0)
  then have s: "take_bit 56 seq = seq" by (simp add: take_bit_eq_self_iff_drop_bit_eq_0)
  have high: "bit seq n \<Longrightarrow> n < 56" for n using s by (metis bit_take_bit_iff)
  show "drop_bit 8 (push_bit 8 seq OR ucast (type_code t)) = seq"
    by (cases t; rule bit_word_eqI) (auto simp: bit_simps dest: high)
  show "ucast (push_bit 8 seq OR ucast (type_code t)) = type_code t"
    by (cases t; rule bit_word_eqI) (auto simp: bit_simps)
qed

lemma pack_unat:
  assumes "s \<le> kMaxSequenceNumber"
  shows "unat (push_bit 8 s OR ucast (type_code t) :: uint64_t) = unat s * 256 + unat (type_code t)"
proof -
  let ?n = "push_bit 8 s OR ucast (type_code t) :: uint64_t"
  have "unat ?n div 256 = unat s"
    using arg_cong [OF pack_parts(1) [OF assms, of t], of unat] unat_drop_bit [of 8 ?n] by simp
  moreover have "unat ?n mod 256 = unat (type_code t)"
    using arg_cong [OF pack_parts(2) [OF assms, of t], of unat] by (simp add: unsigned_ucast_eq take_bit_eq_mod)
  ultimately show ?thesis by (metis div_mult_mod_eq)
qed

lemma ValueType_of_code [simp]: "ValueType_of (type_code t) = Some t"
  by (cases t) (simp_all add: ValueType_of_def)

lemma Parse_parts:
  assumes "s \<le> kMaxSequenceNumber"
  shows "ParseInternalKey (u @ EncodeFixed64 (push_bit 8 s OR ucast (type_code t))) =
      Some \<lparr>user_key = u, sequence = s, vtype = t\<rparr>"
    and "ExtractValueType (u @ EncodeFixed64 (push_bit 8 s OR ucast (type_code t))) = Some t"
proof -
  let ?num = "push_bit 8 s OR ucast (type_code t) :: uint64_t"
  have num: "DecodeFixed64 (EncodeFixed64 ?num) = Some ?num"
    using DecodeFixed64_bytes [of ?num "[]"] by (simp add: EncodeFixed64_bytes)
  note parts = pack_parts [OF assms, of t]
  show "ParseInternalKey (u @ EncodeFixed64 ?num) = Some \<lparr>user_key = u, sequence = s, vtype = t\<rparr>"
    by (simp add: ParseInternalKey_def Let_def num parts del: drop_bit_or)
  show "ExtractValueType (u @ EncodeFixed64 ?num) = Some t"
    by (simp add: ExtractValueType_def num parts)
qed

text \<open>
  Internal keys. \<open>AppendInternalKey\<close> appends \<open>InternalKeyEncodingLength\<close> bytes, and
  \<open>ParseInternalKey\<close>, \<open>ExtractUserKey\<close> and \<open>ExtractValueType\<close> read the parts
  back, for every sequence number up to the maximum.
\<close>

theorem internal_key_roundtrip:
  assumes "sequence key \<le> kMaxSequenceNumber"
  shows "\<exists>bs. AppendInternalKey result key = Some (result @ bs) \<and>
    length bs = InternalKeyEncodingLength key \<and> ParseInternalKey bs = Some key \<and>
    ExtractUserKey bs = Some (user_key key) \<and> ExtractValueType bs = Some (vtype key)"
proof -
  let ?num = "push_bit 8 (sequence key) OR ucast (type_code (vtype key))"
  let ?bs = "user_key key @ EncodeFixed64 ?num"
  have "ParseInternalKey ?bs = Some key" "ExtractValueType ?bs = Some (vtype key)"
    using Parse_parts [OF assms, of "user_key key" "vtype key"] by simp_all
  moreover have "AppendInternalKey result key = Some (result @ ?bs)"
    using assms by (simp add: AppendInternalKey_def PackSequenceAndType_def PutFixed64_def)
  ultimately show ?thesis
    by (intro exI [of _ ?bs]) (simp add: InternalKeyEncodingLength_def ExtractUserKey_def)
qed

theorem internal_key_roundtrip_witness:
  "\<exists>bs. AppendInternalKey [] \<lparr>user_key = [7], sequence = 5, vtype = kTypeDeletion\<rparr> = Some ([] @ bs) \<and>
    length bs = InternalKeyEncodingLength \<lparr>user_key = [7], sequence = 5, vtype = kTypeDeletion\<rparr> \<and>
    ParseInternalKey bs = Some \<lparr>user_key = [7], sequence = 5, vtype = kTypeDeletion\<rparr> \<and>
    ExtractUserKey bs = Some [7] \<and> ExtractValueType bs = Some kTypeDeletion"
  using internal_key_roundtrip [of "\<lparr>user_key = [7], sequence = 5, vtype = kTypeDeletion\<rparr>" "[]"]
  by (simp add: kMaxSequenceNumber_def)

text \<open>
  C29: The order of internal keys: by user key, then by decreasing sequence number, so that the
  newest entry of a user key at or below a sequence number comes first.
\<close>

theorem internal_key_order:
  assumes "sequence k \<le> kMaxSequenceNumber" and "sequence l \<le> kMaxSequenceNumber"
    and "AppendInternalKey [] k = Some a" and "AppendInternalKey [] l = Some b"
  shows "key_less (Compare (InternalKeyComparator BytewiseComparator)) a b \<longleftrightarrow>
    user_key k < user_key l \<or> user_key k = user_key l \<and>
      (sequence l < sequence k \<or> sequence k = sequence l \<and> vtype k = kTypeValue \<and> vtype l = kTypeDeletion)"
proof -
  let ?n = "\<lambda>k. push_bit 8 (sequence k) OR ucast (type_code (vtype k)) :: uint64_t"
  have t: "unat (type_code t) = (if t = kTypeValue then 1 else 0)" for t by (cases t) simp_all
  have ab: "a = user_key k @ EncodeFixed64 (?n k)" "b = user_key l @ EncodeFixed64 (?n l)"
    using assms by (simp_all add: AppendInternalKey_def PackSequenceAndType_def PutFixed64_def)
  have "?n l < ?n k \<longleftrightarrow> sequence l < sequence k \<or>
      sequence k = sequence l \<and> vtype k = kTypeValue \<and> vtype l = kTypeDeletion"
    unfolding word_less_nat_alt pack_unat [OF assms(1)] pack_unat [OF assms(2)] t
    by (cases "vtype k"; cases "vtype l") (auto simp: word_unat_eq_iff)
  then show ?thesis
    using ab by (auto simp: key_less_def InternalKeyComparator_def internal_Compare_parts Slice_compare_order)
qed

theorem internal_key_order_witness:
  "\<exists>a b. AppendInternalKey [] \<lparr>user_key = [7], sequence = 6, vtype = kTypeValue\<rparr> = Some a \<and>
    AppendInternalKey [] \<lparr>user_key = [7], sequence = 5, vtype = kTypeValue\<rparr> = Some b \<and>
    key_less (Compare (InternalKeyComparator BytewiseComparator)) a b"
  using internal_key_order [of "\<lparr>user_key = [7], sequence = 6, vtype = kTypeValue\<rparr>"
      "\<lparr>user_key = [7], sequence = 5, vtype = kTypeValue\<rparr>"]
  by (simp add: kMaxSequenceNumber_def AppendInternalKey_def PackSequenceAndType_def)

text \<open>
  Lookup keys: a \<open>LookupKey\<close> fits the \<open>usize + 13\<close> bytes its constructor reserves, its
  memtable key is the length-prefixed internal key, which parses to the user key, the sequence
  number and the type for seeking.
\<close>

theorem lookup_key_correct:
  assumes "s \<le> kMaxSequenceNumber" and "length ukey + 8 < 2 ^ 32"
  shows "\<exists>k. make_LookupKey ukey s = Some k \<and> length (lk_bytes k) \<le> length ukey + 13 \<and>
    GetLengthPrefixedSlice (memtable_key k) = Some (lookup_internal_key k, []) \<and>
    lookup_user_key k = ukey \<and>
    ParseInternalKey (lookup_internal_key k) =
      Some \<lparr>user_key = ukey, sequence = s, vtype = kValueTypeForSeek\<rparr>"
proof -
  let ?key = "\<lparr>user_key = ukey, sequence = s, vtype = kValueTypeForSeek\<rparr>"
  let ?num = "push_bit 8 s OR ucast (type_code kValueTypeForSeek)"
  let ?ik = "ukey @ EncodeFixed64 ?num"
  let ?pre = "EncodeVarint32 (of_nat (length ukey + 8))"
  have parse: "ParseInternalKey ?ik = Some ?key" by (rule Parse_parts [OF assms(1)])
  have "GetLengthPrefixedSlice (PutVarint32 [] (of_nat (length ?ik)) @ ?ik @ []) = Some (?ik, [])"
    by (rule GetLengthPrefixedSlice_Put) (use assms(2) in simp)
  then have "GetLengthPrefixedSlice (?pre @ ?ik) = Some (?ik, [])" by (simp add: PutVarint32_def)
  moreover have "make_LookupKey ukey s = Some \<lparr>lk_bytes = ?pre @ ?ik, lk_kstart = length ?pre\<rparr>"
    using assms(1) by (simp add: make_LookupKey_def PackSequenceAndType_def Let_def)
  moreover have "length ?pre \<le> 5" by (rule length_EncodeVarint32)
  ultimately show ?thesis using parse
    by (simp add: memtable_key_def lookup_internal_key_def lookup_user_key_def)
qed

theorem lookup_key_correct_witness:
  "\<exists>k. make_LookupKey [1, 2] 9 = Some k \<and> length (lk_bytes k) \<le> length [1, 2 :: pb_byte_t] + 13 \<and>
    GetLengthPrefixedSlice (memtable_key k) = Some (lookup_internal_key k, []) \<and>
    lookup_user_key k = [1, 2] \<and>
    ParseInternalKey (lookup_internal_key k) =
      Some \<lparr>user_key = [1, 2], sequence = 9, vtype = kValueTypeForSeek\<rparr>"
  by (rule lookup_key_correct) (simp_all add: kMaxSequenceNumber_def)

end
