(* ===== verification/LdbHash.thy ===== *)
theory LdbHash
  imports LdbCoding
begin

text \<open>
  LevelDB's \<open>util/hash.cc\<close>, \<open>util/random.h\<close> and the Bloom filter policy of
  \<open>util/bloom.cc\<close>. The locale \<open>filter_policy\<close> states what \<open>filter_policy.h\<close> asks
  for, no false negatives; it is interpreted on the Bloom filters of every parameter.
\<close>

section \<open>The hash function\<close>

text \<open>The loop over four bytes at a time; the word is \<open>DecodeFixed32\<close> of bytes that are there.\<close>

function Hash_words :: "uint32_t \<Rightarrow> pb_byte_t list \<Rightarrow> uint32_t \<times> pb_byte_t list" where
  "Hash_words h data =
     (if 4 \<le> length data then
        let w = le_word (take 4 data);
            h = h + w;
            h = h * 0xc6a4a793;
            h = h XOR drop_bit 16 h
        in Hash_words h (drop 4 data)
      else (h, data))"
  by pat_completeness auto
termination
  by (relation "measure (\<lambda>(h, data). length data)") auto

declare Hash_words.simps [simp del]

text \<open>The \<open>switch\<close> with its fall-through cases.\<close>

definition Hash_tail :: "uint32_t \<Rightarrow> pb_byte_t list \<Rightarrow> uint32_t" where
  "Hash_tail h data =
     (let m = 0xc6a4a793; r = 24;
          case1 = (\<lambda>h. let h = h + ucast (data ! 0); h = h * m in h XOR drop_bit r h);
          case2 = (\<lambda>h. case1 (h + push_bit 8 (ucast (data ! 1))));
          case3 = (\<lambda>h. case2 (h + push_bit 16 (ucast (data ! 2))))
      in if length data = 3 then case3 h
         else if length data = 2 then case2 h
         else if length data = 1 then case1 h
         else h)"

definition Hash :: "pb_byte_t list \<Rightarrow> uint32_t \<Rightarrow> uint32_t" where
  "Hash data seed =
     (let h = ucast ((ucast seed :: size_t) XOR (of_nat (length data) * 0xc6a4a793))
      in case Hash_words h data of (h, rest) \<Rightarrow> Hash_tail h rest)"

section \<open>Random numbers\<close>

text \<open>The state is \<open>seed_\<close>.\<close>

definition Random :: "uint32_t \<Rightarrow> uint32_t" where
  "Random s = (let seed = s AND 0x7fffffff in if seed = 0 \<or> seed = 2147483647 then 1 else seed)"

definition Next :: "uint32_t \<Rightarrow> uint32_t" where
  "Next seed =
     (let M = 2147483647; A = 16807;
          product = (ucast seed :: uint64_t) * A;
          seed = ucast (drop_bit 31 product + (product AND ucast (M :: uint32_t)))
      in if seed > M then seed - M else seed)"

text \<open>Each returns its result and the new state; \<open>n\<close> is the word of the \<open>int\<close>.\<close>

definition Uniform :: "uint32_t \<Rightarrow> uint32_t \<Rightarrow> uint32_t \<times> uint32_t" where
  "Uniform n seed = (let seed = Next seed in (seed mod n, seed))"

definition OneIn :: "uint32_t \<Rightarrow> uint32_t \<Rightarrow> bool \<times> uint32_t" where
  "OneIn n seed = (let seed = Next seed in (seed mod n = 0, seed))"

definition Skewed :: "uint32_t \<Rightarrow> uint32_t \<Rightarrow> uint32_t \<times> uint32_t" where
  "Skewed max_log seed = (case Uniform (max_log + 1) seed of (b, seed) \<Rightarrow> Uniform (push_bit (unat b) 1) seed)"

section \<open>Filter policies\<close>

record FilterPolicy =
  CreateFilter :: "pb_byte_t list list \<Rightarrow> pb_byte_t list \<Rightarrow> pb_byte_t list"
  KeyMayMatch :: "pb_byte_t list \<Rightarrow> pb_byte_t list \<Rightarrow> bool"

definition BloomHash :: "pb_byte_t list \<Rightarrow> uint32_t" where
  "BloomHash key = Hash key 0xbc9f1d34"

text \<open>
  \<open>k_\<close> of the constructor for a positive \<open>bits_per_key\<close>. The product with the double
  \<open>0.69\<close> is truncated; below 44 it is not near an integer, and from 44 on \<open>k_\<close> is 30.
\<close>

definition bloom_k :: "nat \<Rightarrow> nat" where
  "bloom_k bits_per_key =
     (let k = bits_per_key * 69 div 100; k = (if k < 1 then 1 else k) in if k > 30 then 30 else k)"

definition bloom_delta :: "uint32_t \<Rightarrow> uint32_t" where
  "bloom_delta h = drop_bit 17 h OR push_bit 15 h"

primrec bloom_set :: "nat \<Rightarrow> uint32_t \<Rightarrow> uint32_t \<Rightarrow> nat \<Rightarrow> pb_byte_t list \<Rightarrow> pb_byte_t list" where
  "bloom_set 0 h delta bits arr = arr"
| "bloom_set (Suc j) h delta bits arr =
     (let bitpos = unat h mod bits
      in bloom_set j (h + delta) delta bits
           (arr[bitpos div 8 := arr ! (bitpos div 8) OR push_bit (bitpos mod 8) 1]))"

definition bloom_add :: "nat \<Rightarrow> nat \<Rightarrow> pb_byte_t list \<Rightarrow> pb_byte_t list \<Rightarrow> pb_byte_t list" where
  "bloom_add k bits key arr = (let h = BloomHash key in bloom_set k h (bloom_delta h) bits arr)"

definition bloom_CreateFilter ::
  "nat \<Rightarrow> pb_byte_t list list \<Rightarrow> pb_byte_t list \<Rightarrow> pb_byte_t list" where
  "bloom_CreateFilter bits_per_key keys dst =
     (let k = bloom_k bits_per_key;
          bits = length keys * bits_per_key;
          bits = (if bits < 64 then 64 else bits);
          bytes = (bits + 7) div 8;
          bits = bytes * 8
      in dst @ fold (bloom_add k bits) keys (replicate bytes 0 @ [of_nat k]))"

primrec bloom_test :: "nat \<Rightarrow> uint32_t \<Rightarrow> uint32_t \<Rightarrow> nat \<Rightarrow> pb_byte_t list \<Rightarrow> bool" where
  "bloom_test 0 h delta bits arr = True"
| "bloom_test (Suc j) h delta bits arr =
     (let bitpos = unat h mod bits
      in if arr ! (bitpos div 8) AND push_bit (bitpos mod 8) 1 = 0 then False
         else bloom_test j (h + delta) delta bits arr)"

text \<open>\<open>array[len-1]\<close> is a \<open>char\<close>, signed on the target.\<close>

definition bloom_KeyMayMatch :: "pb_byte_t list \<Rightarrow> pb_byte_t list \<Rightarrow> bool" where
  "bloom_KeyMayMatch key bloom_filter =
     (let len = length bloom_filter in
      if len < 2 then False
      else let bits = (len - 1) * 8; k = scast (bloom_filter ! (len - 1)) :: size_t
        in if k > 30 then True
           else let h = BloomHash key in bloom_test (unat k) h (bloom_delta h) bits bloom_filter)"

definition NewBloomFilterPolicy :: "nat \<Rightarrow> FilterPolicy" where
  "NewBloomFilterPolicy bits_per_key =
     \<lparr>CreateFilter = bloom_CreateFilter bits_per_key, KeyMayMatch = bloom_KeyMayMatch\<rparr>"

text \<open>
  What \<open>filter_policy.h\<close> asks for: \<open>CreateFilter\<close> appends to its destination, and a key of the
  list matches what was appended.
\<close>

locale filter_policy =
  fixes p :: FilterPolicy
  assumes create_appends: "\<exists>f. CreateFilter p keys dst = dst @ f"
    and no_false_negatives: "key \<in> set keys \<Longrightarrow> CreateFilter p keys dst = dst @ f \<Longrightarrow> KeyMayMatch p key f"

section \<open>Bloom filters have no false negatives\<close>

definition bit_set :: "pb_byte_t list \<Rightarrow> nat \<Rightarrow> bool" where
  "bit_set arr i \<longleftrightarrow> bit (arr ! (i div 8)) (i mod 8)"

lemma and_bit_0: "(b :: pb_byte_t) AND push_bit n 1 = 0 \<longleftrightarrow> \<not> bit b n" if "n < 8"
proof -
  have "bit (b AND push_bit n 1) i \<longleftrightarrow> i = n \<and> bit b n" for i
    using that by (auto simp: bit_simps possible_bit_def)
  then show ?thesis by (metis bit_0_eq bit_eqI bot_apply bot_bool_def)
qed

lemma bit_set_update:
  "p div 8 < length arr \<Longrightarrow>
   bit_set (arr[p div 8 := arr ! (p div 8) OR push_bit (p mod 8) 1]) i \<longleftrightarrow> bit_set arr i \<or> i = p"
proof -
  assume p: "p div 8 < length arr"
  have "i = p \<longleftrightarrow> i div 8 = p div 8 \<and> i mod 8 = p mod 8" by (metis div_mult_mod_eq)
  then show ?thesis using p by (auto simp: bit_set_def nth_list_update bit_simps possible_bit_def)
qed

lemma bloom_test_iff:
  "bloom_test k h d bits arr \<longleftrightarrow> (\<forall>j < k. bit_set arr (unat (h + of_nat j * d) mod bits))"
proof (induction k arbitrary: h)
  case 0
  then show ?case by simp
next
  case (Suc k)
  have "(\<forall>j < Suc k. P j) \<longleftrightarrow> P 0 \<and> (\<forall>j < k. P (Suc j))" for P :: "nat \<Rightarrow> bool"
    by (auto simp: less_Suc_eq_0_disj)
  note split = this [of "\<lambda>j. bit_set arr (unat (h + of_nat j * d) mod bits)"]
  have "h + of_nat (Suc j) * d = h + d + of_nat j * d" for j by (simp add: algebra_simps)
  then show ?case unfolding split
    by (simp add: Let_def and_bit_0 Suc.IH bit_set_def [symmetric] add.assoc del: push_bit_of_1)
qed

text \<open>What setting the bits of a key keeps, and that it sets them.\<close>

lemma length_bloom_set [simp]: "length (bloom_set k h d bits arr) = length arr"
  by (induction k arbitrary: h arr) (simp_all add: Let_def)

lemma bloom_set_keeps:
  "0 < bits \<Longrightarrow> bits = n * 8 \<Longrightarrow> length arr = n + 1 \<Longrightarrow> bit_set arr i \<Longrightarrow>
   bit_set (bloom_set k h d bits arr) i"
proof (induction k arbitrary: h arr)
  case 0
  then show ?case by simp
next
  case (Suc k)
  have "unat h mod bits div 8 < length arr" using Suc.prems by (simp add: less_mult_imp_div_less less_SucI)
  with Suc show ?case by (simp add: Let_def bit_set_update del: push_bit_of_1)
qed

lemma bloom_set_last:
  "0 < bits \<Longrightarrow> bits = n * 8 \<Longrightarrow> length arr = n + 1 \<Longrightarrow> bloom_set k h d bits arr ! n = arr ! n"
proof (induction k arbitrary: h arr)
  case 0
  then show ?case by simp
next
  case (Suc k)
  then have "unat h mod bits div 8 < n" by (simp add: less_mult_imp_div_less)
  then have "arr[unat h mod bits div 8 := x] ! n = arr ! n" for x by simp
  with Suc show ?case by (simp add: Let_def)
qed

lemma bloom_set_sets:
  "0 < bits \<Longrightarrow> bits = n * 8 \<Longrightarrow> length arr = n + 1 \<Longrightarrow> j < k \<Longrightarrow>
   bit_set (bloom_set k h d bits arr) (unat (h + of_nat j * d) mod bits)"
proof (induction k arbitrary: h arr j)
  case 0
  then show ?case by simp
next
  case (Suc k)
  let ?p = "unat h mod bits"
  let ?arr = "arr[?p div 8 := arr ! (?p div 8) OR push_bit (?p mod 8) 1]"
  have p: "?p div 8 < length arr" using Suc.prems by (simp add: less_mult_imp_div_less less_SucI)
  show ?case
  proof (cases j)
    case 0
    have "bit_set ?arr ?p" using p by (simp add: bit_set_update del: push_bit_of_1)
    then have "bit_set (bloom_set k (h + d) d bits ?arr) ?p"
      by (intro bloom_set_keeps) (use Suc.prems in simp_all)
    then show ?thesis using 0 by (simp add: Let_def)
  next
    case (Suc i)
    then have "bit_set (bloom_set k (h + d) d bits ?arr) (unat ((h + d) + of_nat i * d) mod bits)"
      by (intro Suc.IH) (use Suc.prems in simp_all)
    then show ?thesis using Suc by (simp add: Let_def algebra_simps)
  qed
qed

lemma fold_bloom_add:
  assumes "0 < bits" and "bits = n * 8" and "length arr = n + 1"
  shows "length (fold (bloom_add k bits) keys arr) = n + 1 \<and>
    fold (bloom_add k bits) keys arr ! n = arr ! n \<and>
    (\<forall>i. bit_set arr i \<longrightarrow> bit_set (fold (bloom_add k bits) keys arr) i) \<and>
    (\<forall>key \<in> set keys. bloom_test k (BloomHash key) (bloom_delta (BloomHash key)) bits
       (fold (bloom_add k bits) keys arr))"
  using assms(3)
proof (induction keys arbitrary: arr)
  case Nil
  then show ?case by simp
next
  case (Cons key keys)
  let ?h = "BloomHash key"
  let ?arr = "bloom_add k bits key arr"
  have len: "length ?arr = n + 1" using Cons.prems by (simp add: bloom_add_def Let_def)
  have last: "?arr ! n = arr ! n"
    using bloom_set_last [OF assms(1,2) Cons.prems] by (simp add: bloom_add_def Let_def)
  have keep: "bit_set arr i \<Longrightarrow> bit_set ?arr i" for i
    using bloom_set_keeps [OF assms(1,2) Cons.prems] by (simp add: bloom_add_def Let_def)
  have sets: "j < k \<Longrightarrow> bit_set ?arr (unat (?h + of_nat j * bloom_delta ?h) mod bits)" for j
    using bloom_set_sets [OF assms(1,2) Cons.prems] by (simp add: bloom_add_def Let_def)
  note IH = Cons.IH [OF len]
  have "bloom_test k ?h (bloom_delta ?h) bits (fold (bloom_add k bits) keys ?arr)"
    unfolding bloom_test_iff using IH sets by blast
  then show ?case using IH last keep by auto
qed

lemma bloom_k_range: "1 \<le> bloom_k b \<and> bloom_k b \<le> 30"
  by (simp add: bloom_k_def Let_def)

lemma scast_bloom_k: "unat (scast (of_nat (bloom_k b) :: pb_byte_t) :: size_t) = bloom_k b"
proof -
  have le: "bloom_k b \<le> 30" using bloom_k_range by simp
  then have "sint (of_nat (bloom_k b) :: pb_byte_t) = int (bloom_k b)"
    by (simp add: sint_uint uint_nat unat_of_nat take_bit_nat_eq_self signed_take_bit_int_eq_self)
  then have "(scast (of_nat (bloom_k b) :: pb_byte_t) :: size_t) = of_nat (bloom_k b)"
    by (simp add: scast_eq)
  then show ?thesis using le by (simp add: unat_of_nat take_bit_nat_eq_self)
qed

lemma bloom_no_false_negatives:
  assumes "key \<in> set keys" and "bloom_CreateFilter b keys dst = dst @ f"
  shows "bloom_KeyMayMatch key f"
proof -
  define bits where "bits = (if length keys * b < 64 then 64 else length keys * b)"
  define n where "n = (bits + 7) div 8"
  have "64 \<le> bits" by (simp add: bits_def)
  then have n: "0 < n * 8" "8 \<le> n" unfolding n_def by linarith+
  let ?k = "bloom_k b"
  let ?arr = "replicate n 0 @ [of_nat ?k]"
  have f: "f = fold (bloom_add ?k (n * 8)) keys ?arr"
    using assms(2) by (simp add: bloom_CreateFilter_def Let_def bits_def n_def)
  have *: "length f = n + 1" "f ! n = of_nat ?k"
    "bloom_test ?k (BloomHash key) (bloom_delta (BloomHash key)) (n * 8) f"
    using fold_bloom_add [OF n(1) refl, of ?arr ?k keys] assms(1) by (simp_all add: f nth_append)
  have "unat (scast (f ! n) :: size_t) = ?k" using scast_bloom_k *(2) by simp
  moreover from this have "\<not> (scast (f ! n) :: size_t) > 30"
    using bloom_k_range [of b] by (simp add: word_less_nat_alt)
  ultimately show ?thesis using * n(2) by (simp add: bloom_KeyMayMatch_def Let_def)
qed

interpretation bloom: filter_policy "NewBloomFilterPolicy bits_per_key" for bits_per_key
proof unfold_locales
  fix keys dst
  show "\<exists>f. CreateFilter (NewBloomFilterPolicy bits_per_key) keys dst = dst @ f"
    by (simp add: NewBloomFilterPolicy_def bloom_CreateFilter_def Let_def)
next
  fix key keys dst f
  assume "key \<in> set keys" and "CreateFilter (NewBloomFilterPolicy bits_per_key) keys dst = dst @ f"
  then show "KeyMayMatch (NewBloomFilterPolicy bits_per_key) key f"
    using bloom_no_false_negatives by (simp add: NewBloomFilterPolicy_def)
qed

end
