(* ===== verification/LdbFilterBlock.thy ===== *)
theory LdbFilterBlock
  imports LdbHash
begin

text \<open>
  LevelDB's filter blocks, \<open>table/filter_block.h\<close> and \<open>table/filter_block.cc\<close>: a table has
  one filter per two kilobytes of block offsets. The builder keeps its keys flattened and the
  offsets of the filters in 32 bits; \<open>fb_abs\<close> relates it to the list of the filters and the list
  of the pending keys, on which \<open>GenerateFilter\<close> is one step. The reader decodes the offsets
  from the block; its results are \<open>None\<close> where the code reads past the block or shifts by 64
  or more.
\<close>

definition kFilterBaseLg :: nat where "kFilterBaseLg = 11"

definition kFilterBase :: uint64_t where "kFilterBase = push_bit kFilterBaseLg 1"

section \<open>The builder\<close>

record FilterBlockBuilder =
  fb_keys :: "pb_byte_t list"
  fb_start :: "nat list"
  fb_result :: "pb_byte_t list"
  fb_offsets :: "uint32_t list"

definition new_FilterBlockBuilder :: FilterBlockBuilder where
  "new_FilterBlockBuilder = \<lparr>fb_keys = [], fb_start = [], fb_result = [], fb_offsets = []\<rparr>"

definition GenerateFilter :: "FilterPolicy \<Rightarrow> FilterBlockBuilder \<Rightarrow> FilterBlockBuilder" where
  "GenerateFilter policy b =
     (let num_keys = length (fb_start b) in
      if num_keys = 0 then b\<lparr>fb_offsets := fb_offsets b @ [of_nat (length (fb_result b))]\<rparr>
      else
        let starts = fb_start b @ [length (fb_keys b)];
            tmp_keys = map (\<lambda>i. take (starts ! (i + 1) - starts ! i) (drop (starts ! i) (fb_keys b)))
              [0..<num_keys]
        in \<lparr>fb_keys = [], fb_start = [],
            fb_result = CreateFilter policy tmp_keys (fb_result b),
            fb_offsets = fb_offsets b @ [of_nat (length (fb_result b))]\<rparr>)"

lemma length_GenerateFilter: "length (fb_offsets (GenerateFilter policy b)) = Suc (length (fb_offsets b))"
  by (simp add: GenerateFilter_def Let_def)

function StartBlock_loop :: "FilterPolicy \<Rightarrow> nat \<Rightarrow> FilterBlockBuilder \<Rightarrow> FilterBlockBuilder" where
  "StartBlock_loop policy filter_index b =
     (if filter_index > length (fb_offsets b)
      then StartBlock_loop policy filter_index (GenerateFilter policy b) else b)"
  by pat_completeness auto
termination
  by (relation "measure (\<lambda>(policy, i, b). i - length (fb_offsets b))") (auto simp: length_GenerateFilter)

declare StartBlock_loop.simps [simp del]

text \<open>\<open>None\<close> is a failed assertion.\<close>

definition StartBlock :: "FilterPolicy \<Rightarrow> uint64_t \<Rightarrow> FilterBlockBuilder \<Rightarrow> FilterBlockBuilder option" where
  "StartBlock policy block_offset b =
     (let filter_index = unat (block_offset div kFilterBase)
      in if filter_index \<ge> length (fb_offsets b) then Some (StartBlock_loop policy filter_index b)
         else None)"

definition AddKey :: "pb_byte_t list \<Rightarrow> FilterBlockBuilder \<Rightarrow> FilterBlockBuilder" where
  "AddKey key b = b\<lparr>fb_start := fb_start b @ [length (fb_keys b)], fb_keys := fb_keys b @ key\<rparr>"

definition FilterBlock_Finish :: "FilterPolicy \<Rightarrow> FilterBlockBuilder \<Rightarrow> pb_byte_t list" where
  "FilterBlock_Finish policy b =
     (let b = (if fb_start b \<noteq> [] then GenerateFilter policy b else b);
          array_offset = of_nat (length (fb_result b));
          result = fold (\<lambda>off r. PutFixed32 r off) (fb_offsets b) (fb_result b)
      in PutFixed32 result array_offset @ [of_nat kFilterBaseLg])"

section \<open>The reader\<close>

text \<open>\<open>data_\<close> is the block and \<open>offset_\<close> a position in it.\<close>

record FilterBlockReader =
  fr_data :: "pb_byte_t list"
  fr_offset :: nat
  fr_num :: nat
  fr_base_lg :: size_t

definition new_FilterBlockReader :: "pb_byte_t list \<Rightarrow> FilterBlockReader option" where
  "new_FilterBlockReader contents =
     (let n = length contents in
      if n < 5 then Some \<lparr>fr_data = [], fr_offset = 0, fr_num = 0, fr_base_lg = 0\<rparr>
      else let base_lg = scast (contents ! (n - 1)) in
        case DecodeFixed32 (drop (n - 5) contents) of None \<Rightarrow> None
        | Some last_word \<Rightarrow>
            if unat last_word > n - 5
            then Some \<lparr>fr_data = [], fr_offset = 0, fr_num = 0, fr_base_lg = base_lg\<rparr>
            else Some \<lparr>fr_data = contents, fr_offset = unat last_word,
              fr_num = (n - 5 - unat last_word) div 4, fr_base_lg = base_lg\<rparr>)"

definition FilterBlock_KeyMayMatch ::
  "FilterPolicy \<Rightarrow> FilterBlockReader \<Rightarrow> uint64_t \<Rightarrow> pb_byte_t list \<Rightarrow> bool option" where
  "FilterBlock_KeyMayMatch policy r block_offset key =
     (if fr_base_lg r \<ge> 64 then None
      else let index = unat (drop_bit (unat (fr_base_lg r)) block_offset) in
        if index < fr_num r then
          (case (DecodeFixed32 (drop (fr_offset r + index * 4) (fr_data r)),
                 DecodeFixed32 (drop (fr_offset r + index * 4 + 4) (fr_data r))) of
             (Some st, Some limit) \<Rightarrow>
               if st \<le> limit \<and> unat limit \<le> fr_offset r
               then Some (KeyMayMatch policy key (take (unat (limit - st)) (drop (unat st) (fr_data r))))
               else if st = limit then Some False
               else Some True
           | _ \<Rightarrow> None)
        else Some True)"

section \<open>The abstract builder\<close>

definition offs :: "'a list list \<Rightarrow> nat \<Rightarrow> nat" where
  "offs xss i = length (concat (take i xss))"

lemma offs_simps [simp]: "offs xss 0 = 0" "offs xss (length xss) = length (concat xss)"
  by (simp_all add: offs_def)

lemma offs_append: "i \<le> length xss \<Longrightarrow> offs (xss @ yss) i = offs xss i"
  by (simp add: offs_def)

lemma offs_Suc: "i < length xss \<Longrightarrow> offs xss (Suc i) = offs xss i + length (xss ! i)"
  by (simp add: offs_def take_Suc_conv_app_nth)

lemma offs_le: "offs xss i \<le> length (concat xss)"
proof -
  have "concat xss = concat (take i xss) @ concat (drop i xss)"
    by (metis append_take_drop_id concat_append)
  then show ?thesis unfolding offs_def by (metis le_add1 length_append)
qed

lemma slice_concat: "i < length xss \<Longrightarrow> take (length (xss ! i)) (drop (offs xss i) (concat xss)) = xss ! i"
proof -
  assume i: "i < length xss"
  have "concat xss = concat (take i xss) @ xss ! i @ concat (drop (Suc i) xss)"
    by (metis append.assoc concat.simps(2) concat_append i id_take_nth_drop)
  then show ?thesis by (simp add: offs_def)
qed

text \<open>The concrete state of the filters \<open>fs\<close> and the pending keys \<open>ks\<close>.\<close>

definition fb_abs :: "FilterBlockBuilder \<Rightarrow> pb_byte_t list list \<Rightarrow> pb_byte_t list list \<Rightarrow> bool" where
  "fb_abs b fs ks \<longleftrightarrow> fb_result b = concat fs \<and>
     fb_offsets b = map (\<lambda>i. of_nat (offs fs i)) [0..<length fs] \<and>
     fb_keys b = concat ks \<and> fb_start b = map (offs ks) [0..<length ks]"

lemma fb_abs_new: "fb_abs new_FilterBlockBuilder [] []"
  by (simp add: fb_abs_def new_FilterBlockBuilder_def)

lemma fb_abs_AddKey: "fb_abs b fs ks \<Longrightarrow> fb_abs (AddKey key b) fs (ks @ [key])"
  by (simp add: fb_abs_def AddKey_def offs_append)

context filter_policy begin

text \<open>\<open>GenerateFilter\<close> turns the pending keys into one filter that all of them match.\<close>

lemma fb_abs_Generate:
  assumes "fb_abs b fs ks"
  shows "\<exists>f. fb_abs (GenerateFilter p b) (fs @ [f]) [] \<and> (\<forall>k \<in> set ks. KeyMayMatch p k f)"
proof (cases "ks = []")
  case True
  then have "fb_abs (GenerateFilter p b) (fs @ [[]]) []"
    using assms by (simp add: fb_abs_def GenerateFilter_def offs_append)
  then show ?thesis using True by auto
next
  case False
  let ?starts = "fb_start b @ [length (fb_keys b)]"
  have starts: "?starts ! i = offs ks i" if "i \<le> length ks" for i
    using assms that by (cases "i = length ks") (auto simp: fb_abs_def nth_append)
  have "map (\<lambda>i. take (?starts ! (i + 1) - ?starts ! i) (drop (?starts ! i) (fb_keys b))) [0..<length ks] = ks"
    (is "?l = _")
  proof (rule nth_equalityI)
    fix i assume "i < length ?l"
    then have i: "i < length ks" by simp
    then have "take (?starts ! (i + 1) - ?starts ! i) (drop (?starts ! i) (fb_keys b)) = ks ! i"
      using assms starts [of i] starts [of "Suc i"] slice_concat [of i ks]
      by (simp add: offs_Suc fb_abs_def)
    then show "?l ! i = ks ! i" using i by simp
  qed simp
  then have tmp: "map (\<lambda>i. take (?starts ! (i + 1) - ?starts ! i) (drop (?starts ! i) (fb_keys b)))
      [0..<length (fb_start b)] = ks"
    using assms by (simp add: fb_abs_def)
  obtain f where f: "CreateFilter p ks (fb_result b) = fb_result b @ f" using create_appends by blast
  have "fb_abs (GenerateFilter p b) (fs @ [f]) []"
    using assms False f tmp
    by (simp add: fb_abs_def GenerateFilter_def Let_def offs_append)
  moreover have "\<forall>k \<in> set ks. KeyMayMatch p k f" using no_false_negatives f by blast
  ultimately show ?thesis by blast
qed

end

section \<open>Runs of the builder\<close>

datatype fb_op = Start uint64_t | Add "pb_byte_t list"

primrec run_builder :: "FilterPolicy \<Rightarrow> fb_op list \<Rightarrow> FilterBlockBuilder \<Rightarrow> FilterBlockBuilder option" where
  "run_builder policy [] b = Some b"
| "run_builder policy (x # xs) b =
     (case (case x of Start off \<Rightarrow> StartBlock policy off b | Add key \<Rightarrow> Some (AddKey key b)) of
        None \<Rightarrow> None | Some b \<Rightarrow> run_builder policy xs b)"

text \<open>The keys that were added, each with the block offset of the last \<open>StartBlock\<close>.\<close>

fun added :: "uint64_t option \<Rightarrow> fb_op list \<Rightarrow> (uint64_t \<times> pb_byte_t list) set" where
  "added cur [] = {}"
| "added cur (Start off # xs) = added (Some off) xs"
| "added None (Add key # xs) = added None xs"
| "added (Some off) (Add key # xs) = insert (off, key) (added (Some off) xs)"

definition filter_index :: "uint64_t \<Rightarrow> nat" where
  "filter_index off = unat (off div kFilterBase)"

definition fb_inv ::
  "FilterPolicy \<Rightarrow> (uint64_t \<times> pb_byte_t list) set \<Rightarrow> FilterBlockBuilder \<Rightarrow>
   pb_byte_t list list \<Rightarrow> pb_byte_t list list \<Rightarrow> bool" where
  "fb_inv p A b fs ks \<longleftrightarrow> fb_abs b fs ks \<and>
     (\<forall>(off, key) \<in> A. if filter_index off < length fs then KeyMayMatch p key (fs ! filter_index off)
        else filter_index off = length fs \<and> key \<in> set ks)"

lemma fb_abs_length: "fb_abs b fs ks \<Longrightarrow> length (fb_offsets b) = length fs"
  by (simp add: fb_abs_def)

context filter_policy begin

lemma fb_inv_Generate:
  assumes "fb_inv p A b fs ks"
  shows "\<exists>f. fb_inv p A (GenerateFilter p b) (fs @ [f]) []"
proof -
  obtain f where f: "fb_abs (GenerateFilter p b) (fs @ [f]) []" "\<forall>k \<in> set ks. KeyMayMatch p k f"
    using fb_abs_Generate [of b fs ks] assms unfolding fb_inv_def by blast
  then have "fb_inv p A (GenerateFilter p b) (fs @ [f]) []"
    using assms by (auto simp: fb_inv_def nth_append split: if_splits)
  then show ?thesis by blast
qed

lemma fb_inv_StartBlock_loop:
  "fb_inv p A b fs ks \<Longrightarrow> i \<ge> length fs \<Longrightarrow>
   \<exists>fs' ks'. fb_inv p A (StartBlock_loop p i b) fs' ks' \<and> length fs' = i"
proof (induction "i - length fs" arbitrary: b fs ks)
  case 0
  then have "length (fb_offsets b) = i" using fb_abs_length by (auto simp: fb_inv_def)
  then have "StartBlock_loop p i b = b" by (simp add: StartBlock_loop.simps [of p i b])
  then show ?case using 0 by auto
next
  case (Suc n)
  have "length (fb_offsets b) = length fs" using Suc.prems(1) fb_abs_length by (auto simp: fb_inv_def)
  then have step: "StartBlock_loop p i b = StartBlock_loop p i (GenerateFilter p b)"
    using Suc.hyps(2) by (simp add: StartBlock_loop.simps [of p i b])
  obtain f where f: "fb_inv p A (GenerateFilter p b) (fs @ [f]) []"
    using fb_inv_Generate [OF Suc.prems(1)] by blast
  show ?case unfolding step by (rule Suc.hyps(1) [OF _ f]) (use Suc.hyps(2) in simp_all)
qed

lemma fb_inv_AddKey:
  assumes "fb_inv p A b fs ks"
  shows "fb_inv p A (AddKey key b) fs (ks @ [key])"
    and "filter_index off = length fs \<Longrightarrow> fb_inv p (insert (off, key) A) (AddKey key b) fs (ks @ [key])"
  using assms fb_abs_AddKey [of b fs ks key] by (auto simp: fb_inv_def split: if_splits)

lemma run_builder_inv:
  "run_builder p ops b = Some b' \<Longrightarrow> fb_inv p A b fs ks \<Longrightarrow>
   (\<And>off. cur = Some off \<Longrightarrow> filter_index off = length fs) \<Longrightarrow>
   \<exists>fs' ks'. fb_inv p (A \<union> added cur ops) b' fs' ks'"
proof (induction ops arbitrary: b A fs ks cur)
  case Nil
  then show ?case by auto
next
  case (Cons x xs)
  show ?case
  proof (cases x)
    case (Start off)
    have len: "length (fb_offsets b) = length fs" using Cons.prems(2) fb_abs_length by (auto simp: fb_inv_def)
    then have "StartBlock p off b =
        (if length fs \<le> filter_index off then Some (StartBlock_loop p (filter_index off) b) else None)"
      by (simp add: StartBlock_def filter_index_def)
    with Start Cons.prems(1) have le: "length fs \<le> filter_index off"
      and run: "run_builder p xs (StartBlock_loop p (filter_index off) b) = Some b'"
      by (simp_all split: if_splits)
    obtain fs' ks' where inv: "fb_inv p A (StartBlock_loop p (filter_index off) b) fs' ks'"
      "length fs' = filter_index off"
      using fb_inv_StartBlock_loop [OF Cons.prems(2) le] by blast
    have "\<exists>fs' ks'. fb_inv p (A \<union> added (Some off) xs) b' fs' ks'"
      by (rule Cons.IH [OF run inv(1)]) (simp add: inv(2))
    then show ?thesis by (simp add: Start)
  next
    case (Add key)
    then have run: "run_builder p xs (AddKey key b) = Some b'" using Cons.prems(1) by simp
    note add = fb_inv_AddKey [OF Cons.prems(2), where key = key]
    show ?thesis
    proof (cases cur)
      case None
      then show ?thesis using Cons.IH [OF run add(1), of None] Add by simp
    next
      case (Some off)
      then have "filter_index off = length fs" using Cons.prems(3) by simp
      then show ?thesis using Cons.IH [OF run add(2), of off "Some off"] Add Some by simp
    qed
  qed
qed

end

section \<open>Reading a finished block\<close>

lemma drop_concat_fixed:
  "\<forall>x \<in> set xs. length (f x) = n \<Longrightarrow> i \<le> length xs \<Longrightarrow>
   drop (n * i) (concat (map f xs) @ ys) = concat (map f (drop i xs)) @ ys"
proof (induction xs arbitrary: i)
  case Nil
  then show ?case by simp
next
  case (Cons x xs)
  then show ?case by (cases i) (simp_all add: algebra_simps)
qed

lemma length_concat_fixed: "\<forall>x \<in> set xs. length (f x) = n \<Longrightarrow> length (concat (map f xs)) = n * length xs"
  by (induction xs) simp_all

definition block_of :: "pb_byte_t list list \<Rightarrow> pb_byte_t list" where
  "block_of fs = concat fs @
     concat (map (\<lambda>i. EncodeFixed32 (of_nat (offs fs i))) [0..<Suc (length fs)]) @ [of_nat kFilterBaseLg]"

lemma Finish_block:
  assumes "fb_abs b fs []"
  shows "FilterBlock_Finish policy b = block_of fs"
  using assms
  by (simp add: FilterBlock_Finish_def fb_abs_def block_of_def fold_PutFixed32 comp_def)
    (simp add: PutFixed32_def)

lemma length_block_of: "length (block_of fs) = length (concat fs) + 4 * length fs + 5"
  using length_concat_fixed [of "[0..<Suc (length fs)]" "\<lambda>i. EncodeFixed32 (of_nat (offs fs i))" 4]
  by (simp add: block_of_def)

lemma block_of_offset:
  assumes "i \<le> length fs"
  shows "DecodeFixed32 (drop (length (concat fs) + 4 * i) (block_of fs)) = Some (of_nat (offs fs i))"
proof -
  let ?f = "\<lambda>i. EncodeFixed32 (of_nat (offs fs i))"
  have "drop (length (concat fs) + 4 * i) (block_of fs) =
      drop (4 * i) (concat (map ?f [0..<Suc (length fs)]) @ [of_nat kFilterBaseLg])"
    unfolding block_of_def by (simp only: drop_append) simp
  also have "\<dots> = concat (map ?f (drop i [0..<Suc (length fs)])) @ [of_nat kFilterBaseLg]"
    by (rule drop_concat_fixed) (use assms in simp_all)
  also have "drop i [0..<Suc (length fs)] = i # [Suc i..<Suc (length fs)]"
    using assms by (simp add: upt_conv_Cons)
  finally show ?thesis by (simp add: EncodeFixed32_bytes DecodeFixed32_bytes)
qed

lemma block_of_data:
  "i < length fs \<Longrightarrow> take (length (fs ! i)) (drop (offs fs i) (block_of fs)) = fs ! i"
proof -
  assume i: "i < length fs"
  have le: "offs fs i + length (fs ! i) \<le> length (concat fs)"
    using offs_le [of fs "Suc i"] offs_Suc [OF i] by simp
  then have "take (length (fs ! i)) (drop (offs fs i) (block_of fs)) =
      take (length (fs ! i)) (drop (offs fs i) (concat fs))"
    by (simp add: block_of_def)
  then show ?thesis using slice_concat [OF i] by simp
qed

lemma reader_block_of:
  assumes "length (concat fs) < 2 ^ 32"
  shows "new_FilterBlockReader (block_of fs) = Some \<lparr>fr_data = block_of fs, fr_offset = length (concat fs),
    fr_num = length fs, fr_base_lg = 11\<rparr>"
proof -
  have "DecodeFixed32 (drop (length (block_of fs) - 5) (block_of fs)) = Some (of_nat (length (concat fs)))"
    using block_of_offset [of "length fs" fs] by (simp add: length_block_of)
  moreover have "block_of fs ! (length (block_of fs) - 1) = of_nat kFilterBaseLg"
  proof -
    have "last (block_of fs) = of_nat kFilterBaseLg" by (simp add: block_of_def)
    moreover have "block_of fs \<noteq> []" by (simp add: block_of_def)
    ultimately show ?thesis by (simp add: last_conv_nth)
  qed
  moreover have "unat (of_nat (length (concat fs)) :: uint32_t) = length (concat fs)"
    using assms by (simp add: unat_of_nat take_bit_nat_eq_self del: length_concat)
  moreover have "scast (of_nat kFilterBaseLg :: pb_byte_t) = (11 :: size_t)"
    by (simp add: kFilterBaseLg_def scast_eq)
  ultimately show ?thesis
    unfolding new_FilterBlockReader_def Let_def by (simp add: length_block_of del: length_concat)
qed

lemma filter_index_shift: "unat (drop_bit 11 off) = filter_index off"
  by (simp add: filter_index_def kFilterBase_def kFilterBaseLg_def drop_bit_eq_div)

lemma match_block_of:
  assumes "length (concat fs) < 2 ^ 32" and "filter_index off < length fs"
  shows "FilterBlock_KeyMayMatch policy \<lparr>fr_data = block_of fs, fr_offset = length (concat fs),
      fr_num = length fs, fr_base_lg = 11\<rparr> off key =
    Some (KeyMayMatch policy key (fs ! filter_index off))"
proof -
  let ?i = "filter_index off"
  have u: "unat (of_nat (offs fs j) :: uint32_t) = offs fs j" for j
    using assms(1) offs_le [of fs j] by (simp add: unat_of_nat take_bit_nat_eq_self)
  have suc: "offs fs (Suc ?i) = offs fs ?i + length (fs ! ?i)" by (rule offs_Suc [OF assms(2)])
  have le: "(of_nat (offs fs ?i) :: uint32_t) \<le> of_nat (offs fs (Suc ?i))"
    using suc unfolding word_le_nat_alt u by simp
  have "unat (of_nat (offs fs (Suc ?i)) - of_nat (offs fs ?i) :: uint32_t) = length (fs ! ?i)"
    using suc unfolding unat_sub [OF le] u by simp
  moreover have "unat (of_nat (offs fs (Suc ?i)) :: uint32_t) \<le> length (concat fs)"
    using offs_le by (simp only: u)
  moreover have "DecodeFixed32 (drop (length (concat fs) + ?i * 4) (block_of fs)) = Some (of_nat (offs fs ?i))"
    "DecodeFixed32 (drop (length (concat fs) + ?i * 4 + 4) (block_of fs)) = Some (of_nat (offs fs (Suc ?i)))"
    using block_of_offset [of ?i fs] block_of_offset [of "Suc ?i" fs] assms(2)
    by (simp_all add: algebra_simps del: length_concat)
  ultimately show ?thesis
    unfolding FilterBlock_KeyMayMatch_def Let_def
    using assms(2) le block_of_data [OF assms(2)]
    by (simp add: filter_index_shift u del: length_concat)
qed

context filter_policy begin

lemma finished_block_reader:
  assumes "fb_inv p A b fs ks" and "length (FilterBlock_Finish p b) < 2 ^ 32"
  shows "\<exists>r. new_FilterBlockReader (FilterBlock_Finish p b) = Some r \<and>
    (\<forall>off key. FilterBlock_KeyMayMatch p r off key \<noteq> None) \<and>
    (\<forall>(off, key) \<in> A. FilterBlock_KeyMayMatch p r off key = Some True)"
proof -
  obtain b1 fs1 where b1: "FilterBlock_Finish p b = FilterBlock_Finish p b1" "fb_inv p A b1 fs1 []"
  proof (cases "fb_start b = []")
    case True
    then have "ks = []" using assms(1) by (simp add: fb_inv_def fb_abs_def)
    then show ?thesis using that assms(1) by blast
  next
    case False
    obtain f where f: "fb_inv p A (GenerateFilter p b) (fs @ [f]) []"
      using fb_inv_Generate [OF assms(1)] by blast
    then have "fb_start (GenerateFilter p b) = []" by (simp add: fb_inv_def fb_abs_def)
    then have "FilterBlock_Finish p b = FilterBlock_Finish p (GenerateFilter p b)"
      using False by (simp add: FilterBlock_Finish_def)
    then show ?thesis using that f by blast
  qed
  have fin: "FilterBlock_Finish p b = block_of fs1"
    using b1 Finish_block by (simp add: fb_inv_def)
  then have len: "length (concat fs1) < 2 ^ 32" using assms(2) by (simp add: length_block_of)
  have k: "filter_index off < length fs1 \<and> KeyMayMatch p key (fs1 ! filter_index off)" if "(off, key) \<in> A" for off key
    using b1(2) that by (auto simp: fb_inv_def split: if_splits)
  let ?r = "\<lparr>fr_data = block_of fs1, fr_offset = length (concat fs1), fr_num = length fs1, fr_base_lg = 11\<rparr>"
  have "FilterBlock_KeyMayMatch p ?r off key =
      Some (filter_index off < length fs1 \<longrightarrow> KeyMayMatch p key (fs1 ! filter_index off))" for off key
  proof (cases "filter_index off < length fs1")
    case True
    then show ?thesis by (simp add: match_block_of [OF len] del: length_concat)
  next
    case False
    then show ?thesis by (simp add: FilterBlock_KeyMayMatch_def filter_index_shift)
  qed
  then show ?thesis
    unfolding fin reader_block_of [OF len] using k by (auto simp del: length_concat)
qed

lemma finished_block_matches:
  assumes "fb_inv p A b fs ks" and "(off, key) \<in> A" and "length (FilterBlock_Finish p b) < 2 ^ 32"
  shows "\<exists>r. new_FilterBlockReader (FilterBlock_Finish p b) = Some r \<and>
    FilterBlock_KeyMayMatch p r off key = Some True"
  using finished_block_reader [OF assms(1,3)] assms(2) by blast

end

end
