(* ===== verification/LdbFilterProps.thy ===== *)
theory LdbFilterProps
  imports LdbFilterBlock
begin

text \<open>Properties of LevelDB's random numbers, Bloom filters and filter blocks.\<close>

section \<open>Random numbers\<close>

lemma mod_2p31: "(p :: nat) = p div 2 ^ 31 * 2 ^ 31 + p mod 2 ^ 31"
  by simp

text \<open>The state \<open>seed_\<close> that the class keeps.\<close>

definition good_seed :: "uint32_t \<Rightarrow> bool" where
  "good_seed s \<longleftrightarrow> 1 \<le> unat s \<and> unat s \<le> 2147483646"

text \<open>
  The random number generator. The constructor gives a state in \<open>[1, 2 ^ 31 - 2]\<close>, and
  \<open>Next\<close> computes \<open>seed * 16807 mod (2 ^ 31 - 1)\<close> by shifting and adding, without
  overflow and within that range again.
\<close>

theorem random_next_spec:
  assumes "good_seed s"
  shows "good_seed (Random x) \<and> good_seed (Next s) \<and>
    unat (Next s) = (unat s * 16807) mod 2147483647"
proof -
  define p where "p = unat s * 16807"
  define q where "q = p div 2 ^ 31 + p mod 2 ^ 31"
  have s: "1 \<le> unat s" "unat s \<le> 2147483646" using assms by (simp_all add: good_seed_def)
  have p: "p < 2 ^ 31 * 16807" using s by (simp add: p_def)
  have q: "q < 2 ^ 31 + 16807"
  proof -
    have "p div 2 ^ 31 < 16807" using p by (simp add: div_less_iff_less_mult)
    moreover have "p mod 2 ^ 31 < 2 ^ 31" by simp
    ultimately show ?thesis unfolding q_def by linarith
  qed
  have "p = p div 2 ^ 31 * 2147483647 + q" unfolding q_def using mod_2p31 [of p] by simp
  then have pq: "p mod 2147483647 = q mod 2147483647" by (metis add.commute mod_mult_self1)
  have "p mod 2147483647 \<noteq> 0"
  proof
    assume "p mod 2147483647 = 0"
    then have "2147483647 dvd unat s * 16807" by (simp add: p_def dvd_eq_mod_eq_0)
    moreover have "coprime (2147483647 :: nat) (7 ^ 5)"
      using coprime_mod_left_iff [of 7 "2147483647 :: nat"] by (simp only: coprime_power_right_iff) simp
    then have "coprime (2147483647 :: nat) 16807" by simp
    ultimately have "2147483647 dvd unat s" by (simp add: coprime_dvd_mult_left_iff)
    then show False using s by (auto dest: dvd_imp_le)
  qed
  then have nz: "q \<noteq> 0" "q \<noteq> 2147483647" using pq by auto
  define product where "product = (ucast s :: uint64_t) * 16807"
  have u: "unat product = p"
    using p by (simp add: product_def p_def unat_word_ariths unsigned_ucast_eq take_bit_nat_eq_self)
  have low: "product AND 2147483647 = take_bit 31 product"
    by (simp add: take_bit_eq_mask mask_eq_exp_minus_1)
  have "unat (drop_bit 31 product + take_bit 31 product) = q"
    using q by (simp add: unat_word_ariths unat_drop_bit unsigned_take_bit_eq take_bit_eq_mod u q_def)
  then have sum: "unat (ucast (drop_bit 31 product + (product AND 2147483647)) :: uint32_t) = q"
    using q by (simp only: low) (simp add: unsigned_ucast_eq take_bit_nat_eq_self)
  have nxt: "unat (Next s) = (if 2147483647 < q then q - 2147483647 else q)"
    using sum by (simp add: Next_def Let_def word_less_nat_alt unat_sub_if' flip: product_def)
  have "q mod 2147483647 = (if 2147483647 < q then q - 2147483647 else q)"
    using q nz by (simp add: mod_if)
  moreover have "good_seed (Random x)"
  proof -
    have "unat (x AND 0x7fffffff) = unat (take_bit 31 x)" by (simp add: take_bit_eq_mask mask_eq_exp_minus_1)
    also have "\<dots> < 2 ^ 31" unfolding unsigned_take_bit_eq by (rule take_bit_nat_less_exp)
    finally show ?thesis
      by (auto simp: good_seed_def Random_def Let_def word_unat_eq_iff)
  qed
  ultimately show ?thesis using nxt pq nz q by (auto simp: good_seed_def p_def)
qed

theorem random_next_spec_witness:
  "good_seed (Random 0) \<and> good_seed (Next 1) \<and> unat (Next 1) = (unat (1 :: uint32_t) * 16807) mod 2147483647"
  by (rule random_next_spec) (simp add: good_seed_def)

section \<open>Bloom filters\<close>

text \<open>
  C32: Bloom filters have no false negatives: every key of the list matches the filter that
  \<open>CreateFilter\<close> appends, for every \<open>bits_per_key\<close> and whatever was in the destination.
\<close>

theorem bloom_filter_correct:
  assumes "key \<in> set keys"
  shows "\<exists>f. CreateFilter (NewBloomFilterPolicy bits_per_key) keys dst = dst @ f \<and>
    KeyMayMatch (NewBloomFilterPolicy bits_per_key) key f"
  using bloom.create_appends [of bits_per_key keys dst] bloom.no_false_negatives [OF assms] by blast

theorem bloom_filter_correct_witness:
  "\<exists>f. CreateFilter (NewBloomFilterPolicy 10) [[1, 2], [3]] [] = [] @ f \<and>
    KeyMayMatch (NewBloomFilterPolicy 10) [3] f"
  by (rule bloom_filter_correct) simp

section \<open>Filter blocks\<close>

text \<open>
  C16: A filter block has no false negatives: a key added after \<open>StartBlock off\<close> matches at the
  offset \<open>off\<close> in the block that \<open>Finish\<close> returns, for every sequence of calls whose
  assertions hold and a block that the 32-bit offsets can address.
\<close>

theorem filter_block_correct:
  assumes "run_builder (NewBloomFilterPolicy n) ops new_FilterBlockBuilder = Some b"
    and "(off, key) \<in> added None ops"
    and "length (FilterBlock_Finish (NewBloomFilterPolicy n) b) < 2 ^ 32"
  shows "\<exists>r. new_FilterBlockReader (FilterBlock_Finish (NewBloomFilterPolicy n) b) = Some r \<and>
    FilterBlock_KeyMayMatch (NewBloomFilterPolicy n) r off key = Some True"
proof -
  have "fb_inv (NewBloomFilterPolicy n) {} new_FilterBlockBuilder [] []"
    by (simp add: fb_inv_def fb_abs_new)
  then obtain fs ks where "fb_inv (NewBloomFilterPolicy n) ({} \<union> added None ops) b fs ks"
    using bloom.run_builder_inv [OF assms(1), of "{}" "[]" "[]" None] by auto
  then show ?thesis by (rule bloom.finished_block_matches) (use assms in simp_all)
qed

lemma length_bloom_CreateFilter:
  "length (bloom_CreateFilter b keys dst) = length dst + ((if length keys * b < 64 then 64 else length keys * b) + 7) div 8 + 1"
proof -
  let ?n = "((if length keys * b < 64 then 64 else length keys * b) + 7) div 8"
  have "64 \<le> (if length keys * b < 64 then 64 else length keys * b)" by simp
  then have "0 < ?n * 8" by linarith
  from fold_bloom_add [OF this refl, of "replicate ?n 0 @ [of_nat (bloom_k b)]" "bloom_k b" keys]
  show ?thesis by (simp add: bloom_CreateFilter_def Let_def)
qed

theorem filter_block_correct_witness:
  "\<exists>b r. run_builder (NewBloomFilterPolicy 10) [Start 0, Add [1]] new_FilterBlockBuilder = Some b \<and>
    new_FilterBlockReader (FilterBlock_Finish (NewBloomFilterPolicy 10) b) = Some r \<and>
    FilterBlock_KeyMayMatch (NewBloomFilterPolicy 10) r 0 [1] = Some True"
proof -
  let ?p = "NewBloomFilterPolicy 10"
  let ?b = "\<lparr>fb_keys = [1], fb_start = [0], fb_result = [], fb_offsets = []\<rparr>"
  have b: "run_builder ?p [Start 0, Add [1]] new_FilterBlockBuilder = Some ?b"
    by (simp add: new_FilterBlockBuilder_def StartBlock_def StartBlock_loop.simps [of _ 0] AddKey_def)
  have len: "length (FilterBlock_Finish ?p ?b) < 2 ^ 32"
    by (simp add: FilterBlock_Finish_def GenerateFilter_def NewBloomFilterPolicy_def PutFixed32_def
        length_bloom_CreateFilter)
  have "(0, [1]) \<in> added None [Start 0, Add [1]]" by simp
  from filter_block_correct [OF b this len] b show ?thesis by blast
qed

lemma scast_shift: "(64 :: size_t) \<le> scast (c :: pb_byte_t) \<longleftrightarrow> \<not> (0 \<le> sint c \<and> sint c < 64)"
proof -
  define x where "x = sint c"
  have x: "- 128 \<le> x" "x < 128"
    using sint_greater_eq [of c] sint_less [of c] by (simp_all add: x_def)
  have "uint (scast c :: size_t) = take_bit 64 x"
    using unsigned_of_int [of x, where 'a = int and 'b = 64] by (simp only: scast_eq x_def) simp
  then have u: "uint (scast c :: size_t) = x mod 2 ^ 64" by (simp only: take_bit_eq_mod)
  show ?thesis
  proof (cases "0 \<le> x")
    case True
    then have "x mod 2 ^ 64 = x" using x by (intro mod_pos_pos_trivial) simp_all
    then show ?thesis using u True by (auto simp: word_le_def x_def [symmetric])
  next
    case False
    have "x mod 2 ^ 64 = (x + 2 ^ 64) mod 2 ^ 64" by (simp only: mod_add_self2)
    also have "\<dots> = x + 2 ^ 64" using x False by (intro mod_pos_pos_trivial) simp_all
    finally show ?thesis using u x False by (simp add: word_le_def x_def [symmetric])
  qed
qed

text \<open>
  C33: The reader on any bytes: it is defined on every block, reads nothing outside it, and is
  undefined only by the shift by \<open>base_lg_\<close>, the last byte of the block, which nothing
  checks: exactly when that byte, as a signed number, is not in \<open>[0, 63]\<close>.
\<close>

theorem filter_block_reader_safe:
  "\<exists>r. new_FilterBlockReader contents = Some r \<and>
    (FilterBlock_KeyMayMatch policy r off key = None \<longleftrightarrow>
       5 \<le> length contents \<and> \<not> (0 \<le> sint (last contents) \<and> sint (last contents) < 64))"
proof (cases "length contents < 5")
  case True
  then show ?thesis by (simp add: new_FilterBlockReader_def FilterBlock_KeyMayMatch_def)
next
  case False
  let ?n = "length contents"
  have last: "contents ! (?n - 1) = last contents" using False by (subst last_conv_nth) auto
  have lg: "(64 :: size_t) \<le> scast (last contents) \<longleftrightarrow> \<not> (0 \<le> sint (last contents) \<and> sint (last contents) < 64)"
    by (rule scast_shift)
  obtain w where w: "DecodeFixed32 (drop (?n - 5) contents) = Some w"
    using False by (simp add: DecodeFixed32_Some)
  show ?thesis
  proof (cases "unat w > ?n - 5")
    case True
    then show ?thesis using False w lg last
      by (simp add: new_FilterBlockReader_def FilterBlock_KeyMayMatch_def)
  next
    case le: False
    let ?r = "\<lparr>fr_data = contents, fr_offset = unat w, fr_num = (?n - 5 - unat w) div 4,
      fr_base_lg = scast (last contents)\<rparr>"
    have reads: "\<exists>x y. DecodeFixed32 (drop (unat w + i * 4) contents) = Some x \<and>
        DecodeFixed32 (drop (unat w + i * 4 + 4) contents) = Some y"
      if "i < (?n - 5 - unat w) div 4" for i
    proof -
      have "i * 4 + 4 \<le> ?n - 5 - unat w" using that by linarith
      then show ?thesis using False le by (simp add: DecodeFixed32_Some)
    qed
    let ?i = "unat (drop_bit (unat (scast (last contents) :: size_t)) off)"
    have "FilterBlock_KeyMayMatch policy ?r off key = None \<longleftrightarrow> (64 :: size_t) \<le> scast (last contents)"
    proof (cases "?i < (?n - 5 - unat w) div 4")
      case True
      from reads [OF this] show ?thesis by (auto simp: FilterBlock_KeyMayMatch_def Let_def)
    qed (simp add: FilterBlock_KeyMayMatch_def Let_def)
    then show ?thesis using False le w lg last by (simp add: new_FilterBlockReader_def)
  qed
qed

end
