(* ===== verification/LdbLogging.thy ===== *)
theory LdbLogging
  imports LdbCoding
begin

text \<open>
  LevelDB's \<open>util/logging.cc\<close> and \<open>util/status.cc\<close>, with \<open>include/leveldb/status.h\<close>:
  numbers and strings in readable form, the parser of decimal numbers and the status object.
  The conversions of \<open>snprintf\<close> that the code uses are \<open>decimal\<close>, \<open>pad0\<close> and
  \<open>hex2\<close>.
\<close>

section \<open>Characters and conversions\<close>

text \<open>The bytes of a string literal.\<close>

definition str :: "string \<Rightarrow> pb_byte_t list" where
  "str s = map (\<lambda>c. of_nat (of_char c)) s"

definition digit :: "nat \<Rightarrow> pb_byte_t" where
  "digit d = 0x30 + of_nat d"

text \<open>\<open>%llu\<close>, the minimal width of \<open>%06llu\<close>, and \<open>%02x\<close> of a byte.\<close>

fun decimal :: "nat \<Rightarrow> pb_byte_t list" where
  "decimal n = (if n < 10 then [digit n] else decimal (n div 10) @ [digit (n mod 10)])"

declare decimal.simps [simp del]

definition pad0 :: "nat \<Rightarrow> pb_byte_t list \<Rightarrow> pb_byte_t list" where
  "pad0 w s = replicate (w - length s) 0x30 @ s"

definition hex_digit :: "nat \<Rightarrow> pb_byte_t" where
  "hex_digit d = (if d < 10 then 0x30 + of_nat d else 0x57 + of_nat d)"

definition hex2 :: "pb_byte_t \<Rightarrow> pb_byte_t list" where
  "hex2 c = [hex_digit (unat c div 16), hex_digit (unat c mod 16)]"

section \<open>\<open>util/logging.cc\<close>\<close>

definition AppendNumberTo :: "pb_byte_t list \<Rightarrow> uint64_t \<Rightarrow> pb_byte_t list" where
  "AppendNumberTo s num = s @ decimal (unat num)"

text \<open>A \<open>char\<close> is signed on the target: bytes from 0x80 on are below the space.\<close>

definition escaped :: "pb_byte_t \<Rightarrow> pb_byte_t list" where
  "escaped c = (if 0x20 \<le>s c \<and> c \<le>s 0x7e then [c] else [0x5c, 0x78] @ hex2 c)"

definition AppendEscapedStringTo :: "pb_byte_t list \<Rightarrow> pb_byte_t list \<Rightarrow> pb_byte_t list" where
  "AppendEscapedStringTo s value = fold (\<lambda>c r. r @ escaped c) value s"

definition NumberToString :: "uint64_t \<Rightarrow> pb_byte_t list" where
  "NumberToString num = AppendNumberTo [] num"

definition EscapeString :: "pb_byte_t list \<Rightarrow> pb_byte_t list" where
  "EscapeString value = AppendEscapedStringTo [] value"

text \<open>
  The result is what is left of the input and the number; the number is \<open>None\<close> where the
  function returns false.
\<close>

definition kMaxUint64 :: uint64_t where "kMaxUint64 = NOT 0"

fun consume_loop :: "uint64_t \<Rightarrow> nat \<Rightarrow> pb_byte_t list \<Rightarrow> pb_byte_t list \<times> uint64_t option" where
  "consume_loop v digits [] = ([], if digits > 0 then Some v else None)"
| "consume_loop v digits (c # cs) =
     (if 0x30 \<le>s c \<and> c \<le>s 0x39 then
        let delta = ucast (c - 0x30) :: uint64_t
        in if v > kMaxUint64 div 10 \<or> v = kMaxUint64 div 10 \<and> delta > kMaxUint64 mod 10
           then (c # cs, None)
           else consume_loop (v * 10 + delta) (digits + 1) cs
      else (c # cs, if digits > 0 then Some v else None))"

definition ConsumeDecimalNumber :: "pb_byte_t list \<Rightarrow> pb_byte_t list \<times> uint64_t option" where
  "ConsumeDecimalNumber input = consume_loop 0 0 input"

section \<open>Status\<close>

text \<open>
  \<open>state_\<close>: no object for success, else the length of the message in four bytes, the code and
  the message. Lengths are taken modulo 2^32, as the code does; the object is large enough for
  them where their sum does not wrap.
\<close>

type_synonym Status = "pb_byte_t list option"
type_synonym Code = pb_byte_t

definition kOk :: Code where "kOk = 0"
definition kNotFound :: Code where "kNotFound = 1"
definition kCorruption :: Code where "kCorruption = 2"
definition kNotSupported :: Code where "kNotSupported = 3"
definition kInvalidArgument :: Code where "kInvalidArgument = 4"
definition kIOError :: Code where "kIOError = 5"

definition Status_OK :: Status where "Status_OK = None"

definition Status_make :: "Code \<Rightarrow> pb_byte_t list \<Rightarrow> pb_byte_t list \<Rightarrow> Status" where
  "Status_make c msg msg2 =
     (let len1 = of_nat (length msg) :: uint32_t;
          len2 = of_nat (length msg2) :: uint32_t;
          n = len1 + (if len2 \<noteq> 0 then 2 + len2 else 0)
      in Some (le_bytes 4 n @ [c] @ take (unat len1) msg @
           (if len2 \<noteq> 0 then str '': '' @ take (unat len2) msg2 else [])))"

definition NotFound :: "pb_byte_t list \<Rightarrow> pb_byte_t list \<Rightarrow> Status" where
  "NotFound msg msg2 = Status_make kNotFound msg msg2"
definition Corruption :: "pb_byte_t list \<Rightarrow> pb_byte_t list \<Rightarrow> Status" where
  "Corruption msg msg2 = Status_make kCorruption msg msg2"
definition NotSupported :: "pb_byte_t list \<Rightarrow> pb_byte_t list \<Rightarrow> Status" where
  "NotSupported msg msg2 = Status_make kNotSupported msg msg2"
definition InvalidArgument :: "pb_byte_t list \<Rightarrow> pb_byte_t list \<Rightarrow> Status" where
  "InvalidArgument msg msg2 = Status_make kInvalidArgument msg msg2"
definition IOError :: "pb_byte_t list \<Rightarrow> pb_byte_t list \<Rightarrow> Status" where
  "IOError msg msg2 = Status_make kIOError msg msg2"

definition status_ok :: "Status \<Rightarrow> bool" where "status_ok s \<longleftrightarrow> s = None"

lemma status_ok_simps [simp]:
  "status_ok Status_OK" "\<not> status_ok (NotFound a b)" "\<not> status_ok (Corruption a b)"
  "\<not> status_ok (NotSupported a b)" "\<not> status_ok (InvalidArgument a b)" "\<not> status_ok (IOError a b)"
  by (simp_all add: status_ok_def Status_OK_def NotFound_def Corruption_def NotSupported_def
      InvalidArgument_def IOError_def Status_make_def Let_def)

definition status_code :: "Status \<Rightarrow> Code" where
  "status_code s = (case s of None \<Rightarrow> kOk | Some state \<Rightarrow> state ! 4)"

definition IsNotFound :: "Status \<Rightarrow> bool" where "IsNotFound s \<longleftrightarrow> status_code s = kNotFound"
definition IsCorruption :: "Status \<Rightarrow> bool" where "IsCorruption s \<longleftrightarrow> status_code s = kCorruption"
definition IsIOError :: "Status \<Rightarrow> bool" where "IsIOError s \<longleftrightarrow> status_code s = kIOError"

definition CopyState :: "pb_byte_t list \<Rightarrow> pb_byte_t list" where
  "CopyState state = (let n = le_word (take 4 state) :: uint32_t in take (unat (n + 5)) state)"

definition Status_copy :: "Status \<Rightarrow> Status" where
  "Status_copy s = (case s of None \<Rightarrow> None | Some state \<Rightarrow> Some (CopyState state))"

definition Status_ToString :: "Status \<Rightarrow> pb_byte_t list" where
  "Status_ToString s =
     (case s of None \<Rightarrow> str ''OK''
      | Some state \<Rightarrow>
          let c = status_code s;
              type = (if c = kOk then str ''OK''
                else if c = kNotFound then str ''NotFound: ''
                else if c = kCorruption then str ''Corruption: ''
                else if c = kNotSupported then str ''Not implemented: ''
                else if c = kInvalidArgument then str ''Invalid argument: ''
                else if c = kIOError then str ''IO error: ''
                else str ''Unknown code('' @
                  (if sint c < 0 then str ''-'' else []) @ decimal (nat \<bar>sint c\<bar>) @ str ''): '');
              len = le_word (take 4 state) :: uint32_t
          in type @ take (unat len) (drop 5 state))"

section \<open>Decimal numbers\<close>

text \<open>The value of a list of digits that follow the value \<open>v\<close>.\<close>

abbreviation dec_value :: "nat \<Rightarrow> nat list \<Rightarrow> nat" where
  "dec_value v ds \<equiv> foldl (\<lambda>v d. 10 * v + d) v ds"

definition is_digit :: "pb_byte_t \<Rightarrow> bool" where
  "is_digit c \<longleftrightarrow> 0x30 \<le>s c \<and> c \<le>s 0x39"

lemma less_10: "d < (10 :: nat) \<Longrightarrow> d \<in> {0, 1, 2, 3, 4, 5, 6, 7, 8, 9}"
  by auto

lemma digit_facts:
  assumes "d < 10"
  shows "is_digit (digit d)" and "ucast (digit d - 0x30) = (of_nat d :: uint64_t)"
  using less_10 [OF assms] by (auto simp: is_digit_def digit_def word_sle_eq)

lemma is_digit_cases: "is_digit c \<Longrightarrow> \<exists>d < 10. c = digit d"
proof -
  assume c: "is_digit c"
  let ?d = "nat (sint c - 48)"
  have "48 \<le> sint c \<and> sint c \<le> 57" using c by (simp add: is_digit_def word_sle_eq)
  then have "?d < 10" "int ?d = sint c - 48" by arith+
  then have "?d < 10" "sint c = 48 + int ?d" by simp_all
  moreover from this(2) have "of_int (sint c) = (of_int (48 + int ?d) :: pb_byte_t)" by (rule arg_cong)
  then have "c = 0x30 + of_nat ?d" by (simp only: of_int_add of_int_of_nat_eq of_int_numeral) simp
  ultimately show ?thesis by (intro exI [of _ ?d]) (simp only: digit_def simp_thms)
qed

lemma consume_overflow:
  assumes "d < 10"
  shows "v > kMaxUint64 div 10 \<or> v = kMaxUint64 div 10 \<and> of_nat d > kMaxUint64 mod 10 \<longleftrightarrow>
         2 ^ 64 \<le> 10 * unat v + d"
proof -
  have k: "kMaxUint64 = 0xFFFFFFFFFFFFFFFF" by (simp add: kMaxUint64_def)
  have "unat (of_nat d :: uint64_t) = d" using assms by (simp add: unat_of_nat take_bit_nat_eq_self)
  then show ?thesis using assms by (auto simp: k word_less_nat_alt word_unat_eq_iff)
qed

lemma consume_step:
  assumes "d < 10"
  shows "consume_loop v k (digit d # cs) =
    (if 2 ^ 64 \<le> 10 * unat v + d then (digit d # cs, None) else consume_loop (v * 10 + of_nat d) (k + 1) cs)"
  using digit_facts [OF assms] consume_overflow [OF assms, of v]
  by (simp add: is_digit_def Let_def)

declare consume_loop.simps(2) [simp del]

lemma unat_consume_step:
  "10 * unat v + d < 2 ^ 64 \<Longrightarrow> unat (v * 10 + of_nat d :: uint64_t) = 10 * unat v + d"
  by (simp add: unat_word_ariths unat_of_nat take_bit_nat_eq_self)

lemma dec_value_ge: "v \<le> dec_value v ds"
proof (induction ds arbitrary: v)
  case (Cons d ds)
  show ?case using Cons [of "10 * v + d"] by simp
qed simp

text \<open>The parser on digits that something else follows.\<close>

definition no_digit :: "pb_byte_t list \<Rightarrow> bool" where
  "no_digit rest \<longleftrightarrow> (case rest of [] \<Rightarrow> True | c # cs \<Rightarrow> \<not> is_digit c)"

lemma consume_rest: "no_digit rest \<Longrightarrow> consume_loop v k rest = (rest, if k > 0 then Some v else None)"
  by (cases rest) (auto simp: no_digit_def is_digit_def consume_loop.simps)

lemma consume_digits:
  "\<forall>d \<in> set ds. d < 10 \<Longrightarrow> no_digit rest \<Longrightarrow> dec_value (unat v) ds < 2 ^ 64 \<Longrightarrow>
   consume_loop v k (map digit ds @ rest) =
     (rest, if k + length ds > 0 then Some (of_nat (dec_value (unat v) ds)) else None)"
proof (induction ds arbitrary: v k)
  case Nil
  then show ?case by (simp add: consume_rest)
next
  case (Cons d ds)
  have le: "10 * unat v + d < 2 ^ 64" using Cons.prems(3) dec_value_ge [of "10 * unat v + d" ds] by simp
  then show ?case using Cons.prems Cons.IH [of "v * 10 + of_nat d" "k + 1"] unat_consume_step [OF le]
    by (simp add: consume_step)
qed

lemma consume_digits_overflow:
  "\<forall>d \<in> set ds. d < 10 \<Longrightarrow> 2 ^ 64 \<le> dec_value (unat v) ds \<Longrightarrow>
   snd (consume_loop v k (map digit ds @ rest)) = None"
proof (induction ds arbitrary: v k)
  case Nil
  then show ?case using unsigned_less [of v, where 'a = nat] by simp
next
  case (Cons d ds)
  show ?case
  proof (cases "2 ^ 64 \<le> 10 * unat v + d")
    case True
    then show ?thesis using Cons.prems by (simp add: consume_step)
  next
    case False
    then show ?thesis using Cons.prems Cons.IH [of "v * 10 + of_nat d" "k + 1"]
        unat_consume_step [of v d] by (simp add: consume_step)
  qed
qed

text \<open>What \<open>decimal\<close> prints.\<close>

lemma decimal_digits: "\<exists>ds. decimal n = map digit ds \<and> ds \<noteq> [] \<and> (\<forall>d \<in> set ds. d < 10) \<and> dec_value 0 ds = n"
proof (induction n rule: decimal.induct)
  case (1 n)
  show ?case
  proof (cases "n < 10")
    case True
    then show ?thesis by (intro exI [of _ "[n]"]) (simp add: decimal.simps [of n])
  next
    case False
    then obtain ds where "decimal (n div 10) = map digit ds" "ds \<noteq> []" "\<forall>d \<in> set ds. d < 10"
        "dec_value 0 ds = n div 10"
      using 1 by blast
    then show ?thesis using False
      by (intro exI [of _ "ds @ [n mod 10]"]) (simp add: decimal.simps [of n])
  qed
qed

lemma pad0_digits:
  "\<exists>ds. pad0 w (decimal n) = map digit ds \<and> ds \<noteq> [] \<and> (\<forall>d \<in> set ds. d < 10) \<and> dec_value 0 ds = n"
proof -
  obtain ds where ds: "decimal n = map digit ds" "ds \<noteq> []" "\<forall>d \<in> set ds. d < 10" "dec_value 0 ds = n"
    using decimal_digits by blast
  have z: "dec_value 0 (replicate k 0) = 0" for k by (induction k) simp_all
  show ?thesis
    by (intro exI [of _ "replicate (w - length ds) 0 @ ds"]) (use ds z in \<open>auto simp: pad0_def digit_def\<close>)
qed

lemma ConsumeDecimalNumber_pad0:
  assumes "no_digit rest"
  shows "ConsumeDecimalNumber (pad0 w (decimal (unat num)) @ rest) = (rest, Some num)"
proof -
  obtain ds where ds: "pad0 w (decimal (unat num)) = map digit ds" "ds \<noteq> []" "\<forall>d \<in> set ds. d < 10"
      "dec_value 0 ds = unat num"
    using pad0_digits by blast
  then have "consume_loop 0 0 (map digit ds @ rest) = (rest, Some (of_nat (unat num)))"
    using consume_digits [of ds rest 0 0] assms unsigned_less [of num, where 'a = nat] by simp
  then show ?thesis by (simp add: ConsumeDecimalNumber_def ds(1))
qed

section \<open>Status objects\<close>

definition status_text :: "pb_byte_t list \<Rightarrow> pb_byte_t list \<Rightarrow> pb_byte_t list" where
  "status_text msg msg2 = msg @ (if msg2 = [] then [] else str '': '' @ msg2)"

lemma length_status_text: "length (status_text msg msg2) \<le> length msg + length msg2 + 2"
  by (simp add: status_text_def str_def)

lemma unat_length_32: "length xs < 2 ^ 32 \<Longrightarrow> unat (of_nat (length xs) :: uint32_t) = length xs"
  by (simp add: unat_of_nat take_bit_nat_eq_self)

lemma Status_make_state:
  assumes "length msg + length msg2 < 4294967289"
  shows "Status_make c msg msg2 =
    Some (le_bytes 4 (of_nat (length (status_text msg msg2)) :: uint32_t) @ c # status_text msg msg2)"
proof -
  have l: "unat (of_nat (length msg) :: uint32_t) = length msg" "unat (of_nat (length msg2) :: uint32_t) = length msg2"
    using assms by (simp_all add: unat_length_32)
  show ?thesis
  proof (cases "msg2 = []")
    case True
    then show ?thesis by (simp add: Status_make_def l status_text_def)
  next
    case False
    then have nz: "of_nat (length msg2) \<noteq> (0 :: uint32_t)" using l(2) by (metis length_0_conv unat_0)
    have two: "length (str '': '') = 2" by (simp add: str_def)
    have "(of_nat (length msg) + (2 + of_nat (length msg2)) :: uint32_t) =
        of_nat (length (status_text msg msg2))"
      using False two by (simp add: status_text_def)
    then show ?thesis using False nz l by (simp add: Status_make_def Let_def status_text_def)
  qed
qed

lemma le_word_take: "le_word (take 4 (le_bytes 4 n @ xs)) = (n :: uint32_t)"
proof -
  have "take 4 (le_bytes 4 n @ xs) = le_bytes 4 n" by simp
  moreover have "le_word (le_bytes 4 n) = n" by (rule le_word_le_bytes_full) simp
  ultimately show ?thesis by simp
qed

text \<open>
  A status keeps its code and its message: the code is read back, copying the object
  gives an equal one, and the readable form is that of the code followed by the message.
\<close>

theorem status_roundtrip:
  assumes "length msg + length msg2 < 4294967289"
  shows "status_code (Status_make c msg msg2) = c \<and> \<not> status_ok (Status_make c msg msg2) \<and>
    Status_copy (Status_make c msg msg2) = Status_make c msg msg2 \<and>
    Status_ToString (Corruption msg msg2) =
      str ''Corruption: '' @ msg @ (if msg2 = [] then [] else str '': '' @ msg2)"
proof (intro conjI)
  let ?t = "status_text msg msg2"
  let ?n = "of_nat (length ?t) :: uint32_t"
  note st = Status_make_state [OF assms]
  have small: "length ?t < 4294967291" using length_status_text [of msg msg2] assms by linarith
  then have n: "unat ?n = length ?t" by (simp add: unat_length_32)
  then have n5: "unat (?n + 5) = 5 + length ?t" using small by (simp add: unat_word_ariths)
  have code: "status_code (Some (le_bytes 4 ?n @ k # ?t)) = k" for k
    by (simp add: status_code_def nth_append)
  show "status_code (Status_make c msg msg2) = c" "\<not> status_ok (Status_make c msg msg2)"
    by (simp_all only: st code status_ok_def) simp
  show "Status_copy (Status_make c msg msg2) = Status_make c msg msg2"
    by (simp only: st Status_copy_def CopyState_def option.case Let_def le_word_take n5) simp
  show "Status_ToString (Corruption msg msg2) =
      str ''Corruption: '' @ msg @ (if msg2 = [] then [] else str '': '' @ msg2)"
    unfolding Corruption_def st Status_ToString_def option.case Let_def le_word_take n code
    by (simp add: kCorruption_def kOk_def kNotFound_def status_text_def)
qed

theorem status_roundtrip_witness:
  "status_code (Status_make 2 [0x61] [0x62]) = 2 \<and>
   Status_ToString (Corruption [0x61] [0x62]) = str ''Corruption: '' @ [0x61] @ str '': '' @ [0x62]"
  using status_roundtrip [of "[0x61]" "[0x62]" 2] by simp

text \<open>
  C39: \<open>ConsumeDecimalNumber\<close> on any digits that no digit follows: at least one digit and a
  value below 2^64 give the value and leave what follows, else it fails; it reads back what
  \<open>AppendNumberTo\<close> writes.
\<close>

theorem consume_decimal_spec:
  assumes "\<forall>d \<in> set ds. d < 10" and "no_digit rest"
  shows "(snd (ConsumeDecimalNumber (map digit ds @ rest)) =
      (if ds \<noteq> [] \<and> foldl (\<lambda>v d. 10 * v + d) 0 ds < 2 ^ 64
       then Some (of_nat (foldl (\<lambda>v d. 10 * v + d) 0 ds)) else None)) \<and>
    ConsumeDecimalNumber (AppendNumberTo [] num @ rest) = (rest, Some num)"
proof
  have "pad0 0 (decimal (unat num)) = decimal (unat num)" by (simp add: pad0_def)
  then show "ConsumeDecimalNumber (AppendNumberTo [] num @ rest) = (rest, Some num)"
    using ConsumeDecimalNumber_pad0 [OF assms(2), of 0 num] by (simp add: AppendNumberTo_def)
  show "snd (ConsumeDecimalNumber (map digit ds @ rest)) =
      (if ds \<noteq> [] \<and> dec_value 0 ds < 2 ^ 64 then Some (of_nat (dec_value 0 ds)) else None)"
    using consume_digits [OF assms, of 0 0] consume_digits_overflow [OF assms(1), of 0 0 rest]
    by (cases "dec_value 0 ds < 2 ^ 64") (auto simp: ConsumeDecimalNumber_def)
qed

theorem consume_decimal_spec_witness:
  "snd (ConsumeDecimalNumber (map digit [4, 2] @ [0x2e])) = Some 42 \<and>
   ConsumeDecimalNumber (AppendNumberTo [] 7 @ [0x2e]) = ([0x2e], Some 7)"
  using consume_decimal_spec [of "[4, 2]" "[0x2e]" 7] by (simp add: no_digit_def is_digit_def word_sle_eq)

end
