(* ===== verification/LdbEnv.thy ===== *)
theory LdbEnv
  imports LdbLogging "HOL-Library.Monad_Syntax"
begin

text \<open>
  The environment of LevelDB as its clients see it: the operations of \<open>include/leveldb/env.h\<close> on files that
  \<open>util/env.cc\<close> and \<open>db/filename.cc\<close> call, and the functions of \<open>util/env.cc\<close> that write and
  read whole files. \<open>None\<close> is undefined behaviour or, for \<open>ReadFileToString\<close>, that the
  loop does not end.

  The locale \<open>env_contract\<close> has what a client relies on when every operation may fail.
\<close>

section \<open>The interface\<close>

text \<open>
  The state \<open>'e\<close> of the environment, its writable files \<open>'w\<close> and its sequential files
  \<open>'q\<close>, with the destructors of both.
\<close>

record ('e, 'w, 'q) Env =
  env_NewWritableFile :: "pb_byte_t list \<Rightarrow> 'e \<Rightarrow> Status \<times> 'w option \<times> 'e"
  env_NewSequentialFile :: "pb_byte_t list \<Rightarrow> 'e \<Rightarrow> Status \<times> 'q option \<times> 'e"
  env_RenameFile :: "pb_byte_t list \<Rightarrow> pb_byte_t list \<Rightarrow> 'e \<Rightarrow> Status \<times> 'e"
  env_DeleteFile :: "pb_byte_t list \<Rightarrow> 'e \<Rightarrow> Status \<times> 'e"
  file_Append :: "pb_byte_t list \<Rightarrow> 'w \<Rightarrow> 'e \<Rightarrow> (Status \<times> 'w \<times> 'e) option"
  file_Sync :: "'w \<Rightarrow> 'e \<Rightarrow> (Status \<times> 'w \<times> 'e) option"
  file_Close :: "'w \<Rightarrow> 'e \<Rightarrow> (Status \<times> 'w \<times> 'e) option"
  file_delete :: "'w \<Rightarrow> 'e \<Rightarrow> 'e option"
  seq_Read :: "nat \<Rightarrow> 'q \<Rightarrow> 'e \<Rightarrow> (Status \<times> pb_byte_t list \<times> 'q \<times> 'e) option"
  seq_delete :: "'q \<Rightarrow> 'e \<Rightarrow> 'e option"

section \<open>Whole files\<close>

definition DoWriteStringToFile ::
  "('e, 'w, 'q) Env \<Rightarrow> pb_byte_t list \<Rightarrow> pb_byte_t list \<Rightarrow> bool \<Rightarrow> 'e \<Rightarrow> (Status \<times> 'e) option" where
  "DoWriteStringToFile env data fname should_sync e =
     (let (s, r, e) = env_NewWritableFile env fname e
      in if \<not> status_ok s then Some (s, e)
         else do {
           w \<leftarrow> r;
           (s, w, e) \<leftarrow> file_Append env data w e;
           (s, w, e) \<leftarrow> (if status_ok s \<and> should_sync then file_Sync env w e else Some (s, w, e));
           (s, w, e) \<leftarrow> (if status_ok s then file_Close env w e else Some (s, w, e));
           e \<leftarrow> file_delete env w e;
           Some (s, if \<not> status_ok s then snd (env_DeleteFile env fname e) else e)
         })"

definition WriteStringToFile ::
  "('e, 'w, 'q) Env \<Rightarrow> pb_byte_t list \<Rightarrow> pb_byte_t list \<Rightarrow> 'e \<Rightarrow> (Status \<times> 'e) option" where
  "WriteStringToFile env data fname e = DoWriteStringToFile env data fname False e"

definition WriteStringToFileSync ::
  "('e, 'w, 'q) Env \<Rightarrow> pb_byte_t list \<Rightarrow> pb_byte_t list \<Rightarrow> 'e \<Rightarrow> (Status \<times> 'e) option" where
  "WriteStringToFileSync env data fname e = DoWriteStringToFile env data fname True e"

definition kBufferSize :: nat where
  "kBufferSize = 8192"

partial_function (option) read_loop ::
  "('e, 'w, 'q) Env \<Rightarrow> 'q \<Rightarrow> pb_byte_t list \<Rightarrow> 'e \<Rightarrow> (Status \<times> pb_byte_t list \<times> 'q \<times> 'e) option" where
  "read_loop env q data e =
     do {
       (s, fragment, q, e) \<leftarrow> seq_Read env kBufferSize q e;
       if \<not> status_ok s then Some (s, data, q, e)
       else let data = data @ fragment
         in if fragment = [] then Some (s, data, q, e) else read_loop env q data e
     }"

definition ReadFileToString ::
  "('e, 'w, 'q) Env \<Rightarrow> pb_byte_t list \<Rightarrow> 'e \<Rightarrow> (Status \<times> pb_byte_t list \<times> 'e) option" where
  "ReadFileToString env fname e =
     (let (s, r, e) = env_NewSequentialFile env fname e
      in if \<not> status_ok s then Some (s, [], e)
         else do {
           q \<leftarrow> r;
           (s, data, q, e) \<leftarrow> read_loop env q [] e;
           e \<leftarrow> seq_delete env q e;
           Some (s, data, e)
         })"

section \<open>The contract\<close>

text \<open>
  \<open>files e\<close> are the contents of the files, and only the names in \<open>F\<close> may have other contents after an
  operation. A writable file is open on a name, with the data that was appended where this is known, or closed.
\<close>

definition unchanged ::
  "(pb_byte_t list \<Rightarrow> bool) \<Rightarrow> ('e \<Rightarrow> pb_byte_t list \<Rightarrow> pb_byte_t list option) \<Rightarrow> pb_byte_t list set \<Rightarrow> 'e \<Rightarrow> 'e \<Rightarrow> bool" where
  "unchanged okname files F e e' \<longleftrightarrow> (\<forall>f. okname f \<longrightarrow> f \<notin> F \<longrightarrow> files e' f = files e f)"

lemma unchanged_trans:
  "unchanged okname files F e1 e2 \<Longrightarrow> unchanged okname files G e2 e3 \<Longrightarrow> unchanged okname files (F \<union> G) e1 e3"
  by (simp add: unchanged_def)

lemma unchanged_mono: "unchanged okname files F e1 e2 \<Longrightarrow> F \<subseteq> G \<Longrightarrow> unchanged okname files G e1 e2"
  by (auto simp: unchanged_def)

lemma unchangedD: "unchanged okname files F e1 e2 \<Longrightarrow> okname f \<Longrightarrow> f \<notin> F \<Longrightarrow> files e2 f = files e1 f"
  by (simp add: unchanged_def)

datatype file_state = Opened "pb_byte_t list option" | Closed

locale env_contract =
  fixes env :: "('e, 'w, 'q) Env" and okname :: "pb_byte_t list \<Rightarrow> bool"
    and files :: "'e \<Rightarrow> pb_byte_t list \<Rightarrow> pb_byte_t list option"
    and wrepr :: "'w \<Rightarrow> 'e \<Rightarrow> pb_byte_t list \<Rightarrow> file_state \<Rightarrow> bool"
    and qrepr :: "'q \<Rightarrow> 'e \<Rightarrow> pb_byte_t list \<Rightarrow> bool"
  assumes new_writable: "okname f \<Longrightarrow> env_NewWritableFile env f e = (s, r, e') \<Longrightarrow>
      unchanged okname files {f} e e' \<and> (status_ok s \<longrightarrow> (\<exists>w. r = Some w \<and> wrepr w e' f (Opened (Some []))))"
    and append: "wrepr w e f (Opened b) \<Longrightarrow> \<exists>s w' e' b'. file_Append env d w e = Some (s, w', e') \<and>
      unchanged okname files {f} e e' \<and> wrepr w' e' f (Opened b') \<and> (status_ok s \<longrightarrow> b' = map_option (\<lambda>x. x @ d) b)"
    and sync: "wrepr w e f (Opened b) \<Longrightarrow> \<exists>s w' e' b'. file_Sync env w e = Some (s, w', e') \<and>
      unchanged okname files {f} e e' \<and> wrepr w' e' f (Opened b') \<and> (status_ok s \<longrightarrow> b' = b)"
    and close: "wrepr w e f (Opened b) \<Longrightarrow> \<exists>s w' e'. file_Close env w e = Some (s, w', e') \<and>
      unchanged okname files {f} e e' \<and> wrepr w' e' f Closed \<and> (status_ok s \<longrightarrow> b \<noteq> None \<longrightarrow> files e' f = b)"
    and delete_writable: "wrepr w e f st \<Longrightarrow> \<exists>e'. file_delete env w e = Some e' \<and>
      unchanged okname files (if st = Closed then {} else {f}) e e'"
    and rename: "okname f \<Longrightarrow> okname g \<Longrightarrow> f \<noteq> g \<Longrightarrow> files e f = Some bs \<Longrightarrow> env_RenameFile env f g e = (s, e') \<Longrightarrow>
      (if status_ok s then unchanged okname files {f, g} e e' \<and> files e' f = None \<and> files e' g = Some bs
       else unchanged okname files {} e e')"
    and delete_file: "okname f \<Longrightarrow> env_DeleteFile env f e = (s, e') \<Longrightarrow>
      unchanged okname files {f} e e' \<and> (status_ok s \<longrightarrow> files e' f = None)"
    and new_sequential: "okname f \<Longrightarrow> env_NewSequentialFile env f e = (s, rq, e') \<Longrightarrow>
      unchanged okname files {} e e' \<and> (status_ok s \<longrightarrow> (\<exists>q bs. rq = Some q \<and> files e f = Some bs \<and> qrepr q e' bs))"
    and read: "qrepr q e bs \<Longrightarrow> \<exists>s d q' e' bs'. seq_Read env n q e = Some (s, d, q', e') \<and> unchanged okname files {} e e' \<and>
      qrepr q' e' bs' \<and> (status_ok s \<longrightarrow> bs = d @ bs' \<and> (0 < n \<longrightarrow> d = [] \<longrightarrow> bs = []))"
    and delete_sequential: "qrepr q e bs \<Longrightarrow> \<exists>e'. seq_delete env q e = Some e' \<and> unchanged okname files {} e e'"
begin

abbreviation "same \<equiv> unchanged okname files"

text \<open>A file that was written has the data; every other file is left alone, also where an operation fails.\<close>

lemma write_file:
  assumes f: "okname f"
  shows "\<exists>s e'. DoWriteStringToFile env d f sync_it e = Some (s, e') \<and> same {f} e e' \<and> (status_ok s \<longrightarrow> files e' f = Some d)"
proof -
  obtain s0 r e0 where n: "env_NewWritableFile env f e = (s0, r, e0)" by (cases "env_NewWritableFile env f e")
  note N = new_writable [OF f n]
  show ?thesis
  proof (cases "status_ok s0")
    case False
    then show ?thesis using n N by (simp add: DoWriteStringToFile_def)
  next
    case True
    obtain w0 where w0: "r = Some w0" "wrepr w0 e0 f (Opened (Some []))" using N True by blast
    obtain s1 w1 e1 b1 where a: "file_Append env d w0 e0 = Some (s1, w1, e1)" "same {f} e0 e1" "wrepr w1 e1 f (Opened b1)"
      "status_ok s1 \<longrightarrow> b1 = Some d" using append [OF w0(2), of d] by auto
    have "\<exists>s2 w2 e2 b2. (if status_ok s1 \<and> sync_it then file_Sync env w1 e1 else Some (s1, w1, e1)) = Some (s2, w2, e2) \<and>
        same {f} e1 e2 \<and> wrepr w2 e2 f (Opened b2) \<and> (status_ok s2 \<longrightarrow> b2 = Some d)"
    proof (cases "status_ok s1 \<and> sync_it")
      case True
      then show ?thesis using sync [OF a(3)] a(4) by auto
    next
      case False
      then show ?thesis using a(3,4) by (auto simp: unchanged_def)
    qed
    then obtain s2 w2 e2 b2 where y: "(if status_ok s1 \<and> sync_it then file_Sync env w1 e1 else Some (s1, w1, e1)) = Some (s2, w2, e2)"
      "same {f} e1 e2" "wrepr w2 e2 f (Opened b2)" "status_ok s2 \<longrightarrow> b2 = Some d" by blast
    have "\<exists>s3 w3 e3 st. (if status_ok s2 then file_Close env w2 e2 else Some (s2, w2, e2)) = Some (s3, w3, e3) \<and>
        same {f} e2 e3 \<and> wrepr w3 e3 f st \<and> (status_ok s3 \<longrightarrow> st = Closed \<and> files e3 f = Some d)"
    proof (cases "status_ok s2")
      case True
      then show ?thesis using close [OF y(3)] y(4) by fastforce
    next
      case False
      then show ?thesis using y(3) by (auto simp: unchanged_def)
    qed
    then obtain s3 w3 e3 st where c: "(if status_ok s2 then file_Close env w2 e2 else Some (s2, w2, e2)) = Some (s3, w3, e3)"
      "same {f} e2 e3" "wrepr w3 e3 f st" "status_ok s3 \<longrightarrow> st = Closed \<and> files e3 f = Some d" by blast
    obtain e4 where d4: "file_delete env w3 e3 = Some e4" "same (if st = Closed then {} else {f}) e3 e4" using delete_writable [OF c(3)] by blast
    define e5 where "e5 = (if \<not> status_ok s3 then snd (env_DeleteFile env f e4) else e4)"
    have "same {f} e4 e5" using delete_file [OF f, of e4] by (cases "env_DeleteFile env f e4") (simp add: e5_def unchanged_def)
    moreover have "same {f} e3 e4" by (rule unchanged_mono [OF d4(2)]) auto
    ultimately have "same {f} e e5"
      using N a(2) y(2) c(2) by (simp add: unchanged_def)
    moreover have "files e5 f = Some d" if "status_ok s3"
      using unchangedD [OF d4(2) f] c(4) that by (simp add: e5_def)
    moreover have "DoWriteStringToFile env d f sync_it e = Some (s3, e5)"
      using n True w0(1) a(1) y(1) c(1) d4(1) by (simp add: DoWriteStringToFile_def e5_def)
    ultimately show ?thesis by blast
  qed
qed

text \<open>Reading ends, and changes nothing; what it returns with status OK is the contents.\<close>

lemma read_loop_ends:
  "qrepr q e bs \<Longrightarrow> \<exists>s out q' e' bs'. read_loop env q data e = Some (s, out, q', e') \<and> same {} e e' \<and> qrepr q' e' bs' \<and>
    (status_ok s \<longrightarrow> out = data @ bs)"
proof (induction bs arbitrary: q e data rule: length_induct)
  case (1 bs)
  obtain s d q1 e1 bs1 where r: "seq_Read env kBufferSize q e = Some (s, d, q1, e1)" "same {} e e1" "qrepr q1 e1 bs1"
    "status_ok s \<longrightarrow> bs = d @ bs1 \<and> (d = [] \<longrightarrow> bs = [])"
    using read [OF 1(2), of kBufferSize] by (auto simp: kBufferSize_def)
  show ?case
  proof (cases "status_ok s \<and> d \<noteq> []")
    case False
    then show ?thesis using r by (auto simp: read_loop.simps [of env q])
  next
    case True
    then have "length bs1 < length bs" using r(4) by simp
    from 1(1) [rule_format, OF this r(3), of "data @ d"] obtain s' out q' e' bs' where
      l: "read_loop env q1 (data @ d) e1 = Some (s', out, q', e')" "same {} e1 e'" "qrepr q' e' bs'" "status_ok s' \<longrightarrow> out = (data @ d) @ bs1"
      by blast
    have "read_loop env q data e = Some (s', out, q', e')" using True r(1) l(1) by (simp add: read_loop.simps [of env q])
    moreover have "same {} e e'" using unchanged_trans [OF r(2) l(2)] by simp
    ultimately show ?thesis using l(3,4) r(4) True by auto
  qed
qed

lemma read_file:
  assumes f: "okname f"
  shows "\<exists>s d e'. ReadFileToString env f e = Some (s, d, e') \<and> same {} e e' \<and> (status_ok s \<longrightarrow> files e f = Some d)"
proof -
  obtain s0 r e0 where n: "env_NewSequentialFile env f e = (s0, r, e0)" by (cases "env_NewSequentialFile env f e")
  note N = new_sequential [OF f n]
  show ?thesis
  proof (cases "status_ok s0")
    case False
    then show ?thesis using n N by (simp add: ReadFileToString_def)
  next
    case True
    then obtain q bs where q: "r = Some q" "files e f = Some bs" "qrepr q e0 bs" using N by blast
    obtain s d q1 e1 bs1 where l: "read_loop env q [] e0 = Some (s, d, q1, e1)" "same {} e0 e1" "qrepr q1 e1 bs1" "status_ok s \<longrightarrow> d = bs"
      using read_loop_ends [OF q(3), of "[]"] by auto
    obtain e2 where e2: "seq_delete env q1 e1 = Some e2" "same {} e1 e2" using delete_sequential [OF l(3)] by blast
    have "same {} e e2" using N l(2) e2(2) by (simp add: unchanged_def)
    then show ?thesis using n True q(1,2) l(1,4) e2(1) by (auto simp: ReadFileToString_def)
  qed
qed

end

end
