(* ===== verification/LdbFilename.thy ===== *)
theory LdbFilename
  imports LdbEnv
begin

text \<open>
  LevelDB's \<open>db/filename.cc\<close>: the names of a database's files and their parser, and the switch
  of the CURRENT file to another descriptor. A failing assert is \<open>None\<close>. The buffers of
  \<open>snprintf\<close> hold every name: a number has at most 20 digits.
\<close>

section \<open>The names\<close>

datatype FileType = kLogFile | kDBLockFile | kTableFile | kDescriptorFile | kCurrentFile | kTempFile
  | kInfoLogFile

definition MakeFileName :: "pb_byte_t list \<Rightarrow> uint64_t \<Rightarrow> pb_byte_t list \<Rightarrow> pb_byte_t list" where
  "MakeFileName name number suffix =
     name @ str ''/'' @ pad0 6 (decimal (unat number)) @ str ''.'' @ suffix"

definition LogFileName :: "pb_byte_t list \<Rightarrow> uint64_t \<Rightarrow> pb_byte_t list option" where
  "LogFileName name number = (if number > 0 then Some (MakeFileName name number (str ''log'')) else None)"

definition TableFileName :: "pb_byte_t list \<Rightarrow> uint64_t \<Rightarrow> pb_byte_t list option" where
  "TableFileName name number = (if number > 0 then Some (MakeFileName name number (str ''ldb'')) else None)"

definition SSTTableFileName :: "pb_byte_t list \<Rightarrow> uint64_t \<Rightarrow> pb_byte_t list option" where
  "SSTTableFileName name number = (if number > 0 then Some (MakeFileName name number (str ''sst'')) else None)"

definition DescriptorFileName :: "pb_byte_t list \<Rightarrow> uint64_t \<Rightarrow> pb_byte_t list option" where
  "DescriptorFileName dbname number =
     (if number > 0 then Some (dbname @ str ''/MANIFEST-'' @ pad0 6 (decimal (unat number))) else None)"

definition CurrentFileName :: "pb_byte_t list \<Rightarrow> pb_byte_t list" where
  "CurrentFileName dbname = dbname @ str ''/CURRENT''"

definition LockFileName :: "pb_byte_t list \<Rightarrow> pb_byte_t list" where
  "LockFileName dbname = dbname @ str ''/LOCK''"

definition TempFileName :: "pb_byte_t list \<Rightarrow> uint64_t \<Rightarrow> pb_byte_t list option" where
  "TempFileName dbname number = (if number > 0 then Some (MakeFileName dbname number (str ''dbtmp'')) else None)"

definition InfoLogFileName :: "pb_byte_t list \<Rightarrow> pb_byte_t list" where
  "InfoLogFileName dbname = dbname @ str ''/LOG''"

definition OldInfoLogFileName :: "pb_byte_t list \<Rightarrow> pb_byte_t list" where
  "OldInfoLogFileName dbname = dbname @ str ''/LOG.old''"

text \<open>The result is \<open>None\<close> where the function returns false.\<close>

definition ParseFileName :: "pb_byte_t list \<Rightarrow> (uint64_t \<times> FileType) option" where
  "ParseFileName fname =
     (let rest = fname in
      if Slice_eq rest (str ''CURRENT'') then Some (0, kCurrentFile)
      else if Slice_eq rest (str ''LOCK'') then Some (0, kDBLockFile)
      else if Slice_eq rest (str ''LOG'') \<or> Slice_eq rest (str ''LOG.old'') then Some (0, kInfoLogFile)
      else if starts_with rest (str ''MANIFEST-'') then
        let rest = drop (length (str ''MANIFEST-'')) rest in
        (case ConsumeDecimalNumber rest of
           (rest, None) \<Rightarrow> None
         | (rest, Some num) \<Rightarrow> if rest \<noteq> [] then None else Some (num, kDescriptorFile))
      else
        (case ConsumeDecimalNumber rest of
           (rest, None) \<Rightarrow> None
         | (suffix, Some num) \<Rightarrow>
             if Slice_eq suffix (str ''.log'') then Some (num, kLogFile)
             else if Slice_eq suffix (str ''.sst'') \<or> Slice_eq suffix (str ''.ldb'') then Some (num, kTableFile)
             else if Slice_eq suffix (str ''.dbtmp'') then Some (num, kTempFile)
             else None))"

definition SetCurrentFile ::
  "('e, 'w, 'q) Env \<Rightarrow> pb_byte_t list \<Rightarrow> uint64_t \<Rightarrow> 'e \<Rightarrow> (Status \<times> 'e) option" where
  "SetCurrentFile env dbname descriptor_number e =
     do {
       manifest \<leftarrow> DescriptorFileName dbname descriptor_number;
       if \<not> starts_with manifest (dbname @ str ''/'') then None
       else do {
         let contents = drop (length dbname + 1) manifest;
         tmp \<leftarrow> TempFileName dbname descriptor_number;
         (s, e) \<leftarrow> WriteStringToFileSync env (contents @ [0x0a]) tmp e;
         let (s, e) = (if status_ok s then env_RenameFile env tmp (CurrentFileName dbname) e else (s, e));
         Some (s, if \<not> status_ok s then snd (env_DeleteFile env tmp e) else e)
       }
     }"

section \<open>The parser reads the names\<close>

lemma digit_not_letter: "is_digit c \<Longrightarrow> c \<noteq> 0x43 \<and> c \<noteq> 0x4c \<and> c \<noteq> 0x4d"
  by (auto simp: is_digit_def word_sle_eq)

text \<open>A name that begins with a digit is parsed as a number and a suffix.\<close>

lemma ParseFileName_number:
  assumes "is_digit c"
  shows "ParseFileName (c # cs) =
    (case ConsumeDecimalNumber (c # cs) of
       (rest, None) \<Rightarrow> None
     | (suffix, Some num) \<Rightarrow>
         if suffix = str ''.log'' then Some (num, kLogFile)
         else if suffix = str ''.sst'' \<or> suffix = str ''.ldb'' then Some (num, kTableFile)
         else if suffix = str ''.dbtmp'' then Some (num, kTempFile)
         else None)"
proof -
  have "c # cs \<noteq> str ''CURRENT''" "c # cs \<noteq> str ''LOCK''" "c # cs \<noteq> str ''LOG''" "c # cs \<noteq> str ''LOG.old''"
      "\<not> starts_with (c # cs) (str ''MANIFEST-'')"
    using digit_not_letter [OF assms] by (auto simp: starts_with_prefix str_def)
  then show ?thesis by (simp only: ParseFileName_def Slice_eq_iff Let_def if_False simp_thms)
qed

definition base_name :: "uint64_t \<Rightarrow> pb_byte_t list \<Rightarrow> pb_byte_t list" where
  "base_name number suffix = pad0 6 (decimal (unat number)) @ str ''.'' @ suffix"

lemma no_digit_dot: "no_digit (str ''.'' @ s)"
  by (simp add: no_digit_def str_def is_digit_def word_sle_eq)

lemma ParseFileName_base:
  "ParseFileName (base_name number suffix) =
     (if str ''.'' @ suffix = str ''.log'' then Some (number, kLogFile)
      else if str ''.'' @ suffix = str ''.sst'' \<or> str ''.'' @ suffix = str ''.ldb'' then Some (number, kTableFile)
      else if str ''.'' @ suffix = str ''.dbtmp'' then Some (number, kTempFile)
      else None)"
proof -
  obtain ds where ds: "pad0 6 (decimal (unat number)) = map digit ds" "ds \<noteq> []" "\<forall>d \<in> set ds. d < 10"
    using pad0_digits by blast
  then obtain d ds' where "ds = d # ds'" by (cases ds) auto
  then obtain c cs where c: "base_name number suffix = c # cs" "is_digit c"
    using ds digit_facts(1) [of d] by (simp add: base_name_def)
  have "ConsumeDecimalNumber (base_name number suffix) = (str ''.'' @ suffix, Some number)"
    unfolding base_name_def by (rule ConsumeDecimalNumber_pad0 [OF no_digit_dot])
  then show ?thesis using ParseFileName_number [OF c(2), of cs] by (simp only: c(1) prod.case option.case)
qed

lemma ParseFileName_types:
  "ParseFileName (base_name n (str ''log'')) = Some (n, kLogFile)"
  "ParseFileName (base_name n (str ''ldb'')) = Some (n, kTableFile)"
  "ParseFileName (base_name n (str ''sst'')) = Some (n, kTableFile)"
  "ParseFileName (base_name n (str ''dbtmp'')) = Some (n, kTempFile)"
  by (simp_all add: ParseFileName_base str_def)

lemma ParseFileName_descriptor:
  "ParseFileName (str ''MANIFEST-'' @ pad0 6 (decimal (unat number))) = Some (number, kDescriptorFile)"
proof -
  let ?n = "pad0 6 (decimal (unat number))"
  let ?s = "str ''MANIFEST-'' @ ?n"
  have "?s \<noteq> str ''CURRENT''" "?s \<noteq> str ''LOCK''" "?s \<noteq> str ''LOG''" "?s \<noteq> str ''LOG.old''"
    by (simp_all add: str_def)
  moreover have "starts_with ?s (str ''MANIFEST-'')" by (simp only: starts_with_prefix) blast
  moreover have "drop (length (str ''MANIFEST-'')) ?s = ?n" by simp
  moreover have "ConsumeDecimalNumber ?n = ([], Some number)"
    using ConsumeDecimalNumber_pad0 [of "[]" 6 number] by (simp add: no_digit_def)
  ultimately show ?thesis
    by (simp only: ParseFileName_def Slice_eq_iff Let_def if_False if_True simp_thms prod.case option.case)
qed

lemma ParseFileName_fixed:
  "ParseFileName (str ''CURRENT'') = Some (0, kCurrentFile)"
  "ParseFileName (str ''LOCK'') = Some (0, kDBLockFile)"
  "ParseFileName (str ''LOG'') = Some (0, kInfoLogFile)"
  "ParseFileName (str ''LOG.old'') = Some (0, kInfoLogFile)"
  by (simp_all add: ParseFileName_def Slice_eq_iff str_def)

lemma MakeFileName_base: "MakeFileName name number suffix = name @ str ''/'' @ base_name number suffix"
  by (simp add: MakeFileName_def base_name_def)

lemma str_slash: "str ''/MANIFEST-'' = str ''/'' @ str ''MANIFEST-''" "str ''/CURRENT'' = str ''/'' @ str ''CURRENT''"
  "str ''/LOCK'' = str ''/'' @ str ''LOCK''" "str ''/LOG'' = str ''/'' @ str ''LOG''"
  "str ''/LOG.old'' = str ''/'' @ str ''LOG.old''"
  by (simp_all add: str_def)

definition names_file :: "pb_byte_t list \<Rightarrow> pb_byte_t list option \<Rightarrow> uint64_t \<Rightarrow> FileType \<Rightarrow> bool" where
  "names_file dbname f number t \<longleftrightarrow> (\<exists>b. f = Some (dbname @ str ''/'' @ b) \<and> ParseFileName b = Some (number, t))"

lemma names_fileI: "ParseFileName b = Some (number, t) \<Longrightarrow> names_file dbname (Some (dbname @ str ''/'' @ b)) number t"
  by (auto simp: names_file_def)

text \<open>
  C37: every name the database makes lies in its directory and is read back by
  \<open>ParseFileName\<close> with its number and type, up to the largest 64-bit number.
\<close>

theorem file_name_roundtrip:
  assumes "number > 0"
  shows "names_file db (LogFileName db number) number kLogFile \<and>
    names_file db (TableFileName db number) number kTableFile \<and>
    names_file db (SSTTableFileName db number) number kTableFile \<and>
    names_file db (TempFileName db number) number kTempFile \<and>
    names_file db (DescriptorFileName db number) number kDescriptorFile \<and>
    names_file db (Some (CurrentFileName db)) 0 kCurrentFile \<and>
    names_file db (Some (LockFileName db)) 0 kDBLockFile \<and>
    names_file db (Some (InfoLogFileName db)) 0 kInfoLogFile \<and>
    names_file db (Some (OldInfoLogFileName db)) 0 kInfoLogFile"
  using assms
  by (simp add: LogFileName_def TableFileName_def SSTTableFileName_def TempFileName_def DescriptorFileName_def
      CurrentFileName_def LockFileName_def InfoLogFileName_def OldInfoLogFileName_def MakeFileName_base
      str_slash names_fileI ParseFileName_types ParseFileName_descriptor ParseFileName_fixed)

theorem file_name_roundtrip_witness:
  "names_file [0x64] (LogFileName [0x64] 7) 7 kLogFile"
  using file_name_roundtrip [of 7 "[0x64]"] by simp

end
