(* ===== verification/LdbSkipList.thy ===== *)
theory LdbSkipList
  imports LdbHash LdbOrder "HOL-Library.Monad_Syntax" "HOL-Library.Multiset"
begin

text \<open>
  LevelDB's \<open>db/skiplist.h\<close>, as one thread runs it. Nodes are numbers, the head is 0 and NULL is
  \<open>None\<close>; the nodes' keys, heights and links are maps of the state, and reading or writing a
  link at or above a node's height is undefined (\<open>None\<close>). The loops over the links are partial
  functions, so that \<open>None\<close> also stands for a loop that does not end. A skip list is shown to
  implement a sorted list of nodes (\<open>sl_inv\<close>), for every comparator that is a total order on the
  keys (\<open>key_order\<close> of \<open>LdbOrder\<close>).
\<close>

section \<open>Nodes and state\<close>

type_synonym node = nat

record 'k SkipList =
  node_key :: "node \<Rightarrow> 'k"
  node_height :: "node \<Rightarrow> nat"
  node_next :: "node \<Rightarrow> nat \<Rightarrow> node option"
  max_height :: nat
  rnd :: uint32_t
  fresh :: node

definition kMaxHeight :: nat where "kMaxHeight = 12"

definition head_node :: node where "head_node = 0"

definition new_SkipList :: "'k \<Rightarrow> 'k SkipList" where
  "new_SkipList k =
     \<lparr>node_key = (\<lambda>n. k), node_height = (\<lambda>n. if n = head_node then kMaxHeight else 0),
      node_next = (\<lambda>n i. None), max_height = 1, rnd = Random 0xdeadbeef, fresh = 1\<rparr>"

definition Node_Next :: "'k SkipList \<Rightarrow> node \<Rightarrow> nat \<Rightarrow> node option option" where
  "Node_Next sl x n = (if n < node_height sl x then Some (node_next sl x n) else None)"

definition Node_SetNext :: "'k SkipList \<Rightarrow> node \<Rightarrow> nat \<Rightarrow> node option \<Rightarrow> 'k SkipList option" where
  "Node_SetNext sl x n y =
     (if n < node_height sl x
      then Some (sl\<lparr>node_next := (node_next sl)(x := (node_next sl x)(n := y))\<rparr>) else None)"

definition NewNode :: "'k \<Rightarrow> nat \<Rightarrow> 'k SkipList \<Rightarrow> node \<times> 'k SkipList" where
  "NewNode key height sl =
     (fresh sl, sl\<lparr>node_key := (node_key sl)(fresh sl := key),
       node_height := (node_height sl)(fresh sl := height), fresh := fresh sl + 1\<rparr>)"

text \<open>\<open>RandomHeight\<close>: the height and the seed that is left.\<close>

function RandomHeight_loop :: "nat \<Rightarrow> uint32_t \<Rightarrow> nat \<times> uint32_t" where
  "RandomHeight_loop height seed =
     (if height < kMaxHeight then
        let seed = Next seed
        in if seed mod 4 = 0 then RandomHeight_loop (height + 1) seed else (height, seed)
      else (height, seed))"
  by pat_completeness auto
termination by (relation "measure (\<lambda>(height, seed). kMaxHeight - height)") auto

declare RandomHeight_loop.simps [simp del]

definition RandomHeight :: "uint32_t \<Rightarrow> nat \<times> uint32_t" where
  "RandomHeight seed = RandomHeight_loop 1 seed"

section \<open>Searching\<close>

definition KeyIsAfterNode :: "('k \<Rightarrow> 'k \<Rightarrow> int option) \<Rightarrow> 'k SkipList \<Rightarrow> 'k \<Rightarrow> node option \<Rightarrow> bool option" where
  "KeyIsAfterNode cmp sl key n =
     (case n of None \<Rightarrow> Some False | Some n \<Rightarrow> map_option (\<lambda>r. r < 0) (cmp (node_key sl n) key))"

definition Equal :: "('k \<Rightarrow> 'k \<Rightarrow> int option) \<Rightarrow> 'k \<Rightarrow> 'k \<Rightarrow> bool option" where
  "Equal cmp a b = map_option (\<lambda>r. r = 0) (cmp a b)"

text \<open>
  \<open>FindGreaterOrEqual\<close> from node \<open>x\<close> on \<open>level\<close>; the array \<open>prev\<close> is a map of which only the
  levels that were set are defined.
\<close>

partial_function (option) FindGreaterOrEqual_loop ::
  "('k \<Rightarrow> 'k \<Rightarrow> int option) \<Rightarrow> 'k SkipList \<Rightarrow> 'k \<Rightarrow> node \<Rightarrow> nat \<Rightarrow> (nat \<Rightarrow> node option) \<Rightarrow>
   (node option \<times> (nat \<Rightarrow> node option)) option" where
  "FindGreaterOrEqual_loop cmp sl key x level prev =
     do {
       next \<leftarrow> Node_Next sl x level;
       after \<leftarrow> KeyIsAfterNode cmp sl key next;
       if after then FindGreaterOrEqual_loop cmp sl key (the next) level prev
       else if level = 0 then Some (next, prev(level := Some x))
       else FindGreaterOrEqual_loop cmp sl key x (level - 1) (prev(level := Some x))
     }"

definition FindGreaterOrEqual ::
  "('k \<Rightarrow> 'k \<Rightarrow> int option) \<Rightarrow> 'k SkipList \<Rightarrow> 'k \<Rightarrow> (node option \<times> (nat \<Rightarrow> node option)) option" where
  "FindGreaterOrEqual cmp sl key =
     FindGreaterOrEqual_loop cmp sl key head_node (max_height sl - 1) (\<lambda>_. None)"

partial_function (option) FindLessThan_loop ::
  "('k \<Rightarrow> 'k \<Rightarrow> int option) \<Rightarrow> 'k SkipList \<Rightarrow> 'k \<Rightarrow> node \<Rightarrow> nat \<Rightarrow> node option" where
  "FindLessThan_loop cmp sl key x level =
     do {
       ok \<leftarrow> (if x = head_node then Some True else map_option (\<lambda>r. r < 0) (cmp (node_key sl x) key));
       if \<not> ok then None
       else do {
         next \<leftarrow> Node_Next sl x level;
         stop \<leftarrow> (case next of None \<Rightarrow> Some True
                  | Some n \<Rightarrow> map_option (\<lambda>r. r \<ge> 0) (cmp (node_key sl n) key));
         if stop then
           if level = 0 then Some x else FindLessThan_loop cmp sl key x (level - 1)
         else FindLessThan_loop cmp sl key (the next) level
       }
     }"

definition FindLessThan :: "('k \<Rightarrow> 'k \<Rightarrow> int option) \<Rightarrow> 'k SkipList \<Rightarrow> 'k \<Rightarrow> node option" where
  "FindLessThan cmp sl key = FindLessThan_loop cmp sl key head_node (max_height sl - 1)"

partial_function (option) FindLast_loop :: "'k SkipList \<Rightarrow> node \<Rightarrow> nat \<Rightarrow> node option" where
  "FindLast_loop sl x level =
     do {
       next \<leftarrow> Node_Next sl x level;
       case next of
         None \<Rightarrow> if level = 0 then Some x else FindLast_loop sl x (level - 1)
       | Some n \<Rightarrow> FindLast_loop sl n level
     }"

definition FindLast :: "'k SkipList \<Rightarrow> node option" where
  "FindLast sl = FindLast_loop sl head_node (max_height sl - 1)"

section \<open>Inserting\<close>

primrec link_loop :: "nat list \<Rightarrow> node \<Rightarrow> (nat \<Rightarrow> node option) \<Rightarrow> 'k SkipList \<Rightarrow> 'k SkipList option" where
  "link_loop [] x prev sl = Some sl"
| "link_loop (i # is) x prev sl =
     do {
       p \<leftarrow> prev i;
       q \<leftarrow> Node_Next sl p i;
       sl \<leftarrow> Node_SetNext sl x i q;
       sl \<leftarrow> Node_SetNext sl p i (Some x);
       link_loop is x prev sl
     }"

definition SkipList_Insert :: "('k \<Rightarrow> 'k \<Rightarrow> int option) \<Rightarrow> 'k \<Rightarrow> 'k SkipList \<Rightarrow> 'k SkipList option" where
  "SkipList_Insert cmp key sl =
     do {
       (x, prev) \<leftarrow> FindGreaterOrEqual cmp sl key;
       dup \<leftarrow> (case x of None \<Rightarrow> Some False | Some n \<Rightarrow> Equal cmp key (node_key sl n));
       if dup then None
       else
         let (height, seed) = RandomHeight (rnd sl);
             sl = sl\<lparr>rnd := seed\<rparr>;
             (prev, sl) =
               (if height > max_height sl then
                  (\<lambda>i. if max_height sl \<le> i \<and> i < height then Some head_node else prev i,
                   sl\<lparr>max_height := height\<rparr>)
                else (prev, sl));
             (x, sl) = NewNode key height sl
         in link_loop [0..<height] x prev sl
     }"

definition SkipList_Contains :: "('k \<Rightarrow> 'k \<Rightarrow> int option) \<Rightarrow> 'k \<Rightarrow> 'k SkipList \<Rightarrow> bool option" where
  "SkipList_Contains cmp key sl =
     do {
       (x, prev) \<leftarrow> FindGreaterOrEqual cmp sl key;
       case x of None \<Rightarrow> Some False | Some n \<Rightarrow> Equal cmp key (node_key sl n)
     }"

section \<open>Iterators\<close>

text \<open>The state of an iterator is its node, \<open>None\<close> where it is not valid.\<close>

type_synonym SkipList_Iterator = "node option"

definition Iter_Valid :: "SkipList_Iterator \<Rightarrow> bool" where
  "Iter_Valid it \<longleftrightarrow> it \<noteq> None"

definition Iter_key :: "'k SkipList \<Rightarrow> SkipList_Iterator \<Rightarrow> 'k option" where
  "Iter_key sl it = map_option (node_key sl) it"

definition Iter_Next :: "'k SkipList \<Rightarrow> SkipList_Iterator \<Rightarrow> SkipList_Iterator option" where
  "Iter_Next sl it = do { n \<leftarrow> it; Node_Next sl n 0 }"

definition Iter_Prev :: "('k \<Rightarrow> 'k \<Rightarrow> int option) \<Rightarrow> 'k SkipList \<Rightarrow> SkipList_Iterator \<Rightarrow> SkipList_Iterator option" where
  "Iter_Prev cmp sl it =
     do { n \<leftarrow> it; p \<leftarrow> FindLessThan cmp sl (node_key sl n); Some (if p = head_node then None else Some p) }"

definition Iter_Seek :: "('k \<Rightarrow> 'k \<Rightarrow> int option) \<Rightarrow> 'k SkipList \<Rightarrow> 'k \<Rightarrow> SkipList_Iterator option" where
  "Iter_Seek cmp sl target = map_option fst (FindGreaterOrEqual cmp sl target)"

definition Iter_SeekToFirst :: "'k SkipList \<Rightarrow> SkipList_Iterator option" where
  "Iter_SeekToFirst sl = Node_Next sl head_node 0"

definition Iter_SeekToLast :: "'k SkipList \<Rightarrow> SkipList_Iterator option" where
  "Iter_SeekToLast sl = do { n \<leftarrow> FindLast sl; Some (if n = head_node then None else Some n) }"

text \<open>All keys from an iterator on, forwards and backwards.\<close>

partial_function (option) forward :: "'k SkipList \<Rightarrow> SkipList_Iterator \<Rightarrow> 'k list option" where
  "forward sl it =
     (if Iter_Valid it then
        do { k \<leftarrow> Iter_key sl it; it \<leftarrow> Iter_Next sl it; ks \<leftarrow> forward sl it; Some (k # ks) }
      else Some [])"

partial_function (option) backward ::
  "('k \<Rightarrow> 'k \<Rightarrow> int option) \<Rightarrow> 'k SkipList \<Rightarrow> SkipList_Iterator \<Rightarrow> 'k list option" where
  "backward cmp sl it =
     (if Iter_Valid it then
        do { k \<leftarrow> Iter_key sl it; it \<leftarrow> Iter_Prev cmp sl it; ks \<leftarrow> backward cmp sl it; Some (k # ks) }
      else Some [])"

fun insert_all :: "('k \<Rightarrow> 'k \<Rightarrow> int option) \<Rightarrow> 'k list \<Rightarrow> 'k SkipList \<Rightarrow> 'k SkipList option" where
  "insert_all cmp [] sl = Some sl"
| "insert_all cmp (k # ks) sl = do { sl \<leftarrow> SkipList_Insert cmp k sl; insert_all cmp ks sl }"

section \<open>Linked nodes\<close>

text \<open>On a level, the nodes behind \<open>x\<close> up to the end.\<close>

primrec linked :: "'k SkipList \<Rightarrow> nat \<Rightarrow> node \<Rightarrow> node list \<Rightarrow> bool" where
  "linked sl i x [] \<longleftrightarrow> Node_Next sl x i = Some None"
| "linked sl i x (n # ns) \<longleftrightarrow> Node_Next sl x i = Some (Some n) \<and> linked sl i n ns"

lemma linked_append: "linked sl i x (as @ bs) \<Longrightarrow> linked sl i (last (x # as)) bs"
  by (induction as arbitrary: x) simp_all

lemma linked_cong:
  "(\<And>n. n \<in> set (x # ns) \<Longrightarrow> Node_Next sl' n i = Node_Next sl n i) \<Longrightarrow> linked sl' i x ns = linked sl i x ns"
  by (induction ns arbitrary: x) simp_all

lemma linked_insert:
  "linked sl i y (as @ bs) \<Longrightarrow> distinct (y # as @ bs) \<Longrightarrow> x \<notin> set (y # as @ bs) \<Longrightarrow>
   Node_Next sl' x i = Node_Next sl (last (y # as)) i \<Longrightarrow>
   Node_Next sl' (last (y # as)) i = Some (Some x) \<Longrightarrow>
   (\<And>n. n \<in> set (y # as @ bs) \<Longrightarrow> n \<noteq> last (y # as) \<Longrightarrow> Node_Next sl' n i = Node_Next sl n i) \<Longrightarrow>
   linked sl' i y (as @ x # bs)"
proof (induction as arbitrary: y)
  case Nil
  show ?case
  proof (cases bs)
    case Nil
    then show ?thesis using Nil.prems by simp
  next
    case (Cons b bs')
    then have "linked sl' i b bs' = linked sl i b bs'" using Nil.prems(2,6) by (intro linked_cong) auto
    then show ?thesis using Cons Nil.prems by simp
  qed
next
  case (Cons a as)
  have "y \<noteq> last (a # as)" using last_in_set [of "a # as"] Cons.prems(2) by (auto simp del: last.simps)
  moreover have "linked sl' i a (as @ x # bs)"
    by (rule Cons.IH) (use Cons.prems in auto)
  ultimately show ?case using Cons.prems by auto
qed

section \<open>The invariant\<close>

context key_order
begin

text \<open>The nodes that have a link on a level.\<close>

definition on_level :: "'k SkipList \<Rightarrow> nat \<Rightarrow> node list \<Rightarrow> node list" where
  "on_level sl i ns = filter (\<lambda>n. i < node_height sl n) ns"

text \<open>
  The nodes \<open>ns\<close> are in the list in the order of their keys: each level links those that are
  high enough.
\<close>

definition sl_inv :: "'k SkipList \<Rightarrow> node list \<Rightarrow> bool" where
  "sl_inv sl ns \<longleftrightarrow>
     distinct (head_node # ns) \<and> (\<forall>n \<in> set (head_node # ns). n < fresh sl) \<and>
     node_height sl head_node = kMaxHeight \<and> 1 \<le> max_height sl \<and> max_height sl \<le> kMaxHeight \<and>
     (\<forall>n \<in> set ns. 1 \<le> node_height sl n \<and> node_height sl n \<le> max_height sl \<and> valid (node_key sl n)) \<and>
     (\<forall>i < kMaxHeight. linked sl i head_node (on_level sl i ns)) \<and>
     sorted_wrt (\<lambda>a b. before cmp (node_key sl a) (node_key sl b)) ns"

text \<open>The nodes before a key, on a level: its predecessor there is the last of them.\<close>

definition lower :: "'k SkipList \<Rightarrow> 'k \<Rightarrow> nat \<Rightarrow> node list \<Rightarrow> node list" where
  "lower sl key i ns = filter (\<lambda>n. before cmp (node_key sl n) key) (on_level sl i ns)"

definition upper :: "'k SkipList \<Rightarrow> 'k \<Rightarrow> nat \<Rightarrow> node list \<Rightarrow> node list" where
  "upper sl key i ns = filter (\<lambda>n. \<not> before cmp (node_key sl n) key) (on_level sl i ns)"

lemma sorted_split:
  "sorted_wrt (\<lambda>a b. before cmp (node_key sl a) (node_key sl b)) ns \<Longrightarrow> \<forall>n \<in> set ns. valid (node_key sl n) \<Longrightarrow>
   valid key \<Longrightarrow> filter (\<lambda>n. before cmp (node_key sl n) key) ns @ filter (\<lambda>n. \<not> before cmp (node_key sl n) key) ns = ns"
proof (induction ns)
  case (Cons n ns)
  show ?case
  proof (cases "before cmp (node_key sl n) key")
    case True
    then show ?thesis using Cons by simp
  next
    case False
    have "\<not> before cmp (node_key sl m) key" if "m \<in> set ns" for m
      using that False Cons.prems before_trans [of "node_key sl n" "node_key sl m" key] by auto
    then have "filter (\<lambda>n. before cmp (node_key sl n) key) ns = []" "filter (\<lambda>n. \<not> before cmp (node_key sl n) key) ns = ns"
      by (simp_all add: filter_empty_conv)
    then show ?thesis using False by simp
  qed
qed simp

lemma level_split:
  "sl_inv sl ns \<Longrightarrow> valid key \<Longrightarrow> on_level sl i ns = lower sl key i ns @ upper sl key i ns"
  using sorted_split [of sl "on_level sl i ns" key]
  by (auto simp: sl_inv_def lower_def upper_def on_level_def sorted_wrt_filter)

lemma lower_Suc: "set (lower sl key (Suc i) ns) \<subseteq> set (lower sl key i ns)"
  by (auto simp: lower_def on_level_def)

definition pred_node :: "'k SkipList \<Rightarrow> 'k \<Rightarrow> nat \<Rightarrow> node list \<Rightarrow> node" where
  "pred_node sl key i ns = last (head_node # lower sl key i ns)"

definition first_node :: "node list \<Rightarrow> node option" where
  "first_node ns = (case ns of [] \<Rightarrow> None | n # _ \<Rightarrow> Some n)"

text \<open>A node among the lower ones has a place in the level below.\<close>

lemma last_place:
  "\<exists>P Q. lower sl key i ns = P @ Q \<and> pred_node sl key (Suc i) ns = last (head_node # P)"
proof (cases "lower sl key (Suc i) ns = []")
  case True
  then show ?thesis
    by (intro exI [of _ "[]"] exI [of _ "lower sl key i ns"]) (simp add: pred_node_def)
next
  case False
  then have "last (lower sl key (Suc i) ns) \<in> set (lower sl key i ns)"
    using lower_Suc last_in_set by blast
  then obtain P Q where "lower sl key i ns = (P @ [last (lower sl key (Suc i) ns)]) @ Q"
    by (metis append.assoc append_Cons append_Nil split_list)
  then show ?thesis using False
    by (intro exI [of _ "P @ [last (lower sl key (Suc i) ns)]"] exI [of _ Q]) (simp add: pred_node_def)
qed

text \<open>What \<open>Next\<close> returns from a place on a level.\<close>

lemma Next_place:
  assumes "sl_inv sl ns" and "i < kMaxHeight" and "valid key" and "lower sl key i ns = P @ Q"
  shows "Node_Next sl (last (head_node # P)) i = Some (first_node (Q @ upper sl key i ns))"
proof -
  have "linked sl i head_node (on_level sl i ns)" using assms(1,2) unfolding sl_inv_def by blast
  then have "linked sl i head_node (P @ Q @ upper sl key i ns)"
    using level_split [OF assms(1,3), of i] assms(4) by simp
  then have "linked sl i (last (head_node # P)) (Q @ upper sl key i ns)" by (rule linked_append)
  then show ?thesis by (cases "Q @ upper sl key i ns") (simp_all add: first_node_def)
qed

lemma after_lower:
  assumes "sl_inv sl ns" and "valid key" and "lower sl key i ns = P @ q # Q"
  shows "\<exists>r. cmp (node_key sl q) key = Some r \<and> r < 0"
proof -
  have "q \<in> set (lower sl key i ns)" using assms(3) by simp
  then have "before cmp (node_key sl q) key" by (simp add: lower_def)
  then show ?thesis by (simp add: before_def split: option.splits)
qed

lemma after_upper:
  assumes "sl_inv sl ns" and "valid key" and "upper sl key i ns = q # Q"
  shows "\<exists>r. cmp (node_key sl q) key = Some r \<and> r \<ge> 0"
proof -
  have "q \<in> set (upper sl key i ns)" using assms(3) by simp
  then have "\<not> before cmp (node_key sl q) key" "valid (node_key sl q)"
    using assms(1) by (auto simp: upper_def on_level_def sl_inv_def)
  then show ?thesis using cmp_Some [of "node_key sl q" key] assms(2) by auto
qed

lemma FindGreaterOrEqual_place:
  assumes "sl_inv sl ns" and "valid key"
  shows "i < kMaxHeight \<Longrightarrow> lower sl key i ns = P @ Q \<Longrightarrow>
    FindGreaterOrEqual_loop cmp sl key (last (head_node # P)) i prev =
      Some (first_node (upper sl key 0 ns), \<lambda>j. if j \<le> i then Some (pred_node sl key j ns) else prev j)"
proof (induction i arbitrary: P Q prev)
  case 0
  then show ?case
  proof (induction Q arbitrary: P)
    case Nil
    have n: "Node_Next sl (last (head_node # P)) 0 = Some (first_node (upper sl key 0 ns))"
      using Next_place [OF assms(1) Nil(1) assms(2) Nil(2)] by simp
    have a: "KeyIsAfterNode cmp sl key (first_node (upper sl key 0 ns)) = Some False"
      using after_upper [OF assms, of 0] by (auto simp: first_node_def KeyIsAfterNode_def split: list.split)
    have "pred_node sl key 0 ns = last (head_node # P)" using Nil(2) by (simp add: pred_node_def)
    then show ?case by (subst FindGreaterOrEqual_loop.simps) (simp add: n a fun_eq_iff del: last.simps)
  next
    case (Cons q Q)
    obtain r where r: "cmp (node_key sl q) key = Some r" "r < 0" using after_lower [OF assms Cons.prems(2)] by blast
    have n: "Node_Next sl (last (head_node # P)) 0 = Some (Some q)"
      using Next_place [OF assms(1) Cons.prems(1) assms(2) Cons.prems(2)] by (simp add: first_node_def)
    have "FindGreaterOrEqual_loop cmp sl key (last (head_node # P @ [q])) 0 prev =
      Some (first_node (upper sl key 0 ns), \<lambda>j. if j \<le> 0 then Some (pred_node sl key j ns) else prev j)"
      using Cons.IH [of "P @ [q]"] Cons.prems by simp
    moreover have "last (head_node # P @ [q]) = q" by simp
    ultimately show ?case using r
      by (subst FindGreaterOrEqual_loop.simps) (simp add: n KeyIsAfterNode_def del: last.simps)
  qed
next
  case (Suc i)
  from Suc.prems show ?case
  proof (induction Q arbitrary: P)
    case Nil
    have n: "Node_Next sl (last (head_node # P)) (Suc i) = Some (first_node (upper sl key (Suc i) ns))"
      using Next_place [OF assms(1) Nil(1) assms(2) Nil(2)] by simp
    have a: "KeyIsAfterNode cmp sl key (first_node (upper sl key (Suc i) ns)) = Some False"
      using after_upper [OF assms, of "Suc i"] by (auto simp: first_node_def KeyIsAfterNode_def split: list.split)
    have p: "pred_node sl key (Suc i) ns = last (head_node # P)" using Nil(2) by (simp add: pred_node_def)
    obtain P' Q' where PQ: "lower sl key i ns = P' @ Q'" "pred_node sl key (Suc i) ns = last (head_node # P')"
      using last_place by blast
    have "FindGreaterOrEqual_loop cmp sl key (last (head_node # P')) i (prev(Suc i := Some (last (head_node # P)))) =
      Some (first_node (upper sl key 0 ns), \<lambda>j. if j \<le> i then Some (pred_node sl key j ns)
        else (prev(Suc i := Some (last (head_node # P)))) j)"
      by (rule Suc.IH [OF Suc_lessD [OF Nil(1)] PQ(1)])
    moreover have "(\<lambda>j. if j \<le> i then Some (pred_node sl key j ns) else (prev(Suc i := Some (last (head_node # P)))) j) =
        (\<lambda>j. if j \<le> Suc i then Some (pred_node sl key j ns) else prev j)"
      using p by (auto simp: fun_eq_iff le_Suc_eq)
    ultimately show ?case using p PQ(2)
      by (subst FindGreaterOrEqual_loop.simps) (simp add: n a del: last.simps)
  next
    case (Cons q Q)
    obtain r where r: "cmp (node_key sl q) key = Some r" "r < 0" using after_lower [OF assms Cons.prems(2)] by blast
    have n: "Node_Next sl (last (head_node # P)) (Suc i) = Some (Some q)"
      using Next_place [OF assms(1) Cons.prems(1) assms(2) Cons.prems(2)] by (simp add: first_node_def)
    have "FindGreaterOrEqual_loop cmp sl key (last (head_node # P @ [q])) (Suc i) prev =
      Some (first_node (upper sl key 0 ns), \<lambda>j. if j \<le> Suc i then Some (pred_node sl key j ns) else prev j)"
      using Cons.IH [of "P @ [q]"] Cons.prems by simp
    moreover have "last (head_node # P @ [q]) = q" by simp
    ultimately show ?case using r
      by (subst FindGreaterOrEqual_loop.simps) (simp add: n KeyIsAfterNode_def del: last.simps)
  qed
qed

lemma FindGreaterOrEqual_inv:
  assumes "sl_inv sl ns" and "valid key"
  shows "FindGreaterOrEqual cmp sl key =
    Some (first_node (upper sl key 0 ns),
      \<lambda>j. if j < max_height sl then Some (pred_node sl key j ns) else None)"
proof -
  let ?i = "max_height sl - 1"
  have i: "?i < kMaxHeight" "\<And>j. j \<le> ?i \<longleftrightarrow> j < max_height sl" using assms(1) by (auto simp: sl_inv_def)
  have "FindGreaterOrEqual_loop cmp sl key (last [head_node]) ?i (\<lambda>_. None) =
    Some (first_node (upper sl key 0 ns), \<lambda>j. if j \<le> ?i then Some (pred_node sl key j ns) else None)"
    by (rule FindGreaterOrEqual_place [OF assms i(1), of "[]"]) simp
  then show ?thesis unfolding FindGreaterOrEqual_def i(2) by simp
qed

lemma FindLessThan_place:
  assumes "sl_inv sl ns" and "valid key"
  shows "i < kMaxHeight \<Longrightarrow> lower sl key i ns = P @ Q \<Longrightarrow>
    FindLessThan_loop cmp sl key (last (head_node # P)) i = Some (pred_node sl key 0 ns)"
proof (induction i arbitrary: P Q)
  have ok: "(if x = head_node then Some True else map_option (\<lambda>r. r < 0) (cmp (node_key sl x) key)) = Some True"
    if x: "x = last (head_node # P)" and P: "lower sl key i ns = P @ Q" for x P Q i
  proof (cases P rule: rev_cases)
    case Nil
    then show ?thesis using x by simp
  next
    case (snoc P' q)
    then show ?thesis using x P after_lower [OF assms, of i P' q Q] by auto
  qed
  {
    case 0
    then show ?case
    proof (induction Q arbitrary: P)
      case Nil
      have n: "Node_Next sl (last (head_node # P)) 0 = Some (first_node (upper sl key 0 ns))"
        using Next_place [OF assms(1) Nil(1) assms(2) Nil(2)] by simp
      have a: "(case first_node (upper sl key 0 ns) of None \<Rightarrow> Some True
          | Some n \<Rightarrow> map_option (\<lambda>r. r \<ge> 0) (cmp (node_key sl n) key)) = Some True"
        using after_upper [OF assms, of 0] by (auto simp: first_node_def split: list.split)
      have "pred_node sl key 0 ns = last (head_node # P)" using Nil(2) by (simp add: pred_node_def)
      then show ?case
        by (subst FindLessThan_loop.simps) (simp add: n a ok [OF refl Nil(2)] del: last.simps)
    next
      case (Cons q Q)
      obtain r where r: "cmp (node_key sl q) key = Some r" "r < 0" using after_lower [OF assms Cons.prems(2)] by blast
      have n: "Node_Next sl (last (head_node # P)) 0 = Some (Some q)"
        using Next_place [OF assms(1) Cons.prems(1) assms(2) Cons.prems(2)] by (simp add: first_node_def)
      have "FindLessThan_loop cmp sl key (last (head_node # P @ [q])) 0 = Some (pred_node sl key 0 ns)"
        using Cons.IH [of "P @ [q]"] Cons.prems by simp
      moreover have "last (head_node # P @ [q]) = q" by simp
      ultimately show ?case using r
        by (subst FindLessThan_loop.simps) (simp add: n ok [OF refl Cons.prems(2)] del: last.simps)
    qed
  next
    case (Suc i)
    from Suc.prems show ?case
    proof (induction Q arbitrary: P)
      case Nil
      have n: "Node_Next sl (last (head_node # P)) (Suc i) = Some (first_node (upper sl key (Suc i) ns))"
        using Next_place [OF assms(1) Nil(1) assms(2) Nil(2)] by simp
      have a: "(case first_node (upper sl key (Suc i) ns) of None \<Rightarrow> Some True
          | Some n \<Rightarrow> map_option (\<lambda>r. r \<ge> 0) (cmp (node_key sl n) key)) = Some True"
        using after_upper [OF assms, of "Suc i"] by (auto simp: first_node_def split: list.split)
      have p: "pred_node sl key (Suc i) ns = last (head_node # P)" using Nil(2) by (simp add: pred_node_def)
      obtain P' Q' where PQ: "lower sl key i ns = P' @ Q'" "pred_node sl key (Suc i) ns = last (head_node # P')"
        using last_place by blast
      have "FindLessThan_loop cmp sl key (last (head_node # P')) i = Some (pred_node sl key 0 ns)"
        by (rule Suc.IH [OF Suc_lessD [OF Nil(1)] PQ(1)])
      then show ?case using p PQ(2)
        by (subst FindLessThan_loop.simps) (simp add: n a ok [OF refl Nil(2)] del: last.simps)
    next
      case (Cons q Q)
      obtain r where r: "cmp (node_key sl q) key = Some r" "r < 0" using after_lower [OF assms Cons.prems(2)] by blast
      have n: "Node_Next sl (last (head_node # P)) (Suc i) = Some (Some q)"
        using Next_place [OF assms(1) Cons.prems(1) assms(2) Cons.prems(2)] by (simp add: first_node_def)
      have "FindLessThan_loop cmp sl key (last (head_node # P @ [q])) (Suc i) = Some (pred_node sl key 0 ns)"
        using Cons.IH [of "P @ [q]"] Cons.prems by simp
      moreover have "last (head_node # P @ [q]) = q" by simp
      ultimately show ?case using r
        by (subst FindLessThan_loop.simps) (simp add: n ok [OF refl Cons.prems(2)] del: last.simps)
    qed
  }
qed

lemma FindLessThan_inv:
  assumes "sl_inv sl ns" and "valid key"
  shows "FindLessThan cmp sl key = Some (pred_node sl key 0 ns)"
proof -
  have "max_height sl - 1 < kMaxHeight" using assms(1) by (auto simp: sl_inv_def)
  then show ?thesis using FindLessThan_place [OF assms, of _ "[]"] by (simp add: FindLessThan_def)
qed

lemma FindLast_place:
  assumes "sl_inv sl ns"
  shows "i < kMaxHeight \<Longrightarrow> on_level sl i ns = P @ Q \<Longrightarrow>
    FindLast_loop sl (last (head_node # P)) i = Some (last (head_node # on_level sl 0 ns))"
proof (induction i arbitrary: P Q)
  have nxt: "Node_Next sl (last (head_node # P)) i = Some (first_node Q)"
    if "i < kMaxHeight" "on_level sl i ns = P @ Q" for i P Q
  proof -
    have "linked sl i head_node (P @ Q)" using assms that unfolding sl_inv_def by metis
    then have "linked sl i (last (head_node # P)) Q" by (rule linked_append)
    then show ?thesis by (cases Q) (simp_all add: first_node_def)
  qed
  {
    case 0
    then show ?case
    proof (induction Q arbitrary: P)
      case Nil
      then show ?case
        by (subst FindLast_loop.simps) (simp add: nxt [OF Nil] first_node_def del: last.simps)
    next
      case (Cons q Q)
      have "FindLast_loop sl (last (head_node # P @ [q])) 0 = Some (last (head_node # on_level sl 0 ns))"
        using Cons.IH [of "P @ [q]"] Cons.prems by simp
      moreover have "last (head_node # P @ [q]) = q" by simp
      ultimately show ?case
        by (subst FindLast_loop.simps) (simp add: nxt [OF Cons.prems] first_node_def del: last.simps)
    qed
  next
    case (Suc i)
    from Suc.prems show ?case
    proof (induction Q arbitrary: P)
      case Nil
      have "\<exists>P' Q'. on_level sl i ns = P' @ Q' \<and> last (head_node # P) = last (head_node # P')"
      proof (cases "P = []")
        case True
        then show ?thesis by (intro exI [of _ "[]"] exI [of _ "on_level sl i ns"]) simp
      next
        case False
        have "set P \<subseteq> set (on_level sl i ns)"
          using Nil(2) by (auto simp: on_level_def)
        then have "last P \<in> set (on_level sl i ns)" using last_in_set [OF False] by blast
        then obtain A B where "on_level sl i ns = (A @ [last P]) @ B"
          by (metis append.assoc append_Cons append_Nil split_list)
        then show ?thesis using False by (intro exI [of _ "A @ [last P]"] exI [of _ B]) simp
      qed
      then obtain P' Q' where PQ: "on_level sl i ns = P' @ Q'" "last (head_node # P) = last (head_node # P')" by blast
      have "FindLast_loop sl (last (head_node # P')) i = Some (last (head_node # on_level sl 0 ns))"
        by (rule Suc.IH [OF Suc_lessD [OF Nil(1)] PQ(1)])
      then have "FindLast_loop sl (last (head_node # P)) i = Some (last (head_node # on_level sl 0 ns))"
        by (simp only: PQ(2))
      then show ?case
        by (subst FindLast_loop.simps) (simp add: nxt [OF Nil] first_node_def del: last.simps)
    next
      case (Cons q Q)
      have "FindLast_loop sl (last (head_node # P @ [q])) (Suc i) = Some (last (head_node # on_level sl 0 ns))"
        using Cons.IH [of "P @ [q]"] Cons.prems by simp
      moreover have "last (head_node # P @ [q]) = q" by simp
      ultimately show ?case
        by (subst FindLast_loop.simps) (simp add: nxt [OF Cons.prems] first_node_def del: last.simps)
    qed
  }
qed

lemma on_level_0: "sl_inv sl ns \<Longrightarrow> on_level sl 0 ns = ns"
  unfolding sl_inv_def on_level_def by (rule filter_True) auto

lemma FindLast_inv:
  assumes "sl_inv sl ns"
  shows "FindLast sl = Some (last (head_node # ns))"
proof -
  have "max_height sl - 1 < kMaxHeight" using assms by (auto simp: sl_inv_def)
  then show ?thesis using FindLast_place [OF assms, of _ "[]"] on_level_0 [OF assms] by (simp add: FindLast_def)
qed

lemma nodes_split: "sl_inv sl ns \<Longrightarrow> valid key \<Longrightarrow> ns = lower sl key 0 ns @ upper sl key 0 ns"
  using level_split [of sl ns key 0] on_level_0 [of sl ns] by simp

end

section \<open>Insertion keeps it\<close>

lemma RandomHeight_bound: "1 \<le> h \<Longrightarrow> h \<le> kMaxHeight \<Longrightarrow>
  h \<le> fst (RandomHeight_loop h seed) \<and> fst (RandomHeight_loop h seed) \<le> kMaxHeight"
proof (induction h seed rule: RandomHeight_loop.induct)
  case (1 h seed)
  show ?case
  proof (cases "h < kMaxHeight \<and> Next seed mod 4 = 0")
    case True
    then have "h + 1 \<le> fst (RandomHeight_loop (h + 1) (Next seed)) \<and>
        fst (RandomHeight_loop (h + 1) (Next seed)) \<le> kMaxHeight"
      using "1.prems" by (intro "1.IH") simp_all
    moreover have "RandomHeight_loop h seed = RandomHeight_loop (h + 1) (Next seed)"
      using True by (subst RandomHeight_loop.simps) (simp only: Let_def if_True refl)
    ultimately show ?thesis by simp
  next
    case False
    then have "fst (RandomHeight_loop h seed) = h"
      by (subst RandomHeight_loop.simps) (auto simp only: Let_def fst_conv split: if_splits)
    then show ?thesis using "1.prems" by simp
  qed
qed

text \<open>The links that the loop sets.\<close>

lemma link_loop_links:
  "distinct is \<Longrightarrow> (\<And>i. i \<in> set is \<Longrightarrow> prev i = Some (p i) \<and> i < node_height sl (p i) \<and> i < node_height sl x \<and> p i \<noteq> x) \<Longrightarrow>
   link_loop is x prev sl = Some (sl\<lparr>node_next := \<lambda>n i.
     if i \<in> set is then if n = x then node_next sl (p i) i else if n = p i then Some x else node_next sl n i
     else node_next sl n i\<rparr>)"
proof (induction "is" arbitrary: sl)
  case Nil
  show ?case by simp
next
  case (Cons i "is")
  have i: "prev i = Some (p i)" "i < node_height sl (p i)" "i < node_height sl x" "p i \<noteq> x"
    using Cons.prems(2) [of i] by simp_all
  let ?sl = "sl\<lparr>node_next := ((node_next sl)(x := (node_next sl x)(i := node_next sl (p i) i)))
      (p i := (node_next sl (p i))(i := Some x))\<rparr>"
  have "link_loop (i # is) x prev sl = link_loop is x prev ?sl"
    using i by (simp add: Node_Next_def Node_SetNext_def)
  also have "\<dots> = Some (?sl\<lparr>node_next := \<lambda>n j.
     if j \<in> set is then if n = x then node_next ?sl (p j) j else if n = p j then Some x else node_next ?sl n j
     else node_next ?sl n j\<rparr>)"
    using Cons.prems by (intro Cons.IH) auto
  also have "(\<lambda>n j. if j \<in> set is then if n = x then node_next ?sl (p j) j else if n = p j then Some x else node_next ?sl n j
     else node_next ?sl n j) =
    (\<lambda>n j. if j \<in> set (i # is) then if n = x then node_next sl (p j) j else if n = p j then Some x else node_next sl n j
     else node_next sl n j)"
    using Cons.prems(1) i(4) by (auto simp: fun_eq_iff)
  finally show ?case by simp
qed

context key_order
begin

definition inserted :: "'k SkipList \<Rightarrow> 'k \<Rightarrow> nat \<Rightarrow> uint32_t \<Rightarrow> node list \<Rightarrow> 'k SkipList" where
  "inserted sl key h seed ns = sl\<lparr>node_key := (node_key sl)(fresh sl := key),
     node_height := (node_height sl)(fresh sl := h),
     node_next := \<lambda>n i. if i < h then if n = fresh sl then node_next sl (pred_node sl key i ns) i
         else if n = pred_node sl key i ns then Some (fresh sl) else node_next sl n i
       else node_next sl n i,
     max_height := max h (max_height sl), rnd := seed, fresh := fresh sl + 1\<rparr>"

lemma pred_node_in: "pred_node sl key i ns = head_node \<or> pred_node sl key i ns \<in> set (lower sl key i ns)"
  unfolding pred_node_def using last_in_set [of "lower sl key i ns"] by simp

lemma pred_node_height:
  assumes "sl_inv sl ns" and "i < kMaxHeight"
  shows "i < node_height sl (pred_node sl key i ns) \<and> pred_node sl key i ns < fresh sl"
  using pred_node_in [of sl key i ns] assms by (auto simp: sl_inv_def lower_def on_level_def)

lemma pred_node_top:
  assumes "sl_inv sl ns" and "max_height sl \<le> i"
  shows "pred_node sl key i ns = head_node"
proof -
  have "on_level sl i ns = []" using assms by (fastforce simp: sl_inv_def on_level_def filter_empty_conv)
  then show ?thesis by (simp add: pred_node_def lower_def)
qed

lemma Insert_inserted:
  assumes "sl_inv sl ns" and "valid key" and "\<forall>n \<in> set ns. cmp key (node_key sl n) \<noteq> Some 0"
  shows "SkipList_Insert cmp key sl =
    Some (inserted sl key (fst (RandomHeight (rnd sl))) (snd (RandomHeight (rnd sl))) ns)"
proof -
  define h seed x where "h = fst (RandomHeight (rnd sl))" and "seed = snd (RandomHeight (rnd sl))" and "x = fresh sl"
  define sl1 where "sl1 = (if h > max_height sl then sl\<lparr>rnd := seed, max_height := h\<rparr> else sl\<lparr>rnd := seed\<rparr>)
    \<lparr>node_key := (node_key sl)(x := key), node_height := (node_height sl)(x := h), fresh := x + 1\<rparr>"
  have h: "h \<le> kMaxHeight"
    using RandomHeight_bound [of 1 "rnd sl"] by (simp add: h_def RandomHeight_def kMaxHeight_def)
  have R: "RandomHeight (rnd sl) = (h, seed)" by (simp add: h_def seed_def)
  have dup: "(case first_node (upper sl key 0 ns) of None \<Rightarrow> Some False
      | Some n \<Rightarrow> Equal cmp key (node_key sl n)) = Some False"
  proof (cases "upper sl key 0 ns")
    case (Cons n U)
    then have "n \<in> set (upper sl key 0 ns)" by simp
    then have n: "n \<in> set ns" by (simp add: upper_def on_level_def)
    then have "valid (node_key sl n)" using assms(1) by (auto simp: sl_inv_def)
    then obtain r where "cmp key (node_key sl n) = Some r" using cmp_Some [OF assms(2)] by blast
    then show ?thesis using Cons n assms(3) by (auto simp: first_node_def Equal_def)
  qed (simp add: first_node_def)
  have prev: "(if h > max_height sl then \<lambda>i. if max_height sl \<le> i \<and> i < h then Some head_node
        else if i < max_height sl then Some (pred_node sl key i ns) else None
      else (\<lambda>i. if i < max_height sl then Some (pred_node sl key i ns) else None)) i = Some (pred_node sl key i ns)"
    if "i < h" for i
    using that pred_node_top [OF assms(1), of i key] by auto
  have "SkipList_Insert cmp key sl = link_loop [0..<h] x
      (if h > max_height sl then \<lambda>i. if max_height sl \<le> i \<and> i < h then Some head_node
        else if i < max_height sl then Some (pred_node sl key i ns) else None
      else (\<lambda>i. if i < max_height sl then Some (pred_node sl key i ns) else None)) sl1"
    by (simp add: SkipList_Insert_def FindGreaterOrEqual_inv [OF assms(1,2)] dup R NewNode_def sl1_def x_def)
  also have "\<dots> = Some (sl1\<lparr>node_next := \<lambda>n i. if i \<in> set [0..<h] then
      if n = x then node_next sl1 (pred_node sl key i ns) i else if n = pred_node sl key i ns then Some x else node_next sl1 n i
      else node_next sl1 n i\<rparr>)"
  proof (rule link_loop_links)
    fix i assume "i \<in> set [0..<h]"
    then have "i < h" by simp
    then have "i < kMaxHeight" using h by simp
    then have "i < node_height sl (pred_node sl key i ns)" "pred_node sl key i ns \<noteq> x"
      using pred_node_height [OF assms(1), of i key] by (auto simp: x_def)
    then show "(if h > max_height sl then \<lambda>i. if max_height sl \<le> i \<and> i < h then Some head_node
        else if i < max_height sl then Some (pred_node sl key i ns) else None
      else (\<lambda>i. if i < max_height sl then Some (pred_node sl key i ns) else None)) i = Some (pred_node sl key i ns)
      \<and> i < node_height sl1 (pred_node sl key i ns) \<and> i < node_height sl1 x \<and> pred_node sl key i ns \<noteq> x"
      using \<open>i < h\<close> by (intro conjI prev) (simp_all add: sl1_def)
  qed simp
  also have "\<dots> = Some (inserted sl key h seed ns)"
  proof -
    have f: "node_key sl1 = (node_key sl)(fresh sl := key)" "node_height sl1 = (node_height sl)(fresh sl := h)"
      "node_next sl1 = node_next sl" "max_height sl1 = max h (max_height sl)" "rnd sl1 = seed"
      "fresh sl1 = fresh sl + 1" "SkipList.more sl1 = SkipList.more sl"
      by (simp_all add: sl1_def x_def)
    show ?thesis unfolding option.inject
      by (rule SkipList.equality) (auto simp: fun_eq_iff inserted_def f x_def)
  qed
  finally show ?thesis by (simp add: h_def seed_def)
qed

lemma on_level_inserted:
  assumes "sl_inv sl ns"
  shows "on_level (inserted sl key h seed ns) i (lower sl key 0 ns @ fresh sl # upper sl key 0 ns) =
    lower sl key i ns @ (if i < h then [fresh sl] else []) @ upper sl key i ns"
proof -
  have "on_level (inserted sl key h seed ns) i (lower sl key 0 ns) = lower sl key i ns"
    and "on_level (inserted sl key h seed ns) i (upper sl key 0 ns) = upper sl key i ns"
    using assms unfolding on_level_def lower_def upper_def filter_filter
    by (auto intro!: filter_cong simp: inserted_def sl_inv_def)
  then show ?thesis by (simp add: on_level_def inserted_def)
qed

lemma linked_inserted:
  assumes "sl_inv sl ns" and "valid key" and "i < kMaxHeight"
  shows "linked (inserted sl key h seed ns) i head_node
    (lower sl key i ns @ (if i < h then [fresh sl] else []) @ upper sl key i ns)"
proof -
  let ?sl = "inserted sl key h seed ns"
  have l: "linked sl i head_node (lower sl key i ns @ upper sl key i ns)"
    using assms level_split [OF assms(1,2), of i] by (auto simp: sl_inv_def)
  have m: "set (head_node # lower sl key i ns @ upper sl key i ns) \<subseteq> set (head_node # ns)"
    by (auto simp: lower_def upper_def on_level_def)
  have f: "n < fresh sl" if "n \<in> set (head_node # lower sl key i ns @ upper sl key i ns)" for n
    using that m assms(1) unfolding sl_inv_def by blast
  show ?thesis
  proof (cases "i < h")
    case True
    have "linked ?sl i head_node (lower sl key i ns @ fresh sl # upper sl key i ns)"
    proof (rule linked_insert [OF l])
      show "distinct (head_node # lower sl key i ns @ upper sl key i ns)"
        using assms(1) level_split [OF assms(1,2), of i] unfolding sl_inv_def
        by (metis distinct.simps(2) distinct_filter filter_is_subset on_level_def subsetD)
      show "fresh sl \<notin> set (head_node # lower sl key i ns @ upper sl key i ns)" using f by blast
      show "Node_Next ?sl (fresh sl) i = Node_Next sl (last (head_node # lower sl key i ns)) i"
        using True pred_node_height [OF assms(1,3), of key]
        by (simp add: Node_Next_def inserted_def pred_node_def del: last.simps)
      show "Node_Next ?sl (last (head_node # lower sl key i ns)) i = Some (Some (fresh sl))"
        using True pred_node_height [OF assms(1,3), of key]
        by (simp add: Node_Next_def inserted_def pred_node_def del: last.simps)
      show "Node_Next ?sl n i = Node_Next sl n i"
        if "n \<in> set (head_node # lower sl key i ns @ upper sl key i ns)" "n \<noteq> last (head_node # lower sl key i ns)" for n
        using f [OF that(1)] that(2) by (simp add: Node_Next_def inserted_def pred_node_def del: last.simps)
    qed
    then show ?thesis using True by simp
  next
    case False
    then have "linked ?sl i head_node (lower sl key i ns @ upper sl key i ns)"
      using l f by (subst linked_cong [of _ _ _ _ sl]) (auto simp: Node_Next_def inserted_def)
    then show ?thesis using False by simp
  qed
qed


lemma fresh_notin: "sl_inv sl ns \<Longrightarrow> fresh sl \<notin> set (head_node # ns)"
  unfolding sl_inv_def by blast

lemma inserted_keys:
  "sl_inv sl ns \<Longrightarrow> n \<in> set ns \<Longrightarrow> node_key (inserted sl key h seed ns) n = node_key sl n"
  using fresh_notin [of sl ns] by (auto simp: inserted_def)

lemma inserted_inv:
  assumes "sl_inv sl ns" and "valid key" and "\<forall>n \<in> set ns. cmp key (node_key sl n) \<noteq> Some 0"
    and "1 \<le> h" and "h \<le> kMaxHeight"
  shows "sl_inv (inserted sl key h seed ns) (lower sl key 0 ns @ fresh sl # upper sl key 0 ns)"
proof -
  let ?sl = "inserted sl key h seed ns" and ?L = "lower sl key 0 ns" and ?U = "upper sl key 0 ns"
  have ns: "ns = ?L @ ?U" by (rule nodes_split [OF assms(1,2)])
  have s: "set ns = set ?L \<union> set ?U" by (subst ns) simp
  have v: "valid (node_key sl n)" if "n \<in> set ns" for n using that assms(1) by (simp add: sl_inv_def)
  have lo: "before cmp (node_key sl n) key" if "n \<in> set ?L" for n using that by (simp add: lower_def)
  have up: "before cmp key (node_key sl n)" if "n \<in> set ?U" for n
  proof -
    have n: "n \<in> set ns" "\<not> before cmp (node_key sl n) key" using that by (auto simp: upper_def on_level_def)
    then show ?thesis using cmp_sym [OF assms(2) v [OF n(1)]] assms(3)
      by (fastforce simp: before_def sgn_if split: if_splits)
  qed
  have sl: "distinct (head_node # ns)" "\<And>n. n \<in> set (head_node # ns) \<Longrightarrow> n < fresh sl"
    using assms(1) unfolding sl_inv_def by blast+
  have "sorted_wrt (\<lambda>a b. before cmp (node_key sl a) (node_key sl b)) (?L @ ?U)"
    using assms(1) unfolding sl_inv_def by (subst ns [symmetric]) blast
  then have "sorted_wrt (\<lambda>a b. before cmp (node_key ?sl a) (node_key ?sl b)) (?L @ fresh sl # ?U)"
  proof -
    assume *: "sorted_wrt (\<lambda>a b. before cmp (node_key sl a) (node_key sl b)) (?L @ ?U)"
    have f: "n \<noteq> fresh sl" if "n \<in> set ?L \<union> set ?U" for n using fresh_notin [OF assms(1)] that s by auto
    have k: "node_key ?sl n = node_key sl n" if "n \<in> set ?L \<union> set ?U" for n using f [OF that] by (simp add: inserted_def)
    have x: "node_key ?sl (fresh sl) = key" by (simp add: inserted_def)
    from * show ?thesis unfolding sorted_wrt_append
      by (auto simp: k x lo up elim!: sorted_wrt_mono_rel [rotated])
  qed
  moreover have "distinct (head_node # ?L @ fresh sl # ?U)"
    using sl fresh_notin [OF assms(1)] s by (subst (asm) ns) auto
  moreover have "\<forall>i < kMaxHeight. linked ?sl i head_node (on_level ?sl i (?L @ fresh sl # ?U))"
    using linked_inserted [OF assms(1,2)] by (simp add: on_level_inserted [OF assms(1)])
  moreover have "\<forall>n \<in> set (?L @ fresh sl # ?U). 1 \<le> node_height ?sl n \<and> node_height ?sl n \<le> max_height ?sl \<and>
      valid (node_key ?sl n)"
  proof
    fix n assume "n \<in> set (?L @ fresh sl # ?U)"
    then have "n = fresh sl \<or> n \<in> set ns" using s by auto
    then show "1 \<le> node_height ?sl n \<and> node_height ?sl n \<le> max_height ?sl \<and> valid (node_key ?sl n)"
      using assms(1,2,4) by (auto simp: inserted_def sl_inv_def)
  qed
  moreover have "\<forall>n \<in> set (head_node # ?L @ fresh sl # ?U). n < fresh ?sl"
    using sl(2) s by (auto simp: inserted_def intro: less_SucI)
  moreover have "node_height ?sl head_node = kMaxHeight \<and> 1 \<le> max_height ?sl \<and> max_height ?sl \<le> kMaxHeight"
    using assms(1,5) sl(2) [of head_node] by (auto simp: sl_inv_def inserted_def)
  ultimately show ?thesis unfolding sl_inv_def by blast
qed

text \<open>\<open>Insert\<close> puts one node with the key in its place; the others keep theirs.\<close>

lemma Insert_inv:
  assumes "sl_inv sl ns" and "valid key" and "\<forall>n \<in> set ns. cmp key (node_key sl n) \<noteq> Some 0"
  shows "\<exists>sl'. SkipList_Insert cmp key sl = Some sl' \<and>
    sl_inv sl' (lower sl key 0 ns @ fresh sl # upper sl key 0 ns) \<and>
    node_key sl' (fresh sl) = key \<and> (\<forall>n \<in> set ns. node_key sl' n = node_key sl n)"
proof -
  have "1 \<le> fst (RandomHeight (rnd sl)) \<and> fst (RandomHeight (rnd sl)) \<le> kMaxHeight"
    using RandomHeight_bound [of 1 "rnd sl"] by (simp add: RandomHeight_def kMaxHeight_def)
  then show ?thesis
    using Insert_inserted [OF assms] inserted_inv [OF assms] inserted_keys [OF assms(1)]
    by (simp add: inserted_def)
qed

text \<open>The keys in the list, in order.\<close>

definition holds_keys :: "'k SkipList \<Rightarrow> 'k list \<Rightarrow> bool" where
  "holds_keys sl ks \<longleftrightarrow> (\<exists>ns. sl_inv sl ns \<and> ks = map (node_key sl) ns)"

lemma holds_new: "holds_keys ((new_SkipList k)\<lparr>rnd := seed\<rparr>) []"
proof -
  have "sl_inv ((new_SkipList k)\<lparr>rnd := seed\<rparr>) []"
    by (simp add: sl_inv_def new_SkipList_def on_level_def Node_Next_def head_node_def kMaxHeight_def)
  then show ?thesis by (auto simp: holds_keys_def)
qed

lemma holds_sorted: "holds_keys sl ks \<Longrightarrow> sorted_wrt (before cmp) ks \<and> (\<forall>k \<in> set ks. valid k)"
  by (auto simp: holds_keys_def sl_inv_def sorted_wrt_map)

lemma holds_Insert:
  assumes "holds_keys sl ks" and "valid key" and "\<forall>k \<in> set ks. cmp key k \<noteq> Some 0"
  shows "\<exists>sl'. SkipList_Insert cmp key sl = Some sl' \<and>
    holds_keys sl' (filter (\<lambda>k. before cmp k key) ks @ key # filter (\<lambda>k. \<not> before cmp k key) ks)"
proof -
  obtain ns where ns: "sl_inv sl ns" "ks = map (node_key sl) ns" using assms(1) by (auto simp: holds_keys_def)
  obtain sl' where sl': "SkipList_Insert cmp key sl = Some sl'"
    "sl_inv sl' (lower sl key 0 ns @ fresh sl # upper sl key 0 ns)"
    "node_key sl' (fresh sl) = key" "\<forall>n \<in> set ns. node_key sl' n = node_key sl n"
    using Insert_inv [OF ns(1) assms(2)] assms(3) ns(2) by auto
  have "map (node_key sl') (lower sl key 0 ns @ fresh sl # upper sl key 0 ns) =
    filter (\<lambda>k. before cmp k key) ks @ key # filter (\<lambda>k. \<not> before cmp k key) ks"
    using sl'(3,4) on_level_0 [OF ns(1)] by (simp add: ns(2) lower_def upper_def filter_map o_def)
  then show ?thesis using sl'(1,2) unfolding holds_keys_def by metis
qed

text \<open>\<open>Seek\<close> stops at the first key that is not before its target.\<close>

lemma holds_Seek:
  assumes "holds_keys sl ks" and "valid t"
  shows "\<exists>it. Iter_Seek cmp sl t = Some it \<and>
    (case it of None \<Rightarrow> \<forall>k \<in> set ks. before cmp k t
     | Some n \<Rightarrow> node_key sl n \<in> set ks \<and> \<not> before cmp (node_key sl n) t \<and>
         (\<forall>k \<in> set ks. \<not> before cmp k t \<longrightarrow> k = node_key sl n \<or> before cmp (node_key sl n) k))"
proof -
  obtain ns where ns: "sl_inv sl ns" "ks = map (node_key sl) ns" using assms(1) by (auto simp: holds_keys_def)
  have u: "upper sl t 0 ns = filter (\<lambda>n. \<not> before cmp (node_key sl n) t) ns"
    using on_level_0 [OF ns(1)] by (simp add: upper_def)
  have so: "sorted_wrt (\<lambda>a b. before cmp (node_key sl a) (node_key sl b)) (upper sl t 0 ns)"
    using ns(1) by (simp add: u sl_inv_def sorted_wrt_filter)
  have se: "set (upper sl t 0 ns) = {n \<in> set ns. \<not> before cmp (node_key sl n) t}" by (simp add: u)
  have it: "Iter_Seek cmp sl t = Some (first_node (upper sl t 0 ns))"
    by (simp add: Iter_Seek_def FindGreaterOrEqual_inv [OF ns(1) assms(2)])
  show ?thesis
  proof (cases "upper sl t 0 ns")
    case Nil
    then have "\<forall>k \<in> set ks. before cmp k t" using se ns(2) by auto
    then show ?thesis using it Nil by (simp add: first_node_def)
  next
    case (Cons n U)
    have "k = node_key sl n \<or> before cmp (node_key sl n) k" if k: "k \<in> set ks" "\<not> before cmp k t" for k
    proof -
      obtain m where m: "k = node_key sl m" "m \<in> set (upper sl t 0 ns)" using k se ns(2) by auto
      then show ?thesis using so Cons by auto
    qed
    moreover have "node_key sl n \<in> set ks \<and> \<not> before cmp (node_key sl n) t" using se Cons ns(2) by auto
    ultimately show ?thesis using it Cons by (simp add: first_node_def)
  qed
qed

lemma holds_Contains:
  assumes "holds_keys sl ks" and "valid key"
  shows "SkipList_Contains cmp key sl = Some (\<exists>k \<in> set ks. cmp key k = Some 0)"
proof -
  obtain it where it: "Iter_Seek cmp sl key = Some it"
    "case it of None \<Rightarrow> \<forall>k \<in> set ks. before cmp k key
     | Some n \<Rightarrow> node_key sl n \<in> set ks \<and> \<not> before cmp (node_key sl n) key \<and>
         (\<forall>k \<in> set ks. \<not> before cmp k key \<longrightarrow> k = node_key sl n \<or> before cmp (node_key sl n) k)"
    using holds_Seek [OF assms] by blast
  have v: "valid k" if "k \<in> set ks" for k using that holds_sorted [OF assms(1)] by blast
  have eq: "\<not> before cmp k key" "\<not> before cmp key k" if "k \<in> set ks" "cmp key k = Some 0" for k
    using cmp_sym [OF assms(2) v [OF that(1)]] that(2) by (auto simp: before_def sgn_if split: if_splits)
  have find: "SkipList_Contains cmp key sl =
      (case it of None \<Rightarrow> Some False | Some n \<Rightarrow> Equal cmp key (node_key sl n))"
    using it(1) by (auto simp: SkipList_Contains_def Iter_Seek_def)
  show ?thesis
  proof (cases it)
    case None
    then show ?thesis using find it(2) eq by auto
  next
    case (Some n)
    then have n: "node_key sl n \<in> set ks" "\<not> before cmp (node_key sl n) key"
      "\<forall>k \<in> set ks. \<not> before cmp k key \<longrightarrow> k = node_key sl n \<or> before cmp (node_key sl n) k"
      using it(2) by auto
    obtain r where r: "cmp key (node_key sl n) = Some r" using cmp_Some [OF assms(2) v [OF n(1)]] by blast
    have "r = 0" if k: "k \<in> set ks" "cmp key k = Some 0" for k
    proof (rule ccontr)
      assume "r \<noteq> 0"
      then have k': "before cmp (node_key sl n) k" using n(3) k eq(1) [OF k] r by auto
      then have "before cmp key k" using not_before_trans [OF assms(2) v [OF n(1)] v [OF k(1)] n(2)] by blast
      then show False using eq(2) [OF k] by simp
    qed
    then show ?thesis using find Some r n(1) by (auto simp: Equal_def)
  qed
qed

lemma forward_linked: "linked sl 0 x ns \<Longrightarrow> forward sl (first_node ns) = Some (map (node_key sl) ns)"
proof (induction ns arbitrary: x)
  case Nil
  then show ?case by (subst forward.simps) (simp add: first_node_def Iter_Valid_def)
next
  case (Cons n ns)
  have "Node_Next sl n 0 = Some (first_node ns)" using Cons.prems by (cases ns) (simp_all add: first_node_def)
  then show ?case using Cons.IH [of n] Cons.prems
    by (subst forward.simps) (simp add: first_node_def [of "n # ns"] Iter_Valid_def Iter_key_def Iter_Next_def)
qed

lemma holds_forward:
  assumes "holds_keys sl ks"
  shows "Option.bind (Iter_SeekToFirst sl) (forward sl) = Some ks"
proof -
  obtain ns where ns: "sl_inv sl ns" "ks = map (node_key sl) ns" using assms by (auto simp: holds_keys_def)
  have "linked sl 0 head_node (on_level sl 0 ns)" using ns(1) by (simp add: sl_inv_def kMaxHeight_def)
  then have l: "linked sl 0 head_node ns" using on_level_0 [OF ns(1)] by simp
  then have "Iter_SeekToFirst sl = Some (first_node ns)"
    by (cases ns) (simp_all add: Iter_SeekToFirst_def first_node_def)
  then show ?thesis using forward_linked [OF l] ns(2) by simp
qed

definition last_node :: "node list \<Rightarrow> node option" where
  "last_node ns = (if ns = [] then None else Some (last ns))"

lemma Prev_place:
  assumes "sl_inv sl ns" and "ns = as @ n # bs"
  shows "Iter_Prev cmp sl (Some n) = Some (last_node as)"
proof -
  have v: "valid (node_key sl m)" if "m \<in> set ns" for m using that assms(1) by (simp add: sl_inv_def)
  have o: "sorted_wrt (\<lambda>a b. before cmp (node_key sl a) (node_key sl b)) (as @ n # bs)"
    using assms by (simp add: sl_inv_def)
  have asym: "\<not> before cmp (node_key sl m) (node_key sl n)" if "m \<in> set ns" "\<not> before cmp (node_key sl m) (node_key sl n) \<or>
      before cmp (node_key sl n) (node_key sl m)" for m
    using that cmp_sym [OF v [OF that(1)] v [of n]] assms(2) by (auto simp: before_def sgn_if split: if_splits)
  have "\<not> before cmp (node_key sl n) (node_key sl n)"
    using cmp_sym [of "node_key sl n" "node_key sl n"] v [of n] assms(2) by (auto simp: before_def sgn_if split: if_splits)
  then have "filter (\<lambda>m. before cmp (node_key sl m) (node_key sl n)) (as @ n # bs) = as"
    using o asym assms(2) by (auto simp: sorted_wrt_append filter_empty_conv intro!: filter_True)
  then have "lower sl (node_key sl n) 0 ns = as" using on_level_0 [OF assms(1)] assms(2) by (simp add: lower_def)
  moreover have "as \<noteq> [] \<Longrightarrow> last as \<noteq> head_node" using assms by (auto simp: sl_inv_def dest: last_in_set)
  ultimately show ?thesis using FindLessThan_inv [OF assms(1) v [of n]] assms(2)
    by (cases "as = []") (auto simp: Iter_Prev_def pred_node_def last_node_def)
qed

lemma backward_place:
  "sl_inv sl ns \<Longrightarrow> ns = as @ bs \<Longrightarrow> backward cmp sl (last_node as) = Some (rev (map (node_key sl) as))"
proof (induction as arbitrary: bs rule: rev_induct)
  case Nil
  show ?case by (subst backward.simps) (simp add: last_node_def Iter_Valid_def)
next
  case (snoc n as)
  have "Iter_Prev cmp sl (Some n) = Some (last_node as)" using Prev_place [OF snoc.prems(1), of as n bs] snoc.prems(2) by simp
  moreover have "backward cmp sl (last_node as) = Some (rev (map (node_key sl) as))"
    using snoc.IH [OF snoc.prems(1), of "n # bs"] snoc.prems(2) by simp
  ultimately show ?case
    by (subst backward.simps) (simp add: last_node_def [of "as @ [n]"] Iter_Valid_def Iter_key_def)
qed

lemma holds_backward:
  assumes "holds_keys sl ks"
  shows "Option.bind (Iter_SeekToLast sl) (backward cmp sl) = Some (rev ks)"
proof -
  obtain ns where ns: "sl_inv sl ns" "ks = map (node_key sl) ns" using assms by (auto simp: holds_keys_def)
  have "ns \<noteq> [] \<Longrightarrow> last ns \<noteq> head_node" using ns(1) by (auto simp: sl_inv_def dest: last_in_set)
  then have "Iter_SeekToLast sl = Some (last_node ns)"
    using FindLast_inv [OF ns(1)]
    by (cases "ns = []") (auto simp: Iter_SeekToLast_def last_node_def)
  then show ?thesis using backward_place [OF ns(1), of ns "[]"] ns(2) by (simp add: rev_map)
qed

lemma holds_insert_all:
  "holds_keys sl es \<Longrightarrow> \<forall>k \<in> set ks. valid k \<Longrightarrow> \<forall>k \<in> set ks. \<forall>e \<in> set es. cmp k e \<noteq> Some 0 \<Longrightarrow>
   sorted_wrt (\<lambda>a b. cmp b a \<noteq> Some 0) ks \<Longrightarrow>
   \<exists>sl' es'. insert_all cmp ks sl = Some sl' \<and> holds_keys sl' es' \<and> mset es' = mset es + mset ks"
proof (induction ks arbitrary: sl es)
  case Nil
  then show ?case by (intro exI [of _ sl] exI [of _ es]) simp
next
  case (Cons k ks)
  let ?es = "filter (\<lambda>e. before cmp e k) es @ k # filter (\<lambda>e. \<not> before cmp e k) es"
  have "valid k" "\<forall>e \<in> set es. cmp k e \<noteq> Some 0" using Cons.prems by auto
  then obtain sl' where sl': "SkipList_Insert cmp k sl = Some sl'" "holds_keys sl' ?es"
    using holds_Insert [OF Cons.prems(1)] by blast
  have "\<exists>sl'' es'. insert_all cmp ks sl' = Some sl'' \<and> holds_keys sl'' es' \<and> mset es' = mset ?es + mset ks"
    by (rule Cons.IH [OF sl'(2)]) (use Cons.prems in auto)
  moreover have "mset ?es = mset es + {#k#}" by simp
  ultimately show ?case using sl'(1) by auto
qed

end

text \<open>
  C13: for a comparator that orders the keys, inserting keys that differ from each other into an
  empty skip list passes the assert of \<open>Insert\<close> and all searches end; afterwards the iterators
  return exactly those keys, in increasing order forwards and in decreasing order backwards, and
  \<open>Contains\<close> answers for the keys that were inserted, whatever the random heights were.
\<close>

theorem skip_list_sorted:
  assumes "key_order cmp valid" and "\<forall>k \<in> set ks. valid k" and "sorted_wrt (\<lambda>a b. cmp b a \<noteq> Some 0) ks"
  shows "\<exists>sl es. insert_all cmp ks ((new_SkipList k0)\<lparr>rnd := seed\<rparr>) = Some sl \<and>
    mset es = mset ks \<and> sorted_wrt (before cmp) es \<and>
    Option.bind (Iter_SeekToFirst sl) (forward sl) = Some es \<and>
    Option.bind (Iter_SeekToLast sl) (backward cmp sl) = Some (rev es) \<and>
    (\<forall>key. valid key \<longrightarrow> SkipList_Contains cmp key sl = Some (\<exists>k \<in> set ks. cmp key k = Some 0))"
proof -
  note ko = key_order.holds_new [OF assms(1)] key_order.holds_insert_all [OF assms(1)]
    key_order.holds_sorted [OF assms(1)] key_order.holds_forward [OF assms(1)]
    key_order.holds_backward [OF assms(1)] key_order.holds_Contains [OF assms(1)]
  obtain sl es where sl: "insert_all cmp ks ((new_SkipList k0)\<lparr>rnd := seed\<rparr>) = Some sl"
    "key_order.holds_keys cmp valid sl es" "mset es = mset ks"
    using ko(2) [OF ko(1) assms(2) _ assms(3), of seed k0] by auto
  have s: "set es = set ks" using sl(3) by (rule mset_eq_setD)
  show ?thesis
    using ko(3-6) [OF sl(2)] sl(1,3) s by (intro exI [of _ sl] exI [of _ es]) simp
qed

theorem skip_list_sorted_witness:
  "\<exists>sl es. insert_all (\<lambda>a b. Some (a - b)) [3, 1, 2 :: int] ((new_SkipList 0)\<lparr>rnd := 7\<rparr>) = Some sl \<and>
    mset es = mset [3, 1, 2] \<and> sorted_wrt (before (\<lambda>a b. Some (a - b))) es \<and>
    Option.bind (Iter_SeekToFirst sl) (forward sl) = Some es \<and>
    SkipList_Contains (\<lambda>a b. Some (a - b)) 2 sl = Some True"
proof -
  have "key_order (\<lambda>a b :: int. Some (a - b)) (\<lambda>_. True)"
    by unfold_locales (auto simp: sgn_if)
  from skip_list_sorted [OF this, of "[3, 1, 2]" 7 0] show ?thesis by (auto simp del: insert_all.simps)
qed

end
