(* ===== verification/LdbWriteBatch.thy ===== *)
theory LdbWriteBatch
  imports LdbComparator LdbLogging
begin

text \<open>
  LevelDB's \<open>db/write_batch.cc\<close>: a batch of updates as the string that is also written to the
  log, its iterator and the operations of \<open>write_batch_internal.h\<close>. \<open>None\<close> is undefined
  behaviour: an access beyond the string, a failing assert or an overflow of a signed counter.
  The batch is shown to implement a list of updates with a sequence number (\<open>batch_rep\<close>).
\<close>

section \<open>The operations\<close>

type_synonym WriteBatch = slice

definition kHeader :: nat where "kHeader = 12"

definition WriteBatch_Clear :: WriteBatch where
  "WriteBatch_Clear = replicate kHeader 0"

definition kMaxInt :: int where "kMaxInt = 2 ^ 31 - 1"

definition WriteBatch_Count :: "WriteBatch \<Rightarrow> int option" where
  "WriteBatch_Count b = map_option sint (DecodeFixed32 (drop 8 b))"

definition SetCount :: "WriteBatch \<Rightarrow> int \<Rightarrow> WriteBatch option" where
  "SetCount b n = (if length b < 12 then None else Some (take 8 b @ EncodeFixed32 (of_int n) @ drop 12 b))"

definition WriteBatch_Sequence :: "WriteBatch \<Rightarrow> uint64_t option" where
  "WriteBatch_Sequence b = DecodeFixed64 b"

definition SetSequence :: "WriteBatch \<Rightarrow> uint64_t \<Rightarrow> WriteBatch option" where
  "SetSequence b seq = (if length b < 8 then None else Some (EncodeFixed64 seq @ drop 8 b))"

text \<open>\<open>SetCount(this, Count(this) + n)\<close>.\<close>

definition add_count :: "WriteBatch \<Rightarrow> int \<Rightarrow> WriteBatch option" where
  "add_count b n =
     (case WriteBatch_Count b of None \<Rightarrow> None
      | Some c \<Rightarrow> if c + n > kMaxInt \<or> c + n < - kMaxInt - 1 then None else SetCount b (c + n))"

definition WriteBatch_Put :: "slice \<Rightarrow> slice \<Rightarrow> WriteBatch \<Rightarrow> WriteBatch option" where
  "WriteBatch_Put key value b =
     (case add_count b 1 of None \<Rightarrow> None
      | Some b \<Rightarrow>
          let rep = b @ [type_code kTypeValue];
              rep = PutLengthPrefixedSlice rep key
          in Some (PutLengthPrefixedSlice rep value))"

definition WriteBatch_Delete :: "slice \<Rightarrow> WriteBatch \<Rightarrow> WriteBatch option" where
  "WriteBatch_Delete key b =
     (case add_count b 1 of None \<Rightarrow> None
      | Some b \<Rightarrow> Some (PutLengthPrefixedSlice (b @ [type_code kTypeDeletion]) key))"

text \<open>The handler of \<open>Iterate\<close>, on a state of its own.\<close>

record 'h Handler =
  handler_Put :: "slice \<Rightarrow> slice \<Rightarrow> 'h \<Rightarrow> 'h"
  handler_Delete :: "slice \<Rightarrow> 'h \<Rightarrow> 'h"

text \<open>The loop: the status where it returns early, else the number of records found.\<close>

function Iterate_loop ::
  "'h Handler \<Rightarrow> int \<Rightarrow> slice \<Rightarrow> 'h \<Rightarrow> ((Status + int) \<times> 'h) option" where
  "Iterate_loop handler found [] h = Some (Inr found, h)"
| "Iterate_loop handler found (tag # input) h =
     (if found \<ge> kMaxInt then None
      else if tag = type_code kTypeValue then
        (case GetLengthPrefixedSlice input of
           None \<Rightarrow> Some (Inl (Corruption (str ''bad WriteBatch Put'') []), h)
         | Some (key, input1) \<Rightarrow>
             (case GetLengthPrefixedSlice input1 of
                None \<Rightarrow> Some (Inl (Corruption (str ''bad WriteBatch Put'') []), h)
              | Some (value, input2) \<Rightarrow>
                  Iterate_loop handler (found + 1) input2 (handler_Put handler key value h)))
      else if tag = type_code kTypeDeletion then
        (case GetLengthPrefixedSlice input of
           None \<Rightarrow> Some (Inl (Corruption (str ''bad WriteBatch Delete'') []), h)
         | Some (key, input1) \<Rightarrow> Iterate_loop handler (found + 1) input1 (handler_Delete handler key h))
      else Some (Inl (Corruption (str ''unknown WriteBatch tag'') []), h))"
  by pat_completeness auto
termination
  by (relation "measure (\<lambda>(handler, found, input, h). length input)")
    (auto dest!: GetLengthPrefixedSlice_shorter)

definition WriteBatch_Iterate :: "'h Handler \<Rightarrow> WriteBatch \<Rightarrow> 'h \<Rightarrow> (Status \<times> 'h) option" where
  "WriteBatch_Iterate handler rep h =
     (if length rep < kHeader then
        Some (Corruption (str ''malformed WriteBatch (too small)'') [], h)
      else
        case Iterate_loop handler 0 (drop kHeader rep) h of None \<Rightarrow> None
        | Some (Inl s, h) \<Rightarrow> Some (s, h)
        | Some (Inr found, h) \<Rightarrow>
            (case WriteBatch_Count rep of None \<Rightarrow> None
             | Some c \<Rightarrow>
                 Some (if found \<noteq> c then Corruption (str ''WriteBatch has wrong count'') [] else Status_OK, h)))"

definition SetContents :: "slice \<Rightarrow> WriteBatch option" where
  "SetContents contents = (if length contents \<ge> kHeader then Some contents else None)"

definition WriteBatch_Append :: "WriteBatch \<Rightarrow> WriteBatch \<Rightarrow> WriteBatch option" where
  "WriteBatch_Append dst src =
     (case WriteBatch_Count src of None \<Rightarrow> None
      | Some n \<Rightarrow>
          (case add_count dst n of None \<Rightarrow> None
           | Some dst \<Rightarrow> if length src < kHeader then None else Some (dst @ drop kHeader src)))"

text \<open>
  \<open>MemTableInserter\<close> and \<open>InsertInto\<close>: the state of the handler is the next sequence number
  and the memtable; \<open>add\<close> is \<open>MemTable::Add\<close>.
\<close>

definition MemTableInserter ::
  "(uint64_t \<Rightarrow> ValueType \<Rightarrow> slice \<Rightarrow> slice \<Rightarrow> 'm \<Rightarrow> 'm) \<Rightarrow> (uint64_t \<times> 'm) Handler" where
  "MemTableInserter add =
     \<lparr>handler_Put = \<lambda>key value (seq, mem). (seq + 1, add seq kTypeValue key value mem),
      handler_Delete = \<lambda>key (seq, mem). (seq + 1, add seq kTypeDeletion key [] mem)\<rparr>"

definition InsertInto ::
  "(uint64_t \<Rightarrow> ValueType \<Rightarrow> slice \<Rightarrow> slice \<Rightarrow> 'm \<Rightarrow> 'm) \<Rightarrow> WriteBatch \<Rightarrow> 'm \<Rightarrow> (Status \<times> 'm) option" where
  "InsertInto add b mem =
     (case WriteBatch_Sequence b of None \<Rightarrow> None
      | Some seq \<Rightarrow>
          (case WriteBatch_Iterate (MemTableInserter add) b (seq, mem) of None \<Rightarrow> None
           | Some (s, (seq, mem)) \<Rightarrow> Some (s, mem)))"

section \<open>A batch is a list of updates\<close>

datatype update = PutOp slice slice | DeleteOp slice

fun update_bytes :: "update \<Rightarrow> slice" where
  "update_bytes (PutOp k v) =
     PutLengthPrefixedSlice (PutLengthPrefixedSlice [type_code kTypeValue] k) v"
| "update_bytes (DeleteOp k) = PutLengthPrefixedSlice [type_code kTypeDeletion] k"

fun handle :: "'h Handler \<Rightarrow> update \<Rightarrow> 'h \<Rightarrow> 'h" where
  "handle handler (PutOp k v) h = handler_Put handler k v h"
| "handle handler (DeleteOp k) h = handler_Delete handler k h"

fun small_update :: "update \<Rightarrow> bool" where
  "small_update (PutOp k v) \<longleftrightarrow> length k < 2 ^ 32 \<and> length v < 2 ^ 32"
| "small_update (DeleteOp k) \<longleftrightarrow> length k < 2 ^ 32"

definition batch_bytes :: "uint64_t \<Rightarrow> update list \<Rightarrow> WriteBatch" where
  "batch_bytes seq us = EncodeFixed64 seq @ EncodeFixed32 (of_nat (length us)) @ concat (map update_bytes us)"

text \<open>The abstraction: the batch holds these updates, each with strings below 4 GiB.\<close>

definition batch_rep :: "WriteBatch \<Rightarrow> uint64_t \<Rightarrow> update list \<Rightarrow> bool" where
  "batch_rep b seq us \<longleftrightarrow> b = batch_bytes seq us \<and> list_all small_update us \<and> length us < 2 ^ 31"

lemma PutLengthPrefixedSlice_append: "PutLengthPrefixedSlice (a @ b) s = a @ PutLengthPrefixedSlice b s"
  by (simp add: PutLengthPrefixedSlice_def PutVarint32_def)

lemma batch_rep_length: "batch_rep b seq us \<Longrightarrow> 12 \<le> length b"
  by (simp add: batch_rep_def batch_bytes_def)

lemma batch_rep_Count: "batch_rep b seq us \<Longrightarrow> WriteBatch_Count b = Some (int (length us))"
proof -
  assume b: "batch_rep b seq us"
  then have "drop 8 b = le_bytes 4 (of_nat (length us) :: uint32_t) @ concat (map update_bytes us)"
    by (simp add: batch_rep_def batch_bytes_def EncodeFixed32_bytes)
  then have "DecodeFixed32 (drop 8 b) = Some (of_nat (length us))" by (simp only: DecodeFixed32_bytes)
  moreover have "sint (of_nat (length us) :: uint32_t) = int (length us)"
    using b by (simp add: batch_rep_def signed_of_nat signed_take_bit_int_eq_self)
  ultimately show ?thesis by (simp add: WriteBatch_Count_def)
qed

lemma batch_rep_add_count:
  assumes "batch_rep b seq us" and "length us + n < 2 ^ 31"
  shows "add_count b (int n) =
    Some (EncodeFixed64 seq @ EncodeFixed32 (of_nat (length us + n)) @ concat (map update_bytes us))"
proof -
  have "\<not> (int (length us) + int n > kMaxInt \<or> int (length us) + int n < - kMaxInt - 1)"
    using assms(2) by (simp add: kMaxInt_def)
  moreover have "SetCount b (int (length us) + int n) =
      Some (EncodeFixed64 seq @ EncodeFixed32 (of_nat (length us + n)) @ concat (map update_bytes us))"
    using assms(1) batch_rep_length [OF assms(1)] by (simp add: SetCount_def batch_rep_def batch_bytes_def)
  ultimately show ?thesis using batch_rep_Count [OF assms(1)] by (simp add: add_count_def)
qed

text \<open>The operations implement their abstract versions.\<close>

lemma batch_rep_Clear: "batch_rep WriteBatch_Clear 0 []"
proof -
  have "le_bytes 8 (0 :: uint64_t) @ le_bytes 4 (0 :: uint32_t) = replicate 12 0"
    by (simp add: le_bytes_8 le_bytes_4 numeral_eq_Suc)
  then show ?thesis
    by (simp add: batch_rep_def batch_bytes_def WriteBatch_Clear_def kHeader_def EncodeFixed32_bytes EncodeFixed64_bytes)
qed

lemma batch_rep_Put:
  assumes "batch_rep b seq us" and "small_update (PutOp k v)" and "length us + 1 < 2 ^ 31"
  shows "\<exists>b'. WriteBatch_Put k v b = Some b' \<and> batch_rep b' seq (us @ [PutOp k v])"
  using assms batch_rep_add_count [OF assms(1), of 1]
  by (simp add: WriteBatch_Put_def Let_def batch_rep_def batch_bytes_def PutLengthPrefixedSlice_append)

lemma batch_rep_Delete:
  assumes "batch_rep b seq us" and "small_update (DeleteOp k)" and "length us + 1 < 2 ^ 31"
  shows "\<exists>b'. WriteBatch_Delete k b = Some b' \<and> batch_rep b' seq (us @ [DeleteOp k])"
  using assms batch_rep_add_count [OF assms(1), of 1]
  by (simp add: WriteBatch_Delete_def batch_rep_def batch_bytes_def PutLengthPrefixedSlice_append)

lemma batch_rep_SetSequence:
  assumes "batch_rep b seq us"
  shows "\<exists>b'. SetSequence b n = Some b' \<and> batch_rep b' n us"
  using assms batch_rep_length [OF assms] by (simp add: SetSequence_def batch_rep_def batch_bytes_def)

lemma batch_rep_Sequence: "batch_rep b seq us \<Longrightarrow> WriteBatch_Sequence b = Some seq"
  by (simp add: batch_rep_def batch_bytes_def WriteBatch_Sequence_def EncodeFixed64_bytes DecodeFixed64_bytes)

lemma batch_rep_Append:
  assumes "batch_rep dst seq us" and "batch_rep src seq' vs" and "length us + length vs < 2 ^ 31"
  shows "\<exists>b'. WriteBatch_Append dst src = Some b' \<and> batch_rep b' seq (us @ vs)"
  using assms batch_rep_add_count [OF assms(1,3)] batch_rep_Count [OF assms(2)] batch_rep_length [OF assms(2)]
  by (simp add: WriteBatch_Append_def batch_rep_def batch_bytes_def kHeader_def)

lemma Iterate_loop_update:
  assumes "small_update u" and "found < kMaxInt"
  shows "Iterate_loop handler found (update_bytes u @ rest) h =
    Iterate_loop handler (found + 1) rest (handle handler u h)"
proof -
  have put: "PutLengthPrefixedSlice [c] s @ x = c # PutLengthPrefixedSlice [] s @ x" for c s x
    using PutLengthPrefixedSlice_append [of "[c]" "[]" s] by simp
  have put2: "PutLengthPrefixedSlice (PutLengthPrefixedSlice [c] k) v @ x =
      c # PutLengthPrefixedSlice [] k @ PutLengthPrefixedSlice [] v @ x" for c k v x
    using PutLengthPrefixedSlice_append [of "PutLengthPrefixedSlice [c] k" "[]" v] put by simp
  show ?thesis
    using assms by (cases u) (simp_all add: put put2)
qed

lemma Iterate_loop_updates:
  "list_all small_update us \<Longrightarrow> found + int (length us) \<le> kMaxInt \<Longrightarrow>
   Iterate_loop handler found (concat (map update_bytes us)) h =
     Some (Inr (found + int (length us)), fold (handle handler) us h)"
proof (induction us arbitrary: found h)
  case (Cons u us)
  then show ?case by (simp add: Iterate_loop_update algebra_simps)
qed simp

lemma batch_rep_Iterate:
  assumes "batch_rep b seq us"
  shows "WriteBatch_Iterate handler b h = Some (Status_OK, fold (handle handler) us h)"
proof -
  have "drop kHeader b = concat (map update_bytes us)"
    using assms by (simp add: batch_rep_def batch_bytes_def kHeader_def)
  moreover have "Iterate_loop handler 0 (concat (map update_bytes us)) h =
      Some (Inr (int (length us)), fold (handle handler) us h)"
    using assms Iterate_loop_updates [of us 0 handler h] by (simp add: batch_rep_def kMaxInt_def)
  ultimately show ?thesis using batch_rep_length [OF assms] batch_rep_Count [OF assms]
    by (simp add: WriteBatch_Iterate_def kHeader_def)
qed

text \<open>On arbitrary bytes.\<close>

lemma Iterate_loop_defined:
  "found + int (length input) \<le> kMaxInt \<Longrightarrow>
   \<exists>r us. Iterate_loop handler found input h = Some (r, fold (handle handler) us h) \<and>
     (\<forall>n. r = Inr n \<longrightarrow> n = found + int (length us)) \<and> (\<forall>s. r = Inl s \<longrightarrow> \<not> status_ok s)"
proof (induction handler found input h rule: Iterate_loop.induct)
  case (1 handler found h)
  show ?case by (intro exI [of _ "Inr found"] exI [of _ "[]"]) simp
next
  case (2 handler found tag input h)
  have stop: ?case if "Iterate_loop handler found (tag # input) h = Some (Inl s, h)"
    and "\<not> status_ok s" for s
    using that by (intro exI [of _ "Inl s"] exI [of _ "[]"]) simp
  have f: "\<not> kMaxInt \<le> found" using "2.prems" by simp
  have step: ?case
    if eq: "Iterate_loop handler found (tag # input) h = Iterate_loop handler (found + 1) rest (handle handler u h)"
      and ex: "\<exists>r us. Iterate_loop handler (found + 1) rest (handle handler u h) =
          Some (r, fold (handle handler) us (handle handler u h)) \<and>
          (\<forall>n. r = Inr n \<longrightarrow> n = found + 1 + int (length us)) \<and> (\<forall>s. r = Inl s \<longrightarrow> \<not> status_ok s)" for u rest
  proof -
    obtain r us where "Iterate_loop handler (found + 1) rest (handle handler u h) =
        Some (r, fold (handle handler) us (handle handler u h))" "\<forall>n. r = Inr n \<longrightarrow> n = found + 1 + int (length us)" "\<forall>s. r = Inl s \<longrightarrow> \<not> status_ok s"
      using ex by blast
    then show ?thesis using eq
      by (intro exI [of _ r] exI [of _ "u # us"]) (simp add: algebra_simps)
  qed
  consider (put) "tag = type_code kTypeValue" | (del) "tag = type_code kTypeDeletion" "tag \<noteq> type_code kTypeValue"
    | (other) "tag \<noteq> type_code kTypeValue" "tag \<noteq> type_code kTypeDeletion" by blast
  then show ?case
  proof cases
    case put
    show ?thesis
    proof (cases "GetLengthPrefixedSlice input")
      case None
      then show ?thesis using put f by (intro stop [of "Corruption (str ''bad WriteBatch Put'') []"]) simp_all
    next
      case (Some p)
      then obtain k rest where k: "GetLengthPrefixedSlice input = Some (k, rest)" by (cases p) simp
      show ?thesis
      proof (cases "GetLengthPrefixedSlice rest")
        case None
        then show ?thesis using put f k by (intro stop [of "Corruption (str ''bad WriteBatch Put'') []"]) simp_all
      next
        case (Some q)
        then obtain v rest2 where v: "GetLengthPrefixedSlice rest = Some (v, rest2)" by (cases q) simp
        have "length rest2 + 2 \<le> length input"
          using GetLengthPrefixedSlice_shorter [OF k] GetLengthPrefixedSlice_shorter [OF v] by simp
        then show ?thesis using put f k v "2.prems"
            "2.IH"(1) [OF f put k refl v refl] by (intro step [of rest2 "PutOp k v"]) simp_all
      qed
    qed
  next
    case del
    show ?thesis
    proof (cases "GetLengthPrefixedSlice input")
      case None
      then show ?thesis using del f by (intro stop [of "Corruption (str ''bad WriteBatch Delete'') []"]) simp_all
    next
      case (Some p)
      then obtain k rest where k: "GetLengthPrefixedSlice input = Some (k, rest)" by (cases p) simp
      then have "length rest + 1 \<le> length input"
        using GetLengthPrefixedSlice_shorter [OF k] by simp
      then show ?thesis using del f k "2.prems"
          "2.IH"(2) [OF f del(2,1) k refl] by (intro step [of rest "DeleteOp k"]) simp_all
    qed
  next
    case other
    then show ?thesis using f by (intro stop [of "Corruption (str ''unknown WriteBatch tag'') []"]) simp_all
  qed
qed

section \<open>Properties\<close>

fun run_update :: "update \<Rightarrow> WriteBatch \<Rightarrow> WriteBatch option" where
  "run_update (PutOp k v) b = WriteBatch_Put k v b"
| "run_update (DeleteOp k) b = WriteBatch_Delete k b"

primrec run_updates :: "update list \<Rightarrow> WriteBatch \<Rightarrow> WriteBatch option" where
  "run_updates [] b = Some b"
| "run_updates (u # us) b = (case run_update u b of None \<Rightarrow> None | Some b \<Rightarrow> run_updates us b)"

lemma run_updates_rep:
  "batch_rep b seq us \<Longrightarrow> list_all small_update vs \<Longrightarrow> length us + length vs < 2 ^ 31 \<Longrightarrow>
   \<exists>b'. run_updates vs b = Some b' \<and> batch_rep b' seq (us @ vs)"
proof (induction vs arbitrary: b us)
  case (Cons v vs)
  have "\<exists>b'. run_update v b = Some b' \<and> batch_rep b' seq (us @ [v])"
    using Cons.prems batch_rep_Put [of b seq us] batch_rep_Delete [of b seq us] by (cases v) simp_all
  then obtain b' where "run_update v b = Some b'" "batch_rep b' seq (us @ [v])" by blast
  moreover have "\<exists>b''. run_updates vs b' = Some b'' \<and> batch_rep b'' seq ((us @ [v]) @ vs)"
    using Cons.prems calculation(2) by (intro Cons.IH) simp_all
  ultimately show ?case by simp
qed simp

lemma run_updates_Clear:
  "list_all small_update us \<Longrightarrow> length us < 2 ^ 31 \<Longrightarrow>
   \<exists>b. run_updates us WriteBatch_Clear = Some b \<and> batch_rep b 0 us"
  using run_updates_rep [OF batch_rep_Clear, of us] by simp

text \<open>
  C15: a write batch implements a list of updates: from \<open>Clear\<close>, any puts and deletes, fewer than
  2^31 and with keys and values below 4 GiB, give a batch whose count is their number, whose sequence number is the one set last and whose
  iterator hands exactly these updates to the handler, in order, and returns OK.
\<close>

theorem write_batch_refines:
  assumes "list_all small_update us" and "length us < 2 ^ 31"
  shows "\<exists>b b'. run_updates us WriteBatch_Clear = Some b \<and> SetSequence b seq = Some b' \<and>
    WriteBatch_Count b' = Some (int (length us)) \<and> WriteBatch_Sequence b' = Some seq \<and>
    (\<forall>handler h. WriteBatch_Iterate handler b' h = Some (Status_OK, fold (handle handler) us h))"
proof -
  obtain b where b: "run_updates us WriteBatch_Clear = Some b" "batch_rep b 0 us"
    using run_updates_Clear [OF assms] by blast
  obtain b' where "SetSequence b seq = Some b'" "batch_rep b' seq us"
    using batch_rep_SetSequence [OF b(2)] by blast
  then show ?thesis using b(1)
    by (intro exI [of _ b] exI [of _ b'])
      (simp add: batch_rep_Count batch_rep_Sequence batch_rep_Iterate)
qed

theorem write_batch_refines_witness:
  "\<exists>b b'. run_updates [PutOp [1] [2], DeleteOp [3]] WriteBatch_Clear = Some b \<and>
    SetSequence b 9 = Some b' \<and> WriteBatch_Count b' = Some 2"
  using write_batch_refines [of "[PutOp [1] [2], DeleteOp [3]]" 9] by auto

text \<open>
  C35: \<open>Append\<close> concatenates: iterating over the batch that results hands over the updates of
  the first batch and then those of the second, for two batches with fewer than 2^31 updates together and
  keys and values below 4 GiB.
\<close>

theorem write_batch_append:
  assumes "run_updates us WriteBatch_Clear = Some dst" and "run_updates vs WriteBatch_Clear = Some src"
    and "list_all small_update (us @ vs)" and "length us + length vs < 2 ^ 31"
  shows "\<exists>b. WriteBatch_Append dst src = Some b \<and> WriteBatch_Count b = Some (int (length us + length vs)) \<and>
    (\<forall>handler h. WriteBatch_Iterate handler b h =
       Some (Status_OK, fold (handle handler) vs (fold (handle handler) us h)))"
proof -
  have "batch_rep dst 0 us" "batch_rep src 0 vs"
    using run_updates_Clear [of us] run_updates_Clear [of vs] assms by simp_all
  then obtain b where "WriteBatch_Append dst src = Some b" "batch_rep b 0 (us @ vs)"
    using batch_rep_Append assms(4) by blast
  then show ?thesis using batch_rep_Count [of b 0 "us @ vs"] batch_rep_Iterate [of b 0 "us @ vs"] by auto
qed

theorem write_batch_append_witness:
  "\<exists>dst src b. run_updates [PutOp [1] [2]] WriteBatch_Clear = Some dst \<and>
    run_updates [DeleteOp [3]] WriteBatch_Clear = Some src \<and> WriteBatch_Append dst src = Some b \<and>
    WriteBatch_Count b = Some 2"
proof -
  obtain dst src where "run_updates [PutOp [1] [2]] WriteBatch_Clear = Some dst"
      "run_updates [DeleteOp [3]] WriteBatch_Clear = Some src"
    using run_updates_Clear [of "[PutOp [1] [2]]"] run_updates_Clear [of "[DeleteOp [3]]"]
    by (auto simp del: run_updates.simps)
  then show ?thesis using write_batch_append [of "[PutOp [1] [2]]" dst "[DeleteOp [3]]" src] by auto
qed

text \<open>
  C34: on every string below 2 GiB, however corrupted, \<open>Iterate\<close> is defined: it hands over
  some updates and returns a status, and it returns OK only if their number is the count in the
  header.
\<close>

theorem write_batch_iterate_safe:
  assumes "length rep < 2 ^ 31"
  shows "\<exists>s us. WriteBatch_Iterate handler rep h = Some (s, fold (handle handler) us h) \<and>
    (status_ok s \<longrightarrow> WriteBatch_Count rep = Some (int (length us)))"
proof (cases "length rep < kHeader")
  case True
  then show ?thesis
    by (intro exI [of _ "Corruption (str ''malformed WriteBatch (too small)'') []"] exI [of _ "[]"])
      (simp add: WriteBatch_Iterate_def)
next
  case False
  have "int (length (drop kHeader rep)) \<le> kMaxInt" using assms by (simp add: kMaxInt_def)
  then obtain r us where r: "Iterate_loop handler 0 (drop kHeader rep) h = Some (r, fold (handle handler) us h)"
      "\<forall>n. r = Inr n \<longrightarrow> n = int (length us)" "\<forall>s. r = Inl s \<longrightarrow> \<not> status_ok s"
    using Iterate_loop_defined [of 0 "drop kHeader rep" handler h] by auto
  have "4 \<le> length (drop 8 rep)" using False by (simp add: kHeader_def)
  then obtain c where c: "WriteBatch_Count rep = Some c"
    by (auto simp: WriteBatch_Count_def DecodeFixed32_Some)
  show ?thesis
  proof (cases r)
    case (Inr n)
    then show ?thesis using r c False
      by (intro exI [of _ "if n \<noteq> c then Corruption (str ''WriteBatch has wrong count'') [] else Status_OK"] exI [of _ us])
        (simp add: WriteBatch_Iterate_def)
  next
    case (Inl s)
    then show ?thesis using r False
      by (intro exI [of _ s] exI [of _ us]) (simp add: WriteBatch_Iterate_def)
  qed
qed

theorem write_batch_iterate_safe_witness:
  "\<exists>s us. WriteBatch_Iterate \<lparr>handler_Put = \<lambda>k v h. k # h, handler_Delete = \<lambda>k h. k # h\<rparr> (replicate 12 7) [] =
     Some (s, fold (handle \<lparr>handler_Put = \<lambda>k v h. k # h, handler_Delete = \<lambda>k h. k # h\<rparr>) us [])"
  using write_batch_iterate_safe [of "replicate 12 7"
      "\<lparr>handler_Put = \<lambda>k v h. k # h, handler_Delete = \<lambda>k h. k # h\<rparr>" "[]"] by auto

end
