(* ===== verification/LdbMemTable.thy ===== *)
theory LdbMemTable
  imports LdbSkipList LdbWriteBatch LdbKeyProps
begin

text \<open>
  LevelDB's \<open>db/memtable.h\<close> and \<open>db/memtable.cc\<close>: a skip list of entries, each the
  length-prefixed internal key with the length-prefixed value behind it. A pointer into the arena is
  the list of the bytes of its allocation from there on; reading past them, a varint that does not
  end and a failing assert are undefined (\<open>None\<close>).

  \<open>Get\<close> is shown to return what the latest visible update of the key says, after any sequence of
  \<open>Add\<close>s and after a write batch was inserted. For that the skip list's interface \<open>key_order\<close>
  is interpreted on the comparator of the entries.
\<close>

section \<open>Entries\<close>

text \<open>
  The file's own \<open>GetLengthPrefixedSlice\<close>: the slice and what follows it. The limit of five bytes
  is not that of the entry, so that the varint may end anywhere before it.
\<close>

definition entry_slice :: "slice \<Rightarrow> (slice \<times> slice) option" where
  "entry_slice data =
     (case GetVarint32Ptr (take 5 data) of None \<Rightarrow> None
      | Some (len, q) \<Rightarrow>
          let p = q @ drop 5 data
          in if length p < unat len then None else Some (take (unat len) p, drop (unat len) p))"

definition KeyComparator :: "Comparator \<Rightarrow> slice \<Rightarrow> slice \<Rightarrow> int option" where
  "KeyComparator user aptr bptr =
     (case (entry_slice aptr, entry_slice bptr) of
        (Some (a, _), Some (b, _)) \<Rightarrow> Compare (InternalKeyComparator user) a b
      | _ \<Rightarrow> None)"

definition EncodeKey :: "slice \<Rightarrow> slice" where
  "EncodeKey target = PutVarint32 [] (of_nat (length target)) @ target"

section \<open>The table\<close>

record MemTable =
  user_comparator :: Comparator
  refs :: int
  table :: "slice SkipList"

definition new_MemTable :: "Comparator \<Rightarrow> MemTable" where
  "new_MemTable user = \<lparr>user_comparator = user, refs = 0, table = new_SkipList []\<rparr>"

definition MemTable_Ref :: "MemTable \<Rightarrow> MemTable" where
  "MemTable_Ref mt = mt\<lparr>refs := refs mt + 1\<rparr>"

text \<open>\<open>Some None\<close> where the table was deleted.\<close>

definition MemTable_Unref :: "MemTable \<Rightarrow> MemTable option option" where
  "MemTable_Unref mt =
     (let mt = mt\<lparr>refs := refs mt - 1\<rparr>
      in if refs mt \<ge> 0 then if refs mt \<le> 0 then Some None else Some (Some mt) else None)"

definition MemTable_Add :: "uint64_t \<Rightarrow> ValueType \<Rightarrow> slice \<Rightarrow> slice \<Rightarrow> MemTable \<Rightarrow> MemTable option" where
  "MemTable_Add s t key value mt =
     (let key_size = length key;
          val_size = length value;
          internal_key_size = key_size + 8;
          encoded_len = VarintLength (of_nat internal_key_size) + int internal_key_size +
            VarintLength (of_nat val_size) + int val_size;
          buf = EncodeVarint32 (of_nat internal_key_size) @ key @
            EncodeFixed64 (push_bit 8 s OR ucast (type_code t)) @
            EncodeVarint32 (of_nat val_size) @ value
      in if int (length buf) = encoded_len then
           do { l \<leftarrow> SkipList_Insert (KeyComparator (user_comparator mt)) buf (table mt); Some (mt\<lparr>table := l\<rparr>) }
         else None)"

text \<open>\<open>Get\<close>: whether the key was found, the new value of \<open>*value\<close> and of \<open>*s\<close>.\<close>

definition Get_entry ::
  "MemTable \<Rightarrow> slice \<Rightarrow> LookupKey \<Rightarrow> slice \<Rightarrow> Status \<Rightarrow> (bool \<times> slice \<times> Status) option" where
  "Get_entry mt entry key value s =
     (case GetVarint32Ptr (take 5 entry) of None \<Rightarrow> None
      | Some (key_length, q) \<Rightarrow>
          let key_ptr = q @ drop 5 entry
          in if length key_ptr < unat (key_length - 8) then None
             else do {
               r \<leftarrow> Compare (user_comparator mt) (take (unat (key_length - 8)) key_ptr) (lookup_user_key key);
               if r = 0 then do {
                 num \<leftarrow> DecodeFixed64 (drop (unat (key_length - 8)) key_ptr);
                 if num AND 0xff = ucast (type_code kTypeValue) then do {
                   (v, _) \<leftarrow> entry_slice (drop (unat key_length) key_ptr);
                   Some (True, v, s)
                 }
                 else if num AND 0xff = ucast (type_code kTypeDeletion) then Some (True, value, NotFound [] [])
                 else Some (False, value, s)
               }
               else Some (False, value, s)
             })"

definition MemTable_Get :: "MemTable \<Rightarrow> LookupKey \<Rightarrow> slice \<Rightarrow> Status \<Rightarrow> (bool \<times> slice \<times> Status) option" where
  "MemTable_Get mt key value s =
     do {
       it \<leftarrow> Iter_Seek (KeyComparator (user_comparator mt)) (table mt) (memtable_key key);
       if Iter_Valid it then do { entry \<leftarrow> Iter_key (table mt) it; Get_entry mt entry key value s }
       else Some (False, value, s)
     }"

section \<open>Its iterator\<close>

definition MemTableIterator_Valid :: "SkipList_Iterator \<Rightarrow> bool" where
  "MemTableIterator_Valid it = Iter_Valid it"

definition MemTableIterator_Seek :: "MemTable \<Rightarrow> slice \<Rightarrow> SkipList_Iterator option" where
  "MemTableIterator_Seek mt k = Iter_Seek (KeyComparator (user_comparator mt)) (table mt) (EncodeKey k)"

definition MemTableIterator_SeekToFirst :: "MemTable \<Rightarrow> SkipList_Iterator option" where
  "MemTableIterator_SeekToFirst mt = Iter_SeekToFirst (table mt)"

definition MemTableIterator_SeekToLast :: "MemTable \<Rightarrow> SkipList_Iterator option" where
  "MemTableIterator_SeekToLast mt = Iter_SeekToLast (table mt)"

definition MemTableIterator_Next :: "MemTable \<Rightarrow> SkipList_Iterator \<Rightarrow> SkipList_Iterator option" where
  "MemTableIterator_Next mt it = Iter_Next (table mt) it"

definition MemTableIterator_Prev :: "MemTable \<Rightarrow> SkipList_Iterator \<Rightarrow> SkipList_Iterator option" where
  "MemTableIterator_Prev mt it = Iter_Prev (KeyComparator (user_comparator mt)) (table mt) it"

definition MemTableIterator_key :: "MemTable \<Rightarrow> SkipList_Iterator \<Rightarrow> slice option" where
  "MemTableIterator_key mt it = do { e \<leftarrow> Iter_key (table mt) it; map_option fst (entry_slice e) }"

definition MemTableIterator_value :: "MemTable \<Rightarrow> SkipList_Iterator \<Rightarrow> slice option" where
  "MemTableIterator_value mt it =
     do { e \<leftarrow> Iter_key (table mt) it; (_, rest) \<leftarrow> entry_slice e; map_option fst (entry_slice rest) }"

definition MemTableIterator_status :: "SkipList_Iterator \<Rightarrow> Status" where
  "MemTableIterator_status it = Status_OK"

section \<open>The comparator of entries orders them\<close>

definition entry_valid :: "(slice \<Rightarrow> bool) \<Rightarrow> slice \<Rightarrow> bool" where
  "entry_valid valid e \<longleftrightarrow> (case entry_slice e of None \<Rightarrow> False | Some (k, _) \<Rightarrow> internal_valid valid k)"

lemma GetVarint32Ptr_take5:
  "\<exists>q. GetVarint32Ptr (take 5 (EncodeVarint32 n @ xs)) = Some (n, q) \<and> q @ drop 5 (EncodeVarint32 n @ xs) = xs"
proof -
  let ?n = "EncodeVarint32 n"
  have t: "take 5 (?n @ xs) = ?n @ take (5 - length ?n) xs"
    using length_EncodeVarint32 [of n] by simp
  have "take (5 - length ?n) xs @ drop 5 (?n @ xs) = xs"
    using length_EncodeVarint32 [of n] by (metis append_take_drop_id drop_append le_refl drop_all append_Nil)
  then show ?thesis unfolding t GetVarint32Ptr_spec varint_prefix_Encode32 by blast
qed

lemma entry_slice_written:
  assumes "length s < 4294967296"
  shows "entry_slice (EncodeVarint32 (of_nat (length s)) @ s @ rest) = Some (s, rest)"
proof -
  have u: "unat (of_nat (length s) :: uint32_t) = length s"
    using assms by (simp add: unat_of_nat take_bit_nat_eq_self)
  obtain q where q: "GetVarint32Ptr (take 5 (EncodeVarint32 (of_nat (length s)) @ s @ rest)) = Some (of_nat (length s), q)"
    "q @ drop 5 (EncodeVarint32 (of_nat (length s)) @ s @ rest) = s @ rest"
    using GetVarint32Ptr_take5 by blast
  show ?thesis
    unfolding entry_slice_def q(1) option.case prod.case Let_def q(2) by (simp add: u)
qed

context comparator_contract
begin

lemma entry_order: "key_order (KeyComparator c) (entry_valid valid)"
proof (rule key_order.intro)
  fix a b assume v: "entry_valid valid a" "entry_valid valid b"
  obtain ka ra kb rb where e: "entry_slice a = Some (ka, ra)" "entry_slice b = Some (kb, rb)"
    and k: "internal_valid valid ka" "internal_valid valid kb"
    using v by (auto simp: entry_valid_def split: option.splits)
  show "\<exists>r s. KeyComparator c a b = Some r \<and> KeyComparator c b a = Some s \<and> sgn r = - sgn s"
    using internal_sym [OF k] by (simp add: KeyComparator_def e InternalKeyComparator_def)
next
  fix a b d r s assume v: "entry_valid valid a" "entry_valid valid b" "entry_valid valid d"
    and r: "KeyComparator c a b = Some r" "r \<le> 0" and s: "KeyComparator c b d = Some s" "s \<le> 0"
  obtain ka ra kb rb kd rd where e: "entry_slice a = Some (ka, ra)" "entry_slice b = Some (kb, rb)" "entry_slice d = Some (kd, rd)"
    and k: "internal_valid valid ka" "internal_valid valid kb" "internal_valid valid kd"
    using v by (auto simp: entry_valid_def split: option.splits)
  have "internal_Compare c ka kb = Some r" "internal_Compare c kb kd = Some s"
    using r(1) s(1) by (simp_all add: KeyComparator_def e InternalKeyComparator_def)
  then show "\<exists>t. KeyComparator c a d = Some t \<and> t \<le> 0 \<and> (t = 0 \<longrightarrow> r = 0 \<and> s = 0)"
    using internal_trans [OF k _ r(2) _ s(2)] by (simp add: KeyComparator_def e InternalKeyComparator_def)
qed

end

interpretation mem: key_order "KeyComparator BytewiseComparator" "entry_valid (\<lambda>_. True)"
  by (rule bytewise.entry_order)

section \<open>Entries of updates\<close>

type_synonym mem_op = "uint64_t \<times> ValueType \<times> slice \<times> slice"

definition op_num :: "uint64_t \<Rightarrow> ValueType \<Rightarrow> uint64_t" where
  "op_num s t = push_bit 8 s OR ucast (type_code t)"

fun op_entry :: "mem_op \<Rightarrow> slice" where
  "op_entry (s, t, k, v) =
     EncodeVarint32 (of_nat (length k + 8)) @ k @ EncodeFixed64 (op_num s t) @
     EncodeVarint32 (of_nat (length v)) @ v"

fun op_ok :: "mem_op \<Rightarrow> bool" where
  "op_ok (s, t, k, v) \<longleftrightarrow> s \<le> kMaxSequenceNumber \<and> length k + 8 < 4294967296 \<and> length v < 4294967296"

lemma entry_slice_op:
  "op_ok (s, t, k, v) \<Longrightarrow>
   entry_slice (op_entry (s, t, k, v)) = Some (k @ EncodeFixed64 (op_num s t), EncodeVarint32 (of_nat (length v)) @ v)"
  using entry_slice_written [of "k @ EncodeFixed64 (op_num s t)" "EncodeVarint32 (of_nat (length v)) @ v"] by simp

lemma internal_valid_key: "internal_valid (\<lambda>_. True) (k @ EncodeFixed64 n)"
  by (simp add: internal_valid_def)

lemma entry_valid_op: "op_ok p \<Longrightarrow> entry_valid (\<lambda>_. True) (op_entry p)"
  by (cases p) (simp add: entry_valid_def entry_slice_op internal_valid_key del: op_entry.simps op_ok.simps)

lemma Compare_keys:
  "internal_Compare BytewiseComparator (k @ EncodeFixed64 n) (k' @ EncodeFixed64 n') =
     Some (if k < k' then -1 else if k' < k then 1 else if n > n' then -1 else if n < n' then 1 else 0)"
  by (auto simp: internal_Compare_parts Slice_compare_order)

lemma KeyComparator_ops:
  "op_ok (s, t, k, v) \<Longrightarrow> op_ok (s', t', k', v') \<Longrightarrow>
   KeyComparator BytewiseComparator (op_entry (s, t, k, v)) (op_entry (s', t', k', v')) =
     Some (if k < k' then -1 else if k' < k then 1
       else if op_num s t > op_num s' t' then -1 else if op_num s t < op_num s' t' then 1 else 0)"
  by (simp add: KeyComparator_def entry_slice_op InternalKeyComparator_def Compare_keys del: op_entry.simps op_ok.simps)

lemma VarintLength_Encode: "n < 4294967296 \<Longrightarrow> VarintLength (of_nat n) = int (length (EncodeVarint32 (of_nat n)))"
proof -
  assume n: "n < 4294967296"
  have "(ucast (of_nat n :: uint32_t) :: uint64_t) = of_nat n"
    using n by (subst word_unat_eq_iff) (simp add: unat_of_nat take_bit_nat_eq_self unsigned_ucast_eq)
  then show ?thesis by (simp add: VarintLength_bytes EncodeVarint32_bytes)
qed

lemma MemTable_Add_entry:
  "op_ok (s, t, k, v) \<Longrightarrow>
   MemTable_Add s t k v mt =
     do { l \<leftarrow> SkipList_Insert (KeyComparator (user_comparator mt)) (op_entry (s, t, k, v)) (table mt);
          Some (mt\<lparr>table := l\<rparr>) }"
  using VarintLength_Encode [of "length k + 8"] VarintLength_Encode [of "length v"]
  by (simp add: MemTable_Add_def Let_def op_num_def)

lemma op_ok_seq: "op_ok (s, t, k, v) \<Longrightarrow> s \<le> kMaxSequenceNumber"
  by simp

declare op_entry.simps [simp del] op_ok.simps [simp del]

text \<open>Any sequence of additions.\<close>

fun add_all :: "mem_op list \<Rightarrow> MemTable \<Rightarrow> MemTable option" where
  "add_all [] mt = Some mt"
| "add_all ((s, t, k, v) # ps) mt = do { mt \<leftarrow> MemTable_Add s t k v mt; add_all ps mt }"

fun op_id :: "mem_op \<Rightarrow> slice \<times> uint64_t \<times> ValueType" where
  "op_id (s, t, k, v) = (k, s, t)"

lemma op_num_eq:
  assumes "s \<le> kMaxSequenceNumber" and "s' \<le> kMaxSequenceNumber"
  shows "op_num s t = op_num s' t' \<longleftrightarrow> s = s' \<and> t = t'"
proof
  assume "op_num s t = op_num s' t'"
  then have "unat s * 256 + unat (type_code t) = unat s' * 256 + unat (type_code t')"
    using pack_unat [OF assms(1), of t] pack_unat [OF assms(2), of t'] by (simp add: op_num_def)
  then show "s = s' \<and> t = t'" by (cases t; cases t') (auto simp: word_unat_eq_iff, presburger+)
qed simp

lemma KeyComparator_distinct:
  "op_ok p \<Longrightarrow> op_ok q \<Longrightarrow> KeyComparator BytewiseComparator (op_entry p) (op_entry q) = Some 0 \<Longrightarrow> op_id p = op_id q"
proof -
  assume ok: "op_ok p" "op_ok q" and c: "KeyComparator BytewiseComparator (op_entry p) (op_entry q) = Some 0"
  obtain s t k v s' t' k' v' where p: "p = (s, t, k, v)" and q: "q = (s', t', k', v')" by (cases p; cases q)
  have "\<not> k < k'" "\<not> k' < k" "\<not> op_num s t > op_num s' t'" "\<not> op_num s t < op_num s' t'"
    using c KeyComparator_ops [of s t k v s' t' k' v'] ok unfolding p q by (auto split: if_splits)
  then show ?thesis using op_num_eq [of s s' t t'] op_ok_seq [of s t k v] op_ok_seq [of s' t' k' v'] ok
    by (simp add: p q)
qed

definition holds_ops :: "MemTable \<Rightarrow> mem_op list \<Rightarrow> bool" where
  "holds_ops mt ps \<longleftrightarrow> user_comparator mt = BytewiseComparator \<and> (\<forall>p \<in> set ps. op_ok p) \<and>
     (\<exists>es. mem.holds_keys (table mt) es \<and> set es = op_entry ` set ps)"

lemma holds_ops_new: "holds_ops (new_MemTable BytewiseComparator) []"
proof -
  have "new_SkipList [] = (new_SkipList ([] :: slice))\<lparr>rnd := Random 0xdeadbeef\<rparr>" by (simp add: new_SkipList_def)
  then have "mem.holds_keys (new_SkipList []) []" using mem.holds_new by metis
  then show ?thesis by (simp add: holds_ops_def new_MemTable_def)
qed

lemma holds_ops_Add:
  assumes "holds_ops mt ps" and "op_ok p" and "op_id p \<notin> op_id ` set ps" and "p = (s, t, k, v)"
  shows "\<exists>mt'. MemTable_Add s t k v mt = Some mt' \<and> holds_ops mt' (ps @ [p])"
proof -
  obtain es where u: "user_comparator mt = BytewiseComparator" and ok: "\<forall>p \<in> set ps. op_ok p"
    and es: "mem.holds_keys (table mt) es" "set es = op_entry ` set ps"
    using assms(1) by (auto simp: holds_ops_def)
  have "KeyComparator BytewiseComparator (op_entry p) e \<noteq> Some 0" if e: "e \<in> set es" for e
  proof -
    obtain q where q: "e = op_entry q" "q \<in> set ps" using e es(2) by blast
    then have "op_ok q" "op_id p \<noteq> op_id q" using ok assms(3) by auto
    then show ?thesis using KeyComparator_distinct [OF assms(2)] q(1) by blast
  qed
  then obtain l where l: "SkipList_Insert (KeyComparator BytewiseComparator) (op_entry p) (table mt) = Some l"
    "mem.holds_keys l (filter (\<lambda>k. before (KeyComparator BytewiseComparator) k (op_entry p)) es @ op_entry p #
      filter (\<lambda>k. \<not> before (KeyComparator BytewiseComparator) k (op_entry p)) es)"
    using mem.holds_Insert [OF es(1) entry_valid_op [OF assms(2)]] by blast
  have "set (filter (\<lambda>k. before (KeyComparator BytewiseComparator) k (op_entry p)) es @ op_entry p #
      filter (\<lambda>k. \<not> before (KeyComparator BytewiseComparator) k (op_entry p)) es) = op_entry ` set (ps @ [p])"
    using es(2) by auto
  then have "\<exists>es. mem.holds_keys l es \<and> set es = op_entry ` set (ps @ [p])" using l(2) by blast
  then have "holds_ops (mt\<lparr>table := l\<rparr>) (ps @ [p])"
    using u ok assms(2) by (simp add: holds_ops_def)
  moreover have "MemTable_Add s t k v mt = Some (mt\<lparr>table := l\<rparr>)"
    using MemTable_Add_entry [of s t k v mt] assms(2,4) l(1) u by simp
  ultimately show ?thesis by blast
qed

lemma holds_ops_add_all:
  "holds_ops mt ps \<Longrightarrow> \<forall>q \<in> set qs. op_ok q \<Longrightarrow> distinct (map op_id qs) \<Longrightarrow> op_id ` set qs \<inter> op_id ` set ps = {} \<Longrightarrow>
   \<exists>mt'. add_all qs mt = Some mt' \<and> holds_ops mt' (ps @ qs)"
proof (induction qs arbitrary: mt ps)
  case (Cons q qs)
  obtain s t k v where q: "q = (s, t, k, v)" by (cases q)
  obtain mt' where mt': "MemTable_Add s t k v mt = Some mt'" "holds_ops mt' (ps @ [q])"
    using holds_ops_Add [OF Cons.prems(1) _ _ q] Cons.prems by auto
  obtain mt'' where "add_all qs mt' = Some mt''" "holds_ops mt'' ((ps @ [q]) @ qs)"
    using Cons.IH [OF mt'(2)] Cons.prems by auto
  then show ?case using mt'(1) q by simp
qed simp

section \<open>Lookups\<close>

definition lookup_target :: "slice \<Rightarrow> uint64_t \<Rightarrow> slice" where
  "lookup_target key s = EncodeVarint32 (of_nat (length key + 8)) @ key @ EncodeFixed64 (op_num s kTypeValue)"

lemma make_LookupKey_target:
  assumes "s \<le> kMaxSequenceNumber"
  shows "\<exists>lk. make_LookupKey key s = Some lk \<and> memtable_key lk = lookup_target key s \<and> lookup_user_key lk = key"
  using assms by (simp add: make_LookupKey_def PackSequenceAndType_def kValueTypeForSeek_def Let_def memtable_key_def
    lookup_user_key_def lookup_target_def op_num_def)

lemma entry_slice_target:
  "length key + 8 < 4294967296 \<Longrightarrow>
   entry_slice (lookup_target key s) = Some (key @ EncodeFixed64 (op_num s kTypeValue), [])"
  using entry_slice_written [of "key @ EncodeFixed64 (op_num s kTypeValue)" "[]"] by (simp add: lookup_target_def)

lemma op_num_le:
  assumes "s \<le> kMaxSequenceNumber" and "s' \<le> kMaxSequenceNumber"
  shows "op_num s t \<le> op_num s' t' \<longleftrightarrow> s < s' \<or> s = s' \<and> (t = kTypeValue \<longrightarrow> t' = kTypeValue)"
  using pack_unat [OF assms(1), of t] pack_unat [OF assms(2), of t']
  by (cases t; cases t') (auto simp: op_num_def word_le_nat_alt word_less_nat_alt word_unat_eq_iff)

lemma before_target:
  assumes "op_ok (s', t', k', v')" and "length key + 8 < 4294967296" and "s \<le> kMaxSequenceNumber"
  shows "before (KeyComparator BytewiseComparator) (op_entry (s', t', k', v')) (lookup_target key s) \<longleftrightarrow>
    k' < key \<or> k' = key \<and> s < s'"
proof -
  have "op_num s' t' > op_num s kTypeValue \<longleftrightarrow> s < s'"
    using op_num_le [OF op_ok_seq [OF assms(1)] assms(3), of t' kTypeValue] by (auto simp: not_le [symmetric])
  then show ?thesis
    by (auto simp: before_def KeyComparator_def entry_slice_op [OF assms(1)] entry_slice_target [OF assms(2)]
      InternalKeyComparator_def Compare_keys)
qed

lemma before_ops:
  assumes "op_ok (s, t, k, v)" and "op_ok (s', t', k', v')"
  shows "before (KeyComparator BytewiseComparator) (op_entry (s, t, k, v)) (op_entry (s', t', k', v')) \<longleftrightarrow>
    k < k' \<or> k = k' \<and> op_num s' t' < op_num s t"
  by (auto simp: before_def KeyComparator_ops [OF assms])

lemma op_num_byte: "op_num s t AND 0xff = ucast (type_code t)"
proof -
  have m: "(0xff :: uint64_t) = mask 8" by (simp add: mask_eq_exp_minus_1)
  show ?thesis unfolding op_num_def m by (cases t; rule bit_word_eqI) (auto simp: bit_simps)
qed

lemma Get_entry_op:
  assumes "op_ok (s, t, k, v)" and "user_comparator mt = BytewiseComparator"
  shows "Get_entry mt (op_entry (s, t, k, v)) lk value st =
    Some (if k = lookup_user_key lk
          then case t of kTypeValue \<Rightarrow> (True, v, st) | kTypeDeletion \<Rightarrow> (True, value, NotFound [] [])
          else (False, value, st))"
proof -
  let ?len = "of_nat (length k + 8) :: uint32_t"
  let ?rest = "k @ EncodeFixed64 (op_num s t) @ EncodeVarint32 (of_nat (length v)) @ v"
  have l: "length k + 8 < 4294967296" "length v < 4294967296" using assms(1) by (simp_all add: op_ok.simps)
  have u: "unat ?len = length k + 8" using l(1) unat_of_nat [of "length k + 8", where 'a = 32] by (simp add: take_bit_nat_eq_self)
  have u8: "unat (?len - 8) = length k" using l(1) by (simp add: unat_of_nat take_bit_nat_eq_self)
  obtain q where q: "GetVarint32Ptr (take 5 (op_entry (s, t, k, v))) = Some (?len, q)"
    "q @ drop 5 (op_entry (s, t, k, v)) = ?rest"
    using GetVarint32Ptr_take5 [of ?len ?rest] by (auto simp: op_entry.simps)
  have v: "entry_slice (drop (length k + 8) ?rest) = Some (v, [])"
    using entry_slice_written [OF l(2), of "[]"] by simp
  have n: "DecodeFixed64 (drop (length k) ?rest) = Some (op_num s t)"
    by (simp add: EncodeFixed64_bytes DecodeFixed64_bytes)
  show ?thesis
    unfolding Get_entry_def q(1) option.case prod.case Let_def q(2) u u8 v n assms(2) bind.bind_lunit op_num_byte
    by (cases t) (auto simp: Slice_compare_order)
qed

text \<open>The latest update of a key at or below a sequence number.\<close>

fun mem_latest :: "mem_op list \<Rightarrow> slice \<Rightarrow> uint64_t \<Rightarrow> (uint64_t \<times> ValueType \<times> slice) option" where
  "mem_latest [] key s = None"
| "mem_latest ((s', t, k, v) # ps) key s =
     (if k = key \<and> s' \<le> s then
        case mem_latest ps key s of
          None \<Rightarrow> Some (s', t, v)
        | Some (s'', t'', v'') \<Rightarrow>
            if s'' < s' \<or> s'' = s' \<and> t'' = kTypeDeletion then Some (s', t, v) else Some (s'', t'', v'')
      else mem_latest ps key s)"

fun get_result :: "(uint64_t \<times> ValueType \<times> slice) option \<Rightarrow> slice \<Rightarrow> Status \<Rightarrow> bool \<times> slice \<times> Status" where
  "get_result None value st = (False, value, st)"
| "get_result (Some (s, kTypeValue, v)) value st = (True, v, st)"
| "get_result (Some (s, kTypeDeletion, v)) value st = (True, value, NotFound [] [])"

lemma mem_latest_None: "mem_latest ps key s = None \<longleftrightarrow> (\<forall>(s', t, k, v) \<in> set ps. \<not> (k = key \<and> s' \<le> s))"
  by (induction ps key s rule: mem_latest.induct) (auto split: option.splits)

lemma mem_latest_Some:
  "mem_latest ps key s = Some (s0, t0, v0) \<Longrightarrow>
   (s0, t0, key, v0) \<in> set ps \<and> s0 \<le> s \<and>
   (\<forall>(s', t, k, v) \<in> set ps. k = key \<and> s' \<le> s \<longrightarrow> s' < s0 \<or> s' = s0 \<and> (t = kTypeValue \<longrightarrow> t0 = kTypeValue))"
proof (induction ps arbitrary: s0 t0 v0)
  case (Cons p ps)
  obtain s' t k v where p: "p = (s', t, k, v)" by (cases p)
  show ?case
  proof (cases "mem_latest ps key s")
    case None
    then have "\<forall>(s', t, k, v) \<in> set ps. \<not> (k = key \<and> s' \<le> s)" by (simp add: mem_latest_None)
    then show ?thesis using Cons.prems None p by (auto split: if_splits)
  next
    case (Some r)
    obtain s1 t1 v1 where r: "r = (s1, t1, v1)" by (cases r)
    have IH: "(s1, t1, key, v1) \<in> set ps" "s1 \<le> s" "\<forall>(s', t, k, v) \<in> set ps. k = key \<and> s' \<le> s \<longrightarrow>
        s' < s1 \<or> s' = s1 \<and> (t = kTypeValue \<longrightarrow> t1 = kTypeValue)"
      using Cons.IH [of s1 t1 v1] Some r by simp_all
    show ?thesis
    proof (cases "k = key \<and> s' \<le> s \<and> (s1 < s' \<or> s1 = s' \<and> t1 = kTypeDeletion)")
      case True
      then have "s0 = s'" "t0 = t" "v0 = v" using Cons.prems Some r p by auto
      moreover have "s'' < s' \<or> s'' = s' \<and> (t'' = kTypeValue \<longrightarrow> t = kTypeValue)"
        if "(s'', t'', key, v'') \<in> set ps" "s'' \<le> s" for s'' t'' v''
        using that IH(3) True by (cases t'') (fastforce intro: order.strict_trans)+
      ultimately show ?thesis using True p by auto
    next
      case False
      then have "s0 = s1" "t0 = t1" "v0 = v1" using Cons.prems Some r p by (auto split: if_splits)
      then show ?thesis using False IH p by (cases t1) auto
    qed
  qed
qed simp

lemma holds_ops_Get:
  assumes "holds_ops mt ps" and "s \<le> kMaxSequenceNumber" and "length key + 8 < 4294967296"
    and "distinct (map op_id ps)" and lk: "memtable_key lk = lookup_target key s" "lookup_user_key lk = key"
  shows "MemTable_Get mt lk value st = Some (get_result (mem_latest ps key s) value st)"
proof -
  let ?c = "KeyComparator BytewiseComparator" and ?t = "lookup_target key s"
  obtain es where u: "user_comparator mt = BytewiseComparator" and ok: "\<forall>p \<in> set ps. op_ok p"
    and es: "mem.holds_keys (table mt) es" "set es = op_entry ` set ps"
    using assms(1) by (auto simp: holds_ops_def)
  have "entry_valid (\<lambda>_. True) ?t"
    by (simp add: entry_valid_def entry_slice_target [OF assms(3)] internal_valid_key)
  then obtain it where it: "Iter_Seek ?c (table mt) ?t = Some it"
    "case it of None \<Rightarrow> \<forall>k \<in> set es. before ?c k ?t
     | Some n \<Rightarrow> node_key (table mt) n \<in> set es \<and> \<not> before ?c (node_key (table mt) n) ?t \<and>
         (\<forall>k \<in> set es. \<not> before ?c k ?t \<longrightarrow> k = node_key (table mt) n \<or> before ?c (node_key (table mt) n) k)"
    using mem.holds_Seek [OF es(1)] by blast
  have bt: "before ?c (op_entry (s', t', k', v')) ?t \<longleftrightarrow> k' < key \<or> k' = key \<and> s < s'"
    if "(s', t', k', v') \<in> set ps" for s' t' k' v'
    using before_target [OF _ assms(3,2)] ok that by blast
  show ?thesis
  proof (cases it)
    case None
    then have "\<forall>p \<in> set ps. before ?c (op_entry p) ?t" using it(2) es(2) by auto
    then have "mem_latest ps key s = None" using bt by (fastforce simp: mem_latest_None)
    then show ?thesis using it(1) None by (simp add: MemTable_Get_def u lk Iter_Valid_def)
  next
    case (Some n)
    obtain s' t' k' v' where p: "node_key (table mt) n = op_entry (s', t', k', v')" "(s', t', k', v') \<in> set ps"
      using it(2) Some es(2) by auto
    have okp: "op_ok (s', t', k', v')" using ok p(2) by blast
    have get: "MemTable_Get mt lk value st = Some (if k' = key
          then case t' of kTypeValue \<Rightarrow> (True, v', st) | kTypeDeletion \<Rightarrow> (True, value, NotFound [] [])
          else (False, value, st))"
      using it(1) Some Get_entry_op [OF okp u, of lk "value" st]
      by (simp add: MemTable_Get_def u lk Iter_Valid_def Iter_key_def p(1))
    have nb: "\<not> (k' < key \<or> k' = key \<and> s < s')" using it(2) Some p bt [OF p(2)] by simp
    show ?thesis
    proof (cases "mem_latest ps key s")
      case None
      then have "k' \<noteq> key" using p(2) nb by (fastforce simp: mem_latest_None not_less)
      then show ?thesis using get None by simp
    next
      case m: (Some r)
      obtain s0 t0 v0 where r: "r = (s0, t0, v0)" by (cases r)
      have l: "(s0, t0, key, v0) \<in> set ps" "s0 \<le> s"
        "\<And>s' t v. (s', t, key, v) \<in> set ps \<Longrightarrow> s' \<le> s \<Longrightarrow> s' < s0 \<or> s' = s0 \<and> (t = kTypeValue \<longrightarrow> t0 = kTypeValue)"
        using mem_latest_Some [OF m [unfolded r]] by fastforce+
      have ok0: "op_ok (s0, t0, key, v0)" using ok l(1) by blast
      have "\<not> before ?c (op_entry (s0, t0, key, v0)) ?t" using bt [OF l(1)] l(2) by (simp add: not_less)
      then have c: "op_entry (s0, t0, key, v0) = op_entry (s', t', k', v') \<or>
          before ?c (op_entry (s', t', k', v')) (op_entry (s0, t0, key, v0))"
        using it(2) Some es(2) l(1) p(1) by auto
      have same: "k' = key \<and> s' = s0 \<and> t' = t0"
      proof (cases "before ?c (op_entry (s', t', k', v')) (op_entry (s0, t0, key, v0))")
        case True
        then have k: "k' = key" "op_num s0 t0 < op_num s' t'" using before_ops [OF okp ok0] nb by auto
        then have "s' \<le> s" using nb by (simp add: not_less)
        then have "op_num s' t' \<le> op_num s0 t0"
          using l(3) p(2) k(1) op_num_le [OF op_ok_seq [OF okp] op_ok_seq [OF ok0]] by blast
        then show ?thesis using k(2) by simp
      next
        case False
        then have "?c (op_entry (s0, t0, key, v0)) (op_entry (s', t', k', v')) = Some 0"
          using c KeyComparator_ops [OF okp okp] by auto
        then show ?thesis using KeyComparator_distinct [OF ok0 okp] by simp
      qed
      then have "op_id (s', t', k', v') = op_id (s0, t0, key, v0)" by simp
      then have "v' = v0"
        using assms(4) l(1) p(2) inj_onD [of op_id "set ps" "(s', t', k', v')" "(s0, t0, key, v0)"]
        by (simp add: distinct_map)
      then show ?thesis using get m r same by (cases t0) simp_all
    qed
  qed
qed

text \<open>
  C11: after any sequence of additions with different internal keys \<open>Get\<close> answers with the latest
  update of the key at or below the sequence number of the lookup: its value, \<open>NotFound\<close> for a
  deletion, and nothing where there is none. No assert fails and every search ends.
\<close>

theorem memtable_get:
  assumes "\<forall>p \<in> set ps. op_ok p" and "distinct (map op_id ps)"
    and "s \<le> kMaxSequenceNumber" and "length key + 8 < 4294967296"
  shows "\<exists>mt lk. add_all ps (new_MemTable BytewiseComparator) = Some mt \<and> make_LookupKey key s = Some lk \<and>
    MemTable_Get mt lk value st = Some (get_result (mem_latest ps key s) value st)"
proof -
  obtain mt where mt: "add_all ps (new_MemTable BytewiseComparator) = Some mt" "holds_ops mt ps"
    using holds_ops_add_all [OF holds_ops_new assms(1,2)] by auto
  obtain lk where lk: "make_LookupKey key s = Some lk" "memtable_key lk = lookup_target key s" "lookup_user_key lk = key"
    using make_LookupKey_target [OF assms(3)] by blast
  show ?thesis using mt(1) lk(1) holds_ops_Get [OF mt(2) assms(3,4,2) lk(2,3)] by blast
qed

theorem memtable_get_witness:
  "\<exists>mt lk. add_all [(1, kTypeValue, [7], [1]), (3, kTypeDeletion, [7], []), (2, kTypeValue, [7], [2])]
      (new_MemTable BytewiseComparator) = Some mt \<and> make_LookupKey [7] 2 = Some lk \<and>
    MemTable_Get mt lk [] Status_OK = Some (True, [2], Status_OK)"
  using memtable_get [of "[(1, kTypeValue, [7], [1]), (3, kTypeDeletion, [7], []), (2, kTypeValue, [7], [2])]" 2 "[7]"
      "[]" Status_OK]
  by (simp add: op_ok.simps kMaxSequenceNumber_def del: add_all.simps)

section \<open>Inserting a write batch\<close>

definition mem_add :: "uint64_t \<Rightarrow> ValueType \<Rightarrow> slice \<Rightarrow> slice \<Rightarrow> MemTable option \<Rightarrow> MemTable option" where
  "mem_add s t k v mem = Option.bind mem (MemTable_Add s t k v)"

fun batch_ops :: "uint64_t \<Rightarrow> update list \<Rightarrow> mem_op list" where
  "batch_ops seq [] = []"
| "batch_ops seq (PutOp k v # us) = (seq, kTypeValue, k, v) # batch_ops (seq + 1) us"
| "batch_ops seq (DeleteOp k # us) = (seq, kTypeDeletion, k, []) # batch_ops (seq + 1) us"

lemma batch_ops_fold:
  "snd (fold (handle (MemTableInserter mem_add)) us (seq, Some mt)) = add_all (batch_ops seq us) mt"
proof -
  have none: "snd (fold (handle (MemTableInserter mem_add)) us (seq, None)) = None" for us seq
  proof (induction us arbitrary: seq)
    case (Cons u us)
    then show ?case by (cases u) (simp_all add: MemTableInserter_def mem_add_def)
  qed simp
  show ?thesis
  proof (induction us arbitrary: seq mt)
    case (Cons u us)
    show ?case
    proof (cases u)
      case (PutOp k v)
      then show ?thesis using Cons.IH [of "seq + 1"] none [of us "seq + 1"]
        by (cases "MemTable_Add seq kTypeValue k v mt") (simp_all add: MemTableInserter_def mem_add_def)
    next
      case (DeleteOp k)
      then show ?thesis using Cons.IH [of "seq + 1"] none [of us "seq + 1"]
        by (cases "MemTable_Add seq kTypeDeletion k [] mt") (simp_all add: MemTableInserter_def mem_add_def)
    qed
  qed simp
qed

lemma InsertInto_ops:
  "batch_rep b seq us \<Longrightarrow> InsertInto mem_add b (Some mt) = Some (Status_OK, add_all (batch_ops seq us) mt)"
  using batch_ops_fold [of us seq mt] batch_rep_Iterate [of b seq us "MemTableInserter mem_add" "(seq, Some mt)"]
  by (auto simp: InsertInto_def batch_rep_Sequence split: prod.splits)

text \<open>The keys of a batch fit, with room for the sequence number and type.\<close>

fun fits :: "update \<Rightarrow> bool" where
  "fits (PutOp k v) \<longleftrightarrow> length k + 8 < 4294967296 \<and> length v < 4294967296"
| "fits (DeleteOp k) \<longleftrightarrow> length k + 8 < 4294967296"

lemma batch_ops_ok:
  "unat seq + length us \<le> 2 ^ 56 \<Longrightarrow> \<forall>u \<in> set us. fits u \<Longrightarrow>
   (\<forall>p \<in> set (batch_ops seq us). op_ok p \<and> unat seq \<le> unat (fst p)) \<and> distinct (map fst (batch_ops seq us))"
proof (induction us arbitrary: seq)
  case (Cons u us)
  have s: "unat (seq + 1) = unat seq + 1" using Cons.prems(1) by (simp add: unat_word_ariths)
  have le: "seq \<le> kMaxSequenceNumber"
    using Cons.prems(1) by (simp add: kMaxSequenceNumber_def word_le_nat_alt)
  have IH: "(\<forall>p \<in> set (batch_ops (seq + 1) us). op_ok p \<and> unat seq + 1 \<le> unat (fst p)) \<and>
      distinct (map fst (batch_ops (seq + 1) us))"
    using Cons.IH [of "seq + 1"] Cons.prems s by simp
  then have "seq \<notin> fst ` set (batch_ops (seq + 1) us)" by auto
  then show ?case using IH Cons.prems(2) le by (cases u) (auto simp: op_ok.simps)
qed simp

lemma distinct_fst_id: "distinct (map fst ps) \<Longrightarrow> distinct (map op_id ps)"
proof -
  assume "distinct (map fst ps)"
  then have d: "distinct ps" and i: "inj_on fst (set ps)" by (simp_all add: distinct_map)
  have "fst p = fst q" if "op_id p = op_id q" for p q using that by (cases p; cases q) simp
  then have "inj_on op_id (set ps)" using i by (meson inj_on_def)
  then show "distinct (map op_id ps)" using d by (simp add: distinct_map)
qed

text \<open>The last update of the key among the first \<open>n\<close> of a batch.\<close>

fun last_update :: "slice \<Rightarrow> update list \<Rightarrow> update option" where
  "last_update key [] = None"
| "last_update key (u # us) =
     (case last_update key us of
        None \<Rightarrow> if (case u of PutOp k v \<Rightarrow> k | DeleteOp k \<Rightarrow> k) = key then Some u else None
      | Some w \<Rightarrow> Some w)"

fun update_result :: "update option \<Rightarrow> slice \<Rightarrow> Status \<Rightarrow> bool \<times> slice \<times> Status" where
  "update_result None value st = (False, value, st)"
| "update_result (Some (PutOp k v)) value st = (True, v, st)"
| "update_result (Some (DeleteOp k)) value st = (True, value, NotFound [] [])"

lemma mem_latest_batch:
  "unat seq + length us \<le> 2 ^ 56 \<Longrightarrow>
   (case mem_latest (batch_ops seq us) key s of
      None \<Rightarrow> last_update key (take (unat s + 1 - unat seq) us) = None
    | Some (s', t, v) \<Rightarrow> unat seq \<le> unat s' \<and> last_update key (take (unat s + 1 - unat seq) us) =
        Some (case t of kTypeValue \<Rightarrow> PutOp key v | kTypeDeletion \<Rightarrow> DeleteOp key))"
proof (induction us arbitrary: seq)
  case (Cons u us)
  have s: "unat (seq + 1) = unat seq + 1" using Cons.prems by (simp add: unat_word_ariths)
  obtain t k v where u: "batch_ops seq (u # us) = (seq, t, k, v) # batch_ops (seq + 1) us"
    "u = (case t of kTypeValue \<Rightarrow> PutOp k v | kTypeDeletion \<Rightarrow> DeleteOp k)"
    by (cases u) auto
  have IH: "case mem_latest (batch_ops (seq + 1) us) key s of
      None \<Rightarrow> last_update key (take (unat s - unat seq) us) = None
    | Some (s', t, v) \<Rightarrow> unat seq + 1 \<le> unat s' \<and> last_update key (take (unat s - unat seq) us) =
        Some (case t of kTypeValue \<Rightarrow> PutOp key v | kTypeDeletion \<Rightarrow> DeleteOp key)"
    using Cons.IH [of "seq + 1"] Cons.prems unfolding s add_diff_cancel_right by simp
  show ?case
  proof (cases "seq \<le> s")
    case True
    then have "unat s + 1 - unat seq = Suc (unat s - unat seq)" by (simp add: word_le_nat_alt Suc_diff_le)
    then show ?thesis using IH u True
      by (cases t) (auto simp: word_less_nat_alt word_unat_eq_iff split: option.splits)
  next
    case False
    then have "unat s + 1 - unat seq = 0" by (simp add: word_le_nat_alt)
    then show ?thesis using IH u False by (auto split: option.splits)
  qed
qed simp

text \<open>
  C12: from a write batch to the table: inserting a batch into a new table succeeds, and a lookup at
  sequence number \<open>s\<close> sees the last update of the key among those of the batch that are numbered up
  to \<open>s\<close>.
\<close>

theorem batch_insert_get:
  assumes "batch_rep b seq us" and "\<forall>u \<in> set us. fits u" and "unat seq + length us \<le> 2 ^ 56"
    and "s \<le> kMaxSequenceNumber" and "length key + 8 < 4294967296"
  shows "\<exists>mt lk. InsertInto mem_add b (Some (new_MemTable BytewiseComparator)) = Some (Status_OK, Some mt) \<and>
    make_LookupKey key s = Some lk \<and>
    MemTable_Get mt lk value st = Some (update_result (last_update key (take (unat s + 1 - unat seq) us)) value st)"
proof -
  let ?ps = "batch_ops seq us"
  have ok: "\<forall>p \<in> set ?ps. op_ok p" "distinct (map op_id ?ps)"
    using batch_ops_ok [OF assms(3,2)] distinct_fst_id by auto
  obtain mt where mt: "add_all ?ps (new_MemTable BytewiseComparator) = Some mt" "holds_ops mt ?ps"
    using holds_ops_add_all [OF holds_ops_new ok] by auto
  obtain lk where lk: "make_LookupKey key s = Some lk" "memtable_key lk = lookup_target key s" "lookup_user_key lk = key"
    using make_LookupKey_target [OF assms(4)] by blast
  have "get_result (mem_latest ?ps key s) value st =
      update_result (last_update key (take (unat s + 1 - unat seq) us)) value st"
  proof (cases "mem_latest ?ps key s")
    case (Some r)
    obtain s' t v where "r = (s', t, v)" by (cases r)
    then show ?thesis using mem_latest_batch [OF assms(3), of key s] Some by (cases t) simp_all
  qed (use mem_latest_batch [OF assms(3), of key s] in simp)
  then show ?thesis
    using InsertInto_ops [OF assms(1), of "new_MemTable BytewiseComparator"] mt(1) lk(1)
      holds_ops_Get [OF mt(2) assms(4,5) ok(2) lk(2,3), of "value" st] by simp
qed

theorem batch_insert_get_witness:
  "\<exists>mt lk. InsertInto mem_add (batch_bytes 5 [PutOp [7] [1], PutOp [7] [2], DeleteOp [7]])
      (Some (new_MemTable BytewiseComparator)) = Some (Status_OK, Some mt) \<and>
    make_LookupKey [7] 6 = Some lk \<and> MemTable_Get mt lk [] Status_OK = Some (True, [2], Status_OK)"
  using batch_insert_get [of "batch_bytes 5 [PutOp [7] [1], PutOp [7] [2], DeleteOp [7]]" 5
      "[PutOp [7] [1], PutOp [7] [2], DeleteOp [7]]" 6 "[7]" "[]" Status_OK]
  by (simp add: batch_rep_def kMaxSequenceNumber_def)

end
