(* ===== verification/LdbFile.thy ===== *)
theory LdbFile
  imports LdbLogging
begin

text \<open>
  The file interfaces of \<open>include/leveldb/env.h\<close> that the log and the tables use, as operations on a
  state of their own, the contracts that their users rely on, and the files in memory with
  which the repository's tests run them: \<open>StringDest\<close> of \<open>db/log_test.cc\<close> and \<open>StringSource\<close> of
  \<open>table/table_test.cc\<close>.
\<close>

section \<open>Writable files\<close>

record 'f WritableFile =
  wf_Append :: "pb_byte_t list \<Rightarrow> 'f \<Rightarrow> Status \<times> 'f"
  wf_Flush :: "'f \<Rightarrow> Status \<times> 'f"

text \<open>A file whose operations succeed, and which holds what was appended.\<close>

locale reliable_file =
  fixes ops :: "'f WritableFile" and data_of :: "'f \<Rightarrow> pb_byte_t list"
  assumes append_ok: "\<exists>f'. wf_Append ops d f = (Status_OK, f') \<and> data_of f' = data_of f @ d"
    and flush_ok: "\<exists>f'. wf_Flush ops f = (Status_OK, f') \<and> data_of f' = data_of f"

text \<open>\<open>StringDest\<close>: the string written so far.\<close>

definition StringDest :: "pb_byte_t list WritableFile" where
  "StringDest = \<lparr>wf_Append = \<lambda>data f. (Status_OK, f @ data), wf_Flush = \<lambda>f. (Status_OK, f)\<rparr>"

interpretation string_dest: reliable_file StringDest "\<lambda>f. f"
  by unfold_locales (simp_all add: StringDest_def)

text \<open>
  A file whose operations may fail, but which holds what was appended when they say so. Its size is an
  \<open>off_t\<close>.
\<close>

locale honest_file =
  fixes ops :: "'f WritableFile" and data_of :: "'f \<Rightarrow> pb_byte_t list"
  assumes append_honest: "wf_Append ops d f = (s, f') \<Longrightarrow> status_ok s \<Longrightarrow>
      data_of f' = data_of f @ d \<and> length (data_of f') < 2 ^ 63"
    and flush_honest: "wf_Flush ops f = (s, f') \<Longrightarrow> status_ok s \<Longrightarrow> data_of f' = data_of f"

text \<open>
  \<open>PosixWritableFile\<close> of \<open>util/env_posix.cc\<close>, over the stream of the C library, which is a parameter:
  \<open>fwrite_unlocked\<close> returns how many bytes it wrote, \<open>fflush_unlocked\<close> whether it failed, and both leave
  the message of their error in \<open>errno\<close>.
\<close>

record 'f Stdio =
  fwrite :: "pb_byte_t list \<Rightarrow> 'f \<Rightarrow> nat \<times> 'f"
  fflush :: "'f \<Rightarrow> bool \<times> 'f"
  errno_text :: "'f \<Rightarrow> pb_byte_t list"

definition PosixWritableFile :: "'f Stdio \<Rightarrow> pb_byte_t list \<Rightarrow> 'f WritableFile" where
  "PosixWritableFile st filename =
     \<lparr>wf_Append = (\<lambda>data f.
        let (r, f) = fwrite st data f
        in if r \<noteq> length data then (IOError filename (errno_text st f), f) else (Status_OK, f)),
      wf_Flush = (\<lambda>f.
        let (failed, f) = fflush st f
        in if failed then (IOError filename (errno_text st f), f) else (Status_OK, f))\<rparr>"

locale stdio =
  fixes st :: "'f Stdio" and data_of :: "'f \<Rightarrow> pb_byte_t list"
  assumes fwrite_all: "fwrite st d f = (length d, f') \<Longrightarrow> data_of f' = data_of f @ d \<and> length (data_of f') < 2 ^ 63"
    and fflush_keeps: "fflush st f = (False, f') \<Longrightarrow> data_of f' = data_of f"

sublocale stdio \<subseteq> posix: honest_file "PosixWritableFile st filename" data_of for filename
proof unfold_locales
  fix d f s f'
  assume "wf_Append (PosixWritableFile st filename) d f = (s, f')" and "status_ok s"
  then have "fwrite st d f = (length d, f')" by (auto simp: PosixWritableFile_def Let_def split: prod.splits if_splits)
  then show "data_of f' = data_of f @ d \<and> length (data_of f') < 2 ^ 63" by (rule fwrite_all)
qed (auto simp: PosixWritableFile_def fflush_keeps Let_def split: prod.splits if_splits)

text \<open>A stream to a device that holds \<open>cap\<close> bytes.\<close>

definition disk_size :: "nat \<Rightarrow> nat" where
  "disk_size cap = min cap (2 ^ 63 - 1)"

definition small_disk :: "nat \<Rightarrow> pb_byte_t list Stdio" where
  "small_disk cap =
     \<lparr>fwrite = (\<lambda>d f. let n = min (length d) (disk_size cap - length f) in (n, f @ take n d)),
      fflush = (\<lambda>f. (False, f)), errno_text = (\<lambda>f. str ''No space left on device'')\<rparr>"

interpretation disk: stdio "small_disk cap" "take (disk_size cap)" for cap
proof unfold_locales
  fix d f f'
  assume "fwrite (small_disk cap) d f = (length d, f')"
  then have n: "length d \<le> disk_size cap - length f" "f' = f @ d" by (auto simp: small_disk_def Let_def min_def split: if_splits)
  show "take (disk_size cap) f' = take (disk_size cap) f @ d \<and> length (take (disk_size cap) f') < 2 ^ 63"
    using n by (cases "d = []") (auto simp: disk_size_def)
qed (simp add: small_disk_def)

section \<open>Random access files\<close>

text \<open>
  \<open>Read\<close> returns the data, and whether it lies in the scratch buffer of the caller.
\<close>

record RandomAccessFile =
  raf_Read :: "uint64_t \<Rightarrow> uint64_t \<Rightarrow> Status \<times> pb_byte_t list \<times> bool"

text \<open>A file that can be read, with its contents.\<close>

locale random_access =
  fixes f :: RandomAccessFile and contents :: "pb_byte_t list"
  assumes read_ok: "unat off + unat n \<le> length contents \<Longrightarrow>
    \<exists>b. raf_Read f off n = (Status_OK, take (unat n) (drop (unat off) contents), b)"

definition TableStringSource :: "pb_byte_t list \<Rightarrow> RandomAccessFile" where
  "TableStringSource contents =
     \<lparr>raf_Read = (\<lambda>offset n.
        if unat offset > length contents then (InvalidArgument (str ''invalid Read offset'') [], [], True)
        else
          let n = (if unat (offset + n) > length contents then length contents - unat offset else unat n)
          in (Status_OK, take n (drop (unat offset) contents), True))\<rparr>"

lemma string_source_random_access:
  assumes "length contents < 2 ^ 63"
  shows "random_access (TableStringSource contents) contents"
proof
  fix off n :: uint64_t
  assume l: "unat off + unat n \<le> length contents"
  then have "unat (off + n) = unat off + unat n"
    using assms by (subst unat_word_ariths) simp
  then show "\<exists>b. raf_Read (TableStringSource contents) off n = (Status_OK, take (unat n) (drop (unat off) contents), b)"
    using l by (simp add: TableStringSource_def Let_def)
qed

end
