(* ===== verification/LdbLog.thy ===== *)
theory LdbLog
  imports LdbCrc LdbFile
begin

text \<open>
  LevelDB's log: \<open>db/log_format.h\<close>, \<open>db/log_writer.cc\<close> and \<open>db/log_reader.cc\<close>. The files
  are the operations of the interfaces of \<open>include/leveldb/env.h\<close> on a state of their own;
  \<open>StringDest\<close> and \<open>StringSource\<close> are the files in memory of \<open>db/log_test.cc\<close>.
  \<open>None\<close> is undefined behaviour, a failing assert or fuel used up. The address of the data
  only chooses the path through \<open>Extend\<close> and not its result (\<open>Value_address\<close>); here it is 0.
\<close>

section \<open>The format\<close>

definition kZeroType :: pb_byte_t where "kZeroType = 0"
definition kFullType :: pb_byte_t where "kFullType = 1"
definition kFirstType :: pb_byte_t where "kFirstType = 2"
definition kMiddleType :: pb_byte_t where "kMiddleType = 3"
definition kLastType :: pb_byte_t where "kLastType = 4"
definition kMaxRecordType :: pb_byte_t where "kMaxRecordType = kLastType"
definition kBlockSize :: nat where "kBlockSize = 32768"
definition kHeaderSize :: nat where "kHeaderSize = 4 + 2 + 1"

section \<open>The writer\<close>

record 'f Writer =
  dest :: 'f
  block_offset :: nat
  type_crc :: "uint32_t list"

definition new_Writer :: "'f \<Rightarrow> 'f Writer" where
  "new_Writer f =
     \<lparr>dest = f, block_offset = 0,
      type_crc = map (\<lambda>i. Value 0 [of_nat i]) [0..<unat kMaxRecordType + 1]\<rparr>"

definition EmitPhysicalRecord ::
  "'f WritableFile \<Rightarrow> pb_byte_t \<Rightarrow> pb_byte_t list \<Rightarrow> 'f Writer \<Rightarrow> (Status \<times> 'f Writer) option" where
  "EmitPhysicalRecord ops t ptr w =
     (let n = length ptr in
      if \<not> n \<le> 0xffff then None
      else if \<not> block_offset w + kHeaderSize + n \<le> kBlockSize then None
      else
        let crc = Mask (Extend 0 (type_crc w ! unat t) ptr);
            buf = EncodeFixed32 crc @ [of_nat n AND 0xff, of_nat (n div 256), t];
            (s, f) = wf_Append ops buf (dest w);
            (s, f) = (if status_ok s then
                        let (s, f) = wf_Append ops ptr f
                        in if status_ok s then wf_Flush ops f else (s, f)
                      else (s, f))
        in Some (s, w\<lparr>dest := f, block_offset := block_offset w + kHeaderSize + n\<rparr>))"

lemma EmitPhysicalRecord_offset:
  "EmitPhysicalRecord ops t ptr w = Some (s, w') \<Longrightarrow>
   block_offset w' = block_offset w + kHeaderSize + length ptr"
  by (auto simp: EmitPhysicalRecord_def Let_def split: if_splits prod.splits)

text \<open>The block switch at the head of the loop, with the padding of the trailer.\<close>

definition switch_block :: "'f WritableFile \<Rightarrow> 'f Writer \<Rightarrow> 'f Writer" where
  "switch_block ops w =
     (let leftover = kBlockSize - block_offset w in
      if leftover < kHeaderSize then
        let f = (if leftover > 0 then snd (wf_Append ops (replicate leftover 0) (dest w)) else dest w)
        in w\<lparr>dest := f, block_offset := 0\<rparr>
      else w)"

definition record_type :: "bool \<Rightarrow> bool \<Rightarrow> pb_byte_t" where
  "record_type first fin =
     (if first \<and> fin then kFullType else if first then kFirstType
      else if fin then kLastType else kMiddleType)"

text \<open>The loop. A round that takes no byte fills its block, so the next one takes a byte.\<close>

function AddRecord_loop ::
  "'f WritableFile \<Rightarrow> bool \<Rightarrow> pb_byte_t list \<Rightarrow> 'f Writer \<Rightarrow> (Status \<times> 'f Writer) option" where
  "AddRecord_loop ops first ptr w =
     (if block_offset w > kBlockSize then None
      else
        let w = switch_block ops w;
            avail = kBlockSize - block_offset w - kHeaderSize;
            fragment_length = (if length ptr < avail then length ptr else avail);
            t = record_type first (length ptr = fragment_length)
        in case EmitPhysicalRecord ops t (take fragment_length ptr) w of None \<Rightarrow> None
           | Some (s, w) \<Rightarrow>
               if status_ok s \<and> length ptr - fragment_length > 0
               then AddRecord_loop ops False (drop fragment_length ptr) w
               else Some (s, w))"
  by pat_completeness auto

termination
proof (relation "measure (\<lambda>(ops, first, ptr, w). 2 * length ptr + (if block_offset w = kBlockSize - kHeaderSize then 1 else 0))")
  fix ops :: "'f WritableFile" and first ptr and w w1 :: "'f Writer" and avail fragment_length t p s w2
  assume *: "\<not> block_offset w > kBlockSize" "w1 = switch_block ops w"
    "avail = kBlockSize - block_offset w1 - kHeaderSize"
    "fragment_length = (if length ptr < avail then length ptr else avail)"
    "EmitPhysicalRecord ops t (take fragment_length ptr) w1 = Some p" "(s, w2) = p"
    "status_ok s \<and> length ptr - fragment_length > 0"
  have len: "length (take fragment_length ptr) = fragment_length" using *(4,7) by simp
  have w2: "block_offset w2 = block_offset w1 + kHeaderSize + fragment_length"
    using EmitPhysicalRecord_offset *(5,6) len by metis
  have w1: "block_offset w1 = 0 \<or> block_offset w1 = block_offset w \<and> block_offset w + kHeaderSize \<le> kBlockSize"
    using *(1,2) by (auto simp: switch_block_def Let_def)
  have f: "fragment_length = kBlockSize - block_offset w1 - kHeaderSize" "fragment_length < length ptr"
    using *(3,4,7) by (auto split: if_splits)
  have "kHeaderSize < kBlockSize" by (simp add: kHeaderSize_def kBlockSize_def)
  then show "((ops, False, drop fragment_length ptr, w2), (ops, first, ptr, w)) \<in>
    measure (\<lambda>(ops, first, ptr, w). 2 * length ptr + (if block_offset w = kBlockSize - kHeaderSize then 1 else 0))"
    using w1 w2 f by (cases "fragment_length = 0") (auto simp: kHeaderSize_def kBlockSize_def)
qed simp

declare AddRecord_loop.simps [simp del]

definition AddRecord ::
  "'f WritableFile \<Rightarrow> pb_byte_t list \<Rightarrow> 'f Writer \<Rightarrow> (Status \<times> 'f Writer) option" where
  "AddRecord ops record w = AddRecord_loop ops True record w"

end
