(* ===== verification/LdbLogReader.thy ===== *)
theory LdbLogReader
  imports LdbLog
begin

text \<open>
  LevelDB's \<open>db/log_reader.h\<close> and \<open>db/log_reader.cc\<close>: blocks are read into a buffer, physical
  records are checked and the fragments of a logical record are joined. The reader is the record
  \<open>Reader\<close>; what does not change is in \<open>reader_env\<close>. \<open>ReadRecord\<close> has fuel, one per physical
  record; \<open>LdbLogProps\<close> shows how much is enough.
\<close>

section \<open>State\<close>

text \<open>
  The file's operations, and the reporter's (\<open>None\<close> for a null pointer) on a state of its own. A
  read that breaks a rule of the file is \<open>None\<close>.
\<close>

record 'f SequentialFile =
  sf_Read :: "nat \<Rightarrow> 'f \<Rightarrow> (Status \<times> pb_byte_t list \<times> 'f) option"
  sf_Skip :: "uint64_t \<Rightarrow> 'f \<Rightarrow> Status \<times> 'f"

record ('f, 'r) reader_env =
  file_ops :: "'f SequentialFile"
  reporter :: "(size_t \<Rightarrow> Status \<Rightarrow> 'r \<Rightarrow> 'r) option"
  checksum :: bool
  initial_offset :: uint64_t

record ('f, 'r) Reader =
  src_file :: 'f
  report_state :: 'r
  buffer :: "pb_byte_t list"
  eof :: bool
  last_record_offset :: uint64_t
  end_of_buffer_offset :: uint64_t

definition new_Reader :: "'f \<Rightarrow> 'r \<Rightarrow> ('f, 'r) Reader" where
  "new_Reader f r = \<lparr>src_file = f, report_state = r, buffer = [], eof = False,
     last_record_offset = 0, end_of_buffer_offset = 0\<rparr>"

text \<open>The values beyond the record types.\<close>

definition kEof :: uint32_t where "kEof = ucast kMaxRecordType + 1"
definition kBadRecord :: uint32_t where "kBadRecord = ucast kMaxRecordType + 2"

section \<open>Operations\<close>

definition ReportDrop ::
  "('f, 'r) reader_env \<Rightarrow> uint64_t \<Rightarrow> Status \<Rightarrow> ('f, 'r) Reader \<Rightarrow> ('f, 'r) Reader" where
  "ReportDrop env bytes reason r =
     (case reporter env of None \<Rightarrow> r
      | Some corruption \<Rightarrow>
          if end_of_buffer_offset r - of_nat (length (buffer r)) - bytes \<ge> initial_offset env
          then r\<lparr>report_state := corruption bytes reason (report_state r)\<rparr> else r)"

definition ReportCorruption ::
  "('f, 'r) reader_env \<Rightarrow> uint64_t \<Rightarrow> string \<Rightarrow> ('f, 'r) Reader \<Rightarrow> ('f, 'r) Reader" where
  "ReportCorruption env bytes reason r = ReportDrop env bytes (Corruption (str reason) []) r"

definition SkipToInitialBlock :: "('f, 'r) reader_env \<Rightarrow> ('f, 'r) Reader \<Rightarrow> bool \<times> ('f, 'r) Reader" where
  "SkipToInitialBlock env r =
     (let offset_in_block = initial_offset env mod of_nat kBlockSize;
          block_start_location = initial_offset env - offset_in_block;
          block_start_location =
            (if offset_in_block > of_nat (kBlockSize - 6) then block_start_location + of_nat kBlockSize
             else block_start_location);
          r = r\<lparr>end_of_buffer_offset := block_start_location\<rparr>
      in if block_start_location > 0 then
           let (skip_status, f) = sf_Skip (file_ops env) block_start_location (src_file r);
               r = r\<lparr>src_file := f\<rparr>
           in if \<not> status_ok skip_status
              then (False, ReportDrop env block_start_location skip_status r)
              else (True, r)
         else (True, r))"

text \<open>The end of \<open>ReadPhysicalRecord\<close>, with at least a header in the buffer.\<close>

definition parse_physical ::
  "('f, 'r) reader_env \<Rightarrow> pb_byte_t list \<Rightarrow> ('f, 'r) Reader \<Rightarrow>
   uint32_t \<times> pb_byte_t list \<times> ('f, 'r) Reader" where
  "parse_physical env result r =
     (let header = buffer r;
          a = ucast (header ! 4) AND 0xff :: uint32_t;
          b = ucast (header ! 5) AND 0xff :: uint32_t;
          t = scast (header ! 6) :: uint32_t;
          len = unat (a OR push_bit 8 b)
      in if kHeaderSize + len > length (buffer r) then
           let drop_size = of_nat (length (buffer r));
               r = r\<lparr>buffer := []\<rparr>
           in if \<not> eof r then (kBadRecord, result, ReportCorruption env drop_size ''bad record length'' r)
              else (kEof, result, r)
         else if t = ucast kZeroType \<and> len = 0 then (kBadRecord, result, r\<lparr>buffer := []\<rparr>)
         else if checksum env \<and>
             Value 0 (take (1 + len) (drop 6 header)) \<noteq> Unmask (the (DecodeFixed32 header)) then
           let drop_size = of_nat (length (buffer r));
               r = r\<lparr>buffer := []\<rparr>
           in (kBadRecord, result, ReportCorruption env drop_size ''checksum mismatch'' r)
         else
           let r = r\<lparr>buffer := drop (kHeaderSize + len) (buffer r)\<rparr>
           in if end_of_buffer_offset r - of_nat (length (buffer r)) - of_nat kHeaderSize - of_nat len
                 < initial_offset env
              then (kBadRecord, [], r)
              else (t, take len (drop kHeaderSize header), r))"

function ReadPhysicalRecord ::
  "('f, 'r) reader_env \<Rightarrow> pb_byte_t list \<Rightarrow> ('f, 'r) Reader \<Rightarrow>
   (uint32_t \<times> pb_byte_t list \<times> ('f, 'r) Reader) option" where
  "ReadPhysicalRecord env result r =
     (if length (buffer r) < kHeaderSize then
        if \<not> eof r then
          (case sf_Read (file_ops env) kBlockSize (src_file r) of None \<Rightarrow> None
           | Some (s, data, f) \<Rightarrow>
               let r = r\<lparr>buffer := data, src_file := f,
                     end_of_buffer_offset := end_of_buffer_offset r + of_nat (length data)\<rparr>
               in if \<not> status_ok s then
                    let r = r\<lparr>buffer := []\<rparr>;
                        r = ReportDrop env (of_nat kBlockSize) s r
                    in Some (kEof, result, r\<lparr>eof := True\<rparr>)
                  else if length data < kBlockSize then ReadPhysicalRecord env result (r\<lparr>eof := True\<rparr>)
                  else ReadPhysicalRecord env result r)
        else Some (kEof, result, r\<lparr>buffer := []\<rparr>)
      else Some (parse_physical env result r))"
  by pat_completeness auto
termination
  by (relation "measure (\<lambda>(env, result, r). if length (buffer r) < kHeaderSize \<and> \<not> eof r then 1 else 0)")
    (auto simp: kHeaderSize_def kBlockSize_def)

declare ReadPhysicalRecord.simps [simp del]

text \<open>
  The loop of \<open>ReadRecord\<close>. The result is the record (\<open>None\<close> for false), the scratch string and
  the reader.
\<close>

primrec ReadRecord_loop ::
  "nat \<Rightarrow> ('f, 'r) reader_env \<Rightarrow> bool \<Rightarrow> uint64_t \<Rightarrow> pb_byte_t list \<Rightarrow> pb_byte_t list \<Rightarrow>
   ('f, 'r) Reader \<Rightarrow> (pb_byte_t list option \<times> ('f, 'r) Reader) option" where
  "ReadRecord_loop 0 env in_frag prospective scratch fragment r = None"
| "ReadRecord_loop (Suc fuel) env in_frag prospective scratch fragment r =
     (let physical_record_offset = end_of_buffer_offset r - of_nat (length (buffer r)) in
      case ReadPhysicalRecord env fragment r of None \<Rightarrow> None
      | Some (rt, fragment, r) \<Rightarrow>
          if rt = ucast kFullType then
            let r = (if in_frag \<and> scratch \<noteq> [] then
                       ReportCorruption env (of_nat (length scratch)) ''partial record without end(1)'' r
                     else r)
            in Some (Some fragment, r\<lparr>last_record_offset := physical_record_offset\<rparr>)
          else if rt = ucast kFirstType then
            let r = (if in_frag \<and> scratch \<noteq> [] then
                       ReportCorruption env (of_nat (length scratch)) ''partial record without end(2)'' r
                     else r)
            in ReadRecord_loop fuel env True physical_record_offset fragment fragment r
          else if rt = ucast kMiddleType then
            if \<not> in_frag then
              ReadRecord_loop fuel env in_frag prospective scratch fragment
                (ReportCorruption env (of_nat (length fragment)) ''missing start of fragmented record(1)'' r)
            else ReadRecord_loop fuel env in_frag prospective (scratch @ fragment) fragment r
          else if rt = ucast kLastType then
            if \<not> in_frag then
              ReadRecord_loop fuel env in_frag prospective scratch fragment
                (ReportCorruption env (of_nat (length fragment)) ''missing start of fragmented record(2)'' r)
            else Some (Some (scratch @ fragment), r\<lparr>last_record_offset := prospective\<rparr>)
          else if rt = kEof then Some (None, r)
          else if rt = kBadRecord then
            if in_frag then
              ReadRecord_loop fuel env False prospective [] fragment
                (ReportCorruption env (of_nat (length scratch)) ''error in middle of record'' r)
            else ReadRecord_loop fuel env in_frag prospective scratch fragment r
          else
            ReadRecord_loop fuel env False prospective [] fragment
              (ReportDrop env (of_nat (length fragment + (if in_frag then length scratch else 0)))
                (Corruption (str ''unknown record type '' @ decimal (unat rt)) []) r))"

definition ReadRecord ::
  "nat \<Rightarrow> ('f, 'r) reader_env \<Rightarrow> ('f, 'r) Reader \<Rightarrow> (pb_byte_t list option \<times> ('f, 'r) Reader) option" where
  "ReadRecord fuel env r =
     (if last_record_offset r < initial_offset env then
        case SkipToInitialBlock env r of (ok, r) \<Rightarrow>
          if \<not> ok then Some (None, r) else ReadRecord_loop fuel env False 0 [] [] r
      else ReadRecord_loop fuel env False 0 [] [] r)"

definition LastRecordOffset :: "('f, 'r) Reader \<Rightarrow> uint64_t" where
  "LastRecordOffset r = last_record_offset r"

section \<open>The files in memory\<close>

record StringSource =
  contents :: "pb_byte_t list"
  force_error :: bool
  returned_partial :: bool

definition StringSource_Read ::
  "nat \<Rightarrow> StringSource \<Rightarrow> (Status \<times> pb_byte_t list \<times> StringSource) option" where
  "StringSource_Read n f =
     (if returned_partial f then None
      else if force_error f then
        Some (Corruption (str ''read error'') [], [], f\<lparr>force_error := False, returned_partial := True\<rparr>)
      else
        let (n, f) = (if length (contents f) < n then (length (contents f), f\<lparr>returned_partial := True\<rparr>)
                      else (n, f))
        in Some (Status_OK, take n (contents f), f\<lparr>contents := drop n (contents f)\<rparr>))"

definition StringSource_Skip :: "uint64_t \<Rightarrow> StringSource \<Rightarrow> Status \<times> StringSource" where
  "StringSource_Skip n f =
     (if unat n > length (contents f) then
        (NotFound (str ''in-memory file skipepd past end'') [], f\<lparr>contents := []\<rparr>)
      else (Status_OK, f\<lparr>contents := drop (unat n) (contents f)\<rparr>))"

definition StringSource_ops :: "StringSource SequentialFile" where
  "StringSource_ops = \<lparr>sf_Read = StringSource_Read, sf_Skip = StringSource_Skip\<rparr>"

end
