(* ===== verification/LdbLogProps.thy ===== *)
theory LdbLogProps
  imports LdbLogReader
begin

text \<open>
  The log as a whole: the bytes that the writer appends are a layout of physical records, and the
  reader on any prefix of these bytes returns the records that lie completely in it, in order,
  and then the end of the file, without reporting corruption. The writer's lemmas hold for every
  file that appends what it is given (\<open>reliable_file\<close>), the reader's for every file that reads
  its contents in order (\<open>readable_file\<close>).
\<close>

section \<open>The layout of physical records\<close>

type_synonym phys = "pb_byte_t \<times> pb_byte_t list"

fun phys_bytes :: "phys \<Rightarrow> pb_byte_t list" where
  "phys_bytes (t, fr) =
     EncodeFixed32 (Mask (Value 0 (t # fr))) @
     [of_nat (length fr) AND 0xff, of_nat (length fr div 256), t] @ fr"

definition pad :: "nat \<Rightarrow> pb_byte_t list" where
  "pad off = (if kBlockSize - off < kHeaderSize then replicate (kBlockSize - off) 0 else [])"

definition block_start :: "nat \<Rightarrow> nat" where
  "block_start off = (if kBlockSize - off < kHeaderSize then 0 else off)"

definition next_off :: "nat \<Rightarrow> phys \<Rightarrow> nat" where
  "next_off off p = block_start off + kHeaderSize + length (snd p)"

primrec layout :: "nat \<Rightarrow> phys list \<Rightarrow> pb_byte_t list" where
  "layout off [] = []"
| "layout off (p # ps) = pad off @ phys_bytes p @ layout (next_off off p) ps"

primrec end_off :: "nat \<Rightarrow> phys list \<Rightarrow> nat" where
  "end_off off [] = off"
| "end_off off (p # ps) = end_off (next_off off p) ps"

primrec fits :: "nat \<Rightarrow> phys list \<Rightarrow> bool" where
  "fits off [] \<longleftrightarrow> off \<le> kBlockSize"
| "fits off (p # ps) \<longleftrightarrow> off \<le> kBlockSize \<and> fits (next_off off p) ps"

text \<open>The physical records of one record, from its first fragment or from a later one.\<close>

fun is_record :: "bool \<Rightarrow> phys list \<Rightarrow> pb_byte_t list \<Rightarrow> bool" where
  "is_record first [] rec \<longleftrightarrow> False"
| "is_record first [(t, fr)] rec \<longleftrightarrow> t = record_type first True \<and> fr = rec"
| "is_record first ((t, fr) # p # ps) rec \<longleftrightarrow>
     t = record_type first False \<and> (\<exists>rest. rec = fr @ rest \<and> is_record False (p # ps) rest)"

lemma layout_append: "layout off (ps @ qs) = layout off ps @ layout (end_off off ps) qs"
  by (induction ps arbitrary: off) simp_all

lemma end_off_append: "end_off off (ps @ qs) = end_off (end_off off ps) qs"
  by (induction ps arbitrary: off) simp_all

lemma fits_append: "fits off (ps @ qs) \<longleftrightarrow> fits off ps \<and> fits (end_off off ps) qs"
proof (induction ps arbitrary: off)
  case Nil
  then show ?case by (cases qs) simp_all
qed simp

lemma length_phys_bytes [simp]: "length (phys_bytes p) = kHeaderSize + length (snd p)"
  by (cases p) (simp add: kHeaderSize_def)

lemma end_off_bound: "fits off ps \<Longrightarrow> end_off off ps \<le> kBlockSize"
  by (induction ps arbitrary: off) simp_all

section \<open>The writer\<close>

text \<open>The types for which the constructor computes checksums.\<close>

lemma type_crc_Value: "i < 5 \<Longrightarrow> type_crc (new_Writer f) ! i = Value 0 [of_nat i]"
  by (simp add: new_Writer_def kMaxRecordType_def kLastType_def)

lemma record_type_range: "record_type first fin \<in> {1, 2, 3, 4}"
  by (simp add: record_type_def kFullType_def kFirstType_def kMiddleType_def kLastType_def)

lemma record_type_crc:
  "type_crc w = type_crc (new_Writer f) \<Longrightarrow>
   Extend 0 (type_crc w ! unat (record_type first fin)) ptr = Value 0 (record_type first fin # ptr)"
  using record_type_range [of first fin] Extend_Value [of 0 0 "[record_type first fin]" ptr 0]
  by (auto simp: type_crc_Value)

primrec write_all ::
  "'f WritableFile \<Rightarrow> pb_byte_t list list \<Rightarrow> 'f Writer \<Rightarrow> 'f Writer option" where
  "write_all ops [] w = Some w"
| "write_all ops (rec # recs) w =
     (case AddRecord ops rec w of None \<Rightarrow> None
      | Some (s, w) \<Rightarrow> if status_ok s then write_all ops recs w else None)"

context reliable_file
begin

lemma Emit:
  assumes "type_crc w = type_crc (new_Writer f0)" and "block_offset w + kHeaderSize + length ptr \<le> kBlockSize"
  shows "\<exists>w'. EmitPhysicalRecord ops (record_type first fin) ptr w = Some (Status_OK, w') \<and>
    data_of (dest w') = data_of (dest w) @ phys_bytes (record_type first fin, ptr) \<and>
    block_offset w' = block_offset w + kHeaderSize + length ptr \<and> type_crc w' = type_crc w"
proof -
  let ?t = "record_type first fin"
  let ?buf = "EncodeFixed32 (Mask (Value 0 (?t # ptr))) @ [of_nat (length ptr) AND 0xff, of_nat (length ptr div 256), ?t]"
  obtain f1 where f1: "wf_Append ops ?buf (dest w) = (Status_OK, f1)" "data_of f1 = data_of (dest w) @ ?buf"
    using append_ok by blast
  obtain f2 where f2: "wf_Append ops ptr f1 = (Status_OK, f2)" "data_of f2 = data_of f1 @ ptr"
    using append_ok by blast
  obtain f3 where f3: "wf_Flush ops f2 = (Status_OK, f3)" "data_of f3 = data_of f2"
    using flush_ok by blast
  have n: "length ptr \<le> 0xffff" using assms(2) by (simp add: kBlockSize_def)
  show ?thesis
    using f1 f2 f3 n assms(2)
    by (simp add: EmitPhysicalRecord_def record_type_crc [OF assms(1)])
qed

lemma switch_block_pad:
  "data_of (dest (switch_block ops w)) = data_of (dest w) @ pad (block_offset w) \<and>
   block_offset (switch_block ops w) = block_start (block_offset w) \<and>
   type_crc (switch_block ops w) = type_crc w"
proof -
  obtain f where "wf_Append ops (replicate (kBlockSize - block_offset w) 0) (dest w) = (Status_OK, f)"
      "data_of f = data_of (dest w) @ replicate (kBlockSize - block_offset w) 0"
    using append_ok by blast
  then show ?thesis by (auto simp: switch_block_def pad_def block_start_def Let_def)
qed

lemma AddRecord_loop_layout:
  "type_crc w = type_crc (new_Writer f0) \<Longrightarrow> block_offset w \<le> kBlockSize \<Longrightarrow>
   \<exists>w' ps. AddRecord_loop ops first ptr w = Some (Status_OK, w') \<and> is_record first ps ptr \<and>
     fits (block_offset w) ps \<and> data_of (dest w') = data_of (dest w) @ layout (block_offset w) ps \<and>
     block_offset w' = end_off (block_offset w) ps \<and> type_crc w' = type_crc (new_Writer f0)"
proof (induction "2 * length ptr + (if block_offset w = kBlockSize - kHeaderSize then 1 else 0)"
    arbitrary: first ptr w rule: less_induct)
  case less
  let ?w = "switch_block ops w"
  let ?avail = "kBlockSize - block_offset ?w - kHeaderSize"
  define n where "n = (if length ptr < ?avail then length ptr else ?avail)"
  let ?t = "record_type first (length ptr = n)"
  note sw = switch_block_pad [of w]
  have start: "block_start (block_offset w) + kHeaderSize \<le> kBlockSize"
    using less.prems(2) by (auto simp: block_start_def kHeaderSize_def kBlockSize_def)
  have n: "length (take n ptr) = n" "n \<le> length ptr" "n \<le> ?avail" "n \<noteq> length ptr \<Longrightarrow> n = ?avail"
    by (auto simp: n_def)
  have room: "block_offset ?w + kHeaderSize + length (take n ptr) \<le> kBlockSize"
    using start sw n(1,3) by simp
  obtain w2 where w2: "EmitPhysicalRecord ops ?t (take n ptr) ?w = Some (Status_OK, w2)"
      "data_of (dest w2) = data_of (dest w) @ pad (block_offset w) @ phys_bytes (?t, take n ptr)"
      "block_offset w2 = block_start (block_offset w) + kHeaderSize + n" "type_crc w2 = type_crc (new_Writer f0)"
    using Emit [of ?w f0 "take n ptr" first "length ptr = n"] sw less.prems(1) room n(1) by auto
  have next_w2: "next_off (block_offset w) (?t, take n ptr) = block_offset w2"
    using w2(3) n(1) by (simp add: next_off_def)
  have off2: "block_offset w2 \<le> kBlockSize" using room sw w2(3) n(1) by simp
  have loop: "AddRecord_loop ops first ptr w =
      (if length ptr - n > 0 then AddRecord_loop ops False (drop n ptr) w2 else Some (Status_OK, w2))"
  proof -
    have nb: "(block_offset w > kBlockSize) = False" using less.prems(2) by simp
    show ?thesis
      unfolding n_def
      by (simp only: AddRecord_loop.simps [of ops first ptr w] Let_def nb if_False w2(1) [unfolded n_def]
          option.case prod.case status_ok_simps(1) simp_thms)
  qed
  show ?case
  proof (cases "length ptr - n > 0")
    case False
    then have eq: "length ptr = n" using n(2) by simp
    then have t: "?t = record_type first True" and tk: "take n ptr = ptr" by simp_all
    show ?thesis
      using w2 loop False eq off2 next_w2 less.prems(2) t tk
      by (intro exI [of _ w2] exI [of _ "[(?t, take n ptr)]"]) simp
  next
    case True
    then have ne: "length ptr \<noteq> n" and full: "n = ?avail" using n(4) by auto
    have dec: "2 * length (drop n ptr) + (if block_offset w2 = kBlockSize - kHeaderSize then 1 else 0) <
        2 * length ptr + (if block_offset w = kBlockSize - kHeaderSize then 1 else 0)"
    proof (cases "n = 0")
      case zero: True
      then have "block_start (block_offset w) = kBlockSize - kHeaderSize" using full start sw by simp
      then have "block_offset w = kBlockSize - kHeaderSize"
        by (simp add: block_start_def kHeaderSize_def kBlockSize_def split: if_splits)
      moreover have "block_offset w2 \<noteq> kBlockSize - kHeaderSize"
        using w2(3) full start sw by (simp add: kHeaderSize_def kBlockSize_def)
      ultimately show ?thesis by simp
    next
      case False
      then have d: "2 * length (drop n ptr) + 2 \<le> 2 * length ptr" using True n(2) by simp
      show ?thesis
        by (rule le_less_trans [of _ "2 * length (drop n ptr) + 1"]) (use d in \<open>simp_all del: length_drop\<close>)
    qed
    obtain w' ps where rec: "AddRecord_loop ops False (drop n ptr) w2 = Some (Status_OK, w')"
        "is_record False ps (drop n ptr)" "fits (block_offset w2) ps"
        "data_of (dest w') = data_of (dest w2) @ layout (block_offset w2) ps"
        "block_offset w' = end_off (block_offset w2) ps" "type_crc w' = type_crc (new_Writer f0)"
      using less.hyps [OF dec w2(4) off2] by blast
    have t: "?t = record_type first False" using ne by simp
    obtain p qs where ps: "ps = p # qs" using rec(2) by (cases ps) auto
    have "is_record first ((?t, take n ptr) # ps) ptr"
      using rec(2) t append_take_drop_id [of n ptr] unfolding ps by (simp only: is_record.simps) metis
    moreover have "AddRecord_loop ops first ptr w = Some (Status_OK, w')" using loop rec(1) True by simp
    ultimately show ?thesis
      using w2 next_w2 rec less.prems(2)
      by (intro exI [of _ w'] exI [of _ "(?t, take n ptr) # ps"]) simp
  qed
qed

text \<open>All records of a list.\<close>

lemma write_all_layout:
  "type_crc w = type_crc (new_Writer f0) \<Longrightarrow> block_offset w \<le> kBlockSize \<Longrightarrow>
   \<exists>w' pss. write_all ops recs w = Some w' \<and> list_all2 (is_record True) pss recs \<and>
     fits (block_offset w) (concat pss) \<and> data_of (dest w') = data_of (dest w) @ layout (block_offset w) (concat pss) \<and>
     block_offset w' = end_off (block_offset w) (concat pss) \<and> type_crc w' = type_crc (new_Writer f0)"
proof (induction recs arbitrary: w)
  case Nil
  then show ?case by (intro exI [of _ w] exI [of _ "[]"]) simp
next
  case (Cons rec recs)
  obtain w1 ps where w1: "AddRecord ops rec w = Some (Status_OK, w1)" "is_record True ps rec"
      "fits (block_offset w) ps" "data_of (dest w1) = data_of (dest w) @ layout (block_offset w) ps"
      "block_offset w1 = end_off (block_offset w) ps" "type_crc w1 = type_crc (new_Writer f0)"
    using AddRecord_loop_layout [OF Cons.prems, of True rec] by (auto simp: AddRecord_def)
  have "block_offset w1 \<le> kBlockSize" using end_off_bound [OF w1(3)] w1(5) by simp
  then obtain w' pss where w': "write_all ops recs w1 = Some w'" "list_all2 (is_record True) pss recs"
      "fits (block_offset w1) (concat pss)" "data_of (dest w') = data_of (dest w1) @ layout (block_offset w1) (concat pss)"
      "block_offset w' = end_off (block_offset w1) (concat pss)" "type_crc w' = type_crc (new_Writer f0)"
    using Cons.IH w1(6) by blast
  show ?case
    by (intro exI [of _ w'] exI [of _ "ps # pss"])
      (simp add: w1 w' layout_append end_off_append fits_append flip: w1(5))
qed

end

section \<open>One physical record\<close>

lemma byte_of_nat: "(of_nat n :: pb_byte_t) = ucast (of_nat n :: uint32_t)"
  by (simp add: word_unat_eq_iff unsigned_ucast_eq unat_of_nat take_bit_eq_mod mod_mod_cancel)

lemma shift_of_nat: "n < 65536 \<Longrightarrow> (of_nat (n div 256) :: uint32_t) = drop_bit 8 (of_nat n)"
proof -
  assume "n < 65536"
  moreover from this have "n div 256 < 256" by simp
  ultimately show ?thesis by (simp add: word_unat_eq_iff unat_drop_bit unat_of_nat take_bit_nat_eq_self)
qed

lemma byte_and: "(b :: pb_byte_t) AND 0xff = b"
proof -
  have "(0xff :: pb_byte_t) = -1" by simp
  then show ?thesis by (simp only: and.right_neutral)
qed

lemma length_bytes:
  assumes "n < 65536"
  shows "ucast (of_nat n AND 0xff :: pb_byte_t) AND 0xff OR
    push_bit 8 (ucast (of_nat (n div 256) :: pb_byte_t) AND 0xff) = (of_nat n :: uint32_t)"
proof -
  let ?w = "of_nat n :: uint32_t"
  have "of_nat (n div 256) = (ucast (drop_bit 8 ?w) :: pb_byte_t)"
    using byte_of_nat [of "n div 256"] shift_of_nat [OF assms] by simp
  moreover have "ucast (b :: pb_byte_t) AND 0xff = (ucast b :: uint32_t)" for b
    by (simp add: and_ff take_ucast_8)
  moreover have "le_word (le_bytes 2 ?w) = take_bit 16 ?w" using le_word_le_bytes [of 2 ?w] by simp
  moreover have "take_bit 16 ?w = ?w"
    using assms by (simp add: word_unat_eq_iff unsigned_take_bit_eq unat_of_nat take_bit_nat_eq_self)
  moreover have "le_bytes 2 ?w = [ucast ?w, ucast (drop_bit 8 ?w)]" by (simp add: numeral_eq_Suc)
  ultimately show ?thesis by (simp only: byte_and byte_of_nat [of n]) simp
qed

text \<open>What the reader sees of a physical record of which at least the header is in the buffer.\<close>

lemma phys_header:
  assumes "buf = take k (phys_bytes (t, fr) @ x)" and "7 \<le> k" and "length fr < 65536"
  shows "unat (ucast (buf ! 4) AND 0xff OR push_bit 8 (ucast (buf ! 5) AND 0xff) :: uint32_t) = length fr"
    and "buf ! 6 = t" and "7 \<le> length buf"
    and "DecodeFixed32 buf = Some (Mask (Value 0 (t # fr)))"
    and "7 + length fr \<le> k \<Longrightarrow> drop 6 buf = t # fr @ take (k - 7 - length fr) x"
proof -
  let ?n = "length fr"
  have e: "phys_bytes (t, fr) = EncodeFixed32 (Mask (Value 0 (t # fr))) @
      [of_nat ?n AND 0xff, of_nat (?n div 256), t] @ fr" by simp
  have nth: "buf ! 4 = of_nat ?n AND 0xff" "buf ! 5 = of_nat (?n div 256)" "buf ! 6 = t"
    using assms(2) unfolding assms(1) e by (simp_all add: nth_append)
  show "unat (ucast (buf ! 4) AND 0xff OR push_bit 8 (ucast (buf ! 5) AND 0xff) :: uint32_t) = ?n"
    unfolding nth length_bytes [OF assms(3)] using assms(3) by (simp add: unat_of_nat take_bit_nat_eq_self)
  show "buf ! 6 = t" by (rule nth(3))
  show "7 \<le> length buf" using assms(2) unfolding assms(1) by (simp add: kHeaderSize_def)
  have "take k (EncodeFixed32 c @ y) = EncodeFixed32 c @ take (k - 4) y" for c y
    using assms(2) by simp
  then show "DecodeFixed32 buf = Some (Mask (Value 0 (t # fr)))"
    unfolding assms(1) e append_assoc by (simp only: EncodeFixed32_bytes DecodeFixed32_bytes)
  show "drop 6 buf = t # fr @ take (k - 7 - length fr) x" if "7 + length fr \<le> k"
  proof -
    have "take k (phys_bytes (t, fr) @ x) = phys_bytes (t, fr) @ take (k - 7 - length fr) x"
      using that by (simp add: kHeaderSize_def del: phys_bytes.simps)
    then show ?thesis unfolding assms(1) by simp
  qed
qed

text \<open>The types of records that the writer makes.\<close>

lemma record_type_scast:
  fixes t :: pb_byte_t
  assumes "t \<in> {1, 2, 3, 4, 5}"
  shows "(scast t :: uint32_t) = ucast t" and "(scast t :: uint32_t) \<noteq> ucast kZeroType"
  using assms by (auto simp: kZeroType_def)

definition good_phys :: "phys \<Rightarrow> bool" where
  "good_phys p \<longleftrightarrow> fst p \<in> {1, 2, 3, 4} \<and> length (snd p) < 65536"

lemma parse_physical_complete:
  assumes "buffer r = phys_bytes p @ rest" and "good_phys p \<or> fst p = 5 \<and> length (snd p) < 65536"
    and "initial_offset env = 0"
  shows "parse_physical env res r = (ucast (fst p), snd p, r\<lparr>buffer := rest\<rparr>)"
proof -
  obtain t fr where p: "p = (t, fr)" by (cases p)
  have good: "t \<in> {1, 2, 3, 4, 5}" "length fr < 65536" using assms(2) by (auto simp: good_phys_def p)
  have b: "buffer r = take (length (buffer r)) (phys_bytes (t, fr) @ rest)"
    using assms(1) by (simp add: p)
  have k: "7 \<le> length (buffer r)" "7 + length fr \<le> length (buffer r)"
    using assms(1) by (simp_all add: p kHeaderSize_def)
  note h = phys_header [OF b k(1) good(2)]
  have "take (1 + length fr) (drop 6 (buffer r)) = t # fr" using h(5) [OF k(2)] by simp
  then have crc: "Value 0 (take (1 + length fr) (drop 6 (buffer r))) = Unmask (the (DecodeFixed32 (buffer r)))"
    using h(4) by (simp add: Unmask_Mask)
  have "drop (kHeaderSize + length fr) (buffer r) = rest"
    using assms(1) by (simp add: p del: phys_bytes.simps)
  moreover have "take (length fr) (drop kHeaderSize (buffer r)) = fr"
    using assms(1) by (simp add: p kHeaderSize_def)
  ultimately have d: "drop (kHeaderSize + length fr) (buffer r) = rest"
    "take (length fr) (drop kHeaderSize (buffer r)) = fr" by simp_all
  show ?thesis
    unfolding parse_physical_def Let_def h(1) h(2) crc d p
    using k record_type_scast [OF good(1)] assms(3) by (simp add: kHeaderSize_def)
qed

lemma parse_physical_cut:
  assumes "buffer r = take k (phys_bytes p @ rest)" and "7 \<le> k" and "k < 7 + length (snd p)"
    and "length (snd p) < 65536" and "eof r"
  shows "parse_physical env res r = (kEof, res, r\<lparr>buffer := []\<rparr>)"
proof -
  obtain t fr where p: "p = (t, fr)" by (cases p)
  have b: "buffer r = take k (phys_bytes (t, fr) @ rest)" using assms(1) by (simp add: p)
  have h: "unat (ucast (buffer r ! 4) AND 0xff OR push_bit 8 (ucast (buffer r ! 5) AND 0xff) :: uint32_t) = length fr"
    using phys_header(1) [OF b assms(2)] assms(4) by (simp add: p)
  have "length (buffer r) = k" using assms(1,3) by (simp add: p kHeaderSize_def)
  then show ?thesis
    unfolding parse_physical_def Let_def h using assms(3,5) by (simp add: p kHeaderSize_def)
qed

declare phys_bytes.simps [simp del]

lemma record_type_facts:
  "ucast (record_type True True) = (ucast kFullType :: uint32_t)"
  "ucast (record_type True False) = (ucast kFirstType :: uint32_t)"
  "ucast (record_type False False) = (ucast kMiddleType :: uint32_t)"
  "ucast (record_type False True) = (ucast kLastType :: uint32_t)"
  by (simp_all add: record_type_def)

lemma type_values:
  "(ucast kFullType :: uint32_t) = 1" "(ucast kFirstType :: uint32_t) = 2" "(ucast kMiddleType :: uint32_t) = 3"
  "(ucast kLastType :: uint32_t) = 4" "kEof = 5"
  by (simp_all add: kFullType_def kFirstType_def kMiddleType_def kLastType_def kEof_def kMaxRecordType_def)

section \<open>The reader's position\<close>

primrec read_all ::
  "nat \<Rightarrow> nat \<Rightarrow> ('f, 'r) reader_env \<Rightarrow> ('f, 'r) Reader \<Rightarrow> (pb_byte_t list list \<times> ('f, 'r) Reader) option" where
  "read_all 0 fuel env r = None"
| "read_all (Suc n) fuel env r =
     (case ReadRecord fuel env r of None \<Rightarrow> None
      | Some (None, r) \<Rightarrow> Some ([], r)
      | Some (Some rec, r) \<Rightarrow>
          (case read_all n fuel env r of None \<Rightarrow> None | Some (recs, r) \<Rightarrow> Some (rec # recs, r)))"

text \<open>A file without errors: reads return its contents in order, until one is cut short.\<close>

locale readable_file =
  fixes ops :: "'f SequentialFile" and rest_of :: "'f \<Rightarrow> pb_byte_t list" and readable :: "'f \<Rightarrow> bool"
  assumes read_ok: "readable f \<Longrightarrow> \<exists>f'. sf_Read ops n f = Some (Status_OK, take n (rest_of f), f') \<and>
    rest_of f' = drop n (rest_of f) \<and> (n \<le> length (rest_of f) \<longrightarrow> readable f')"
begin

text \<open>
  The reader has consumed \<open>pos\<close> bytes of a file and \<open>left\<close> is what remains: the buffer holds
  the rest of the current block.
\<close>

definition at_pos :: "('f, 'r) Reader \<Rightarrow> nat \<Rightarrow> pb_byte_t list \<Rightarrow> bool" where
  "at_pos r pos left \<longleftrightarrow>
     (if eof r then buffer r = left \<and> pos mod kBlockSize + length left < kBlockSize
      else readable (src_file r) \<and> buffer r @ rest_of (src_file r) = left \<and>
        (pos mod kBlockSize + length (buffer r) = kBlockSize \<or> buffer r = [] \<and> pos mod kBlockSize = 0))"

lemma at_pos_update [simp]: "at_pos (r\<lparr>last_record_offset := v\<rparr>) pos left = at_pos r pos left"
  by (simp add: at_pos_def)

text \<open>One turn of the loop that fills the buffer.\<close>

lemma refill_at:
  assumes "\<not> eof r" and "readable (src_file r)" and "length (buffer r) < kHeaderSize" and "file_ops env = ops"
    and "rest_of (src_file r) = left" and "pos mod kBlockSize = 0"
  shows "\<exists>r'. (\<forall>res. ReadPhysicalRecord env res r = ReadPhysicalRecord env res r') \<and> at_pos r' pos left \<and>
    (eof r' \<or> buffer r' \<noteq> []) \<and> report_state r' = report_state r"
proof -
  obtain f' where f': "sf_Read ops kBlockSize (src_file r) = Some (Status_OK, take kBlockSize left, f')"
      "rest_of f' = drop kBlockSize left" "kBlockSize \<le> length left \<longrightarrow> readable f'"
    using read_ok [OF assms(2)] assms(5) by blast
  let ?data = "take kBlockSize left"
  let ?r = "r\<lparr>buffer := ?data, src_file := f',
    end_of_buffer_offset := end_of_buffer_offset r + of_nat (length ?data)\<rparr>"
  let ?r' = "if length ?data < kBlockSize then ?r\<lparr>eof := True\<rparr> else ?r"
  have "ReadPhysicalRecord env res r = ReadPhysicalRecord env res ?r'" for res
    using assms f'(1) by (simp add: ReadPhysicalRecord.simps [of env res r] Let_def)
  moreover have "at_pos ?r' pos left \<and> (eof ?r' \<or> buffer ?r' \<noteq> []) \<and> report_state ?r' = report_state r"
  proof (cases "length left < kBlockSize")
    case True
    then show ?thesis using assms(6) by (simp add: at_pos_def)
  next
    case False
    then have "length ?data = kBlockSize" "?data \<noteq> []" by (auto simp: kBlockSize_def)
    then show ?thesis using False f' assms(1,6) by (simp add: at_pos_def)
  qed
  ultimately show ?thesis by blast
qed

lemma pad_at:
  assumes "off \<le> kBlockSize" and "pos mod kBlockSize = off mod kBlockSize"
  shows "(pad off = [] \<and> block_start off = pos mod kBlockSize \<and> pos mod kBlockSize + kHeaderSize \<le> kBlockSize) \<or>
    (pad off = replicate (kBlockSize - pos mod kBlockSize) 0 \<and> block_start off = 0 \<and>
      kBlockSize < pos mod kBlockSize + kHeaderSize)"
proof (cases "off = kBlockSize")
  case True
  then show ?thesis using assms(2) by (simp add: pad_def block_start_def kHeaderSize_def kBlockSize_def)
next
  case False
  then have "off mod kBlockSize = off" using assms(1) by simp
  then show ?thesis using assms by (auto simp: pad_def block_start_def)
qed

text \<open>
  The result of reading a physical record of which the first \<open>k\<close> bytes are there, and \<open>x\<close>
  behind them: the record, or the end of the file.
\<close>

definition reads_phys ::
  "('f, 'r) reader_env \<Rightarrow> ('f, 'r) Reader \<Rightarrow> nat \<Rightarrow> phys \<Rightarrow> nat \<Rightarrow> pb_byte_t list \<Rightarrow> bool" where
  "reads_phys env r pos p k x \<longleftrightarrow>
     (\<forall>res. \<exists>r'. report_state r' = report_state r \<and>
       (if kHeaderSize + length (snd p) \<le> k
        then ReadPhysicalRecord env res r = Some (ucast (fst p), snd p, r') \<and>
          at_pos r' (pos + (kHeaderSize + length (snd p))) (take (k - (kHeaderSize + length (snd p))) x)
        else ReadPhysicalRecord env res r = Some (kEof, res, r')))"

lemma take_phys:
  "kHeaderSize + length (snd p) \<le> k \<Longrightarrow>
   take k (phys_bytes p @ x) = phys_bytes p @ take (k - (kHeaderSize + length (snd p))) x"
  by simp

lemma reads_ready:
  assumes p: "good_phys p" and room: "pos mod kBlockSize + (kHeaderSize + length (snd p)) \<le> kBlockSize"
    and env: "initial_offset env = 0" "file_ops env = ops"
    and pos: "at_pos r pos (take k (phys_bytes p @ x))" and ready: "eof r \<or> buffer r \<noteq> []"
  shows "reads_phys env r pos p k x"
proof -
  let ?L = "kHeaderSize + length (snd p)"
  let ?left = "take k (phys_bytes p @ x)"
  have whole: "reads_phys env r pos p k x"
    if k: "?L \<le> k" and buf: "buffer r = phys_bytes p @ b" and next_pos: "at_pos (r\<lparr>buffer := b\<rparr>) (pos + ?L) (take (k - ?L) x)" for b
  proof -
    have "\<not> length (buffer r) < kHeaderSize" by (simp add: buf)
    then have "ReadPhysicalRecord env res r = Some (ucast (fst p), snd p, r\<lparr>buffer := b\<rparr>)" for res
      by (simp add: ReadPhysicalRecord.simps [of env res r] parse_physical_complete [OF buf disjI1 [OF p] env(1)])
    then show ?thesis using k next_pos by (auto simp: reads_phys_def add.assoc intro!: exI [of _ "r\<lparr>buffer := b\<rparr>"])
  qed
  have mod_less: "pos mod kBlockSize + ?L < kBlockSize \<Longrightarrow> (pos + ?L) mod kBlockSize = pos mod kBlockSize + ?L"
    by (metis mod_add_left_eq mod_less)
  have mod_eq: "pos mod kBlockSize + ?L = kBlockSize \<Longrightarrow> (pos + ?L) mod kBlockSize = 0"
    by (metis mod_add_left_eq mod_self)
  show ?thesis
  proof (cases "eof r")
    case False
    then have full: "buffer r @ rest_of (src_file r) = ?left" "pos mod kBlockSize + length (buffer r) = kBlockSize"
        "readable (src_file r)"
      using pos ready by (auto simp: at_pos_def)
    have "length ?left \<le> k" by (simp only: length_take min.cobounded2)
    moreover have "length (buffer r) + length (rest_of (src_file r)) = length ?left"
      using arg_cong [OF full(1), of length] by (simp only: length_append)
    ultimately have k: "?L \<le> k" using room full(2) by linarith
    have e: "buffer r @ rest_of (src_file r) = phys_bytes p @ take (k - ?L) x" using full(1) take_phys [OF k] by metis
    define b where "b = drop ?L (buffer r)"
    have "?L \<le> length (buffer r)" using room full(2) by simp
    then have "take ?L (buffer r) = phys_bytes p" using arg_cong [OF e, of "take ?L"] by simp
    then have b1: "buffer r = phys_bytes p @ b" unfolding b_def by (metis append_take_drop_id)
    then have b: "buffer r = phys_bytes p @ b" "b @ rest_of (src_file r) = take (k - ?L) x"
      using e by simp_all
    have len: "pos mod kBlockSize + ?L + length b = kBlockSize" using full(2) by (simp add: b(1))
    have "at_pos (r\<lparr>buffer := b\<rparr>) (pos + ?L) (take (k - ?L) x)"
    proof (cases "pos mod kBlockSize + ?L < kBlockSize")
      case True
      then show ?thesis using False full(3) b(2) len mod_less by (simp add: at_pos_def)
    next
      case less: False
      then have "pos mod kBlockSize + ?L = kBlockSize" using room by simp
      then show ?thesis using False full(3) b(2) len mod_eq by (simp add: at_pos_def)
    qed
    then show ?thesis by (rule whole [OF k b(1)])
  next
    case True
    then have buf: "buffer r = ?left" "pos mod kBlockSize + length ?left < kBlockSize"
      using pos by (simp_all add: at_pos_def)
    show ?thesis
    proof (cases "?L \<le> k")
      case k: True
      then have "pos mod kBlockSize + ?L + length (take (k - ?L) x) < kBlockSize"
        using buf(2) by (simp add: take_phys [OF k])
      then have "at_pos (r\<lparr>buffer := take (k - ?L) x\<rparr>) (pos + ?L) (take (k - ?L) x)"
        using True mod_less by (simp add: at_pos_def)
      then show ?thesis using whole [OF k, of "take (k - ?L) x"] k by (simp add: buf(1) take_phys [OF k])
    next
      case k: False
      then have len: "length (buffer r) = k" by (simp add: buf(1))
      have "ReadPhysicalRecord env res r = Some (kEof, res, r\<lparr>buffer := []\<rparr>)" for res
      proof (cases "k < kHeaderSize")
        case less: True
        then show ?thesis using True by (simp add: ReadPhysicalRecord.simps [of env res r] len)
      next
        case False
        then have "7 \<le> k" "k < 7 + length (snd p)" using k by (simp_all add: kHeaderSize_def)
        then have "parse_physical env res r = (kEof, res, r\<lparr>buffer := []\<rparr>)"
          using parse_physical_cut [OF buf(1)] p True by (simp add: good_phys_def)
        then show ?thesis using False by (simp add: ReadPhysicalRecord.simps [of env res r] len)
      qed
      then show ?thesis using k by (auto simp: reads_phys_def intro!: exI [of _ "r\<lparr>buffer := []\<rparr>"])
    qed
  qed
qed

text \<open>The same where the padding of a block may come first.\<close>

lemma reads_padded:
  assumes p: "good_phys p" and fit: "off \<le> kBlockSize" "next_off off p \<le> kBlockSize"
    and env: "initial_offset env = 0" "file_ops env = ops"
    and pos: "at_pos r pos (take m (pad off @ phys_bytes p @ x))" "pos mod kBlockSize = off mod kBlockSize"
  shows "\<forall>res. \<exists>r'. report_state r' = report_state r \<and>
     (if length (pad off) + (kHeaderSize + length (snd p)) \<le> m
      then ReadPhysicalRecord env res r = Some (ucast (fst p), snd p, r') \<and>
        at_pos r' (pos + length (pad off) + (kHeaderSize + length (snd p)))
          (take (m - (length (pad off) + (kHeaderSize + length (snd p)))) x)
      else ReadPhysicalRecord env res r = Some (kEof, res, r'))"
proof -
  let ?L = "kHeaderSize + length (snd p)"
  let ?d = "length (pad off)"
  have via: ?thesis
    if "reads_phys env r' (pos + ?d) p (m - ?d) x" "?d \<le> m" "report_state r' = report_state r"
      "\<And>res. ReadPhysicalRecord env res r = ReadPhysicalRecord env res r'" for r'
  proof -
    have e: "?d + ?L \<le> m \<longleftrightarrow> ?L \<le> m - ?d" "m - (?d + ?L) = m - ?d - ?L" using that(2) by linarith+
    show ?thesis using that(1) unfolding reads_phys_def e that(3,4) .
  qed
  have start: "block_start off + ?L \<le> kBlockSize" using fit(2) by (simp add: next_off_def)
  consider (none) "pad off = []" "block_start off = pos mod kBlockSize"
    | (pad) "pad off = replicate (kBlockSize - pos mod kBlockSize) 0" "block_start off = 0"
        "kBlockSize < pos mod kBlockSize + kHeaderSize"
    using pad_at [OF fit(1) pos(2)] by argo
  then show ?thesis
  proof cases
    case none
    have left: "at_pos r pos (take m (phys_bytes p @ x))" using pos(1) none(1) by simp
    have room: "pos mod kBlockSize + ?L \<le> kBlockSize" using start none(2) by simp
    show ?thesis
    proof (cases "eof r \<or> buffer r \<noteq> []")
      case True
      then show ?thesis using via [of r] reads_ready [OF p room env left] none(1) by simp
    next
      case False
      then have r: "\<not> eof r" "buffer r = []" "readable (src_file r)" "rest_of (src_file r) = take m (phys_bytes p @ x)"
          "pos mod kBlockSize = 0"
        using left by (auto simp: at_pos_def kBlockSize_def)
      have "length (buffer r) < kHeaderSize" using r(2) by (simp add: kHeaderSize_def)
      then obtain r' where r': "\<And>res. ReadPhysicalRecord env res r = ReadPhysicalRecord env res r'"
          "at_pos r' pos (take m (phys_bytes p @ x))" "eof r' \<or> buffer r' \<noteq> []" "report_state r' = report_state r"
        using refill_at [OF r(1,3) _ env(2) r(4) r(5)] by blast
      show ?thesis using via [of r'] reads_ready [OF p room env r'(2,3)] r' none(1) by simp
    qed
  next
    case pad
    let ?q = "kBlockSize - pos mod kBlockSize"
    have d: "?d = ?q" "?q < kHeaderSize" "?q > 0" using pad(1,3) by (simp_all add: kBlockSize_def)
    show ?thesis
    proof (cases "eof r")
      case True
      then have buf: "buffer r = take m (pad off @ phys_bytes p @ x)"
          "pos mod kBlockSize + length (take m (pad off @ phys_bytes p @ x)) < kBlockSize"
        using pos(1) by (simp_all add: at_pos_def)
      then have len: "length (take m (pad off @ phys_bytes p @ x)) < ?q" by linarith
      have "min ?q m \<le> length (take m (pad off @ phys_bytes p @ x))" using d(1) by simp
      then have "m < ?q" using len by linarith
      moreover have "ReadPhysicalRecord env res r = Some (kEof, res, r\<lparr>buffer := []\<rparr>)" for res
        using True buf(1) len d(2) by (simp add: ReadPhysicalRecord.simps [of env res r] del: length_take)
      ultimately show ?thesis using d(1) by (auto intro!: exI [of _ "r\<lparr>buffer := []\<rparr>"])
    next
      case False
      then have r: "readable (src_file r)" "buffer r @ rest_of (src_file r) = take m (pad off @ phys_bytes p @ x)"
          "length (buffer r) = ?q"
      proof -
        have "pos mod kBlockSize \<noteq> 0" using pad(3) by (simp add: kHeaderSize_def kBlockSize_def)
        then show "readable (src_file r)" "buffer r @ rest_of (src_file r) = take m (pad off @ phys_bytes p @ x)"
          "length (buffer r) = ?q"
          using pos(1) False by (auto simp: at_pos_def)
      qed
      have m: "?q \<le> m"
      proof -
        have "length (take m (pad off @ phys_bytes p @ x)) \<le> m" by (simp only: length_take min.cobounded2)
        then show ?thesis using arg_cong [OF r(2), of length] r(3) by (simp only: length_append)
      qed
      have rest: "rest_of (src_file r) = take (m - ?d) (phys_bytes p @ x)"
      proof -
        have "rest_of (src_file r) = drop ?q (buffer r @ rest_of (src_file r))" using r(3) by simp
        also have "\<dots> = take (m - ?q) (drop ?q (pad off @ phys_bytes p @ x))" unfolding r(2) by (rule drop_take)
        also have "drop ?q (pad off @ phys_bytes p @ x) = phys_bytes p @ x" unfolding d(1) [symmetric] by simp
        finally show ?thesis unfolding d(1) .
      qed
      have mod0: "(pos + ?d) mod kBlockSize = 0"
      proof -
        have "pos mod kBlockSize + ?d = kBlockSize" using d by simp
        then show ?thesis by (metis mod_add_left_eq mod_self)
      qed
      have short: "length (buffer r) < kHeaderSize" using r(3) d(2) by simp
      obtain r' where r': "\<And>res. ReadPhysicalRecord env res r = ReadPhysicalRecord env res r'"
          "at_pos r' (pos + ?d) (take (m - ?d) (phys_bytes p @ x))" "eof r' \<or> buffer r' \<noteq> []"
          "report_state r' = report_state r"
        using refill_at [OF False r(1) short env(2) rest mod0] by blast
      have "(pos + ?d) mod kBlockSize + ?L \<le> kBlockSize" using start pad(2) mod0 by simp
      then show ?thesis
        using via [of r'] reads_ready [OF p _ env r'(2,3)] r'(1,4) m d(1) by simp
    qed
  qed
qed

section \<open>Whole records\<close>

lemma next_fragment:
  assumes env: "initial_offset env = 0" "file_ops env = ops"
    and p: "good_phys p" and fit: "fits off (p # ps)"
    and pos: "at_pos r pos (take m (layout off (p # ps) @ x))" "pos mod kBlockSize = off mod kBlockSize"
  shows "\<exists>r'. report_state r' = report_state r \<and>
    (if length (layout off [p]) \<le> m
     then ReadPhysicalRecord env res r = Some (ucast (fst p), snd p, r') \<and>
       at_pos r' (pos + length (layout off [p])) (take (m - length (layout off [p])) (layout (next_off off p) ps @ x)) \<and>
       (pos + length (layout off [p])) mod kBlockSize = next_off off p mod kBlockSize
     else ReadPhysicalRecord env res r = Some (kEof, res, r'))"
proof -
  have n: "length (layout off [p]) = length (pad off) + (kHeaderSize + length (snd p))" by simp
  have fit': "off \<le> kBlockSize" "next_off off p \<le> kBlockSize" using fit by (cases ps; simp)+
  have "at_pos r pos (take m (pad off @ phys_bytes p @ layout (next_off off p) ps @ x))" using pos(1) by simp
  then obtain r' where r': "report_state r' = report_state r"
      "if length (layout off [p]) \<le> m
       then ReadPhysicalRecord env res r = Some (ucast (fst p), snd p, r') \<and>
         at_pos r' (pos + length (pad off) + (kHeaderSize + length (snd p)))
           (take (m - length (layout off [p])) (layout (next_off off p) ps @ x))
       else ReadPhysicalRecord env res r = Some (kEof, res, r')"
    using reads_padded [OF p fit' env _ pos(2), of r m "layout (next_off off p) ps @ x"] unfolding n by blast
  have "(pos + length (pad off)) mod kBlockSize = block_start off mod kBlockSize"
    using pad_at [OF fit'(1) pos(2)]
  proof (elim disjE conjE)
    assume "pad off = replicate (kBlockSize - pos mod kBlockSize) 0" "block_start off = 0"
    moreover have "pos mod kBlockSize + (kBlockSize - pos mod kBlockSize) = kBlockSize"
      by (simp add: kBlockSize_def)
    ultimately show ?thesis by (metis length_replicate mod_add_left_eq mod_self mod_0)
  qed simp
  then have "(pos + length (pad off) + (kHeaderSize + length (snd p))) mod kBlockSize =
      (block_start off + (kHeaderSize + length (snd p))) mod kBlockSize"
    by (rule mod_add_cong) simp
  then have "(pos + length (layout off [p])) mod kBlockSize = next_off off p mod kBlockSize"
    by (simp add: next_off_def ac_simps)
  then show ?thesis using r' by (auto simp: n add.assoc)
qed

text \<open>
  Reading the fragments of a record: those of the first \<open>m\<close> bytes of the layout. Where all are
  there, the record is returned, else the end of the file.
\<close>

lemma ReadRecord_loop_fragments:
  assumes env: "initial_offset env = 0" "file_ops env = ops"
  shows "is_record first ps rec \<Longrightarrow> fits off ps \<Longrightarrow> list_all good_phys ps \<Longrightarrow>
    at_pos r pos (take m (layout off ps @ x)) \<Longrightarrow> pos mod kBlockSize = off mod kBlockSize \<Longrightarrow>
    length ps \<le> fuel \<Longrightarrow>
    \<exists>r'. report_state r' = report_state r \<and>
      (if length (layout off ps) \<le> m
       then ReadRecord_loop fuel env (\<not> first) prosp scratch frag r =
           Some (Some ((if first then [] else scratch) @ rec), r') \<and>
         at_pos r' (pos + length (layout off ps)) (take (m - length (layout off ps)) x) \<and>
         (pos + length (layout off ps)) mod kBlockSize = end_off off ps mod kBlockSize
       else ReadRecord_loop fuel env (\<not> first) prosp scratch frag r = Some (None, r'))"
proof (induction first ps rec arbitrary: off r pos m prosp scratch frag fuel rule: is_record.induct)
  case (1 first rec)
  then show ?case by simp
next
  case (2 first t fr rec)
  obtain fuel' where fuel: "fuel = Suc fuel'" using "2.prems"(6) by (cases fuel) auto
  have rec: "t = record_type first True" "fr = rec" using "2.prems"(1) by simp_all
  let ?n = "length (layout off [(t, fr)])"
  have good: "good_phys (t, fr)" using "2.prems"(3) by simp
  obtain r' where r': "report_state r' = report_state r"
      "if ?n \<le> m
       then ReadPhysicalRecord env frag r = Some (ucast t, fr, r') \<and> at_pos r' (pos + ?n) (take (m - ?n) x) \<and>
         (pos + ?n) mod kBlockSize = next_off off (t, fr) mod kBlockSize
       else ReadPhysicalRecord env frag r = Some (kEof, frag, r')"
    using next_fragment [OF env good "2.prems"(2,4,5), of frag]
    unfolding fst_conv snd_conv layout.simps(1) append_Nil by blast
  show ?case
  proof (cases "?n \<le> m")
    case False
    then show ?thesis using r' fuel by (intro exI [of _ r']) (simp add: type_values)
  next
    case True
    then have phys: "ReadPhysicalRecord env frag r = Some (ucast t, fr, r')" using r'(2) by simp
    show ?thesis
    proof (cases first)
      case True
      then show ?thesis using r' \<open>?n \<le> m\<close> phys rec fuel
        by (intro exI [of _ "r'\<lparr>last_record_offset := end_of_buffer_offset r - of_nat (length (buffer r))\<rparr>"])
          (simp add: record_type_facts type_values)
    next
      case False
      then show ?thesis using r' \<open>?n \<le> m\<close> phys rec fuel
        by (intro exI [of _ "r'\<lparr>last_record_offset := prosp\<rparr>"])
          (simp add: record_type_facts type_values)
    qed
  qed
next
  case (3 first t fr p ps rec)
  obtain fuel' where fuel: "fuel = Suc fuel'" "length (p # ps) \<le> fuel'" using "3.prems"(6) by (cases fuel) auto
  obtain rest where rec: "t = record_type first False" "rec = fr @ rest" "is_record False (p # ps) rest"
    using "3.prems"(1) by auto
  let ?n = "length (layout off [(t, fr)])"
  let ?off = "next_off off (t, fr)"
  have good: "good_phys (t, fr)" "list_all good_phys (p # ps)" using "3.prems"(3) by simp_all
  have fit: "fits ?off (p # ps)" using "3.prems"(2) by simp
  have len: "length (layout off ((t, fr) # p # ps)) = ?n + length (layout ?off (p # ps))" by simp
  obtain r' where r': "report_state r' = report_state r"
      "if ?n \<le> m
       then ReadPhysicalRecord env frag r = Some (ucast t, fr, r') \<and>
         at_pos r' (pos + ?n) (take (m - ?n) (layout ?off (p # ps) @ x)) \<and>
         (pos + ?n) mod kBlockSize = ?off mod kBlockSize
       else ReadPhysicalRecord env frag r = Some (kEof, frag, r')"
    using next_fragment [OF env good(1) "3.prems"(2,4,5), of frag] unfolding fst_conv snd_conv by blast
  show ?case
  proof (cases "?n \<le> m")
    case False
    moreover from False have "\<not> length (layout off ((t, fr) # p # ps)) \<le> m" unfolding len by simp
    ultimately show ?thesis using r' fuel(1)
      by (intro exI [of _ r']) (simp add: type_values del: layout.simps)
  next
    case True
    then have phys: "ReadPhysicalRecord env frag r = Some (ucast t, fr, r')"
      and next_pos: "at_pos r' (pos + ?n) (take (m - ?n) (layout ?off (p # ps) @ x))"
        "(pos + ?n) mod kBlockSize = ?off mod kBlockSize"
      using r'(2) by simp_all
    define scratch' where "scratch' = (if first then fr else scratch @ fr)"
    define prosp' where "prosp' = (if first then end_of_buffer_offset r - of_nat (length (buffer r)) else prosp)"
    have step: "ReadRecord_loop fuel env (\<not> first) prosp scratch frag r =
        ReadRecord_loop fuel' env True prosp' scratch' fr r'"
      using phys rec(1) by (cases first) (simp_all add: fuel(1) record_type_facts type_values scratch'_def prosp'_def)
    obtain r'' where r'': "report_state r'' = report_state r'"
        "if length (layout ?off (p # ps)) \<le> m - ?n
         then ReadRecord_loop fuel' env True prosp' scratch' fr r' = Some (Some (scratch' @ rest), r'') \<and>
           at_pos r'' (pos + ?n + length (layout ?off (p # ps))) (take (m - ?n - length (layout ?off (p # ps))) x) \<and>
           (pos + ?n + length (layout ?off (p # ps))) mod kBlockSize = end_off ?off (p # ps) mod kBlockSize
         else ReadRecord_loop fuel' env True prosp' scratch' fr r' = Some (None, r'')"
      using "3.IH" [OF rec(3) fit good(2) next_pos fuel(2), of prosp' scratch' fr]
      unfolding not_False_eq_True if_False by blast
    have eq: "length (layout off ((t, fr) # p # ps)) \<le> m \<longleftrightarrow> length (layout ?off (p # ps)) \<le> m - ?n"
        "m - length (layout off ((t, fr) # p # ps)) = m - ?n - length (layout ?off (p # ps))"
        "pos + length (layout off ((t, fr) # p # ps)) = pos + ?n + length (layout ?off (p # ps))"
      using True unfolding len by linarith+
    have sc: "scratch' @ rest = (if first then [] else scratch) @ rec"
      by (simp add: scratch'_def rec(2))
    have eo: "end_off off ((t, fr) # p # ps) = end_off ?off (p # ps)" by simp
    show ?thesis using r'' r'(1) unfolding step eq sc eo by (intro exI [of _ r'']) simp
  qed
qed

text \<open>At the end of the file.\<close>

lemma ReadRecord_loop_end:
  assumes env: "initial_offset env = 0" "file_ops env = ops" and pos: "at_pos r pos []"
  shows "\<exists>r'. report_state r' = report_state r \<and> ReadRecord_loop (Suc fuel) env b prosp scratch frag r = Some (None, r')"
proof -
  let ?p = "(1, []) :: phys"
  define off where "off = pos mod kBlockSize"
  have good: "good_phys ?p" by (simp add: good_phys_def)
  have fit: "fits off [?p]"
    by (auto simp: off_def next_off_def block_start_def kHeaderSize_def kBlockSize_def)
  have "at_pos r pos (take 0 (layout off [?p] @ []))" "pos mod kBlockSize = off mod kBlockSize"
    using pos by (simp_all add: off_def)
  then obtain r' where "report_state r' = report_state r" "ReadPhysicalRecord env frag r = Some (kEof, frag, r')"
    using next_fragment [OF env good fit, of r pos 0 "[]" frag] by (auto simp: kHeaderSize_def)
  then show ?thesis by (intro exI [of _ r']) (simp add: type_values)
qed

lemma read_all_layout:
  assumes env: "initial_offset env = 0" "file_ops env = ops"
  shows "list_all2 (is_record True) pss recs \<Longrightarrow> fits off (concat pss) \<Longrightarrow> list_all good_phys (concat pss) \<Longrightarrow>
    at_pos r pos (take m (layout off (concat pss))) \<Longrightarrow> pos mod kBlockSize = off mod kBlockSize \<Longrightarrow>
    length pss < n \<Longrightarrow> \<forall>ps \<in> set pss. length ps \<le> fuel \<Longrightarrow> 0 < fuel \<Longrightarrow>
    \<exists>k r'. k \<le> length recs \<and> read_all n fuel env r = Some (take k recs, r') \<and> report_state r' = report_state r \<and>
      (\<forall>j \<le> length pss. length (layout off (concat (take j pss))) \<le> m \<longrightarrow> j \<le> k)"
proof (induction pss arbitrary: recs off r pos m n)
  case Nil
  obtain n' fuel' where n: "n = Suc n'" "fuel = Suc fuel'" using Nil.prems(6,8) by (cases n; cases fuel) auto
  have "recs = []" "at_pos r pos []" using Nil.prems(1,4) by simp_all
  moreover from this obtain r' where "report_state r' = report_state r"
      "ReadRecord_loop fuel env False 0 [] [] r = Some (None, r')"
    using ReadRecord_loop_end [OF env, of r pos fuel' False 0 "[]" "[]"] n(2) by auto
  ultimately show ?case using env(1) n by (intro exI [of _ 0] exI [of _ r']) (simp add: ReadRecord_def)
next
  case (Cons ps pss)
  obtain n' where n: "n = Suc n'" "length pss < n'" using Cons.prems(6) by (cases n) auto
  obtain rec recs' where recs: "recs = rec # recs'" "is_record True ps rec" "list_all2 (is_record True) pss recs'"
    using Cons.prems(1) by (cases recs) auto
  let ?n = "length (layout off ps)"
  have lay: "layout off (concat (ps # pss)) = layout off ps @ layout (end_off off ps) (concat pss)"
    by (simp add: layout_append)
  have fit: "fits off ps" "fits (end_off off ps) (concat pss)" using Cons.prems(2) by (simp_all add: fits_append)
  have good: "list_all good_phys ps" "list_all good_phys (concat pss)" using Cons.prems(3) by simp_all
  have fuel: "length ps \<le> fuel" "\<forall>ps \<in> set pss. length ps \<le> fuel" using Cons.prems(7) by simp_all
  have pos0: "at_pos r pos (take m (layout off ps @ layout (end_off off ps) (concat pss)))"
    using Cons.prems(4) unfolding lay .
  obtain r' where r': "report_state r' = report_state r"
      "if ?n \<le> m
       then ReadRecord_loop fuel env False 0 [] [] r = Some (Some rec, r') \<and>
         at_pos r' (pos + ?n) (take (m - ?n) (layout (end_off off ps) (concat pss))) \<and>
         (pos + ?n) mod kBlockSize = end_off off ps mod kBlockSize
       else ReadRecord_loop fuel env False 0 [] [] r = Some (None, r')"
    using ReadRecord_loop_fragments [OF env recs(2) fit(1) good(1) pos0 Cons.prems(5) fuel(1), of 0 "[]" "[]"]
    unfolding not_True_eq_False if_True append_Nil by blast
  have read: "ReadRecord fuel env r = ReadRecord_loop fuel env False 0 [] [] r" using env(1) by (simp add: ReadRecord_def)
  have cut: "length (layout off (concat (take (Suc j) (ps # pss)))) =
      ?n + length (layout (end_off off ps) (concat (take j pss)))" for j
    by (simp add: layout_append)
  show ?case
  proof (cases "?n \<le> m")
    case False
    have "j \<le> 0" if "length (layout off (concat (take j (ps # pss)))) \<le> m" for j
      using that False cut [of "j - 1"] by (cases j) simp_all
    then show ?thesis using False r' read n by (intro exI [of _ 0] exI [of _ r']) simp
  next
    case True
    then have rr: "ReadRecord fuel env r = Some (Some rec, r')"
        "at_pos r' (pos + ?n) (take (m - ?n) (layout (end_off off ps) (concat pss)))"
        "(pos + ?n) mod kBlockSize = end_off off ps mod kBlockSize"
      using r'(2) read by simp_all
    obtain k r'' where k: "k \<le> length recs'" "read_all n' fuel env r' = Some (take k recs', r'')"
        "report_state r'' = report_state r'"
        "\<forall>j \<le> length pss. length (layout (end_off off ps) (concat (take j pss))) \<le> m - ?n \<longrightarrow> j \<le> k"
      using Cons.IH [OF recs(3) fit(2) good(2) rr(2,3) n(2) fuel(2) Cons.prems(8)] by blast
    have "j \<le> Suc k" if "j \<le> length (ps # pss)" "length (layout off (concat (take j (ps # pss)))) \<le> m" for j
      using that k(4) cut [of "j - 1"] by (cases j) simp_all
    then show ?thesis using rr(1) k r'(1) recs(1) n
      by (intro exI [of _ "Suc k"] exI [of _ r'']) simp
  qed
qed

end

interpretation string_source: readable_file StringSource_ops contents "\<lambda>f. \<not> force_error f \<and> \<not> returned_partial f"
  by unfold_locales (auto simp: StringSource_ops_def StringSource_Read_def)

section \<open>Writing and reading\<close>

lemma is_record_good:
  "is_record first ps rec \<Longrightarrow> fits off ps \<Longrightarrow> list_all good_phys ps"
proof (induction first ps rec arbitrary: off rule: is_record.induct)
  case (2 first t fr rec)
  then show ?case using record_type_range [of first True]
    by (auto simp: good_phys_def next_off_def kBlockSize_def)
next
  case (3 first t fr p ps rec)
  have "next_off off (t, fr) \<le> kBlockSize" using 3(3) by simp
  then have "length fr < 65536" by (simp add: next_off_def kBlockSize_def)
  then show ?case using 3 record_type_range [of first False] by (auto simp: good_phys_def)
qed simp

lemma records_good:
  "list_all2 (is_record True) pss recs \<Longrightarrow> fits off (concat pss) \<Longrightarrow> list_all good_phys (concat pss)"
proof (induction pss arbitrary: recs off)
  case (Cons ps pss)
  then obtain rec recs' where "is_record True ps rec" "list_all2 (is_record True) pss recs'" by (cases recs) auto
  then show ?case using Cons.prems Cons.IH [of recs' "end_off off ps"] is_record_good [of True ps rec off]
    by (simp add: fits_append)
qed simp

lemma length_layout: "length ps \<le> length (layout off ps)"
proof (induction ps arbitrary: off)
  case (Cons p ps)
  show ?case using Cons.IH [of "next_off off p"] by (simp add: kHeaderSize_def)
qed simp

lemma length_records:
  "list_all2 (is_record True) pss recs \<Longrightarrow> length pss \<le> length (concat pss) \<and> (\<forall>ps \<in> set pss. length ps \<le> length (concat pss))"
proof (induction pss arbitrary: recs)
  case (Cons ps pss)
  then obtain rec recs' where "is_record True ps rec" "list_all2 (is_record True) pss recs'" by (cases recs) auto
  moreover from this(1) have "ps \<noteq> []" by (cases ps) auto
  then have "1 \<le> length ps" by (cases ps) auto
  ultimately show ?case using Cons.IH [of recs'] by fastforce
qed simp

lemma write_all_append:
  "write_all ops as w = Some w1 \<Longrightarrow> write_all ops (as @ bs) w = write_all ops bs w1"
  by (induction as arbitrary: w) (auto split: option.splits prod.splits if_splits)

text \<open>
  The writer on a file in memory, from any position in a block: it passes its asserts and
  succeeds, what it appends is a sequence of physical records that carry the record and fit into
  the blocks, with padding where a header would not fit, and it keeps track of the offset.
\<close>

theorem log_writer_layout:
  assumes "block_offset w \<le> kBlockSize" and "type_crc w = type_crc (new_Writer [])"
  shows "\<exists>w' ps. AddRecord StringDest rec w = Some (Status_OK, w') \<and> is_record True ps rec \<and>
    fits (block_offset w) ps \<and> dest w' = dest w @ layout (block_offset w) ps \<and>
    block_offset w' = end_off (block_offset w) ps \<and> block_offset w' \<le> kBlockSize"
  using string_dest.AddRecord_loop_layout [OF assms(2,1), of True rec] end_off_bound [of "block_offset w"]
  by (auto simp: AddRecord_def)

theorem log_writer_layout_witness:
  "\<exists>w'. AddRecord StringDest [7] (new_Writer []) = Some (Status_OK, w') \<and> block_offset w' \<le> kBlockSize"
proof -
  have "block_offset (new_Writer []) \<le> kBlockSize" by (simp add: new_Writer_def)
  from log_writer_layout [OF this refl, of "[7]"] show ?thesis by blast
qed

text \<open>
  C14: recovery from the log. Records \<open>as\<close> and then \<open>bs\<close> are written, and the file is cut
  anywhere behind the records \<open>as\<close>, as a crash of the writer may do. Then the reader, whether it
  checks the checksums or not, returns all of \<open>as\<close> and the first few of \<open>bs\<close>, unchanged and in
  order, reports no corruption and ends; on the whole file it returns all records. Fuel beyond
  the length of the file is enough.
\<close>

theorem log_recovery:
  assumes "write_all StringDest as (new_Writer []) = Some w1" and "write_all StringDest bs w1 = Some w2"
    and "length (dest w1) \<le> n" and "initial_offset env = 0" and "file_ops env = StringSource_ops"
    and "length (dest w2) < fuel"
  shows "\<exists>k r. k \<le> length bs \<and> (length (dest w2) \<le> n \<longrightarrow> k = length bs) \<and>
    read_all fuel fuel env
      (new_Reader \<lparr>contents = take n (dest w2), force_error = False, returned_partial = False\<rparr> reports) =
      Some (as @ take k bs, r) \<and> report_state r = reports"
proof -
  let ?w0 = "new_Writer [] :: pb_byte_t list Writer"
  have w0: "block_offset ?w0 \<le> kBlockSize" "block_offset ?w0 = 0" "dest ?w0 = []"
    by (simp_all add: new_Writer_def)
  obtain pss where a: "list_all2 (is_record True) pss as" "fits 0 (concat pss)" "dest w1 = layout 0 (concat pss)"
      "block_offset w1 = end_off 0 (concat pss)" "type_crc w1 = type_crc ?w0"
    using string_dest.write_all_layout [OF refl w0(1), of as] assms(1) w0(2,3) by auto
  have off: "block_offset w1 \<le> kBlockSize" using end_off_bound [OF a(2)] a(4) by simp
  obtain qss where b: "list_all2 (is_record True) qss bs" "fits (end_off 0 (concat pss)) (concat qss)"
      "dest w2 = layout 0 (concat pss) @ layout (end_off 0 (concat pss)) (concat qss)"
    using string_dest.write_all_layout [OF a(5) off, of bs] assms(2) a(3,4) by auto
  let ?ss = "pss @ qss"
  have recs: "list_all2 (is_record True) ?ss (as @ bs)" using a(1) b(1) by (rule list_all2_appendI)
  have lens: "length pss = length as" "length qss = length bs" using a(1) b(1) by (simp_all add: list_all2_lengthD)
  have fit: "fits 0 (concat ?ss)" using a(2) b(2) by (simp add: fits_append)
  have all: "dest w2 = layout 0 (concat ?ss)" using b(3) by (simp add: layout_append)
  have "length (concat ?ss) \<le> length (dest w2)" unfolding all by (rule length_layout)
  then have fuel: "length ?ss < fuel" "\<forall>ps \<in> set ?ss. length ps \<le> fuel" "0 < fuel"
    using length_records [OF recs] assms(6) by fastforce+
  let ?r = "new_Reader \<lparr>contents = take n (dest w2), force_error = False, returned_partial = False\<rparr> reports"
  have at: "string_source.at_pos ?r 0 (take n (layout 0 (concat ?ss)))"
    by (simp add: string_source.at_pos_def new_Reader_def all)
  obtain k r where k: "k \<le> length (as @ bs)" "read_all fuel fuel env ?r = Some (take k (as @ bs), r)"
      "report_state r = report_state ?r"
      "\<forall>j \<le> length ?ss. length (layout 0 (concat (take j ?ss))) \<le> n \<longrightarrow> j \<le> k"
    using string_source.read_all_layout [OF assms(4,5) recs fit records_good [OF recs fit] at refl fuel] by blast
  have "length as \<le> k" using k(4) [rule_format, of "length pss"] assms(3) a(3) lens by simp
  moreover have "length (dest w2) \<le> n \<longrightarrow> k = length (as @ bs)"
    using k(4) [rule_format, of "length ?ss"] k(1) all lens by auto
  ultimately show ?thesis using k
    by (intro exI [of _ "k - length as"] exI [of _ r]) (auto simp: new_Reader_def)
qed

theorem log_recovery_witness:
  "\<exists>w r. write_all StringDest [[1], []] (new_Writer []) = Some w \<and>
     read_all (length (dest w) + 1) (length (dest w) + 1)
       \<lparr>file_ops = StringSource_ops, reporter = None, checksum = True, initial_offset = 0\<rparr>
       (new_Reader \<lparr>contents = dest w, force_error = False, returned_partial = False\<rparr> ()) = Some ([[1], []], r)"
proof -
  have "block_offset (new_Writer []) \<le> kBlockSize" by (simp add: new_Writer_def)
  then obtain w where w: "write_all StringDest [[1], []] (new_Writer []) = Some w"
    using string_dest.write_all_layout [OF refl, of "[]" "[[1], []]"] by blast
  show ?thesis
    using log_recovery [of "[[1], []]" w "[]" w "length (dest w)"
        "\<lparr>file_ops = StringSource_ops, reporter = None, checksum = True, initial_offset = 0\<rparr>"
        "length (dest w) + 1" "()"] w by auto
qed

text \<open>
  C36: a physical record whose type byte is 5, one more than the largest type, with a valid
  checksum, is taken for the end of the file: \<open>ReadRecord\<close> returns false and reports nothing,
  although \<open>rest\<close> follows in the buffer.
\<close>

theorem log_type_taken_for_eof:
  assumes "buffer r = phys_bytes (5, fr) @ rest" and "length fr < 65536" and "initial_offset env = 0"
  shows "ReadRecord (Suc fuel) env r = Some (None, r\<lparr>buffer := rest\<rparr>) \<and>
    report_state (r\<lparr>buffer := rest\<rparr>) = report_state r"
proof -
  have "\<not> length (buffer r) < kHeaderSize" by (simp add: assms(1))
  then have "ReadPhysicalRecord env [] r = Some (5, fr, r\<lparr>buffer := rest\<rparr>)"
    using parse_physical_complete [OF assms(1) _ assms(3), of "[]"] assms(2)
    by (simp add: ReadPhysicalRecord.simps [of env "[]" r])
  then show ?thesis using assms(3) by (simp add: ReadRecord_def type_values)
qed

theorem log_type_taken_for_eof_witness:
  "ReadRecord 1 \<lparr>file_ops = StringSource_ops, reporter = None, checksum = True, initial_offset = 0\<rparr>
     ((new_Reader \<lparr>contents = [], force_error = False, returned_partial = False\<rparr> ())
       \<lparr>buffer := phys_bytes (5, [1]) @ phys_bytes (1, [2])\<rparr>) =
   Some (None, (new_Reader \<lparr>contents = [], force_error = False, returned_partial = False\<rparr> ())
       \<lparr>buffer := phys_bytes (1, [2])\<rparr>)"
proof -
  let ?r = "(new_Reader \<lparr>contents = [], force_error = False, returned_partial = False\<rparr> ())
       \<lparr>buffer := phys_bytes (5, [1]) @ phys_bytes (1, [2])\<rparr>"
  let ?env = "\<lparr>file_ops = StringSource_ops, reporter = None, checksum = True, initial_offset = 0\<rparr>"
  have "buffer ?r = phys_bytes (5, [1]) @ phys_bytes (1, [2])" "initial_offset ?env = 0" by simp_all
  from log_type_taken_for_eof [OF this(1) _ this(2), of 0] show ?thesis by simp
qed

end
