(* ===== verification/LdbVersionEdit.thy ===== *)
theory LdbVersionEdit
  imports LdbComparator LdbLogging "HOL-Library.Product_Lexorder"
begin

text \<open>
  LevelDB's \<open>db/version_edit.h\<close> and \<open>db/version_edit.cc\<close>: a change of the set of files, with
  the string that the manifest logs for it, and the class \<open>InternalKey\<close> of \<open>db/dbformat.h\<close>
  with the debug strings of \<open>db/dbformat.cc\<close>. \<open>None\<close> is a failing assert. The set of deleted
  files is the sorted list of its elements, in the order its iterator has.

  \<open>DecodeFrom\<close> is shown to restore what \<open>EncodeTo\<close> wrote, except that it keeps the compaction
  pointers that the object had before.
\<close>

section \<open>Internal keys as objects\<close>

type_synonym InternalKey = slice

definition InternalKey_make :: "slice \<Rightarrow> uint64_t \<Rightarrow> ValueType \<Rightarrow> InternalKey option" where
  "InternalKey_make ukey s t = AppendInternalKey [] \<lparr>user_key = ukey, sequence = s, vtype = t\<rparr>"

definition InternalKey_DecodeFrom :: "slice \<Rightarrow> InternalKey" where
  "InternalKey_DecodeFrom s = s"

definition InternalKey_Encode :: "InternalKey \<Rightarrow> slice option" where
  "InternalKey_Encode rep = (if rep \<noteq> [] then Some rep else None)"

definition InternalKey_user_key :: "InternalKey \<Rightarrow> slice option" where
  "InternalKey_user_key rep = ExtractUserKey rep"

definition InternalKey_SetFrom :: "ParsedInternalKey \<Rightarrow> InternalKey option" where
  "InternalKey_SetFrom p = AppendInternalKey [] p"

definition InternalKey_Clear :: InternalKey where
  "InternalKey_Clear = []"

definition ParsedInternalKey_DebugString :: "ParsedInternalKey \<Rightarrow> slice" where
  "ParsedInternalKey_DebugString p =
     [0x27] @ EscapeString (user_key p) @
     [0x27] @ str '' @ '' @ decimal (unat (sequence p)) @ str '' : '' @ decimal (unat (type_code (vtype p)))"

definition InternalKey_DebugString :: "InternalKey \<Rightarrow> slice" where
  "InternalKey_DebugString rep =
     (case ParseInternalKey rep of
        Some parsed \<Rightarrow> ParsedInternalKey_DebugString parsed
      | None \<Rightarrow> str ''(bad)'' @ EscapeString rep)"

section \<open>Edits\<close>

definition kNumLevels :: nat where "kNumLevels = 7"

record FileMetaData =
  file_refs :: int
  allowed_seeks :: int
  file_number :: uint64_t
  file_size :: uint64_t
  smallest :: InternalKey
  largest :: InternalKey

record VersionEdit =
  comparator :: slice
  log_number :: uint64_t
  prev_log_number :: uint64_t
  next_file_number :: uint64_t
  last_sequence :: uint64_t
  has_comparator :: bool
  has_log_number :: bool
  has_prev_log_number :: bool
  has_next_file_number :: bool
  has_last_sequence :: bool
  compact_pointers :: "(int \<times> InternalKey) list"
  deleted_files :: "(int \<times> uint64_t) list"
  new_files :: "(int \<times> FileMetaData) list"

definition new_FileMetaData :: "uint64_t \<Rightarrow> uint64_t \<Rightarrow> InternalKey \<Rightarrow> InternalKey \<Rightarrow> FileMetaData" where
  "new_FileMetaData number sz small large =
     \<lparr>file_refs = 0, allowed_seeks = 2 ^ 30, file_number = number, file_size = sz, smallest = small, largest = large\<rparr>"

definition VersionEdit_Clear :: "VersionEdit \<Rightarrow> VersionEdit" where
  "VersionEdit_Clear e =
     e\<lparr>comparator := [], log_number := 0, prev_log_number := 0, last_sequence := 0, next_file_number := 0,
       has_comparator := False, has_log_number := False, has_prev_log_number := False,
       has_next_file_number := False, has_last_sequence := False,
       deleted_files := [], new_files := []\<rparr>"

text \<open>The constructor: the vectors and the set are empty, the rest is set by \<open>Clear\<close>.\<close>

definition new_VersionEdit :: VersionEdit where
  "new_VersionEdit =
     \<lparr>comparator = [], log_number = 0, prev_log_number = 0, next_file_number = 0, last_sequence = 0,
      has_comparator = False, has_log_number = False, has_prev_log_number = False,
      has_next_file_number = False, has_last_sequence = False,
      compact_pointers = [], deleted_files = [], new_files = []\<rparr>"

definition SetComparatorName :: "slice \<Rightarrow> VersionEdit \<Rightarrow> VersionEdit" where
  "SetComparatorName name e = e\<lparr>has_comparator := True, comparator := name\<rparr>"

definition SetLogNumber :: "uint64_t \<Rightarrow> VersionEdit \<Rightarrow> VersionEdit" where
  "SetLogNumber num e = e\<lparr>has_log_number := True, log_number := num\<rparr>"

definition SetPrevLogNumber :: "uint64_t \<Rightarrow> VersionEdit \<Rightarrow> VersionEdit" where
  "SetPrevLogNumber num e = e\<lparr>has_prev_log_number := True, prev_log_number := num\<rparr>"

definition SetNextFile :: "uint64_t \<Rightarrow> VersionEdit \<Rightarrow> VersionEdit" where
  "SetNextFile num e = e\<lparr>has_next_file_number := True, next_file_number := num\<rparr>"

definition SetLastSequence :: "uint64_t \<Rightarrow> VersionEdit \<Rightarrow> VersionEdit" where
  "SetLastSequence seq e = e\<lparr>has_last_sequence := True, last_sequence := seq\<rparr>"

definition SetCompactPointer :: "int \<Rightarrow> InternalKey \<Rightarrow> VersionEdit \<Rightarrow> VersionEdit" where
  "SetCompactPointer level key e = e\<lparr>compact_pointers := compact_pointers e @ [(level, key)]\<rparr>"

definition AddFile :: "int \<Rightarrow> uint64_t \<Rightarrow> uint64_t \<Rightarrow> InternalKey \<Rightarrow> InternalKey \<Rightarrow> VersionEdit \<Rightarrow> VersionEdit" where
  "AddFile level number sz small large e =
     e\<lparr>new_files := new_files e @ [(level, new_FileMetaData number sz small large)]\<rparr>"

definition VersionEdit_DeleteFile :: "int \<Rightarrow> uint64_t \<Rightarrow> VersionEdit \<Rightarrow> VersionEdit" where
  "VersionEdit_DeleteFile level number e = e\<lparr>deleted_files := insort_insert (level, number) (deleted_files e)\<rparr>"

section \<open>Encoding\<close>

definition kComparator :: uint32_t where "kComparator = 1"
definition kLogNumber :: uint32_t where "kLogNumber = 2"
definition kNextFileNumber :: uint32_t where "kNextFileNumber = 3"
definition kLastSequence :: uint32_t where "kLastSequence = 4"
definition kCompactPointer :: uint32_t where "kCompactPointer = 5"
definition kDeletedFile :: uint32_t where "kDeletedFile = 6"
definition kNewFile :: uint32_t where "kNewFile = 7"
definition kPrevLogNumber :: uint32_t where "kPrevLogNumber = 9"

lemmas tag_defs = kComparator_def kLogNumber_def kNextFileNumber_def kLastSequence_def kCompactPointer_def
  kDeletedFile_def kNewFile_def kPrevLogNumber_def

definition put_number :: "bool \<Rightarrow> uint32_t \<Rightarrow> uint64_t \<Rightarrow> slice \<Rightarrow> slice" where
  "put_number has tag n dst = (if has then PutVarint64 (PutVarint32 dst tag) n else dst)"

fun encode_pointers :: "(int \<times> InternalKey) list \<Rightarrow> slice \<Rightarrow> slice option" where
  "encode_pointers [] dst = Some dst"
| "encode_pointers ((level, key) # ps) dst =
     (case InternalKey_Encode key of None \<Rightarrow> None
      | Some k \<Rightarrow>
          encode_pointers ps (PutLengthPrefixedSlice (PutVarint32 (PutVarint32 dst kCompactPointer) (of_int level)) k))"

fun encode_deleted :: "(int \<times> uint64_t) list \<Rightarrow> slice \<Rightarrow> slice" where
  "encode_deleted [] dst = dst"
| "encode_deleted ((level, number) # ds) dst =
     encode_deleted ds (PutVarint64 (PutVarint32 (PutVarint32 dst kDeletedFile) (of_int level)) number)"

fun encode_files :: "(int \<times> FileMetaData) list \<Rightarrow> slice \<Rightarrow> slice option" where
  "encode_files [] dst = Some dst"
| "encode_files ((level, f) # fs) dst =
     (case (InternalKey_Encode (smallest f), InternalKey_Encode (largest f)) of
        (Some s, Some l) \<Rightarrow>
          let dst = PutVarint32 (PutVarint32 dst kNewFile) (of_int level);
              dst = PutVarint64 (PutVarint64 dst (file_number f)) (file_size f)
          in encode_files fs (PutLengthPrefixedSlice (PutLengthPrefixedSlice dst s) l)
      | _ \<Rightarrow> None)"

definition VersionEdit_EncodeTo :: "VersionEdit \<Rightarrow> slice \<Rightarrow> slice option" where
  "VersionEdit_EncodeTo e dst =
     (let dst = (if has_comparator e then PutLengthPrefixedSlice (PutVarint32 dst kComparator) (comparator e) else dst);
          dst = put_number (has_log_number e) kLogNumber (log_number e) dst;
          dst = put_number (has_prev_log_number e) kPrevLogNumber (prev_log_number e) dst;
          dst = put_number (has_next_file_number e) kNextFileNumber (next_file_number e) dst;
          dst = put_number (has_last_sequence e) kLastSequence (last_sequence e) dst
      in case encode_pointers (compact_pointers e) dst of None \<Rightarrow> None
         | Some dst \<Rightarrow> encode_files (new_files e) (encode_deleted (deleted_files e) dst))"

section \<open>Decoding\<close>

text \<open>The functions on the input return what is left of it.\<close>

definition GetInternalKey :: "slice \<Rightarrow> (InternalKey \<times> slice) option" where
  "GetInternalKey input =
     (case GetLengthPrefixedSlice input of
        Some (s, input) \<Rightarrow> Some (InternalKey_DecodeFrom s, input)
      | None \<Rightarrow> None)"

definition GetLevel :: "slice \<Rightarrow> (int \<times> slice) option" where
  "GetLevel input =
     (case GetVarint32 input of
        Some (v, input) \<Rightarrow> if unat v < kNumLevels then Some (int (unat v), input) else None
      | None \<Rightarrow> None)"

text \<open>One round of the \<open>switch\<close>: the message of an error, or the rest of the input and the edit.\<close>

definition number_field ::
  "slice \<Rightarrow> string \<Rightarrow> (uint64_t \<Rightarrow> VersionEdit) \<Rightarrow> string + slice \<times> VersionEdit" where
  "number_field input msg set_field =
     (case GetVarint64 input of Some (n, input) \<Rightarrow> Inr (input, set_field n) | None \<Rightarrow> Inl msg)"

definition edit_field :: "uint32_t \<Rightarrow> slice \<Rightarrow> VersionEdit \<Rightarrow> string + slice \<times> VersionEdit" where
  "edit_field tag input e =
     (if tag = kComparator then
        (case GetLengthPrefixedSlice input of
           Some (s, input) \<Rightarrow> Inr (input, e\<lparr>comparator := s, has_comparator := True\<rparr>)
         | None \<Rightarrow> Inl ''comparator name'')
      else if tag = kLogNumber then
        number_field input ''log number'' (\<lambda>n. e\<lparr>log_number := n, has_log_number := True\<rparr>)
      else if tag = kPrevLogNumber then
        number_field input ''previous log number'' (\<lambda>n. e\<lparr>prev_log_number := n, has_prev_log_number := True\<rparr>)
      else if tag = kNextFileNumber then
        number_field input ''next file number'' (\<lambda>n. e\<lparr>next_file_number := n, has_next_file_number := True\<rparr>)
      else if tag = kLastSequence then
        number_field input ''last sequence number'' (\<lambda>n. e\<lparr>last_sequence := n, has_last_sequence := True\<rparr>)
      else if tag = kCompactPointer then
        (case Option.bind (GetLevel input) (\<lambda>(level, input).
                map_option (\<lambda>(key, input). (level, key, input)) (GetInternalKey input)) of
           Some (level, key, input) \<Rightarrow> Inr (input, e\<lparr>compact_pointers := compact_pointers e @ [(level, key)]\<rparr>)
         | None \<Rightarrow> Inl ''compaction pointer'')
      else if tag = kDeletedFile then
        (case Option.bind (GetLevel input) (\<lambda>(level, input).
                map_option (\<lambda>(number, input). (level, number, input)) (GetVarint64 input)) of
           Some (level, number, input) \<Rightarrow>
             Inr (input, e\<lparr>deleted_files := insort_insert (level, number) (deleted_files e)\<rparr>)
         | None \<Rightarrow> Inl ''deleted file'')
      else if tag = kNewFile then
        (case Option.bind (GetLevel input) (\<lambda>(level, input).
              Option.bind (GetVarint64 input) (\<lambda>(number, input).
              Option.bind (GetVarint64 input) (\<lambda>(sz, input).
              Option.bind (GetInternalKey input) (\<lambda>(small, input).
              Option.bind (GetInternalKey input) (\<lambda>(large, input).
                Some (level, new_FileMetaData number sz small large, input)))))) of
           Some (level, f, input) \<Rightarrow> Inr (input, e\<lparr>new_files := new_files e @ [(level, f)]\<rparr>)
         | None \<Rightarrow> Inl ''new-file entry'')
      else Inl ''unknown tag'')"

lemma GetInternalKey_shorter: "GetInternalKey p = Some (k, rest) \<Longrightarrow> length rest < length p"
  by (auto simp: GetInternalKey_def split: option.splits dest: GetLengthPrefixedSlice_shorter)

lemma GetLevel_shorter: "GetLevel p = Some (l, rest) \<Longrightarrow> length rest < length p"
  by (auto simp: GetLevel_def split: option.splits if_splits dest: GetVarint_shorter)

lemma edit_field_shorter: "edit_field tag input e = Inr (input', e') \<Longrightarrow> length input' < length input"
  by (auto simp: edit_field_def number_field_def bind_eq_Some_conv split: if_splits option.splits
      dest!: GetInternalKey_shorter GetLevel_shorter GetVarint_shorter GetLengthPrefixedSlice_shorter)

text \<open>The loop: the message, if any, and the edit.\<close>

function decode_edit :: "slice \<Rightarrow> VersionEdit \<Rightarrow> string option \<times> VersionEdit" where
  "decode_edit input e =
     (case GetVarint32 input of
        None \<Rightarrow> (if input = [] then None else Some ''invalid tag'', e)
      | Some (tag, input) \<Rightarrow>
          (case edit_field tag input e of
             Inl msg \<Rightarrow> (Some msg, e)
           | Inr (input, e) \<Rightarrow> decode_edit input e))"
  by pat_completeness auto
termination
  by (relation "measure (\<lambda>(input, e). length input)") (auto dest!: GetVarint_shorter edit_field_shorter)

declare decode_edit.simps [simp del]

definition VersionEdit_DecodeFrom :: "slice \<Rightarrow> VersionEdit \<Rightarrow> Status \<times> VersionEdit" where
  "VersionEdit_DecodeFrom src e =
     (case decode_edit src (VersionEdit_Clear e) of
        (None, e) \<Rightarrow> (Status_OK, e)
      | (Some msg, e) \<Rightarrow> (Corruption (str ''VersionEdit'') (str msg), e))"

section \<open>Printing\<close>

definition debug_number :: "bool \<Rightarrow> string \<Rightarrow> uint64_t \<Rightarrow> slice" where
  "debug_number has label n = (if has then [0x0a] @ str label @ NumberToString n else [])"

definition VersionEdit_DebugString :: "VersionEdit \<Rightarrow> slice" where
  "VersionEdit_DebugString e =
     str ''VersionEdit {'' @
     (if has_comparator e then [0x0a] @ str ''  Comparator: '' @ comparator e else []) @
     debug_number (has_log_number e) ''  LogNumber: '' (log_number e) @
     debug_number (has_prev_log_number e) ''  PrevLogNumber: '' (prev_log_number e) @
     debug_number (has_next_file_number e) ''  NextFile: '' (next_file_number e) @
     debug_number (has_last_sequence e) ''  LastSeq: '' (last_sequence e) @
     concat (map (\<lambda>(level, key). [0x0a] @ str ''  CompactPointer: '' @ NumberToString (of_int level) @
       str '' '' @ InternalKey_DebugString key) (compact_pointers e)) @
     concat (map (\<lambda>(level, number). [0x0a] @ str ''  DeleteFile: '' @ NumberToString (of_int level) @
       str '' '' @ NumberToString number) (deleted_files e)) @
     concat (map (\<lambda>(level, f). [0x0a] @ str ''  AddFile: '' @ NumberToString (of_int level) @
       str '' '' @ NumberToString (file_number f) @ str '' '' @ NumberToString (file_size f) @
       str '' '' @ InternalKey_DebugString (smallest f) @ str '' .. '' @ InternalKey_DebugString (largest f))
       (new_files e)) @
     [0x0a] @ str ''}'' @ [0x0a]"

section \<open>Round trip\<close>

definition key_ok :: "InternalKey \<Rightarrow> bool" where
  "key_ok k \<longleftrightarrow> k \<noteq> [] \<and> length k < 2 ^ 32"

definition level_ok :: "int \<Rightarrow> bool" where
  "level_ok l \<longleftrightarrow> 0 \<le> l \<and> l < int kNumLevels"

text \<open>
  An edit as the setters build it from the new one: what was not set has its default value, levels
  exist, keys are not empty and strings are below 4 GiB.
\<close>

definition edit_ok :: "VersionEdit \<Rightarrow> bool" where
  "edit_ok e \<longleftrightarrow>
     length (comparator e) < 2 ^ 32 \<and> (\<not> has_comparator e \<longrightarrow> comparator e = []) \<and>
     (\<not> has_log_number e \<longrightarrow> log_number e = 0) \<and> (\<not> has_prev_log_number e \<longrightarrow> prev_log_number e = 0) \<and>
     (\<not> has_next_file_number e \<longrightarrow> next_file_number e = 0) \<and> (\<not> has_last_sequence e \<longrightarrow> last_sequence e = 0) \<and>
     (\<forall>(l, k) \<in> set (compact_pointers e). level_ok l \<and> key_ok k) \<and>
     (\<forall>(l, n) \<in> set (deleted_files e). level_ok l) \<and> sorted (deleted_files e) \<and> distinct (deleted_files e) \<and>
     (\<forall>(l, f) \<in> set (new_files e). level_ok l \<and> key_ok (smallest f) \<and> key_ok (largest f) \<and>
        file_refs f = 0 \<and> allowed_seeks f = 2 ^ 30)"

lemma edit_ok_ops:
  "edit_ok new_VersionEdit"
  "edit_ok e \<Longrightarrow> length name < 2 ^ 32 \<Longrightarrow> edit_ok (SetComparatorName name e)"
  "edit_ok e \<Longrightarrow> edit_ok (SetLogNumber num e)"
  "edit_ok e \<Longrightarrow> edit_ok (SetPrevLogNumber num e)"
  "edit_ok e \<Longrightarrow> edit_ok (SetNextFile num e)"
  "edit_ok e \<Longrightarrow> edit_ok (SetLastSequence num e)"
  "edit_ok e \<Longrightarrow> level_ok level \<Longrightarrow> key_ok key \<Longrightarrow> edit_ok (SetCompactPointer level key e)"
  "edit_ok e \<Longrightarrow> level_ok level \<Longrightarrow> key_ok small \<Longrightarrow> key_ok large \<Longrightarrow> edit_ok (AddFile level num sz small large e)"
  "edit_ok e \<Longrightarrow> level_ok level \<Longrightarrow> edit_ok (VersionEdit_DeleteFile level num e)"
  by (auto simp: edit_ok_def new_VersionEdit_def SetComparatorName_def SetLogNumber_def SetPrevLogNumber_def
      SetNextFile_def SetLastSequence_def SetCompactPointer_def AddFile_def VersionEdit_DeleteFile_def
      new_FileMetaData_def set_insort_insert sorted_insort_insert distinct_insort_insert)

lemma GetLevel_written: "level_ok l \<Longrightarrow> GetLevel (EncodeVarint32 (of_int l) @ xs) = Some (l, xs)"
proof -
  assume l: "level_ok l"
  then have "unat (of_int l :: uint32_t) = nat l"
    by (simp add: level_ok_def kNumLevels_def unat_eq_nat_uint uint_word_of_int)
  then show ?thesis using l by (simp add: GetLevel_def GetVarint_written level_ok_def kNumLevels_def nat_less_iff)
qed

definition prefixed :: "slice \<Rightarrow> slice" where
  "prefixed s = PutLengthPrefixedSlice [] s"

lemma GetInternalKey_written:
  "key_ok k \<Longrightarrow> GetInternalKey (prefixed k @ xs) = Some (k, xs)"
  by (simp add: GetInternalKey_def key_ok_def InternalKey_DecodeFrom_def prefixed_def)

lemma decode_edit_field:
  assumes "edit_field tag bs e = Inr (rest, e')"
  shows "decode_edit (EncodeVarint32 tag @ bs) e = decode_edit rest e'"
  by (subst decode_edit.simps) (simp add: GetVarint_written assms)

text \<open>Everything that the encoder does is appending.\<close>

definition number_bytes :: "bool \<Rightarrow> uint32_t \<Rightarrow> uint64_t \<Rightarrow> slice" where
  "number_bytes has tag n = (if has then EncodeVarint32 tag @ EncodeVarint64 n else [])"

lemma Put_bytes: "PutVarint32 a v = a @ EncodeVarint32 v" "PutVarint64 a w = a @ EncodeVarint64 w"
  "PutLengthPrefixedSlice a s = a @ prefixed s" "put_number has tag n a = a @ number_bytes has tag n"
  by (simp_all add: PutVarint32_def PutVarint64_def PutLengthPrefixedSlice_def prefixed_def put_number_def number_bytes_def)

lemma encode_pointers_bytes:
  "\<forall>(l, k) \<in> set ps. level_ok l \<and> key_ok k \<Longrightarrow>
   encode_pointers ps dst = Some (dst @ concat (map (\<lambda>(l, k).
     EncodeVarint32 kCompactPointer @ EncodeVarint32 (of_int l) @ prefixed k) ps))"
proof (induction ps dst rule: encode_pointers.induct)
  case (2 level key ps dst)
  then show ?case
    by (simp add: InternalKey_Encode_def key_ok_def Put_bytes)
qed simp

lemma encode_deleted_bytes:
  "encode_deleted ds dst = dst @ concat (map (\<lambda>(l, n).
     EncodeVarint32 kDeletedFile @ EncodeVarint32 (of_int l) @ EncodeVarint64 n) ds)"
  by (induction ds dst rule: encode_deleted.induct) (simp_all add: Put_bytes)

definition file_bytes :: "int \<times> FileMetaData \<Rightarrow> slice" where
  "file_bytes = (\<lambda>(l, f). EncodeVarint32 kNewFile @ EncodeVarint32 (of_int l) @ EncodeVarint64 (file_number f) @
     EncodeVarint64 (file_size f) @ prefixed (smallest f) @ prefixed (largest f))"

lemma encode_files_bytes:
  "\<forall>(l, f) \<in> set fs. key_ok (smallest f) \<and> key_ok (largest f) \<Longrightarrow>
   encode_files fs dst = Some (dst @ concat (map file_bytes fs))"
proof (induction fs arbitrary: dst)
  case (Cons p fs)
  obtain l f where p: "p = (l, f)" by (cases p)
  show ?case using Cons by (simp add: p Let_def InternalKey_Encode_def key_ok_def Put_bytes file_bytes_def)
qed simp


lemma decode_pointers:
  "\<forall>(l, k) \<in> set ps. level_ok l \<and> key_ok k \<Longrightarrow>
   decode_edit (concat (map (\<lambda>(l, k).
     EncodeVarint32 kCompactPointer @ EncodeVarint32 (of_int l) @ prefixed k) ps) @ rest) e =
   decode_edit rest (e\<lparr>compact_pointers := compact_pointers e @ ps\<rparr>)"
proof (induction ps arbitrary: e)
  case (Cons p ps)
  obtain l k where p: "p = (l, k)" by (cases p)
  have ok: "level_ok l" "key_ok k" using Cons.prems by (auto simp: p)
  have "edit_field kCompactPointer (EncodeVarint32 (of_int l) @ prefixed k @ xs) e =
      Inr (xs, e\<lparr>compact_pointers := compact_pointers e @ [(l, k)]\<rparr>)" for xs
    using ok by (simp add: edit_field_def tag_defs GetLevel_written GetInternalKey_written)
  from decode_edit_field [OF this] Cons show ?case by (simp add: p)
qed simp

lemma insort_insert_last: "sorted (xs @ [x]) \<Longrightarrow> x \<notin> set xs \<Longrightarrow> insort_insert x xs = xs @ [x]"
  by (simp add: insort_insert_insort sorted_append insort_is_Cons sorted_insort_is_snoc)

lemma decode_deleted:
  "\<forall>(l, n) \<in> set ds. level_ok l \<Longrightarrow> sorted (deleted_files e @ ds) \<Longrightarrow> distinct (deleted_files e @ ds) \<Longrightarrow>
   decode_edit (concat (map (\<lambda>(l, n).
     EncodeVarint32 kDeletedFile @ EncodeVarint32 (of_int l) @ EncodeVarint64 n) ds) @ rest) e =
   decode_edit rest (e\<lparr>deleted_files := deleted_files e @ ds\<rparr>)"
proof (induction ds arbitrary: e)
  case (Cons p ds)
  obtain l n where p: "p = (l, n)" by (cases p)
  have ok: "level_ok l" using Cons.prems by (auto simp: p)
  have "sorted (deleted_files e @ [p])" using Cons.prems(2) by (simp add: sorted_append)
  then have i: "insort_insert p (deleted_files e) = deleted_files e @ [p]"
    using Cons.prems(3) by (intro insort_insert_last) auto
  have "edit_field kDeletedFile (EncodeVarint32 (of_int l) @ EncodeVarint64 n @ xs) e =
      Inr (xs, e\<lparr>deleted_files := deleted_files e @ [p]\<rparr>)" for xs
    using ok i by (simp add: edit_field_def tag_defs GetLevel_written GetVarint_written p)
  from decode_edit_field [OF this] Cons show ?case by (simp add: p)
qed simp

lemma decode_files:
  "\<forall>(l, f) \<in> set fs. level_ok l \<and> key_ok (smallest f) \<and> key_ok (largest f) \<and> file_refs f = 0 \<and> allowed_seeks f = 2 ^ 30 \<Longrightarrow>
   decode_edit (concat (map file_bytes fs) @ rest) e = decode_edit rest (e\<lparr>new_files := new_files e @ fs\<rparr>)"
proof (induction fs arbitrary: e)
  case (Cons p fs)
  obtain l f where p: "p = (l, f)" by (cases p)
  have ok: "level_ok l" "key_ok (smallest f)" "key_ok (largest f)" "file_refs f = 0" "allowed_seeks f = 2 ^ 30"
    using Cons.prems by (auto simp: p)
  then have f: "new_FileMetaData (file_number f) (file_size f) (smallest f) (largest f) = f"
    by (simp add: new_FileMetaData_def)
  have "edit_field kNewFile (EncodeVarint32 (of_int l) @ EncodeVarint64 (file_number f) @ EncodeVarint64 (file_size f) @
      prefixed (smallest f) @ prefixed (largest f) @ xs) e =
      Inr (xs, e\<lparr>new_files := new_files e @ [p]\<rparr>)" for xs
    using ok by (simp add: edit_field_def tag_defs GetLevel_written GetVarint_written GetInternalKey_written f p)
  from decode_edit_field [OF this] Cons show ?case by (simp add: p file_bytes_def)
qed simp

text \<open>A numbered field that is set, or has its default.\<close>

lemma decode_number:
  assumes "\<And>xs n. edit_field tag (EncodeVarint64 n @ xs) e = Inr (xs, set_field n)" and "\<not> has \<Longrightarrow> e' = e"
    and "has \<Longrightarrow> e' = set_field n"
  shows "decode_edit (number_bytes has tag n @ rest) e = decode_edit rest e'"
  using decode_edit_field [OF assms(1), of n rest] assms(2,3)
  by (simp add: number_bytes_def)

lemma field_written:
  "edit_field kLogNumber (EncodeVarint64 n @ xs) e = Inr (xs, e\<lparr>log_number := n, has_log_number := True\<rparr>)"
  "edit_field kPrevLogNumber (EncodeVarint64 n @ xs) e = Inr (xs, e\<lparr>prev_log_number := n, has_prev_log_number := True\<rparr>)"
  "edit_field kNextFileNumber (EncodeVarint64 n @ xs) e = Inr (xs, e\<lparr>next_file_number := n, has_next_file_number := True\<rparr>)"
  "edit_field kLastSequence (EncodeVarint64 n @ xs) e = Inr (xs, e\<lparr>last_sequence := n, has_last_sequence := True\<rparr>)"
  "length s < 2 ^ 32 \<Longrightarrow> edit_field kComparator (prefixed s @ xs) e =
     Inr (xs, e\<lparr>comparator := s, has_comparator := True\<rparr>)"
  by (simp_all add: edit_field_def number_field_def tag_defs GetVarint_written prefixed_def)

text \<open>
  C10: version edits. What \<open>EncodeTo\<close> appends for an edit that the setters built, \<open>DecodeFrom\<close>
  reads back without error into any object, with every field, pointer, deleted and new file; only
  the compaction pointers that the object had before stay in front, since \<open>Clear\<close> does not clear
  them. No assert fails.
\<close>

theorem version_edit_roundtrip:
  assumes "edit_ok e"
  shows "\<exists>bs. VersionEdit_EncodeTo e dst = Some (dst @ bs) \<and>
    VersionEdit_DecodeFrom bs e0 = (Status_OK, e\<lparr>compact_pointers := compact_pointers e0 @ compact_pointers e\<rparr>)"
proof -
  let ?comp = "if has_comparator e then EncodeVarint32 kComparator @ prefixed (comparator e) else []"
  let ?ptrs = "concat (map (\<lambda>(l, k).
     EncodeVarint32 kCompactPointer @ EncodeVarint32 (of_int l) @ prefixed k) (compact_pointers e))"
  let ?del = "concat (map (\<lambda>(l, n).
     EncodeVarint32 kDeletedFile @ EncodeVarint32 (of_int l) @ EncodeVarint64 n) (deleted_files e))"
  let ?files = "concat (map file_bytes (new_files e))"
  let ?bs = "?comp @ number_bytes (has_log_number e) kLogNumber (log_number e) @
    number_bytes (has_prev_log_number e) kPrevLogNumber (prev_log_number e) @
    number_bytes (has_next_file_number e) kNextFileNumber (next_file_number e) @
    number_bytes (has_last_sequence e) kLastSequence (last_sequence e) @ ?ptrs @ ?del @ ?files"
  have ok: "\<forall>(l, k) \<in> set (compact_pointers e). level_ok l \<and> key_ok k" "\<forall>(l, n) \<in> set (deleted_files e). level_ok l"
    "\<forall>(l, f) \<in> set (new_files e). level_ok l \<and> key_ok (smallest f) \<and> key_ok (largest f) \<and> file_refs f = 0 \<and> allowed_seeks f = 2 ^ 30"
    "length (comparator e) < 2 ^ 32" "sorted (deleted_files e)" "distinct (deleted_files e)"
    using assms by (simp_all add: edit_ok_def)
  have "\<forall>(l, f) \<in> set (new_files e). key_ok (smallest f) \<and> key_ok (largest f)" using ok(3) by blast
  then have enc: "VersionEdit_EncodeTo e dst = Some (dst @ ?bs)"
    by (simp add: VersionEdit_EncodeTo_def Let_def encode_pointers_bytes [OF ok(1)] encode_deleted_bytes
        encode_files_bytes Put_bytes)
  let ?e1 = "(VersionEdit_Clear e0)\<lparr>comparator := comparator e, has_comparator := has_comparator e\<rparr>"
  let ?e2 = "?e1\<lparr>log_number := log_number e, has_log_number := has_log_number e\<rparr>"
  let ?e3 = "?e2\<lparr>prev_log_number := prev_log_number e, has_prev_log_number := has_prev_log_number e\<rparr>"
  let ?e4 = "?e3\<lparr>next_file_number := next_file_number e, has_next_file_number := has_next_file_number e\<rparr>"
  let ?e5 = "?e4\<lparr>last_sequence := last_sequence e, has_last_sequence := has_last_sequence e\<rparr>"
  let ?e6 = "?e5\<lparr>compact_pointers := compact_pointers e0 @ compact_pointers e\<rparr>"
  let ?e7 = "?e6\<lparr>deleted_files := deleted_files e\<rparr>"
  let ?e8 = "?e7\<lparr>new_files := new_files e\<rparr>"
  have d: "\<not> has_log_number e \<Longrightarrow> log_number e = 0" "\<not> has_prev_log_number e \<Longrightarrow> prev_log_number e = 0"
    "\<not> has_next_file_number e \<Longrightarrow> next_file_number e = 0" "\<not> has_last_sequence e \<Longrightarrow> last_sequence e = 0"
    "\<not> has_comparator e \<Longrightarrow> comparator e = []"
    using assms by (simp_all add: edit_ok_def)
  have "decode_edit (?comp @ rest) (VersionEdit_Clear e0) = decode_edit rest ?e1" for rest
  proof (cases "has_comparator e")
    case True
    then show ?thesis
      using decode_edit_field [OF field_written(5) [OF ok(4)], of rest "VersionEdit_Clear e0"] by simp
  next
    case False
    then have "VersionEdit_Clear e0 = ?e1"
      by (intro VersionEdit.equality) (simp_all add: VersionEdit_Clear_def d)
    then show ?thesis using False by simp
  qed
  moreover have "decode_edit (number_bytes (has_log_number e) kLogNumber (log_number e) @ rest) ?e1 = decode_edit rest ?e2" for rest
    by (rule decode_number, rule field_written(1)) (simp_all add: VersionEdit_Clear_def d)
  moreover have "decode_edit (number_bytes (has_prev_log_number e) kPrevLogNumber (prev_log_number e) @ rest) ?e2 = decode_edit rest ?e3" for rest
    by (rule decode_number, rule field_written(2)) (simp_all add: VersionEdit_Clear_def d)
  moreover have "decode_edit (number_bytes (has_next_file_number e) kNextFileNumber (next_file_number e) @ rest) ?e3 = decode_edit rest ?e4" for rest
    by (rule decode_number, rule field_written(3)) (simp_all add: VersionEdit_Clear_def d)
  moreover have "decode_edit (number_bytes (has_last_sequence e) kLastSequence (last_sequence e) @ rest) ?e4 = decode_edit rest ?e5" for rest
    by (rule decode_number, rule field_written(4)) (simp_all add: VersionEdit_Clear_def d)
  ultimately have "decode_edit ?bs (VersionEdit_Clear e0) = decode_edit (?ptrs @ ?del @ ?files) ?e5"
    by simp
  also have "\<dots> = decode_edit (?del @ ?files) ?e6"
    by (simp add: decode_pointers [OF ok(1)] VersionEdit_Clear_def)
  also have "\<dots> = decode_edit ?files ?e7"
    by (subst decode_deleted [OF ok(2)]) (simp_all add: VersionEdit_Clear_def ok)
  also have "\<dots> = decode_edit [] ?e8"
    using decode_files [OF ok(3), of "[]" ?e7] by (simp add: VersionEdit_Clear_def)
  also have "\<dots> = (None, ?e8)"
    by (subst decode_edit.simps) (simp add: GetVarint32_def GetVarint32Ptr_def GetVarint32PtrFallback_def)
  finally have "decode_edit ?bs (VersionEdit_Clear e0) = (None, ?e8)" .
  moreover have "?e8 = e\<lparr>compact_pointers := compact_pointers e0 @ compact_pointers e\<rparr>" by simp
  ultimately show ?thesis using enc by (auto simp: VersionEdit_DecodeFrom_def)
qed

theorem version_edit_roundtrip_witness:
  "\<exists>bs. VersionEdit_EncodeTo (AddFile 2 17 100 [1] [9] (VersionEdit_DeleteFile 1 5 (VersionEdit_DeleteFile 1 7
      (SetCompactPointer 3 [8] (SetLogNumber 12 new_VersionEdit))))) [] = Some ([] @ bs) \<and>
    VersionEdit_DecodeFrom bs (SetCompactPointer 4 [6] new_VersionEdit) =
      (Status_OK, AddFile 2 17 100 [1] [9] (VersionEdit_DeleteFile 1 5 (VersionEdit_DeleteFile 1 7
        (SetCompactPointer 3 [8] (SetCompactPointer 4 [6] (SetLogNumber 12 new_VersionEdit))))))"
proof -
  let ?e = "AddFile 2 17 100 [1] [9] (VersionEdit_DeleteFile 1 5 (VersionEdit_DeleteFile 1 7
      (SetCompactPointer 3 [8] (SetLogNumber 12 new_VersionEdit))))"
  have ok: "edit_ok ?e" by (intro edit_ok_ops) (simp_all add: level_ok_def kNumLevels_def key_ok_def)
  show ?thesis
    using version_edit_roundtrip [OF ok, of "[]" "SetCompactPointer 4 [6] new_VersionEdit"]
    by (simp add: AddFile_def VersionEdit_DeleteFile_def SetCompactPointer_def SetLogNumber_def new_VersionEdit_def)
qed

text \<open>A decoded edit may hold an empty key, on which \<open>EncodeTo\<close> fails its assert.\<close>

lemma empty_key_decoded:
  "\<exists>e. VersionEdit_DecodeFrom [5, 0, 0] new_VersionEdit = (Status_OK, e) \<and> VersionEdit_EncodeTo e [] = None"
proof -
  have "edit_field kCompactPointer [0, 0] e = Inr ([], e\<lparr>compact_pointers := compact_pointers e @ [(0, [])]\<rparr>)" for e
    using GetLevel_written [of 0 "[0]"]
    by (simp add: edit_field_def tag_defs level_ok_def kNumLevels_def EncodeVarint32_def GetInternalKey_def
        GetLengthPrefixedSlice_def GetVarint32_def GetVarint32Ptr_def InternalKey_DecodeFrom_def)
  from decode_edit_field [OF this] show ?thesis
    by (simp add: VersionEdit_DecodeFrom_def tag_defs EncodeVarint32_def decode_edit.simps [of "[]"] GetVarint32_def
        GetVarint32Ptr_def GetVarint32PtrFallback_def VersionEdit_EncodeTo_def Let_def InternalKey_Encode_def
        VersionEdit_Clear_def new_VersionEdit_def put_number_def)
qed

end
