(* ===== verification/LdbIterator.thy ===== *)
theory LdbIterator
  imports LdbComparator LdbLogging "HOL-Library.Monad_Syntax"
begin

text \<open>
  LevelDB's iterators: the interface of \<open>include/leveldb/iterator.h\<close> as a record of operations on
  a state, the empty iterator of \<open>table/iterator.cc\<close> and the caching \<open>IteratorWrapper\<close> of
  \<open>table/iterator_wrapper.h\<close>. \<open>None\<close> is a failing assert or other undefined behaviour.

  The locale \<open>iterator_contract\<close> has the laws of the interface for a source that is a sorted
  list: an iterator is at a position of the list or invalid. The wrapper keeps them, and so do the
  block, merging and memtable iterators of the theories that follow.
\<close>

section \<open>The interface\<close>

record 's Iterator =
  it_Valid :: "'s \<Rightarrow> bool"
  it_SeekToFirst :: "'s \<Rightarrow> 's option"
  it_SeekToLast :: "'s \<Rightarrow> 's option"
  it_Seek :: "slice \<Rightarrow> 's \<Rightarrow> 's option"
  it_Next :: "'s \<Rightarrow> 's option"
  it_Prev :: "'s \<Rightarrow> 's option"
  it_key :: "'s \<Rightarrow> slice option"
  it_value :: "'s \<Rightarrow> slice option"
  it_status :: "'s \<Rightarrow> Status option"

type_synonym entry = "slice \<times> slice"

text \<open>Position \<open>i\<close> of a list, where it exists, and the first entry at or past a key.\<close>

definition at_pos :: "nat \<Rightarrow> 'a list \<Rightarrow> nat option" where
  "at_pos i xs = (if i < length xs then Some i else None)"

definition last_pos :: "nat \<Rightarrow> nat option" where
  "last_pos n = (if n = 0 then None else Some (n - 1))"

definition lower_bound :: "('k \<Rightarrow> 'k \<Rightarrow> int option) \<Rightarrow> 'k \<Rightarrow> ('k \<times> 'v) list \<Rightarrow> nat" where
  "lower_bound cmp t kvs = length (takeWhile (\<lambda>kv. before cmp (fst kv) t) kvs)"

definition sorted_source :: "('k \<Rightarrow> 'k \<Rightarrow> int option) \<Rightarrow> ('k \<Rightarrow> bool) \<Rightarrow> ('k \<times> 'v) list \<Rightarrow> bool" where
  "sorted_source cmp valid kvs \<longleftrightarrow>
     sorted_wrt (\<lambda>a b. before cmp (fst a) (fst b)) kvs \<and> (\<forall>kv \<in> set kvs. valid (fst kv))"

context key_order
begin

lemma lower_bound_split:
  assumes s: "sorted_source cmp valid kvs" and i: "i < length kvs" and t: "valid t"
  shows "before cmp (fst (kvs ! i)) t \<longleftrightarrow> i < lower_bound cmp t kvs"
proof
  assume b: "before cmp (fst (kvs ! i)) t"
  have "before cmp (fst (kvs ! j)) t" if "j \<le> i" for j
  proof (cases "j = i")
    case False
    then have "before cmp (fst (kvs ! j)) (fst (kvs ! i))" "valid (fst (kvs ! j))" "valid (fst (kvs ! i))"
      using s that i sorted_wrt_iff_nth_less [of _ kvs] by (auto simp: sorted_source_def)
    then show ?thesis using before_trans [OF _ _ t _ b] by blast
  qed (use b in simp)
  then have "\<forall>kv \<in> set (take (Suc i) kvs). before cmp (fst kv) t"
    by (metis in_set_conv_nth length_take less_Suc_eq_le min_less_iff_conj nth_take)
  then have "takeWhile (\<lambda>kv. before cmp (fst kv) t) (take (Suc i) kvs @ drop (Suc i) kvs) =
      take (Suc i) kvs @ takeWhile (\<lambda>kv. before cmp (fst kv) t) (drop (Suc i) kvs)"
    by (intro takeWhile_append2) blast
  then show "i < lower_bound cmp t kvs" using i by (simp add: lower_bound_def)
next
  assume "i < lower_bound cmp t kvs"
  then show "before cmp (fst (kvs ! i)) t"
    unfolding lower_bound_def by (metis nth_mem set_takeWhileD takeWhile_nth)
qed

lemma lower_bound_self:
  assumes s: "sorted_source cmp valid kvs" and i: "i < length kvs"
  shows "lower_bound cmp (fst (kvs ! i)) kvs = i"
proof -
  have v: "valid (fst (kvs ! j))" if "j < length kvs" for j using s that by (simp add: sorted_source_def)
  have b: "before cmp (fst (kvs ! j)) (fst (kvs ! l))" if "j < l" "l < length kvs" for j l
    using s that by (simp add: sorted_source_def sorted_wrt_iff_nth_less)
  have "\<not> before cmp (fst (kvs ! i)) (fst (kvs ! i))"
    using cmp_sym [OF v [OF i] v [OF i]] by (auto simp: before_def sgn_if split: if_splits)
  then have "\<not> i < lower_bound cmp (fst (kvs ! i)) kvs" using lower_bound_split [OF s i v [OF i]] by simp
  moreover have lt: "j < lower_bound cmp (fst (kvs ! i)) kvs" if "j < i" for j
    using lower_bound_split [OF s _ v [OF i], of j] b [OF that i] that i by simp
  have "\<not> lower_bound cmp (fst (kvs ! i)) kvs < i" using lt [of "lower_bound cmp (fst (kvs ! i)) kvs"] by blast
  ultimately show ?thesis by linarith
qed

end

locale iterator_contract = key_order cmp valid
  for cmp :: "slice \<Rightarrow> slice \<Rightarrow> int option" and valid :: "slice \<Rightarrow> bool" +
  fixes ops :: "'s Iterator" and repr :: "'s \<Rightarrow> entry list \<Rightarrow> nat option \<Rightarrow> bool"
  assumes repr_sorted: "repr s kvs p \<Longrightarrow> sorted_source cmp valid kvs"
    and repr_valid: "repr s kvs p \<Longrightarrow> it_Valid ops s \<longleftrightarrow> p \<noteq> None"
    and repr_at: "repr s kvs (Some i) \<Longrightarrow>
      i < length kvs \<and> it_key ops s = Some (fst (kvs ! i)) \<and> it_value ops s = Some (snd (kvs ! i))"
    and repr_status: "repr s kvs p \<Longrightarrow> \<exists>st. it_status ops s = Some st \<and> status_ok st"
    and repr_first: "repr s kvs p \<Longrightarrow> \<exists>s'. it_SeekToFirst ops s = Some s' \<and> repr s' kvs (at_pos 0 kvs)"
    and repr_last: "repr s kvs p \<Longrightarrow> \<exists>s'. it_SeekToLast ops s = Some s' \<and> repr s' kvs (last_pos (length kvs))"
    and repr_seek: "repr s kvs p \<Longrightarrow> valid t \<Longrightarrow>
      \<exists>s'. it_Seek ops t s = Some s' \<and> repr s' kvs (at_pos (lower_bound cmp t kvs) kvs)"
    and repr_next: "repr s kvs (Some i) \<Longrightarrow> \<exists>s'. it_Next ops s = Some s' \<and> repr s' kvs (at_pos (i + 1) kvs)"
    and repr_prev: "repr s kvs (Some i) \<Longrightarrow> \<exists>s'. it_Prev ops s = Some s' \<and> repr s' kvs (last_pos i)"

text \<open>Going over a source with an iterator, for at most \<open>n\<close> entries.\<close>

primrec collect :: "'s Iterator \<Rightarrow> ('s \<Rightarrow> 's option) \<Rightarrow> nat \<Rightarrow> 's \<Rightarrow> entry list option" where
  "collect ops step 0 s = Some []"
| "collect ops step (Suc n) s =
     (if it_Valid ops s then do {
        k \<leftarrow> it_key ops s; v \<leftarrow> it_value ops s; s \<leftarrow> step s;
        kvs \<leftarrow> collect ops step n s;
        Some ((k, v) # kvs)
      }
      else Some [])"

lemma collect_step:
  "collect ops step (Suc n) s = Some kvs \<Longrightarrow> it_Valid ops s \<Longrightarrow>
   \<exists>s' kvs'. step s = Some s' \<and> collect ops step n s' = Some kvs' \<and> length kvs = Suc (length kvs')"
  by (auto simp: bind_eq_Some_conv)

lemma collect_invalid: "\<not> it_Valid ops s \<Longrightarrow> collect ops step n s = Some []"
  by (cases n) simp_all

definition read_all :: "'s Iterator \<Rightarrow> nat \<Rightarrow> 's \<Rightarrow> entry list option" where
  "read_all ops n s = do { s \<leftarrow> it_SeekToFirst ops s; collect ops (it_Next ops) n s }"

text \<open>
  A source seen as a list with a cursor: what each move of an iterator leads to, where it is
  allowed. An iterator is run over a sequence of moves, and its entry is observed after each.
\<close>

datatype move = MoveFirst | MoveLast | MoveSeek slice | MoveNext | MovePrev

fun cursor_move ::
  "(slice \<Rightarrow> slice \<Rightarrow> int option) \<Rightarrow> entry list \<Rightarrow> move \<Rightarrow> nat option \<Rightarrow> nat option option" where
  "cursor_move cmp kvs MoveFirst p = Some (at_pos 0 kvs)"
| "cursor_move cmp kvs MoveLast p = Some (last_pos (length kvs))"
| "cursor_move cmp kvs (MoveSeek t) p = Some (at_pos (lower_bound cmp t kvs) kvs)"
| "cursor_move cmp kvs MoveNext p = map_option (\<lambda>i. at_pos (i + 1) kvs) p"
| "cursor_move cmp kvs MovePrev p = map_option last_pos p"

fun iter_move :: "'s Iterator \<Rightarrow> move \<Rightarrow> 's \<Rightarrow> 's option" where
  "iter_move ops MoveFirst s = it_SeekToFirst ops s"
| "iter_move ops MoveLast s = it_SeekToLast ops s"
| "iter_move ops (MoveSeek t) s = it_Seek ops t s"
| "iter_move ops MoveNext s = it_Next ops s"
| "iter_move ops MovePrev s = it_Prev ops s"

definition observe :: "'s Iterator \<Rightarrow> 's \<Rightarrow> entry option option" where
  "observe ops s =
     (if it_Valid ops s then do { k \<leftarrow> it_key ops s; v \<leftarrow> it_value ops s; Some (Some (k, v)) } else Some None)"

primrec cursor_run ::
  "(slice \<Rightarrow> slice \<Rightarrow> int option) \<Rightarrow> entry list \<Rightarrow> move list \<Rightarrow> nat option \<Rightarrow> entry option list option" where
  "cursor_run cmp kvs [] p = Some []"
| "cursor_run cmp kvs (mv # mvs) p =
     do { p \<leftarrow> cursor_move cmp kvs mv p; os \<leftarrow> cursor_run cmp kvs mvs p; Some (map_option (\<lambda>i. kvs ! i) p # os) }"

primrec iter_run :: "'s Iterator \<Rightarrow> move list \<Rightarrow> 's \<Rightarrow> entry option list option" where
  "iter_run ops [] s = Some []"
| "iter_run ops (mv # mvs) s =
     do { s \<leftarrow> iter_move ops mv s; e \<leftarrow> observe ops s; os \<leftarrow> iter_run ops mvs s; Some (e # os) }"

text \<open>The same, with the state that the iterator is left in.\<close>

primrec iter_walk :: "'s Iterator \<Rightarrow> move list \<Rightarrow> 's \<Rightarrow> (entry option list \<times> 's) option" where
  "iter_walk ops [] s = Some ([], s)"
| "iter_walk ops (mv # mvs) s =
     do { s \<leftarrow> iter_move ops mv s; e \<leftarrow> observe ops s; (os, s) \<leftarrow> iter_walk ops mvs s; Some (e # os, s) }"

fun move_valid :: "(slice \<Rightarrow> bool) \<Rightarrow> move \<Rightarrow> bool" where
  "move_valid valid (MoveSeek t) = valid t"
| "move_valid valid mv = True"

context iterator_contract
begin

lemma collect_next:
  "repr s kvs (at_pos i kvs) \<Longrightarrow> collect ops (it_Next ops) n s = Some (take n (drop i kvs))"
proof (induction n arbitrary: i s)
  case (Suc n)
  show ?case
  proof (cases "i < length kvs")
    case True
    then have r: "repr s kvs (Some i)" using Suc.prems by (simp add: at_pos_def)
    obtain s' where s': "it_Next ops s = Some s'" "repr s' kvs (at_pos (i + 1) kvs)" using repr_next [OF r] by blast
    show ?thesis using repr_at [OF r] repr_valid [OF r] s'(1) Suc.IH [OF s'(2)] True
      by (simp add: Cons_nth_drop_Suc [symmetric])
  next
    case False
    then show ?thesis using repr_valid [OF Suc.prems] by (simp add: at_pos_def)
  qed
qed simp

lemma read_all_repr: "repr s kvs p \<Longrightarrow> read_all ops n s = Some (take n kvs)"
  using repr_first collect_next [of _ kvs 0] by (fastforce simp: read_all_def)

lemma iter_move_repr:
  assumes "repr s kvs p" and "move_valid valid mv" and "cursor_move cmp kvs mv p = Some q"
  shows "\<exists>s'. iter_move ops mv s = Some s' \<and> repr s' kvs q"
  using assms repr_first repr_last repr_seek repr_next repr_prev by (cases mv) auto

lemma observe_repr: "repr s kvs p \<Longrightarrow> observe ops s = Some (map_option (\<lambda>i. kvs ! i) p)"
  using repr_valid [of s kvs p] repr_at [of s kvs] by (cases p) (auto simp: observe_def)

text \<open>An iterator refines the cursor over its list.\<close>

lemma iter_run_repr:
  "repr s kvs p \<Longrightarrow> list_all (move_valid valid) mvs \<Longrightarrow> cursor_run cmp kvs mvs p = Some os \<Longrightarrow> iter_run ops mvs s = Some os"
proof (induction mvs arbitrary: s p os)
  case (Cons mv mvs)
  then obtain q os' where q: "cursor_move cmp kvs mv p = Some q" "cursor_run cmp kvs mvs q = Some os'"
    "os = map_option (\<lambda>i. kvs ! i) q # os'" by (auto simp: bind_eq_Some_conv)
  obtain s' where s': "iter_move ops mv s = Some s'" "repr s' kvs q"
    using iter_move_repr [OF Cons.prems(1) _ q(1)] Cons.prems(2) by auto
  show ?case using Cons.IH [OF s'(2) _ q(2)] Cons.prems(2) s'(1) observe_repr [OF s'(2)] q(3) by simp
qed simp

lemma iter_walk_repr:
  "repr s kvs p \<Longrightarrow> list_all (move_valid valid) mvs \<Longrightarrow> cursor_run cmp kvs mvs p = Some os \<Longrightarrow>
   \<exists>s' q. iter_walk ops mvs s = Some (os, s') \<and> repr s' kvs q"
proof (induction mvs arbitrary: s p os)
  case (Cons mv mvs)
  then obtain q os' where q: "cursor_move cmp kvs mv p = Some q" "cursor_run cmp kvs mvs q = Some os'"
    "os = map_option (\<lambda>i. kvs ! i) q # os'" by (auto simp: bind_eq_Some_conv)
  obtain s' where s': "iter_move ops mv s = Some s'" "repr s' kvs q"
    using iter_move_repr [OF Cons.prems(1) _ q(1)] Cons.prems(2) by auto
  show ?case using Cons.IH [OF s'(2) _ q(2)] Cons.prems(2) s'(1) observe_repr [OF s'(2)] q(3) by auto
qed auto

end

section \<open>Cleanup functions\<close>

text \<open>
  The functions that an iterator calls when it is destroyed, as changes of the state around it: the
  first is kept in the iterator, the others in a list that grows at its front.
\<close>

definition RegisterCleanup :: "'f \<Rightarrow> 'f list \<Rightarrow> 'f list" where
  "RegisterCleanup f cs = (case cs of [] \<Rightarrow> [f] | c # cs \<Rightarrow> c # f # cs)"

definition Iterator_destroy :: "('s \<Rightarrow> 's) list \<Rightarrow> 's \<Rightarrow> 's" where
  "Iterator_destroy cs s = fold (\<lambda>f. f) cs s"

lemma cleanups_registered: "set (RegisterCleanup f cs) = insert f (set cs) \<and> length (RegisterCleanup f cs) = Suc (length cs)"
  by (auto simp: RegisterCleanup_def split: list.splits)

section \<open>The empty iterator\<close>

text \<open>Its state is the status it was made with.\<close>

definition EmptyIterator :: "Status Iterator" where
  "EmptyIterator =
     \<lparr>it_Valid = (\<lambda>s. False), it_SeekToFirst = Some, it_SeekToLast = Some, it_Seek = (\<lambda>t. Some),
      it_Next = (\<lambda>s. None), it_Prev = (\<lambda>s. None), it_key = (\<lambda>s. None), it_value = (\<lambda>s. None),
      it_status = Some\<rparr>"

definition NewEmptyIterator :: Status where
  "NewEmptyIterator = Status_OK"

definition NewErrorIterator :: "Status \<Rightarrow> Status" where
  "NewErrorIterator status = status"

definition empty_repr :: "Status \<Rightarrow> entry list \<Rightarrow> nat option \<Rightarrow> bool" where
  "empty_repr s kvs p \<longleftrightarrow> status_ok s \<and> kvs = [] \<and> p = None"

sublocale comparator_contract \<subseteq> empty_iter: iterator_contract "Compare c" valid EmptyIterator empty_repr
  by unfold_locales (auto simp: empty_repr_def EmptyIterator_def sorted_source_def at_pos_def last_pos_def)

section \<open>The wrapper\<close>

text \<open>It has no iterator at first, and caches what \<open>Valid\<close> and \<open>key\<close> returned last.\<close>

record 's IteratorWrapper =
  w_iter :: "'s option"
  w_valid :: bool
  w_key :: slice

definition wrapper_Update :: "'s Iterator \<Rightarrow> 's \<Rightarrow> 's IteratorWrapper \<Rightarrow> 's IteratorWrapper option" where
  "wrapper_Update ops s w =
     (if it_Valid ops s
      then map_option (\<lambda>k. w\<lparr>w_iter := Some s, w_valid := True, w_key := k\<rparr>) (it_key ops s)
      else Some (w\<lparr>w_iter := Some s, w_valid := False\<rparr>))"

definition wrapper_Set :: "'s Iterator \<Rightarrow> 's option \<Rightarrow> 's IteratorWrapper \<Rightarrow> 's IteratorWrapper option" where
  "wrapper_Set ops it w =
     (case it of None \<Rightarrow> Some (w\<lparr>w_iter := None, w_valid := False\<rparr>) | Some s \<Rightarrow> wrapper_Update ops s w)"

definition new_IteratorWrapper :: "'s IteratorWrapper" where
  "new_IteratorWrapper = \<lparr>w_iter = None, w_valid = False, w_key = []\<rparr>"

definition wrapper_op ::
  "'s Iterator \<Rightarrow> ('s \<Rightarrow> 's option) \<Rightarrow> 's IteratorWrapper \<Rightarrow> 's IteratorWrapper option" where
  "wrapper_op ops f w = do { s \<leftarrow> w_iter w; s \<leftarrow> f s; wrapper_Update ops s w }"

definition IteratorWrapper_ops :: "'s Iterator \<Rightarrow> 's IteratorWrapper Iterator" where
  "IteratorWrapper_ops ops =
     \<lparr>it_Valid = w_valid,
      it_SeekToFirst = wrapper_op ops (it_SeekToFirst ops),
      it_SeekToLast = wrapper_op ops (it_SeekToLast ops),
      it_Seek = (\<lambda>t. wrapper_op ops (it_Seek ops t)),
      it_Next = wrapper_op ops (it_Next ops),
      it_Prev = wrapper_op ops (it_Prev ops),
      it_key = (\<lambda>w. if w_valid w then Some (w_key w) else None),
      it_value = (\<lambda>w. if w_valid w then do { s \<leftarrow> w_iter w; it_value ops s } else None),
      it_status = (\<lambda>w. do { s \<leftarrow> w_iter w; it_status ops s })\<rparr>"

definition wrapper_repr ::
  "('s \<Rightarrow> entry list \<Rightarrow> nat option \<Rightarrow> bool) \<Rightarrow> 's IteratorWrapper \<Rightarrow> entry list \<Rightarrow> nat option \<Rightarrow> bool" where
  "wrapper_repr repr w kvs p \<longleftrightarrow>
     (\<exists>s. w_iter w = Some s \<and> repr s kvs p \<and> w_valid w = (p \<noteq> None) \<and>
        (\<forall>i. p = Some i \<longrightarrow> w_key w = fst (kvs ! i)))"

lemma wrapper_UpdateI:
  assumes "iterator_contract cmp valid ops repr" and "repr s kvs p"
  shows "\<exists>w'. wrapper_Update ops s w = Some w' \<and> wrapper_repr repr w' kvs p"
proof (cases p)
  case None
  then have "\<not> it_Valid ops s" using iterator_contract.repr_valid [OF assms] by simp
  then show ?thesis using assms(2) None by (simp add: wrapper_Update_def wrapper_repr_def)
next
  case (Some i)
  then have "it_Valid ops s" "it_key ops s = Some (fst (kvs ! i))"
    using iterator_contract.repr_valid [OF assms] iterator_contract.repr_at [OF assms(1), of s kvs i] assms(2) by auto
  then show ?thesis using assms(2) Some by (simp add: wrapper_Update_def wrapper_repr_def)
qed

context iterator_contract
begin

lemma wrapper_op_repr:
  assumes "wrapper_repr repr w kvs p" and "\<And>s. repr s kvs p \<Longrightarrow> \<exists>s'. f s = Some s' \<and> repr s' kvs q"
  shows "\<exists>w'. wrapper_op ops f w = Some w' \<and> wrapper_repr repr w' kvs q"
proof -
  obtain s where r: "w_iter w = Some s" "repr s kvs p" using assms(1) by (auto simp: wrapper_repr_def)
  obtain s' where s: "w_iter w = Some s" "f s = Some s'" "repr s' kvs q" using assms(2) [OF r(2)] r(1) by blast
  show ?thesis using wrapper_UpdateI [OF iterator_contract_axioms s(3)] s(1,2) by (simp add: wrapper_op_def)
qed

text \<open>The wrapper of an iterator is one.\<close>

lemma wrapper_contract: "iterator_contract cmp valid (IteratorWrapper_ops ops) (wrapper_repr repr)"
proof unfold_locales
  fix w kvs p assume w: "wrapper_repr repr w kvs p"
  then obtain s where s: "w_iter w = Some s" "repr s kvs p" "w_valid w = (p \<noteq> None)" by (auto simp: wrapper_repr_def)
  show "sorted_source cmp valid kvs" by (rule repr_sorted [OF s(2)])
  show "it_Valid (IteratorWrapper_ops ops) w \<longleftrightarrow> p \<noteq> None" using s(3) by (simp add: IteratorWrapper_ops_def)
  show "\<exists>st. it_status (IteratorWrapper_ops ops) w = Some st \<and> status_ok st"
    using s(1) repr_status [OF s(2)] by (simp add: IteratorWrapper_ops_def)
  show "\<exists>w'. it_SeekToFirst (IteratorWrapper_ops ops) w = Some w' \<and> wrapper_repr repr w' kvs (at_pos 0 kvs)"
    using wrapper_op_repr [OF w repr_first] by (simp add: IteratorWrapper_ops_def)
  show "\<exists>w'. it_SeekToLast (IteratorWrapper_ops ops) w = Some w' \<and> wrapper_repr repr w' kvs (last_pos (length kvs))"
    using wrapper_op_repr [OF w repr_last] by (simp add: IteratorWrapper_ops_def)
  show "\<exists>w'. it_Seek (IteratorWrapper_ops ops) t w = Some w' \<and> wrapper_repr repr w' kvs (at_pos (lower_bound cmp t kvs) kvs)"
    if "valid t" for t
    using wrapper_op_repr [OF w repr_seek [OF _ that]] by (simp add: IteratorWrapper_ops_def)
next
  fix w kvs i assume w: "wrapper_repr repr w kvs (Some i)"
  then obtain s where s: "w_iter w = Some s" "repr s kvs (Some i)" "w_valid w" "w_key w = fst (kvs ! i)"
    by (auto simp: wrapper_repr_def)
  show "i < length kvs \<and> it_key (IteratorWrapper_ops ops) w = Some (fst (kvs ! i)) \<and>
      it_value (IteratorWrapper_ops ops) w = Some (snd (kvs ! i))"
    using s repr_at [OF s(2)] by (simp add: IteratorWrapper_ops_def)
  show "\<exists>w'. it_Next (IteratorWrapper_ops ops) w = Some w' \<and> wrapper_repr repr w' kvs (at_pos (i + 1) kvs)"
    using wrapper_op_repr [OF w repr_next] by (simp add: IteratorWrapper_ops_def)
  show "\<exists>w'. it_Prev (IteratorWrapper_ops ops) w = Some w' \<and> wrapper_repr repr w' kvs (last_pos i)"
    using wrapper_op_repr [OF w repr_prev] by (simp add: IteratorWrapper_ops_def)
qed

end

end
