(* ===== verification/LdbMerger.thy ===== *)
theory LdbMerger
  imports LdbIterator
begin

text \<open>
  The merging iterator of \<open>table/merger.cc\<close>: over the iterators of its children it moves through the
  entries of all of them in the order of the keys, in both directions and with changes of
  direction. \<open>None\<close> is a failing assert.
\<close>

section \<open>The iterator\<close>

text \<open>The current child is its index in the array.\<close>

record 's MergingIterator =
  mi_comparator :: Comparator
  mi_children :: "'s IteratorWrapper list"
  mi_current :: "nat option"
  mi_forward :: bool

primrec for_children :: "('w \<Rightarrow> 'w option) \<Rightarrow> nat list \<Rightarrow> 'w list \<Rightarrow> 'w list option" where
  "for_children f [] ws = Some ws"
| "for_children f (i # js) ws = do { w \<leftarrow> f (ws ! i); for_children f js (ws[i := w]) }"

definition new_MergingIterator :: "'s Iterator \<Rightarrow> Comparator \<Rightarrow> 's list \<Rightarrow> 's MergingIterator option" where
  "new_MergingIterator ops c children =
     map_option (\<lambda>ws. \<lparr>mi_comparator = c, mi_children = ws, mi_current = None, mi_forward = True\<rparr>)
       (those (map (\<lambda>s. wrapper_Set ops (Some s) new_IteratorWrapper) children))"

definition MergingIterator_Valid :: "'s MergingIterator \<Rightarrow> bool" where
  "MergingIterator_Valid m \<longleftrightarrow> mi_current m \<noteq> None"

text \<open>One round of \<open>FindSmallest\<close> and \<open>FindLargest\<close>.\<close>

definition pick_child ::
  "'w Iterator \<Rightarrow> Comparator \<Rightarrow> (int \<Rightarrow> bool) \<Rightarrow> 'w list \<Rightarrow> nat \<Rightarrow> nat option \<Rightarrow> nat option option" where
  "pick_child wops c better ws i best =
     (if it_Valid wops (ws ! i) then
        case best of None \<Rightarrow> Some (Some i)
        | Some b \<Rightarrow> do {
            ki \<leftarrow> it_key wops (ws ! i); kb \<leftarrow> it_key wops (ws ! b);
            r \<leftarrow> Compare c ki kb;
            Some (if better r then Some i else Some b)
          }
      else Some best)"

primrec pick_loop ::
  "'w Iterator \<Rightarrow> Comparator \<Rightarrow> (int \<Rightarrow> bool) \<Rightarrow> 'w list \<Rightarrow> nat list \<Rightarrow> nat option \<Rightarrow> nat option option" where
  "pick_loop wops c better ws [] best = Some best"
| "pick_loop wops c better ws (i # js) best =
     do { best \<leftarrow> pick_child wops c better ws i best; pick_loop wops c better ws js best }"

definition FindSmallest :: "'s Iterator \<Rightarrow> 's MergingIterator \<Rightarrow> 's MergingIterator option" where
  "FindSmallest ops m =
     map_option (\<lambda>b. m\<lparr>mi_current := b\<rparr>)
       (pick_loop (IteratorWrapper_ops ops) (mi_comparator m) (\<lambda>r. r < 0) (mi_children m)
          [0..<length (mi_children m)] None)"

definition FindLargest :: "'s Iterator \<Rightarrow> 's MergingIterator \<Rightarrow> 's MergingIterator option" where
  "FindLargest ops m =
     map_option (\<lambda>b. m\<lparr>mi_current := b\<rparr>)
       (pick_loop (IteratorWrapper_ops ops) (mi_comparator m) (\<lambda>r. r > 0) (mi_children m)
          (rev [0..<length (mi_children m)]) None)"

definition seek_children ::
  "'s Iterator \<Rightarrow> ('s IteratorWrapper \<Rightarrow> 's IteratorWrapper option) \<Rightarrow> 's MergingIterator \<Rightarrow> 's MergingIterator option" where
  "seek_children ops f m =
     map_option (\<lambda>ws. m\<lparr>mi_children := ws\<rparr>) (for_children f [0..<length (mi_children m)] (mi_children m))"

definition MergingIterator_SeekToFirst :: "'s Iterator \<Rightarrow> 's MergingIterator \<Rightarrow> 's MergingIterator option" where
  "MergingIterator_SeekToFirst ops m =
     do { m \<leftarrow> seek_children ops (it_SeekToFirst (IteratorWrapper_ops ops)) m; m \<leftarrow> FindSmallest ops m;
          Some (m\<lparr>mi_forward := True\<rparr>) }"

definition MergingIterator_SeekToLast :: "'s Iterator \<Rightarrow> 's MergingIterator \<Rightarrow> 's MergingIterator option" where
  "MergingIterator_SeekToLast ops m =
     do { m \<leftarrow> seek_children ops (it_SeekToLast (IteratorWrapper_ops ops)) m; m \<leftarrow> FindLargest ops m;
          Some (m\<lparr>mi_forward := False\<rparr>) }"

definition MergingIterator_Seek :: "'s Iterator \<Rightarrow> slice \<Rightarrow> 's MergingIterator \<Rightarrow> 's MergingIterator option" where
  "MergingIterator_Seek ops target m =
     do { m \<leftarrow> seek_children ops (it_Seek (IteratorWrapper_ops ops) target) m; m \<leftarrow> FindSmallest ops m;
          Some (m\<lparr>mi_forward := True\<rparr>) }"

definition MergingIterator_key :: "'s Iterator \<Rightarrow> 's MergingIterator \<Rightarrow> slice option" where
  "MergingIterator_key ops m =
     do { c \<leftarrow> mi_current m; it_key (IteratorWrapper_ops ops) (mi_children m ! c) }"

definition MergingIterator_value :: "'s Iterator \<Rightarrow> 's MergingIterator \<Rightarrow> slice option" where
  "MergingIterator_value ops m =
     do { c \<leftarrow> mi_current m; it_value (IteratorWrapper_ops ops) (mi_children m ! c) }"

text \<open>A child other than the current one when the direction changes.\<close>

definition turn_forward :: "'w Iterator \<Rightarrow> Comparator \<Rightarrow> slice \<Rightarrow> 'w \<Rightarrow> 'w option" where
  "turn_forward wops c k w =
     do {
       w \<leftarrow> it_Seek wops k w;
       if it_Valid wops w then do {
         ck \<leftarrow> it_key wops w;
         r \<leftarrow> Compare c k ck;
         if r = 0 then it_Next wops w else Some w
       }
       else Some w
     }"

definition turn_back :: "'w Iterator \<Rightarrow> slice \<Rightarrow> 'w \<Rightarrow> 'w option" where
  "turn_back wops k w =
     do {
       w \<leftarrow> it_Seek wops k w;
       if it_Valid wops w then it_Prev wops w else it_SeekToLast wops w
     }"

definition turn_children ::
  "('s IteratorWrapper \<Rightarrow> 's IteratorWrapper option) \<Rightarrow> nat \<Rightarrow> 's MergingIterator \<Rightarrow> 's MergingIterator option" where
  "turn_children f c m =
     map_option (\<lambda>ws. m\<lparr>mi_children := ws\<rparr>)
       (for_children f (filter (\<lambda>i. i \<noteq> c) [0..<length (mi_children m)]) (mi_children m))"

definition MergingIterator_Next :: "'s Iterator \<Rightarrow> 's MergingIterator \<Rightarrow> 's MergingIterator option" where
  "MergingIterator_Next ops m =
     do {
       c \<leftarrow> mi_current m;
       m \<leftarrow> (if \<not> mi_forward m then do {
                k \<leftarrow> MergingIterator_key ops m;
                m \<leftarrow> turn_children (turn_forward (IteratorWrapper_ops ops) (mi_comparator m) k) c m;
                Some (m\<lparr>mi_forward := True\<rparr>)
              }
            else Some m);
       w \<leftarrow> it_Next (IteratorWrapper_ops ops) (mi_children m ! c);
       FindSmallest ops (m\<lparr>mi_children := (mi_children m)[c := w]\<rparr>)
     }"

definition MergingIterator_Prev :: "'s Iterator \<Rightarrow> 's MergingIterator \<Rightarrow> 's MergingIterator option" where
  "MergingIterator_Prev ops m =
     do {
       c \<leftarrow> mi_current m;
       m \<leftarrow> (if mi_forward m then do {
                k \<leftarrow> MergingIterator_key ops m;
                m \<leftarrow> turn_children (turn_back (IteratorWrapper_ops ops) k) c m;
                Some (m\<lparr>mi_forward := False\<rparr>)
              }
            else Some m);
       w \<leftarrow> it_Prev (IteratorWrapper_ops ops) (mi_children m ! c);
       FindLargest ops (m\<lparr>mi_children := (mi_children m)[c := w]\<rparr>)
     }"

primrec status_loop :: "'w Iterator \<Rightarrow> 'w list \<Rightarrow> Status \<Rightarrow> Status option" where
  "status_loop wops [] st = Some st"
| "status_loop wops (w # ws) st =
     do { st \<leftarrow> it_status wops w; if status_ok st then status_loop wops ws st else Some st }"

definition MergingIterator_status :: "'s Iterator \<Rightarrow> 's MergingIterator \<Rightarrow> Status option" where
  "MergingIterator_status ops m = status_loop (IteratorWrapper_ops ops) (mi_children m) Status_OK"

definition MergingIterator_ops :: "'s Iterator \<Rightarrow> 's MergingIterator Iterator" where
  "MergingIterator_ops ops =
     \<lparr>it_Valid = MergingIterator_Valid, it_SeekToFirst = MergingIterator_SeekToFirst ops,
      it_SeekToLast = MergingIterator_SeekToLast ops, it_Seek = MergingIterator_Seek ops,
      it_Next = MergingIterator_Next ops, it_Prev = MergingIterator_Prev ops,
      it_key = MergingIterator_key ops, it_value = MergingIterator_value ops,
      it_status = MergingIterator_status ops\<rparr>"

text \<open>\<open>NewMergingIterator\<close> is the empty iterator, the only child, or a merging iterator.\<close>

datatype 's merged = NoChild Status | OneChild 's | Merged "'s MergingIterator"

definition NewMergingIterator :: "'s Iterator \<Rightarrow> Comparator \<Rightarrow> 's list \<Rightarrow> 's merged option" where
  "NewMergingIterator ops c children =
     (case children of [] \<Rightarrow> Some (NoChild NewEmptyIterator)
      | [s] \<Rightarrow> Some (OneChild s)
      | _ \<Rightarrow> map_option Merged (new_MergingIterator ops c children))"

end
