(* ===== verification/LdbBlock.thy ===== *)
theory LdbBlock
  imports LdbIterator
begin

text \<open>
  LevelDB's blocks: \<open>table/block_builder.cc\<close>, which compresses the keys by their common prefix,
  and \<open>table/block.cc\<close>, the iterator that reads them back. \<open>None\<close> is a failing assert or an
  access beyond the block. Offsets and lengths have the 32 bits that the code gives them.
\<close>

section \<open>The builder\<close>

record BlockBuilder =
  bb_interval :: int
  bb_comparator :: Comparator
  bb_buffer :: slice
  bb_restarts :: "uint32_t list"
  bb_counter :: int
  bb_finished :: bool
  bb_last_key :: slice

definition new_BlockBuilder :: "Comparator \<Rightarrow> int \<Rightarrow> BlockBuilder option" where
  "new_BlockBuilder c interval =
     (if interval \<ge> 1 then
        Some \<lparr>bb_interval = interval, bb_comparator = c, bb_buffer = [], bb_restarts = [0], bb_counter = 0,
          bb_finished = False, bb_last_key = []\<rparr>
      else None)"

definition BlockBuilder_Reset :: "BlockBuilder \<Rightarrow> BlockBuilder" where
  "BlockBuilder_Reset b =
     b\<lparr>bb_buffer := [], bb_restarts := [0], bb_counter := 0, bb_finished := False, bb_last_key := []\<rparr>"

definition BlockBuilder_CurrentSizeEstimate :: "BlockBuilder \<Rightarrow> nat" where
  "BlockBuilder_CurrentSizeEstimate b = length (bb_buffer b) + length (bb_restarts b) * 4 + 4"

definition BlockBuilder_empty :: "BlockBuilder \<Rightarrow> bool" where
  "BlockBuilder_empty b \<longleftrightarrow> bb_buffer b = []"

text \<open>The block, and the builder after \<open>Finish\<close>.\<close>

definition BlockBuilder_Finish :: "BlockBuilder \<Rightarrow> slice \<times> BlockBuilder" where
  "BlockBuilder_Finish b =
     (let buffer = fold (\<lambda>r buf. PutFixed32 buf r) (bb_restarts b) (bb_buffer b);
          buffer = PutFixed32 buffer (of_nat (length (bb_restarts b)))
      in (buffer, b\<lparr>bb_buffer := buffer, bb_finished := True\<rparr>))"

definition after :: "(slice \<Rightarrow> slice \<Rightarrow> int option) \<Rightarrow> slice \<Rightarrow> slice \<Rightarrow> bool" where
  "after cmp a b \<longleftrightarrow> (case cmp a b of None \<Rightarrow> False | Some r \<Rightarrow> r > 0)"

text \<open>The loop over the common prefix is that of the bytewise comparator, \<open>diff_loop\<close>.\<close>

definition BlockBuilder_Add :: "slice \<Rightarrow> slice \<Rightarrow> BlockBuilder \<Rightarrow> BlockBuilder option" where
  "BlockBuilder_Add key value b =
     (if bb_finished b \<or> bb_counter b > bb_interval b \<or>
         bb_buffer b \<noteq> [] \<and> \<not> after (Compare (bb_comparator b)) key (bb_last_key b) then None
      else
        let last_key_piece = bb_last_key b;
            (shared, b) =
              (if bb_counter b < bb_interval b
               then (diff_loop 0 (min (length last_key_piece) (length key)) last_key_piece key, b)
               else (0, b\<lparr>bb_restarts := bb_restarts b @ [of_nat (length (bb_buffer b))], bb_counter := 0\<rparr>));
            non_shared = length key - shared;
            buffer = PutVarint32 (PutVarint32 (PutVarint32 (bb_buffer b) (of_nat shared)) (of_nat non_shared))
              (of_nat (length value));
            buffer = buffer @ drop shared key @ value;
            last_key = take shared (bb_last_key b) @ drop shared key
        in if last_key = key
           then Some (b\<lparr>bb_buffer := buffer, bb_last_key := last_key, bb_counter := bb_counter b + 1\<rparr>)
           else None)"

section \<open>Blocks\<close>

record Block =
  block_data :: slice
  block_size :: nat
  block_restart_offset :: uint32_t

definition NumRestarts :: "slice \<Rightarrow> nat \<Rightarrow> uint32_t option" where
  "NumRestarts data sz = (if sz \<ge> 4 then DecodeFixed32 (drop (sz - 4) data) else None)"

text \<open>A block whose size is 0 is marked as bad.\<close>

definition make_Block :: "slice \<Rightarrow> Block option" where
  "make_Block data =
     (let sz = length data
      in if sz < 4 then Some \<lparr>block_data = data, block_size = 0, block_restart_offset = 0\<rparr>
         else do {
           n \<leftarrow> NumRestarts data sz;
           if unat n > (sz - 4) div 4 then Some \<lparr>block_data = data, block_size = 0, block_restart_offset = 0\<rparr>
           else Some \<lparr>block_data = data, block_size = sz,
             block_restart_offset = ucast (of_nat sz - ucast (1 + n) * 4 :: uint64_t)\<rparr>
         })"

text \<open>
  \<open>DecodeEntry\<close> on the bytes from \<open>p\<close> to \<open>limit\<close>: the three lengths and the number of bytes
  before the key delta, \<open>None\<close> for NULL.
\<close>

definition DecodeEntry :: "slice \<Rightarrow> (uint32_t \<times> uint32_t \<times> uint32_t \<times> nat) option" where
  "DecodeEntry p =
     (if length p < 3 then None
      else
        let shared = ucast (p ! 0); non_shared = ucast (p ! 1); value_length = ucast (p ! 2)
        in do {
          (shared, non_shared, value_length, q) \<leftarrow>
            (if shared OR non_shared OR value_length < (128 :: uint32_t)
             then Some (shared, non_shared, value_length, drop 3 p)
             else do {
               (shared, q) \<leftarrow> GetVarint32Ptr p;
               (non_shared, q) \<leftarrow> GetVarint32Ptr q;
               (value_length, q) \<leftarrow> GetVarint32Ptr q;
               Some (shared, non_shared, value_length, q)
             });
          if of_nat (length q) < non_shared + value_length then None
          else Some (shared, non_shared, value_length, length p - length q)
        })"

section \<open>The iterator\<close>

text \<open>The value is an offset in the block and a length, \<open>None\<close> where the slice was cleared.\<close>

record BlockIter =
  bi_comparator :: Comparator
  bi_data :: slice
  bi_restarts :: uint32_t
  bi_num_restarts :: uint32_t
  bi_current :: uint32_t
  bi_restart_index :: uint32_t
  bi_key :: slice
  bi_value :: "(nat \<times> nat) option"
  bi_status :: Status

definition new_BlockIter :: "Comparator \<Rightarrow> slice \<Rightarrow> uint32_t \<Rightarrow> uint32_t \<Rightarrow> BlockIter option" where
  "new_BlockIter c data restarts num_restarts =
     (if num_restarts > 0 then
        Some \<lparr>bi_comparator = c, bi_data = data, bi_restarts = restarts, bi_num_restarts = num_restarts,
          bi_current = restarts, bi_restart_index = num_restarts, bi_key = [], bi_value = None,
          bi_status = Status_OK\<rparr>
      else None)"

definition NextEntryOffset :: "BlockIter \<Rightarrow> uint32_t option" where
  "NextEntryOffset it = map_option (\<lambda>(off, len). of_nat (off + len)) (bi_value it)"

definition GetRestartPoint :: "BlockIter \<Rightarrow> uint32_t \<Rightarrow> uint32_t option" where
  "GetRestartPoint it index =
     (if index < bi_num_restarts it
      then DecodeFixed32 (drop (unat (bi_restarts it) + unat index * 4) (bi_data it)) else None)"

definition SeekToRestartPoint :: "uint32_t \<Rightarrow> BlockIter \<Rightarrow> BlockIter option" where
  "SeekToRestartPoint index it =
     (let it = it\<lparr>bi_key := [], bi_restart_index := index\<rparr>
      in map_option (\<lambda>offset. it\<lparr>bi_value := Some (unat offset, 0)\<rparr>) (GetRestartPoint it index))"

definition BlockIter_Valid :: "BlockIter \<Rightarrow> bool" where
  "BlockIter_Valid it \<longleftrightarrow> bi_current it < bi_restarts it"

definition CorruptionError :: "BlockIter \<Rightarrow> BlockIter" where
  "CorruptionError it =
     it\<lparr>bi_current := bi_restarts it, bi_restart_index := bi_num_restarts it,
       bi_status := Corruption (str ''bad entry in block'') [], bi_key := [], bi_value := None\<rparr>"

function restart_index_loop :: "BlockIter \<Rightarrow> uint32_t \<Rightarrow> uint32_t option" where
  "restart_index_loop it index =
     (if index + 1 < bi_num_restarts it then
        (case GetRestartPoint it (index + 1) of None \<Rightarrow> None
         | Some r \<Rightarrow> if r < bi_current it then restart_index_loop it (index + 1) else Some index)
      else Some index)"
  by pat_completeness auto
termination
proof (relation "measure (\<lambda>(it, index). if index = - 1 then unat (bi_num_restarts it) + 1
    else unat (bi_num_restarts it) - unat index)", goal_cases)
  case (2 it index r)
  show ?case
  proof (cases "index = - 1")
    case True
    then show ?thesis using 2 by (simp add: word_less_nat_alt)
  next
    case False
    then have "unat (index + 1) = unat index + 1" by (metis add.commute add_eq_0_iff unatSuc Suc_eq_plus1)
    moreover have "index + 1 \<noteq> - 1" using 2(1) word_order.extremum [of "bi_num_restarts it"] by force
    ultimately show ?thesis using 2 False by (auto simp: word_less_nat_alt)
  qed
qed simp

declare restart_index_loop.simps [simp del]

definition ParseNextKey :: "BlockIter \<Rightarrow> (bool \<times> BlockIter) option" where
  "ParseNextKey it =
     do {
       current \<leftarrow> NextEntryOffset it;
       let it = it\<lparr>bi_current := current\<rparr>;
       if current \<ge> bi_restarts it then
         Some (False, it\<lparr>bi_current := bi_restarts it, bi_restart_index := bi_num_restarts it\<rparr>)
       else
         (case DecodeEntry (take (unat (bi_restarts it) - unat current) (drop (unat current) (bi_data it))) of
            None \<Rightarrow> Some (False, CorruptionError it)
          | Some (shared, non_shared, value_length, n) \<Rightarrow>
              if length (bi_key it) < unat shared then Some (False, CorruptionError it)
              else
                let p = unat current + n
                in if p + unat non_shared > length (bi_data it) then None
                   else
                     let it = it\<lparr>bi_key := take (unat shared) (bi_key it) @
                           take (unat non_shared) (drop p (bi_data it)),
                         bi_value := Some (p + unat non_shared, unat value_length)\<rparr>
                     in map_option (\<lambda>index. (True, it\<lparr>bi_restart_index := index\<rparr>))
                          (restart_index_loop it (bi_restart_index it)))
     }"

lemma nat32: "n < 4294967296 \<Longrightarrow> unat (of_nat n :: uint32_t) = n"
  by (simp add: unat_of_nat take_bit_nat_eq_self)

text \<open>Each entry that is parsed ends behind the one before, within the block.\<close>

lemma DecodeEntry_bounds:
  assumes "DecodeEntry bs = Some (sh, ns, vl, n)" and "length bs < 4294967296"
  shows "0 < n \<and> n \<le> length bs \<and> unat (ns + vl) \<le> length bs - n"
proof -
  obtain q :: slice where q: "n = length bs - length q" "length q < length bs" "\<not> of_nat (length q) < ns + vl"
  proof (cases "(ucast (bs ! 0) OR ucast (bs ! 1) OR ucast (bs ! 2)) < (128 :: uint32_t)")
    case True
    then show ?thesis using assms(1) that [of "drop 3 bs"]
      by (auto simp: DecodeEntry_def Let_def split: if_splits)
  next
    case False
    then obtain q1 q2 q3 where "GetVarint32Ptr bs = Some (sh, q1)" "GetVarint32Ptr q1 = Some (ns, q2)"
      "GetVarint32Ptr q2 = Some (vl, q3)" "n = length bs - length q3" "\<not> of_nat (length q3) < ns + vl"
      using assms(1) by (auto simp: DecodeEntry_def Let_def bind_eq_Some_conv split: if_splits)
    moreover from this have "length q3 < length bs"
      by (auto simp: GetVarint32Ptr_spec dest!: varint_prefix_shorter)
    ultimately show ?thesis using that by blast
  qed
  then have "unat (ns + vl) \<le> unat (of_nat (length q) :: uint32_t)" by (simp add: word_less_nat_alt)
  also have "\<dots> = length q" using q(2) assms(2) by (simp add: unat_of_nat take_bit_nat_eq_self)
  finally show ?thesis using q(1,2) by simp
qed

lemma ParseNextKey_advances:
  assumes "ParseNextKey it = Some (True, it')" and "NextEntryOffset it = Some a"
  shows "\<exists>b. NextEntryOffset it' = Some b \<and> a < b \<and> b \<le> bi_restarts it \<and>
    bi_restarts it' = bi_restarts it \<and> bi_num_restarts it' = bi_num_restarts it \<and>
    bi_data it' = bi_data it \<and> bi_comparator it' = bi_comparator it"
proof -
  let ?bs = "take (unat (bi_restarts it) - unat a) (drop (unat a) (bi_data it))"
  have a: "a < bi_restarts it" using assms by (auto simp: ParseNextKey_def Let_def split: if_splits)
  then have na: "\<not> bi_restarts it \<le> a" by simp
  then obtain sh ns vl n where d: "DecodeEntry ?bs = Some (sh, ns, vl, n)"
    using assms by (auto simp: ParseNextKey_def Let_def split: option.splits)
  then have it': "bi_value it' = Some (unat a + n + unat ns, unat vl)" "bi_restarts it' = bi_restarts it"
    "bi_num_restarts it' = bi_num_restarts it" "bi_data it' = bi_data it" "bi_comparator it' = bi_comparator it"
    using assms na by (auto simp: ParseNextKey_def Let_def split: if_splits option.splits)
  have r: "unat (bi_restarts it) < 4294967296" using unsigned_less [of "bi_restarts it", where 'a = nat] by simp
  have l: "length ?bs \<le> unat (bi_restarts it) - unat a" by simp
  have b: "0 < n" "n \<le> length ?bs" "unat (ns + vl) \<le> length ?bs - n"
    using DecodeEntry_bounds [OF d] l r by auto
  have e: "unat (ns + vl) \<le> unat (bi_restarts it) - unat a - n" "n \<le> unat (bi_restarts it) - unat a"
    using b l by linarith+
  have "(of_nat (unat a + n + unat ns + unat vl) :: uint32_t) = of_nat (unat a + n + unat (ns + vl))"
    by simp
  moreover have "unat (of_nat (unat a + n + unat (ns + vl)) :: uint32_t) = unat a + n + unat (ns + vl)"
  proof (rule nat32)
    show "unat a + n + unat (ns + vl) < 4294967296" using e r a unfolding word_less_nat_alt by linarith
  qed
  ultimately have "unat (of_nat (unat a + n + unat ns + unat vl) :: uint32_t) = unat a + n + unat (ns + vl)"
    by metis
  then show ?thesis using it' b(1) e a
    by (simp add: NextEntryOffset_def word_less_nat_alt word_le_nat_alt)
qed

text \<open>The loops of the iterator run over the entries, so that they end on every block.\<close>

definition entries_left :: "BlockIter \<Rightarrow> nat" where
  "entries_left it = (case NextEntryOffset it of None \<Rightarrow> 0 | Some a \<Rightarrow> unat (bi_restarts it) - unat a)"

lemma entries_left_less:
  assumes "ParseNextKey it = Some (True, it')"
  shows "entries_left it' < entries_left it"
proof -
  obtain a where a: "NextEntryOffset it = Some a" using assms by (auto simp: ParseNextKey_def bind_eq_Some_conv)
  then obtain b where "NextEntryOffset it' = Some b" "a < b" "b \<le> bi_restarts it" "bi_restarts it' = bi_restarts it"
    using ParseNextKey_advances [OF assms] by blast
  then show ?thesis using a by (auto simp: entries_left_def word_less_nat_alt word_le_nat_alt)
qed

lemma ParseNextKey_same:
  "ParseNextKey it = Some (ok, it') \<Longrightarrow> bi_restarts it' = bi_restarts it \<and> bi_num_restarts it' = bi_num_restarts it \<and>
     bi_data it' = bi_data it \<and> bi_comparator it' = bi_comparator it"
proof -
  assume p: "ParseNextKey it = Some (ok, it')"
  then obtain c where c: "NextEntryOffset it = Some c" by (auto simp: ParseNextKey_def bind_eq_Some_conv)
  show ?thesis
  proof (cases "bi_restarts it \<le> c")
    case True
    then show ?thesis using p c by (auto simp: ParseNextKey_def)
  next
    case False
    then show ?thesis using p c
      by (auto simp: ParseNextKey_def CorruptionError_def Let_def split: option.splits if_splits)
  qed
qed

lemma ParseNextKey_False: "ParseNextKey it = Some (False, it') \<Longrightarrow> \<not> BlockIter_Valid it'"
proof -
  assume p: "ParseNextKey it = Some (False, it')"
  then obtain c where c: "NextEntryOffset it = Some c" by (auto simp: ParseNextKey_def bind_eq_Some_conv)
  show ?thesis
  proof (cases "bi_restarts it \<le> c")
    case True
    then show ?thesis using p c by (auto simp: ParseNextKey_def BlockIter_Valid_def)
  next
    case False
    then show ?thesis using p c
      by (auto simp: ParseNextKey_def CorruptionError_def Let_def BlockIter_Valid_def split: option.splits if_splits)
  qed
qed

definition BlockIter_key :: "BlockIter \<Rightarrow> slice option" where
  "BlockIter_key it = (if BlockIter_Valid it then Some (bi_key it) else None)"

definition BlockIter_value :: "BlockIter \<Rightarrow> slice option" where
  "BlockIter_value it =
     (if BlockIter_Valid it then
        case bi_value it of None \<Rightarrow> None
        | Some (off, len) \<Rightarrow>
            if off + len > length (bi_data it) then None else Some (take len (drop off (bi_data it)))
      else None)"

definition BlockIter_Next :: "BlockIter \<Rightarrow> BlockIter option" where
  "BlockIter_Next it = (if BlockIter_Valid it then map_option snd (ParseNextKey it) else None)"

text \<open>\<open>Prev\<close>: back to a restart point before the entry, \<open>None\<close> in the inner option where there is none.\<close>

function scan_back :: "BlockIter \<Rightarrow> uint32_t \<Rightarrow> uint32_t \<Rightarrow> uint32_t option option" where
  "scan_back it original index =
     (case GetRestartPoint it index of None \<Rightarrow> None
      | Some r \<Rightarrow>
          if r \<ge> original then if index = 0 then Some None else scan_back it original (index - 1)
          else Some (Some index))"
  by pat_completeness auto
termination
  by (relation "measure (\<lambda>(it, original, index). unat index)") (auto simp: unat_minus_one unat_gt_0)

function prev_loop :: "uint32_t \<Rightarrow> BlockIter \<Rightarrow> BlockIter option" where
  "prev_loop original it =
     (case ParseNextKey it of None \<Rightarrow> None
      | Some (ok, it') \<Rightarrow>
          if ok then (case NextEntryOffset it' of None \<Rightarrow> None
            | Some n \<Rightarrow> if n < original then prev_loop original it' else Some it')
          else Some it')"
  by pat_completeness auto
termination
  by (relation "measure (\<lambda>(original, it). entries_left it)") (auto dest: entries_left_less)

definition BlockIter_Prev :: "BlockIter \<Rightarrow> BlockIter option" where
  "BlockIter_Prev it =
     (if BlockIter_Valid it then
        do {
          index \<leftarrow> scan_back it (bi_current it) (bi_restart_index it);
          case index of
            None \<Rightarrow> Some (it\<lparr>bi_current := bi_restarts it, bi_restart_index := bi_num_restarts it\<rparr>)
          | Some index \<Rightarrow> do { it' \<leftarrow> SeekToRestartPoint index it; prev_loop (bi_current it) it' }
        }
      else None)"

text \<open>The binary search: \<open>Inl\<close> where an entry is bad, else the restart point.\<close>

partial_function (option) seek_restart ::
  "BlockIter \<Rightarrow> slice \<Rightarrow> uint32_t \<Rightarrow> uint32_t \<Rightarrow> (unit + uint32_t) option" where
  "seek_restart it target left right =
     (if left < right then
        let mid = (left + right + 1) div 2
        in do {
          region_offset \<leftarrow> GetRestartPoint it mid;
          case DecodeEntry (take (unat (bi_restarts it) - unat region_offset) (drop (unat region_offset) (bi_data it))) of
            None \<Rightarrow> Some (Inl ())
          | Some (shared, non_shared, value_length, n) \<Rightarrow>
              if shared \<noteq> 0 then Some (Inl ())
              else
                let p = unat region_offset + n
                in if p + unat non_shared > length (bi_data it) then None
                   else do {
                     r \<leftarrow> Compare (bi_comparator it) (take (unat non_shared) (drop p (bi_data it))) target;
                     if r < 0 then seek_restart it target mid right
                     else seek_restart it target left (mid - 1)
                   }
        }
      else Some (Inr left))"

function seek_loop :: "slice \<Rightarrow> BlockIter \<Rightarrow> BlockIter option" where
  "seek_loop target it =
     (case ParseNextKey it of None \<Rightarrow> None
      | Some (ok, it') \<Rightarrow>
          if ok then (case Compare (bi_comparator it') (bi_key it') target of None \<Rightarrow> None
            | Some r \<Rightarrow> if r \<ge> 0 then Some it' else seek_loop target it')
          else Some it')"
  by pat_completeness auto
termination
  by (relation "measure (\<lambda>(target, it). entries_left it)") (auto dest: entries_left_less)

declare scan_back.simps [simp del] prev_loop.simps [simp del] seek_loop.simps [simp del]

definition BlockIter_Seek :: "slice \<Rightarrow> BlockIter \<Rightarrow> BlockIter option" where
  "BlockIter_Seek target it =
     do {
       left \<leftarrow> seek_restart it target 0 (bi_num_restarts it - 1);
       case left of Inl _ \<Rightarrow> Some (CorruptionError it)
       | Inr left \<Rightarrow> do { it \<leftarrow> SeekToRestartPoint left it; seek_loop target it }
     }"

definition BlockIter_SeekToFirst :: "BlockIter \<Rightarrow> BlockIter option" where
  "BlockIter_SeekToFirst it = do { it \<leftarrow> SeekToRestartPoint 0 it; map_option snd (ParseNextKey it) }"

text \<open>\<open>SeekToLast\<close> has the loop of \<open>Prev\<close>, up to the restart array.\<close>

definition BlockIter_SeekToLast :: "BlockIter \<Rightarrow> BlockIter option" where
  "BlockIter_SeekToLast it =
     do { it \<leftarrow> SeekToRestartPoint (bi_num_restarts it - 1) it; prev_loop (bi_restarts it) it }"

definition BlockIter_ops :: "BlockIter Iterator" where
  "BlockIter_ops =
     \<lparr>it_Valid = BlockIter_Valid, it_SeekToFirst = BlockIter_SeekToFirst, it_SeekToLast = BlockIter_SeekToLast,
      it_Seek = BlockIter_Seek, it_Next = BlockIter_Next, it_Prev = BlockIter_Prev,
      it_key = BlockIter_key, it_value = BlockIter_value, it_status = (\<lambda>it. Some (bi_status it))\<rparr>"

text \<open>\<open>Block::NewIterator\<close> has an empty iterator with a status, or one over the entries.\<close>

definition Block_NewIterator :: "Comparator \<Rightarrow> Block \<Rightarrow> (Status + BlockIter) option" where
  "Block_NewIterator cmp b =
     (if block_size b < 4 then Some (Inl (NewErrorIterator (Corruption (str ''bad block contents'') [])))
      else do {
        num_restarts \<leftarrow> NumRestarts (block_data b) (block_size b);
        if num_restarts = 0 then Some (Inl NewEmptyIterator)
        else map_option Inr (new_BlockIter cmp (block_data b) (block_restart_offset b) num_restarts)
      })"

end
