(* ===== verification/LdbBlockLayout.thy ===== *)
theory LdbBlockLayout
  imports LdbBlock
begin

text \<open>
  A finished block as the list of its entries: the layout that the builder writes, and the iterator
  that goes over it. The iterator fulfils \<open>iterator_contract\<close> for every comparator that keeps
  \<open>comparator_contract\<close>.
\<close>

section \<open>Single entries\<close>

type_synonym block_entry = "nat \<times> slice \<times> slice"

fun entry_bytes :: "block_entry \<Rightarrow> slice" where
  "entry_bytes (sh, k, v) =
     EncodeVarint32 (of_nat sh) @ EncodeVarint32 (of_nat (length k - sh)) @ EncodeVarint32 (of_nat (length v)) @
     drop sh k @ v"

lemma byte_less_128: "(ucast (b :: pb_byte_t) :: uint32_t) < 128 \<longleftrightarrow> \<not> bit b 7"
proof -
  have "bit b 7 \<longleftrightarrow> bit (unat b) 7" by (simp add: bit_unsigned_iff)
  also have "\<dots> \<longleftrightarrow> odd (unat b div 128)" by (simp add: bit_iff_odd)
  also have "\<dots> \<longleftrightarrow> \<not> unat b < 128"
  proof -
    have "unat b div 128 < 2" using unsigned_less [of b, where 'a = nat] by (simp add: div_less_iff_less_mult)
    then have "unat b div 128 = 0 \<or> unat b div 128 = 1" by linarith
    then show ?thesis by (auto simp: div_eq_0_iff)
  qed
  finally show ?thesis by (simp add: word_less_nat_alt unsigned_ucast_eq take_bit_nat_eq_self
      order.strict_trans [OF unsigned_less [of b, where 'a = nat]])
qed

lemma or_bytes_less_128:
  "((ucast (x :: pb_byte_t) OR ucast (y :: pb_byte_t) OR ucast (z :: pb_byte_t)) < (128 :: uint32_t)) \<longleftrightarrow>
   \<not> bit x 7 \<and> \<not> bit y 7 \<and> \<not> bit z 7"
proof -
  have "(ucast x OR ucast y OR ucast z :: uint32_t) = ucast (x OR y OR z)"
    by (rule bit_word_eqI) (auto simp: bit_simps)
  then show ?thesis by (simp add: byte_less_128 bit_or_iff)
qed

lemma ucast_small: "v < 128 \<Longrightarrow> (ucast (ucast v :: pb_byte_t) :: uint32_t) = v"
proof -
  assume "v < 128"
  then have "take_bit 8 v = v" by (simp add: word_unat_eq_iff unsigned_take_bit_eq take_bit_nat_eq_self word_less_nat_alt)
  moreover have "(ucast (ucast v :: pb_byte_t) :: uint32_t) = take_bit 8 v" by (rule bit_word_eqI) (auto simp: bit_simps)
  ultimately show ?thesis by simp
qed

lemma EncodeVarint32_first:
  "v < 128 \<Longrightarrow> EncodeVarint32 v = [ucast v] \<and> \<not> bit (ucast v :: pb_byte_t) 7"
  "\<not> v < 128 \<Longrightarrow> \<exists>b bs. EncodeVarint32 v = b # bs \<and> bit b 7"
proof -
  show "EncodeVarint32 v = [ucast v] \<and> \<not> bit (ucast v :: pb_byte_t) 7" if "v < 128"
    using that byte_less_128 [of "ucast v"] by (simp add: EncodeVarint32_def ucast_small)
  have "bit (ucast (v OR 128) :: pb_byte_t) 7" by (simp add: bit_simps)
  then show "\<not> v < 128 \<Longrightarrow> \<exists>b bs. EncodeVarint32 v = b # bs \<and> bit b 7"
    by (auto simp: EncodeVarint32_def Let_def)
qed

lemma DecodeEntry_slow:
  assumes "length p \<ge> 3" and "\<not> ((ucast (p ! 0) OR ucast (p ! 1) OR ucast (p ! 2)) < (128 :: uint32_t))"
    and "p = EncodeVarint32 a @ EncodeVarint32 b @ EncodeVarint32 d @ q"
  shows "DecodeEntry p = (if of_nat (length q) < b + d then None else Some (a, b, d, length p - length q))"
  using assms(1,2) by (simp add: DecodeEntry_def Let_def)
    (simp add: assms(3) GetVarint32Ptr_spec varint_prefix_Encode32)

lemma DecodeEntry_written:
  "DecodeEntry (EncodeVarint32 a @ EncodeVarint32 b @ EncodeVarint32 d @ q) =
     (if of_nat (length q) < b + d then None
      else Some (a, b, d, length (EncodeVarint32 a @ EncodeVarint32 b @ EncodeVarint32 d)))"
proof -
  let ?p = "EncodeVarint32 a @ EncodeVarint32 b @ EncodeVarint32 d @ q"
  have ne: "EncodeVarint32 v \<noteq> []" for v by (simp add: EncodeVarint32_def Let_def)
  then have l: "length ?p \<ge> 3"
    by (metis (no_types, lifting) One_nat_def Suc_leI add_mono length_append length_greater_0_conv numeral_3_eq_3 plus_1_eq_Suc trans_le_add1 add.assoc)
  show ?thesis
  proof (cases "a < 128 \<and> b < 128 \<and> d < 128")
    case True
    then have e: "EncodeVarint32 a = [ucast a]" "EncodeVarint32 b = [ucast b]" "EncodeVarint32 d = [ucast d]"
      by (simp_all add: EncodeVarint32_first(1))
    have "(a OR b OR d) < 128"
      using or_bytes_less_128 [of "ucast a" "ucast b" "ucast d"] True EncodeVarint32_first(1) by (simp add: ucast_small)
    then show ?thesis using True by (simp add: e ucast_small DecodeEntry_def Let_def)
  next
    case False
    then have "\<not> ((ucast (?p ! 0) OR ucast (?p ! 1) OR ucast (?p ! 2)) < (128 :: uint32_t))"
    proof (cases "a < 128 \<and> b < 128")
      case True
      then have "EncodeVarint32 a = [ucast a]" "EncodeVarint32 b = [ucast b]" "\<not> d < 128"
        using False EncodeVarint32_first(1) by auto
      then show ?thesis using EncodeVarint32_first(2) [of d] by (auto simp: or_bytes_less_128)
    next
      case ab: False
      show ?thesis
      proof (cases "a < 128")
        case True
        then have "EncodeVarint32 a = [ucast a]" "\<not> b < 128" using ab EncodeVarint32_first(1) by auto
        then show ?thesis using EncodeVarint32_first(2) [of b] by (auto simp: or_bytes_less_128)
      next
        case False
        then show ?thesis using EncodeVarint32_first(2) [of a] by (auto simp: or_bytes_less_128)
      qed
    qed
    from DecodeEntry_slow [OF l this refl] show ?thesis by simp
  qed
qed

section \<open>The layout\<close>

definition ents :: "block_entry list \<Rightarrow> slice" where
  "ents es = concat (map entry_bytes es)"

text \<open>Where entry \<open>i\<close> starts.\<close>

definition off :: "block_entry list \<Rightarrow> nat \<Rightarrow> nat" where
  "off es i = length (ents (take i es))"

text \<open>Each entry shares a prefix with the key before it.\<close>

fun chained :: "slice \<Rightarrow> block_entry list \<Rightarrow> bool" where
  "chained prev [] \<longleftrightarrow> True"
| "chained prev ((sh, k, v) # es) \<longleftrightarrow>
     sh \<le> length k \<and> sh \<le> length prev \<and> take sh k = take sh prev \<and> chained k es"

abbreviation entry_key :: "block_entry \<Rightarrow> slice" where
  "entry_key e \<equiv> fst (snd e)"

abbreviation entry_value :: "block_entry \<Rightarrow> slice" where
  "entry_value e \<equiv> snd (snd e)"

abbreviation to_entries :: "block_entry list \<Rightarrow> entry list" where
  "to_entries es \<equiv> map snd es"

text \<open>The restart points, as indexes of entries that share nothing.\<close>

definition restarts_ok :: "block_entry list \<Rightarrow> nat list \<Rightarrow> bool" where
  "restarts_ok es rs \<longleftrightarrow>
     rs \<noteq> [] \<and> rs ! 0 = 0 \<and> sorted_wrt (<) rs \<and>
     (\<forall>r \<in> set rs. (r < length es \<or> r = 0) \<and> (r < length es \<longrightarrow> fst (es ! r) = 0))"

definition block_bytes :: "block_entry list \<Rightarrow> nat list \<Rightarrow> slice" where
  "block_bytes es rs =
     ents es @ concat (map (\<lambda>r. EncodeFixed32 (of_nat (off es r))) rs) @ EncodeFixed32 (of_nat (length rs))"

definition layout_ok :: "block_entry list \<Rightarrow> nat list \<Rightarrow> bool" where
  "layout_ok es rs \<longleftrightarrow> chained [] es \<and> restarts_ok es rs \<and> length (block_bytes es rs) < 4294967296"

lemma ents_append [simp]: "ents (as @ bs) = ents as @ ents bs"
  by (simp add: ents_def)

lemma ents_simps [simp]: "ents [] = []" "ents (e # es) = entry_bytes e @ ents es"
  by (simp_all add: ents_def)

lemma off_0 [simp]: "off es 0 = 0"
  by (simp add: off_def)

lemma off_all: "length es \<le> i \<Longrightarrow> off es i = length (ents es)"
  by (simp add: off_def)

lemma off_Suc: "i < length es \<Longrightarrow> off es (Suc i) = off es i + length (entry_bytes (es ! i))"
  by (simp add: off_def take_Suc_conv_app_nth)

lemma off_append: "i \<le> length es \<Longrightarrow> off (es @ es') i = off es i"
  by (simp add: off_def)

lemma entry_bytes_pos: "0 < length (entry_bytes e)"
  by (cases e) (simp add: EncodeVarint32_def Let_def)

lemma off_less: "i < j \<Longrightarrow> i < length es \<Longrightarrow> off es i < off es j"
proof (induction j)
  case (Suc j)
  show ?case
  proof (cases "j < length es")
    case True
    then have "off es j < off es (Suc j)" using off_Suc [of j es] entry_bytes_pos [of "es ! j"] by linarith
    then show ?thesis using Suc by (cases "i = j") auto
  next
    case False
    then have "off es (Suc j) = off es j" by (simp add: off_all)
    then show ?thesis using Suc False by auto
  qed
qed simp

lemma off_le: "i \<le> j \<Longrightarrow> off es i \<le> off es j"
  using off_less [of i j es] off_all [of es i] off_all [of es j]
  by (cases "i = j"; cases "i < length es") (auto simp: not_less)

lemma off_less_iff: "i < length es \<Longrightarrow> j \<le> length es \<Longrightarrow> off es i < off es j \<longleftrightarrow> i < j"
  using off_less [of i j es] off_le [of j i es] by force

lemma ents_drop: "i < length es \<Longrightarrow> drop (off es i) (ents es) = entry_bytes (es ! i) @ ents (drop (Suc i) es)"
proof -
  assume i: "i < length es"
  have "ents es = ents (take i es) @ ents (drop i es)" by (metis append_take_drop_id ents_append)
  then have "drop (off es i) (ents es) = ents (drop i es)" by (simp add: off_def)
  then show ?thesis using i by (simp add: Cons_nth_drop_Suc [symmetric])
qed

lemma chained_nth:
  "chained prev es \<Longrightarrow> i < length es \<Longrightarrow>
   fst (es ! i) \<le> length (entry_key (es ! i)) \<and>
   fst (es ! i) \<le> length (if i = 0 then prev else entry_key (es ! (i - 1))) \<and>
   take (fst (es ! i)) (entry_key (es ! i)) = take (fst (es ! i)) (if i = 0 then prev else entry_key (es ! (i - 1)))"
proof (induction prev es arbitrary: i rule: chained.induct)
  case (2 prev sh k v es)
  show ?case
  proof (cases i)
    case 0
    then show ?thesis using 2 by simp
  next
    case (Suc j)
    then show ?thesis using 2(1) [of j] 2(2,3) by (cases j) simp_all
  qed
qed simp

lemma key_le_off: "chained [] es \<Longrightarrow> i < length es \<Longrightarrow> length (entry_key (es ! i)) \<le> off es (Suc i)"
proof (induction i)
  case 0
  obtain sh k v where e: "es ! 0 = (sh, k, v)" by (cases "es ! 0")
  show ?case using 0 chained_nth [OF 0] off_Suc [of 0 es] by (simp add: e)
next
  case (Suc i)
  obtain sh k v where e: "es ! Suc i = (sh, k, v)" by (cases "es ! Suc i")
  have "sh \<le> length (entry_key (es ! i))" "sh \<le> length k" using chained_nth [OF Suc.prems] by (simp_all add: e)
  moreover have "length k - sh \<le> length (entry_bytes (es ! Suc i))" by (simp add: e)
  ultimately show ?case using Suc off_Suc [OF Suc.prems(2)] by (simp add: e)
qed

lemma length_restart_bytes: "length (concat (map (\<lambda>r. EncodeFixed32 (f r)) rs)) = 4 * length rs"
  by (induction rs) simp_all

lemma length_block_bytes: "length (block_bytes es rs) = length (ents es) + 4 * length rs + 4"
  by (simp add: block_bytes_def length_restart_bytes)

lemma drop_restart_bytes:
  "i < length rs \<Longrightarrow> drop (4 * i) (concat (map (\<lambda>r. EncodeFixed32 (f r)) rs)) =
     EncodeFixed32 (f (rs ! i)) @ concat (map (\<lambda>r. EncodeFixed32 (f r)) (drop (Suc i) rs))"
proof (induction rs arbitrary: i)
  case (Cons r rs)
  then show ?case by (cases i) simp_all
qed simp

section \<open>Reading a block\<close>

text \<open>An iterator over a block of this layout; and that it is at an entry.\<close>

definition over_block :: "Comparator \<Rightarrow> block_entry list \<Rightarrow> nat list \<Rightarrow> BlockIter \<Rightarrow> bool" where
  "over_block c es rs it \<longleftrightarrow>
     layout_ok es rs \<and> bi_comparator it = c \<and> bi_data it = block_bytes es rs \<and>
     bi_restarts it = of_nat (length (ents es)) \<and> bi_num_restarts it = of_nat (length rs) \<and>
     bi_status it = Status_OK"

definition at_entry :: "block_entry list \<Rightarrow> nat list \<Rightarrow> nat \<Rightarrow> BlockIter \<Rightarrow> bool" where
  "at_entry es rs i it \<longleftrightarrow>
     i < length es \<and> bi_current it = of_nat (off es i) \<and> bi_key it = entry_key (es ! i) \<and>
     bi_value it = Some (off es (Suc i) - length (entry_value (es ! i)), length (entry_value (es ! i))) \<and>
     (\<exists>j < length rs. bi_restart_index it = of_nat j \<and> rs ! j \<le> i \<and> (j + 1 < length rs \<longrightarrow> i \<le> rs ! (j + 1)))"

definition block_repr ::
  "Comparator \<Rightarrow> (slice \<Rightarrow> bool) \<Rightarrow> BlockIter \<Rightarrow> entry list \<Rightarrow> nat option \<Rightarrow> bool" where
  "block_repr c valid it kvs p \<longleftrightarrow>
     (\<exists>es rs. over_block c es rs it \<and> kvs = to_entries es \<and> sorted_source (Compare c) valid kvs \<and>
        (case p of None \<Rightarrow> \<not> BlockIter_Valid it | Some i \<Rightarrow> at_entry es rs i it))"

lemma layout_bounds:
  assumes "layout_ok es rs"
  shows "length (ents es) < 4294967296" "length rs < 4294967296" "off es i \<le> length (ents es)" "0 < length rs"
proof -
  show "length (ents es) < 4294967296" "length rs < 4294967296"
    using assms by (simp_all add: layout_ok_def length_block_bytes)
  show "off es i \<le> length (ents es)" using off_le [of i "max i (length es)" es] off_all [of es "max i (length es)"] by simp
  show "0 < length rs" using assms by (simp add: layout_ok_def restarts_ok_def)
qed

lemma GetRestartPoint_layout:
  assumes "over_block c es rs it" and "j < length rs"
  shows "GetRestartPoint it (of_nat j) = Some (of_nat (off es (rs ! j)))"
proof -
  have l: "layout_ok es rs" using assms(1) by (simp add: over_block_def)
  note b = layout_bounds [OF l]
  have u: "unat (of_nat j :: uint32_t) = j" "unat (of_nat (length rs) :: uint32_t) = length rs"
    "unat (of_nat (length (ents es)) :: uint32_t) = length (ents es)"
    using b assms(2) by (simp_all add: nat32)
  have "drop (length (ents es) + j * 4) (block_bytes es rs) =
      EncodeFixed32 (of_nat (off es (rs ! j))) @ concat (map (\<lambda>r. EncodeFixed32 (of_nat (off es r))) (drop (Suc j) rs)) @
      EncodeFixed32 (of_nat (length rs))"
    using drop_restart_bytes [OF assms(2), of "\<lambda>r. of_nat (off es r)"] assms(2)
    by (simp add: block_bytes_def length_restart_bytes mult.commute)
  then show ?thesis using assms u
    by (simp add: GetRestartPoint_def over_block_def word_less_nat_alt EncodeFixed32_bytes DecodeFixed32_bytes)
qed

lemma restart_le:
  assumes "restarts_ok es rs" and "j < length rs"
  shows "rs ! j \<le> length es"
proof -
  have "rs ! j \<in> set rs" using assms(2) by simp
  then show ?thesis using assms(1) unfolding restarts_ok_def by fastforce
qed

lemma of_nat_off_less:
  assumes "layout_ok es rs" and "i \<le> length es" and "j \<le> length es"
  shows "(of_nat (off es i) :: uint32_t) < of_nat (off es j) \<longleftrightarrow> i < j"
proof -
  note b = layout_bounds [OF assms(1)]
  have "unat (of_nat (off es k) :: uint32_t) = off es k" for k
    using b(1) b(3) [of k] by (intro nat32) linarith
  moreover have "off es i < off es j \<longleftrightarrow> i < j"
    using off_less [of i j es] off_le [of j i es] assms(2,3) by (cases "i < j") auto
  ultimately show ?thesis by (simp add: word_less_nat_alt)
qed

lemma restart_index_loop_place:
  assumes "over_block c es rs it" and "bi_current it = of_nat (off es i)" and "i \<le> length es"
  shows "j < length rs \<Longrightarrow> rs ! j \<le> i \<Longrightarrow>
    \<exists>j' < length rs. restart_index_loop it (of_nat j) = Some (of_nat j') \<and> rs ! j' \<le> i \<and>
      (j' + 1 < length rs \<longrightarrow> i \<le> rs ! (j' + 1))"
proof (induction "length rs - j" arbitrary: j rule: less_induct)
  case less
  have l: "layout_ok es rs" and num: "bi_num_restarts it = of_nat (length rs)"
    using assms(1) by (simp_all add: over_block_def)
  have u: "unat (of_nat k :: uint32_t) = k" if "k \<le> length rs" for k
    using that layout_bounds(2) [OF l] by (intro nat32) simp
  have s: "(of_nat j + 1 :: uint32_t) = of_nat (j + 1)" by simp
  have c: "of_nat j + 1 < bi_num_restarts it \<longleftrightarrow> j + 1 < length rs"
    unfolding s num word_less_nat_alt using u [of "j + 1"] u [of "length rs"] less.prems(1) by simp
  show ?case
  proof (cases "j + 1 < length rs")
    case False
    then have "restart_index_loop it (of_nat j) = Some (of_nat j)"
      using c by (subst restart_index_loop.simps) simp
    then show ?thesis using less.prems False by blast
  next
    case True
    have le: "rs ! (j + 1) \<le> length es" using restart_le l True by (simp add: layout_ok_def)
    have g: "GetRestartPoint it (of_nat j + 1) = Some (of_nat (off es (rs ! (j + 1))))"
      unfolding s by (rule GetRestartPoint_layout [OF assms(1) True])
    show ?thesis
    proof (cases "rs ! (j + 1) < i")
      case before: True
      then have "restart_index_loop it (of_nat j) = restart_index_loop it (of_nat (j + 1))"
        using c True g of_nat_off_less [OF l le assms(3)] assms(2)
        by (subst restart_index_loop.simps) (simp add: add.commute)
      then show ?thesis using less.hyps [of "j + 1"] True before less.prems(1) by (simp add: add.commute)
    next
      case False
      then have "restart_index_loop it (of_nat j) = Some (of_nat j)"
        using c True g of_nat_off_less [OF l le assms(3)] assms(2) by (subst restart_index_loop.simps) simp
      then show ?thesis using less.prems False by (intro exI [of _ j]) simp
    qed
  qed
qed

lemma entry_parts:
  assumes "i < length es" and "es ! i = (sh, k, v)" and "sh \<le> length k"
  defines "n \<equiv> length (EncodeVarint32 (of_nat sh) @ EncodeVarint32 (of_nat (length k - sh)) @ EncodeVarint32 (of_nat (length v)))"
  shows "off es (Suc i) = off es i + n + (length k - sh) + length v"
    and "drop (off es i + n) (ents es) = drop sh k @ v @ ents (drop (Suc i) es)"
    and "drop (off es i) (ents es) = EncodeVarint32 (of_nat sh) @ EncodeVarint32 (of_nat (length k - sh)) @
      EncodeVarint32 (of_nat (length v)) @ drop sh k @ v @ ents (drop (Suc i) es)"
proof -
  show "off es (Suc i) = off es i + n + (length k - sh) + length v"
    using off_Suc [OF assms(1)] assms(2,3) by (simp add: n_def)
  show d: "drop (off es i) (ents es) = EncodeVarint32 (of_nat sh) @ EncodeVarint32 (of_nat (length k - sh)) @
      EncodeVarint32 (of_nat (length v)) @ drop sh k @ v @ ents (drop (Suc i) es)"
    using ents_drop [OF assms(1)] assms(2) by simp
  have "drop (off es i + n) (ents es) = drop n (drop (off es i) (ents es))" by (simp add: add.commute)
  then show "drop (off es i + n) (ents es) = drop sh k @ v @ ents (drop (Suc i) es)"
    unfolding d by (simp add: n_def)
qed

text \<open>What the iterator reads at an entry.\<close>

lemma DecodeEntry_at:
  assumes o: "over_block c es rs it" and i: "i < length es" and e: "es ! i = (sh, k, v)"
  defines "h \<equiv> length (EncodeVarint32 (of_nat sh) @ EncodeVarint32 (of_nat (length k - sh)) @ EncodeVarint32 (of_nat (length v)))"
  shows "DecodeEntry (take (unat (bi_restarts it) - off es i) (drop (off es i) (bi_data it))) =
      Some (of_nat sh, of_nat (length k - sh), of_nat (length v), h)"
    and "off es (Suc i) = off es i + h + (length k - sh) + length v"
    and "off es (Suc i) \<le> length (bi_data it)"
    and "take (length k - sh) (drop (off es i + h) (bi_data it)) = drop sh k"
    and "take (length v) (drop (off es i + h + (length k - sh)) (bi_data it)) = v"
    and "unat (of_nat (off es i) :: uint32_t) = off es i" "unat (of_nat sh :: uint32_t) = sh"
      "unat (of_nat (length k - sh) :: uint32_t) = length k - sh" "unat (of_nat (length v) :: uint32_t) = length v"
    and "\<not> (of_nat (off es i) :: uint32_t) \<ge> bi_restarts it"
proof -
  have l: "layout_ok es rs" using o by (simp add: over_block_def)
  have sh: "sh \<le> length k" using chained_nth [of "[]" es i] l i by (simp add: layout_ok_def e)
  note parts = entry_parts [OF i e sh, folded h_def]
  note b = layout_bounds [OF l]
  have len: "off es i + h + (length k - sh) + length v \<le> length (ents es)" using parts(1) b(3) [of "Suc i"] by simp
  have u: "unat (of_nat (length (ents es)) :: uint32_t) = length (ents es)"
    "unat (of_nat (length (drop sh k @ v @ ents (drop (Suc i) es))) :: uint32_t) = length (drop sh k @ v @ ents (drop (Suc i) es))"
    "unat (of_nat (length k - sh + length v) :: uint32_t) = length k - sh + length v"
  proof -
    have "length (drop sh k @ v @ ents (drop (Suc i) es)) \<le> length (ents es)"
      unfolding parts(2) [symmetric] by simp
    then show "unat (of_nat (length (drop sh k @ v @ ents (drop (Suc i) es))) :: uint32_t) =
        length (drop sh k @ v @ ents (drop (Suc i) es))"
      by (intro nat32) (rule le_less_trans [OF _ b(1)])
  qed (rule nat32, use b(1) len in linarith)+
  have "length k \<le> off es (Suc i)" using key_le_off [of es i] l i by (simp add: layout_ok_def e)
  then have "sh < 4294967296" using sh b(1) b(3) [of "Suc i"] by linarith
  then show "unat (of_nat sh :: uint32_t) = sh" by (rule nat32)
  show ou: "unat (of_nat (off es i) :: uint32_t) = off es i" "unat (of_nat (length k - sh) :: uint32_t) = length k - sh"
    "unat (of_nat (length v) :: uint32_t) = length v"
    by (rule nat32, use b(1) b(3) [of i] len in linarith)+
  let ?T = "concat (map (\<lambda>r. EncodeFixed32 (of_nat (off es r))) rs) @ EncodeFixed32 (of_nat (length rs))"
  have data: "bi_data it = ents es @ ?T" "bi_restarts it = of_nat (length (ents es))"
    using o by (simp_all add: over_block_def block_bytes_def)
  show "\<not> (of_nat (off es i) :: uint32_t) \<ge> bi_restarts it"
    using off_less [of i "Suc i" es] i b(3) [of "Suc i"] unfolding data word_le_nat_alt u ou by linarith
  have bytes: "take (unat (bi_restarts it) - off es i) (drop (off es i) (bi_data it)) = drop (off es i) (ents es)"
    using b(3) [of i] by (simp add: data u)
  have small: "\<not> (of_nat (length (drop sh k @ v @ ents (drop (Suc i) es))) :: uint32_t) < of_nat (length k - sh) + of_nat (length v)"
    unfolding of_nat_add [symmetric] word_less_nat_alt u by simp
  show "DecodeEntry (take (unat (bi_restarts it) - off es i) (drop (off es i) (bi_data it))) =
      Some (of_nat sh, of_nat (length k - sh), of_nat (length v), h)"
    unfolding bytes parts(3) DecodeEntry_written h_def using small by (simp del: length_append)
  show "off es (Suc i) = off es i + h + (length k - sh) + length v" by (rule parts(1))
  show "off es (Suc i) \<le> length (bi_data it)" using b(3) [of "Suc i"] by (simp add: data)
  have "off es i + h \<le> length (ents es)" using len by simp
  then have d: "drop (off es i + h) (bi_data it) = drop sh k @ v @ ents (drop (Suc i) es) @ ?T"
    by (simp add: data parts(2))
  then show "take (length k - sh) (drop (off es i + h) (bi_data it)) = drop sh k" by simp
  have "drop (off es i + h + (length k - sh)) (bi_data it) = drop (length k - sh) (drop (off es i + h) (bi_data it))"
    by (simp add: add.commute)
  then show "take (length v) (drop (off es i + h + (length k - sh)) (bi_data it)) = v" unfolding d by simp
qed

lemma ParseNextKey_entry:
  assumes o: "over_block c es rs it" and n: "NextEntryOffset it = Some (of_nat (off es i))" and i: "i < length es"
    and k: "fst (es ! i) \<le> length (bi_key it)" "take (fst (es ! i)) (bi_key it) = take (fst (es ! i)) (entry_key (es ! i))"
    and j: "bi_restart_index it = of_nat j" "j < length rs" "rs ! j \<le> i"
  shows "\<exists>it'. ParseNextKey it = Some (True, it') \<and> over_block c es rs it' \<and> at_entry es rs i it'"
proof -
  obtain sh k v where e: "es ! i = (sh, k, v)" by (cases "es ! i")
  define h where "h = length (EncodeVarint32 (of_nat sh) @ EncodeVarint32 (of_nat (length k - sh)) @
    EncodeVarint32 (of_nat (length v)))"
  note d = DecodeEntry_at [OF o i e, folded h_def]
  define it1 where "it1 = it\<lparr>bi_current := of_nat (off es i), bi_key := k, bi_value := Some (off es i + h + (length k - sh), length v)\<rparr>"
  have "over_block c es rs it1" "bi_current it1 = of_nat (off es i)" using o by (simp_all add: it1_def over_block_def)
  then obtain j' where j': "j' < length rs" "restart_index_loop it1 (of_nat j) = Some (of_nat j')" "rs ! j' \<le> i"
    "j' + 1 < length rs \<longrightarrow> i \<le> rs ! (j' + 1)"
    using restart_index_loop_place [OF _ _ less_imp_le [OF i] j(2,3)] by blast
  have key: "take sh (bi_key it) @ drop sh k = k" "\<not> length (bi_key it) < sh"
    using k by (simp_all add: e)
  have "\<not> length (bi_data it) < off es i + h + (length k - sh)" using d(2,3) by linarith
  then have "ParseNextKey it = Some (True, it1\<lparr>bi_restart_index := of_nat j'\<rparr>)"
    using n d(10) key j'(2) j(1)
    by (simp add: ParseNextKey_def Let_def d(1,4,6-9) it1_def)
  moreover have "over_block c es rs (it1\<lparr>bi_restart_index := of_nat j'\<rparr>)"
    using o by (simp add: it1_def over_block_def)
  moreover have "at_entry es rs i (it1\<lparr>bi_restart_index := of_nat j'\<rparr>)"
    using i j' d(2) by (auto simp: at_entry_def it1_def e)
  ultimately show ?thesis by blast
qed

text \<open>The iterator is behind entry \<open>i - 1\<close>, and can parse entry \<open>i\<close>.\<close>

definition ready :: "block_entry list \<Rightarrow> nat list \<Rightarrow> nat \<Rightarrow> BlockIter \<Rightarrow> bool" where
  "ready es rs i it \<longleftrightarrow>
     i \<le> length es \<and> NextEntryOffset it = Some (of_nat (off es i)) \<and>
     (i < length es \<longrightarrow> fst (es ! i) \<le> length (bi_key it) \<and>
        take (fst (es ! i)) (bi_key it) = take (fst (es ! i)) (entry_key (es ! i))) \<and>
     (\<exists>j < length rs. bi_restart_index it = of_nat j \<and> rs ! j \<le> i)"

lemma ParseNextKey_ready:
  "over_block c es rs it \<Longrightarrow> ready es rs i it \<Longrightarrow> i < length es \<Longrightarrow>
     \<exists>it'. ParseNextKey it = Some (True, it') \<and> over_block c es rs it' \<and> at_entry es rs i it'"
  using ParseNextKey_entry unfolding ready_def by blast

lemma ParseNextKey_end:
  "over_block c es rs it \<Longrightarrow> ready es rs (length es) it \<Longrightarrow>
     \<exists>it'. ParseNextKey it = Some (False, it') \<and> over_block c es rs it' \<and> \<not> BlockIter_Valid it'"
  by (auto simp: ready_def off_all over_block_def ParseNextKey_def BlockIter_Valid_def Let_def)

lemma entry_value_le_off: "i < length es \<Longrightarrow> length (entry_value (es ! i)) \<le> off es (Suc i)"
  by (cases "es ! i") (simp add: off_Suc)

lemma at_entry_next:
  assumes "at_entry es rs i it"
  shows "NextEntryOffset it = Some (of_nat (off es (Suc i)))"
  using assms entry_value_le_off [of i es] by (simp add: at_entry_def NextEntryOffset_def)

lemma at_entry_ready:
  assumes "layout_ok es rs" and "at_entry es rs i it"
  shows "ready es rs (Suc i) it"
proof -
  have "Suc i < length es \<longrightarrow> fst (es ! Suc i) \<le> length (bi_key it) \<and>
      take (fst (es ! Suc i)) (bi_key it) = take (fst (es ! Suc i)) (entry_key (es ! Suc i))"
    using chained_nth [of "[]" es "Suc i"] assms by (simp add: layout_ok_def at_entry_def)
  moreover have "\<exists>j < length rs. bi_restart_index it = of_nat j \<and> rs ! j \<le> Suc i" "Suc i \<le> length es"
    using assms(2) by (auto simp: at_entry_def)
  ultimately show ?thesis using at_entry_next [OF assms(2)] by (simp add: ready_def)
qed

lemma at_entry_valid:
  assumes "over_block c es rs it" and "at_entry es rs i it"
  shows "BlockIter_Valid it"
proof -
  have "(of_nat (off es i) :: uint32_t) < of_nat (off es (length es))"
    using assms of_nat_off_less [of es rs i "length es"] by (simp add: over_block_def at_entry_def)
  then show ?thesis using assms by (simp add: BlockIter_Valid_def over_block_def at_entry_def off_all)
qed

lemma restart_entry:
  assumes "layout_ok es rs" and "j < length rs"
  shows "rs ! j < length es \<longrightarrow> fst (es ! (rs ! j)) = 0" "0 < j \<or> es \<noteq> [] \<longrightarrow> rs ! j < length es"
proof -
  have m: "rs ! j \<in> set rs" "sorted_wrt (<) rs" "rs ! 0 = 0"
    using assms by (simp_all add: layout_ok_def restarts_ok_def)
  then show "rs ! j < length es \<longrightarrow> fst (es ! (rs ! j)) = 0" using assms(1) by (simp add: layout_ok_def restarts_ok_def)
  have "0 < j \<longrightarrow> rs ! j \<noteq> 0" using sorted_wrt_nth_less [OF m(2), of 0 j] assms(2) m(3) by auto
  moreover have "rs ! j < length es \<or> rs ! j = 0" using m(1) assms(1) by (simp add: layout_ok_def restarts_ok_def)
  ultimately show "0 < j \<or> es \<noteq> [] \<longrightarrow> rs ! j < length es" by auto
qed

lemma SeekToRestartPoint_ready:
  assumes o: "over_block c es rs it" and j: "j < length rs"
  shows "\<exists>it'. SeekToRestartPoint (of_nat j) it = Some it' \<and> over_block c es rs it' \<and> ready es rs (rs ! j) it'"
proof -
  have l: "layout_ok es rs" using o by (simp add: over_block_def)
  define it1 where "it1 = it\<lparr>bi_key := [], bi_restart_index := of_nat j\<rparr>"
  have o1: "over_block c es rs it1" using o by (simp add: it1_def over_block_def)
  have "rs ! j \<le> length es" using restart_le [of es rs j] l j by (simp add: layout_ok_def)
  then have "ready es rs (rs ! j) (it1\<lparr>bi_value := Some (unat (of_nat (off es (rs ! j)) :: uint32_t), 0)\<rparr>)"
    using j restart_entry(1) [OF l j] by (auto simp: ready_def NextEntryOffset_def it1_def)
  then show ?thesis using GetRestartPoint_layout [OF o1 j] o1
    by (simp add: SeekToRestartPoint_def it1_def over_block_def)
qed

section \<open>Moving over a block\<close>

lemma prev_loop_entry:
  assumes "over_block c es rs it" and "ready es rs i it" and "i < m" and "m \<le> length es"
  shows "\<exists>it'. prev_loop (of_nat (off es m)) it = Some it' \<and> over_block c es rs it' \<and> at_entry es rs (m - 1) it'"
  using assms
proof (induction "m - i" arbitrary: i it rule: less_induct)
  case less
  have l: "layout_ok es rs" using less.prems(1) by (simp add: over_block_def)
  have "i < length es" using less.prems(3,4) by linarith
  then obtain it' where it': "ParseNextKey it = Some (True, it')" "over_block c es rs it'" "at_entry es rs i it'"
    using ParseNextKey_ready [OF less.prems(1,2)] by blast
  have n: "NextEntryOffset it' = Some (of_nat (off es (Suc i)))" by (rule at_entry_next [OF it'(3)])
  have c: "(of_nat (off es (Suc i)) :: uint32_t) < of_nat (off es m) \<longleftrightarrow> Suc i < m"
    using of_nat_off_less [OF l _ less.prems(4), of "Suc i"] less.prems(3,4) by simp
  show ?case
  proof (cases "Suc i < m")
    case True
    then have "prev_loop (of_nat (off es m)) it = prev_loop (of_nat (off es m)) it'"
      using it'(1) n c by (subst prev_loop.simps) simp
    moreover have "m - Suc i < m - i" using less.prems(3) by linarith
    ultimately show ?thesis
      using less.hyps [OF _ it'(2) at_entry_ready [OF l it'(3)] True less.prems(4)] by simp
  next
    case False
    then have "prev_loop (of_nat (off es m)) it = Some it'" using it'(1) n c by (subst prev_loop.simps) simp
    moreover have "m - 1 = i" using False less.prems(3) by linarith
    ultimately show ?thesis using it'(2,3) by simp
  qed
qed

lemma SeekToLast_entry:
  assumes "over_block c es rs it"
  shows "\<exists>it'. BlockIter_SeekToLast it = Some it' \<and> over_block c es rs it' \<and>
    (if es = [] then \<not> BlockIter_Valid it' else at_entry es rs (length es - 1) it')"
proof -
  have l: "layout_ok es rs" using assms by (simp add: over_block_def)
  note b = layout_bounds [OF l]
  have num: "bi_num_restarts it - 1 = of_nat (length rs - 1)"
    using b(4) assms by (simp add: over_block_def of_nat_diff Suc_leI)
  have j: "length rs - 1 < length rs" using b(4) by simp
  obtain it' where it': "SeekToRestartPoint (bi_num_restarts it - 1) it = Some it'" "over_block c es rs it'"
    "ready es rs (rs ! (length rs - 1)) it'"
    using SeekToRestartPoint_ready [OF assms j] unfolding num by blast
  have e: "bi_restarts it' = of_nat (off es (length es))" using it'(2) by (simp add: over_block_def off_all)
  show ?thesis
  proof (cases "es = []")
    case True
    then have "rs ! (length rs - 1) = length es" using it'(3) by (simp add: ready_def)
    then obtain it2 where "ParseNextKey it' = Some (False, it2)" "over_block c es rs it2" "\<not> BlockIter_Valid it2"
      using ParseNextKey_end [OF it'(2)] it'(3) by auto
    then show ?thesis using True it'(1) by (simp add: BlockIter_SeekToLast_def prev_loop.simps)
  next
    case False
    then have "rs ! (length rs - 1) < length es" using restart_entry(2) [OF l j] by simp
    then show ?thesis using prev_loop_entry [OF it'(2,3), of "length es"] it'(1) False e
      by (simp add: BlockIter_SeekToLast_def)
  qed
qed

lemma SeekToFirst_entry:
  assumes "over_block c es rs it"
  shows "\<exists>it'. BlockIter_SeekToFirst it = Some it' \<and> over_block c es rs it' \<and>
    (if es = [] then \<not> BlockIter_Valid it' else at_entry es rs 0 it')"
proof -
  have l: "layout_ok es rs" "rs ! 0 = 0" "0 < length rs"
    using assms by (auto simp: over_block_def layout_ok_def restarts_ok_def)
  obtain it' where it': "SeekToRestartPoint 0 it = Some it'" "over_block c es rs it'" "ready es rs 0 it'"
    using SeekToRestartPoint_ready [OF assms l(3)] l(2) by auto
  show ?thesis
  proof (cases "es = []")
    case True
    then show ?thesis using ParseNextKey_end [OF it'(2)] it'(1,3) by (auto simp: BlockIter_SeekToFirst_def)
  next
    case False
    then show ?thesis using ParseNextKey_ready [OF it'(2,3)] it'(1) by (auto simp: BlockIter_SeekToFirst_def)
  qed
qed

lemma Next_entry:
  assumes "over_block c es rs it" and "at_entry es rs i it"
  shows "\<exists>it'. BlockIter_Next it = Some it' \<and> over_block c es rs it' \<and>
    (if Suc i < length es then at_entry es rs (Suc i) it' else \<not> BlockIter_Valid it')"
proof -
  have r: "ready es rs (Suc i) it" using at_entry_ready [OF _ assms(2)] assms(1) by (simp add: over_block_def)
  show ?thesis
  proof (cases "Suc i < length es")
    case True
    then show ?thesis using ParseNextKey_ready [OF assms(1) r True] at_entry_valid [OF assms] by (auto simp: BlockIter_Next_def)
  next
    case False
    then have "length es = Suc i" using assms(2) by (simp add: at_entry_def)
    then show ?thesis using ParseNextKey_end [OF assms(1)] r at_entry_valid [OF assms] by (auto simp: BlockIter_Next_def)
  qed
qed

lemma scan_back_place:
  assumes "over_block c es rs it" and "i < length es"
  shows "j < length rs \<Longrightarrow> rs ! j \<le> i \<Longrightarrow>
    (if i = 0 then scan_back it (of_nat (off es i)) (of_nat j) = Some None
     else \<exists>j' < length rs. scan_back it (of_nat (off es i)) (of_nat j) = Some (Some (of_nat j')) \<and> rs ! j' < i)"
proof (induction j)
  case 0
  have l: "layout_ok es rs" "rs ! 0 = 0" using assms by (auto simp: over_block_def layout_ok_def restarts_ok_def)
  have g: "GetRestartPoint it 0 = Some (of_nat (off es 0))" using GetRestartPoint_layout [OF assms(1) 0(1)] l(2) by simp
  have c: "(of_nat (off es 0) :: uint32_t) < of_nat (off es i) \<longleftrightarrow> 0 < i"
    using of_nat_off_less [OF l(1), of 0 i] assms(2) by simp
  show ?case
  proof (cases "i = 0")
    case True
    then show ?thesis using g by (subst scan_back.simps) simp
  next
    case False
    then have "\<not> (of_nat (off es i) :: uint32_t) \<le> of_nat (off es 0)" using c by simp
    then have "scan_back it (of_nat (off es i)) (of_nat 0) = Some (Some (of_nat 0))" using g
      by (subst scan_back.simps) (simp del: off_0)
    then show ?thesis using False 0(1) l(2) by (intro if_not_P [THEN iffD2] exI [of _ 0]) auto
  qed
next
  case (Suc j)
  have l: "layout_ok es rs" "sorted_wrt (<) rs" using assms by (auto simp: over_block_def layout_ok_def restarts_ok_def)
  have g: "GetRestartPoint it (of_nat (Suc j)) = Some (of_nat (off es (rs ! Suc j)))"
    by (rule GetRestartPoint_layout [OF assms(1) Suc.prems(1)])
  have c: "(of_nat (off es (rs ! Suc j)) :: uint32_t) < of_nat (off es i) \<longleftrightarrow> rs ! Suc j < i"
    using of_nat_off_less [OF l(1), of "rs ! Suc j" i] assms(2) Suc.prems(2) by simp
  have lt: "rs ! j < rs ! Suc j" using sorted_wrt_nth_less [OF l(2)] Suc.prems(1) by blast
  have i: "i \<noteq> 0" "rs ! j \<le> i" "j < length rs" using lt Suc.prems by linarith+
  show ?case
  proof (cases "rs ! Suc j < i")
    case True
    then have "\<not> (of_nat (off es i) :: uint32_t) \<le> of_nat (off es (rs ! Suc j))" using c by simp
    then have "scan_back it (of_nat (off es i)) (of_nat (Suc j)) = Some (Some (of_nat (Suc j)))"
      using g by (subst scan_back.simps) (simp del: of_nat_Suc)
    then show ?thesis unfolding if_not_P [OF i(1)] using True Suc.prems(1) by blast
  next
    case False
    have z: "(of_nat (Suc j) :: uint32_t) \<noteq> 0"
      using nat32 [of "Suc j"] layout_bounds(2) [OF l(1)] Suc.prems(1) by (metis nat.distinct(1) order.strict_trans unsigned_0)
    have "(of_nat (off es i) :: uint32_t) \<le> of_nat (off es (rs ! Suc j))" using c False by simp
    then have "scan_back it (of_nat (off es i)) (of_nat (Suc j)) = scan_back it (of_nat (off es i)) (of_nat (Suc j) - 1)"
      using g z by (subst scan_back.simps) (simp del: of_nat_Suc)
    then have "scan_back it (of_nat (off es i)) (of_nat (Suc j)) = scan_back it (of_nat (off es i)) (of_nat j)" by simp
    then show ?thesis using Suc.IH [OF i(3,2)] i(1) by simp
  qed
qed

lemma Prev_entry:
  assumes "over_block c es rs it" and "at_entry es rs i it"
  shows "\<exists>it'. BlockIter_Prev it = Some it' \<and> over_block c es rs it' \<and>
    (if i = 0 then \<not> BlockIter_Valid it' else at_entry es rs (i - 1) it')"
proof -
  have i: "i < length es" "bi_current it = of_nat (off es i)" using assms(2) by (simp_all add: at_entry_def)
  obtain j where j: "j < length rs" "bi_restart_index it = of_nat j" "rs ! j \<le> i"
    using assms(2) by (auto simp: at_entry_def)
  note p = scan_back_place [OF assms(1) i(1) j(1,3)] at_entry_valid [OF assms]
  show ?thesis
  proof (cases "i = 0")
    case True
    then show ?thesis using p i j(2) assms(1)
      by (simp add: BlockIter_Prev_def over_block_def BlockIter_Valid_def)
  next
    case False
    then obtain j' where j': "j' < length rs" "scan_back it (of_nat (off es i)) (of_nat j) = Some (Some (of_nat j'))"
      "rs ! j' < i" using p by auto
    obtain it' where it': "SeekToRestartPoint (of_nat j') it = Some it'" "over_block c es rs it'" "ready es rs (rs ! j') it'"
      using SeekToRestartPoint_ready [OF assms(1) j'(1)] by blast
    show ?thesis using prev_loop_entry [OF it'(2,3) j'(3)] i p(2) False j(2) j'(2) it'(1)
      by (simp add: BlockIter_Prev_def)
  qed
qed

lemma block_value:
  assumes "over_block c es rs it" and "at_entry es rs i it"
  shows "BlockIter_value it = Some (entry_value (es ! i))"
proof -
  obtain sh k v where e: "es ! i = (sh, k, v)" by (cases "es ! i")
  have i: "i < length es" using assms(2) by (simp add: at_entry_def)
  note d = DecodeEntry_at [OF assms(1) i e]
  show ?thesis using assms(2) at_entry_valid [OF assms] d(2,3,5)
    by (simp add: at_entry_def BlockIter_value_def e)
qed

section \<open>Searching a block\<close>

context comparator_contract
begin

lemma seek_restart_place:
  assumes o: "over_block c es rs it" and s: "sorted_source (Compare c) valid (to_entries es)" and t: "valid t"
  shows "l \<le> r \<Longrightarrow> r < length rs \<Longrightarrow> l = 0 \<or> before (Compare c) (entry_key (es ! (rs ! l))) t \<Longrightarrow>
    \<exists>l' < length rs. seek_restart it t (of_nat l) (of_nat r) = Some (Inr (of_nat l')) \<and>
      (l' = 0 \<or> before (Compare c) (entry_key (es ! (rs ! l'))) t)"
proof (induction "r - l" arbitrary: l r rule: less_induct)
  case less
  have lay: "layout_ok es rs" and cmp: "bi_comparator it = c" using o by (simp_all add: over_block_def)
  have rs: "4 * length rs < 4294967296" using lay by (simp add: layout_ok_def length_block_bytes)
  have u: "unat (of_nat k :: uint32_t) = k" if "k \<le> l + r + 1" for k
    using that less.prems(1,2) rs by (intro nat32) linarith
  have lt: "(of_nat l :: uint32_t) < of_nat r \<longleftrightarrow> l < r" by (simp add: word_less_nat_alt u)
  show ?case
  proof (cases "l < r")
    case False
    then have "seek_restart it t (of_nat l) (of_nat r) = Some (Inr (of_nat l))" using lt by (simp add: seek_restart.simps)
    then show ?thesis using less.prems by (intro exI [of _ l]) simp
  next
    case True
    define m where "m = (l + r + 1) div 2"
    have m: "l < m" "m \<le> r" using True by (simp_all add: m_def)
    have "(of_nat l + of_nat r + 1 :: uint32_t) = of_nat (l + r + 1)" by simp
    then have mid: "((of_nat l + of_nat r + 1) div 2 :: uint32_t) = of_nat m"
      using u [of "l + r + 1"] by (simp add: m_def word_unat_eq_iff unat_div u [of "(l + r + 1) div 2", simplified])
    have ml: "m < length rs" using m less.prems(2) by linarith
    have i: "rs ! m < length es" "fst (es ! (rs ! m)) = 0" using restart_entry [OF lay ml] m(1) by auto
    have k: "valid (entry_key (es ! (rs ! m)))" using s i(1) by (auto simp: sorted_source_def)
    obtain k0 v0 where e: "es ! (rs ! m) = (0, k0, v0)" using i(2) by (cases "es ! (rs ! m)") simp
    note d = DecodeEntry_at [OF o i(1) e]
    obtain x where x: "Compare c (entry_key (es ! (rs ! m))) t = Some x"
      "before (Compare c) (entry_key (es ! (rs ! m))) t = (x < 0)"
      using ordering.cmp_Some [OF k t] by blast
    have step: "seek_restart it t (of_nat l) (of_nat r) =
        (if x < 0 then seek_restart it t (of_nat m) (of_nat r) else seek_restart it t (of_nat l) (of_nat m - 1))"
      using d lt True mid GetRestartPoint_layout [OF o ml] x(1) cmp
      by (subst seek_restart.simps) (simp add: Let_def e)
    show ?thesis
    proof (cases "x < 0")
      case True
      then show ?thesis using less.hyps [of r m] m less.prems(2) step x(2) by simp
    next
      case False
      have "(of_nat m - 1 :: uint32_t) = of_nat (m - 1)" using m(1) by (simp add: of_nat_diff Suc_leI)
      then show ?thesis using less.hyps [of "m - 1" l] m less.prems step False by simp
    qed
  qed
qed

lemma seek_loop_entry:
  assumes o: "over_block c es rs it" and s: "sorted_source (Compare c) valid (to_entries es)" and t: "valid t"
    and r: "ready es rs i it" and i: "i \<le> lower_bound (Compare c) t (to_entries es)"
  shows "\<exists>it'. seek_loop t it = Some it' \<and> over_block c es rs it' \<and>
    (if lower_bound (Compare c) t (to_entries es) < length es
     then at_entry es rs (lower_bound (Compare c) t (to_entries es)) it' else \<not> BlockIter_Valid it')"
  using o r i
proof (induction "length es - i" arbitrary: i it rule: less_induct)
  case less
  let ?lb = "lower_bound (Compare c) t (to_entries es)"
  have lay: "layout_ok es rs" using o by (simp add: over_block_def)
  have lb: "?lb \<le> length es" using length_takeWhile_le [of _ "to_entries es"] by (simp add: lower_bound_def)
  show ?case
  proof (cases "i < length es")
    case False
    then have e: "i = length es" "?lb = length es" using less.prems(3) lb by linarith+
    obtain it' where "ParseNextKey it = Some (False, it')" "over_block c es rs it'" "\<not> BlockIter_Valid it'"
      using ParseNextKey_end less.prems(1,2) e(1) by blast
    then show ?thesis using e(2) by (simp add: seek_loop.simps)
  next
    case True
    obtain it' where it': "ParseNextKey it = Some (True, it')" "over_block c es rs it'" "at_entry es rs i it'"
      using ParseNextKey_ready [OF less.prems(1,2) True] by blast
    have k: "valid (entry_key (es ! i))" "bi_key it' = entry_key (es ! i)" "bi_comparator it' = c"
      using s True it'(2,3) by (auto simp: sorted_source_def at_entry_def over_block_def)
    obtain x where x: "Compare c (entry_key (es ! i)) t = Some x" "before (Compare c) (entry_key (es ! i)) t = (x < 0)"
      using ordering.cmp_Some [OF k(1) t] by blast
    have b: "x < 0 \<longleftrightarrow> i < ?lb" using ordering.lower_bound_split [OF s _ t, of i] True x(2) by simp
    show ?thesis
    proof (cases "i < ?lb")
      case False
      then have "?lb = i" using less.prems(3) by linarith
      then show ?thesis using it' x(1) k b True by (simp add: seek_loop.simps)
    next
      case lt: True
      then have "seek_loop t it = seek_loop t it'" using it' x(1) k b by (subst seek_loop.simps) simp
      then show ?thesis
        using less.hyps [OF _ it'(2) at_entry_ready [OF lay it'(3)]] True lt by simp
    qed
  qed
qed

lemma Seek_entry:
  assumes o: "over_block c es rs it" and s: "sorted_source (Compare c) valid (to_entries es)" and t: "valid t"
  shows "\<exists>it'. BlockIter_Seek t it = Some it' \<and> over_block c es rs it' \<and>
    (if lower_bound (Compare c) t (to_entries es) < length es
     then at_entry es rs (lower_bound (Compare c) t (to_entries es)) it' else \<not> BlockIter_Valid it')"
proof -
  have lay: "layout_ok es rs" using o by (simp add: over_block_def)
  note b = layout_bounds [OF lay]
  have num: "bi_num_restarts it - 1 = of_nat (length rs - 1)"
    using b(4) o by (simp add: over_block_def of_nat_diff Suc_leI)
  obtain j where j: "j < length rs" "seek_restart it t 0 (of_nat (length rs - 1)) = Some (Inr (of_nat j))"
    "j = 0 \<or> before (Compare c) (entry_key (es ! (rs ! j))) t"
    using seek_restart_place [OF o s t, of 0 "length rs - 1"] b(4) by auto
  obtain it' where it': "SeekToRestartPoint (of_nat j) it = Some it'" "over_block c es rs it'" "ready es rs (rs ! j) it'"
    using SeekToRestartPoint_ready [OF o j(1)] by blast
  have "rs ! j \<le> lower_bound (Compare c) t (to_entries es)"
  proof (cases "j = 0")
    case True
    then show ?thesis using lay by (simp add: layout_ok_def restarts_ok_def)
  next
    case False
    then have "rs ! j < length es" using restart_entry(2) [OF lay j(1)] by simp
    then show ?thesis using ordering.lower_bound_split [OF s _ t, of "rs ! j"] j(3) False by simp
  qed
  from seek_loop_entry [OF it'(2) s t it'(3) this] show ?thesis
    using num j(2) it'(1) by (simp add: BlockIter_Seek_def)
qed

end

text \<open>The iterator of a block is one of the interface.\<close>

sublocale comparator_contract \<subseteq> block_iter: iterator_contract "Compare c" valid BlockIter_ops "block_repr c valid"
proof unfold_locales
  fix it kvs p assume "block_repr c valid it kvs p"
  then obtain es rs where o: "over_block c es rs it" and kvs: "kvs = to_entries es"
    and s: "sorted_source (Compare c) valid (to_entries es)"
    and p: "case p of None \<Rightarrow> \<not> BlockIter_Valid it | Some i \<Rightarrow> at_entry es rs i it"
    by (auto simp: block_repr_def)
  show "sorted_source (Compare c) valid kvs" using s kvs by simp
  show "it_Valid BlockIter_ops it \<longleftrightarrow> p \<noteq> None"
    using p at_entry_valid [OF o] by (cases p) (auto simp: BlockIter_ops_def)
  show "\<exists>st. it_status BlockIter_ops it = Some st \<and> status_ok st"
    using o by (simp add: BlockIter_ops_def over_block_def)
  show "\<exists>it'. it_SeekToFirst BlockIter_ops it = Some it' \<and> block_repr c valid it' kvs (at_pos 0 kvs)"
    using SeekToFirst_entry [OF o] s kvs by (auto simp: BlockIter_ops_def block_repr_def at_pos_def split: if_splits)
  show "\<exists>it'. it_SeekToLast BlockIter_ops it = Some it' \<and> block_repr c valid it' kvs (last_pos (length kvs))"
    using SeekToLast_entry [OF o] s kvs by (auto simp: BlockIter_ops_def block_repr_def last_pos_def split: if_splits)
  show "\<exists>it'. it_Seek BlockIter_ops t it = Some it' \<and>
      block_repr c valid it' kvs (at_pos (lower_bound (Compare c) t kvs) kvs)" if t: "valid t" for t
    using Seek_entry [OF o s t] s kvs by (auto simp: BlockIter_ops_def block_repr_def at_pos_def split: if_splits)
next
  fix it kvs i assume "block_repr c valid it kvs (Some i)"
  then obtain es rs where o: "over_block c es rs it" and kvs: "kvs = to_entries es"
    and s: "sorted_source (Compare c) valid (to_entries es)" and a: "at_entry es rs i it"
    by (auto simp: block_repr_def)
  show "\<exists>it'. it_Next BlockIter_ops it = Some it' \<and> block_repr c valid it' kvs (at_pos (i + 1) kvs)"
    using Next_entry [OF o a] s kvs by (auto simp: BlockIter_ops_def block_repr_def at_pos_def split: if_splits)
  show "\<exists>it'. it_Prev BlockIter_ops it = Some it' \<and> block_repr c valid it' kvs (last_pos i)"
    using Prev_entry [OF o a] s kvs by (auto simp: BlockIter_ops_def block_repr_def last_pos_def split: if_splits)
  show "i < length kvs \<and> it_key BlockIter_ops it = Some (fst (kvs ! i)) \<and>
      it_value BlockIter_ops it = Some (snd (kvs ! i))"
    using block_value [OF o a] a at_entry_valid [OF o a] kvs
    by (simp add: BlockIter_ops_def BlockIter_key_def at_entry_def)
qed

context comparator_contract
begin

lemmas block_iter_contract = block_iter.iterator_contract_axioms

end

end
