(* ===== verification/LdbBlockProps.thy ===== *)
theory LdbBlockProps
  imports LdbBlockLayout
begin

text \<open>
  The block builder writes the layout of \<open>LdbBlockLayout\<close>, and the block is read back with the
  entries that were added.
\<close>

section \<open>Building a block\<close>

text \<open>The state of the builder after adding the entries.\<close>

definition built :: "Comparator \<Rightarrow> int \<Rightarrow> block_entry list \<Rightarrow> nat list \<Rightarrow> BlockBuilder \<Rightarrow> bool" where
  "built c interval es rs b \<longleftrightarrow>
     bb_comparator b = c \<and> bb_interval b = interval \<and> 1 \<le> interval \<and> \<not> bb_finished b \<and>
     bb_buffer b = ents es \<and> bb_restarts b = map (\<lambda>r. of_nat (off es r)) rs \<and>
     chained [] es \<and> restarts_ok es rs \<and>
     bb_last_key b = (if es = [] then [] else entry_key (last es)) \<and>
     0 \<le> bb_counter b \<and> bb_counter b \<le> interval \<and> (bb_counter b > 0 \<longrightarrow> es \<noteq> [])"

lemma chained_append:
  "chained prev (es @ [(sh, k, v)]) \<longleftrightarrow> chained prev es \<and>
     (let p = if es = [] then prev else entry_key (last es)
      in sh \<le> length k \<and> sh \<le> length p \<and> take sh k = take sh p)"
  by (induction prev es rule: chained.induct) (auto simp: Let_def)

lemma restarts_ok_less: "restarts_ok es rs \<Longrightarrow> es \<noteq> [] \<Longrightarrow> r \<in> set rs \<Longrightarrow> r < length es"
  by (auto simp: restarts_ok_def)

lemma restarts_ok_append:
  assumes "restarts_ok es rs" and "es = [] \<longrightarrow> fst e = 0"
  shows "restarts_ok (es @ [e]) rs" "es \<noteq> [] \<Longrightarrow> fst e = 0 \<Longrightarrow> restarts_ok (es @ [e]) (rs @ [length es])"
proof -
  have r: "r < length es \<and> fst (es ! r) = 0 \<or> r = 0 \<and> es = []" if "r \<in> set rs" for r
    using assms(1) that unfolding restarts_ok_def by (cases "es = []") auto
  then show "restarts_ok (es @ [e]) rs"
    using assms unfolding restarts_ok_def by (fastforce simp: nth_append)
  show "restarts_ok (es @ [e]) (rs @ [length es])" if "es \<noteq> []" "fst e = 0"
    using r that assms(1) unfolding restarts_ok_def by (fastforce simp: nth_append sorted_wrt_append)
qed

lemma new_built:
  assumes "1 \<le> interval"
  shows "\<exists>b. new_BlockBuilder c interval = Some b \<and> built c interval [] [0] b"
  using assms by (simp add: new_BlockBuilder_def built_def restarts_ok_def)

lemma Add_built:
  assumes b: "built c interval es rs b" and o: "es \<noteq> [] \<Longrightarrow> after (Compare c) k (entry_key (last es))"
  shows "\<exists>b' sh rs'. BlockBuilder_Add k v b = Some b' \<and> built c interval (es @ [(sh, k, v)]) rs' b'"
proof -
  let ?last = "bb_last_key b"
  define d where "d = diff_loop 0 (min (length ?last) (length k)) ?last k"
  have "let d = diff_loop 0 (min (length ?last) (length k)) ?last k in
      d \<le> min (length ?last) (length k) \<and> take d ?last = take d k \<and> (d < min (length ?last) (length k) \<longrightarrow> ?last ! d \<noteq> k ! d)"
    by (rule diff_loop_spec) auto
  then have d: "d \<le> length ?last" "d \<le> length k" "take d ?last = take d k" by (simp_all add: d_def Let_def)
  have ne: "bb_buffer b \<noteq> [] \<longleftrightarrow> es \<noteq> []"
    using b entry_bytes_pos by (cases es) (auto simp: built_def dest: arg_cong [of _ _ length])
  have g: "\<not> bb_finished b" "\<not> bb_counter b > bb_interval b"
    "\<not> (bb_buffer b \<noteq> [] \<and> \<not> after (Compare (bb_comparator b)) k ?last)"
    using b o ne by (auto simp: built_def)
  have offs: "map (\<lambda>r. of_nat (off es r)) rs = map (\<lambda>r. of_nat (off (es @ [e]) r) :: uint32_t) rs" for e
    using b restart_le [of es rs] by (intro map_cong) (auto simp: built_def off_append in_set_conv_nth)
  show ?thesis
  proof (cases "bb_counter b < bb_interval b")
    case True
    define b' where "b' = b\<lparr>bb_buffer := bb_buffer b @ entry_bytes (d, k, v), bb_last_key := k, bb_counter := bb_counter b + 1\<rparr>"
    have "BlockBuilder_Add k v b = Some b'"
      using g d True by (simp add: BlockBuilder_Add_def Let_def d_def [symmetric] b'_def PutVarint32_def)
    moreover have "es = [] \<longrightarrow> d = 0" using b d(1) by (auto simp: built_def)
    then have "built c interval (es @ [(d, k, v)]) rs b'"
      using b d True restarts_ok_append(1) [of es rs "(d, k, v)"] offs
      by (auto simp: built_def b'_def chained_append Let_def)
    ultimately show ?thesis by blast
  next
    case False
    define b' where "b' = b\<lparr>bb_restarts := bb_restarts b @ [of_nat (length (bb_buffer b))],
      bb_buffer := bb_buffer b @ entry_bytes (0, k, v), bb_last_key := k, bb_counter := 1\<rparr>"
    have "BlockBuilder_Add k v b = Some b'"
      using g False by (simp add: BlockBuilder_Add_def Let_def b'_def PutVarint32_def)
    moreover have "es \<noteq> []" using b False by (auto simp: built_def)
    then have "built c interval (es @ [(0, k, v)]) (rs @ [length es]) b'"
      using b restarts_ok_append(2) [of es rs "(0, k, v)"] offs
      by (auto simp: built_def b'_def chained_append Let_def off_append off_all)
    ultimately show ?thesis by blast
  qed
qed

text \<open>Adding a list of entries to a new builder, and finishing the block.\<close>

primrec Add_all :: "entry list \<Rightarrow> BlockBuilder \<Rightarrow> BlockBuilder option" where
  "Add_all [] b = Some b"
| "Add_all (kv # kvs) b = do { b \<leftarrow> BlockBuilder_Add (fst kv) (snd kv) b; Add_all kvs b }"

definition build_block :: "Comparator \<Rightarrow> int \<Rightarrow> entry list \<Rightarrow> slice option" where
  "build_block c interval kvs =
     do { b \<leftarrow> new_BlockBuilder c interval; b \<leftarrow> Add_all kvs b; Some (fst (BlockBuilder_Finish b)) }"

lemma Add_all_built:
  assumes "built c interval es rs b" and "sorted_wrt (\<lambda>x y. after (Compare c) (fst y) (fst x)) (to_entries es @ kvs)"
  shows "\<exists>b' es' rs'. Add_all kvs b = Some b' \<and> built c interval es' rs' b' \<and> to_entries es' = to_entries es @ kvs"
  using assms
proof (induction kvs arbitrary: es rs b)
  case (Cons kv kvs)
  have "after (Compare c) (fst kv) (entry_key (last es))" if "es \<noteq> []"
    using Cons.prems(2) that by (simp add: sorted_wrt_append)
  then obtain b' sh rs' where "BlockBuilder_Add (fst kv) (snd kv) b = Some b'"
    "built c interval (es @ [(sh, fst kv, snd kv)]) rs' b'"
    using Add_built [OF Cons.prems(1)] by blast
  then show ?case using Cons.IH [of "es @ [(sh, fst kv, snd kv)]" rs' b'] Cons.prems(2) by simp
qed auto

lemma Finish_built: "built c interval es rs b \<Longrightarrow> fst (BlockBuilder_Finish b) = block_bytes es rs"
  unfolding BlockBuilder_Finish_def Let_def fold_PutFixed32
  by (simp add: PutFixed32_def block_bytes_def built_def comp_def)

lemma drop_num_restarts: "drop (length (block_bytes es rs) - 4) (block_bytes es rs) = EncodeFixed32 (of_nat (length rs))"
  by (simp add: length_block_bytes) (simp add: block_bytes_def length_restart_bytes)

lemma Block_NewIterator_layout:
  assumes l: "layout_ok es rs"
  shows "\<exists>b it. make_Block (block_bytes es rs) = Some b \<and> Block_NewIterator c b = Some (Inr it) \<and>
    over_block c es rs it \<and> \<not> BlockIter_Valid it"
proof -
  let ?d = "block_bytes es rs"
  have n: "NumRestarts ?d (length ?d) = Some (of_nat (length rs))"
    by (simp add: NumRestarts_def drop_num_restarts) (simp add: length_block_bytes EncodeFixed32_bytes DecodeFixed32_bytes [of _ "[]", simplified])
  note b = layout_bounds [OF l]
  have u: "unat (of_nat (length rs) :: uint32_t) = length rs" by (rule nat32 [OF b(2)])
  have off: "ucast (of_nat (length ?d) - ucast (1 + of_nat (length rs) :: uint32_t) * 4 :: uint64_t) = (of_nat (length (ents es)) :: uint32_t)"
  proof -
    have "length rs + 1 < 4294967296" using l by (simp add: layout_ok_def length_block_bytes)
    then have "unat (of_nat (length rs + 1) :: uint32_t) = length rs + 1" by (rule nat32)
    then have "(ucast (1 + of_nat (length rs) :: uint32_t) :: uint64_t) = of_nat (length rs + 1)"
      by (metis of_nat_Suc Suc_eq_plus1 of_nat_unat)
    then have "(of_nat (length ?d) - ucast (1 + of_nat (length rs) :: uint32_t) * 4 :: uint64_t) = of_nat (length (ents es))"
      by (simp add: length_block_bytes algebra_simps)
    moreover have "unat (of_nat (length (ents es)) :: uint64_t) = length (ents es)"
      using b(1) by (simp add: unat_of_nat take_bit_nat_eq_self)
    ultimately show ?thesis by (metis of_nat_unat)
  qed
  have nz: "(of_nat (length rs) :: uint32_t) \<noteq> 0" using u b(4) by (metis less_numeral_extra(3) unsigned_0)
  show ?thesis
    using n u off nz l b(4)
    by (simp add: make_Block_def Let_def length_block_bytes Block_NewIterator_def new_BlockIter_def
        over_block_def BlockIter_Valid_def word_neq_0_conv)
qed

context comparator_contract
begin

lemma after_before: "valid a \<Longrightarrow> valid b \<Longrightarrow> after (Compare c) b a = before (Compare c) a b"
  using ordering.cmp_sym [of a b] by (auto simp: after_def before_def sgn_if split: if_splits)

lemma build_block_repr:
  assumes s: "sorted_source (Compare c) valid kvs" and i: "1 \<le> interval"
  shows "\<exists>data. build_block c interval kvs = Some data \<and>
    (length data < 4294967296 \<longrightarrow>
      (\<exists>b it. make_Block data = Some b \<and> Block_NewIterator c b = Some (Inr it) \<and> block_repr c valid it kvs None))"
proof -
  obtain b0 where b0: "new_BlockBuilder c interval = Some b0" "built c interval [] [0] b0" using new_built [OF i] by blast
  have "sorted_wrt (\<lambda>x y. after (Compare c) (fst y) (fst x)) kvs"
    using s after_before by (auto simp: sorted_source_def intro: sorted_wrt_mono_rel [rotated])
  then obtain b es rs where b: "Add_all kvs b0 = Some b" "built c interval es rs b" "to_entries es = kvs"
    using Add_all_built [OF b0(2), of kvs] by auto
  have d: "build_block c interval kvs = Some (block_bytes es rs)"
    using b0(1) b(1) Finish_built [OF b(2)] by (simp add: build_block_def)
  moreover have "\<exists>b it. make_Block (block_bytes es rs) = Some b \<and> Block_NewIterator c b = Some (Inr it) \<and>
      block_repr c valid it kvs None" if "length (block_bytes es rs) < 4294967296"
  proof -
    have "layout_ok es rs" using b(2) that by (simp add: layout_ok_def built_def)
    from Block_NewIterator_layout [OF this, of c] show ?thesis using b(3) s by (auto simp: block_repr_def)
  qed
  ultimately show ?thesis by blast
qed

end

section \<open>Correctness\<close>

text \<open>
  C9: a block that the builder makes from entries with ascending keys is read back as it was
  written, for every comparator that orders its keys and every restart interval: the builder takes
  every entry, and when the block has less than 4 GiB its iterator goes through exactly the
  entries, and shows after every sequence of moves what a cursor over the list shows.
\<close>

theorem block_roundtrip:
  assumes "comparator_contract c valid" and "sorted_source (Compare c) valid kvs" and "1 \<le> interval"
  shows "\<exists>data. build_block c interval kvs = Some data \<and>
    (length data < 4294967296 \<longrightarrow>
      (\<exists>b it. make_Block data = Some b \<and> Block_NewIterator c b = Some (Inr it) \<and>
        read_all BlockIter_ops (length kvs) it = Some kvs \<and>
        (\<forall>mvs os. list_all (move_valid valid) mvs \<longrightarrow> cursor_run (Compare c) kvs mvs None = Some os \<longrightarrow>
          iter_run BlockIter_ops mvs it = Some os)))"
proof -
  note block = comparator_contract.block_iter_contract [OF assms(1)]
  obtain data where d: "build_block c interval kvs = Some data"
    "length data < 4294967296 \<Longrightarrow>
      \<exists>b it. make_Block data = Some b \<and> Block_NewIterator c b = Some (Inr it) \<and> block_repr c valid it kvs None"
    using comparator_contract.build_block_repr [OF assms] by blast
  show ?thesis
  proof (intro exI [of _ data] conjI impI)
    assume "length data < 4294967296"
    then obtain b it where it: "make_Block data = Some b" "Block_NewIterator c b = Some (Inr it)"
      "block_repr c valid it kvs None" using d(2) by blast
    have "read_all BlockIter_ops (length kvs) it = Some kvs"
      using iterator_contract.read_all_repr [OF block it(3), of "length kvs"] by simp
    with it iterator_contract.iter_run_repr [OF block it(3)] show "\<exists>b it. make_Block data = Some b \<and>
        Block_NewIterator c b = Some (Inr it) \<and> read_all BlockIter_ops (length kvs) it = Some kvs \<and>
        (\<forall>mvs os. list_all (move_valid valid) mvs \<longrightarrow> cursor_run (Compare c) kvs mvs None = Some os \<longrightarrow>
          iter_run BlockIter_ops mvs it = Some os)" by blast
  qed (rule d(1))
qed

theorem block_roundtrip_witness:
  "\<exists>data b it. build_block BytewiseComparator 2 [([1, 2], [7]), ([1, 2, 3], []), ([1, 3], [9])] = Some data \<and>
    make_Block data = Some b \<and> Block_NewIterator BytewiseComparator b = Some (Inr it) \<and>
    iter_run BlockIter_ops [MoveSeek [1, 2, 2], MovePrev, MoveLast, MoveNext] it =
      Some [Some ([1, 2, 3], []), Some ([1, 2], [7]), Some ([1, 3], [9]), None]"
proof -
  let ?kvs = "[([1, 2], [7]), ([1, 2, 3], []), ([1, 3], [9])] :: entry list"
  let ?mvs = "[MoveSeek [1, 2, 2], MovePrev, MoveLast, MoveNext]"
  have s: "sorted_source (Compare BytewiseComparator) (\<lambda>_. True) ?kvs" by code_simp
  have l: "map_option length (build_block BytewiseComparator 2 ?kvs) = Some 28" by code_simp
  have r: "cursor_run (Compare BytewiseComparator) ?kvs ?mvs None =
      Some [Some ([1, 2, 3], []), Some ([1, 2], [7]), Some ([1, 3], [9]), None]" by code_simp
  obtain data where d: "build_block BytewiseComparator 2 ?kvs = Some data"
    "length data < 4294967296 \<longrightarrow> (\<exists>b it. make_Block data = Some b \<and> Block_NewIterator BytewiseComparator b = Some (Inr it) \<and>
      read_all BlockIter_ops (length ?kvs) it = Some ?kvs \<and>
      (\<forall>mvs os. list_all (move_valid (\<lambda>_. True)) mvs \<longrightarrow> cursor_run (Compare BytewiseComparator) ?kvs mvs None = Some os \<longrightarrow>
        iter_run BlockIter_ops mvs it = Some os))"
    using block_roundtrip [OF bytewise.comparator_contract_axioms s, of 2] by auto
  have "length data < 4294967296" using l d(1) by simp
  moreover have "list_all (move_valid (\<lambda>_. True)) ?mvs" by simp
  ultimately show ?thesis using d r by blast
qed

text \<open>
  C40: reading a block ends, whatever its bytes are: an iterator over any data, valid block or not,
  gives at most one entry more than the bytes that are left between it and the restart array.
\<close>

theorem block_scan_ends:
  assumes "collect BlockIter_ops BlockIter_Next n it = Some kvs"
  shows "length kvs \<le> entries_left it + 1"
  using assms
proof (induction n arbitrary: it kvs)
  case (Suc n)
  show ?case
  proof (cases "it_Valid BlockIter_ops it")
    case True
    obtain it' kvs' where s: "BlockIter_Next it = Some it'" "collect BlockIter_ops BlockIter_Next n it' = Some kvs'"
      "length kvs = Suc (length kvs')"
      using collect_step [OF Suc.prems True] by blast
    then obtain ok where p: "ParseNextKey it = Some (ok, it')"
      by (auto simp: BlockIter_Next_def split: if_splits)
    show ?thesis
    proof (cases ok)
      case True
      then show ?thesis using Suc.IH [OF s(2)] entries_left_less [of it it'] p s(3) by simp
    next
      case False
      then have "\<not> it_Valid BlockIter_ops it'" using ParseNextKey_False p by (simp add: BlockIter_ops_def)
      then show ?thesis using s(2,3) collect_invalid by fastforce
    qed
  next
    case False
    then show ?thesis using Suc.prems collect_invalid by fastforce
  qed
qed simp

theorem block_scan_ends_witness:
  "\<exists>it kvs. new_BlockIter BytewiseComparator [0, 1, 0, 7, 0, 0, 0, 0, 1, 0, 0, 0] 4 1 = Some it \<and>
    read_all BlockIter_ops 9 it = Some kvs \<and> length kvs \<le> 5"
proof -
  let ?d = "[0, 1, 0, 7, 0, 0, 0, 0, 1, 0, 0, 0] :: slice"
  have "(case new_BlockIter BytewiseComparator ?d 4 1 of None \<Rightarrow> False
      | Some it \<Rightarrow> (case BlockIter_SeekToFirst it of None \<Rightarrow> False
        | Some it' \<Rightarrow> entries_left it' \<le> 4 \<and> collect BlockIter_ops BlockIter_Next 9 it' \<noteq> None))"
    by code_simp
  then obtain it it' kvs where it: "new_BlockIter BytewiseComparator ?d 4 1 = Some it" "BlockIter_SeekToFirst it = Some it'"
    "entries_left it' \<le> 4" "collect BlockIter_ops BlockIter_Next 9 it' = Some kvs"
    by (auto split: option.splits)
  have "read_all BlockIter_ops 9 it = Some kvs" using it(2,4) by (simp add: read_all_def BlockIter_ops_def)
  moreover have "length kvs \<le> 5" using block_scan_ends [OF it(4)] it(3) by simp
  ultimately show ?thesis using it(1) by blast
qed

text \<open>
  The sum of the two lengths in \<open>DecodeEntry\<close> wraps at 32 bits: a corrupt block whose key delta has
  4294967295 bytes and whose value has one passes the check, and the iterator reads beyond it.
\<close>

lemma block_overread:
  "\<exists>b it. make_Block [0, 0xff, 0xff, 0xff, 0xff, 0x0f, 1, 0, 0, 0, 0, 1, 0, 0, 0] = Some b \<and>
    Block_NewIterator c b = Some (Inr it) \<and> bi_status it = Status_OK \<and> BlockIter_SeekToFirst it = None"
proof -
  let ?d = "[0, 0xff, 0xff, 0xff, 0xff, 0x0f, 1, 0, 0, 0, 0, 1, 0, 0, 0] :: slice"
  have dec: "DecodeEntry [0, 0xff, 0xff, 0xff, 0xff, 0x0f, 1] = Some (0, 0xffffffff, 1, 7)" by code_simp
  have fix32: "DecodeFixed32 [0, 0, 0, 0, 1, 0, 0, 0] = Some 0" "DecodeFixed32 [1, 0, 0, 0] = Some 1"
    by code_simp+
  let ?b = "\<lparr>block_data = ?d, block_size = 15, block_restart_offset = 7\<rparr>"
  have b: "make_Block ?d = Some ?b" by (simp add: make_Block_def NumRestarts_def fix32)
  obtain it where it: "Block_NewIterator c ?b = Some (Inr it)" "bi_data it = ?d" "bi_restarts it = 7"
    "bi_num_restarts it = 1" "bi_status it = Status_OK"
    by (simp add: Block_NewIterator_def NumRestarts_def fix32 new_BlockIter_def)
  have "BlockIter_SeekToFirst it = None"
    using it(2-4) by (simp add: BlockIter_SeekToFirst_def SeekToRestartPoint_def GetRestartPoint_def fix32
        ParseNextKey_def NextEntryOffset_def dec Let_def)
  then show ?thesis using b it by blast
qed

end
