(* ===== verification/LdbMergerProps.thy ===== *)
theory LdbMergerProps
  imports LdbMerger LdbBlockProps "HOL-Library.Multiset"
begin

text \<open>
  The merging iterator is an iterator of the interface again, over the sorted union of its
  children: every child stands at the cut that the current key makes in its share of the union.
\<close>

section \<open>Merged lists\<close>

text \<open>
  The children have the entries of a sorted list that belong to them; \<open>cut\<close> is how many of the
  entries before index \<open>i\<close> a child has.
\<close>

definition share :: "('a \<Rightarrow> nat) \<Rightarrow> 'a list \<Rightarrow> nat \<Rightarrow> 'a list" where
  "share own kvs j = filter (\<lambda>e. own e = j) kvs"

definition cut :: "('a \<Rightarrow> nat) \<Rightarrow> 'a list \<Rightarrow> nat \<Rightarrow> nat \<Rightarrow> nat" where
  "cut own kvs i j = length (share own (take i kvs) j)"

lemma cut_0 [simp]: "cut own kvs 0 j = 0"
  by (simp add: cut_def share_def)

lemma cut_all: "length kvs \<le> i \<Longrightarrow> cut own kvs i j = length (share own kvs j)"
  by (simp add: cut_def)

lemma cut_Suc: "i < length kvs \<Longrightarrow> cut own kvs (Suc i) j = cut own kvs i j + (if own (kvs ! i) = j then 1 else 0)"
  by (simp add: cut_def share_def take_Suc_conv_app_nth)

lemma share_split:
  "share own kvs j = share own (take i kvs) j @ share own (drop i kvs) j"
  by (simp add: share_def flip: filter_append)

lemma cut_le: "cut own kvs i j \<le> length (share own kvs j)"
  using arg_cong [OF share_split [of own kvs j i], of length] by (simp add: cut_def)

lemma share_at_cut:
  assumes "i < length kvs" and "own (kvs ! i) = j"
  shows "cut own kvs i j < length (share own kvs j) \<and> share own kvs j ! cut own kvs i j = kvs ! i"
proof -
  have "share own (drop i kvs) j = kvs ! i # share own (drop (Suc i) kvs) j"
    using assms by (simp add: share_def Cons_nth_drop_Suc [symmetric])
  then show ?thesis using share_split [of own kvs j i] by (simp add: cut_def nth_append)
qed

text \<open>The entries of a child from the cut on are those at the index or behind it.\<close>

lemma share_from_cut:
  assumes "cut own kvs i j \<le> a" and "a < length (share own kvs j)"
  shows "\<exists>g \<ge> i. g < length kvs \<and> own (kvs ! g) = j \<and> share own kvs j ! a = kvs ! g"
proof -
  have "share own kvs j ! a = share own (drop i kvs) j ! (a - cut own kvs i j)"
    "a - cut own kvs i j < length (share own (drop i kvs) j)"
    using assms share_split [of own kvs j i] by (simp_all add: cut_def nth_append)
  then have "share own kvs j ! a \<in> set (filter (\<lambda>e. own e = j) (drop i kvs))" by (metis nth_mem share_def)
  then obtain n where "n < length (drop i kvs)" "own (drop i kvs ! n) = j" "share own kvs j ! a = drop i kvs ! n"
    by (auto simp: in_set_conv_nth)
  then show ?thesis by (intro exI [of _ "i + n"]) simp
qed

lemma share_before_cut:
  assumes "a < cut own kvs i j"
  shows "\<exists>g < i. g < length kvs \<and> own (kvs ! g) = j \<and> share own kvs j ! a = kvs ! g"
proof -
  have "share own kvs j ! a = share own (take i kvs) j ! a"
    using assms share_split [of own kvs j i] by (simp add: cut_def nth_append)
  then have "share own kvs j ! a \<in> set (filter (\<lambda>e. own e = j) (take i kvs))"
    using assms by (metis cut_def nth_mem share_def)
  then obtain n where "n < length (take i kvs)" "own (take i kvs ! n) = j" "share own kvs j ! a = take i kvs ! n"
    by (auto simp: in_set_conv_nth)
  then show ?thesis by (intro exI [of _ n]) simp
qed

context key_order
begin

lemma share_sorted: "sorted_source cmp valid kvs \<Longrightarrow> sorted_source cmp valid (share own kvs j)"
  by (simp add: sorted_source_def share_def sorted_wrt_filter)

lemma lower_bound_share:
  assumes s: "sorted_source cmp valid kvs" and t: "valid t"
  shows "lower_bound cmp t (share own kvs j) = cut own kvs (lower_bound cmp t kvs) j"
proof -
  let ?lb = "lower_bound cmp t (share own kvs j)" and ?i = "lower_bound cmp t kvs"
  have s': "sorted_source cmp valid (share own kvs j)" by (rule share_sorted [OF s])
  have iff: "a < ?lb \<longleftrightarrow> a < cut own kvs ?i j" if a: "a < length (share own kvs j)" for a
  proof (cases "a < cut own kvs ?i j")
    case True
    then show ?thesis using share_before_cut [OF True] lower_bound_split [OF s' a t] lower_bound_split [OF s _ t] by auto
  next
    case False
    then show ?thesis using share_from_cut [of own kvs ?i j a] a lower_bound_split [OF s' a t] lower_bound_split [OF s _ t] by auto
  qed
  have "?lb \<le> length (share own kvs j)" "cut own kvs ?i j \<le> length (share own kvs j)"
    by (simp add: lower_bound_def length_takeWhile_le, rule cut_le)
  then show ?thesis using iff [of ?lb] iff [of "cut own kvs ?i j"]
    by (cases ?lb "cut own kvs ?i j" rule: linorder_cases) auto
qed

end

section \<open>The merging iterator keeps the contract\<close>

definition merge_repr ::
  "Comparator \<Rightarrow> (slice \<Rightarrow> bool) \<Rightarrow> ('s IteratorWrapper \<Rightarrow> entry list \<Rightarrow> nat option \<Rightarrow> bool) \<Rightarrow>
   's MergingIterator \<Rightarrow> entry list \<Rightarrow> nat option \<Rightarrow> bool" where
  "merge_repr c valid wrepr m kvs p \<longleftrightarrow>
     mi_comparator m = c \<and> sorted_source (Compare c) valid kvs \<and>
     (\<exists>own. (\<forall>e \<in> set kvs. own e < length (mi_children m)) \<and>
        (case p of None \<Rightarrow> mi_current m = None \<and>
           (\<forall>j < length (mi_children m). \<exists>q. wrepr (mi_children m ! j) (share own kvs j) q)
         | Some i \<Rightarrow> i < length kvs \<and> mi_current m = Some (own (kvs ! i)) \<and>
           (\<forall>j < length (mi_children m). wrepr (mi_children m ! j) (share own kvs j)
              (if mi_forward m then at_pos (cut own kvs i j) (share own kvs j)
               else last_pos (cut own kvs (Suc i) j)))))"

lemma for_children_step:
  assumes "distinct js" and "\<forall>i \<in> set js. i < length ws" and "\<And>i. i \<in> set js \<Longrightarrow> \<exists>w. f (ws ! i) = Some w \<and> P i w"
    and "\<And>i. i < length ws \<Longrightarrow> i \<notin> set js \<Longrightarrow> P i (ws ! i)"
  shows "\<exists>ws'. for_children f js ws = Some ws' \<and> length ws' = length ws \<and> (\<forall>i < length ws. P i (ws' ! i)) \<and>
    (\<forall>i < length ws. i \<notin> set js \<longrightarrow> ws' ! i = ws ! i)"
  using assms
proof (induction js arbitrary: ws)
  case (Cons i js)
  obtain w where w: "f (ws ! i) = Some w" "P i w" using Cons.prems(3) [of i] by auto
  have d: "distinct js" "i \<notin> set js" "i < length ws" using Cons.prems(1,2) by auto
  have "\<exists>ws'. for_children f js (ws[i := w]) = Some ws' \<and> length ws' = length (ws[i := w]) \<and>
      (\<forall>l < length (ws[i := w]). P l (ws' ! l)) \<and> (\<forall>l < length (ws[i := w]). l \<notin> set js \<longrightarrow> ws' ! l = ws[i := w] ! l)"
  proof (rule Cons.IH [OF d(1)])
    show "\<forall>l \<in> set js. l < length (ws[i := w])" using Cons.prems(2) by simp
    show "\<exists>w'. f (ws[i := w] ! l) = Some w' \<and> P l w'" if "l \<in> set js" for l
    proof -
      have "l \<noteq> i" using that d(2) by blast
      then show ?thesis using Cons.prems(3) [of l] that by simp
    qed
    show "P l (ws[i := w] ! l)" if "l < length (ws[i := w])" "l \<notin> set js" for l
      using Cons.prems(4) [of l] that w(2) d(3) by (cases "l = i") (auto simp: nth_list_update)
  qed
  then show ?case using w(1) d(2) by (auto simp: nth_list_update)
qed simp

locale merging = comparator_contract c valid + child: iterator_contract "Compare c" valid ops repr
  for c :: Comparator and valid :: "slice \<Rightarrow> bool"
    and ops :: "'s Iterator" and repr :: "'s \<Rightarrow> entry list \<Rightarrow> nat option \<Rightarrow> bool"
begin

abbreviation wops :: "'s IteratorWrapper Iterator" where
  "wops \<equiv> IteratorWrapper_ops ops"

abbreviation wrepr :: "'s IteratorWrapper \<Rightarrow> entry list \<Rightarrow> nat option \<Rightarrow> bool" where
  "wrepr \<equiv> wrapper_repr repr"

lemmas w_valid = iterator_contract.repr_valid [OF child.wrapper_contract]
  and w_at = iterator_contract.repr_at [OF child.wrapper_contract]
  and w_status = iterator_contract.repr_status [OF child.wrapper_contract]
  and w_first = iterator_contract.repr_first [OF child.wrapper_contract]
  and w_last = iterator_contract.repr_last [OF child.wrapper_contract]
  and w_seek = iterator_contract.repr_seek [OF child.wrapper_contract]
  and w_next = iterator_contract.repr_next [OF child.wrapper_contract]
  and w_prev = iterator_contract.repr_prev [OF child.wrapper_contract]

text \<open>
  The loop of \<open>FindSmallest\<close> and \<open>FindLargest\<close>: it finds the child \<open>b\<close> whose key is better than those
  of all others.
\<close>

lemma pick_loop_none:
  "(\<And>j. j \<in> set js \<Longrightarrow> \<not> it_Valid wo (ws ! j)) \<Longrightarrow> pick_loop wo cc better ws js best = Some best"
  by (induction js arbitrary: best) (auto simp: pick_child_def)

lemma pick_loop_best:
  assumes key: "\<And>j. j \<in> set js \<union> set_option best \<Longrightarrow> it_Valid wops (ws ! j) \<Longrightarrow> j \<noteq> b \<Longrightarrow>
      \<exists>k r r'. it_key wops (ws ! j) = Some k \<and> valid k \<and>
        Compare c bk k = Some r \<and> better r \<and> Compare c k bk = Some r' \<and> \<not> better r'"
    and b: "it_Valid wops (ws ! b)" "it_key wops (ws ! b) = Some bk" "valid bk" "\<not> better 0"
    and v: "best = None \<or> (\<exists>j. best = Some j \<and> it_Valid wops (ws ! j))" and m: "b \<in> set js \<or> best = Some b"
  shows "pick_loop wops c better ws js best = Some (Some b)"
  using key v m
proof (induction js arbitrary: best)
  case (Cons i js)
  have step: "\<exists>best'. pick_child wops c better ws i best = Some best' \<and> (best' = best \<or> best' = Some i \<and> it_Valid wops (ws ! i)) \<and>
      (i = b \<or> best = Some b \<longrightarrow> best' = Some b)"
  proof (cases "it_Valid wops (ws ! i)")
    case False
    then show ?thesis using b(1) by (auto simp: pick_child_def)
  next
    case True
    show ?thesis
    proof (cases best)
      case None
      then show ?thesis using True by (simp add: pick_child_def)
    next
      case (Some j)
      have vj: "it_Valid wops (ws ! j)" using Cons.prems(2) Some by simp
      obtain ki where ki: "it_key wops (ws ! i) = Some ki" "valid ki"
        using Cons.prems(1) [of i] True b(2,3) by (cases "i = b") auto
      obtain kj where kj: "it_key wops (ws ! j) = Some kj" "valid kj"
        using Cons.prems(1) [of j] vj Some b(2,3) by (cases "j = b") auto
      obtain r where r: "Compare c ki kj = Some r" using compare_sym [OF ki(2) kj(2)] by blast
      have "i = b \<Longrightarrow> j \<noteq> b \<Longrightarrow> better r" "j = b \<Longrightarrow> i \<noteq> b \<Longrightarrow> \<not> better r"
        using Cons.prems(1) [of j] Cons.prems(1) [of i] vj True Some ki(1) kj(1) b(2) r by auto
      then show ?thesis using True Some ki(1) kj(1) r by (auto simp: pick_child_def)
    qed
  qed
  then obtain best' where s: "pick_child wops c better ws i best = Some best'"
    "best' = best \<or> best' = Some i \<and> it_Valid wops (ws ! i)" "i = b \<or> best = Some b \<longrightarrow> best' = Some b" by blast
  have "pick_loop wops c better ws js best' = Some (Some b)"
  proof (rule Cons.IH)
    show "\<exists>k r r'. it_key wops (ws ! j) = Some k \<and> valid k \<and>
        Compare c bk k = Some r \<and> better r \<and> Compare c k bk = Some r' \<and> \<not> better r'"
      if "j \<in> set js \<union> set_option best'" "it_Valid wops (ws ! j)" "j \<noteq> b" for j
      using Cons.prems(1) [of j] that s(2) by auto
    show "best' = None \<or> (\<exists>j. best' = Some j \<and> it_Valid wops (ws ! j))" using Cons.prems(2) s(2) by auto
    show "b \<in> set js \<or> best' = Some b" using Cons.prems(3) s(3) by auto
  qed
  then show ?case using s(1) by simp
qed simp

text \<open>The children stand at the positions \<open>f\<close> of their shares.\<close>

definition children_at :: "(entry \<Rightarrow> nat) \<Rightarrow> entry list \<Rightarrow> (nat \<Rightarrow> nat option) \<Rightarrow> 's IteratorWrapper list \<Rightarrow> bool" where
  "children_at own kvs f ws \<longleftrightarrow>
     sorted_source (Compare c) valid kvs \<and> (\<forall>e \<in> set kvs. own e < length ws) \<and>
     (\<forall>j < length ws. wrepr (ws ! j) (share own kvs j) (f j))"

lemma cmp_pair:
  assumes "sorted_source (Compare c) valid kvs" and "g < h" and "h < length kvs"
  shows "\<exists>r r'. Compare c (fst (kvs ! g)) (fst (kvs ! h)) = Some r \<and> r < 0 \<and>
    Compare c (fst (kvs ! h)) (fst (kvs ! g)) = Some r' \<and> r' > 0"
proof -
  have "before (Compare c) (fst (kvs ! g)) (fst (kvs ! h))" "valid (fst (kvs ! g))" "valid (fst (kvs ! h))"
    using assms by (auto simp: sorted_source_def sorted_wrt_iff_nth_less)
  then show ?thesis using compare_sym [of "fst (kvs ! g)" "fst (kvs ! h)"]
    by (auto simp: before_def sgn_if split: if_splits)
qed

lemma valid_nth: "sorted_source (Compare c) valid kvs \<Longrightarrow> g < length kvs \<Longrightarrow> valid (fst (kvs ! g))"
  by (simp add: sorted_source_def)

lemma children_at_some:
  assumes "children_at own kvs f ws" and "j < length ws" and "f j = Some a"
  shows "it_Valid wops (ws ! j) \<and> a < length (share own kvs j) \<and>
    it_key wops (ws ! j) = Some (fst (share own kvs j ! a)) \<and> it_value wops (ws ! j) = Some (snd (share own kvs j ! a))"
proof -
  have "wrepr (ws ! j) (share own kvs j) (Some a)" using assms by (auto simp: children_at_def)
  from w_at [OF this] w_valid [OF this] show ?thesis by simp
qed

lemma children_at_none: "children_at own kvs f ws \<Longrightarrow> j < length ws \<Longrightarrow> it_Valid wops (ws ! j) = (f j \<noteq> None)"
  using w_valid by (auto simp: children_at_def)

abbreviation at_cut :: "(entry \<Rightarrow> nat) \<Rightarrow> entry list \<Rightarrow> nat \<Rightarrow> nat \<Rightarrow> nat option" where
  "at_cut own kvs i j \<equiv> at_pos (cut own kvs i j) (share own kvs j)"

abbreviation before_cut :: "(entry \<Rightarrow> nat) \<Rightarrow> entry list \<Rightarrow> nat \<Rightarrow> nat \<Rightarrow> nat option" where
  "before_cut own kvs i j \<equiv> last_pos (cut own kvs i j)"

lemma FindSmallest_cut:
  assumes a: "children_at own kvs (at_cut own kvs i) (mi_children m)" and m: "mi_comparator m = c"
  shows "FindSmallest ops m = Some (m\<lparr>mi_current := if i < length kvs then Some (own (kvs ! i)) else None\<rparr>)"
proof (cases "i < length kvs")
  case False
  then have "\<not> it_Valid wops (mi_children m ! j)" if "j < length (mi_children m)" for j
    using children_at_none [OF a that] by (simp add: at_pos_def cut_all)
  then have "pick_loop wops (mi_comparator m) (\<lambda>r. r < 0) (mi_children m) [0..<length (mi_children m)] None = Some None"
    by (intro pick_loop_none) auto
  then show ?thesis using False by (simp add: FindSmallest_def)
next
  case True
  have s: "sorted_source (Compare c) valid kvs" and b: "own (kvs ! i) < length (mi_children m)"
    using a True by (simp_all add: children_at_def)
  have e: "at_cut own kvs i (own (kvs ! i)) = Some (cut own kvs i (own (kvs ! i)))"
    "share own kvs (own (kvs ! i)) ! cut own kvs i (own (kvs ! i)) = kvs ! i"
    using share_at_cut [OF True refl] by (simp_all add: at_pos_def)
  have "pick_loop wops c (\<lambda>r. r < 0) (mi_children m) [0..<length (mi_children m)] None = Some (Some (own (kvs ! i)))"
  proof (rule pick_loop_best)
    show "it_Valid wops (mi_children m ! own (kvs ! i))" "it_key wops (mi_children m ! own (kvs ! i)) = Some (fst (kvs ! i))"
      using children_at_some [OF a b e(1)] e(2) by simp_all
    fix j assume j: "j \<in> set [0..<length (mi_children m)] \<union> set_option None" "it_Valid wops (mi_children m ! j)" "j \<noteq> own (kvs ! i)"
    then have jl: "j < length (mi_children m)" by simp
    obtain x where x: "at_cut own kvs i j = Some x" using children_at_none [OF a jl] j(2) by auto
    then have "cut own kvs i j \<le> x" "x < length (share own kvs j)" by (auto simp: at_pos_def split: if_splits)
    then obtain g where g: "i \<le> g" "g < length kvs" "own (kvs ! g) = j" "share own kvs j ! x = kvs ! g"
      using share_from_cut by blast
    then have "i < g" using j(3) by (cases "i = g") auto
    then show "\<exists>k r r'. it_key wops (mi_children m ! j) = Some k \<and> valid k \<and>
        Compare c (fst (kvs ! i)) k = Some r \<and> r < 0 \<and> Compare c k (fst (kvs ! i)) = Some r' \<and> \<not> r' < 0"
      using children_at_some [OF a jl x] g(4) cmp_pair [OF s _ g(2)] valid_nth [OF s g(2)] by fastforce
  qed (use b valid_nth [OF s True] in auto)
  then show ?thesis using True m by (simp add: FindSmallest_def)
qed

lemma FindLargest_cut:
  assumes a: "children_at own kvs (before_cut own kvs i) (mi_children m)" and m: "mi_comparator m = c" and i: "i \<le> length kvs"
  shows "FindLargest ops m = Some (m\<lparr>mi_current := if i = 0 then None else Some (own (kvs ! (i - 1)))\<rparr>)"
proof (cases i)
  case 0
  then have "\<not> it_Valid wops (mi_children m ! j)" if "j < length (mi_children m)" for j
    using children_at_none [OF a that] by (simp add: last_pos_def)
  then have "pick_loop wops (mi_comparator m) (\<lambda>r. r > 0) (mi_children m) (rev [0..<length (mi_children m)]) None = Some None"
    by (intro pick_loop_none) auto
  then show ?thesis using 0 by (simp add: FindLargest_def)
next
  case (Suc h)
  have h: "h < length kvs" using i Suc by simp
  have s: "sorted_source (Compare c) valid kvs" and b: "own (kvs ! h) < length (mi_children m)"
    using a h by (simp_all add: children_at_def)
  have e: "before_cut own kvs i (own (kvs ! h)) = Some (cut own kvs h (own (kvs ! h)))"
    "share own kvs (own (kvs ! h)) ! cut own kvs h (own (kvs ! h)) = kvs ! h"
    using share_at_cut [OF h refl] cut_Suc [OF h] Suc by (simp_all add: last_pos_def)
  have "pick_loop wops c (\<lambda>r. r > 0) (mi_children m) (rev [0..<length (mi_children m)]) None = Some (Some (own (kvs ! h)))"
  proof (rule pick_loop_best)
    show "it_Valid wops (mi_children m ! own (kvs ! h))" "it_key wops (mi_children m ! own (kvs ! h)) = Some (fst (kvs ! h))"
      using children_at_some [OF a b e(1)] e(2) by simp_all
    fix j assume j: "j \<in> set (rev [0..<length (mi_children m)]) \<union> set_option None" "it_Valid wops (mi_children m ! j)" "j \<noteq> own (kvs ! h)"
    then have jl: "j < length (mi_children m)" by simp
    obtain x where x: "before_cut own kvs i j = Some x" using children_at_none [OF a jl] j(2) by auto
    then have "x < cut own kvs h j" using cut_Suc [OF h, of own j] Suc j(3) by (auto simp: last_pos_def split: if_splits)
    then obtain g where g: "g < h" "g < length kvs" "own (kvs ! g) = j" "share own kvs j ! x = kvs ! g"
      using share_before_cut by blast
    then show "\<exists>k r r'. it_key wops (mi_children m ! j) = Some k \<and> valid k \<and>
        Compare c (fst (kvs ! h)) k = Some r \<and> r > 0 \<and> Compare c k (fst (kvs ! h)) = Some r' \<and> \<not> r' > 0"
      using children_at_some [OF a jl x] cmp_pair [OF s g(1) h] valid_nth [OF s g(2)] by fastforce
  qed (use b valid_nth [OF s h] in auto)
  then show ?thesis using Suc m by (simp add: FindLargest_def)
qed

text \<open>Positioning all children, and the others than the current one.\<close>

lemma seek_children_cut:
  assumes a: "children_at own kvs p (mi_children m)"
    and f: "\<And>w j q. wrepr w (share own kvs j) q \<Longrightarrow> \<exists>w'. f w = Some w' \<and> wrepr w' (share own kvs j) (g j)"
  shows "\<exists>ws. seek_children ops f m = Some (m\<lparr>mi_children := ws\<rparr>) \<and> children_at own kvs g ws"
proof -
  have "\<exists>ws'. for_children f [0..<length (mi_children m)] (mi_children m) = Some ws' \<and> length ws' = length (mi_children m) \<and>
      (\<forall>i < length (mi_children m). wrepr (ws' ! i) (share own kvs i) (g i)) \<and>
      (\<forall>i < length (mi_children m). i \<notin> set [0..<length (mi_children m)] \<longrightarrow> ws' ! i = mi_children m ! i)"
    by (rule for_children_step) (use a f in \<open>auto simp: children_at_def\<close>)
  then show ?thesis using a by (auto simp: seek_children_def children_at_def)
qed

lemma turn_children_cut:
  assumes a: "children_at own kvs p (mi_children m)" and b: "b < length (mi_children m)" and "g b = p b"
    and "\<And>w j. j < length (mi_children m) \<Longrightarrow> j \<noteq> b \<Longrightarrow> wrepr w (share own kvs j) (p j) \<Longrightarrow>
      \<exists>w'. f w = Some w' \<and> wrepr w' (share own kvs j) (g j)"
  shows "\<exists>ws. turn_children f b m = Some (m\<lparr>mi_children := ws\<rparr>) \<and> children_at own kvs g ws \<and>
    length ws = length (mi_children m)"
proof -
  let ?js = "filter (\<lambda>i. i \<noteq> b) [0..<length (mi_children m)]"
  have "\<exists>ws'. for_children f ?js (mi_children m) = Some ws' \<and> length ws' = length (mi_children m) \<and>
      (\<forall>i < length (mi_children m). wrepr (ws' ! i) (share own kvs i) (g i)) \<and>
      (\<forall>i < length (mi_children m). i \<notin> set ?js \<longrightarrow> ws' ! i = mi_children m ! i)"
    by (rule for_children_step) (use assms in \<open>auto simp: children_at_def\<close>)
  then show ?thesis using a by (auto simp: turn_children_def children_at_def)
qed

lemma turn_forward_cut:
  assumes s: "sorted_source (Compare c) valid kvs" and i: "i < length kvs" and j: "own (kvs ! i) \<noteq> j"
    and w: "wrepr w (share own kvs j) p"
  shows "\<exists>w'. turn_forward wops c (fst (kvs ! i)) w = Some w' \<and> wrepr w' (share own kvs j) (at_cut own kvs (Suc i) j)"
proof -
  have v: "valid (fst (kvs ! i))" by (rule valid_nth [OF s i])
  have lb: "lower_bound (Compare c) (fst (kvs ! i)) (share own kvs j) = cut own kvs i j"
    using ordering.lower_bound_share [OF s v] ordering.lower_bound_self [OF s i] by simp
  have cs: "cut own kvs (Suc i) j = cut own kvs i j" using cut_Suc [OF i] j by simp
  obtain w1 where w1: "it_Seek wops (fst (kvs ! i)) w = Some w1" "wrepr w1 (share own kvs j) (at_cut own kvs i j)"
    using w_seek [OF w v] lb by auto
  show ?thesis
  proof (cases "cut own kvs i j < length (share own kvs j)")
    case False
    then show ?thesis using w1 w_valid [OF w1(2)] cs by (simp add: turn_forward_def at_pos_def)
  next
    case True
    then have r: "wrepr w1 (share own kvs j) (Some (cut own kvs i j))" using w1(2) by (simp add: at_pos_def)
    obtain g where g: "i \<le> g" "g < length kvs" "own (kvs ! g) = j" "share own kvs j ! cut own kvs i j = kvs ! g"
      using share_from_cut [OF order_refl True] by blast
    then have "i < g" using j by (cases "i = g") auto
    then obtain x where "Compare c (fst (kvs ! i)) (fst (kvs ! g)) = Some x" "x < 0" using cmp_pair [OF s _ g(2)] by blast
    then show ?thesis using w1 w_valid [OF r] w_at [OF r] g(4) cs by (simp add: turn_forward_def)
  qed
qed

lemma turn_back_cut:
  assumes s: "sorted_source (Compare c) valid kvs" and i: "i < length kvs"
    and w: "wrepr w (share own kvs j) p"
  shows "\<exists>w'. turn_back wops (fst (kvs ! i)) w = Some w' \<and> wrepr w' (share own kvs j) (before_cut own kvs i j)"
proof -
  have v: "valid (fst (kvs ! i))" by (rule valid_nth [OF s i])
  have lb: "lower_bound (Compare c) (fst (kvs ! i)) (share own kvs j) = cut own kvs i j"
    using ordering.lower_bound_share [OF s v] ordering.lower_bound_self [OF s i] by simp
  obtain w1 where w1: "it_Seek wops (fst (kvs ! i)) w = Some w1" "wrepr w1 (share own kvs j) (at_cut own kvs i j)"
    using w_seek [OF w v] lb by auto
  show ?thesis
  proof (cases "cut own kvs i j < length (share own kvs j)")
    case False
    then have "cut own kvs i j = length (share own kvs j)" using cut_le [of own kvs i j] by simp
    then show ?thesis using w1 w_valid [OF w1(2)] w_last [OF w1(2)] False by (auto simp: turn_back_def at_pos_def)
  next
    case True
    then have r: "wrepr w1 (share own kvs j) (Some (cut own kvs i j))" using w1(2) by (simp add: at_pos_def)
    then show ?thesis using w1 w_valid [OF r] w_prev [OF r] by (auto simp: turn_back_def)
  qed
qed

text \<open>The states of the iterator in these terms.\<close>

abbreviation mrepr :: "'s MergingIterator \<Rightarrow> entry list \<Rightarrow> nat option \<Rightarrow> bool" where
  "mrepr \<equiv> merge_repr c valid wrepr"

lemma repr_none: "mrepr m kvs None \<longleftrightarrow>
    mi_comparator m = c \<and> mi_current m = None \<and> (\<exists>own p. children_at own kvs p (mi_children m))"
  by (auto simp: merge_repr_def children_at_def choice_iff')

lemma repr_some: "mrepr m kvs (Some i) \<longleftrightarrow>
    mi_comparator m = c \<and> i < length kvs \<and> (\<exists>own. mi_current m = Some (own (kvs ! i)) \<and>
      children_at own kvs (if mi_forward m then at_cut own kvs i else before_cut own kvs (Suc i)) (mi_children m))"
  by (auto simp: merge_repr_def children_at_def)

lemma repr_children: "mrepr m kvs p \<Longrightarrow> mi_comparator m = c \<and> (\<exists>own p. children_at own kvs p (mi_children m))"
  by (cases p) (auto simp: repr_none repr_some)

lemma repr_forward:
  assumes "children_at own kvs (at_cut own kvs i) ws" and "mi_comparator m = c"
  shows "\<exists>m'. FindSmallest ops (m\<lparr>mi_children := ws\<rparr>) = Some m' \<and> mrepr (m'\<lparr>mi_forward := True\<rparr>) kvs (at_pos i kvs) \<and>
    mi_forward m' = mi_forward m"
  using FindSmallest_cut [of own kvs i "m\<lparr>mi_children := ws\<rparr>"] assms
  by (auto simp: at_pos_def repr_none repr_some)

lemma repr_backward:
  assumes "children_at own kvs (before_cut own kvs i) ws" and "mi_comparator m = c" and "i \<le> length kvs"
  shows "\<exists>m'. FindLargest ops (m\<lparr>mi_children := ws\<rparr>) = Some m' \<and> mrepr (m'\<lparr>mi_forward := False\<rparr>) kvs (last_pos i) \<and>
    mi_forward m' = mi_forward m"
  using FindLargest_cut [of own kvs i "m\<lparr>mi_children := ws\<rparr>"] assms
  by (auto simp: last_pos_def repr_none repr_some)

lemma mrepr_first:
  assumes "mrepr m kvs p"
  shows "\<exists>m'. MergingIterator_SeekToFirst ops m = Some m' \<and> mrepr m' kvs (at_pos 0 kvs)"
proof -
  obtain own q where a: "mi_comparator m = c" "children_at own kvs q (mi_children m)" using repr_children [OF assms] by blast
  have "\<exists>ws. seek_children ops (it_SeekToFirst wops) m = Some (m\<lparr>mi_children := ws\<rparr>) \<and> children_at own kvs (at_cut own kvs 0) ws"
    by (rule seek_children_cut [OF a(2)]) (use w_first in simp)
  then show ?thesis using repr_forward [OF _ a(1)] by (fastforce simp: MergingIterator_SeekToFirst_def)
qed

lemma mrepr_seek:
  assumes "mrepr m kvs p" and t: "valid t"
  shows "\<exists>m'. MergingIterator_Seek ops t m = Some m' \<and> mrepr m' kvs (at_pos (lower_bound (Compare c) t kvs) kvs)"
proof -
  let ?i = "lower_bound (Compare c) t kvs"
  obtain own q where a: "mi_comparator m = c" "children_at own kvs q (mi_children m)" using repr_children [OF assms(1)] by blast
  then have s: "sorted_source (Compare c) valid kvs" by (simp add: children_at_def)
  have "\<exists>ws. seek_children ops (it_Seek wops t) m = Some (m\<lparr>mi_children := ws\<rparr>) \<and> children_at own kvs (at_cut own kvs ?i) ws"
    by (rule seek_children_cut [OF a(2)]) (use w_seek [OF _ t] ordering.lower_bound_share [OF s t] in metis)
  then show ?thesis using repr_forward [OF _ a(1)] by (fastforce simp: MergingIterator_Seek_def)
qed

lemma mrepr_last:
  assumes "mrepr m kvs p"
  shows "\<exists>m'. MergingIterator_SeekToLast ops m = Some m' \<and> mrepr m' kvs (last_pos (length kvs))"
proof -
  obtain own q where a: "mi_comparator m = c" "children_at own kvs q (mi_children m)" using repr_children [OF assms] by blast
  have "\<exists>ws. seek_children ops (it_SeekToLast wops) m = Some (m\<lparr>mi_children := ws\<rparr>) \<and>
      children_at own kvs (before_cut own kvs (length kvs)) ws"
    by (rule seek_children_cut [OF a(2)]) (use w_last in \<open>simp add: cut_all\<close>)
  then show ?thesis using repr_backward [OF _ a(1)] by (fastforce simp: MergingIterator_SeekToLast_def)
qed

lemma children_at_move:
  assumes a: "children_at own kvs p ws" and b: "b < length ws" and w: "wrepr w (share own kvs b) (q b)"
    and o: "\<And>j. j < length ws \<Longrightarrow> j \<noteq> b \<Longrightarrow> p j = q j"
  shows "children_at own kvs q (ws[b := w])"
  using assms by (auto simp: children_at_def nth_list_update)

lemma repr_key:
  assumes "mrepr m kvs (Some i)"
  shows "MergingIterator_key ops m = Some (fst (kvs ! i)) \<and> MergingIterator_value ops m = Some (snd (kvs ! i))"
proof -
  obtain own where o: "i < length kvs" "mi_current m = Some (own (kvs ! i))"
    "children_at own kvs (if mi_forward m then at_cut own kvs i else before_cut own kvs (Suc i)) (mi_children m)"
    using assms by (auto simp: repr_some)
  let ?b = "own (kvs ! i)"
  have b: "?b < length (mi_children m)" using o(1,3) by (simp add: children_at_def)
  have "(if mi_forward m then at_cut own kvs i else before_cut own kvs (Suc i)) ?b = Some (cut own kvs i ?b)"
    using share_at_cut [OF o(1) refl] cut_Suc [OF o(1), of own ?b] by (simp add: at_pos_def last_pos_def)
  from children_at_some [OF o(3) b this] show ?thesis
    using o(2) share_at_cut [OF o(1) refl, of own] by (simp add: MergingIterator_key_def MergingIterator_value_def)
qed

lemma mrepr_next:
  assumes r: "mrepr m kvs (Some i)"
  shows "\<exists>m'. MergingIterator_Next ops m = Some m' \<and> mrepr m' kvs (at_pos (i + 1) kvs)"
proof -
  obtain own where o: "mi_comparator m = c" "i < length kvs" "mi_current m = Some (own (kvs ! i))"
    "children_at own kvs (if mi_forward m then at_cut own kvs i else before_cut own kvs (Suc i)) (mi_children m)"
    using r by (auto simp: repr_some)
  let ?b = "own (kvs ! i)"
  have s: "sorted_source (Compare c) valid kvs" and b: "?b < length (mi_children m)" using o(2,4) by (simp_all add: children_at_def)
  have eb: "at_cut own kvs i ?b = Some (cut own kvs i ?b)" "before_cut own kvs (Suc i) ?b = Some (cut own kvs i ?b)"
    "cut own kvs (Suc i) ?b = cut own kvs i ?b + 1"
    using share_at_cut [OF o(2) refl] cut_Suc [OF o(2), of own ?b] by (simp_all add: at_pos_def last_pos_def)
  define g where "g = (at_cut own kvs (Suc i))(?b := Some (cut own kvs i ?b))"
  have eq: "at_cut own kvs i j = g j" for j using cut_Suc [OF o(2), of own j] eb by (simp add: g_def)
  obtain ws where ws: "(if \<not> mi_forward m then do {
            k \<leftarrow> MergingIterator_key ops m;
            m \<leftarrow> turn_children (turn_forward wops (mi_comparator m) k) ?b m;
            Some (m\<lparr>mi_forward := True\<rparr>) }
          else Some m) = Some (m\<lparr>mi_children := ws, mi_forward := True\<rparr>)" "children_at own kvs g ws" "length ws = length (mi_children m)"
  proof (cases "mi_forward m")
    case True
    then have "children_at own kvs g (mi_children m)" using o(4) eq by (simp add: children_at_def)
    then show thesis using that [of "mi_children m"] True by simp
  next
    case False
    have "\<exists>ws. turn_children (turn_forward wops c (fst (kvs ! i))) ?b m = Some (m\<lparr>mi_children := ws\<rparr>) \<and>
        children_at own kvs g ws \<and> length ws = length (mi_children m)"
    proof (rule turn_children_cut [OF _ b])
      show "children_at own kvs (before_cut own kvs (Suc i)) (mi_children m)" using o(4) False by simp
      show "g ?b = before_cut own kvs (Suc i) ?b" using eb(2) by (simp add: g_def)
      show "\<exists>w'. turn_forward wops c (fst (kvs ! i)) w = Some w' \<and> wrepr w' (share own kvs j) (g j)"
        if "j \<noteq> ?b" "wrepr w (share own kvs j) (before_cut own kvs (Suc i) j)" for w j
        using turn_forward_cut [OF s o(2) that(1) [symmetric] that(2)] that(1) by (simp add: g_def)
    qed
    then obtain ws where "turn_children (turn_forward wops c (fst (kvs ! i))) ?b m = Some (m\<lparr>mi_children := ws\<rparr>)"
      "children_at own kvs g ws" "length ws = length (mi_children m)" by blast
    then show thesis using that [of ws] repr_key [OF r] False o(1) by simp
  qed
  have "wrepr (ws ! ?b) (share own kvs ?b) (Some (cut own kvs i ?b))" using ws(2,3) b by (auto simp: children_at_def g_def)
  then obtain w where w: "it_Next wops (ws ! ?b) = Some w" "wrepr w (share own kvs ?b) (at_cut own kvs (Suc i) ?b)"
    using w_next eb(3) by fastforce
  have "children_at own kvs (at_cut own kvs (Suc i)) (ws[?b := w])"
    by (rule children_at_move [OF ws(2)]) (use b ws(3) w(2) in \<open>auto simp: g_def\<close>)
  from repr_forward [OF this, of "m\<lparr>mi_forward := True\<rparr>"] obtain m' where m':
    "FindSmallest ops (m\<lparr>mi_forward := True, mi_children := ws[?b := w]\<rparr>) = Some m'"
    "mrepr (m'\<lparr>mi_forward := True\<rparr>) kvs (at_pos (Suc i) kvs)" "mi_forward m'" using o(1) by auto
  have "m'\<lparr>mi_forward := True\<rparr> = m'" using m'(3) by simp
  moreover have "m\<lparr>mi_children := ws[?b := w], mi_forward := True\<rparr> = m\<lparr>mi_forward := True, mi_children := ws[?b := w]\<rparr>" by simp
  ultimately show ?thesis using ws(1) w(1) m'(1,2) o(3) by (simp add: MergingIterator_Next_def)
qed

lemma mrepr_prev:
  assumes r: "mrepr m kvs (Some i)"
  shows "\<exists>m'. MergingIterator_Prev ops m = Some m' \<and> mrepr m' kvs (last_pos i)"
proof -
  obtain own where o: "mi_comparator m = c" "i < length kvs" "mi_current m = Some (own (kvs ! i))"
    "children_at own kvs (if mi_forward m then at_cut own kvs i else before_cut own kvs (Suc i)) (mi_children m)"
    using r by (auto simp: repr_some)
  let ?b = "own (kvs ! i)"
  have s: "sorted_source (Compare c) valid kvs" and b: "?b < length (mi_children m)" using o(2,4) by (simp_all add: children_at_def)
  have eb: "at_cut own kvs i ?b = Some (cut own kvs i ?b)" "before_cut own kvs (Suc i) ?b = Some (cut own kvs i ?b)"
    using share_at_cut [OF o(2) refl] cut_Suc [OF o(2), of own ?b] by (simp_all add: at_pos_def last_pos_def)
  define g where "g = (before_cut own kvs i)(?b := Some (cut own kvs i ?b))"
  have eq: "before_cut own kvs (Suc i) j = g j" for j using cut_Suc [OF o(2), of own j] eb(2) by (auto simp: g_def)
  obtain ws where ws: "(if mi_forward m then do {
            k \<leftarrow> MergingIterator_key ops m;
            m \<leftarrow> turn_children (turn_back wops k) ?b m;
            Some (m\<lparr>mi_forward := False\<rparr>) }
          else Some m) = Some (m\<lparr>mi_children := ws, mi_forward := False\<rparr>)" "children_at own kvs g ws" "length ws = length (mi_children m)"
  proof (cases "mi_forward m")
    case False
    then have "children_at own kvs g (mi_children m)" using o(4) eq by (simp add: children_at_def)
    then show thesis using that [of "mi_children m"] False by simp
  next
    case True
    have "\<exists>ws. turn_children (turn_back wops (fst (kvs ! i))) ?b m = Some (m\<lparr>mi_children := ws\<rparr>) \<and>
        children_at own kvs g ws \<and> length ws = length (mi_children m)"
    proof (rule turn_children_cut [OF _ b])
      show "children_at own kvs (at_cut own kvs i) (mi_children m)" using o(4) True by simp
      show "g ?b = at_cut own kvs i ?b" using eb(1) by (simp add: g_def)
      show "\<exists>w'. turn_back wops (fst (kvs ! i)) w = Some w' \<and> wrepr w' (share own kvs j) (g j)"
        if "j \<noteq> ?b" "wrepr w (share own kvs j) (at_cut own kvs i j)" for w j
        using turn_back_cut [OF s o(2) that(2)] that(1) by (simp add: g_def)
    qed
    then obtain ws where "turn_children (turn_back wops (fst (kvs ! i))) ?b m = Some (m\<lparr>mi_children := ws\<rparr>)"
      "children_at own kvs g ws" "length ws = length (mi_children m)" by blast
    then show thesis using that [of ws] repr_key [OF r] True by simp
  qed
  have "wrepr (ws ! ?b) (share own kvs ?b) (Some (cut own kvs i ?b))" using ws(2,3) b by (auto simp: children_at_def g_def)
  then obtain w where w: "it_Prev wops (ws ! ?b) = Some w" "wrepr w (share own kvs ?b) (before_cut own kvs i ?b)"
    using w_prev by fastforce
  have "children_at own kvs (before_cut own kvs i) (ws[?b := w])"
    by (rule children_at_move [OF ws(2)]) (use b ws(3) w(2) in \<open>auto simp: g_def\<close>)
  from repr_backward [OF this, of "m\<lparr>mi_forward := False\<rparr>"] obtain m' where m':
    "FindLargest ops (m\<lparr>mi_forward := False, mi_children := ws[?b := w]\<rparr>) = Some m'"
    "mrepr (m'\<lparr>mi_forward := False\<rparr>) kvs (last_pos i)" "\<not> mi_forward m'" using o(1,2) by auto
  have "m'\<lparr>mi_forward := False\<rparr> = m'" using m'(3) by simp
  moreover have "m\<lparr>mi_children := ws[?b := w], mi_forward := False\<rparr> = m\<lparr>mi_forward := False, mi_children := ws[?b := w]\<rparr>" by simp
  ultimately show ?thesis using ws(1) w(1) m'(1,2) o(3) by (simp add: MergingIterator_Prev_def)
qed

lemma status_loop_ok:
  "(\<And>w. w \<in> set ws \<Longrightarrow> \<exists>st. it_status wops w = Some st \<and> status_ok st) \<Longrightarrow> status_ok st0 \<Longrightarrow>
   \<exists>st. status_loop wops ws st0 = Some st \<and> status_ok st"
  by (induction ws arbitrary: st0) fastforce+

lemma mrepr_status:
  assumes "mrepr m kvs p"
  shows "\<exists>st. MergingIterator_status ops m = Some st \<and> status_ok st"
proof -
  obtain own q where "children_at own kvs q (mi_children m)" using repr_children [OF assms] by blast
  then have "\<exists>st. it_status wops w = Some st \<and> status_ok st" if "w \<in> set (mi_children m)" for w
    using that w_status by (force simp: children_at_def in_set_conv_nth)
  then show ?thesis unfolding MergingIterator_status_def by (rule status_loop_ok) (auto simp: Status_OK_def status_ok_def)
qed

end

sublocale merging \<subseteq> merged: iterator_contract "Compare c" valid "MergingIterator_ops ops" "merge_repr c valid (wrapper_repr repr)"
proof unfold_locales
  fix m kvs p assume r: "mrepr m kvs p"
  show "sorted_source (Compare c) valid kvs" using r by (simp add: merge_repr_def)
  show "it_Valid (MergingIterator_ops ops) m = (p \<noteq> None)"
    using r by (cases p) (auto simp: MergingIterator_ops_def MergingIterator_Valid_def repr_none repr_some)
  show "\<exists>st. it_status (MergingIterator_ops ops) m = Some st \<and> status_ok st"
    using mrepr_status [OF r] by (simp add: MergingIterator_ops_def)
  show "\<exists>m'. it_SeekToFirst (MergingIterator_ops ops) m = Some m' \<and> mrepr m' kvs (at_pos 0 kvs)"
    using mrepr_first [OF r] by (simp add: MergingIterator_ops_def)
  show "\<exists>m'. it_SeekToLast (MergingIterator_ops ops) m = Some m' \<and> mrepr m' kvs (last_pos (length kvs))"
    using mrepr_last [OF r] by (simp add: MergingIterator_ops_def)
  show "\<exists>m'. it_Seek (MergingIterator_ops ops) t m = Some m' \<and> mrepr m' kvs (at_pos (lower_bound (Compare c) t kvs) kvs)"
    if "valid t" for t using mrepr_seek [OF r that] by (simp add: MergingIterator_ops_def)
next
  fix m kvs i assume r: "mrepr m kvs (Some i)"
  show "i < length kvs \<and> it_key (MergingIterator_ops ops) m = Some (fst (kvs ! i)) \<and>
      it_value (MergingIterator_ops ops) m = Some (snd (kvs ! i))"
    using repr_key [OF r] r by (simp add: MergingIterator_ops_def repr_some)
  show "\<exists>m'. it_Next (MergingIterator_ops ops) m = Some m' \<and> mrepr m' kvs (at_pos (i + 1) kvs)"
    using mrepr_next [OF r] by (simp add: MergingIterator_ops_def)
  show "\<exists>m'. it_Prev (MergingIterator_ops ops) m = Some m' \<and> mrepr m' kvs (last_pos i)"
    using mrepr_prev [OF r] by (simp add: MergingIterator_ops_def)
qed

context merging
begin

lemmas merged_contract = merged.iterator_contract_axioms

end

section \<open>Correctness\<close>

text \<open>The shares of a list that is the sorted union of others.\<close>

lemma those_map_Some: "those (map Some xs) = Some xs"
  by (induction xs) simp_all

lemma distinct_concat_one:
  "distinct (concat xss) \<Longrightarrow> j < length xss \<Longrightarrow> l < length xss \<Longrightarrow> e \<in> set (xss ! j) \<Longrightarrow> e \<in> set (xss ! l) \<Longrightarrow> j = l"
proof (induction xss arbitrary: j l)
  case (Cons xs xss)
  then show ?case by (cases j; cases l) (auto simp: disjoint_iff dest: nth_mem)
qed simp

lemma concat_shares:
  fixes kvs :: "entry list"
  assumes s: "sorted_source cmp valid kvs" and d: "distinct kvs" and m: "mset kvs = mset (concat xss)"
    and xs: "\<And>xs. xs \<in> set xss \<Longrightarrow> sorted_source cmp valid xs"
    and u: "\<And>xs ys :: entry list. sorted_source cmp valid xs \<Longrightarrow> sorted_source cmp valid ys \<Longrightarrow> set xs = set ys \<Longrightarrow> xs = ys"
  shows "\<exists>own. (\<forall>e \<in> set kvs. own e < length xss) \<and> (\<forall>j < length xss. share own kvs j = xss ! j)"
proof -
  have set: "set kvs = set (concat xss)" using m by (metis set_mset_mset)
  have dc: "distinct (concat xss)" using d m by (metis mset_eq_imp_distinct_iff)
  have "\<forall>e. e \<in> set kvs \<longrightarrow> (\<exists>j. j < length xss \<and> e \<in> set (xss ! j))" unfolding set set_concat by (metis UN_E in_set_conv_nth)
  then obtain own where own: "own e < length xss" "e \<in> set (xss ! own e)" if "e \<in> set kvs" for e by metis
  have "share own kvs j = xss ! j" if j: "j < length xss" for j
  proof (rule u)
    show "sorted_source cmp valid (xss ! j)" using xs j by simp
    show "sorted_source cmp valid (share own kvs j)" using s by (simp add: sorted_source_def share_def sorted_wrt_filter)
    show "set (share own kvs j) = set (xss ! j)"
    proof (rule set_eqI)
      fix e
      have "e \<in> set (xss ! j) \<Longrightarrow> e \<in> set kvs" using j by (auto simp: set)
      then show "e \<in> set (share own kvs j) \<longleftrightarrow> e \<in> set (xss ! j)"
        using own [of e] distinct_concat_one [OF dc j, of "own e" e] by (auto simp: share_def)
    qed
  qed
  then show ?thesis using own(1) by blast
qed

context merging
begin

lemma sorted_source_distinct: "sorted_source (Compare c) valid kvs \<Longrightarrow> distinct kvs"
proof -
  assume s: "sorted_source (Compare c) valid kvs"
  have "kvs ! g \<noteq> kvs ! h" if gh: "g < h" "h < length kvs" for g h
  proof
    assume e: "kvs ! g = kvs ! h"
    obtain r r' where "Compare c (fst (kvs ! g)) (fst (kvs ! h)) = Some r" "r < 0"
      "Compare c (fst (kvs ! h)) (fst (kvs ! g)) = Some r'" "r' > 0" using cmp_pair [OF s gh] by blast
    then show False using e by simp
  qed
  then show ?thesis unfolding distinct_conv_nth by (metis linorder_neqE_nat)
qed

lemma sorted_source_unique:
  "sorted_source (Compare c) valid xs \<Longrightarrow> sorted_source (Compare c) valid ys \<Longrightarrow> set xs = set ys \<Longrightarrow> xs = ys"
proof (induction xs arbitrary: ys)
  case (Cons x xs)
  then obtain y ys' where ys: "ys = y # ys'" by (cases ys) auto
  have d: "distinct (x # xs)" "distinct ys" using Cons.prems sorted_source_distinct by blast+
  have "x = y"
  proof (rule ccontr)
    assume n: "x \<noteq> y"
    then have "before (Compare c) (fst x) (fst y)" "before (Compare c) (fst y) (fst x)" "valid (fst x)" "valid (fst y)"
      using Cons.prems ys by (auto simp: sorted_source_def)
    then show False using compare_sym [of "fst x" "fst y"] by (auto simp: before_def sgn_if split: if_splits)
  qed
  moreover have "set xs = set ys'" using Cons.prems(3) d ys calculation by auto
  ultimately show ?case using Cons.IH [of ys'] Cons.prems(1,2) ys by (simp add: sorted_source_def)
qed simp

lemma new_merging_repr:
  assumes n: "length its = length xss" and its: "\<And>j. j < length its \<Longrightarrow> \<exists>q. repr (its ! j) (xss ! j) q"
    and s: "sorted_source (Compare c) valid kvs" and m: "mset kvs = mset (concat xss)"
  shows "\<exists>m. new_MergingIterator ops c its = Some m \<and> mrepr m kvs None"
proof -
  have "\<exists>w. wrapper_Set ops (Some (its ! j)) new_IteratorWrapper = Some w \<and> (\<exists>q. wrepr w (xss ! j) q)" if "j < length its" for j
    using its [OF that] wrapper_UpdateI [OF child.iterator_contract_axioms] by (fastforce simp: wrapper_Set_def)
  then obtain w where w: "wrapper_Set ops (Some (its ! j)) new_IteratorWrapper = Some (w j)" "\<exists>q. wrepr (w j) (xss ! j) q"
    if "j < length its" for j by metis
  have "map (\<lambda>s. wrapper_Set ops (Some s) new_IteratorWrapper) its = map Some (map w [0..<length its])"
    by (rule nth_equalityI) (use w(1) in auto)
  then have th: "those (map (\<lambda>s. wrapper_Set ops (Some s) new_IteratorWrapper) its) = Some (map w [0..<length its])"
    by (simp only: those_map_Some)
  have "sorted_source (Compare c) valid xs" if "xs \<in> set xss" for xs
    using that its n child.repr_sorted by (metis in_set_conv_nth)
  then obtain own where own: "\<forall>e \<in> set kvs. own e < length xss" "\<forall>j < length xss. share own kvs j = xss ! j"
    using concat_shares [OF s sorted_source_distinct [OF s] m _ sorted_source_unique] by blast
  show ?thesis using th own n w(2) s by (auto simp: new_MergingIterator_def merge_repr_def)
qed

end

text \<open>
  C8: the merging iterator over the iterators of sorted sources, no two entries of which have equal keys, is an
  iterator over their sorted union: it goes through exactly those entries, and shows after every
  sequence of moves, with any changes of direction, what a cursor over the union shows.
\<close>

theorem merging_iterator_correct:
  assumes "merging c valid ops repr" and "length its = length xss" and "2 \<le> length its"
    and "\<forall>j < length its. \<exists>q. repr (its ! j) (xss ! j) q"
    and "sorted_source (Compare c) valid kvs" and "mset kvs = mset (concat xss)"
  shows "\<exists>m. NewMergingIterator ops c its = Some (Merged m) \<and>
    read_all (MergingIterator_ops ops) (length kvs) m = Some kvs \<and>
    (\<forall>mvs os. list_all (move_valid valid) mvs \<longrightarrow> cursor_run (Compare c) kvs mvs None = Some os \<longrightarrow>
      iter_run (MergingIterator_ops ops) mvs m = Some os)"
proof -
  note merged = merging.merged_contract [OF assms(1)]
  obtain m where m: "new_MergingIterator ops c its = Some m" "merge_repr c valid (wrapper_repr repr) m kvs None"
    using merging.new_merging_repr [OF assms(1,2) _ assms(5,6)] assms(4) by blast
  have "NewMergingIterator ops c its = Some (Merged m)"
    using m(1) assms(3) by (auto simp: NewMergingIterator_def split: list.split)
  moreover have "read_all (MergingIterator_ops ops) (length kvs) m = Some kvs"
    using iterator_contract.read_all_repr [OF merged m(2), of "length kvs"] by simp
  ultimately show ?thesis using iterator_contract.iter_run_repr [OF merged m(2)] by blast
qed

text \<open>The children can be iterators over blocks.\<close>

interpretation bytewise_blocks: merging BytewiseComparator "\<lambda>_. True" BlockIter_ops "block_repr BytewiseComparator (\<lambda>_. True)"
  by unfold_locales

sublocale comparator_contract \<subseteq> block_merge: merging c valid BlockIter_ops "block_repr c valid"
  by unfold_locales

theorem merging_iterator_correct_witness:
  "\<exists>its m. NewMergingIterator BlockIter_ops BytewiseComparator its = Some (Merged m) \<and>
    iter_run (MergingIterator_ops BlockIter_ops) [MoveSeek [2], MovePrev, MoveNext, MoveNext, MoveNext] m =
      Some [Some ([2], [7]), Some ([1], [5]), Some ([2], [7]), Some ([3], [6]), None]"
proof -
  let ?xs = "[([1], [5]), ([3], [6])] :: entry list" and ?ys = "[([2], [7])] :: entry list"
  let ?kvs = "[([1], [5]), ([2], [7]), ([3], [6])] :: entry list"
  let ?mvs = "[MoveSeek [2], MovePrev, MoveNext, MoveNext, MoveNext]"
  have s: "sorted_source (Compare BytewiseComparator) (\<lambda>_. True) ?xs" "sorted_source (Compare BytewiseComparator) (\<lambda>_. True) ?ys"
    "sorted_source (Compare BytewiseComparator) (\<lambda>_. True) ?kvs" by code_simp+
  have l: "map_option length (build_block BytewiseComparator 2 ?xs) = Some 18"
    "map_option length (build_block BytewiseComparator 2 ?ys) = Some 13" by code_simp+
  have r: "cursor_run (Compare BytewiseComparator) ?kvs ?mvs None =
      Some [Some ([2], [7]), Some ([1], [5]), Some ([2], [7]), Some ([3], [6]), None]" by code_simp
  obtain i1 where i1: "block_repr BytewiseComparator (\<lambda>_. True) i1 ?xs None"
    using bytewise.build_block_repr [OF s(1), of 2] l(1) by fastforce
  obtain i2 where i2: "block_repr BytewiseComparator (\<lambda>_. True) i2 ?ys None"
    using bytewise.build_block_repr [OF s(2), of 2] l(2) by fastforce
  have "\<forall>j < length [i1, i2]. \<exists>q. block_repr BytewiseComparator (\<lambda>_. True) ([i1, i2] ! j) ([?xs, ?ys] ! j) q"
    using i1 i2 by (auto simp: less_Suc_eq)
  moreover have "mset ?kvs = mset (concat [?xs, ?ys])" by simp
  ultimately obtain m where m: "NewMergingIterator BlockIter_ops BytewiseComparator [i1, i2] = Some (Merged m)"
    "\<forall>mvs os. list_all (move_valid (\<lambda>_. True)) mvs \<longrightarrow> cursor_run (Compare BytewiseComparator) ?kvs mvs None = Some os \<longrightarrow>
      iter_run (MergingIterator_ops BlockIter_ops) mvs m = Some os"
    using merging_iterator_correct [OF bytewise_blocks.merging_axioms, of "[i1, i2]" "[?xs, ?ys]" ?kvs] s(3) by auto
  have "list_all (move_valid (\<lambda>_. True)) ?mvs" by simp
  then show ?thesis using m r by blast
qed

end
