(* ===== verification/LdbFormat.thy ===== *)
theory LdbFormat
  imports LdbHash LdbComparator LdbCrc LdbFile "HOL-Library.Monad_Syntax"
begin

text \<open>
  The format of table files: the options that tables are built and read with
  (\<open>include/leveldb/options.h\<close>), block handles, the footer and the reading of a block with its
  trailer, \<open>table/format.h\<close> and \<open>table/format.cc\<close>. \<open>None\<close> is a failing assert or an access out of
  bounds. The Snappy library is a parameter; \<open>no_snappy\<close> is what \<open>port/port_posix.h\<close> has in its place
  where the build does not define \<open>SNAPPY\<close>.
\<close>

section \<open>Options\<close>

datatype CompressionType = kNoCompression | kSnappyCompression

definition compression_code :: "CompressionType \<Rightarrow> pb_byte_t" where
  "compression_code t = (case t of kNoCompression \<Rightarrow> 0 | kSnappyCompression \<Rightarrow> 1)"

text \<open>The environment, the logger and the block cache are not part of the record.\<close>

record Options =
  opt_comparator :: Comparator
  opt_create_if_missing :: bool
  opt_error_if_exists :: bool
  opt_paranoid_checks :: bool
  opt_write_buffer_size :: nat
  opt_max_open_files :: int
  opt_block_size :: nat
  opt_block_restart_interval :: int
  opt_compression :: CompressionType
  opt_filter_policy :: "(slice \<times> FilterPolicy) option"

definition new_Options :: Options where
  "new_Options =
     \<lparr>opt_comparator = BytewiseComparator, opt_create_if_missing = False, opt_error_if_exists = False,
      opt_paranoid_checks = False, opt_write_buffer_size = push_bit 20 4, opt_max_open_files = 1000,
      opt_block_size = 4096, opt_block_restart_interval = 16, opt_compression = kSnappyCompression,
      opt_filter_policy = None\<rparr>"

record ReadOptions =
  ro_verify_checksums :: bool
  ro_fill_cache :: bool
  ro_snapshot :: "uint64_t option"

definition new_ReadOptions :: ReadOptions where
  "new_ReadOptions = \<lparr>ro_verify_checksums = False, ro_fill_cache = True, ro_snapshot = None\<rparr>"

section \<open>Snappy\<close>

record Snappy =
  Snappy_Compress :: "slice \<Rightarrow> slice option"
  Snappy_GetUncompressedLength :: "slice \<Rightarrow> nat option"
  Snappy_Uncompress :: "slice \<Rightarrow> slice option"

definition no_snappy :: Snappy where
  "no_snappy =
     \<lparr>Snappy_Compress = (\<lambda>_. None), Snappy_GetUncompressedLength = (\<lambda>_. None), Snappy_Uncompress = (\<lambda>_. None)\<rparr>"

text \<open>
  What the tables rely on: what was compressed is uncompressed to the same data, and the format stores
  the length of the data in 32 bits.
\<close>

locale snappy_codec =
  fixes sn :: Snappy
  assumes uncompress: "Snappy_Compress sn raw = Some z \<Longrightarrow>
    Snappy_GetUncompressedLength sn z = Some (length raw) \<and> Snappy_Uncompress sn z = Some raw"
    and compress_length: "Snappy_Compress sn raw = Some z \<Longrightarrow> length raw < 4294967296"

interpretation no_snappy: snappy_codec no_snappy
  by unfold_locales (simp_all add: no_snappy_def)

section \<open>Block handles\<close>

record BlockHandle =
  bh_offset :: uint64_t
  bh_size :: uint64_t

definition new_BlockHandle :: BlockHandle where
  "new_BlockHandle = \<lparr>bh_offset = NOT 0, bh_size = NOT 0\<rparr>"

definition kMaxEncodedLength :: nat where "kMaxEncodedLength = 10 + 10"

definition BlockHandle_EncodeTo :: "BlockHandle \<Rightarrow> slice \<Rightarrow> slice option" where
  "BlockHandle_EncodeTo h dst =
     (if bh_offset h \<noteq> NOT 0 \<and> bh_size h \<noteq> NOT 0
      then Some (PutVarint64 (PutVarint64 dst (bh_offset h)) (bh_size h)) else None)"

text \<open>The status, the handle, whose fields are set one after the other, and the rest of the input.\<close>

definition BlockHandle_DecodeFrom :: "slice \<Rightarrow> BlockHandle \<Rightarrow> Status \<times> BlockHandle \<times> slice" where
  "BlockHandle_DecodeFrom input h =
     (case GetVarint64 input of None \<Rightarrow> (Corruption (str ''bad block handle'') [], h, input)
      | Some (offset, input) \<Rightarrow>
          let h = h\<lparr>bh_offset := offset\<rparr>
          in case GetVarint64 input of None \<Rightarrow> (Corruption (str ''bad block handle'') [], h, input)
             | Some (sz, input) \<Rightarrow> (Status_OK, h\<lparr>bh_size := sz\<rparr>, input))"

section \<open>The footer\<close>

record Footer =
  metaindex_handle :: BlockHandle
  index_handle :: BlockHandle

definition new_Footer :: Footer where
  "new_Footer = \<lparr>metaindex_handle = new_BlockHandle, index_handle = new_BlockHandle\<rparr>"

definition kEncodedLength :: nat where "kEncodedLength = 2 * kMaxEncodedLength + 8"

definition kTableMagicNumber :: uint64_t where "kTableMagicNumber = 0xdb4775248b80fb57"

text \<open>\<open>resize\<close> of a string.\<close>

definition resize :: "nat \<Rightarrow> slice \<Rightarrow> slice" where
  "resize n s = take n s @ replicate (n - length s) 0"

definition Footer_EncodeTo :: "Footer \<Rightarrow> slice \<Rightarrow> slice option" where
  "Footer_EncodeTo f dst =
     do {
       let original_size = length dst;
       dst \<leftarrow> BlockHandle_EncodeTo (metaindex_handle f) dst;
       dst \<leftarrow> BlockHandle_EncodeTo (index_handle f) dst;
       let dst = resize (2 * kMaxEncodedLength) dst;
       let dst = PutFixed32 dst (ucast (kTableMagicNumber AND 0xffffffff));
       let dst = PutFixed32 dst (ucast (drop_bit 32 kTableMagicNumber));
       if length dst = original_size + kEncodedLength then Some dst else None
     }"

definition Footer_DecodeFrom :: "slice \<Rightarrow> Footer \<Rightarrow> (Status \<times> Footer \<times> slice) option" where
  "Footer_DecodeFrom input f =
     do {
       magic_lo \<leftarrow> DecodeFixed32 (drop (kEncodedLength - 8) input);
       magic_hi \<leftarrow> DecodeFixed32 (drop (kEncodedLength - 8 + 4) input);
       let magic = push_bit 32 (ucast magic_hi) OR ucast magic_lo;
       if magic \<noteq> kTableMagicNumber then
         Some (Corruption (str ''not an sstable (bad magic number)'') [], f, input)
       else
         let (s, h, rest) = BlockHandle_DecodeFrom input (metaindex_handle f);
             f = f\<lparr>metaindex_handle := h\<rparr>
         in if \<not> status_ok s then Some (s, f, rest)
            else
              let (s, h, rest) = BlockHandle_DecodeFrom rest (index_handle f);
                  f = f\<lparr>index_handle := h\<rparr>
              in if \<not> status_ok s then Some (s, f, rest)
                 else Some (s, f, drop kEncodedLength input)
     }"

section \<open>Reading a block\<close>

definition kBlockTrailerSize :: uint64_t where "kBlockTrailerSize = 5"

record BlockContents =
  bc_data :: slice
  bc_cachable :: bool
  bc_heap_allocated :: bool

definition no_contents :: BlockContents where
  "no_contents = \<lparr>bc_data = [], bc_cachable = False, bc_heap_allocated = False\<rparr>"

text \<open>The sizes are those of \<open>size_t\<close>, whose sums wrap around.\<close>

definition ReadBlock ::
  "Snappy \<Rightarrow> RandomAccessFile \<Rightarrow> ReadOptions \<Rightarrow> BlockHandle \<Rightarrow> (Status \<times> BlockContents) option" where
  "ReadBlock sn file options handle =
     (let n = bh_size handle;
          (s, contents, scratch) = raf_Read file (bh_offset handle) (n + kBlockTrailerSize)
      in if \<not> status_ok s then Some (s, no_contents)
         else if of_nat (length contents) \<noteq> n + kBlockTrailerSize
         then Some (Corruption (str ''truncated block read'') [], no_contents)
         else if length contents \<le> unat n then None
         else do {
           good \<leftarrow> (if ro_verify_checksums options then do {
               stored \<leftarrow> DecodeFixed32 (drop (unat n + 1) contents);
               Some (Value 0 (take (unat n + 1) contents) = Unmask stored)
             }
             else Some True);
           if \<not> good then Some (Corruption (str ''block checksum mismatch'') [], no_contents)
           else if contents ! unat n = compression_code kNoCompression then
             Some (Status_OK, \<lparr>bc_data = take (unat n) contents, bc_cachable = scratch, bc_heap_allocated = scratch\<rparr>)
           else if contents ! unat n = compression_code kSnappyCompression then
             (case Snappy_GetUncompressedLength sn (take (unat n) contents) of
                None \<Rightarrow> Some (Corruption (str ''corrupted compressed block contents'') [], no_contents)
              | Some ulength \<Rightarrow>
                  (case Snappy_Uncompress sn (take (unat n) contents) of
                     None \<Rightarrow> Some (Corruption (str ''corrupted compressed block contents'') [], no_contents)
                   | Some u \<Rightarrow> if length u \<noteq> ulength then None
                       else Some (Status_OK, \<lparr>bc_data = u, bc_cachable = True, bc_heap_allocated = True\<rparr>)))
           else Some (Corruption (str ''bad block type'') [], no_contents)
         })"

section \<open>Round trips\<close>

definition handle_set :: "BlockHandle \<Rightarrow> bool" where
  "handle_set h \<longleftrightarrow> bh_offset h \<noteq> NOT 0 \<and> bh_size h \<noteq> NOT 0"

definition handle_bytes :: "BlockHandle \<Rightarrow> slice" where
  "handle_bytes h = EncodeVarint64 (bh_offset h) @ EncodeVarint64 (bh_size h)"

lemma BlockHandle_Encode: "handle_set h \<Longrightarrow> BlockHandle_EncodeTo h dst = Some (dst @ handle_bytes h)"
  by (simp add: BlockHandle_EncodeTo_def handle_set_def handle_bytes_def PutVarint64_def)

lemma BlockHandle_Decode: "BlockHandle_DecodeFrom (handle_bytes h @ rest) h0 = (Status_OK, h, rest)"
  by (simp add: BlockHandle_DecodeFrom_def handle_bytes_def GetVarint_written)

lemma handle_bytes_length: "length (handle_bytes h) \<le> kMaxEncodedLength"
  using varint_bytes_le_10 [of "bh_offset h"] varint_bytes_le_10 [of "bh_size h"]
  by (simp add: handle_bytes_def EncodeVarint64_bytes kMaxEncodedLength_def)

definition footer_bytes :: "Footer \<Rightarrow> slice" where
  "footer_bytes f =
     resize (2 * kMaxEncodedLength) (handle_bytes (metaindex_handle f) @ handle_bytes (index_handle f)) @
     EncodeFixed32 (ucast (kTableMagicNumber AND 0xffffffff)) @ EncodeFixed32 (ucast (drop_bit 32 kTableMagicNumber))"

lemma resize_length [simp]: "length (resize n s) = n"
  by (simp add: resize_def)

lemma resize_short: "length s \<le> n \<Longrightarrow> resize n s = s @ replicate (n - length s) 0"
  by (simp add: resize_def)

lemma length_footer_bytes: "length (footer_bytes f) = kEncodedLength"
  by (simp add: footer_bytes_def kEncodedLength_def)

lemma Footer_Encode:
  assumes "handle_set (metaindex_handle f)" and "handle_set (index_handle f)"
  shows "Footer_EncodeTo f [] = Some (footer_bytes f)"
  using length_footer_bytes [of f]
  by (simp add: Footer_EncodeTo_def BlockHandle_Encode assms PutFixed32_def footer_bytes_def)

lemma Footer_Decode: "Footer_DecodeFrom (footer_bytes f) f0 = Some (Status_OK, f, [])"
proof -
  let ?h = "handle_bytes (metaindex_handle f) @ handle_bytes (index_handle f)"
  have l: "length ?h \<le> 2 * kMaxEncodedLength"
    using handle_bytes_length [of "metaindex_handle f"] handle_bytes_length [of "index_handle f"] by simp
  have e: "footer_bytes f = handle_bytes (metaindex_handle f) @ handle_bytes (index_handle f) @
      (replicate (2 * kMaxEncodedLength - length ?h) 0 @
       EncodeFixed32 (ucast (kTableMagicNumber AND 0xffffffff)) @ EncodeFixed32 (ucast (drop_bit 32 kTableMagicNumber)))"
    using l by (simp add: footer_bytes_def resize_short)
  have lo: "DecodeFixed32 (drop (kEncodedLength - 8) (footer_bytes f)) = Some (ucast (kTableMagicNumber AND 0xffffffff))"
    by (simp add: footer_bytes_def kEncodedLength_def EncodeFixed32_bytes DecodeFixed32_bytes)
  have hi: "DecodeFixed32 (drop (kEncodedLength - 8 + 4) (footer_bytes f)) = Some (ucast (drop_bit 32 kTableMagicNumber))"
    by (simp add: footer_bytes_def kEncodedLength_def EncodeFixed32_bytes DecodeFixed32_bytes [of _ "[]", simplified])
  have magic: "push_bit 32 (ucast (ucast (drop_bit 32 kTableMagicNumber) :: uint32_t)) OR
      ucast (ucast (kTableMagicNumber AND 0xffffffff) :: uint32_t) = kTableMagicNumber"
    by (simp add: kTableMagicNumber_def)
  have "drop kEncodedLength (footer_bytes f) = []" by (simp add: length_footer_bytes)
  moreover have "status_ok Status_OK" by (simp add: Status_OK_def status_ok_def)
  ultimately show ?thesis
    unfolding Footer_DecodeFrom_def lo hi
    by (simp add: magic) (simp add: e BlockHandle_Decode)
qed

text \<open>What a block leaves in the file: the data, the type and the masked checksum.\<close>

definition stored_block :: "slice \<Rightarrow> CompressionType \<Rightarrow> slice" where
  "stored_block data t = data @ [compression_code t] @ EncodeFixed32 (Mask (Value 0 (data @ [compression_code t])))"

lemma length_stored_block: "length (stored_block data t) = length data + 5"
  by (simp add: stored_block_def)

definition unpacks :: "Snappy \<Rightarrow> slice \<Rightarrow> CompressionType \<Rightarrow> slice \<Rightarrow> bool" where
  "unpacks sn data t raw \<longleftrightarrow> (case t of kNoCompression \<Rightarrow> raw = data | kSnappyCompression \<Rightarrow> Snappy_Compress sn raw = Some data)"

text \<open>The file has, at the handle, what stores the block \<open>raw\<close>.\<close>

definition stored_at :: "Snappy \<Rightarrow> slice \<Rightarrow> BlockHandle \<Rightarrow> slice \<Rightarrow> bool" where
  "stored_at sn contents h raw \<longleftrightarrow>
     (\<exists>data t rest. unat (bh_size h) = length data \<and> drop (unat (bh_offset h)) contents = stored_block data t @ rest \<and>
        unpacks sn data t raw)"

lemma stored_at_within: "stored_at sn contents h raw \<Longrightarrow> unat (bh_offset h) + 5 \<le> length contents"
  by (auto simp: stored_at_def dest!: arg_cong [of _ _ length] simp: length_stored_block)

lemma stored_at_append:
  assumes "stored_at sn contents h raw"
  shows "stored_at sn (contents @ more_data) h raw"
  using assms stored_at_within [OF assms] by (fastforce simp: stored_at_def)

context snappy_codec
begin

lemma ReadBlock_stored:
  assumes f: "random_access file contents" and h: "unat (bh_size h) = length data"
    and at: "drop (unat (bh_offset h)) contents = stored_block data t @ rest"
    and u: "unpacks sn data t raw" and l: "length contents < 2 ^ 63"
  shows "\<exists>c. ReadBlock sn file options h = Some (Status_OK, c) \<and> bc_data c = raw"
proof -
  have len: "length contents - unat (bh_offset h) = length data + 5 + length rest"
    using arg_cong [OF at, of length] by (simp add: length_stored_block)
  have n: "unat (bh_size h + kBlockTrailerSize) = length data + 5"
    using h l len by (subst unat_word_ariths) (simp add: kBlockTrailerSize_def)
  have le: "unat (bh_offset h) + (length data + 5) \<le> length contents" using len by linarith
  obtain b where b: "raf_Read file (bh_offset h) (bh_size h + kBlockTrailerSize) = (Status_OK, stored_block data t, b)"
    using random_access.read_ok [OF f, of "bh_offset h" "bh_size h + kBlockTrailerSize"] n at le
    by (auto simp: length_stored_block)
  define B where "B = stored_block data t"
  have sz: "of_nat (length B) = bh_size h + kBlockTrailerSize" "length B = length data + 5"
    using n by (metis B_def length_stored_block of_nat_unat ucast_id) (simp add: B_def length_stored_block)
  have parts: "DecodeFixed32 (drop (Suc (length data)) B) = Some (Mask (Value 0 (take (Suc (length data)) B)))"
    "take (length data) B = data" "B ! length data = compression_code t"
    by (simp_all add: B_def stored_block_def EncodeFixed32_bytes DecodeFixed32_bytes [of _ "[]", simplified])
  have ok: "status_ok Status_OK" by (simp add: Status_OK_def status_ok_def)
  have sn: "t = kSnappyCompression \<Longrightarrow> Snappy_GetUncompressedLength sn data = Some (length raw) \<and> Snappy_Uncompress sn data = Some raw"
    using u uncompress [of raw data] by (simp add: unpacks_def)
  have "ReadBlock sn file options h =
      (case t of kNoCompression \<Rightarrow> Some (Status_OK, \<lparr>bc_data = data, bc_cachable = b, bc_heap_allocated = b\<rparr>)
       | kSnappyCompression \<Rightarrow> Some (Status_OK, \<lparr>bc_data = raw, bc_cachable = True, bc_heap_allocated = True\<rparr>))"
    unfolding ReadBlock_def Let_def b B_def [symmetric] prod.case h
    using sz parts sn by (cases t) (simp_all add: ok Unmask_Mask compression_code_def)
  then show ?thesis using u by (cases t) (simp_all add: unpacks_def)
qed

lemma ReadBlock_stored_at:
  assumes "random_access file contents" and "stored_at sn contents h raw" and "length contents < 2 ^ 63"
  shows "\<exists>c. ReadBlock sn file options h = Some (Status_OK, c) \<and> bc_data c = raw"
  using assms(2) ReadBlock_stored [OF assms(1)] assms(3) unfolding stored_at_def by blast

lemma stored_at_length:
  assumes "stored_at sn contents h raw" and "length contents < 4294967296"
  shows "length raw < 4294967296"
proof -
  obtain data t rest where d: "drop (unat (bh_offset h)) contents = stored_block data t @ rest" "unpacks sn data t raw"
    using assms(1) by (auto simp: stored_at_def)
  have "length data < 4294967296" using arg_cong [OF d(1), of length] assms(2) by (simp add: length_stored_block)
  then show ?thesis using d(2) compress_length by (auto simp: unpacks_def split: CompressionType.splits)
qed

end

end
