(* ===== verification/LdbTableBuilder.thy ===== *)
theory LdbTableBuilder
  imports LdbFormat LdbBlock LdbFilterBlock
begin

text \<open>
  The builder of table files, \<open>table/table_builder.cc\<close>. The block builders of the code refer to the
  options of the table builder; here they have copies of the fields that they read, which
  \<open>ChangeOptions\<close> updates. \<open>None\<close> is a failing assert or a null pointer. A failing write is a
  status: the builder then ignores what is added and \<open>Finish\<close> returns it.
\<close>

section \<open>The builder\<close>

record 'f TableBuilder =
  tb_options :: Options
  tb_index_options :: Options
  tb_file :: 'f
  tb_offset :: uint64_t
  tb_status :: Status
  tb_data_block :: BlockBuilder
  tb_index_block :: BlockBuilder
  tb_last_key :: slice
  tb_num_entries :: nat
  tb_closed :: bool
  tb_filter_block :: "(FilterPolicy \<times> FilterBlockBuilder) option"
  tb_pending_index_entry :: bool
  tb_pending_handle :: BlockHandle

definition tb_ok :: "'f TableBuilder \<Rightarrow> bool" where
  "tb_ok r = status_ok (tb_status r)"

definition start_filter :: "uint64_t \<Rightarrow> 'f TableBuilder \<Rightarrow> 'f TableBuilder option" where
  "start_filter off r =
     (case tb_filter_block r of None \<Rightarrow> Some r
      | Some (p, b) \<Rightarrow> map_option (\<lambda>b. r\<lparr>tb_filter_block := Some (p, b)\<rparr>) (StartBlock p off b))"

definition new_TableBuilder :: "Options \<Rightarrow> 'f \<Rightarrow> 'f TableBuilder option" where
  "new_TableBuilder opt f =
     do {
       data \<leftarrow> new_BlockBuilder (opt_comparator opt) (opt_block_restart_interval opt);
       index \<leftarrow> new_BlockBuilder (opt_comparator opt) (opt_block_restart_interval opt);
       start_filter 0
         \<lparr>tb_options = opt, tb_index_options = opt\<lparr>opt_block_restart_interval := 1\<rparr>, tb_file = f, tb_offset = 0,
          tb_status = Status_OK, tb_data_block = data, tb_index_block = index\<lparr>bb_interval := 1\<rparr>, tb_last_key = [],
          tb_num_entries = 0, tb_closed = False,
          tb_filter_block = map_option (\<lambda>(_, p). (p, new_FilterBlockBuilder)) (opt_filter_policy opt),
          tb_pending_index_entry = False, tb_pending_handle = new_BlockHandle\<rparr>
     }"

text \<open>The destructor checks that the builder was closed.\<close>

definition TableBuilder_destroy :: "'f TableBuilder \<Rightarrow> 'f option" where
  "TableBuilder_destroy r = (if tb_closed r then Some (tb_file r) else None)"

text \<open>The comparators are compared as pointers; whether they are the same is an argument.\<close>

definition ChangeOptions :: "bool \<Rightarrow> Options \<Rightarrow> 'f TableBuilder \<Rightarrow> Status \<times> 'f TableBuilder" where
  "ChangeOptions same_comparator opt r =
     (if \<not> same_comparator then (InvalidArgument (str ''changing comparator while building table'') [], r)
      else (Status_OK,
        r\<lparr>tb_options := opt, tb_index_options := opt\<lparr>opt_block_restart_interval := 1\<rparr>,
          tb_data_block := (tb_data_block r)\<lparr>bb_interval := opt_block_restart_interval opt\<rparr>,
          tb_index_block := (tb_index_block r)\<lparr>bb_interval := 1\<rparr>\<rparr>))"

section \<open>Writing blocks\<close>

definition WriteRawBlock ::
  "'f WritableFile \<Rightarrow> slice \<Rightarrow> CompressionType \<Rightarrow> 'f TableBuilder \<Rightarrow> BlockHandle \<times> 'f TableBuilder" where
  "WriteRawBlock ops block_contents t r =
     (let handle = \<lparr>bh_offset = tb_offset r, bh_size = of_nat (length block_contents)\<rparr>;
          (s, f) = wf_Append ops block_contents (tb_file r);
          r = r\<lparr>tb_status := s, tb_file := f\<rparr>
      in if \<not> status_ok s then (handle, r)
         else
           let crc = Value 0 block_contents;
               crc = Extend 0 crc [compression_code t];
               (s, f) = wf_Append ops (compression_code t # EncodeFixed32 (Mask crc)) (tb_file r);
               r = r\<lparr>tb_status := s, tb_file := f\<rparr>
           in if \<not> status_ok s then (handle, r)
              else (handle, r\<lparr>tb_offset := tb_offset r + (of_nat (length block_contents) + kBlockTrailerSize)\<rparr>))"

text \<open>The contents that are stored for a block, and their type.\<close>

definition compress_block :: "Snappy \<Rightarrow> CompressionType \<Rightarrow> slice \<Rightarrow> slice \<times> CompressionType" where
  "compress_block sn t raw =
     (case t of kNoCompression \<Rightarrow> (raw, kNoCompression)
      | kSnappyCompression \<Rightarrow>
          (case Snappy_Compress sn raw of
             Some compressed \<Rightarrow>
               if length compressed < length raw - length raw div 8 then (compressed, kSnappyCompression)
               else (raw, kNoCompression)
           | None \<Rightarrow> (raw, kNoCompression)))"

text \<open>The handle, the block builder after \<open>Reset\<close>, and the table builder.\<close>

definition WriteBlock ::
  "'f WritableFile \<Rightarrow> Snappy \<Rightarrow> BlockBuilder \<Rightarrow> 'f TableBuilder \<Rightarrow> (BlockHandle \<times> BlockBuilder \<times> 'f TableBuilder) option" where
  "WriteBlock ops sn block r =
     (if \<not> tb_ok r then None
      else
        let (raw, block) = BlockBuilder_Finish block;
            (block_contents, t) = compress_block sn (opt_compression (tb_options r)) raw;
            (handle, r) = WriteRawBlock ops block_contents t r
        in Some (handle, BlockBuilder_Reset block, r))"

section \<open>Adding entries\<close>

definition TableBuilder_Flush :: "'f WritableFile \<Rightarrow> Snappy \<Rightarrow> 'f TableBuilder \<Rightarrow> 'f TableBuilder option" where
  "TableBuilder_Flush ops sn r =
     (if tb_closed r then None
      else if \<not> tb_ok r then Some r
      else if BlockBuilder_empty (tb_data_block r) then Some r
      else if tb_pending_index_entry r then None
      else do {
        (handle, block, r) \<leftarrow> WriteBlock ops sn (tb_data_block r) r;
        let r = r\<lparr>tb_data_block := block, tb_pending_handle := handle\<rparr>;
        let r = (if tb_ok r then
                   let (s, f) = wf_Flush ops (tb_file r)
                   in r\<lparr>tb_pending_index_entry := True, tb_status := s, tb_file := f\<rparr>
                 else r);
        start_filter (tb_offset r) r
      })"

text \<open>The index entry of the block before, with the key as it is now.\<close>

definition add_index_entry :: "'f TableBuilder \<Rightarrow> 'f TableBuilder option" where
  "add_index_entry r =
     do {
       handle_encoding \<leftarrow> BlockHandle_EncodeTo (tb_pending_handle r) [];
       index \<leftarrow> BlockBuilder_Add (tb_last_key r) handle_encoding (tb_index_block r);
       Some (r\<lparr>tb_index_block := index, tb_pending_index_entry := False\<rparr>)
     }"

definition TableBuilder_Add :: "'f WritableFile \<Rightarrow> Snappy \<Rightarrow> slice \<Rightarrow> slice \<Rightarrow> 'f TableBuilder \<Rightarrow> 'f TableBuilder option" where
  "TableBuilder_Add ops sn key v r =
     (if tb_closed r then None
      else if \<not> tb_ok r then Some r
      else if tb_num_entries r > 0 \<and> \<not> after (Compare (opt_comparator (tb_options r))) key (tb_last_key r) then None
      else do {
        r \<leftarrow> (if tb_pending_index_entry r then
                if \<not> BlockBuilder_empty (tb_data_block r) then None
                else do {
                  sep \<leftarrow> FindShortestSeparator (opt_comparator (tb_options r)) (tb_last_key r) key;
                  add_index_entry (r\<lparr>tb_last_key := sep\<rparr>)
                }
              else Some r);
        let r = r\<lparr>tb_filter_block := map_option (\<lambda>(p, b). (p, AddKey key b)) (tb_filter_block r),
                  tb_last_key := key, tb_num_entries := tb_num_entries r + 1\<rparr>;
        data \<leftarrow> BlockBuilder_Add key v (tb_data_block r);
        let r = r\<lparr>tb_data_block := data\<rparr>;
        if BlockBuilder_CurrentSizeEstimate data \<ge> opt_block_size (tb_options r) then TableBuilder_Flush ops sn r else Some r
      })"

section \<open>Finishing\<close>

definition FilterKey :: "slice \<Rightarrow> slice" where
  "FilterKey name = str ''filter.'' @ name"

text \<open>The steps of \<open>Finish\<close>, each done when the builder is still well.\<close>

definition finish_filter :: "'f WritableFile \<Rightarrow> 'f TableBuilder \<Rightarrow> BlockHandle \<times> 'f TableBuilder" where
  "finish_filter ops r =
     (case tb_filter_block r of None \<Rightarrow> (new_BlockHandle, r)
      | Some (p, b) \<Rightarrow>
          if tb_ok r then WriteRawBlock ops (FilterBlock_Finish p b) kNoCompression r else (new_BlockHandle, r))"

definition finish_meta ::
  "'f WritableFile \<Rightarrow> Snappy \<Rightarrow> BlockHandle \<Rightarrow> 'f TableBuilder \<Rightarrow> (BlockHandle \<times> 'f TableBuilder) option" where
  "finish_meta ops sn filter_handle r =
     (if \<not> tb_ok r then Some (new_BlockHandle, r)
      else do {
        meta \<leftarrow> new_BlockBuilder (opt_comparator (tb_options r)) (opt_block_restart_interval (tb_options r));
        meta \<leftarrow> (if tb_filter_block r \<noteq> None then do {
                   (name, _) \<leftarrow> opt_filter_policy (tb_options r);
                   handle_encoding \<leftarrow> BlockHandle_EncodeTo filter_handle [];
                   BlockBuilder_Add (FilterKey name) handle_encoding meta
                 }
                 else Some meta);
        (handle, _, r) \<leftarrow> WriteBlock ops sn meta r;
        Some (handle, r)
      })"

definition finish_index ::
  "'f WritableFile \<Rightarrow> Snappy \<Rightarrow> 'f TableBuilder \<Rightarrow> (BlockHandle \<times> 'f TableBuilder) option" where
  "finish_index ops sn r =
     (if \<not> tb_ok r then Some (new_BlockHandle, r)
      else do {
        r \<leftarrow> (if tb_pending_index_entry r then do {
                key \<leftarrow> FindShortSuccessor (opt_comparator (tb_options r)) (tb_last_key r);
                add_index_entry (r\<lparr>tb_last_key := key\<rparr>)
              }
              else Some r);
        (handle, block, r) \<leftarrow> WriteBlock ops sn (tb_index_block r) r;
        Some (handle, r\<lparr>tb_index_block := block\<rparr>)
      })"

definition finish_footer ::
  "'f WritableFile \<Rightarrow> BlockHandle \<Rightarrow> BlockHandle \<Rightarrow> 'f TableBuilder \<Rightarrow> 'f TableBuilder option" where
  "finish_footer ops meta_handle index r =
     (if \<not> tb_ok r then Some r
      else do {
        footer \<leftarrow> Footer_EncodeTo \<lparr>metaindex_handle = meta_handle, index_handle = index\<rparr> [];
        let (s, f) = wf_Append ops footer (tb_file r);
        let r = r\<lparr>tb_status := s, tb_file := f\<rparr>;
        Some (if status_ok s then r\<lparr>tb_offset := tb_offset r + of_nat (length footer)\<rparr> else r)
      })"

definition TableBuilder_Finish :: "'f WritableFile \<Rightarrow> Snappy \<Rightarrow> 'f TableBuilder \<Rightarrow> (Status \<times> 'f TableBuilder) option" where
  "TableBuilder_Finish ops sn r =
     do {
       r \<leftarrow> TableBuilder_Flush ops sn r;
       if tb_closed r then None
       else do {
         let r = r\<lparr>tb_closed := True\<rparr>;
         let (filter_handle, r) = finish_filter ops r;
         (meta_handle, r) \<leftarrow> finish_meta ops sn filter_handle r;
         (index, r) \<leftarrow> finish_index ops sn r;
         r \<leftarrow> finish_footer ops meta_handle index r;
         Some (tb_status r, r)
       }
     }"

definition Abandon :: "'f TableBuilder \<Rightarrow> 'f TableBuilder option" where
  "Abandon r = (if tb_closed r then None else Some (r\<lparr>tb_closed := True\<rparr>))"

definition TableBuilder_NumEntries :: "'f TableBuilder \<Rightarrow> uint64_t" where
  "TableBuilder_NumEntries r = of_nat (tb_num_entries r)"

definition TableBuilder_FileSize :: "'f TableBuilder \<Rightarrow> uint64_t" where
  "TableBuilder_FileSize r = tb_offset r"

end
