(* ===== verification/LdbTableBuildProps.thy ===== *)
theory LdbTableBuildProps
  imports LdbTableBuilder LdbBlockProps
begin

text \<open>
  What the builder of tables writes: the invariant over the blocks in the file and the index entries
  between them, which every operation keeps or ends with a status that is not OK, and the shape of a finished
  file, \<open>table_file\<close>. The locale \<open>table_store\<close> has what the builder relies on: the contract of the
  comparator, of the file, of the compression and of the filter policy.
\<close>

section \<open>The blocks in the file\<close>

text \<open>A chunk is a written block: its entries and its handle.\<close>

type_synonym chunk = "entry list \<times> BlockHandle"

text \<open>A block of this layout with these entries is stored at the handle.\<close>

definition block_at :: "Snappy \<Rightarrow> slice \<Rightarrow> BlockHandle \<Rightarrow> entry list \<Rightarrow> bool" where
  "block_at sn D h xs \<longleftrightarrow>
     (\<exists>es rs. chained [] es \<and> restarts_ok es rs \<and> to_entries es = xs \<and> stored_at sn D h (block_bytes es rs))"

definition chunks_ok :: "Snappy \<Rightarrow> slice \<Rightarrow> chunk list \<Rightarrow> bool" where
  "chunks_ok sn D chunks \<longleftrightarrow>
     (\<forall>ch \<in> set chunks. fst ch \<noteq> [] \<and> handle_set (snd ch) \<and> block_at sn D (snd ch) (fst ch)) \<and>
     sorted_wrt (\<lambda>a b. unat (bh_offset (snd a)) < unat (bh_offset (snd b))) chunks"

text \<open>The entries of the index stand between the chunks.\<close>

definition fences :: "(slice \<Rightarrow> slice \<Rightarrow> int option) \<Rightarrow> entry list \<Rightarrow> chunk list \<Rightarrow> bool" where
  "fences cmp ikvs chunks \<longleftrightarrow>
     length ikvs \<le> length chunks \<and>
     (\<forall>j < length ikvs. snd (ikvs ! j) = handle_bytes (snd (chunks ! j)) \<and>
        (\<forall>kv \<in> set (fst (chunks ! j)). \<not> before cmp (fst (ikvs ! j)) (fst kv)) \<and>
        (\<forall>l < length chunks. j < l \<longrightarrow> (\<forall>kv \<in> set (fst (chunks ! l)). before cmp (fst (ikvs ! j)) (fst kv))))"

lemma chunks_ok_append: "chunks_ok sn D chunks \<Longrightarrow> chunks_ok sn (D @ E) chunks"
  by (fastforce simp: chunks_ok_def block_at_def intro: stored_at_append)

lemma chunks_ok_snoc:
  assumes "chunks_ok sn D chunks" and "xs \<noteq> []" and "handle_set h" and "block_at sn (D @ E) h xs"
    and "unat (bh_offset h) = length D"
  shows "chunks_ok sn (D @ E) (chunks @ [(xs, h)])"
proof -
  have "unat (bh_offset (snd ch)) < length D" if "ch \<in> set chunks" for ch
    using assms(1) that stored_at_within by (fastforce simp: chunks_ok_def block_at_def)
  then show ?thesis using chunks_ok_append [OF assms(1), of E] assms(2-5) by (auto simp: chunks_ok_def sorted_wrt_append)
qed

lemma fences_chunk:
  assumes "fences cmp ikvs chunks" and "\<forall>i \<in> set ikvs. \<forall>kv \<in> set xs. before cmp (fst i) (fst kv)"
  shows "fences cmp ikvs (chunks @ [(xs, h)])"
  using assms unfolding fences_def by (auto simp: nth_append less_Suc_eq)

lemma fences_index:
  assumes "fences cmp ikvs (cs @ [(xs, h)])" and "length ikvs = length cs" and "\<forall>kv \<in> set xs. \<not> before cmp d (fst kv)"
  shows "fences cmp (ikvs @ [(d, handle_bytes h)]) (cs @ [(xs, h)])"
  using assms unfolding fences_def by (auto simp: nth_append less_Suc_eq)

lemma key_less_before: "key_less cmp a b = before cmp a b"
  by (simp add: key_less_def before_def split: option.splits)

section \<open>Writing a block\<close>

lemma small_set: "unat (w :: uint64_t) < 2 ^ 63 \<Longrightarrow> w \<noteq> NOT 0"
proof
  assume l: "unat w < 2 ^ 63" and w: "w = NOT 0"
  have "unat (NOT 0 :: uint64_t) = 2 ^ 64 - 1" by (simp add: unsigned_minus_1_eq_mask mask_eq_exp_minus_1)
  then show False using l w by simp
qed

lemma compress_unpacks: "compress_block sn t raw = (data, t') \<Longrightarrow> unpacks sn data t' raw"
  by (auto simp: compress_block_def unpacks_def split: CompressionType.splits option.splits if_splits)

context honest_file
begin

abbreviation written :: "'f TableBuilder \<Rightarrow> slice" where
  "written r \<equiv> data_of (tb_file r)"

lemma WriteRawBlock_spec:
  assumes o: "unat (tb_offset r) = length (written r)"
  shows "\<exists>h r'. WriteRawBlock ops contents t r = (h, r') \<and>
    r' = r\<lparr>tb_status := tb_status r', tb_file := tb_file r', tb_offset := tb_offset r'\<rparr> \<and>
    (\<not> tb_ok r' \<longrightarrow> tb_offset r' = tb_offset r) \<and>
    (tb_ok r' \<longrightarrow> written r' = written r @ stored_block contents t \<and> unat (tb_offset r') = length (written r') \<and>
       length (written r') < 2 ^ 63 \<and> handle_set h \<and> bh_offset h = tb_offset r \<and> unat (bh_size h) = length contents)"
proof -
  define h where "h = \<lparr>bh_offset = tb_offset r, bh_size = of_nat (length contents)\<rparr>"
  obtain s1 f1 where a1: "wf_Append ops contents (tb_file r) = (s1, f1)" by (meson surj_pair)
  define tr where "tr = compression_code t # EncodeFixed32 (Mask (Extend 0 (Value 0 contents) [compression_code t]))"
  obtain s2 f2 where a2: "wf_Append ops tr f1 = (s2, f2)" by (meson surj_pair)
  show ?thesis
  proof (cases "status_ok s1 \<and> status_ok s2")
    case False
    then show ?thesis using a1 a2
      by (cases "status_ok s1") (simp_all add: WriteRawBlock_def Let_def tr_def [symmetric] tb_ok_def)
  next
    case True
    define r' where "r' = r\<lparr>tb_status := s2, tb_file := f2, tb_offset := tb_offset r + (of_nat (length contents) + kBlockTrailerSize)\<rparr>"
    have w: "WriteRawBlock ops contents t r = (h, r')"
      using a1 a2 True by (simp add: WriteRawBlock_def Let_def tr_def [symmetric] h_def r'_def)
    have d: "data_of f1 = written r @ contents" "data_of f2 = data_of f1 @ tr" "length (data_of f2) < 2 ^ 63"
      using append_honest [OF a1] append_honest [OF a2] True by blast+
    have t: "contents @ tr = stored_block contents t"
      by (simp add: tr_def stored_block_def Extend_Value [of 0 0 contents "[compression_code t]" 0])
    then have D: "data_of f2 = written r @ stored_block contents t" using d by simp
    then have l: "length (data_of f2) = unat (tb_offset r) + length contents + 5" using o by (simp add: length_stored_block)
    have n: "unat (of_nat (length contents) :: uint64_t) = length contents"
      using l d(3) by (simp add: unat_of_nat take_bit_nat_eq_self)
    have "unat (tb_offset r + (of_nat (length contents) + kBlockTrailerSize)) = length (data_of f2)"
      using l d(3) n by (simp add: unat_word_ariths kBlockTrailerSize_def unat_of_nat take_bit_nat_eq_self)
    moreover have "handle_set h" using l d(3) n small_set by (auto simp: handle_set_def h_def)
    ultimately show ?thesis using w D d(3) n True by (simp add: r'_def h_def tb_ok_def)
  qed
qed

end

text \<open>The keys with the offsets at which the filters have them.\<close>

definition filter_keys :: "chunk list \<Rightarrow> uint64_t \<Rightarrow> entry list \<Rightarrow> (uint64_t \<times> slice) set" where
  "filter_keys chunks at cur =
     {(bh_offset (snd ch), fst kv) | ch kv. ch \<in> set chunks \<and> kv \<in> set (fst ch)} \<union> {(at, fst kv) | kv. kv \<in> set cur}"

lemma filter_keys_simps:
  "filter_keys [] at [] = {}"
  "filter_keys chunks at (cur @ [(k, v)]) = insert (at, k) (filter_keys chunks at cur)"
  "bh_offset h = at \<Longrightarrow> filter_keys (chunks @ [(cur, h)]) at' [] = filter_keys chunks at cur"
  "filter_keys chunks at [] = filter_keys chunks at' []"
  by (fastforce simp: filter_keys_def)+

text \<open>What the builder leaves in the file, for the entries that were added.\<close>

definition meta_at :: "Snappy \<Rightarrow> Options \<Rightarrow> slice \<Rightarrow> BlockHandle \<Rightarrow> chunk list \<Rightarrow> bool" where
  "meta_at sn opt D mh chunks \<longleftrightarrow>
     (case opt_filter_policy opt of None \<Rightarrow> block_at sn D mh []
      | Some (name, p) \<Rightarrow> \<exists>fh b fs ks. block_at sn D mh [(FilterKey name, handle_bytes fh)] \<and>
          stored_at sn D fh (FilterBlock_Finish p b) \<and> fb_inv p (filter_keys chunks 0 []) b fs ks)"

definition table_file :: "Comparator \<Rightarrow> (slice \<Rightarrow> bool) \<Rightarrow> Snappy \<Rightarrow> Options \<Rightarrow> slice \<Rightarrow> entry list \<Rightarrow> bool" where
  "table_file c valid sn opt D kvs \<longleftrightarrow>
     (\<exists>chunks ikvs mh ih D0. D = D0 @ footer_bytes \<lparr>metaindex_handle = mh, index_handle = ih\<rparr> \<and> length D < 2 ^ 63 \<and>
        kvs = concat (map fst chunks) \<and> sorted_source (Compare c) valid kvs \<and> chunks_ok sn D chunks \<and>
        sorted_source (Compare c) valid ikvs \<and> fences (Compare c) ikvs chunks \<and> length ikvs = length chunks \<and>
        block_at sn D ih ikvs \<and> meta_at sn opt D mh chunks)"

lemma block_at_append: "block_at sn D h xs \<Longrightarrow> block_at sn (D @ E) h xs"
  unfolding block_at_def using stored_at_append by blast

section \<open>The invariant of the builder\<close>

locale table_store = comparator_contract c valid + snappy_codec sn + honest_file ops data_of
  for c :: Comparator and valid :: "slice \<Rightarrow> bool" and sn :: Snappy and ops :: "'f WritableFile" and data_of :: "'f \<Rightarrow> slice" +
  fixes opt :: Options
  assumes opt_c: "opt_comparator opt = c" and interval: "1 \<le> opt_block_restart_interval opt"
    and policy: "opt_filter_policy opt = Some (name, p) \<Longrightarrow> filter_policy p"
begin

abbreviation cmp where "cmp \<equiv> Compare c"
abbreviation ordered where "ordered \<equiv> sorted_source cmp valid"

lemma WriteBlock_spec:
  assumes ok: "tb_ok r" and o: "unat (tb_offset r) = length (written r)" and b: "built c i es rs b"
  shows "\<exists>h b' r'. WriteBlock ops sn b r = Some (h, b', r') \<and> built c i [] [0] b' \<and>
    r' = r\<lparr>tb_status := tb_status r', tb_file := tb_file r', tb_offset := tb_offset r'\<rparr> \<and>
    (\<not> tb_ok r' \<longrightarrow> tb_offset r' = tb_offset r) \<and>
    (tb_ok r' \<longrightarrow> (\<exists>E. written r' = written r @ E) \<and> unat (tb_offset r') = length (written r') \<and>
       length (written r') < 2 ^ 63 \<and> handle_set h \<and> bh_offset h = tb_offset r \<and> stored_at sn (written r') h (block_bytes es rs))"
proof -
  obtain data t where z: "compress_block sn (opt_compression (tb_options r)) (block_bytes es rs) = (data, t)" by (meson surj_pair)
  obtain h r' where w: "WriteRawBlock ops data t r = (h, r')"
    "r' = r\<lparr>tb_status := tb_status r', tb_file := tb_file r', tb_offset := tb_offset r'\<rparr>"
    "\<not> tb_ok r' \<longrightarrow> tb_offset r' = tb_offset r"
    "tb_ok r' \<longrightarrow> written r' = written r @ stored_block data t \<and> unat (tb_offset r') = length (written r') \<and>
       length (written r') < 2 ^ 63 \<and> handle_set h \<and> bh_offset h = tb_offset r \<and> unat (bh_size h) = length data"
    using WriteRawBlock_spec [OF o] by blast
  let ?b = "BlockBuilder_Reset (snd (BlockBuilder_Finish b))"
  have "WriteBlock ops sn b r = Some (h, ?b, r')"
    using ok z w(1) Finish_built [OF b] by (simp add: WriteBlock_def Let_def case_prod_beta)
  moreover have "built c i [] [0] ?b" using b by (simp add: built_def BlockBuilder_Reset_def BlockBuilder_Finish_def restarts_ok_def Let_def)
  moreover have "stored_at sn (written r') h (block_bytes es rs)" if "tb_ok r'"
    unfolding stored_at_def
  proof (intro exI conjI)
    show "drop (unat (bh_offset h)) (written r') = stored_block data t @ []" using w(4) that o by simp
  qed (use w(4) that compress_unpacks [OF z] in simp_all)
  ultimately show ?thesis using w(2-4) by blast
qed

definition filter_state :: "(uint64_t \<times> slice) set \<Rightarrow> uint64_t \<Rightarrow> (FilterPolicy \<times> FilterBlockBuilder) option \<Rightarrow> bool" where
  "filter_state K at fb \<longleftrightarrow>
     (case fb of None \<Rightarrow> opt_filter_policy opt = None
      | Some (p, b) \<Rightarrow> (\<exists>name. opt_filter_policy opt = Some (name, p)) \<and>
          (\<exists>fs ks. fb_inv p K b fs ks \<and> length fs = filter_index at))"

definition filter_inv :: "chunk list \<Rightarrow> entry list \<Rightarrow> 'f TableBuilder \<Rightarrow> bool" where
  "filter_inv chunks cur r \<longleftrightarrow> filter_state (filter_keys chunks (tb_offset r) cur) (tb_offset r) (tb_filter_block r)"

definition holds_block :: "int \<Rightarrow> entry list \<Rightarrow> BlockBuilder \<Rightarrow> bool" where
  "holds_block i xs b \<longleftrightarrow> (\<exists>es rs. built c i es rs b \<and> to_entries es = xs)"

definition last_key :: "entry list \<Rightarrow> slice" where
  "last_key kvs = fst (last kvs)"

definition index_inv :: "entry list \<Rightarrow> chunk list \<Rightarrow> entry list \<Rightarrow> 'f TableBuilder \<Rightarrow> bool" where
  "index_inv kvs chunks ikvs r \<longleftrightarrow>
     ordered ikvs \<and> fences cmp ikvs chunks \<and> holds_block 1 ikvs (tb_index_block r) \<and>
     (\<forall>i \<in> set ikvs. kvs \<noteq> [] \<and> before cmp (fst i) (last_key kvs))"

definition writing :: "entry list \<Rightarrow> chunk list \<Rightarrow> entry list \<Rightarrow> entry list \<Rightarrow> 'f TableBuilder \<Rightarrow> bool" where
  "writing kvs chunks ikvs cur r \<longleftrightarrow>
     tb_options r = opt \<and> \<not> tb_closed r \<and> tb_ok r \<and>
     unat (tb_offset r) = length (written r) \<and> length (written r) < 2 ^ 63 \<and>
     holds_block (opt_block_restart_interval opt) cur (tb_data_block r) \<and>
     ordered kvs \<and> kvs = concat (map fst chunks) @ cur \<and> tb_num_entries r = length kvs \<and>
     (kvs \<noteq> [] \<longrightarrow> tb_last_key r = last_key kvs) \<and>
     chunks_ok sn (written r) chunks \<and> index_inv kvs chunks ikvs r \<and>
     (\<forall>i \<in> set ikvs. \<forall>kv \<in> set cur. before cmp (fst i) (fst kv)) \<and>
     (if tb_pending_index_entry r
      then cur = [] \<and> chunks \<noteq> [] \<and> tb_pending_handle r = snd (last chunks) \<and> length ikvs = length chunks - 1
      else length ikvs = length chunks) \<and>
     filter_inv chunks cur r"

lemma writingD:
  assumes "writing kvs chunks ikvs cur r"
  shows "tb_options r = opt" "\<not> tb_closed r" "tb_ok r" "unat (tb_offset r) = length (written r)" "length (written r) < 2 ^ 63"
    "holds_block (opt_block_restart_interval opt) cur (tb_data_block r)" "ordered kvs" "kvs = concat (map fst chunks) @ cur"
    "tb_num_entries r = length kvs" "kvs \<noteq> [] \<Longrightarrow> tb_last_key r = last_key kvs" "chunks_ok sn (written r) chunks"
    "index_inv kvs chunks ikvs r" "\<forall>i \<in> set ikvs. \<forall>kv \<in> set cur. before cmp (fst i) (fst kv)"
    "tb_pending_index_entry r \<Longrightarrow> cur = [] \<and> chunks \<noteq> [] \<and> tb_pending_handle r = snd (last chunks) \<and> length ikvs = length chunks - 1"
    "\<not> tb_pending_index_entry r \<Longrightarrow> length ikvs = length chunks" "filter_inv chunks cur r"
proof -
  note w = assms [unfolded writing_def]
  show "tb_options r = opt" "\<not> tb_closed r" "tb_ok r" "unat (tb_offset r) = length (written r)" "length (written r) < 2 ^ 63"
    "holds_block (opt_block_restart_interval opt) cur (tb_data_block r)" "ordered kvs" "kvs = concat (map fst chunks) @ cur"
    "tb_num_entries r = length kvs" "chunks_ok sn (written r) chunks" "index_inv kvs chunks ikvs r"
    "\<forall>i \<in> set ikvs. \<forall>kv \<in> set cur. before cmp (fst i) (fst kv)" "filter_inv chunks cur r"
    using w by - (elim conjE; assumption)+
  show "kvs \<noteq> [] \<Longrightarrow> tb_last_key r = last_key kvs" using w by (elim conjE) (erule mp)
  have p: "if tb_pending_index_entry r
      then cur = [] \<and> chunks \<noteq> [] \<and> tb_pending_handle r = snd (last chunks) \<and> length ikvs = length chunks - 1
      else length ikvs = length chunks" using w by (elim conjE)
  show "tb_pending_index_entry r \<Longrightarrow> cur = [] \<and> chunks \<noteq> [] \<and> tb_pending_handle r = snd (last chunks) \<and> length ikvs = length chunks - 1"
    using p by (rule if_P [THEN iffD1, rotated])
  show "\<not> tb_pending_index_entry r \<Longrightarrow> length ikvs = length chunks" using p by (simp only: if_False)
qed

definition failed :: "'f TableBuilder \<Rightarrow> bool" where
  "failed r \<longleftrightarrow> \<not> tb_closed r \<and> \<not> tb_ok r"

lemma holds_block_empty: "holds_block i xs b \<Longrightarrow> BlockBuilder_empty b = (xs = [])"
proof -
  assume "holds_block i xs b"
  then obtain es where "bb_buffer b = ents es" "to_entries es = xs" by (auto simp: holds_block_def built_def)
  then show ?thesis using entry_bytes_pos by (cases es) (auto simp: BlockBuilder_empty_def dest: arg_cong [of _ _ length])
qed

lemma holds_block_Add:
  assumes "holds_block i xs b" and "xs \<noteq> [] \<Longrightarrow> after cmp k (last_key xs)"
  shows "\<exists>b'. BlockBuilder_Add k v b = Some b' \<and> holds_block i (xs @ [(k, v)]) b'"
proof -
  obtain es rs where b: "built c i es rs b" "to_entries es = xs" using assms(1) by (auto simp: holds_block_def)
  have "after cmp k (entry_key (last es))" if "es \<noteq> []"
    using assms(2) b(2) that by (auto simp: last_key_def last_map)
  from Add_built [OF b(1) this] show ?thesis using b(2) by (force simp: holds_block_def)
qed

lemma start_filter_ok:
  assumes f: "filter_state K at (tb_filter_block r)" and le: "unat at \<le> unat at'"
  shows "\<exists>fb. start_filter at' r = Some (r\<lparr>tb_filter_block := fb\<rparr>) \<and> filter_state K at' fb"
proof (cases "tb_filter_block r")
  case None
  then show ?thesis using f by (intro exI [of _ None]) (simp add: start_filter_def filter_state_def)
next
  case (Some pb)
  obtain p b where pb: "pb = (p, b)" by (cases pb)
  obtain name fs ks where fs: "opt_filter_policy opt = Some (name, p)" "fb_inv p K b fs ks" "length fs = filter_index at"
    using f Some pb by (auto simp: filter_state_def)
  have i: "length fs \<le> filter_index at'"
    using le fs(3) by (simp add: filter_index_def unat_div div_le_mono)
  obtain fs' ks' where fs': "fb_inv p K (StartBlock_loop p (filter_index at') b) fs' ks'" "length fs' = filter_index at'"
    using filter_policy.fb_inv_StartBlock_loop [OF policy [OF fs(1)] fs(2) i] by blast
  have "length (fb_offsets b) = length fs" using fs(2) fb_abs_length by (auto simp: fb_inv_def)
  then have "StartBlock p at' b = Some (StartBlock_loop p (filter_index at') b)"
    using i by (simp add: StartBlock_def filter_index_def)
  then show ?thesis using Some pb fs(1) fs'
    by (intro exI [of _ "Some (p, StartBlock_loop p (filter_index at') b)"]) (auto simp: start_filter_def filter_state_def)
qed

lemma filter_AddKey:
  assumes "filter_state (filter_keys chunks at cur) at fb"
  shows "filter_state (filter_keys chunks at (cur @ [(k, v)])) at (map_option (\<lambda>(p, b). (p, AddKey k b)) fb)"
  using assms filter_policy.fb_inv_AddKey(2) [OF policy]
  by (fastforce simp: filter_state_def filter_keys_simps split: option.splits prod.splits)

lemma new_writing:
  assumes "data_of f = []"
  shows "\<exists>r. new_TableBuilder opt f = Some r \<and> writing [] [] [] [] r"
proof -
  obtain b where b: "new_BlockBuilder c (opt_block_restart_interval opt) = Some b" "built c (opt_block_restart_interval opt) [] [0] b"
    using new_built [OF interval] by blast
  define r where "r = \<lparr>tb_options = opt, tb_index_options = opt\<lparr>opt_block_restart_interval := 1\<rparr>, tb_file = f, tb_offset = 0,
          tb_status = Status_OK, tb_data_block = b, tb_index_block = b\<lparr>bb_interval := 1\<rparr>, tb_last_key = [],
          tb_num_entries = 0, tb_closed = False,
          tb_filter_block = map_option (\<lambda>(_, p). (p, new_FilterBlockBuilder)) (opt_filter_policy opt),
          tb_pending_index_entry = False, tb_pending_handle = new_BlockHandle\<rparr>"
  have i: "built c 1 [] [0] (b\<lparr>bb_interval := 1\<rparr>)"
  proof -
    have "bb_counter b = 0" using b(2) by (auto simp: built_def)
    then show ?thesis using b(2) by (simp add: built_def)
  qed
  have "filter_state (filter_keys [] 0 []) 0 (tb_filter_block r)"
    using fb_abs_new by (auto simp: filter_state_def r_def filter_index_def filter_keys_simps fb_inv_def split: option.splits)
  from start_filter_ok [OF this, of 0] obtain fb where fb: "start_filter 0 r = Some (r\<lparr>tb_filter_block := fb\<rparr>)" "filter_state (filter_keys [] 0 []) 0 fb"
    by blast
  have "new_TableBuilder opt f = Some (r\<lparr>tb_filter_block := fb\<rparr>)"
    using b(1) fb(1) by (simp add: new_TableBuilder_def opt_c r_def)
  moreover have "writing [] [] [] [] (r\<lparr>tb_filter_block := fb\<rparr>)"
    using assms b(2) i fb(2)
    by (auto simp: writing_def r_def tb_ok_def holds_block_def sorted_source_def chunks_ok_def index_inv_def fences_def filter_inv_def)
  ultimately show ?thesis by blast
qed

text \<open>\<open>Flush\<close> turns the entries of the data block into a chunk, or the builder fails.\<close>

lemma Flush_writing:
  assumes w: "writing kvs chunks ikvs cur r"
  shows "\<exists>r'. TableBuilder_Flush ops sn r = Some r' \<and> (failed r' \<or> (\<exists>chunks'. writing kvs chunks' ikvs [] r'))"
proof (cases "cur = []")
  case True
  then have "TableBuilder_Flush ops sn r = Some r"
    using w holds_block_empty by (auto simp: writing_def TableBuilder_Flush_def)
  then show ?thesis using w True by blast
next
  case False
  have np: "\<not> tb_pending_index_entry r" and ok: "tb_ok r" "\<not> tb_closed r" and len: "length ikvs = length chunks"
    and o: "unat (tb_offset r) = length (written r)" and ne: "\<not> BlockBuilder_empty (tb_data_block r)"
    using w False holds_block_empty by (auto simp: writing_def split: if_splits)
  obtain es rs where b: "built c (opt_block_restart_interval opt) es rs (tb_data_block r)" "to_entries es = cur"
    using w by (auto simp: writing_def holds_block_def)
  obtain h b' r1 where r1: "WriteBlock ops sn (tb_data_block r) r = Some (h, b', r1)" "built c (opt_block_restart_interval opt) [] [0] b'"
    "r1 = r\<lparr>tb_status := tb_status r1, tb_file := tb_file r1, tb_offset := tb_offset r1\<rparr>"
    "\<not> tb_ok r1 \<longrightarrow> tb_offset r1 = tb_offset r"
    "tb_ok r1 \<longrightarrow> (\<exists>E. written r1 = written r @ E) \<and> unat (tb_offset r1) = length (written r1) \<and>
       length (written r1) < 2 ^ 63 \<and> handle_set h \<and> bh_offset h = tb_offset r \<and> stored_at sn (written r1) h (block_bytes es rs)"
    using WriteBlock_spec [OF ok(1) o b(1)] by blast
  define r2 where "r2 = r1\<lparr>tb_data_block := b', tb_pending_handle := h\<rparr>"
  obtain s f where fl: "wf_Flush ops (tb_file r2) = (s, f)" by (meson surj_pair)
  define r3 where "r3 = (if tb_ok r2 then r2\<lparr>tb_pending_index_entry := True, tb_status := s, tb_file := f\<rparr> else r2)"
  have off: "unat (tb_offset r) \<le> unat (tb_offset r3)"
    using r1(4,5) o by (cases "tb_ok r1") (auto simp: r3_def r2_def tb_ok_def)
  have "tb_filter_block r1 = tb_filter_block r" "tb_closed r1 = tb_closed r" by (subst r1(3), simp)+
  then have fb: "tb_filter_block r3 = tb_filter_block r" and cl: "tb_closed r3 = tb_closed r" by (simp_all add: r3_def r2_def)
  have "filter_state (filter_keys chunks (tb_offset r) cur) (tb_offset r) (tb_filter_block r3)"
    using w fb by (simp add: writing_def filter_inv_def)
  from start_filter_ok [OF this off] obtain fb' where fb': "start_filter (tb_offset r3) r3 = Some (r3\<lparr>tb_filter_block := fb'\<rparr>)"
    "filter_state (filter_keys chunks (tb_offset r) cur) (tb_offset r3) fb'" by blast
  have F: "TableBuilder_Flush ops sn r = Some (r3\<lparr>tb_filter_block := fb'\<rparr>)"
  proof -
    have "TableBuilder_Flush ops sn r = start_filter (tb_offset r3) r3"
      using ok ne np r1(1) fl by (simp add: TableBuilder_Flush_def Let_def r3_def r2_def)
    then show ?thesis using fb'(1) by simp
  qed
  show ?thesis
  proof (cases "tb_ok r3")
    case False
    have "failed (r3\<lparr>tb_filter_block := fb'\<rparr>)" using False ok(2) cl by (simp add: failed_def tb_ok_def)
    then show ?thesis using F by blast
  next
    case True
    then have k: "tb_ok r1" "status_ok s" by (auto simp: r3_def r2_def tb_ok_def split: if_splits)
    then have r3: "r3 = r2\<lparr>tb_pending_index_entry := True, tb_status := s, tb_file := f\<rparr>" by (simp add: r3_def r2_def tb_ok_def)
    have f: "data_of f = written r1" using flush_honest [OF fl k(2)] by (simp add: r2_def)
    obtain E where E: "written r1 = written r @ E" using r1(5) k(1) by blast
    let ?chunks = "chunks @ [(cur, h)]"
    have ch: "chunks_ok sn (written r1) ?chunks"
      unfolding E
    proof (rule chunks_ok_snoc)
      show "block_at sn (written r @ E) h cur"
        unfolding block_at_def using b r1(5) k(1) E by (auto simp: built_def)
    qed (use w False r1(5) k(1) o in \<open>auto simp: writing_def\<close>)
    have g: "tb_options r3 = tb_options r" "tb_closed r3 = tb_closed r" "tb_num_entries r3 = tb_num_entries r"
      "tb_last_key r3 = tb_last_key r" "tb_index_block r3 = tb_index_block r" "tb_offset r3 = tb_offset r1"
      by (simp_all add: r3 r2_def) (subst r1(3), simp)+
    have "writing kvs ?chunks ikvs [] (r3\<lparr>tb_filter_block := fb'\<rparr>)"
      unfolding writing_def
    proof (intro conjI)
      show "filter_inv ?chunks [] (r3\<lparr>tb_filter_block := fb'\<rparr>)"
        using fb'(2) r1(5) k(1) by (simp add: filter_inv_def filter_keys_simps(3))
      show "index_inv kvs ?chunks ikvs (r3\<lparr>tb_filter_block := fb'\<rparr>)"
      proof -
        have "index_inv kvs chunks ikvs r" "\<forall>i \<in> set ikvs. \<forall>kv \<in> set cur. before cmp (fst i) (fst kv)"
          by (rule writingD [OF w])+
        then show ?thesis using fences_chunk [of cmp ikvs chunks cur h] g by (simp add: index_inv_def)
      qed
      show "holds_block (opt_block_restart_interval opt) [] (tb_data_block (r3\<lparr>tb_filter_block := fb'\<rparr>))"
        using r1(2) by (auto simp: r3 r2_def holds_block_def)
      show "tb_ok (r3\<lparr>tb_filter_block := fb'\<rparr>)" using True by (simp add: tb_ok_def)
      show "chunks_ok sn (written (r3\<lparr>tb_filter_block := fb'\<rparr>)) ?chunks" using ch f by (simp add: r3)
    qed (use w g r1(5) k(1) len f in \<open>auto simp: writing_def r3 r2_def\<close>)
    then show ?thesis using F by blast
  qed
qed

lemma ordered_snoc:
  assumes "ordered (kvs @ [(k, v)])"
  shows "ordered kvs" "valid k" "kvs \<noteq> [] \<Longrightarrow> valid (last_key kvs) \<and> before cmp (last_key kvs) k"
    "\<forall>kv \<in> set kvs. valid (fst kv)"
  using assms by (auto simp: sorted_source_def sorted_wrt_append last_key_def)

lemma last_key_greatest:
  assumes "ordered kvs" and "kv \<in> set kvs" and "valid d" and "\<not> before cmp d (last_key kvs)"
  shows "\<not> before cmp d (fst kv)"
proof (cases "kv = last kvs")
  case False
  have ne: "kvs \<noteq> []" using assms(2) by auto
  then have "kvs = butlast kvs @ [last kvs]" by simp
  moreover from this False assms(2) have "kv \<in> set (butlast kvs)" by (metis in_set_conv_decomp set_ConsD rotate1.simps(2) set_rotate1)
  ultimately have "before cmp (fst kv) (last_key kvs)" "valid (fst kv)" "valid (last_key kvs)"
    using assms(1,2) ne unfolding sorted_source_def last_key_def by (metis (no_types, lifting) list.set_intros(1) sorted_wrt_append) (use assms(1,2) ne in \<open>auto simp: sorted_source_def last_key_def\<close>)
  then show ?thesis using ordering.before_trans [OF assms(3)] assms(4) by blast
qed (use assms(4) in \<open>simp add: last_key_def\<close>)

lemma add_index_ok:
  assumes w: "writing kvs chunks ikvs cur r" and p: "tb_pending_index_entry r"
    and d: "valid d" "\<not> before cmp d (last_key kvs)"
  shows "\<exists>r' ikvs'. add_index_entry (r\<lparr>tb_last_key := d\<rparr>) = Some r' \<and> ikvs' = ikvs @ [(d, handle_bytes (snd (last chunks)))] \<and>
    r' = r\<lparr>tb_last_key := d, tb_index_block := tb_index_block r', tb_pending_index_entry := False\<rparr> \<and>
    holds_block 1 ikvs' (tb_index_block r') \<and> ordered ikvs' \<and> fences cmp ikvs' chunks \<and> length ikvs' = length chunks"
proof -
  note W = writingD [OF w]
  have pe: "cur = []" "chunks \<noteq> []" "tb_pending_handle r = snd (last chunks)" "length ikvs = length chunks - 1"
    using W(14) [OF p] by blast+
  obtain cs xs h where cs: "chunks = cs @ [(xs, h)]" using pe(2) by (metis rev_exhaust surj_pair)
  have ch: "xs \<noteq> []" "handle_set h" using W(11) by (auto simp: chunks_ok_def cs)
  have kv: "kvs = concat (map fst cs) @ xs" using W(8) pe(1) cs by simp
  have ne: "kvs \<noteq> []" using kv ch(1) by simp
  have o: "ordered kvs" by (rule W(7))
  have I: "ordered ikvs" "fences cmp ikvs chunks" "holds_block 1 ikvs (tb_index_block r)" "\<forall>i \<in> set ikvs. before cmp (fst i) (last_key kvs)"
    using W(12) by (auto simp: index_inv_def)
  have vl: "valid (last_key kvs)" using o ne by (auto simp: sorted_source_def last_key_def)
  have up: "before cmp (fst i) d" "valid (fst i)" if "i \<in> set ikvs" for i
  proof -
    show v: "valid (fst i)" using I(1) that by (auto simp: sorted_source_def)
    show "before cmp (fst i) d" using ordering.before_not_trans [OF v vl d(1) _ d(2)] I(4) that by blast
  qed
  let ?ikvs = "ikvs @ [(d, handle_bytes h)]"
  have "after cmp d (last_key ikvs)" if "ikvs \<noteq> []"
    using up [of "last ikvs"] that d(1) by (simp add: last_key_def after_before)
  then obtain b where b: "BlockBuilder_Add d (handle_bytes h) (tb_index_block r) = Some b" "holds_block 1 ?ikvs b"
    using holds_block_Add [OF I(3)] by blast
  have "fences cmp ?ikvs chunks"
    unfolding cs
  proof (rule fences_index)
    show "fences cmp ikvs (cs @ [(xs, h)])" using I(2) cs by simp
    show "length ikvs = length cs" using pe(4) cs by simp
    show "\<forall>kv \<in> set xs. \<not> before cmp d (fst kv)" using last_key_greatest [OF o _ d] kv by auto
  qed
  moreover have "ordered ?ikvs" using I(1) up d(1) by (auto simp: sorted_source_def sorted_wrt_append)
  moreover have "add_index_entry (r\<lparr>tb_last_key := d\<rparr>) = Some (r\<lparr>tb_last_key := d, tb_index_block := b, tb_pending_index_entry := False\<rparr>)"
    using b(1) pe(3) ch(2) cs by (simp add: add_index_entry_def BlockHandle_Encode)
  ultimately show ?thesis using b(2) pe(2,4) cs by (intro exI [of _ "r\<lparr>tb_last_key := d, tb_index_block := b, tb_pending_index_entry := False\<rparr>"] exI [of _ ?ikvs]) simp
qed

lemma Add_index:
  assumes w: "writing kvs chunks ikvs cur r" and k: "ordered (kvs @ [(k, v)])"
  shows "\<exists>r1 ikvs1 l. (if tb_pending_index_entry r then
            if \<not> BlockBuilder_empty (tb_data_block r) then None
            else do {
              sep \<leftarrow> FindShortestSeparator (opt_comparator (tb_options r)) (tb_last_key r) k;
              add_index_entry (r\<lparr>tb_last_key := sep\<rparr>)
            }
          else Some r) = Some r1 \<and>
    r1 = r\<lparr>tb_last_key := l, tb_index_block := tb_index_block r1, tb_pending_index_entry := False\<rparr> \<and>
    holds_block 1 ikvs1 (tb_index_block r1) \<and> ordered ikvs1 \<and> fences cmp ikvs1 chunks \<and> length ikvs1 = length chunks \<and>
    (\<forall>i \<in> set ikvs1. before cmp (fst i) k \<and> (\<forall>kv \<in> set cur. before cmp (fst i) (fst kv)))"
proof -
  note W = writingD [OF w] and K = ordered_snoc [OF k]
  have I: "ordered ikvs" "fences cmp ikvs chunks" "holds_block 1 ikvs (tb_index_block r)"
    "\<forall>i \<in> set ikvs. kvs \<noteq> [] \<and> before cmp (fst i) (last_key kvs)"
    using W(12) by (auto simp: index_inv_def)
  have ik: "before cmp (fst i) k" if "i \<in> set ikvs" for i
  proof -
    have "valid (fst i)" using I(1) that by (auto simp: sorted_source_def)
    then show ?thesis using ordering.before_trans [of "fst i" "last_key kvs" k] I(4) K(2,3) that by blast
  qed
  show ?thesis
  proof (cases "tb_pending_index_entry r")
    case False
    then show ?thesis using I W(13,15) ik by (intro exI [of _ r] exI [of _ ikvs] exI [of _ "tb_last_key r"]) simp
  next
    case True
    then have pe: "cur = []" "chunks \<noteq> []" using W(14) by blast+
    have ne: "kvs \<noteq> []" using W(8,11) pe by (cases chunks) (auto simp: chunks_ok_def)
    have lk: "tb_last_key r = last_key kvs" "valid (last_key kvs)" "before cmp (last_key kvs) k" using W(10) K(3) ne by blast+
    obtain d where d: "FindShortestSeparator c (last_key kvs) k = Some d" "valid d" "\<not> before cmp d (last_key kvs)" "before cmp d k"
      using separator [OF lk(2) K(2)] lk(3) by (auto simp: key_less_before)
    obtain r1 ikvs1 where r1: "add_index_entry (r\<lparr>tb_last_key := d\<rparr>) = Some r1" "ikvs1 = ikvs @ [(d, handle_bytes (snd (last chunks)))]"
      "r1 = r\<lparr>tb_last_key := d, tb_index_block := tb_index_block r1, tb_pending_index_entry := False\<rparr>"
      "holds_block 1 ikvs1 (tb_index_block r1)" "ordered ikvs1" "fences cmp ikvs1 chunks" "length ikvs1 = length chunks"
      using add_index_ok [OF w True d(2,3)] by blast
    have "BlockBuilder_empty (tb_data_block r)" using holds_block_empty [OF W(6)] pe(1) by simp
    then have "(if tb_pending_index_entry r then
            if \<not> BlockBuilder_empty (tb_data_block r) then None
            else do {
              sep \<leftarrow> FindShortestSeparator (opt_comparator (tb_options r)) (tb_last_key r) k;
              add_index_entry (r\<lparr>tb_last_key := sep\<rparr>)
            }
          else Some r) = Some r1"
      using True W(1) opt_c lk(1) d(1) r1(1) by simp
    moreover have "\<forall>i \<in> set ikvs1. before cmp (fst i) k \<and> (\<forall>kv \<in> set cur. before cmp (fst i) (fst kv))"
      using r1(2) ik d(4) pe(1) by auto
    ultimately show ?thesis using r1(3-7) by blast
  qed
qed

lemma Add_writing:
  assumes w: "writing kvs chunks ikvs cur r" and k: "ordered (kvs @ [(k, v)])"
  shows "\<exists>r'. TableBuilder_Add ops sn k v r = Some r' \<and>
    (failed r' \<or> (\<exists>chunks' ikvs' cur'. writing (kvs @ [(k, v)]) chunks' ikvs' cur' r'))"
proof -
  note W = writingD [OF w] and K = ordered_snoc [OF k]
  obtain r1 ikvs1 l where i: "(if tb_pending_index_entry r then
            if \<not> BlockBuilder_empty (tb_data_block r) then None
            else do {
              sep \<leftarrow> FindShortestSeparator (opt_comparator (tb_options r)) (tb_last_key r) k;
              add_index_entry (r\<lparr>tb_last_key := sep\<rparr>)
            }
          else Some r) = Some r1"
    and r1: "r1 = r\<lparr>tb_last_key := l, tb_index_block := tb_index_block r1, tb_pending_index_entry := False\<rparr>"
    "holds_block 1 ikvs1 (tb_index_block r1)" "ordered ikvs1" "fences cmp ikvs1 chunks" "length ikvs1 = length chunks"
    "\<forall>i \<in> set ikvs1. before cmp (fst i) k \<and> (\<forall>kv \<in> set cur. before cmp (fst i) (fst kv))"
    using Add_index [OF w k] by blast
  have g: "\<not> (tb_num_entries r > 0 \<and> \<not> after (Compare (opt_comparator (tb_options r))) k (tb_last_key r))"
    using W(1,9,10) opt_c K(2,3) by (cases "kvs = []") (simp_all add: after_before)
  have f1: "tb_data_block r1 = tb_data_block r" "tb_filter_block r1 = tb_filter_block r" "tb_options r1 = opt" "tb_offset r1 = tb_offset r"
    "tb_num_entries r1 = tb_num_entries r" "tb_file r1 = tb_file r" "tb_closed r1 = tb_closed r" "tb_status r1 = tb_status r"
    "\<not> tb_pending_index_entry r1"
    using W(1) by (subst r1(1), simp)+
  have "after cmp k (last_key cur)" if "cur \<noteq> []"
    using that W(8) K(2,3) by (simp add: after_before last_key_def)
  then obtain data where data: "BlockBuilder_Add k v (tb_data_block r) = Some data"
    "holds_block (opt_block_restart_interval opt) (cur @ [(k, v)]) data"
    using holds_block_Add [OF W(6)] by blast
  define r2 where "r2 = r1\<lparr>tb_filter_block := map_option (\<lambda>(p, b). (p, AddKey k b)) (tb_filter_block r1),
      tb_last_key := k, tb_num_entries := tb_num_entries r1 + 1, tb_data_block := data\<rparr>"
  have A: "TableBuilder_Add ops sn k v r =
      (if BlockBuilder_CurrentSizeEstimate data \<ge> opt_block_size opt then TableBuilder_Flush ops sn r2 else Some r2)"
    unfolding TableBuilder_Add_def if_not_P [OF g] i using W(2,3) data(1) f1(1,3) by (simp add: r2_def Let_def)
  have "writing (kvs @ [(k, v)]) chunks ikvs1 (cur @ [(k, v)]) r2"
    unfolding writing_def
  proof (intro conjI)
    show "index_inv (kvs @ [(k, v)]) chunks ikvs1 r2"
      using r1(2-4,6) by (simp add: index_inv_def r2_def last_key_def)
    show "filter_inv chunks (cur @ [(k, v)]) r2"
      using filter_AddKey [of chunks "tb_offset r" cur "tb_filter_block r" k v] W(16) f1 by (simp add: filter_inv_def r2_def)
    show "tb_ok r2" using W(3) f1 by (simp add: tb_ok_def r2_def)
    show "if tb_pending_index_entry r2
      then cur @ [(k, v)] = [] \<and> chunks \<noteq> [] \<and> tb_pending_handle r2 = snd (last chunks) \<and> length ikvs1 = length chunks - 1
      else length ikvs1 = length chunks" using f1 r1(5) by (simp add: r2_def)
    show "\<forall>i \<in> set ikvs1. \<forall>kv \<in> set (cur @ [(k, v)]). before cmp (fst i) (fst kv)" using r1(6) by simp
  qed (use W k f1 data(2) in \<open>simp_all add: r2_def last_key_def\<close>)
  from Flush_writing [OF this] this show ?thesis unfolding A by (cases "BlockBuilder_CurrentSizeEstimate data \<ge> opt_block_size opt") auto
qed

end

text \<open>Adding a list of entries.\<close>

primrec TableBuilder_Add_all :: "'f WritableFile \<Rightarrow> Snappy \<Rightarrow> entry list \<Rightarrow> 'f TableBuilder \<Rightarrow> 'f TableBuilder option" where
  "TableBuilder_Add_all ops sn [] r = Some r"
| "TableBuilder_Add_all ops sn (kv # kvs) r =
     do { r \<leftarrow> TableBuilder_Add ops sn (fst kv) (snd kv) r; TableBuilder_Add_all ops sn kvs r }"

definition build_table :: "'f WritableFile \<Rightarrow> Snappy \<Rightarrow> Options \<Rightarrow> entry list \<Rightarrow> 'f \<Rightarrow> (Status \<times> 'f TableBuilder) option" where
  "build_table ops sn opt kvs f =
     do { r \<leftarrow> new_TableBuilder opt f; r \<leftarrow> TableBuilder_Add_all ops sn kvs r; TableBuilder_Finish ops sn r }"

context table_store
begin

lemma Add_all_failed: "failed r \<Longrightarrow> TableBuilder_Add_all ops sn kvs r = Some r"
  by (induction kvs) (simp_all add: TableBuilder_Add_def failed_def)

lemma Add_all_writing:
  "writing kvs0 chunks ikvs cur r \<Longrightarrow> ordered (kvs0 @ kvs) \<Longrightarrow>
   \<exists>r'. TableBuilder_Add_all ops sn kvs r = Some r' \<and>
     (failed r' \<or> (\<exists>chunks' ikvs' cur'. writing (kvs0 @ kvs) chunks' ikvs' cur' r'))"
proof (induction kvs arbitrary: kvs0 chunks ikvs cur r)
  case (Cons kv kvs)
  have "ordered (kvs0 @ [(fst kv, snd kv)])" using Cons.prems(2) by (auto simp: sorted_source_def sorted_wrt_append)
  from Add_writing [OF Cons.prems(1) this] obtain r1 where r1: "TableBuilder_Add ops sn (fst kv) (snd kv) r = Some r1"
    "failed r1 \<or> (\<exists>chunks' ikvs' cur'. writing (kvs0 @ [kv]) chunks' ikvs' cur' r1)" by auto
  show ?case
  proof (cases "failed r1")
    case True
    then show ?thesis using r1(1) Add_all_failed by auto
  next
    case False
    then obtain chunks' ikvs' cur' where "writing (kvs0 @ [kv]) chunks' ikvs' cur' r1" using r1(2) by blast
    from Cons.IH [OF this] Cons.prems(2) r1(1) show ?thesis by simp
  qed
qed auto

text \<open>The steps of \<open>Finish\<close>: each appends to the file, or fails.\<close>

definition appended :: "'f TableBuilder \<Rightarrow> 'f TableBuilder \<Rightarrow> bool" where
  "appended r r' \<longleftrightarrow> (\<exists>E. written r' = written r @ E) \<and> unat (tb_offset r') = length (written r') \<and> length (written r') < 2 ^ 63"

lemma finish_filter_ok:
  assumes "tb_ok r" and o: "unat (tb_offset r) = length (written r)" and l: "length (written r) < 2 ^ 63"
  shows "\<exists>fh r'. finish_filter ops r = (fh, r') \<and>
    r' = r\<lparr>tb_status := tb_status r', tb_file := tb_file r', tb_offset := tb_offset r'\<rparr> \<and>
    (tb_ok r' \<longrightarrow> appended r r' \<and>
      (\<forall>p b. tb_filter_block r = Some (p, b) \<longrightarrow> handle_set fh \<and> stored_at sn (written r') fh (FilterBlock_Finish p b)))"
proof (cases "tb_filter_block r")
  case None
  then show ?thesis using o l by (simp add: finish_filter_def appended_def)
next
  case (Some pb)
  obtain p b where pb: "pb = (p, b)" by (cases pb)
  obtain h r' where w: "WriteRawBlock ops (FilterBlock_Finish p b) kNoCompression r = (h, r')"
    "r' = r\<lparr>tb_status := tb_status r', tb_file := tb_file r', tb_offset := tb_offset r'\<rparr>"
    "tb_ok r' \<longrightarrow> written r' = written r @ stored_block (FilterBlock_Finish p b) kNoCompression \<and>
       unat (tb_offset r') = length (written r') \<and> length (written r') < 2 ^ 63 \<and> handle_set h \<and> bh_offset h = tb_offset r \<and>
       unat (bh_size h) = length (FilterBlock_Finish p b)"
    using WriteRawBlock_spec [OF o] by blast
  have "stored_at sn (written r') h (FilterBlock_Finish p b)" if "tb_ok r'"
    unfolding stored_at_def
  proof (intro exI conjI)
    show "drop (unat (bh_offset h)) (written r') = stored_block (FilterBlock_Finish p b) kNoCompression @ []"
      using w(3) that o by simp
    show "unpacks sn (FilterBlock_Finish p b) kNoCompression (FilterBlock_Finish p b)" by (simp add: unpacks_def)
  qed (use w(3) that in simp)
  moreover have "finish_filter ops r = (h, r')" using Some pb assms(1) w(1) by (simp add: finish_filter_def)
  ultimately show ?thesis using w(2,3) Some pb by (intro exI [of _ h] exI [of _ r']) (auto simp: appended_def)
qed

lemma WriteBlock_holds:
  assumes ok: "tb_ok r" and o: "unat (tb_offset r) = length (written r)" and b: "holds_block i xs b"
  shows "\<exists>h b' r'. WriteBlock ops sn b r = Some (h, b', r') \<and>
    r' = r\<lparr>tb_status := tb_status r', tb_file := tb_file r', tb_offset := tb_offset r'\<rparr> \<and>
    (tb_ok r' \<longrightarrow> appended r r' \<and> handle_set h \<and> block_at sn (written r') h xs)"
proof -
  obtain es rs where es: "built c i es rs b" "to_entries es = xs" using b by (auto simp: holds_block_def)
  then have "chained [] es" "restarts_ok es rs" by (auto simp: built_def)
  then show ?thesis using WriteBlock_spec [OF ok o es(1)] es(2) by (fastforce simp: appended_def block_at_def)
qed

lemma finish_meta_ok:
  assumes ok: "tb_ok r" and o: "unat (tb_offset r) = length (written r)" and opt: "tb_options r = opt"
    and fb: "\<And>p b. tb_filter_block r = Some (p, b) \<Longrightarrow> opt_filter_policy opt = Some (name, p) \<and> handle_set fh"
  shows "\<exists>mh r'. finish_meta ops sn fh r = Some (mh, r') \<and>
    r' = r\<lparr>tb_status := tb_status r', tb_file := tb_file r', tb_offset := tb_offset r'\<rparr> \<and>
    (tb_ok r' \<longrightarrow> appended r r' \<and> handle_set mh \<and>
       block_at sn (written r') mh (if tb_filter_block r = None then [] else [(FilterKey name, handle_bytes fh)]))"
proof -
  obtain b0 where b0: "new_BlockBuilder c (opt_block_restart_interval opt) = Some b0" "holds_block (opt_block_restart_interval opt) [] b0"
    using new_built [OF interval, of c] by (auto simp: holds_block_def)
  let ?xs = "if tb_filter_block r = None then [] else [(FilterKey name, handle_bytes fh)]"
  have "\<exists>b. (if tb_filter_block r \<noteq> None then do {
                   (name, _) \<leftarrow> opt_filter_policy (tb_options r);
                   handle_encoding \<leftarrow> BlockHandle_EncodeTo fh [];
                   BlockBuilder_Add (FilterKey name) handle_encoding b0
                 }
                 else Some b0) = Some b \<and> holds_block (opt_block_restart_interval opt) ?xs b"
  proof (cases "tb_filter_block r")
    case None
    then show ?thesis using b0(2) by simp
  next
    case (Some pb)
    then obtain p b where pb: "tb_filter_block r = Some (p, b)" by (cases pb) simp
    obtain b1 where "BlockBuilder_Add (FilterKey name) (handle_bytes fh) b0 = Some b1"
      "holds_block (opt_block_restart_interval opt) ([] @ [(FilterKey name, handle_bytes fh)]) b1"
      using holds_block_Add [OF b0(2)] by blast
    then show ?thesis using fb [OF pb] pb opt by (simp add: BlockHandle_Encode)
  qed
  then obtain b where b: "(if tb_filter_block r \<noteq> None then do {
                   (name, _) \<leftarrow> opt_filter_policy (tb_options r);
                   handle_encoding \<leftarrow> BlockHandle_EncodeTo fh [];
                   BlockBuilder_Add (FilterKey name) handle_encoding b0
                 }
                 else Some b0) = Some b" "holds_block (opt_block_restart_interval opt) ?xs b" by blast
  obtain h b' r' where w: "WriteBlock ops sn b r = Some (h, b', r')"
    "r' = r\<lparr>tb_status := tb_status r', tb_file := tb_file r', tb_offset := tb_offset r'\<rparr>"
    "tb_ok r' \<longrightarrow> appended r r' \<and> handle_set h \<and> block_at sn (written r') h ?xs"
    using WriteBlock_holds [OF ok o b(2)] by blast
  have n: "new_BlockBuilder (opt_comparator (tb_options r)) (opt_block_restart_interval (tb_options r)) = Some b0"
    using b0(1) opt opt_c by simp
  have "finish_meta ops sn fh r = Some (h, r')"
    unfolding finish_meta_def n bind.bind_lunit b(1) w(1) using ok by simp
  then show ?thesis using w(2,3) by blast
qed

lemma finish_footer_ok:
  assumes "tb_ok r" and "handle_set mh" and "handle_set ih"
  shows "\<exists>r'. finish_footer ops mh ih r = Some r' \<and>
    (tb_ok r' \<longrightarrow> written r' = written r @ footer_bytes \<lparr>metaindex_handle = mh, index_handle = ih\<rparr> \<and> length (written r') < 2 ^ 63)"
proof -
  let ?f = "footer_bytes \<lparr>metaindex_handle = mh, index_handle = ih\<rparr>"
  obtain s f where a: "wf_Append ops ?f (tb_file r) = (s, f)" by (meson surj_pair)
  have e: "Footer_EncodeTo \<lparr>metaindex_handle = mh, index_handle = ih\<rparr> [] = Some ?f"
    using assms(2,3) by (intro Footer_Encode) simp_all
  show ?thesis
  proof (cases "status_ok s")
    case True
    then have "data_of f = written r @ ?f" "length (data_of f) < 2 ^ 63" using append_honest [OF a] by blast+
    then show ?thesis using True assms(1) a by (simp add: finish_footer_def e tb_ok_def del: length_append)
  next
    case False
    then show ?thesis using assms(1) a by (simp add: finish_footer_def e tb_ok_def)
  qed
qed

lemma add_index_frame:
  "add_index_entry r = Some r' \<Longrightarrow>
   add_index_entry (r\<lparr>tb_file := f, tb_offset := at, tb_status := s, tb_closed := cl\<rparr>) =
     Some (r'\<lparr>tb_file := f, tb_offset := at, tb_status := s, tb_closed := cl\<rparr>)"
  by (auto simp: add_index_entry_def bind_eq_Some_conv)

lemma finish_index_ok:
  assumes w: "writing kvs chunks ikvs [] r" and r': "r' = r\<lparr>tb_file := f, tb_offset := at, tb_status := s, tb_closed := True\<rparr>"
    and ok: "tb_ok r'" and o: "unat at = length (data_of f)"
  shows "\<exists>ih r4 ikvs'. finish_index ops sn r' = Some (ih, r4) \<and> ordered ikvs' \<and> fences cmp ikvs' chunks \<and>
    length ikvs' = length chunks \<and> (tb_ok r4 \<longrightarrow> appended r' r4 \<and> handle_set ih \<and> block_at sn (written r4) ih ikvs')"
proof -
  note W = writingD [OF w]
  have "\<exists>r3 ikvs'. (if tb_pending_index_entry r' then do {
                key \<leftarrow> FindShortSuccessor (opt_comparator (tb_options r')) (tb_last_key r');
                add_index_entry (r'\<lparr>tb_last_key := key\<rparr>)
              }
              else Some r') = Some r3 \<and>
    tb_file r3 = f \<and> tb_offset r3 = at \<and> tb_status r3 = s \<and> holds_block 1 ikvs' (tb_index_block r3) \<and> ordered ikvs' \<and>
    fences cmp ikvs' chunks \<and> length ikvs' = length chunks"
  proof (cases "tb_pending_index_entry r")
    case False
    then show ?thesis using W(12,15) r' by (intro exI [of _ r'] exI [of _ ikvs]) (simp add: index_inv_def)
  next
    case True
    have "kvs \<noteq> []" using W(8,11) W(14) [OF True] by (cases chunks) (auto simp: chunks_ok_def)
    then have lk: "tb_last_key r = last_key kvs" "valid (last_key kvs)"
      using W(7,10) by (auto simp: sorted_source_def last_key_def)
    obtain d where d: "FindShortSuccessor c (last_key kvs) = Some d" "valid d" "\<not> before cmp d (last_key kvs)"
      using successor [OF lk(2)] by (auto simp: key_less_before)
    obtain r1 ikvs1 where r1: "add_index_entry (r\<lparr>tb_last_key := d\<rparr>) = Some r1"
      "holds_block 1 ikvs1 (tb_index_block r1)" "ordered ikvs1" "fences cmp ikvs1 chunks" "length ikvs1 = length chunks"
      using add_index_ok [OF w True d(2,3)] by blast
    have "r'\<lparr>tb_last_key := d\<rparr> = r\<lparr>tb_last_key := d, tb_file := f, tb_offset := at, tb_status := s, tb_closed := True\<rparr>"
      unfolding r' by (rule TableBuilder.equality) simp_all
    then have "add_index_entry (r'\<lparr>tb_last_key := d\<rparr>) = Some (r1\<lparr>tb_file := f, tb_offset := at, tb_status := s, tb_closed := True\<rparr>)"
      using add_index_frame [OF r1(1), where f = f and at = at and s = s and cl = True] by simp
    then show ?thesis using True W(1) opt_c lk(1) d(1) r1(2-5) r'
      by (intro exI [of _ "r1\<lparr>tb_file := f, tb_offset := at, tb_status := s, tb_closed := True\<rparr>"] exI [of _ ikvs1]) simp
  qed
  then obtain r3 ikvs' where r3: "(if tb_pending_index_entry r' then do {
                key \<leftarrow> FindShortSuccessor (opt_comparator (tb_options r')) (tb_last_key r');
                add_index_entry (r'\<lparr>tb_last_key := key\<rparr>)
              }
              else Some r') = Some r3"
    "tb_file r3 = f" "tb_offset r3 = at" "tb_status r3 = s" "holds_block 1 ikvs' (tb_index_block r3)" "ordered ikvs'"
    "fences cmp ikvs' chunks" "length ikvs' = length chunks" by blast
  have "tb_ok r3" "unat (tb_offset r3) = length (written r3)" using ok o r3 r' by (simp_all add: tb_ok_def)
  from WriteBlock_holds [OF this r3(5)] obtain h b' r4 where w4: "WriteBlock ops sn (tb_index_block r3) r3 = Some (h, b', r4)"
    "tb_ok r4 \<longrightarrow> appended r3 r4 \<and> handle_set h \<and> block_at sn (written r4) h ikvs'" by blast
  have "finish_index ops sn r' = Some (h, r4\<lparr>tb_index_block := b'\<rparr>)"
    unfolding finish_index_def r3(1) bind.bind_lunit w4(1) using ok by simp
  moreover have "tb_ok (r4\<lparr>tb_index_block := b'\<rparr>) \<longrightarrow> appended r' (r4\<lparr>tb_index_block := b'\<rparr>) \<and> handle_set h \<and>
      block_at sn (written (r4\<lparr>tb_index_block := b'\<rparr>)) h ikvs'"
    using w4(2) r3(2) r' by (simp add: tb_ok_def appended_def)
  ultimately show ?thesis using r3(6-8) by blast
qed

lemma finish_not_ok:
  assumes "\<not> tb_ok r"
  shows "finish_meta ops sn fh r = Some (new_BlockHandle, r)" "finish_index ops sn r = Some (new_BlockHandle, r)"
    "finish_footer ops mh ih r = Some r"
  using assms by (simp_all add: finish_meta_def finish_index_def finish_footer_def)

lemma finish_filter_not_ok: "\<not> tb_ok r \<Longrightarrow> finish_filter ops r = (new_BlockHandle, r)"
  by (simp add: finish_filter_def split: option.splits prod.splits)

lemma Finish_failed:
  assumes "failed r"
  shows "\<exists>s r'. TableBuilder_Finish ops sn r = Some (s, r') \<and> \<not> status_ok s"
proof -
  have "\<not> tb_ok (r\<lparr>tb_closed := True\<rparr>)" using assms by (simp add: failed_def tb_ok_def)
  note f = finish_not_ok [OF this] finish_filter_not_ok [OF this]
  show ?thesis using assms f by (simp add: TableBuilder_Finish_def TableBuilder_Flush_def failed_def tb_ok_def)
qed

text \<open>The steps behind the filter, when they were entered well.\<close>

lemma appended_trans: "appended r r1 \<Longrightarrow> appended r1 r2 \<Longrightarrow> \<exists>E1 E2. written r1 = written r @ E1 \<and> written r2 = written r1 @ E2"
  by (auto simp: appended_def)

lemma finish_steps:
  assumes w: "writing kvs chunks ikvs [] r" and r1: "r1 = r\<lparr>tb_file := f, tb_offset := at, tb_status := s, tb_closed := True\<rparr>"
    and ok: "tb_ok r1" and a: "appended r r1"
    and fb: "\<And>p b. tb_filter_block r = Some (p, b) \<Longrightarrow>
      opt_filter_policy opt = Some (name, p) \<and> handle_set fh \<and> stored_at sn (written r1) fh (FilterBlock_Finish p b)"
  shows "\<exists>mh r2 ih r3 r4. finish_meta ops sn fh r1 = Some (mh, r2) \<and> finish_index ops sn r2 = Some (ih, r3) \<and>
    finish_footer ops mh ih r3 = Some r4 \<and> (tb_ok r4 \<longrightarrow> table_file c valid sn opt (written r4) kvs)"
proof -
  note W = writingD [OF w]
  have o1: "unat (tb_offset r1) = length (written r1)" "tb_options r1 = opt" "tb_filter_block r1 = tb_filter_block r"
    using a r1 W(1) by (simp_all add: appended_def)
  have fb1: "opt_filter_policy opt = Some (name, p) \<and> handle_set fh" if "tb_filter_block r1 = Some (p, b)" for p b
    using fb [of p b] that o1(3) by simp
  let ?mkvs = "if tb_filter_block r1 = None then [] else [(FilterKey name, handle_bytes fh)]"
  obtain mh r2 where r2: "finish_meta ops sn fh r1 = Some (mh, r2)"
    "r2 = r1\<lparr>tb_status := tb_status r2, tb_file := tb_file r2, tb_offset := tb_offset r2\<rparr>"
    "tb_ok r2 \<longrightarrow> appended r1 r2 \<and> handle_set mh \<and> block_at sn (written r2) mh ?mkvs"
    using finish_meta_ok [OF ok o1(1,2), of name fh] fb1 by blast
  show ?thesis
  proof (cases "tb_ok r2")
    case False
    then show ?thesis using r2(1) finish_not_ok [OF False] by auto
  next
    case True
    then have a2: "appended r1 r2" "handle_set mh" "block_at sn (written r2) mh ?mkvs" using r2(3) by simp_all
    have e2: "r2 = r\<lparr>tb_file := tb_file r2, tb_offset := tb_offset r2, tb_status := tb_status r2, tb_closed := True\<rparr>"
      using r2(2) [unfolded r1] unfolding r1 by (rule trans) (rule TableBuilder.equality; simp)
    have "unat (tb_offset r2) = length (data_of (tb_file r2))" using a2(1) by (simp add: appended_def)
    from finish_index_ok [OF w e2 True this] obtain ih r3 ikvs' where r3: "finish_index ops sn r2 = Some (ih, r3)"
      "ordered ikvs'" "fences cmp ikvs' chunks" "length ikvs' = length chunks"
      "tb_ok r3 \<longrightarrow> appended r2 r3 \<and> handle_set ih \<and> block_at sn (written r3) ih ikvs'" by blast
    show ?thesis
    proof (cases "tb_ok r3")
      case False
      then show ?thesis using r2(1) r3(1) finish_not_ok(3) [OF False] by auto
    next
      case ok3: True
      then have a3: "appended r2 r3" "handle_set ih" "block_at sn (written r3) ih ikvs'" using r3(5) by simp_all
      obtain r4 where r4: "finish_footer ops mh ih r3 = Some r4"
        "tb_ok r4 \<longrightarrow> written r4 = written r3 @ footer_bytes \<lparr>metaindex_handle = mh, index_handle = ih\<rparr> \<and> length (written r4) < 2 ^ 63"
        using finish_footer_ok [OF ok3 a2(2) a3(2)] by blast
      obtain E1 E2 E3 where E: "written r1 = written r @ E1" "written r2 = written r1 @ E2" "written r3 = written r2 @ E3"
        using a a2(1) a3(1) by (auto simp: appended_def)
      have "table_file c valid sn opt (written r4) kvs" if "tb_ok r4"
      proof -
        define F where "F = footer_bytes \<lparr>metaindex_handle = mh, index_handle = ih\<rparr>"
        have D: "written r4 = written r3 @ F" "length (written r4) < 2 ^ 63" using r4(2) that unfolding F_def by blast+
        have ch: "chunks_ok sn (written r4) chunks"
          using chunks_ok_append [OF W(11), of "E1 @ E2 @ E3 @ F"] D(1) E by simp
        have "meta_at sn opt (written r4) mh chunks"
        proof (cases "tb_filter_block r")
          case None
          then have "opt_filter_policy opt = None" using W(16) by (simp add: filter_inv_def filter_state_def)
          then show ?thesis using None o1(3) block_at_append [OF a2(3), of "E3 @ F"] D(1) E by (simp add: meta_at_def)
        next
          case (Some pb)
          then obtain p b where pb: "tb_filter_block r = Some (p, b)" by (cases pb) simp
          then have p: "opt_filter_policy opt = Some (name, p)" using fb by blast
          obtain fs ks where "fb_inv p (filter_keys chunks (tb_offset r) []) b fs ks"
            using W(16) pb by (auto simp: filter_inv_def filter_state_def)
          then have "fb_inv p (filter_keys chunks 0 []) b fs ks" using filter_keys_simps(4) by metis
          moreover have "block_at sn (written r4) mh [(FilterKey name, handle_bytes fh)]"
            using block_at_append [OF a2(3), of "E3 @ F"] D(1) E pb o1(3) by simp
          moreover have "stored_at sn (written r4) fh (FilterBlock_Finish p b)"
            using stored_at_append [of sn "written r1" fh "FilterBlock_Finish p b" "E2 @ E3 @ F"] fb [OF pb] D(1) E by simp
          ultimately show ?thesis using p by (auto simp: meta_at_def)
        qed
        moreover have "block_at sn (written r4) ih ikvs'" using block_at_append [OF a3(3), of F] D(1) by simp
        ultimately show ?thesis unfolding table_file_def
          using D W(7,8) ch r3(2-4) by (intro exI [of _ chunks] exI [of _ ikvs'] exI [of _ mh] exI [of _ ih] exI [of _ "written r3"]) (simp add: F_def)
      qed
      then show ?thesis using r2(1) r3(1) r4(1) by blast
    qed
  qed
qed

lemma Finish_writing:
  assumes w: "writing kvs chunks ikvs cur r"
  shows "\<exists>s r'. TableBuilder_Finish ops sn r = Some (s, r') \<and> (status_ok s \<longrightarrow> table_file c valid sn opt (written r') kvs)"
proof -
  obtain r0 where r0: "TableBuilder_Flush ops sn r = Some r0" "failed r0 \<or> (\<exists>chunks'. writing kvs chunks' ikvs [] r0)"
    using Flush_writing [OF w] by blast
  show ?thesis
  proof (cases "failed r0")
    case True
    have "\<not> tb_ok (r0\<lparr>tb_closed := True\<rparr>)" using True by (simp add: failed_def tb_ok_def)
    note f = finish_not_ok [OF this] finish_filter_not_ok [OF this]
    show ?thesis using r0(1) True f by (simp add: TableBuilder_Finish_def failed_def tb_ok_def)
  next
    case False
    then obtain chunks' where w0: "writing kvs chunks' ikvs [] r0" using r0(2) by blast
    note W = writingD [OF w0]
    let ?r = "r0\<lparr>tb_closed := True\<rparr>"
    have ok: "tb_ok ?r" using W(3) by (simp add: tb_ok_def)
    obtain fh r1 where r1: "finish_filter ops ?r = (fh, r1)"
      "r1 = ?r\<lparr>tb_status := tb_status r1, tb_file := tb_file r1, tb_offset := tb_offset r1\<rparr>"
      "tb_ok r1 \<longrightarrow> appended ?r r1 \<and>
        (\<forall>p b. tb_filter_block ?r = Some (p, b) \<longrightarrow> handle_set fh \<and> stored_at sn (written r1) fh (FilterBlock_Finish p b))"
      using finish_filter_ok [OF ok] W(4,5) by auto
    have "\<exists>mh r2 ih r3 r4. finish_meta ops sn fh r1 = Some (mh, r2) \<and> finish_index ops sn r2 = Some (ih, r3) \<and>
        finish_footer ops mh ih r3 = Some r4 \<and> (tb_ok r4 \<longrightarrow> table_file c valid sn opt (written r4) kvs)"
    proof (cases "tb_ok r1")
      case False
      then show ?thesis using finish_not_ok [OF False] by auto
    next
      case True
      have e: "r1 = r0\<lparr>tb_file := tb_file r1, tb_offset := tb_offset r1, tb_status := tb_status r1, tb_closed := True\<rparr>"
        using r1(2) by (rule trans) (rule TableBuilder.equality; simp)
      have a: "appended r0 r1" using r1(3) True by (simp add: appended_def)
      show ?thesis
      proof (cases "opt_filter_policy opt")
        case None
        then have "tb_filter_block r0 = None" using W(16) by (auto simp: filter_inv_def filter_state_def split: option.splits)
        then show ?thesis using finish_steps [OF w0 e True a] by simp
      next
        case (Some np)
        obtain name p' where np: "np = (name, p')" by (cases np)
        have "opt_filter_policy opt = Some (name, p) \<and> handle_set fh \<and> stored_at sn (written r1) fh (FilterBlock_Finish p b)"
          if "tb_filter_block r0 = Some (p, b)" for p b
          using that W(16) Some np r1(3) True by (auto simp: filter_inv_def filter_state_def)
        then show ?thesis by (rule finish_steps [OF w0 e True a])
      qed
    qed
    then obtain mh r2 ih r3 r4 where "finish_meta ops sn fh r1 = Some (mh, r2)" "finish_index ops sn r2 = Some (ih, r3)"
        "finish_footer ops mh ih r3 = Some r4" "tb_ok r4 \<longrightarrow> table_file c valid sn opt (written r4) kvs" by blast
    then show ?thesis using r0(1) W(2) r1(1) by (simp add: TableBuilder_Finish_def tb_ok_def)
  qed
qed

lemma build_table_ok:
  assumes "data_of f = []" and "ordered kvs"
  shows "\<exists>s r. build_table ops sn opt kvs f = Some (s, r) \<and> (status_ok s \<longrightarrow> table_file c valid sn opt (written r) kvs)"
proof -
  obtain r0 where r0: "new_TableBuilder opt f = Some r0" "writing [] [] [] [] r0" using new_writing [OF assms(1)] by blast
  obtain r1 where r1: "TableBuilder_Add_all ops sn kvs r0 = Some r1"
    "failed r1 \<or> (\<exists>chunks ikvs cur. writing kvs chunks ikvs cur r1)"
    using Add_all_writing [OF r0(2), of kvs] assms(2) by auto
  then show ?thesis using r0(1) Finish_failed Finish_writing by (fastforce simp: build_table_def)
qed

end

end
