(* ===== verification/LdbTwoLevel.thy ===== *)
theory LdbTwoLevel
  imports LdbIterator
begin

text \<open>
  The two-level iterator of \<open>table/two_level_iterator.cc\<close>: an index iterator over separators and
  block handles, and iterators over the blocks, which a function makes from a handle. The
  function has a state of its own (a table with its block cache). \<open>None\<close> is a failing assert,
  undefined behaviour, or that the search for a block that is not empty does not end.
\<close>

section \<open>The iterator\<close>

record ('i, 'd, 'a) TwoLevelIterator =
  tl_arg :: 'a
  tl_status :: Status
  tl_index :: "'i IteratorWrapper"
  tl_data :: "'d IteratorWrapper"
  tl_handle :: slice

definition NewTwoLevelIterator :: "'i Iterator \<Rightarrow> 'i \<Rightarrow> 'a \<Rightarrow> ('i, 'd, 'a) TwoLevelIterator option" where
  "NewTwoLevelIterator iops index arg =
     map_option (\<lambda>w. \<lparr>tl_arg = arg, tl_status = Status_OK, tl_index = w, tl_data = new_IteratorWrapper, tl_handle = []\<rparr>)
       (wrapper_Set iops (Some index) new_IteratorWrapper)"

definition SaveError :: "Status \<Rightarrow> ('i, 'd, 'a) TwoLevelIterator \<Rightarrow> ('i, 'd, 'a) TwoLevelIterator" where
  "SaveError s t = (if status_ok (tl_status t) \<and> \<not> status_ok s then t\<lparr>tl_status := s\<rparr> else t)"

text \<open>
  \<open>IteratorWrapper::Set\<close> deletes the iterator that the wrapper had, whose cleanup functions act on the
  state of the block function: \<open>del\<close> is this deletion.
\<close>

definition SetDataIterator ::
  "'d Iterator \<Rightarrow> ('d \<Rightarrow> 'a \<Rightarrow> 'a option) \<Rightarrow> 'd option \<Rightarrow>
   ('i, 'd, 'a) TwoLevelIterator \<Rightarrow> ('i, 'd, 'a) TwoLevelIterator option" where
  "SetDataIterator dops del d t =
     do {
       t \<leftarrow> (case w_iter (tl_data t) of
            None \<Rightarrow> Some t
          | Some old \<Rightarrow> do {
              s \<leftarrow> it_status (IteratorWrapper_ops dops) (tl_data t);
              a \<leftarrow> del old (tl_arg t);
              Some ((SaveError s t)\<lparr>tl_arg := a\<rparr>)
            });
       map_option (\<lambda>w. t\<lparr>tl_data := w\<rparr>) (wrapper_Set dops d (tl_data t))
     }"

definition InitDataBlock ::
  "'i Iterator \<Rightarrow> 'd Iterator \<Rightarrow> ('d \<Rightarrow> 'a \<Rightarrow> 'a option) \<Rightarrow> ('a \<Rightarrow> slice \<Rightarrow> ('d \<times> 'a) option) \<Rightarrow>
   ('i, 'd, 'a) TwoLevelIterator \<Rightarrow> ('i, 'd, 'a) TwoLevelIterator option" where
  "InitDataBlock iops dops del block_function t =
     (if \<not> w_valid (tl_index t) then SetDataIterator dops del None t
      else do {
        handle \<leftarrow> it_value (IteratorWrapper_ops iops) (tl_index t);
        if w_iter (tl_data t) \<noteq> None \<and> Slice_compare handle (tl_handle t) = 0 then Some t
        else do {
          (d, a) \<leftarrow> block_function (tl_arg t) handle;
          SetDataIterator dops del (Some d) (t\<lparr>tl_arg := a, tl_handle := handle\<rparr>)
        }
      })"

definition seek_data ::
  "('d IteratorWrapper \<Rightarrow> 'd IteratorWrapper option) \<Rightarrow> ('i, 'd, 'a) TwoLevelIterator \<Rightarrow> ('i, 'd, 'a) TwoLevelIterator option" where
  "seek_data f t =
     (if w_iter (tl_data t) \<noteq> None then map_option (\<lambda>w. t\<lparr>tl_data := w\<rparr>) (f (tl_data t)) else Some t)"

partial_function (option) SkipEmptyDataBlocksForward ::
  "'i Iterator \<Rightarrow> 'd Iterator \<Rightarrow> ('d \<Rightarrow> 'a \<Rightarrow> 'a option) \<Rightarrow> ('a \<Rightarrow> slice \<Rightarrow> ('d \<times> 'a) option) \<Rightarrow>
   ('i, 'd, 'a) TwoLevelIterator \<Rightarrow> ('i, 'd, 'a) TwoLevelIterator option" where
  "SkipEmptyDataBlocksForward iops dops del block_function t =
     (if w_iter (tl_data t) = None \<or> \<not> w_valid (tl_data t) then
        if \<not> w_valid (tl_index t) then SetDataIterator dops del None t
        else do {
          index \<leftarrow> it_Next (IteratorWrapper_ops iops) (tl_index t);
          t \<leftarrow> InitDataBlock iops dops del block_function (t\<lparr>tl_index := index\<rparr>);
          t \<leftarrow> seek_data (it_SeekToFirst (IteratorWrapper_ops dops)) t;
          SkipEmptyDataBlocksForward iops dops del block_function t
        }
      else Some t)"

partial_function (option) SkipEmptyDataBlocksBackward ::
  "'i Iterator \<Rightarrow> 'd Iterator \<Rightarrow> ('d \<Rightarrow> 'a \<Rightarrow> 'a option) \<Rightarrow> ('a \<Rightarrow> slice \<Rightarrow> ('d \<times> 'a) option) \<Rightarrow>
   ('i, 'd, 'a) TwoLevelIterator \<Rightarrow> ('i, 'd, 'a) TwoLevelIterator option" where
  "SkipEmptyDataBlocksBackward iops dops del block_function t =
     (if w_iter (tl_data t) = None \<or> \<not> w_valid (tl_data t) then
        if \<not> w_valid (tl_index t) then SetDataIterator dops del None t
        else do {
          index \<leftarrow> it_Prev (IteratorWrapper_ops iops) (tl_index t);
          t \<leftarrow> InitDataBlock iops dops del block_function (t\<lparr>tl_index := index\<rparr>);
          t \<leftarrow> seek_data (it_SeekToLast (IteratorWrapper_ops dops)) t;
          SkipEmptyDataBlocksBackward iops dops del block_function t
        }
      else Some t)"

definition TwoLevel_Seek where
  "TwoLevel_Seek iops dops del block_function target t =
     do {
       index \<leftarrow> it_Seek (IteratorWrapper_ops iops) target (tl_index t);
       t \<leftarrow> InitDataBlock iops dops del block_function (t\<lparr>tl_index := index\<rparr>);
       t \<leftarrow> seek_data (it_Seek (IteratorWrapper_ops dops) target) t;
       SkipEmptyDataBlocksForward iops dops del block_function t
     }"

definition TwoLevel_SeekToFirst where
  "TwoLevel_SeekToFirst iops dops del block_function t =
     do {
       index \<leftarrow> it_SeekToFirst (IteratorWrapper_ops iops) (tl_index t);
       t \<leftarrow> InitDataBlock iops dops del block_function (t\<lparr>tl_index := index\<rparr>);
       t \<leftarrow> seek_data (it_SeekToFirst (IteratorWrapper_ops dops)) t;
       SkipEmptyDataBlocksForward iops dops del block_function t
     }"

definition TwoLevel_SeekToLast where
  "TwoLevel_SeekToLast iops dops del block_function t =
     do {
       index \<leftarrow> it_SeekToLast (IteratorWrapper_ops iops) (tl_index t);
       t \<leftarrow> InitDataBlock iops dops del block_function (t\<lparr>tl_index := index\<rparr>);
       t \<leftarrow> seek_data (it_SeekToLast (IteratorWrapper_ops dops)) t;
       SkipEmptyDataBlocksBackward iops dops del block_function t
     }"

definition TwoLevel_Next where
  "TwoLevel_Next iops dops del block_function t =
     (if w_valid (tl_data t) then do {
        w \<leftarrow> it_Next (IteratorWrapper_ops dops) (tl_data t);
        SkipEmptyDataBlocksForward iops dops del block_function (t\<lparr>tl_data := w\<rparr>)
      }
      else None)"

definition TwoLevel_Prev where
  "TwoLevel_Prev iops dops del block_function t =
     (if w_valid (tl_data t) then do {
        w \<leftarrow> it_Prev (IteratorWrapper_ops dops) (tl_data t);
        SkipEmptyDataBlocksBackward iops dops del block_function (t\<lparr>tl_data := w\<rparr>)
      }
      else None)"

definition TwoLevel_status :: "'i Iterator \<Rightarrow> 'd Iterator \<Rightarrow> ('i, 'd, 'a) TwoLevelIterator \<Rightarrow> Status option" where
  "TwoLevel_status iops dops t =
     do {
       si \<leftarrow> it_status (IteratorWrapper_ops iops) (tl_index t);
       if \<not> status_ok si then Some si
       else if w_iter (tl_data t) \<noteq> None then do {
         sd \<leftarrow> it_status (IteratorWrapper_ops dops) (tl_data t);
         Some (if \<not> status_ok sd then sd else tl_status t)
       }
       else Some (tl_status t)
     }"

text \<open>
  The destructor: the members are destroyed in the reverse order of their declaration, the data
  iterator before the index iterator.
\<close>

definition TwoLevel_destroy ::
  "('i \<Rightarrow> 'a \<Rightarrow> 'a option) \<Rightarrow> ('d \<Rightarrow> 'a \<Rightarrow> 'a option) \<Rightarrow> ('i, 'd, 'a) TwoLevelIterator \<Rightarrow> 'a option" where
  "TwoLevel_destroy idel del t =
     do {
       a \<leftarrow> (case w_iter (tl_data t) of None \<Rightarrow> Some (tl_arg t) | Some d \<Rightarrow> del d (tl_arg t));
       (case w_iter (tl_index t) of None \<Rightarrow> Some a | Some i \<Rightarrow> idel i a)
     }"

definition TwoLevelIterator_ops ::
  "'i Iterator \<Rightarrow> 'd Iterator \<Rightarrow> ('d \<Rightarrow> 'a \<Rightarrow> 'a option) \<Rightarrow> ('a \<Rightarrow> slice \<Rightarrow> ('d \<times> 'a) option) \<Rightarrow> ('i, 'd, 'a) TwoLevelIterator Iterator" where
  "TwoLevelIterator_ops iops dops del block_function =
     \<lparr>it_Valid = (\<lambda>t. w_valid (tl_data t)),
      it_SeekToFirst = TwoLevel_SeekToFirst iops dops del block_function,
      it_SeekToLast = TwoLevel_SeekToLast iops dops del block_function,
      it_Seek = TwoLevel_Seek iops dops del block_function,
      it_Next = TwoLevel_Next iops dops del block_function,
      it_Prev = TwoLevel_Prev iops dops del block_function,
      it_key = (\<lambda>t. it_key (IteratorWrapper_ops dops) (tl_data t)),
      it_value = (\<lambda>t. it_value (IteratorWrapper_ops dops) (tl_data t)),
      it_status = TwoLevel_status iops dops\<rparr>"

end
