(* ===== verification/LdbCache.thy ===== *)
theory LdbCache
  imports LdbHash LdbComparator "HOL-Library.Monad_Syntax"
begin

text \<open>
  The cache interface of \<open>include/leveldb/cache.h\<close> and the sharded LRU cache of \<open>util/cache.cc\<close>. The
  entries live in a heap, from their numbers to their fields; the buckets of the hash table
  and the LRU list, whose oldest entry is first, are lists of numbers. Each operation holds the mutex
  of its shard, so that it is one step. \<open>None\<close> is a failing assert or the use of an entry that is not
  allocated. The counters are natural numbers. The code counts entries and references in 32 bits, which
  do not wrap below 2^31 entries, and charges in \<open>size_t\<close>, which do not wrap while the charges of the
  entries of a shard sum up to less than 2^64.
\<close>

section \<open>The interface\<close>

record ('c, 'h, 'v) Cache =
  ca_Insert :: "slice \<Rightarrow> 'v \<Rightarrow> nat \<Rightarrow> 'c \<Rightarrow> ('h \<times> 'c) option"
  ca_Lookup :: "slice \<Rightarrow> 'c \<Rightarrow> ('h option \<times> 'c) option"
  ca_Release :: "'h \<Rightarrow> 'c \<Rightarrow> 'c option"
  ca_Erase :: "slice \<Rightarrow> 'c \<Rightarrow> 'c option"
  ca_Value :: "'h \<Rightarrow> 'c \<Rightarrow> 'v option"
  ca_NewId :: "'c \<Rightarrow> uint64_t \<times> 'c"

section \<open>Entries and the hash table\<close>

record 'v LRUHandle =
  lh_value :: 'v
  lh_charge :: nat
  lh_refs :: nat
  lh_hash :: uint32_t
  lh_key :: slice

type_synonym 'v handles = "nat \<Rightarrow> 'v LRUHandle option"

record HandleTable =
  ht_length :: nat
  ht_elems :: nat
  ht_list :: "nat list list"

definition bucket_of :: "uint32_t \<Rightarrow> nat \<Rightarrow> nat" where
  "bucket_of hash n = unat (hash AND (of_nat n - 1))"

text \<open>How many entries of a bucket are in front of the one that matches; the length where none does.\<close>

primrec FindPointer_loop :: "'v handles \<Rightarrow> slice \<Rightarrow> uint32_t \<Rightarrow> nat list \<Rightarrow> nat option" where
  "FindPointer_loop H key hash [] = Some 0"
| "FindPointer_loop H key hash (e # es) =
     do {
       h \<leftarrow> H e;
       if lh_hash h \<noteq> hash \<or> \<not> Slice_eq key (lh_key h) then map_option Suc (FindPointer_loop H key hash es)
       else Some 0
     }"

definition FindPointer :: "'v handles \<Rightarrow> HandleTable \<Rightarrow> slice \<Rightarrow> uint32_t \<Rightarrow> (nat \<times> nat) option" where
  "FindPointer H t key hash =
     (let i = bucket_of hash (ht_length t)
      in if i < length (ht_list t) then map_option (Pair i) (FindPointer_loop H key hash (ht_list t ! i)) else None)"

definition HandleTable_Lookup :: "'v handles \<Rightarrow> HandleTable \<Rightarrow> slice \<Rightarrow> uint32_t \<Rightarrow> nat option option" where
  "HandleTable_Lookup H t key hash =
     map_option (\<lambda>(i, p). if p < length (ht_list t ! i) then Some (ht_list t ! i ! p) else None) (FindPointer H t key hash)"

function new_length_loop :: "nat \<Rightarrow> nat \<Rightarrow> nat" where
  "new_length_loop elems n = (if 0 < n \<and> n < elems then new_length_loop elems (n * 2) else n)"
  by pat_completeness auto
termination
  by (relation "measure (\<lambda>(elems, n). elems - n)") auto

declare new_length_loop.simps [simp del]

primrec rehash :: "'v handles \<Rightarrow> nat \<Rightarrow> nat list \<Rightarrow> nat list list \<Rightarrow> nat list list option" where
  "rehash H n [] bs = Some bs"
| "rehash H n (e # es) bs =
     do {
       h \<leftarrow> H e;
       let i = bucket_of (lh_hash h) n;
       if i < length bs then rehash H n es (bs[i := e # bs ! i]) else None
     }"

definition Resize :: "'v handles \<Rightarrow> HandleTable \<Rightarrow> HandleTable option" where
  "Resize H t =
     (let n = new_length_loop (ht_elems t) 4
      in if ht_elems t = length (concat (ht_list t))
         then map_option (\<lambda>bs. t\<lparr>ht_list := bs, ht_length := n\<rparr>) (rehash H n (concat (ht_list t)) (replicate n []))
         else None)"

definition new_HandleTable :: HandleTable where
  "new_HandleTable = \<lparr>ht_length = 4, ht_elems = 0, ht_list = replicate 4 []\<rparr>"

text \<open>The entry that was replaced, and the table.\<close>

definition HandleTable_Insert :: "'v handles \<Rightarrow> nat \<Rightarrow> HandleTable \<Rightarrow> (nat option \<times> HandleTable) option" where
  "HandleTable_Insert H e t =
     do {
       h \<leftarrow> H e;
       (i, p) \<leftarrow> FindPointer H t (lh_key h) (lh_hash h);
       let b = ht_list t ! i;
       if p < length b then Some (Some (b ! p), t\<lparr>ht_list := (ht_list t)[i := b[p := e]]\<rparr>)
       else
         let t = t\<lparr>ht_list := (ht_list t)[i := b @ [e]], ht_elems := ht_elems t + 1\<rparr>
         in if ht_elems t > ht_length t then map_option (Pair None) (Resize H t) else Some (None, t)
     }"

definition HandleTable_Remove :: "'v handles \<Rightarrow> slice \<Rightarrow> uint32_t \<Rightarrow> HandleTable \<Rightarrow> (nat option \<times> HandleTable) option" where
  "HandleTable_Remove H key hash t =
     do {
       (i, p) \<leftarrow> FindPointer H t key hash;
       let b = ht_list t ! i;
       if p < length b
       then Some (Some (b ! p), t\<lparr>ht_list := (ht_list t)[i := take p b @ drop (Suc p) b], ht_elems := ht_elems t - 1\<rparr>)
       else Some (None, t)
     }"

section \<open>One shard\<close>

text \<open>The calls of the deleters are recorded.\<close>

record 'v LRUCache =
  lc_capacity :: nat
  lc_usage :: nat
  lc_lru :: "nat list"
  lc_table :: HandleTable
  lc_heap :: "'v handles"
  lc_next :: nat
  lc_deleted :: "(slice \<times> 'v) list"

definition new_LRUCache :: "'v LRUCache" where
  "new_LRUCache =
     \<lparr>lc_capacity = 0, lc_usage = 0, lc_lru = [], lc_table = new_HandleTable, lc_heap = (\<lambda>_. None), lc_next = 0,
      lc_deleted = []\<rparr>"

definition SetCapacity :: "nat \<Rightarrow> 'v LRUCache \<Rightarrow> 'v LRUCache" where
  "SetCapacity n c = c\<lparr>lc_capacity := n\<rparr>"

definition Unref :: "nat \<Rightarrow> 'v LRUCache \<Rightarrow> 'v LRUCache option" where
  "Unref e c =
     do {
       h \<leftarrow> lc_heap c e;
       if lh_refs h > 0 then
         let refs = lh_refs h - 1
         in if refs \<le> 0 then
              Some (c\<lparr>lc_usage := lc_usage c - lh_charge h, lc_deleted := lc_deleted c @ [(lh_key h, lh_value h)],
                lc_heap := (lc_heap c)(e := None)\<rparr>)
            else Some (c\<lparr>lc_heap := (lc_heap c)(e \<mapsto> h\<lparr>lh_refs := refs\<rparr>)\<rparr>)
       else None
     }"

definition LRU_Remove :: "nat \<Rightarrow> 'v LRUCache \<Rightarrow> 'v LRUCache option" where
  "LRU_Remove e c = (if e \<in> set (lc_lru c) then Some (c\<lparr>lc_lru := remove1 e (lc_lru c)\<rparr>) else None)"

definition LRU_Append :: "nat \<Rightarrow> 'v LRUCache \<Rightarrow> 'v LRUCache" where
  "LRU_Append e c = c\<lparr>lc_lru := lc_lru c @ [e]\<rparr>"

definition LRUCache_Lookup :: "slice \<Rightarrow> uint32_t \<Rightarrow> 'v LRUCache \<Rightarrow> (nat option \<times> 'v LRUCache) option" where
  "LRUCache_Lookup key hash c =
     do {
       r \<leftarrow> HandleTable_Lookup (lc_heap c) (lc_table c) key hash;
       case r of None \<Rightarrow> Some (None, c)
       | Some e \<Rightarrow> do {
           h \<leftarrow> lc_heap c e;
           c \<leftarrow> LRU_Remove e (c\<lparr>lc_heap := (lc_heap c)(e \<mapsto> h\<lparr>lh_refs := lh_refs h + 1\<rparr>)\<rparr>);
           Some (Some e, LRU_Append e c)
         }
     }"

definition LRUCache_Release :: "nat \<Rightarrow> 'v LRUCache \<Rightarrow> 'v LRUCache option" where
  "LRUCache_Release e c = Unref e c"

lemma Unref_lru: "Unref e c = Some c' \<Longrightarrow> lc_lru c' = lc_lru c"
  by (auto simp: Unref_def Let_def bind_eq_Some_conv split: if_splits)

lemma LRU_Remove_lru: "LRU_Remove e c = Some c' \<Longrightarrow> length (lc_lru c') < length (lc_lru c)"
  using length_pos_if_in_set [of e "lc_lru c"] by (auto simp: LRU_Remove_def length_remove1 split: if_splits)

definition evict_one :: "nat \<Rightarrow> 'v LRUCache \<Rightarrow> 'v LRUCache option" where
  "evict_one old c =
     do {
       c \<leftarrow> LRU_Remove old c;
       h \<leftarrow> lc_heap c old;
       (_, t) \<leftarrow> HandleTable_Remove (lc_heap c) (lh_key h) (lh_hash h) (lc_table c);
       Unref old (c\<lparr>lc_table := t\<rparr>)
     }"

lemma evict_one_lru: "evict_one old c = Some c' \<Longrightarrow> length (lc_lru c') < length (lc_lru c)"
  by (auto simp: evict_one_def bind_eq_Some_conv dest!: LRU_Remove_lru Unref_lru)

function evict_loop :: "'v LRUCache \<Rightarrow> 'v LRUCache option" where
  "evict_loop c =
     (if lc_usage c > lc_capacity c \<and> lc_lru c \<noteq> [] then
        (case evict_one (hd (lc_lru c)) c of None \<Rightarrow> None | Some c' \<Rightarrow> evict_loop c')
      else Some c)"
  by pat_completeness auto
termination
  by (relation "measure (\<lambda>c. length (lc_lru c))") (auto dest: evict_one_lru)

declare evict_loop.simps [simp del]

definition LRUCache_Insert :: "slice \<Rightarrow> uint32_t \<Rightarrow> 'v \<Rightarrow> nat \<Rightarrow> 'v LRUCache \<Rightarrow> (nat \<times> 'v LRUCache) option" where
  "LRUCache_Insert key hash v charge c =
     (let e = lc_next c;
          h = \<lparr>lh_value = v, lh_charge = charge, lh_refs = 2, lh_hash = hash, lh_key = key\<rparr>;
          c = LRU_Append e (c\<lparr>lc_heap := (lc_heap c)(e \<mapsto> h), lc_next := e + 1\<rparr>);
          c = c\<lparr>lc_usage := lc_usage c + charge\<rparr>
      in do {
        (old, t) \<leftarrow> HandleTable_Insert (lc_heap c) e (lc_table c);
        let c = c\<lparr>lc_table := t\<rparr>;
        c \<leftarrow> (case old of None \<Rightarrow> Some c | Some old \<Rightarrow> do { c \<leftarrow> LRU_Remove old c; Unref old c });
        c \<leftarrow> evict_loop c;
        Some (e, c)
      })"

definition LRUCache_Erase :: "slice \<Rightarrow> uint32_t \<Rightarrow> 'v LRUCache \<Rightarrow> 'v LRUCache option" where
  "LRUCache_Erase key hash c =
     do {
       (r, t) \<leftarrow> HandleTable_Remove (lc_heap c) key hash (lc_table c);
       let c = c\<lparr>lc_table := t\<rparr>;
       case r of None \<Rightarrow> Some c | Some e \<Rightarrow> do { c \<leftarrow> LRU_Remove e c; Unref e c }
     }"

text \<open>The destructor: every entry must be held by the cache only.\<close>

primrec destroy_loop :: "nat list \<Rightarrow> 'v LRUCache \<Rightarrow> 'v LRUCache option" where
  "destroy_loop [] c = Some c"
| "destroy_loop (e # es) c =
     do { h \<leftarrow> lc_heap c e; if lh_refs h = 1 then do { c \<leftarrow> Unref e c; destroy_loop es c } else None }"

definition LRUCache_destroy :: "'v LRUCache \<Rightarrow> 'v LRUCache option" where
  "LRUCache_destroy c = destroy_loop (lc_lru c) c"

section \<open>The sharded cache\<close>

definition kNumShardBits :: nat where "kNumShardBits = 4"
definition kNumShards :: nat where "kNumShards = push_bit kNumShardBits 1"

record 'v ShardedLRUCache =
  sc_shard :: "'v LRUCache list"
  sc_last_id :: uint64_t

definition HashSlice :: "slice \<Rightarrow> uint32_t" where
  "HashSlice s = Hash s 0"

definition Shard :: "uint32_t \<Rightarrow> nat" where
  "Shard hash = unat (drop_bit (32 - kNumShardBits) hash)"

definition NewLRUCache :: "nat \<Rightarrow> 'v ShardedLRUCache" where
  "NewLRUCache capacity =
     (let per_shard = (capacity + (kNumShards - 1)) div kNumShards
      in \<lparr>sc_shard = map (\<lambda>_. SetCapacity per_shard new_LRUCache) [0..<kNumShards], sc_last_id = 0\<rparr>)"

text \<open>A handle is the hash that its entry stores, and its number in the shard.\<close>

type_synonym cache_handle = "uint32_t \<times> nat"

definition on_shard :: "nat \<Rightarrow> ('v LRUCache \<Rightarrow> ('a \<times> 'v LRUCache) option) \<Rightarrow> 'v ShardedLRUCache \<Rightarrow> ('a \<times> 'v ShardedLRUCache) option" where
  "on_shard i f c = map_option (\<lambda>(r, s). (r, c\<lparr>sc_shard := (sc_shard c)[i := s]\<rparr>)) (f (sc_shard c ! i))"

definition Sharded_Insert :: "slice \<Rightarrow> 'v \<Rightarrow> nat \<Rightarrow> 'v ShardedLRUCache \<Rightarrow> (cache_handle \<times> 'v ShardedLRUCache) option" where
  "Sharded_Insert key v charge c =
     (let hash = HashSlice key
      in map_option (\<lambda>(e, c). ((hash, e), c)) (on_shard (Shard hash) (LRUCache_Insert key hash v charge) c))"

definition Sharded_Lookup :: "slice \<Rightarrow> 'v ShardedLRUCache \<Rightarrow> (cache_handle option \<times> 'v ShardedLRUCache) option" where
  "Sharded_Lookup key c =
     (let hash = HashSlice key
      in map_option (\<lambda>(r, c). (map_option (Pair hash) r, c)) (on_shard (Shard hash) (LRUCache_Lookup key hash) c))"

definition Sharded_Release :: "cache_handle \<Rightarrow> 'v ShardedLRUCache \<Rightarrow> 'v ShardedLRUCache option" where
  "Sharded_Release h c =
     map_option snd (on_shard (Shard (fst h)) (\<lambda>s. map_option (Pair ()) (LRUCache_Release (snd h) s)) c)"

definition Sharded_Erase :: "slice \<Rightarrow> 'v ShardedLRUCache \<Rightarrow> 'v ShardedLRUCache option" where
  "Sharded_Erase key c =
     (let hash = HashSlice key
      in map_option snd (on_shard (Shard hash) (\<lambda>s. map_option (Pair ()) (LRUCache_Erase key hash s)) c))"

definition Sharded_Value :: "cache_handle \<Rightarrow> 'v ShardedLRUCache \<Rightarrow> 'v option" where
  "Sharded_Value h c = map_option lh_value (lc_heap (sc_shard c ! Shard (fst h)) (snd h))"

definition Sharded_NewId :: "'v ShardedLRUCache \<Rightarrow> uint64_t \<times> 'v ShardedLRUCache" where
  "Sharded_NewId c = (let i = sc_last_id c + 1 in (i, c\<lparr>sc_last_id := i\<rparr>))"

text \<open>The shards are destroyed from the last to the first.\<close>

definition ShardedLRUCache_destroy :: "'v ShardedLRUCache \<Rightarrow> 'v LRUCache list option" where
  "ShardedLRUCache_destroy c = map_option rev (those (map LRUCache_destroy (rev (sc_shard c))))"

definition ShardedLRUCache_ops :: "('v ShardedLRUCache, cache_handle, 'v) Cache" where
  "ShardedLRUCache_ops =
     \<lparr>ca_Insert = Sharded_Insert, ca_Lookup = Sharded_Lookup, ca_Release = Sharded_Release, ca_Erase = Sharded_Erase,
      ca_Value = Sharded_Value, ca_NewId = Sharded_NewId\<rparr>"

end
