(* ===== verification/LdbTable.thy ===== *)
theory LdbTable
  imports LdbFormat LdbBlock LdbFilterBlock LdbTwoLevel LdbCache
begin

text \<open>
  The reader of table files, \<open>table/table.cc\<close>. The block cache, where the options have one, is a
  state of its own with the operations of \<open>cache.h\<close>, and each operation that uses it returns it. \<open>None\<close> is a
  failing assert or an access out of bounds.

  An iterator over a block owns the block or holds a handle of the cache, which its cleanup function
  releases when the iterator is destroyed: by \<open>InternalGet\<close>, by a two-level iterator that replaces it, or by
  the destructor of that. The handle is kept in the iterator.
\<close>

section \<open>Iterators over blocks\<close>

record 'h TableIter =
  ti_iter :: "Status + BlockIter"
  ti_cleanup :: "'h option"

definition ti_op ::
  "(Status \<Rightarrow> Status option) \<Rightarrow> (BlockIter \<Rightarrow> BlockIter option) \<Rightarrow> 'h TableIter \<Rightarrow> 'h TableIter option" where
  "ti_op f g it =
     map_option (\<lambda>i. it\<lparr>ti_iter := i\<rparr>)
       (case ti_iter it of Inl s \<Rightarrow> map_option Inl (f s) | Inr b \<Rightarrow> map_option Inr (g b))"

text \<open>The virtual functions of an empty iterator or of the iterator of a block.\<close>

definition TableIter_ops :: "'h TableIter Iterator" where
  "TableIter_ops =
     \<lparr>it_Valid = (\<lambda>it. case_sum (it_Valid EmptyIterator) (it_Valid BlockIter_ops) (ti_iter it)),
      it_SeekToFirst = ti_op (it_SeekToFirst EmptyIterator) (it_SeekToFirst BlockIter_ops),
      it_SeekToLast = ti_op (it_SeekToLast EmptyIterator) (it_SeekToLast BlockIter_ops),
      it_Seek = (\<lambda>t. ti_op (it_Seek EmptyIterator t) (it_Seek BlockIter_ops t)),
      it_Next = ti_op (it_Next EmptyIterator) (it_Next BlockIter_ops),
      it_Prev = ti_op (it_Prev EmptyIterator) (it_Prev BlockIter_ops),
      it_key = (\<lambda>it. case_sum (it_key EmptyIterator) (it_key BlockIter_ops) (ti_iter it)),
      it_value = (\<lambda>it. case_sum (it_value EmptyIterator) (it_value BlockIter_ops) (ti_iter it)),
      it_status = (\<lambda>it. case_sum (it_status EmptyIterator) (it_status BlockIter_ops) (ti_iter it))\<rparr>"

definition block_iterator :: "Comparator \<Rightarrow> Block \<Rightarrow> 'h TableIter option" where
  "block_iterator cmp b = map_option (\<lambda>i. \<lparr>ti_iter = i, ti_cleanup = None\<rparr>) (Block_NewIterator cmp b)"

section \<open>Opening a table\<close>

record Table =
  t_options :: Options
  t_file :: RandomAccessFile
  t_cache_id :: uint64_t
  t_filter :: "(FilterPolicy \<times> FilterBlockReader) option"
  t_metaindex_handle :: BlockHandle
  t_index_block :: Block

definition read_options :: "Options \<Rightarrow> ReadOptions" where
  "read_options opt = (if opt_paranoid_checks opt then new_ReadOptions\<lparr>ro_verify_checksums := True\<rparr> else new_ReadOptions)"

definition ReadFilter :: "Snappy \<Rightarrow> FilterPolicy \<Rightarrow> slice \<Rightarrow> Table \<Rightarrow> Table option" where
  "ReadFilter sn policy filter_handle_value t =
     (let (s, handle, _) = BlockHandle_DecodeFrom filter_handle_value new_BlockHandle
      in if \<not> status_ok s then Some t
         else do {
           (s, block) \<leftarrow> ReadBlock sn (t_file t) (read_options (t_options t)) handle;
           if \<not> status_ok s then Some t
           else map_option (\<lambda>f. t\<lparr>t_filter := Some (policy, f)\<rparr>) (new_FilterBlockReader (bc_data block))
         })"

definition ReadMeta :: "Snappy \<Rightarrow> Footer \<Rightarrow> Table \<Rightarrow> Table option" where
  "ReadMeta sn footer t =
     (case opt_filter_policy (t_options t) of None \<Rightarrow> Some t
      | Some (name, policy) \<Rightarrow> do {
          (s, contents) \<leftarrow> ReadBlock sn (t_file t) (read_options (t_options t)) (metaindex_handle footer);
          if \<not> status_ok s then Some t
          else do {
            meta \<leftarrow> make_Block (bc_data contents);
            iter \<leftarrow> block_iterator BytewiseComparator meta;
            let key = str ''filter.'' @ name;
            iter \<leftarrow> it_Seek TableIter_ops key (iter :: unit TableIter);
            if it_Valid TableIter_ops iter then do {
              k \<leftarrow> it_key TableIter_ops iter;
              if Slice_eq k key then do { v \<leftarrow> it_value TableIter_ops iter; ReadFilter sn policy v t } else Some t
            }
            else Some t
          }
        })"

text \<open>The status, the table and the cache; \<open>None\<close> for the table is the null pointer.\<close>

definition Table_Open ::
  "Snappy \<Rightarrow> ('c, 'h, Block) Cache \<Rightarrow> Options \<Rightarrow> RandomAccessFile \<Rightarrow> uint64_t \<Rightarrow> 'c option \<Rightarrow>
   (Status \<times> Table option \<times> 'c option) option" where
  "Table_Open sn cops options rfile fsize cache =
     (if fsize < of_nat kEncodedLength then Some (Corruption (str ''file is too short to be an sstable'') [], None, cache)
      else
        let (s, footer_input, _) = raf_Read rfile (fsize - of_nat kEncodedLength) (of_nat kEncodedLength)
        in if \<not> status_ok s then Some (s, None, cache)
           else do {
             (s, footer, _) \<leftarrow> Footer_DecodeFrom footer_input new_Footer;
             if \<not> status_ok s then Some (s, None, cache)
             else do {
               (s, contents) \<leftarrow> ReadBlock sn rfile (read_options options) (index_handle footer);
               if \<not> status_ok s then Some (s, None, cache)
               else do {
                 index_block \<leftarrow> make_Block (bc_data contents);
                 let (cache_id, cache) =
                   (case cache of None \<Rightarrow> (0, None) | Some c \<Rightarrow> let (i, c) = ca_NewId cops c in (i, Some c));
                 t \<leftarrow> ReadMeta sn footer
                   \<lparr>t_options = options, t_file = rfile, t_cache_id = cache_id, t_filter = None,
                    t_metaindex_handle = metaindex_handle footer, t_index_block = index_block\<rparr>;
                 Some (s, Some t, cache)
               }
             }
           })"

section \<open>Reading blocks\<close>

definition cache_key :: "Table \<Rightarrow> BlockHandle \<Rightarrow> slice" where
  "cache_key t handle = EncodeFixed64 (t_cache_id t) @ EncodeFixed64 (bh_offset handle)"

text \<open>The block of a handle with the handle of the cache, or a status that is not OK.\<close>

definition read_cached ::
  "Snappy \<Rightarrow> ('c, 'h, Block) Cache \<Rightarrow> Table \<Rightarrow> ReadOptions \<Rightarrow> BlockHandle \<Rightarrow> 'c option \<Rightarrow>
   (Status \<times> (Block \<times> 'h option) option \<times> 'c option) option" where
  "read_cached sn cops t options handle cache =
     (case cache of
        Some c \<Rightarrow> do {
          let key = cache_key t handle;
          (r, c) \<leftarrow> ca_Lookup cops key c;
          case r of
            Some h \<Rightarrow> do { block \<leftarrow> ca_Value cops h c; Some (Status_OK, Some (block, Some h), Some c) }
          | None \<Rightarrow> do {
              (s, contents) \<leftarrow> ReadBlock sn (t_file t) options handle;
              if \<not> status_ok s then Some (s, None, Some c)
              else do {
                block \<leftarrow> make_Block (bc_data contents);
                if bc_cachable contents \<and> ro_fill_cache options then do {
                  (h, c) \<leftarrow> ca_Insert cops key block (block_size block) c;
                  Some (s, Some (block, Some h), Some c)
                }
                else Some (s, Some (block, None), Some c)
              }
            }
        }
      | None \<Rightarrow> do {
          (s, contents) \<leftarrow> ReadBlock sn (t_file t) options handle;
          if \<not> status_ok s then Some (s, None, None)
          else do { block \<leftarrow> make_Block (bc_data contents); Some (s, Some (block, None), None) }
        })"

definition BlockReader ::
  "Snappy \<Rightarrow> ('c, 'h, Block) Cache \<Rightarrow> Table \<Rightarrow> ReadOptions \<Rightarrow> 'c option \<Rightarrow> slice \<Rightarrow> ('h TableIter \<times> 'c option) option" where
  "BlockReader sn cops t options cache index_value =
     do {
       let (s, handle, _) = BlockHandle_DecodeFrom index_value new_BlockHandle;
       (s, block, cache) \<leftarrow> (if status_ok s then read_cached sn cops t options handle cache else Some (s, None, cache));
       case block of
         Some (b, h) \<Rightarrow> map_option (\<lambda>it. (it\<lparr>ti_cleanup := h\<rparr>, cache)) (block_iterator (opt_comparator (t_options t)) b)
       | None \<Rightarrow> Some (\<lparr>ti_iter = Inl (NewErrorIterator s), ti_cleanup = None\<rparr>, cache)
     }"

text \<open>The destruction of an iterator over a block.\<close>

definition delete_iter :: "('c, 'h, Block) Cache \<Rightarrow> 'h TableIter \<Rightarrow> 'c option \<Rightarrow> 'c option option" where
  "delete_iter cops it cache =
     (case (ti_cleanup it, cache) of (Some h, Some c) \<Rightarrow> map_option Some (ca_Release cops h c) | _ \<Rightarrow> Some cache)"

definition Table_NewIterator ::
  "Table \<Rightarrow> 'c option \<Rightarrow> ('h TableIter, 'h TableIter, 'c option) TwoLevelIterator option" where
  "Table_NewIterator t cache =
     do {
       index_iter \<leftarrow> block_iterator (opt_comparator (t_options t)) (t_index_block t);
       NewTwoLevelIterator TableIter_ops index_iter cache
     }"

definition Table_ops ::
  "Snappy \<Rightarrow> ('c, 'h, Block) Cache \<Rightarrow> Table \<Rightarrow> ReadOptions \<Rightarrow> ('h TableIter, 'h TableIter, 'c option) TwoLevelIterator Iterator" where
  "Table_ops sn cops t options =
     TwoLevelIterator_ops TableIter_ops TableIter_ops (delete_iter cops) (BlockReader sn cops t options)"

text \<open>Its destruction.\<close>

definition Table_delete ::
  "('c, 'h, Block) Cache \<Rightarrow> ('h TableIter, 'h TableIter, 'c option) TwoLevelIterator \<Rightarrow> 'c option option" where
  "Table_delete cops it = TwoLevel_destroy (delete_iter cops) (delete_iter cops) it"

section \<open>Lookups\<close>

text \<open>Whether the filter, when there is one, says that the key is not in the block of the handle.\<close>

definition filtered_out :: "Table \<Rightarrow> slice \<Rightarrow> slice \<Rightarrow> bool option" where
  "filtered_out t handle_value k =
     (case t_filter t of None \<Rightarrow> Some False
      | Some (policy, reader) \<Rightarrow>
          let (s, handle, _) = BlockHandle_DecodeFrom handle_value new_BlockHandle
          in if status_ok s then map_option Not (FilterBlock_KeyMayMatch policy reader (bh_offset handle) k) else Some False)"

text \<open>The entry that is passed to \<open>saver\<close>, when it is called, the status and the cache.\<close>

definition InternalGet ::
  "Snappy \<Rightarrow> ('c, 'h, Block) Cache \<Rightarrow> Table \<Rightarrow> ReadOptions \<Rightarrow> slice \<Rightarrow> 'c option \<Rightarrow>
   (Status \<times> (slice \<times> slice) option \<times> 'c option) option" where
  "InternalGet sn cops t options k cache =
     do {
       iiter \<leftarrow> block_iterator (opt_comparator (t_options t)) (t_index_block t);
       iiter \<leftarrow> it_Seek TableIter_ops k (iiter :: unit TableIter);
       (s, saved, cache) \<leftarrow>
         (if it_Valid TableIter_ops iiter then do {
            handle_value \<leftarrow> it_value TableIter_ops iiter;
            out \<leftarrow> filtered_out t handle_value k;
            if out then Some (Status_OK, None, cache)
            else do {
              (block_iter, cache) \<leftarrow> BlockReader sn cops t options cache handle_value;
              block_iter \<leftarrow> it_Seek TableIter_ops k block_iter;
              saved \<leftarrow> (if it_Valid TableIter_ops block_iter then do {
                          key \<leftarrow> it_key TableIter_ops block_iter;
                          v \<leftarrow> it_value TableIter_ops block_iter;
                          Some (Some (key, v))
                        }
                        else Some None);
              s \<leftarrow> it_status TableIter_ops block_iter;
              cache \<leftarrow> delete_iter cops block_iter cache;
              Some (s, saved, cache)
            }
          }
          else Some (Status_OK, None, cache));
       s \<leftarrow> (if status_ok s then it_status TableIter_ops iiter else Some s);
       Some (s, saved, cache)
     }"

definition ApproximateOffsetOf :: "Table \<Rightarrow> slice \<Rightarrow> uint64_t option" where
  "ApproximateOffsetOf t key =
     do {
       index_iter \<leftarrow> block_iterator (opt_comparator (t_options t)) (t_index_block t);
       index_iter \<leftarrow> it_Seek TableIter_ops key (index_iter :: unit TableIter);
       if it_Valid TableIter_ops index_iter then do {
         input \<leftarrow> it_value TableIter_ops index_iter;
         let (s, handle, _) = BlockHandle_DecodeFrom input new_BlockHandle;
         Some (if status_ok s then bh_offset handle else bh_offset (t_metaindex_handle t))
       }
       else Some (bh_offset (t_metaindex_handle t))
     }"

end
