(* ===== verification/LdbTwoLevelProps.thy ===== *)
theory LdbTwoLevelProps
  imports LdbTwoLevel "HOL-Library.Multiset"
begin

text \<open>
  The two-level iterator is an iterator of the interface over the concatenation of its blocks, where
  the separators of the index stand between them and its function reads every block.
\<close>

section \<open>Blocks and separators\<close>

text \<open>The blocks of an index, and where entry \<open>r\<close> of block \<open>j\<close> is among all entries.\<close>

abbreviation blocks :: "(slice \<Rightarrow> entry list option) \<Rightarrow> entry list \<Rightarrow> entry list list" where
  "blocks m ikvs \<equiv> map (\<lambda>e. the (m (snd e))) ikvs"

definition flat :: "'a list list \<Rightarrow> nat \<Rightarrow> nat \<Rightarrow> nat" where
  "flat xss j r = length (concat (take j xss)) + r"

lemma flat_0 [simp]: "flat xss 0 r = r"
  by (simp add: flat_def)

lemma flat_Suc: "j < length xss \<Longrightarrow> flat xss j (length (xss ! j)) = flat xss (Suc j) 0"
  by (simp add: flat_def take_Suc_conv_app_nth)

lemma flat_all: "length xss \<le> j \<Longrightarrow> flat xss j 0 = length (concat xss)"
  by (simp add: flat_def)

lemma concat_split: "j < length xss \<Longrightarrow> concat xss = concat (take j xss) @ xss ! j @ concat (drop (Suc j) xss)"
  by (metis append.assoc concat.simps(2) concat_append id_take_nth_drop)

lemma flat_nth:
  assumes "j < length xss" and "r < length (xss ! j)"
  shows "flat xss j r < length (concat xss) \<and> concat xss ! flat xss j r = xss ! j ! r"
  using concat_split [OF assms(1)] assms(2) by (simp add: flat_def nth_append)

definition fenced :: "(slice \<Rightarrow> slice \<Rightarrow> int option) \<Rightarrow> (slice \<Rightarrow> entry list option) \<Rightarrow> entry list \<Rightarrow> bool" where
  "fenced cmp m ikvs \<longleftrightarrow>
     (\<forall>e \<in> set ikvs. m (snd e) \<noteq> None) \<and>
     (\<forall>j < length ikvs. \<forall>kv \<in> set (blocks m ikvs ! j). \<not> before cmp (fst (ikvs ! j)) (fst kv)) \<and>
     (\<forall>j < length ikvs. \<forall>l < length ikvs. j < l \<longrightarrow> (\<forall>kv \<in> set (blocks m ikvs ! l). before cmp (fst (ikvs ! j)) (fst kv)))"

lemma Slice_compare_0: "Slice_compare a b = 0 \<longleftrightarrow> a = b"
  by (cases a b rule: linorder_cases) (auto simp: Slice_compare_order)

section \<open>The iterator keeps the contract\<close>

text \<open>
  The function \<open>bf\<close> makes an iterator over the entries that \<open>m\<close> has for a handle, as long as its
  state fulfils \<open>inv m R\<close>, where \<open>R\<close> are the resources (handles of a cache) that are held. The new
  iterator holds one more, which its operations keep and its deletion gives back.
\<close>

locale two_level = index: iterator_contract cmp valid iops irepr
  for cmp :: "slice \<Rightarrow> slice \<Rightarrow> int option" and valid :: "slice \<Rightarrow> bool"
    and iops :: "'i Iterator" and irepr :: "'i \<Rightarrow> entry list \<Rightarrow> nat option \<Rightarrow> bool" +
  fixes dops :: "'d Iterator" and drepr :: "'r \<Rightarrow> 'd \<Rightarrow> entry list \<Rightarrow> nat option \<Rightarrow> bool"
    and del :: "'d \<Rightarrow> 'a \<Rightarrow> 'a option" and bf :: "'a \<Rightarrow> slice \<Rightarrow> ('d \<times> 'a) option"
    and inv :: "(slice \<Rightarrow> entry list option) \<Rightarrow> 'r multiset \<Rightarrow> 'a \<Rightarrow> bool"
  assumes data_contract: "iterator_contract cmp valid dops (drepr x)"
    and bf_reads: "inv m R a \<Longrightarrow> m h = Some xs \<Longrightarrow>
      \<exists>d a' q x. bf a h = Some (d, a') \<and> inv m (add_mset x R) a' \<and> drepr x d xs q"
    and del_releases: "inv m (add_mset x R) a \<Longrightarrow> drepr x d xs q \<Longrightarrow> \<exists>a'. del d a = Some a' \<and> inv m R a'"
begin

abbreviation wi :: "'i IteratorWrapper Iterator" where "wi \<equiv> IteratorWrapper_ops iops"
abbreviation wd :: "'d IteratorWrapper Iterator" where "wd \<equiv> IteratorWrapper_ops dops"

lemmas data_wrapper = iterator_contract.wrapper_contract [OF data_contract]

lemmas i_valid = iterator_contract.repr_valid [OF index.wrapper_contract]
  and i_at = iterator_contract.repr_at [OF index.wrapper_contract]
  and i_status = iterator_contract.repr_status [OF index.wrapper_contract]
  and i_first = iterator_contract.repr_first [OF index.wrapper_contract]
  and i_last = iterator_contract.repr_last [OF index.wrapper_contract]
  and i_seek = iterator_contract.repr_seek [OF index.wrapper_contract]
  and i_next = iterator_contract.repr_next [OF index.wrapper_contract]
  and i_prev = iterator_contract.repr_prev [OF index.wrapper_contract]
  and d_valid = iterator_contract.repr_valid [OF data_wrapper]
  and d_at = iterator_contract.repr_at [OF data_wrapper]
  and d_status = iterator_contract.repr_status [OF data_wrapper]
  and d_first = iterator_contract.repr_first [OF data_wrapper]
  and d_last = iterator_contract.repr_last [OF data_wrapper]
  and d_seek = iterator_contract.repr_seek [OF data_wrapper]
  and d_next = iterator_contract.repr_next [OF data_wrapper]
  and d_prev = iterator_contract.repr_prev [OF data_wrapper]

text \<open>The index is at \<open>q\<close>, and the data iterator is one over the block of the handle, or none.\<close>

definition at_data ::
  "'r multiset \<Rightarrow> (slice \<Rightarrow> entry list option) \<Rightarrow> entry list \<Rightarrow> nat option \<Rightarrow> ('i, 'd, 'a) TwoLevelIterator \<Rightarrow> bool" where
  "at_data R m xs p t \<longleftrightarrow> (\<exists>x. wrapper_repr (drepr x) (tl_data t) xs p \<and> inv m (add_mset x R) (tl_arg t))"

definition at_index ::
  "'r multiset \<Rightarrow> (slice \<Rightarrow> entry list option) \<Rightarrow> entry list \<Rightarrow> nat option \<Rightarrow> ('i, 'd, 'a) TwoLevelIterator \<Rightarrow> bool" where
  "at_index R m ikvs q t \<longleftrightarrow>
     status_ok (tl_status t) \<and> fenced cmp m ikvs \<and>
     sorted_source cmp valid (concat (blocks m ikvs)) \<and> wrapper_repr irepr (tl_index t) ikvs q \<and>
     (w_iter (tl_data t) \<noteq> None \<longrightarrow> (\<exists>xs p. m (tl_handle t) = Some xs \<and> at_data R m xs p t)) \<and>
     (w_iter (tl_data t) = None \<longrightarrow> \<not> w_valid (tl_data t) \<and> inv m R (tl_arg t))"

text \<open>The data iterator is over block \<open>j\<close>, at position \<open>p\<close>.\<close>

definition in_block ::
  "'r multiset \<Rightarrow> (slice \<Rightarrow> entry list option) \<Rightarrow> entry list \<Rightarrow> nat \<Rightarrow> nat option \<Rightarrow> ('i, 'd, 'a) TwoLevelIterator \<Rightarrow> bool" where
  "in_block R m ikvs j p t \<longleftrightarrow>
     at_index R m ikvs (Some j) t \<and> tl_handle t = snd (ikvs ! j) \<and> at_data R m (blocks m ikvs ! j) p t"

definition no_data :: "'r multiset \<Rightarrow> (slice \<Rightarrow> entry list option) \<Rightarrow> entry list \<Rightarrow> ('i, 'd, 'a) TwoLevelIterator \<Rightarrow> bool" where
  "no_data R m ikvs t \<longleftrightarrow> at_index R m ikvs None t \<and> w_iter (tl_data t) = None"

definition tl_repr :: "'r multiset \<Rightarrow> (slice \<Rightarrow> entry list option) \<Rightarrow> ('i, 'd, 'a) TwoLevelIterator \<Rightarrow> entry list \<Rightarrow> nat option \<Rightarrow> bool" where
  "tl_repr R m t kvs p \<longleftrightarrow>
     (\<exists>ikvs. kvs = concat (blocks m ikvs) \<and>
        (case p of None \<Rightarrow> (\<exists>q. at_index R m ikvs q t) \<and> \<not> w_valid (tl_data t)
         | Some g \<Rightarrow> (\<exists>j r. in_block R m ikvs j (Some r) t \<and> g = flat (blocks m ikvs) j r)))"

lemma wrapper_iter: "wrapper_repr rp w xs p \<Longrightarrow> w_iter w \<noteq> None \<and> w_valid w = (p \<noteq> None)"
  by (auto simp: wrapper_repr_def)

lemma at_dataI: "wrapper_repr (drepr x) (tl_data t) xs p \<Longrightarrow> inv m (add_mset x R) (tl_arg t) \<Longrightarrow> at_data R m xs p t"
  by (auto simp: at_data_def)

lemma at_data_iter: "at_data R m xs p t \<Longrightarrow> w_iter (tl_data t) \<noteq> None \<and> w_valid (tl_data t) = (p \<noteq> None)"
  by (auto simp: at_data_def wrapper_repr_def)

lemma at_data_status: "at_data R m xs p t \<Longrightarrow> \<exists>st. it_status wd (tl_data t) = Some st \<and> status_ok st"
  using d_status by (auto simp: at_data_def)

text \<open>Deleting the data iterator gives its resource back.\<close>

lemma at_data_del: "at_data R m xs p t \<Longrightarrow> \<exists>d a. w_iter (tl_data t) = Some d \<and> del d (tl_arg t) = Some a \<and> inv m R a"
  using del_releases by (fastforce simp: at_data_def wrapper_repr_def)

lemma index_repr: "at_index R m ikvs q t \<Longrightarrow> wrapper_repr irepr (tl_index t) ikvs q"
  by (simp add: at_index_def)

lemma index_valid: "at_index R m ikvs q t \<Longrightarrow> w_valid (tl_index t) = (q \<noteq> None)"
  using wrapper_iter [OF index_repr] by blast

lemma in_block_index: "in_block R m ikvs j p t \<Longrightarrow> j < length ikvs"
  using i_at by (auto simp: in_block_def at_index_def)

lemma SetDataIterator_none:
  assumes "at_index R m ikvs q t"
  shows "\<exists>t'. SetDataIterator dops del None t = Some t' \<and> at_index R m ikvs q t' \<and> w_iter (tl_data t') = None"
proof (cases "w_iter (tl_data t)")
  case None
  then show ?thesis using assms by (auto simp: SetDataIterator_def wrapper_Set_def at_index_def)
next
  case (Some d)
  then obtain xs p where d: "at_data R m xs p t" using assms by (auto simp: at_index_def)
  obtain st where "it_status wd (tl_data t) = Some st" "status_ok st" using at_data_status [OF d] by blast
  moreover obtain a where "del d (tl_arg t) = Some a" "inv m R a" using at_data_del [OF d] Some by auto
  ultimately show ?thesis using assms Some by (auto simp: SetDataIterator_def wrapper_Set_def at_index_def SaveError_def)
qed

text \<open>The new data iterator is made while the old one still holds its resource.\<close>

lemma SetDataIterator_block:
  assumes a: "at_index R m ikvs (Some j) t" and h: "m h = Some xs" and d: "drepr x d xs p"
    and i: "w_iter (tl_data t) = None \<Longrightarrow> inv m (add_mset x R) arg"
    and o: "\<And>old. w_iter (tl_data t) = Some old \<Longrightarrow> \<exists>a'. del old arg = Some a' \<and> inv m (add_mset x R) a'"
  shows "\<exists>t'. SetDataIterator dops del (Some d) (t\<lparr>tl_arg := arg, tl_handle := h\<rparr>) = Some t' \<and> at_index R m ikvs (Some j) t' \<and>
    tl_handle t' = h \<and> at_data R m xs p t'"
proof -
  obtain w where w: "wrapper_Update dops d (tl_data t) = Some w" "wrapper_repr (drepr x) w xs p"
    using wrapper_UpdateI [OF data_contract d] by blast
  have wi: "w_iter w \<noteq> None" using wrapper_iter [OF w(2)] by blast
  show ?thesis
  proof (cases "w_iter (tl_data t)")
    case None
    have n: "at_data R m xs p (t\<lparr>tl_arg := arg, tl_handle := h, tl_data := w\<rparr>)" using at_dataI [of x _ xs p m R] w(2) i [OF None] by simp
    moreover have "at_index R m ikvs (Some j) (t\<lparr>tl_arg := arg, tl_handle := h, tl_data := w\<rparr>)"
      using a h n wi by (auto simp: at_index_def)
    ultimately show ?thesis using None w(1) by (simp add: SetDataIterator_def wrapper_Set_def)
  next
    case (Some old)
    obtain xs0 p0 where "at_data R m xs0 p0 t" using a Some by (auto simp: at_index_def)
    then obtain st where st: "it_status wd (tl_data t) = Some st" "status_ok st" using at_data_status by blast
    obtain a' where a': "del old arg = Some a'" "inv m (add_mset x R) a'" using o [OF Some] by blast
    have n: "at_data R m xs p (t\<lparr>tl_handle := h, tl_arg := a', tl_data := w\<rparr>)" using at_dataI [of x _ xs p m R] w(2) a'(2) by simp
    moreover have "at_index R m ikvs (Some j) (t\<lparr>tl_handle := h, tl_arg := a', tl_data := w\<rparr>)"
      using a h n wi by (auto simp: at_index_def)
    ultimately show ?thesis using Some w(1) st a'(1) by (simp add: SetDataIterator_def wrapper_Set_def SaveError_def)
  qed
qed

lemma InitDataBlock_none:
  assumes "at_index R m ikvs None t"
  shows "\<exists>t'. InitDataBlock iops dops del bf t = Some t' \<and> no_data R m ikvs t'"
proof -
  have "\<not> w_valid (tl_index t)" using assms wrapper_iter by (auto simp: at_index_def)
  then show ?thesis using SetDataIterator_none [OF assms] by (auto simp: InitDataBlock_def no_data_def)
qed

lemma InitDataBlock_some:
  assumes a: "at_index R m ikvs (Some j) t"
  shows "\<exists>t' p. InitDataBlock iops dops del bf t = Some t' \<and> in_block R m ikvs j p t'"
proof -
  have w: "wrapper_repr irepr (tl_index t) ikvs (Some j)" "fenced cmp m ikvs"
    using a by (simp_all add: at_index_def)
  have j: "j < length ikvs" "it_value wi (tl_index t) = Some (snd (ikvs ! j))" "w_valid (tl_index t)"
    using i_at [OF w(1)] wrapper_iter [OF w(1)] by auto
  obtain xs where xs: "m (snd (ikvs ! j)) = Some xs" "blocks m ikvs ! j = xs"
    using w(2) j(1) by (fastforce simp: fenced_def)
  show ?thesis
  proof (cases "w_iter (tl_data t) \<noteq> None \<and> Slice_compare (snd (ikvs ! j)) (tl_handle t) = 0")
    case True
    then have "tl_handle t = snd (ikvs ! j)" by (simp add: Slice_compare_0)
    moreover obtain p where "at_data R m xs p t" using a True xs(1) calculation by (auto simp: at_index_def)
    ultimately show ?thesis using a j True xs by (auto simp: InitDataBlock_def in_block_def)
  next
    case False
    let ?h = "snd (ikvs ! j)"
    have "\<exists>d arg x p. bf (tl_arg t) ?h = Some (d, arg) \<and> drepr x d xs p \<and>
        (w_iter (tl_data t) = None \<longrightarrow> inv m (add_mset x R) arg) \<and>
        (\<forall>old. w_iter (tl_data t) = Some old \<longrightarrow> (\<exists>a'. del old arg = Some a' \<and> inv m (add_mset x R) a'))"
    proof (cases "w_iter (tl_data t)")
      case None
      then have "inv m R (tl_arg t)" using a by (simp add: at_index_def)
      from bf_reads [OF this xs(1)] show ?thesis using None by auto
    next
      case (Some old)
      then obtain xs0 p0 y where y: "drepr y old xs0 p0" "inv m (add_mset y R) (tl_arg t)"
        using a by (auto simp: at_index_def at_data_def wrapper_repr_def)
      obtain d arg q x where d: "bf (tl_arg t) ?h = Some (d, arg)" "inv m (add_mset x (add_mset y R)) arg" "drepr x d xs q"
        using bf_reads [OF y(2) xs(1)] by blast
      have "inv m (add_mset y (add_mset x R)) arg" using d(2) by (simp add: add_mset_commute)
      from del_releases [OF this y(1)] show ?thesis using d(1,3) Some by auto
    qed
    then obtain d arg x p where d: "bf (tl_arg t) ?h = Some (d, arg)" "drepr x d xs p"
      "w_iter (tl_data t) = None \<longrightarrow> inv m (add_mset x R) arg"
      "\<forall>old. w_iter (tl_data t) = Some old \<longrightarrow> (\<exists>a'. del old arg = Some a' \<and> inv m (add_mset x R) a')"
      by (elim exE conjE)
    obtain t' where "SetDataIterator dops del (Some d) (t\<lparr>tl_arg := arg, tl_handle := ?h\<rparr>) = Some t'" "at_index R m ikvs (Some j) t'"
      "tl_handle t' = ?h" "at_data R m xs p t'"
      using SetDataIterator_block [OF a xs(1) d(2), of arg] d(3,4) by blast
    then show ?thesis using d(1) j False xs(2) by (auto simp: InitDataBlock_def in_block_def)
  qed
qed

text \<open>A move of the index iterator and of the data iterator.\<close>

lemma at_index_move:
  "at_index R m ikvs q t \<Longrightarrow> wrapper_repr irepr w ikvs q' \<Longrightarrow> at_index R m ikvs q' (t\<lparr>tl_index := w\<rparr>)"
  by (auto simp: at_index_def at_data_def)

lemma in_block_move:
  assumes b: "in_block R m ikvs j p t" and w: "at_data R m (blocks m ikvs ! j) p' (t\<lparr>tl_data := w\<rparr>)"
  shows "in_block R m ikvs j p' (t\<lparr>tl_data := w\<rparr>)"
proof -
  have j: "j < length ikvs" by (rule in_block_index [OF b])
  have "m (snd (ikvs ! j)) = Some (blocks m ikvs ! j)" using b j by (fastforce simp: in_block_def at_index_def fenced_def)
  then show ?thesis using b w at_data_iter [OF w] by (auto simp: in_block_def at_index_def)
qed

text \<open>An operation of the data iterator.\<close>

lemma at_data_op:
  assumes "at_data R m xs p t" and "\<And>x w. wrapper_repr (drepr x) w xs p \<Longrightarrow> \<exists>w'. f w = Some w' \<and> wrapper_repr (drepr x) w' xs p'"
  shows "\<exists>w'. f (tl_data t) = Some w' \<and> at_data R m xs p' (t\<lparr>tl_data := w'\<rparr>)"
  using assms by (fastforce simp: at_data_def)

lemma in_block_op:
  assumes "in_block R m ikvs j p t" and "\<And>x w. wrapper_repr (drepr x) w (blocks m ikvs ! j) p \<Longrightarrow>
      \<exists>w'. f w = Some w' \<and> wrapper_repr (drepr x) w' (blocks m ikvs ! j) p'"
  shows "\<exists>w'. f (tl_data t) = Some w' \<and> in_block R m ikvs j p' (t\<lparr>tl_data := w'\<rparr>)"
proof -
  have "at_data R m (blocks m ikvs ! j) p t" using assms(1) by (simp add: in_block_def)
  from at_data_op [OF this, of f p', OF assms(2)] obtain w' where "f (tl_data t) = Some w'" "at_data R m (blocks m ikvs ! j) p' (t\<lparr>tl_data := w'\<rparr>)"
    by blast
  then show ?thesis using in_block_move [OF assms(1)] by blast
qed

lemma seek_data_block:
  assumes b: "in_block R m ikvs j p t" and f: "\<And>x w p. wrapper_repr (drepr x) w (blocks m ikvs ! j) p \<Longrightarrow>
      \<exists>w'. f w = Some w' \<and> wrapper_repr (drepr x) w' (blocks m ikvs ! j) p'"
  shows "\<exists>t'. seek_data f t = Some t' \<and> in_block R m ikvs j p' t'"
proof -
  have "w_iter (tl_data t) \<noteq> None" using b at_data_iter by (auto simp: in_block_def)
  moreover have "\<exists>w'. f (tl_data t) = Some w' \<and> in_block R m ikvs j p' (t\<lparr>tl_data := w'\<rparr>)" by (rule in_block_op [OF b f])
  ultimately show ?thesis by (auto simp: seek_data_def)
qed

lemma seek_data_none: "no_data R m ikvs t \<Longrightarrow> seek_data f t = Some t"
  by (simp add: no_data_def seek_data_def)

lemma no_data_repr: "no_data R m ikvs t \<Longrightarrow> tl_repr R m t (concat (blocks m ikvs)) None"
  by (auto simp: no_data_def tl_repr_def at_index_def)

lemma in_block_repr:
  "in_block R m ikvs j (Some r) t \<Longrightarrow> tl_repr R m t (concat (blocks m ikvs)) (Some (flat (blocks m ikvs) j r))"
  by (auto simp: tl_repr_def)

lemma skip_none:
  assumes "no_data R m ikvs t"
  shows "\<exists>t'. SkipEmptyDataBlocksForward iops dops del bf t = Some t' \<and> no_data R m ikvs t'"
    "\<exists>t'. SkipEmptyDataBlocksBackward iops dops del bf t = Some t' \<and> no_data R m ikvs t'"
proof -
  have "\<not> w_valid (tl_index t)" using assms wrapper_iter by (auto simp: no_data_def at_index_def)
  then show "\<exists>t'. SkipEmptyDataBlocksForward iops dops del bf t = Some t' \<and> no_data R m ikvs t'"
    "\<exists>t'. SkipEmptyDataBlocksBackward iops dops del bf t = Some t' \<and> no_data R m ikvs t'"
    using SetDataIterator_none assms
    by (auto simp: SkipEmptyDataBlocksForward.simps [of _ _ _ _ t] SkipEmptyDataBlocksBackward.simps [of _ _ _ _ t] no_data_def)
qed

lemma skip_forward:
  assumes "in_block R m ikvs j (at_pos r (blocks m ikvs ! j)) t" and "r \<le> length (blocks m ikvs ! j)"
  shows "\<exists>t'. SkipEmptyDataBlocksForward iops dops del bf t = Some t' \<and>
    tl_repr R m t' (concat (blocks m ikvs)) (at_pos (flat (blocks m ikvs) j r) (concat (blocks m ikvs)))"
  using assms
proof (induction "length ikvs - j" arbitrary: j r t rule: less_induct)
  case less
  have j: "j < length ikvs" by (rule in_block_index [OF less.prems(1)])
  have w: "at_data R m (blocks m ikvs ! j) (at_pos r (blocks m ikvs ! j)) t"
    using less.prems(1) by (simp add: in_block_def)
  show ?case
  proof (cases "r < length (blocks m ikvs ! j)")
    case True
    then have "SkipEmptyDataBlocksForward iops dops del bf t = Some t"
      using at_data_iter [OF w] by (auto simp: SkipEmptyDataBlocksForward.simps [of _ _ _ _ t] at_pos_def)
    moreover have "flat (blocks m ikvs) j r < length (concat (blocks m ikvs))"
      using flat_nth [of j "blocks m ikvs" r] True j by simp
    ultimately show ?thesis using in_block_repr less.prems(1) True by (auto simp: at_pos_def)
  next
    case False
    then have r: "r = length (blocks m ikvs ! j)" using less.prems(2) by simp
    have a: "at_index R m ikvs (Some j) t" using less.prems(1) by (simp add: in_block_def)
    obtain i where i: "it_Next wi (tl_index t) = Some i" "wrapper_repr irepr i ikvs (at_pos (j + 1) ikvs)"
      using i_next [OF index_repr [OF a]] by blast
    have a': "at_index R m ikvs (at_pos (j + 1) ikvs) (t\<lparr>tl_index := i\<rparr>)" by (rule at_index_move [OF a i(2)])
    have v: "\<not> w_valid (tl_data t)" "w_valid (tl_index t)"
      using at_data_iter [OF w] r index_valid [OF a] by (auto simp: at_pos_def)
    have fl: "flat (blocks m ikvs) j r = flat (blocks m ikvs) (j + 1) 0" using flat_Suc [of j "blocks m ikvs"] j r by simp
    show ?thesis
    proof (cases "j + 1 < length ikvs")
      case True
      have "at_index R m ikvs (Some (j + 1)) (t\<lparr>tl_index := i\<rparr>)" using a' True by (simp add: at_pos_def)
      from InitDataBlock_some [OF this] obtain t1 p where
        t1: "InitDataBlock iops dops del bf (t\<lparr>tl_index := i\<rparr>) = Some t1" "in_block R m ikvs (j + 1) p t1" by blast
      obtain t2 where t2: "seek_data (it_SeekToFirst wd) t1 = Some t2"
        "in_block R m ikvs (j + 1) (at_pos 0 (blocks m ikvs ! (j + 1))) t2"
        using seek_data_block [OF t1(2)] d_first by blast
      have "SkipEmptyDataBlocksForward iops dops del bf t = SkipEmptyDataBlocksForward iops dops del bf t2"
        using v i(1) t1(1) t2(1) by (simp add: SkipEmptyDataBlocksForward.simps [of _ _ _ _ t])
      then show ?thesis using less.hyps [OF _ t2(2)] j fl by simp
    next
      case False
      then have "at_index R m ikvs None (t\<lparr>tl_index := i\<rparr>)" using a' by (simp add: at_pos_def)
      from InitDataBlock_none [OF this] obtain t1 where
        t1: "InitDataBlock iops dops del bf (t\<lparr>tl_index := i\<rparr>) = Some t1" "no_data R m ikvs t1" by blast
      have "SkipEmptyDataBlocksForward iops dops del bf t = SkipEmptyDataBlocksForward iops dops del bf t1"
        using v i(1) t1 seek_data_none [OF t1(2)] by (simp add: SkipEmptyDataBlocksForward.simps [of _ _ _ _ t])
      moreover have "flat (blocks m ikvs) j r = length (concat (blocks m ikvs))"
        using fl flat_all [of "blocks m ikvs" "j + 1"] False by simp
      ultimately show ?thesis using skip_none(1) [OF t1(2)] no_data_repr by (auto simp: at_pos_def)
    qed
  qed
qed

lemma skip_backward:
  assumes "in_block R m ikvs j (last_pos r) t" and "r \<le> length (blocks m ikvs ! j)"
  shows "\<exists>t'. SkipEmptyDataBlocksBackward iops dops del bf t = Some t' \<and>
    tl_repr R m t' (concat (blocks m ikvs)) (last_pos (flat (blocks m ikvs) j r))"
  using assms
proof (induction j arbitrary: r t)
  case (Suc j)
  have j: "Suc j < length ikvs" by (rule in_block_index [OF Suc.prems(1)])
  have w: "at_data R m (blocks m ikvs ! Suc j) (last_pos r) t"
    using Suc.prems(1) by (simp add: in_block_def)
  show ?case
  proof (cases "r = 0")
    case False
    then have "SkipEmptyDataBlocksBackward iops dops del bf t = Some t"
      using at_data_iter [OF w] by (auto simp: SkipEmptyDataBlocksBackward.simps [of _ _ _ _ t] last_pos_def)
    moreover have "last_pos (flat (blocks m ikvs) (Suc j) r) = Some (flat (blocks m ikvs) (Suc j) (r - 1))"
      using False by (simp add: last_pos_def flat_def)
    ultimately show ?thesis using in_block_repr [of R m ikvs "Suc j" "r - 1" t] Suc.prems(1) False by (simp add: last_pos_def)
  next
    case True
    have a: "at_index R m ikvs (Some (Suc j)) t" using Suc.prems(1) by (simp add: in_block_def)
    obtain i where i: "it_Prev wi (tl_index t) = Some i" "wrapper_repr irepr i ikvs (Some j)"
      using i_prev [OF index_repr [OF a]] by (auto simp: last_pos_def)
    obtain t1 p where t1: "InitDataBlock iops dops del bf (t\<lparr>tl_index := i\<rparr>) = Some t1" "in_block R m ikvs j p t1"
      using InitDataBlock_some [OF at_index_move [OF a i(2)]] by blast
    obtain t2 where t2: "seek_data (it_SeekToLast wd) t1 = Some t2"
      "in_block R m ikvs j (last_pos (length (blocks m ikvs ! j))) t2"
      using seek_data_block [OF t1(2)] d_last by blast
    have "\<not> w_valid (tl_data t)" "w_valid (tl_index t)"
      using at_data_iter [OF w] True index_valid [OF a] by (auto simp: last_pos_def)
    then have "SkipEmptyDataBlocksBackward iops dops del bf t = SkipEmptyDataBlocksBackward iops dops del bf t2"
      using i(1) t1(1) t2(1) by (simp add: SkipEmptyDataBlocksBackward.simps [of _ _ _ _ t])
    moreover have "flat (blocks m ikvs) (Suc j) r = flat (blocks m ikvs) j (length (blocks m ikvs ! j))"
      using flat_Suc [of j "blocks m ikvs"] j True by simp
    ultimately show ?thesis using Suc.IH [OF t2(2)] by simp
  qed
next
  case 0
  have w: "at_data R m (blocks m ikvs ! 0) (last_pos r) t"
    using 0(1) by (simp add: in_block_def)
  show ?case
  proof (cases "r = 0")
    case False
    then have "SkipEmptyDataBlocksBackward iops dops del bf t = Some t"
      using at_data_iter [OF w] by (auto simp: SkipEmptyDataBlocksBackward.simps [of _ _ _ _ t] last_pos_def)
    then show ?thesis using in_block_repr [of R m ikvs 0 "r - 1" t] 0(1) False by (simp add: last_pos_def)
  next
    case True
    have a: "at_index R m ikvs (Some 0) t" using 0(1) by (simp add: in_block_def)
    obtain i where i: "it_Prev wi (tl_index t) = Some i" "wrapper_repr irepr i ikvs None"
      using i_prev [OF index_repr [OF a]] by (auto simp: last_pos_def)
    obtain t1 where t1: "InitDataBlock iops dops del bf (t\<lparr>tl_index := i\<rparr>) = Some t1" "no_data R m ikvs t1"
      using InitDataBlock_none [OF at_index_move [OF a i(2)]] by blast
    have "\<not> w_valid (tl_data t)" "w_valid (tl_index t)"
      using at_data_iter [OF w] True index_valid [OF a] by (auto simp: last_pos_def)
    then have "SkipEmptyDataBlocksBackward iops dops del bf t = SkipEmptyDataBlocksBackward iops dops del bf t1"
      using i(1) t1 seek_data_none [OF t1(2)] by (simp add: SkipEmptyDataBlocksBackward.simps [of _ _ _ _ t])
    then show ?thesis using skip_none(2) [OF t1(2)] no_data_repr True by (auto simp: last_pos_def)
  qed
qed

lemma tl_repr_index: "tl_repr R m t kvs p \<Longrightarrow> \<exists>ikvs q. kvs = concat (blocks m ikvs) \<and> at_index R m ikvs q t"
  by (cases p) (auto simp: tl_repr_def in_block_def)

text \<open>A move of the index iterator to \<open>q\<close>, and of the data iterator to \<open>r\<close> in the block there.\<close>

lemma seek_forward:
  assumes a: "at_index R m ikvs q0 t" and i: "wrapper_repr irepr i ikvs q"
    and f: "\<And>x w p j. q = Some j \<Longrightarrow> wrapper_repr (drepr x) w (blocks m ikvs ! j) p \<Longrightarrow>
      \<exists>w'. f w = Some w' \<and> wrapper_repr (drepr x) w' (blocks m ikvs ! j) (at_pos r (blocks m ikvs ! j))"
    and r: "\<And>j. q = Some j \<Longrightarrow> r \<le> length (blocks m ikvs ! j) \<and> g = flat (blocks m ikvs) j r"
    and n: "q = None \<Longrightarrow> length (concat (blocks m ikvs)) \<le> g"
  shows "\<exists>t'. do { t \<leftarrow> InitDataBlock iops dops del bf (t\<lparr>tl_index := i\<rparr>); t \<leftarrow> seek_data f t;
      SkipEmptyDataBlocksForward iops dops del bf t } = Some t' \<and>
    tl_repr R m t' (concat (blocks m ikvs)) (at_pos g (concat (blocks m ikvs)))"
proof (cases q)
  case None
  then obtain t1 where t1: "InitDataBlock iops dops del bf (t\<lparr>tl_index := i\<rparr>) = Some t1" "no_data R m ikvs t1"
    using InitDataBlock_none at_index_move [OF a i] by blast
  then show ?thesis using skip_none(1) [OF t1(2)] seek_data_none [OF t1(2)] no_data_repr n None by (auto simp: at_pos_def)
next
  case (Some j)
  then obtain t1 p where t1: "InitDataBlock iops dops del bf (t\<lparr>tl_index := i\<rparr>) = Some t1" "in_block R m ikvs j p t1"
    using InitDataBlock_some at_index_move [OF a i] by blast
  obtain t2 where t2: "seek_data f t1 = Some t2" "in_block R m ikvs j (at_pos r (blocks m ikvs ! j)) t2"
    using seek_data_block [OF t1(2), of f] f [OF Some] by blast
  show ?thesis using skip_forward [OF t2(2)] t1(1) t2(1) r [OF Some] by simp
qed

lemma tl_first:
  assumes "tl_repr R m t kvs p"
  shows "\<exists>t'. TwoLevel_SeekToFirst iops dops del bf t = Some t' \<and> tl_repr R m t' kvs (at_pos 0 kvs)"
proof -
  obtain ikvs q where a: "kvs = concat (blocks m ikvs)" "at_index R m ikvs q t" using tl_repr_index [OF assms] by blast
  obtain i where i: "it_SeekToFirst wi (tl_index t) = Some i" "wrapper_repr irepr i ikvs (at_pos 0 ikvs)"
    using i_first [OF index_repr [OF a(2)]] by blast
  have "\<exists>t'. do { t \<leftarrow> InitDataBlock iops dops del bf (t\<lparr>tl_index := i\<rparr>); t \<leftarrow> seek_data (it_SeekToFirst wd) t;
      SkipEmptyDataBlocksForward iops dops del bf t } = Some t' \<and> tl_repr R m t' kvs (at_pos 0 kvs)"
    unfolding a(1)
  proof (rule seek_forward [OF a(2) i(2)])
    show "0 \<le> length (blocks m ikvs ! j) \<and> 0 = flat (blocks m ikvs) j 0" if "at_pos 0 ikvs = Some j" for j
      using that by (simp add: at_pos_def split: if_splits)
    show "length (concat (blocks m ikvs)) \<le> 0" if "at_pos 0 ikvs = None" using that by (simp add: at_pos_def split: if_splits)
  qed (use d_first in blast)
  then show ?thesis using i(1) by (simp add: TwoLevel_SeekToFirst_def)
qed

lemma concat_blocks_Nil: "ikvs = [] \<Longrightarrow> concat (blocks m ikvs) = []"
  by simp

lemma tl_last:
  assumes "tl_repr R m t kvs p"
  shows "\<exists>t'. TwoLevel_SeekToLast iops dops del bf t = Some t' \<and> tl_repr R m t' kvs (last_pos (length kvs))"
proof -
  obtain ikvs q where a: "kvs = concat (blocks m ikvs)" "at_index R m ikvs q t" using tl_repr_index [OF assms] by blast
  obtain i where i: "it_SeekToLast wi (tl_index t) = Some i" "wrapper_repr irepr i ikvs (last_pos (length ikvs))"
    using i_last [OF index_repr [OF a(2)]] by blast
  show ?thesis
  proof (cases "ikvs = []")
    case True
    have "at_index R m ikvs None (t\<lparr>tl_index := i\<rparr>)" using at_index_move [OF a(2) i(2)] True by (simp add: last_pos_def)
    from InitDataBlock_none [OF this] obtain t1 where
      t1: "InitDataBlock iops dops del bf (t\<lparr>tl_index := i\<rparr>) = Some t1" "no_data R m ikvs t1" by blast
    obtain t2 where t2: "SkipEmptyDataBlocksBackward iops dops del bf t1 = Some t2" "no_data R m ikvs t2"
      using skip_none(2) [OF t1(2)] by blast
    have "tl_repr R m t2 kvs (last_pos (length kvs))" using no_data_repr [OF t2(2)] a(1) True by (simp add: last_pos_def)
    then show ?thesis using t1(1) t2(1) seek_data_none [OF t1(2)] i(1) by (simp add: TwoLevel_SeekToLast_def)
  next
    case False
    define j where "j = length ikvs - 1"
    have j: "last_pos (length ikvs) = Some j" "j < length ikvs" "Suc j = length ikvs" using False by (auto simp: j_def last_pos_def)
    have "at_index R m ikvs (Some j) (t\<lparr>tl_index := i\<rparr>)" using at_index_move [OF a(2) i(2)] j(1) by simp
    from InitDataBlock_some [OF this] obtain t1 p where
      t1: "InitDataBlock iops dops del bf (t\<lparr>tl_index := i\<rparr>) = Some t1" "in_block R m ikvs j p t1" by blast
    obtain t2 where t2: "seek_data (it_SeekToLast wd) t1 = Some t2" "in_block R m ikvs j (last_pos (length (blocks m ikvs ! j))) t2"
      using seek_data_block [OF t1(2)] d_last by blast
    have "flat (blocks m ikvs) j (length (blocks m ikvs ! j)) = length kvs"
      using flat_Suc [of j "blocks m ikvs"] flat_all [of "blocks m ikvs" "Suc j"] j a(1) by simp
    then show ?thesis using skip_backward [OF t2(2)] t1(1) t2(1) i(1) a(1) by (simp add: TwoLevel_SeekToLast_def)
  qed
qed

lemma lower_bound_append:
  assumes "\<forall>kv \<in> set as. before cmp (fst kv) t" and "\<forall>kv \<in> set cs. \<not> before cmp (fst kv) t"
  shows "lower_bound cmp t (as @ bs @ cs) = length as + lower_bound cmp t bs"
proof -
  have "takeWhile (\<lambda>kv. before cmp (fst kv) t) (bs @ cs) = takeWhile (\<lambda>kv. before cmp (fst kv) t) bs"
    using assms(2) by (cases cs) (auto simp: takeWhile_append takeWhile_eq_all_conv [THEN iffD2])
  then show ?thesis using assms(1) by (simp add: lower_bound_def)
qed

text \<open>The first entry at or behind a key is in the block of the first separator that is not before it.\<close>

lemma lower_bound_blocks:
  assumes s: "sorted_source cmp valid ikvs" and k: "sorted_source cmp valid (concat (blocks m ikvs))"
    and f: "fenced cmp m ikvs" and t: "valid t"
  shows "lower_bound cmp t ikvs = j \<Longrightarrow> j < length ikvs \<Longrightarrow>
      lower_bound cmp t (concat (blocks m ikvs)) = flat (blocks m ikvs) j (lower_bound cmp t (blocks m ikvs ! j))"
    and "lower_bound cmp t ikvs = length ikvs \<Longrightarrow> lower_bound cmp t (concat (blocks m ikvs)) = length (concat (blocks m ikvs))"
proof -
  have v: "valid (fst kv)" if "kv \<in> set (blocks m ikvs ! l)" "l < length ikvs" for kv l
    using k that unfolding sorted_source_def by (metis (no_types, lifting) UN_I length_map nth_mem set_concat)
  have vi: "valid (fst (ikvs ! l))" if "l < length ikvs" for l using s that by (simp add: sorted_source_def)
  have lt: "before cmp (fst kv) t" if "kv \<in> set (blocks m ikvs ! l)" "l < length ikvs" "l < lower_bound cmp t ikvs" for kv l
  proof -
    have "before cmp (fst (ikvs ! l)) t" using index.lower_bound_split [OF s that(2) t] that(3) by simp
    moreover have "\<not> before cmp (fst (ikvs ! l)) (fst kv)" using f that unfolding fenced_def by blast
    ultimately show ?thesis using index.not_before_trans [OF v [OF that(1,2)] vi [OF that(2)] t] by blast
  qed
  have ge: "\<not> before cmp (fst kv) t" if "kv \<in> set (blocks m ikvs ! l)" "l < length ikvs" "lower_bound cmp t ikvs < l" for kv l
  proof
    assume b: "before cmp (fst kv) t"
    define i where "i = lower_bound cmp t ikvs"
    have i: "i < length ikvs" using that by (simp add: i_def)
    have "before cmp (fst (ikvs ! i)) (fst kv)" using f that i unfolding fenced_def i_def by blast
    then have "before cmp (fst (ikvs ! i)) t" using index.before_trans [OF vi [OF i] v [OF that(1,2)] t _ b] by blast
    then show False using index.lower_bound_split [OF s i t] by (simp add: i_def)
  qed
  show "lower_bound cmp t (concat (blocks m ikvs)) = flat (blocks m ikvs) j (lower_bound cmp t (blocks m ikvs ! j))"
    if j: "lower_bound cmp t ikvs = j" "j < length ikvs"
  proof -
    have "\<forall>kv \<in> set (concat (take j (blocks m ikvs))). before cmp (fst kv) t"
    proof
      fix kv assume "kv \<in> set (concat (take j (blocks m ikvs)))"
      then obtain l where "l < j" "kv \<in> set (blocks m ikvs ! l)" using j(2) by (auto simp: in_set_conv_nth [of _ "take j _"])
      then show "before cmp (fst kv) t" using lt j by simp
    qed
    moreover have "\<forall>kv \<in> set (concat (drop (Suc j) (blocks m ikvs))). \<not> before cmp (fst kv) t"
    proof
      fix kv assume "kv \<in> set (concat (drop (Suc j) (blocks m ikvs)))"
      then obtain l where "l < length ikvs - Suc j" "kv \<in> set (blocks m ikvs ! (Suc j + l))"
        by (auto simp: in_set_conv_nth [of _ "drop (Suc j) _"])
      then show "\<not> before cmp (fst kv) t" using ge [of kv "Suc j + l"] j by simp
    qed
    ultimately have "lower_bound cmp t (concat (take j (blocks m ikvs)) @ blocks m ikvs ! j @ concat (drop (Suc j) (blocks m ikvs))) =
        length (concat (take j (blocks m ikvs))) + lower_bound cmp t (blocks m ikvs ! j)"
      by (rule lower_bound_append)
    then show ?thesis using concat_split [of j "blocks m ikvs"] j(2) by (simp add: flat_def)
  qed
  show "lower_bound cmp t (concat (blocks m ikvs)) = length (concat (blocks m ikvs))" if "lower_bound cmp t ikvs = length ikvs"
  proof -
    have "\<forall>kv \<in> set (concat (blocks m ikvs)). before cmp (fst kv) t"
    proof
      fix kv assume "kv \<in> set (concat (blocks m ikvs))"
      then obtain l where "l < length ikvs" "kv \<in> set (blocks m ikvs ! l)"
        unfolding set_concat by (metis (no_types, lifting) UN_E in_set_conv_nth length_map)
      then show "before cmp (fst kv) t" using lt that by simp
    qed
    then show ?thesis using lower_bound_append [of "concat (blocks m ikvs)" t "[]" "[]"] by (simp add: lower_bound_def)
  qed
qed

lemma tl_seek:
  assumes "tl_repr R m t kvs p" and v: "valid k"
  shows "\<exists>t'. TwoLevel_Seek iops dops del bf k t = Some t' \<and> tl_repr R m t' kvs (at_pos (lower_bound cmp k kvs) kvs)"
proof -
  obtain ikvs q where a: "kvs = concat (blocks m ikvs)" "at_index R m ikvs q t" using tl_repr_index [OF assms(1)] by blast
  let ?lb = "lower_bound cmp k ikvs"
  obtain i where i: "it_Seek wi k (tl_index t) = Some i" "wrapper_repr irepr i ikvs (at_pos ?lb ikvs)"
    using i_seek [OF index_repr [OF a(2)] v] by blast
  have s: "sorted_source cmp valid ikvs" "sorted_source cmp valid (concat (blocks m ikvs))" "fenced cmp m ikvs"
    using a(2) iterator_contract.repr_sorted [OF index.wrapper_contract index_repr [OF a(2)]] by (simp_all add: at_index_def)
  note lb = lower_bound_blocks [OF s v]
  have "\<exists>t'. do { t \<leftarrow> InitDataBlock iops dops del bf (t\<lparr>tl_index := i\<rparr>); t \<leftarrow> seek_data (it_Seek wd k) t;
      SkipEmptyDataBlocksForward iops dops del bf t } = Some t' \<and> tl_repr R m t' kvs (at_pos (lower_bound cmp k kvs) kvs)"
    unfolding a(1)
  proof (rule seek_forward [OF a(2) i(2)])
    fix j assume j: "at_pos ?lb ikvs = Some j"
    then have j': "?lb = j" "j < length ikvs" by (auto simp: at_pos_def split: if_splits)
    show "\<exists>w'. it_Seek wd k w = Some w' \<and> wrapper_repr (drepr x) w' (blocks m ikvs ! j)
        (at_pos (lower_bound cmp k (blocks m ikvs ! ?lb)) (blocks m ikvs ! j))"
      if "wrapper_repr (drepr x) w (blocks m ikvs ! j) p" for x w p using d_seek [OF that v] j'(1) by simp
    show "lower_bound cmp k (blocks m ikvs ! ?lb) \<le> length (blocks m ikvs ! j) \<and>
        lower_bound cmp k (concat (blocks m ikvs)) = flat (blocks m ikvs) j (lower_bound cmp k (blocks m ikvs ! ?lb))"
      using lb(1) [OF j'] j' by (simp add: lower_bound_def length_takeWhile_le)
  next
    assume "at_pos ?lb ikvs = None"
    moreover have "?lb \<le> length ikvs" by (simp add: lower_bound_def length_takeWhile_le)
    ultimately have "?lb = length ikvs" by (simp add: at_pos_def split: if_splits)
    then show "length (concat (blocks m ikvs)) \<le> lower_bound cmp k (concat (blocks m ikvs))" using lb(2) by simp
  qed
  then show ?thesis using i(1) by (simp add: TwoLevel_Seek_def)
qed

lemma tl_at:
  assumes "tl_repr R m t kvs (Some g)"
  shows "g < length kvs \<and> it_key wd (tl_data t) = Some (fst (kvs ! g)) \<and> it_value wd (tl_data t) = Some (snd (kvs ! g)) \<and>
    w_valid (tl_data t)"
proof -
  obtain ikvs j r where r: "kvs = concat (blocks m ikvs)" "in_block R m ikvs j (Some r) t" "g = flat (blocks m ikvs) j r"
    using assms by (auto simp: tl_repr_def)
  obtain x where w: "wrapper_repr (drepr x) (tl_data t) (blocks m ikvs ! j) (Some r)" using r(2) by (auto simp: in_block_def at_data_def)
  show ?thesis using d_at [OF w] wrapper_iter [OF w] flat_nth [of j "blocks m ikvs" r] in_block_index [OF r(2)] r(1,3) by simp
qed

lemma in_block_length: "in_block R m ikvs j (Some r) t \<Longrightarrow> r < length (blocks m ikvs ! j) \<and> w_valid (tl_data t)"
  using d_at at_data_iter by (fastforce simp: in_block_def at_data_def)

lemma tl_next:
  assumes "tl_repr R m t kvs (Some g)"
  shows "\<exists>t'. TwoLevel_Next iops dops del bf t = Some t' \<and> tl_repr R m t' kvs (at_pos (g + 1) kvs)"
proof -
  obtain ikvs j r where r: "kvs = concat (blocks m ikvs)" "in_block R m ikvs j (Some r) t" "g = flat (blocks m ikvs) j r"
    using assms by (auto simp: tl_repr_def)
  obtain w where w: "it_Next wd (tl_data t) = Some w" "in_block R m ikvs j (at_pos (r + 1) (blocks m ikvs ! j)) (t\<lparr>tl_data := w\<rparr>)"
    using in_block_op [of R m ikvs j "Some r" t "it_Next wd", OF r(2) d_next] by blast
  have "r + 1 \<le> length (blocks m ikvs ! j)" using in_block_length [OF r(2)] by simp
  moreover have "flat (blocks m ikvs) j (r + 1) = g + 1" by (simp add: r(3) flat_def)
  ultimately show ?thesis using skip_forward [OF w(2)] w(1) in_block_length [OF r(2)] r(1)
    by (simp add: TwoLevel_Next_def)
qed

lemma tl_prev:
  assumes "tl_repr R m t kvs (Some g)"
  shows "\<exists>t'. TwoLevel_Prev iops dops del bf t = Some t' \<and> tl_repr R m t' kvs (last_pos g)"
proof -
  obtain ikvs j r where r: "kvs = concat (blocks m ikvs)" "in_block R m ikvs j (Some r) t" "g = flat (blocks m ikvs) j r"
    using assms by (auto simp: tl_repr_def)
  obtain w where w: "it_Prev wd (tl_data t) = Some w" "in_block R m ikvs j (last_pos r) (t\<lparr>tl_data := w\<rparr>)"
    using in_block_op [of R m ikvs j "Some r" t "it_Prev wd", OF r(2) d_prev] by blast
  have "r \<le> length (blocks m ikvs ! j)" using in_block_length [OF r(2)] by simp
  then show ?thesis using skip_backward [OF w(2)] w(1) in_block_length [OF r(2)] r(1,3)
    by (simp add: TwoLevel_Prev_def)
qed

lemma tl_status_ok:
  assumes "tl_repr R m t kvs p"
  shows "\<exists>st. TwoLevel_status iops dops t = Some st \<and> status_ok st"
proof -
  obtain ikvs q where a: "at_index R m ikvs q t" using tl_repr_index [OF assms] by blast
  obtain si where si: "it_status wi (tl_index t) = Some si" "status_ok si" using i_status [OF index_repr [OF a]] by blast
  show ?thesis
  proof (cases "w_iter (tl_data t) = None")
    case True
    then show ?thesis using a si by (simp add: TwoLevel_status_def at_index_def)
  next
    case False
    then obtain xs r where "at_data R m xs r t" using a by (auto simp: at_index_def)
    then obtain sd where "it_status wd (tl_data t) = Some sd" "status_ok sd" using at_data_status by blast
    then show ?thesis using a si by (auto simp: TwoLevel_status_def at_index_def)
  qed
qed

text \<open>A destroyed iterator holds nothing, where the deletion of the index iterator has no effect.\<close>

lemma tl_destroy:
  assumes "tl_repr R m t kvs p" and "\<And>a i ikvs q. inv m R a \<Longrightarrow> irepr i ikvs q \<Longrightarrow> \<exists>a'. idel i a = Some a' \<and> inv m R a'"
  shows "\<exists>a. TwoLevel_destroy idel del t = Some a \<and> inv m R a"
proof -
  obtain ikvs q where a: "at_index R m ikvs q t" using tl_repr_index [OF assms(1)] by blast
  have "\<exists>b. (case w_iter (tl_data t) of None \<Rightarrow> Some (tl_arg t) | Some d \<Rightarrow> del d (tl_arg t)) = Some b \<and> inv m R b"
  proof (cases "w_iter (tl_data t)")
    case None
    then show ?thesis using a by (simp add: at_index_def)
  next
    case (Some d)
    then obtain xs r where "at_data R m xs r t" using a by (auto simp: at_index_def)
    from at_data_del [OF this] show ?thesis using Some by auto
  qed
  then obtain b where b: "(case w_iter (tl_data t) of None \<Rightarrow> Some (tl_arg t) | Some d \<Rightarrow> del d (tl_arg t)) = Some b" "inv m R b" by blast
  obtain i where i: "w_iter (tl_index t) = Some i" "irepr i ikvs q" using index_repr [OF a] by (auto simp: wrapper_repr_def)
  obtain a' where "idel i b = Some a'" "inv m R a'" using assms(2) [OF b(2) i(2)] by blast
  then show ?thesis using b(1) i(1) by (auto simp: TwoLevel_destroy_def)
qed

lemma tl_new:
  assumes i: "irepr i ikvs q" and a: "inv m R arg" and f: "fenced cmp m ikvs" and s: "sorted_source cmp valid (concat (blocks m ikvs))"
  shows "\<exists>t. NewTwoLevelIterator iops i arg = Some t \<and> tl_repr R m t (concat (blocks m ikvs)) None"
proof -
  obtain w where "wrapper_Update iops i new_IteratorWrapper = Some w" "wrapper_repr irepr w ikvs q"
    using wrapper_UpdateI [OF index.iterator_contract_axioms i] by blast
  then show ?thesis using a f s
    by (auto simp: NewTwoLevelIterator_def wrapper_Set_def tl_repr_def at_index_def new_IteratorWrapper_def status_ok_def Status_OK_def)
qed

end

sublocale two_level \<subseteq> tl: iterator_contract cmp valid "TwoLevelIterator_ops iops dops del bf" "tl_repr R m" for R m
proof unfold_locales
  fix t kvs p assume r: "tl_repr R m t kvs p"
  obtain ikvs q where a: "kvs = concat (blocks m ikvs)" "at_index R m ikvs q t" using tl_repr_index [OF r] by blast
  show "sorted_source cmp valid kvs" using a by (simp add: at_index_def)
  show "it_Valid (TwoLevelIterator_ops iops dops del bf) t = (p \<noteq> None)"
    using r tl_at by (cases p) (auto simp: TwoLevelIterator_ops_def tl_repr_def)
  show "\<exists>st. it_status (TwoLevelIterator_ops iops dops del bf) t = Some st \<and> status_ok st"
    using tl_status_ok [OF r] by (simp add: TwoLevelIterator_ops_def)
  show "\<exists>t'. it_SeekToFirst (TwoLevelIterator_ops iops dops del bf) t = Some t' \<and> tl_repr R m t' kvs (at_pos 0 kvs)"
    using tl_first [OF r] by (simp add: TwoLevelIterator_ops_def)
  show "\<exists>t'. it_SeekToLast (TwoLevelIterator_ops iops dops del bf) t = Some t' \<and> tl_repr R m t' kvs (last_pos (length kvs))"
    using tl_last [OF r] by (simp add: TwoLevelIterator_ops_def)
  show "\<exists>t'. it_Seek (TwoLevelIterator_ops iops dops del bf) k t = Some t' \<and> tl_repr R m t' kvs (at_pos (lower_bound cmp k kvs) kvs)"
    if "valid k" for k using tl_seek [OF r that] by (simp add: TwoLevelIterator_ops_def)
next
  fix t kvs i assume r: "tl_repr R m t kvs (Some i)"
  show "i < length kvs \<and> it_key (TwoLevelIterator_ops iops dops del bf) t = Some (fst (kvs ! i)) \<and>
      it_value (TwoLevelIterator_ops iops dops del bf) t = Some (snd (kvs ! i))"
    using tl_at [OF r] by (simp add: TwoLevelIterator_ops_def)
  show "\<exists>t'. it_Next (TwoLevelIterator_ops iops dops del bf) t = Some t' \<and> tl_repr R m t' kvs (at_pos (i + 1) kvs)"
    using tl_next [OF r] by (simp add: TwoLevelIterator_ops_def)
  show "\<exists>t'. it_Prev (TwoLevelIterator_ops iops dops del bf) t = Some t' \<and> tl_repr R m t' kvs (last_pos i)"
    using tl_prev [OF r] by (simp add: TwoLevelIterator_ops_def)
qed

context two_level
begin

lemma tl_contract: "iterator_contract cmp valid (TwoLevelIterator_ops iops dops del bf) (tl_repr R m)"
  by (rule tl.iterator_contract_axioms)

end

end
