(* ===== verification/LdbCacheProps.thy ===== *)
theory LdbCacheProps
  imports LdbCache "HOL-Library.Multiset"
begin

text \<open>
  The LRU cache: its invariant, what each operation does to the entries, and that every sequence of
  operations that releases only the handles it holds is defined, answers with the latest values and
  deletes each entry once.
\<close>

section \<open>The hash table\<close>

definition matches :: "'v handles \<Rightarrow> slice \<Rightarrow> uint32_t \<Rightarrow> nat \<Rightarrow> bool" where
  "matches H key hash e \<longleftrightarrow> (\<exists>h. H e = Some h \<and> lh_hash h = hash \<and> lh_key h = key)"

definition entries_of :: "HandleTable \<Rightarrow> nat list" where
  "entries_of t = concat (ht_list t)"

definition table_ok :: "'v handles \<Rightarrow> HandleTable \<Rightarrow> bool" where
  "table_ok H t \<longleftrightarrow>
     (\<exists>k. ht_length t = 2 ^ k) \<and> length (ht_list t) = ht_length t \<and> ht_elems t = length (entries_of t) \<and>
     (\<forall>i < ht_length t. \<forall>e \<in> set (ht_list t ! i). \<exists>h. H e = Some h \<and> bucket_of (lh_hash h) (ht_length t) = i) \<and>
     (\<forall>e \<in> set (entries_of t). \<forall>e' \<in> set (entries_of t). \<forall>key hash. matches H key hash e \<longrightarrow> matches H key hash e' \<longrightarrow> e = e') \<and>
     distinct (entries_of t)"

lemma bucket_of_less: "bucket_of hash (2 ^ k) < 2 ^ k"
proof (cases "k < 32")
  case True
  have m: "(of_nat (2 ^ k) - 1 :: uint32_t) = mask k" by (simp add: mask_eq_exp_minus_1)
  have "hash AND mask k = take_bit k hash" by (simp add: take_bit_eq_mask)
  then have "unat (hash AND mask k) = take_bit k (unat hash)" by (simp add: unsigned_take_bit_eq)
  then show ?thesis unfolding bucket_of_def m by simp
next
  case False
  have "unat (hash AND (of_nat (2 ^ k) - 1)) < 2 ^ 32"
    using unsigned_less [of "hash AND (of_nat (2 ^ k) - 1)", where 'a = nat] by simp
  also have "(2 :: nat) ^ 32 \<le> 2 ^ k" using False by (intro power_increasing) auto
  finally show ?thesis by (simp add: bucket_of_def)
qed

lemma FindPointer_loop_spec:
  "(\<And>e. e \<in> set es \<Longrightarrow> H e \<noteq> None) \<Longrightarrow>
   \<exists>p \<le> length es. FindPointer_loop H key hash es = Some p \<and> (p < length es \<longrightarrow> matches H key hash (es ! p)) \<and>
     (p = length es \<longrightarrow> (\<forall>e \<in> set es. \<not> matches H key hash e))"
proof (induction es)
  case (Cons e es)
  obtain h where h: "H e = Some h" using Cons.prems [of e] by auto
  obtain p where p: "p \<le> length es" "FindPointer_loop H key hash es = Some p" "p < length es \<longrightarrow> matches H key hash (es ! p)"
    "p = length es \<longrightarrow> (\<forall>e \<in> set es. \<not> matches H key hash e)"
    using Cons by auto
  show ?case
  proof (cases "lh_hash h = hash \<and> lh_key h = key")
    case True
    then show ?thesis using h by (intro exI [of _ 0]) (auto simp: matches_def Slice_eq_iff)
  next
    case False
    then show ?thesis using h p by (intro exI [of _ "Suc p"]) (auto simp: matches_def Slice_eq_iff)
  qed
qed simp

lemma length_concat_update:
  "i < length xss \<Longrightarrow> mset (concat (xss[i := ys])) + mset (xss ! i) = mset (concat xss) + mset ys"
proof -
  assume i: "i < length xss"
  have "concat (xss[i := ys]) = concat (take i xss) @ ys @ concat (drop (Suc i) xss)"
    using i by (simp add: upd_conv_take_nth_drop)
  moreover have "concat xss = concat (take i xss) @ xss ! i @ concat (drop (Suc i) xss)"
    by (metis append.assoc concat.simps(2) concat_append i id_take_nth_drop)
  ultimately show ?thesis by simp
qed

lemma FindPointer_spec:
  assumes t: "table_ok H t"
  shows "\<exists>p. FindPointer H t key hash = Some (bucket_of hash (ht_length t), p) \<and>
    bucket_of hash (ht_length t) < length (ht_list t) \<and>
    (if p < length (ht_list t ! bucket_of hash (ht_length t))
     then matches H key hash (ht_list t ! bucket_of hash (ht_length t) ! p) \<and>
       ht_list t ! bucket_of hash (ht_length t) ! p \<in> set (entries_of t)
     else p = length (ht_list t ! bucket_of hash (ht_length t)) \<and> (\<forall>e \<in> set (entries_of t). \<not> matches H key hash e))"
proof -
  let ?i = "bucket_of hash (ht_length t)"
  obtain k where k: "ht_length t = 2 ^ k" "length (ht_list t) = ht_length t" using t by (auto simp: table_ok_def)
  then have i: "?i < length (ht_list t)" using bucket_of_less by simp
  have "H e \<noteq> None" if "e \<in> set (ht_list t ! ?i)" for e using t i k(2) that unfolding table_ok_def by fastforce
  then obtain p where p: "p \<le> length (ht_list t ! ?i)" "FindPointer_loop H key hash (ht_list t ! ?i) = Some p"
    "p < length (ht_list t ! ?i) \<longrightarrow> matches H key hash (ht_list t ! ?i ! p)"
    "p = length (ht_list t ! ?i) \<longrightarrow> (\<forall>e \<in> set (ht_list t ! ?i). \<not> matches H key hash e)"
    using FindPointer_loop_spec [of "ht_list t ! ?i" H key hash] by blast
  have "e \<in> set (ht_list t ! ?i)" if e: "e \<in> set (entries_of t)" "matches H key hash e" for e
  proof -
    obtain j where j: "j < length (ht_list t)" "e \<in> set (ht_list t ! j)"
      using e(1) unfolding entries_of_def set_concat by (metis UN_E in_set_conv_nth)
    then have "j = ?i" using t e(2) k(2) unfolding table_ok_def matches_def by fastforce
    then show ?thesis using j(2) by simp
  qed
  moreover have "ht_list t ! ?i ! p \<in> set (entries_of t)" if "p < length (ht_list t ! ?i)"
    using that i by (auto simp: entries_of_def intro!: bexI [of _ "ht_list t ! ?i"])
  ultimately show ?thesis using p i by (auto simp: FindPointer_def Let_def)
qed

lemma HandleTable_Lookup_spec:
  assumes t: "table_ok H t"
  shows "\<exists>r. HandleTable_Lookup H t key hash = Some r \<and>
    (\<forall>e. r = Some e \<longleftrightarrow> e \<in> set (entries_of t) \<and> matches H key hash e)"
proof -
  let ?b = "ht_list t ! bucket_of hash (ht_length t)"
  obtain p where p: "FindPointer H t key hash = Some (bucket_of hash (ht_length t), p)"
    "if p < length ?b then matches H key hash (?b ! p) \<and> ?b ! p \<in> set (entries_of t)
     else p = length ?b \<and> (\<forall>e \<in> set (entries_of t). \<not> matches H key hash e)"
    using FindPointer_spec [OF t, of key hash] by blast
  have "e = e'" if "e \<in> set (entries_of t)" "e' \<in> set (entries_of t)" "matches H key hash e" "matches H key hash e'" for e e'
    using t that unfolding table_ok_def by blast
  then show ?thesis using p by (auto simp: HandleTable_Lookup_def split: if_splits)
qed

text \<open>A table with one bucket changed.\<close>

lemma table_ok_update:
  assumes t: "table_ok H t" and i: "i < ht_length t"
    and b: "\<forall>e \<in> set b. \<exists>h. H e = Some h \<and> bucket_of (lh_hash h) (ht_length t) = i"
    and m: "mset (entries_of t') = mset (concat ((ht_list t)[i := b]))"
    and t': "t' = t\<lparr>ht_list := (ht_list t)[i := b], ht_elems := n\<rparr>" and n: "n = length (entries_of t')"
    and d: "distinct (entries_of t')"
    and u: "\<forall>e \<in> set (entries_of t'). \<forall>e' \<in> set (entries_of t'). \<forall>key hash. matches H key hash e \<longrightarrow> matches H key hash e' \<longrightarrow> e = e'"
  shows "table_ok H t'"
  using t i b d u n unfolding table_ok_def t' by (auto simp: nth_list_update)

lemma HandleTable_Remove_spec:
  assumes t: "table_ok H t"
  shows "\<exists>r t'. HandleTable_Remove H key hash t = Some (r, t') \<and> table_ok H t' \<and>
    (\<forall>e. r = Some e \<longleftrightarrow> e \<in> set (entries_of t) \<and> matches H key hash e) \<and>
    set (entries_of t') = set (entries_of t) - set_option r"
proof -
  let ?i = "bucket_of hash (ht_length t)"
  let ?b = "ht_list t ! ?i"
  obtain p where p: "FindPointer H t key hash = Some (?i, p)" "?i < length (ht_list t)"
    "if p < length ?b then matches H key hash (?b ! p) \<and> ?b ! p \<in> set (entries_of t)
     else p = length ?b \<and> (\<forall>e \<in> set (entries_of t). \<not> matches H key hash e)"
    using FindPointer_spec [OF t, of key hash] by blast
  have u: "e = e'" if "e \<in> set (entries_of t)" "e' \<in> set (entries_of t)" "matches H k s e" "matches H k s e'" for e e' k s
    using t that unfolding table_ok_def by blast
  show ?thesis
  proof (cases "p < length ?b")
    case False
    then show ?thesis using p t by (intro exI [of _ None] exI [of _ t]) (auto simp: HandleTable_Remove_def split: if_splits)
  next
    case True
    let ?b' = "take p ?b @ drop (Suc p) ?b"
    define t' where "t' = t\<lparr>ht_list := (ht_list t)[?i := ?b'], ht_elems := ht_elems t - 1\<rparr>"
    have split: "?b = take p ?b @ ?b ! p # drop (Suc p) ?b" using True by (simp add: id_take_nth_drop)
    have mb: "mset ?b = add_mset (?b ! p) (mset ?b')" by (subst split) simp
    have m: "add_mset (?b ! p) (mset (entries_of t')) = mset (entries_of t)"
      using length_concat_update [OF p(2), of ?b'] mb by (simp add: entries_of_def t'_def)
    then have s: "set (entries_of t) = insert (?b ! p) (set (entries_of t'))" by (metis set_mset_add_mset_insert set_mset_mset)
    have d: "distinct (entries_of t')" "?b ! p \<notin> set (entries_of t')"
    proof -
      have "distinct (?b ! p # entries_of t')"
        using t m by (metis mset.simps(2) mset_eq_imp_distinct_iff table_ok_def)
      then show "distinct (entries_of t')" "?b ! p \<notin> set (entries_of t')" by auto
    qed
    have "table_ok H t'"
    proof (rule table_ok_update [OF t _ _ _ t'_def])
      show "?i < ht_length t" using t p(2) by (simp add: table_ok_def)
      then show "\<forall>e \<in> set ?b'. \<exists>h. H e = Some h \<and> bucket_of (lh_hash h) (ht_length t) = ?i"
        using t unfolding table_ok_def by (metis UnE in_set_dropD in_set_takeD set_append)
      show "mset (entries_of t') = mset (concat ((ht_list t)[?i := ?b']))" by (simp add: entries_of_def t'_def)
      show "ht_elems t - 1 = length (entries_of t')"
        using t arg_cong [OF m, of size] by (simp add: table_ok_def)
    qed (use d u s in auto)
    moreover have "HandleTable_Remove H key hash t = Some (Some (?b ! p), t')"
      using p(1) True by (simp add: HandleTable_Remove_def t'_def Let_def)
    ultimately show ?thesis using p(3) True s d(2) u by (intro exI [of _ "Some (?b ! p)"] exI [of _ t']) auto
  qed
qed

lemma new_length_power: "\<exists>k. new_length_loop n (2 ^ j) = 2 ^ k"
proof (induction n "(2 :: nat) ^ j" arbitrary: j rule: new_length_loop.induct)
  case (1 n)
  show ?case
  proof (cases "2 ^ j < n")
    case True
    then have "\<exists>k. new_length_loop n (2 ^ j * 2) = 2 ^ k" using "1.hyps" [of "Suc j"] by (simp add: mult.commute)
    then show ?thesis using True by (subst new_length_loop.simps) auto
  next
    case False
    then show ?thesis by (subst new_length_loop.simps) auto
  qed
qed

lemma rehash_spec:
  assumes "\<forall>e \<in> set es. H e \<noteq> None" and "length bs = 2 ^ k"
    and "\<forall>i < 2 ^ k. \<forall>e \<in> set (bs ! i). \<exists>h. H e = Some h \<and> bucket_of (lh_hash h) (2 ^ k) = i"
  shows "\<exists>bs'. rehash H (2 ^ k) es bs = Some bs' \<and> length bs' = 2 ^ k \<and> mset (concat bs') = mset (concat bs) + mset es \<and>
    (\<forall>i < 2 ^ k. \<forall>e \<in> set (bs' ! i). \<exists>h. H e = Some h \<and> bucket_of (lh_hash h) (2 ^ k) = i)"
  using assms
proof (induction es arbitrary: bs)
  case (Cons e es)
  obtain h where h: "H e = Some h" using Cons.prems(1) by auto
  let ?i = "bucket_of (lh_hash h) (2 ^ k)"
  have i: "?i < length bs" using Cons.prems(2) bucket_of_less by simp
  have "mset (concat (bs[?i := e # bs ! ?i])) = add_mset e (mset (concat bs))"
    using length_concat_update [OF i, of "e # bs ! ?i"] by simp
  moreover have "\<forall>j < 2 ^ k. \<forall>x \<in> set (bs[?i := e # bs ! ?i] ! j). \<exists>h. H x = Some h \<and> bucket_of (lh_hash h) (2 ^ k) = j"
    using Cons.prems(3) h i Cons.prems(2) by (auto simp: nth_list_update)
  ultimately show ?case using Cons.IH [of "bs[?i := e # bs ! ?i]"] Cons.prems(1,2) h i by (auto simp: Let_def)
qed simp

lemma Resize_spec:
  assumes t: "table_ok H t"
  shows "\<exists>t'. Resize H t = Some t' \<and> table_ok H t' \<and> set (entries_of t') = set (entries_of t)"
proof -
  obtain k where k: "new_length_loop (ht_elems t) 4 = 2 ^ k" using new_length_power [of "ht_elems t" 2] by auto
  have "\<forall>e \<in> set (entries_of t). H e \<noteq> None"
  proof
    fix e assume "e \<in> set (entries_of t)"
    then obtain j where "j < length (ht_list t)" "e \<in> set (ht_list t ! j)"
      unfolding entries_of_def set_concat by (metis UN_E in_set_conv_nth)
    then show "H e \<noteq> None" using t unfolding table_ok_def by fastforce
  qed
  then obtain bs where bs: "rehash H (2 ^ k) (concat (ht_list t)) (replicate (2 ^ k) []) = Some bs" "length bs = 2 ^ k"
    "mset (concat bs) = mset (entries_of t)"
    "\<forall>i < 2 ^ k. \<forall>e \<in> set (bs ! i). \<exists>h. H e = Some h \<and> bucket_of (lh_hash h) (2 ^ k) = i"
    using rehash_spec [of "concat (ht_list t)" H "replicate (2 ^ k) []" k] by (auto simp: entries_of_def)
  define t' where "t' = t\<lparr>ht_list := bs, ht_length := 2 ^ k\<rparr>"
  have e: "mset (entries_of t') = mset (entries_of t)" using bs(3) by (simp add: t'_def entries_of_def)
  then have s: "set (entries_of t') = set (entries_of t)" "length (entries_of t') = length (entries_of t)"
    "distinct (entries_of t')"
    using t by (metis set_mset_mset, metis size_mset, metis mset_eq_imp_distinct_iff table_ok_def)
  have "table_ok H t'"
    using t bs(2,4) s unfolding table_ok_def by (auto simp: t'_def)
  moreover have "Resize H t = Some t'" using t k bs(1) by (simp add: Resize_def table_ok_def entries_of_def t'_def)
  ultimately show ?thesis using s(1) by blast
qed

lemma HandleTable_Insert_spec:
  assumes t: "table_ok H t" and h: "H e = Some h" and e: "e \<notin> set (entries_of t)"
  shows "\<exists>r t'. HandleTable_Insert H e t = Some (r, t') \<and> table_ok H t' \<and>
    (\<forall>x. r = Some x \<longleftrightarrow> x \<in> set (entries_of t) \<and> matches H (lh_key h) (lh_hash h) x) \<and>
    set (entries_of t') = insert e (set (entries_of t) - set_option r)"
proof -
  let ?i = "bucket_of (lh_hash h) (ht_length t)"
  let ?b = "ht_list t ! ?i"
  obtain p where p: "FindPointer H t (lh_key h) (lh_hash h) = Some (?i, p)" "?i < length (ht_list t)"
    "if p < length ?b then matches H (lh_key h) (lh_hash h) (?b ! p) \<and> ?b ! p \<in> set (entries_of t)
     else p = length ?b \<and> (\<forall>e \<in> set (entries_of t). \<not> matches H (lh_key h) (lh_hash h) e)"
    using FindPointer_spec [OF t, of "lh_key h" "lh_hash h"] by blast
  have i: "?i < ht_length t" using t p(2) by (simp add: table_ok_def)
  have u: "x = y" if "x \<in> set (entries_of t)" "y \<in> set (entries_of t)" "matches H k s x" "matches H k s y" for x y k s
    using t that unfolding table_ok_def by blast
  have me: "matches H k s e \<longleftrightarrow> k = lh_key h \<and> s = lh_hash h" for k s using h by (auto simp: matches_def)
  show ?thesis
  proof (cases "p < length ?b")
    case True
    let ?b' = "?b[p := e]"
    define t' where "t' = t\<lparr>ht_list := (ht_list t)[?i := ?b'], ht_elems := ht_elems t\<rparr>"
    have mb: "add_mset (?b ! p) (mset ?b') = add_mset e (mset ?b)" using True by (simp add: mset_update)
    have m: "add_mset (?b ! p) (mset (entries_of t')) = add_mset e (mset (entries_of t))"
    proof -
      have "mset (entries_of t') + mset ?b = mset (entries_of t) + mset ?b'"
        using length_concat_update [OF p(2), of ?b'] by (simp add: entries_of_def t'_def)
      then have "add_mset (?b ! p) (mset (entries_of t')) + mset ?b = add_mset e (mset (entries_of t)) + mset ?b"
        using mb by (metis union_mset_add_mset_left union_mset_add_mset_right)
      then show ?thesis by (rule add_right_imp_eq)
    qed
    have dt: "distinct (entries_of t)" using t by (simp add: table_ok_def)
    have "distinct (e # entries_of t)" using e dt by simp
    moreover have "mset (?b ! p # entries_of t') = mset (e # entries_of t)" using m by simp
    ultimately have d: "distinct (?b ! p # entries_of t')" by (metis mset_eq_imp_distinct_iff)
    have "insert (?b ! p) (set (entries_of t')) = insert e (set (entries_of t))"
      using m by (metis set_mset_add_mset_insert set_mset_mset)
    then have "set (entries_of t') = insert e (set (entries_of t)) - {?b ! p}"
      using d by (metis Diff_insert_absorb distinct.simps(2))
    moreover have "?b ! p \<noteq> e" using e p(3) True by auto
    ultimately have s: "set (entries_of t') = insert e (set (entries_of t) - {?b ! p})" by auto
    have "table_ok H t'"
    proof (rule table_ok_update [OF t i _ _ t'_def])
      show "\<forall>x \<in> set ?b'. \<exists>h. H x = Some h \<and> bucket_of (lh_hash h) (ht_length t) = ?i"
        using t i h set_update_subset_insert [of ?b p e] unfolding table_ok_def by fastforce
      show "mset (entries_of t') = mset (concat ((ht_list t)[?i := ?b']))" by (simp add: entries_of_def t'_def)
      show "ht_elems t = length (entries_of t')" using t arg_cong [OF m, of size] by (simp add: table_ok_def)
      show "distinct (entries_of t')" using d by simp
      show "\<forall>x \<in> set (entries_of t'). \<forall>y \<in> set (entries_of t'). \<forall>k s. matches H k s x \<longrightarrow> matches H k s y \<longrightarrow> x = y"
        using u s me p(3) True by auto
    qed
    moreover have "HandleTable_Insert H e t = Some (Some (?b ! p), t')"
      using p(1) True h by (simp add: HandleTable_Insert_def t'_def Let_def)
    ultimately show ?thesis using p(3) True s u by (intro exI [of _ "Some (?b ! p)"] exI [of _ t']) auto
  next
    case False
    let ?b' = "?b @ [e]"
    define t1 where "t1 = t\<lparr>ht_list := (ht_list t)[?i := ?b'], ht_elems := ht_elems t + 1\<rparr>"
    have m: "mset (entries_of t1) = add_mset e (mset (entries_of t))"
      using length_concat_update [OF p(2), of ?b'] by (simp add: entries_of_def t1_def)
    then have s: "set (entries_of t1) = insert e (set (entries_of t))" by (metis set_mset_add_mset_insert set_mset_mset)
    have d: "distinct (entries_of t1)"
      using t e m by (metis distinct.simps(2) mset.simps(2) mset_eq_imp_distinct_iff table_ok_def)
    have none: "\<forall>x \<in> set (entries_of t). \<not> matches H (lh_key h) (lh_hash h) x" using p(3) False by simp
    have ok: "table_ok H t1"
    proof (rule table_ok_update [OF t i _ _ t1_def])
      show "\<forall>x \<in> set ?b'. \<exists>h. H x = Some h \<and> bucket_of (lh_hash h) (ht_length t) = ?i"
        using t i h unfolding table_ok_def by auto
      show "mset (entries_of t1) = mset (concat ((ht_list t)[?i := ?b']))" by (simp add: entries_of_def t1_def)
      show "ht_elems t + 1 = length (entries_of t1)" using t arg_cong [OF m, of size] by (simp add: table_ok_def)
      show "\<forall>x \<in> set (entries_of t1). \<forall>y \<in> set (entries_of t1). \<forall>k s. matches H k s x \<longrightarrow> matches H k s y \<longrightarrow> x = y"
        using u s me none by auto
    qed (rule d)
    have i1: "HandleTable_Insert H e t = (if ht_elems t1 > ht_length t1 then map_option (Pair None) (Resize H t1) else Some (None, t1))"
      using p(1) False h by (simp add: HandleTable_Insert_def t1_def Let_def)
    obtain t' where "Resize H t1 = Some t'" "table_ok H t'" "set (entries_of t') = set (entries_of t1)"
      using Resize_spec [OF ok] by blast
    then show ?thesis using i1 ok s none by (auto intro!: exI [of _ None])
  qed
qed

section \<open>One shard\<close>

text \<open>
  The invariant, where \<open>held e\<close> handles of entry \<open>e\<close> are in the hands of clients: the entries in
  the table are those of the LRU list, an entry is allocated while it is there or held, and its count
  is right.
\<close>

definition lru_ok :: "(nat \<Rightarrow> nat) \<Rightarrow> 'v LRUCache \<Rightarrow> bool" where
  "lru_ok held c \<longleftrightarrow>
     distinct (lc_lru c) \<and> set (entries_of (lc_table c)) = set (lc_lru c) \<and> table_ok (lc_heap c) (lc_table c) \<and>
     (\<forall>e. lc_heap c e \<noteq> None \<longleftrightarrow> e \<in> set (lc_lru c) \<or> held e > 0) \<and>
     (\<forall>e h. lc_heap c e = Some h \<longrightarrow> lh_refs h = held e + (if e \<in> set (lc_lru c) then 1 else 0)) \<and>
     (\<forall>e. lc_heap c e \<noteq> None \<longrightarrow> e < lc_next c) \<and> finite (dom (lc_heap c)) \<and>
     lc_usage c = (\<Sum>e \<in> dom (lc_heap c). lh_charge (the (lc_heap c e)))"

text \<open>The fields of an entry that do not change.\<close>

definition fields :: "'v LRUCache \<Rightarrow> nat \<Rightarrow> (slice \<times> uint32_t \<times> 'v \<times> nat) option" where
  "fields c e = map_option (\<lambda>h. (lh_key h, lh_hash h, lh_value h, lh_charge h)) (lc_heap c e)"

text \<open>All entries that were inserted: those that are allocated and those that were deleted.\<close>

definition kv_of :: "'v LRUHandle \<Rightarrow> slice \<times> 'v" where
  "kv_of h = (lh_key h, lh_value h)"

definition account :: "'v LRUCache \<Rightarrow> (slice \<times> 'v) multiset" where
  "account c = image_mset (\<lambda>e. kv_of (the (lc_heap c e))) (mset_set (dom (lc_heap c))) + mset (lc_deleted c)"

lemma table_ok_cong:
  assumes "table_ok H t" and "\<And>e. e \<in> set (entries_of t) \<Longrightarrow> \<exists>h h'. H e = Some h \<and> H' e = Some h' \<and> lh_hash h' = lh_hash h \<and> lh_key h' = lh_key h"
  shows "table_ok H' t"
proof -
  have m: "matches H' k s e \<longleftrightarrow> matches H k s e" if "e \<in> set (entries_of t)" for e k s
    using assms(2) [OF that] by (auto simp: matches_def)
  have "\<exists>h. H' e = Some h \<and> bucket_of (lh_hash h) (ht_length t) = i" if "i < ht_length t" "e \<in> set (ht_list t ! i)" for e i
  proof -
    have "e \<in> set (entries_of t)" using that assms(1) by (auto simp: table_ok_def entries_of_def)
    from assms(2) [OF this] assms(1) that show ?thesis unfolding table_ok_def by fastforce
  qed
  then show ?thesis using assms(1) m unfolding table_ok_def by auto
qed

lemma sum_dom_update:
  assumes "finite (dom H)" and "H e = Some h" and "f h' = f h"
  shows "(\<Sum>x \<in> dom (H(e \<mapsto> h')). f (the ((H(e \<mapsto> h')) x))) = (\<Sum>x \<in> dom H. f (the (H x)) :: nat)"
proof -
  have "dom (H(e \<mapsto> h')) = dom H" using assms(2) by auto
  then show ?thesis using assms by (auto intro!: sum.cong)
qed

lemma image_dom_update:
  assumes "finite (dom H)" and "H e = Some h" and "f h' = f h"
  shows "image_mset (\<lambda>x. f (the ((H(e \<mapsto> h')) x))) (mset_set (dom (H(e \<mapsto> h')))) = image_mset (\<lambda>x. f (the (H x))) (mset_set (dom H))"
proof -
  have "dom (H(e \<mapsto> h')) = dom H" using assms(2) by auto
  then show ?thesis using assms by (auto intro!: image_mset_cong)
qed

lemma image_dom_remove:
  assumes "finite (dom H)" and "H e = Some h"
  shows "image_mset (\<lambda>x. f (the (H x))) (mset_set (dom H)) =
    add_mset (f h) (image_mset (\<lambda>x. f (the ((H(e := None)) x))) (mset_set (dom (H(e := None)))))"
proof -
  have d: "dom H = insert e (dom (H(e := None)))" "e \<notin> dom (H(e := None))" using assms(2) by auto
  have "mset_set (dom H) = add_mset e (mset_set (dom (H(e := None))))"
    using d assms(1) by (metis dom_fun_upd finite_Diff finite_insert mset_set.insert)
  moreover have "image_mset (\<lambda>x. f (the ((H(e := None)) x))) (mset_set (dom (H(e := None)))) =
      image_mset (\<lambda>x. f (the (H x))) (mset_set (dom (H(e := None))))"
    using assms(1) by (intro image_mset_cong) auto
  ultimately show ?thesis using assms(2) by simp
qed

lemma sum_dom_remove:
  assumes "finite (dom H)" and "H e = Some h"
  shows "(\<Sum>x \<in> dom H. f (the (H x)) :: nat) = f h + (\<Sum>x \<in> dom (H(e := None)). f (the ((H(e := None)) x)))"
proof -
  have e: "e \<in> dom H" using assms(2) by auto
  have "(\<Sum>x \<in> dom H. f (the (H x))) = f h + (\<Sum>x \<in> dom H - {e}. f (the (H x)))"
    using sum.remove [OF assms(1) e, of "\<lambda>x. f (the (H x))"] assms(2) by simp
  moreover have "(\<Sum>x \<in> dom H - {e}. f (the (H x))) = (\<Sum>x \<in> dom (H(e := None)). f (the ((H(e := None)) x)))"
    by (rule sum.cong) auto
  ultimately show ?thesis by (simp only:)
qed

lemma account_update:
  assumes "finite (dom (lc_heap c))" and "lc_heap c e = Some h" and "kv_of h' = kv_of h"
    and "lc_heap c' = (lc_heap c)(e \<mapsto> h')" and "lc_deleted c' = lc_deleted c"
  shows "account c' = account c"
  unfolding account_def assms(4,5) image_dom_update [where H = "lc_heap c", OF assms(1-3)] ..

lemma account_remove:
  assumes "finite (dom (lc_heap c))" and "lc_heap c e = Some h"
    and "lc_heap c' = (lc_heap c)(e := None)" and "lc_deleted c' = lc_deleted c @ [kv_of h]"
  shows "account c' = account c"
  unfolding account_def assms(3,4) image_dom_remove [where H = "lc_heap c" and f = kv_of, OF assms(1,2)] by simp

lemma lru_ok_matches:
  "lru_ok held c \<Longrightarrow> e \<in> set (lc_lru c) \<Longrightarrow> \<exists>h. lc_heap c e = Some h"
  unfolding lru_ok_def by blast

text \<open>A lookup moves the entry to the end and gives a handle to it.\<close>

lemma LRUCache_Lookup_ok:
  assumes ok: "lru_ok held c"
  shows "\<exists>r c'. LRUCache_Lookup key hash c = Some (r, c') \<and>
    lru_ok (case r of None \<Rightarrow> held | Some e \<Rightarrow> held(e := held e + 1)) c' \<and>
    set (lc_lru c') = set (lc_lru c) \<and> fields c' = fields c \<and> account c' = account c \<and> lc_capacity c' = lc_capacity c \<and>
    (\<forall>e. r = Some e \<longleftrightarrow> e \<in> set (lc_lru c) \<and> (\<exists>v n. fields c e = Some (key, hash, v, n)))"
proof -
  have t: "table_ok (lc_heap c) (lc_table c)" "set (entries_of (lc_table c)) = set (lc_lru c)" using ok by (simp_all add: lru_ok_def)
  have m: "matches (lc_heap c) key hash e \<longleftrightarrow> (\<exists>v n. fields c e = Some (key, hash, v, n))" for e
    by (auto simp: matches_def fields_def)
  obtain r where r: "HandleTable_Lookup (lc_heap c) (lc_table c) key hash = Some r"
    "\<forall>e. r = Some e \<longleftrightarrow> e \<in> set (lc_lru c) \<and> (\<exists>v n. fields c e = Some (key, hash, v, n))"
    using HandleTable_Lookup_spec [OF t(1), of key hash] t(2) m by auto
  show ?thesis
  proof (cases r)
    case None
    then show ?thesis using r ok by (intro exI [of _ None] exI [of _ c]) (simp add: LRUCache_Lookup_def)
  next
    case (Some e)
    then have e: "e \<in> set (lc_lru c)" using r(2) by blast
    then obtain h where h: "lc_heap c e = Some h" using lru_ok_matches [OF ok] by blast
    define c' where "c' = c\<lparr>lc_heap := (lc_heap c)(e \<mapsto> h\<lparr>lh_refs := lh_refs h + 1\<rparr>), lc_lru := remove1 e (lc_lru c) @ [e]\<rparr>"
    have "LRUCache_Lookup key hash c = Some (Some e, c')"
      using r(1) Some h e by (simp add: LRUCache_Lookup_def LRU_Remove_def LRU_Append_def c'_def)
    moreover have d: "distinct (lc_lru c)" using ok by (simp add: lru_ok_def)
    then have s: "set (lc_lru c') = set (lc_lru c)" using e by (auto simp: c'_def)
    moreover have "fields c' = fields c" using h by (auto simp: fields_def c'_def fun_eq_iff)
    moreover have "account c' = account c"
    proof (rule account_update [OF _ h])
      show "finite (dom (lc_heap c))" using ok by (simp add: lru_ok_def)
    qed (simp_all add: c'_def kv_of_def)
    moreover have "table_ok (lc_heap c') (lc_table c')"
    proof (rule table_ok_cong [of "lc_heap c"])
      show "table_ok (lc_heap c) (lc_table c')" using t(1) by (simp add: c'_def)
      show "\<exists>h h'. lc_heap c x = Some h \<and> lc_heap c' x = Some h' \<and> lh_hash h' = lh_hash h \<and> lh_key h' = lh_key h"
        if "x \<in> set (entries_of (lc_table c'))" for x
        using lru_ok_matches [OF ok, of x] that t(2) h by (auto simp: c'_def)
    qed
    moreover have "lru_ok (held(e := held e + 1)) c'"
      unfolding lru_ok_def
    proof (intro conjI allI impI)
      show "lc_heap c' x \<noteq> None \<longleftrightarrow> x \<in> set (lc_lru c') \<or> (held(e := held e + 1)) x > 0" for x
        using ok h s unfolding lru_ok_def by (auto simp: c'_def)
      show "lh_refs hx = (held(e := held e + 1)) x + (if x \<in> set (lc_lru c') then 1 else 0)" if "lc_heap c' x = Some hx" for x hx
        using ok h s that unfolding lru_ok_def by (auto simp: c'_def split: if_splits)
      show "x < lc_next c'" if "lc_heap c' x \<noteq> None" for x
        using ok h that unfolding lru_ok_def by (auto simp: c'_def split: if_splits)
      show "table_ok (lc_heap c') (lc_table c')" by fact
      have f: "finite (dom (lc_heap c))" using ok by (simp add: lru_ok_def)
      then show "finite (dom (lc_heap c'))" by (simp add: c'_def)
      have "lc_heap c' = (lc_heap c)(e \<mapsto> h\<lparr>lh_refs := lh_refs h + 1\<rparr>)" by (simp add: c'_def)
      then show "lc_usage c' = (\<Sum>x \<in> dom (lc_heap c'). lh_charge (the (lc_heap c' x)))"
        using sum_dom_update [where H = "lc_heap c" and e = e and f = lh_charge and h = h and h' = "h\<lparr>lh_refs := lh_refs h + 1\<rparr>", OF f h]
          ok by (simp add: c'_def lru_ok_def)
    qed (use d e s t in \<open>auto simp: c'_def\<close>)
    ultimately show ?thesis using r(2) Some by (intro exI [of _ "Some e"] exI [of _ c']) (simp add: c'_def)
  qed
qed

text \<open>One reference less, of an entry that is held, or that has just left the LRU list.\<close>

lemma Unref_ok:
  assumes h: "lc_heap c e = Some h" and r: "lh_refs h = n + 1" and f: "finite (dom (lc_heap c))"
    and u: "lc_usage c = (\<Sum>x \<in> dom (lc_heap c). lh_charge (the (lc_heap c x)))"
  shows "\<exists>c'. Unref e c = Some c' \<and> lc_lru c' = lc_lru c \<and> lc_table c' = lc_table c \<and> lc_next c' = lc_next c \<and>
    lc_capacity c' = lc_capacity c \<and> lc_heap c' = (lc_heap c)(e := if n = 0 then None else Some (h\<lparr>lh_refs := n\<rparr>)) \<and>
    lc_usage c' = (\<Sum>x \<in> dom (lc_heap c'). lh_charge (the (lc_heap c' x))) \<and> account c' = account c"
proof (cases "n = 0")
  case True
  let ?c = "c\<lparr>lc_usage := lc_usage c - lh_charge h, lc_deleted := lc_deleted c @ [(lh_key h, lh_value h)], lc_heap := (lc_heap c)(e := None)\<rparr>"
  have "Unref e c = Some ?c" using h r True by (simp add: Unref_def)
  moreover have "account ?c = account c" by (rule account_remove [OF f h]) (simp_all add: kv_of_def)
  moreover have "lc_usage ?c = (\<Sum>x \<in> dom (lc_heap ?c). lh_charge (the (lc_heap ?c x)))"
    using sum_dom_remove [where H = "lc_heap c" and f = lh_charge, OF f h] u by simp
  ultimately show ?thesis using True by (intro exI [of _ ?c]) (simp del: fun_upd_apply)
next
  case False
  let ?c = "c\<lparr>lc_heap := (lc_heap c)(e \<mapsto> h\<lparr>lh_refs := n\<rparr>)\<rparr>"
  have "Unref e c = Some ?c" using h r False by (simp add: Unref_def)
  moreover have "account ?c = account c" by (rule account_update [OF f h]) (simp_all add: kv_of_def)
  moreover have "lc_usage ?c = (\<Sum>x \<in> dom (lc_heap ?c). lh_charge (the (lc_heap ?c x)))"
    using sum_dom_update [where H = "lc_heap c" and f = lh_charge and h' = "h\<lparr>lh_refs := n\<rparr>", OF f h] u by simp
  ultimately show ?thesis using False by (intro exI [of _ ?c]) (simp del: fun_upd_apply)
qed

lemma LRUCache_Release_ok:
  assumes ok: "lru_ok held c" and e: "held e > 0"
  shows "\<exists>c'. LRUCache_Release e c = Some c' \<and> lru_ok (held(e := held e - 1)) c' \<and> lc_lru c' = lc_lru c \<and>
    fields c' \<subseteq>\<^sub>m fields c \<and> (\<forall>x. x \<in> set (lc_lru c) \<or> x \<noteq> e \<or> held e > 1 \<longrightarrow> fields c' x = fields c x) \<and>
    account c' = account c \<and> lc_capacity c' = lc_capacity c"
proof -
  obtain h where h: "lc_heap c e = Some h" using ok e unfolding lru_ok_def by blast
  let ?n = "held e - 1 + (if e \<in> set (lc_lru c) then 1 else 0)"
  have r: "lh_refs h = ?n + 1" using ok h e unfolding lru_ok_def by auto
  obtain c' where c': "Unref e c = Some c'" "lc_lru c' = lc_lru c" "lc_table c' = lc_table c" "lc_next c' = lc_next c"
    "lc_capacity c' = lc_capacity c" "lc_heap c' = (lc_heap c)(e := if ?n = 0 then None else Some (h\<lparr>lh_refs := ?n\<rparr>))"
    "lc_usage c' = (\<Sum>x \<in> dom (lc_heap c'). lh_charge (the (lc_heap c' x)))" "account c' = account c"
    using Unref_ok [OF h r] ok unfolding lru_ok_def by blast
  have t: "table_ok (lc_heap c') (lc_table c')"
  proof (rule table_ok_cong [of "lc_heap c"])
    show "table_ok (lc_heap c) (lc_table c')" using ok c'(3) by (simp add: lru_ok_def)
    show "\<exists>h h'. lc_heap c x = Some h \<and> lc_heap c' x = Some h' \<and> lh_hash h' = lh_hash h \<and> lh_key h' = lh_key h"
      if "x \<in> set (entries_of (lc_table c'))" for x
    proof -
      have "x \<in> set (lc_lru c)" using that ok c'(3) by (simp add: lru_ok_def)
      then show ?thesis using lru_ok_matches [OF ok, of x] h c'(6) by auto
    qed
  qed
  have "lru_ok (held(e := held e - 1)) c'"
    unfolding lru_ok_def
  proof (intro conjI allI impI)
    show "lc_heap c' x \<noteq> None \<longleftrightarrow> x \<in> set (lc_lru c') \<or> (held(e := held e - 1)) x > 0" for x
      using ok c'(2,6) unfolding lru_ok_def by auto
    show "lh_refs h' = (held(e := held e - 1)) x + (if x \<in> set (lc_lru c') then 1 else 0)" if "lc_heap c' x = Some h'" for x h'
      using ok c'(2,6) that unfolding lru_ok_def by (auto split: if_splits)
    show "x < lc_next c'" if "lc_heap c' x \<noteq> None" for x
      using ok c'(4,6) that h unfolding lru_ok_def by (auto split: if_splits)
    show "finite (dom (lc_heap c'))" using ok c'(6) by (simp add: lru_ok_def)
  qed (use ok c' t in \<open>auto simp: lru_ok_def\<close>)
  moreover have "fields c' \<subseteq>\<^sub>m fields c" using c'(6) h by (auto simp: map_le_def fields_def split: if_splits)
  moreover have "\<forall>x. x \<in> set (lc_lru c) \<or> x \<noteq> e \<or> held e > 1 \<longrightarrow> fields c' x = fields c x"
    using c'(6) h by (auto simp: fields_def)
  ultimately show ?thesis using c'(1,2,5,8) by (auto simp: LRUCache_Release_def)
qed

text \<open>An entry leaves the table and the LRU list.\<close>

lemma drop_entry_ok:
  assumes d: "distinct (lc_lru c)" and tc: "table_ok (lc_heap c) (lc_table c)"
    and te: "set (entries_of (lc_table c)) = set (lc_lru c) - {e}" and e: "e \<in> set (lc_lru c)"
    and l: "\<forall>x. lc_heap c x \<noteq> None \<longleftrightarrow> x \<in> set (lc_lru c) \<or> held x > 0"
    and r: "\<forall>x h. lc_heap c x = Some h \<longrightarrow> lh_refs h = held x + (if x \<in> set (lc_lru c) then 1 else 0)"
    and n: "\<forall>x. lc_heap c x \<noteq> None \<longrightarrow> x < lc_next c" and f: "finite (dom (lc_heap c))"
    and u: "lc_usage c = (\<Sum>x \<in> dom (lc_heap c). lh_charge (the (lc_heap c x)))"
  shows "\<exists>c'. Unref e (c\<lparr>lc_lru := remove1 e (lc_lru c)\<rparr>) = Some c' \<and> lru_ok held c' \<and>
    lc_lru c' = remove1 e (lc_lru c) \<and> fields c' \<subseteq>\<^sub>m fields c \<and>
    (\<forall>x. x \<noteq> e \<or> held e > 0 \<longrightarrow> fields c' x = fields c x) \<and> account c' = account c \<and> lc_capacity c' = lc_capacity c \<and>
    lc_next c' = lc_next c"
proof -
  obtain h where h: "lc_heap c e = Some h" using l e by blast
  have rh: "lh_refs h = held e + 1" using r h e by simp
  let ?c = "c\<lparr>lc_lru := remove1 e (lc_lru c)\<rparr>"
  obtain c' where c': "Unref e ?c = Some c'" "lc_lru c' = remove1 e (lc_lru c)" "lc_table c' = lc_table c" "lc_next c' = lc_next c"
    "lc_capacity c' = lc_capacity c" "lc_heap c' = (lc_heap c)(e := if held e = 0 then None else Some (h\<lparr>lh_refs := held e\<rparr>))"
    "lc_usage c' = (\<Sum>x \<in> dom (lc_heap c'). lh_charge (the (lc_heap c' x)))" "account c' = account ?c"
    using Unref_ok [of ?c e h "held e"] h rh f u by auto
  have s: "set (remove1 e (lc_lru c)) = set (lc_lru c) - {e}" using d by (rule set_remove1_eq)
  have t: "table_ok (lc_heap c') (lc_table c')"
  proof (rule table_ok_cong [of "lc_heap c"])
    show "table_ok (lc_heap c) (lc_table c')" using tc c'(3) by simp
    show "\<exists>h h'. lc_heap c x = Some h \<and> lc_heap c' x = Some h' \<and> lh_hash h' = lh_hash h \<and> lh_key h' = lh_key h"
      if "x \<in> set (entries_of (lc_table c'))" for x
    proof -
      have "x \<in> set (lc_lru c)" "x \<noteq> e" using that te c'(3) by auto
      moreover obtain hx where "lc_heap c x = Some hx" using l \<open>x \<in> set (lc_lru c)\<close> by blast
      ultimately show ?thesis using c'(6) by auto
    qed
  qed
  have "lru_ok held c'"
    unfolding lru_ok_def
  proof (intro conjI allI impI)
    show "lc_heap c' x \<noteq> None \<longleftrightarrow> x \<in> set (lc_lru c') \<or> held x > 0" for x
      using l c'(2,6) s by auto
    show "lh_refs h' = held x + (if x \<in> set (lc_lru c') then 1 else 0)" if "lc_heap c' x = Some h'" for x h'
      using r c'(2,6) s that by (auto split: if_splits)
    show "x < lc_next c'" if "lc_heap c' x \<noteq> None" for x
      using n c'(4,6) that h by (auto split: if_splits)
    show "finite (dom (lc_heap c'))" using f c'(6) by simp
  qed (use c' t te s d in \<open>auto simp: distinct_remove1\<close>)
  moreover have "fields c' \<subseteq>\<^sub>m fields c" using c'(6) h by (auto simp: map_le_def fields_def split: if_splits)
  moreover have "\<forall>x. x \<noteq> e \<or> held e > 0 \<longrightarrow> fields c' x = fields c x"
    using c'(6) h by (auto simp: fields_def)
  moreover have "account ?c = account c" by (simp add: account_def)
  ultimately show ?thesis using c' by auto
qed

lemma LRUCache_Erase_ok:
  assumes ok: "lru_ok held c"
  shows "\<exists>c'. LRUCache_Erase key hash c = Some c' \<and> lru_ok held c' \<and> set (lc_lru c') \<subseteq> set (lc_lru c) \<and>
    (\<forall>e \<in> set (lc_lru c'). \<forall>v n. fields c e \<noteq> Some (key, hash, v, n)) \<and>
    fields c' \<subseteq>\<^sub>m fields c \<and> (\<forall>x. held x > 0 \<longrightarrow> fields c' x = fields c x) \<and> account c' = account c \<and>
    lc_capacity c' = lc_capacity c"
proof -
  have t: "table_ok (lc_heap c) (lc_table c)" "set (entries_of (lc_table c)) = set (lc_lru c)" using ok by (simp_all add: lru_ok_def)
  obtain r t' where r: "HandleTable_Remove (lc_heap c) key hash (lc_table c) = Some (r, t')" "table_ok (lc_heap c) t'"
    "\<forall>e. r = Some e \<longleftrightarrow> e \<in> set (lc_lru c) \<and> matches (lc_heap c) key hash e"
    "set (entries_of t') = set (lc_lru c) - set_option r"
    using HandleTable_Remove_spec [OF t(1), of key hash] t(2) by auto
  have m: "matches (lc_heap c) key hash e" if "fields c e = Some (key, hash, v, n)" for e v n
    using that by (auto simp: matches_def fields_def)
  show ?thesis
  proof (cases r)
    case None
    have "lru_ok held (c\<lparr>lc_table := t'\<rparr>)" using ok r(2,4) None by (simp add: lru_ok_def)
    moreover have "fields (c\<lparr>lc_table := t'\<rparr>) = fields c" "account (c\<lparr>lc_table := t'\<rparr>) = account c"
      by (simp_all add: fields_def account_def fun_eq_iff)
    ultimately show ?thesis using r(1,3) None m
      by (intro exI [of _ "c\<lparr>lc_table := t'\<rparr>"]) (auto simp: LRUCache_Erase_def)
  next
    case (Some e)
    then have e: "e \<in> set (lc_lru c)" "matches (lc_heap c) key hash e" using r(3) by auto
    obtain c' where c': "Unref e (c\<lparr>lc_table := t', lc_lru := remove1 e (lc_lru c)\<rparr>) = Some c'" "lru_ok held c'"
      "lc_lru c' = remove1 e (lc_lru c)" "fields c' \<subseteq>\<^sub>m fields (c\<lparr>lc_table := t'\<rparr>)"
      "\<forall>x. x \<noteq> e \<or> held e > 0 \<longrightarrow> fields c' x = fields (c\<lparr>lc_table := t'\<rparr>) x" "account c' = account (c\<lparr>lc_table := t'\<rparr>)"
      "lc_capacity c' = lc_capacity c"
      using drop_entry_ok [of "c\<lparr>lc_table := t'\<rparr>" e held] ok r(2,4) Some e(1) unfolding lru_ok_def by auto
    have same: "fields (c\<lparr>lc_table := t'\<rparr>) = fields c" "account (c\<lparr>lc_table := t'\<rparr>) = account c"
      by (simp_all add: fields_def account_def fun_eq_iff)
    have "set (lc_lru c') = set (lc_lru c) - {e}" using c'(3) ok by (simp add: lru_ok_def set_remove1_eq)
    moreover have "LRUCache_Erase key hash c = Some c'"
      using r(1) Some e(1) c'(1) by (simp add: LRUCache_Erase_def LRU_Remove_def)
    moreover have "fields c x \<noteq> Some (key, hash, v, n)" if "x \<in> set (lc_lru c) - {e}" for x v n
      using that m [of x v n] r(3) Some by (metis DiffD1 DiffD2 insertI1 option.inject)
    moreover have "fields c' x = fields c x" if "held x > 0" for x using c'(5) same that by (cases "x = e") auto
    ultimately show ?thesis using c' same by (intro exI [of _ c']) simp
  qed
qed

lemma evict_one_ok:
  assumes ok: "lru_ok held c" and e: "e \<in> set (lc_lru c)"
  shows "\<exists>c'. evict_one e c = Some c' \<and> lru_ok held c' \<and> set (lc_lru c') = set (lc_lru c) - {e} \<and>
    fields c' \<subseteq>\<^sub>m fields c \<and> (\<forall>x. x \<noteq> e \<or> held e > 0 \<longrightarrow> fields c' x = fields c x) \<and> account c' = account c \<and>
    lc_capacity c' = lc_capacity c"
proof -
  have t: "table_ok (lc_heap c) (lc_table c)" "set (entries_of (lc_table c)) = set (lc_lru c)" using ok by (simp_all add: lru_ok_def)
  obtain h where h: "lc_heap c e = Some h" using lru_ok_matches [OF ok e] by blast
  have me: "matches (lc_heap c) (lh_key h) (lh_hash h) e" using h by (simp add: matches_def)
  obtain r t' where r: "HandleTable_Remove (lc_heap c) (lh_key h) (lh_hash h) (lc_table c) = Some (r, t')" "table_ok (lc_heap c) t'"
    "\<forall>e'. r = Some e' \<longleftrightarrow> e' \<in> set (lc_lru c) \<and> matches (lc_heap c) (lh_key h) (lh_hash h) e'"
    "set (entries_of t') = set (lc_lru c) - set_option r"
    using HandleTable_Remove_spec [OF t(1), of "lh_key h" "lh_hash h"] t(2) by auto
  have re: "r = Some e" using r(3) e me by blast
  obtain c' where c': "Unref e (c\<lparr>lc_table := t', lc_lru := remove1 e (lc_lru c)\<rparr>) = Some c'" "lru_ok held c'"
    "lc_lru c' = remove1 e (lc_lru c)" "fields c' \<subseteq>\<^sub>m fields (c\<lparr>lc_table := t'\<rparr>)"
    "\<forall>x. x \<noteq> e \<or> held e > 0 \<longrightarrow> fields c' x = fields (c\<lparr>lc_table := t'\<rparr>) x" "account c' = account (c\<lparr>lc_table := t'\<rparr>)"
    "lc_capacity c' = lc_capacity c"
    using drop_entry_ok [of "c\<lparr>lc_table := t'\<rparr>" e held] ok r(2,4) re e unfolding lru_ok_def by auto
  have same: "fields (c\<lparr>lc_table := t'\<rparr>) = fields c" "account (c\<lparr>lc_table := t'\<rparr>) = account c"
    by (simp_all add: fields_def account_def fun_eq_iff)
  have "c\<lparr>lc_lru := remove1 e (lc_lru c), lc_table := t'\<rparr> = c\<lparr>lc_table := t', lc_lru := remove1 e (lc_lru c)\<rparr>"
    by (rule LRUCache.equality) simp_all
  note c'(1) [folded this]
  then have "evict_one e c = Some c'" using e h r(1) re by (simp add: evict_one_def LRU_Remove_def)
  moreover have "set (lc_lru c') = set (lc_lru c) - {e}" using c'(3) ok by (simp add: lru_ok_def set_remove1_eq)
  ultimately show ?thesis using c' same by auto
qed

text \<open>The eviction ends with the usage within the capacity, or with nothing left to evict.\<close>

lemma evict_loop_ok:
  "lru_ok held c \<Longrightarrow> \<exists>c'. evict_loop c = Some c' \<and> lru_ok held c' \<and> set (lc_lru c') \<subseteq> set (lc_lru c) \<and>
    fields c' \<subseteq>\<^sub>m fields c \<and> (\<forall>x. held x > 0 \<longrightarrow> fields c' x = fields c x) \<and> account c' = account c \<and>
    lc_capacity c' = lc_capacity c \<and> (lc_usage c' \<le> lc_capacity c' \<or> lc_lru c' = [])"
proof (induction c rule: evict_loop.induct)
  case (1 c)
  show ?case
  proof (cases "lc_usage c > lc_capacity c \<and> lc_lru c \<noteq> []")
    case False
    then show ?thesis using "1.prems" by (subst evict_loop.simps) auto
  next
    case True
    then obtain c1 where c1: "evict_one (hd (lc_lru c)) c = Some c1" "lru_ok held c1"
      "set (lc_lru c1) = set (lc_lru c) - {hd (lc_lru c)}" "fields c1 \<subseteq>\<^sub>m fields c"
      "\<forall>x. x \<noteq> hd (lc_lru c) \<or> held (hd (lc_lru c)) > 0 \<longrightarrow> fields c1 x = fields c x" "account c1 = account c"
      "lc_capacity c1 = lc_capacity c"
      using evict_one_ok [OF "1.prems", of "hd (lc_lru c)"] by auto
    obtain c' where c': "evict_loop c1 = Some c'" "lru_ok held c'" "set (lc_lru c') \<subseteq> set (lc_lru c1)"
      "fields c' \<subseteq>\<^sub>m fields c1" "\<forall>x. held x > 0 \<longrightarrow> fields c' x = fields c1 x" "account c' = account c1"
      "lc_capacity c' = lc_capacity c1" "lc_usage c' \<le> lc_capacity c' \<or> lc_lru c' = []"
      using "1.IH" [OF True c1(1,2)] by blast
    have "evict_loop c = Some c'" using True c1(1) c'(1) by (subst evict_loop.simps) simp
    moreover have "fields c' \<subseteq>\<^sub>m fields c" using map_le_trans [OF c'(4) c1(4)] .
    moreover have "\<forall>x. held x > 0 \<longrightarrow> fields c' x = fields c x" using c'(5) c1(5) by metis
    ultimately show ?thesis using c' c1 by auto
  qed
qed

text \<open>A new entry shadows the one with its key; it may be evicted at once, and is then only held.\<close>

lemma LRUCache_Insert_ok:
  assumes ok: "lru_ok held c"
  shows "\<exists>e c'. LRUCache_Insert key hash v charge c = Some (e, c') \<and> e = lc_next c \<and> held e = 0 \<and>
    lru_ok (held(e := 1)) c' \<and> set (lc_lru c') \<subseteq> insert e (set (lc_lru c)) \<and>
    (\<forall>x \<in> set (lc_lru c') - {e}. \<forall>w n. fields c x \<noteq> Some (key, hash, w, n)) \<and>
    fields c' \<subseteq>\<^sub>m (fields c)(e \<mapsto> (key, hash, v, charge)) \<and> fields c' e = Some (key, hash, v, charge) \<and>
    (\<forall>x. held x > 0 \<longrightarrow> fields c' x = fields c x) \<and> account c' = add_mset (key, v) (account c) \<and>
    lc_capacity c' = lc_capacity c \<and> (lc_usage c' \<le> lc_capacity c' \<or> lc_lru c' = [])"
proof -
  define e where "e = lc_next c"
  define h where "h = \<lparr>lh_value = v, lh_charge = charge, lh_refs = 2, lh_hash = hash, lh_key = key\<rparr>"
  define held' where "held' = held(e := 1)"
  have new: "lc_heap c e = None" using ok unfolding lru_ok_def e_def by blast
  have "lc_heap c e \<noteq> None \<longleftrightarrow> e \<in> set (lc_lru c) \<or> held e > 0" using ok unfolding lru_ok_def by (elim conjE) (erule spec)
  with new have e: "e \<notin> set (lc_lru c)" "held e = 0" by auto
  have t: "table_ok (lc_heap c) (lc_table c)" "set (entries_of (lc_table c)) = set (lc_lru c)" using ok by (simp_all add: lru_ok_def)
  have f: "finite (dom (lc_heap c))" using ok by (simp add: lru_ok_def)
  let ?H = "(lc_heap c)(e \<mapsto> h)"
  have tH: "table_ok ?H (lc_table c)"
  proof (rule table_ok_cong [OF t(1)])
    show "\<exists>h h'. lc_heap c x = Some h \<and> ?H x = Some h' \<and> lh_hash h' = lh_hash h \<and> lh_key h' = lh_key h"
      if "x \<in> set (entries_of (lc_table c))" for x
      using lru_ok_matches [OF ok, of x] that t(2) e(1) by auto
  qed
  obtain r t' where r: "HandleTable_Insert ?H e (lc_table c) = Some (r, t')" "table_ok ?H t'"
    "\<forall>x. r = Some x \<longleftrightarrow> x \<in> set (lc_lru c) \<and> matches ?H key hash x"
    "set (entries_of t') = insert e (set (lc_lru c) - set_option r)"
    using HandleTable_Insert_spec [OF tH, of e h] t(2) e(1) by (auto simp: h_def)
  define c1 where "c1 = c\<lparr>lc_heap := ?H, lc_next := e + 1, lc_lru := lc_lru c @ [e], lc_usage := lc_usage c + charge, lc_table := t'\<rparr>"
  have rm: "((lc_heap c)(e \<mapsto> h))(e := None) = lc_heap c" using new by (auto simp: fun_eq_iff)
  have HF: "finite (dom ?H)" and HE: "?H e = Some h" using f by auto
  have acc: "account c1 = add_mset (key, v) (account c)"
    using image_dom_remove [where H = ?H and f = kv_of, OF HF HE, unfolded rm]
    by (simp add: account_def c1_def kv_of_def h_def del: fun_upd_apply dom_fun_upd)
  have us: "lc_usage c1 = (\<Sum>x \<in> dom (lc_heap c1). lh_charge (the (lc_heap c1 x)))"
    using sum_dom_remove [where H = ?H and f = lh_charge, OF HF HE, unfolded rm] ok
    by (simp add: c1_def h_def lru_ok_def del: fun_upd_apply dom_fun_upd)
  have l: "\<forall>x. lc_heap c1 x \<noteq> None \<longleftrightarrow> x \<in> set (lc_lru c1) \<or> held' x > 0"
    using ok by (auto simp: lru_ok_def c1_def held'_def)
  have rf: "\<forall>x hx. lc_heap c1 x = Some hx \<longrightarrow> lh_refs hx = held' x + (if x \<in> set (lc_lru c1) then 1 else 0)"
    using ok e by (auto simp: lru_ok_def c1_def held'_def h_def)
  have nx: "\<forall>x. lc_heap c1 x \<noteq> None \<longrightarrow> x < lc_next c1" using ok unfolding lru_ok_def c1_def by (auto simp: e_def intro: less_SucI)
  have f1: "finite (dom (lc_heap c1))" using f by (simp add: c1_def)
  have d1: "distinct (lc_lru c1)" using ok e(1) by (simp add: lru_ok_def c1_def)
  have fi: "fields c1 = (fields c)(e \<mapsto> (key, hash, v, charge))" by (auto simp: fields_def c1_def h_def fun_eq_iff)
  have mk: "matches ?H key hash x" if "x \<noteq> e" "fields c x = Some (key, hash, w, n)" for x w n
    using that by (auto simp: matches_def fields_def)
  obtain c2 where c2: "(case r of None \<Rightarrow> Some c1 | Some old \<Rightarrow> Unref old (c1\<lparr>lc_lru := remove1 old (lc_lru c1)\<rparr>)) = Some c2"
    "lru_ok held' c2" "set (lc_lru c2) = insert e (set (lc_lru c) - set_option r)" "fields c2 \<subseteq>\<^sub>m fields c1"
    "\<forall>x. held' x > 0 \<longrightarrow> fields c2 x = fields c1 x" "account c2 = account c1" "lc_capacity c2 = lc_capacity c"
  proof (cases r)
    case None
    have "lru_ok held' c1" unfolding lru_ok_def
      using d1 l rf nx f1 us r(2,4) None by (simp add: c1_def)
    then show ?thesis using that [of c1] None by (simp add: c1_def)
  next
    case (Some x)
    then have x: "x \<in> set (lc_lru c)" using r(3) by simp
    then have xe: "x \<noteq> e" "x \<in> set (lc_lru c1)" using e(1) by (auto simp: c1_def)
    have "table_ok (lc_heap c1) (lc_table c1)" using r(2) by (simp add: c1_def)
    moreover have "set (entries_of (lc_table c1)) = set (lc_lru c1) - {x}" using r(4) Some xe(1) by (auto simp: c1_def)
    ultimately obtain c' where c': "Unref x (c1\<lparr>lc_lru := remove1 x (lc_lru c1)\<rparr>) = Some c'" "lru_ok held' c'"
      "lc_lru c' = remove1 x (lc_lru c1)" "fields c' \<subseteq>\<^sub>m fields c1" "\<forall>y. y \<noteq> x \<or> held' x > 0 \<longrightarrow> fields c' y = fields c1 y"
      "account c' = account c1" "lc_capacity c' = lc_capacity c1"
      using drop_entry_ok [OF d1 _ _ xe(2) l rf nx f1 us] by blast
    have "set (lc_lru c') = insert e (set (lc_lru c) - {x})"
      using c'(3) d1 xe by (auto simp: set_remove1_eq) (auto simp: c1_def)
    moreover have "fields c' y = fields c1 y" if "held' y > 0" for y using that c'(5) by (cases "y = x") auto
    moreover have "lc_capacity c' = lc_capacity c" using c'(7) by (simp add: c1_def)
    ultimately show ?thesis using that [of c'] c' Some by simp
  qed
  obtain c' where c': "evict_loop c2 = Some c'" "lru_ok held' c'" "set (lc_lru c') \<subseteq> set (lc_lru c2)" "fields c' \<subseteq>\<^sub>m fields c2"
    "\<forall>x. held' x > 0 \<longrightarrow> fields c' x = fields c2 x" "account c' = account c2" "lc_capacity c' = lc_capacity c2"
    "lc_usage c' \<le> lc_capacity c' \<or> lc_lru c' = []"
    using evict_loop_ok [OF c2(2)] by blast
  have ins: "LRUCache_Insert key hash v charge c = Some (e, c')"
  proof -
    have "(case r of None \<Rightarrow> Some c1 | Some old \<Rightarrow> do { c \<leftarrow> LRU_Remove old c1; Unref old c }) = Some c2"
    proof (cases r)
      case (Some x)
      then have "x \<in> set (lc_lru c1)" using r(3) by (simp add: c1_def)
      then show ?thesis using c2(1) Some by (simp add: LRU_Remove_def)
    qed (use c2(1) in simp)
    then show ?thesis using r(1) c'(1)
      by (simp add: LRUCache_Insert_def e_def [symmetric] h_def [symmetric] LRU_Append_def c1_def Let_def cong: option.case_cong)
  qed
  have "fields c x \<noteq> Some (key, hash, w, n)" if "x \<in> set (lc_lru c') - {e}" for x w n
    using that c'(3) c2(3) r(3) mk [of x w n] by auto
  moreover have "fields c' e = Some (key, hash, v, charge)" using c'(5) c2(5) fi by (simp add: held'_def)
  moreover have "fields c' x = fields c x" if "held x > 0" for x
    using that e(2) c'(5) c2(5) fi by (cases "x = e") (auto simp: held'_def)
  moreover have "fields c' \<subseteq>\<^sub>m fields c1" using map_le_trans [OF c'(4) c2(4)] .
  ultimately show ?thesis
    using ins c' c2 acc fi e(2) by (intro exI [of _ e] exI [of _ c'] conjI) (auto simp: e_def held'_def)
qed

end
