(* ===== verification/LdbCacheContract.thy ===== *)
theory LdbCacheContract
  imports LdbCacheProps
begin

text \<open>
  The contract of the cache interface, what a client may rely on after any sequence of operations,
  and the proof that the sharded cache keeps it.
\<close>

section \<open>The contract\<close>

text \<open>
  \<open>ok P m A c\<close>: the values that a lookup may find satisfy \<open>P\<close> with their key, \<open>m\<close> are the handles in
  the hands of the clients with their values, and \<open>A\<close> is what was inserted since the creation.
\<close>

locale cache_contract =
  fixes ca :: "('c, 'h, 'v) Cache"
    and ok :: "(slice \<Rightarrow> 'v \<Rightarrow> bool) \<Rightarrow> ('h \<times> 'v) multiset \<Rightarrow> (slice \<times> 'v) multiset \<Rightarrow> 'c \<Rightarrow> bool"
  assumes insert_law: "ok P m A c \<Longrightarrow> \<exists>h c'. ca_Insert ca k v n c = Some (h, c') \<and>
      ok (\<lambda>k' v'. if k' = k then v' = v else P k' v') (add_mset (h, v) m) (add_mset (k, v) A) c'"
    and lookup_law: "ok P m A c \<Longrightarrow> \<exists>r c'. ca_Lookup ca k c = Some (r, c') \<and>
      (case r of None \<Rightarrow> ok P m A c' | Some h \<Rightarrow> \<exists>v. P k v \<and> ok P (add_mset (h, v) m) A c')"
    and release_law: "ok P m A c \<Longrightarrow> (h, v) \<in># m \<Longrightarrow> \<exists>c'. ca_Release ca h c = Some c' \<and> ok P (m - {#(h, v)#}) A c'"
    and erase_law: "ok P m A c \<Longrightarrow> \<exists>c'. ca_Erase ca k c = Some c' \<and> ok (\<lambda>k' v'. k' \<noteq> k \<and> P k' v') m A c'"
    and value_law: "ok P m A c \<Longrightarrow> (h, v) \<in># m \<Longrightarrow> ca_Value ca h c = Some v"
    and newid_law: "ok P m A c \<Longrightarrow> ok P m A (snd (ca_NewId ca c))"
    and weaken: "ok P m A c \<Longrightarrow> (\<And>k v. P k v \<Longrightarrow> P' k v) \<Longrightarrow> ok P' m A c"

text \<open>Clients, and what they see: the value that each lookup found.\<close>

datatype 'v cache_op = CInsert slice 'v nat | CLookup slice | CRelease nat | CErase slice

definition cache_step :: "('c, 'h, 'v) Cache \<Rightarrow> 'v cache_op \<Rightarrow> 'c \<times> 'h list \<Rightarrow> ('v option \<times> 'c \<times> 'h list) option" where
  "cache_step ca op s =
     (let (c, hs) = s
      in case op of
        CInsert k v n \<Rightarrow> map_option (\<lambda>(h, c). (None, c, h # hs)) (ca_Insert ca k v n c)
      | CLookup k \<Rightarrow> do {
          (r, c) \<leftarrow> ca_Lookup ca k c;
          case r of None \<Rightarrow> Some (None, c, hs)
          | Some h \<Rightarrow> do { v \<leftarrow> ca_Value ca h c; Some (Some v, c, h # hs) }
        }
      | CRelease i \<Rightarrow>
          if i < length hs then map_option (\<lambda>c. (None, c, take i hs @ drop (Suc i) hs)) (ca_Release ca (hs ! i) c)
          else Some (None, c, hs)
      | CErase k \<Rightarrow> map_option (\<lambda>c. (None, c, hs)) (ca_Erase ca k c))"

primrec cache_run :: "('c, 'h, 'v) Cache \<Rightarrow> 'v cache_op list \<Rightarrow> 'c \<times> 'h list \<Rightarrow> ('v option list \<times> 'c \<times> 'h list) option" where
  "cache_run ca [] s = Some ([], s)"
| "cache_run ca (op # ops) s =
     do { (ob, s) \<leftarrow> cache_step ca op s; (obs, s) \<leftarrow> cache_run ca ops s; Some (ob # obs, s) }"

text \<open>The abstract dictionary: a lookup finds nothing, or the latest value.\<close>

primrec explains :: "(slice \<Rightarrow> 'v option) \<Rightarrow> 'v cache_op list \<Rightarrow> 'v option list \<Rightarrow> bool" where
  "explains D [] obs = (obs = [])"
| "explains D (op # ops) obs =
     (case obs of [] \<Rightarrow> False
      | ob # obs \<Rightarrow>
          (case op of
             CInsert k v n \<Rightarrow> ob = None \<and> explains (D(k \<mapsto> v)) ops obs
           | CLookup k \<Rightarrow> (ob = None \<or> ob = D k) \<and> explains D ops obs
           | CRelease i \<Rightarrow> ob = None \<and> explains D ops obs
           | CErase k \<Rightarrow> ob = None \<and> explains (D(k := None)) ops obs))"

definition inserted :: "'v cache_op list \<Rightarrow> (slice \<times> 'v) multiset" where
  "inserted ops = mset (List.map_filter (\<lambda>op. case op of CInsert k v n \<Rightarrow> Some (k, v) | _ \<Rightarrow> None) ops)"

lemma inserted_simps [simp]:
  "inserted [] = {#}"
  "inserted (CInsert k v n # ops) = add_mset (k, v) (inserted ops)"
  "inserted (CLookup k # ops) = inserted ops"
  "inserted (CRelease i # ops) = inserted ops"
  "inserted (CErase k # ops) = inserted ops"
  by (simp_all add: inserted_def List.map_filter_simps)

context cache_contract begin

lemma step_ok:
  assumes "ok (\<lambda>k v. D k = Some v) (mset (zip hs vs)) A c" and "length vs = length hs"
  shows "\<exists>ob c' hs' vs' D'. cache_step ca op (c, hs) = Some (ob, c', hs') \<and> length vs' = length hs' \<and>
    ok (\<lambda>k v. D' k = Some v) (mset (zip hs' vs')) (inserted [op] + A) c' \<and>
    (\<forall>ops obs. explains D' ops obs \<longrightarrow> explains D (op # ops) (ob # obs))"
proof (cases op)
  case (CInsert k v n)
  obtain h c' where c': "ca_Insert ca k v n c = Some (h, c')"
    "ok (\<lambda>k' v'. if k' = k then v' = v else D k' = Some v') (add_mset (h, v) (mset (zip hs vs))) (add_mset (k, v) A) c'"
    using insert_law [OF assms(1)] by blast
  have "ok (\<lambda>k' v'. (D(k \<mapsto> v)) k' = Some v') (mset (zip (h # hs) (v # vs))) (add_mset (k, v) A) c'"
    using weaken [OF c'(2), of "\<lambda>k' v'. (D(k \<mapsto> v)) k' = Some v'"] by (simp split: if_splits)
  then show ?thesis using CInsert c'(1) assms(2)
    by (intro exI [of _ None] exI [of _ c'] exI [of _ "h # hs"] exI [of _ "v # vs"] exI [of _ "D(k \<mapsto> v)"]) (simp add: cache_step_def)
next
  case (CLookup k)
  obtain r c' where c': "ca_Lookup ca k c = Some (r, c')"
    "case r of None \<Rightarrow> ok (\<lambda>k v. D k = Some v) (mset (zip hs vs)) A c'
     | Some h \<Rightarrow> \<exists>v. D k = Some v \<and> ok (\<lambda>k v. D k = Some v) (add_mset (h, v) (mset (zip hs vs))) A c'"
    using lookup_law [OF assms(1), of k] by blast
  show ?thesis
  proof (cases r)
    case None
    then show ?thesis using CLookup c' assms(2)
      by (intro exI [of _ None] exI [of _ c'] exI [of _ hs] exI [of _ vs] exI [of _ D]) (simp add: cache_step_def)
  next
    case (Some h)
    then obtain v where v: "D k = Some v" "ok (\<lambda>k v. D k = Some v) (mset (zip (h # hs) (v # vs))) A c'" using c'(2) by auto
    then have "ca_Value ca h c' = Some v" using value_law [OF v(2), of h v] by simp
    then show ?thesis using CLookup c' Some v assms(2)
      by (intro exI [of _ "Some v"] exI [of _ c'] exI [of _ "h # hs"] exI [of _ "v # vs"] exI [of _ D]) (simp add: cache_step_def)
  qed
next
  case (CRelease i)
  show ?thesis
  proof (cases "i < length hs")
    case False
    then show ?thesis using CRelease assms
      by (intro exI [of _ None] exI [of _ c] exI [of _ hs] exI [of _ vs] exI [of _ D]) (simp add: cache_step_def)
  next
    case True
    let ?hs = "take i hs @ drop (Suc i) hs" and ?vs = "take i vs @ drop (Suc i) vs"
    have z: "zip hs vs = take i (zip hs vs) @ (hs ! i, vs ! i) # drop (Suc i) (zip hs vs)"
      using True assms(2) by (subst id_take_nth_drop [of i]) simp_all
    have "zip ?hs ?vs = take i (zip hs vs) @ drop (Suc i) (zip hs vs)"
      using True assms(2) by (simp add: zip_append take_zip drop_zip)
    then have m: "mset (zip hs vs) = add_mset (hs ! i, vs ! i) (mset (zip ?hs ?vs))" by (subst z) simp
    obtain c' where "ca_Release ca (hs ! i) c = Some c'" "ok (\<lambda>k v. D k = Some v) (mset (zip ?hs ?vs)) A c'"
      using release_law [OF assms(1), of "hs ! i" "vs ! i"] m by auto
    then show ?thesis using CRelease True assms(2)
      by (intro exI [of _ None] exI [of _ c'] exI [of _ ?hs] exI [of _ ?vs] exI [of _ D]) (simp add: cache_step_def)
  qed
next
  case (CErase k)
  obtain c' where c': "ca_Erase ca k c = Some c'" "ok (\<lambda>k' v'. k' \<noteq> k \<and> D k' = Some v') (mset (zip hs vs)) A c'"
    using erase_law [OF assms(1)] by blast
  have "ok (\<lambda>k' v'. (D(k := None)) k' = Some v') (mset (zip hs vs)) A c'"
    using weaken [OF c'(2), of "\<lambda>k' v'. (D(k := None)) k' = Some v'"] by simp
  then show ?thesis using CErase c'(1) assms(2)
    by (intro exI [of _ None] exI [of _ c'] exI [of _ hs] exI [of _ vs] exI [of _ "D(k := None)"]) (simp add: cache_step_def)
qed

lemma run_ok:
  assumes "ok (\<lambda>k v. D k = Some v) (mset (zip hs vs)) A c" and "length vs = length hs"
  shows "\<exists>obs c' hs' vs' D'. cache_run ca ops (c, hs) = Some (obs, c', hs') \<and> length vs' = length hs' \<and>
    ok (\<lambda>k v. D' k = Some v) (mset (zip hs' vs')) (inserted ops + A) c' \<and> explains D ops obs"
  using assms
proof (induction ops arbitrary: c hs vs A D)
  case Nil
  then show ?case by (intro exI [of _ "[]"] exI [of _ c] exI [of _ hs] exI [of _ vs] exI [of _ D]) simp
next
  case (Cons op ops)
  obtain ob c1 hs1 vs1 D1 where s: "cache_step ca op (c, hs) = Some (ob, c1, hs1)" "length vs1 = length hs1"
    "ok (\<lambda>k v. D1 k = Some v) (mset (zip hs1 vs1)) (inserted [op] + A) c1"
    "\<forall>ops obs. explains D1 ops obs \<longrightarrow> explains D (op # ops) (ob # obs)"
    using step_ok [OF Cons.prems] by blast
  obtain obs c' hs' vs' D' where r: "cache_run ca ops (c1, hs1) = Some (obs, c', hs')" "length vs' = length hs'"
    "ok (\<lambda>k v. D' k = Some v) (mset (zip hs' vs')) (inserted ops + (inserted [op] + A)) c'" "explains D1 ops obs"
    using Cons.IH [OF s(3,2)] by blast
  have "inserted ops + (inserted [op] + A) = inserted (op # ops) + A" by (cases op) simp_all
  note r(3) [unfolded this]
  then show ?case using s(1,4) r(1,2,4)
    by (intro exI [of _ "ob # obs"] exI [of _ c'] exI [of _ hs'] exI [of _ vs'] exI [of _ D']) (simp del: explains.simps)
qed

end

section \<open>The sharded cache\<close>

lemma kNumShards_val: "kNumShards = 16" by (simp add: kNumShards_def kNumShardBits_def push_bit_eq_mult)

lemma Shard_less: "Shard s < 16"
proof -
  have "unat s < 16 * 2 ^ 28" using unsigned_less [of s, where ?'a = nat] by simp
  then show ?thesis by (simp add: Shard_def kNumShardBits_def unat_drop_bit less_mult_imp_div_less)
qed

definition held_at :: "(cache_handle \<times> 'v) multiset \<Rightarrow> nat \<Rightarrow> nat \<Rightarrow> nat" where
  "held_at m i e = size (filter_mset (\<lambda>(h, v). Shard (fst h) = i \<and> snd h = e) m)"

definition shard_ok :: "(slice \<Rightarrow> 'v \<Rightarrow> bool) \<Rightarrow> (cache_handle \<times> 'v) multiset \<Rightarrow> nat \<Rightarrow> 'v LRUCache \<Rightarrow> bool" where
  "shard_ok P m i c \<longleftrightarrow>
     lru_ok (held_at m i) c \<and>
     (\<forall>e key s v n. fields c e = Some (key, s, v, n) \<longrightarrow> s = HashSlice key \<and> Shard s = i) \<and>
     (\<forall>e \<in> set (lc_lru c). \<forall>key s v n. fields c e = Some (key, s, v, n) \<longrightarrow> P key v) \<and>
     (\<forall>s e v. ((s, e), v) \<in># m \<longrightarrow> Shard s = i \<longrightarrow> (\<exists>key n. fields c e = Some (key, s, v, n)))"

definition sharded_ok :: "(slice \<Rightarrow> 'v \<Rightarrow> bool) \<Rightarrow> (cache_handle \<times> 'v) multiset \<Rightarrow> (slice \<times> 'v) multiset \<Rightarrow> 'v ShardedLRUCache \<Rightarrow> bool" where
  "sharded_ok P m A c \<longleftrightarrow>
     length (sc_shard c) = 16 \<and> (\<forall>i < 16. shard_ok P m i (sc_shard c ! i)) \<and> A = sum_list (map account (sc_shard c))"

lemma shard_okI:
  assumes "lru_ok (held_at m i) c"
    and "\<And>e key s v n. fields c e = Some (key, s, v, n) \<Longrightarrow> s = HashSlice key \<and> Shard s = i"
    and "\<And>e key s v n. e \<in> set (lc_lru c) \<Longrightarrow> fields c e = Some (key, s, v, n) \<Longrightarrow> P key v"
    and "\<And>s e v. ((s, e), v) \<in># m \<Longrightarrow> Shard s = i \<Longrightarrow> \<exists>key n. fields c e = Some (key, s, v, n)"
  shows "shard_ok P m i c"
  unfolding shard_ok_def using assms by (intro conjI allI ballI impI) simp_all

lemma shard_okD:
  assumes "shard_ok P m i c"
  shows "lru_ok (held_at m i) c"
    and "fields c e = Some (key, s, v, n) \<Longrightarrow> s = HashSlice key \<and> Shard s = i"
    and "e \<in> set (lc_lru c) \<Longrightarrow> fields c e = Some (key, s, v, n) \<Longrightarrow> P key v"
    and "((s, e), v) \<in># m \<Longrightarrow> Shard s = i \<Longrightarrow> \<exists>key n. fields c e = Some (key, s, v, n)"
proof -
  from assms have a: "lru_ok (held_at m i) c"
    "\<forall>e key s v n. fields c e = Some (key, s, v, n) \<longrightarrow> s = HashSlice key \<and> Shard s = i"
    "\<forall>e \<in> set (lc_lru c). \<forall>key s v n. fields c e = Some (key, s, v, n) \<longrightarrow> P key v"
    "\<forall>s e v. ((s, e), v) \<in># m \<longrightarrow> Shard s = i \<longrightarrow> (\<exists>key n. fields c e = Some (key, s, v, n))"
    unfolding shard_ok_def by - (elim conjE; assumption)+
  show "lru_ok (held_at m i) c" by (rule a(1))
  show "fields c e = Some (key, s, v, n) \<Longrightarrow> s = HashSlice key \<and> Shard s = i" by (rule a(2) [rule_format])
  show "e \<in> set (lc_lru c) \<Longrightarrow> fields c e = Some (key, s, v, n) \<Longrightarrow> P key v" by (rule a(3) [rule_format])
  show "((s, e), v) \<in># m \<Longrightarrow> Shard s = i \<Longrightarrow> \<exists>key n. fields c e = Some (key, s, v, n)" by (rule a(4) [rule_format])
qed

lemma held_at_add: "held_at (add_mset ((s, e), v) m) i = (if Shard s = i then (held_at m i)(e := held_at m i e + 1) else held_at m i)"
  by (auto simp: held_at_def fun_eq_iff)

lemma held_at_pos: "((s, e), v) \<in># m \<Longrightarrow> held_at m (Shard s) e > 0"
  by (metis held_at_add insert_DiffM fun_upd_same less_add_one less_nat_zero_code not_gr_zero)

lemma held_at_remove:
  assumes "((s, e), v) \<in># m"
  shows "held_at (m - {#((s, e), v)#}) i = (if Shard s = i then (held_at m i)(e := held_at m i e - 1) else held_at m i)"
proof -
  obtain m' where m': "m = add_mset ((s, e), v) m'" using assms by (metis insert_DiffM)
  show ?thesis unfolding m' held_at_add by (auto simp: fun_eq_iff)
qed

text \<open>A step of one shard.\<close>

lemma sharded_update:
  assumes ok: "sharded_ok P m A c" and i: "i < 16" and s': "shard_ok P' m' i s'"
    and other: "\<And>j. j \<noteq> i \<Longrightarrow> held_at m' j = held_at m j"
    and weak: "\<And>k v. Shard (HashSlice k) \<noteq> i \<Longrightarrow> P k v \<Longrightarrow> P' k v"
    and sub: "\<And>s e v. Shard s \<noteq> i \<Longrightarrow> ((s, e), v) \<in># m' \<Longrightarrow> ((s, e), v) \<in># m"
    and acc: "account s' = account (sc_shard c ! i) + B"
  shows "sharded_ok P' m' (A + B) (c\<lparr>sc_shard := (sc_shard c)[i := s']\<rparr>)"
proof -
  have l: "length (sc_shard c) = 16" using ok by (simp add: sharded_ok_def)
  have "shard_ok P' m' j ((sc_shard c)[i := s'] ! j)" if j: "j < 16" for j
  proof (cases "j = i")
    case True
    then show ?thesis using s' l i by simp
  next
    case False
    have o: "shard_ok P m j (sc_shard c ! j)" using ok j by (simp add: sharded_ok_def)
    have "shard_ok P' m' j (sc_shard c ! j)"
    proof (rule shard_okI)
      show "lru_ok (held_at m' j) (sc_shard c ! j)" unfolding other [OF False] by (rule shard_okD(1) [OF o])
      show "s = HashSlice key \<and> Shard s = j" if "fields (sc_shard c ! j) e = Some (key, s, v, n)" for e key s v n
        by (rule shard_okD(2) [OF o that])
      show "P' key v" if "e \<in> set (lc_lru (sc_shard c ! j))" "fields (sc_shard c ! j) e = Some (key, s, v, n)" for e key s v n
        using shard_okD(3) [OF o that] shard_okD(2) [OF o that(2)] False by (intro weak) auto
      show "\<exists>key n. fields (sc_shard c ! j) e = Some (key, s, v, n)" if "((s, e), v) \<in># m'" "Shard s = j" for s e v
        using shard_okD(4) [OF o _ that(2)] sub [OF _ that(1)] that(2) False by simp
    qed
    then show ?thesis using False by simp
  qed
  moreover have "sum_list (map account ((sc_shard c)[i := s'])) = sum_list (map account (sc_shard c)) + B"
  proof -
    have "sc_shard c = take i (sc_shard c) @ sc_shard c ! i # drop (Suc i) (sc_shard c)"
      using l i by (simp add: id_take_nth_drop)
    then have "sum_list (map account (sc_shard c)) =
        sum_list (map account (take i (sc_shard c))) + (account (sc_shard c ! i) + sum_list (map account (drop (Suc i) (sc_shard c))))"
      by (metis list.simps(9) map_append sum_list.Cons sum_list.append)
    then show ?thesis using l i acc by (simp add: upd_conv_take_nth_drop)
  qed
  ultimately show ?thesis using ok l by (simp add: sharded_ok_def)
qed

lemma map_le_Some: "f \<subseteq>\<^sub>m g \<Longrightarrow> f x = Some y \<Longrightarrow> g x = Some y"
  by (metis domI map_le_def)

lemma sharded_shard:
  assumes "sharded_ok P m A c" and "i < 16"
  shows "shard_ok P m i (sc_shard c ! i)" and "lru_ok (held_at m i) (sc_shard c ! i)"
  using assms by (simp_all add: sharded_ok_def shard_ok_def)

lemma Sharded_Insert_law:
  assumes ok: "sharded_ok P m A c"
  shows "\<exists>h c'. Sharded_Insert k v n c = Some (h, c') \<and>
    sharded_ok (\<lambda>k' v'. if k' = k then v' = v else P k' v') (add_mset (h, v) m) (add_mset (k, v) A) c'"
proof -
  let ?s = "HashSlice k" and ?P = "\<lambda>k' v'. if k' = k then v' = v else P k' v'"
  let ?c = "sc_shard c ! Shard ?s"
  have o: "shard_ok P m (Shard ?s) ?c" using sharded_shard(1) [OF ok Shard_less] .
  obtain e c' where i: "LRUCache_Insert k ?s v n ?c = Some (e, c')" "held_at m (Shard ?s) e = 0"
    "lru_ok ((held_at m (Shard ?s))(e := 1)) c'" "set (lc_lru c') \<subseteq> insert e (set (lc_lru ?c))"
    "\<forall>x \<in> set (lc_lru c') - {e}. \<forall>w n. fields ?c x \<noteq> Some (k, ?s, w, n)"
    "fields c' \<subseteq>\<^sub>m (fields ?c)(e \<mapsto> (k, ?s, v, n))" "fields c' e = Some (k, ?s, v, n)"
    "\<forall>x. held_at m (Shard ?s) x > 0 \<longrightarrow> fields c' x = fields ?c x" "account c' = add_mset (k, v) (account ?c)"
    using LRUCache_Insert_ok [OF sharded_shard(2) [OF ok Shard_less], of k ?s v n] by blast
  have old: "fields c' x = Some y \<Longrightarrow> x \<noteq> e \<Longrightarrow> fields ?c x = Some y" for x y
    using map_le_Some [OF i(6)] by (metis fun_upd_apply)
  have "shard_ok ?P (add_mset ((?s, e), v) m) (Shard ?s) c'"
  proof (rule shard_okI)
    show "lru_ok (held_at (add_mset ((?s, e), v) m) (Shard ?s)) c'" using i(2,3) by (simp add: held_at_add)
    show "s = HashSlice key \<and> Shard s = Shard ?s" if "fields c' x = Some (key, s, w, p)" for x key s w p
    proof (cases "x = e")
      case True
      then show ?thesis using that i(7) by auto
    next
      case False
      show ?thesis by (rule shard_okD(2) [OF o old [OF that False]])
    qed
  next
    fix x key s w p
    assume x: "x \<in> set (lc_lru c')" and f: "fields c' x = Some (key, s, w, p)"
    show "?P key w"
    proof (cases "x = e")
      case True
      then show ?thesis using f i(7) by simp
    next
      case False
      have x': "x \<in> set (lc_lru ?c)" using x i(4) False by auto
      have "P key w" by (rule shard_okD(3) [OF o x' old [OF f False]])
      moreover have "s = HashSlice key" using shard_okD(2) [OF o old [OF f False]] by (rule conjunct1)
      then have "key \<noteq> k" using i(5) x False old [OF f False] by blast
      ultimately show ?thesis by simp
    qed
  next
    fix s x w
    assume h: "((s, x), w) \<in># add_mset ((?s, e), v) m" and s: "Shard s = Shard ?s"
    show "\<exists>key n. fields c' x = Some (key, s, w, n)"
    proof (cases "((s, x), w) \<in># m")
      case True
      then have "fields c' x = fields ?c x" using i(8) held_at_pos [OF True] s by simp
      then show ?thesis using shard_okD(4) [OF o True s] by simp
    qed (use h i(7) in auto)
  qed
  then have "sharded_ok ?P (add_mset ((?s, e), v) m) (A + {#(k, v)#}) (c\<lparr>sc_shard := (sc_shard c)[Shard ?s := c']\<rparr>)"
    by (rule sharded_update [OF ok Shard_less]) (use i(9) in \<open>auto simp: held_at_add\<close>)
  then show ?thesis using i(1) by (simp add: Sharded_Insert_def on_shard_def Let_def)
qed

lemma Sharded_Lookup_law:
  assumes ok: "sharded_ok P m A c"
  shows "\<exists>r c'. Sharded_Lookup k c = Some (r, c') \<and>
    (case r of None \<Rightarrow> sharded_ok P m A c' | Some h \<Rightarrow> \<exists>v. P k v \<and> sharded_ok P (add_mset (h, v) m) A c')"
proof -
  let ?s = "HashSlice k"
  let ?c = "sc_shard c ! Shard ?s"
  have o: "shard_ok P m (Shard ?s) ?c" using sharded_shard(1) [OF ok Shard_less] .
  obtain r c' where i: "LRUCache_Lookup k ?s ?c = Some (r, c')"
    "lru_ok (case r of None \<Rightarrow> held_at m (Shard ?s) | Some e \<Rightarrow> (held_at m (Shard ?s))(e := held_at m (Shard ?s) e + 1)) c'"
    "set (lc_lru c') = set (lc_lru ?c)" "fields c' = fields ?c" "account c' = account ?c"
    "\<forall>e. r = Some e \<longleftrightarrow> e \<in> set (lc_lru ?c) \<and> (\<exists>v n. fields ?c e = Some (k, ?s, v, n))"
    using LRUCache_Lookup_ok [OF sharded_shard(2) [OF ok Shard_less], of k ?s] by blast
  let ?c' = "c\<lparr>sc_shard := (sc_shard c)[Shard ?s := c']\<rparr>"
  have L: "Sharded_Lookup k c = Some (map_option (Pair ?s) r, ?c')"
    using i(1) by (simp add: Sharded_Lookup_def on_shard_def Let_def)
  show ?thesis
  proof (cases r)
    case None
    have "shard_ok P m (Shard ?s) c'"
    proof (rule shard_okI, unfold i(3,4))
      show "lru_ok (held_at m (Shard ?s)) c'" using i(2) None by simp
    qed (use shard_okD(2-4) [OF o] in blast)+
    then have "sharded_ok P m (A + {#}) ?c'" by (rule sharded_update [OF ok Shard_less]) (use i(5) in auto)
    then show ?thesis using L None by simp
  next
    case (Some e)
    then obtain v n where v: "e \<in> set (lc_lru ?c)" "fields ?c e = Some (k, ?s, v, n)" using i(6) by blast
    then have "P k v" using shard_okD(3) [OF o] by blast
    moreover have "shard_ok P (add_mset ((?s, e), v) m) (Shard ?s) c'"
    proof (rule shard_okI)
      show "\<exists>key n. fields c' x = Some (key, s, w, n)" if "((s, x), w) \<in># add_mset ((?s, e), v) m" "Shard s = Shard ?s" for s x w
      proof (cases "((s, x), w) \<in># m")
        case True
        show ?thesis unfolding i(4) by (rule shard_okD(4) [OF o True that(2)])
      qed (use that(1) v(2) i(4) in auto)
      show "lru_ok (held_at (add_mset ((?s, e), v) m) (Shard ?s)) c'" using i(2) Some by (simp add: held_at_add)
    qed (unfold i(3,4), (use shard_okD(2,3) [OF o] in blast)+)
    then have "sharded_ok P (add_mset ((?s, e), v) m) (A + {#}) ?c'"
      by (rule sharded_update [OF ok Shard_less]) (use i(5) in \<open>auto simp: held_at_add\<close>)
    ultimately show ?thesis using L Some by auto
  qed
qed

lemma Sharded_Release_law:
  assumes ok: "sharded_ok P m A c" and h: "(h, v) \<in># m"
  shows "\<exists>c'. Sharded_Release h c = Some c' \<and> sharded_ok P (m - {#(h, v)#}) A c'"
proof -
  obtain s e where he: "h = (s, e)" by (cases h)
  let ?c = "sc_shard c ! Shard s" and ?m = "m - {#((s, e), v)#}"
  have o: "shard_ok P m (Shard s) ?c" using sharded_shard(1) [OF ok Shard_less] .
  have m: "((s, e), v) \<in># m" using h he by simp
  obtain c' where i: "LRUCache_Release e ?c = Some c'" "lru_ok ((held_at m (Shard s))(e := held_at m (Shard s) e - 1)) c'"
    "lc_lru c' = lc_lru ?c" "fields c' \<subseteq>\<^sub>m fields ?c"
    "\<forall>x. x \<in> set (lc_lru ?c) \<or> x \<noteq> e \<or> held_at m (Shard s) e > 1 \<longrightarrow> fields c' x = fields ?c x" "account c' = account ?c"
    using LRUCache_Release_ok [OF sharded_shard(2) [OF ok Shard_less] held_at_pos [OF m]] by blast
  have old: "fields c' x = Some y \<Longrightarrow> fields ?c x = Some y" for x y
    by (rule map_le_Some [OF i(4)])
  have "shard_ok P ?m (Shard s) c'"
  proof (rule shard_okI)
    show "lru_ok (held_at ?m (Shard s)) c'" using i(2) by (simp add: held_at_remove [OF m])
  next
    fix x w s'
    assume x: "((s', x), w) \<in># ?m" and s': "Shard s' = Shard s"
    have "fields c' x = fields ?c x"
    proof (cases "x = e")
      case True
      have "held_at ?m (Shard s) e > 0" using held_at_pos [OF x] s' True by simp
      then have "held_at m (Shard s) e > 1" by (simp add: held_at_remove [OF m])
      then show ?thesis using i(5) True by blast
    qed (use i(5) in blast)
    then show "\<exists>key n. fields c' x = Some (key, s', w, n)"
      using shard_okD(4) [OF o in_diffD [OF x] s'] by simp
  qed (unfold i(3), (use shard_okD(2,3) [OF o] old in blast)+)
  then have "sharded_ok P ?m (A + {#}) (c\<lparr>sc_shard := (sc_shard c)[Shard s := c']\<rparr>)"
    by (rule sharded_update [OF ok Shard_less]) (use i(6) in \<open>auto simp: held_at_remove [OF m] dest: in_diffD\<close>)
  then show ?thesis using i(1) he by (simp add: Sharded_Release_def on_shard_def)
qed

lemma Sharded_Erase_law:
  assumes ok: "sharded_ok P m A c"
  shows "\<exists>c'. Sharded_Erase k c = Some c' \<and> sharded_ok (\<lambda>k' v'. k' \<noteq> k \<and> P k' v') m A c'"
proof -
  let ?s = "HashSlice k" and ?P = "\<lambda>k' v'. k' \<noteq> k \<and> P k' v'"
  let ?c = "sc_shard c ! Shard ?s"
  have o: "shard_ok P m (Shard ?s) ?c" using sharded_shard(1) [OF ok Shard_less] .
  obtain c' where i: "LRUCache_Erase k ?s ?c = Some c'" "lru_ok (held_at m (Shard ?s)) c'" "set (lc_lru c') \<subseteq> set (lc_lru ?c)"
    "\<forall>e \<in> set (lc_lru c'). \<forall>v n. fields ?c e \<noteq> Some (k, ?s, v, n)" "fields c' \<subseteq>\<^sub>m fields ?c"
    "\<forall>x. held_at m (Shard ?s) x > 0 \<longrightarrow> fields c' x = fields ?c x" "account c' = account ?c"
    using LRUCache_Erase_ok [OF sharded_shard(2) [OF ok Shard_less], of k ?s] by blast
  have old: "fields c' x = Some y \<Longrightarrow> fields ?c x = Some y" for x y
    by (rule map_le_Some [OF i(5)])
  have "shard_ok ?P m (Shard ?s) c'"
  proof (rule shard_okI)
    show "s = HashSlice key \<and> Shard s = Shard ?s" if "fields c' x = Some (key, s, w, p)" for x key s w p
      by (rule shard_okD(2) [OF o old [OF that]])
    show "?P key w" if "x \<in> set (lc_lru c')" "fields c' x = Some (key, s, w, p)" for x key s w p
    proof
      show "P key w" using shard_okD(3) [OF o _ old [OF that(2)]] i(3) that(1) by blast
      have "s = HashSlice key" using shard_okD(2) [OF o old [OF that(2)]] by (rule conjunct1)
      then show "key \<noteq> k" using i(4) that(1) old [OF that(2)] by blast
    qed
    show "\<exists>key n. fields c' x = Some (key, s, w, n)" if h: "((s, x), w) \<in># m" "Shard s = Shard ?s" for s x w
      using shard_okD(4) [OF o h] i(6) held_at_pos [OF h(1)] h(2) by simp
  qed (rule i(2))
  then have "sharded_ok ?P m (A + {#}) (c\<lparr>sc_shard := (sc_shard c)[Shard ?s := c']\<rparr>)"
    by (rule sharded_update [OF ok Shard_less]) (use i(7) in auto)
  then show ?thesis using i(1) by (simp add: Sharded_Erase_def on_shard_def Let_def)
qed

interpretation lru: cache_contract ShardedLRUCache_ops sharded_ok
proof unfold_locales
  show "ca_Value ShardedLRUCache_ops h c = Some v" if ok: "sharded_ok P m A c" and h: "(h, v) \<in># m"
    for P m A and c :: "'a ShardedLRUCache" and h v
  proof -
    obtain s e where he: "h = (s, e)" by (cases h)
    obtain key n where "fields (sc_shard c ! Shard s) e = Some (key, s, v, n)"
      using shard_okD(4) [OF sharded_shard(1) [OF ok Shard_less [of s]]] h he by blast
    then show ?thesis using he by (auto simp: ShardedLRUCache_ops_def Sharded_Value_def fields_def)
  qed
  show "sharded_ok P m A (snd (ca_NewId ShardedLRUCache_ops c))" if "sharded_ok P m A c" for P m A and c :: "'a ShardedLRUCache"
    using that by (simp add: ShardedLRUCache_ops_def Sharded_NewId_def sharded_ok_def Let_def)
  show "sharded_ok P' m A c" if "sharded_ok P m A c" "\<And>k v. P k v \<Longrightarrow> P' k v" for P P' m A and c :: "'a ShardedLRUCache"
  proof -
    have "shard_ok P' m i (sc_shard c ! i)" if "shard_ok P m i (sc_shard c ! i)" for i
      by (rule shard_okI; (rule shard_okD [OF that] \<open>\<And>k v. P k v \<Longrightarrow> P' k v\<close>; assumption?)+)
    then show ?thesis using that(1) by (simp add: sharded_ok_def)
  qed
next
  fix P :: "slice \<Rightarrow> 'a \<Rightarrow> bool" and m A and c :: "'a ShardedLRUCache" and k
  assume ok: "sharded_ok P m A c"
  show "\<exists>h c'. ca_Insert ShardedLRUCache_ops k v n c = Some (h, c') \<and>
      sharded_ok (\<lambda>k' v'. if k' = k then v' = v else P k' v') (add_mset (h, v) m) (add_mset (k, v) A) c'" for v n
    using Sharded_Insert_law [OF ok] unfolding ShardedLRUCache_ops_def Cache.simps .
  show "\<exists>r c'. ca_Lookup ShardedLRUCache_ops k c = Some (r, c') \<and>
      (case r of None \<Rightarrow> sharded_ok P m A c' | Some h \<Rightarrow> \<exists>v. P k v \<and> sharded_ok P (add_mset (h, v) m) A c')"
    using Sharded_Lookup_law [OF ok] unfolding ShardedLRUCache_ops_def Cache.simps .
  show "\<exists>c'. ca_Release ShardedLRUCache_ops h c = Some c' \<and> sharded_ok P (m - {#(h, v)#}) A c'" if "(h, v) \<in># m" for h v
    using Sharded_Release_law [OF ok that] unfolding ShardedLRUCache_ops_def Cache.simps .
  show "\<exists>c'. ca_Erase ShardedLRUCache_ops k c = Some c' \<and> sharded_ok (\<lambda>k' v'. k' \<noteq> k \<and> P k' v') m A c'"
    using Sharded_Erase_law [OF ok] unfolding ShardedLRUCache_ops_def Cache.simps .
qed

text \<open>A new cache is empty.\<close>

lemma new_LRUCache_ok: "lru_ok (\<lambda>_. 0) (SetCapacity n new_LRUCache)"
proof -
  have "table_ok (\<lambda>_. None) new_HandleTable"
    unfolding table_ok_def by (auto simp: new_HandleTable_def entries_of_def intro: exI [of _ 2])
  then show ?thesis by (simp add: lru_ok_def SetCapacity_def new_LRUCache_def entries_of_def new_HandleTable_def)
qed

lemma NewLRUCache_ok: "sharded_ok (\<lambda>_ _. False) {#} {#} (NewLRUCache n :: 'v ShardedLRUCache)"
proof -
  have h: "held_at ({#} :: (cache_handle \<times> 'v) multiset) i = (\<lambda>_. 0)" for i by (simp add: held_at_def fun_eq_iff)
  have "shard_ok (\<lambda>_ _. False) {#} i (SetCapacity k new_LRUCache :: 'v LRUCache)" for i k
    by (rule shard_okI) (use new_LRUCache_ok in \<open>auto simp: h fields_def SetCapacity_def new_LRUCache_def\<close>)
  moreover have "account (SetCapacity k new_LRUCache :: 'v LRUCache) = {#}" for k
    by (simp add: account_def SetCapacity_def new_LRUCache_def)
  moreover have "sum_list (map (\<lambda>_. {#} :: (slice \<times> 'v) multiset) xs) = {#}" for xs :: "nat list" by (induction xs) simp_all
  ultimately show ?thesis by (simp add: sharded_ok_def NewLRUCache_def kNumShards_val Let_def o_def)
qed

text \<open>When no handle is left the destructors pass every entry to its deleter.\<close>

lemma destroy_loop_ok:
  "distinct es \<Longrightarrow> set es = dom (lc_heap c) \<Longrightarrow> \<forall>e \<in> set es. map_option lh_refs (lc_heap c e) = Some 1 \<Longrightarrow>
   lc_usage c = (\<Sum>x \<in> dom (lc_heap c). lh_charge (the (lc_heap c x))) \<Longrightarrow>
   \<exists>c'. destroy_loop es c = Some c' \<and> mset (lc_deleted c') = account c \<and> lc_usage c' = 0"
proof (induction es arbitrary: c)
  case Nil
  then show ?case by (simp add: account_def)
next
  case (Cons e es)
  obtain h where h: "lc_heap c e = Some h" "lh_refs h = 0 + 1" using Cons.prems(3) by auto
  have f: "finite (dom (lc_heap c))" using Cons.prems(2) by (metis List.finite_set)
  obtain c1 where c1: "Unref e c = Some c1" "lc_heap c1 = (lc_heap c)(e := None)"
    "lc_usage c1 = (\<Sum>x \<in> dom (lc_heap c1). lh_charge (the (lc_heap c1 x)))" "account c1 = account c"
    using Unref_ok [OF h f Cons.prems(4)] by auto
  have "set es = dom (lc_heap c1)" using Cons.prems(1,2) c1(2) by auto
  moreover have "\<forall>x \<in> set es. map_option lh_refs (lc_heap c1 x) = Some 1" using Cons.prems(1,3) c1(2) by auto
  ultimately obtain c' where "destroy_loop es c1 = Some c'" "mset (lc_deleted c') = account c1" "lc_usage c' = 0"
    using Cons.IH [of c1] Cons.prems(1) c1(3) by auto
  then show ?case using h c1 by simp
qed

lemma LRUCache_destroy_ok:
  assumes "lru_ok (\<lambda>_. 0) c"
  shows "\<exists>c'. LRUCache_destroy c = Some c' \<and> mset (lc_deleted c') = account c \<and> lc_usage c' = 0"
proof -
  have "set (lc_lru c) = dom (lc_heap c)" using assms by (auto simp: lru_ok_def)
  moreover have "map_option lh_refs (lc_heap c e) = Some 1" if e: "e \<in> set (lc_lru c)" for e
  proof -
    obtain h where "lc_heap c e = Some h" using lru_ok_matches [OF assms e] by blast
    then show ?thesis using assms e by (simp add: lru_ok_def)
  qed
  ultimately show ?thesis unfolding LRUCache_destroy_def
    using assms by (intro destroy_loop_ok) (auto simp: lru_ok_def)
qed

lemma those_map_all2:
  "\<forall>x \<in> set xs. \<exists>y. f x = Some y \<and> Q x y \<Longrightarrow> \<exists>ys. those (map f xs) = Some ys \<and> list_all2 Q xs ys"
  by (induction xs) auto

lemma ShardedLRUCache_destroy_ok:
  assumes "sharded_ok P {#} A c"
  shows "\<exists>ss. ShardedLRUCache_destroy c = Some ss \<and> sum_list (map (\<lambda>s. mset (lc_deleted s)) ss) = A"
proof -
  have h: "held_at {#} i = (\<lambda>_. 0)" for i by (simp add: held_at_def fun_eq_iff)
  have l: "length (sc_shard c) = 16" and A: "A = sum_list (map account (sc_shard c))" using assms by (simp_all add: sharded_ok_def)
  have "lru_ok (\<lambda>_. 0) s" if "s \<in> set (sc_shard c)" for s
    using that sharded_shard(2) [OF assms] l by (auto simp: in_set_conv_nth h)
  then have "\<forall>s \<in> set (rev (sc_shard c)). \<exists>s'. LRUCache_destroy s = Some s' \<and> mset (lc_deleted s') = account s"
    using LRUCache_destroy_ok by fastforce
  from those_map_all2 [OF this] obtain ss where ss: "those (map LRUCache_destroy (rev (sc_shard c))) = Some ss"
    "list_all2 (\<lambda>s s'. mset (lc_deleted s') = account s) (rev (sc_shard c)) ss" by blast
  have "sum_list (map (\<lambda>s. mset (lc_deleted s)) ss) = sum_list (map account (rev (sc_shard c)))"
    using ss(2) by (induction rule: list_all2_induct) auto
  also have "\<dots> = A" unfolding A by (simp add: rev_map [symmetric] sum_list_rev)
  finally have "sum_list (map (\<lambda>s. mset (lc_deleted s)) (rev ss)) = A" by (simp add: rev_map [symmetric] sum_list_rev)
  then show ?thesis using ss(1) by (auto simp: ShardedLRUCache_destroy_def)
qed

section \<open>Properties\<close>

lemma cache_run_ok:
  "\<exists>obs c hs vs D. cache_run ShardedLRUCache_ops ops (NewLRUCache n, []) = Some (obs, c, hs) \<and> length vs = length hs \<and>
     sharded_ok (\<lambda>k v. D k = Some v) (mset (zip hs vs)) (inserted ops) c \<and> explains (\<lambda>_. None) ops obs"
  using lru.run_ok [of "\<lambda>_. None" "[]" "[]" "{#}" "NewLRUCache n" ops] NewLRUCache_ok [of n] by simp

text \<open>
  C5: the LRU cache is a partial view of a dictionary, and never uses an entry that was freed. Whatever
  sequence of insertions, lookups, releases of handles that the client still holds and erasures is
  performed on a new cache, of any capacity, every operation is defined (no failing assert, no access
  to a deleted entry, in particular when the value of a handle is read), and each lookup finds nothing
  or exactly the value that was last inserted under its key and not erased since.
\<close>
theorem lru_cache_correct:
  "\<exists>obs s. cache_run ShardedLRUCache_ops ops (NewLRUCache n, []) = Some (obs, s) \<and> explains (\<lambda>_. None) ops obs"
  using cache_run_ok [of ops n] by blast

text \<open>
  C6: the cache frees what it was given exactly once. When the client has released all the handles that a
  sequence of operations gave it, the destruction of the cache passes its asserts, and the calls of the
  deleters, those of the evictions, replacements and erasures before and those of the destructor, are
  exactly the insertions: no entry leaks and none is deleted twice.
\<close>
theorem lru_cache_no_leak:
  assumes "cache_run ShardedLRUCache_ops ops (NewLRUCache n, []) = Some (obs, c, [])"
  shows "\<exists>ss. ShardedLRUCache_destroy c = Some ss \<and> sum_list (map (\<lambda>s. mset (lc_deleted s)) ss) = inserted ops"
proof -
  obtain D where "sharded_ok (\<lambda>k v. D k = Some v) {#} (inserted ops) c" using cache_run_ok [of ops n] assms by auto
  then show ?thesis by (rule ShardedLRUCache_destroy_ok)
qed

theorem lru_cache_no_leak_witness:
  "\<exists>obs c ss. cache_run ShardedLRUCache_ops [CInsert [1] (5 :: nat) 3, CRelease 0] (NewLRUCache 100, []) = Some (obs, c, []) \<and>
     ShardedLRUCache_destroy c = Some ss \<and> sum_list (map (\<lambda>s. mset (lc_deleted s)) ss) = {#([1], 5)#}"
proof -
  have "map_option (\<lambda>(obs, c, hs). hs) (cache_run ShardedLRUCache_ops [CInsert [1] (5 :: nat) 3, CRelease 0] (NewLRUCache 100, [])) = Some []"
    by code_simp
  then obtain obs c where r: "cache_run ShardedLRUCache_ops [CInsert [1] (5 :: nat) 3, CRelease 0] (NewLRUCache 100, []) = Some (obs, c, [])"
    by auto
  show ?thesis using r lru_cache_no_leak [OF r] by simp
qed

end
