(* ===== verification/LdbTableProps.thy ===== *)
theory LdbTableProps
  imports LdbTableBuildProps LdbTable LdbTwoLevelProps LdbCacheContract
begin

text \<open>
  A table is read back as it was built: the reader finds the blocks of a finished file, through the
  block cache or without, and its iterator and its lookups answer as the list of the entries does.
\<close>

section \<open>Iterators over blocks\<close>

definition ti_repr :: "Comparator \<Rightarrow> (slice \<Rightarrow> bool) \<Rightarrow> 'h TableIter \<Rightarrow> entry list \<Rightarrow> nat option \<Rightarrow> bool" where
  "ti_repr c valid it kvs p \<longleftrightarrow> (case ti_iter it of Inl s \<Rightarrow> empty_repr s kvs p | Inr b \<Rightarrow> block_repr c valid b kvs p)"

lemma ti_op_repr:
  assumes r: "ti_repr c valid it kvs p"
    and e: "\<And>s. empty_repr s kvs p \<Longrightarrow> \<exists>s'. f s = Some s' \<and> empty_repr s' kvs q"
    and b: "\<And>b. block_repr c valid b kvs p \<Longrightarrow> \<exists>b'. g b = Some b' \<and> block_repr c valid b' kvs q"
  shows "\<exists>it'. ti_op f g it = Some it' \<and> ti_repr c valid it' kvs q \<and> ti_cleanup it' = ti_cleanup it"
proof (cases "ti_iter it")
  case (Inl s)
  then obtain s' where "f s = Some s'" "empty_repr s' kvs q" using r e by (auto simp: ti_repr_def)
  then show ?thesis using Inl by (simp add: ti_op_def ti_repr_def)
next
  case (Inr x)
  then obtain b' where "g x = Some b'" "block_repr c valid b' kvs q" using r b by (auto simp: ti_repr_def)
  then show ?thesis using Inr by (simp add: ti_op_def ti_repr_def)
qed

context comparator_contract
begin

lemma ti_Seek:
  assumes "ti_repr c valid it kvs p" and "valid t"
  shows "\<exists>it'. it_Seek TableIter_ops t it = Some it' \<and> ti_repr c valid it' kvs (at_pos (lower_bound (Compare c) t kvs) kvs) \<and>
    ti_cleanup it' = ti_cleanup it"
  using ti_op_repr [OF assms(1) empty_iter.repr_seek block_iter.repr_seek, OF _ assms(2) _ assms(2)]
  by (simp add: TableIter_ops_def)

lemma ti_First:
  assumes r: "ti_repr c valid it kvs p"
  shows "\<exists>it'. it_SeekToFirst TableIter_ops it = Some it' \<and> ti_repr c valid it' kvs (at_pos 0 kvs) \<and> ti_cleanup it' = ti_cleanup it"
proof -
  have "\<exists>it'. ti_op (it_SeekToFirst EmptyIterator) (it_SeekToFirst BlockIter_ops) it = Some it' \<and> ti_repr c valid it' kvs (at_pos 0 kvs) \<and>
      ti_cleanup it' = ti_cleanup it"
    by (rule ti_op_repr [OF r]) (erule empty_iter.repr_first block_iter.repr_first)+
  then show ?thesis by (simp add: TableIter_ops_def)
qed

lemma ti_Last:
  assumes r: "ti_repr c valid it kvs p"
  shows "\<exists>it'. it_SeekToLast TableIter_ops it = Some it' \<and> ti_repr c valid it' kvs (last_pos (length kvs)) \<and> ti_cleanup it' = ti_cleanup it"
proof -
  have "\<exists>it'. ti_op (it_SeekToLast EmptyIterator) (it_SeekToLast BlockIter_ops) it = Some it' \<and> ti_repr c valid it' kvs (last_pos (length kvs)) \<and>
      ti_cleanup it' = ti_cleanup it"
    by (rule ti_op_repr [OF r]) (erule empty_iter.repr_last block_iter.repr_last)+
  then show ?thesis by (simp add: TableIter_ops_def)
qed

lemma ti_Next:
  assumes r: "ti_repr c valid it kvs (Some i)"
  shows "\<exists>it'. it_Next TableIter_ops it = Some it' \<and> ti_repr c valid it' kvs (at_pos (i + 1) kvs) \<and> ti_cleanup it' = ti_cleanup it"
proof -
  have "\<exists>it'. ti_op (it_Next EmptyIterator) (it_Next BlockIter_ops) it = Some it' \<and> ti_repr c valid it' kvs (at_pos (i + 1) kvs) \<and>
      ti_cleanup it' = ti_cleanup it"
    by (rule ti_op_repr [OF r]) (erule empty_iter.repr_next block_iter.repr_next)+
  then show ?thesis by (simp add: TableIter_ops_def)
qed

lemma ti_Prev:
  assumes r: "ti_repr c valid it kvs (Some i)"
  shows "\<exists>it'. it_Prev TableIter_ops it = Some it' \<and> ti_repr c valid it' kvs (last_pos i) \<and> ti_cleanup it' = ti_cleanup it"
proof -
  have "\<exists>it'. ti_op (it_Prev EmptyIterator) (it_Prev BlockIter_ops) it = Some it' \<and> ti_repr c valid it' kvs (last_pos i) \<and>
      ti_cleanup it' = ti_cleanup it"
    by (rule ti_op_repr [OF r]) (erule empty_iter.repr_prev block_iter.repr_prev)+
  then show ?thesis by (simp add: TableIter_ops_def)
qed

lemma ti_contract: "iterator_contract (Compare c) valid (TableIter_ops :: 'h TableIter Iterator) (ti_repr c valid)"
proof unfold_locales
  fix it :: "'h TableIter" and kvs p
  assume r: "ti_repr c valid it kvs p"
  show "sorted_source (Compare c) valid kvs"
    using r empty_iter.repr_sorted block_iter.repr_sorted by (auto simp: ti_repr_def split: sum.splits)
  show "it_Valid TableIter_ops it = (p \<noteq> None)"
    using r empty_iter.repr_valid block_iter.repr_valid by (auto simp: TableIter_ops_def ti_repr_def split: sum.splits)
  show "\<exists>st. it_status TableIter_ops it = Some st \<and> status_ok st"
    using r empty_iter.repr_status block_iter.repr_status by (auto simp: TableIter_ops_def ti_repr_def split: sum.splits)
  show "\<exists>it'. it_SeekToFirst TableIter_ops it = Some it' \<and> ti_repr c valid it' kvs (at_pos 0 kvs)" using ti_First [OF r] by blast
  show "\<exists>it'. it_SeekToLast TableIter_ops it = Some it' \<and> ti_repr c valid it' kvs (last_pos (length kvs))" using ti_Last [OF r] by blast
  show "\<exists>it'. it_Seek TableIter_ops t it = Some it' \<and> ti_repr c valid it' kvs (at_pos (lower_bound (Compare c) t kvs) kvs)"
    if "valid t" for t using ti_Seek [OF r that] by blast
next
  fix it :: "'h TableIter" and kvs i
  assume r: "ti_repr c valid it kvs (Some i)"
  show "i < length kvs \<and> it_key TableIter_ops it = Some (fst (kvs ! i)) \<and> it_value TableIter_ops it = Some (snd (kvs ! i))"
    using r empty_iter.repr_at block_iter.repr_at by (auto simp: TableIter_ops_def ti_repr_def split: sum.splits)
  show "\<exists>it'. it_Next TableIter_ops it = Some it' \<and> ti_repr c valid it' kvs (at_pos (i + 1) kvs)" using ti_Next [OF r] by blast
  show "\<exists>it'. it_Prev TableIter_ops it = Some it' \<and> ti_repr c valid it' kvs (last_pos i)" using ti_Prev [OF r] by blast
qed

end

text \<open>An iterator with what it holds: a handle of the cache with its block, or nothing.\<close>

definition ti_holds ::
  "Comparator \<Rightarrow> (slice \<Rightarrow> bool) \<Rightarrow> ('h \<times> Block) option \<Rightarrow> 'h TableIter \<Rightarrow> entry list \<Rightarrow> nat option \<Rightarrow> bool" where
  "ti_holds c valid x it kvs p \<longleftrightarrow> ti_repr c valid it kvs p \<and> ti_cleanup it = map_option fst x"

context comparator_contract
begin

lemma ti_holds_contract:
  "iterator_contract (Compare c) valid (TableIter_ops :: 'h TableIter Iterator) (ti_holds c valid x)"
proof unfold_locales
  fix it :: "'h TableIter" and kvs p
  assume h: "ti_holds c valid x it kvs p"
  then have r: "ti_repr c valid it kvs p" by (simp add: ti_holds_def)
  show "sorted_source (Compare c) valid kvs" by (rule iterator_contract.repr_sorted [OF ti_contract r])
  show "it_Valid TableIter_ops it = (p \<noteq> None)" by (rule iterator_contract.repr_valid [OF ti_contract r])
  show "\<exists>st. it_status TableIter_ops it = Some st \<and> status_ok st" by (rule iterator_contract.repr_status [OF ti_contract r])
  show "\<exists>it'. it_SeekToFirst TableIter_ops it = Some it' \<and> ti_holds c valid x it' kvs (at_pos 0 kvs)"
    using ti_First [OF r] h by (auto simp: ti_holds_def)
  show "\<exists>it'. it_SeekToLast TableIter_ops it = Some it' \<and> ti_holds c valid x it' kvs (last_pos (length kvs))"
    using ti_Last [OF r] h by (auto simp: ti_holds_def)
  show "\<exists>it'. it_Seek TableIter_ops t it = Some it' \<and> ti_holds c valid x it' kvs (at_pos (lower_bound (Compare c) t kvs) kvs)"
    if "valid t" for t using ti_Seek [OF r that] h by (auto simp: ti_holds_def)
next
  fix it :: "'h TableIter" and kvs i
  assume h: "ti_holds c valid x it kvs (Some i)"
  then have r: "ti_repr c valid it kvs (Some i)" by (simp add: ti_holds_def)
  show "i < length kvs \<and> it_key TableIter_ops it = Some (fst (kvs ! i)) \<and> it_value TableIter_ops it = Some (snd (kvs ! i))"
    by (rule iterator_contract.repr_at [OF ti_contract r])
  show "\<exists>it'. it_Next TableIter_ops it = Some it' \<and> ti_holds c valid x it' kvs (at_pos (i + 1) kvs)"
    using ti_Next [OF r] h by (auto simp: ti_holds_def)
  show "\<exists>it'. it_Prev TableIter_ops it = Some it' \<and> ti_holds c valid x it' kvs (last_pos i)"
    using ti_Prev [OF r] h by (auto simp: ti_holds_def)
qed

end

section \<open>Reading the blocks of a file\<close>

definition reads :: "Comparator \<Rightarrow> (slice \<Rightarrow> bool) \<Rightarrow> Block \<Rightarrow> entry list \<Rightarrow> bool" where
  "reads c valid b xs \<longleftrightarrow> (\<exists>it. Block_NewIterator c b = Some (Inr it) \<and> block_repr c valid it xs None)"

lemma reads_iterator:
  "reads c valid b xs \<Longrightarrow> \<exists>it. block_iterator c b = Some it \<and> ti_repr c valid it xs None"
  by (auto simp: reads_def block_iterator_def ti_repr_def)

lemma block_iterator_holds: "block_iterator c b = Some it \<Longrightarrow> ti_repr c valid it xs p \<Longrightarrow> ti_holds c valid None it xs p"
  by (auto simp: block_iterator_def ti_holds_def)

lemma block_at_reads:
  assumes "snappy_codec sn" and "random_access rf D" and "length D < 4294967296"
    and "block_at sn D h xs" and "sorted_source (Compare c) valid xs"
  shows "\<exists>contents b. ReadBlock sn rf ro h = Some (Status_OK, contents) \<and> make_Block (bc_data contents) = Some b \<and> reads c valid b xs"
proof -
  obtain es rs where es: "chained [] es" "restarts_ok es rs" "to_entries es = xs" "stored_at sn D h (block_bytes es rs)"
    using assms(4) by (auto simp: block_at_def)
  obtain contents where r: "ReadBlock sn rf ro h = Some (Status_OK, contents)" "bc_data contents = block_bytes es rs"
    using snappy_codec.ReadBlock_stored_at [OF assms(1,2) es(4)] assms(3) by auto
  have "layout_ok es rs" using es(1,2) snappy_codec.stored_at_length [OF assms(1) es(4)] assms(3) by (simp add: layout_ok_def)
  from Block_NewIterator_layout [OF this, of c] obtain b it where "make_Block (block_bytes es rs) = Some b"
    "Block_NewIterator c b = Some (Inr it)" "over_block c es rs it" "\<not> BlockIter_Valid it" by blast
  then show ?thesis using r es(3) assms(5) by (auto simp: reads_def block_repr_def)
qed

section \<open>The block reader\<close>

text \<open>
  A table whose handles lead to the blocks of \<open>m\<close>, and a cache that has nothing else under the keys of the
  table.
\<close>

definition readable ::
  "Comparator \<Rightarrow> (slice \<Rightarrow> bool) \<Rightarrow> Snappy \<Rightarrow> Table \<Rightarrow> (slice \<Rightarrow> entry list option) \<Rightarrow> bool" where
  "readable c valid sn t m \<longleftrightarrow>
     snappy_codec sn \<and> opt_comparator (t_options t) = c \<and>
     (\<exists>D. random_access (t_file t) D \<and> length D < 4294967296 \<and>
        (\<forall>hb xs. m hb = Some xs \<longrightarrow>
           (\<exists>h. hb = handle_bytes h \<and> block_at sn D h xs \<and> sorted_source (Compare c) valid xs))) \<and>
     (\<forall>h h' xs xs'. m (handle_bytes h) = Some xs \<longrightarrow> m (handle_bytes h') = Some xs' \<longrightarrow>
        bh_offset h = bh_offset h' \<longrightarrow> xs = xs')"

lemma readableD:
  assumes "readable c valid sn t m" and "m hb = Some xs"
  shows "\<exists>D h. snappy_codec sn \<and> random_access (t_file t) D \<and> length D < 4294967296 \<and>
    hb = handle_bytes h \<and> block_at sn D h xs \<and> sorted_source (Compare c) valid xs"
proof -
  obtain D where D: "random_access (t_file t) D" "length D < 4294967296"
    "\<forall>hb xs. m hb = Some xs \<longrightarrow> (\<exists>h. hb = handle_bytes h \<and> block_at sn D h xs \<and> sorted_source (Compare c) valid xs)"
    using assms(1) unfolding readable_def by (elim conjE exE)
  obtain h where h: "hb = handle_bytes h \<and> block_at sn D h xs \<and> sorted_source (Compare c) valid xs"
    using D(3) [rule_format, OF assms(2)] ..
  have "snappy_codec sn" using assms(1) unfolding readable_def ..
  then show ?thesis using D(1,2) h by blast
qed

lemma readable_same:
  "readable c valid sn t m \<Longrightarrow> m (handle_bytes h) = Some xs \<Longrightarrow> m (handle_bytes h') = Some xs' \<Longrightarrow>
    bh_offset h = bh_offset h' \<Longrightarrow> xs' = xs"
  unfolding readable_def by (elim exE conjE) (drule spec [of _ h], drule spec [of _ h'], simp)

definition cache_entry ::
  "Comparator \<Rightarrow> (slice \<Rightarrow> bool) \<Rightarrow> Table \<Rightarrow> (slice \<Rightarrow> entry list option) \<Rightarrow> slice \<Rightarrow> Block \<Rightarrow> bool" where
  "cache_entry c valid t m k b \<longleftrightarrow>
     (\<forall>h xs. m (handle_bytes h) = Some xs \<longrightarrow> k = cache_key t h \<longrightarrow> reads c valid b xs)"

text \<open>
  The clients of the cache, whose laws are \<open>ok\<close>, hold the handles \<open>H\<close>. Without a cache there are no laws.
\<close>

type_synonym ('c, 'h) cache_laws = "(slice \<Rightarrow> Block \<Rightarrow> bool) \<Rightarrow> ('h \<times> Block) multiset \<Rightarrow> (slice \<times> Block) multiset \<Rightarrow> 'c \<Rightarrow> bool"

definition cached_ok ::
  "Comparator \<Rightarrow> (slice \<Rightarrow> bool) \<Rightarrow> ('c, 'h, Block) Cache \<Rightarrow> ('c, 'h) cache_laws option \<Rightarrow> Table \<Rightarrow> (slice \<Rightarrow> entry list option) \<Rightarrow>
    ('h \<times> Block) multiset \<Rightarrow> 'c option \<Rightarrow> bool" where
  "cached_ok c valid cops ok t m H cache \<longleftrightarrow>
     (case cache of None \<Rightarrow> ok = None
      | Some ca \<Rightarrow> \<exists>l A. ok = Some l \<and> cache_contract cops l \<and> l (cache_entry c valid t m) H A ca)"

text \<open>What a multiset of iterators holds.\<close>

definition held :: "('h \<times> Block) option multiset \<Rightarrow> ('h \<times> Block) multiset" where
  "held R = image_mset the (filter_mset (\<lambda>x. x \<noteq> None) R)"

lemma held_simps [simp]:
  "held {#} = {#}"
  "held (add_mset None R) = held R"
  "held (add_mset (Some x) R) = add_mset x (held R)"
  by (simp_all add: held_def)

definition table_inv ::
  "Comparator \<Rightarrow> (slice \<Rightarrow> bool) \<Rightarrow> Snappy \<Rightarrow> ('c, 'h, Block) Cache \<Rightarrow> ('c, 'h) cache_laws option \<Rightarrow> Table \<Rightarrow> ('h \<times> Block) multiset \<Rightarrow>
    (slice \<Rightarrow> entry list option) \<Rightarrow> ('h \<times> Block) option multiset \<Rightarrow> 'c option \<Rightarrow> bool" where
  "table_inv c valid sn cops ok t H m R cache \<longleftrightarrow>
     readable c valid sn t m \<and> cached_ok c valid cops ok t m (held R + H) cache"

lemma EncodeFixed64_inj: "EncodeFixed64 a = EncodeFixed64 b \<Longrightarrow> a = b"
  using DecodeFixed64_bytes [of a "[]"] DecodeFixed64_bytes [of b "[]"] by (simp add: EncodeFixed64_bytes)

lemma cache_key_inj: "cache_key t h = cache_key t h' \<Longrightarrow> bh_offset h = bh_offset h'"
  using EncodeFixed64_inj by (simp add: cache_key_def)

lemma handle_bytes_inj: "handle_bytes h = handle_bytes h' \<Longrightarrow> h = h'"
  using BlockHandle_Decode [of h "[]" new_BlockHandle] BlockHandle_Decode [of h' "[]" new_BlockHandle] by simp

lemma cached_okI:
  assumes "cache_contract cops l" and "l (cache_entry c valid t m) H A ca"
  shows "cached_ok c valid cops (Some l) t m H (Some ca)"
  unfolding cached_ok_def option.case by (rule exI [of _ l], rule exI [of _ A]) (intro conjI refl assms)

lemma cached_okD:
  "cached_ok c valid cops ok t m H (Some ca) \<Longrightarrow>
   \<exists>l A. ok = Some l \<and> cache_contract cops l \<and> l (cache_entry c valid t m) H A ca"
  by (simp only: cached_ok_def option.case)

lemma cached_ok_None [simp]: "cached_ok c valid cops ok t m H None \<longleftrightarrow> ok = None"
  by (simp add: cached_ok_def)

lemma read_cached_ok:
  assumes rd: "readable c valid sn t m" and ca: "cached_ok c valid cops ok t m H cache" and h: "m (handle_bytes h) = Some xs"
  shows "\<exists>b x cache'. read_cached sn cops t ro h cache = Some (Status_OK, Some (b, map_option fst x), cache') \<and> reads c valid b xs \<and>
    cached_ok c valid cops ok t m (held {#x#} + H) cache'"
proof -
  obtain D h' where D: "snappy_codec sn" "random_access (t_file t) D" "length D < 4294967296"
    "handle_bytes h = handle_bytes h'" "block_at sn D h' xs" "sorted_source (Compare c) valid xs"
    using readableD [OF rd h] by (elim exE conjE)
  have "block_at sn D h xs" using D(5) handle_bytes_inj [OF D(4)] by simp
  from block_at_reads [OF D(1-3) this D(6)] obtain contents b where
    b: "ReadBlock sn (t_file t) ro h = Some (Status_OK, contents)" "make_Block (bc_data contents) = Some b" "reads c valid b xs" by blast
  show ?thesis
  proof (cases cache)
    case None
    then show ?thesis using b ca by (intro exI [of _ b] exI [of _ None]) (simp add: read_cached_def)
  next
    case (Some a)
    let ?P = "cache_entry c valid t m"
    obtain l A where okc: "cache_contract cops l" "l ?P H A a" and okl: "ok = Some l" using cached_okD [OF ca [unfolded Some]] by (elim exE conjE)
    obtain r a1 where lk: "ca_Lookup cops (cache_key t h) a = Some (r, a1)"
      "case r of None \<Rightarrow> l ?P H A a1 | Some x \<Rightarrow> \<exists>v. ?P (cache_key t h) v \<and> l ?P (add_mset (x, v) H) A a1"
      using cache_contract.lookup_law [OF okc(1), OF okc(2), of "cache_key t h"] by (elim exE conjE)
    show ?thesis
    proof (cases r)
      case (Some x)
      then obtain v where v: "?P (cache_key t h) v" "l ?P (add_mset (x, v) H) A a1" using lk(2) by auto
      have "ca_Value cops x a1 = Some v" using cache_contract.value_law [OF okc(1), OF v(2), of x v] by simp
      moreover have "reads c valid v xs" using v(1) h by (simp add: cache_entry_def)
      ultimately show ?thesis using \<open>cache = Some a\<close> lk(1) okl Some cached_okI [OF okc(1), OF v(2)]
        by (intro exI [of _ v] exI [of _ "Some (x, v)"]) (simp add: read_cached_def Let_def)
    next
      case None
      then have a1: "l ?P H A a1" using lk(2) by simp
      show ?thesis
      proof (cases "bc_cachable contents \<and> ro_fill_cache ro")
        case False
        then show ?thesis using \<open>cache = Some a\<close> lk(1) okl None b cached_okI [OF okc(1), OF a1]
          by - (rule exI [of _ b], rule exI [of _ None], rule exI [of _ "Some a1"], auto simp: read_cached_def Let_def)
      next
        case True
        obtain x a2 where a2: "ca_Insert cops (cache_key t h) b (block_size b) a1 = Some (x, a2)"
          "l (\<lambda>k' v'. if k' = cache_key t h then v' = b else ?P k' v') (add_mset (x, b) H) (add_mset (cache_key t h, b) A) a2"
          using cache_contract.insert_law [OF okc(1), OF a1, of "cache_key t h" b "block_size b"] by (elim exE conjE)
        have "?P k' v'" if "if k' = cache_key t h then v' = b else ?P k' v'" for k' v'
        proof (cases "k' = cache_key t h")
          case True
          have "xs' = xs" if "m (handle_bytes h') = Some xs'" "cache_key t h = cache_key t h'" for h' xs'
            using readable_same [OF rd h that(1) cache_key_inj [OF that(2)]] .
          then show ?thesis using True that b(3) by (auto simp: cache_entry_def)
        qed (use that in simp)
        then have okP: "l ?P (add_mset (x, b) H) (add_mset (cache_key t h, b) A) a2"
          by (rule cache_contract.weaken [OF okc(1), OF a2(2)])
        show ?thesis using True \<open>cache = Some a\<close> lk(1) okl None b a2(1) cached_okI [OF okc(1), OF okP]
          by (intro exI [of _ b] exI [of _ "Some (x, b)"]) (simp add: read_cached_def Let_def)
      qed
    qed
  qed
qed

lemma BlockReader_ok:
  fixes cops :: "('c, 'h, Block) Cache"
  assumes inv: "table_inv c valid sn cops ok t H m R cache" and h: "m hb = Some xs"
  shows "\<exists>it x cache'. BlockReader sn cops t ro cache hb = Some (it :: 'h TableIter, cache') \<and>
    table_inv c valid sn cops ok t H m (add_mset x R) cache' \<and> ti_holds c valid x it xs None"
proof -
  have rd: "readable c valid sn t m" "cached_ok c valid cops ok t m (held R + H) cache" using inv by (simp_all add: table_inv_def)
  obtain h' where hb: "hb = handle_bytes h'" using readableD [OF rd(1) h] by (elim exE conjE)
  obtain b x cache' where r: "read_cached sn cops t ro h' cache = Some (Status_OK, Some (b, map_option fst x), cache')" "reads c valid b xs"
    "cached_ok c valid cops ok t m (held {#x#} + (held R + H)) cache'"
    using read_cached_ok [OF rd, of h' xs ro] h hb by blast
  obtain it :: "'h TableIter" where it: "block_iterator c b = Some it" "ti_repr c valid it xs None" using reads_iterator [OF r(2)] by blast
  have "BlockHandle_DecodeFrom hb new_BlockHandle = (Status_OK, h', [])"
    using BlockHandle_Decode [of h' "[]" new_BlockHandle] hb by simp
  then have "BlockReader sn cops t ro cache hb = Some (it\<lparr>ti_cleanup := map_option fst x\<rparr>, cache')"
    using r(1) it(1) rd(1) by (simp add: BlockReader_def readable_def)
  moreover have "ti_holds c valid x (it\<lparr>ti_cleanup := map_option fst x\<rparr>) xs None" using it(2) by (simp add: ti_holds_def ti_repr_def)
  moreover have "held (add_mset x R) = held {#x#} + held R" by (cases x) simp_all
  then have "table_inv c valid sn cops ok t H m (add_mset x R) cache'" using r(3) rd(1) by (simp add: table_inv_def add.assoc)
  ultimately show ?thesis by blast
qed

text \<open>The deletion of an iterator gives back what it holds.\<close>

lemma delete_iter_ok:
  assumes "table_inv c valid sn cops ok t H m (add_mset x R) cache" and "ti_holds c valid x it xs p"
  shows "\<exists>cache'. delete_iter cops it cache = Some cache' \<and> table_inv c valid sn cops ok t H m R cache'"
proof (cases x)
  case None
  then show ?thesis using assms by (simp add: delete_iter_def ti_holds_def table_inv_def)
next
  case (Some hb)
  obtain h b where hb: "hb = (h, b)" by (cases hb)
  then have cl: "ti_cleanup it = Some h" using assms(2) Some by (simp add: ti_holds_def)
  show ?thesis
  proof (cases cache)
    case None
    then show ?thesis using assms(1) cl by (simp add: delete_iter_def table_inv_def)
  next
    case (Some ca)
    have rd: "readable c valid sn t m" and ck: "cached_ok c valid cops ok t m (add_mset (h, b) (held R + H)) (Some ca)"
      using assms(1) \<open>x = Some hb\<close> hb Some by (simp_all add: table_inv_def)
    obtain l A where A: "cache_contract cops l" "l (cache_entry c valid t m) (add_mset (h, b) (held R + H)) A ca" and okl: "ok = Some l"
      using cached_okD [OF ck] by (elim exE conjE)
    obtain ca' where r: "ca_Release cops h ca = Some ca'" "l (cache_entry c valid t m) (held R + H) A ca'"
      using cache_contract.release_law [OF A(1), OF A(2), of h b] by auto
    then show ?thesis using cl Some rd okl cached_okI [OF A(1), OF r(2)] by (simp add: delete_iter_def table_inv_def)
  qed
qed

context comparator_contract
begin

lemma table_two_level:
  "two_level (Compare c) valid TableIter_ops (ti_holds c valid None) TableIter_ops (ti_holds c valid)
     (delete_iter cops) (BlockReader sn cops t ro) (table_inv c valid sn cops ok t H)"
proof (rule two_level.intro)
  show "iterator_contract (Compare c) valid TableIter_ops (ti_holds c valid None)" by (rule ti_holds_contract)
  show "two_level_axioms (Compare c) valid TableIter_ops (ti_holds c valid) (delete_iter cops) (BlockReader sn cops t ro)
      (table_inv c valid sn cops ok t H)"
  proof (rule two_level_axioms.intro)
    show "iterator_contract (Compare c) valid TableIter_ops (ti_holds c valid x)" for x by (rule ti_holds_contract)
    show "\<exists>d a' q x. BlockReader sn cops t ro a h = Some (d, a') \<and> table_inv c valid sn cops ok t H m (add_mset x R) a' \<and> ti_holds c valid x d xs q"
      if "table_inv c valid sn cops ok t H m R a" "m h = Some xs" for m R a h xs
      using BlockReader_ok [OF that, of ro] by (elim exE) (intro exI, assumption)
    show "\<exists>a'. delete_iter cops d a = Some a' \<and> table_inv c valid sn cops ok t H m R a'"
      if "table_inv c valid sn cops ok t H m (add_mset x R) a" "ti_holds c valid x d xs q" for m x R a d xs q
      by (rule delete_iter_ok [OF that])
  qed
qed

end

interpretation bytewise_table: two_level "Compare BytewiseComparator" "\<lambda>_. True" TableIter_ops "ti_holds BytewiseComparator (\<lambda>_. True) None"
    TableIter_ops "ti_holds BytewiseComparator (\<lambda>_. True)" "delete_iter cops" "BlockReader sn cops t ro"
    "table_inv BytewiseComparator (\<lambda>_. True) sn cops ok t H"
  for sn cops t ro ok H
  by (rule bytewise.table_two_level)

section \<open>Opening a table\<close>

definition chunk_map :: "chunk list \<Rightarrow> slice \<Rightarrow> entry list option" where
  "chunk_map chunks = map_of (map (\<lambda>(xs, h). (handle_bytes h, xs)) chunks)"

text \<open>The filter, where there is one, answers every question, and has the keys of the blocks.\<close>

definition filter_ok :: "Table \<Rightarrow> chunk list \<Rightarrow> bool" where
  "filter_ok t chunks \<longleftrightarrow>
     (case t_filter t of None \<Rightarrow> True
      | Some (p, rd) \<Rightarrow> (\<forall>off key. FilterBlock_KeyMayMatch p rd off key \<noteq> None) \<and>
          (\<forall>(off, key) \<in> filter_keys chunks 0 []. FilterBlock_KeyMayMatch p rd off key = Some True))"

definition opened :: "Comparator \<Rightarrow> (slice \<Rightarrow> bool) \<Rightarrow> Snappy \<Rightarrow> Table \<Rightarrow> chunk list \<Rightarrow> entry list \<Rightarrow> bool" where
  "opened c valid sn t chunks ikvs \<longleftrightarrow>
     readable c valid sn t (chunk_map chunks) \<and> reads c valid (t_index_block t) ikvs \<and>
     fenced (Compare c) (chunk_map chunks) ikvs \<and> blocks (chunk_map chunks) ikvs = map fst chunks \<and>
     sorted_source (Compare c) valid (concat (map fst chunks)) \<and> filter_ok t chunks \<and>
     (\<forall>j < length ikvs. snd (ikvs ! j) = handle_bytes (snd (chunks ! j))) \<and> length ikvs = length chunks"

lemma chunks_distinct:
  assumes "chunks_ok sn D chunks" and "i < length chunks" and "j < length chunks"
    and "bh_offset (snd (chunks ! i)) = bh_offset (snd (chunks ! j))"
  shows "i = j"
proof (rule ccontr)
  have s: "sorted_wrt (\<lambda>a b. unat (bh_offset (snd a)) < unat (bh_offset (snd b))) chunks" using assms(1) by (simp add: chunks_ok_def)
  assume "i \<noteq> j"
  then consider "i < j" | "j < i" by linarith
  then show False using sorted_wrt_nth_less [OF s] assms(2-4) by cases fastforce+
qed

lemma chunk_map_at:
  assumes "chunks_ok sn D chunks" and "j < length chunks"
  shows "chunk_map chunks (handle_bytes (snd (chunks ! j))) = Some (fst (chunks ! j))"
proof -
  let ?f = "\<lambda>(xs, h). (handle_bytes h, xs)"
  have "distinct (map fst (map ?f chunks))"
    unfolding distinct_conv_nth
  proof (intro allI impI notI)
    fix i l assume "i < length (map fst (map ?f chunks))" "l < length (map fst (map ?f chunks))" "i \<noteq> l"
      and e: "map fst (map ?f chunks) ! i = map fst (map ?f chunks) ! l"
    then have l: "i < length chunks" "l < length chunks" "i \<noteq> l" by simp_all
    then have "snd (chunks ! i) = snd (chunks ! l)" using e handle_bytes_inj by (simp add: case_prod_beta)
    then show False using chunks_distinct [OF assms(1) l(1,2)] l(3) by simp
  qed
  moreover have "(handle_bytes (snd (chunks ! j)), fst (chunks ! j)) \<in> set (map ?f chunks)"
    using nth_mem [OF assms(2)] by (force simp: case_prod_beta)
  ultimately show ?thesis unfolding chunk_map_def by (rule map_of_is_SomeI)
qed

lemma chunk_map_SomeD: "chunk_map chunks hb = Some xs \<Longrightarrow> \<exists>j < length chunks. hb = handle_bytes (snd (chunks ! j)) \<and> xs = fst (chunks ! j)"
  unfolding chunk_map_def by (drule map_of_SomeD) (fastforce simp: in_set_conv_nth)

lemma sorted_source_chunk:
  assumes "sorted_source cmp valid (concat xss)" and "xs \<in> set xss"
  shows "sorted_source cmp valid xs"
proof -
  obtain as bs where "xss = as @ xs # bs" using split_list [OF assms(2)] by blast
  then show ?thesis using assms(1) by (auto simp: sorted_source_def sorted_wrt_append)
qed

lemma chunks_readable:
  assumes ok: "chunks_ok sn D chunks" and s: "sorted_source (Compare c) valid (concat (map fst chunks))"
    and sn: "snappy_codec sn" and t: "opt_comparator (t_options t) = c" "random_access (t_file t) D" "length D < 4294967296"
  shows "readable c valid sn t (chunk_map chunks)"
proof -
  have "\<exists>h. hb = handle_bytes h \<and> block_at sn D h xs \<and> sorted_source (Compare c) valid xs" if m: "chunk_map chunks hb = Some xs" for hb xs
  proof -
    obtain j where j: "j < length chunks" "hb = handle_bytes (snd (chunks ! j))" "xs = fst (chunks ! j)"
      using chunk_map_SomeD [OF m] by blast
    have "block_at sn D (snd (chunks ! j)) xs" using ok nth_mem [OF j(1)] j(3) by (simp add: chunks_ok_def)
    moreover have "sorted_source (Compare c) valid xs" using sorted_source_chunk [OF s] nth_mem [OF j(1)] j(3) by simp
    ultimately show ?thesis using j(2) by blast
  qed
  moreover have "xs = xs'" if m: "chunk_map chunks (handle_bytes h) = Some xs" "chunk_map chunks (handle_bytes h') = Some xs'"
    and o: "bh_offset h = bh_offset h'" for h h' xs xs'
  proof -
    obtain j where j: "j < length chunks" "h = snd (chunks ! j)" "xs = fst (chunks ! j)"
      using chunk_map_SomeD [OF m(1)] handle_bytes_inj by blast
    obtain l where l: "l < length chunks" "h' = snd (chunks ! l)" "xs' = fst (chunks ! l)"
      using chunk_map_SomeD [OF m(2)] handle_bytes_inj by blast
    have "j = l" using chunks_distinct [OF ok j(1) l(1)] o j(2) l(2) by simp
    then show ?thesis using j(3) l(3) by simp
  qed
  ultimately show ?thesis unfolding readable_def using sn t by blast
qed

lemma chunks_fenced:
  assumes ok: "chunks_ok sn D chunks" and f: "fences cmp ikvs chunks" and l: "length ikvs = length chunks"
  shows "fenced cmp (chunk_map chunks) ikvs" and "blocks (chunk_map chunks) ikvs = map fst chunks"
proof -
  have h: "snd (ikvs ! j) = handle_bytes (snd (chunks ! j))" if "j < length ikvs" for j using f that by (simp add: fences_def)
  have m: "chunk_map chunks (snd (ikvs ! j)) = Some (fst (chunks ! j))" if "j < length ikvs" for j
    using chunk_map_at [OF ok, of j] h [OF that] that l by simp
  show b: "blocks (chunk_map chunks) ikvs = map fst chunks" using m l by (auto intro: nth_equalityI)
  have "chunk_map chunks (snd e) \<noteq> None" if "e \<in> set ikvs" for e
  proof -
    obtain j where "j < length ikvs" "e = ikvs ! j" using \<open>e \<in> set ikvs\<close> by (auto simp: in_set_conv_nth)
    then show ?thesis using m by simp
  qed
  then show "fenced cmp (chunk_map chunks) ikvs" unfolding fenced_def b using f l by (auto simp: fences_def)
qed

text \<open>
  The file is read for the footer, the index block, the metaindex block and the filter, whose contents
  its users keep.
\<close>

lemma ReadMeta_ok:
  assumes sn: "snappy_codec sn" and f: "random_access (t_file t) D" "length D < 4294967296"
    and m: "meta_at sn (t_options t) D mh chunks" and t: "t_filter t = None" "metaindex_handle footer = mh"
    and p: "\<And>name p. opt_filter_policy (t_options t) = Some (name, p) \<Longrightarrow> filter_policy p"
  shows "\<exists>fl. ReadMeta sn footer t = Some (t\<lparr>t_filter := fl\<rparr>) \<and> filter_ok (t\<lparr>t_filter := fl\<rparr>) chunks"
proof (cases "opt_filter_policy (t_options t)")
  case None
  then show ?thesis using t(1) by (intro exI [of _ None]) (simp add: ReadMeta_def filter_ok_def)
next
  case (Some np)
  obtain name p where np: "np = (name, p)" by (cases np)
  obtain fh b fs ks where fh: "block_at sn D mh [(FilterKey name, handle_bytes fh)]"
    "stored_at sn D fh (FilterBlock_Finish p b)" "fb_inv p (filter_keys chunks 0 []) b fs ks"
    using m Some np by (auto simp: meta_at_def)
  have "sorted_source (Compare BytewiseComparator) (\<lambda>_. True) [(FilterKey name, handle_bytes fh)]" by (simp add: sorted_source_def)
  from block_at_reads [OF sn f fh(1) this] obtain contents meta where
    c: "ReadBlock sn (t_file t) (read_options (t_options t)) mh = Some (Status_OK, contents)" "make_Block (bc_data contents) = Some meta"
      "reads BytewiseComparator (\<lambda>_. True) meta [(FilterKey name, handle_bytes fh)]" by blast
  obtain it :: "unit TableIter" where it: "block_iterator BytewiseComparator meta = Some it"
    "ti_repr BytewiseComparator (\<lambda>_. True) it [(FilterKey name, handle_bytes fh)] None" using reads_iterator [OF c(3)] by blast
  have lb: "lower_bound (Compare BytewiseComparator) (FilterKey name) [(FilterKey name, handle_bytes fh)] = 0"
    by (simp add: lower_bound_def before_def Slice_compare_order)
  obtain it' where it': "it_Seek TableIter_ops (FilterKey name) it = Some it'"
    "ti_repr BytewiseComparator (\<lambda>_. True) it' [(FilterKey name, handle_bytes fh)] (Some 0)"
    using bytewise.ti_Seek [OF it(2), of "FilterKey name"] lb by (auto simp: at_pos_def)
  note at = iterator_contract.repr_valid [OF bytewise.ti_contract it'(2)] iterator_contract.repr_at [OF bytewise.ti_contract it'(2)]
  have lf: "length (FilterBlock_Finish p b) < 2 ^ 32" using snappy_codec.stored_at_length [OF sn fh(2) f(2)] by simp
  obtain fc where fc: "ReadBlock sn (t_file t) (read_options (t_options t)) fh = Some (Status_OK, fc)" "bc_data fc = FilterBlock_Finish p b"
    using snappy_codec.ReadBlock_stored_at [OF sn f(1) fh(2)] f(2) by auto
  obtain rd where rd: "new_FilterBlockReader (FilterBlock_Finish p b) = Some rd"
    "\<forall>off key. FilterBlock_KeyMayMatch p rd off key \<noteq> None"
    "\<forall>(off, key) \<in> filter_keys chunks 0 []. FilterBlock_KeyMayMatch p rd off key = Some True"
    using filter_policy.finished_block_reader [OF p fh(3) lf] Some np by blast
  have "ReadFilter sn p (handle_bytes fh) t = Some (t\<lparr>t_filter := Some (p, rd)\<rparr>)"
    using fc rd(1) BlockHandle_Decode [of fh "[]" new_BlockHandle] by (simp add: ReadFilter_def)
  then have "ReadMeta sn footer t = Some (t\<lparr>t_filter := Some (p, rd)\<rparr>)"
    using Some np c(1,2) it(1) it'(1) at t(2) by (simp add: ReadMeta_def FilterKey_def Slice_eq_iff Let_def)
  then show ?thesis using rd(2,3) by (intro exI [of _ "Some (p, rd)"]) (simp add: filter_ok_def)
qed

text \<open>A cache that has nothing under the keys of the next client.\<close>

definition fresh_for ::
  "('c, 'h, Block) Cache \<Rightarrow> ('c, 'h) cache_laws option \<Rightarrow> ('h \<times> Block) multiset \<Rightarrow> 'c option \<Rightarrow> bool" where
  "fresh_for cops ok H cache \<longleftrightarrow>
     (case cache of None \<Rightarrow> ok = None
      | Some ca \<Rightarrow> \<exists>l P A. ok = Some l \<and> cache_contract cops l \<and> l P H A ca \<and>
          (\<forall>k b. P k b \<longrightarrow> take 8 k \<noteq> EncodeFixed64 (fst (ca_NewId cops ca))))"

definition fresh_cache :: "('c, 'h, Block) Cache \<Rightarrow> 'c option \<Rightarrow> bool" where
  "fresh_cache cops cache \<longleftrightarrow> (\<exists>ok H. fresh_for cops ok H cache)"

lemma fresh_cached_ok:
  assumes "fresh_for cops ok H (Some ca)" and "t_cache_id t = fst (ca_NewId cops ca)"
  shows "cached_ok c valid cops ok t m H (Some (snd (ca_NewId cops ca)))"
proof -
  obtain l P A where A: "cache_contract cops l" "l P H A ca" "\<forall>k b. P k b \<longrightarrow> take 8 k \<noteq> EncodeFixed64 (fst (ca_NewId cops ca))"
    and okl: "ok = Some l"
    using assms(1) unfolding fresh_for_def option.case by (elim exE conjE)
  have n: "l P H A (snd (ca_NewId cops ca))" by (rule cache_contract.newid_law [OF A(1), OF A(2)])
  have "cache_entry c valid t m k b" if "P k b" for k b
    using A(3) that assms(2) by (auto simp: cache_entry_def cache_key_def EncodeFixed64_bytes)
  then have "l (cache_entry c valid t m) H A (snd (ca_NewId cops ca))"
    by (rule cache_contract.weaken [OF A(1), OF n])
  then show ?thesis unfolding okl by (rule cached_okI [OF A(1)])
qed

lemma Table_Open_ok:
  fixes cops :: "('c, 'h, Block) Cache"
  assumes tf: "table_file c valid sn opt D kvs" and f: "random_access rf D" "length D < 4294967296"
    and sn: "snappy_codec sn" and p: "\<And>name p. opt_filter_policy opt = Some (name, p) \<Longrightarrow> filter_policy p"
    and c: "opt_comparator opt = c" and fresh: "fresh_for cops ok H cache"
  shows "\<exists>t cache' chunks ikvs. Table_Open sn cops opt rf (of_nat (length D)) cache = Some (Status_OK, Some t, cache') \<and>
    opened c valid sn t chunks ikvs \<and> cached_ok c valid cops ok t (chunk_map chunks) H cache' \<and>
    kvs = concat (map fst chunks) \<and> t_options t = opt"
proof -
  obtain chunks ikvs mh ih D0 where t: "D = D0 @ footer_bytes \<lparr>metaindex_handle = mh, index_handle = ih\<rparr>"
    "kvs = concat (map fst chunks)" "sorted_source (Compare c) valid kvs" "chunks_ok sn D chunks"
    "sorted_source (Compare c) valid ikvs" "fences (Compare c) ikvs chunks" "length ikvs = length chunks"
    "block_at sn D ih ikvs" "meta_at sn opt D mh chunks"
    using tf unfolding table_file_def by (elim exE conjE)
  let ?ft = "\<lparr>metaindex_handle = mh, index_handle = ih\<rparr>"
  have k: "kEncodedLength \<le> length D" "kEncodedLength = 48" using t(1) length_footer_bytes [of ?ft]
    by (simp_all add: kEncodedLength_def kMaxEncodedLength_def)
  have u: "unat (of_nat (length D) :: uint64_t) = length D" using f(2) by (simp add: unat_of_nat take_bit_nat_eq_self)
  have "of_nat kEncodedLength \<le> (of_nat (length D) :: uint64_t)" using u k(1) unfolding k(2) by (simp add: word_le_nat_alt)
  then have o: "unat (of_nat (length D) - of_nat kEncodedLength :: uint64_t) = length D - 48"
    using u k(1) unfolding k(2) by (simp add: unat_sub)
  have e: "unat (of_nat kEncodedLength :: uint64_t) = kEncodedLength" unfolding k(2) by simp
  have D0: "length D - 48 = length D0" using arg_cong [OF t(1), of length] length_footer_bytes [of ?ft] k by simp
  obtain b where b: "raf_Read rf (of_nat (length D) - of_nat kEncodedLength) (of_nat kEncodedLength) = (Status_OK, footer_bytes ?ft, b)"
    using random_access.read_ok [OF f(1), of "of_nat (length D) - of_nat kEncodedLength" "of_nat kEncodedLength"] o k D0 t(1)
      e length_footer_bytes [of ?ft] by auto
  obtain contents ib where ib: "ReadBlock sn rf (read_options opt) ih = Some (Status_OK, contents)"
    "make_Block (bc_data contents) = Some ib" "reads c valid ib ikvs"
    using block_at_reads [OF sn f t(8,5)] by blast
  define ic where "ic = (case cache of None \<Rightarrow> (0, None) | Some c \<Rightarrow> let (i, c) = ca_NewId cops c in (i, Some c))"
  define t0 where "t0 = \<lparr>t_options = opt, t_file = rf, t_cache_id = fst ic, t_filter = None,
    t_metaindex_handle = mh, t_index_block = ib\<rparr>"
  obtain fl where fl: "ReadMeta sn ?ft t0 = Some (t0\<lparr>t_filter := fl\<rparr>)" "filter_ok (t0\<lparr>t_filter := fl\<rparr>) chunks"
    using ReadMeta_ok [OF sn, of t0 D mh chunks ?ft] f t(9) p by (auto simp: t0_def)
  define tb where "tb = t0\<lparr>t_filter := fl\<rparr>"
  have "Table_Open sn cops opt rf (of_nat (length D)) cache = Some (Status_OK, Some tb, snd ic)"
    using b ib(1,2) fl(1) Footer_Decode [of ?ft new_Footer] k(1) e u
    by (simp add: Table_Open_def Let_def ic_def [symmetric] t0_def [symmetric] tb_def [symmetric] case_prod_beta word_less_nat_alt)
  moreover have "readable c valid sn tb (chunk_map chunks)"
    by (rule chunks_readable [OF t(4) _ sn]) (use t(2,3) c f in \<open>simp_all add: tb_def t0_def\<close>)
  moreover have "reads c valid (t_index_block tb) ikvs" using ib(3) by (simp add: tb_def t0_def)
  moreover have "cached_ok c valid cops ok tb (chunk_map chunks) H (snd ic)"
  proof (cases cache)
    case (Some ca)
    then show ?thesis using fresh_cached_ok [OF fresh [unfolded Some], of tb]
      by (simp add: ic_def tb_def t0_def case_prod_beta)
  qed (use fresh in \<open>simp add: ic_def fresh_for_def\<close>)
  moreover have "\<forall>j < length ikvs. snd (ikvs ! j) = handle_bytes (snd (chunks ! j))" using t(6) by (simp add: fences_def)
  moreover have "t_options tb = opt" by (simp add: tb_def t0_def)
  ultimately show ?thesis
    using chunks_fenced [OF t(4,6,7)] t(2,3,7) fl(2) unfolding opened_def tb_def [symmetric] by blast
qed

section \<open>Iterating and looking up\<close>

context comparator_contract
begin

lemma Table_iterator:
  fixes cops :: "('c, 'h, Block) Cache"
  assumes o: "opened c valid sn t chunks ikvs" and ca: "cached_ok c valid cops ok t (chunk_map chunks) H cache"
    and kvs: "kvs = concat (map fst chunks)"
  shows "\<exists>it. Table_NewIterator t cache = Some it \<and>
    two_level.tl_repr (Compare c) valid (ti_holds c valid None) (ti_holds c valid) (table_inv c valid sn cops ok t H) {#} (chunk_map chunks) it kvs None"
proof -
  have rd: "readable c valid sn t (chunk_map chunks)" and ix: "reads c valid (t_index_block t) ikvs"
    and fe: "fenced (Compare c) (chunk_map chunks) ikvs" and bl: "blocks (chunk_map chunks) ikvs = map fst chunks"
    and so: "sorted_source (Compare c) valid (concat (map fst chunks))" using o by (simp_all add: opened_def)
  have cc: "opt_comparator (t_options t) = c" using rd by (simp add: readable_def)
  obtain ii :: "'h TableIter" where ii: "block_iterator c (t_index_block t) = Some ii" "ti_repr c valid ii ikvs None"
    using reads_iterator [OF ix] by blast
  have inv: "table_inv c valid sn cops ok t H (chunk_map chunks) {#} cache" using rd ca by (simp add: table_inv_def)
  obtain it :: "('h TableIter, 'h TableIter, 'c option) TwoLevelIterator" where "NewTwoLevelIterator TableIter_ops ii cache = Some it"
    "two_level.tl_repr (Compare c) valid (ti_holds c valid None) (ti_holds c valid) (table_inv c valid sn cops ok t H) {#} (chunk_map chunks) it kvs None"
    using two_level.tl_new [OF table_two_level block_iterator_holds [OF ii] inv fe] so bl kvs by auto
  then show ?thesis using ii(1) cc by (simp add: Table_NewIterator_def)
qed

lemma Table_run:
  assumes "two_level.tl_repr (Compare c) valid (ti_holds c valid None) (ti_holds c valid) (table_inv c valid sn cops ok t H) R m it kvs None"
    and "list_all (move_valid valid) mvs" and "cursor_run (Compare c) kvs mvs None = Some os"
  shows "iter_run (Table_ops sn cops t ro) mvs it = Some os"
  unfolding Table_ops_def by (rule iterator_contract.iter_run_repr [OF two_level.tl_contract [OF table_two_level] assms])

lemma key_in_chunk:
  assumes o: "opened c valid sn t chunks ikvs" and k: "(k, v) \<in> set (concat (map fst chunks))"
    and j: "lower_bound (Compare c) k ikvs = j" and s: "sorted_source (Compare c) valid ikvs"
  shows "j < length ikvs \<and> (k, v) \<in> set (fst (chunks ! j))"
proof -
  have fe: "fenced (Compare c) (chunk_map chunks) ikvs" and bl: "blocks (chunk_map chunks) ikvs = map fst chunks"
    and so: "sorted_source (Compare c) valid (concat (map fst chunks))" and l: "length ikvs = length chunks" using o by (simp_all add: opened_def)
  have "\<forall>kv \<in> set (concat (map fst chunks)). valid (fst kv)" using so unfolding sorted_source_def by (rule conjunct2)
  from bspec [OF this k] have vk: "valid k" by simp
  obtain ch where ch: "ch \<in> set chunks" "(k, v) \<in> set (fst ch)" using k by auto
  then obtain n where n: "n < length chunks" "(k, v) \<in> set (fst (chunks ! n))" by (metis in_set_conv_nth)
  note split = ordering.lower_bound_split [OF s _ vk]
  have bn: "blocks (chunk_map chunks) ikvs ! n = fst (chunks ! n)" using n(1) by (simp add: bl)
  have f2: "\<forall>j < length ikvs. \<forall>kv \<in> set (blocks (chunk_map chunks) ikvs ! j). \<not> before (Compare c) (fst (ikvs ! j)) (fst kv)"
    and f3: "\<forall>j < length ikvs. \<forall>l < length ikvs. j < l \<longrightarrow>
      (\<forall>kv \<in> set (blocks (chunk_map chunks) ikvs ! l). before (Compare c) (fst (ikvs ! j)) (fst kv))"
    using fe unfolding fenced_def by - (elim conjE; assumption)+
  have "\<not> before (Compare c) (fst (ikvs ! n)) k" using f2 [rule_format, of n "(k, v)"] n l bn by simp
  then have "j \<le> n" using split [of n] n(1) l j by simp
  moreover have "\<not> j < n"
  proof
    assume a: "j < n"
    then have "before (Compare c) (fst (ikvs ! j)) k" using f3 [rule_format, of j n "(k, v)"] n l bn by simp
    then show False using split [of j] a n(1) l j by simp
  qed
  ultimately have "j = n" by simp
  then show ?thesis using n l by simp
qed

lemma filtered_out_ok:
  assumes o: "opened c valid sn t chunks ikvs" and j: "j < length ikvs"
  shows "\<exists>out. filtered_out t (snd (ikvs ! j)) k = Some out \<and> (out \<longrightarrow> (\<forall>v. (k, v) \<notin> set (fst (chunks ! j))))"
proof (cases "t_filter t")
  case None
  then show ?thesis by (intro exI [of _ False]) (simp add: filtered_out_def)
next
  case (Some f)
  obtain p rd where f: "f = (p, rd)" by (cases f)
  let ?h = "snd (chunks ! j)"
  have h: "snd (ikvs ! j) = handle_bytes ?h" "chunks ! j \<in> set chunks" "filter_ok t chunks" using o j by (simp_all add: opened_def)
  have "FilterBlock_KeyMayMatch p rd (bh_offset ?h) k \<noteq> None" using h(3) Some f by (simp add: filter_ok_def)
  then obtain m where m: "FilterBlock_KeyMayMatch p rd (bh_offset ?h) k = Some m" by blast
  have "filtered_out t (snd (ikvs ! j)) k = Some (\<not> m)"
    using BlockHandle_Decode [of ?h "[]" new_BlockHandle] Some f m by (simp add: filtered_out_def h(1))
  moreover have "m" if "(k, v) \<in> set (fst (chunks ! j))" for v
  proof -
    have "(bh_offset ?h, k) \<in> filter_keys chunks 0 []" using that h(2) by (force simp: filter_keys_def)
    then show ?thesis using h(3) Some f m by (auto simp: filter_ok_def)
  qed
  ultimately show ?thesis by blast
qed

lemma InternalGet_ok:
  fixes cops :: "('c, 'h, Block) Cache"
  assumes o: "opened c valid sn t chunks ikvs" and ca: "cached_ok c valid cops ok t (chunk_map chunks) H cache"
    and kvs: "kvs = concat (map fst chunks)" and vk: "valid k"
  shows "\<exists>s saved cache'. InternalGet sn cops t ro k cache = Some (s, saved, cache') \<and> status_ok s \<and>
    cached_ok c valid cops ok t (chunk_map chunks) H cache' \<and>
    (\<forall>e. saved = Some e \<longrightarrow> lower_bound (Compare c) k kvs < length kvs \<and> e = kvs ! lower_bound (Compare c) k kvs) \<and>
    (\<forall>v. (k, v) \<in> set kvs \<longrightarrow> saved = Some (k, v))"
proof -
  have rd: "readable c valid sn t (chunk_map chunks)" and ix: "reads c valid (t_index_block t) ikvs"
    and fe: "fenced (Compare c) (chunk_map chunks) ikvs" and bl: "blocks (chunk_map chunks) ikvs = map fst chunks"
    and so: "sorted_source (Compare c) valid (concat (map fst chunks))" and l: "length ikvs = length chunks" using o by (simp_all add: opened_def)
  have cc: "opt_comparator (t_options t) = c" using rd by (simp add: readable_def)
  define j where "j = lower_bound (Compare c) k ikvs"
  obtain ii :: "unit TableIter" where ii: "block_iterator c (t_index_block t) = Some ii" "ti_repr c valid ii ikvs None"
    using reads_iterator [OF ix] by blast
  obtain ii' where ii': "it_Seek TableIter_ops k ii = Some ii'" "ti_repr c valid ii' ikvs (at_pos j ikvs)"
    using ti_Seek [OF ii(2) vk] j_def by blast
  obtain st where st: "it_status TableIter_ops ii' = Some st" "status_ok st"
    using iterator_contract.repr_status [OF ti_contract ii'(2)] by blast
  have si: "sorted_source (Compare c) valid ikvs" by (rule iterator_contract.repr_sorted [OF ti_contract ii(2)])
  note inv = iterator_contract.repr_valid [OF ti_contract ii'(2)]
  note key = key_in_chunk [OF o _ j_def [symmetric] si, folded kvs]
  show ?thesis
  proof (cases "j < length ikvs")
    case False
    then have "InternalGet sn cops t ro k cache = Some (st, None, cache)"
      using cc ii(1) ii'(1) inv st by (simp add: InternalGet_def at_pos_def status_ok_def Status_OK_def)
    then show ?thesis using st(2) ca key False by auto
  next
    case True
    let ?xs = "fst (chunks ! j)"
    have val: "it_Valid TableIter_ops ii'" "it_value TableIter_ops ii' = Some (snd (ikvs ! j))"
      using inv iterator_contract.repr_at [OF ti_contract, of ii' ikvs j] ii'(2) True by (simp_all add: at_pos_def)
    obtain out where out: "filtered_out t (snd (ikvs ! j)) k = Some out" "out \<longrightarrow> (\<forall>v. (k, v) \<notin> set ?xs)"
      using filtered_out_ok [OF o True] by blast
    show ?thesis
    proof (cases out)
      case True
      then have "InternalGet sn cops t ro k cache = Some (st, None, cache)"
        using cc ii(1) ii'(1) val out(1) st by (simp add: InternalGet_def status_ok_def Status_OK_def)
      then show ?thesis using st(2) ca key out(2) True by auto
    next
      case nf: False
      have m: "chunk_map chunks (snd (ikvs ! j)) = Some ?xs"
      proof -
        have "chunk_map chunks (snd (ikvs ! j)) \<noteq> None" using fe nth_mem [OF True] unfolding fenced_def by blast
        then show ?thesis using arg_cong [OF bl, of "\<lambda>xs. xs ! j"] True l by auto
      qed
      have tinv: "table_inv c valid sn cops ok t H (chunk_map chunks) {#} cache" using rd ca by (simp add: table_inv_def)
      obtain it x cache1 where it: "BlockReader sn cops t ro cache (snd (ikvs ! j)) = Some (it, cache1)"
        "table_inv c valid sn cops ok t H (chunk_map chunks) {#x#} cache1" "ti_holds c valid x it ?xs None"
        using BlockReader_ok [OF tinv m] by blast
      define r where "r = lower_bound (Compare c) k ?xs"
      obtain it' where it': "it_Seek TableIter_ops k it = Some it'" "ti_repr c valid it' ?xs (at_pos r ?xs)" "ti_cleanup it' = ti_cleanup it"
        using ti_Seek [of it ?xs None k] it(3) vk r_def by (auto simp: ti_holds_def)
      have it'h: "ti_holds c valid x it' ?xs (at_pos r ?xs)" using it(3) it'(2,3) by (simp add: ti_holds_def)
      obtain sd where sd: "it_status TableIter_ops it' = Some sd" "status_ok sd"
        using iterator_contract.repr_status [OF ti_contract it'(2)] by blast
      obtain cache2 where c2: "delete_iter cops it' cache1 = Some cache2" "cached_ok c valid cops ok t (chunk_map chunks) H cache2"
        using delete_iter_ok [OF it(2) it'h] by (auto simp: table_inv_def)
      define saved where "saved = (if r < length ?xs then Some (?xs ! r) else None)"
      have ob: "(if it_Valid TableIter_ops it' then do { key \<leftarrow> it_key TableIter_ops it'; v \<leftarrow> it_value TableIter_ops it'; Some (Some (key, v)) }
          else Some None) = Some saved"
        using iterator_contract.repr_valid [OF ti_contract it'(2)] iterator_contract.repr_at [OF ti_contract, of it' ?xs r] it'(2)
        by (cases "r < length ?xs") (simp_all add: saved_def at_pos_def)
      have "InternalGet sn cops t ro k cache = Some (st, saved, cache2)"
        using cc ii(1) ii'(1) val out(1) nf it(1) it'(1) ob sd c2(1) st by (simp add: InternalGet_def)
      moreover have "lower_bound (Compare c) k kvs < length kvs \<and> e = kvs ! lower_bound (Compare c) k kvs" if "saved = Some e" for e
      proof -
        have r: "r < length ?xs" "e = ?xs ! r" using that by (simp_all add: saved_def split: if_splits)
        have "lower_bound (Compare c) k (concat (blocks (chunk_map chunks) ikvs)) = flat (blocks (chunk_map chunks) ikvs) j r"
          using two_level.lower_bound_blocks(1) [OF table_two_level si _ fe vk j_def [symmetric] True] so True l
          by (simp add: bl r_def)
        then show ?thesis using flat_nth [of j "map fst chunks" r] r True l by (simp add: bl kvs)
      qed
      moreover have "saved = Some (k, v)" if "(k, v) \<in> set kvs" for v
      proof -
        have "(k, v) \<in> set ?xs" using key that by blast
        then obtain n where n: "n < length ?xs" "?xs ! n = (k, v)" by (auto simp: in_set_conv_nth)
        have "sorted_source (Compare c) valid ?xs" by (rule iterator_contract.repr_sorted [OF ti_holds_contract it(3)])
        then have "r = n" using ordering.lower_bound_self [of ?xs n] n by (simp add: r_def)
        then show ?thesis using n by (simp add: saved_def)
      qed
      ultimately show ?thesis using st(2) c2(2) by blast
    qed
  qed
qed

end

end
