(* ===== verification/LdbTableSpec.thy ===== *)
theory LdbTableSpec
  imports LdbTableProps LdbFilterProps
begin

text \<open>
  What a table promises from end to end: the entries that were added to a builder come back from the
  reader, by its iterator and by lookups, through files that may fail, with any codec, filter
  policy and block cache that keep their contracts.
\<close>

section \<open>The parts that the code has\<close>

text \<open>A device of 200 bytes, and options with small blocks.\<close>

definition small_options :: "nat option \<Rightarrow> Options" where
  "small_options bits =
     \<lparr>opt_comparator = BytewiseComparator, opt_create_if_missing = False, opt_error_if_exists = False,
      opt_paranoid_checks = True, opt_write_buffer_size = 0, opt_max_open_files = 0, opt_block_size = 20,
      opt_block_restart_interval = 2, opt_compression = kNoCompression,
      opt_filter_policy = map_option (\<lambda>n. (str ''leveldb.BuiltinBloomFilter'', NewBloomFilterPolicy n)) bits\<rparr>"

interpretation small_table: table_store BytewiseComparator "\<lambda>_. True" no_snappy "PosixWritableFile (small_disk cap) name"
    "take (disk_size cap)" "small_options bits" for cap name bits
proof (rule table_store.intro)
  show "comparator_contract BytewiseComparator (\<lambda>_. True)" by (rule bytewise.comparator_contract_axioms)
  show "snappy_codec no_snappy" by (rule no_snappy.snappy_codec_axioms)
  show "honest_file (PosixWritableFile (small_disk cap) name) (take (disk_size cap))" by (rule disk.posix.honest_file_axioms)
  show "table_store_axioms BytewiseComparator (small_options bits)"
    by (rule table_store_axioms.intro) (use bloom.filter_policy_axioms in \<open>auto simp: small_options_def\<close>)
qed

lemma fresh_new: "fresh_for ShardedLRUCache_ops (Some sharded_ok) {#} (Some (NewLRUCache n))"
  unfolding fresh_for_def option.case
  by (rule exI [of _ sharded_ok], rule exI [of _ "\<lambda>_ _. False"]) (use NewLRUCache_ok lru.cache_contract_axioms in blast)

lemma fresh_cache_new: "fresh_cache ShardedLRUCache_ops (Some (NewLRUCache n))"
  using fresh_new by (auto simp: fresh_cache_def)

section \<open>Round trip\<close>

lemma build_and_open:
  assumes "table_store c valid sn ops data_of opt" and "data_of f = []" and "sorted_source (Compare c) valid kvs"
  obtains s r where "build_table ops sn opt kvs f = Some (s, r)"
    and "\<And>rf cops ok H cache. status_ok s \<Longrightarrow> length (data_of (tb_file r)) < 4294967296 \<Longrightarrow> random_access rf (data_of (tb_file r)) \<Longrightarrow>
      fresh_for cops ok H cache \<Longrightarrow>
      \<exists>t cache' chunks ikvs. Table_Open sn cops opt rf (of_nat (length (data_of (tb_file r)))) cache = Some (Status_OK, Some t, cache') \<and>
        opened c valid sn t chunks ikvs \<and> cached_ok c valid cops ok t (chunk_map chunks) H cache' \<and> kvs = concat (map fst chunks)"
proof -
  obtain s r where b: "build_table ops sn opt kvs f = Some (s, r)"
    "status_ok s \<longrightarrow> table_file c valid sn opt (data_of (tb_file r)) kvs"
    using table_store.build_table_ok [OF assms(1)] assms(2,3) by blast
  have "\<exists>t cache' chunks ikvs. Table_Open sn cops opt rf (of_nat (length (data_of (tb_file r)))) cache = Some (Status_OK, Some t, cache') \<and>
      opened c valid sn t chunks ikvs \<and> cached_ok c valid cops ok t (chunk_map chunks) H cache' \<and> kvs = concat (map fst chunks)"
    if prem: "status_ok s" "length (data_of (tb_file r)) < 4294967296" "random_access rf (data_of (tb_file r))" "fresh_for cops ok H cache"
    for rf cops ok H cache
  proof -
    have tf: "table_file c valid sn opt (data_of (tb_file r)) kvs" using b(2) prem(1) by blast
    have pol: "filter_policy p" if "opt_filter_policy opt = Some (name, p)" for name p by (rule table_store.policy [OF assms(1) that])
    have "\<exists>t cache' chunks ikvs. Table_Open sn cops opt rf (of_nat (length (data_of (tb_file r)))) cache = Some (Status_OK, Some t, cache') \<and>
        opened c valid sn t chunks ikvs \<and> cached_ok c valid cops ok t (chunk_map chunks) H cache' \<and> kvs = concat (map fst chunks) \<and> t_options t = opt"
      by (rule Table_Open_ok [OF tf prem(3,2) table_store.axioms(2) [OF assms(1)] _ table_store.opt_c [OF assms(1)] prem(4)]) (rule pol)
    then show ?thesis by blast
  qed
  with b(1) show ?thesis by (rule that)
qed

text \<open>
  C3: a table gives back what was built. For every strictly ordered list of entries the builder is total,
  with any file that is honest about its failures; when it says that the table was written, and the
  file is smaller than 4 GiB, the reader opens it, through any file that reads those contents and with
  any block cache or none, and its iterator does over every sequence of moves what a cursor over the
  list of entries does.
\<close>
theorem table_roundtrip:
  assumes "table_store c valid sn ops data_of opt" and "data_of f = []" and "sorted_source (Compare c) valid kvs"
  shows "\<exists>s r. build_table ops sn opt kvs f = Some (s, r) \<and>
    (status_ok s \<and> length (data_of (tb_file r)) < 4294967296 \<longrightarrow>
      (\<forall>rf (cops :: ('d, 'h, Block) Cache) cache ro. random_access rf (data_of (tb_file r)) \<longrightarrow> fresh_cache cops cache \<longrightarrow>
        (\<exists>t cache'. Table_Open sn cops opt rf (of_nat (length (data_of (tb_file r)))) cache = Some (Status_OK, Some t, cache') \<and>
          (\<forall>mvs os. list_all (move_valid valid) mvs \<longrightarrow> cursor_run (Compare c) kvs mvs None = Some os \<longrightarrow>
            (\<exists>it. Table_NewIterator t cache' = Some it \<and> iter_run (Table_ops sn cops t ro) mvs it = Some os)))))"
proof (rule build_and_open [OF assms])
  fix s r
  assume b: "build_table ops sn opt kvs f = Some (s, r)"
    and o: "\<And>rf (cops :: ('d, 'h, Block) Cache) ok H cache. status_ok s \<Longrightarrow> length (data_of (tb_file r)) < 4294967296 \<Longrightarrow> random_access rf (data_of (tb_file r)) \<Longrightarrow>
      fresh_for cops ok H cache \<Longrightarrow>
      \<exists>t cache' chunks ikvs. Table_Open sn cops opt rf (of_nat (length (data_of (tb_file r)))) cache = Some (Status_OK, Some t, cache') \<and>
        opened c valid sn t chunks ikvs \<and> cached_ok c valid cops ok t (chunk_map chunks) H cache' \<and> kvs = concat (map fst chunks)"
  have "\<exists>t cache'. Table_Open sn cops opt rf (of_nat (length (data_of (tb_file r)))) cache = Some (Status_OK, Some t, cache') \<and>
      (\<forall>mvs os. list_all (move_valid valid) mvs \<longrightarrow> cursor_run (Compare c) kvs mvs None = Some os \<longrightarrow>
        (\<exists>it. Table_NewIterator t cache' = Some it \<and> iter_run (Table_ops sn cops t ro) mvs it = Some os))"
    if p: "status_ok s" "length (data_of (tb_file r)) < 4294967296" "random_access rf (data_of (tb_file r))" "fresh_cache cops cache"
    for rf and cops :: "('d, 'h, Block) Cache" and cache ro
  proof -
    note cc = table_store.axioms(1) [OF assms(1)]
    obtain ok H where fr: "fresh_for cops ok H cache" using p(4) by (auto simp: fresh_cache_def)
    obtain t cache' chunks ikvs where t: "Table_Open sn cops opt rf (of_nat (length (data_of (tb_file r)))) cache = Some (Status_OK, Some t, cache')"
      "opened c valid sn t chunks ikvs" "cached_ok c valid cops ok t (chunk_map chunks) H cache'" "kvs = concat (map fst chunks)"
      using o [OF p(1-3) fr] by blast
    obtain it where it: "Table_NewIterator t cache' = Some it"
      "two_level.tl_repr (Compare c) valid (ti_holds c valid None) (ti_holds c valid) (table_inv c valid sn cops ok t H) {#} (chunk_map chunks) it kvs None"
      using comparator_contract.Table_iterator [OF cc t(2-4)] by blast
    show ?thesis using t(1) it(1) comparator_contract.Table_run [OF cc it(2)] by blast
  qed
  then show ?thesis using b by blast
qed

lemma disk_400:
  "PosixWritableFile (small_disk 400) [] =
     \<lparr>wf_Append = (\<lambda>d f. let n = min (length d) (400 - length f); f = f @ take n d
                      in if n \<noteq> length d then (IOError [] (str ''No space left on device''), f) else (Status_OK, f)),
      wf_Flush = (\<lambda>f. (Status_OK, f))\<rparr>"
  by (simp add: PosixWritableFile_def small_disk_def disk_size_def Let_def fun_eq_iff)

lemma small_table_built:
  "\<exists>s r. build_table (PosixWritableFile (small_disk 400) []) no_snappy (small_options None) [([1], [2]), ([1, 3], [])] [] = Some (s, r) \<and>
    status_ok s"
proof -
  have "case build_table (PosixWritableFile (small_disk 400) []) no_snappy (small_options None) [([1], [2]), ([1, 3], [])] [] of
      Some (s, r) \<Rightarrow> status_ok s | None \<Rightarrow> False"
    unfolding disk_400 by code_simp
  then show ?thesis by (auto split: option.splits)
qed

lemma disk_400_small: "length (take (disk_size 400) (f :: slice)) < 4294967296"
  by (simp add: disk_size_def)

theorem table_roundtrip_witness:
  "\<exists>s r t cache' it. build_table (PosixWritableFile (small_disk 400) []) no_snappy (small_options None) [([1], [2]), ([1, 3], [])] [] = Some (s, r) \<and>
    Table_Open no_snappy ShardedLRUCache_ops (small_options None) (TableStringSource (take (disk_size 400) (tb_file r)))
      (of_nat (length (take (disk_size 400) (tb_file r)))) (Some (NewLRUCache 100)) = Some (Status_OK, Some t, cache') \<and>
    Table_NewIterator t cache' = Some it \<and>
    iter_run (Table_ops no_snappy ShardedLRUCache_ops t new_ReadOptions) [MoveSeek [1, 2], MovePrev] it =
      Some [Some ([1, 3], []), Some ([1], [2])]"
proof -
  have s: "sorted_source (Compare BytewiseComparator) (\<lambda>_. True) [([1], [2]), ([1, 3], []) :: entry]" by code_simp
  have run: "cursor_run (Compare BytewiseComparator) [([1], [2]), ([1, 3], [])] [MoveSeek [1, 2], MovePrev] None =
      Some [Some ([1, 3], []), Some ([1], [2])]" by code_simp
  obtain s r where r: "build_table (PosixWritableFile (small_disk 400) []) no_snappy (small_options None) [([1], [2]), ([1, 3], [])] [] = Some (s, r)"
    "status_ok s" using small_table_built by blast
  let ?D = "take (disk_size 400) (tb_file r)"
  have src: "random_access (TableStringSource ?D) ?D"
    by (rule string_source_random_access) (simp add: disk_size_def)
  have all: "\<forall>rf (cops :: (Block ShardedLRUCache, cache_handle, Block) Cache) cache ro.
      random_access rf ?D \<longrightarrow> fresh_cache cops cache \<longrightarrow>
      (\<exists>t cache'. Table_Open no_snappy cops (small_options None) rf (of_nat (length ?D)) cache = Some (Status_OK, Some t, cache') \<and>
        (\<forall>mvs os. list_all (move_valid (\<lambda>_. True)) mvs \<longrightarrow> cursor_run (Compare BytewiseComparator) [([1], [2]), ([1, 3], [])] mvs None = Some os \<longrightarrow>
          (\<exists>it. Table_NewIterator t cache' = Some it \<and> iter_run (Table_ops no_snappy cops t ro) mvs it = Some os)))"
    using table_roundtrip [OF small_table.table_store_axioms [of 400 "[]" None], of "[]" "[([1], [2]), ([1, 3], [])]"]
      s r disk_400_small [of "tb_file r"] by auto
  obtain t cache' where t: "Table_Open no_snappy ShardedLRUCache_ops (small_options None) (TableStringSource ?D) (of_nat (length ?D))
      (Some (NewLRUCache 100)) = Some (Status_OK, Some t, cache')"
    "\<forall>mvs os. list_all (move_valid (\<lambda>_. True)) mvs \<longrightarrow> cursor_run (Compare BytewiseComparator) [([1], [2]), ([1, 3], [])] mvs None = Some os \<longrightarrow>
      (\<exists>it. Table_NewIterator t cache' = Some it \<and> iter_run (Table_ops no_snappy ShardedLRUCache_ops t new_ReadOptions) mvs it = Some os)"
    using all [rule_format, OF src fresh_cache_new [of 100], of new_ReadOptions] by blast
  have mv: "list_all (move_valid (\<lambda>_. True)) [MoveSeek [1, 2], MovePrev]" by simp
  obtain it where "Table_NewIterator t cache' = Some it" "iter_run (Table_ops no_snappy ShardedLRUCache_ops t new_ReadOptions) [MoveSeek [1, 2], MovePrev] it =
      Some [Some ([1, 3], []), Some ([1], [2])]" using t(2) [rule_format, OF mv run] by blast
  with r(1) t(1) show ?thesis by blast
qed

section \<open>Clients\<close>

text \<open>
  A client of a table makes lookups, and iterators that it moves and deletes; each request returns what
  the client saw. Lookups return the status with what was passed to the callback.
\<close>

datatype table_request = Lookup slice | Scan "move list"
datatype table_reply = Found Status "entry option" | Saw "entry option list"

fun serve ::
  "Snappy \<Rightarrow> ('c, 'h, Block) Cache \<Rightarrow> Table \<Rightarrow> ReadOptions \<Rightarrow> table_request \<Rightarrow> 'c option \<Rightarrow> (table_reply \<times> 'c option) option" where
  "serve sn cops t ro (Lookup k) cache =
     do { (s, e, cache) \<leftarrow> InternalGet sn cops t ro k cache; Some (Found s e, cache) }"
| "serve sn cops t ro (Scan mvs) cache =
     do {
       it \<leftarrow> Table_NewIterator t cache;
       (os, it) \<leftarrow> iter_walk (Table_ops sn cops t ro) mvs it;
       cache \<leftarrow> Table_delete cops it;
       Some (Saw os, cache)
     }"

primrec serve_all ::
  "Snappy \<Rightarrow> ('c, 'h, Block) Cache \<Rightarrow> Table \<Rightarrow> ReadOptions \<Rightarrow> table_request list \<Rightarrow> 'c option \<Rightarrow>
   (table_reply list \<times> 'c option) option" where
  "serve_all sn cops t ro [] cache = Some ([], cache)"
| "serve_all sn cops t ro (q # qs) cache =
     do { (r, cache) \<leftarrow> serve sn cops t ro q cache; (rs, cache) \<leftarrow> serve_all sn cops t ro qs cache; Some (r # rs, cache) }"

text \<open>The requests that are allowed, and what a list of entries answers to them.\<close>

fun request_ok :: "Comparator \<Rightarrow> (slice \<Rightarrow> bool) \<Rightarrow> entry list \<Rightarrow> table_request \<Rightarrow> bool" where
  "request_ok c valid kvs (Lookup k) = valid k"
| "request_ok c valid kvs (Scan mvs) = (list_all (move_valid valid) mvs \<and> cursor_run (Compare c) kvs mvs None \<noteq> None)"

fun answers :: "Comparator \<Rightarrow> entry list \<Rightarrow> table_request \<Rightarrow> table_reply \<Rightarrow> bool" where
  "answers c kvs (Lookup k) (Found s e) \<longleftrightarrow> status_ok s \<and>
     (\<forall>kv. e = Some kv \<longrightarrow> lower_bound (Compare c) k kvs < length kvs \<and> kv = kvs ! lower_bound (Compare c) k kvs) \<and>
     (\<forall>v. (k, v) \<in> set kvs \<longrightarrow> e = Some (k, v))"
| "answers c kvs (Scan mvs) (Saw os) \<longleftrightarrow> cursor_run (Compare c) kvs mvs None = Some os"
| "answers c kvs q r \<longleftrightarrow> False"

text \<open>The handles of the cache that are held are \<open>H\<close>, no more and no fewer.\<close>

definition handles_held :: "('c, 'h) cache_laws option \<Rightarrow> ('h \<times> Block) multiset \<Rightarrow> 'c option \<Rightarrow> bool" where
  "handles_held ok H cache \<longleftrightarrow>
     (case cache of None \<Rightarrow> ok = None | Some ca \<Rightarrow> \<exists>l P A. ok = Some l \<and> l P H A ca)"

lemma cached_ok_held: "cached_ok c valid cops ok t m H cache \<Longrightarrow> handles_held ok H cache"
  by (cases cache) (auto simp: cached_ok_def handles_held_def)

context comparator_contract
begin

lemma scan_ok:
  fixes cops :: "('c, 'h, Block) Cache"
  assumes o: "opened c valid sn t chunks ikvs" and kvs: "kvs = concat (map fst chunks)"
    and ca: "cached_ok c valid cops ok t (chunk_map chunks) H cache"
    and mvs: "list_all (move_valid valid) mvs" and run: "cursor_run (Compare c) kvs mvs None = Some os"
  shows "\<exists>cache'. serve sn cops t ro (Scan mvs) cache = Some (Saw os, cache') \<and> cached_ok c valid cops ok t (chunk_map chunks) H cache'"
proof -
  obtain it where it: "Table_NewIterator t cache = Some it"
    "two_level.tl_repr (Compare c) valid (ti_holds c valid None) (ti_holds c valid) (table_inv c valid sn cops ok t H) {#} (chunk_map chunks) it kvs None"
    using Table_iterator [OF o ca kvs] by blast
  obtain it' q where w: "iter_walk (Table_ops sn cops t ro) mvs it = Some (os, it')"
    "two_level.tl_repr (Compare c) valid (ti_holds c valid None) (ti_holds c valid) (table_inv c valid sn cops ok t H) {#} (chunk_map chunks) it' kvs q"
    using iterator_contract.iter_walk_repr [OF two_level.tl_contract [OF table_two_level] it(2) mvs run] unfolding Table_ops_def by blast
  have i: "\<exists>a'. delete_iter cops i a = Some a' \<and> table_inv c valid sn cops ok t H (chunk_map chunks) {#} a'"
    if "table_inv c valid sn cops ok t H (chunk_map chunks) {#} a" "ti_holds c valid None i ikvs q" for a i ikvs q
    using that by (simp add: delete_iter_def ti_holds_def)
  have "\<exists>a. Table_delete cops it' = Some a \<and> table_inv c valid sn cops ok t H (chunk_map chunks) {#} a"
    unfolding Table_delete_def by (rule two_level.tl_destroy [OF table_two_level w(2)]) (rule i)
  then show ?thesis using it(1) w(1) by (auto simp: table_inv_def)
qed

lemma serve_all_ok:
  fixes cops :: "('c, 'h, Block) Cache"
  assumes o: "opened c valid sn t chunks ikvs" and kvs: "kvs = concat (map fst chunks)"
  shows "cached_ok c valid cops ok t (chunk_map chunks) H cache \<Longrightarrow> \<forall>q \<in> set qs. request_ok c valid kvs q \<Longrightarrow>
    \<exists>rs cache'. serve_all sn cops t ro qs cache = Some (rs, cache') \<and> list_all2 (answers c kvs) qs rs \<and> handles_held ok H cache'"
proof (induction qs arbitrary: cache)
  case Nil
  then show ?case using cached_ok_held by auto
next
  case (Cons q qs)
  have "\<exists>r cache'. serve sn cops t ro q cache = Some (r, cache') \<and> answers c kvs q r \<and> cached_ok c valid cops ok t (chunk_map chunks) H cache'"
  proof (cases q)
    case (Lookup k)
    then have "valid k" using Cons.prems(2) by simp
    from InternalGet_ok [OF o Cons.prems(1) kvs this, of ro] show ?thesis using Lookup by auto
  next
    case (Scan mvs)
    then obtain os where "list_all (move_valid valid) mvs" "cursor_run (Compare c) kvs mvs None = Some os" using Cons.prems(2) by auto
    from scan_ok [OF o kvs Cons.prems(1) this, of ro] show ?thesis using Scan \<open>cursor_run (Compare c) kvs mvs None = Some os\<close> by auto
  qed
  then obtain r cache' where r: "serve sn cops t ro q cache = Some (r, cache')" "answers c kvs q r"
    "cached_ok c valid cops ok t (chunk_map chunks) H cache'" by blast
  obtain rs c2 where "serve_all sn cops t ro qs cache' = Some (rs, c2)" "list_all2 (answers c kvs) qs rs" "handles_held ok H c2"
    using Cons.IH [OF r(3)] Cons.prems(2) by auto
  then show ?case using r(1,2) by simp
qed

end

text \<open>
  C4: what a client of a table gets, and what it leaves. After the same round trip every sequence of lookups and
  of iterators that are moved and deleted is total. A lookup ends without error; what it passes to
  its callback is the first entry at or behind the key, and for a key of the table it is the entry of the key,
  whatever the filter policy. An iterator shows what a cursor over the list of entries shows. In the end the
  handles of the block cache that are held are those that were held before: every lookup, every
  replaced iterator and every deleted one has released its own, in any cache that keeps the contract.
\<close>
theorem table_get:
  assumes "table_store c valid sn ops data_of opt" and "data_of f = []" and "sorted_source (Compare c) valid kvs"
  shows "\<exists>s r. build_table ops sn opt kvs f = Some (s, r) \<and>
    (status_ok s \<and> length (data_of (tb_file r)) < 4294967296 \<longrightarrow>
      (\<forall>rf (cops :: ('d, 'h, Block) Cache) ok H cache ro qs. random_access rf (data_of (tb_file r)) \<longrightarrow> fresh_for cops ok H cache \<longrightarrow>
        (\<forall>q \<in> set qs. request_ok c valid kvs q) \<longrightarrow>
        (\<exists>t cache1 rs cache2. Table_Open sn cops opt rf (of_nat (length (data_of (tb_file r)))) cache = Some (Status_OK, Some t, cache1) \<and>
          serve_all sn cops t ro qs cache1 = Some (rs, cache2) \<and> list_all2 (answers c kvs) qs rs \<and> handles_held ok H cache2)))"
proof (rule build_and_open [OF assms])
  fix s r
  assume b: "build_table ops sn opt kvs f = Some (s, r)"
    and o: "\<And>rf (cops :: ('d, 'h, Block) Cache) ok H cache. status_ok s \<Longrightarrow> length (data_of (tb_file r)) < 4294967296 \<Longrightarrow> random_access rf (data_of (tb_file r)) \<Longrightarrow>
      fresh_for cops ok H cache \<Longrightarrow>
      \<exists>t cache' chunks ikvs. Table_Open sn cops opt rf (of_nat (length (data_of (tb_file r)))) cache = Some (Status_OK, Some t, cache') \<and>
        opened c valid sn t chunks ikvs \<and> cached_ok c valid cops ok t (chunk_map chunks) H cache' \<and> kvs = concat (map fst chunks)"
  have "\<exists>t cache1 rs cache2. Table_Open sn cops opt rf (of_nat (length (data_of (tb_file r)))) cache = Some (Status_OK, Some t, cache1) \<and>
      serve_all sn cops t ro qs cache1 = Some (rs, cache2) \<and> list_all2 (answers c kvs) qs rs \<and> handles_held ok H cache2"
    if p: "status_ok s" "length (data_of (tb_file r)) < 4294967296" "random_access rf (data_of (tb_file r))" "fresh_for cops ok H cache"
      "\<forall>q \<in> set qs. request_ok c valid kvs q" for rf and cops :: "('d, 'h, Block) Cache" and ok H cache ro qs
  proof -
    obtain t cache' chunks ikvs where t: "Table_Open sn cops opt rf (of_nat (length (data_of (tb_file r)))) cache = Some (Status_OK, Some t, cache')"
      "opened c valid sn t chunks ikvs" "cached_ok c valid cops ok t (chunk_map chunks) H cache'" "kvs = concat (map fst chunks)"
      using o [OF p(1-4)] by blast
    show ?thesis using t(1) comparator_contract.serve_all_ok [OF table_store.axioms(1) [OF assms(1)] t(2,4,3) p(5)] by blast
  qed
  then show ?thesis using b by blast
qed

text \<open>
  Two lookups and a scan through a block cache; afterwards the cache can be
  destroyed, which asserts that no client holds a handle.
\<close>

lemma answers_Lookup: "(k, v) \<in> set kvs \<Longrightarrow> answers c kvs (Lookup k) r \<Longrightarrow> \<exists>s. r = Found s (Some (k, v))"
  by (cases r) auto

lemma answers_Scan: "cursor_run (Compare c) kvs mvs None = Some os \<Longrightarrow> answers c kvs (Scan mvs) r \<Longrightarrow> r = Saw os"
  by (cases r) auto

lemma held_destroy:
  assumes "handles_held (Some sharded_ok) {#} cache"
  shows "\<exists>ca ss. cache = Some ca \<and> ShardedLRUCache_destroy ca = Some ss"
  using assms ShardedLRUCache_destroy_ok by (fastforce simp: handles_held_def split: option.splits)

theorem table_get_witness:
  "\<exists>r t cache1 s0 s2 ca ss.
    map_option snd (build_table (PosixWritableFile (small_disk 400) []) no_snappy (small_options None) [([1], [2]), ([1, 3], [])] []) = Some r \<and>
    Table_Open no_snappy ShardedLRUCache_ops (small_options None) (TableStringSource (take (disk_size 400) (tb_file r)))
      (of_nat (length (take (disk_size 400) (tb_file r)))) (Some (NewLRUCache 100)) = Some (Status_OK, Some t, cache1) \<and>
    serve_all no_snappy ShardedLRUCache_ops t new_ReadOptions [Lookup [1, 3], Scan [MoveFirst, MoveNext], Lookup [1]] cache1 =
      Some ([Found s0 (Some ([1, 3], [])), Saw [Some ([1], [2]), Some ([1, 3], [])], Found s2 (Some ([1], [2]))], Some ca) \<and>
    ShardedLRUCache_destroy ca = Some ss"
proof -
  let ?c = BytewiseComparator and ?kvs = "[([1], [2]), ([1, 3], [])] :: entry list"
  let ?qs = "[Lookup [1, 3], Scan [MoveFirst, MoveNext], Lookup [1]]"
  have s: "sorted_source (Compare ?c) (\<lambda>_. True) ?kvs" by code_simp
  have run: "cursor_run (Compare ?c) ?kvs [MoveFirst, MoveNext] None = Some [Some ([1], [2]), Some ([1, 3], [])]" by code_simp
  have qs: "\<forall>q \<in> set ?qs. request_ok ?c (\<lambda>_. True) ?kvs q" using run by simp
  obtain s r where r: "build_table (PosixWritableFile (small_disk 400) []) no_snappy (small_options None) ?kvs [] = Some (s, r)"
    "status_ok s" using small_table_built by blast
  let ?D = "take (disk_size 400) (tb_file r)"
  have src: "random_access (TableStringSource ?D) ?D"
    by (rule string_source_random_access) (simp add: disk_size_def)
  have all: "\<forall>rf (cops :: (Block ShardedLRUCache, cache_handle, Block) Cache) ok H cache ro qs. random_access rf ?D \<longrightarrow> fresh_for cops ok H cache \<longrightarrow>
      (\<forall>q \<in> set qs. request_ok ?c (\<lambda>_. True) ?kvs q) \<longrightarrow>
      (\<exists>t cache1 rs cache2. Table_Open no_snappy cops (small_options None) rf (of_nat (length ?D)) cache = Some (Status_OK, Some t, cache1) \<and>
        serve_all no_snappy cops t ro qs cache1 = Some (rs, cache2) \<and> list_all2 (answers ?c ?kvs) qs rs \<and> handles_held ok H cache2)"
    using table_get [OF small_table.table_store_axioms [of 400 "[]" None], of "[]" ?kvs] s r disk_400_small [of "tb_file r"] by auto
  obtain t cache1 rs cache2 where t: "Table_Open no_snappy ShardedLRUCache_ops (small_options None) (TableStringSource ?D)
      (of_nat (length ?D)) (Some (NewLRUCache 100)) = Some (Status_OK, Some t, cache1)"
    "serve_all no_snappy ShardedLRUCache_ops t new_ReadOptions ?qs cache1 = Some (rs, cache2)"
    "list_all2 (answers ?c ?kvs) ?qs rs" "handles_held (Some sharded_ok) {#} cache2"
    using all [rule_format, OF src fresh_new [of 100], of ?qs new_ReadOptions] qs by blast
  obtain r0 r1 r2 where rs: "rs = [r0, r1, r2]" "answers ?c ?kvs (Lookup [1, 3]) r0" "answers ?c ?kvs (Scan [MoveFirst, MoveNext]) r1"
    "answers ?c ?kvs (Lookup [1]) r2" using t(3) unfolding list_all2_Cons1 by auto
  obtain s0 s2 where "r0 = Found s0 (Some ([1, 3], []))" "r1 = Saw [Some ([1], [2]), Some ([1, 3], [])]" "r2 = Found s2 (Some ([1], [2]))"
    using answers_Lookup [OF _ rs(2), of "[]"] answers_Scan [OF run rs(3)] answers_Lookup [OF _ rs(4), of "[2]"] by auto
  moreover obtain ca ss where "cache2 = Some ca" "ShardedLRUCache_destroy ca = Some ss" using held_destroy [OF t(4)] by blast
  ultimately show ?thesis using r(1) t(1,2) rs(1) by (simp del: serve_all.simps)
qed

end
