(* ===== verification/LdbDBIter.thy ===== *)
theory LdbDBIter
  imports LdbIterator LdbHash
begin

text \<open>
  The iterator over a database at a sequence number, \<open>db/db_iter.cc\<close>: it combines the internal
  entries of a user key, which an internal iterator gives newest first, into one entry or none.
  \<open>None\<close> is a failing assert, an access out of bounds, or a loop that does not end. The keys that are
  passed to \<open>RecordReadSample\<close> of the database are kept in the state.
\<close>

section \<open>State\<close>

datatype Direction = kForward | kReverse

record 's DBIter =
  di_user_comparator :: Comparator
  di_iter :: 's
  di_sequence :: uint64_t
  di_status :: Status
  di_saved_key :: slice
  di_saved_value :: slice
  di_direction :: Direction
  di_valid :: bool
  di_rnd :: uint32_t
  di_bytes_counter :: int
  di_samples :: "slice list"

definition kReadBytesPeriod :: uint32_t where "kReadBytesPeriod = 1048576"

text \<open>The next gap and the new state of the random numbers.\<close>

definition RandomPeriod :: "uint32_t \<Rightarrow> int \<times> uint32_t" where
  "RandomPeriod seed = (let (n, seed) = Uniform (2 * kReadBytesPeriod) seed in (uint n, seed))"

definition NewDBIterator :: "Comparator \<Rightarrow> 's \<Rightarrow> uint64_t \<Rightarrow> uint32_t \<Rightarrow> 's DBIter" where
  "NewDBIterator user_key_comparator internal_iter s seed =
     (let (period, seed) = RandomPeriod (Random seed)
      in \<lparr>di_user_comparator = user_key_comparator, di_iter = internal_iter, di_sequence = s, di_status = Status_OK,
          di_saved_key = [], di_saved_value = [], di_direction = kForward, di_valid = False, di_rnd = seed,
          di_bytes_counter = period, di_samples = []\<rparr>)"

section \<open>The current entry\<close>

definition DBIter_key :: "'s Iterator \<Rightarrow> 's DBIter \<Rightarrow> slice option" where
  "DBIter_key ops t =
     (if \<not> di_valid t then None
      else if di_direction t = kForward then Option.bind (it_key ops (di_iter t)) ExtractUserKey
      else Some (di_saved_key t))"

definition DBIter_value :: "'s Iterator \<Rightarrow> 's DBIter \<Rightarrow> slice option" where
  "DBIter_value ops t =
     (if \<not> di_valid t then None
      else if di_direction t = kForward then it_value ops (di_iter t)
      else Some (di_saved_value t))"

definition DBIter_status :: "'s Iterator \<Rightarrow> 's DBIter \<Rightarrow> Status option" where
  "DBIter_status ops t = (if status_ok (di_status t) then it_status ops (di_iter t) else Some (di_status t))"

section \<open>Parsing, with the sampling of reads\<close>

partial_function (option) sample_loop :: "slice \<Rightarrow> 's DBIter \<Rightarrow> 's DBIter option" where
  "sample_loop k t =
     (if di_bytes_counter t < 0 then
        let (period, seed) = RandomPeriod (di_rnd t)
        in sample_loop k (t\<lparr>di_bytes_counter := di_bytes_counter t + period, di_rnd := seed, di_samples := di_samples t @ [k]\<rparr>)
      else Some t)"

text \<open>\<open>None\<close> for the key is the result false.\<close>

definition DBIter_ParseKey :: "'s Iterator \<Rightarrow> 's DBIter \<Rightarrow> (ParsedInternalKey option \<times> 's DBIter) option" where
  "DBIter_ParseKey ops t =
     do {
       k \<leftarrow> it_key ops (di_iter t);
       v \<leftarrow> it_value ops (di_iter t);
       t \<leftarrow> sample_loop k (t\<lparr>di_bytes_counter := di_bytes_counter t - int (length k + length v)\<rparr>);
       case ParseInternalKey k of
         None \<Rightarrow> Some (None, t\<lparr>di_status := Corruption (str ''corrupted internal key in DBIter'') []\<rparr>)
       | Some ikey \<Rightarrow> Some (Some ikey, t)
     }"

section \<open>Moving forward\<close>

text \<open>
  The body of the loop: whether it returns, whether entries are skipped from now on. The argument
  \<open>skip\<close> is the saved key at every call.
\<close>

definition next_entry :: "'s Iterator \<Rightarrow> bool \<Rightarrow> 's DBIter \<Rightarrow> (bool \<times> bool \<times> 's DBIter) option" where
  "next_entry ops skipping t =
     do {
       (ikey, t) \<leftarrow> DBIter_ParseKey ops t;
       case ikey of
         None \<Rightarrow> Some (False, skipping, t)
       | Some ikey \<Rightarrow>
           if sequence ikey \<le> di_sequence t then
             (case vtype ikey of
                kTypeDeletion \<Rightarrow> Some (False, True, t\<lparr>di_saved_key := user_key ikey\<rparr>)
              | kTypeValue \<Rightarrow> do {
                  hidden \<leftarrow> (if skipping
                            then map_option (\<lambda>r. r \<le> 0) (Compare (di_user_comparator t) (user_key ikey) (di_saved_key t))
                            else Some False);
                  if hidden then Some (False, skipping, t)
                  else Some (True, skipping, t\<lparr>di_valid := True, di_saved_key := []\<rparr>)
                })
           else Some (False, skipping, t)
     }"

partial_function (option) FindNextUserEntry_loop :: "'s Iterator \<Rightarrow> bool \<Rightarrow> 's DBIter \<Rightarrow> 's DBIter option" where
  "FindNextUserEntry_loop ops skipping t =
     do {
       (found, skipping, t) \<leftarrow> next_entry ops skipping t;
       if found then Some t
       else do {
         i \<leftarrow> it_Next ops (di_iter t);
         let t = t\<lparr>di_iter := i\<rparr>;
         if it_Valid ops i then FindNextUserEntry_loop ops skipping t
         else Some (t\<lparr>di_saved_key := [], di_valid := False\<rparr>)
       }
     }"

definition FindNextUserEntry :: "'s Iterator \<Rightarrow> bool \<Rightarrow> 's DBIter \<Rightarrow> 's DBIter option" where
  "FindNextUserEntry ops skipping t =
     (if it_Valid ops (di_iter t) \<and> di_direction t = kForward then FindNextUserEntry_loop ops skipping t else None)"

definition DBIter_Next :: "'s Iterator \<Rightarrow> 's DBIter \<Rightarrow> 's DBIter option" where
  "DBIter_Next ops t =
     (if \<not> di_valid t then None
      else if di_direction t = kReverse then do {
        let t = t\<lparr>di_direction := kForward\<rparr>;
        i \<leftarrow> (if \<not> it_Valid ops (di_iter t) then it_SeekToFirst ops (di_iter t) else it_Next ops (di_iter t));
        let t = t\<lparr>di_iter := i\<rparr>;
        if \<not> it_Valid ops i then Some (t\<lparr>di_valid := False, di_saved_key := []\<rparr>)
        else FindNextUserEntry ops True t
      }
      else do {
        k \<leftarrow> it_key ops (di_iter t);
        u \<leftarrow> ExtractUserKey k;
        FindNextUserEntry ops True (t\<lparr>di_saved_key := u\<rparr>)
      })"

section \<open>Moving backward\<close>

definition prev_entry :: "'s Iterator \<Rightarrow> ValueType \<Rightarrow> 's DBIter \<Rightarrow> (bool \<times> ValueType \<times> 's DBIter) option" where
  "prev_entry ops value_type t =
     do {
       (ikey, t) \<leftarrow> DBIter_ParseKey ops t;
       case ikey of
         None \<Rightarrow> Some (False, value_type, t)
       | Some ikey \<Rightarrow>
           if sequence ikey \<le> di_sequence t then do {
             stop \<leftarrow> (if value_type \<noteq> kTypeDeletion
                     then map_option (\<lambda>r. r < 0) (Compare (di_user_comparator t) (user_key ikey) (di_saved_key t))
                     else Some False);
             if stop then Some (True, value_type, t)
             else if vtype ikey = kTypeDeletion
             then Some (False, kTypeDeletion, t\<lparr>di_saved_key := [], di_saved_value := []\<rparr>)
             else do {
               raw_value \<leftarrow> it_value ops (di_iter t);
               k \<leftarrow> it_key ops (di_iter t);
               u \<leftarrow> ExtractUserKey k;
               Some (False, vtype ikey, t\<lparr>di_saved_key := u, di_saved_value := raw_value\<rparr>)
             }
           }
           else Some (False, value_type, t)
     }"

partial_function (option) FindPrevUserEntry_loop :: "'s Iterator \<Rightarrow> ValueType \<Rightarrow> 's DBIter \<Rightarrow> (ValueType \<times> 's DBIter) option" where
  "FindPrevUserEntry_loop ops value_type t =
     do {
       (stop, value_type, t) \<leftarrow> prev_entry ops value_type t;
       if stop then Some (value_type, t)
       else do {
         i \<leftarrow> it_Prev ops (di_iter t);
         let t = t\<lparr>di_iter := i\<rparr>;
         if it_Valid ops i then FindPrevUserEntry_loop ops value_type t else Some (value_type, t)
       }
     }"

definition FindPrevUserEntry :: "'s Iterator \<Rightarrow> 's DBIter \<Rightarrow> 's DBIter option" where
  "FindPrevUserEntry ops t =
     (if di_direction t \<noteq> kReverse then None
      else do {
        (value_type, t) \<leftarrow>
          (if it_Valid ops (di_iter t) then FindPrevUserEntry_loop ops kTypeDeletion t else Some (kTypeDeletion, t));
        Some (if value_type = kTypeDeletion
              then t\<lparr>di_valid := False, di_saved_key := [], di_saved_value := [], di_direction := kForward\<rparr>
              else t\<lparr>di_valid := True\<rparr>)
      })"

text \<open>Back to an entry with a smaller user key: whether there is one.\<close>

partial_function (option) scan_back :: "'s Iterator \<Rightarrow> 's DBIter \<Rightarrow> (bool \<times> 's DBIter) option" where
  "scan_back ops t =
     do {
       i \<leftarrow> it_Prev ops (di_iter t);
       let t = t\<lparr>di_iter := i\<rparr>;
       if \<not> it_Valid ops i then Some (False, t\<lparr>di_valid := False, di_saved_key := [], di_saved_value := []\<rparr>)
       else do {
         k \<leftarrow> it_key ops i;
         u \<leftarrow> ExtractUserKey k;
         r \<leftarrow> Compare (di_user_comparator t) u (di_saved_key t);
         if r < 0 then Some (True, t) else scan_back ops t
       }
     }"

definition DBIter_Prev :: "'s Iterator \<Rightarrow> 's DBIter \<Rightarrow> 's DBIter option" where
  "DBIter_Prev ops t =
     (if \<not> di_valid t then None
      else if di_direction t = kForward then
        if \<not> it_Valid ops (di_iter t) then None
        else do {
          k \<leftarrow> it_key ops (di_iter t);
          u \<leftarrow> ExtractUserKey k;
          (found, t) \<leftarrow> scan_back ops (t\<lparr>di_saved_key := u\<rparr>);
          if found then FindPrevUserEntry ops (t\<lparr>di_direction := kReverse\<rparr>) else Some t
        }
      else FindPrevUserEntry ops t)"

section \<open>Seeking\<close>

definition DBIter_Seek :: "'s Iterator \<Rightarrow> slice \<Rightarrow> 's DBIter \<Rightarrow> 's DBIter option" where
  "DBIter_Seek ops target t =
     do {
       let t = t\<lparr>di_direction := kForward, di_saved_value := []\<rparr>;
       k \<leftarrow> AppendInternalKey [] \<lparr>user_key = target, sequence = di_sequence t, vtype = kValueTypeForSeek\<rparr>;
       i \<leftarrow> it_Seek ops k (di_iter t);
       let t = t\<lparr>di_saved_key := k, di_iter := i\<rparr>;
       if it_Valid ops i then FindNextUserEntry ops False t else Some (t\<lparr>di_valid := False\<rparr>)
     }"

definition DBIter_SeekToFirst :: "'s Iterator \<Rightarrow> 's DBIter \<Rightarrow> 's DBIter option" where
  "DBIter_SeekToFirst ops t =
     do {
       i \<leftarrow> it_SeekToFirst ops (di_iter t);
       let t = t\<lparr>di_direction := kForward, di_saved_value := [], di_iter := i\<rparr>;
       if it_Valid ops i then FindNextUserEntry ops False t else Some (t\<lparr>di_valid := False\<rparr>)
     }"

definition DBIter_SeekToLast :: "'s Iterator \<Rightarrow> 's DBIter \<Rightarrow> 's DBIter option" where
  "DBIter_SeekToLast ops t =
     do {
       i \<leftarrow> it_SeekToLast ops (di_iter t);
       FindPrevUserEntry ops (t\<lparr>di_direction := kReverse, di_saved_value := [], di_iter := i\<rparr>)
     }"

definition DBIter_ops :: "'s Iterator \<Rightarrow> 's DBIter Iterator" where
  "DBIter_ops ops =
     \<lparr>it_Valid = di_valid, it_SeekToFirst = DBIter_SeekToFirst ops, it_SeekToLast = DBIter_SeekToLast ops,
      it_Seek = DBIter_Seek ops, it_Next = DBIter_Next ops, it_Prev = DBIter_Prev ops,
      it_key = DBIter_key ops, it_value = DBIter_value ops, it_status = DBIter_status ops\<rparr>"

end
