(* ===== verification/LdbRandom.thy ===== *)
theory LdbRandom
  imports LdbHash
begin

text \<open>The random numbers of \<open>util/random.h\<close> as arithmetic, and that they do not get stuck.\<close>

text \<open>\<open>Next\<close> multiplies modulo the prime \<open>2\<^sup>3\<^sup>1 - 1\<close>, without leaving the range of good seeds.\<close>

definition good_seed :: "uint32_t \<Rightarrow> bool" where
  "good_seed s \<longleftrightarrow> 0 < unat s \<and> unat s < 2147483647"

lemma Random_good: "good_seed (Random s)"
proof -
  let ?s = "s AND 0x7fffffff"
  have "?s = take_bit 31 s" by (simp add: take_bit_eq_mask mask_eq_exp_minus_1)
  then have "unat ?s < 2 ^ 31" by (simp only: unsigned_take_bit_eq take_bit_nat_less_exp)
  moreover have "unat ?s \<noteq> 2147483647" if "?s \<noteq> 2147483647" using that by (simp add: word_unat_eq_iff)
  moreover have "0 < unat ?s" if "?s \<noteq> 0" using that by (simp add: unat_gt_0)
  ultimately show ?thesis by (auto simp: Random_def Let_def good_seed_def)
qed

lemma Next_mod:
  assumes "good_seed s"
  shows "good_seed (Next s) \<and> unat (Next s) = unat s * 16807 mod 2147483647"
proof -
  define p where "p = unat s * 16807"
  define q where "q = p div 2147483648 + p mod 2147483648"
  have s: "0 < unat s" "unat s < 2147483647" using assms by (simp_all add: good_seed_def)
  have p: "p < 36092777454329" using s by (simp add: p_def)
  define X where "X = (ucast s :: uint64_t) * 16807"
  have X: "unat X = p"
    using p unfolding p_def X_def by (subst unat_word_ariths) (simp add: unsigned_ucast_eq take_bit_nat_eq_self)
  have m: "x AND ucast (2147483647 :: uint32_t) = take_bit 31 x" for x :: uint64_t by (simp add: take_bit_eq_mask mask_eq_exp_minus_1)
  have lo: "unat (take_bit 31 X) = p mod 2147483648" unfolding unsigned_take_bit_eq X by (simp add: take_bit_eq_mod)
  have hi: "unat (drop_bit 31 X) = p div 2147483648" by (simp add: drop_bit_eq_div unat_div X)
  have q: "q < 4294967296" using p by (simp add: q_def)
  then have "unat (drop_bit 31 X + take_bit 31 X) = q" unfolding unat_word_ariths hi lo by (simp add: q_def)
  then have w: "unat (ucast (drop_bit 31 X + take_bit 31 X) :: uint32_t) = q"
    using q by (simp add: unsigned_ucast_eq take_bit_nat_eq_self)
  have N: "Next s = (let h = ucast (drop_bit 31 X + take_bit 31 X) in if h > 2147483647 then h - 2147483647 else h)"
    by (simp only: Next_def Let_def X_def m [symmetric])
  have pq: "p = p div 2147483648 * 2147483647 + q" by (simp add: q_def)
  then have m: "p mod 2147483647 = q mod 2147483647" by (metis mod_mult_self3)
  have "\<not> 2147483647 dvd p"
  proof
    assume "2147483647 dvd p"
    then have "2147483647 dvd p * 1407677000" by (rule dvd_mult2)
    moreover have "p * 1407677000 = 2147483647 * (unat s * 11017) + unat s" by (simp add: p_def)
    ultimately have "2147483647 dvd unat s" by (simp only: dvd_add_right_iff [OF dvd_triv_left])
    then show False using s by (auto dest: dvd_imp_le)
  qed
  then have nz: "q mod 2147483647 \<noteq> 0" using m by (simp add: dvd_eq_mod_eq_0)
  have q2: "q < 2 * 2147483647" using p by (simp add: q_def)
  have "unat (Next s) = q mod 2147483647"
  proof (cases "2147483647 < q")
    case True
    then have "q mod 2147483647 = q - 2147483647" using q2 by (simp add: mod_if)
    moreover have "unat (Next s) = q - 2147483647"
      using True w unfolding N Let_def by (simp add: word_less_nat_alt unat_sub_if_size)
    ultimately show ?thesis by simp
  next
    case False
    then have "q < 2147483647" using nz by (cases "q = 2147483647") auto
    then show ?thesis using w unfolding N Let_def by (simp add: word_less_nat_alt)
  qed
  then show ?thesis using nz m by (simp add: good_seed_def p_def)
qed

text \<open>A period may be 0, but not two in a row.\<close>

lemma Next_no_two_zeros:
  assumes "good_seed s" and "unat (Next s) mod 2097152 = 0"
  shows "unat (Next (Next s)) mod 2097152 \<noteq> 0"
proof -
  define k where "k = unat (Next s) div 2097152"
  have g: "good_seed (Next s)" using Next_mod [OF assms(1)] by blast
  have k: "unat (Next s) = 2097152 * k" using assms(2) by (auto simp: k_def)
  then have k1: "0 < k" "k < 1024" using g by (simp_all add: good_seed_def)
  define a where "a = k * 16807 mod 1024"
  define b where "b = k * 16807 div 1024"
  have ab: "a \<le> 1023" "16 \<le> b" "b \<le> 16790" using k1 by (simp_all add: a_def b_def less_eq_div_iff_mult_less_eq)
  have "unat (Next s) * 16807 = 2097152 * (1024 * b + a)" by (simp add: k a_def b_def)
  also have "\<dots> = 2097152 * a + b + b * 2147483647" by simp
  finally have e: "unat (Next s) * 16807 = 2097152 * a + b + b * 2147483647" .
  have "unat (Next s) * 16807 mod 2147483647 = (2097152 * a + b) mod 2147483647" unfolding e by (rule mod_mult_self1)
  also have "\<dots> = 2097152 * a + b" using ab by simp
  finally have "unat (Next (Next s)) = 2097152 * a + b" using Next_mod [OF g] by simp
  then show ?thesis using ab by simp
qed

end
