(* ===== verification/LdbDBIterProps.thy ===== *)
theory LdbDBIterProps
  imports LdbDBIter LdbRandom LdbKeyProps
begin

text \<open>
  The iterator over a database is an iterator of the interface over the entries that are visible at its sequence
  number: for each user key the newest entry up to that number, if it is not a deletion.
\<close>

section \<open>Sampling ends\<close>

lemma RandomPeriod_spec:
  assumes "good_seed s" and "RandomPeriod s = (n, s')"
  shows "good_seed s'" and "n = int (unat (Next s) mod 2097152)" and "s' = Next s"
proof -
  have "RandomPeriod s = (uint (Next s mod 2097152), Next s)"
    by (simp add: RandomPeriod_def Uniform_def Let_def kReadBytesPeriod_def)
  then have n: "n = uint (Next s mod 2097152)" "s' = Next s" using assms(2) by simp_all
  show "s' = Next s" "good_seed s'" using n Next_mod [OF assms(1)] by simp_all
  have "unat (Next s mod 2097152) = unat (Next s) mod 2097152" by (subst unat_mod_distrib) simp
  then show "n = int (unat (Next s) mod 2097152)" unfolding n(1) uint_nat by simp
qed

text \<open>What parsing a key may change besides the status.\<close>

definition same_but_samples :: "'s DBIter \<Rightarrow> 's DBIter \<Rightarrow> bool" where
  "same_but_samples t t' \<longleftrightarrow> good_seed (di_rnd t') \<and>
     t' = t\<lparr>di_bytes_counter := di_bytes_counter t', di_rnd := di_rnd t', di_samples := di_samples t'\<rparr>"

lemma sample_loop_ends:
  "good_seed (di_rnd t) \<Longrightarrow> \<exists>t'. sample_loop k t = Some t' \<and> same_but_samples t t'"
proof (induction "2 * nat (- di_bytes_counter t) + (if unat (Next (di_rnd t)) mod 2097152 = 0 then 1 else 0)" arbitrary: t rule: less_induct)
  case less
  show ?case
  proof (cases "di_bytes_counter t < 0")
    case False
    then show ?thesis using less.prems by (simp add: sample_loop.simps [of k t] same_but_samples_def)
  next
    case True
    obtain n s where r: "RandomPeriod (di_rnd t) = (n, s)" by (meson surj_pair)
    note R = RandomPeriod_spec [OF less.prems r]
    let ?t = "t\<lparr>di_bytes_counter := di_bytes_counter t + n, di_rnd := s, di_samples := di_samples t @ [k]\<rparr>"
    have "2 * nat (- di_bytes_counter ?t) + (if unat (Next (di_rnd ?t)) mod 2097152 = 0 then 1 else 0) <
        2 * nat (- di_bytes_counter t) + (if unat (Next (di_rnd t)) mod 2097152 = 0 then 1 else 0)"
    proof (cases "unat (Next (di_rnd t)) mod 2097152 = 0")
      case True
      then show ?thesis using Next_no_two_zeros [OF less.prems True] R(2,3) by simp
    next
      case False
      then have "nat (- di_bytes_counter ?t) < nat (- di_bytes_counter t)" using R(2) True by simp
      moreover have "2 * x + (if P then 1 else 0) < 2 * y + (if Q then 1 else 0)" if "x < y" for x y :: nat and P Q
        using that by simp
      ultimately show ?thesis by blast
    qed
    from less.hyps [OF this] R(1) obtain t' where t': "sample_loop k ?t = Some t'" "same_but_samples ?t t'" by auto
    have "same_but_samples t t'" using t'(2) by (simp add: same_but_samples_def)
    then show ?thesis using True r t'(1) by (simp add: sample_loop.simps [of k t])
  qed
qed

section \<open>The entries that a user sees\<close>

definition ikey :: "entry list \<Rightarrow> nat \<Rightarrow> ParsedInternalKey" where
  "ikey kvs i = the (ParseInternalKey (fst (kvs ! i)))"

definition visible :: "uint64_t \<Rightarrow> entry list \<Rightarrow> nat \<Rightarrow> bool" where
  "visible s kvs i \<longleftrightarrow> sequence (ikey kvs i) \<le> s"

text \<open>An entry is shown when it is visible, not a deletion, and the first visible one of its user key.\<close>

definition shown :: "Comparator \<Rightarrow> uint64_t \<Rightarrow> entry list \<Rightarrow> nat \<Rightarrow> bool" where
  "shown c s kvs i \<longleftrightarrow> visible s kvs i \<and> vtype (ikey kvs i) = kTypeValue \<and>
     (\<forall>j < i. visible s kvs j \<longrightarrow> Compare c (user_key (ikey kvs j)) (user_key (ikey kvs i)) \<noteq> Some 0)"

definition shown_index :: "Comparator \<Rightarrow> uint64_t \<Rightarrow> entry list \<Rightarrow> nat list" where
  "shown_index c s kvs = filter (shown c s kvs) [0..<length kvs]"

definition user_view :: "Comparator \<Rightarrow> uint64_t \<Rightarrow> entry list \<Rightarrow> entry list" where
  "user_view c s kvs = map (\<lambda>i. (user_key (ikey kvs i), snd (kvs ! i))) (shown_index c s kvs)"

definition entries_parse :: "entry list \<Rightarrow> bool" where
  "entries_parse kvs \<longleftrightarrow> (\<forall>e \<in> set kvs. ParseInternalKey (fst e) \<noteq> None)"

text \<open>Positions in a filtered range.\<close>

lemma rank_first:
  assumes "q \<le> r" and "r < n" and "P r" and "\<forall>i. q \<le> i \<longrightarrow> i < r \<longrightarrow> \<not> P i"
  shows "length (filter P [0..<q]) < length (filter P [0..<n]) \<and> filter P [0..<n] ! length (filter P [0..<q]) = r"
proof -
  have "[0..<n] = [0..<q] @ [q..<r] @ r # [Suc r..<n]"
    using upt_add_eq_append [of 0 q "r - q"] upt_add_eq_append [of 0 r "n - r"] upt_conv_Cons [OF assms(2)] assms(1,2) by simp
  moreover have "filter P [q..<r] = []" using assms(4) by (auto simp: filter_empty_conv)
  ultimately have "filter P [0..<n] = filter P [0..<q] @ r # filter P [Suc r..<n]" using assms(3) by simp
  then show ?thesis by simp
qed

lemma rank_none:
  assumes "q \<le> n" and "\<forall>i. q \<le> i \<longrightarrow> i < n \<longrightarrow> \<not> P i"
  shows "length (filter P [0..<q]) = length (filter P [0..<n])"
proof -
  have "[0..<n] = [0..<q] @ [q..<n]" using upt_add_eq_append [of 0 q "n - q"] assms(1) by simp
  moreover have "filter P [q..<n] = []" using assms(2) by (auto simp: filter_empty_conv)
  ultimately show ?thesis by simp
qed

lemma rank_Suc: "P r \<Longrightarrow> length (filter P [0..<Suc r]) = Suc (length (filter P [0..<r]))"
  by simp

section \<open>Parsed keys and their order\<close>

lemma Parse_user_key:
  assumes "ParseInternalKey k = Some ik"
  shows "ExtractUserKey k = Some (user_key ik)" and "user_part k = user_key ik" and "8 \<le> length k"
    and "unat (key_num k) = unat (sequence ik) * 256 + unat (type_code (vtype ik))"
proof -
  show l: "8 \<le> length k" using assms by (auto simp: ParseInternalKey_def Let_def split: if_splits)
  have p: "user_key ik = take (length k - 8) k" "sequence ik = drop_bit 8 (key_num k)" "ValueType_of (ucast (key_num k AND 0xff)) = Some (vtype ik)"
    using assms l by (auto simp: ParseInternalKey_def Let_def DecodeFixed64_num split: option.splits)
  show "ExtractUserKey k = Some (user_key ik)" "user_part k = user_key ik"
    using p(1) l by (simp_all add: ExtractUserKey_def user_part_def)
  have "ucast (key_num k AND 0xff) = type_code (vtype ik)"
    using p(3) by (auto simp: ValueType_of_def split: if_splits)
  moreover have "unat (ucast (key_num k AND 0xff) :: pb_byte_t) = unat (key_num k) mod 256"
  proof -
    have m: "key_num k AND 0xff = take_bit 8 (key_num k)" by (simp add: take_bit_eq_mask mask_eq_exp_minus_1)
    show ?thesis unfolding m unsigned_ucast_eq unsigned_take_bit_eq by (simp add: take_bit_eq_mod)
  qed
  ultimately have "unat (key_num k) mod 256 = unat (type_code (vtype ik))" by simp
  moreover have "unat (key_num k) div 256 = unat (sequence ik)" using p(2) unat_drop_bit [of 8 "key_num k"] by (simp add: drop_bit_eq_div)
  ultimately show "unat (key_num k) = unat (sequence ik) * 256 + unat (type_code (vtype ik))" by (metis div_mult_mod_eq)
qed

locale db_iter = comparator_contract c valid +
  inner: iterator_contract "Compare (InternalKeyComparator c)" "internal_valid valid" ops repr
  for c :: Comparator and valid :: "slice \<Rightarrow> bool" and ops :: "'s Iterator" and repr :: "'s \<Rightarrow> entry list \<Rightarrow> nat option \<Rightarrow> bool" +
  fixes s :: uint64_t
  assumes seq_max: "s \<le> kMaxSequenceNumber"
begin

abbreviation lt where "lt \<equiv> before (Compare c)"
abbreviation u where "u kvs i \<equiv> user_key (ikey kvs i)"
abbreviation vis where "vis \<equiv> visible s"

lemma compare_lt:
  assumes "valid a" and "valid b"
  shows "\<exists>r. Compare c a b = Some r \<and> (r < 0 \<longleftrightarrow> lt a b) \<and> (r \<le> 0 \<longleftrightarrow> \<not> lt b a) \<and> (r = 0 \<longleftrightarrow> \<not> lt a b \<and> \<not> lt b a)"
  using compare_sym [OF assms] by (auto simp: before_def sgn_if split: if_splits)

definition src :: "entry list \<Rightarrow> bool" where
  "src kvs \<longleftrightarrow> sorted_source (Compare (InternalKeyComparator c)) (internal_valid valid) kvs \<and> entries_parse kvs"

lemma ikey_at: "src kvs \<Longrightarrow> i < length kvs \<Longrightarrow> ParseInternalKey (fst (kvs ! i)) = Some (ikey kvs i)"
  by (auto simp: src_def entries_parse_def ikey_def)

lemma u_valid:
  assumes "src kvs" and "i < length kvs"
  shows "valid (u kvs i)"
proof -
  have "\<forall>kv \<in> set kvs. internal_valid valid (fst kv)" using assms(1) by (simp add: src_def sorted_source_def)
  then have "internal_valid valid (fst (kvs ! i))" using nth_mem [OF assms(2)] by blast
  then show ?thesis using Parse_user_key(2) [OF ikey_at [OF assms]] by (simp add: internal_valid_def)
qed

lemma internal_before:
  assumes "8 \<le> length a" and "8 \<le> length b" and "valid (user_part a)" and "valid (user_part b)"
  shows "before (Compare (InternalKeyComparator c)) a b \<longleftrightarrow>
    lt (user_part a) (user_part b) \<or> \<not> lt (user_part b) (user_part a) \<and> key_num b < key_num a"
  unfolding before_def [of "Compare (InternalKeyComparator c)"]
  using compare_lt [OF assms(3,4)] assms(1,2) by (auto simp: InternalKeyComparator_def internal_Compare_parts)

lemma u_mono:
  assumes "src kvs" and "i \<le> j" and "j < length kvs"
  shows "\<not> lt (u kvs j) (u kvs i)"
proof (cases "i = j")
  case True
  then show ?thesis using compare_lt [OF u_valid u_valid, OF assms(1,3) assms(1,3)] by auto
next
  case False
  then have i: "i < length kvs" "i < j" using assms(2,3) by simp_all
  note P = Parse_user_key [OF ikey_at [OF assms(1) i(1)]] and Q = Parse_user_key [OF ikey_at [OF assms(1,3)]]
  have "before (Compare (InternalKeyComparator c)) (fst (kvs ! i)) (fst (kvs ! j))"
    using assms(1,3) i by (auto simp: src_def sorted_source_def sorted_wrt_iff_nth_less)
  then show ?thesis
    using internal_before [OF P(3) Q(3)] P(2) Q(2) u_valid [OF assms(1) i(1)] u_valid [OF assms(1,3)]
      compare_lt [of "u kvs i" "u kvs j"] by auto
qed

text \<open>An entry that is shown is the first visible one of its user key.\<close>

lemma shown_first:
  assumes "src kvs" and "shown c s kvs i" and "i < length kvs" and "j < i" and "vis kvs j"
  shows "lt (u kvs j) (u kvs i)"
proof -
  have j: "j < length kvs" using assms(3,4) by simp
  have "Compare c (u kvs j) (u kvs i) \<noteq> Some 0" using assms(2,4,5) by (simp add: shown_def)
  then show ?thesis
    using compare_lt [OF u_valid [OF assms(1) j] u_valid [OF assms(1,3)]] u_mono [OF assms(1) _ assms(3), of j] assms(4) by auto
qed

lemma shownI:
  assumes "src kvs" and "i < length kvs" and "vis kvs i" and "vtype (ikey kvs i) = kTypeValue"
    and "\<And>j. j < i \<Longrightarrow> vis kvs j \<Longrightarrow> lt (u kvs j) (u kvs i)"
  shows "shown c s kvs i"
  unfolding shown_def
proof (intro conjI allI impI assms(3,4))
  fix j assume j: "j < i" "vis kvs j"
  then have "j < length kvs" using assms(2) by simp
  then show "Compare c (u kvs j) (u kvs i) \<noteq> Some 0"
    using compare_lt [OF u_valid [OF assms(1)] u_valid [OF assms(1,2)], of j] assms(5) [OF j] by auto
qed

section \<open>The body of the loops\<close>

text \<open>What every operation keeps.\<close>

definition sane :: "'s DBIter \<Rightarrow> bool" where
  "sane t \<longleftrightarrow> di_user_comparator t = c \<and> di_sequence t = s \<and> status_ok (di_status t) \<and> good_seed (di_rnd t)"

lemma sane_update [simp]:
  "sane (t\<lparr>di_saved_key := k\<rparr>) = sane t" "sane (t\<lparr>di_saved_value := v\<rparr>) = sane t" "sane (t\<lparr>di_iter := i\<rparr>) = sane t"
  "sane (t\<lparr>di_direction := d\<rparr>) = sane t" "sane (t\<lparr>di_valid := b\<rparr>) = sane t"
  by (simp_all add: sane_def)

lemma same_but_samplesD:
  assumes "same_but_samples t t'"
  shows "di_user_comparator t' = di_user_comparator t" "di_iter t' = di_iter t" "di_sequence t' = di_sequence t"
    "di_status t' = di_status t" "di_saved_key t' = di_saved_key t" "di_saved_value t' = di_saved_value t"
    "di_direction t' = di_direction t" "di_valid t' = di_valid t" "sane t \<Longrightarrow> sane t'"
proof -
  have e: "t' = t\<lparr>di_bytes_counter := di_bytes_counter t', di_rnd := di_rnd t', di_samples := di_samples t'\<rparr>"
    and g: "good_seed (di_rnd t')" using assms by (simp_all add: same_but_samples_def)
  show "di_user_comparator t' = di_user_comparator t" "di_iter t' = di_iter t" "di_sequence t' = di_sequence t"
    "di_status t' = di_status t" "di_saved_key t' = di_saved_key t" "di_saved_value t' = di_saved_value t"
    "di_direction t' = di_direction t" "di_valid t' = di_valid t" by (subst e, simp)+
  then show "sane t \<Longrightarrow> sane t'" using g by (simp add: sane_def)
qed

lemma ParseKey_at:
  assumes "src kvs" and "repr (di_iter t) kvs (Some i)" and "sane t"
  shows "\<exists>t'. DBIter_ParseKey ops t = Some (Some (ikey kvs i), t') \<and> same_but_samples t t'"
proof -
  have at: "i < length kvs" "it_key ops (di_iter t) = Some (fst (kvs ! i))" "it_value ops (di_iter t) = Some (snd (kvs ! i))"
    using inner.repr_at [OF assms(2)] by blast+
  let ?t = "t\<lparr>di_bytes_counter := di_bytes_counter t - int (length (fst (kvs ! i)) + length (snd (kvs ! i)))\<rparr>"
  obtain t' where t': "sample_loop (fst (kvs ! i)) ?t = Some t'" "same_but_samples ?t t'"
    using sample_loop_ends [of ?t "fst (kvs ! i)"] assms(3) by (auto simp: sane_def)
  have "same_but_samples t t'" using t'(2) by (simp add: same_but_samples_def)
  then show ?thesis using at(2,3) t'(1) ikey_at [OF assms(1) at(1)] by (simp add: DBIter_ParseKey_def)
qed

lemma next_entry_at:
  assumes "src kvs" and "repr (di_iter t) kvs (Some i)" and "sane t" and "skipping \<Longrightarrow> valid (di_saved_key t)"
  shows "\<exists>t1. same_but_samples t t1 \<and> next_entry ops skipping t = Some
    (if vis kvs i then
       (case vtype (ikey kvs i) of
          kTypeDeletion \<Rightarrow> (False, True, t1\<lparr>di_saved_key := u kvs i\<rparr>)
        | kTypeValue \<Rightarrow>
            if skipping \<and> \<not> lt (di_saved_key t) (u kvs i) then (False, skipping, t1)
            else (True, skipping, t1\<lparr>di_valid := True, di_saved_key := []\<rparr>))
     else (False, skipping, t1))"
proof -
  obtain t1 where t1: "DBIter_ParseKey ops t = Some (Some (ikey kvs i), t1)" "same_but_samples t t1"
    using ParseKey_at [OF assms(1-3)] by blast
  note S = same_but_samplesD [OF t1(2)]
  have v: "valid (u kvs i)" using u_valid [OF assms(1)] inner.repr_at [OF assms(2)] by blast
  have c: "di_user_comparator t1 = c" "di_sequence t1 = s" using S assms(3) by (simp_all add: sane_def)
  show ?thesis
  proof (cases skipping)
    case False
    then show ?thesis using t1 c by (intro exI [of _ t1]) (simp add: next_entry_def visible_def split: ValueType.split)
  next
    case True
    obtain r where r: "Compare c (u kvs i) (di_saved_key t) = Some r" "r \<le> 0 \<longleftrightarrow> \<not> lt (di_saved_key t) (u kvs i)"
      using compare_lt [OF v assms(4) [OF True]] by blast
    then show ?thesis using t1 c True S(5) by (intro exI [of _ t1]) (simp add: next_entry_def visible_def split: ValueType.split)
  qed
qed

lemma prev_entry_at:
  assumes "src kvs" and "repr (di_iter t) kvs (Some i)" and "sane t" and "vt \<noteq> kTypeDeletion \<Longrightarrow> valid (di_saved_key t)"
  shows "\<exists>t1. same_but_samples t t1 \<and> prev_entry ops vt t = Some
    (if vis kvs i then
       if vt \<noteq> kTypeDeletion \<and> lt (u kvs i) (di_saved_key t) then (True, vt, t1)
       else (case vtype (ikey kvs i) of
          kTypeDeletion \<Rightarrow> (False, kTypeDeletion, t1\<lparr>di_saved_key := [], di_saved_value := []\<rparr>)
        | kTypeValue \<Rightarrow> (False, kTypeValue, t1\<lparr>di_saved_key := u kvs i, di_saved_value := snd (kvs ! i)\<rparr>))
     else (False, vt, t1))"
proof -
  obtain t1 where t1: "DBIter_ParseKey ops t = Some (Some (ikey kvs i), t1)" "same_but_samples t t1"
    using ParseKey_at [OF assms(1-3)] by blast
  note S = same_but_samplesD [OF t1(2)]
  have at: "i < length kvs" "it_key ops (di_iter t) = Some (fst (kvs ! i))" "it_value ops (di_iter t) = Some (snd (kvs ! i))"
    using inner.repr_at [OF assms(2)] by blast+
  have e: "ExtractUserKey (fst (kvs ! i)) = Some (u kvs i)" by (rule Parse_user_key(1) [OF ikey_at [OF assms(1) at(1)]])
  have v: "valid (u kvs i)" by (rule u_valid [OF assms(1) at(1)])
  have c: "di_user_comparator t1 = c" "di_sequence t1 = s" using S assms(3) by (simp_all add: sane_def)
  show ?thesis
  proof (cases "vt = kTypeDeletion")
    case True
    then show ?thesis using t1 c S(2) at e
      by (intro exI [of _ t1]) (simp add: prev_entry_def visible_def split: ValueType.split)
  next
    case False
    obtain r where r: "Compare c (u kvs i) (di_saved_key t) = Some r" "r < 0 \<longleftrightarrow> lt (u kvs i) (di_saved_key t)"
      using compare_lt [OF v assms(4) [OF False]] by blast
    then show ?thesis using t1 c S(2,5) at e False
      by (intro exI [of _ t1]) (simp add: prev_entry_def visible_def split: ValueType.split)
  qed
qed

section \<open>Forward\<close>

definition fwd :: "entry list \<Rightarrow> nat option \<Rightarrow> 's DBIter \<Rightarrow> bool" where
  "fwd kvs r t \<longleftrightarrow> sane t \<and> src kvs \<and>
     (case r of None \<Rightarrow> \<not> di_valid t \<and> (\<exists>p. repr (di_iter t) kvs p)
      | Some i \<Rightarrow> di_valid t \<and> di_direction t = kForward \<and> repr (di_iter t) kvs (Some i))"

text \<open>The first entry from \<open>q\<close> that is shown and has a user key past \<open>K\<close>, if there is a bound.\<close>

definition wanted :: "entry list \<Rightarrow> slice option \<Rightarrow> nat \<Rightarrow> bool" where
  "wanted kvs K i \<longleftrightarrow> shown c s kvs i \<and> (\<forall>k. K = Some k \<longrightarrow> lt k (u kvs i))"

definition first_at :: "entry list \<Rightarrow> slice option \<Rightarrow> nat \<Rightarrow> nat option \<Rightarrow> bool" where
  "first_at kvs K q r \<longleftrightarrow>
     (case r of None \<Rightarrow> \<forall>i. q \<le> i \<longrightarrow> i < length kvs \<longrightarrow> \<not> wanted kvs K i
      | Some r \<Rightarrow> q \<le> r \<and> r < length kvs \<and> wanted kvs K r \<and> (\<forall>i. q \<le> i \<longrightarrow> i < r \<longrightarrow> \<not> wanted kvs K i))"

text \<open>
  Before the loop is at \<open>j\<close>: nothing is wanted so far; without skipping every visible entry before has a smaller
  user key; with skipping the saved key is at or past them, and it is the bound or the key of a deletion.
\<close>

definition next_inv :: "entry list \<Rightarrow> slice option \<Rightarrow> nat \<Rightarrow> nat \<Rightarrow> bool \<Rightarrow> 's DBIter \<Rightarrow> bool" where
  "next_inv kvs K q j skipping t \<longleftrightarrow>
     src kvs \<and> sane t \<and> di_direction t = kForward \<and> repr (di_iter t) kvs (Some j) \<and>
     (\<forall>i. q \<le> i \<longrightarrow> i < j \<longrightarrow> \<not> wanted kvs K i) \<and>
     (\<forall>k i. K = Some k \<longrightarrow> j \<le> i \<longrightarrow> i < length kvs \<longrightarrow> vis kvs i \<longrightarrow> \<not> lt (u kvs i) k) \<and>
     (if skipping
      then valid (di_saved_key t) \<and> (\<forall>i < j. vis kvs i \<longrightarrow> \<not> lt (di_saved_key t) (u kvs i)) \<and>
        (K = Some (di_saved_key t) \<or> (\<exists>d < j. vis kvs d \<and> u kvs d = di_saved_key t)) \<and>
        (\<forall>k. K = Some k \<longrightarrow> valid k \<and> \<not> lt (di_saved_key t) k)
      else K = None \<and> (\<forall>i < j. vis kvs i \<longrightarrow> lt (u kvs i) (u kvs j)))"

lemma next_invD:
  assumes "next_inv kvs K q j skipping t"
  shows "src kvs" "sane t" "di_direction t = kForward" "repr (di_iter t) kvs (Some j)"
    "\<And>i. q \<le> i \<Longrightarrow> i < j \<Longrightarrow> \<not> wanted kvs K i"
    "\<And>k i. K = Some k \<Longrightarrow> j \<le> i \<Longrightarrow> i < length kvs \<Longrightarrow> vis kvs i \<Longrightarrow> \<not> lt (u kvs i) k"
    "skipping \<Longrightarrow> valid (di_saved_key t)"
    "\<And>i. skipping \<Longrightarrow> i < j \<Longrightarrow> vis kvs i \<Longrightarrow> \<not> lt (di_saved_key t) (u kvs i)"
    "skipping \<Longrightarrow> K = Some (di_saved_key t) \<or> (\<exists>d < j. vis kvs d \<and> u kvs d = di_saved_key t)"
    "\<And>k. skipping \<Longrightarrow> K = Some k \<Longrightarrow> valid k \<and> \<not> lt (di_saved_key t) k"
    "\<not> skipping \<Longrightarrow> K = None"
    "\<And>i. \<not> skipping \<Longrightarrow> i < j \<Longrightarrow> vis kvs i \<Longrightarrow> lt (u kvs i) (u kvs j)"
    "j < length kvs"
  using assms inner.repr_at [of "di_iter t" kvs j] by (simp_all add: next_inv_def)

text \<open>An entry that the loop passes is not wanted, and one where it stops is.\<close>

lemma not_wanted_hidden:
  assumes inv: "next_inv kvs K q j True t" and h: "vis kvs j \<longrightarrow> \<not> lt (di_saved_key t) (u kvs j) \<or> vtype (ikey kvs j) = kTypeDeletion"
  shows "\<not> wanted kvs K j"
proof
  note N = next_invD [OF inv]
  assume w: "wanted kvs K j"
  then have sh: "shown c s kvs j" and k: "\<And>k. K = Some k \<Longrightarrow> lt k (u kvs j)" by (auto simp: wanted_def)
  then have "\<not> lt (di_saved_key t) (u kvs j)" using h by (auto simp: shown_def)
  then obtain d where d: "d < j" "vis kvs d" "u kvs d = di_saved_key t" using N(9) k by auto
  have "lt (u kvs d) (u kvs j)" by (rule shown_first [OF N(1) sh N(13) d(1,2)])
  then show False using d(3) \<open>\<not> lt (di_saved_key t) (u kvs j)\<close> by simp
qed

lemma wanted_found:
  assumes inv: "next_inv kvs K q j skipping t" and v: "vis kvs j" "vtype (ikey kvs j) = kTypeValue"
    and h: "skipping \<Longrightarrow> lt (di_saved_key t) (u kvs j)"
  shows "wanted kvs K j"
proof -
  note N = next_invD [OF inv]
  have before: "lt (u kvs i) (u kvs j)" if i: "i < j" "vis kvs i" for i
  proof (cases skipping)
    case True
    have "i < length kvs" using i(1) N(13) by simp
    then show ?thesis
      using ordering.not_before_trans [of "u kvs i" "di_saved_key t" "u kvs j"] u_valid [OF N(1)] N(7,8,13) i True h by blast
  qed (use N(12) i in blast)
  moreover have "lt k (u kvs j)" if k: "K = Some k" for k
  proof (cases skipping)
    case True
    then show ?thesis using ordering.not_before_trans [of k "di_saved_key t" "u kvs j"] N(7) N(10) [OF True k] u_valid [OF N(1,13)] h by blast
  qed (use N(11) k in simp)
  ultimately show ?thesis using shownI [OF N(1,13) v] by (simp add: wanted_def)
qed

lemma next_inv_step:
  assumes inv: "next_inv kvs K q j skipping t" and i: "repr i kvs (Some (Suc j))"
    and t: "sane t'" "di_direction t' = kForward" and nw: "\<not> wanted kvs K j"
    and sk: "vis kvs j \<Longrightarrow> vtype (ikey kvs j) = kTypeDeletion \<Longrightarrow> skipping' \<and> di_saved_key t' = u kvs j"
      "\<not> (vis kvs j \<and> vtype (ikey kvs j) = kTypeDeletion) \<Longrightarrow> skipping' = skipping \<and> di_saved_key t' = di_saved_key t"
    and hid: "vis kvs j \<Longrightarrow> vtype (ikey kvs j) = kTypeValue \<Longrightarrow> skipping \<and> \<not> lt (di_saved_key t) (u kvs j)"
  shows "next_inv kvs K q (Suc j) skipping' (t'\<lparr>di_iter := i\<rparr>)"
proof -
  note N = next_invD [OF inv]
  have j: "Suc j < length kvs" using inner.repr_at [OF i] by blast
  have nw': "\<And>i. q \<le> i \<Longrightarrow> i < Suc j \<Longrightarrow> \<not> wanted kvs K i" using N(5) nw less_Suc_eq by auto
  have K: "\<And>k i. K = Some k \<Longrightarrow> Suc j \<le> i \<Longrightarrow> i < length kvs \<Longrightarrow> vis kvs i \<Longrightarrow> \<not> lt (u kvs i) k" using N(6) by auto
  show ?thesis
  proof (cases "vis kvs j \<and> vtype (ikey kvs j) = kTypeDeletion")
    case True
    then have s': "skipping'" "di_saved_key t' = u kvs j" using sk(1) by blast+
    have "\<not> lt (u kvs j) (u kvs i)" if "i < Suc j" for i using u_mono [OF N(1), of i j] N(13) that by simp
    moreover have "valid k \<and> \<not> lt (u kvs j) k" if k: "K = Some k" for k
    proof -
      have "skipping" using N(11) k by auto
      then show ?thesis using N(10) [OF _ k] N(6) [OF k, of j] N(13) True by blast
    qed
    ultimately show ?thesis
      using N(1) t i nw' K s' True u_valid [OF N(1,13)] unfolding next_inv_def by (auto intro: exI [of _ j])
  next
    case False
    then have s': "skipping' = skipping" "di_saved_key t' = di_saved_key t" using sk(2) by blast+
    show ?thesis
    proof (cases skipping)
      case True
      have h: "\<not> lt (di_saved_key t) (u kvs j)" if "vis kvs j" using False hid that by (cases "vtype (ikey kvs j)") auto
      have all: "\<forall>i < Suc j. vis kvs i \<longrightarrow> \<not> lt (di_saved_key t) (u kvs i)" using N(8) [OF True] h less_Suc_eq by auto
      have or: "K = Some (di_saved_key t) \<or> (\<exists>d < Suc j. vis kvs d \<and> u kvs d = di_saved_key t)"
        using N(9) [OF True] less_Suc_eq by auto
      show ?thesis unfolding next_inv_def using N(1,7,10) True t i nw' K s' all or by simp
    next
      case nsk: False
      have nv: "\<not> vis kvs j" using False hid nsk by (cases "vtype (ikey kvs j)") auto
      have "lt (u kvs i) (u kvs (Suc j))" if l: "i < Suc j" "vis kvs i" for i
      proof -
        have ij: "i < j" using l nv less_Suc_eq by auto
        show ?thesis
          using ordering.before_not_trans [OF u_valid [OF N(1)] u_valid [OF N(1,13)] u_valid [OF N(1) j] N(12) [OF nsk ij l(2)]]
            u_mono [OF N(1) _ j, of j] ij N(13) by simp
      qed
      then show ?thesis unfolding next_inv_def using N(1,11) nsk t i nw' K s' by simp
    qed
  qed
qed

lemma find_next_loop:
  "next_inv kvs K q j skipping t \<Longrightarrow> q \<le> j \<Longrightarrow>
   \<exists>t' r. FindNextUserEntry_loop ops skipping t = Some t' \<and> fwd kvs r t' \<and> first_at kvs K q r"
proof (induction "length kvs - j" arbitrary: j skipping t rule: less_induct)
  case less
  note N = next_invD [OF less.prems(1)]
  obtain t1 where t1: "same_but_samples t t1" "next_entry ops skipping t = Some
    (if vis kvs j then
       (case vtype (ikey kvs j) of
          kTypeDeletion \<Rightarrow> (False, True, t1\<lparr>di_saved_key := u kvs j\<rparr>)
        | kTypeValue \<Rightarrow>
            if skipping \<and> \<not> lt (di_saved_key t) (u kvs j) then (False, skipping, t1)
            else (True, skipping, t1\<lparr>di_valid := True, di_saved_key := []\<rparr>))
     else (False, skipping, t1))"
    using next_entry_at [OF N(1,4,2,7)] by blast
  note S = same_but_samplesD [OF t1(1)]
  show ?case
  proof (cases "vis kvs j \<and> vtype (ikey kvs j) = kTypeValue \<and> \<not> (skipping \<and> \<not> lt (di_saved_key t) (u kvs j))")
    case True
    let ?t = "t1\<lparr>di_valid := True, di_saved_key := []\<rparr>"
    have "FindNextUserEntry_loop ops skipping t = Some ?t"
      using t1(2) True by (subst FindNextUserEntry_loop.simps) (simp split del: if_split)
    moreover have "fwd kvs (Some j) ?t" using S N(1-4) by (simp add: fwd_def)
    moreover have "first_at kvs K q (Some j)"
      using wanted_found [OF less.prems(1)] True N(5,13) less.prems(2) by (auto simp: first_at_def)
    ultimately show ?thesis by blast
  next
    case False
    obtain sk t2 where e: "next_entry ops skipping t = Some (False, sk, t2)" "sane t2" "di_direction t2 = kForward" "di_iter t2 = di_iter t"
      "vis kvs j \<Longrightarrow> vtype (ikey kvs j) = kTypeDeletion \<Longrightarrow> sk \<and> di_saved_key t2 = u kvs j"
      "\<not> (vis kvs j \<and> vtype (ikey kvs j) = kTypeDeletion) \<Longrightarrow> sk = skipping \<and> di_saved_key t2 = di_saved_key t"
    proof (cases "vis kvs j \<and> vtype (ikey kvs j) = kTypeDeletion")
      case True
      then show ?thesis using that [of True "t1\<lparr>di_saved_key := u kvs j\<rparr>"] t1(2) S N(2,3) by simp
    next
      case nd: False
      then have "next_entry ops skipping t = Some (False, skipping, t1)"
        using t1(2) False by (cases "vtype (ikey kvs j)") auto
      then show ?thesis using that [of skipping t1] S N(2,3) nd by simp
    qed
    have hid: "skipping \<and> \<not> lt (di_saved_key t) (u kvs j)" if "vis kvs j" "vtype (ikey kvs j) = kTypeValue" using False that by blast
    have nw: "\<not> wanted kvs K j"
    proof (cases skipping)
      case True
      have "vis kvs j \<longrightarrow> \<not> lt (di_saved_key t) (u kvs j) \<or> vtype (ikey kvs j) = kTypeDeletion"
        using hid by (cases "vtype (ikey kvs j)") auto
      then show ?thesis using not_wanted_hidden [of kvs K q j t] less.prems(1) True by simp
    next
      case nsk: False
      then show ?thesis using hid by (auto simp: wanted_def shown_def)
    qed
    obtain i where i: "it_Next ops (di_iter t) = Some i" "repr i kvs (at_pos (j + 1) kvs)" using inner.repr_next [OF N(4)] by blast
    have iv: "it_Valid ops i \<longleftrightarrow> Suc j < length kvs" using inner.repr_valid [OF i(2)] by (simp add: at_pos_def)
    show ?thesis
    proof (cases "Suc j < length kvs")
      case True
      then have i': "repr i kvs (Some (Suc j))" using i(2) by (simp add: at_pos_def)
      have inv: "next_inv kvs K q (Suc j) sk (t2\<lparr>di_iter := i\<rparr>)"
        by (rule next_inv_step [OF less.prems(1) i' e(2,3) nw e(5,6) hid])
      obtain t' r where "FindNextUserEntry_loop ops sk (t2\<lparr>di_iter := i\<rparr>) = Some t'" "fwd kvs r t'" "first_at kvs K q r"
        using less.hyps [OF diff_less_mono2 [OF lessI N(13)] inv] less.prems(2) by auto
      then show ?thesis using e(1,4) i(1) iv True
        by (intro exI [of _ t'] exI [of _ r] conjI; (subst FindNextUserEntry_loop.simps)?) simp_all
    next
      case last: False
      let ?t = "t2\<lparr>di_iter := i, di_saved_key := [], di_valid := False\<rparr>"
      have "FindNextUserEntry_loop ops skipping t = Some ?t"
        using e(1,4) i(1) iv last by (subst FindNextUserEntry_loop.simps) simp
      moreover have "fwd kvs None ?t" using e(2) N(1) i(2) by (auto simp: fwd_def)
      moreover have "first_at kvs K q None"
        unfolding first_at_def option.case
      proof (intro allI impI)
        fix l assume "q \<le> l" "l < length kvs"
        then show "\<not> wanted kvs K l" using N(5) nw last by (cases "l = j") auto
      qed
      ultimately show ?thesis by blast
    qed
  qed
qed

section \<open>Backward\<close>

text \<open>The position behind that of the internal iterator, which may be before the first entry.\<close>

definition behind :: "nat option \<Rightarrow> nat" where
  "behind q = (case q of None \<Rightarrow> 0 | Some q \<Rightarrow> Suc q)"

text \<open>The iterator stands before the entries of entry \<open>k\<close>, which is saved, with nothing visible between.\<close>

definition saved_entry :: "entry list \<Rightarrow> nat \<Rightarrow> 's DBIter \<Rightarrow> bool" where
  "saved_entry kvs k t \<longleftrightarrow>
     di_direction t = kReverse \<and> k < length kvs \<and> di_saved_key t = u kvs k \<and> di_saved_value t = snd (kvs ! k) \<and>
     (\<exists>q. repr (di_iter t) kvs q \<and> behind q \<le> k \<and> (\<forall>j. behind q \<le> j \<longrightarrow> j < k \<longrightarrow> \<not> vis kvs j))"

definition last_at :: "entry list \<Rightarrow> nat \<Rightarrow> nat option \<Rightarrow> bool" where
  "last_at kvs h r \<longleftrightarrow>
     (case r of None \<Rightarrow> \<forall>i < h. \<not> shown c s kvs i
      | Some r \<Rightarrow> r < h \<and> shown c s kvs r \<and> (\<forall>i. r < i \<longrightarrow> i < h \<longrightarrow> \<not> shown c s kvs i))"

text \<open>Entry \<open>k\<close> is the candidate, and the entries from \<open>j\<close> down are still to be looked at.\<close>

definition candidate :: "entry list \<Rightarrow> nat \<Rightarrow> nat \<Rightarrow> nat \<Rightarrow> 's DBIter \<Rightarrow> bool" where
  "candidate kvs h j k t \<longleftrightarrow>
     j \<le> k \<and> k < h \<and> vis kvs k \<and> vtype (ikey kvs k) = kTypeValue \<and> di_saved_key t = u kvs k \<and> di_saved_value t = snd (kvs ! k) \<and>
     (\<forall>i. j \<le> i \<longrightarrow> i < k \<longrightarrow> \<not> vis kvs i) \<and> (\<forall>i. k < i \<longrightarrow> i < h \<longrightarrow> \<not> shown c s kvs i)"

definition looked_at :: "entry list \<Rightarrow> nat \<Rightarrow> nat \<Rightarrow> ValueType \<Rightarrow> 's DBIter \<Rightarrow> bool" where
  "looked_at kvs h j vt t \<longleftrightarrow>
     (case vt of kTypeDeletion \<Rightarrow> \<forall>i. j \<le> i \<longrightarrow> i < h \<longrightarrow> \<not> shown c s kvs i
      | kTypeValue \<Rightarrow> \<exists>k. candidate kvs h j k t)"

lemma candidate_shown:
  assumes "src kvs" and "candidate kvs h j k t" and "h \<le> length kvs"
    and "\<And>i. i < j \<Longrightarrow> vis kvs i \<Longrightarrow> lt (u kvs i) (u kvs k)"
  shows "shown c s kvs k" and "last_at kvs h (Some k)"
proof -
  have k: "k < length kvs" "vis kvs k" "vtype (ikey kvs k) = kTypeValue" using assms(2,3) by (auto simp: candidate_def)
  show "shown c s kvs k"
  proof (rule shownI [OF assms(1) k])
    fix i assume "i < k" "vis kvs i"
    then show "lt (u kvs i) (u kvs k)" using assms(2,4) by (cases "i < j") (auto simp: candidate_def)
  qed
  then show "last_at kvs h (Some k)" using assms(2) by (simp add: last_at_def candidate_def)
qed

text \<open>A visible entry with the key of the candidate takes its place.\<close>

lemma looked_at_replaced:
  assumes src: "src kvs" and l: "looked_at kvs h (Suc j) vt t" and h: "h \<le> length kvs" and v: "vis kvs j"
    and same: "vt \<noteq> kTypeDeletion \<Longrightarrow> \<not> lt (u kvs j) (di_saved_key t)" and i: "j < i" "i < h"
  shows "\<not> shown c s kvs i"
proof (cases vt)
  case kTypeDeletion
  then show ?thesis using l i by (simp add: looked_at_def)
next
  case kTypeValue
  then obtain k where k: "candidate kvs h (Suc j) k t" using l by (auto simp: looked_at_def)
  then have "\<not> lt (u kvs j) (u kvs k)" using same kTypeValue by (simp add: candidate_def)
  then have "\<not> shown c s kvs k" using shown_first [OF src _ _ _ v, of k] k h by (auto simp: candidate_def)
  then show ?thesis using k i by (cases i k rule: linorder_cases) (auto simp: candidate_def shown_def)
qed

lemma find_prev_loop:
  "src kvs \<Longrightarrow> sane t \<Longrightarrow> di_direction t = kReverse \<Longrightarrow> repr (di_iter t) kvs (Some j) \<Longrightarrow> j < h \<Longrightarrow> h \<le> length kvs \<Longrightarrow>
   looked_at kvs h (Suc j) vt t \<Longrightarrow>
   \<exists>vt' t' r. FindPrevUserEntry_loop ops vt t = Some (vt', t') \<and> sane t' \<and> last_at kvs h r \<and>
     (case r of None \<Rightarrow> vt' = kTypeDeletion \<and> (\<exists>p. repr (di_iter t') kvs p)
      | Some k \<Rightarrow> vt' \<noteq> kTypeDeletion \<and> saved_entry kvs k t')"
proof (induction j arbitrary: vt t rule: less_induct)
  case (less j)
  note src = less.prems(1) and h = less.prems(5,6) and l = less.prems(7)
  have j: "j < length kvs" using inner.repr_at [OF less.prems(4)] by blast
  have vk: "vt \<noteq> kTypeDeletion \<Longrightarrow> valid (di_saved_key t)"
  proof -
    assume "vt \<noteq> kTypeDeletion"
    then obtain k where "candidate kvs h (Suc j) k t" using l by (cases vt) (auto simp: looked_at_def)
    then show ?thesis using u_valid [OF src, of k] h by (auto simp: candidate_def)
  qed
  obtain t1 where t1: "same_but_samples t t1" "prev_entry ops vt t = Some
    (if vis kvs j then
       if vt \<noteq> kTypeDeletion \<and> lt (u kvs j) (di_saved_key t) then (True, vt, t1)
       else (case vtype (ikey kvs j) of
          kTypeDeletion \<Rightarrow> (False, kTypeDeletion, t1\<lparr>di_saved_key := [], di_saved_value := []\<rparr>)
        | kTypeValue \<Rightarrow> (False, kTypeValue, t1\<lparr>di_saved_key := u kvs j, di_saved_value := snd (kvs ! j)\<rparr>))
     else (False, vt, t1))"
    using prev_entry_at [OF src less.prems(4,2) vk] by blast
  note S = same_but_samplesD [OF t1(1)]
  show ?case
  proof (cases "vis kvs j \<and> vt \<noteq> kTypeDeletion \<and> lt (u kvs j) (di_saved_key t)")
    case True
    then obtain k where k: "candidate kvs h (Suc j) k t" using l by (cases vt) (auto simp: looked_at_def)
    have kl: "k < length kvs" "di_saved_key t = u kvs k" using k h by (auto simp: candidate_def)
    have "lt (u kvs i) (u kvs k)" if "i < Suc j" for i
      using ordering.not_before_trans [OF u_valid [OF src] u_valid [OF src j] u_valid [OF src kl(1)], of i] u_mono [OF src, of i j] that j True kl(2)
      by simp
    then have sh: "last_at kvs h (Some k)" using candidate_shown(2) [OF src k h(2)] by blast
    have "saved_entry kvs k t1"
      using k kl S less.prems(3,4) by (auto simp: saved_entry_def candidate_def behind_def intro!: exI [of _ "Some j"])
    moreover have "FindPrevUserEntry_loop ops vt t = Some (vt, t1)"
      using t1(2) True by (subst FindPrevUserEntry_loop.simps) simp
    ultimately show ?thesis using sh S(9) less.prems(2) True by (intro exI [of _ vt] exI [of _ t1] exI [of _ "Some k"]) simp
  next
    case False
    then have same: "vis kvs j \<Longrightarrow> vt \<noteq> kTypeDeletion \<Longrightarrow> \<not> lt (u kvs j) (di_saved_key t)" by blast
    obtain vt2 t2 where e: "prev_entry ops vt t = Some (False, vt2, t2)" "sane t2" "di_direction t2 = kReverse" "di_iter t2 = di_iter t"
      "looked_at kvs h j vt2 t2"
    proof (cases "vis kvs j")
      case nv: False
      have "looked_at kvs h j vt t1"
      proof (cases vt)
        case kTypeDeletion
        then show ?thesis using l nv Suc_le_eq by (auto simp: looked_at_def shown_def le_less)
      next
        case kTypeValue
        then obtain k where k: "candidate kvs h (Suc j) k t" using l by (auto simp: looked_at_def)
        have "\<not> vis kvs i" if "j \<le> i" "i < k" for i using k nv that by (cases "i = j") (auto simp: candidate_def)
        then have "candidate kvs h j k t1" using k S by (simp add: candidate_def)
        then show ?thesis using kTypeValue by (auto simp: looked_at_def)
      qed
      then show ?thesis using that [of vt t1] t1(2) nv S less.prems(2,3) by simp
    next
      case v: True
      have hidden: "\<not> shown c s kvs i" if "j < i" "i < h" for i
        by (rule looked_at_replaced [OF src l h(2) v same [OF v] that])
      show ?thesis
      proof (cases "vtype (ikey kvs j)")
        case kTypeDeletion
        then have "looked_at kvs h j kTypeDeletion (t1\<lparr>di_saved_key := [], di_saved_value := []\<rparr>)"
          using hidden by (auto simp: looked_at_def le_less shown_def)
        then show ?thesis using that [of kTypeDeletion "t1\<lparr>di_saved_key := [], di_saved_value := []\<rparr>"] t1(2) v False S less.prems(2,3) kTypeDeletion
          by simp
      next
        case kTypeValue
        let ?t = "t1\<lparr>di_saved_key := u kvs j, di_saved_value := snd (kvs ! j)\<rparr>"
        have "candidate kvs h j j ?t" using hidden v kTypeValue h(1) by (simp add: candidate_def)
        then have "looked_at kvs h j kTypeValue ?t" by (auto simp: looked_at_def)
        then show ?thesis using that [of kTypeValue ?t] t1(2) v False S less.prems(2,3) kTypeValue by simp
      qed
    qed
    obtain i where i: "it_Prev ops (di_iter t) = Some i" "repr i kvs (last_pos j)" using inner.repr_prev [OF less.prems(4)] by blast
    have iv: "it_Valid ops i \<longleftrightarrow> j \<noteq> 0" using inner.repr_valid [OF i(2)] by (simp add: last_pos_def)
    show ?thesis
    proof (cases "j = 0")
      case j0: True
      let ?t = "t2\<lparr>di_iter := i\<rparr>"
      have loop: "FindPrevUserEntry_loop ops vt t = Some (vt2, ?t)"
        using e(1,4) i(1) iv j0 by (subst FindPrevUserEntry_loop.simps) simp
      show ?thesis
      proof (cases vt2)
        case kTypeDeletion
        then have "last_at kvs h None" using e(5) j0 by (simp add: looked_at_def last_at_def)
        then show ?thesis using loop e(2) i(2) kTypeDeletion by (intro exI [of _ vt2] exI [of _ ?t] exI [of _ None]) auto
      next
        case kTypeValue
        then obtain k where k: "candidate kvs h j k t2" using e(5) by (auto simp: looked_at_def)
        have "last_at kvs h (Some k)" using candidate_shown(2) [OF src k h(2)] j0 by simp
        moreover have "saved_entry kvs k ?t"
          using k e(3) i(2) j0 h by (auto simp: saved_entry_def candidate_def behind_def last_pos_def intro!: exI [of _ None])
        ultimately show ?thesis using loop e(2) kTypeValue by (intro exI [of _ vt2] exI [of _ ?t] exI [of _ "Some k"]) simp
      qed
    next
      case jS: False
      then have "repr (di_iter (t2\<lparr>di_iter := i\<rparr>)) kvs (Some (j - 1))" using i(2) by (simp add: last_pos_def)
      moreover have "looked_at kvs h (Suc (j - 1)) vt2 (t2\<lparr>di_iter := i\<rparr>)"
        using e(5) jS by (simp add: looked_at_def candidate_def split: ValueType.splits)
      ultimately obtain vt' t' r where "FindPrevUserEntry_loop ops vt2 (t2\<lparr>di_iter := i\<rparr>) = Some (vt', t')" "sane t'" "last_at kvs h r"
        "case r of None \<Rightarrow> vt' = kTypeDeletion \<and> (\<exists>p. repr (di_iter t') kvs p) | Some k \<Rightarrow> vt' \<noteq> kTypeDeletion \<and> saved_entry kvs k t'"
        using less.IH [of "j - 1" "t2\<lparr>di_iter := i\<rparr>" vt2] src e(2,3) h less_imp_diff_less [OF h(1), of 1] jS by auto
      then show ?thesis using e(1,4) i(1) iv jS
        by (intro exI [of _ vt'] exI [of _ t'] exI [of _ r] conjI; (subst FindPrevUserEntry_loop.simps)?) simp_all
    qed
  qed
qed

section \<open>The iterator as a cursor over what is shown\<close>

abbreviation rank :: "entry list \<Rightarrow> nat \<Rightarrow> nat" where
  "rank kvs q \<equiv> length (filter (shown c s kvs) [0..<q])"

abbreviation uv :: "entry list \<Rightarrow> entry list" where "uv \<equiv> user_view c s"

definition db_repr :: "'s DBIter \<Rightarrow> entry list \<Rightarrow> nat option \<Rightarrow> bool" where
  "db_repr t ukvs p \<longleftrightarrow>
     (\<exists>kvs. src kvs \<and> sane t \<and> ukvs = uv kvs \<and>
        (case p of None \<Rightarrow> \<not> di_valid t \<and> (\<exists>q. repr (di_iter t) kvs q)
         | Some g \<Rightarrow> di_valid t \<and> g < length ukvs \<and>
             (let k = shown_index c s kvs ! g
              in di_direction t = kForward \<and> repr (di_iter t) kvs (Some k) \<or> saved_entry kvs k t)))"

lemma length_uv: "length (uv kvs) = rank kvs (length kvs)"
  by (simp add: user_view_def shown_index_def)

lemma shown_index_at:
  assumes "g < length (uv kvs)"
  shows "shown_index c s kvs ! g < length kvs" "shown c s kvs (shown_index c s kvs ! g)" "rank kvs (shown_index c s kvs ! g) = g"
    "uv kvs ! g = (u kvs (shown_index c s kvs ! g), snd (kvs ! (shown_index c s kvs ! g)))"
proof -
  let ?S = "shown_index c s kvs"
  have g: "g < length ?S" using assms by (simp add: user_view_def)
  then have "?S ! g \<in> set ?S" by simp
  then show k: "?S ! g < length kvs" "shown c s kvs (?S ! g)" by (simp_all add: shown_index_def)
  have "distinct ?S" by (simp add: shown_index_def)
  moreover have "rank kvs (?S ! g) < length ?S \<and> ?S ! rank kvs (?S ! g) = ?S ! g"
    unfolding shown_index_def by (rule rank_first) (use k in \<open>auto simp: shown_index_def\<close>)
  ultimately show "rank kvs (?S ! g) = g" using g nth_eq_iff_index_eq [of ?S] by blast
  show "uv kvs ! g = (u kvs (?S ! g), snd (kvs ! (?S ! g)))" using g by (simp add: user_view_def)
qed

lemma db_repr_fwd:
  assumes f: "fwd kvs r t" and r: "first_at kvs None q r" and q: "q \<le> length kvs"
  shows "db_repr t (uv kvs) (at_pos (rank kvs q) (uv kvs))"
proof (cases r)
  case None
  have "rank kvs q = length (uv kvs)"
    unfolding length_uv by (rule rank_none [OF q]) (use r None in \<open>simp add: first_at_def wanted_def\<close>)
  then show ?thesis using f None by (auto simp: db_repr_def fwd_def at_pos_def)
next
  case (Some i)
  have "rank kvs q < rank kvs (length kvs) \<and> filter (shown c s kvs) [0..<length kvs] ! rank kvs q = i"
    by (rule rank_first) (use r Some in \<open>simp_all add: first_at_def wanted_def\<close>)
  then show ?thesis using f Some by (auto simp: db_repr_def fwd_def at_pos_def length_uv shown_index_def)
qed

lemma find_next_from:
  assumes "src kvs" and "sane t" and "di_direction t = kForward" and i: "repr (di_iter t) kvs (Some j)"
    and "\<forall>i < j. vis kvs i \<longrightarrow> lt (u kvs i) (u kvs j)"
  shows "\<exists>t'. FindNextUserEntry ops False t = Some t' \<and> db_repr t' (uv kvs) (at_pos (rank kvs j) (uv kvs))"
proof -
  have "next_inv kvs None j j False t" using assms by (simp add: next_inv_def)
  from find_next_loop [OF this] obtain t' r where t': "FindNextUserEntry_loop ops False t = Some t'" "fwd kvs r t'" "first_at kvs None j r"
    by blast
  have "j \<le> length kvs" using inner.repr_at [OF i] by simp
  then show ?thesis using t' db_repr_fwd [OF t'(2,3)] assms(3) inner.repr_valid [OF i] by (simp add: FindNextUserEntry_def)
qed

lemma find_next_past:
  assumes src: "src kvs" and t: "sane t" "di_direction t = kForward" "repr (di_iter t) kvs (Some j)" "di_saved_key t = u kvs k"
    and k: "k < length kvs" "shown c s kvs k" "j \<le> k" "\<forall>i. j \<le> i \<longrightarrow> i < k \<longrightarrow> \<not> vis kvs i"
  shows "\<exists>t'. FindNextUserEntry ops True t = Some t' \<and> db_repr t' (uv kvs) (at_pos (Suc (rank kvs k)) (uv kvs))"
proof -
  have irr: "\<not> lt (u kvs k) (u kvs k)" by (rule u_mono [OF src _ k(1)]) simp
  have "\<not> lt (u kvs i) (u kvs k)" if "j \<le> i" "i < length kvs" "vis kvs i" for i
    using that k(4) u_mono [OF src, of k i] by (cases "i < k") auto
  moreover have "\<not> lt (u kvs k) (u kvs i)" if "i < j" for i using u_mono [OF src _ k(1), of i] that k(3) by simp
  ultimately have "next_inv kvs (Some (u kvs k)) j j True t"
    using src t u_valid [OF src k(1)] irr by (simp add: next_inv_def)
  from find_next_loop [OF this] obtain t' r where t': "FindNextUserEntry_loop ops True t = Some t'" "fwd kvs r t'"
    "first_at kvs (Some (u kvs k)) j r" by blast
  have w: "wanted kvs (Some (u kvs k)) i \<longleftrightarrow> k < i \<and> shown c s kvs i" if "j \<le> i" "i < length kvs" for i
  proof (cases i k rule: linorder_cases)
    case less
    then show ?thesis using k(4) that by (auto simp: wanted_def shown_def)
  next
    case equal
    then show ?thesis using irr by (simp add: wanted_def)
  next
    case greater
    have "vis kvs k" using k(2) by (simp add: shown_def)
    then show ?thesis using shown_first [OF src _ that(2) greater] greater by (auto simp: wanted_def)
  qed
  have "first_at kvs None (Suc k) r"
  proof (cases r)
    case None
    then have "\<not> shown c s kvs l" if "k < l" "l < length kvs" for l
      using t'(3) w [of l] k(3) that by (simp add: first_at_def)
    then show ?thesis using None by (simp add: first_at_def wanted_def Suc_le_eq)
  next
    case (Some i)
    then have i: "j \<le> i" "i < length kvs" "wanted kvs (Some (u kvs k)) i" "\<forall>l. j \<le> l \<longrightarrow> l < i \<longrightarrow> \<not> wanted kvs (Some (u kvs k)) l"
      using t'(3) by (simp_all add: first_at_def)
    have "\<not> shown c s kvs l" if "k < l" "l < i" for l using i(4) w [of l] that k(3) i(2) by simp
    then show ?thesis using Some i(2) w [OF i(1,2)] i(3) by (simp add: first_at_def wanted_def Suc_le_eq)
  qed
  from db_repr_fwd [OF t'(2) this] have "db_repr t' (uv kvs) (at_pos (Suc (rank kvs k)) (uv kvs))" using k(1,2) by simp
  then show ?thesis using t'(1) t(2) inner.repr_valid [OF t(3)] by (simp add: FindNextUserEntry_def)
qed

lemma find_prev:
  assumes src: "src kvs" and t: "sane t" "di_direction t = kReverse" "repr (di_iter t) kvs q"
  shows "\<exists>t'. FindPrevUserEntry ops t = Some t' \<and> db_repr t' (uv kvs) (last_pos (rank kvs (behind q)))"
proof (cases q)
  case None
  then show ?thesis using src t inner.repr_valid [OF t(3)]
    by (auto simp: FindPrevUserEntry_def db_repr_def behind_def last_pos_def)
next
  case (Some j)
  have j: "repr (di_iter t) kvs (Some j)" "j < length kvs" using t(3) Some inner.repr_at [of "di_iter t" kvs j] by simp_all
  have "looked_at kvs (Suc j) (Suc j) kTypeDeletion t" by (simp add: looked_at_def)
  from find_prev_loop [OF src t(1,2) j(1) _ _ this] j(2) obtain vt t' r where
    t': "FindPrevUserEntry_loop ops kTypeDeletion t = Some (vt, t')" "sane t'" "last_at kvs (Suc j) r"
      "case r of None \<Rightarrow> vt = kTypeDeletion \<and> (\<exists>p. repr (di_iter t') kvs p) | Some k \<Rightarrow> vt \<noteq> kTypeDeletion \<and> saved_entry kvs k t'" by auto
  have v: "it_Valid ops (di_iter t)" using inner.repr_valid [OF j(1)] by simp
  show ?thesis
  proof (cases r)
    case None
    have "rank kvs (Suc j) = 0" using t'(3) None by (auto simp: last_at_def filter_empty_conv)
    then show ?thesis using t' None v t(2) src Some
      by (auto simp: FindPrevUserEntry_def db_repr_def behind_def last_pos_def)
  next
    case r: (Some k)
    then have k: "k \<le> j" "shown c s kvs k" "\<forall>i. Suc k \<le> i \<longrightarrow> i < Suc j \<longrightarrow> \<not> shown c s kvs i" using t'(3) by (simp_all add: last_at_def Suc_le_eq)
    have "rank kvs (Suc k) = rank kvs (Suc j)" by (rule rank_none) (use k in simp_all)
    then have rank: "rank kvs (Suc j) = Suc (rank kvs k)" using k(2) by simp
    have "rank kvs k < rank kvs (length kvs) \<and> filter (shown c s kvs) [0..<length kvs] ! rank kvs k = k"
      by (rule rank_first) (use k j(2) in simp_all)
    moreover have "saved_entry kvs k (t'\<lparr>di_valid := True\<rparr>)" using t'(4) r by (simp add: saved_entry_def)
    ultimately have "db_repr (t'\<lparr>di_valid := True\<rparr>) (uv kvs) (Some (rank kvs k))"
      unfolding db_repr_def using t'(2) src by (intro exI [of _ kvs]) (simp add: length_uv shown_index_def)
    then show ?thesis using t'(1,4) r v t(2) Some rank by (simp add: FindPrevUserEntry_def behind_def last_pos_def)
  qed
qed

lemma scan_back_ends:
  "src kvs \<Longrightarrow> sane t \<Longrightarrow> repr (di_iter t) kvs (Some j) \<Longrightarrow> di_saved_key t = u kvs k \<Longrightarrow> k < length kvs \<Longrightarrow>
   \<forall>i. j \<le> i \<longrightarrow> i < k \<longrightarrow> \<not> lt (u kvs i) (u kvs k) \<Longrightarrow>
   \<exists>t' q. scan_back ops t = Some (q \<noteq> None, t') \<and> sane t' \<and> repr (di_iter t') kvs q \<and> (q = None \<longrightarrow> \<not> di_valid t') \<and>
     (\<forall>i. behind q \<le> i \<longrightarrow> i < k \<longrightarrow> \<not> lt (u kvs i) (u kvs k)) \<and> behind q \<le> j"
proof (induction j arbitrary: t)
  case 0
  obtain i where i: "it_Prev ops (di_iter t) = Some i" "repr i kvs (last_pos 0)" using inner.repr_prev [OF "0.prems"(3)] by blast
  have "\<not> it_Valid ops i" using inner.repr_valid [OF i(2)] by (simp add: last_pos_def)
  then have "scan_back ops t = Some (False, t\<lparr>di_iter := i, di_valid := False, di_saved_key := [], di_saved_value := []\<rparr>)"
    using i(1) by (subst scan_back.simps) simp
  then show ?case using "0.prems" i(2)
    by (intro exI [of _ "t\<lparr>di_iter := i, di_valid := False, di_saved_key := [], di_saved_value := []\<rparr>"] exI [of _ None])
      (simp add: last_pos_def behind_def)
next
  case (Suc j)
  note src = Suc.prems(1)
  obtain i where i: "it_Prev ops (di_iter t) = Some i" "repr i kvs (Some j)"
    using inner.repr_prev [OF Suc.prems(3)] by (auto simp: last_pos_def)
  have at: "it_Valid ops i" "j < length kvs" "it_key ops i = Some (fst (kvs ! j))"
    using inner.repr_valid [OF i(2)] inner.repr_at [OF i(2)] by simp_all
  have e: "ExtractUserKey (fst (kvs ! j)) = Some (u kvs j)" by (rule Parse_user_key(1) [OF ikey_at [OF src at(2)]])
  obtain r where r: "Compare c (u kvs j) (u kvs k) = Some r" "r < 0 \<longleftrightarrow> lt (u kvs j) (u kvs k)"
    using compare_lt [OF u_valid [OF src at(2)] u_valid [OF src Suc.prems(5)]] by blast
  have cc: "di_user_comparator t = c" using Suc.prems(2) by (simp add: sane_def)
  let ?t = "t\<lparr>di_iter := i\<rparr>"
  show ?case
  proof (cases "r < 0")
    case True
    have "scan_back ops t = Some (True, ?t)"
      using i(1) at e r(1) True cc Suc.prems(4) by (subst scan_back.simps) simp
    then show ?thesis using Suc.prems(2,6) i(2) by (intro exI [of _ ?t] exI [of _ "Some j"]) (simp add: behind_def)
  next
    case False
    have "\<not> lt (u kvs l) (u kvs k)" if "j \<le> l" "l < k" for l
      using that Suc.prems(6) False r(2) by (cases "l = j") auto
    then obtain t' q where t': "scan_back ops ?t = Some (q \<noteq> None, t')" "sane t'" "repr (di_iter t') kvs q" "q = None \<longrightarrow> \<not> di_valid t'"
      "\<forall>i. behind q \<le> i \<longrightarrow> i < k \<longrightarrow> \<not> lt (u kvs i) (u kvs k)" "behind q \<le> j"
      using Suc.IH [of ?t] src Suc.prems(2,4,5) i(2) by auto
    have "scan_back ops t = scan_back ops ?t"
      using i(1) at e r(1) False cc Suc.prems(4) by (subst scan_back.simps) simp
    then show ?thesis using t' by (intro exI [of _ t'] exI [of _ q]) simp
  qed
qed

text \<open>Entries of the same user key before one that is shown are not shown.\<close>

lemma rank_behind:
  assumes src: "src kvs" and k: "k < length kvs" "shown c s kvs k" "q \<le> k"
    and h: "\<forall>i. q \<le> i \<longrightarrow> i < k \<longrightarrow> vis kvs i \<longrightarrow> \<not> lt (u kvs i) (u kvs k)"
  shows "rank kvs q = rank kvs k"
  by (rule rank_none [OF k(3)]) (use h shown_first [OF src k(2,1)] in \<open>auto simp: shown_def\<close>)

lemma db_cases:
  assumes "db_repr t ukvs (Some g)"
  obtains kvs k where "src kvs" "sane t" "ukvs = uv kvs" "di_valid t" "k < length kvs" "shown c s kvs k" "rank kvs k = g"
    "g < length ukvs" "ukvs ! g = (u kvs k, snd (kvs ! k))"
    "di_direction t = kForward \<and> repr (di_iter t) kvs (Some k) \<or> saved_entry kvs k t"
proof -
  obtain kvs where "src kvs" "sane t" "ukvs = uv kvs" "di_valid t" "g < length ukvs"
    "let k = shown_index c s kvs ! g in di_direction t = kForward \<and> repr (di_iter t) kvs (Some k) \<or> saved_entry kvs k t"
    using assms by (auto simp: db_repr_def)
  then show ?thesis using that [of kvs "shown_index c s kvs ! g"] shown_index_at [of g kvs] by (simp add: Let_def)
qed

lemma db_at:
  assumes "db_repr t ukvs (Some g)"
  shows "g < length ukvs \<and> DBIter_key ops t = Some (fst (ukvs ! g)) \<and> DBIter_value ops t = Some (snd (ukvs ! g))"
proof (rule db_cases [OF assms])
  fix kvs k
  assume k: "src kvs" "sane t" "ukvs = uv kvs" "di_valid t" "k < length kvs" "shown c s kvs k" "rank kvs k = g" "g < length ukvs"
    "ukvs ! g = (u kvs k, snd (kvs ! k))" "di_direction t = kForward \<and> repr (di_iter t) kvs (Some k) \<or> saved_entry kvs k t"
  have "ExtractUserKey (fst (kvs ! k)) = Some (u kvs k)" by (rule Parse_user_key(1) [OF ikey_at [OF k(1,5)]])
  then show ?thesis using k inner.repr_at [of "di_iter t" kvs k]
    by (auto simp: DBIter_key_def DBIter_value_def saved_entry_def)
qed

lemma db_next:
  assumes "db_repr t ukvs (Some g)"
  shows "\<exists>t'. DBIter_Next ops t = Some t' \<and> db_repr t' ukvs (at_pos (g + 1) ukvs)"
proof (rule db_cases [OF assms])
  fix kvs k
  assume k: "src kvs" "sane t" "ukvs = uv kvs" "di_valid t" "k < length kvs" "shown c s kvs k" "rank kvs k = g" "g < length ukvs"
    "ukvs ! g = (u kvs k, snd (kvs ! k))" "di_direction t = kForward \<and> repr (di_iter t) kvs (Some k) \<or> saved_entry kvs k t"
  have e: "ExtractUserKey (fst (kvs ! k)) = Some (u kvs k)" by (rule Parse_user_key(1) [OF ikey_at [OF k(1,5)]])
  show ?thesis
  proof (cases "di_direction t = kForward")
    case True
    then have f: "repr (di_iter t) kvs (Some k)" using k(10) by (auto simp: saved_entry_def)
    let ?t = "t\<lparr>di_saved_key := u kvs k\<rparr>"
    have "\<exists>t'. FindNextUserEntry ops True ?t = Some t' \<and> db_repr t' (uv kvs) (at_pos (Suc (rank kvs k)) (uv kvs))"
      using find_next_past [OF k(1), of ?t k k] k(2,5,6) True f by simp
    then show ?thesis using True k(3,4,7) e inner.repr_at [OF f] by (simp add: DBIter_Next_def)
  next
    case False
    then obtain q where sv: "di_direction t = kReverse" "di_saved_key t = u kvs k" "repr (di_iter t) kvs q" "behind q \<le> k"
      "\<forall>j. behind q \<le> j \<longrightarrow> j < k \<longrightarrow> \<not> vis kvs j" using k(10) by (auto simp: saved_entry_def)
    obtain i where i: "(if \<not> it_Valid ops (di_iter t) then it_SeekToFirst ops (di_iter t) else it_Next ops (di_iter t)) = Some i"
      "repr i kvs (Some (behind q))"
    proof (cases q)
      case None
      moreover have "at_pos 0 kvs = Some 0" using k(5) by (auto simp: at_pos_def)
      ultimately show ?thesis using that inner.repr_first [OF sv(3)] inner.repr_valid [OF sv(3)] by (auto simp: behind_def)
    next
      case (Some l)
      then have "repr (di_iter t) kvs (Some l)" using sv(3) by simp
      from inner.repr_next [OF this] show ?thesis using that inner.repr_valid [OF sv(3)] Some sv(4) k(5) by (auto simp: behind_def at_pos_def)
    qed
    let ?t = "t\<lparr>di_direction := kForward, di_iter := i\<rparr>"
    have "\<exists>t'. FindNextUserEntry ops True ?t = Some t' \<and> db_repr t' (uv kvs) (at_pos (Suc (rank kvs k)) (uv kvs))"
      using find_next_past [OF k(1), of ?t "behind q" k] k(2,5,6) sv i(2) by simp
    then show ?thesis using sv(1) k(3,4,7) i(1) inner.repr_valid [OF i(2)]
      by (cases "it_Valid ops (di_iter t)") (simp_all add: DBIter_Next_def)
  qed
qed

lemma db_prev:
  assumes "db_repr t ukvs (Some g)"
  shows "\<exists>t'. DBIter_Prev ops t = Some t' \<and> db_repr t' ukvs (last_pos g)"
proof (rule db_cases [OF assms])
  fix kvs k
  assume k: "src kvs" "sane t" "ukvs = uv kvs" "di_valid t" "k < length kvs" "shown c s kvs k" "rank kvs k = g" "g < length ukvs"
    "ukvs ! g = (u kvs k, snd (kvs ! k))" "di_direction t = kForward \<and> repr (di_iter t) kvs (Some k) \<or> saved_entry kvs k t"
  have e: "ExtractUserKey (fst (kvs ! k)) = Some (u kvs k)" by (rule Parse_user_key(1) [OF ikey_at [OF k(1,5)]])
  show ?thesis
  proof (cases "di_direction t = kForward")
    case True
    then have f: "repr (di_iter t) kvs (Some k)" using k(10) by (auto simp: saved_entry_def)
    let ?t = "t\<lparr>di_saved_key := u kvs k\<rparr>"
    obtain t' q where sb: "scan_back ops ?t = Some (q \<noteq> None, t')" "sane t'" "repr (di_iter t') kvs q" "q = None \<longrightarrow> \<not> di_valid t'"
      "\<forall>i. behind q \<le> i \<longrightarrow> i < k \<longrightarrow> \<not> lt (u kvs i) (u kvs k)" "behind q \<le> k"
      using scan_back_ends [OF k(1), of ?t k k] k(2,5) f by auto
    have start: "DBIter_Prev ops t = (if q \<noteq> None then FindPrevUserEntry ops (t'\<lparr>di_direction := kReverse\<rparr>) else Some t')"
      using True k(4) e inner.repr_at [OF f] inner.repr_valid [OF f] sb(1) by (simp add: DBIter_Prev_def)
    have rank: "rank kvs (behind q) = g" using rank_behind [OF k(1,5,6) sb(6)] sb(5) k(7) by simp
    show ?thesis
    proof (cases q)
      case None
      then have "g = 0" using rank by (simp add: behind_def)
      then show ?thesis using start None sb k(1,3) by (auto simp: db_repr_def last_pos_def)
    next
      case (Some l)
      then show ?thesis using start find_prev [OF k(1), of "t'\<lparr>di_direction := kReverse\<rparr>" q] sb(2,3) rank k(3) by simp
    qed
  next
    case False
    then obtain q where sv: "di_direction t = kReverse" "repr (di_iter t) kvs q" "behind q \<le> k"
      "\<forall>j. behind q \<le> j \<longrightarrow> j < k \<longrightarrow> \<not> vis kvs j" using k(10) by (auto simp: saved_entry_def)
    have "rank kvs (behind q) = g" using rank_behind [OF k(1,5,6) sv(3)] sv(4) k(7) by simp
    then show ?thesis using find_prev [OF k(1,2) sv(1,2)] sv(1) k(3,4) by (simp add: DBIter_Prev_def)
  qed
qed

section \<open>Seeking\<close>

definition target_key :: "slice \<Rightarrow> slice" where
  "target_key t = t @ EncodeFixed64 (push_bit 8 s OR ucast (type_code kTypeValue))"

lemma Append_target: "AppendInternalKey [] \<lparr>user_key = t, sequence = s, vtype = kValueTypeForSeek\<rparr> = Some (target_key t)"
  using seq_max by (simp add: AppendInternalKey_def PackSequenceAndType_def PutFixed64_def target_key_def kValueTypeForSeek_def)

lemma target_valid: "valid t \<Longrightarrow> internal_valid valid (target_key t)"
  by (simp add: internal_valid_def target_key_def)

text \<open>The entries before the target that are visible have a smaller user key, and those behind it do not.\<close>

lemma visible_before_target:
  assumes src: "src kvs" and i: "i < length kvs" and t: "valid t"
  shows "before (Compare (InternalKeyComparator c)) (fst (kvs ! i)) (target_key t) \<Longrightarrow> vis kvs i \<Longrightarrow> lt (u kvs i) t"
    and "\<not> before (Compare (InternalKeyComparator c)) (fst (kvs ! i)) (target_key t) \<Longrightarrow> \<not> lt (u kvs i) t"
proof -
  note P = Parse_user_key [OF ikey_at [OF src i]]
  have b: "before (Compare (InternalKeyComparator c)) (fst (kvs ! i)) (target_key t) \<longleftrightarrow>
      lt (u kvs i) t \<or> \<not> lt t (u kvs i) \<and> key_num (target_key t) < key_num (fst (kvs ! i))"
    using internal_before [OF P(3), of "target_key t"] P(2) u_valid [OF src i] t by (simp add: target_key_def)
  show "\<not> before (Compare (InternalKeyComparator c)) (fst (kvs ! i)) (target_key t) \<Longrightarrow> \<not> lt (u kvs i) t" using b by blast
  assume v: "vis kvs i" and bf: "before (Compare (InternalKeyComparator c)) (fst (kvs ! i)) (target_key t)"
  have "unat (key_num (target_key t)) = unat s * 256 + 1"
    using pack_unat [OF seq_max, of kTypeValue] by (simp add: target_key_def)
  moreover have "unat (sequence (ikey kvs i)) \<le> unat s" using v by (simp add: visible_def word_le_nat_alt)
  moreover have "unat (type_code (vtype (ikey kvs i))) \<le> 1" by (cases "vtype (ikey kvs i)") simp_all
  ultimately have "\<not> key_num (target_key t) < key_num (fst (kvs ! i))" using P(4) by (simp add: word_less_nat_alt)
  then show "lt (u kvs i) t" using b bf by blast
qed

lemma lower_bound_uv:
  assumes src: "src kvs" and t: "valid t" and q: "q = lower_bound (Compare (InternalKeyComparator c)) (target_key t) kvs"
  shows "lower_bound (Compare c) t (uv kvs) = rank kvs q" and "\<And>i. i < q \<Longrightarrow> vis kvs i \<Longrightarrow> lt (u kvs i) t"
    and "q < length kvs \<Longrightarrow> \<not> lt (u kvs q) t"
proof -
  have ql: "q \<le> length kvs" unfolding q lower_bound_def by (rule length_takeWhile_le)
  have s: "sorted_source (Compare (InternalKeyComparator c)) (internal_valid valid) kvs" using src by (simp add: src_def)
  note split = inner.lower_bound_split [OF s _ target_valid [OF t], folded q]
  show lo: "lt (u kvs i) t" if "i < q" "vis kvs i" for i
    using visible_before_target(1) [OF src _ t] split [of i] that ql by simp
  have hi: "\<not> lt (u kvs i) t" if "q \<le> i" "i < length kvs" for i
    using visible_before_target(2) [OF src that(2) t] split [OF that(2)] that(1) by simp
  then show "q < length kvs \<Longrightarrow> \<not> lt (u kvs q) t" by simp
  let ?f = "\<lambda>i. (u kvs i, snd (kvs ! i))"
  let ?as = "map ?f (filter (shown c s kvs) [0..<q])" and ?bs = "map ?f (filter (shown c s kvs) [q..<length kvs])"
  have "[0..<length kvs] = [0..<q] @ [q..<length kvs]" using upt_add_eq_append [of 0 q "length kvs - q"] ql by simp
  then have "uv kvs = ?as @ ?bs" by (simp add: user_view_def shown_index_def)
  moreover have "takeWhile (\<lambda>kv. lt (fst kv) t) (?as @ ?bs) = ?as @ takeWhile (\<lambda>kv. lt (fst kv) t) ?bs"
    by (rule takeWhile_append2) (use lo in \<open>auto simp: shown_def\<close>)
  moreover have "takeWhile (\<lambda>kv. lt (fst kv) t) ?bs = []"
  proof (cases "filter (shown c s kvs) [q..<length kvs]")
    case (Cons a l)
    have "a \<in> set (filter (shown c s kvs) [q..<length kvs])" unfolding Cons by simp
    then have "q \<le> a" "a < length kvs" by simp_all
    then show ?thesis using Cons hi by simp
  qed simp
  ultimately show "lower_bound (Compare c) t (uv kvs) = rank kvs q"
    unfolding lower_bound_def by (simp only: append_Nil2 length_map)
qed

lemma db_source: "db_repr t ukvs p \<Longrightarrow> \<exists>kvs q. src kvs \<and> sane t \<and> ukvs = uv kvs \<and> repr (di_iter t) kvs q"
  by (cases p) (auto simp: db_repr_def Let_def saved_entry_def)

lemma db_seek:
  assumes "db_repr t ukvs p" and v: "valid k"
  shows "\<exists>t'. DBIter_Seek ops k t = Some t' \<and> db_repr t' ukvs (at_pos (lower_bound (Compare c) k ukvs) ukvs)"
proof -
  obtain kvs q where s: "src kvs" "sane t" "ukvs = uv kvs" "repr (di_iter t) kvs q" using db_source [OF assms(1)] by blast
  define lb where "lb = lower_bound (Compare (InternalKeyComparator c)) (target_key k) kvs"
  note L = lower_bound_uv [OF s(1) v lb_def]
  obtain i where i: "it_Seek ops (target_key k) (di_iter t) = Some i" "repr i kvs (at_pos lb kvs)"
    using inner.repr_seek [OF s(4) target_valid [OF v]] by (auto simp: lb_def)
  let ?t = "t\<lparr>di_direction := kForward, di_saved_value := [], di_saved_key := target_key k, di_iter := i\<rparr>"
  have start: "DBIter_Seek ops k t = (if it_Valid ops i then FindNextUserEntry ops False ?t else Some (?t\<lparr>di_valid := False\<rparr>))"
    using i(1) s(2) Append_target [of k] by (simp add: DBIter_Seek_def sane_def)
  show ?thesis
  proof (cases "lb < length kvs")
    case True
    then have r: "repr i kvs (Some lb)" using i(2) by (simp add: at_pos_def)
    have "lt (u kvs j) (u kvs lb)" if "j < lb" "vis kvs j" for j
      using ordering.before_not_trans [OF u_valid [OF s(1)] v u_valid [OF s(1) True] L(2) [OF that] L(3) [OF True]] that True by simp
    then have "\<exists>t'. FindNextUserEntry ops False ?t = Some t' \<and> db_repr t' (uv kvs) (at_pos (rank kvs lb) (uv kvs))"
      using find_next_from [OF s(1), of ?t lb] s(2) r by simp
    then show ?thesis using start inner.repr_valid [OF r] s(3) L(1) by simp
  next
    case False
    then have "lb = length kvs" unfolding lb_def lower_bound_def using length_takeWhile_le by (metis le_neq_implies_less)
    then have "at_pos (lower_bound (Compare c) k (uv kvs)) (uv kvs) = None" using L(1) by (simp add: at_pos_def length_uv)
    then show ?thesis using start inner.repr_valid [OF i(2)] False s i(2) by (auto simp: at_pos_def db_repr_def)
  qed
qed

lemma db_first:
  assumes "db_repr t ukvs p"
  shows "\<exists>t'. DBIter_SeekToFirst ops t = Some t' \<and> db_repr t' ukvs (at_pos 0 ukvs)"
proof -
  obtain kvs q where s: "src kvs" "sane t" "ukvs = uv kvs" "repr (di_iter t) kvs q" using db_source [OF assms(1)] by blast
  obtain i where i: "it_SeekToFirst ops (di_iter t) = Some i" "repr i kvs (at_pos 0 kvs)" using inner.repr_first [OF s(4)] by blast
  let ?t = "t\<lparr>di_direction := kForward, di_saved_value := [], di_iter := i\<rparr>"
  have start: "DBIter_SeekToFirst ops t = (if it_Valid ops i then FindNextUserEntry ops False ?t else Some (?t\<lparr>di_valid := False\<rparr>))"
    using i(1) by (simp add: DBIter_SeekToFirst_def)
  show ?thesis
  proof (cases "kvs = []")
    case False
    then have r: "repr i kvs (Some 0)" using i(2) by (simp add: at_pos_def)
    then show ?thesis using find_next_from [OF s(1), of ?t 0] s(2,3) start inner.repr_valid [OF r] by simp
  next
    case True
    then have "uv kvs = []" using length_uv [of kvs] by simp
    then show ?thesis using start inner.repr_valid [OF i(2)] True s i(2) by (auto simp: at_pos_def db_repr_def)
  qed
qed

lemma db_last:
  assumes "db_repr t ukvs p"
  shows "\<exists>t'. DBIter_SeekToLast ops t = Some t' \<and> db_repr t' ukvs (last_pos (length ukvs))"
proof -
  obtain kvs q where s: "src kvs" "sane t" "ukvs = uv kvs" "repr (di_iter t) kvs q" using db_source [OF assms(1)] by blast
  obtain i where i: "it_SeekToLast ops (di_iter t) = Some i" "repr i kvs (last_pos (length kvs))" using inner.repr_last [OF s(4)] by blast
  have "behind (last_pos (length kvs)) = length kvs" by (simp add: behind_def last_pos_def)
  then show ?thesis using find_prev [OF s(1), of "t\<lparr>di_direction := kReverse, di_saved_value := [], di_iter := i\<rparr>" "last_pos (length kvs)"] i s(2,3)
    by (simp add: DBIter_SeekToLast_def length_uv)
qed

lemma uv_sorted:
  assumes "src kvs"
  shows "sorted_source (Compare c) valid (uv kvs)"
proof -
  have "sorted_wrt (\<lambda>i j. lt (u kvs i) (u kvs j)) (shown_index c s kvs)"
  proof (rule sorted_wrt_mono_rel)
    show "sorted_wrt (<) (shown_index c s kvs)" by (simp add: shown_index_def sorted_wrt_filter)
    show "lt (u kvs i) (u kvs j)" if "i \<in> set (shown_index c s kvs)" "j \<in> set (shown_index c s kvs)" "i < j" for i j
      using shown_first [OF assms _ _ that(3)] that by (auto simp: shown_index_def shown_def)
  qed
  then have "sorted_wrt (\<lambda>a b. lt (fst a) (fst b)) (uv kvs)" by (simp add: user_view_def sorted_wrt_map)
  moreover have "\<forall>kv \<in> set (uv kvs). valid (fst kv)" using u_valid [OF assms] by (auto simp: user_view_def shown_index_def)
  ultimately show ?thesis by (simp add: sorted_source_def)
qed

lemma db_new:
  assumes "src kvs" and "repr it kvs q"
  shows "db_repr (NewDBIterator c it s seed) (uv kvs) None"
proof -
  obtain n sd where r: "RandomPeriod (Random seed) = (n, sd)" by (meson surj_pair)
  then show ?thesis using assms RandomPeriod_spec(1) [OF Random_good r]
    by (auto simp: db_repr_def NewDBIterator_def sane_def status_ok_def Status_OK_def)
qed

end

sublocale db_iter \<subseteq> user: iterator_contract "Compare c" valid "DBIter_ops ops" db_repr
proof unfold_locales
  fix t ukvs p assume r: "db_repr t ukvs p"
  obtain kvs q where s: "src kvs" "sane t" "ukvs = uv kvs" "repr (di_iter t) kvs q" using db_source [OF r] by blast
  show "sorted_source (Compare c) valid ukvs" using uv_sorted [OF s(1)] s(3) by simp
  show "it_Valid (DBIter_ops ops) t = (p \<noteq> None)" using r by (cases p) (auto simp: DBIter_ops_def db_repr_def)
  show "\<exists>st. it_status (DBIter_ops ops) t = Some st \<and> status_ok st"
    using s(2) inner.repr_status [OF s(4)] by (simp add: DBIter_ops_def DBIter_status_def sane_def)
  show "\<exists>t'. it_SeekToFirst (DBIter_ops ops) t = Some t' \<and> db_repr t' ukvs (at_pos 0 ukvs)"
    using db_first [OF r] by (simp add: DBIter_ops_def)
  show "\<exists>t'. it_SeekToLast (DBIter_ops ops) t = Some t' \<and> db_repr t' ukvs (last_pos (length ukvs))"
    using db_last [OF r] by (simp add: DBIter_ops_def)
  show "\<exists>t'. it_Seek (DBIter_ops ops) k t = Some t' \<and> db_repr t' ukvs (at_pos (lower_bound (Compare c) k ukvs) ukvs)"
    if "valid k" for k using db_seek [OF r that] by (simp add: DBIter_ops_def)
next
  fix t ukvs i assume r: "db_repr t ukvs (Some i)"
  show "i < length ukvs \<and> it_key (DBIter_ops ops) t = Some (fst (ukvs ! i)) \<and> it_value (DBIter_ops ops) t = Some (snd (ukvs ! i))"
    using db_at [OF r] by (simp add: DBIter_ops_def)
  show "\<exists>t'. it_Next (DBIter_ops ops) t = Some t' \<and> db_repr t' ukvs (at_pos (i + 1) ukvs)"
    using db_next [OF r] by (simp add: DBIter_ops_def)
  show "\<exists>t'. it_Prev (DBIter_ops ops) t = Some t' \<and> db_repr t' ukvs (last_pos i)"
    using db_prev [OF r] by (simp add: DBIter_ops_def)
qed

context db_iter
begin

lemma db_contract: "iterator_contract (Compare c) valid (DBIter_ops ops) db_repr"
  by (rule user.iterator_contract_axioms)

end

end
