(* ===== verification/LdbDBIterSpec.thy ===== *)
theory LdbDBIterSpec
  imports LdbDBIterProps LdbMergerProps
begin

text \<open>
  What an iterator over a database shows, whatever iterator gives it the internal entries: a block, several merged
  sources, or another that keeps the contract.
\<close>

lemma min_sequence: "min s kMaxSequenceNumber \<le> kMaxSequenceNumber"
  by simp

interpretation block_db: db_iter BytewiseComparator "\<lambda>_. True" BlockIter_ops
    "block_repr (InternalKeyComparator BytewiseComparator) (internal_valid (\<lambda>_. True))" "min s kMaxSequenceNumber" for s
  by (intro db_iter.intro db_iter_axioms.intro bytewise.comparator_contract_axioms min_sequence
      internal_bytewise.block_iter.iterator_contract_axioms)

interpretation merged_db: db_iter BytewiseComparator "\<lambda>_. True" "MergingIterator_ops BlockIter_ops"
    "merge_repr (InternalKeyComparator BytewiseComparator) (internal_valid (\<lambda>_. True))
      (wrapper_repr (block_repr (InternalKeyComparator BytewiseComparator) (internal_valid (\<lambda>_. True))))" "min s kMaxSequenceNumber" for s
  by (intro db_iter.intro db_iter_axioms.intro bytewise.comparator_contract_axioms min_sequence
      internal_bytewise.block_merge.merged.iterator_contract_axioms)

text \<open>
  C7: a database iterator shows the state at its sequence number. Over every internal iterator that keeps
  the contract, whose entries have well-formed internal keys, it shows after every sequence of moves, with any changes
  of direction, what a cursor shows over the list that has, for each user key, its newest entry up to the
  sequence number, unless this is a deletion. No assert fails and every loop ends, also that of the
  sampling of reads, whose random period may be 0.
\<close>
theorem db_iterator_correct:
  assumes "db_iter c valid ops repr s" and "repr it kvs q" and "entries_parse kvs"
    and "list_all (move_valid valid) mvs" and "cursor_run (Compare c) (user_view c s kvs) mvs None = Some os"
  shows "iter_run (DBIter_ops ops) mvs (NewDBIterator c it s seed) = Some os"
proof -
  note inner = db_iter.axioms(2) [OF assms(1)]
  have "db_iter.src c valid kvs"
    unfolding db_iter.src_def [OF assms(1)] using iterator_contract.repr_sorted [OF inner assms(2)] assms(3) by simp
  from db_iter.db_new [OF assms(1) this assms(2)]
  have "db_iter.db_repr c valid repr s (NewDBIterator c it s seed) (user_view c s kvs) None" .
  then show ?thesis by (rule iterator_contract.iter_run_repr [OF db_iter.db_contract [OF assms(1)] _ assms(4,5)])
qed

text \<open>The view, with every key parsed once.\<close>

lemma user_view_parsed:
  "user_view c s kvs =
     (let ks = map (\<lambda>e. the (ParseInternalKey (fst e))) kvs
      in map (\<lambda>i. (user_key (ks ! i), snd (kvs ! i)))
           (filter (\<lambda>i. sequence (ks ! i) \<le> s \<and> vtype (ks ! i) = kTypeValue \<and>
              list_all (\<lambda>j. sequence (ks ! j) \<le> s \<longrightarrow> Compare c (user_key (ks ! j)) (user_key (ks ! i)) \<noteq> Some 0) [0..<i])
             [0..<length kvs]))"
proof -
  have k: "map (\<lambda>e. the (ParseInternalKey (fst e))) kvs ! i = ikey kvs i" if "i < length kvs" for i using that by (simp add: ikey_def)
  have "filter (shown c s kvs) [0..<length kvs] = filter (\<lambda>i. sequence (map (\<lambda>e. the (ParseInternalKey (fst e))) kvs ! i) \<le> s \<and>
      vtype (map (\<lambda>e. the (ParseInternalKey (fst e))) kvs ! i) = kTypeValue \<and>
      list_all (\<lambda>j. sequence (map (\<lambda>e. the (ParseInternalKey (fst e))) kvs ! j) \<le> s \<longrightarrow>
        Compare c (user_key (map (\<lambda>e. the (ParseInternalKey (fst e))) kvs ! j)) (user_key (map (\<lambda>e. the (ParseInternalKey (fst e))) kvs ! i)) \<noteq> Some 0)
        [0..<i]) [0..<length kvs]"
    by (rule filter_cong) (auto simp: shown_def visible_def list_all_iff k simp del: nth_map)
  then show ?thesis by (simp add: user_view_def shown_index_def Let_def k del: nth_map cong: map_cong)
qed

text \<open>Key 1 was written twice, key 2 deleted and written again later, key 3 written too late, key 4 once.\<close>

theorem db_iterator_correct_witness:
  "\<exists>it. \<forall>seed. iter_run (DBIter_ops BlockIter_ops) [MoveFirst, MoveNext, MovePrev, MoveSeek [2], MoveNext]
      (NewDBIterator BytewiseComparator it 6 seed) =
    Some [Some ([1], [15]), Some ([4], [42]), Some ([1], [15]), Some ([4], [42]), None]"
proof -
  let ?k = "\<lambda>u n t. [u, t, n, 0, 0, 0, 0, 0, 0] :: slice"
  let ?kvs = "[(?k 1 5 1, [15]), (?k 1 3 1, [13]), (?k 2 9 1, [29]), (?k 2 4 0, []), (?k 2 1 1, [21]), (?k 3 8 1, [38]), (?k 4 2 1, [42])] :: entry list"
  let ?mvs = "[MoveFirst, MoveNext, MovePrev, MoveSeek [2], MoveNext]"
  let ?ic = "InternalKeyComparator BytewiseComparator" and ?iv = "internal_valid (\<lambda>_. True)"
  have s: "sorted_source (Compare ?ic) ?iv ?kvs" by code_simp
  have p: "entries_parse ?kvs" by code_simp
  have l: "case build_block ?ic 2 ?kvs of None \<Rightarrow> False | Some data \<Rightarrow> length data < 200" by code_simp
  have view: "user_view BytewiseComparator 6 ?kvs = [([1], [15]), ([4], [42])]" unfolding user_view_parsed by code_simp
  have run: "cursor_run (Compare BytewiseComparator) [([1], [15]), ([4], [42])] ?mvs None =
      Some [Some ([1], [15]), Some ([4], [42]), Some ([1], [15]), Some ([4], [42]), None]" by code_simp
  obtain it where it: "block_repr ?ic ?iv it ?kvs None"
    using internal_bytewise.build_block_repr [OF s, of 2] l by fastforce
  have six: "min 6 kMaxSequenceNumber = 6" by (simp add: kMaxSequenceNumber_def)
  have "iter_run (DBIter_ops BlockIter_ops) ?mvs (NewDBIterator BytewiseComparator it 6 seed) =
      Some [Some ([1], [15]), Some ([4], [42]), Some ([1], [15]), Some ([4], [42]), None]" for seed
    using db_iterator_correct [OF block_db.db_iter_axioms [of 6], unfolded six, OF it p, of ?mvs, unfolded view, OF _ run] by simp
  then show ?thesis by blast
qed

end
