(* ===== verification/LdbPosix.thy ===== *)
theory LdbPosix
  imports LdbFile LdbEnv
begin

text \<open>
  The files of \<open>util/env_posix.cc\<close>, over the functions of the C library and the system, which are
  parameters: \<open>PosixWritableFile\<close>, \<open>PosixSequentialFile\<close> and the operations of
  \<open>PosixEnv\<close> that make, rename and delete files. They keep the contract of an environment for
  every system whose calls do what POSIX says, and may fail.
\<close>

section \<open>The system\<close>

text \<open>
  \<open>'h\<close> is a stream, a descriptor is a number. A true result is that of a call that failed,
  with the text of its error in \<open>errno\<close>; \<open>fopen\<close> returns no stream then, \<open>fwrite\<close> and \<open>fread\<close> may
  transfer less. \<open>fdatasync\<close> is called on the descriptor of the stream.
\<close>

record ('e, 'h) Posix =
  px_fopen :: "pb_byte_t list \<Rightarrow> bool \<Rightarrow> 'e \<Rightarrow> 'h option \<times> 'e"
  px_fwrite :: "pb_byte_t list \<Rightarrow> 'h \<Rightarrow> 'e \<Rightarrow> nat \<times> 'e"
  px_fflush :: "'h \<Rightarrow> 'e \<Rightarrow> bool \<times> 'e"
  px_fdatasync :: "'h \<Rightarrow> 'e \<Rightarrow> bool \<times> 'e"
  px_fclose :: "'h \<Rightarrow> 'e \<Rightarrow> bool \<times> 'e"
  px_fread :: "nat \<Rightarrow> 'h \<Rightarrow> 'e \<Rightarrow> pb_byte_t list \<times> 'e"
  px_feof :: "'h \<Rightarrow> 'e \<Rightarrow> bool"
  px_open :: "pb_byte_t list \<Rightarrow> 'e \<Rightarrow> int \<times> 'e"
  px_fsync :: "int \<Rightarrow> 'e \<Rightarrow> bool \<times> 'e"
  px_close :: "int \<Rightarrow> 'e \<Rightarrow> 'e"
  px_rename :: "pb_byte_t list \<Rightarrow> pb_byte_t list \<Rightarrow> 'e \<Rightarrow> bool \<times> 'e"
  px_unlink :: "pb_byte_t list \<Rightarrow> 'e \<Rightarrow> bool \<times> 'e"
  px_errno_text :: "'e \<Rightarrow> pb_byte_t list"

text \<open>\<open>c_str\<close>: what a function of the C library sees of a string.\<close>

definition c_str :: "pb_byte_t list \<Rightarrow> pb_byte_t list" where
  "c_str s = takeWhile (\<lambda>b. b \<noteq> 0) s"

definition posix_IOError :: "('e, 'h) Posix \<Rightarrow> pb_byte_t list \<Rightarrow> 'e \<Rightarrow> Status" where
  "posix_IOError px context e = IOError context (px_errno_text px e)"

section \<open>Files\<close>

text \<open>A file of either class: its name and its stream, which is null after \<open>Close\<close>.\<close>

record 'h PosixFile =
  pf_name :: "pb_byte_t list"
  pf_stream :: "'h option"

text \<open>\<open>Append\<close> and \<open>Flush\<close> are those of the class on its stream alone.\<close>

definition stream_of :: "('e, 'h) Posix \<Rightarrow> 'h \<Rightarrow> 'e Stdio" where
  "stream_of px h = \<lparr>fwrite = (\<lambda>d. px_fwrite px d h), fflush = px_fflush px h, errno_text = px_errno_text px\<rparr>"

definition posix_Append ::
  "('e, 'h) Posix \<Rightarrow> pb_byte_t list \<Rightarrow> 'h PosixFile \<Rightarrow> 'e \<Rightarrow> (Status \<times> 'h PosixFile \<times> 'e) option" where
  "posix_Append px data w e =
     map_option (\<lambda>h. let (s, e) = wf_Append (PosixWritableFile (stream_of px h) (pf_name w)) data e in (s, w, e)) (pf_stream w)"

definition posix_Close :: "('e, 'h) Posix \<Rightarrow> 'h PosixFile \<Rightarrow> 'e \<Rightarrow> (Status \<times> 'h PosixFile \<times> 'e) option" where
  "posix_Close px w e =
     map_option (\<lambda>h.
       let (failed, e) = px_fclose px h e
       in (if failed then posix_IOError px (pf_name w) e else Status_OK, w\<lparr>pf_stream := None\<rparr>, e)) (pf_stream w)"

text \<open>The parts of a name before and behind its last slash.\<close>

definition base_of :: "pb_byte_t list \<Rightarrow> pb_byte_t list" where
  "base_of f = rev (takeWhile (\<lambda>b. b \<noteq> 0x2f) (rev f))"

definition dir_of :: "pb_byte_t list \<Rightarrow> pb_byte_t list" where
  "dir_of f = (if 0x2f \<in> set f then take (length f - length (base_of f) - 1) f else str ''.'')"

definition SyncDirIfManifest :: "('e, 'h) Posix \<Rightarrow> pb_byte_t list \<Rightarrow> 'e \<Rightarrow> Status \<times> 'e" where
  "SyncDirIfManifest px filename e =
     (let f = c_str filename; dir = dir_of f
      in if starts_with (base_of f) (str ''MANIFEST'') then
           let (fd, e) = px_open px dir e
           in if fd < 0 then (posix_IOError px dir e, e)
              else let (failed, e) = px_fsync px fd e;
                       s = (if failed then posix_IOError px dir e else Status_OK)
                in (s, px_close px fd e)
         else (Status_OK, e))"

definition posix_Sync :: "('e, 'h) Posix \<Rightarrow> 'h PosixFile \<Rightarrow> 'e \<Rightarrow> (Status \<times> 'h PosixFile \<times> 'e) option" where
  "posix_Sync px w e =
     (let (s, e) = SyncDirIfManifest px (pf_name w) e
      in if \<not> status_ok s then Some (s, w, e)
         else map_option (\<lambda>h.
           let (failed, e) = px_fflush px h e;
               (failed, e) = (if failed then (True, e) else px_fdatasync px h e)
           in (if failed then posix_IOError px (pf_name w) e else s, w, e)) (pf_stream w))"

definition posix_delete :: "('e, 'h) Posix \<Rightarrow> 'h PosixFile \<Rightarrow> 'e \<Rightarrow> 'e option" where
  "posix_delete px w e = Some (case pf_stream w of None \<Rightarrow> e | Some h \<Rightarrow> snd (px_fclose px h e))"

definition posix_Read ::
  "('e, 'h) Posix \<Rightarrow> nat \<Rightarrow> 'h PosixFile \<Rightarrow> 'e \<Rightarrow> (Status \<times> pb_byte_t list \<times> 'h PosixFile \<times> 'e) option" where
  "posix_Read px n q e =
     map_option (\<lambda>h.
       let (d, e) = px_fread px n h e;
           s = (if length d < n \<and> \<not> px_feof px h e then posix_IOError px (pf_name q) e else Status_OK)
       in (s, d, q, e)) (pf_stream q)"

definition posix_delete_sequential :: "('e, 'h) Posix \<Rightarrow> 'h PosixFile \<Rightarrow> 'e \<Rightarrow> 'e option" where
  "posix_delete_sequential px q e = map_option (\<lambda>h. snd (px_fclose px h e)) (pf_stream q)"

section \<open>The environment\<close>

definition posix_open_file ::
  "('e, 'h) Posix \<Rightarrow> bool \<Rightarrow> pb_byte_t list \<Rightarrow> 'e \<Rightarrow> Status \<times> 'h PosixFile option \<times> 'e" where
  "posix_open_file px writing fname e =
     (case px_fopen px (c_str fname) writing e of
        (None, e) \<Rightarrow> (posix_IOError px fname e, None, e)
      | (Some h, e) \<Rightarrow> (Status_OK, Some \<lparr>pf_name = fname, pf_stream = Some h\<rparr>, e))"

definition posix_NewSequentialFile ::
  "('e, 'h) Posix \<Rightarrow> pb_byte_t list \<Rightarrow> 'e \<Rightarrow> Status \<times> 'h PosixFile option \<times> 'e" where
  "posix_NewSequentialFile px = posix_open_file px False"

definition posix_NewWritableFile ::
  "('e, 'h) Posix \<Rightarrow> pb_byte_t list \<Rightarrow> 'e \<Rightarrow> Status \<times> 'h PosixFile option \<times> 'e" where
  "posix_NewWritableFile px = posix_open_file px True"

definition posix_DeleteFile :: "('e, 'h) Posix \<Rightarrow> pb_byte_t list \<Rightarrow> 'e \<Rightarrow> Status \<times> 'e" where
  "posix_DeleteFile px fname e =
     (let (failed, e) = px_unlink px (c_str fname) e in (if failed then posix_IOError px fname e else Status_OK, e))"

definition posix_RenameFile :: "('e, 'h) Posix \<Rightarrow> pb_byte_t list \<Rightarrow> pb_byte_t list \<Rightarrow> 'e \<Rightarrow> Status \<times> 'e" where
  "posix_RenameFile px src target e =
     (let (failed, e) = px_rename px (c_str src) (c_str target) e
      in (if failed then posix_IOError px src e else Status_OK, e))"

definition PosixEnv :: "('e, 'h) Posix \<Rightarrow> ('e, 'h PosixFile, 'h PosixFile) Env" where
  "PosixEnv px =
     \<lparr>env_NewWritableFile = posix_NewWritableFile px, env_NewSequentialFile = posix_NewSequentialFile px,
      env_RenameFile = posix_RenameFile px, env_DeleteFile = posix_DeleteFile px,
      file_Append = posix_Append px, file_Sync = posix_Sync px, file_Close = posix_Close px, file_delete = posix_delete px,
      seq_Read = posix_Read px, seq_delete = posix_delete_sequential px\<rparr>"

section \<open>What POSIX promises\<close>

text \<open>
  \<open>wst h e f b\<close>: stream \<open>h\<close> writes to the file \<open>f\<close>, whose contents with the buffer of the stream are \<open>b\<close>, if
  that is known; \<open>rst h e bs\<close>: it will read \<open>bs\<close>. A call that fails may have done a part of its work on
  the file of its stream, but \<open>rename\<close> is atomic. Names without a byte 0 name different files.
\<close>

abbreviation plain_name :: "pb_byte_t list \<Rightarrow> bool" where
  "plain_name f \<equiv> 0 \<notin> set f"

locale posix_fs =
  fixes px :: "('e, 'h) Posix" and files :: "'e \<Rightarrow> pb_byte_t list \<Rightarrow> pb_byte_t list option"
    and wst :: "'h \<Rightarrow> 'e \<Rightarrow> pb_byte_t list \<Rightarrow> pb_byte_t list option \<Rightarrow> bool" and rst :: "'h \<Rightarrow> 'e \<Rightarrow> pb_byte_t list \<Rightarrow> bool"
  assumes fopen_write: "plain_name f \<Longrightarrow> px_fopen px f True e = (r, e') \<Longrightarrow>
      unchanged plain_name files {f} e e' \<and> (\<forall>h. r = Some h \<longrightarrow> wst h e' f (Some []))"
    and fwrite_law: "wst h e f b \<Longrightarrow> px_fwrite px d h e = (n, e') \<Longrightarrow> unchanged plain_name files {f} e e' \<and>
      wst h e' f (if n = length d then map_option (\<lambda>x. x @ d) b else None)"
    and fflush_law: "wst h e f b \<Longrightarrow> px_fflush px h e = (failed, e') \<Longrightarrow> unchanged plain_name files {f} e e' \<and>
      wst h e' f (if failed then None else b)"
    and fdatasync_law: "wst h e f b \<Longrightarrow> px_fdatasync px h e = (failed, e') \<Longrightarrow> unchanged plain_name files {f} e e' \<and>
      wst h e' f b"
    and fclose_write: "wst h e f b \<Longrightarrow> px_fclose px h e = (failed, e') \<Longrightarrow> unchanged plain_name files {f} e e' \<and>
      (\<not> failed \<longrightarrow> b \<noteq> None \<longrightarrow> files e' f = b)"
    and open_law: "px_open px d e = (fd, e') \<Longrightarrow> unchanged plain_name files {} e e' \<and> (\<forall>h f b. wst h e f b \<longrightarrow> wst h e' f b)"
    and fsync_law: "px_fsync px fd e = (failed, e') \<Longrightarrow> unchanged plain_name files {} e e' \<and> (\<forall>h f b. wst h e f b \<longrightarrow> wst h e' f b)"
    and close_law: "unchanged plain_name files {} e (px_close px fd e) \<and> (wst h e f b \<longrightarrow> wst h (px_close px fd e) f b)"
    and rename_law: "plain_name f \<Longrightarrow> plain_name g \<Longrightarrow> f \<noteq> g \<Longrightarrow> px_rename px f g e = (failed, e') \<Longrightarrow>
      (if failed then unchanged plain_name files {} e e'
       else unchanged plain_name files {f, g} e e' \<and> files e' f = None \<and> files e' g = files e f)"
    and unlink_law: "plain_name f \<Longrightarrow> px_unlink px f e = (failed, e') \<Longrightarrow> unchanged plain_name files {f} e e' \<and>
      (\<not> failed \<longrightarrow> files e' f = None)"
    and fopen_read: "plain_name f \<Longrightarrow> px_fopen px f False e = (r, e') \<Longrightarrow>
      unchanged plain_name files {} e e' \<and> (\<forall>h. r = Some h \<longrightarrow> (\<exists>bs. files e f = Some bs \<and> rst h e' bs))"
    and fread_law: "rst h e bs \<Longrightarrow> px_fread px n h e = (d, e') \<Longrightarrow> unchanged plain_name files {} e e' \<and>
      (\<exists>bs'. bs = d @ bs' \<and> rst h e' bs' \<and> (length d < n \<longrightarrow> px_feof px h e' \<longrightarrow> bs' = []))"
    and fclose_read: "rst h e bs \<Longrightarrow> px_fclose px h e = (failed, e') \<Longrightarrow> unchanged plain_name files {} e e'"
begin

definition posix_wrepr :: "'h PosixFile \<Rightarrow> 'e \<Rightarrow> pb_byte_t list \<Rightarrow> file_state \<Rightarrow> bool" where
  "posix_wrepr w e f st \<longleftrightarrow>
     (case st of Closed \<Rightarrow> pf_stream w = None | Opened b \<Rightarrow> \<exists>h. pf_stream w = Some h \<and> wst h e f b)"

definition posix_qrepr :: "'h PosixFile \<Rightarrow> 'e \<Rightarrow> pb_byte_t list \<Rightarrow> bool" where
  "posix_qrepr q e bs \<longleftrightarrow> (\<exists>h. pf_stream q = Some h \<and> rst h e bs)"

lemma c_str_plain: "plain_name f \<Longrightarrow> c_str f = f"
  by (auto simp: c_str_def takeWhile_eq_all_conv)

lemma IOError_not_ok: "\<not> status_ok (posix_IOError px context e)"
  by (simp add: posix_IOError_def)

lemma append_posix:
  assumes "posix_wrepr w e f (Opened b)"
  shows "\<exists>s w' e' b'. posix_Append px d w e = Some (s, w', e') \<and> unchanged plain_name files {f} e e' \<and>
    posix_wrepr w' e' f (Opened b') \<and> (status_ok s \<longrightarrow> b' = map_option (\<lambda>x. x @ d) b)"
proof -
  obtain h where h: "pf_stream w = Some h" "wst h e f b" using assms by (auto simp: posix_wrepr_def)
  obtain n e' where n: "px_fwrite px d h e = (n, e')" by (cases "px_fwrite px d h e")
  have "posix_Append px d w e = Some (if n \<noteq> length d then IOError (pf_name w) (px_errno_text px e') else Status_OK, w, e')"
    using h(1) n by (simp add: posix_Append_def PosixWritableFile_def stream_of_def)
  moreover have "posix_wrepr w e' f (Opened (if n = length d then map_option (\<lambda>x. x @ d) b else None))"
    using fwrite_law [OF h(2) n] h(1) by (simp add: posix_wrepr_def)
  moreover have "unchanged plain_name files {f} e e'" using fwrite_law [OF h(2) n] by blast
  ultimately show ?thesis by (cases "n = length d") (fastforce simp: status_ok_simps)+
qed

lemma SyncDir_posix:
  assumes "wst h e f b" and "SyncDirIfManifest px name e = (s, e')"
  shows "unchanged plain_name files {} e e' \<and> wst h e' f b"
proof (cases "starts_with (base_of (c_str name)) (str ''MANIFEST'')")
  case False
  then show ?thesis using assms by (auto simp: SyncDirIfManifest_def Let_def unchanged_def)
next
  case True
  obtain fd e1 where o: "px_open px (dir_of (c_str name)) e = (fd, e1)" by (cases "px_open px (dir_of (c_str name)) e")
  have w1: "wst h e1 f b" and u1: "unchanged plain_name files {} e e1" using open_law [OF o] assms(1) by blast+
  show ?thesis
  proof (cases "fd < 0")
    case True
    then show ?thesis using assms(2) \<open>starts_with _ _\<close> o w1 u1 by (auto simp: SyncDirIfManifest_def Let_def)
  next
    case False
    obtain failed e2 where y: "px_fsync px fd e1 = (failed, e2)" by (cases "px_fsync px fd e1")
    have w2: "wst h e2 f b" and u2: "unchanged plain_name files {} e1 e2" using fsync_law [OF y] w1 by blast+
    have "e' = px_close px fd e2" using assms(2) True False o y by (auto simp: SyncDirIfManifest_def Let_def)
    then show ?thesis using close_law [of e2 fd h f b] w2 u1 u2 by (simp add: unchanged_def)
  qed
qed

lemma sync_posix:
  assumes "posix_wrepr w e f (Opened b)"
  shows "\<exists>s w' e' b'. posix_Sync px w e = Some (s, w', e') \<and> unchanged plain_name files {f} e e' \<and>
    posix_wrepr w' e' f (Opened b') \<and> (status_ok s \<longrightarrow> b' = b)"
proof -
  obtain h where h: "pf_stream w = Some h" "wst h e f b" using assms by (auto simp: posix_wrepr_def)
  obtain s e1 where d: "SyncDirIfManifest px (pf_name w) e = (s, e1)" by (cases "SyncDirIfManifest px (pf_name w) e")
  note D = SyncDir_posix [OF h(2) d]
  show ?thesis
  proof (cases "status_ok s")
    case False
    then show ?thesis using D d h(1) by (auto simp: posix_Sync_def posix_wrepr_def unchanged_def)
  next
    case True
    obtain x e2 where x: "px_fflush px h e1 = (x, e2)" by (cases "px_fflush px h e1")
    have X: "unchanged plain_name files {f} e1 e2" "wst h e2 f (if x then None else b)" using fflush_law [OF _ x] D by blast+
    obtain y e3 where y: "px_fdatasync px h e2 = (y, e3)" by (cases "px_fdatasync px h e2")
    have Y: "unchanged plain_name files {f} e2 e3" "wst h e3 f (if x then None else b)" using fdatasync_law [OF X(2) y] by blast+
    let ?s = "if x \<or> y then posix_IOError px (pf_name w) (if x then e2 else e3) else s" and ?e = "if x then e2 else e3"
    have "posix_Sync px w e = Some (?s, w, ?e)" using True d h(1) x y by (simp add: posix_Sync_def)
    moreover have "unchanged plain_name files {f} e ?e" using D X(1) Y(1) by (auto simp: unchanged_def)
    moreover have "posix_wrepr w ?e f (Opened (if x then None else b))" using h(1) X(2) Y(2) by (cases x) (simp_all add: posix_wrepr_def)
    ultimately show ?thesis using IOError_not_ok
      by - (rule exI [of _ ?s], rule exI [of _ w], rule exI [of _ ?e], rule exI [of _ "if x then None else b"], auto)
  qed
qed

lemma close_posix:
  assumes "posix_wrepr w e f (Opened b)"
  shows "\<exists>s w' e'. posix_Close px w e = Some (s, w', e') \<and> unchanged plain_name files {f} e e' \<and>
    posix_wrepr w' e' f Closed \<and> (status_ok s \<longrightarrow> b \<noteq> None \<longrightarrow> files e' f = b)"
proof -
  obtain h where h: "pf_stream w = Some h" "wst h e f b" using assms by (auto simp: posix_wrepr_def)
  obtain x e' where x: "px_fclose px h e = (x, e')" by (cases "px_fclose px h e")
  show ?thesis using fclose_write [OF h(2) x] h(1) x IOError_not_ok by (auto simp: posix_Close_def posix_wrepr_def)
qed

lemma read_posix:
  assumes "posix_qrepr q e bs"
  shows "\<exists>s d q' e' bs'. posix_Read px n q e = Some (s, d, q', e') \<and> unchanged plain_name files {} e e' \<and>
    posix_qrepr q' e' bs' \<and> (status_ok s \<longrightarrow> bs = d @ bs' \<and> (0 < n \<longrightarrow> d = [] \<longrightarrow> bs = []))"
proof -
  obtain h where h: "pf_stream q = Some h" "rst h e bs" using assms by (auto simp: posix_qrepr_def)
  obtain d e' where d: "px_fread px n h e = (d, e')" by (cases "px_fread px n h e")
  obtain bs' where b: "bs = d @ bs'" "rst h e' bs'" "length d < n \<longrightarrow> px_feof px h e' \<longrightarrow> bs' = []" "unchanged plain_name files {} e e'"
    using fread_law [OF h(2) d] by blast
  show ?thesis using b h(1) d IOError_not_ok by (auto simp: posix_Read_def posix_qrepr_def)
qed

lemma open_write_posix:
  assumes "plain_name f" and "posix_NewWritableFile px f e = (s, r, e')"
  shows "unchanged plain_name files {f} e e' \<and> (status_ok s \<longrightarrow> (\<exists>w. r = Some w \<and> posix_wrepr w e' f (Opened (Some []))))"
proof -
  obtain x e1 where x: "px_fopen px f True e = (x, e1)" by (cases "px_fopen px f True e")
  show ?thesis using fopen_write [OF assms(1) x] assms x IOError_not_ok
    by (auto simp: posix_NewWritableFile_def posix_open_file_def c_str_plain posix_wrepr_def split: option.splits)
qed

lemma open_read_posix:
  assumes "plain_name f" and "posix_NewSequentialFile px f e = (s, r, e')"
  shows "unchanged plain_name files {} e e' \<and> (status_ok s \<longrightarrow> (\<exists>q bs. r = Some q \<and> files e f = Some bs \<and> posix_qrepr q e' bs))"
proof -
  obtain x e1 where x: "px_fopen px f False e = (x, e1)" by (cases "px_fopen px f False e")
  show ?thesis using fopen_read [OF assms(1) x] assms x IOError_not_ok
    by (auto simp: posix_NewSequentialFile_def posix_open_file_def c_str_plain posix_qrepr_def split: option.splits)
qed

lemma rename_posix:
  assumes "plain_name f" "plain_name g" "f \<noteq> g" and b: "files e f = Some bs" and r: "posix_RenameFile px f g e = (s, e')"
  shows "if status_ok s then unchanged plain_name files {f, g} e e' \<and> files e' f = None \<and> files e' g = Some bs
    else unchanged plain_name files {} e e'"
proof -
  obtain x e1 where x: "px_rename px f g e = (x, e1)" by (cases "px_rename px f g e")
  show ?thesis using rename_law [OF assms(1-3) x] b r x IOError_not_ok assms(1,2)
    by (cases x) (auto simp: posix_RenameFile_def c_str_plain)
qed

lemma delete_posix:
  assumes "plain_name f" and "posix_DeleteFile px f e = (s, e')"
  shows "unchanged plain_name files {f} e e' \<and> (status_ok s \<longrightarrow> files e' f = None)"
proof -
  obtain x e1 where x: "px_unlink px f e = (x, e1)" by (cases "px_unlink px f e")
  show ?thesis using unlink_law [OF assms(1) x] assms x IOError_not_ok by (cases x) (auto simp: posix_DeleteFile_def c_str_plain)
qed

lemma destroy_write_posix:
  assumes "posix_wrepr w e f st"
  shows "\<exists>e'. posix_delete px w e = Some e' \<and> unchanged plain_name files (if st = Closed then {} else {f}) e e'"
proof (cases st)
  case (Opened b)
  then obtain h where h: "pf_stream w = Some h" "wst h e f b" using assms by (auto simp: posix_wrepr_def)
  obtain x e' where x: "px_fclose px h e = (x, e')" by (cases "px_fclose px h e")
  show ?thesis using fclose_write [OF h(2) x] h(1) x Opened by (simp add: posix_delete_def)
next
  case Closed
  then show ?thesis using assms by (simp add: posix_wrepr_def posix_delete_def unchanged_def)
qed

lemma destroy_read_posix:
  assumes "posix_qrepr q e bs"
  shows "\<exists>e'. posix_delete_sequential px q e = Some e' \<and> unchanged plain_name files {} e e'"
proof -
  obtain h where h: "pf_stream q = Some h" "rst h e bs" using assms by (auto simp: posix_qrepr_def)
  obtain x e' where x: "px_fclose px h e = (x, e')" by (cases "px_fclose px h e")
  show ?thesis using fclose_read [OF h(2) x] h(1) x by (simp add: posix_delete_sequential_def)
qed

end

text \<open>The environment of POSIX keeps the contract.\<close>

sublocale posix_fs \<subseteq> posix_env: env_contract "PosixEnv px" plain_name files posix_wrepr posix_qrepr
proof (rule env_contract.intro, unfold PosixEnv_def Env.select_convs)
qed (fact append_posix sync_posix close_posix destroy_write_posix delete_posix read_posix destroy_read_posix
    open_write_posix open_read_posix | (rule rename_posix; assumption))+

context posix_fs
begin

lemma posix_env_contract: "env_contract (PosixEnv px) plain_name files posix_wrepr posix_qrepr"
  by (rule posix_env.env_contract_axioms)

end

end
