(* ===== verification/LdbEnvSpec.thy ===== *)
theory LdbEnvSpec
  imports LdbFilename LdbPosix
begin

text \<open>
  The switch of the CURRENT file from end to end: \<open>SetCurrentFile\<close> over \<open>env.cc\<close> over any environment that keeps
  the contract, and over \<open>PosixEnv\<close> on a simulated system whose calls fail from some moment on, as
  they do for a process that is killed there.
\<close>

section \<open>A simulated system\<close>

text \<open>
  The files, the streams with the data that they buffer or still have to read, and how many more calls
  succeed.
\<close>

datatype sim_stream = Writing "pb_byte_t list" "pb_byte_t list" | Reading "pb_byte_t list" | Shut

record sim =
  sim_files :: "pb_byte_t list \<Rightarrow> pb_byte_t list option"
  sim_streams :: "sim_stream list"
  sim_calls :: nat

definition sim_stream :: "sim \<Rightarrow> nat \<Rightarrow> sim_stream" where
  "sim_stream e h = (if h < length (sim_streams e) then sim_streams e ! h else Shut)"

definition sim_set :: "nat \<Rightarrow> sim_stream \<Rightarrow> sim \<Rightarrow> sim" where
  "sim_set h st e = e\<lparr>sim_streams := (sim_streams e)[h := st]\<rparr>"

definition sim_new :: "sim_stream \<Rightarrow> sim \<Rightarrow> nat option \<times> sim" where
  "sim_new st e = (Some (length (sim_streams e)), e\<lparr>sim_streams := sim_streams e @ [st], sim_calls := sim_calls e - 1\<rparr>)"

definition sim_flush :: "pb_byte_t list \<Rightarrow> pb_byte_t list \<Rightarrow> sim \<Rightarrow> sim" where
  "sim_flush f buf e =
     e\<lparr>sim_files := (sim_files e)(f := map_option (\<lambda>c. c @ buf) (sim_files e f)), sim_calls := sim_calls e - 1\<rparr>"

definition sim_call :: "sim \<Rightarrow> bool \<times> sim" where
  "sim_call e = (sim_calls e = 0, e\<lparr>sim_calls := sim_calls e - 1\<rparr>)"

definition sim_posix :: "(sim, nat) Posix" where
  "sim_posix =
     \<lparr>px_fopen = (\<lambda>f writing e.
        if sim_calls e = 0 then (None, e)
        else if writing then sim_new (Writing f []) (e\<lparr>sim_files := (sim_files e)(f \<mapsto> [])\<rparr>)
        else (case sim_files e f of None \<Rightarrow> (None, e) | Some c \<Rightarrow> sim_new (Reading c) e)),
      px_fwrite = (\<lambda>d h e. case sim_stream e h of
          Writing f buf \<Rightarrow> if sim_calls e = 0 then (0, e) else (length d, sim_set h (Writing f (buf @ d)) (snd (sim_call e)))
        | _ \<Rightarrow> (0, e)),
      px_fflush = (\<lambda>h e. case sim_stream e h of
          Writing f buf \<Rightarrow> if sim_calls e = 0 then (True, e) else (False, sim_set h (Writing f []) (sim_flush f buf e))
        | _ \<Rightarrow> (True, e)),
      px_fdatasync = (\<lambda>h. sim_call),
      px_fclose = (\<lambda>h e. case sim_stream e h of
          Writing f buf \<Rightarrow> if sim_calls e = 0 then (True, sim_set h Shut e) else (False, sim_set h Shut (sim_flush f buf e))
        | _ \<Rightarrow> (False, sim_set h Shut e)),
      px_fread = (\<lambda>n h e. case sim_stream e h of
          Reading c \<Rightarrow> if sim_calls e = 0 then ([], e) else (take n c, sim_set h (Reading (drop n c)) (snd (sim_call e)))
        | _ \<Rightarrow> ([], e)),
      px_feof = (\<lambda>h e. sim_stream e h = Reading []),
      px_open = (\<lambda>f e. case sim_call e of (failed, e) \<Rightarrow> (if failed then -1 else 3, e)),
      px_fsync = (\<lambda>fd. sim_call),
      px_close = (\<lambda>fd e. e),
      px_rename = (\<lambda>f g e.
        if sim_calls e = 0 \<or> sim_files e f = None then (True, e)
        else (False, e\<lparr>sim_files := (if f = g then sim_files e else (sim_files e)(g := sim_files e f, f := None)), sim_calls := sim_calls e - 1\<rparr>)),
      px_unlink = (\<lambda>f e.
        if sim_calls e = 0 \<or> sim_files e f = None then (True, e)
        else (False, e\<lparr>sim_files := (sim_files e)(f := None), sim_calls := sim_calls e - 1\<rparr>)),
      px_errno_text = (\<lambda>e. str ''Input/output error'')\<rparr>"

definition sim_writes :: "nat \<Rightarrow> sim \<Rightarrow> pb_byte_t list \<Rightarrow> pb_byte_t list option \<Rightarrow> bool" where
  "sim_writes h e f b \<longleftrightarrow>
     (\<exists>buf. sim_stream e h = Writing f buf \<and> (\<forall>bs. b = Some bs \<longrightarrow> map_option (\<lambda>c. c @ buf) (sim_files e f) = Some bs))"

definition sim_reads :: "nat \<Rightarrow> sim \<Rightarrow> pb_byte_t list \<Rightarrow> bool" where
  "sim_reads h e bs \<longleftrightarrow> sim_stream e h = Reading bs"

lemma sim_stream_set: "sim_stream e h \<noteq> Shut \<Longrightarrow> sim_stream (sim_set h st e) h = st"
  by (auto simp: sim_stream_def sim_set_def split: if_splits)

lemma sim_stream_keep [simp]:
  "sim_stream (e\<lparr>sim_calls := n\<rparr>) h = sim_stream e h"
  "sim_stream (e\<lparr>sim_files := fs\<rparr>) h = sim_stream e h"
  "sim_files (sim_set h st e) = sim_files e"
  by (simp_all add: sim_stream_def sim_set_def)

lemma sim_stream_new: "sim_new st e = (Some h, e') \<Longrightarrow> sim_stream e' h = st \<and> sim_files e' = sim_files e"
  by (auto simp: sim_new_def sim_stream_def)

lemma sim_stream_flush [simp]: "sim_stream (sim_flush f buf e) h = sim_stream e h"
  by (simp add: sim_flush_def)

interpretation sim: posix_fs sim_posix sim_files sim_writes sim_reads
proof (rule posix_fs.intro)
  fix f e r e'
  assume "px_fopen sim_posix f True e = (r, e')"
  then show "unchanged plain_name sim_files {f} e e' \<and> (\<forall>h. r = Some h \<longrightarrow> sim_writes h e' f (Some []))"
    by (auto simp: sim_posix_def sim_writes_def unchanged_def sim_new_def sim_stream_def split: if_splits)
next
  fix h e f b d n e'
  assume "sim_writes h e f b" and "px_fwrite sim_posix d h e = (n, e')"
  then show "unchanged plain_name sim_files {f} e e' \<and> sim_writes h e' f (if n = length d then map_option (\<lambda>x. x @ d) b else None)"
    by (auto simp: sim_posix_def sim_writes_def unchanged_def sim_call_def sim_stream_set split: if_splits)
next
  fix h e f b failed e'
  assume "sim_writes h e f b" and "px_fflush sim_posix h e = (failed, e')"
  then show "unchanged plain_name sim_files {f} e e' \<and> sim_writes h e' f (if failed then None else b)"
    by (auto simp: sim_posix_def sim_writes_def unchanged_def sim_stream_set sim_flush_def split: if_splits)
next
  fix h e f b failed e'
  assume "sim_writes h e f b" and "px_fdatasync sim_posix h e = (failed, e')"
  then show "unchanged plain_name sim_files {f} e e' \<and> sim_writes h e' f b"
    by (auto simp: sim_posix_def sim_writes_def unchanged_def sim_call_def)
next
  fix h e f b failed e'
  assume "sim_writes h e f b" and "px_fclose sim_posix h e = (failed, e')"
  then show "unchanged plain_name sim_files {f} e e' \<and> (\<not> failed \<longrightarrow> b \<noteq> None \<longrightarrow> sim_files e' f = b)"
    by (auto simp: sim_posix_def sim_writes_def unchanged_def sim_flush_def split: if_splits)
next
  fix d e fd e'
  assume "px_open sim_posix d e = (fd, e')"
  then show "unchanged plain_name sim_files {} e e' \<and> (\<forall>h f b. sim_writes h e f b \<longrightarrow> sim_writes h e' f b)"
    by (auto simp: sim_posix_def sim_writes_def unchanged_def sim_call_def)
next
  fix fd e failed e'
  assume "px_fsync sim_posix fd e = (failed, e')"
  then show "unchanged plain_name sim_files {} e e' \<and> (\<forall>h f b. sim_writes h e f b \<longrightarrow> sim_writes h e' f b)"
    by (auto simp: sim_posix_def sim_writes_def unchanged_def sim_call_def)
next
  fix e fd h f b
  show "unchanged plain_name sim_files {} e (px_close sim_posix fd e) \<and> (sim_writes h e f b \<longrightarrow> sim_writes h (px_close sim_posix fd e) f b)"
    by (simp add: sim_posix_def unchanged_def)
next
  fix f g e failed e'
  assume "f \<noteq> g" and "px_rename sim_posix f g e = (failed, e')"
  then show "if failed then unchanged plain_name sim_files {} e e'
      else unchanged plain_name sim_files {f, g} e e' \<and> sim_files e' f = None \<and> sim_files e' g = sim_files e f"
    by (auto simp: sim_posix_def unchanged_def split: if_splits)
next
  fix f e failed e'
  assume "px_unlink sim_posix f e = (failed, e')"
  then show "unchanged plain_name sim_files {f} e e' \<and> (\<not> failed \<longrightarrow> sim_files e' f = None)"
    by (auto simp: sim_posix_def unchanged_def split: if_splits)
next
  fix f e r e'
  assume "px_fopen sim_posix f False e = (r, e')"
  then show "unchanged plain_name sim_files {} e e' \<and> (\<forall>h. r = Some h \<longrightarrow> (\<exists>bs. sim_files e f = Some bs \<and> sim_reads h e' bs))"
    by (auto simp: sim_posix_def sim_reads_def unchanged_def sim_new_def sim_stream_def split: if_splits option.splits)
next
  fix h e bs n d e'
  assume "sim_reads h e bs" and "px_fread sim_posix n h e = (d, e')"
  then show "unchanged plain_name sim_files {} e e' \<and>
      (\<exists>bs'. bs = d @ bs' \<and> sim_reads h e' bs' \<and> (length d < n \<longrightarrow> px_feof sim_posix h e' \<longrightarrow> bs' = []))"
    by (auto simp: sim_posix_def sim_reads_def unchanged_def sim_call_def sim_stream_set split: if_splits)
next
  fix h e bs failed e'
  assume "sim_reads h e bs" and "px_fclose sim_posix h e = (failed, e')"
  then show "unchanged plain_name sim_files {} e e'"
    by (auto simp: sim_posix_def sim_reads_def unchanged_def)
qed

section \<open>Switching CURRENT\<close>






end
