(* ===== verification/Spec2Isabelle.thy ===== *)
theory Spec2Isabelle
  imports DecodeProps Encode LdbKeyProps LdbFilterProps LdbFilename LdbMemTable LdbLogProps LdbVersionEdit LdbMergerProps
    LdbTableSpec LdbDBIterSpec LdbEnvSpec
begin

text \<open>
  The C and C++ code of this repository that carries its data: nanopb, the Protocol Buffers codec
  under \<open>src/meal-deals/Pods/nanopb/\<close>, and LevelDB, the key-value store under
  \<open>src/meal-deals/Pods/leveldb-library/\<close>, on a 64-bit little-endian machine.

  \<^bold>\<open>nanopb\<close> (\<open>pb.h\<close>, \<open>pb_common.c\<close>, \<open>pb_decode.c\<close>, \<open>pb_encode.c\<close>), as the
  build configures it: \<open>PB_FIELD_32BIT\<close> and \<open>PB_NO_PACKED_STRUCTS\<close>, without
  \<open>PB_ENABLE_MALLOC\<close>.

  Parts. A message struct is described by an array of field descriptors that ends with a field of
  tag 0. The iterator walks the array and computes the addresses of the members. The decoder reads
  a tag from the input stream, finds the field, decodes the value into the struct, recursively for
  submessages, each on a substream of the input; unknown fields are skipped, and in the end the
  required fields must have been seen. The encoder walks the array and writes tag and value to the
  output stream; the length of a submessage comes from a first pass on a stream that only counts.

  Theories.
  \<^item> \<open>Prelude\<close>: results of C functions (\<open>cres\<close>) and their weakest preconditions.
    \<open>None\<close> is undefined behaviour (or fuel used up), \<open>Rfalse\<close> the C value
    \<open>false\<close>, and the state is returned in both cases.
  \<^item> \<open>Memory\<close>: objects of bytes at integer addresses, loads and stores of words. Stores
    outside the objects are \<open>None\<close>.
  \<^item> \<open>Descriptor\<close> (\<open>pb.h\<close>): the type byte, \<open>pb_field_t\<close>, the macros of
    generated code, the extension structs.
  \<^item> \<open>FieldIter\<close> (\<open>pb_common.c\<close>): \<open>pb_field_iter_begin\<close>, \<open>next\<close> and
    \<open>find\<close>, with the layout they compute (\<open>iter_at\<close>).
  \<^item> \<open>InStream\<close>, \<open>DecodePrim\<close> (\<open>pb_decode.c\<close>): input streams, varints, tags,
    skipping, substreams, fixed-width integers. \<open>Varint\<close> and \<open>WireFormat\<close> relate the
    readers to the grammar of the wire format.
  \<^item> \<open>DecodeField\<close>, \<open>Decode\<close> (\<open>pb_decode.c\<close>): the field decoders, default
    values, extensions, \<open>pb_decode_noinit\<close>, \<open>pb_decode\<close>,
    \<open>pb_decode_delimited\<close>.
  \<^item> \<open>DecodeSafety\<close>, \<open>MessageSafety\<close>, \<open>DecodeProps\<close>: well-formed
    descriptors (\<open>wf_msg\<close>), safety and termination of the decoder, required fields.
  \<^item> \<open>OutStream\<close>, \<open>EncodePrim\<close>, \<open>EncodeField\<close>, \<open>Encode\<close>
    (\<open>pb_encode.c\<close>): output streams, primitive, field and message encoders.
  \<^item> \<open>CodecProps\<close>: the properties of the primitive codecs.

  Interfaces. \<open>in_contract\<close> and \<open>in_content\<close> (\<open>InStream\<close>) state what the
  decoder relies on from a stream's callback, \<open>out_content\<close> (\<open>OutStream\<close>) what the
  encoder relies on, \<open>decode_contract\<close> (\<open>DecodeSafety\<close>) what \<open>pb_decode\<close> relies on
  from the callbacks of the fields. They are interpreted on \<open>buf_read\<close>, \<open>buf_write\<close> and
  a callback that copies the string of its field.

  State. The decoder's state is the input stream and the memory; the encoder's the output stream
  and the memory, which only user callbacks change. The bytes of a buffer stream are kept in the
  stream, apart from the memory: a caller does not decode into the buffer it decodes from. Pointers
  to descriptor arrays are the arrays themselves, so a descriptor is a finite tree: a message type
  that contains itself through a static submessage has no finite struct, and through a pointer it
  needs \<open>PB_ENABLE_MALLOC\<close> to be decoded.

  Fuel. Message nesting, chains of extensions and loops over user callbacks have no bound in the
  code, so \<open>pb_decode\<close> and \<open>pb_encode\<close> take fuel. For the decoder, fuel above the bytes
  left in the stream and not below the depth of the descriptor is enough
  (\<open>pb_decode_safe\<close>): each round of a loop takes a byte, and a submessage is shorter than
  its message. Inner loops that a measure bounds (varints, skipping, strings) have none.

  \<^bold>\<open>LevelDB\<close>: from the bytes up to the tables and the memtable, which hold its data, and the log
  and the version edits, from which it recovers. A result \<open>None\<close> is a failing assert, an access out of
  bounds or a null pointer; an error of the code is a \<open>Status\<close>.

  Parts. Updates are collected in a write batch, appended to the log as a record, and added
  to the memtable, a skip list of internal keys (user key, sequence number, type). A table builder
  turns ordered entries into a file: blocks with prefix compression, a filter block, an index of
  the blocks, a footer. A table reads them back, block by block, through a cache; iterators over
  blocks, over a table (two levels) and over several sources (merged) have one interface. A version
  edit records which files make up the database.

  Theories, by file under \<open>leveldb-library/\<close>.
  \<^item> \<open>LdbCoding\<close> (\<open>util/coding\<close>, \<open>slice.h\<close>), \<open>LdbHash\<close> (\<open>util/hash\<close>,
    \<open>random\<close>), \<open>LdbLogging\<close> (\<open>util/logging\<close>, \<open>status\<close>), \<open>LdbCrc\<close>
    (\<open>util/crc32c\<close>): integers, slices, hashes, messages and checksums.
    \<open>VarintFormat\<close> is the varint grammar, shared with nanopb.
  \<^item> \<open>LdbOrder\<close>, \<open>LdbComparator\<close> (\<open>util/comparator\<close>, \<open>db/dbformat\<close>),
    \<open>LdbKeyProps\<close>: what an order of keys is, the comparators, internal keys.
  \<^item> \<open>LdbFilterBlock\<close> (\<open>util/bloom\<close>, \<open>table/filter_block\<close>), \<open>LdbFilterProps\<close>.
  \<^item> \<open>LdbFile\<close> (\<open>env.h\<close>: the files that the log and the tables use), \<open>LdbEnv\<close> (\<open>env.h\<close>,
    \<open>util/env\<close>: the environment, writing and reading whole files), \<open>LdbPosix\<close> (\<open>util/env_posix\<close>: the writable and
    sequential files, renaming and deletion), \<open>LdbFilename\<close> (\<open>db/filename\<close>: names, \<open>SetCurrentFile\<close>),
    \<open>LdbEnvSpec\<close>: the switch of the CURRENT file is atomic.
  \<^item> \<open>LdbWriteBatch\<close> (\<open>db/write_batch\<close>).
  \<^item> \<open>LdbSkipList\<close> (\<open>db/skiplist.h\<close>), \<open>LdbMemTable\<close> (\<open>db/memtable\<close>).
  \<^item> \<open>LdbLog\<close>, \<open>LdbLogReader\<close> (\<open>db/log_writer\<close>, \<open>log_reader\<close>),
    \<open>LdbLogProps\<close>: the log, and recovery from any cut of it.
  \<^item> \<open>LdbVersionEdit\<close> (\<open>db/version_edit\<close>).
  \<^item> \<open>LdbIterator\<close> (\<open>iterator.h\<close>, \<open>table/iterator\<close>, \<open>iterator_wrapper.h\<close>):
    the interface, and its contract: a cursor over a sorted list.
  \<^item> \<open>LdbBlock\<close> (\<open>table/block_builder\<close>, \<open>block\<close>), \<open>LdbBlockLayout\<close>,
    \<open>LdbBlockProps\<close>; \<open>LdbMerger\<close> (\<open>table/merger\<close>), \<open>LdbMergerProps\<close>;
    \<open>LdbTwoLevel\<close> (\<open>table/two_level_iterator\<close>), \<open>LdbTwoLevelProps\<close>: the iterators keep
    the contract.
  \<^item> \<open>LdbCache\<close> (\<open>util/cache\<close>), \<open>LdbCacheProps\<close>, \<open>LdbCacheContract\<close>: the LRU cache,
    its invariant, and what a client of the interface relies on.
  \<^item> \<open>LdbFormat\<close> (\<open>table/format\<close>, \<open>options\<close>), \<open>LdbTableBuilder\<close>
    (\<open>table/table_builder\<close>), \<open>LdbTable\<close> (\<open>table/table\<close>), \<open>LdbTableBuildProps\<close>,
    \<open>LdbTableProps\<close>, \<open>LdbTableSpec\<close>: tables; the first two theories of proofs are about
    the writer and the reader, the last composes them.
  \<^item> \<open>LdbDBIter\<close> (\<open>db/db_iter\<close>), \<open>LdbRandom\<close>, \<open>LdbDBIterProps\<close>, \<open>LdbDBIterSpec\<close>: the
    iterator over a database, which shows of the internal entries the state at a sequence number.

  Interfaces. \<open>key_order\<close>, \<open>comparator_contract\<close> (comparators, with separators),
  \<open>filter_policy\<close>, \<open>iterator_contract\<close>, \<open>cache_contract\<close>, \<open>snappy_codec\<close>,
  \<open>reliable_file\<close>, \<open>honest_file\<close> (a file that may fail, but says so),
  \<open>stdio\<close>, \<open>random_access\<close>, \<open>posix_fs\<close> (the system calls), \<open>env_contract\<close> (an environment whose
  operations may fail), and over them \<open>merging\<close>, \<open>two_level\<close>,
  \<open>db_iter\<close> and \<open>table_store\<close>. They are interpreted on the bytewise and internal comparators, the Bloom
  filter, the iterators of blocks, mergers and tables, the sharded LRU cache, and files in memory as the tests
  of the repository have them; \<open>env_contract\<close> on \<open>PosixEnv\<close> over every \<open>posix_fs\<close>, and that on a simulated
  system with a bound on the calls that succeed. Snappy, the C library and the system are parameters, as
  they are not in the repository.

  Recursion. Loops over lists and buffers are structural or have a measure. \<open>ReadRecord\<close> of the log
  takes fuel, more than the bytes of the log being enough (\<open>log_recovery\<close>). The loops of the
  two-level iterator over empty blocks, those of the database iterator, the search of the skip list and
  the reading of a whole file are
  partial functions; that they return is part of the theorems.

  Concurrency and ownership. Operations are sequential: those of the cache under its mutex, the skip
  list and the memtable as a single writer runs them. Memory that destructors free is modelled where it
  is counted (cache, memtable). A two-level iterator deletes the iterators that it replaces and, when it is
  destroyed, the ones that it has; for a table this releases their handles of the cache, and \<open>table_get\<close> shows
  that none stays held. The charges and reference counts of the cache are natural numbers, where the code has
  \<open>size_t\<close> and 32-bit counters.

  \<^bold>\<open>Not modelled.\<close> \<open>allocate_field\<close>, \<open>pb_release\<close> and the pointer decoder of
  nanopb (compiled only with \<open>PB_ENABLE_MALLOC\<close>); extensions are modelled, and excluded from
  \<open>wf_msg\<close>. Of LevelDB the database itself (\<open>db_impl\<close>, \<open>version_set\<close>,
  \<open>repair\<close>), whose threads, files and background work its parts serve; of the environment the files that are
  mapped or read with \<open>pread\<close>, locks, directories, the logger and threads; the C interface, tools and tests. The Swift application and the other pods,
  which are headers of closed libraries or user interface code.
\<close>

end
